(* ===== verification/Prelude.thy ===== *)
theory Prelude
  imports Main "HOL-Library.Word" "HOL-Library.Monad_Syntax"
begin

text \<open>
  The shared layer of the development: the machine types of the Rust sources, the
  checked, saturating and rounding-up integer operations they use, big-endian and
  little-endian byte encodings, and generic facts on lists and on the option monad.

  Conventions. A sequence number or a wire field is a word of its width. A byte count, a
  window, a clock value or an array index (\<open>u32\<close>, \<open>u64\<close>, \<open>usize\<close>)
  is a \<open>nat\<close> whose width is written out where the source saturates, wraps or can
  overflow. A function that can panic (an out-of-range slice, an arithmetic overflow, an
  underflow) or that can fail to return has an \<open>option\<close> result and yields
  \<open>None\<close> there, so that \<open>Some\<close> is a statement that the code runs to its end.
\<close>

unbundle bit_operations_syntax

type_synonym u8 = "8 word"
type_synonym u16 = "16 word"
type_synonym u32 = "32 word"
type_synonym u64 = "64 word"
type_synonym bytes = "8 word list"

named_theorems window_simps \<open>serial comparisons inside one window, as offsets\<close>
named_theorems wire_simps \<open>lengths, reads and writes of wire buffers\<close>

section \<open>Integer operations of the Rust standard library\<close>

definition U32_MAX :: nat where
  "U32_MAX = 4294967295"

definition U64_MAX :: nat where
  "U64_MAX = 18446744073709551615"

definition sat_add32 :: "nat \<Rightarrow> nat \<Rightarrow> nat" where
  "sat_add32 a b = min (a + b) U32_MAX"

definition sat_add64 :: "nat \<Rightarrow> nat \<Rightarrow> nat" where
  "sat_add64 a b = min (a + b) U64_MAX"

definition sat_mul32 :: "nat \<Rightarrow> nat \<Rightarrow> nat" where
  "sat_mul32 a b = min (a * b) U32_MAX"

definition sat_mul64 :: "nat \<Rightarrow> nat \<Rightarrow> nat" where
  "sat_mul64 a b = min (a * b) U64_MAX"

definition clamp_nat :: "nat \<Rightarrow> nat \<Rightarrow> nat \<Rightarrow> nat" where
  "clamp_nat x lo hi = (if x < lo then lo else if hi < x then hi else x)"

definition div_ceil :: "nat \<Rightarrow> nat \<Rightarrow> nat" where
  "div_ceil a b = a div b + (if a mod b = 0 then 0 else 1)"

definition abs_diff :: "nat \<Rightarrow> nat \<Rightarrow> nat" where
  "abs_diff a b = (if a < b then b - a else a - b)"

text \<open>A \<open>u32\<close> result that does not fit overflows; a subtraction below zero underflows.\<close>

definition chk32 :: "nat \<Rightarrow> nat option" where
  "chk32 n = (if n \<le> U32_MAX then Some n else None)"

definition chk64 :: "nat \<Rightarrow> nat option" where
  "chk64 n = (if n \<le> U64_MAX then Some n else None)"

definition chk_sub :: "nat \<Rightarrow> nat \<Rightarrow> nat option" where
  "chk_sub a b = (if b \<le> a then Some (a - b) else None)"

text \<open>\<open>&buf[i..j]\<close> panics unless \<open>i \<le> j\<close> and \<open>j\<close> is within the buffer.\<close>

definition sub_slice :: "'a list \<Rightarrow> nat \<Rightarrow> nat \<Rightarrow> 'a list option" where
  "sub_slice xs i j = (if i \<le> j \<and> j \<le> length xs then Some (take (j - i) (drop i xs)) else None)"

text \<open>\<open>buf[i..i + len].copy_from_slice(src)\<close>, with the same panic.\<close>

definition copy_into :: "'a list \<Rightarrow> nat \<Rightarrow> 'a list \<Rightarrow> 'a list option" where
  "copy_into xs i ys =
     (if i + length ys \<le> length xs
      then Some (take i xs @ ys @ drop (i + length ys) xs) else None)"

lemma div_ceil_bounds:
  assumes "0 < b"
  shows "a \<le> b * div_ceil a b" and "b * div_ceil a b < a + b"
proof -
  define q r where "q = a div b" and "r = a mod b"
  have eq: "a = b * q + r" and lt: "r < b" using assms by (simp_all add: q_def r_def)
  have c: "b * div_ceil a b = b * q + (if r = 0 then 0 else b)"
    by (simp add: div_ceil_def add_mult_distrib2 q_def r_def)
  show "a \<le> b * div_ceil a b"
    unfolding c using eq lt by auto
  show "b * div_ceil a b < a + b"
    unfolding c using eq lt assms by auto
qed

lemma div_ceil_le:
  assumes "0 < b" and "a \<le> b * c"
  shows "div_ceil a b \<le> c"
proof -
  have "b * div_ceil a b < b * (c + 1)"
    using div_ceil_bounds(2)[OF assms(1), of a] assms(2) by (simp add: algebra_simps)
  then have "div_ceil a b < c + 1" using assms(1) mult_less_cancel1 by blast
  then show ?thesis by simp
qed

lemma clamp_nat_bounds: "lo \<le> hi \<Longrightarrow> lo \<le> clamp_nat x lo hi \<and> clamp_nat x lo hi \<le> hi"
  by (simp add: clamp_nat_def)

lemma chk32_Some_iff: "chk32 n = Some m \<longleftrightarrow> n = m \<and> n \<le> U32_MAX"
  by (auto simp: chk32_def)

lemma chk_sub_Some_iff: "chk_sub a b = Some c \<longleftrightarrow> b \<le> a \<and> c = a - b"
  by (auto simp: chk_sub_def)

lemma sub_slice_length: "sub_slice xs i j = Some ys \<Longrightarrow> length ys = j - i"
  by (auto simp: sub_slice_def split: if_splits)

lemma copy_into_length: "copy_into xs i ys = Some zs \<Longrightarrow> length zs = length xs"
  by (auto simp: copy_into_def split: if_splits)

lemma copy_into_nth:
  assumes "copy_into xs i ys = Some zs" and "k < length xs"
  shows "zs ! k = (if i \<le> k \<and> k < i + length ys then ys ! (k - i) else xs ! k)"
  using assms by (auto simp: copy_into_def nth_append split: if_splits)

section \<open>Byte encodings\<close>

definition u16_from_be :: "u8 \<Rightarrow> u8 \<Rightarrow> u16" where
  "u16_from_be a b = word_of_nat (256 * unat a + unat b)"

definition u16_to_be :: "u16 \<Rightarrow> bytes" where
  "u16_to_be w = [word_of_nat (unat w div 256), word_of_nat (unat w)]"

definition u32_from_be :: "u8 \<Rightarrow> u8 \<Rightarrow> u8 \<Rightarrow> u8 \<Rightarrow> u32" where
  "u32_from_be a b c d =
     word_of_nat (16777216 * unat a + 65536 * unat b + 256 * unat c + unat d)"

definition u32_to_be :: "u32 \<Rightarrow> bytes" where
  "u32_to_be w = [word_of_nat (unat w div 16777216), word_of_nat (unat w div 65536),
                  word_of_nat (unat w div 256), word_of_nat (unat w)]"

fun u64_from_le :: "bytes \<Rightarrow> u64" where
  "u64_from_le [] = 0"
| "u64_from_le (b # bs) = ucast b + 256 * u64_from_le bs"

lemma unat_u8_bound [simp]: "unat (b :: u8) < 256"
  using unsigned_less[of b] by simp

lemma unat_u16_bound [simp]: "unat (w :: u16) < 65536"
  using unsigned_less[of w] by simp

lemma unat_u32_bound [simp]: "unat (w :: u32) < 4294967296"
  using unsigned_less[of w] by simp

lemma unat_minus_one_u32 [simp]: "unat (- 1 :: u32) = 4294967295"
  by (simp add: unsigned_minus_1_eq_mask mask_eq_exp_minus_1)

lemma unat_word_of_nat_u8: "unat (word_of_nat n :: u8) = n mod 256"
  by (simp add: unat_of_nat)

lemma unat_word_of_nat_u16: "unat (word_of_nat n :: u16) = n mod 65536"
  by (simp add: unat_of_nat)

lemma unat_word_of_nat_u32: "unat (word_of_nat n :: u32) = n mod 4294967296"
  by (simp add: unat_of_nat)

lemma length_u16_to_be [simp, wire_simps]: "length (u16_to_be w) = 2"
  by (simp add: u16_to_be_def)

lemma length_u32_to_be [simp, wire_simps]: "length (u32_to_be w) = 4"
  by (simp add: u32_to_be_def)

lemma unat_u16_from_be: "unat (u16_from_be a b) = 256 * unat a + unat b"
proof -
  have "256 * unat a + unat b < 65536"
    using unat_u8_bound[of a] unat_u8_bound[of b] by linarith
  then show ?thesis unfolding u16_from_be_def unat_word_of_nat_u16 by simp
qed

lemma unat_u32_from_be:
  "unat (u32_from_be a b c d) = 16777216 * unat a + 65536 * unat b + 256 * unat c + unat d"
proof -
  have "16777216 * unat a + 65536 * unat b + 256 * unat c + unat d < 4294967296"
    using unat_u8_bound[of a] unat_u8_bound[of b] unat_u8_bound[of c] unat_u8_bound[of d]
    by linarith
  then show ?thesis unfolding u32_from_be_def unat_word_of_nat_u32 by simp
qed

lemma u16_be_roundtrip [simp]:
  "u16_from_be (word_of_nat (unat w div 256)) (word_of_nat (unat w)) = w"
proof -
  have "unat w div 256 < 256" using unat_u16_bound[of w] by (simp add: less_mult_imp_div_less)
  then have "256 * (unat w div 256 mod 256) + unat w mod 256 = unat w"
    by simp
  then show ?thesis
    by (simp add: word_unat_eq_iff unat_u16_from_be unat_word_of_nat_u8 del: of_nat_unat)
qed

lemma base256_digits:
  fixes n :: nat
  assumes "n < 4294967296"
  shows "16777216 * (n div 16777216 mod 256) + 65536 * (n div 65536 mod 256)
      + 256 * (n div 256 mod 256) + n mod 256 = n"
proof -
  define q1 q2 q3 where "q1 = n div 256" and "q2 = q1 div 256" and "q3 = q2 div 256"
  have d: "n div 65536 = q2" "n div 16777216 = q3" "n div 256 = q1"
    by (simp_all add: q1_def q2_def q3_def div_mult2_eq[symmetric])
  have "q3 < 256" using assms by (simp add: q1_def q2_def q3_def div_mult2_eq[symmetric] less_mult_imp_div_less)
  moreover have "n = 256 * q1 + n mod 256" "q1 = 256 * q2 + q1 mod 256" "q2 = 256 * q3 + q2 mod 256"
    by (simp_all add: q1_def q2_def q3_def)
  ultimately show ?thesis unfolding d by (simp add: mod_less)
qed

lemma u32_be_roundtrip [simp]:
  "u32_from_be (word_of_nat (unat w div 16777216)) (word_of_nat (unat w div 65536))
     (word_of_nat (unat w div 256)) (word_of_nat (unat w)) = w"
  by (simp add: word_unat_eq_iff unat_u32_from_be unat_word_of_nat_u8 base256_digits
      del: of_nat_unat)

section \<open>Lists and options\<close>

lemma bind_Some_iff: "(m \<bind> f) = Some y \<longleftrightarrow> (\<exists>x. m = Some x \<and> f x = Some y)"
  by (cases m) auto

lemma min_list_insert_nth:
  "i \<le> length xs \<Longrightarrow> set (take i xs @ y # drop i xs) = insert y (set xs)"
  by (metis Un_insert_right append_take_drop_id list.simps(15) set_append)

end
