(* ===== verification/Seq_Number.thy ===== *)
theory Seq_Number
  imports Prelude
begin

text \<open>
  \<open>seq.rs\<close>: RFC 1982 serial-number arithmetic on 32-bit sequence numbers. The newtype
  \<open>SeqNumber(u32)\<close> is a 32-bit word; every comparison is the sign of the wrapped
  difference, as in the source. The central fact is that inside one window (numbers less
  than \<open>2\<^sup>3\<^sup>1\<close> ahead of a common base) the serial comparisons are the ordinary order of
  the offsets from that base; the locale \<open>serial_window\<close> states it as the interface
  that the scoreboard and the reassembly buffer rely on.
\<close>

type_synonym seqnum = u32

definition distance :: "seqnum \<Rightarrow> seqnum \<Rightarrow> int" where
  "distance self other = sint (self - other)"

definition offset_from :: "seqnum \<Rightarrow> seqnum \<Rightarrow> nat" where
  "offset_from self base = unat (self - base)"

definition seq_lt :: "seqnum \<Rightarrow> seqnum \<Rightarrow> bool" where
  "seq_lt self other \<longleftrightarrow> distance self other < 0"

definition seq_le :: "seqnum \<Rightarrow> seqnum \<Rightarrow> bool" where
  "seq_le self other \<longleftrightarrow> distance self other \<le> 0"

definition seq_gt :: "seqnum \<Rightarrow> seqnum \<Rightarrow> bool" where
  "seq_gt self other \<longleftrightarrow> distance self other > 0"

definition seq_ge :: "seqnum \<Rightarrow> seqnum \<Rightarrow> bool" where
  "seq_ge self other \<longleftrightarrow> distance self other \<ge> 0"

definition seq_min :: "seqnum \<Rightarrow> seqnum \<Rightarrow> seqnum" where
  "seq_min self other = (if seq_le self other then self else other)"

definition seq_max :: "seqnum \<Rightarrow> seqnum \<Rightarrow> seqnum" where
  "seq_max self other = (if seq_ge self other then self else other)"

text \<open>\<open>seq + len\<close>: the \<open>u32\<close> count is reduced modulo \<open>2\<^sup>3\<^sup>2\<close> by the cast at the call.\<close>

definition seq_add :: "seqnum \<Rightarrow> nat \<Rightarrow> seqnum" where
  "seq_add self rhs = self + word_of_nat rhs"

section \<open>The signed distance as an unsigned offset\<close>

lemma sint_u32:
  "sint (x :: u32) = (if unat x < 2147483648 then int (unat x) else int (unat x) - 4294967296)"
proof -
  define u where "u = uint x"
  have e: "int (unat x) = u" by (simp add: u_def)
  have u: "0 \<le> u" "u < 4294967296"
    using uint_lt2p[of x] by (simp_all add: u_def)
  have "sint x = (u + 2147483648) mod 4294967296 - 2147483648"
    unfolding sint_uint u_def by (simp add: signed_take_bit_eq_take_bit_shift take_bit_eq_mod)
  also have "\<dots> = (if u < 2147483648 then u else u - 4294967296)"
  proof (cases "u < 2147483648")
    case True
    then have "(u + 2147483648) mod 4294967296 = u + 2147483648"
      using u by (intro mod_pos_pos_trivial) linarith+
    then show ?thesis using True by simp
  next
    case False
    have "(u + 2147483648) mod 4294967296 = (u - 2147483648 + 4294967296) mod 4294967296"
      by (simp add: add.commute)
    also have "\<dots> = (u - 2147483648) mod 4294967296" by (rule mod_add_self2)
    also have "\<dots> = u - 2147483648" using u False by (intro mod_pos_pos_trivial) linarith+
    finally show ?thesis using False by simp
  qed
  also have "(u < 2147483648) = (unat x < 2147483648)" using e by linarith
  finally show ?thesis by (simp only: e)
qed
lemma offset_from_bound [simp]: "offset_from x y < 4294967296"
  by (simp add: offset_from_def)

lemma offset_from_self [simp]: "offset_from x x = 0"
  by (simp add: offset_from_def)

lemma distance_offset:
  "distance x y = (if offset_from x y < 2147483648 then int (offset_from x y)
                   else int (offset_from x y) - 4294967296)"
  by (simp add: distance_def offset_from_def sint_u32)

lemma seq_lt_offset: "seq_lt x y \<longleftrightarrow> 2147483648 \<le> offset_from x y"
  using offset_from_bound[of x y] by (auto simp: seq_lt_def distance_offset simp del: offset_from_bound)

lemma seq_ge_not_lt: "seq_ge x y \<longleftrightarrow> \<not> seq_lt x y"
  by (auto simp: seq_ge_def seq_lt_def)

lemma seq_gt_not_le: "seq_gt x y \<longleftrightarrow> \<not> seq_le x y"
  by (auto simp: seq_gt_def seq_le_def)

lemma offset_from_eq_0_iff [simp]: "offset_from x y = 0 \<longleftrightarrow> x = y"
  by (auto simp: offset_from_def unat_eq_zero)

lemma seq_le_lt_or_eq: "seq_le x y \<longleftrightarrow> seq_lt x y \<or> x = y"
  using offset_from_bound[of x y] offset_from_eq_0_iff[of x y]
  by (simp add: seq_le_def seq_lt_def distance_offset del: offset_from_bound)

lemma offset_from_rebase:
  "offset_from x y = (if offset_from y b \<le> offset_from x b then offset_from x b - offset_from y b
                      else offset_from x b + 4294967296 - offset_from y b)"
proof -
  have "x - y = (x - b) - (y - b)" by simp
  then have "unat (x - y) = unat ((x - b) - (y - b))" by simp
  also have "\<dots> = (if unat (y - b) \<le> unat (x - b) then unat (x - b) - unat (y - b)
                  else unat (x - b) + 4294967296 - unat (y - b))"
    using unat_sub_if_size[of "x - b" "y - b"] by (simp add: word_size)
  finally show ?thesis by (simp add: offset_from_def)
qed

lemma offset_from_add:
  assumes "offset_from x b + n < 4294967296"
  shows "offset_from (seq_add x n) b = offset_from x b + n"
proof -
  have "offset_from (seq_add x n) b = unat ((x - b) + word_of_nat n)"
    by (simp add: seq_add_def offset_from_def algebra_simps)
  moreover have "unat (word_of_nat n :: u32) = n"
    unfolding unat_word_of_nat_u32 using assms by simp
  ultimately show ?thesis using assms
    by (simp add: offset_from_def unat_word_ariths)
qed

lemma offset_from_inj: "offset_from x b = offset_from y b \<Longrightarrow> x = y"
  by (simp add: offset_from_def word_unat_eq_iff[symmetric])

section \<open>The interface: one window of sequence space is a linear order\<close>

locale serial_window =
  fixes lt le gt ge :: "'s \<Rightarrow> 's \<Rightarrow> bool"
    and off :: "'s \<Rightarrow> 's \<Rightarrow> nat"
    and add :: "'s \<Rightarrow> nat \<Rightarrow> 's"
    and half :: nat
  assumes lt_window: "off x b < half \<Longrightarrow> off y b < half \<Longrightarrow> lt x y \<longleftrightarrow> off x b < off y b"
    and le_window: "off x b < half \<Longrightarrow> off y b < half \<Longrightarrow> le x y \<longleftrightarrow> off x b \<le> off y b"
    and gt_window: "off x b < half \<Longrightarrow> off y b < half \<Longrightarrow> gt x y \<longleftrightarrow> off y b < off x b"
    and ge_window: "off x b < half \<Longrightarrow> off y b < half \<Longrightarrow> ge x y \<longleftrightarrow> off y b \<le> off x b"
    and off_base: "off b b = 0"
    and off_inj: "off x b = off y b \<Longrightarrow> x = y"
    and off_diff: "off x b \<le> off y b \<Longrightarrow> off y x = off y b - off x b"
    and off_add: "off x b + n < half \<Longrightarrow> off (add x n) b = off x b + n"
begin

lemma lt_trans:
  "off x b < half \<Longrightarrow> off y b < half \<Longrightarrow> off z b < half \<Longrightarrow> lt x y \<Longrightarrow> lt y z \<Longrightarrow> lt x z"
  by (simp add: lt_window[where b = b])

lemma trichotomy: "off x b < half \<Longrightarrow> off y b < half \<Longrightarrow> lt x y \<or> x = y \<or> lt y x"
  using off_inj[of x b y] by (auto simp: lt_window[where b = b])

lemma lt_asym: "off x b < half \<Longrightarrow> off y b < half \<Longrightarrow> lt x y \<Longrightarrow> \<not> lt y x"
  by (simp add: lt_window[where b = b])

lemma add_moves_forward:
  assumes "off x b + n < half" and "0 < n"
  shows "lt x (add x n)" and "off (add x n) x = n"
proof -
  have o: "off (add x n) b = off x b + n" using assms(1) by (rule off_add)
  then show "lt x (add x n)" using assms by (simp add: lt_window[where b = b])
  show "off (add x n) x = n" using off_diff[of x b "add x n"] o by simp
qed

lemma interval_length: "le x y \<Longrightarrow> off x b < half \<Longrightarrow> off y b < half \<Longrightarrow> off y b = off x b + off y x"
  using off_diff[of x b y] by (simp add: le_window[where b = b])

end

lemma seq_lt_window:
  assumes "offset_from x b < 2147483648" and "offset_from y b < 2147483648"
  shows "seq_lt x y \<longleftrightarrow> offset_from x b < offset_from y b"
  using assms offset_from_rebase[of x y b] by (auto simp: seq_lt_offset)

interpretation sw: serial_window seq_lt seq_le seq_gt seq_ge offset_from seq_add 2147483648
proof (unfold_locales, goal_cases)
  case (1 x b y)
  then show ?case by (rule seq_lt_window)
next
  case (2 x b y)
  then show ?case
    using offset_from_inj[of x b y] seq_lt_window[of x b y]
    by (auto simp: seq_le_lt_or_eq le_less)
next
  case (3 x b y)
  then show ?case
    using offset_from_inj[of x b y] seq_lt_window[of x b y]
      nat_neq_iff[of "offset_from x b" "offset_from y b"]
    by (auto simp: seq_gt_not_le seq_le_lt_or_eq)
next
  case (4 x b y)
  then show ?case by (simp add: seq_ge_not_lt seq_lt_window[of x b y] not_less)
next
  case (5 b)
  show ?case by simp
next
  case (6 x b y)
  then show ?case by (rule offset_from_inj)
next
  case (7 x b y)
  then show ?case by (simp add: offset_from_rebase[of y x b])
next
  case (8 x b n)
  then show ?case by (intro offset_from_add) simp
qed

lemmas seq_window = sw.lt_window sw.le_window sw.gt_window sw.ge_window

text \<open>
  Serial comparison is exact inside a window. For any base and any two sequence numbers
  fewer than \<open>2\<^sup>3\<^sup>1\<close> bytes ahead of it, \<open>lt\<close>, \<open>le\<close>, \<open>gt\<close> and
  \<open>ge\<close> order them by how far they are from the base, whether or not the window crosses
  the \<open>2\<^sup>3\<^sup>2\<close> wrap, and \<open>min\<close> and \<open>max\<close> pick the nearer and the farther one.
\<close>

theorem serial_comparison_exact:
  assumes "offset_from x b < 2147483648" and "offset_from y b < 2147483648"
  shows "(seq_lt x y \<longleftrightarrow> offset_from x b < offset_from y b)
       \<and> (seq_le x y \<longleftrightarrow> offset_from x b \<le> offset_from y b)
       \<and> (seq_gt x y \<longleftrightarrow> offset_from x b > offset_from y b)
       \<and> (seq_ge x y \<longleftrightarrow> offset_from x b \<ge> offset_from y b)
       \<and> offset_from (seq_min x y) b = min (offset_from x b) (offset_from y b)
       \<and> offset_from (seq_max x y) b = max (offset_from x b) (offset_from y b)"
  using assms by (auto simp: seq_window[where b = b] seq_min_def seq_max_def)

theorem serial_comparison_exact_witness:
  "offset_from 5 4294967280 = 21 \<and> seq_lt 4294967295 5 \<and> seq_gt 5 4294967295
   \<and> seq_min 5 4294967295 = 4294967295"
proof -
  have o: "offset_from 5 4294967280 = 21" "offset_from 4294967295 4294967280 = 15"
    by (simp_all add: offset_from_def)
  have "seq_lt 4294967295 5" and "seq_gt 5 4294967295" and "seq_le 4294967295 5"
    using serial_comparison_exact[of 4294967295 4294967280 5]
      serial_comparison_exact[of 5 4294967280 4294967295] o by simp_all
  then show ?thesis using o by (simp add: seq_min_def seq_gt_not_le)
qed

text \<open>
  Advancing a sequence number by a byte count below \<open>2\<^sup>3\<^sup>1\<close> moves it strictly forward, by
  exactly that count, also across the wrap.
\<close>

theorem seq_add_moves_forward:
  assumes "0 < n" and "n < 2147483648"
  shows "seq_lt s (seq_add s n) \<and> offset_from (seq_add s n) s = n
       \<and> distance (seq_add s n) s = int n"
proof -
  have o: "offset_from (seq_add s n) s = n"
    using offset_from_add[of s s n] assms(2) by simp
  moreover have "seq_lt s (seq_add s n)"
    using sw.add_moves_forward(1)[of s s n] assms by simp
  ultimately show ?thesis using assms(2) by (simp add: distance_offset)
qed

theorem seq_add_moves_forward_witness:
  "seq_lt 4294967295 (seq_add 4294967295 2) \<and> seq_add 4294967295 2 = 1"
proof -
  have "seq_lt 4294967295 (seq_add 4294967295 2)"
    using seq_add_moves_forward[of 2 4294967295] by simp
  then show ?thesis by (simp add: seq_add_def)
qed

end
