(* ===== verification/Clock.thy ===== *)
theory Clock
  imports Prelude
begin

text \<open>
  \<open>time.rs\<close>: the injected monotonic clock. An \<open>Instant\<close> is a count of
  microseconds (\<open>u64\<close>); all arithmetic on it saturates.
\<close>

type_synonym instant = nat

definition from_millis :: "nat \<Rightarrow> instant" where
  "from_millis millis = sat_mul64 millis 1000"

definition instant_millis :: "instant \<Rightarrow> nat" where
  "instant_millis self = self div 1000"

definition saturating_micros_since :: "instant \<Rightarrow> instant \<Rightarrow> nat" where
  "saturating_micros_since self earlier = self - earlier"

definition plus_millis :: "instant \<Rightarrow> nat \<Rightarrow> instant" where
  "plus_millis self millis = sat_add64 self (sat_mul64 millis 1000)"

definition plus_micros :: "instant \<Rightarrow> nat \<Rightarrow> instant" where
  "plus_micros self micros = sat_add64 self micros"

lemma plus_micros_mono: "self \<le> U64_MAX \<Longrightarrow> self \<le> plus_micros self n"
  by (simp add: plus_micros_def sat_add64_def)

lemma plus_millis_mono: "self \<le> U64_MAX \<Longrightarrow> self \<le> plus_millis self n"
  by (simp add: plus_millis_def sat_add64_def)

lemma plus_micros_strict: "self + n \<le> U64_MAX \<Longrightarrow> plus_micros self n = self + n"
  by (simp add: plus_micros_def sat_add64_def)

end
