(* ===== verification/Ring_Buffer.thy ===== *)
theory Ring_Buffer
  imports Prelude
begin

text \<open>
  \<open>buffers.rs\<close>: the bounded byte ring used as send queue and as receive queue. The
  \<open>VecDeque\<close> is a list of bytes. The locale \<open>byte_fifo\<close> is the contract the
  connection relies on (bytes leave in the order they were accepted, none is lost, invented
  or reordered); the ring buffer is interpreted as an instance of it.
\<close>

record ring_buffer =
  rb_buf :: bytes
  rb_capacity :: nat

definition with_capacity :: "nat \<Rightarrow> ring_buffer" where
  "with_capacity capacity = \<lparr>rb_buf = [], rb_capacity = capacity\<rparr>"

definition rb_len :: "ring_buffer \<Rightarrow> nat" where
  "rb_len self = length (rb_buf self)"

definition rb_is_empty :: "ring_buffer \<Rightarrow> bool" where
  "rb_is_empty self \<longleftrightarrow> rb_buf self = []"

text \<open>
  \<open>capacity - len\<close> on \<open>usize\<close>; the subtraction is exact because every
  operation keeps \<open>rb_inv\<close> below.
\<close>

definition rb_free :: "ring_buffer \<Rightarrow> nat" where
  "rb_free self = rb_capacity self - length (rb_buf self)"

definition rb_write :: "ring_buffer \<Rightarrow> bytes \<Rightarrow> ring_buffer \<times> nat" where
  "rb_write self data =
     (let n = min (length data) (rb_free self)
      in (self\<lparr>rb_buf := rb_buf self @ take n data\<rparr>, n))"

text \<open>The copy loop of \<open>peek\<close>: source bytes, destination, index, bytes copied.\<close>

fun peek_loop :: "bytes \<Rightarrow> bytes \<Rightarrow> nat \<Rightarrow> bytes \<times> nat" where
  "peek_loop [] dst n = (dst, n)"
| "peek_loop (byte # src) dst n =
     (if n \<ge> length dst then (dst, n) else peek_loop src (dst[n := byte]) (n + 1))"

definition rb_peek :: "ring_buffer \<Rightarrow> nat \<Rightarrow> bytes \<Rightarrow> bytes \<times> nat" where
  "rb_peek self offset dst = peek_loop (drop offset (rb_buf self)) dst 0"

definition rb_consume :: "ring_buffer \<Rightarrow> nat \<Rightarrow> ring_buffer \<times> nat" where
  "rb_consume self n =
     (let n = min n (length (rb_buf self))
      in (self\<lparr>rb_buf := drop n (rb_buf self)\<rparr>, n))"

text \<open>
  \<open>read\<close> pops into a destination of \<open>len\<close> bytes: the bytes copied, which are the
  first \<open>n\<close> of the destination, are the second result.
\<close>

definition rb_read :: "ring_buffer \<Rightarrow> nat \<Rightarrow> ring_buffer \<times> bytes" where
  "rb_read self len =
     (let n = min len (length (rb_buf self))
      in (self\<lparr>rb_buf := drop n (rb_buf self)\<rparr>, take n (rb_buf self)))"

definition rb_inv :: "ring_buffer \<Rightarrow> bool" where
  "rb_inv self \<longleftrightarrow> length (rb_buf self) \<le> rb_capacity self"

section \<open>The contract: a bounded first-in first-out byte stream\<close>

datatype fifo_op = Write bytes | Consume nat | Read nat

text \<open>
  A run of operations: the bytes accepted by the writes, the bytes that left by reads and
  consumes, and the final queue.
\<close>

fun fifo_run :: "('q \<Rightarrow> bytes) \<Rightarrow> ('q \<Rightarrow> bytes \<Rightarrow> 'q \<times> nat) \<Rightarrow> ('q \<Rightarrow> nat \<Rightarrow> 'q \<times> nat) \<Rightarrow>
    ('q \<Rightarrow> nat \<Rightarrow> 'q \<times> bytes) \<Rightarrow> fifo_op list \<Rightarrow> 'q \<Rightarrow> bytes \<times> bytes \<times> 'q" where
  "fifo_run cont wr co rd [] q = ([], [], q)"
| "fifo_run cont wr co rd (Write d # ops) q =
     (case wr q d of (q', n) \<Rightarrow>
       (case fifo_run cont wr co rd ops q' of (acc, out, r) \<Rightarrow> (take n d @ acc, out, r)))"
| "fifo_run cont wr co rd (Consume k # ops) q =
     (case co q k of (q', n) \<Rightarrow>
       (case fifo_run cont wr co rd ops q' of (acc, out, r) \<Rightarrow> (acc, take n (cont q) @ out, r)))"
| "fifo_run cont wr co rd (Read k # ops) q =
     (case rd q k of (q', d) \<Rightarrow>
       (case fifo_run cont wr co rd ops q' of (acc, out, r) \<Rightarrow> (acc, d @ out, r)))"

locale byte_fifo =
  fixes contents :: "'q \<Rightarrow> bytes"
    and capacity :: "'q \<Rightarrow> nat"
    and inv :: "'q \<Rightarrow> bool"
    and wr :: "'q \<Rightarrow> bytes \<Rightarrow> 'q \<times> nat"
    and co :: "'q \<Rightarrow> nat \<Rightarrow> 'q \<times> nat"
    and rd :: "'q \<Rightarrow> nat \<Rightarrow> 'q \<times> bytes"
  assumes bounded: "inv q \<Longrightarrow> length (contents q) \<le> capacity q"
    and write_law: "inv q \<Longrightarrow> wr q d = (q', n) \<Longrightarrow>
      inv q' \<and> capacity q' = capacity q \<and> contents q' = contents q @ take n d
      \<and> n = min (length d) (capacity q - length (contents q))"
    and consume_law: "inv q \<Longrightarrow> co q k = (q', n) \<Longrightarrow>
      inv q' \<and> capacity q' = capacity q \<and> n = min k (length (contents q))
      \<and> contents q = take n (contents q) @ contents q'"
    and read_law: "inv q \<Longrightarrow> rd q k = (q', d) \<Longrightarrow>
      inv q' \<and> capacity q' = capacity q \<and> length d = min k (length (contents q))
      \<and> contents q = d @ contents q'"
begin

lemma run_preserves_stream:
  assumes "inv q" and "fifo_run contents wr co rd ops q = (acc, out, r)"
  shows "inv r \<and> capacity r = capacity q \<and> contents q @ acc = out @ contents r"
  using assms
proof (induction ops arbitrary: q acc out)
  case Nil
  then show ?case by simp
next
  case (Cons op ops)
  show ?case
  proof (cases op)
    case (Write d)
    obtain q' n where w: "wr q d = (q', n)" by fastforce
    obtain a o' where r: "fifo_run contents wr co rd ops q' = (a, o', r)" "acc = take n d @ a" "out = o'"
      using Cons.prems(2) w Write by (auto split: prod.splits)
    show ?thesis using Cons.IH[OF _ r(1)] write_law[OF Cons.prems(1) w] r(2,3) by simp
  next
    case (Consume k)
    obtain q' n where w: "co q k = (q', n)" by fastforce
    obtain a o' where r: "fifo_run contents wr co rd ops q' = (a, o', r)" "acc = a"
      "out = take n (contents q) @ o'"
      using Cons.prems(2) w Consume by (auto split: prod.splits)
    show ?thesis
      using Cons.IH[OF _ r(1)] consume_law[OF Cons.prems(1) w] r(2,3) by (metis append_assoc)
  next
    case (Read k)
    obtain q' d where w: "rd q k = (q', d)" by fastforce
    obtain a o' where r: "fifo_run contents wr co rd ops q' = (a, o', r)" "acc = a" "out = d @ o'"
      using Cons.prems(2) w Read by (auto split: prod.splits)
    show ?thesis
      using Cons.IH[OF _ r(1)] read_law[OF Cons.prems(1) w] r(2,3) by (metis append_assoc)
  qed
qed

lemma run_bounded:
  "inv q \<Longrightarrow> fifo_run contents wr co rd ops q = (acc, out, r) \<Longrightarrow> length (contents r) \<le> capacity q"
  using run_preserves_stream bounded by metis

end

lemma rb_inv_with_capacity [simp]: "rb_inv (with_capacity c)"
  by (simp add: rb_inv_def with_capacity_def)

interpretation rbq: byte_fifo rb_buf rb_capacity rb_inv rb_write rb_consume rb_read
proof (unfold_locales, goal_cases)
  case (1 q)
  then show ?case by (simp add: rb_inv_def)
next
  case (2 q d q' n)
  then show ?case by (auto simp: rb_inv_def rb_write_def rb_free_def Let_def)
next
  case (3 q k q' n)
  then show ?case by (auto simp: rb_inv_def rb_consume_def Let_def)
next
  case (4 q k q' d)
  then show ?case by (auto simp: rb_inv_def rb_read_def Let_def)
qed

lemma rb_free_len: "rb_inv self \<Longrightarrow> rb_free self + rb_len self = rb_capacity self"
  by (simp add: rb_inv_def rb_free_def rb_len_def)

text \<open>The copy loop is one block copy.\<close>

lemma peek_loop_eq:
  assumes "n \<le> length dst"
  shows "peek_loop src dst n =
    (take n dst @ take (length dst - n) src @ drop (n + min (length dst - n) (length src)) dst,
     n + min (length dst - n) (length src))"
  using assms
proof (induction src dst n rule: peek_loop.induct)
  case (1 dst n)
  then show ?case by simp
next
  case (2 byte src dst n)
  show ?case
  proof (cases "n \<ge> length dst")
    case True
    with "2.prems" show ?thesis by simp
  next
    case False
    then have m: "length dst - n = Suc (length dst - Suc n)" by simp
    have t: "take (Suc n) (dst[n := byte]) = take n dst @ [byte]"
      using False by (simp add: take_Suc_conv_app_nth)
    have d: "drop k (dst[n := byte]) = drop k dst" if "n < k" for k
      using that by simp
    show ?thesis using False 2 by (simp add: m t d)
  qed
qed

lemma rb_peek_eq:
  "rb_peek self offset dst =
     (let c = take (length dst) (drop offset (rb_buf self))
      in (c @ drop (length c) dst, length c))"
  by (simp add: rb_peek_def peek_loop_eq Let_def min.commute)

lemma rb_peek_full:
  assumes "offset + n \<le> rb_len self"
  shows "rb_peek self offset (replicate n 0) = (take n (drop offset (rb_buf self)), n)"
  using assms by (simp add: rb_peek_eq rb_len_def Let_def)

text \<open>
  C21: the ring buffer is a lossless bounded byte stream. Starting from an empty ring, after
  any sequence of writes, consumes and reads the bytes that left followed by the bytes still
  held are exactly the bytes the writes accepted, in order, and the ring never holds more
  than its capacity.
\<close>

theorem ring_buffer_stream:
  assumes "fifo_run rb_buf rb_write rb_consume rb_read ops (with_capacity c) = (acc, out, r)"
  shows "acc = out @ rb_buf r \<and> rb_len r \<le> c \<and> rb_free r + rb_len r = c"
proof -
  have inv: "rb_inv r \<and> rb_capacity r = c \<and> acc = out @ rb_buf r"
    using rbq.run_preserves_stream[OF rb_inv_with_capacity assms]
    by (simp add: with_capacity_def)
  then show ?thesis using rb_free_len[of r] by (simp add: rb_inv_def rb_len_def)
qed

theorem ring_buffer_stream_witness:
  "fifo_run rb_buf rb_write rb_consume rb_read [Write [1, 2, 3, 4, 5], Consume 2, Write [6], Read 2]
     (with_capacity 4) = ([1, 2, 3, 4, 6], [1, 2, 3, 4], \<lparr>rb_buf = [6], rb_capacity = 4\<rparr>)
   \<and> [1, 2, 3, 4, 6] = [1, 2, 3, 4] @ rb_buf \<lparr>rb_buf = [6 :: u8], rb_capacity = 4\<rparr>"
proof -
  have run: "fifo_run rb_buf rb_write rb_consume rb_read
      [Write [1, 2, 3, 4, 5], Consume 2, Write [6], Read 2] (with_capacity 4)
      = ([1, 2, 3, 4, 6], [1, 2, 3, 4], \<lparr>rb_buf = [6], rb_capacity = 4\<rparr>)"
    by code_simp
  show ?thesis by (rule conjI[OF run conjunct1[OF ring_buffer_stream[OF run]]])
qed

text \<open>
  \<open>peek\<close> copies exactly the bytes at the offset, as many as both the ring and the
  destination have, leaves the rest of the destination as it was, and never changes the ring.
\<close>

theorem peek_copies_block:
  "rb_peek self offset dst =
     (take (length dst) (drop offset (rb_buf self))
        @ drop (min (length dst) (rb_len self - offset)) dst,
      min (length dst) (rb_len self - offset))"
  by (simp add: rb_peek_eq rb_len_def Let_def min.commute)

end
