(* ===== verification/Rtt_Estimator.thy ===== *)
theory Rtt_Estimator
  imports Prelude
begin

text \<open>
  \<open>rtt.rs\<close>: the RFC 6298 retransmission-timeout estimator, in microseconds. Every
  \<open>u32\<close> product and sum is checked: \<open>None\<close> is an arithmetic overflow.
\<close>

definition INITIAL_RTO :: nat where "INITIAL_RTO = 1000000"
definition MIN_RTO :: nat where "MIN_RTO = 200000"
definition MAX_RTO :: nat where "MAX_RTO = 60000000"
definition CLOCK_GRANULARITY :: nat where "CLOCK_GRANULARITY = 1000"
definition RTT_K :: nat where "RTT_K = 4"
definition REBOOTSTRAP_AFTER :: nat where "REBOOTSTRAP_AFTER = 3"

lemmas rtt_consts = INITIAL_RTO_def MIN_RTO_def MAX_RTO_def CLOCK_GRANULARITY_def RTT_K_def
  REBOOTSTRAP_AFTER_def U32_MAX_def

record rtt_estimator =
  srtt :: nat
  rttvar :: nat
  base_rto :: nat
  rto :: nat
  have_measurement :: bool
  consecutive_timeouts :: nat

definition rtt_new :: rtt_estimator where
  "rtt_new = \<lparr>srtt = 0, rttvar = 0, base_rto = INITIAL_RTO, rto = INITIAL_RTO,
     have_measurement = False, consecutive_timeouts = 0\<rparr>"

definition rto_micros :: "rtt_estimator \<Rightarrow> nat" where
  "rto_micros self = rto self"

definition srtt_micros :: "rtt_estimator \<Rightarrow> nat option" where
  "srtt_micros self = (if have_measurement self then Some (srtt self) else None)"

text \<open>The estimator update: the new \<open>RTTVAR\<close> uses the old \<open>SRTT\<close>.\<close>

definition rtt_smooth :: "rtt_estimator \<Rightarrow> nat \<Rightarrow> (nat \<times> nat) option" where
  "rtt_smooth self r =
     (if \<not> have_measurement self then Some (r, r div 2)
      else do {
        let delta = abs_diff (srtt self) r;
        v3 \<leftarrow> chk32 (3 * rttvar self);
        v \<leftarrow> chk32 (v3 + delta);
        s7 \<leftarrow> chk32 (7 * srtt self);
        s \<leftarrow> chk32 (s7 + r);
        Some (div_ceil s 8, div_ceil v 4)
      })"

definition rtt_on_sample :: "rtt_estimator \<Rightarrow> nat \<Rightarrow> rtt_estimator option" where
  "rtt_on_sample self r =
     do {
       let r = min r MAX_RTO;
       (s, v) \<leftarrow> rtt_smooth self r;
       kv \<leftarrow> chk32 (RTT_K * v);
       let margin = max kv CLOCK_GRANULARITY;
       let b = clamp_nat (sat_add32 s margin) MIN_RTO MAX_RTO;
       Some \<lparr>srtt = s, rttvar = v, base_rto = b, rto = b,
         have_measurement = True, consecutive_timeouts = 0\<rparr>
     }"

definition rtt_on_clean_ack :: "rtt_estimator \<Rightarrow> rtt_estimator" where
  "rtt_on_clean_ack self = self\<lparr>rto := base_rto self, consecutive_timeouts := 0\<rparr>"

definition rtt_on_timeout :: "rtt_estimator \<Rightarrow> rtt_estimator option" where
  "rtt_on_timeout self =
     do {
       d \<leftarrow> chk32 (rto self * 2);
       c \<leftarrow> chk32 (consecutive_timeouts self + 1);
       Some (self\<lparr>rto := min d MAX_RTO, consecutive_timeouts := c,
         have_measurement := (if c \<ge> REBOOTSTRAP_AFTER then False else have_measurement self)\<rparr>)
     }"

section \<open>Invariant\<close>

definition rtt_inv :: "rtt_estimator \<Rightarrow> bool" where
  "rtt_inv e \<longleftrightarrow> srtt e \<le> MAX_RTO \<and> rttvar e \<le> MAX_RTO
     \<and> MIN_RTO \<le> base_rto e \<and> base_rto e \<le> MAX_RTO
     \<and> base_rto e \<le> rto e \<and> rto e \<le> MAX_RTO"

lemma rtt_inv_new: "rtt_inv rtt_new"
  by (simp add: rtt_inv_def rtt_new_def rtt_consts)

lemma rtt_smooth_total:
  assumes "srtt e \<le> MAX_RTO" and "rttvar e \<le> MAX_RTO" and "r \<le> MAX_RTO"
  shows "\<exists>s v. rtt_smooth e r = Some (s, v) \<and> s \<le> MAX_RTO \<and> v \<le> MAX_RTO
    \<and> (have_measurement e \<longrightarrow> min (srtt e) r \<le> s \<and> s \<le> max (srtt e) r)"
proof (cases "have_measurement e")
  case False
  then show ?thesis using assms by (simp add: rtt_smooth_def)
next
  case True
  define d where "d = abs_diff (srtt e) r"
  have d: "d \<le> MAX_RTO" using assms by (auto simp: d_def abs_diff_def)
  have eq: "rtt_smooth e r = Some (div_ceil (7 * srtt e + r) 8, div_ceil (3 * rttvar e + d) 4)"
    using True assms d by (simp add: rtt_smooth_def d_def[symmetric] chk32_def rtt_consts)
  have "7 * srtt e + r \<le> 8 * max (srtt e) r" by simp
  then have hi: "div_ceil (7 * srtt e + r) 8 \<le> max (srtt e) r" by (intro div_ceil_le) simp_all
  have "8 * min (srtt e) r \<le> 7 * srtt e + r" by simp
  also have "\<dots> \<le> 8 * div_ceil (7 * srtt e + r) 8" by (rule div_ceil_bounds) simp
  finally have lo: "min (srtt e) r \<le> div_ceil (7 * srtt e + r) 8" by simp
  have v: "div_ceil (3 * rttvar e + d) 4 \<le> MAX_RTO"
    using assms d by (intro div_ceil_le) simp_all
  show ?thesis using eq hi lo v assms by simp
qed

lemma rtt_on_sample_total:
  assumes "rtt_inv e"
  shows "\<exists>e'. rtt_on_sample e r = Some e' \<and> rtt_inv e' \<and> have_measurement e'
    \<and> consecutive_timeouts e' = 0 \<and> rto e' = base_rto e'
    \<and> rtt_smooth e (min r MAX_RTO) = Some (srtt e', rttvar e')
    \<and> rto e' = clamp_nat (sat_add32 (srtt e') (max (RTT_K * rttvar e') CLOCK_GRANULARITY))
        MIN_RTO MAX_RTO"
proof -
  obtain s v where sv: "rtt_smooth e (min r MAX_RTO) = Some (s, v)" "s \<le> MAX_RTO" "v \<le> MAX_RTO"
    using rtt_smooth_total[of e "min r MAX_RTO"] assms by (auto simp: rtt_inv_def)
  have kv: "chk32 (RTT_K * v) = Some (RTT_K * v)" using sv(3) by (simp add: chk32_def rtt_consts)
  show ?thesis
    using sv kv clamp_nat_bounds[of MIN_RTO MAX_RTO]
    by (simp add: rtt_on_sample_def rtt_inv_def MIN_RTO_def MAX_RTO_def Let_def)
qed

lemma rtt_on_clean_ack_inv: "rtt_inv e \<Longrightarrow> rtt_inv (rtt_on_clean_ack e)"
  by (simp add: rtt_inv_def rtt_on_clean_ack_def)

lemma rtt_on_timeout_total:
  assumes "rtt_inv e" and "consecutive_timeouts e < U32_MAX"
  shows "\<exists>e'. rtt_on_timeout e = Some e' \<and> rtt_inv e' \<and> rto e' = min (2 * rto e) MAX_RTO
    \<and> base_rto e' = base_rto e \<and> consecutive_timeouts e' = consecutive_timeouts e + 1
    \<and> srtt e' = srtt e \<and> rttvar e' = rttvar e"
proof -
  have "chk32 (rto e * 2) = Some (2 * rto e)"
    using assms(1) by (simp add: chk32_def rtt_inv_def rtt_consts)
  moreover have "chk32 (consecutive_timeouts e + 1) = Some (consecutive_timeouts e + 1)"
    using assms(2) by (simp add: chk32_def)
  ultimately show ?thesis
    using assms(1) by (auto simp: rtt_on_timeout_def rtt_inv_def MIN_RTO_def)
qed

section \<open>Event sequences\<close>

datatype rtt_event = Sample nat | CleanAck | Timeout

definition rtt_event :: "rtt_estimator \<Rightarrow> rtt_event \<Rightarrow> rtt_estimator option" where
  "rtt_event e ev = (case ev of Sample r \<Rightarrow> rtt_on_sample e r
     | CleanAck \<Rightarrow> Some (rtt_on_clean_ack e) | Timeout \<Rightarrow> rtt_on_timeout e)"

fun rtt_run :: "rtt_estimator \<Rightarrow> rtt_event list \<Rightarrow> rtt_estimator option" where
  "rtt_run e [] = Some e"
| "rtt_run e (ev # evs) = do { e' \<leftarrow> rtt_event e ev; rtt_run e' evs }"

lemma rtt_run_total:
  assumes "rtt_inv e" and "consecutive_timeouts e + length evs \<le> U32_MAX"
  shows "\<exists>e'. rtt_run e evs = Some e' \<and> rtt_inv e'"
  using assms
proof (induction evs arbitrary: e)
  case Nil
  then show ?case by simp
next
  case (Cons ev evs)
  have "\<exists>e'. rtt_event e ev = Some e' \<and> rtt_inv e'
      \<and> consecutive_timeouts e' \<le> consecutive_timeouts e + 1"
  proof (cases ev)
    case (Sample r)
    then show ?thesis using rtt_on_sample_total[OF Cons.prems(1), of r]
      by (auto simp: rtt_event_def)
  next
    case CleanAck
    then show ?thesis using rtt_on_clean_ack_inv[OF Cons.prems(1)]
      by (auto simp: rtt_event_def rtt_on_clean_ack_def)
  next
    case Timeout
    then show ?thesis using rtt_on_timeout_total[OF Cons.prems(1)] Cons.prems(2)
      by (auto simp: rtt_event_def)
  qed
  then obtain e' where e': "rtt_event e ev = Some e'" "rtt_inv e'"
    "consecutive_timeouts e' \<le> consecutive_timeouts e + 1" by blast
  then have "\<exists>e''. rtt_run e' evs = Some e'' \<and> rtt_inv e''"
    using Cons.prems(2) by (intro Cons.IH) simp_all
  then show ?case using e'(1) by simp
qed

lemma min_scale_cap: "1 \<le> k \<Longrightarrow> min (k * min a m) m = min (k * a) (m :: nat)"
proof (cases "a \<le> m")
  case False
  assume "1 \<le> k"
  then have "m \<le> k * m" and "a \<le> k * a" by simp_all
  moreover from this False have "m \<le> k * a" by linarith
  ultimately show ?thesis using False by (simp only: min_absorb2 nat_le_linear not_le less_imp_le)
qed (simp add: min_absorb1)

lemma rtt_timeouts:
  assumes "rtt_inv e" and "consecutive_timeouts e + n \<le> U32_MAX"
  shows "\<exists>e'. rtt_run e (replicate n Timeout) = Some e' \<and> rto e' = min (2 ^ n * rto e) MAX_RTO
    \<and> base_rto e' = base_rto e
    \<and> have_measurement e' = (have_measurement e
         \<and> (n = 0 \<or> consecutive_timeouts e + n < REBOOTSTRAP_AFTER))"
  using assms
proof (induction n arbitrary: e)
  case 0
  then show ?case by (simp add: rtt_inv_def)
next
  case (Suc n)
  obtain e1 where e1: "rtt_on_timeout e = Some e1" "rtt_inv e1" "rto e1 = min (2 * rto e) MAX_RTO"
    "base_rto e1 = base_rto e" "consecutive_timeouts e1 = consecutive_timeouts e + 1"
    using rtt_on_timeout_total[OF Suc.prems(1)] Suc.prems(2) by auto
  have hm: "have_measurement e1 =
      (have_measurement e \<and> consecutive_timeouts e + 1 < REBOOTSTRAP_AFTER)"
    using e1(1) by (auto simp: rtt_on_timeout_def bind_Some_iff chk32_Some_iff split: if_splits)
  obtain e' where e': "rtt_run e1 (replicate n Timeout) = Some e'"
    "rto e' = min (2 ^ n * rto e1) MAX_RTO" "base_rto e' = base_rto e1"
    "have_measurement e' = (have_measurement e1
       \<and> (n = 0 \<or> consecutive_timeouts e1 + n < REBOOTSTRAP_AFTER))"
    using Suc.IH[OF e1(2)] Suc.prems(2) e1(5) by auto
  have "min (2 ^ n * min (2 * rto e) MAX_RTO) MAX_RTO = min (2 ^ Suc n * rto e) MAX_RTO"
    using min_scale_cap[of "2 ^ n" "2 * rto e" MAX_RTO] by (simp add: algebra_simps)
  then show ?case
    using e' e1 hm by (auto simp: rtt_event_def)
qed



text \<open>
  Exponential backoff. From any well-formed estimator, \<open>n\<close> consecutive timeouts
  multiply the effective RTO by \<open>2\<^sup>n\<close>, capped at 60 s, leave the base RTO alone, and
  discard the measurement exactly when the count of consecutive timeouts reaches three.
\<close>

theorem timeout_backoff:
  assumes "rtt_inv e" and "consecutive_timeouts e + n \<le> U32_MAX" and "have_measurement e"
  shows "\<exists>e'. rtt_run e (replicate n Timeout) = Some e' \<and> rto_micros e' = min (2 ^ n * rto_micros e) MAX_RTO
    \<and> base_rto e' = base_rto e
    \<and> (srtt_micros e' = None \<longleftrightarrow> n \<noteq> 0 \<and> REBOOTSTRAP_AFTER \<le> consecutive_timeouts e + n)"
proof -
  obtain e' where e': "rtt_run e (replicate n Timeout) = Some e'"
    "rto e' = min (2 ^ n * rto e) MAX_RTO" "base_rto e' = base_rto e"
    "have_measurement e' = (have_measurement e
       \<and> (n = 0 \<or> consecutive_timeouts e + n < REBOOTSTRAP_AFTER))"
    using rtt_timeouts[OF assms(1,2)] by blast
  have m: "srtt_micros e' = None \<longleftrightarrow> n \<noteq> 0 \<and> REBOOTSTRAP_AFTER \<le> consecutive_timeouts e + n"
    unfolding srtt_micros_def e'(4) using assms(3) by (simp add: not_less)
  show ?thesis
    by (rule exI[of _ e']) (simp only: e'(1-3) rto_micros_def m simp_thms)
qed

theorem timeout_backoff_witness:
  "\<exists>e e'. rtt_run rtt_new [Sample 1000000] = Some e \<and> rto_micros e = 3000000
    \<and> rtt_run e (replicate 3 Timeout) = Some e' \<and> rto_micros e' = 24000000
    \<and> srtt_micros e' = None"
proof -
  define e where "e = \<lparr>srtt = 1000000, rttvar = 500000, base_rto = 3000000, rto = 3000000,
    have_measurement = True, consecutive_timeouts = 0\<rparr>"
  have run: "rtt_run rtt_new [Sample 1000000] = Some e" 
    by (simp add: e_def rtt_event_def rtt_on_sample_def rtt_smooth_def rtt_new_def chk32_def
        sat_add32_def clamp_nat_def rtt_consts)
  have inv: "rtt_inv e" and c: "consecutive_timeouts e + 3 \<le> U32_MAX" and "have_measurement e"
    by (simp_all add: e_def rtt_inv_def rtt_consts)
  from timeout_backoff[OF this] obtain e' where e': "rtt_run e (replicate 3 Timeout) = Some e'"
    "rto_micros e' = min (2 ^ 3 * rto_micros e) MAX_RTO"
    "srtt_micros e' = None \<longleftrightarrow> (3::nat) \<noteq> 0 \<and> REBOOTSTRAP_AFTER \<le> consecutive_timeouts e + 3"
    by (elim exE conjE)
  have v: "rto_micros e = 3000000" "min (2 ^ 3 * rto_micros e) MAX_RTO = 24000000"
    "REBOOTSTRAP_AFTER \<le> consecutive_timeouts e + 3"
    by (simp_all add: e_def rto_micros_def rtt_consts)
  have "srtt_micros e' = None" using e'(3) v(3) by simp
  then show ?thesis
    using e'(1,2) v(1,2) run by (intro exI[of _ e] exI[of _ e'] conjI) (simp_all only:)
qed

text \<open>
  Smoothing is an average. Once there is a measurement, a new sample (clamped to 60 s)
  moves \<open>SRTT\<close> to a value between the old \<open>SRTT\<close> and the sample, clears the
  backoff, and sets the RTO to the base RTO, which is at least \<open>SRTT\<close> plus one clock
  granularity unless clamped by the 60 s cap.
\<close>

theorem sample_is_average:
  assumes "rtt_inv e" and "have_measurement e"
  shows "\<exists>e'. rtt_on_sample e r = Some e'
    \<and> min (srtt e) (min r MAX_RTO) \<le> srtt e' \<and> srtt e' \<le> max (srtt e) (min r MAX_RTO)
    \<and> min (srtt e' + CLOCK_GRANULARITY) MAX_RTO \<le> rto_micros e'
    \<and> consecutive_timeouts e' = 0"
proof -
  obtain e' where e': "rtt_on_sample e r = Some e'" "rtt_inv e'" "consecutive_timeouts e' = 0"
    "rtt_smooth e (min r MAX_RTO) = Some (srtt e', rttvar e')"
    "rto e' = clamp_nat (sat_add32 (srtt e') (max (RTT_K * rttvar e') CLOCK_GRANULARITY))
       MIN_RTO MAX_RTO"
    using rtt_on_sample_total[OF assms(1), of r] by blast
  have b: "min (srtt e) (min r MAX_RTO) \<le> srtt e'" "srtt e' \<le> max (srtt e) (min r MAX_RTO)"
    using rtt_smooth_total[of e "min r MAX_RTO"] e'(4) assms by (auto simp: rtt_inv_def)
  have s: "srtt e' \<le> MAX_RTO" using e'(2) by (simp add: rtt_inv_def)
  have "min (srtt e' + CLOCK_GRANULARITY) MAX_RTO \<le> rto e'"
    unfolding e'(5) using s by (auto simp: clamp_nat_def sat_add32_def rtt_consts)
  then show ?thesis using e'(1,3) b by (simp add: rto_micros_def)
qed

theorem sample_is_average_witness:
  "\<exists>e'. rtt_on_sample \<lparr>srtt = 1000000, rttvar = 500000, base_rto = 3000000, rto = 6000000,
      have_measurement = True, consecutive_timeouts = 1\<rparr> 2000000 = Some e'
    \<and> 1000000 \<le> srtt e' \<and> srtt e' \<le> 2000000"
  using sample_is_average[of "\<lparr>srtt = 1000000, rttvar = 500000, base_rto = 3000000, rto = 6000000,
      have_measurement = True, consecutive_timeouts = 1\<rparr>" 2000000]
  by (auto simp: rtt_inv_def rtt_consts)

end
