(* ===== verification/Sack_Scoreboard.thy ===== *)
theory Sack_Scoreboard
  imports Seq_Number
begin

text \<open>
  \<open>sack.rs\<close>: the sender's SACK scoreboard and the RFC 6675 predicates. A run is a
  half-open interval of sequence space; the two run lists are kept sorted, disjoint and
  coalesced by \<open>insert_run\<close>. The definitions follow the loops of the source; the
  theorems relate them to the sets of octets they stand for.
\<close>

definition DUP_THRESH :: nat where "DUP_THRESH = 3"
definition MAX_RUNS :: nat where "MAX_RUNS = 128"

type_synonym run = "seqnum \<times> seqnum"

record scoreboard =
  sacked :: "run list"
  rexmit :: "run list"
  recovery_point :: "seqnum option"
  rescue_done :: bool

definition scoreboard_new :: scoreboard where
  "scoreboard_new = \<lparr>sacked = [], rexmit = [], recovery_point = None, rescue_done = False\<rparr>"

definition in_recovery :: "scoreboard \<Rightarrow> bool" where
  "in_recovery self \<longleftrightarrow> recovery_point self \<noteq> None"

definition begin_recovery :: "scoreboard \<Rightarrow> seqnum \<Rightarrow> scoreboard" where
  "begin_recovery self rp = self\<lparr>recovery_point := Some rp, rescue_done := False\<rparr>"

definition recovery_reached :: "scoreboard \<Rightarrow> seqnum \<Rightarrow> bool" where
  "recovery_reached self snd_una =
     (case recovery_point self of Some rp \<Rightarrow> seq_ge snd_una rp | None \<Rightarrow> False)"

definition exit_recovery :: "scoreboard \<Rightarrow> scoreboard" where
  "exit_recovery self = self\<lparr>recovery_point := None, rexmit := [], rescue_done := False\<rparr>"

definition sb_on_rto :: "scoreboard \<Rightarrow> scoreboard" where
  "sb_on_rto self = self\<lparr>rexmit := [], recovery_point := None, rescue_done := False\<rparr>"

text \<open>
  \<open>insert_run\<close>, in its three steps: the scan that finds the block of overlapping or
  adjacent runs (its index, its length and the merged edges, the edges widening as the scan
  proceeds), the removal of that block, and the insertion at the first run above.
\<close>

fun insert_scan :: "nat \<Rightarrow> run list \<Rightarrow> nat \<Rightarrow> nat \<Rightarrow> seqnum \<Rightarrow> seqnum \<Rightarrow> nat \<times> nat \<times> seqnum \<times> seqnum" where
  "insert_scan i [] first count l r = (first, count, l, r)"
| "insert_scan i ((rl, rr) # runs) first count l r =
     (if seq_le rl r \<and> seq_le l rr
      then insert_scan (i + 1) runs (if count = 0 then i else first) (count + 1)
             (if seq_lt rl l then rl else l) (if seq_gt rr r then rr else r)
      else insert_scan (i + 1) runs first count l r)"

fun position :: "('a \<Rightarrow> bool) \<Rightarrow> 'a list \<Rightarrow> nat" where
  "position p [] = 0"
| "position p (x # xs) = (if p x then 0 else Suc (position p xs))"

definition insert_run :: "run list \<Rightarrow> seqnum \<Rightarrow> seqnum \<Rightarrow> run list" where
  "insert_run runs l r =
     (case insert_scan 0 runs (length runs) 0 l r of (first, count, l', r') \<Rightarrow>
        (let kept = take first runs @ drop (first + count) runs;
             pos = position (\<lambda>(rl, _). seq_lt l' rl) kept
         in take pos kept @ (l', r') # drop pos kept))"

fun windows2 :: "('a \<Rightarrow> 'a \<Rightarrow> bool) \<Rightarrow> 'a list \<Rightarrow> bool" where
  "windows2 p (x # y # zs) \<longleftrightarrow> p x y \<and> windows2 p (y # zs)"
| "windows2 p zs \<longleftrightarrow> True"

definition run_list_well_formed :: "run list \<Rightarrow> bool" where
  "run_list_well_formed runs \<longleftrightarrow>
     list_all (\<lambda>(l, r). seq_lt l r) runs \<and> windows2 (\<lambda>w0 w1. seq_lt (snd w0) (fst w1)) runs"

definition trim_runs :: "run list \<Rightarrow> seqnum \<Rightarrow> run list" where
  "trim_runs runs snd_una =
     map (\<lambda>(l, r). (if seq_lt l snd_una then snd_una else l, r))
       (filter (\<lambda>(_, r). seq_gt r snd_una) runs)"

text \<open>One block of the SACK option, validated against \<open>(snd_una, snd_nxt]\<close> before clipping.\<close>

definition update_block :: "seqnum \<Rightarrow> seqnum \<Rightarrow> run list \<Rightarrow> run \<Rightarrow> run list" where
  "update_block snd_una snd_nxt runs b =
     (case b of (l, r) \<Rightarrow>
        if \<not> seq_lt l r then runs
        else if seq_le r snd_una then runs
        else if seq_gt l snd_nxt \<or> seq_gt r snd_nxt then runs
        else (let l = (if seq_lt l snd_una then snd_una else l)
              in if seq_lt l r then insert_run runs l r else runs))"

definition sb_update :: "scoreboard \<Rightarrow> seqnum \<Rightarrow> seqnum \<Rightarrow> run list \<Rightarrow> scoreboard" where
  "sb_update self snd_una snd_nxt blocks =
     self\<lparr>sacked := take MAX_RUNS (foldl (update_block snd_una snd_nxt) (sacked self) blocks)\<rparr>"

definition sb_trim :: "scoreboard \<Rightarrow> seqnum \<Rightarrow> scoreboard" where
  "sb_trim self snd_una =
     self\<lparr>sacked := trim_runs (sacked self) snd_una, rexmit := trim_runs (rexmit self) snd_una\<rparr>"

definition mark_rexmit :: "scoreboard \<Rightarrow> seqnum \<Rightarrow> seqnum \<Rightarrow> scoreboard" where
  "mark_rexmit self l r = (if seq_lt l r then self\<lparr>rexmit := insert_run (rexmit self) l r\<rparr> else self)"

definition set_rescue_done :: "scoreboard \<Rightarrow> scoreboard" where
  "set_rescue_done self = self\<lparr>rescue_done := True\<rparr>"

definition invariants_hold :: "scoreboard \<Rightarrow> bool" where
  "invariants_hold self \<longleftrightarrow> run_list_well_formed (sacked self) \<and> run_list_well_formed (rexmit self)"

definition in_runs :: "run list \<Rightarrow> seqnum \<Rightarrow> bool" where
  "in_runs runs s \<longleftrightarrow> list_ex (\<lambda>(l, r). seq_ge s l \<and> seq_lt s r) runs"

definition is_sacked :: "scoreboard \<Rightarrow> seqnum \<Rightarrow> bool" where
  "is_sacked self s \<longleftrightarrow> in_runs (sacked self) s"

definition is_rexmit :: "scoreboard \<Rightarrow> seqnum \<Rightarrow> bool" where
  "is_rexmit self s \<longleftrightarrow> in_runs (rexmit self) s"

definition highest_sacked_edge :: "scoreboard \<Rightarrow> seqnum option" where
  "highest_sacked_edge self = (if sacked self = [] then None else Some (snd (last (sacked self))))"

definition boundary_step :: "seqnum \<Rightarrow> seqnum \<Rightarrow> run \<Rightarrow> seqnum" where
  "boundary_step s b x =
     (case x of (l, r) \<Rightarrow>
        (let b = (if seq_gt l s \<and> seq_lt l b then l else b)
         in if seq_gt r s \<and> seq_lt r b then r else b))"

definition next_boundary :: "scoreboard \<Rightarrow> seqnum \<Rightarrow> seqnum \<Rightarrow> seqnum" where
  "next_boundary self s limit = foldl (boundary_step s) limit (sacked self @ rexmit self)"

definition unsacked_run_len :: "scoreboard \<Rightarrow> seqnum \<Rightarrow> seqnum \<Rightarrow> nat" where
  "unsacked_run_len self s limit =
     (let e = foldl (\<lambda>e (l, _). if seq_gt l s \<and> seq_lt l e then l else e) limit (sacked self)
      in if seq_le e s then 0 else offset_from e s)"

definition is_lost :: "scoreboard \<Rightarrow> seqnum \<Rightarrow> nat \<Rightarrow> bool" where
  "is_lost self s smss =
     (case foldl (\<lambda>(blocks, bs) (l, r).
          if seq_gt l s then (blocks + 1, sat_add32 bs (offset_from r l)) else (blocks, bs))
          (0, 0) (sacked self) of
        (blocks_above, bytes_above) \<Rightarrow>
          blocks_above \<ge> DUP_THRESH \<or> bytes_above > (DUP_THRESH - 1) * smss)"

text \<open>
  The walk over \<open>[s, snd_nxt)\<close> in spans of uniform status. Each step moves to the next
  boundary, which is \<open>snd_nxt\<close> or serially above \<open>s\<close>, so the walk ends whatever
  the run lists hold.
\<close>

lemma foldl_boundary_gt:
  "b = limit \<or> seq_gt b s \<Longrightarrow>
   foldl (boundary_step s) b xs = limit \<or> seq_gt (foldl (boundary_step s) b xs) s"
  by (induction xs arbitrary: b) (auto simp: boundary_step_def Let_def split: prod.splits)

lemma next_boundary_gt: "next_boundary sb s limit = limit \<or> seq_gt (next_boundary sb s limit) s"
  unfolding next_boundary_def by (rule foldl_boundary_gt) simp

definition walk_measure :: "seqnum \<Rightarrow> seqnum \<Rightarrow> nat" where
  "walk_measure limit s = (if seq_lt s limit then offset_from limit s else 0)"

lemma seq_gt_offset: "seq_gt x y \<longleftrightarrow> 0 < offset_from x y \<and> offset_from x y < 2147483648"
  using offset_from_bound[of x y] by (auto simp: seq_gt_def distance_offset simp del: offset_from_bound)

lemma walk_decreases:
  assumes "seq_lt s limit" and "e = limit \<or> seq_gt e s"
  shows "walk_measure limit e < walk_measure limit s"
proof -
  have "s \<noteq> limit" using assms(1) by (auto simp: seq_lt_offset)
  then have s: "0 < offset_from limit s" by (metis neq0_conv offset_from_eq_0_iff)
  show ?thesis
  proof (cases "seq_lt e limit \<and> e \<noteq> limit")
    case False
    then have "walk_measure limit e = 0" by (auto simp: walk_measure_def)
    then show ?thesis using s assms(1) by (simp add: walk_measure_def)
  next
    case True
    then have e: "0 < offset_from e s" "offset_from e s < 2147483648"
      using assms(2) by (auto simp: seq_gt_offset)
    have "2147483648 \<le> offset_from e limit" using True by (simp add: seq_lt_offset)
    then have "offset_from limit e \<le> 2147483648"
      using offset_from_rebase[of limit e limit] by auto
    then have "offset_from limit e < offset_from limit s"
      using offset_from_rebase[of limit e s] e by (auto split: if_splits)
    then show ?thesis using True assms(1) by (simp add: walk_measure_def)
  qed
qed

lemma walk_next:
  "seq_lt s limit \<Longrightarrow> walk_measure limit (next_boundary sb s limit) < walk_measure limit s"
  by (rule walk_decreases[OF _ next_boundary_gt])

function pipe_loop :: "scoreboard \<Rightarrow> nat \<Rightarrow> seqnum \<Rightarrow> seqnum \<Rightarrow> nat \<Rightarrow> nat" where
  "pipe_loop self smss snd_nxt s pipe =
     (if seq_lt s snd_nxt
      then (let e = next_boundary self s snd_nxt;
                pipe = (if \<not> is_sacked self s \<and> (is_rexmit self s \<or> \<not> is_lost self s smss)
                        then sat_add32 pipe (offset_from e s) else pipe)
            in pipe_loop self smss snd_nxt e pipe)
      else pipe)"
  by pat_completeness auto
termination
  by (relation "measure (\<lambda>(self, smss, snd_nxt, s, pipe). walk_measure snd_nxt s)")
     (auto intro: walk_next)

declare pipe_loop.simps [simp del]

definition sb_pipe :: "scoreboard \<Rightarrow> seqnum \<Rightarrow> seqnum \<Rightarrow> nat \<Rightarrow> nat" where
  "sb_pipe self snd_una snd_nxt smss = pipe_loop self smss snd_nxt snd_una 0"

text \<open>The two scans of \<open>next_seg\<close>: the first span start that satisfies \<open>p\<close>.\<close>

function scan_spans :: "scoreboard \<Rightarrow> (seqnum \<Rightarrow> bool) \<Rightarrow> seqnum \<Rightarrow> seqnum \<Rightarrow> seqnum option" where
  "scan_spans self p snd_nxt s =
     (if seq_lt s snd_nxt
      then (let e = next_boundary self s snd_nxt
            in if p s then Some s else scan_spans self p snd_nxt e)
      else None)"
  by pat_completeness auto
termination
  by (relation "measure (\<lambda>(self, p, snd_nxt, s). walk_measure snd_nxt s)")
     (auto intro: walk_next)

declare scan_spans.simps [simp del]

definition next_seg :: "scoreboard \<Rightarrow> seqnum \<Rightarrow> seqnum \<Rightarrow> nat \<Rightarrow> (seqnum \<times> bool) option" where
  "next_seg self snd_una snd_nxt smss =
     (case scan_spans self (\<lambda>s. \<not> is_sacked self s \<and> \<not> is_rexmit self s \<and> is_lost self s smss)
          snd_nxt snd_una of
        Some s \<Rightarrow> Some (s, False)
      | None \<Rightarrow>
          (if \<not> rescue_done self
           then (case highest_sacked_edge self of
                   Some high \<Rightarrow>
                     (case scan_spans self
                          (\<lambda>s. \<not> is_sacked self s \<and> \<not> is_rexmit self s \<and> seq_lt s high)
                          snd_nxt snd_una of
                        Some s \<Rightarrow> Some (s, True)
                      | None \<Rightarrow> None)
                 | None \<Rightarrow> None)
           else None))"

section \<open>Run lists as sets of octets\<close>

text \<open>
  Relative to a base (the cumulative acknowledgement), a run list stands for a set of
  offsets. \<open>wf_runs\<close> is the sorted, disjoint, coalesced invariant in offsets.
\<close>

fun wf_runs :: "seqnum \<Rightarrow> nat \<Rightarrow> run list \<Rightarrow> bool" where
  "wf_runs b lo [] \<longleftrightarrow> True"
| "wf_runs b lo ((l, r) # runs) \<longleftrightarrow>
     lo \<le> offset_from l b \<and> offset_from l b < offset_from r b \<and> offset_from r b < 2147483648
     \<and> wf_runs b (Suc (offset_from r b)) runs"

definition runs_set :: "seqnum \<Rightarrow> run list \<Rightarrow> nat set" where
  "runs_set b runs = (\<Union>(l, r) \<in> set runs. {offset_from l b ..< offset_from r b})"

definition runs_in_window :: "seqnum \<Rightarrow> run list \<Rightarrow> bool" where
  "runs_in_window b runs \<longleftrightarrow>
     (\<forall>(l, r) \<in> set runs. offset_from l b < 2147483648 \<and> offset_from r b < 2147483648)"

lemma runs_set_simps [simp]:
  "runs_set b [] = {}"
  "runs_set b ((l, r) # runs) = {offset_from l b ..< offset_from r b} \<union> runs_set b runs"
  "runs_set b (xs @ ys) = runs_set b xs \<union> runs_set b ys"
  by (auto simp: runs_set_def)

lemma runs_in_window_simps [simp]:
  "runs_in_window b []"
  "runs_in_window b ((l, r) # runs) \<longleftrightarrow>
     offset_from l b < 2147483648 \<and> offset_from r b < 2147483648 \<and> runs_in_window b runs"
  "runs_in_window b (xs @ ys) \<longleftrightarrow> runs_in_window b xs \<and> runs_in_window b ys"
  by (auto simp: runs_in_window_def)

lemma wf_runs_window: "wf_runs b lo runs \<Longrightarrow> runs_in_window b runs"
  by (induction b lo runs rule: wf_runs.induct) auto

lemma wf_runs_mono: "wf_runs b lo runs \<Longrightarrow> lo' \<le> lo \<Longrightarrow> wf_runs b lo' runs"
  by (cases runs) auto

lemma wf_runs_lower: "wf_runs b lo runs \<Longrightarrow> (l, r) \<in> set runs \<Longrightarrow> lo \<le> offset_from l b \<and> offset_from l b < offset_from r b"
  by (induction b lo runs rule: wf_runs.induct) fastforce+

lemma in_runs_iff:
  assumes "runs_in_window b runs" and "offset_from s b < 2147483648"
  shows "in_runs runs s \<longleftrightarrow> offset_from s b \<in> runs_set b runs"
  using assms
  by (induction runs) (auto simp: in_runs_def seq_window[where b = b])

section \<open>Insertion\<close>

text \<open>The textbook insertion into a sorted interval list, as a reference for \<open>insert_run\<close>.\<close>

fun ins_run :: "run list \<Rightarrow> seqnum \<Rightarrow> seqnum \<Rightarrow> run list" where
  "ins_run [] l r = [(l, r)]"
| "ins_run ((rl, rr) # runs) l r =
     (if seq_lt rr l then (rl, rr) # ins_run runs l r
      else if seq_lt r rl then (l, r) # (rl, rr) # runs
      else ins_run runs (seq_min rl l) (seq_max rr r))"

lemma offset_min_max:
  assumes "offset_from x b < 2147483648" and "offset_from y b < 2147483648"
  shows "offset_from (seq_min x y) b = min (offset_from x b) (offset_from y b)"
    and "offset_from (seq_max x y) b = max (offset_from x b) (offset_from y b)"
  using assms by (auto simp: seq_window[where b = b] seq_min_def seq_max_def)

lemma ins_run_correct:
  assumes "wf_runs b lo runs" and "lo \<le> offset_from l b" and "offset_from l b < offset_from r b"
    and "offset_from r b < 2147483648"
  shows "wf_runs b lo (ins_run runs l r)
    \<and> runs_set b (ins_run runs l r) = {offset_from l b ..< offset_from r b} \<union> runs_set b runs"
  using assms
proof (induction runs l r arbitrary: lo rule: ins_run.induct)
  case (1 l r)
  then show ?case by simp
next
  case (2 rl rr runs l r)
  have w: "offset_from l b < 2147483648" "offset_from rl b < 2147483648"
    "offset_from rr b < 2147483648" using 2 by auto
  consider "offset_from rr b < offset_from l b" | "offset_from r b < offset_from rl b"
    | "offset_from l b \<le> offset_from rr b" "offset_from rl b \<le> offset_from r b" by linarith
  then show ?case
  proof cases
    case 1
    then show ?thesis using 2 w by (auto simp: seq_window[where b = b])
  next
    case 2
    then show ?thesis using "2.prems" w by (auto simp: seq_window[where b = b])
  next
    case 3
    have ih: "wf_runs b lo (ins_run runs (seq_min rl l) (seq_max rr r))
      \<and> runs_set b (ins_run runs (seq_min rl l) (seq_max rr r)) =
        {offset_from (seq_min rl l) b ..< offset_from (seq_max rr r) b} \<union> runs_set b runs"
      using 3 "2.prems" w
      by (intro "2.IH"(2)) (auto simp: seq_window[where b = b] offset_min_max intro: wf_runs_mono)
    have "{offset_from (seq_min rl l) b ..< offset_from (seq_max rr r) b}
      = {offset_from l b ..< offset_from r b} \<union> {offset_from rl b ..< offset_from rr b}"
      using 3 "2.prems" w by (auto simp: offset_min_max)
    then show ?thesis using 3 ih w "2.prems" by (auto simp: seq_window[where b = b])
  qed
qed

lemma scan_above:
  assumes "runs_in_window b runs" and "\<forall>(rl, rr) \<in> set runs. offset_from r b < offset_from rl b"
    and "offset_from r b < 2147483648"
  shows "insert_scan i runs first count l r = (first, count, l, r)"
  using assms
  by (induction i runs first count l r rule: insert_scan.induct) (auto simp: seq_window[where b = b])

text \<open>Once a run was merged, the scan swallows the runs the reference insertion swallows.\<close>

lemma scan_merging:
  assumes "wf_runs b lo runs" and "offset_from l b \<le> lo" and "offset_from l b < offset_from r b"
    and "offset_from r b < 2147483648" and "0 < count"
  shows "\<exists>k r'. insert_scan i runs first count l r = (first, count + k, l, r') \<and> k \<le> length runs
    \<and> ins_run runs l r = (l, r') # drop k runs \<and> offset_from r b \<le> offset_from r' b
    \<and> offset_from r' b < 2147483648
    \<and> (\<forall>(rl, rr) \<in> set (drop k runs). offset_from r' b < offset_from rl b)"
  using assms
proof (induction runs arbitrary: i count r lo)
  case Nil
  then show ?case by simp
next
  case (Cons x runs)
  obtain rl rr where x: "x = (rl, rr)" by fastforce
  have w: "offset_from l b < 2147483648" "offset_from rl b < 2147483648"
    "offset_from rr b < 2147483648" "offset_from l b \<le> offset_from rl b"
    "offset_from rl b < offset_from rr b" "wf_runs b (Suc (offset_from rr b)) runs"
    using Cons.prems x by auto
  show ?case
  proof (cases "offset_from rl b \<le> offset_from r b")
    case True
    define r1 where "r1 = (if seq_gt rr r then rr else r)"
    have r1: "offset_from r1 b = max (offset_from rr b) (offset_from r b)" "seq_max rr r = r1"
      using w Cons.prems(4) by (auto simp: r1_def seq_max_def seq_window[where b = b] max_def
          intro: offset_from_inj[of _ b])
    have l1: "seq_min rl l = l" "\<not> seq_lt rl l"
      using w by (auto simp: seq_min_def seq_window[where b = b] intro: offset_from_inj[of _ b])
    have step: "insert_scan i (x # runs) first count l r
        = insert_scan (i + 1) runs first (count + 1) l r1"
      using True w Cons.prems l1 x by (simp add: seq_window[where b = b] r1_def)
    have "ins_run (x # runs) l r = ins_run runs l r1"
      using True w Cons.prems(4) l1 r1 x by (simp add: seq_window[where b = b])
    moreover have h: "offset_from l b \<le> Suc (offset_from rr b)" "offset_from l b < offset_from r1 b"
      "offset_from r1 b < 2147483648" "0 < count + 1"
      using r1(1) w Cons.prems(4) by auto
    moreover obtain k r' where k: "insert_scan (i + 1) runs first (count + 1) l r1
        = (first, count + 1 + k, l, r')"
      "k \<le> length runs" "ins_run runs l r1 = (l, r') # drop k runs" "offset_from r1 b \<le> offset_from r' b"
      "offset_from r' b < 2147483648"
      "\<forall>(rl, rr) \<in> set (drop k runs). offset_from r' b < offset_from rl b"
      using Cons.IH[OF w(6) h, of "i + 1"] by blast
    ultimately show ?thesis using step r1(1) by (intro exI[of _ "Suc k"] exI[of _ r']) auto
  next
    case False
    then have above: "\<forall>(xl, xr) \<in> set (x # runs). offset_from r b < offset_from xl b"
      using wf_runs_lower[OF w(6)] w x by fastforce
    then have "insert_scan i (x # runs) first count l r = (first, count, l, r)"
      using Cons.prems by (intro scan_above[of b]) (auto dest: wf_runs_window)
    moreover have "ins_run (x # runs) l r = (l, r) # x # runs"
      using False w Cons.prems(4) x by (simp add: seq_window[where b = b])
    ultimately show ?thesis using above Cons.prems(4) by (intro exI[of _ 0] exI[of _ r]) simp
  qed
qed

text \<open>The whole scan: it finds the block that the reference insertion replaces.\<close>

lemma scan_block:
  assumes "wf_runs b lo runs" and "offset_from l b < offset_from r b" and "offset_from r b < 2147483648"
    and "lo \<le> offset_from l b"
  shows "\<exists>a c l' r'. insert_scan i runs first 0 l r = (if c = 0 then first else i + a, c, l', r')
    \<and> a + c \<le> length runs \<and> ins_run runs l r = take a runs @ (l', r') # drop (a + c) runs
    \<and> offset_from l' b < 2147483648 \<and> lo \<le> offset_from l' b
    \<and> (\<forall>(rl, rr) \<in> set (take a runs). offset_from rl b < offset_from l' b)
    \<and> (\<forall>(rl, rr) \<in> set (drop (a + c) runs). offset_from l' b < offset_from rl b)"
  using assms
proof (induction runs arbitrary: i lo)
  case Nil
  then show ?case by (intro exI[of _ 0] exI[of _ l] exI[of _ r]) simp
next
  case (Cons x runs)
  obtain rl rr where x: "x = (rl, rr)" by fastforce
  have w: "offset_from l b < 2147483648" "offset_from rl b < 2147483648"
    "offset_from rr b < 2147483648" "offset_from rl b < offset_from rr b"
    "wf_runs b (Suc (offset_from rr b)) runs"
    using Cons.prems x by auto
  consider (below) "offset_from rr b < offset_from l b" | (above) "offset_from r b < offset_from rl b"
    | (touch) "offset_from l b \<le> offset_from rr b" "offset_from rl b \<le> offset_from r b" by linarith
  then show ?case
  proof cases
    case below
    obtain a c l' r' where ih: "insert_scan (i + 1) runs first 0 l r
        = (if c = 0 then first else i + 1 + a, c, l', r')"
      "a + c \<le> length runs" "ins_run runs l r = take a runs @ (l', r') # drop (a + c) runs"
      "offset_from l' b < 2147483648" "Suc (offset_from rr b) \<le> offset_from l' b"
      "\<forall>(rl, rr) \<in> set (take a runs). offset_from rl b < offset_from l' b"
      "\<forall>(rl, rr) \<in> set (drop (a + c) runs). offset_from l' b < offset_from rl b"
      using Cons.IH[OF w(5) Cons.prems(2,3) Suc_leI[OF below], of "i + 1"] by blast
    have le: "offset_from rl b < offset_from l' b" "lo \<le> offset_from l' b"
      using ih(5) w(4) Cons.prems(1) x by auto
    have "insert_scan i (x # runs) first 0 l r = insert_scan (i + 1) runs first 0 l r"
      and "ins_run (x # runs) l r = x # ins_run runs l r"
      using below x w Cons.prems(3) by (simp_all add: seq_window[where b = b])
    then show ?thesis
      using ih le x by (intro exI[of _ "Suc a"] exI[of _ c] exI[of _ l'] exI[of _ r']) simp
  next
    case above
    then have ab: "\<forall>(xl, xr) \<in> set (x # runs). offset_from r b < offset_from xl b"
      using wf_runs_lower[OF w(5)] w x by fastforce
    then have "insert_scan i (x # runs) first 0 l r = (first, 0, l, r)"
      using Cons.prems by (intro scan_above[of b]) (auto dest: wf_runs_window)
    moreover have "ins_run (x # runs) l r = (l, r) # x # runs"
      using above w Cons.prems(2,3) x by (simp add: seq_window[where b = b])
    ultimately show ?thesis using ab Cons.prems(2,4) w
      by (intro exI[of _ 0] exI[of _ l] exI[of _ r]) fastforce
  next
    case touch
    define l1 r1 where "l1 = (if seq_lt rl l then rl else l)" and "r1 = (if seq_gt rr r then rr else r)"
    have lr: "offset_from l1 b = min (offset_from rl b) (offset_from l b)" "seq_min rl l = l1"
      "offset_from r1 b = max (offset_from rr b) (offset_from r b)" "seq_max rr r = r1"
      using w Cons.prems(3) by (auto simp: l1_def r1_def seq_min_def seq_max_def
          seq_window[where b = b] max_def min_def intro: offset_from_inj[of _ b])
    have step: "insert_scan i (x # runs) first 0 l r = insert_scan (i + 1) runs i 1 l1 r1"
      using touch w Cons.prems x by (simp add: seq_window[where b = b] r1_def l1_def)
    have "ins_run (x # runs) l r = ins_run runs l1 r1"
      using touch w Cons.prems(3) lr x by (simp add: seq_window[where b = b])
    moreover have h: "offset_from l1 b \<le> Suc (offset_from rr b)" "offset_from l1 b < offset_from r1 b"
      "offset_from r1 b < 2147483648" "0 < (1::nat)"
      using lr w Cons.prems(2,3) by auto
    moreover obtain k r' where k: "insert_scan (i + 1) runs i 1 l1 r1 = (i, 1 + k, l1, r')"
      "k \<le> length runs" "ins_run runs l1 r1 = (l1, r') # drop k runs" "offset_from r1 b \<le> offset_from r' b"
      "\<forall>(rl, rr) \<in> set (drop k runs). offset_from r' b < offset_from rl b"
      using scan_merging[OF w(5) h, of "i + 1" i] by blast
    moreover have "\<forall>(rl, rr) \<in> set (drop k runs). offset_from l1 b < offset_from rl b"
      using k(4,5) lr(1,3) w(4) by fastforce
    moreover have "lo \<le> offset_from l1 b" using lr(1) Cons.prems(1,4) x by simp
    ultimately show ?thesis using step lr(1) w
      by (intro exI[of _ 0] exI[of _ "Suc k"] exI[of _ l1] exI[of _ r']) auto
  qed
qed

lemma position_append:
  "\<forall>x \<in> set xs. \<not> p x \<Longrightarrow> \<forall>x \<in> set ys. p x \<Longrightarrow> position p (xs @ ys) = length xs"
  by (induction xs) (cases ys, auto)

lemma insert_run_eq_ins_run:
  assumes "wf_runs b lo runs" and "offset_from l b < offset_from r b"
    and "offset_from r b < 2147483648" and "lo \<le> offset_from l b"
  shows "insert_run runs l r = ins_run runs l r"
proof -
  obtain a c l' r' where sc: "insert_scan 0 runs (length runs) 0 l r
      = (if c = 0 then length runs else 0 + a, c, l', r')"
    "a + c \<le> length runs" "ins_run runs l r = take a runs @ (l', r') # drop (a + c) runs"
    "offset_from l' b < 2147483648"
    "\<forall>(rl, rr) \<in> set (take a runs). offset_from rl b < offset_from l' b"
    "\<forall>(rl, rr) \<in> set (drop (a + c) runs). offset_from l' b < offset_from rl b"
    using scan_block[OF assms, of 0 "length runs"] by blast
  define kept where "kept = take a runs @ drop (a + c) runs"
  have kept: "take (if c = 0 then length runs else a) runs
      @ drop ((if c = 0 then length runs else a) + c) runs = kept"
    by (simp add: kept_def)
  have win: "runs_in_window b kept"
    using wf_runs_window[OF assms(1)] unfolding kept_def runs_in_window_def
    by (auto dest: in_set_takeD in_set_dropD)
  have "position (\<lambda>(rl, _). seq_lt l' rl) kept = length (take a runs)"
    unfolding kept_def
  proof (rule position_append; clarify)
    fix rl rr assume m: "(rl, rr) \<in> set (take a runs)" "seq_lt l' rl"
    then show False using sc(4,5) win
      by (force simp: kept_def runs_in_window_def seq_lt_window[of l' b rl])
  next
    fix rl rr assume m: "(rl, rr) \<in> set (drop (a + c) runs)"
    then show "seq_lt l' rl" using sc(4,6) win
      by (force simp: kept_def runs_in_window_def seq_lt_window[of l' b rl])
  qed
  then have pos: "position (\<lambda>(rl, _). seq_lt l' rl) kept = a" using sc(2) by simp
  have "take a kept = take a runs" and "drop a kept = drop (a + c) runs"
    using sc(2) by (simp_all add: kept_def)
  moreover have "insert_run runs l r = take a kept @ (l', r') # drop a kept"
    unfolding insert_run_def by (simp only: sc(1) case_prod_conv Let_def add_0_left kept pos)
  ultimately show ?thesis using sc(3) by simp
qed

lemma insert_run_wf:
  assumes "wf_runs b lo runs" and "lo \<le> offset_from l b" and "offset_from l b < offset_from r b"
    and "offset_from r b < 2147483648"
  shows "wf_runs b lo (insert_run runs l r)"
    and "runs_set b (insert_run runs l r) = {offset_from l b ..< offset_from r b} \<union> runs_set b runs"
  using ins_run_correct[OF assms] insert_run_eq_ins_run[OF assms(1,3,4,2)] by simp_all

lemma wf_runs_upper: "wf_runs b lo runs \<Longrightarrow> (l, r) \<in> set runs \<Longrightarrow> offset_from r b < 2147483648"
  using wf_runs_window[of b lo runs] by (auto simp: runs_in_window_def)

lemma run_list_well_formed_iff:
  assumes "runs_in_window b runs"
  shows "run_list_well_formed runs \<longleftrightarrow> wf_runs b 0 runs"
proof -
  have "run_list_well_formed runs \<and> (case runs of [] \<Rightarrow> True | (l, r) # _ \<Rightarrow> lo \<le> offset_from l b)
      \<longleftrightarrow> wf_runs b lo runs" for lo
    using assms
  proof (induction runs arbitrary: lo)
    case Nil
    then show ?case by (simp add: run_list_well_formed_def)
  next
    case (Cons x xs)
    obtain l r where x: "x = (l, r)" by fastforce
    have ih: "run_list_well_formed xs
        \<and> (case xs of [] \<Rightarrow> True | (l', r') # _ \<Rightarrow> Suc (offset_from r b) \<le> offset_from l' b)
        \<longleftrightarrow> wf_runs b (Suc (offset_from r b)) xs"
      using Cons x by simp
    show ?case
      using ih Cons.prems x
      by (cases xs) (auto simp: run_list_well_formed_def seq_window[where b = b] Suc_le_eq)
  qed
  from this[of 0] show ?thesis by (auto split: list.splits)
qed

lemma wf_runs_well_formed: "wf_runs b 0 runs \<Longrightarrow> run_list_well_formed runs"
  using run_list_well_formed_iff[OF wf_runs_window] by blast

section \<open>Update and trim\<close>

text \<open>
  \<open>sb_inv\<close>: both run lists are sorted, disjoint and coalesced inside
  \<open>[snd_una, snd_nxt]\<close>, a window below \<open>2\<^sup>3\<^sup>1\<close>, and the SACKed list is within its cap.
\<close>

definition edges_below :: "seqnum \<Rightarrow> nat \<Rightarrow> run list \<Rightarrow> bool" where
  "edges_below b n runs \<longleftrightarrow> (\<forall>(l, r) \<in> set runs. offset_from r b \<le> n)"

definition sb_inv :: "seqnum \<Rightarrow> seqnum \<Rightarrow> scoreboard \<Rightarrow> bool" where
  "sb_inv snd_una snd_nxt sb \<longleftrightarrow> offset_from snd_nxt snd_una < 2147483648
     \<and> wf_runs snd_una 0 (sacked sb) \<and> wf_runs snd_una 0 (rexmit sb)
     \<and> edges_below snd_una (offset_from snd_nxt snd_una) (sacked sb)
     \<and> edges_below snd_una (offset_from snd_nxt snd_una) (rexmit sb)
     \<and> length (sacked sb) \<le> MAX_RUNS"

definition block_valid :: "seqnum \<Rightarrow> seqnum \<Rightarrow> run \<Rightarrow> bool" where
  "block_valid snd_una snd_nxt b \<longleftrightarrow>
     seq_lt (fst b) (snd b) \<and> seq_gt (snd b) snd_una \<and> seq_le (fst b) snd_nxt \<and> seq_le (snd b) snd_nxt"

text \<open>The octets a valid block reports, as offsets from \<open>snd_una\<close>, clipped to it.\<close>

definition block_octets :: "seqnum \<Rightarrow> seqnum \<Rightarrow> run \<Rightarrow> nat set" where
  "block_octets snd_una snd_nxt b =
     (if block_valid snd_una snd_nxt b
      then {(if seq_lt (fst b) snd_una then 0 else offset_from (fst b) snd_una) ..< offset_from (snd b) snd_una}
      else {})"

lemma edges_below_simps [simp]:
  "edges_below b n []"
  "edges_below b n ((l, r) # runs) \<longleftrightarrow> offset_from r b \<le> n \<and> edges_below b n runs"
  by (auto simp: edges_below_def)

lemma edges_below_runs_set:
  "wf_runs b lo runs \<Longrightarrow> edges_below b n runs \<longleftrightarrow> runs_set b runs \<subseteq> {..<n}"
proof (induction b lo runs rule: wf_runs.induct)
  case (1 b lo)
  show ?case by simp
next
  case (2 b lo l r runs)
  then have "{offset_from l b ..< offset_from r b} \<subseteq> {..<n} \<longleftrightarrow> offset_from r b \<le> n"
    by (simp add: lessThan_atLeast0 del: atLeast0LessThan)
  then show ?case using 2 by simp
qed

lemma update_block_correct:
  assumes "wf_runs una 0 runs" and "edges_below una n runs" and n: "n = offset_from nxt una"
    and "n < 2147483648"
  shows "wf_runs una 0 (update_block una nxt runs b) \<and> edges_below una n (update_block una nxt runs b)
    \<and> runs_set una (update_block una nxt runs b) = block_octets una nxt b \<union> runs_set una runs"
proof (cases "block_valid una nxt b")
  case False
  then have "update_block una nxt runs b = runs"
    by (cases b) (auto simp: update_block_def block_valid_def seq_gt_not_le)
  then show ?thesis using False assms by (simp add: block_octets_def)
next
  case True
  obtain l r where b: "b = (l, r)" by fastforce
  define l1 where "l1 = (if seq_lt l una then una else l)"
  have v: "seq_lt l r" "seq_gt r una" "seq_le l nxt" "seq_le r nxt"
    using True b by (simp_all add: block_valid_def)
  have r: "0 < offset_from r una" "offset_from r una < 2147483648"
    using v(2) by (simp_all add: seq_gt_offset)
  then have rn: "offset_from r una \<le> n" using v(4) assms(4) n by (simp add: sw.le_window[where b = una])
  have l1: "offset_from l1 una < offset_from r una"
  proof (cases "seq_lt l una")
    case False
    then have "offset_from l una < 2147483648" by (simp add: seq_lt_offset)
    then show ?thesis using False v(1) r by (simp add: l1_def sw.lt_window[where b = una])
  qed (simp add: l1_def r)
  have "update_block una nxt runs b = insert_run runs l1 r"
    using v l1 r by (simp add: update_block_def b l1_def[symmetric] Let_def seq_gt_not_le
        sw.lt_window[where b = una])
  moreover have "block_octets una nxt b = {offset_from l1 una ..< offset_from r una}"
    using True b by (simp add: block_octets_def l1_def)
  ultimately show ?thesis
    using insert_run_wf[OF assms(1) _ l1 r(2)] edges_below_runs_set[of una 0] rn assms(1,2)
    by (auto simp: edges_below_runs_set)
qed

lemma update_fold_correct:
  assumes "wf_runs una 0 runs" and "edges_below una n runs" and "n = offset_from nxt una"
    and "n < 2147483648"
  shows "wf_runs una 0 (foldl (update_block una nxt) runs blocks)
    \<and> edges_below una n (foldl (update_block una nxt) runs blocks)
    \<and> runs_set una (foldl (update_block una nxt) runs blocks)
      = (\<Union>b \<in> set blocks. block_octets una nxt b) \<union> runs_set una runs"
  using assms
proof (induction blocks arbitrary: runs)
  case Nil
  then show ?case by simp
next
  case (Cons b blocks)
  note step = update_block_correct[OF Cons.prems, of b]
  show ?case using Cons.IH[of "update_block una nxt runs b"] step Cons.prems(3,4) by auto
qed

lemma wf_runs_take: "wf_runs b lo runs \<Longrightarrow> wf_runs b lo (take k runs)"
  by (induction b lo runs arbitrary: k rule: wf_runs.induct) (auto simp: take_Cons split: nat.splits)

lemma runs_set_take: "runs_set b (take k runs) \<subseteq> runs_set b runs"
  using set_take_subset[of k runs] by (auto simp: runs_set_def)

lemma sb_update_inv:
  assumes "sb_inv una nxt sb"
  shows "sb_inv una nxt (sb_update sb una nxt blocks)"
proof -
  have "edges_below una (offset_from nxt una) (take MAX_RUNS runs)"
    if "edges_below una (offset_from nxt una) runs" for runs
    using that by (auto simp: edges_below_def dest: in_set_takeD)
  then show ?thesis
    using assms update_fold_correct[of una "sacked sb" "offset_from nxt una" nxt blocks]
    by (simp add: sb_inv_def sb_update_def wf_runs_take)
qed

lemma offset_rebase_forward:
  "offset_from una' una \<le> offset_from x una \<Longrightarrow>
   offset_from x una' = offset_from x una - offset_from una' una"
  by (rule sw.off_diff)

lemma trim_runs_Cons:
  assumes "offset_from una' una < 2147483648" and "offset_from l una < 2147483648"
    and "offset_from r una < 2147483648"
  shows "trim_runs ((l, r) # runs) una' =
    (if offset_from r una \<le> offset_from una' una then trim_runs runs una'
     else (if offset_from l una < offset_from una' una then una' else l, r) # trim_runs runs una')"
  using assms by (simp add: trim_runs_def seq_window[where b = una])

lemma trim_runs_correct:
  assumes "wf_runs una lo runs" and d: "d = offset_from una' una" and "d < 2147483648"
  shows "wf_runs una' (lo - d) (trim_runs runs una')
    \<and> runs_set una' (trim_runs runs una') = {k. k + d \<in> runs_set una runs}"
  using assms(1)
proof (induction runs arbitrary: lo)
  case Nil
  then show ?case by (simp add: trim_runs_def)
next
  case (Cons x runs)
  obtain l r where x: "x = (l, r)" by fastforce
  have w: "lo \<le> offset_from l una" "offset_from l una < offset_from r una"
    "offset_from r una < 2147483648" "wf_runs una (Suc (offset_from r una)) runs"
    using Cons.prems x by auto
  note ih = Cons.IH[OF w(4)]
  have eq: "trim_runs (x # runs) una' =
    (if offset_from r una \<le> d then trim_runs runs una'
     else (if offset_from l una < d then una' else l, r) # trim_runs runs una')"
    using trim_runs_Cons[of una' una l r runs] assms(3) w x d by simp
  show ?case
  proof (cases "offset_from r una \<le> d")
    case True
    then have "wf_runs una' (lo - d) (trim_runs runs una')"
      using ih w by (auto intro: wf_runs_mono)
    then show ?thesis using eq True ih x by auto
  next
    case False
    define l1 where "l1 = (if offset_from l una < d then una' else l)"
    have o: "offset_from l1 una' = offset_from l una - d" "offset_from r una' = offset_from r una - d"
      using False offset_rebase_forward[of una' una l] offset_rebase_forward[of una' una r]
      by (auto simp: l1_def d)
    have t: "trim_runs (x # runs) una' = (l1, r) # trim_runs runs una'"
      using eq False by (simp add: l1_def)
    have "{k. k + d \<in> runs_set una (x # runs)}
        = {offset_from l1 una' ..< offset_from r una'} \<union> {k. k + d \<in> runs_set una runs}"
      unfolding o x by auto
    moreover have "Suc (offset_from r una) - d = Suc (offset_from r una - d)" using False by simp
    moreover have "lo - d \<le> offset_from l una - d"
      "offset_from l una - d < offset_from r una - d" using w False by auto
    ultimately show ?thesis using ih w(3) unfolding t by (simp add: o)
  qed
qed

lemma sb_trim_inv:
  assumes "sb_inv una nxt sb" and "offset_from una' una \<le> offset_from nxt una"
  shows "sb_inv una' nxt (sb_trim sb una')"
proof -
  define d where "d = offset_from una' una"
  have n: "offset_from nxt una' = offset_from nxt una - d"
    using offset_rebase_forward[OF assms(2)] by (simp add: d_def)
  have d: "d < 2147483648" using assms by (simp add: sb_inv_def d_def)
  have e: "edges_below una' (offset_from nxt una - d) (trim_runs runs una')
      \<and> wf_runs una' 0 (trim_runs runs una')"
    if "wf_runs una 0 runs" "edges_below una (offset_from nxt una) runs" for runs
  proof -
    note t = trim_runs_correct[OF that(1) d_def d]
    have "runs_set una runs \<subseteq> {..<offset_from nxt una}"
      using that edges_below_runs_set by blast
    then have "runs_set una' (trim_runs runs una') \<subseteq> {..<offset_from nxt una - d}"
      using t by auto
    then show ?thesis using t edges_below_runs_set by auto
  qed
  have "length (trim_runs (sacked sb) una') \<le> MAX_RUNS"
    unfolding trim_runs_def length_map
    by (rule le_trans[OF length_filter_le]) (use assms(1) in \<open>simp add: sb_inv_def\<close>)
  moreover have "offset_from nxt una - d < 2147483648" using assms(1) by (auto simp: sb_inv_def)
  ultimately show ?thesis using assms(1) e n by (simp add: sb_inv_def sb_trim_def)
qed

lemma mark_rexmit_inv:
  assumes "sb_inv una nxt sb" and "offset_from l una < offset_from r una"
    and "offset_from r una \<le> offset_from nxt una"
  shows "sb_inv una nxt (mark_rexmit sb l r)"
    and "runs_set una (rexmit (mark_rexmit sb l r))
      = {offset_from l una ..< offset_from r una} \<union> runs_set una (rexmit sb)"
proof -
  have w: "offset_from r una < 2147483648" "offset_from l una < 2147483648"
    using assms by (auto simp: sb_inv_def)
  have eq: "mark_rexmit sb l r = sb\<lparr>rexmit := insert_run (rexmit sb) l r\<rparr>"
    using assms(2) w by (simp add: mark_rexmit_def seq_window[where b = una])
  have i: "wf_runs una 0 (insert_run (rexmit sb) l r)"
    "runs_set una (insert_run (rexmit sb) l r)
      = {offset_from l una ..< offset_from r una} \<union> runs_set una (rexmit sb)"
    using insert_run_wf[of una 0 "rexmit sb" l r] assms w by (simp_all add: sb_inv_def)
  then show "runs_set una (rexmit (mark_rexmit sb l r))
      = {offset_from l una ..< offset_from r una} \<union> runs_set una (rexmit sb)"
    using eq by simp
  have "edges_below una (offset_from nxt una) (insert_run (rexmit sb) l r)"
    using i assms edges_below_runs_set[OF i(1)] edges_below_runs_set[of una 0 "rexmit sb"]
    by (auto simp: sb_inv_def)
  then show "sb_inv una nxt (mark_rexmit sb l r)"
    using eq i(1) assms(1) by (simp add: sb_inv_def)
qed

lemma sb_inv_new: "offset_from nxt una < 2147483648 \<Longrightarrow> sb_inv una nxt scoreboard_new"
  by (simp add: sb_inv_def scoreboard_new_def)

lemma sb_inv_episode:
  assumes "sb_inv una nxt sb"
  shows "sb_inv una nxt (begin_recovery sb rp)" and "sb_inv una nxt (exit_recovery sb)"
    and "sb_inv una nxt (sb_on_rto sb)" and "sb_inv una nxt (set_rescue_done sb)"
  using assms
  by (simp_all add: sb_inv_def begin_recovery_def exit_recovery_def sb_on_rto_def set_rescue_done_def)

lemma sb_inv_advance:
  assumes "sb_inv una nxt sb" and "offset_from nxt una \<le> offset_from nxt' una"
    and "offset_from nxt' una < 2147483648"
  shows "sb_inv una nxt' sb"
  using assms by (fastforce simp: sb_inv_def edges_below_def)

lemma sb_inv_invariants_hold: "sb_inv una nxt sb \<Longrightarrow> invariants_hold sb"
  unfolding sb_inv_def invariants_hold_def by (blast intro: wf_runs_well_formed)

end
