(* ===== verification/Sack_Recovery.thy ===== *)
theory Sack_Recovery
  imports Sack_Scoreboard
begin

text \<open>
  The RFC 6675 predicates of \<open>sack.rs\<close> against their per-octet meaning: the span walk
  of \<open>pipe\<close> counts exactly the octets RFC 6675 counts, and \<open>next_seg\<close> returns
  the lowest octet its rules select. Also here: the theorems on \<open>insert_run\<close>,
  \<open>update\<close> and \<open>trim\<close> as properties of the scoreboard.
\<close>

text \<open>Everything the walk compares lies in one window above \<open>snd_una\<close>.\<close>

definition sb_window :: "seqnum \<Rightarrow> seqnum \<Rightarrow> scoreboard \<Rightarrow> bool" where
  "sb_window una nxt sb \<longleftrightarrow> offset_from nxt una < 2147483648
     \<and> runs_in_window una (sacked sb @ rexmit sb)"

lemma sb_inv_window: "sb_inv una nxt sb \<Longrightarrow> sb_window una nxt sb"
  using wf_runs_window by (auto simp: sb_inv_def sb_window_def)

text \<open>The octet at an offset from the base.\<close>

definition octet :: "seqnum \<Rightarrow> nat \<Rightarrow> seqnum" where
  "octet una k = seq_add una k"

lemma offset_octet [simp]: "k < 4294967296 \<Longrightarrow> offset_from (octet una k) una = k"
  using offset_from_add[of una una k] by (simp add: octet_def)

lemma octet_offset [simp]: "octet una (offset_from s una) = s"
  by (rule offset_from_inj[of _ una]) simp

section \<open>The next boundary\<close>

text \<open>The edges of the runs, as offsets.\<close>

definition edge_offsets :: "seqnum \<Rightarrow> run list \<Rightarrow> nat set" where
  "edge_offsets b runs = (\<Union>(l, r) \<in> set runs. {offset_from l b, offset_from r b})"

lemma edge_offsets_simps [simp]:
  "edge_offsets b [] = {}"
  "edge_offsets b ((l, r) # runs) = {offset_from l b, offset_from r b} \<union> edge_offsets b runs"
  "edge_offsets b (xs @ ys) = edge_offsets b xs \<union> edge_offsets b ys"
  by (auto simp: edge_offsets_def)

lemma foldl_boundary:
  assumes "runs_in_window b xs" and "offset_from s b < offset_from e b"
    and "offset_from e b < 2147483648"
  shows "offset_from s b < offset_from (foldl (boundary_step s) e xs) b
    \<and> offset_from (foldl (boundary_step s) e xs) b \<le> offset_from e b
    \<and> (\<forall>x \<in> edge_offsets b xs. offset_from s b < x \<longrightarrow>
          offset_from (foldl (boundary_step s) e xs) b \<le> x)"
  using assms
proof (induction xs arbitrary: e)
  case Nil
  then show ?case by simp
next
  case (Cons x xs)
  obtain l r where x: "x = (l, r)" by fastforce
  define e1 where "e1 = boundary_step s e x"
  have e1: "offset_from s b < offset_from e1 b" "offset_from e1 b \<le> offset_from e b"
    "offset_from s b < offset_from l b \<Longrightarrow> offset_from e1 b \<le> offset_from l b"
    "offset_from s b < offset_from r b \<Longrightarrow> offset_from e1 b \<le> offset_from r b"
    using Cons.prems x
    by (auto simp: e1_def boundary_step_def Let_def seq_window[where b = b])
  note ih = Cons.IH[of e1]
  have "foldl (boundary_step s) e (x # xs) = foldl (boundary_step s) e1 xs" by (simp add: e1_def)
  then show ?case using ih e1 Cons.prems by (auto simp: x)
qed

lemma next_boundary_least:
  assumes "sb_window una nxt sb" and "offset_from s una < offset_from nxt una"
  defines "e \<equiv> offset_from (next_boundary sb s nxt) una"
  shows "offset_from s una < e" and "e \<le> offset_from nxt una"
    and "\<And>x. x \<in> edge_offsets una (sacked sb @ rexmit sb) \<Longrightarrow> offset_from s una < x \<Longrightarrow> e \<le> x"
  using foldl_boundary[of una "sacked sb @ rexmit sb" s nxt] assms(1,2)
  unfolding e_def next_boundary_def sb_window_def by blast+

text \<open>Between two consecutive boundaries the status of an octet does not change.\<close>

lemma runs_set_uniform:
  assumes "\<And>x. x \<in> edge_offsets b runs \<Longrightarrow> s < x \<Longrightarrow> e \<le> x" and "s \<le> k" "k < e"
  shows "k \<in> runs_set b runs \<longleftrightarrow> s \<in> runs_set b runs"
  using assms
proof (induction runs)
  case (Cons x runs)
  obtain l r where x: "x = (l, r)" by fastforce
  have l: "s < offset_from l b \<Longrightarrow> e \<le> offset_from l b" and r: "s < offset_from r b \<Longrightarrow> e \<le> offset_from r b"
    using Cons.prems(1) x by auto
  have "k \<in> runs_set b runs \<longleftrightarrow> s \<in> runs_set b runs" using Cons.prems x by (intro Cons.IH) auto
  moreover have "offset_from l b \<le> k \<and> k < offset_from r b \<longleftrightarrow> offset_from l b \<le> s \<and> s < offset_from r b"
    using l r assms(2,3) by linarith
  ultimately show ?case using x by simp
qed simp

lemma in_runs_octet:
  "runs_in_window una runs \<Longrightarrow> k < 2147483648 \<Longrightarrow> in_runs runs (octet una k) \<longleftrightarrow> k \<in> runs_set una runs"
  by (simp add: in_runs_iff[where b = una])

definition runs_above :: "seqnum \<Rightarrow> nat \<Rightarrow> run list \<Rightarrow> run list" where
  "runs_above b k runs = filter (\<lambda>(l, r). k < offset_from l b) runs"

definition run_bytes :: "run list \<Rightarrow> nat" where
  "run_bytes runs = sum_list (map (\<lambda>(l, r). offset_from r l) runs)"

lemma sat_add32_fold: "sat_add32 (min a U32_MAX) b = min (a + b) U32_MAX"
  by (auto simp: sat_add32_def)

lemma lost_fold:
  assumes "runs_in_window una runs" and "offset_from s una < 2147483648"
  shows "foldl (\<lambda>(blocks, bs) (l, r).
      if seq_gt l s then (blocks + 1, sat_add32 bs (offset_from r l)) else (blocks, bs))
      (n, min m U32_MAX) runs
    = (n + length (runs_above una (offset_from s una) runs),
       min (m + run_bytes (runs_above una (offset_from s una) runs)) U32_MAX)"
  using assms
proof (induction runs arbitrary: n m)
  case (Cons x runs)
  obtain l r where x: "x = (l, r)" by fastforce
  have "seq_gt l s \<longleftrightarrow> offset_from s una < offset_from l una"
    using Cons.prems x by (simp add: seq_window[where b = una])
  then show ?case using Cons.IH[of "n + 1" "m + offset_from r l"] Cons.IH[of n m] Cons.prems x
    by (simp add: runs_above_def run_bytes_def sat_add32_fold add.assoc)
qed (simp add: runs_above_def run_bytes_def)

lemma is_lost_iff:
  assumes "sb_window una nxt sb" and "offset_from s una < 2147483648" and "2 * smss < U32_MAX"
  shows "is_lost sb s smss \<longleftrightarrow>
      3 \<le> length (runs_above una (offset_from s una) (sacked sb))
    \<or> 2 * smss < run_bytes (runs_above una (offset_from s una) (sacked sb))"
  using lost_fold[of una "sacked sb" s 0 0] assms
  by (auto simp: is_lost_def sb_window_def DUP_THRESH_def)

lemma runs_above_uniform:
  assumes "\<And>x. x \<in> edge_offsets b runs \<Longrightarrow> s < x \<Longrightarrow> e \<le> x" and "s \<le> k" "k < e"
  shows "runs_above b k runs = runs_above b s runs"
  unfolding runs_above_def
proof (rule filter_cong[OF refl])
  fix x
  assume "x \<in> set runs"
  then have "offset_from (fst x) b \<in> edge_offsets b runs"
    unfolding edge_offsets_def by (intro UN_I[of x]) (auto split: prod.split)
  then show "(case x of (l, r) \<Rightarrow> k < offset_from l b) = (case x of (l, r) \<Rightarrow> s < offset_from l b)"
    using assms by (cases x) force
qed

lemma is_lost_fold_eq:
  assumes "runs_in_window una (sacked sb)" and "offset_from s una < 2147483648"
    and "offset_from t una < 2147483648"
    and "runs_above una (offset_from s una) (sacked sb) = runs_above una (offset_from t una) (sacked sb)"
  shows "is_lost sb s smss = is_lost sb t smss"
  using lost_fold[of una "sacked sb" s 0 0] lost_fold[of una "sacked sb" t 0 0] assms
  by (simp add: is_lost_def)

lemma status_uniform:
  assumes "sb_window una nxt sb" and "offset_from s una < offset_from nxt una"
    and "offset_from s una \<le> k" and "k < offset_from (next_boundary sb s nxt) una"
  shows "is_sacked sb (octet una k) = is_sacked sb s" and "is_rexmit sb (octet una k) = is_rexmit sb s"
    and "is_lost sb (octet una k) smss = is_lost sb s smss"
proof -
  have w: "runs_in_window una (sacked sb)" "runs_in_window una (rexmit sb)"
    "offset_from s una < 2147483648" "k < 2147483648"
    using assms next_boundary_least(2)[OF assms(1,2)] by (auto simp: sb_window_def)
  note e = next_boundary_least(3)[OF assms(1,2)]
  have es: "\<And>x. x \<in> edge_offsets una (sacked sb) \<Longrightarrow> offset_from s una < x
      \<Longrightarrow> offset_from (next_boundary sb s nxt) una \<le> x"
    and er: "\<And>x. x \<in> edge_offsets una (rexmit sb) \<Longrightarrow> offset_from s una < x
      \<Longrightarrow> offset_from (next_boundary sb s nxt) una \<le> x"
    using e by simp_all
  show "is_sacked sb (octet una k) = is_sacked sb s"
    using runs_set_uniform[OF es assms(3,4)] w
    by (simp add: is_sacked_def in_runs_octet in_runs_iff[where b = una])
  show "is_rexmit sb (octet una k) = is_rexmit sb s"
    using runs_set_uniform[OF er assms(3,4)] w
    by (simp add: is_rexmit_def in_runs_octet in_runs_iff[where b = una])
  show "is_lost sb (octet una k) smss = is_lost sb s smss"
  proof (rule is_lost_fold_eq[of una])
    have "runs_above una k (sacked sb) = runs_above una (offset_from s una) (sacked sb)"
      using es assms(3,4) by (rule runs_above_uniform)
    then show "runs_above una (offset_from (octet una k) una) (sacked sb)
        = runs_above una (offset_from s una) (sacked sb)" using w(4) by simp
  qed (use w in simp_all)
qed

section \<open>The pipe\<close>

definition in_flight :: "scoreboard \<Rightarrow> seqnum \<Rightarrow> nat \<Rightarrow> nat \<Rightarrow> bool" where
  "in_flight sb una smss k \<longleftrightarrow> \<not> is_sacked sb (octet una k)
     \<and> (is_rexmit sb (octet una k) \<or> \<not> is_lost sb (octet una k) smss)"

lemma pipe_loop_count:
  assumes "sb_window una nxt sb" and "offset_from s una \<le> offset_from nxt una"
    and "p + (offset_from nxt una - offset_from s una) \<le> U32_MAX"
  shows "pipe_loop sb smss nxt s p
    = p + card {k \<in> {offset_from s una ..< offset_from nxt una}. in_flight sb una smss k}"
  using assms
proof (induction sb smss nxt s p rule: pipe_loop.induct)
  case (1 sb smss nxt s p)
  let ?s = "offset_from s una" and ?n = "offset_from nxt una"
  let ?F = "\<lambda>a b. {k \<in> {a ..< b}. in_flight sb una smss k}"
  have lt: "seq_lt s nxt \<longleftrightarrow> ?s < ?n"
    using 1(2,3) by (simp add: sb_window_def seq_window[where b = una])
  show ?case
  proof (cases "?s < ?n")
    case False
    then show ?thesis using lt by (simp add: pipe_loop.simps)
  next
    case True
    define e where "e = next_boundary sb s nxt"
    let ?e = "offset_from e una"
    have e: "?s < ?e" "?e \<le> ?n"
      using next_boundary_least(1,2)[OF 1(2) True] by (simp_all add: e_def)
    define q where "q = (if \<not> is_sacked sb s \<and> (is_rexmit sb s \<or> \<not> is_lost sb s smss)
        then sat_add32 p (offset_from e s) else p)"
    have "?F ?s ?e = (if \<not> is_sacked sb s \<and> (is_rexmit sb s \<or> \<not> is_lost sb s smss)
        then {?s ..< ?e} else {})"
      using status_uniform[OF 1(2) True] by (auto simp: in_flight_def e_def)
    moreover have "offset_from e s = ?e - ?s" using e by (intro sw.off_diff) simp
    moreover have "sat_add32 p (?e - ?s) = p + (?e - ?s)"
      using 1(4) e by (simp add: sat_add32_def)
    ultimately have q: "q = p + card (?F ?s ?e)" by (simp add: q_def)
    have "card (?F ?s ?e) \<le> card {?s ..< ?e}" by (rule card_mono) auto
    then have "q + (?n - ?e) \<le> U32_MAX" using q e 1(4) by simp
    then have "pipe_loop sb smss nxt e q = q + card (?F ?e ?n)"
      using 1(1)[OF _ e_def q_def] lt True 1(2) e by blast
    moreover have "pipe_loop sb smss nxt s p = pipe_loop sb smss nxt e q"
      using lt True by (subst pipe_loop.simps) (simp add: e_def q_def Let_def)
    moreover have "?F ?s ?n = ?F ?s ?e \<union> ?F ?e ?n" using e by auto
    moreover have "card (?F ?s ?e \<union> ?F ?e ?n) = card (?F ?s ?e) + card (?F ?e ?n)"
      by (intro card_Un_disjoint) auto
    ultimately show ?thesis using q by simp
  qed
qed

section \<open>The next segment\<close>

definition least_octet :: "seqnum \<Rightarrow> nat \<Rightarrow> nat \<Rightarrow> (seqnum \<Rightarrow> bool) \<Rightarrow> seqnum option \<Rightarrow> bool" where
  "least_octet una a n p res \<longleftrightarrow>
     (case res of
        Some s \<Rightarrow> a \<le> offset_from s una \<and> offset_from s una < n \<and> p s
          \<and> (\<forall>k. a \<le> k \<and> k < offset_from s una \<longrightarrow> \<not> p (octet una k))
      | None \<Rightarrow> (\<forall>k. a \<le> k \<and> k < n \<longrightarrow> \<not> p (octet una k)))"

lemma least_octet_skip:
  assumes "least_octet una e n p res" and "a \<le> e" and "\<And>k. a \<le> k \<Longrightarrow> k < e \<Longrightarrow> \<not> p (octet una k)"
  shows "least_octet una a n p res"
  using assms unfolding least_octet_def by (auto split: option.splits) (meson not_le)+

lemma scan_spans_least:
  assumes "sb_window una nxt sb" and "offset_from s una \<le> offset_from nxt una"
    and "\<And>t k. offset_from t una < offset_from nxt una \<Longrightarrow> offset_from t una \<le> k \<Longrightarrow>
      k < offset_from (next_boundary sb t nxt) una \<Longrightarrow> p (octet una k) = p t"
  shows "least_octet una (offset_from s una) (offset_from nxt una) p (scan_spans sb p nxt s)"
  using assms
proof (induction sb p nxt s rule: scan_spans.induct)
  case (1 sb p nxt s)
  let ?s = "offset_from s una" and ?n = "offset_from nxt una"
  define e where "e = next_boundary sb s nxt"
  have lt: "seq_lt s nxt \<longleftrightarrow> ?s < ?n"
    using 1(2,3) by (simp add: sb_window_def seq_window[where b = una])
  consider "\<not> ?s < ?n" | "?s < ?n" "p s" | "?s < ?n" "\<not> p s" by blast
  then show ?case
  proof cases
    case 1
    then show ?thesis using lt by (auto simp: scan_spans.simps least_octet_def)
  next
    case 2
    then show ?thesis using lt by (auto simp: scan_spans.simps least_octet_def Let_def)
  next
    case 3
    have e: "?s < offset_from e una" "offset_from e una \<le> ?n"
      using next_boundary_least(1,2)[OF 1(2) 3(1)] by (simp_all add: e_def)
    have "least_octet una (offset_from e una) ?n p (scan_spans sb p nxt e)"
      using 1(1)[OF _ e_def 3(2) 1(2) e(2) 1(4)] lt 3(1) by blast
    then have "least_octet una ?s ?n p (scan_spans sb p nxt e)"
      by (rule least_octet_skip) (use e 1(4)[OF 3(1)] 3(2) in \<open>auto simp: e_def\<close>)
    then show ?thesis using lt 3 by (subst scan_spans.simps) (simp add: e_def Let_def)
  qed
qed

text \<open>The selection of \<open>next_seg\<close>, octet by octet.\<close>

definition rule1 :: "scoreboard \<Rightarrow> nat \<Rightarrow> seqnum \<Rightarrow> bool" where
  "rule1 sb smss s \<longleftrightarrow> \<not> is_sacked sb s \<and> \<not> is_rexmit sb s \<and> is_lost sb s smss"

definition rule4 :: "scoreboard \<Rightarrow> seqnum \<Rightarrow> seqnum \<Rightarrow> bool" where
  "rule4 sb high s \<longleftrightarrow> \<not> is_sacked sb s \<and> \<not> is_rexmit sb s \<and> seq_lt s high"

lemma rule1_least:
  assumes "sb_window una nxt sb"
  shows "least_octet una 0 (offset_from nxt una) (rule1 sb smss)
      (scan_spans sb (\<lambda>s. \<not> is_sacked sb s \<and> \<not> is_rexmit sb s \<and> is_lost sb s smss) nxt una)"
  using scan_spans_least[OF assms, of una "rule1 sb smss"] status_uniform[OF assms]
  by (simp add: rule1_def[abs_def])

lemma highest_sacked_edge_set:
  "highest_sacked_edge sb = Some h \<Longrightarrow> \<exists>l. (l, h) \<in> set (sacked sb)"
  unfolding highest_sacked_edge_def by (metis last_in_set option.inject option.distinct(1) prod.collapse)

lemma rule4_least:
  assumes "sb_window una nxt sb" and "highest_sacked_edge sb = Some high"
  shows "least_octet una 0 (offset_from nxt una) (rule4 sb high)
      (scan_spans sb (\<lambda>s. \<not> is_sacked sb s \<and> \<not> is_rexmit sb s \<and> seq_lt s high) nxt una)"
proof -
  obtain l where h: "(l, high) \<in> set (sacked sb)" using highest_sacked_edge_set[OF assms(2)] by blast
  then have hw: "offset_from high una < 2147483648"
    using assms(1) by (auto simp: sb_window_def runs_in_window_def)
  have he: "offset_from high una \<in> edge_offsets una (sacked sb @ rexmit sb)"
    using h by (auto simp: edge_offsets_def)
  have u: "rule4 sb high (octet una k) = rule4 sb high t"
    if t: "offset_from t una < offset_from nxt una" "offset_from t una \<le> k"
      "k < offset_from (next_boundary sb t nxt) una" for t k
  proof -
    have n: "offset_from (next_boundary sb t nxt) una \<le> offset_from nxt una"
      by (rule next_boundary_least(2)[OF assms(1) t(1)])
    then have w: "k < 2147483648" "offset_from t una < 2147483648"
      using t assms(1) by (auto simp: sb_window_def)
    have "k < offset_from high una \<longleftrightarrow> offset_from t una < offset_from high una"
      using next_boundary_least(3)[OF assms(1) t(1) he] t by linarith
    then show ?thesis using status_uniform(1,2)[OF assms(1) t] w hw
      by (simp add: rule4_def seq_window[where b = una])
  qed
  then show ?thesis using scan_spans_least[OF assms(1), of una "rule4 sb high"]
    by (simp add: rule4_def[abs_def])
qed

lemma insert_run_length: "length (insert_run runs l r) \<le> Suc (length runs)"
proof -
  obtain i c l' r' where "insert_scan 0 runs (length runs) 0 l r = (i, c, l', r')"
    by (metis surj_pair)
  moreover define kept where "kept = take i runs @ drop (i + c) runs"
  moreover have "length kept \<le> length runs" by (simp add: kept_def)
  moreover have "length (take k kept @ x # drop k kept) = Suc (length kept)" for k x by simp
  ultimately show ?thesis by (simp add: insert_run_def Let_def del: length_append)
qed

lemma update_fold_length:
  "length (foldl (update_block una nxt) runs blocks) \<le> length runs + length blocks"
proof (induction blocks arbitrary: runs)
  case (Cons b blocks)
  have "length (update_block una nxt runs b) \<le> Suc (length runs)"
    using insert_run_length by (auto simp: update_block_def Let_def split: prod.splits)
  then show ?case using Cons.IH[of "update_block una nxt runs b"] by simp
qed simp

lemma wf_runs_distinct: "wf_runs b lo runs \<Longrightarrow> distinct runs"
  by (induction b lo runs rule: wf_runs.induct) (auto dest: wf_runs_lower)

lemma wf_runs_above_card:
  assumes "wf_runs b lo runs"
  shows "length (runs_above b k runs) = card {run \<in> set runs. k < offset_from (fst run) b}"
proof -
  have "distinct (runs_above b k runs)" using wf_runs_distinct[OF assms] by (simp add: runs_above_def)
  moreover have "set (runs_above b k runs) = {run \<in> set runs. k < offset_from (fst run) b}"
    by (auto simp: runs_above_def)
  ultimately show ?thesis using distinct_card by metis
qed

lemma run_bytes_above:
  assumes "wf_runs b lo runs" and "k \<notin> runs_set b runs"
  shows "run_bytes (runs_above b k runs) = card {j \<in> runs_set b runs. k < j}"
  using assms
proof (induction b lo runs rule: wf_runs.induct)
  case (1 b lo)
  then show ?case by (simp add: runs_above_def run_bytes_def)
next
  case (2 b lo l r runs)
  let ?l = "offset_from l b" and ?r = "offset_from r b"
  have lr: "?l < ?r" "offset_from r l = ?r - ?l" using 2 sw.off_diff[of l b r] by auto
  have above: "?r < j" if "j \<in> runs_set b runs" for j
    using that wf_runs_lower[of b "Suc ?r" runs] 2(2) by (fastforce simp: runs_set_def)
  have fin: "finite (runs_set b runs)" by (auto simp: runs_set_def)
  have ih: "run_bytes (runs_above b k runs) = card {j \<in> runs_set b runs. k < j}" using 2 by simp
  have k: "k < ?l \<or> ?r \<le> k" using 2(3) by auto
  have split: "{j \<in> runs_set b ((l, r) # runs). k < j}
      = {j \<in> {?l ..< ?r}. k < j} \<union> {j \<in> runs_set b runs. k < j}" by auto
  have "card {j \<in> runs_set b ((l, r) # runs). k < j}
      = card {j \<in> {?l ..< ?r}. k < j} + card {j \<in> runs_set b runs. k < j}"
    unfolding split using fin above by (intro card_Un_disjoint) (auto dest: above)
  moreover have "card {j \<in> {?l ..< ?r}. k < j} = (if k < ?l then ?r - ?l else 0)"
  proof (cases "k < ?l")
    case True
    then have "{j \<in> {?l ..< ?r}. k < j} = {?l ..< ?r}" by auto
    then show ?thesis using True by simp
  next
    case False
    then have "{j \<in> {?l ..< ?r}. k < j} = {}" using k by auto
    then show ?thesis using False by (simp only: card.empty if_False)
  qed
  ultimately show ?case using ih lr by (simp add: runs_above_def run_bytes_def)
qed

section \<open>Properties of the scoreboard\<close>

text \<open>
  \<open>insert_run\<close> on a well-formed run list, all within half the sequence space of a
  base, returns a well-formed list (sorted, disjoint, no two runs adjacent) that holds
  exactly the octets of the old list and of the new run, with no limit on how many runs
  the new one bridges.
\<close>

theorem insert_run_adds_octets:
  assumes "runs_in_window b runs" and "run_list_well_formed runs"
    and "offset_from l b < offset_from r b" and "offset_from r b < 2147483648"
  shows "run_list_well_formed (insert_run runs l r)
       \<and> runs_set b (insert_run runs l r) = {offset_from l b ..< offset_from r b} \<union> runs_set b runs
       \<and> (\<forall>s. offset_from s b < 2147483648 \<longrightarrow>
            in_runs (insert_run runs l r) s \<longleftrightarrow> (seq_ge s l \<and> seq_lt s r) \<or> in_runs runs s)"
proof -
  have wf: "wf_runs b 0 runs" using run_list_well_formed_iff[OF assms(1)] assms(2) by blast
  note i = insert_run_wf[OF wf _ assms(3,4), simplified]
  have "in_runs (insert_run runs l r) s \<longleftrightarrow> (seq_ge s l \<and> seq_lt s r) \<or> in_runs runs s"
    if "offset_from s b < 2147483648" for s
    using that i assms(1,3,4) wf_runs_window[of b 0 "insert_run runs l r"]
    by (auto simp: in_runs_iff[where b = b] seq_window[where b = b])
  then show ?thesis using i wf_runs_well_formed by blast
qed

theorem insert_run_adds_octets_witness:
  "run_list_well_formed (insert_run [(4294967290, 4294967292), (2, 4), (20, 30)] 4294967292 2)
   \<and> insert_run [(4294967290, 4294967292), (2, 4), (20, 30)] 4294967292 2 = [(4294967290, 4), (20, 30)]"
proof -
  have "runs_in_window 4294967290 [(4294967290, 4294967292), (2, 4), (20, 30)]"
    by (simp add: offset_from_def)
  moreover have "run_list_well_formed [(4294967290, 4294967292), (2, 4), (20, 30)]" by code_simp
  moreover have "offset_from 4294967292 4294967290 < offset_from 2 4294967290"
    "offset_from 2 4294967290 < 2147483648" by (simp_all add: offset_from_def)
  ultimately have "run_list_well_formed
      (insert_run [(4294967290, 4294967292), (2, 4), (20, 30)] 4294967292 2)"
    using insert_run_adds_octets by blast
  moreover have "insert_run [(4294967290, 4294967292), (2, 4), (20, 30)] 4294967292 2
      = [(4294967290, 4), (20, 30)]" by code_simp
  ultimately show ?thesis by blast
qed

text \<open>
  \<open>update\<close> is safe against any list of SACK blocks. Whatever edges the peer sends
  (reversed, stale, straddling \<open>snd_una\<close>, above \<open>snd_nxt\<close>, duplicated), the scoreboard
  invariant is kept, every octet it now counts as SACKed was SACKed before or is reported by
  a block that lies in \<open>(snd_una, snd_nxt]\<close>, and unless the run cap is exceeded every
  such octet is recorded.
\<close>

theorem update_records_valid_blocks:
  assumes "sb_inv una nxt sb"
  shows "sb_inv una nxt (sb_update sb una nxt blocks)
       \<and> invariants_hold (sb_update sb una nxt blocks)
       \<and> runs_set una (sacked (sb_update sb una nxt blocks))
           \<subseteq> runs_set una (sacked sb) \<union> (\<Union>b \<in> set blocks. block_octets una nxt b)
       \<and> (length (sacked sb) + length blocks \<le> MAX_RUNS \<longrightarrow>
           runs_set una (sacked (sb_update sb una nxt blocks))
           = runs_set una (sacked sb) \<union> (\<Union>b \<in> set blocks. block_octets una nxt b))"
proof -
  have f: "runs_set una (foldl (update_block una nxt) (sacked sb) blocks)
      = (\<Union>b \<in> set blocks. block_octets una nxt b) \<union> runs_set una (sacked sb)"
    using update_fold_correct[of una "sacked sb" "offset_from nxt una" nxt blocks] assms
    by (simp add: sb_inv_def)
  have "take MAX_RUNS (foldl (update_block una nxt) (sacked sb) blocks)
      = foldl (update_block una nxt) (sacked sb) blocks"
    if "length (sacked sb) + length blocks \<le> MAX_RUNS"
    using that update_fold_length[of una nxt "sacked sb" blocks] by simp
  then show ?thesis
    using f sb_update_inv[OF assms, of blocks]
      sb_inv_invariants_hold[OF sb_update_inv[OF assms, of blocks]]
      runs_set_take[of una MAX_RUNS "foldl (update_block una nxt) (sacked sb) blocks"]
    by (simp add: sb_update_def Un_commute)
qed

theorem update_records_valid_blocks_witness:
  "runs_set 1000 (sacked (sb_update scoreboard_new 1000 5000 [(900, 1200), (4000, 6000), (3000, 2000), (2000, 3000)]))
     = {0..<200} \<union> {1000..<2000}"
proof -
  have "sb_inv 1000 5000 scoreboard_new" by (rule sb_inv_new) (simp add: offset_from_def)
  then have "runs_set 1000 (sacked (sb_update scoreboard_new 1000 5000
        [(900, 1200), (4000, 6000), (3000, 2000), (2000, 3000)]))
      = runs_set 1000 (sacked scoreboard_new)
        \<union> (\<Union>b \<in> set [(900, 1200), (4000, 6000), (3000, 2000), (2000, 3000)]. block_octets 1000 5000 b)"
    using update_records_valid_blocks by (simp add: scoreboard_new_def MAX_RUNS_def)
  moreover have "block_octets 1000 5000 (900, 1200) = {0..<200}"
    "block_octets 1000 5000 (4000, 6000) = {}" "block_octets 1000 5000 (3000, 2000) = {}"
    "block_octets 1000 5000 (2000, 3000) = {1000..<2000}"
    by (simp_all add: block_octets_def block_valid_def seq_lt_offset seq_gt_not_le
        seq_le_lt_or_eq offset_from_def)
  ultimately show ?thesis by (simp add: scoreboard_new_def)
qed

text \<open>
  \<open>trim\<close> to an acknowledgement inside \<open>[snd_una, snd_nxt]\<close> forgets exactly the
  octets below it, in both run lists, and keeps the invariant for the new window.
\<close>

theorem trim_forgets_below_ack:
  assumes "sb_inv una nxt sb" and "offset_from una' una \<le> offset_from nxt una"
  shows "sb_inv una' nxt (sb_trim sb una')
       \<and> runs_set una' (sacked (sb_trim sb una')) = {k. k + offset_from una' una \<in> runs_set una (sacked sb)}
       \<and> runs_set una' (rexmit (sb_trim sb una')) = {k. k + offset_from una' una \<in> runs_set una (rexmit sb)}"
proof -
  have "offset_from una' una < 2147483648" "wf_runs una 0 (sacked sb)" "wf_runs una 0 (rexmit sb)"
    using assms by (auto simp: sb_inv_def)
  then show ?thesis
    using sb_trim_inv[OF assms] trim_runs_correct[OF _ refl, of una 0 _ una'] by (simp add: sb_trim_def)
qed

theorem trim_forgets_below_ack_witness:
  "sb_inv 1500 5000 (sb_trim \<lparr>sacked = [(1200, 1700), (3000, 4000)], rexmit = [(1000, 1200)],
      recovery_point = Some 5000, rescue_done = False\<rparr> 1500)"
proof -
  have "sb_inv 1000 5000 \<lparr>sacked = [(1200, 1700), (3000, 4000)], rexmit = [(1000, 1200)],
      recovery_point = Some 5000, rescue_done = False\<rparr>"
    by (simp add: sb_inv_def offset_from_def MAX_RUNS_def)
  then show ?thesis using trim_forgets_below_ack[of 1000 5000 _ 1500] by (simp add: offset_from_def)
qed

text \<open>
  C23: \<open>pipe\<close> is RFC 6675's estimate. The span walk returns the number of octets in
  \<open>[snd_una, snd_nxt)\<close> that are not SACKed and are either retransmitted or not deemed
  lost, as if it had examined every octet.
\<close>

theorem pipe_counts_octets:
  assumes "sb_inv una nxt sb"
  shows "sb_pipe sb una nxt smss =
    card {k. k < offset_from nxt una \<and> \<not> is_sacked sb (octet una k)
              \<and> (is_rexmit sb (octet una k) \<or> \<not> is_lost sb (octet una k) smss)}"
  using pipe_loop_count[OF sb_inv_window[OF assms], of una 0 smss] assms
  by (simp add: sb_pipe_def in_flight_def sb_inv_def U32_MAX_def)

theorem pipe_counts_octets_witness:
  "sb_pipe \<lparr>sacked = [(1002, 1010)], rexmit = [], recovery_point = None, rescue_done = False\<rparr> 1000 1010 1 = 0
   \<and> card {k. k < offset_from 1010 1000
        \<and> \<not> is_sacked \<lparr>sacked = [(1002, 1010)], rexmit = [], recovery_point = None, rescue_done = False\<rparr> (octet 1000 k)
        \<and> (is_rexmit \<lparr>sacked = [(1002, 1010)], rexmit = [], recovery_point = None, rescue_done = False\<rparr> (octet 1000 k)
           \<or> \<not> is_lost \<lparr>sacked = [(1002, 1010)], rexmit = [], recovery_point = None, rescue_done = False\<rparr> (octet 1000 k) 1)} = 0"
proof -
  have "sb_inv 1000 1010 \<lparr>sacked = [(1002, 1010)], rexmit = [], recovery_point = None, rescue_done = False\<rparr>"
    by (simp add: sb_inv_def offset_from_def MAX_RUNS_def)
  note eq = pipe_counts_octets[OF this, of 1]
  have "sb_pipe \<lparr>sacked = [(1002, 1010)], rexmit = [], recovery_point = None, rescue_done = False\<rparr> 1000 1010 1 = 0"
    by (simp add: sb_pipe_def pipe_loop.simps next_boundary_def boundary_step_def seq_lt_offset
        seq_gt_offset seq_ge_not_lt is_sacked_def in_runs_def is_rexmit_def is_lost_def DUP_THRESH_def
        sat_add32_def U32_MAX_def offset_from_def)
  then show ?thesis using eq by simp
qed

text \<open>
  \<open>is_lost\<close> is RFC 6675's IsLost on an octet that is not SACKed: it holds exactly
  when three discontiguous SACKed runs lie above the octet, or more than two SMSS of SACKed
  octets do.
\<close>

theorem is_lost_rfc6675:
  assumes "sb_inv una nxt sb" and "k < offset_from nxt una" and "\<not> is_sacked sb (octet una k)"
    and "2 * smss < U32_MAX"
  shows "is_lost sb (octet una k) smss \<longleftrightarrow>
      3 \<le> card {run \<in> set (sacked sb). k < offset_from (fst run) una}
    \<or> 2 * smss < card {j \<in> runs_set una (sacked sb). k < j}"
proof -
  have w: "runs_in_window una (sacked sb)" "k < 2147483648" and wf: "wf_runs una 0 (sacked sb)"
    using assms(1,2) by (auto simp: sb_inv_def dest: wf_runs_window)
  have ns: "k \<notin> runs_set una (sacked sb)" using assms(3) w by (simp add: is_sacked_def in_runs_octet)
  have "is_lost sb (octet una k) smss \<longleftrightarrow>
      3 \<le> length (runs_above una k (sacked sb)) \<or> 2 * smss < run_bytes (runs_above una k (sacked sb))"
    using is_lost_iff[OF sb_inv_window[OF assms(1)], of "octet una k" smss] w assms(4) by simp
  moreover have "length (runs_above una k (sacked sb)) = card {run \<in> set (sacked sb). k < offset_from (fst run) una}"
    using wf_runs_above_card[OF wf] by simp
  ultimately show ?thesis using run_bytes_above[OF wf ns] by simp
qed

theorem is_lost_rfc6675_witness:
  "is_lost \<lparr>sacked = [(1002, 1010)], rexmit = [], recovery_point = None, rescue_done = False\<rparr> (octet 1000 1) 1
   \<longleftrightarrow> 3 \<le> card {run \<in> set [(1002, 1010 :: seqnum)]. 1 < offset_from (fst run) 1000}
     \<or> 2 * 1 < card {j \<in> runs_set 1000 [(1002, 1010)]. 1 < j}"
proof -
  let ?sb = "\<lparr>sacked = [(1002, 1010)], rexmit = [], recovery_point = None, rescue_done = False\<rparr>"
  have "sb_inv 1000 1010 ?sb" by (simp add: sb_inv_def offset_from_def MAX_RUNS_def)
  moreover have "1 < offset_from 1010 1000" by (simp add: offset_from_def)
  moreover have "\<not> is_sacked ?sb (octet 1000 1)"
    by (simp add: is_sacked_def in_runs_def octet_def seq_add_def seq_ge_not_lt seq_lt_offset offset_from_def)
  moreover have "2 * 1 < U32_MAX" by (simp add: U32_MAX_def)
  ultimately show ?thesis using is_lost_rfc6675[of 1000 1010 ?sb 1 1] by simp
qed

text \<open>
  \<open>next_seg\<close> answers RFC 6675's NextSeg rules 1 and 4. A result with the rescue flag
  off is the lowest octet of \<open>[snd_una, snd_nxt)\<close> that is not SACKed, not yet
  retransmitted and lost. With the flag on there is no such octet, the rescue is unused,
  and it is the lowest hole below the highest SACKed edge. \<open>None\<close> means neither exists.
\<close>

theorem next_seg_lowest_octet:
  assumes "sb_inv una nxt sb"
  shows "case next_seg sb una nxt smss of
      Some (s, False) \<Rightarrow> least_octet una 0 (offset_from nxt una) (rule1 sb smss) (Some s)
    | Some (s, True) \<Rightarrow> \<not> rescue_done sb
        \<and> least_octet una 0 (offset_from nxt una) (rule1 sb smss) None
        \<and> (\<exists>high. highest_sacked_edge sb = Some high
             \<and> least_octet una 0 (offset_from nxt una) (rule4 sb high) (Some s))
    | None \<Rightarrow> least_octet una 0 (offset_from nxt una) (rule1 sb smss) None
        \<and> (rescue_done sb \<or> (\<forall>high. highest_sacked_edge sb = Some high \<longrightarrow>
             least_octet una 0 (offset_from nxt una) (rule4 sb high) None))"
proof -
  let ?p1 = "\<lambda>s. \<not> is_sacked sb s \<and> \<not> is_rexmit sb s \<and> is_lost sb s smss"
  note w = sb_inv_window[OF assms]
  note r1 = rule1_least[OF w, of smss]
  show ?thesis
  proof (cases "scan_spans sb ?p1 nxt una")
    case (Some s)
    then show ?thesis using r1 by (simp add: next_seg_def)
  next
    case None
    then show ?thesis using r1 rule4_least[OF w]
      by (auto simp: next_seg_def split: option.splits)
  qed
qed

theorem next_seg_lowest_octet_witness:
  "next_seg \<lparr>sacked = [(1002, 1010)], rexmit = [(1000, 1001)], recovery_point = None, rescue_done = False\<rparr>
     1000 1010 1 = Some (1001, False)
   \<and> least_octet 1000 0 (offset_from 1010 1000)
       (rule1 \<lparr>sacked = [(1002, 1010)], rexmit = [(1000, 1001)], recovery_point = None, rescue_done = False\<rparr> 1)
       (Some 1001)"
proof -
  let ?sb = "\<lparr>sacked = [(1002, 1010)], rexmit = [(1000, 1001)], recovery_point = None, rescue_done = False\<rparr>"
  have "sb_inv 1000 1010 ?sb" by (simp add: sb_inv_def offset_from_def MAX_RUNS_def)
  note p = next_seg_lowest_octet[OF this, of 1]
  have "next_seg ?sb 1000 1010 1 = Some (1001, False)"
    by (simp add: next_seg_def scan_spans.simps next_boundary_def boundary_step_def seq_lt_offset
        seq_gt_offset seq_ge_not_lt is_sacked_def in_runs_def is_rexmit_def is_lost_def DUP_THRESH_def
        sat_add32_def U32_MAX_def offset_from_def)
  then show ?thesis using p by simp
qed

end
