(* ===== verification/Reassembly.thy ===== *)
theory Reassembly
  imports Sack_Scoreboard
begin

text \<open>
  \<open>reasm.rs\<close>: the out-of-order receive buffer. A run owns its bytes; \<open>insert\<close>
  clips a segment to the bufferable window, merges it with every run it overlaps or touches
  (bytes already held win), and keeps the runs sorted. Slices that would panic, and a byte
  count that would underflow, make the result \<open>None\<close>. The recency stamp is a
  \<open>u64\<close> event counter and is not bounded here.
\<close>

record segment =
  seg_start :: seqnum
  seg_data :: bytes
  seg_stamp :: nat

record reasm =
  reasm_runs :: "segment list"
  reasm_bytes :: nat
  next_stamp :: nat

definition reasm_new :: reasm where
  "reasm_new = \<lparr>reasm_runs = [], reasm_bytes = 0, next_stamp = 0\<rparr>"

definition buffered :: "reasm \<Rightarrow> nat" where
  "buffered self = reasm_bytes self"

definition reasm_is_empty :: "reasm \<Rightarrow> bool" where
  "reasm_is_empty self \<longleftrightarrow> reasm_runs self = []"

definition run_end :: "segment \<Rightarrow> seqnum" where
  "run_end run = seq_add (seg_start run) (length (seg_data run))"

text \<open>The scan for the block of runs that overlap or touch \<open>[lo, new_end)\<close>, and the merged span.\<close>

fun merge_scan :: "seqnum \<Rightarrow> seqnum \<Rightarrow> nat \<Rightarrow> segment list \<Rightarrow> nat \<Rightarrow> nat \<Rightarrow> seqnum \<Rightarrow> seqnum
    \<Rightarrow> nat \<times> nat \<times> seqnum \<times> seqnum" where
  "merge_scan lo new_end idx [] first_idx count merged_start merged_end
     = (first_idx, count, merged_start, merged_end)"
| "merge_scan lo new_end idx (run # runs) first_idx count merged_start merged_end =
     (if seq_le (seg_start run) new_end \<and> seq_le lo (run_end run)
      then merge_scan lo new_end (idx + 1) runs (if count = 0 then idx else first_idx) (count + 1)
             (if seq_lt (seg_start run) merged_start then seg_start run else merged_start)
             (if seq_gt (run_end run) merged_end then run_end run else merged_end)
      else merge_scan lo new_end (idx + 1) runs first_idx count merged_start merged_end)"

text \<open>The bytes of the merged-away runs, written over the new ones.\<close>

fun overlay :: "seqnum \<Rightarrow> segment list \<Rightarrow> bytes \<Rightarrow> bytes option" where
  "overlay merged_start [] dat = Some dat"
| "overlay merged_start (run # runs) dat = do {
     dat \<leftarrow> copy_into dat (offset_from (seg_start run) merged_start) (seg_data run);
     overlay merged_start runs dat
   }"

fun deduct :: "nat \<Rightarrow> segment list \<Rightarrow> nat option" where
  "deduct n [] = Some n"
| "deduct n (run # runs) = do {
     n \<leftarrow> chk_sub n (length (seg_data run));
     deduct n runs
   }"

definition reasm_insert :: "reasm \<Rightarrow> seqnum \<Rightarrow> seqnum \<Rightarrow> seqnum \<Rightarrow> bytes \<Rightarrow> reasm option" where
  "reasm_insert self rcv_nxt right_edge seg_seq payload =
     (let seg_end = seq_add seg_seq (length payload);
          lo = seq_max seg_seq rcv_nxt;
          hi = seq_min seg_end right_edge
      in if seq_ge lo hi then Some self
         else let off = offset_from lo seg_seq;
                  len = offset_from hi lo;
                  new_end = seq_add lo len
              in (case merge_scan lo new_end 0 (reasm_runs self) (length (reasm_runs self)) 0 lo new_end of
                    (first_idx, count, merged_start, merged_end) \<Rightarrow> do {
                      new_bytes \<leftarrow> sub_slice payload off (off + len);
                      let removed = take count (drop first_idx (reasm_runs self));
                      let span = offset_from merged_end merged_start;
                      dat \<leftarrow> copy_into (replicate span 0) (offset_from lo merged_start) new_bytes;
                      dat \<leftarrow> overlay merged_start removed dat;
                      let runs = take first_idx (reasm_runs self) @ drop (first_idx + count) (reasm_runs self);
                      n \<leftarrow> deduct (reasm_bytes self) removed;
                      let stamp = next_stamp self + 1;
                      let seg = \<lparr>seg_start = merged_start, seg_data = dat, seg_stamp = stamp\<rparr>;
                      let pos = position (\<lambda>r. seq_lt merged_start (seg_start r)) runs;
                      Some \<lparr>reasm_runs = take pos runs @ seg # drop pos runs,
                            reasm_bytes = n + length dat, next_stamp = stamp\<rparr>
                    }))"

definition pop_contiguous :: "reasm \<Rightarrow> seqnum \<Rightarrow> (bytes \<times> reasm) option" where
  "pop_contiguous self rcv_nxt =
     (case reasm_runs self of
        [] \<Rightarrow> Some ([], self)
      | first # rest \<Rightarrow>
          if seg_start first = rcv_nxt
          then do {
            n \<leftarrow> chk_sub (reasm_bytes self) (length (seg_data first));
            Some (seg_data first, self\<lparr>reasm_runs := rest, reasm_bytes := n\<rparr>)
          }
          else Some ([], self))"

fun discard_loop :: "seqnum \<Rightarrow> segment list \<Rightarrow> nat \<Rightarrow> (segment list \<times> nat) option" where
  "discard_loop rcv_nxt [] n = Some ([], n)"
| "discard_loop rcv_nxt (first # rest) n =
     (if seq_le (run_end first) rcv_nxt
      then do {
        n \<leftarrow> chk_sub n (length (seg_data first));
        discard_loop rcv_nxt rest n
      }
      else if seq_lt (seg_start first) rcv_nxt
      then let d = offset_from rcv_nxt (seg_start first)
           in if d \<le> length (seg_data first)
              then do {
                n \<leftarrow> chk_sub n d;
                Some (first\<lparr>seg_data := drop d (seg_data first), seg_start := rcv_nxt\<rparr> # rest, n)
              }
              else None
      else Some (first # rest, n))"

definition discard_below :: "reasm \<Rightarrow> seqnum \<Rightarrow> reasm option" where
  "discard_below self rcv_nxt = do {
     (runs, n) \<leftarrow> discard_loop rcv_nxt (reasm_runs self) (reasm_bytes self);
     Some (self\<lparr>reasm_runs := runs, reasm_bytes := n\<rparr>)
   }"

definition reinsert_front :: "reasm \<Rightarrow> seqnum \<Rightarrow> bytes \<Rightarrow> reasm" where
  "reinsert_front self start dat =
     (if dat = [] then self
      else \<lparr>reasm_runs = \<lparr>seg_start = start, seg_data = dat, seg_stamp = next_stamp self + 1\<rparr> # reasm_runs self,
            reasm_bytes = reasm_bytes self + length dat, next_stamp = next_stamp self + 1\<rparr>)"

text \<open>\<open>report\<close> fills \<open>cap\<close> slots, the runs ordered by descending stamp (a stable sort).\<close>

definition report :: "reasm \<Rightarrow> nat \<Rightarrow> run list" where
  "report self cap =
     map (\<lambda>r. (seg_start r, run_end r))
       (take cap (sort_key (\<lambda>r. - int (seg_stamp r)) (reasm_runs self)))"

section \<open>The buffered bytes as a map from offsets\<close>

abbreviation seg_lo :: "seqnum \<Rightarrow> segment \<Rightarrow> nat" where
  "seg_lo c x \<equiv> offset_from (seg_start x) c"

abbreviation seg_hi :: "seqnum \<Rightarrow> segment \<Rightarrow> nat" where
  "seg_hi c x \<equiv> seg_lo c x + length (seg_data x)"

definition bytes_at :: "nat \<Rightarrow> bytes \<Rightarrow> nat \<Rightarrow> u8 option" where
  "bytes_at l dat k = (if l \<le> k \<and> k < l + length dat then Some (dat ! (k - l)) else None)"

fun content :: "seqnum \<Rightarrow> segment list \<Rightarrow> nat \<Rightarrow> u8 option" where
  "content c [] = Map.empty"
| "content c (x # xs) = bytes_at (seg_lo c x) (seg_data x) ++ content c xs"

definition wf_segs :: "seqnum \<Rightarrow> nat \<Rightarrow> nat \<Rightarrow> segment list \<Rightarrow> bool" where
  "wf_segs c z n runs \<longleftrightarrow> sorted_wrt (\<lambda>x y. seg_hi c x < seg_lo c y) runs
     \<and> (\<forall>x \<in> set runs. seg_data x \<noteq> [] \<and> z \<le> seg_lo c x \<and> seg_hi c x \<le> n) \<and> n < 2147483648"

definition run_total :: "segment list \<Rightarrow> nat" where
  "run_total runs = sum_list (map (\<lambda>x. length (seg_data x)) runs)"

text \<open>
  The invariant: relative to a base \<open>c\<close>, the runs are non-empty, sorted, disjoint and
  not adjacent, inside offsets \<open>[z, n)\<close>, and the byte count is their total.
\<close>

definition reasm_inv :: "seqnum \<Rightarrow> nat \<Rightarrow> nat \<Rightarrow> reasm \<Rightarrow> bool" where
  "reasm_inv c z n self \<longleftrightarrow> wf_segs c z n (reasm_runs self) \<and> reasm_bytes self = run_total (reasm_runs self)"

lemma run_total_simps [simp]:
  "run_total [] = 0" "run_total (x # xs) = length (seg_data x) + run_total xs"
  "run_total (xs @ ys) = run_total xs + run_total ys"
  by (simp_all add: run_total_def)

lemma content_append: "content c (xs @ ys) = content c xs ++ content c ys"
  by (induction xs) simp_all

lemma dom_bytes_at [simp]: "dom (bytes_at l dat) = {l ..< l + length dat}"
  by (auto simp: bytes_at_def split: if_splits)

lemma bytes_at_Nil [simp]: "bytes_at l [] = Map.empty"
  by (auto simp: bytes_at_def)

lemma dom_content: "dom (content c xs) = (\<Union>x \<in> set xs. {seg_lo c x ..< seg_hi c x})"
  by (induction xs) auto

lemma run_end_offset: "seg_hi c x < 2147483648 \<Longrightarrow> offset_from (run_end x) c = seg_hi c x"
  unfolding run_end_def by (rule sw.off_add)

lemma deduct_total: "run_total xs \<le> n \<Longrightarrow> deduct n xs = Some (n - run_total xs)"
  by (induction xs arbitrary: n) (auto simp: chk_sub_def)

lemma overlay_bytes:
  assumes "\<forall>x \<in> set xs. m \<le> seg_lo c x \<and> seg_hi c x \<le> m + length dat" and "offset_from ms c = m"
  shows "\<exists>dat'. overlay ms xs dat = Some dat' \<and> length dat' = length dat
    \<and> bytes_at m dat' = bytes_at m dat ++ content c xs"
  using assms(1)
proof (induction xs arbitrary: dat)
  case (Cons x xs)
  have o: "offset_from (seg_start x) ms = seg_lo c x - m"
    using Cons.prems assms(2) sw.off_diff[of ms c "seg_start x"] by simp
  have "seg_lo c x - m + length (seg_data x) \<le> length dat" using Cons.prems by auto
  then obtain d1 where d1: "copy_into dat (seg_lo c x - m) (seg_data x) = Some d1"
    by (simp add: copy_into_def)
  have l1: "length d1 = length dat" using copy_into_length[OF d1] .
  have "bytes_at m d1 k = (bytes_at m dat ++ bytes_at (seg_lo c x) (seg_data x)) k" for k
    using copy_into_nth[OF d1, of "k - m"] l1 Cons.prems
    by (auto simp: bytes_at_def map_add_def)
  then have b1: "bytes_at m d1 = bytes_at m dat ++ bytes_at (seg_lo c x) (seg_data x)" by blast
  obtain d2 where d2: "overlay ms xs d1 = Some d2" "length d2 = length d1"
    "bytes_at m d2 = bytes_at m d1 ++ content c xs"
    using Cons.IH[of d1] Cons.prems l1 by auto
  then show ?case using d1 l1 b1 o by simp
qed simp

text \<open>The runs split into those below the new span, those that touch it and those above.\<close>

lemma segs_split:
  assumes "wf_segs c z n runs" and "l < r"
  shows "\<exists>A M B. runs = A @ M @ B \<and> (\<forall>x \<in> set A. seg_hi c x < l)
    \<and> (\<forall>x \<in> set M. seg_lo c x \<le> r \<and> l \<le> seg_hi c x) \<and> (\<forall>x \<in> set B. r < seg_lo c x)"
  using assms(1)
proof (induction runs)
  case (Cons x runs)
  then have s: "\<forall>y \<in> set runs. seg_hi c x < seg_lo c y" and w: "wf_segs c z n runs"
    by (auto simp: wf_segs_def)
  obtain A M B where ih: "runs = A @ M @ B" "\<forall>x \<in> set A. seg_hi c x < l"
    "\<forall>x \<in> set M. seg_lo c x \<le> r \<and> l \<le> seg_hi c x" "\<forall>x \<in> set B. r < seg_lo c x"
    using Cons.IH[OF w] by blast
  consider "seg_hi c x < l" | "seg_lo c x \<le> r" "l \<le> seg_hi c x" | "r < seg_lo c x" "l \<le> seg_hi c x"
    by linarith
  then show ?case
  proof cases
    case 1
    then show ?thesis using ih by (intro exI[of _ "x # A"] exI[of _ M] exI[of _ B]) simp
  next
    case 2
    have "A = []"
    proof (rule ccontr)
      assume "A \<noteq> []"
      then obtain a where "a \<in> set A" by (cases A) auto
      then have "seg_hi c a < l" "seg_hi c x < seg_lo c a" using ih(1,2) s by auto
      then show False using 2 by linarith
    qed
    then show ?thesis using ih 2 by (intro exI[of _ "[]"] exI[of _ "x # M"] exI[of _ B]) simp
  next
    case 3
    then have "\<forall>y \<in> set runs. r < seg_lo c y" using s by auto
    then show ?thesis using 3 by (intro exI[of _ "[]"] exI[of _ "[]"] exI[of _ "x # runs"]) simp
  qed
qed simp

lemma merge_touch_iff:
  assumes "seg_hi c x < 2147483648" and "offset_from lo c < 2147483648" "offset_from e c < 2147483648"
  shows "seq_le (seg_start x) e \<and> seq_le lo (run_end x)
    \<longleftrightarrow> seg_lo c x \<le> offset_from e c \<and> offset_from lo c \<le> seg_hi c x"
  using assms by (simp add: seq_window[where b = c] run_end_offset)

lemma merge_scan_skip:
  assumes "\<forall>x \<in> set xs. \<not> (seq_le (seg_start x) e \<and> seq_le lo (run_end x))"
  shows "merge_scan lo e i (xs @ ys) f n ms me = merge_scan lo e (i + length xs) ys f n ms me"
  using assms by (induction xs arbitrary: i) auto

lemma merge_scan_take:
  assumes "\<forall>x \<in> set xs. seq_le (seg_start x) e \<and> seq_le lo (run_end x)"
    and "\<forall>x \<in> set xs. seg_hi c x < 2147483648"
    and "offset_from ms c < 2147483648" "offset_from me c < 2147483648"
  shows "\<exists>ms' me'. merge_scan lo e i (xs @ ys) f n ms me
      = merge_scan lo e (i + length xs) ys (if n = 0 \<and> xs \<noteq> [] then i else f) (n + length xs) ms' me'
    \<and> offset_from ms' c = Min (insert (offset_from ms c) (seg_lo c ` set xs))
    \<and> offset_from me' c = Max (insert (offset_from me c) (seg_hi c ` set xs))"
  using assms
proof (induction xs arbitrary: i f n ms me)
  case Nil
  show ?case by (intro exI[of _ ms] exI[of _ me]) simp
next
  case (Cons x xs)
  define m1 where "m1 = (if seq_lt (seg_start x) ms then seg_start x else ms)"
  define e1 where "e1 = (if seq_gt (run_end x) me then run_end x else me)"
  have x: "seg_hi c x < 2147483648" using Cons.prems by simp
  have m1: "offset_from m1 c = min (seg_lo c x) (offset_from ms c)"
    using Cons.prems by (auto simp: m1_def seq_window[where b = c])
  have e1: "offset_from e1 c = max (seg_hi c x) (offset_from me c)"
    using Cons.prems x by (auto simp: e1_def seq_window[where b = c] run_end_offset)
  have m1w: "offset_from m1 c < 2147483648" and e1w: "offset_from e1 c < 2147483648"
    using m1 e1 Cons.prems(3,4) x by (auto simp: min_def)
  obtain ms' me' where ih: "merge_scan lo e (i + 1) (xs @ ys) (if n = 0 then i else f) (n + 1) m1 e1
      = merge_scan lo e (i + 1 + length xs) ys
          (if n + 1 = 0 \<and> xs \<noteq> [] then i + 1 else if n = 0 then i else f) (n + 1 + length xs) ms' me'"
    "offset_from ms' c = Min (insert (offset_from m1 c) (seg_lo c ` set xs))"
    "offset_from me' c = Max (insert (offset_from e1 c) (seg_hi c ` set xs))"
    using Cons.IH[of m1 e1 "i + 1" "if n = 0 then i else f" "n + 1"] Cons.prems m1w e1w
    by fastforce
  have "Min (insert (offset_from m1 c) (seg_lo c ` set xs))
      = Min (insert (offset_from ms c) (seg_lo c ` set (x # xs)))"
    unfolding m1 by (cases "xs = []") (simp_all add: min.assoc min.left_commute min.commute)
  moreover have "Max (insert (offset_from e1 c) (seg_hi c ` set xs))
      = Max (insert (offset_from me c) (seg_hi c ` set (x # xs)))"
    unfolding e1 by (cases "xs = []") (simp_all add: max.assoc max.left_commute max.commute)
  moreover have "merge_scan lo e i ((x # xs) @ ys) f n ms me
      = merge_scan lo e (i + 1) (xs @ ys) (if n = 0 then i else f) (n + 1) m1 e1"
    using Cons.prems by (simp add: m1_def e1_def)
  ultimately show ?case using ih by (intro exI[of _ ms'] exI[of _ me']) simp
qed

lemma take_append_length: "take (length xs) (xs @ ys) = xs" and drop_append_length: "drop (length xs) (xs @ ys) = ys"
  by simp_all

text \<open>
  The merge, on offsets: for a span \<open>[l, r)\<close> and the touching runs \<open>M\<close>, the scan
  returns \<open>M\<close>'s place and the span of their union, and what is kept is \<open>A @ B\<close>.
\<close>

lemma merge_scan_split:
  assumes "wf_segs c z n (A @ M @ B)"
    and "\<forall>x \<in> set A. seg_hi c x < offset_from lo c"
    and "\<forall>x \<in> set M. seg_lo c x \<le> offset_from e c \<and> offset_from lo c \<le> seg_hi c x"
    and "\<forall>x \<in> set B. offset_from e c < seg_lo c x"
    and "offset_from lo c < offset_from e c" "offset_from e c < 2147483648"
  obtains ms me f where
    "merge_scan lo e 0 (A @ M @ B) (length (A @ M @ B)) 0 lo e = (f, length M, ms, me)"
    "take (length M) (drop f (A @ M @ B)) = M"
    "take f (A @ M @ B) @ drop (f + length M) (A @ M @ B) = A @ B"
    "offset_from ms c = Min (insert (offset_from lo c) (seg_lo c ` set M))"
    "offset_from me c = Max (insert (offset_from e c) (seg_hi c ` set M))"
proof -
  let ?t = "\<lambda>x. seq_le (seg_start x) e \<and> seq_le lo (run_end x)"
  have hw: "\<forall>x \<in> set (A @ M @ B). seg_hi c x < 2147483648"
    using assms(1) unfolding wf_segs_def by (meson le_less_trans)
  have t: "?t x \<longleftrightarrow> seg_lo c x \<le> offset_from e c \<and> offset_from lo c \<le> seg_hi c x"
    if "x \<in> set (A @ M @ B)" for x
    using merge_touch_iff[where c = c and x = x and lo = lo and e = e] hw that assms(5,6) by auto
  have A: "\<forall>x \<in> set A. \<not> ?t x" and M: "\<forall>x \<in> set M. ?t x" and B: "\<forall>x \<in> set B. \<not> ?t x"
    using t assms(2-4) by fastforce+
  have low: "offset_from lo c < 2147483648" using assms(5,6) by simp
  obtain ms me where s: "merge_scan lo e (length A) (M @ B) (length (A @ M @ B)) 0 lo e
      = merge_scan lo e (length A + length M) B (if M \<noteq> [] then length A else length (A @ M @ B)) (length M) ms me"
    "offset_from ms c = Min (insert (offset_from lo c) (seg_lo c ` set M))"
    "offset_from me c = Max (insert (offset_from e c) (seg_hi c ` set M))"
    using merge_scan_take[OF M _ low assms(6), of "length A" B "length (A @ M @ B)" 0] hw by auto
  have "merge_scan lo e 0 (A @ M @ B) (length (A @ M @ B)) 0 lo e
      = (if M \<noteq> [] then length A else length (A @ M @ B), length M, ms, me)"
    using merge_scan_skip[OF A, of 0 "M @ B"] s(1) merge_scan_skip[OF B, of _ "[]"] by simp
  then show ?thesis using that s(2,3) by (cases "M = []") auto
qed

text \<open>The merged run covers its whole span: the new bytes bridge the runs they touch.\<close>

lemma merged_span_covered:
  assumes "\<forall>x \<in> set M. seg_lo c x \<le> r \<and> l \<le> seg_hi c x" and "l < r"
    and "m = Min (insert l (seg_lo c ` set M))" and "w = Max (insert r (seg_hi c ` set M))"
  shows "{m ..< w} = {l ..< r} \<union> (\<Union>x \<in> set M. {seg_lo c x ..< seg_hi c x})"
proof -
  have fin: "finite (insert l (seg_lo c ` set M))" "finite (insert r (seg_hi c ` set M))" by auto
  have m: "m \<in> insert l (seg_lo c ` set M)" "\<And>y. y \<in> insert l (seg_lo c ` set M) \<Longrightarrow> m \<le> y"
    unfolding assms(3) using Min_in[OF fin(1)] Min_le[OF fin(1)] by blast+
  have w: "w \<in> insert r (seg_hi c ` set M)" "\<And>y. y \<in> insert r (seg_hi c ` set M) \<Longrightarrow> y \<le> w"
    unfolding assms(4) using Max_in[OF fin(2)] Max_ge[OF fin(2)] by blast+
  show ?thesis
  proof (intro equalityI subsetI)
    fix k
    assume k: "k \<in> {m ..< w}"
    show "k \<in> {l ..< r} \<union> (\<Union>x \<in> set M. {seg_lo c x ..< seg_hi c x})"
    proof (cases "k < l")
      case True
      then obtain x where "x \<in> set M" "m = seg_lo c x" using m(1) k by auto
      then have "k \<in> {seg_lo c x ..< seg_hi c x}" using True k assms(1) by fastforce
      then show ?thesis using \<open>x \<in> set M\<close> by blast
    next
      case False
      show ?thesis
      proof (cases "k < r")
        case False
        then obtain x where "x \<in> set M" "w = seg_hi c x" using w(1) k by auto
        then have "k \<in> {seg_lo c x ..< seg_hi c x}" using False k assms(1) by fastforce
        then show ?thesis using \<open>x \<in> set M\<close> by blast
      qed (use False in simp)
    qed
  next
    fix k
    assume "k \<in> {l ..< r} \<union> (\<Union>x \<in> set M. {seg_lo c x ..< seg_hi c x})"
    then consider "l \<le> k" "k < r" | x where "x \<in> set M" "seg_lo c x \<le> k" "k < seg_hi c x" by auto
    then show "k \<in> {m ..< w}"
    proof cases
      case 1
      then show ?thesis using m(2)[of l] w(2)[of r] by simp
    next
      case 2
      then show ?thesis using m(2)[of "seg_lo c x"] w(2)[of "seg_hi c x"] by auto
    qed
  qed
qed

lemma merged_data:
  assumes "\<forall>x \<in> set M. seg_lo c x \<le> r \<and> l \<le> seg_hi c x" and "l < r" and "length nb = r - l"
    and m: "m = Min (insert l (seg_lo c ` set M))" and w: "w = Max (insert r (seg_hi c ` set M))"
    and "offset_from ms c = m"
  obtains d0 dat where "copy_into (replicate (w - m) 0) (l - m) nb = Some d0"
    and "overlay ms M d0 = Some dat" and "length dat = w - m"
    and "bytes_at m dat = bytes_at l nb ++ content c M"
proof -
  note cov = merged_span_covered[OF assms(1,2) m w]
  have lr: "m \<le> l" "r \<le> w" and M: "\<forall>x \<in> set M. m \<le> seg_lo c x \<and> seg_hi c x \<le> w"
    using m w by simp_all
  have "l - m + length nb \<le> w - m" using lr assms(2,3) by simp
  then obtain d0 where d0: "copy_into (replicate (w - m) 0) (l - m) nb = Some d0"
    by (simp add: copy_into_def)
  have l0: "length d0 = w - m" using copy_into_length[OF d0] by simp
  have "\<forall>x \<in> set M. m \<le> seg_lo c x \<and> seg_hi c x \<le> m + length d0" using M l0 lr assms(2) by simp
  then obtain dat where d: "overlay ms M d0 = Some dat" "length dat = length d0"
    "bytes_at m dat = bytes_at m d0 ++ content c M"
    using overlay_bytes[OF _ assms(6)] by blast
  have "(bytes_at m d0 ++ content c M) k = (bytes_at l nb ++ content c M) k" for k
  proof (cases "k \<in> dom (content c M)")
    case True
    then show ?thesis by (auto simp: map_add_def)
  next
    case False
    then have n: "content c M k = None" by auto
    have "k \<in> {m ..< w} \<longleftrightarrow> k \<in> {l ..< r}" using cov False unfolding dom_content by blast
    then have "bytes_at m d0 k = bytes_at l nb k"
      using copy_into_nth[OF d0, of "k - m"] l0 lr assms(2,3)
      by (auto simp: bytes_at_def)
    then show ?thesis using n by (simp add: map_add_def)
  qed
  then have "bytes_at m dat = bytes_at l nb ++ content c M" unfolding d(3) by blast
  then show ?thesis using that[OF d0 d(1)] d(2) l0 by simp
qed

lemma merged_wf:
  assumes wf: "wf_segs c z n (A @ M @ B)"
    and "\<forall>x \<in> set A. seg_hi c x < l" and "\<forall>x \<in> set B. r < seg_lo c x" and "l < r"
    and "z \<le> l" "r \<le> n"
    and "seg_lo c s = Min (insert l (seg_lo c ` set M))" and "seg_hi c s = Max (insert r (seg_hi c ` set M))"
  shows "wf_segs c z n (A @ s # B)"
proof -
  have s: "\<forall>a \<in> set A. \<forall>x \<in> set M. seg_hi c a < seg_lo c x" "\<forall>x \<in> set M. \<forall>b \<in> set B. seg_hi c x < seg_lo c b"
    "\<forall>a \<in> set A. \<forall>b \<in> set B. seg_hi c a < seg_lo c b"
    using wf by (auto simp: wf_segs_def sorted_wrt_append)
  have A: "\<forall>a \<in> set A. seg_hi c a < seg_lo c s" unfolding assms(7) using assms(2) s(1) by simp
  have B: "\<forall>b \<in> set B. seg_hi c s < seg_lo c b" unfolding assms(8) using assms(3) s(2) by simp
  have "seg_lo c s \<le> l" unfolding assms(7) by simp
  moreover have "r \<le> seg_hi c s" unfolding assms(8) by simp
  ultimately have "seg_data s \<noteq> []" using assms(4) by auto
  moreover have "z \<le> seg_lo c s" unfolding assms(7) using wf assms(5) by (simp add: wf_segs_def)
  moreover have "seg_hi c s \<le> n" unfolding assms(8) using wf assms(6) by (simp add: wf_segs_def)
  ultimately show ?thesis using wf A B s by (auto simp: wf_segs_def sorted_wrt_append)
qed

lemma merged_position:
  assumes "wf_segs c z n (A @ s # B)"
  shows "\<forall>x \<in> set A. \<not> seq_lt (seg_start s) (seg_start x)"
    and "\<forall>x \<in> set B. seq_lt (seg_start s) (seg_start x)"
proof -
  have w: "seg_lo c x < 2147483648" if "x \<in> set (A @ s # B)" for x
    using assms that unfolding wf_segs_def by fastforce
  have A: "seg_lo c x < seg_lo c s" if "x \<in> set A" for x
    using assms that by (fastforce simp: wf_segs_def sorted_wrt_append)
  have B: "seg_lo c s < seg_lo c x" if "x \<in> set B" for x
    using assms that by (fastforce simp: wf_segs_def sorted_wrt_append)
  show "\<forall>x \<in> set A. \<not> seq_lt (seg_start s) (seg_start x)"
    and "\<forall>x \<in> set B. seq_lt (seg_start s) (seg_start x)"
    using A B w by (fastforce simp: seq_window[where b = c])+
qed

lemma content_disjoint_comm:
  assumes "\<forall>x \<in> set A. seg_hi c x < l"
  shows "content c A ++ bytes_at l nb = bytes_at l nb ++ content c A"
proof (rule map_add_comm)
  show "dom (content c A) \<inter> dom (bytes_at l nb) = {}"
    using assms unfolding dom_content dom_bytes_at by fastforce
qed

lemma reasm_insert_merge:
  assumes inv: "reasm_inv c z n self"
    and lo: "lo = seq_max seg_seq rcv_nxt" "offset_from lo c = l"
    and hi: "hi = seq_min (seq_add seg_seq (length payload)) right_edge" "offset_from hi c = r"
    and lr: "l < r" and "z \<le> l" "r \<le> n" and "\<not> seq_ge lo hi"
    and s: "offset_from seg_seq c \<le> l" "r \<le> offset_from seg_seq c + length payload"
  shows "\<exists>self'. reasm_insert self rcv_nxt right_edge seg_seq payload = Some self' \<and> reasm_inv c z n self'
    \<and> content c (reasm_runs self')
      = bytes_at l (take (r - l) (drop (l - offset_from seg_seq c) payload)) ++ content c (reasm_runs self)"
proof -
  have wf: "wf_segs c z n (reasm_runs self)" and w: "l < 2147483648" "r < 2147483648"
    and tot: "reasm_bytes self = run_total (reasm_runs self)"
    using inv lr assms(8) by (auto simp: reasm_inv_def wf_segs_def)
  define e' where "e' = seq_add lo (offset_from hi lo)"
  have len: "offset_from hi lo = r - l" using sw.off_diff[of lo c hi] lo(2) hi(2) lr by simp
  have e': "offset_from e' c = r"
    using offset_from_add[of lo c "r - l"] len lo(2) lr w by (simp add: e'_def)
  have off: "offset_from lo seg_seq = l - offset_from seg_seq c"
    using sw.off_diff[of seg_seq c lo] lo(2) s(1) by simp
  define nb where "nb = take (r - l) (drop (l - offset_from seg_seq c) payload)"
  have nb: "sub_slice payload (offset_from lo seg_seq) (offset_from lo seg_seq + offset_from hi lo) = Some nb"
    "length nb = r - l"
    using s lr by (auto simp: off len sub_slice_def nb_def)
  obtain A M B where split: "reasm_runs self = A @ M @ B" "\<forall>x \<in> set A. seg_hi c x < l"
    "\<forall>x \<in> set M. seg_lo c x \<le> r \<and> l \<le> seg_hi c x" "\<forall>x \<in> set B. r < seg_lo c x"
    using segs_split[OF wf lr] by blast
  obtain ms me f where scan:
    "merge_scan lo e' 0 (reasm_runs self) (length (reasm_runs self)) 0 lo e' = (f, length M, ms, me)"
    "take (length M) (drop f (reasm_runs self)) = M"
    "take f (reasm_runs self) @ drop (f + length M) (reasm_runs self) = A @ B"
    "offset_from ms c = Min (insert l (seg_lo c ` set M))"
    "offset_from me c = Max (insert r (seg_hi c ` set M))"
  proof (rule merge_scan_split[of c z n A M B lo e'])
    show "wf_segs c z n (A @ M @ B)" using wf split(1) by simp
  qed (use split lo(2) e' lr w in simp_all)
  obtain d0 dat where d: "copy_into (replicate (offset_from me c - offset_from ms c) 0) (l - offset_from ms c) nb = Some d0"
    "overlay ms M d0 = Some dat" "length dat = offset_from me c - offset_from ms c"
    "bytes_at (offset_from ms c) dat = bytes_at l nb ++ content c M"
    by (rule merged_data[OF split(3) lr nb(2) scan(4,5) refl])
  have mm: "offset_from ms c \<le> l" "r \<le> offset_from me c" unfolding scan(4,5) by simp_all
  have span: "offset_from me ms = offset_from me c - offset_from ms c"
    "offset_from lo ms = l - offset_from ms c"
    using sw.off_diff[of ms c me] sw.off_diff[of ms c lo] mm lr lo(2) by simp_all
  define x where "x = \<lparr>seg_start = ms, seg_data = dat, seg_stamp = next_stamp self + 1\<rparr>"
  have "seg_hi c x = offset_from me c" unfolding x_def using d(3) mm lr by simp
  then have sl: "seg_lo c x = Min (insert l (seg_lo c ` set M))" "seg_hi c x = Max (insert r (seg_hi c ` set M))"
    using scan(4,5) by (simp_all only: x_def segment.simps)
  have wf': "wf_segs c z n (A @ x # B)"
    using merged_wf[OF _ split(2,4) lr assms(7,8) sl] wf split(1) by simp
  have "position (\<lambda>y. seq_lt ms (seg_start y)) (A @ B) = length A"
    by (rule position_append) (use merged_position[OF wf'] in \<open>simp_all add: x_def\<close>)
  moreover have "deduct (reasm_bytes self) M = Some (run_total A + run_total B)"
    using deduct_total[of M "reasm_bytes self"] tot split(1) by simp
  ultimately have "reasm_insert self rcv_nxt right_edge seg_seq payload
      = Some \<lparr>reasm_runs = A @ x # B, reasm_bytes = run_total A + run_total B + length dat,
              next_stamp = next_stamp self + 1\<rparr>"
    using assms(9) nb(1) scan(1-3) d(1,2) span
    by (simp add: reasm_insert_def lo(1)[symmetric] hi(1)[symmetric] e'_def[symmetric] Let_def x_def
        take_append_length drop_append_length del: take_append drop_append)
  moreover have "content c (A @ x # B) = bytes_at l nb ++ content c (reasm_runs self)"
    using content_disjoint_comm[OF split(2), of nb] d(4)
    by (simp add: content_append split(1) x_def)
  ultimately show ?thesis using wf' by (simp add: reasm_inv_def nb_def x_def)
qed

lemma reasm_insert_correct:
  assumes inv: "reasm_inv c z n self"
    and "offset_from seg_seq c + length payload < 2147483648" and "offset_from rcv_nxt c < 2147483648"
    and "offset_from right_edge c \<le> n"
    and l: "l = max (offset_from seg_seq c) (offset_from rcv_nxt c)" and "z \<le> l"
    and r: "r = min (offset_from seg_seq c + length payload) (offset_from right_edge c)"
  shows "\<exists>self'. reasm_insert self rcv_nxt right_edge seg_seq payload = Some self' \<and> reasm_inv c z n self'
    \<and> content c (reasm_runs self')
      = bytes_at l (take (r - l) (drop (l - offset_from seg_seq c) payload)) ++ content c (reasm_runs self)"
proof -
  define lo hi where "lo = seq_max seg_seq rcv_nxt"
    and "hi = seq_min (seq_add seg_seq (length payload)) right_edge"
  have wf: "wf_segs c z n (reasm_runs self)" and nw: "n < 2147483648"
    and tot: "reasm_bytes self = run_total (reasm_runs self)"
    using inv by (auto simp: reasm_inv_def wf_segs_def)
  have e: "offset_from (seq_add seg_seq (length payload)) c = offset_from seg_seq c + length payload"
    using assms(2) by (rule sw.off_add)
  have lo: "offset_from lo c = l" and hi: "offset_from hi c = r"
    using assms(2-4) nw e by (auto simp: lo_def hi_def l r seq_max_def seq_min_def seq_window[where b = c])
  have w: "l < 2147483648" "r < 2147483648" using assms(2-4) nw l r by auto
  have ge: "seq_ge lo hi \<longleftrightarrow> r \<le> l" using lo hi w by (simp add: seq_window[where b = c])
  show ?thesis
  proof (cases "r \<le> l")
    case True
    then show ?thesis using ge inv
      by (simp add: reasm_insert_def lo_def[symmetric] hi_def[symmetric] bytes_at_Nil)
  next
    case False
    then have lr: "l < r" by simp
    show ?thesis
      by (rule reasm_insert_merge[OF inv lo_def lo hi_def hi]) (use False ge assms(4,6) l r in auto)
  qed
qed

section \<open>Drain and discard\<close>

lemma wf_segs_Cons:
  "wf_segs c z n (x # xs) \<longleftrightarrow> seg_data x \<noteq> [] \<and> z \<le> seg_lo c x \<and> seg_hi c x \<le> n
     \<and> wf_segs c (Suc (seg_hi c x)) n xs"
  unfolding wf_segs_def by (auto simp: Suc_le_eq intro: le_less_trans less_imp_le)

lemma wf_segs_window: "wf_segs c z n xs \<Longrightarrow> n < 2147483648"
  by (simp add: wf_segs_def)

lemma wf_segs_mono: "wf_segs c z n xs \<Longrightarrow> z' \<le> z \<Longrightarrow> wf_segs c z' n xs"
  by (auto simp: wf_segs_def)

lemma content_lower: "wf_segs c z n xs \<Longrightarrow> k < z \<Longrightarrow> content c xs k = None"
proof (rule ccontr)
  assume a: "wf_segs c z n xs" "k < z" "content c xs k \<noteq> None"
  then have "k \<in> dom (content c xs)" by blast
  then obtain x where "x \<in> set xs" "seg_lo c x \<le> k" unfolding dom_content by auto
  then show False using a by (auto simp: wf_segs_def)
qed

lemma content_card:
  assumes "wf_segs c z n xs"
  shows "card (dom (content c xs)) = run_total xs"
  using assms
proof (induction xs arbitrary: z)
  case (Cons x xs)
  then have w: "wf_segs c (Suc (seg_hi c x)) n xs" by (simp add: wf_segs_Cons)
  have "card ({seg_lo c x ..< seg_hi c x} \<union> dom (content c xs))
      = card {seg_lo c x ..< seg_hi c x} + card (dom (content c xs))"
  proof (intro card_Un_disjoint equals0I)
    fix k
    assume "k \<in> {seg_lo c x ..< seg_hi c x} \<inter> dom (content c xs)"
    then show False using content_lower[OF w, of k] by auto
  qed (simp_all add: dom_content)
  then show ?case using Cons.IH[OF w] by (simp add: Un_commute)
qed simp

lemma bytes_at_drop: "bytes_at (l + d) (drop d dat) = bytes_at l dat |` {l + d ..}"
  by (auto simp: bytes_at_def restrict_map_def fun_eq_iff)

lemma map_add_restrict: "(m1 ++ m2) |` S = (m1 |` S) ++ (m2 |` S)"
  by (auto simp: fun_eq_iff restrict_map_def map_add_def)

lemma content_restrict_above: "wf_segs c z n xs \<Longrightarrow> q \<le> z \<Longrightarrow> content c xs |` {q ..} = content c xs"
  using content_lower by (fastforce simp: fun_eq_iff restrict_map_def)

lemma discard_loop_correct:
  assumes "wf_segs c z n runs" and "offset_from rcv_nxt c = q" and "q < 2147483648" and "run_total runs \<le> b"
  shows "\<exists>runs' b'. discard_loop rcv_nxt runs b = Some (runs', b') \<and> wf_segs c (max z q) n runs'
    \<and> b' = b - run_total runs + run_total runs' \<and> content c runs' = content c runs |` {q ..}"
  using assms(1,4)
proof (induction runs arbitrary: z b)
  case Nil
  then show ?case using assms by (simp add: wf_segs_def)
next
  case (Cons x xs)
  have w: "wf_segs c (Suc (seg_hi c x)) n xs" "z \<le> seg_lo c x" "seg_hi c x \<le> n" "n < 2147483648"
    using Cons.prems(1) by (auto simp: wf_segs_Cons wf_segs_window)
  have le: "seq_le (run_end x) rcv_nxt \<longleftrightarrow> seg_hi c x \<le> q" and lt: "seq_lt (seg_start x) rcv_nxt \<longleftrightarrow> seg_lo c x < q"
    using w assms(2,3) by (simp_all add: seq_window[where b = c] run_end_offset)
  consider "seg_hi c x \<le> q" | "q < seg_hi c x" "seg_lo c x < q" | "q \<le> seg_lo c x" by linarith
  then show ?case
  proof cases
    case 1
    have "bytes_at (seg_lo c x) (seg_data x) |` {q ..} = Map.empty"
      using 1 by (auto simp: fun_eq_iff restrict_map_def bytes_at_def)
    moreover have "run_total xs \<le> b - length (seg_data x)" using Cons.prems(2) by simp
    then obtain runs' b' where "discard_loop rcv_nxt xs (b - length (seg_data x)) = Some (runs', b')"
      "wf_segs c (max (Suc (seg_hi c x)) q) n runs'"
      "b' = b - length (seg_data x) - run_total xs + run_total runs'"
      "content c runs' = content c xs |` {q ..}"
      using Cons.IH[OF w(1), of "b - length (seg_data x)"] by blast
    ultimately show ?thesis using 1 le Cons.prems(2) w(2)
      by (auto simp: chk_sub_def map_add_restrict intro: wf_segs_mono)
  next
    case 2
    define d where "d = q - seg_lo c x"
    have o: "offset_from rcv_nxt (seg_start x) = d"
      using sw.off_diff[of "seg_start x" c rcv_nxt] 2 assms(2) by (simp add: d_def)
    have d: "seg_lo c x + d = q" "d < length (seg_data x)" using 2 by (auto simp: d_def)
    have "wf_segs c (max z q) n (x\<lparr>seg_data := drop d (seg_data x), seg_start := rcv_nxt\<rparr> # xs)"
      using w 2 d assms(2) by (auto simp: wf_segs_Cons)
    moreover have "bytes_at q (drop d (seg_data x)) = bytes_at (seg_lo c x) (seg_data x) |` {q ..}"
      using bytes_at_drop[of "seg_lo c x" d "seg_data x"] d by simp
    ultimately show ?thesis
      using 2 le lt o d Cons.prems(2) assms(2) content_restrict_above[OF w(1), of q]
      by (simp add: chk_sub_def map_add_restrict)
  next
    case 3
    have "wf_segs c (max z q) n (x # xs)" using Cons.prems(1) 3 w(2) by (auto simp: wf_segs_Cons)
    moreover have "0 < length (seg_data x)" using Cons.prems(1) by (simp add: wf_segs_Cons)
    then have "\<not> seg_hi c x \<le> q" using 3 by linarith
    ultimately show ?thesis
      using 3 le lt Cons.prems content_restrict_above[of c "max z q" n "x # xs" q] by simp
  qed
qed

lemma discard_below_correct:
  assumes "reasm_inv c z n self" and "offset_from rcv_nxt c < 2147483648"
  shows "\<exists>self'. discard_below self rcv_nxt = Some self'
    \<and> reasm_inv c (max z (offset_from rcv_nxt c)) n self'
    \<and> content c (reasm_runs self') = content c (reasm_runs self) |` {offset_from rcv_nxt c ..}"
  using discard_loop_correct[of c z n "reasm_runs self" rcv_nxt _ "reasm_bytes self"] assms
  by (fastforce simp: discard_below_def reasm_inv_def)

lemma pop_contiguous_correct:
  assumes "reasm_inv c (offset_from rcv_nxt c) n self"
  shows "\<exists>dat self'. pop_contiguous self rcv_nxt = Some (dat, self')
    \<and> reasm_inv c (Suc (offset_from rcv_nxt c + length dat)) n self'
    \<and> content c (reasm_runs self) = bytes_at (offset_from rcv_nxt c) dat ++ content c (reasm_runs self')"
proof (cases "reasm_runs self")
  case Nil
  then show ?thesis using assms by (simp add: pop_contiguous_def reasm_inv_def wf_segs_def)
next
  case (Cons x xs)
  then have w: "wf_segs c (Suc (seg_hi c x)) n xs" "offset_from rcv_nxt c \<le> seg_lo c x"
    "wf_segs c (offset_from rcv_nxt c) n (x # xs)"
    using assms by (auto simp: reasm_inv_def wf_segs_Cons)
  show ?thesis
  proof (cases "seg_start x = rcv_nxt")
    case True
    then show ?thesis using assms Cons w
      by (simp add: pop_contiguous_def reasm_inv_def chk_sub_def)
  next
    case False
    then have "offset_from rcv_nxt c \<noteq> seg_lo c x" using offset_from_inj by metis
    then have "wf_segs c (Suc (offset_from rcv_nxt c)) n (x # xs)"
      using w by (simp add: wf_segs_Cons)
    then show ?thesis using assms Cons False by (simp add: pop_contiguous_def reasm_inv_def)
  qed
qed

lemma report_run: "(l, r) \<in> set (report self cap) \<Longrightarrow> \<exists>x \<in> set (reasm_runs self). l = seg_start x \<and> r = run_end x"
  unfolding report_def by (fastforce dest: in_set_takeD)

section \<open>The interface of an out-of-order buffer\<close>

text \<open>
  What the receive path relies on: a byte map over offsets from a base that inserts, drains
  and discards as these laws say. The lemmas inside derive, for any such buffer, that a
  stream cut into segments in any order, overlapping or repeated, is delivered as sent.
\<close>

locale ooo_buffer =
  fixes inv :: "seqnum \<Rightarrow> nat \<Rightarrow> nat \<Rightarrow> 'r \<Rightarrow> bool"
    and held :: "seqnum \<Rightarrow> 'r \<Rightarrow> nat \<Rightarrow> u8 option"
    and ins :: "'r \<Rightarrow> seqnum \<Rightarrow> seqnum \<Rightarrow> seqnum \<Rightarrow> bytes \<Rightarrow> 'r option"
    and pop :: "'r \<Rightarrow> seqnum \<Rightarrow> (bytes \<times> 'r) option"
    and disc :: "'r \<Rightarrow> seqnum \<Rightarrow> 'r option"
  assumes ins_law: "\<lbrakk> inv c z n r; offset_from s c + length p < 2147483648;
        offset_from nxt c < 2147483648; offset_from edge c \<le> n;
        lo = max (offset_from s c) (offset_from nxt c); z \<le> lo;
        hi = min (offset_from s c + length p) (offset_from edge c) \<rbrakk> \<Longrightarrow>
      \<exists>r'. ins r nxt edge s p = Some r' \<and> inv c z n r'
        \<and> held c r' = bytes_at lo (take (hi - lo) (drop (lo - offset_from s c) p)) ++ held c r"
    and pop_law: "inv c (offset_from nxt c) n r \<Longrightarrow>
      \<exists>dat r'. pop r nxt = Some (dat, r') \<and> inv c (Suc (offset_from nxt c + length dat)) n r'
        \<and> held c r = bytes_at (offset_from nxt c) dat ++ held c r'"
    and disc_law: "inv c z n r \<Longrightarrow> offset_from nxt c < 2147483648 \<Longrightarrow>
      \<exists>r'. disc r nxt = Some r' \<and> inv c (max z (offset_from nxt c)) n r'
        \<and> held c r' = held c r |` {offset_from nxt c ..}"
    and held_lower: "inv c z n r \<Longrightarrow> k < z \<Longrightarrow> held c r k = None"
begin

lemma bytes_at_stream:
  assumes "\<And>i. i < length p \<Longrightarrow> p ! i = st (s + i)" and "s \<le> lo" "hi \<le> s + length p"
  shows "bytes_at lo (take (hi - lo) (drop (lo - s) p)) = (\<lambda>k. if lo \<le> k \<and> k < hi then Some (st k) else None)"
proof
  fix k
  have "(take (hi - lo) (drop (lo - s) p)) ! (k - lo) = st k" if "lo \<le> k" "k < hi"
    using assms that by (simp add: nth_take nth_drop)
  then show "bytes_at lo (take (hi - lo) (drop (lo - s) p)) k = (if lo \<le> k \<and> k < hi then Some (st k) else None)"
    using assms(2,3) by (auto simp: bytes_at_def)
qed

lemma ins_keeps_stream:
  assumes "inv c z n r" and "held c r \<subseteq>\<^sub>m (Some \<circ> st)" and "offset_from s c + length p < 2147483648"
    and "offset_from nxt c < 2147483648" and "offset_from edge c \<le> n"
    and "z \<le> max (offset_from s c) (offset_from nxt c)"
    and p: "\<And>i. i < length p \<Longrightarrow> p ! i = st (offset_from s c + i)"
  shows "\<exists>r'. ins r nxt edge s p = Some r' \<and> inv c z n r' \<and> held c r' \<subseteq>\<^sub>m (Some \<circ> st)
    \<and> dom (held c r') = dom (held c r) \<union>
        {max (offset_from s c) (offset_from nxt c) ..< min (offset_from s c + length p) (offset_from edge c)}"
proof -
  let ?lo = "max (offset_from s c) (offset_from nxt c)"
  let ?hi = "min (offset_from s c + length p) (offset_from edge c)"
  obtain r' where r': "ins r nxt edge s p = Some r'" "inv c z n r'"
    "held c r' = bytes_at ?lo (take (?hi - ?lo) (drop (?lo - offset_from s c) p)) ++ held c r"
    using ins_law[OF assms(1,3-5) refl assms(6) refl] by blast
  have "bytes_at ?lo (take (?hi - ?lo) (drop (?lo - offset_from s c) p))
      = (\<lambda>k. if ?lo \<le> k \<and> k < ?hi then Some (st k) else None)"
    using p by (intro bytes_at_stream) auto
  then have h: "held c r' = (\<lambda>k. if ?lo \<le> k \<and> k < ?hi then Some (st k) else None) ++ held c r"
    using r'(3) by simp
  have "\<And>a y. held c r a = Some y \<Longrightarrow> y = st a" using assms(2) by (force simp: map_le_def)
  then have "held c r' \<subseteq>\<^sub>m (Some \<circ> st)"
    unfolding h by (auto simp: map_le_def map_add_def split: option.splits if_split_asm)
  moreover have "dom (held c r') = dom (held c r) \<union> {?lo ..< ?hi}"
    unfolding h by (auto split: if_splits)
  ultimately show ?thesis using r' by blast
qed

text \<open>Draining at \<open>nxt\<close> returns the longest buffered prefix, as the stream has it.\<close>

lemma pop_delivers_stream:
  assumes "inv c (offset_from nxt c) n r" and "held c r \<subseteq>\<^sub>m (Some \<circ> st)"
  shows "\<exists>dat r'. pop r nxt = Some (dat, r') \<and> held c r' \<subseteq>\<^sub>m (Some \<circ> st)
    \<and> dat = map st [offset_from nxt c ..< offset_from nxt c + length dat]
    \<and> offset_from nxt c + length dat \<notin> dom (held c r)
    \<and> inv c (Suc (offset_from nxt c + length dat)) n r'
    \<and> dom (held c r') = dom (held c r) - {offset_from nxt c ..< offset_from nxt c + length dat}"
proof -
  let ?q = "offset_from nxt c"
  obtain dat r' where r': "pop r nxt = Some (dat, r')" "inv c (Suc (?q + length dat)) n r'"
    "held c r = bytes_at ?q dat ++ held c r'"
    using pop_law[OF assms(1)] by blast
  have low: "held c r' k = None" if "k \<le> ?q + length dat" for k
    using held_lower[OF r'(2)] that by simp
  have eq: "held c r k = (if k < ?q + length dat then bytes_at ?q dat k else held c r' k)" for k
    using r'(3) low[of k] by (auto simp: map_add_def bytes_at_def split: option.splits)
  have "dat ! i = st (?q + i)" if "i < length dat" for i
  proof -
    have "held c r (?q + i) = Some (dat ! i)" using eq[of "?q + i"] that by (simp add: bytes_at_def)
    then show ?thesis using assms(2) by (force simp: map_le_def)
  qed
  then have "dat = map st [?q ..< ?q + length dat]" by (intro nth_equalityI) auto
  moreover have "held c r (?q + length dat) = None" using eq[of "?q + length dat"] low by simp
  moreover have "held c r' \<subseteq>\<^sub>m (Some \<circ> st)"
    using assms(2) r'(3) by (auto simp: map_le_def)
  moreover have "dom (held c r') = dom (held c r) - {?q ..< ?q + length dat}"
  proof (intro set_eqI)
    fix k
    show "k \<in> dom (held c r') \<longleftrightarrow> k \<in> dom (held c r) - {?q ..< ?q + length dat}"
      using eq[of k] low[of k] by (auto simp: bytes_at_def domIff split: if_splits)
  qed
  ultimately show ?thesis using r' by blast
qed

end

definition reasm_held :: "seqnum \<Rightarrow> reasm \<Rightarrow> nat \<Rightarrow> u8 option" where
  "reasm_held c self = content c (reasm_runs self)"

interpretation rq: ooo_buffer reasm_inv reasm_held reasm_insert pop_contiguous discard_below
proof (unfold_locales, goal_cases)
  case (1 c z n r s p nxt edge lo hi)
  then show ?case using reasm_insert_correct[of c z n r s p nxt edge lo hi] by (simp add: reasm_held_def)
next
  case (2 c nxt n r)
  then show ?case using pop_contiguous_correct by (simp add: reasm_held_def)
next
  case (3 c z n r nxt)
  then show ?case using discard_below_correct by (simp add: reasm_held_def)
next
  case (4 c z n r k)
  then show ?case using content_lower[of c z n] by (simp add: reasm_held_def reasm_inv_def)
qed

lemma buffered_card: "reasm_inv c z n self \<Longrightarrow> buffered self = card (dom (reasm_held c self))"
  using content_card[of c z n] by (simp add: buffered_def reasm_held_def reasm_inv_def)

lemma held_bounds: "reasm_inv c z n self \<Longrightarrow> dom (reasm_held c self) \<subseteq> {z ..< n}"
  unfolding reasm_held_def reasm_inv_def wf_segs_def dom_content by fastforce

lemma buffered_le: "reasm_inv c z n self \<Longrightarrow> buffered self \<le> n - z"
  using buffered_card card_mono[OF _ held_bounds] by fastforce

lemma reasm_inv_new: "n < 2147483648 \<Longrightarrow> reasm_inv c z n reasm_new"
  by (simp add: reasm_inv_def wf_segs_def reasm_new_def)

lemma sorted_wrt_cases:
  assumes "sorted_wrt P xs" and "x \<in> set xs" "y \<in> set xs"
  shows "x = y \<or> P x y \<or> P y x"
  using assms by (induction xs) auto

text \<open>A run is a maximal block of held bytes: its neighbours are separated by a gap.\<close>

lemma run_isolated:
  assumes "wf_segs c z n runs" and "x \<in> set runs" and "0 < z"
  shows "seg_hi c x \<notin> dom (content c runs)" and "seg_lo c x - 1 \<notin> dom (content c runs)"
proof -
  have "\<not> (seg_lo c y \<le> seg_hi c x \<and> seg_hi c x < seg_hi c y)
      \<and> \<not> (seg_lo c y \<le> seg_lo c x - 1 \<and> seg_lo c x - 1 < seg_hi c y)" if "y \<in> set runs" for y
  proof -
    have "x = y \<or> seg_hi c x < seg_lo c y \<or> seg_hi c y < seg_lo c x"
      using assms(1,2) that sorted_wrt_cases[of "\<lambda>x y. seg_hi c x < seg_lo c y" runs x y]
      by (simp add: wf_segs_def)
    moreover have "0 < seg_lo c x" using assms by (auto simp: wf_segs_def)
    ultimately show ?thesis by auto
  qed
  then show "seg_hi c x \<notin> dom (content c runs)" and "seg_lo c x - 1 \<notin> dom (content c runs)"
    unfolding dom_content by auto
qed

lemma report_length: "length (report self cap) = min cap (length (reasm_runs self))"
  by (simp add: report_def min.commute)

lemma report_block_exact:
  assumes "reasm_inv c 1 n self" and "(l, r) \<in> set (report self cap)"
  shows "0 < offset_from l c \<and> offset_from l c < offset_from r c
    \<and> {offset_from l c ..< offset_from r c} \<subseteq> dom (reasm_held c self)
    \<and> offset_from r c \<notin> dom (reasm_held c self) \<and> offset_from l c - 1 \<notin> dom (reasm_held c self)"
proof -
  obtain x where x: "x \<in> set (reasm_runs self)" "l = seg_start x" "r = run_end x"
    using report_run[OF assms(2)] by blast
  have wf: "wf_segs c 1 n (reasm_runs self)" using assms(1) by (simp add: reasm_inv_def)
  then have b: "seg_data x \<noteq> []" "1 \<le> seg_lo c x" "seg_hi c x < 2147483648"
    using x(1) unfolding wf_segs_def by (auto intro: le_less_trans)
  have r: "offset_from r c = seg_hi c x" using b x by (simp add: run_end_offset)
  have "{seg_lo c x ..< seg_hi c x} \<subseteq> dom (content c (reasm_runs self))"
    using x(1) unfolding dom_content by blast
  moreover have "0 < length (seg_data x)" using b(1) by simp
  ultimately show ?thesis
    using run_isolated[OF wf x(1)] b(2) unfolding r x(2) reasm_held_def by simp
qed

lemma report_first:
  assumes "0 < cap" and "reasm_runs self \<noteq> []"
  shows "\<exists>x \<in> set (reasm_runs self). hd (report self cap) = (seg_start x, run_end x)
    \<and> (\<forall>y \<in> set (reasm_runs self). seg_stamp y \<le> seg_stamp x)"
proof -
  define xs where "xs = sort_key (\<lambda>r. - int (seg_stamp r)) (reasm_runs self)"
  have s: "set xs = set (reasm_runs self)" "sorted (map (\<lambda>r. - int (seg_stamp r)) xs)"
    by (simp_all add: xs_def)
  then obtain x ys where x: "xs = x # ys" using assms(2) by (cases xs) auto
  have "\<forall>y \<in> set xs. seg_stamp y \<le> seg_stamp x" using s(2) by (auto simp: x)
  moreover have "hd (report self cap) = (seg_start x, run_end x)"
    using assms(1) x by (cases cap) (simp_all add: report_def xs_def[symmetric])
  moreover have "x \<in> set (reasm_runs self)" using s(1) x by auto
  ultimately show ?thesis using s(1) by blast
qed

section \<open>Properties of the reassembly buffer\<close>

text \<open>
  C24: \<open>insert\<close> never panics on a segment that starts at or above \<open>rcv_nxt\<close> in the
  window, and a byte already held is never rewritten: afterwards an offset holds its old
  byte if it had one, else the segment's byte if the segment covers it below the right
  edge, else nothing. The runs stay sorted, disjoint and coalesced, and \<open>buffered\<close> is
  the number of distinct bytes held, all within the window.
\<close>

theorem reasm_insert_first_writer_wins:
  assumes "reasm_inv rcv_nxt 0 n self"
    and "offset_from seg_seq rcv_nxt + length payload < 2147483648"
    and "offset_from right_edge rcv_nxt \<le> n"
  shows "\<exists>self'. reasm_insert self rcv_nxt right_edge seg_seq payload = Some self'
    \<and> reasm_inv rcv_nxt 0 n self'
    \<and> (\<forall>k. reasm_held rcv_nxt self' k =
          (case reasm_held rcv_nxt self k of Some b \<Rightarrow> Some b
           | None \<Rightarrow> if offset_from seg_seq rcv_nxt \<le> k
                \<and> k < min (offset_from seg_seq rcv_nxt + length payload) (offset_from right_edge rcv_nxt)
              then Some (payload ! (k - offset_from seg_seq rcv_nxt)) else None))
    \<and> buffered self' = card (dom (reasm_held rcv_nxt self')) \<and> buffered self' \<le> n"
proof -
  let ?s = "offset_from seg_seq rcv_nxt"
  let ?h = "min (?s + length payload) (offset_from right_edge rcv_nxt)"
  obtain self' where s: "reasm_insert self rcv_nxt right_edge seg_seq payload = Some self'"
    "reasm_inv rcv_nxt 0 n self'"
    "reasm_held rcv_nxt self' = bytes_at ?s (take (?h - ?s) payload) ++ reasm_held rcv_nxt self"
    using rq.ins_law[OF assms(1,2) _ assms(3) refl _ refl, of rcv_nxt] by auto
  have "bytes_at ?s (take (?h - ?s) payload) k
      = (if ?s \<le> k \<and> k < ?h then Some (payload ! (k - ?s)) else None)" for k
    by (auto simp: bytes_at_def)
  then show ?thesis using s buffered_card[OF s(2)] buffered_le[OF s(2)]
    by (auto simp: map_add_def split: option.splits)
qed

theorem reasm_insert_first_writer_wins_witness:
  "\<exists>self'. reasm_insert \<lparr>reasm_runs = [\<lparr>seg_start = 1, seg_data = [7, 8], seg_stamp = 1\<rparr>],
      reasm_bytes = 2, next_stamp = 1\<rparr> 4294967290 100 4294967295 [1, 2, 3, 4] = Some self'
    \<and> reasm_held 4294967290 self' 6 = Some 2 \<and> reasm_held 4294967290 self' 7 = Some 7"
proof -
  let ?r = "\<lparr>reasm_runs = [\<lparr>seg_start = 1, seg_data = [7, 8 :: u8], seg_stamp = 1\<rparr>], reasm_bytes = 2, next_stamp = 1\<rparr>"
  have "reasm_inv 4294967290 0 200 ?r" by (simp add: reasm_inv_def wf_segs_def offset_from_def)
  moreover have "offset_from 4294967295 4294967290 + length [1, 2, 3, 4 :: u8] < 2147483648"
    "offset_from 100 4294967290 \<le> 200" by (simp_all add: offset_from_def)
  moreover have "reasm_held 4294967290 ?r 6 = None" "reasm_held 4294967290 ?r 7 = Some 7"
    "offset_from 4294967295 4294967290 = 5" "offset_from 100 4294967290 = 106"
    by (simp_all add: reasm_held_def bytes_at_def offset_from_def)
  ultimately show ?thesis
    using reasm_insert_first_writer_wins[of 4294967290 200 ?r 4294967295 "[1, 2, 3, 4]" 100] by auto
qed

text \<open>A batch of out-of-order segments, all clipped to one window.\<close>

fun insert_all :: "reasm \<Rightarrow> seqnum \<Rightarrow> seqnum \<Rightarrow> (seqnum \<times> bytes) list \<Rightarrow> reasm option" where
  "insert_all self rcv_nxt right_edge [] = Some self"
| "insert_all self rcv_nxt right_edge ((s, p) # segs) = do {
     self \<leftarrow> reasm_insert self rcv_nxt right_edge s p;
     insert_all self rcv_nxt right_edge segs
   }"

definition segment_of :: "seqnum \<Rightarrow> (nat \<Rightarrow> u8) \<Rightarrow> seqnum \<times> bytes \<Rightarrow> bool" where
  "segment_of c st seg \<longleftrightarrow> offset_from (fst seg) c + length (snd seg) < 2147483648
     \<and> snd seg = map (\<lambda>i. st (offset_from (fst seg) c + i)) [0 ..< length (snd seg)]"

lemma insert_all_stream:
  assumes "reasm_inv rcv_nxt 0 n self" and "reasm_held rcv_nxt self \<subseteq>\<^sub>m (Some \<circ> st)"
    and "offset_from right_edge rcv_nxt \<le> n" and "list_all (segment_of rcv_nxt st) segs"
  shows "\<exists>self'. insert_all self rcv_nxt right_edge segs = Some self' \<and> reasm_inv rcv_nxt 0 n self'
    \<and> reasm_held rcv_nxt self' \<subseteq>\<^sub>m (Some \<circ> st)
    \<and> dom (reasm_held rcv_nxt self') = dom (reasm_held rcv_nxt self) \<union>
        (\<Union>(s, p) \<in> set segs. {offset_from s rcv_nxt ..<
           min (offset_from s rcv_nxt + length p) (offset_from right_edge rcv_nxt)})"
  using assms
proof (induction segs arbitrary: self)
  case (Cons x segs)
  obtain s p where x: "x = (s, p)" by fastforce
  have so: "offset_from s rcv_nxt + length p < 2147483648"
    and p: "p = map (\<lambda>i. st (offset_from s rcv_nxt + i)) [0 ..< length p]"
    using Cons.prems(4) x by (auto simp: segment_of_def)
  have so2: "p ! i = st (offset_from s rcv_nxt + i)" if "i < length p" for i
    using arg_cong[OF p, of "\<lambda>xs. xs ! i"] that by simp
  obtain r1 where r1: "reasm_insert self rcv_nxt right_edge s p = Some r1" "reasm_inv rcv_nxt 0 n r1"
    "reasm_held rcv_nxt r1 \<subseteq>\<^sub>m (Some \<circ> st)"
    "dom (reasm_held rcv_nxt r1) = dom (reasm_held rcv_nxt self) \<union>
      {offset_from s rcv_nxt ..< min (offset_from s rcv_nxt + length p) (offset_from right_edge rcv_nxt)}"
    using rq.ins_keeps_stream[OF Cons.prems(1,2) so _ Cons.prems(3) _ so2, of rcv_nxt] by auto
  have "list_all (segment_of rcv_nxt st) segs" using Cons.prems(4) by simp
  from Cons.IH[OF r1(2,3) Cons.prems(3) this] show ?case using r1(1,4) x by auto
qed simp

text \<open>
  C25: reassembly delivers the stream. Feed the segments of one byte stream to an empty
  buffer in any order, overlapping and repeated as the network pleases: the inserts all
  succeed, the buffer holds exactly the bytes they cover below the right edge, and draining
  at \<open>rcv_nxt\<close> yields the stream's own bytes from there up to the first missing one.
\<close>

theorem reassembly_delivers_stream:
  assumes "offset_from right_edge rcv_nxt < 2147483648" and "list_all (segment_of rcv_nxt st) segs"
  shows "\<exists>self dat self'. insert_all reasm_new rcv_nxt right_edge segs = Some self
    \<and> dom (reasm_held rcv_nxt self) = (\<Union>(s, p) \<in> set segs. {offset_from s rcv_nxt ..<
        min (offset_from s rcv_nxt + length p) (offset_from right_edge rcv_nxt)})
    \<and> pop_contiguous self rcv_nxt = Some (dat, self')
    \<and> dat = map st [0 ..< length dat] \<and> length dat \<notin> dom (reasm_held rcv_nxt self)
    \<and> dom (reasm_held rcv_nxt self') = dom (reasm_held rcv_nxt self) - {0 ..< length dat}"
proof -
  have e: "reasm_held rcv_nxt reasm_new = Map.empty" by (simp add: reasm_held_def reasm_new_def)
  then obtain self where s: "insert_all reasm_new rcv_nxt right_edge segs = Some self"
    "reasm_inv rcv_nxt 0 (offset_from right_edge rcv_nxt) self" "reasm_held rcv_nxt self \<subseteq>\<^sub>m (Some \<circ> st)"
    "dom (reasm_held rcv_nxt self) = (\<Union>(s, p) \<in> set segs. {offset_from s rcv_nxt ..<
        min (offset_from s rcv_nxt + length p) (offset_from right_edge rcv_nxt)})"
    using insert_all_stream[OF reasm_inv_new[OF assms(1)] _ order_refl assms(2)] by auto
  show ?thesis using rq.pop_delivers_stream[of rcv_nxt rcv_nxt _ self st] s by fastforce
qed

theorem reassembly_delivers_stream_witness:
  "\<exists>self dat self'. insert_all reasm_new 4294967295 100 [(2, [3, 4]), (4294967295, [0, 1, 2, 3]), (6, [7])] = Some self
    \<and> pop_contiguous self 4294967295 = Some (dat, self') \<and> dat = map word_of_nat [0 ..< length dat]"
proof -
  have "offset_from 2 4294967295 = 3" "offset_from 4294967295 4294967295 = 0" "offset_from 6 4294967295 = 7"
    by (simp_all add: offset_from_def)
  then have "segment_of 4294967295 word_of_nat (2, [3, 4])"
    "segment_of 4294967295 word_of_nat (4294967295, [0, 1, 2, 3])"
    "segment_of 4294967295 word_of_nat (6, [7])"
    by (simp_all add: segment_of_def upt_conv_Cons)
  then have l: "list_all (segment_of 4294967295 word_of_nat) [(2, [3, 4]), (4294967295, [0, 1, 2, 3]), (6, [7])]"
    by simp
  have "offset_from 100 4294967295 < 2147483648" by (simp add: offset_from_def)
  from reassembly_delivers_stream[OF this l] show ?thesis by blast
qed

text \<open>
  The SACK blocks of \<open>report\<close> are exact. Every reported block \<open>[l, r)\<close> lies in the
  window, is held in full, and is not adjacent to other held data; no more than the slots
  available are filled; and the first block is the most recently touched run.
\<close>

theorem report_blocks_exact:
  assumes "reasm_inv rcv_nxt 1 n self"
  shows "length (report self cap) = min cap (length (reasm_runs self))
    \<and> (\<forall>(l, r) \<in> set (report self cap).
         0 < offset_from l rcv_nxt \<and> offset_from l rcv_nxt < offset_from r rcv_nxt
         \<and> {offset_from l rcv_nxt ..< offset_from r rcv_nxt} \<subseteq> dom (reasm_held rcv_nxt self)
         \<and> offset_from r rcv_nxt \<notin> dom (reasm_held rcv_nxt self)
         \<and> offset_from l rcv_nxt - 1 \<notin> dom (reasm_held rcv_nxt self))
    \<and> (0 < cap \<and> reasm_runs self \<noteq> [] \<longrightarrow>
         (\<exists>x \<in> set (reasm_runs self). hd (report self cap) = (seg_start x, run_end x)
            \<and> (\<forall>y \<in> set (reasm_runs self). seg_stamp y \<le> seg_stamp x)))"
proof (intro conjI impI)
  show "length (report self cap) = min cap (length (reasm_runs self))" by (rule report_length)
qed (use report_block_exact[OF assms] report_first in blast)+

theorem report_blocks_exact_witness:
  "report \<lparr>reasm_runs = [\<lparr>seg_start = 12, seg_data = [1, 2], seg_stamp = 1\<rparr>, \<lparr>seg_start = 20, seg_data = [3], seg_stamp = 2\<rparr>],
     reasm_bytes = 3, next_stamp = 2\<rparr> 4 = [(20, 21), (12, 14)]
   \<and> {10 ..< 11} \<subseteq> dom (reasm_held 10 \<lparr>reasm_runs = [\<lparr>seg_start = 12, seg_data = [1, 2], seg_stamp = 1\<rparr>,
       \<lparr>seg_start = 20, seg_data = [3], seg_stamp = 2\<rparr>], reasm_bytes = 3, next_stamp = 2\<rparr>)"
proof -
  let ?r = "\<lparr>reasm_runs = [\<lparr>seg_start = 12, seg_data = [1, 2 :: u8], seg_stamp = 1\<rparr>,
      \<lparr>seg_start = 20, seg_data = [3], seg_stamp = 2\<rparr>], reasm_bytes = 3, next_stamp = 2\<rparr>"
  have r: "report ?r 4 = [(20, 21), (12, 14)]" by (simp add: report_def run_end_def seq_add_def)
  have i: "reasm_inv 10 1 100 ?r" by (simp add: reasm_inv_def wf_segs_def offset_from_def)
  have "\<forall>(l, r) \<in> set (report ?r 4). {offset_from l 10 ..< offset_from r 10} \<subseteq> dom (reasm_held 10 ?r)"
    using report_blocks_exact[OF i, of 4] by fast
  then have "{offset_from 20 10 ..< offset_from 21 10} \<subseteq> dom (reasm_held 10 ?r)"
    unfolding r by simp
  then show ?thesis using r by (simp add: offset_from_def)
qed

end
