(* ===== verification/Checksum.thy ===== *)
theory Checksum
  imports Prelude
begin

text \<open>
  \<open>wire/checksum.rs\<close>: the Internet checksum of RFC 1071. The \<open>u64\<close> and
  \<open>u32\<close> accumulators are naturals (a datagram has at most 65535 bytes, so the 64-bit
  sum cannot overflow); the wide loop reads two 32-bit words per step and the tail 16-bit
  words, as the source does. \<open>be_sum\<close> is the RFC's definition, the plain sum of 16-bit
  words, against which the optimised loop is proved.
\<close>

definition IPPROTO_ICMP :: u8 where "IPPROTO_ICMP = 1"
definition IPPROTO_TCP :: u8 where "IPPROTO_TCP = 6"

type_synonym ipv4_addr = u32

definition octets :: "ipv4_addr \<Rightarrow> bytes" where
  "octets a = u32_to_be a"

fun sum_octets :: "nat \<Rightarrow> bytes \<Rightarrow> nat \<times> bytes" where
  "sum_octets s (o0 # o1 # o2 # o3 # o4 # o5 # o6 # o7 # rest) =
     sum_octets (s + unat (u32_from_be o0 o1 o2 o3) + unat (u32_from_be o4 o5 o6 o7)) rest"
| "sum_octets s rest = (s, rest)"

fun sum_pairs :: "nat \<Rightarrow> bytes \<Rightarrow> nat" where
  "sum_pairs s (a # b # rest) = sum_pairs (s + unat (u16_from_be a b)) rest"
| "sum_pairs s [x] = s + unat x * 256"
| "sum_pairs s [] = s"

text \<open>\<open>while sum >> 32 != 0\<close> and \<open>while acc >> 16 != 0\<close>: end-around carry until none remains.\<close>

function fold_carry :: "nat \<Rightarrow> nat \<Rightarrow> nat" where
  "fold_carry m n = (if 1 < m \<and> n div m \<noteq> 0 then fold_carry m (n mod m + n div m) else n)"
  by pat_completeness auto
termination
proof (relation "measure (\<lambda>(m, n). n)", goal_cases)
  case (2 m n)
  then have "1 * (n div m) < m * (n div m)" by (intro mult_strict_right_mono) auto
  then have "n mod m + n div m < n mod m + m * (n div m)" by (intro add_strict_left_mono) linarith
  also have "\<dots> = n" by (rule mod_mult_div_eq)
  finally show ?case by simp
qed simp

declare fold_carry.simps [simp del]

definition accumulate :: "nat \<Rightarrow> bytes \<Rightarrow> nat" where
  "accumulate acc dat =
     (case sum_octets acc dat of (s, rest) \<Rightarrow> fold_carry 4294967296 (sum_pairs s rest))"

definition fold16 :: "nat \<Rightarrow> u16" where
  "fold16 acc = word_of_nat (fold_carry 65536 acc)"

definition checksum :: "bytes \<Rightarrow> u16" where
  "checksum dat = not (fold16 (accumulate 0 dat))"

definition pseudo_header :: "ipv4_addr \<Rightarrow> ipv4_addr \<Rightarrow> u8 \<Rightarrow> u16 \<Rightarrow> nat" where
  "pseudo_header src dst protocol l4_len =
     (let acc = 0;
          acc = accumulate acc (octets src);
          acc = accumulate acc (octets dst)
      in accumulate acc ([0, protocol] @ u16_to_be l4_len))"

definition tcp_checksum :: "ipv4_addr \<Rightarrow> ipv4_addr \<Rightarrow> bytes \<Rightarrow> u16" where
  "tcp_checksum src dst segment =
     (let acc = pseudo_header src dst IPPROTO_TCP (word_of_nat (length segment))
      in not (fold16 (accumulate acc segment)))"

definition tcp_checksum_valid :: "ipv4_addr \<Rightarrow> ipv4_addr \<Rightarrow> bytes \<Rightarrow> bool" where
  "tcp_checksum_valid src dst segment \<longleftrightarrow>
     (let acc = pseudo_header src dst IPPROTO_TCP (word_of_nat (length segment))
      in fold16 (accumulate acc segment) = 0xffff)"

section \<open>The one's-complement sum\<close>

fun be_sum :: "bytes \<Rightarrow> nat" where
  "be_sum (a # b # rest) = 256 * unat a + unat b + be_sum rest"
| "be_sum [x] = 256 * unat x"
| "be_sum [] = 0"

text \<open>One's-complement value of a sum: the representative in \<open>1..65535\<close>, zero only for zero.\<close>

definition ones_sum :: "nat \<Rightarrow> nat" where
  "ones_sum n = (if n = 0 then 0 else if n mod 65535 = 0 then 65535 else n mod 65535)"

lemma sum_pairs_eq: "sum_pairs s dat = s + be_sum dat"
  by (induction s dat rule: sum_pairs.induct) (simp_all add: unat_u16_from_be)

lemma carry_mod:
  fixes m n :: nat
  assumes "1 < m" shows "(n mod m + n div m) mod (m - 1) = n mod (m - 1)"
proof -
  have "n = (m - 1) * (n div m) + (n mod m + n div m)"
    using mult_div_mod_eq[of m n] assms by (simp add: algebra_simps diff_mult_distrib)
  then show ?thesis by (metis mod_mult_self4)
qed

lemma fold_carry_correct:
  assumes "1 < m"
  shows "fold_carry m n < m \<and> fold_carry m n mod (m - 1) = n mod (m - 1) \<and> (fold_carry m n = 0 \<longleftrightarrow> n = 0)"
  using assms
proof (induction m n rule: fold_carry.induct)
  case (1 m n)
  show ?case
  proof (cases "n div m = 0")
    case True
    then have "fold_carry m n = n" by (simp add: fold_carry.simps)
    then show ?thesis using 1(2) True by (auto simp: div_eq_0_iff)
  next
    case False
    then have "fold_carry m n = fold_carry m (n mod m + n div m)"
      using 1(2) by (subst fold_carry.simps) simp
    moreover have "(n mod m + n div m = 0) \<longleftrightarrow> (n = 0)" using False by (cases "n = 0") auto
    ultimately show ?thesis using 1(1)[OF _ 1(2)] False 1(2) carry_mod[OF 1(2), of n] by simp
  qed
qed

lemma sum_octets_eq:
  assumes "sum_octets s dat = (s', rest)"
  shows "(s' + be_sum rest) mod 65535 = (s + be_sum dat) mod 65535
    \<and> (s' + be_sum rest = 0 \<longleftrightarrow> s + be_sum dat = 0)"
  using assms
proof (induction s dat rule: sum_octets.induct)
  case (1 s a b c d e f g h rest')
  let ?hi = "256 * unat a + unat b + (256 * unat e + unat f)"
  have w: "s + unat (u32_from_be a b c d) + unat (u32_from_be e f g h) + be_sum rest'
      = s + be_sum (a # b # c # d # e # f # g # h # rest') + 65535 * ?hi"
    by (simp add: unat_u32_from_be)
  have "(s + unat (u32_from_be a b c d) + unat (u32_from_be e f g h) + be_sum rest') mod 65535
      = (s + be_sum (a # b # c # d # e # f # g # h # rest')) mod 65535"
    unfolding w by (rule mod_mult_self2)
  moreover have "s + unat (u32_from_be a b c d) + unat (u32_from_be e f g h) + be_sum rest' = 0
      \<longleftrightarrow> s + be_sum (a # b # c # d # e # f # g # h # rest') = 0"
    by (auto simp: unat_u32_from_be)
  moreover have "sum_octets (s + unat (u32_from_be a b c d) + unat (u32_from_be e f g h)) rest' = (s', rest)"
    using 1(2) by simp
  ultimately show ?case using 1(1) by simp
qed auto

definition oc_eq :: "nat \<Rightarrow> nat \<Rightarrow> bool" where
  "oc_eq a b \<longleftrightarrow> a mod 65535 = b mod 65535 \<and> (a = 0 \<longleftrightarrow> b = 0)"

lemma oc_eq_add: "oc_eq a b \<Longrightarrow> oc_eq (a + c) (b + c)"
  unfolding oc_eq_def by (metis add_is_0 mod_add_left_eq)

lemma oc_eq_trans: "oc_eq a b \<Longrightarrow> oc_eq b c \<Longrightarrow> oc_eq a c"
  by (simp add: oc_eq_def)

lemma ones_sum_cong: "oc_eq a b \<Longrightarrow> ones_sum a = ones_sum b"
  by (simp add: oc_eq_def ones_sum_def)

lemma ones_sum_id:
  assumes "f \<le> 65535" shows "ones_sum f = f"
proof (cases "f = 65535")
  case False
  then show ?thesis using assms by (simp add: ones_sum_def)
qed (simp add: ones_sum_def)

lemma accumulate_oc_eq: "oc_eq (accumulate acc dat) (acc + be_sum dat)"
proof -
  obtain s rest where s: "sum_octets acc dat = (s, rest)" by fastforce
  let ?n = "sum_pairs s rest"
  have "fold_carry 4294967296 ?n mod 4294967295 = ?n mod 4294967295"
    "fold_carry 4294967296 ?n = 0 \<longleftrightarrow> ?n = 0"
    using fold_carry_correct[of 4294967296 ?n] by simp_all
  moreover from this have "fold_carry 4294967296 ?n mod 65535 = ?n mod 65535"
    using mod_mod_cancel[of 65535 4294967295 "fold_carry 4294967296 ?n"]
      mod_mod_cancel[of 65535 4294967295 ?n] by simp
  ultimately show ?thesis
    using sum_octets_eq[OF s] by (simp add: accumulate_def s sum_pairs_eq oc_eq_def)
qed

lemma accumulate_bound: "accumulate acc dat < 4294967296"
  using fold_carry_correct[of 4294967296] by (simp add: accumulate_def split: prod.splits)

lemma unat_fold16: "unat (fold16 n) = ones_sum n"
proof -
  have f: "fold_carry 65536 n < 65536" "oc_eq (fold_carry 65536 n) n"
    using fold_carry_correct[of 65536 n] by (simp_all add: oc_eq_def)
  then have "unat (fold16 n) = fold_carry 65536 n"
    unfolding fold16_def unat_word_of_nat_u16 by simp
  then show ?thesis using f ones_sum_cong[OF f(2)] ones_sum_id[of "fold_carry 65536 n"] by simp
qed

lemma fold16_accumulate: "unat (fold16 (accumulate acc dat)) = ones_sum (acc + be_sum dat)"
  unfolding unat_fold16 by (rule ones_sum_cong[OF accumulate_oc_eq])

lemma unat_not_u16: "unat (not w :: u16) = 65535 - unat w"
proof -
  have "not w = - 1 - w" by (simp add: not_eq_complement)
  moreover have "unat (- 1 :: u16) = 65535" by (simp add: unsigned_minus_1_eq_mask mask_eq_exp_minus_1)
  ultimately show ?thesis using unat_sub_if_size[of "- 1 :: u16" w] unat_u16_bound[of w] by simp
qed

text \<open>Writing a complemented sum into a zeroed field makes the whole sum all ones.\<close>

lemma ones_sum_complement: "ones_sum (n + (65535 - ones_sum n)) = 65535"
proof (cases "n mod 65535 = 0")
  case True
  then show ?thesis by (auto simp: ones_sum_def)
next
  case False
  then have "ones_sum n = n mod 65535" by (auto simp: ones_sum_def)
  moreover have "n + (65535 - n mod 65535) = 65535 * (n div 65535 + 1)"
  proof -
    have "n + (65535 - r) = 65535 * (q + 1)" if "65535 * q + r = n" "r < 65535" for q r :: nat
      using that by simp
    from this[OF mult_div_mod_eq mod_less_divisor[OF zero_less_numeral]] show ?thesis .
  qed
  moreover have "ones_sum (65535 * (n div 65535 + 1)) = 65535" by (simp add: ones_sum_def)
  ultimately show ?thesis by metis
qed

lemma be_sum_append: "even (length xs) \<Longrightarrow> be_sum (xs @ ys) = be_sum xs + be_sum ys"
  by (induction xs rule: be_sum.induct) simp_all

lemma be_sum_u16 [simp]: "be_sum (u16_to_be w @ ys) = unat w + be_sum ys"
proof -
  have "unat w div 256 < 256" using unat_u16_bound[of w] by (simp add: less_mult_imp_div_less)
  then show ?thesis unfolding u16_to_be_def by (simp add: unat_word_of_nat_u8 del: of_nat_unat)
qed

lemma be_sum_zero_field: "be_sum (0 # 0 # ys) = be_sum ys"
  by simp

text \<open>
  The interface the emitters use: a seed, a block before the field of even length, the
  complemented sum written into the zeroed field, and a block after it.
\<close>

lemma checksum_field_valid:
  assumes "even (length xs)"
    and "c = not (fold16 (accumulate acc (xs @ 0 # 0 # ys)))"
  shows "fold16 (accumulate acc (xs @ u16_to_be c @ ys)) = 0xffff"
proof -
  let ?n = "acc + be_sum xs + be_sum ys"
  have "unat c = 65535 - ones_sum ?n"
    unfolding assms(2) unat_not_u16 fold16_accumulate be_sum_append[OF assms(1)] by (simp add: add.assoc)
  then have "acc + be_sum (xs @ u16_to_be c @ ys) = ?n + (65535 - ones_sum ?n)"
    unfolding be_sum_append[OF assms(1)] by simp
  then have "unat (fold16 (accumulate acc (xs @ u16_to_be c @ ys))) = 65535"
    unfolding fold16_accumulate by (simp only: ones_sum_complement)
  then show ?thesis by (simp add: word_unat_eq_iff)
qed

lemma pseudo_header_oc_eq:
  "oc_eq (pseudo_header src dst protocol l4_len)
     (be_sum (octets src) + be_sum (octets dst) + be_sum ([0, protocol] @ u16_to_be l4_len))"
proof -
  let ?a = "accumulate 0 (octets src)"
  let ?b = "accumulate ?a (octets dst)"
  have "oc_eq ?a (be_sum (octets src))" using accumulate_oc_eq[of 0 "octets src"] by simp
  from oc_eq_trans[OF accumulate_oc_eq oc_eq_add[OF this]]
  have "oc_eq ?b (be_sum (octets src) + be_sum (octets dst))" .
  from oc_eq_trans[OF accumulate_oc_eq oc_eq_add[OF this]] show ?thesis
    unfolding pseudo_header_def Let_def .
qed

lemma tcp_checksum_validates_field:
  assumes "even (length pre)" and "c = tcp_checksum src dst (pre @ 0 # 0 # rest)"
  shows "tcp_checksum_valid src dst (pre @ u16_to_be c @ rest)"
proof -
  have "length (pre @ 0 # 0 # rest) = length (pre @ u16_to_be c @ rest)" by simp
  then show ?thesis
    using checksum_field_valid[of pre c _ rest] assms
    by (simp add: tcp_checksum_valid_def tcp_checksum_def Let_def)
qed

section \<open>Properties of the checksum\<close>

text \<open>
  C26: the wide-word checksum equals RFC 1071's. For any seed and any bytes, the loop over
  32-bit words, the 16-bit tail, the odd last byte and both carry folds produce the
  one's-complement sum of the plain sequence of big-endian 16-bit words, and the
  accumulator stays below \<open>2\<^sup>3\<^sup>2\<close>, so calls can be chained.
\<close>

theorem checksum_rfc1071:
  "unat (fold16 (accumulate acc dat)) = ones_sum (acc + be_sum dat)
   \<and> accumulate acc dat < 4294967296
   \<and> unat (checksum dat) = 65535 - ones_sum (be_sum dat)
   \<and> unat (fold16 (accumulate (accumulate acc dat) dat')) = ones_sum (acc + be_sum dat + be_sum dat')"
proof -
  have "unat (fold16 (accumulate (accumulate acc dat) dat')) = ones_sum (acc + be_sum dat + be_sum dat')"
    unfolding fold16_accumulate by (rule ones_sum_cong[OF oc_eq_add[OF accumulate_oc_eq]])
  then show ?thesis
    by (simp add: fold16_accumulate accumulate_bound checksum_def unat_not_u16)
qed

text \<open>
  A TCP segment whose checksum field was zero when \<open>tcp_checksum\<close> was computed passes
  \<open>tcp_checksum_valid\<close> once the result is written into the field.
\<close>

theorem tcp_checksum_validates:
  assumes "even (length pre)" and "c = tcp_checksum src dst (pre @ 0 # 0 # rest)"
  shows "tcp_checksum_valid src dst (pre @ u16_to_be c @ rest)"
  using assms by (rule tcp_checksum_validates_field)

theorem tcp_checksum_validates_witness:
  "tcp_checksum_valid 0x0A000001 0x0A000002
     (replicate 16 1 @ u16_to_be (tcp_checksum 0x0A000001 0x0A000002 (replicate 16 1 @ 0 # 0 # [0, 0, 9])) @ [0, 0, 9])"
  by (rule tcp_checksum_validates) simp_all

end
