(* ===== verification/Ipv4_Wire.thy ===== *)
theory Ipv4_Wire
  imports Checksum
begin

text \<open>
  \<open>wire/ipv4.rs\<close>: the checked IPv4 view and the header emitter. A packet view is its
  buffer; the accessors index it directly, as the source does, and are used only on buffers
  that \<open>new_checked\<close> accepted, where every index is in range
  (\<open>new_checked_in_range\<close>). The emitter writes into a caller's buffer and is
  \<open>None\<close> where the source would panic on a short one.
\<close>

definition IPV4_MIN_HEADER_LEN :: nat where "IPV4_MIN_HEADER_LEN = 20"
definition IPV4_MAX_HEADER_LEN :: nat where "IPV4_MAX_HEADER_LEN = 60"

definition ECN_NOT_ECT :: u8 where "ECN_NOT_ECT = 0"
definition ECN_ECT1 :: u8 where "ECN_ECT1 = 1"
definition ECN_ECT0 :: u8 where "ECN_ECT0 = 2"
definition ECN_CE :: u8 where "ECN_CE = 3"

definition set_ecn :: "bytes \<Rightarrow> u8 \<Rightarrow> bytes" where
  "set_ecn frame ecn =
     (if length frame < IPV4_MIN_HEADER_LEN then frame
      else let frame = frame[1 := (frame ! 1 AND 0xFC) OR (ecn AND 0x03)];
               frame = frame[10 := 0];
               frame = frame[11 := 0];
               csum = checksum (take IPV4_MIN_HEADER_LEN frame)
           in frame[10 := u16_to_be csum ! 0, 11 := u16_to_be csum ! 1])"

datatype ip_parse_error = IpTruncated | BadVersion | BadHeaderLen | Fragmented

definition ip_version :: "bytes \<Rightarrow> u8" where
  "ip_version buf = drop_bit 4 (buf ! 0)"

definition ip_header_len :: "bytes \<Rightarrow> nat" where
  "ip_header_len buf = unat (buf ! 0 AND 0x0f) * 4"

definition ip_total_len :: "bytes \<Rightarrow> u16" where
  "ip_total_len buf = u16_from_be (buf ! 2) (buf ! 3)"

definition ip_ttl :: "bytes \<Rightarrow> u8" where
  "ip_ttl buf = buf ! 8"

definition ip_protocol :: "bytes \<Rightarrow> u8" where
  "ip_protocol buf = buf ! 9"

definition ip_ecn :: "bytes \<Rightarrow> u8" where
  "ip_ecn buf = buf ! 1 AND 0x03"

definition ip_checksum :: "bytes \<Rightarrow> u16" where
  "ip_checksum buf = u16_from_be (buf ! 10) (buf ! 11)"

definition ip_src :: "bytes \<Rightarrow> ipv4_addr" where
  "ip_src buf = u32_from_be (buf ! 12) (buf ! 13) (buf ! 14) (buf ! 15)"

definition ip_dst :: "bytes \<Rightarrow> ipv4_addr" where
  "ip_dst buf = u32_from_be (buf ! 16) (buf ! 17) (buf ! 18) (buf ! 19)"

definition is_fragment :: "bytes \<Rightarrow> bool" where
  "is_fragment buf \<longleftrightarrow>
     (let flags_frag = u16_from_be (buf ! 6) (buf ! 7)
      in flags_frag AND 0x2000 \<noteq> 0 \<or> flags_frag AND 0x1fff \<noteq> 0)"

definition ip_checksum_valid :: "bytes \<Rightarrow> bool" where
  "ip_checksum_valid buf \<longleftrightarrow> fold16 (accumulate 0 (take (ip_header_len buf) buf)) = 0xffff"

definition ip_payload :: "bytes \<Rightarrow> bytes" where
  "ip_payload buf = take (unat (ip_total_len buf) - ip_header_len buf) (drop (ip_header_len buf) buf)"

definition ip_new_checked :: "bytes \<Rightarrow> ip_parse_error + bytes" where
  "ip_new_checked buf =
     (if length buf < IPV4_MIN_HEADER_LEN then Inl IpTruncated
      else if ip_version buf \<noteq> 4 then Inl BadVersion
      else let ihl = ip_header_len buf
           in if \<not> (IPV4_MIN_HEADER_LEN \<le> ihl \<and> ihl \<le> IPV4_MAX_HEADER_LEN) then Inl BadHeaderLen
              else let total = unat (ip_total_len buf)
                   in if total < ihl \<or> total > length buf then Inl IpTruncated
                      else if is_fragment buf then Inl Fragmented
                      else Inr buf)"

record ipv4_repr =
  ipr_src :: ipv4_addr
  ipr_dst :: ipv4_addr
  ipr_protocol :: u8
  ipr_payload_len :: u16
  ipr_ttl :: u8
  ipr_ecn :: u8

definition IP_HEADER_LEN :: nat where "IP_HEADER_LEN = IPV4_MIN_HEADER_LEN"

definition ipr_total_len :: "ipv4_repr \<Rightarrow> nat" where
  "ipr_total_len self = IP_HEADER_LEN + unat (ipr_payload_len self)"

definition ipv4_emit :: "ipv4_repr \<Rightarrow> bytes \<Rightarrow> (nat \<times> bytes) option" where
  "ipv4_emit self buf = do {
     let total = (word_of_nat (ipr_total_len self) :: u16);
     buf \<leftarrow> copy_into buf 0 [(push_bit 4 4) OR 5];
     buf \<leftarrow> copy_into buf 1 [ipr_ecn self AND 0x03];
     buf \<leftarrow> copy_into buf 2 (u16_to_be total);
     buf \<leftarrow> copy_into buf 4 [0, 0];
     buf \<leftarrow> copy_into buf 6 (u16_to_be 0x4000);
     buf \<leftarrow> copy_into buf 8 [ipr_ttl self];
     buf \<leftarrow> copy_into buf 9 [ipr_protocol self];
     buf \<leftarrow> copy_into buf 10 [0, 0];
     buf \<leftarrow> copy_into buf 12 (octets (ipr_src self));
     buf \<leftarrow> copy_into buf 16 (octets (ipr_dst self));
     hdr \<leftarrow> sub_slice buf 0 IP_HEADER_LEN;
     let csum = checksum hdr;
     buf \<leftarrow> copy_into buf 10 (u16_to_be csum);
     Some (IP_HEADER_LEN, buf)
   }"

section \<open>Sequential writes\<close>

text \<open>A write that starts where the previous one ended extends the written prefix.\<close>

lemma copy_into_next:
  assumes "length w = i" and "i + length ys \<le> length buf"
  shows "copy_into (w @ drop i buf) i ys = Some ((w @ ys) @ drop (i + length ys) buf)"
  using assms by (simp add: copy_into_def add.commute)

lemma copy_into_first: "length ys \<le> length buf \<Longrightarrow> copy_into buf 0 ys = Some (ys @ drop (length ys) buf)"
  by (simp add: copy_into_def)

lemma copy_into_field:
  "length w = i \<Longrightarrow> length ys = length f \<Longrightarrow> copy_into (w @ f @ t) i ys = Some (w @ ys @ t)"
  by (simp add: copy_into_def)

lemma length_octets [simp, wire_simps]: "length (octets a) = 4"
  by (simp add: octets_def)

text \<open>The header as laid down before its checksum, split at the checksum field.\<close>

definition ip_head :: "ipv4_repr \<Rightarrow> bytes" where
  "ip_head self = [0x45, ipr_ecn self AND 0x03] @ u16_to_be (word_of_nat (ipr_total_len self))
     @ [0, 0] @ u16_to_be 0x4000 @ [ipr_ttl self, ipr_protocol self]"

definition ip_tail :: "ipv4_repr \<Rightarrow> bytes" where
  "ip_tail self = octets (ipr_src self) @ octets (ipr_dst self)"

lemma length_ip_head [simp]: "length (ip_head self) = 10"
  by (simp add: ip_head_def)

lemma length_ip_tail [simp]: "length (ip_tail self) = 8"
  by (simp add: ip_tail_def)

lemma explode20:
  assumes "length xs = 20"
  obtains b0 b1 b2 b3 b4 b5 b6 b7 b8 b9 b10 b11 b12 b13 b14 b15 b16 b17 b18 b19
  where "xs = [b0, b1, b2, b3, b4, b5, b6, b7, b8, b9, b10, b11, b12, b13, b14, b15, b16, b17, b18, b19]"
  using assms by (auto simp: numeral_eq_Suc length_Suc_conv)

lemma ipv4_emit_bytes:
  assumes "20 \<le> length buf"
  shows "ipv4_emit self buf = Some (20,
    ip_head self @ u16_to_be (checksum (ip_head self @ [0, 0] @ ip_tail self)) @ ip_tail self @ drop 20 buf)"
proof -
  obtain b0 b1 b2 b3 b4 b5 b6 b7 b8 b9 b10 b11 b12 b13 b14 b15 b16 b17 b18 b19
    where b: "take 20 buf = [b0, b1, b2, b3, b4, b5, b6, b7, b8, b9, b10, b11, b12, b13, b14, b15, b16, b17, b18, b19]"
    by (rule explode20[of "take 20 buf"]) (use assms in simp)
  have "buf = [b0, b1, b2, b3, b4, b5, b6, b7, b8, b9, b10, b11, b12, b13, b14, b15, b16, b17, b18, b19] @ drop 20 buf"
    unfolding b[symmetric] by simp
  then obtain t where "t = drop 20 buf" and
    buf: "buf = [b0, b1, b2, b3, b4, b5, b6, b7, b8, b9, b10, b11, b12, b13, b14, b15, b16, b17, b18, b19] @ t"
    by blast
  then show ?thesis
    by (simp add: ipv4_emit_def copy_into_def sub_slice_def u16_to_be_def octets_def u32_to_be_def
        ip_head_def ip_tail_def IP_HEADER_LEN_def IPV4_MIN_HEADER_LEN_def Let_def)
qed

section \<open>Parsing what was emitted\<close>

definition ip_frame :: "ipv4_repr \<Rightarrow> u16 \<Rightarrow> bytes \<Rightarrow> bytes" where
  "ip_frame self c rest = ip_head self @ u16_to_be c @ ip_tail self @ rest"

lemmas ip_frame_explicit = ip_frame_def ip_head_def ip_tail_def u16_to_be_def octets_def u32_to_be_def

lemma dont_fragment_word: "u16_from_be 64 16384 = 0x4000"
  by (simp add: u16_from_be_def)

lemma ip_frame_fields:
  shows "ip_version (ip_frame self c rest) = 4" and "ip_header_len (ip_frame self c rest) = 20"
    and "ip_total_len (ip_frame self c rest) = word_of_nat (ipr_total_len self)"
    and "ip_ttl (ip_frame self c rest) = ipr_ttl self"
    and "ip_protocol (ip_frame self c rest) = ipr_protocol self"
    and "ip_ecn (ip_frame self c rest) = ipr_ecn self AND 0x03"
    and "ip_checksum (ip_frame self c rest) = c"
    and "ip_src (ip_frame self c rest) = ipr_src self"
    and "ip_dst (ip_frame self c rest) = ipr_dst self"
    and "\<not> is_fragment (ip_frame self c rest)"
    and "length (ip_frame self c rest) = 20 + length rest"
  by (simp_all add: ip_frame_explicit ip_version_def ip_header_len_def ip_ttl_def ip_protocol_def
      ip_ecn_def ip_checksum_def ip_src_def ip_dst_def is_fragment_def ip_total_len_def
      dont_fragment_word del: of_nat_unat)

lemma ip_frame_checksum:
  "ip_checksum_valid (ip_frame self (checksum (ip_head self @ [0, 0] @ ip_tail self)) rest)"
proof -
  have "take 20 (ip_frame self c rest) = ip_head self @ u16_to_be c @ ip_tail self" for c
    by (simp add: ip_frame_def)
  then show ?thesis
    using checksum_field_valid[of "ip_head self" _ 0 "ip_tail self"]
    by (simp add: ip_checksum_valid_def ip_frame_fields checksum_def)
qed

lemma ip_frame_accepted:
  assumes "ipr_total_len self \<le> 65535" and "unat (ipr_payload_len self) \<le> length rest"
  shows "ip_new_checked (ip_frame self c rest) = Inr (ip_frame self c rest)"
    and "ip_payload (ip_frame self c rest) = take (unat (ipr_payload_len self)) rest"
proof -
  have t: "unat (ip_total_len (ip_frame self c rest)) = ipr_total_len self"
    unfolding ip_frame_fields unat_word_of_nat_u16 using assms(1) by simp
  then show "ip_new_checked (ip_frame self c rest) = Inr (ip_frame self c rest)"
    using assms(2)
    by (simp add: ip_new_checked_def ip_frame_fields IPV4_MIN_HEADER_LEN_def IPV4_MAX_HEADER_LEN_def
        ipr_total_len_def IP_HEADER_LEN_def Let_def del: ip_frame_fields(3))
  have "drop 20 (ip_frame self c rest) = rest" by (simp add: ip_frame_def)
  then show "ip_payload (ip_frame self c rest) = take (unat (ipr_payload_len self)) rest"
    unfolding ip_payload_def t ip_frame_fields(2)
    by (simp add: ipr_total_len_def IP_HEADER_LEN_def IPV4_MIN_HEADER_LEN_def)
qed

text \<open>What acceptance guarantees: every accessor's index and the payload slice are in range.\<close>

lemma new_checked_in_range:
  assumes "ip_new_checked buf = Inr p"
  shows "p = buf \<and> 20 \<le> ip_header_len buf \<and> ip_header_len buf \<le> 60
    \<and> ip_header_len buf \<le> unat (ip_total_len buf) \<and> unat (ip_total_len buf) \<le> length buf
    \<and> ip_version buf = 4 \<and> \<not> is_fragment buf"
  using assms
  by (auto simp: ip_new_checked_def IPV4_MIN_HEADER_LEN_def IPV4_MAX_HEADER_LEN_def Let_def split: if_splits)

lemma ip_payload_length:
  assumes "ip_new_checked buf = Inr p"
  shows "length (ip_payload buf) = unat (ip_total_len buf) - ip_header_len buf"
  using new_checked_in_range[OF assms] by (auto simp: ip_payload_def min_def)

section \<open>Properties of the IPv4 layer\<close>

text \<open>
  IPv4 emit and parse round-trip. Emitting any header whose total length fits 16 bits
  into a buffer that holds the datagram succeeds, and parsing the result is accepted, has a
  valid header checksum, returns every field that was given (the ECN field its low two
  bits), and gives back the payload bytes, excluding any slack after \<open>total_len\<close>.
\<close>

theorem ipv4_emit_parse_roundtrip:
  assumes "ipr_total_len self \<le> 65535" and "ipr_total_len self \<le> length buf"
  shows "\<exists>out. ipv4_emit self buf = Some (20, out) \<and> length out = length buf
    \<and> ip_new_checked out = Inr out \<and> ip_checksum_valid out
    \<and> ip_src out = ipr_src self \<and> ip_dst out = ipr_dst self \<and> ip_protocol out = ipr_protocol self
    \<and> ip_ttl out = ipr_ttl self \<and> ip_ecn out = ipr_ecn self AND 0x03
    \<and> unat (ip_total_len out) = ipr_total_len self
    \<and> ip_payload out = take (unat (ipr_payload_len self)) (drop 20 buf)"
proof -
  let ?c = "checksum (ip_head self @ [0, 0] @ ip_tail self)"
  let ?out = "ip_frame self ?c (drop 20 buf)"
  have len: "20 + unat (ipr_payload_len self) \<le> length buf"
    using assms(2) by (simp add: ipr_total_len_def IP_HEADER_LEN_def IPV4_MIN_HEADER_LEN_def)
  then have "ipv4_emit self buf = Some (20, ?out)"
    using ipv4_emit_bytes[of buf self] by (simp add: ip_frame_def)
  moreover have "unat (ip_total_len ?out) = ipr_total_len self"
    unfolding ip_frame_fields unat_word_of_nat_u16 using assms(1) by simp
  moreover have "unat (ipr_payload_len self) \<le> length (drop 20 buf)" using len by simp
  ultimately show ?thesis
    using ip_frame_accepted[OF assms(1)] ip_frame_checksum len
    by (intro exI[of _ ?out] conjI) (simp_all add: ip_frame_fields del: ip_frame_fields(3))
qed

theorem ipv4_emit_parse_roundtrip_witness:
  "\<exists>out. ipv4_emit \<lparr>ipr_src = 0x0A000001, ipr_dst = 0x0A000002, ipr_protocol = 6, ipr_payload_len = 3,
        ipr_ttl = 64, ipr_ecn = 2\<rparr> (replicate 25 7) = Some (20, out)
    \<and> ip_src out = 0x0A000001 \<and> ip_checksum_valid out \<and> ip_payload out = [7, 7, 7]"
proof -
  let ?r = "\<lparr>ipr_src = 0x0A000001, ipr_dst = 0x0A000002, ipr_protocol = 6, ipr_payload_len = 3,
        ipr_ttl = 64, ipr_ecn = 2\<rparr>"
  have "ipr_total_len ?r \<le> 65535" "ipr_total_len ?r \<le> length (replicate 25 (7 :: u8))"
    by (simp_all add: ipr_total_len_def IP_HEADER_LEN_def IPV4_MIN_HEADER_LEN_def)
  from ipv4_emit_parse_roundtrip[OF this] obtain out where
    "ipv4_emit ?r (replicate 25 7) = Some (20, out)" "ip_src out = 0x0A000001" "ip_checksum_valid out"
    "ip_payload out = take 3 (drop 20 (replicate 25 7))" by auto
  moreover have "take 3 (drop 20 (replicate 25 7)) = [7, 7, 7 :: u8]"
    by (simp add: drop_replicate take_replicate numeral_3_eq_3)
  ultimately show ?thesis by auto
qed

section \<open>Rewriting the ECN codepoint\<close>

lemma length_set_ecn [simp]: "length (set_ecn frame e) = length frame"
  by (simp add: set_ecn_def Let_def)

lemma set_ecn_other:
  "i \<noteq> 1 \<Longrightarrow> i \<noteq> 10 \<Longrightarrow> i \<noteq> 11 \<Longrightarrow> set_ecn frame e ! i = frame ! i"
  by (simp add: set_ecn_def Let_def)

lemma set_ecn_drop: "12 \<le> n \<Longrightarrow> drop n (set_ecn frame e) = drop n frame"
  by (simp add: set_ecn_def Let_def)

text \<open>The fields that marking leaves alone.\<close>

lemma set_ecn_fields:
  shows "ip_version (set_ecn frame e) = ip_version frame" and "ip_header_len (set_ecn frame e) = ip_header_len frame"
    and "ip_total_len (set_ecn frame e) = ip_total_len frame" and "ip_ttl (set_ecn frame e) = ip_ttl frame"
    and "ip_protocol (set_ecn frame e) = ip_protocol frame" and "ip_src (set_ecn frame e) = ip_src frame"
    and "ip_dst (set_ecn frame e) = ip_dst frame" and "is_fragment (set_ecn frame e) = is_fragment frame"
    and "20 \<le> ip_header_len frame \<Longrightarrow> ip_payload (set_ecn frame e) = ip_payload frame"
    and "ip_new_checked frame = Inr frame \<Longrightarrow> ip_new_checked (set_ecn frame e) = Inr (set_ecn frame e)"
proof -
  show f: "ip_version (set_ecn frame e) = ip_version frame" "ip_header_len (set_ecn frame e) = ip_header_len frame"
    "ip_total_len (set_ecn frame e) = ip_total_len frame" "ip_ttl (set_ecn frame e) = ip_ttl frame"
    "ip_protocol (set_ecn frame e) = ip_protocol frame" "ip_src (set_ecn frame e) = ip_src frame"
    "ip_dst (set_ecn frame e) = ip_dst frame" "is_fragment (set_ecn frame e) = is_fragment frame"
    by (simp_all add: ip_version_def ip_header_len_def ip_total_len_def ip_ttl_def ip_protocol_def
        ip_src_def ip_dst_def is_fragment_def set_ecn_other)
  show "20 \<le> ip_header_len frame \<Longrightarrow> ip_payload (set_ecn frame e) = ip_payload frame"
    by (simp add: ip_payload_def f set_ecn_drop)
  show "ip_new_checked frame = Inr frame \<Longrightarrow> ip_new_checked (set_ecn frame e) = Inr (set_ecn frame e)"
    by (simp add: ip_new_checked_def f Let_def split: if_splits)
qed

lemma ecn_low: "((a AND 0xFC) OR (e AND 0x03)) AND 0x03 = e AND (0x03 :: u8)"
  by (simp add: bit.conj_disj_distrib2 and.assoc)

lemma ecn_high: "((a AND 0xFC) OR (e AND 0x03)) AND 0xFC = a AND (0xFC :: u8)"
  by (simp add: bit.conj_disj_distrib2 and.assoc)

lemma set_ecn_bytes:
  assumes "length frame = 20 + length rest" and "drop 20 frame = rest"
  shows "\<exists>h0 h1 hs ts. frame = [h0, h1] @ hs @ [frame ! 10, frame ! 11] @ ts @ rest
    \<and> length hs = 8 \<and> length ts = 8
    \<and> set_ecn frame e = (let h = [h0, (h1 AND 0xFC) OR (e AND 0x03)] @ hs
        in h @ u16_to_be (checksum (h @ [0, 0] @ ts)) @ ts @ rest)"
proof -
  obtain b0 b1 b2 b3 b4 b5 b6 b7 b8 b9 b10 b11 b12 b13 b14 b15 b16 b17 b18 b19
    where b: "take 20 frame = [b0, b1, b2, b3, b4, b5, b6, b7, b8, b9, b10, b11, b12, b13, b14, b15, b16, b17, b18, b19]"
    by (rule explode20[of "take 20 frame"]) (use assms in simp)
  have f: "frame = [b0, b1, b2, b3, b4, b5, b6, b7, b8, b9, b10, b11, b12, b13, b14, b15, b16, b17, b18, b19] @ rest"
    using append_take_drop_id[of 20 frame] b assms(2) by metis
  show ?thesis
    by (intro exI[of _ b0] exI[of _ b1] exI[of _ "[b2, b3, b4, b5, b6, b7, b8, b9]"]
        exI[of _ "[b12, b13, b14, b15, b16, b17, b18, b19]"])
      (simp add: f set_ecn_def IPV4_MIN_HEADER_LEN_def Let_def u16_to_be_def)
qed

lemma set_ecn_packet:
  assumes "ip_new_checked frame = Inr frame" and "ip_header_len frame = 20"
  shows "ip_checksum_valid (set_ecn frame e) \<and> ip_ecn (set_ecn frame e) = e AND 0x03
    \<and> ip_new_checked (set_ecn frame e) = Inr (set_ecn frame e)
    \<and> ip_src (set_ecn frame e) = ip_src frame \<and> ip_dst (set_ecn frame e) = ip_dst frame
    \<and> ip_protocol (set_ecn frame e) = ip_protocol frame \<and> ip_ttl (set_ecn frame e) = ip_ttl frame
    \<and> set_ecn frame e ! 1 AND 0xFC = frame ! 1 AND 0xFC
    \<and> ip_payload (set_ecn frame e) = ip_payload frame"
proof -
  note r = new_checked_in_range[OF assms(1)]
  have "length frame = 20 + length (drop 20 frame)" using r assms(2) by auto
  from set_ecn_bytes[OF this refl, of e] obtain h0 h1 hs ts where
    f: "frame = [h0, h1] @ hs @ [frame ! 10, frame ! 11] @ ts @ drop 20 frame" "length hs = 8" "length ts = 8"
    and s: "set_ecn frame e = (let h = [h0, (h1 AND 0xFC) OR (e AND 0x03)] @ hs
        in h @ u16_to_be (checksum (h @ [0, 0] @ ts)) @ ts @ drop 20 frame)" by blast
  define h where "h = [h0, (h1 AND 0xFC) OR (e AND 0x03)] @ hs"
  define c where "c = checksum (h @ [0, 0] @ ts)"
  define g where "g = set_ecn frame e"
  have g: "g = h @ u16_to_be c @ ts @ drop 20 frame" using s by (simp add: g_def h_def c_def Let_def)
  have "even (length h)" and l: "length (h @ u16_to_be c @ ts) = 20" using f by (simp_all add: h_def)
  then have "fold16 (accumulate 0 (h @ u16_to_be c @ ts)) = 0xffff"
    by (intro checksum_field_valid) (simp_all add: c_def checksum_def)
  moreover have "take 20 g = h @ u16_to_be c @ ts" using g l by (metis append_assoc append_eq_conv_conj)
  moreover note fields = set_ecn_fields[of frame e, folded g_def]
  moreover have "g ! 1 = (frame ! 1 AND 0xFC) OR (e AND 0x03)"
    using g f by (simp add: h_def) (metis nth_Cons_0 nth_Cons_Suc append_Cons One_nat_def)
  ultimately show ?thesis
    using r assms unfolding g_def[symmetric]
    by (simp add: ip_checksum_valid_def ip_ecn_def ecn_low ecn_high)
qed

text \<open>
  \<open>set_ecn\<close> on a frame with a 20-byte header leaves a valid header checksum, sets the
  codepoint to the low two bits of its argument, and keeps the DSCP bits, every other field
  and the payload, so a parse of the marked frame differs only in the ECN codepoint.
\<close>

theorem set_ecn_keeps_packet:
  assumes "ip_new_checked frame = Inr frame" and "ip_header_len frame = 20"
  shows "ip_checksum_valid (set_ecn frame e) \<and> ip_ecn (set_ecn frame e) = e AND 0x03
    \<and> ip_new_checked (set_ecn frame e) = Inr (set_ecn frame e)
    \<and> ip_src (set_ecn frame e) = ip_src frame \<and> ip_dst (set_ecn frame e) = ip_dst frame
    \<and> ip_protocol (set_ecn frame e) = ip_protocol frame \<and> ip_ttl (set_ecn frame e) = ip_ttl frame
    \<and> set_ecn frame e ! 1 AND 0xFC = frame ! 1 AND 0xFC
    \<and> ip_payload (set_ecn frame e) = ip_payload frame"
  by (rule set_ecn_packet[OF assms])

theorem set_ecn_keeps_packet_witness:
  "ip_checksum_valid (set_ecn (ip_frame \<lparr>ipr_src = 0x0A000001, ipr_dst = 0x0A000002, ipr_protocol = 6,
       ipr_payload_len = 2, ipr_ttl = 64, ipr_ecn = 2\<rparr> 0 [8, 9]) 3)
   \<and> ip_ecn (set_ecn (ip_frame \<lparr>ipr_src = 0x0A000001, ipr_dst = 0x0A000002, ipr_protocol = 6,
       ipr_payload_len = 2, ipr_ttl = 64, ipr_ecn = 2\<rparr> 0 [8, 9]) 3) = 3"
proof -
  let ?r = "\<lparr>ipr_src = 0x0A000001, ipr_dst = 0x0A000002, ipr_protocol = 6, ipr_payload_len = 2,
      ipr_ttl = 64, ipr_ecn = 2\<rparr>"
  have "ip_new_checked (ip_frame ?r 0 [8, 9]) = Inr (ip_frame ?r 0 [8, 9])"
    by (rule ip_frame_accepted(1))
      (simp_all add: ipr_total_len_def IP_HEADER_LEN_def IPV4_MIN_HEADER_LEN_def)
  from set_ecn_keeps_packet[OF this ip_frame_fields(2), of 3] show ?thesis by simp
qed

end
