(* ===== verification/Icmp_Wire.thy ===== *)
theory Icmp_Wire
  imports Ipv4_Wire
begin

text \<open>
  \<open>wire/icmp.rs\<close>: the ICMP echo responder. The outer \<open>option\<close> is the panic of an
  out-of-range slice, the inner one the \<open>None\<close> that the source returns for a packet
  that is not an echo request or a reply buffer that is too small; with \<open>Some\<close> comes
  the reply's length and the buffer after the writes.
\<close>

definition ICMP_ECHO_REPLY :: u8 where "ICMP_ECHO_REPLY = 0"
definition ICMP_ECHO_REQUEST :: u8 where "ICMP_ECHO_REQUEST = 8"
definition ICMP_ECHO_MIN_LEN :: nat where "ICMP_ECHO_MIN_LEN = 8"

definition echo_reply :: "bytes \<Rightarrow> bytes \<Rightarrow> (nat \<times> bytes) option option" where
  "echo_reply ip out =
     (if ip_protocol ip \<noteq> IPPROTO_ICMP then Some None
      else let request = ip_payload ip
           in if length request < ICMP_ECHO_MIN_LEN \<or> request ! 0 \<noteq> ICMP_ECHO_REQUEST then Some None
              else let icmp_len = length request;
                       total = IP_HEADER_LEN + icmp_len
                   in if length out < total then Some None
                      else do {
                        (_, out) \<leftarrow> ipv4_emit \<lparr>ipr_src = ip_dst ip, ipr_dst = ip_src ip,
                            ipr_protocol = IPPROTO_ICMP, ipr_payload_len = word_of_nat icmp_len,
                            ipr_ttl = 64, ipr_ecn = 0\<rparr> out;
                        body \<leftarrow> sub_slice out IP_HEADER_LEN total;
                        body \<leftarrow> copy_into body 0 [ICMP_ECHO_REPLY];
                        body \<leftarrow> copy_into body 1 [0];
                        body \<leftarrow> copy_into body 2 [0, 0];
                        rest \<leftarrow> sub_slice request 4 icmp_len;
                        body \<leftarrow> copy_into body 4 rest;
                        let csum = checksum body;
                        body \<leftarrow> copy_into body 2 (u16_to_be csum);
                        out \<leftarrow> copy_into out IP_HEADER_LEN body;
                        Some (Some (total, out))
                      })"

lemma echo_body:
  assumes "length body = length request" and "4 \<le> length request"
  shows "do {
      body \<leftarrow> copy_into body 0 [ICMP_ECHO_REPLY];
      body \<leftarrow> copy_into body 1 [0];
      body \<leftarrow> copy_into body 2 [0, 0];
      rest \<leftarrow> sub_slice request 4 (length request);
      body \<leftarrow> copy_into body 4 rest;
      let csum = checksum body;
      body \<leftarrow> copy_into body 2 (u16_to_be csum);
      out \<leftarrow> copy_into out n body;
      Some (Some (t, out))
    } = do {
      out \<leftarrow> copy_into out n ([0, 0] @ u16_to_be (checksum ([0, 0, 0, 0] @ drop 4 request)) @ drop 4 request);
      Some (Some (t, out))
    }"
proof -
  have "4 \<le> length body" using assms by simp
  then obtain b0 b1 b2 b3 tl where b: "body = b0 # b1 # b2 # b3 # tl"
    by (auto simp: numeral_eq_Suc Suc_le_length_iff)
  then have l: "length request = length tl + 4" using assms by simp
  show ?thesis unfolding b l
    by (simp add: copy_into_def sub_slice_def ICMP_ECHO_REPLY_def u16_to_be_def Let_def l)
qed

section \<open>Property of the echo responder\<close>

text \<open>
  \<open>echo_reply\<close> answers every echo request and nothing else. On any packet the IPv4
  check accepted it never panics; if the packet is an ICMP echo request and the reply fits
  the buffer, the reply parses, carries valid IPv4 and ICMP checksums, has source and
  destination swapped, and its body after the type, code and checksum is the request's,
  byte for byte; otherwise nothing is produced.
\<close>

theorem echo_reply_answers_request:
  assumes "ip_new_checked ip = Inr ip"
  shows "if ip_protocol ip = IPPROTO_ICMP \<and> 8 \<le> length (ip_payload ip)
      \<and> ip_payload ip ! 0 = ICMP_ECHO_REQUEST \<and> 20 + length (ip_payload ip) \<le> length out
    then \<exists>out'. echo_reply ip out = Some (Some (20 + length (ip_payload ip), out'))
      \<and> ip_new_checked out' = Inr out' \<and> ip_checksum_valid out'
      \<and> ip_src out' = ip_dst ip \<and> ip_dst out' = ip_src ip \<and> ip_protocol out' = IPPROTO_ICMP
      \<and> length (ip_payload out') = length (ip_payload ip)
      \<and> take 2 (ip_payload out') = [ICMP_ECHO_REPLY, 0]
      \<and> drop 4 (ip_payload out') = drop 4 (ip_payload ip)
      \<and> fold16 (accumulate 0 (ip_payload out')) = 0xffff
    else echo_reply ip out = Some None"
proof (cases "ip_protocol ip = IPPROTO_ICMP \<and> 8 \<le> length (ip_payload ip)
      \<and> ip_payload ip ! 0 = ICMP_ECHO_REQUEST \<and> 20 + length (ip_payload ip) \<le> length out")
  case False
  then show ?thesis
    by (auto simp: echo_reply_def ICMP_ECHO_MIN_LEN_def IP_HEADER_LEN_def IPV4_MIN_HEADER_LEN_def Let_def)
next
  case True
  define req where "req = ip_payload ip"
  define repr where "repr = \<lparr>ipr_src = ip_dst ip, ipr_dst = ip_src ip, ipr_protocol = IPPROTO_ICMP,
      ipr_payload_len = word_of_nat (length req), ipr_ttl = 64, ipr_ecn = 0\<rparr>"
  define body where "body = [0, 0] @ u16_to_be (checksum ([0, 0, 0, 0] @ drop 4 req)) @ drop 4 req"
  have lim: "length req \<le> 65535 - 20"
    using ip_payload_length[OF assms] new_checked_in_range[OF assms] unat_u16_bound[of "ip_total_len ip"]
    unfolding req_def by linarith
  then have pl: "unat (ipr_payload_len repr) = length req"
    unfolding repr_def ipv4_repr.simps unat_word_of_nat_u16 by simp
  have tot: "ipr_total_len repr \<le> 65535"
    using pl lim by (simp add: ipr_total_len_def IP_HEADER_LEN_def IPV4_MIN_HEADER_LEN_def)
  have lb: "length body = length req" using True unfolding body_def req_def by (auto simp: numeral_eq_Suc)
  let ?c = "checksum (ip_head repr @ [0, 0] @ ip_tail repr)"
  have e: "ipv4_emit repr out = Some (20, ip_frame repr ?c (drop 20 out))"
    using ipv4_emit_bytes[of out repr] True by (simp add: ip_frame_def)
  have lf: "length (ip_frame repr ?c (drop 20 out)) = length out"
    using True by (simp add: ip_frame_fields)
  define out' where "out' = ip_frame repr ?c (body @ drop (20 + length req) out)"
  define sl where "sl = take (length req) (drop 20 (ip_frame repr ?c (drop 20 out)))"
  have fits: "20 + length req \<le> length out" using True by (simp add: req_def)
  then have "length req \<le> length out - 20" by simp
  then have sl: "sub_slice (ip_frame repr ?c (drop 20 out)) 20 (20 + length req) = Some sl" "length sl = length req"
    using lf fits by (simp_all add: sub_slice_def sl_def)
  have "copy_into (ip_frame repr ?c (drop 20 out)) 20 body = Some out'"
    using copy_into_next[of "ip_head repr @ u16_to_be ?c @ ip_tail repr" 20 body out] fits lb
    by (simp add: ip_frame_def out'_def)
  moreover have "4 \<le> length req" using True by (simp add: req_def)
  note eb = echo_body[OF sl(2) this, of "ip_frame repr ?c (drop 20 out)" 20 "20 + length req", folded body_def]
  ultimately have r: "echo_reply ip out = Some (Some (20 + length req, out'))"
    using True e sl eb
    by (simp add: echo_reply_def ICMP_ECHO_MIN_LEN_def IP_HEADER_LEN_def IPV4_MIN_HEADER_LEN_def Let_def
        req_def[symmetric] repr_def[symmetric])
  have pay: "ip_payload out' = body" and acc: "ip_new_checked out' = Inr out'"
    using ip_frame_accepted[OF tot, of "body @ drop (20 + length req) out" ?c] pl lb
    by (simp_all add: out'_def)
  have "fold16 (accumulate 0 body) = 0xffff"
    using checksum_field_valid[of "[0, 0]" _ 0 "drop 4 req"] by (simp add: body_def checksum_def)
  then show ?thesis
    using True r pay acc lb ip_frame_checksum[of repr "body @ drop (20 + length req) out"]
    by (simp add: req_def[symmetric] out'_def[symmetric])
      (simp add: out'_def ip_frame_fields repr_def body_def ICMP_ECHO_REPLY_def u16_to_be_def)
qed

lemma echo_reply_total: "ip_new_checked ip = Inr ip \<Longrightarrow> \<exists>reply. echo_reply ip out = Some reply"
  using echo_reply_answers_request[of ip out] by (auto split: if_splits)

theorem echo_reply_answers_request_witness:
  "\<exists>out'. echo_reply (ip_frame \<lparr>ipr_src = 0x0A000001, ipr_dst = 0x0A000002, ipr_protocol = 1,
       ipr_payload_len = 9, ipr_ttl = 64, ipr_ecn = 0\<rparr> 0 [8, 0, 0, 0, 1, 2, 3, 4, 5]) (replicate 64 0)
       = Some (Some (29, out')) \<and> drop 4 (ip_payload out') = [1, 2, 3, 4, 5]"
proof -
  let ?r = "\<lparr>ipr_src = 0x0A000001, ipr_dst = 0x0A000002, ipr_protocol = 1, ipr_payload_len = 9,
      ipr_ttl = 64, ipr_ecn = 0\<rparr>"
  let ?p = "[8, 0, 0, 0, 1, 2, 3, 4, 5] :: u8 list"
  have t: "ipr_total_len ?r \<le> 65535" "unat (ipr_payload_len ?r) \<le> length ?p"
    by (simp_all add: ipr_total_len_def IP_HEADER_LEN_def IPV4_MIN_HEADER_LEN_def)
  have acc: "ip_new_checked (ip_frame ?r 0 ?p) = Inr (ip_frame ?r 0 ?p)" by (rule ip_frame_accepted(1)[OF t])
  have pay: "ip_payload (ip_frame ?r 0 ?p) = ?p" unfolding ip_frame_accepted(2)[OF t] by simp
  from echo_reply_answers_request[OF acc, of "replicate 64 0"] show ?thesis
    unfolding pay by (auto simp: ip_frame_fields IPPROTO_ICMP_def ICMP_ECHO_REQUEST_def)
qed

end
