(* ===== verification/Tcp_Wire.thy ===== *)
theory Tcp_Wire
  imports Seq_Number Ipv4_Wire
begin

text \<open>
  \<open>wire/tcp.rs\<close>: the checked TCP view, the option walker and the segment emitter. As
  for IPv4 the accessors index the buffer and are used only after \<open>new_checked\<close>. A
  \<open>SackBlocks\<close> value (an array of four pairs and a length) is the list of its first
  \<open>len\<close> pairs. The closures passed to \<open>for_each_option\<close> become folds over the
  list of options the walker visits, in order.
\<close>

definition TCP_MIN_HEADER_LEN :: nat where "TCP_MIN_HEADER_LEN = 20"
definition TCP_MAX_HEADER_LEN :: nat where "TCP_MAX_HEADER_LEN = 60"
definition MAX_SACK_BLOCKS :: nat where "MAX_SACK_BLOCKS = 4"

datatype tcp_parse_error = TcpTruncated | BadDataOffset

type_synonym tcp_flags = u8

definition FIN :: u8 where "FIN = 0x01"
definition SYN :: u8 where "SYN = 0x02"
definition RST :: u8 where "RST = 0x04"
definition PSH :: u8 where "PSH = 0x08"
definition ACK :: u8 where "ACK = 0x10"
definition URG :: u8 where "URG = 0x20"
definition ECE :: u8 where "ECE = 0x40"
definition CWR :: u8 where "CWR = 0x80"

definition flag_has :: "tcp_flags \<Rightarrow> u8 \<Rightarrow> bool" where
  "flag_has self b \<longleftrightarrow> self AND b \<noteq> 0"

definition flag_with :: "tcp_flags \<Rightarrow> u8 \<Rightarrow> tcp_flags" where
  "flag_with self b = self OR b"

section \<open>The packet view\<close>

definition data_offset :: "bytes \<Rightarrow> nat" where
  "data_offset buf = unat (drop_bit 4 (buf ! 12)) * 4"

definition tcp_new_checked :: "bytes \<Rightarrow> tcp_parse_error + bytes" where
  "tcp_new_checked buf =
     (if length buf < TCP_MIN_HEADER_LEN then Inl TcpTruncated
      else let data_off = data_offset buf
           in if \<not> (TCP_MIN_HEADER_LEN \<le> data_off \<and> data_off \<le> TCP_MAX_HEADER_LEN) then Inl BadDataOffset
              else if length buf < data_off then Inl TcpTruncated
              else Inr buf)"

definition tcp_src_port :: "bytes \<Rightarrow> u16" where
  "tcp_src_port buf = u16_from_be (buf ! 0) (buf ! 1)"

definition tcp_dst_port :: "bytes \<Rightarrow> u16" where
  "tcp_dst_port buf = u16_from_be (buf ! 2) (buf ! 3)"

definition tcp_seq :: "bytes \<Rightarrow> seqnum" where
  "tcp_seq buf = u32_from_be (buf ! 4) (buf ! 5) (buf ! 6) (buf ! 7)"

definition tcp_ack :: "bytes \<Rightarrow> seqnum" where
  "tcp_ack buf = u32_from_be (buf ! 8) (buf ! 9) (buf ! 10) (buf ! 11)"

definition tcp_flags_of :: "bytes \<Rightarrow> tcp_flags" where
  "tcp_flags_of buf = buf ! 13"

definition tcp_ae :: "bytes \<Rightarrow> bool" where
  "tcp_ae buf \<longleftrightarrow> buf ! 12 AND 0x01 \<noteq> 0"

definition tcp_window :: "bytes \<Rightarrow> u16" where
  "tcp_window buf = u16_from_be (buf ! 14) (buf ! 15)"

definition tcp_checksum_field :: "bytes \<Rightarrow> u16" where
  "tcp_checksum_field buf = u16_from_be (buf ! 16) (buf ! 17)"

definition tcp_options :: "bytes \<Rightarrow> bytes" where
  "tcp_options buf = take (data_offset buf - TCP_MIN_HEADER_LEN) (drop TCP_MIN_HEADER_LEN buf)"

definition tcp_payload :: "bytes \<Rightarrow> bytes" where
  "tcp_payload buf = drop (data_offset buf) buf"

text \<open>\<open>for_each_option\<close>: the \<open>(kind, value)\<close> pairs its closure is called with.\<close>

function walk_options :: "bytes \<Rightarrow> nat \<Rightarrow> (u8 \<times> bytes) list" where
  "walk_options opts i =
     (if i < length opts
      then (if opts ! i = 0 then []
            else if opts ! i = 1 then walk_options opts (i + 1)
            else if i + 1 \<ge> length opts then []
            else let len = unat (opts ! (i + 1))
                 in if len < 2 \<or> i + len > length opts then []
                    else (opts ! i, take (len - 2) (drop (i + 2) opts)) # walk_options opts (i + len))
      else [])"
  by pat_completeness auto
termination by (relation "measure (\<lambda>(opts, i). length opts - i)") auto

declare walk_options.simps [simp del]

definition for_each_option :: "bytes \<Rightarrow> (u8 \<times> bytes) list" where
  "for_each_option buf = walk_options (tcp_options buf) 0"

definition mss_step :: "u16 option \<Rightarrow> u8 \<times> bytes \<Rightarrow> u16 option" where
  "mss_step mss kv =
     (case kv of (kind, v) \<Rightarrow>
        if kind = 2 \<and> length v = 2 \<and> mss = None then Some (u16_from_be (v ! 0) (v ! 1)) else mss)"

definition mss_option :: "bytes \<Rightarrow> u16 option" where
  "mss_option buf = foldl mss_step None (for_each_option buf)"

definition ts_step :: "(u32 \<times> u32) option \<Rightarrow> u8 \<times> bytes \<Rightarrow> (u32 \<times> u32) option" where
  "ts_step ts kv =
     (case kv of (kind, v) \<Rightarrow>
        if kind = 8 \<and> length v = 8 \<and> ts = None
        then Some (u32_from_be (v ! 0) (v ! 1) (v ! 2) (v ! 3), u32_from_be (v ! 4) (v ! 5) (v ! 6) (v ! 7))
        else ts)"

definition timestamps :: "bytes \<Rightarrow> (u32 \<times> u32) option" where
  "timestamps buf = foldl ts_step None (for_each_option buf)"

definition wscale_step :: "u8 option \<Rightarrow> u8 \<times> bytes \<Rightarrow> u8 option" where
  "wscale_step scale kv =
     (case kv of (kind, v) \<Rightarrow>
        if kind = 3 \<and> length v = 1 \<and> scale = None then Some (min (v ! 0) 14) else scale)"

definition window_scale :: "bytes \<Rightarrow> u8 option" where
  "window_scale buf = foldl wscale_step None (for_each_option buf)"

definition sack_permitted :: "bytes \<Rightarrow> bool" where
  "sack_permitted buf =
     foldl (\<lambda>permitted (kind, v). if kind = 4 \<and> v = [] then True else permitted) False (for_each_option buf)"

fun read_blocks :: "bytes \<Rightarrow> (seqnum \<times> seqnum) list \<Rightarrow> (seqnum \<times> seqnum) list" where
  "read_blocks (a0 # a1 # a2 # a3 # b0 # b1 # b2 # b3 # v) out =
     (if length out < MAX_SACK_BLOCKS
      then read_blocks v (out @ [(u32_from_be a0 a1 a2 a3, u32_from_be b0 b1 b2 b3)]) else out)"
| "read_blocks v out = out"

definition sack_blocks :: "bytes \<Rightarrow> (seqnum \<times> seqnum) list" where
  "sack_blocks buf =
     foldl (\<lambda>out (kind, v). if kind \<noteq> 5 then out else read_blocks v out) [] (for_each_option buf)"

section \<open>The emitter\<close>

type_synonym sack_list = "(seqnum \<times> seqnum) list"

definition sack_push :: "sack_list \<Rightarrow> seqnum \<Rightarrow> seqnum \<Rightarrow> sack_list" where
  "sack_push self l r = (if length self < MAX_SACK_BLOCKS then self @ [(l, r)] else self)"

record tcp_repr =
  tr_src_port :: u16
  tr_dst_port :: u16
  tr_seq :: seqnum
  tr_ack :: seqnum
  tr_flags :: tcp_flags
  tr_window :: u16
  tr_mss :: "u16 option"
  tr_sack_permitted :: bool
  tr_sack :: sack_list
  tr_window_scale :: "u8 option"
  tr_timestamps :: "(u32 \<times> u32) option"
  tr_ae :: bool

definition sack_blocks_to_emit :: "tcp_repr \<Rightarrow> nat" where
  "sack_blocks_to_emit self =
     (let cap = (if tr_timestamps self \<noteq> None then 3 else MAX_SACK_BLOCKS)
      in min (length (tr_sack self)) cap)"

definition tr_header_len :: "tcp_repr \<Rightarrow> nat" where
  "tr_header_len self =
     (let opt = 0;
          opt = (if tr_mss self \<noteq> None then opt + 4 else opt);
          opt = (if tr_sack_permitted self then opt + 4 else opt);
          opt = (if tr_window_scale self \<noteq> None then opt + 4 else opt);
          opt = (if tr_timestamps self \<noteq> None then opt + 12 else opt);
          n = sack_blocks_to_emit self;
          opt = (if n > 0 then opt + (4 + 8 * n) else opt)
      in TCP_MIN_HEADER_LEN + opt)"

definition emit_mss :: "u16 option \<Rightarrow> bytes \<times> nat \<Rightarrow> (bytes \<times> nat) option" where
  "emit_mss m s =
     (case (m, s) of
        (None, _) \<Rightarrow> Some s
      | (Some mss, buf, i) \<Rightarrow> do {
          buf \<leftarrow> copy_into buf i [2];
          buf \<leftarrow> copy_into buf (i + 1) [4];
          buf \<leftarrow> copy_into buf (i + 2) (u16_to_be mss);
          Some (buf, i + 4)
        })"

definition emit_sack_permitted :: "bool \<Rightarrow> bytes \<times> nat \<Rightarrow> (bytes \<times> nat) option" where
  "emit_sack_permitted p s =
     (case (p, s) of
        (False, _) \<Rightarrow> Some s
      | (True, buf, i) \<Rightarrow> do {
          buf \<leftarrow> copy_into buf i [1];
          buf \<leftarrow> copy_into buf (i + 1) [1];
          buf \<leftarrow> copy_into buf (i + 2) [4];
          buf \<leftarrow> copy_into buf (i + 3) [2];
          Some (buf, i + 4)
        })"

definition emit_window_scale :: "u8 option \<Rightarrow> bytes \<times> nat \<Rightarrow> (bytes \<times> nat) option" where
  "emit_window_scale w s =
     (case (w, s) of
        (None, _) \<Rightarrow> Some s
      | (Some shift, buf, i) \<Rightarrow> do {
          buf \<leftarrow> copy_into buf i [1];
          buf \<leftarrow> copy_into buf (i + 1) [3];
          buf \<leftarrow> copy_into buf (i + 2) [3];
          buf \<leftarrow> copy_into buf (i + 3) [shift];
          Some (buf, i + 4)
        })"

definition emit_timestamps :: "(u32 \<times> u32) option \<Rightarrow> bytes \<times> nat \<Rightarrow> (bytes \<times> nat) option" where
  "emit_timestamps t s =
     (case (t, s) of
        (None, _) \<Rightarrow> Some s
      | (Some (tsval, tsecr), buf, i) \<Rightarrow> do {
          buf \<leftarrow> copy_into buf i [1];
          buf \<leftarrow> copy_into buf (i + 1) [1];
          buf \<leftarrow> copy_into buf (i + 2) [8];
          buf \<leftarrow> copy_into buf (i + 3) [10];
          buf \<leftarrow> copy_into buf (i + 4) (u32_to_be tsval);
          buf \<leftarrow> copy_into buf (i + 8) (u32_to_be tsecr);
          Some (buf, i + 12)
        })"

fun emit_blocks :: "sack_list \<Rightarrow> bytes \<times> nat \<Rightarrow> (bytes \<times> nat) option" where
  "emit_blocks [] s = Some s"
| "emit_blocks ((l, r) # bs) (buf, i) = do {
     buf \<leftarrow> copy_into buf i (u32_to_be l);
     buf \<leftarrow> copy_into buf (i + 4) (u32_to_be r);
     emit_blocks bs (buf, i + 8)
   }"

definition emit_sack :: "sack_list \<Rightarrow> bytes \<times> nat \<Rightarrow> (bytes \<times> nat) option" where
  "emit_sack bs s =
     (if length bs > 0
      then (case s of (buf, i) \<Rightarrow> do {
          buf \<leftarrow> copy_into buf i [1];
          buf \<leftarrow> copy_into buf (i + 1) [1];
          buf \<leftarrow> copy_into buf (i + 2) [5];
          buf \<leftarrow> copy_into buf (i + 3) [word_of_nat (2 + 8 * length bs)];
          emit_blocks bs (buf, i + 4)
        })
      else Some s)"

definition emit_options :: "tcp_repr \<Rightarrow> bytes \<times> nat \<Rightarrow> (bytes \<times> nat) option" where
  "emit_options self s = do {
     s \<leftarrow> emit_mss (tr_mss self) s;
     s \<leftarrow> emit_sack_permitted (tr_sack_permitted self) s;
     s \<leftarrow> emit_window_scale (tr_window_scale self) s;
     s \<leftarrow> emit_timestamps (tr_timestamps self) s;
     emit_sack (take (sack_blocks_to_emit self) (tr_sack self)) s
   }"

definition tcp_emit :: "tcp_repr \<Rightarrow> ipv4_addr \<Rightarrow> ipv4_addr \<Rightarrow> bytes \<Rightarrow> bytes \<Rightarrow> (nat \<times> bytes) option" where
  "tcp_emit self src dst payload buf = do {
     let hlen = tr_header_len self;
     let total = hlen + length payload;
     buf \<leftarrow> copy_into buf 0 (u16_to_be (tr_src_port self));
     buf \<leftarrow> copy_into buf 2 (u16_to_be (tr_dst_port self));
     buf \<leftarrow> copy_into buf 4 (u32_to_be (tr_seq self));
     buf \<leftarrow> copy_into buf 8 (u32_to_be (tr_ack self));
     buf \<leftarrow> copy_into buf 12 [push_bit 4 (word_of_nat (hlen div 4)) OR (if tr_ae self then 1 else 0)];
     buf \<leftarrow> copy_into buf 13 [tr_flags self];
     buf \<leftarrow> copy_into buf 14 (u16_to_be (tr_window self));
     buf \<leftarrow> copy_into buf 16 [0, 0];
     buf \<leftarrow> copy_into buf 18 [0, 0];
     (buf, _) \<leftarrow> emit_options self (buf, TCP_MIN_HEADER_LEN);
     buf \<leftarrow> copy_into buf hlen payload;
     seg \<leftarrow> sub_slice buf 0 total;
     let csum = tcp_checksum src dst seg;
     buf \<leftarrow> copy_into buf 16 (u16_to_be csum);
     Some (total, buf)
   }"

section \<open>The bytes the emitter lays down\<close>

definition mss_bytes :: "u16 option \<Rightarrow> bytes" where
  "mss_bytes m = (case m of None \<Rightarrow> [] | Some x \<Rightarrow> [2, 4] @ u16_to_be x)"

definition sack_permitted_bytes :: "bool \<Rightarrow> bytes" where
  "sack_permitted_bytes p = (if p then [1, 1, 4, 2] else [])"

definition window_scale_bytes :: "u8 option \<Rightarrow> bytes" where
  "window_scale_bytes w = (case w of None \<Rightarrow> [] | Some shift \<Rightarrow> [1, 3, 3, shift])"

definition timestamps_bytes :: "(u32 \<times> u32) option \<Rightarrow> bytes" where
  "timestamps_bytes t = (case t of None \<Rightarrow> [] | Some (v, e) \<Rightarrow> [1, 1, 8, 10] @ u32_to_be v @ u32_to_be e)"

definition block_bytes :: "sack_list \<Rightarrow> bytes" where
  "block_bytes bs = concat (map (\<lambda>(l, r). u32_to_be l @ u32_to_be r) bs)"

definition sack_bytes :: "sack_list \<Rightarrow> bytes" where
  "sack_bytes bs = (if bs = [] then [] else [1, 1, 5, word_of_nat (2 + 8 * length bs)] @ block_bytes bs)"

definition option_bytes :: "tcp_repr \<Rightarrow> bytes" where
  "option_bytes self = mss_bytes (tr_mss self) @ sack_permitted_bytes (tr_sack_permitted self)
     @ window_scale_bytes (tr_window_scale self) @ timestamps_bytes (tr_timestamps self)
     @ sack_bytes (take (sack_blocks_to_emit self) (tr_sack self))"

lemma length_block_bytes [simp]: "length (block_bytes bs) = 8 * length bs"
  by (induction bs) (auto simp: block_bytes_def)

lemma length_option_bytes: "tr_header_len self = 20 + length (option_bytes self)"
  by (auto simp: tr_header_len_def option_bytes_def mss_bytes_def sack_permitted_bytes_def
      window_scale_bytes_def timestamps_bytes_def sack_bytes_def TCP_MIN_HEADER_LEN_def
      sack_blocks_to_emit_def MAX_SACK_BLOCKS_def Let_def min_def split: option.splits if_splits)

text \<open>An option writer appends its bytes to the prefix written so far.\<close>

definition appends :: "(bytes \<times> nat \<Rightarrow> (bytes \<times> nat) option) \<Rightarrow> bytes \<Rightarrow> bool" where
  "appends f bs \<longleftrightarrow> (\<forall>w buf. length (w @ bs) \<le> length buf \<longrightarrow>
     f (w @ drop (length w) buf, length w) = Some ((w @ bs) @ drop (length (w @ bs)) buf, length (w @ bs)))"

lemma appendsI:
  assumes "\<And>w buf. length (w @ bs) \<le> length buf \<Longrightarrow>
     f (w @ drop (length w) buf, length w) = Some ((w @ bs) @ drop (length (w @ bs)) buf, length (w @ bs))"
  shows "appends f bs"
  using assms unfolding appends_def by blast

lemma appendsD:
  "appends f bs \<Longrightarrow> length (w @ bs) \<le> length buf \<Longrightarrow>
   f (w @ drop (length w) buf, length w) = Some ((w @ bs) @ drop (length (w @ bs)) buf, length (w @ bs))"
  unfolding appends_def by blast

lemma appends_Some: "appends Some []"
  by (simp add: appends_def)

lemma appends_bind:
  assumes "appends f bs" and "appends g cs"
  shows "appends (\<lambda>s. f s \<bind> g) (bs @ cs)"
proof (rule appendsI)
  fix w buf :: bytes
  assume l: "length (w @ bs @ cs) \<le> length buf"
  then have "f (w @ drop (length w) buf, length w) = Some ((w @ bs) @ drop (length (w @ bs)) buf, length (w @ bs))"
    by (intro appendsD[OF assms(1)]) simp
  moreover have "g ((w @ bs) @ drop (length (w @ bs)) buf, length (w @ bs))
      = Some (((w @ bs) @ cs) @ drop (length ((w @ bs) @ cs)) buf, length ((w @ bs) @ cs))"
    using l by (intro appendsD[OF assms(2)]) simp
  ultimately show "f (w @ drop (length w) buf, length w) \<bind> g
      = Some ((w @ bs @ cs) @ drop (length (w @ bs @ cs)) buf, length (w @ bs @ cs))"
    by simp
qed

lemma copy_into_append:
  "length (w @ ys) \<le> length buf \<Longrightarrow> n = length w \<Longrightarrow>
   copy_into (w @ drop (length w) buf) n ys = Some ((w @ ys) @ drop (length (w @ ys)) buf)"
  using copy_into_next[of w "length w" ys buf] by simp

text \<open>Consecutive single writes, as the options are laid down.\<close>

lemma copy_then:
  assumes "length (w @ ys) \<le> length buf" and "n = length w"
    and "f ((w @ ys) @ drop (length (w @ ys)) buf) = Some r"
  shows "(copy_into (w @ drop (length w) buf) n ys \<bind> f) = Some r"
  using copy_into_append[OF assms(1,2)] assms(3) by simp

lemma appends_mss: "appends (emit_mss m) (mss_bytes m)"
proof (cases m)
  case (Some x)
  show ?thesis unfolding Some
    by (rule appendsI, simp only: emit_mss_def mss_bytes_def option.case prod.case)
      ((rule copy_then, simp, simp)+, simp)
qed (simp add: emit_mss_def[abs_def] mss_bytes_def appends_Some)

lemma appends_sack_permitted: "appends (emit_sack_permitted p) (sack_permitted_bytes p)"
proof (cases p)
  case True
  show ?thesis
    by (rule appendsI, simp only: True emit_sack_permitted_def sack_permitted_bytes_def prod.case bool.case if_True)
      ((rule copy_then, simp, simp)+, simp)
qed (simp add: emit_sack_permitted_def[abs_def] sack_permitted_bytes_def appends_Some)

lemma appends_window_scale: "appends (emit_window_scale p) (window_scale_bytes p)"
proof (cases p)
  case (Some x)
  show ?thesis unfolding Some
    by (rule appendsI, simp only: emit_window_scale_def window_scale_bytes_def option.case prod.case)
      ((rule copy_then, simp, simp)+, simp)
qed (simp add: emit_window_scale_def[abs_def] window_scale_bytes_def appends_Some)

lemma appends_timestamps: "appends (emit_timestamps p) (timestamps_bytes p)"
proof (cases p)
  case (Some x)
  obtain v e where x: "x = (v, e)" by fastforce
  show ?thesis unfolding Some x
    by (rule appendsI, simp only: emit_timestamps_def timestamps_bytes_def option.case prod.case)
      ((rule copy_then, simp, simp)+, simp)
qed (simp add: emit_timestamps_def[abs_def] timestamps_bytes_def appends_Some)

lemma appends_blocks: "appends (emit_blocks bs) (block_bytes bs)"
proof (induction bs)
  case Nil
  show ?case by (simp add: appends_def block_bytes_def)
next
  case (Cons x bs)
  obtain l r where x: "x = (l, r)" by fastforce
  have b: "block_bytes (x # bs) = u32_to_be l @ u32_to_be r @ block_bytes bs"
    by (simp add: block_bytes_def x)
  show ?case
  proof (rule appendsI)
    fix w buf :: bytes
    assume l: "length (w @ block_bytes (x # bs)) \<le> length buf"
    have "emit_blocks bs (((w @ u32_to_be l) @ u32_to_be r) @ drop (length ((w @ u32_to_be l) @ u32_to_be r)) buf,
        length ((w @ u32_to_be l) @ u32_to_be r))
      = Some ((((w @ u32_to_be l) @ u32_to_be r) @ block_bytes bs)
          @ drop (length (((w @ u32_to_be l) @ u32_to_be r) @ block_bytes bs)) buf,
          length (((w @ u32_to_be l) @ u32_to_be r) @ block_bytes bs))"
      using l b by (intro appendsD[OF Cons.IH]) simp
    then show "emit_blocks (x # bs) (w @ drop (length w) buf, length w)
      = Some ((w @ block_bytes (x # bs)) @ drop (length (w @ block_bytes (x # bs))) buf,
          length (w @ block_bytes (x # bs)))"
      unfolding x emit_blocks.simps
      by (intro copy_then) (use l b x in \<open>simp_all add: add.commute\<close>)
  qed
qed

lemma appends_sack: "appends (emit_sack bs) (sack_bytes bs)"
proof (cases "bs = []")
  case False
  show ?thesis
  proof (rule appendsI)
    fix w buf :: bytes
    let ?h = "[1, 1, 5, word_of_nat (2 + 8 * length bs)]"
    have four: "length w + 4 = Suc (Suc (Suc (Suc (length w))))" by simp
    assume l: "length (w @ sack_bytes bs) \<le> length buf"
    have "emit_blocks bs ((w @ ?h) @ drop (length (w @ ?h)) buf, length (w @ ?h))
      = Some (((w @ ?h) @ block_bytes bs) @ drop (length ((w @ ?h) @ block_bytes bs)) buf,
          length ((w @ ?h) @ block_bytes bs))"
      using l False by (intro appendsD[OF appends_blocks]) (simp add: sack_bytes_def)
    then show "emit_sack bs (w @ drop (length w) buf, length w)
      = Some ((w @ sack_bytes bs) @ drop (length (w @ sack_bytes bs)) buf, length (w @ sack_bytes bs))"
      unfolding emit_sack_def prod.case using False
      by (simp only: length_greater_0_conv simp_thms if_True)
        ((rule copy_then, use l False in \<open>simp add: sack_bytes_def\<close>, simp)+,
          simp add: sack_bytes_def False four)
  qed
qed (simp add: emit_sack_def[abs_def] sack_bytes_def appends_Some)

lemma appends_options: "appends (emit_options self) (option_bytes self)"
  unfolding option_bytes_def emit_options_def
  by (intro appends_bind appends_mss appends_sack_permitted appends_window_scale appends_timestamps appends_sack)

text \<open>The fixed header up to the checksum field.\<close>

definition tcp_head :: "tcp_repr \<Rightarrow> bytes" where
  "tcp_head self = u16_to_be (tr_src_port self) @ u16_to_be (tr_dst_port self) @ u32_to_be (tr_seq self)
     @ u32_to_be (tr_ack self)
     @ [push_bit 4 (word_of_nat (tr_header_len self div 4)) OR (if tr_ae self then 1 else 0), tr_flags self]
     @ u16_to_be (tr_window self)"

definition tcp_segment :: "tcp_repr \<Rightarrow> u16 \<Rightarrow> bytes \<Rightarrow> bytes" where
  "tcp_segment self c payload = tcp_head self @ u16_to_be c @ [0, 0] @ option_bytes self @ payload"

lemma length_tcp_head [simp]: "length (tcp_head self) = 16"
  by (simp add: tcp_head_def)

lemma length_tcp_segment [simp]: "length (tcp_segment self c payload) = tr_header_len self + length payload"
  by (simp add: tcp_segment_def length_option_bytes)

lemma tcp_emit_bytes:
  assumes "tr_header_len self + length payload \<le> length buf"
  shows "tcp_emit self src dst payload buf = Some (tr_header_len self + length payload,
    tcp_segment self (tcp_checksum src dst (tcp_head self @ [0, 0] @ [0, 0] @ option_bytes self @ payload)) payload
      @ drop (tr_header_len self + length payload) buf)"
proof -
  define h where "h = (tcp_head self @ [0, 0]) @ [0, 0]"
  define w where "w = h @ option_bytes self"
  define t where "t = tr_header_len self + length payload"
  let ?c = "tcp_checksum src dst (w @ payload)"
  let ?r = "Some (t, tcp_segment self ?c payload @ drop t buf)"
  have lh: "length h = 20" by (simp add: h_def)
  have lw: "length w = tr_header_len self" by (simp add: w_def lh length_option_bytes)
  have fits: "length (w @ payload) \<le> length buf" "length w \<le> length buf" using assms lw by simp_all
  have "copy_into ((w @ payload) @ drop (length (w @ payload)) buf) 16 (u16_to_be ?c)
      = Some (tcp_segment self ?c payload @ drop t buf)"
    using copy_into_field[of "tcp_head self" 16 "u16_to_be ?c" "[0, 0]" "[0, 0] @ option_bytes self @ payload @ drop t buf"]
    by (simp add: w_def h_def tcp_segment_def t_def lw length_option_bytes add.assoc)
  moreover have "sub_slice ((w @ payload) @ drop (length (w @ payload)) buf) 0 t = Some (w @ payload)"
    using fits lw by (simp add: sub_slice_def t_def)
  moreover have "copy_into (w @ drop (length w) buf) (tr_header_len self) payload
      = Some ((w @ payload) @ drop (length (w @ payload)) buf)"
    using copy_into_append[OF fits(1)] lw by simp
  moreover have "emit_options self (h @ drop (length h) buf, TCP_MIN_HEADER_LEN)
      = Some (w @ drop (length w) buf, length w)"
    using appendsD[OF appends_options, of h self buf] fits(2) lh by (simp only: w_def TCP_MIN_HEADER_LEN_def)
  ultimately have opts: "do {
      (buf, _) \<leftarrow> emit_options self (h @ drop (length h) buf, TCP_MIN_HEADER_LEN);
      buf \<leftarrow> copy_into buf (tr_header_len self) payload;
      seg \<leftarrow> sub_slice buf 0 t;
      buf \<leftarrow> copy_into buf 16 (u16_to_be (tcp_checksum src dst seg));
      Some (t, buf) } = ?r"
    by (simp only: bind.bind_lunit prod.case)
  have b20: "20 \<le> length buf" using fits(2) lw length_option_bytes by simp
  have "tcp_emit self src dst payload ([] @ drop (length ([] :: bytes)) buf) = ?r"
    unfolding tcp_emit_def Let_def t_def[symmetric]
    by ((rule copy_then, use b20 in simp, simp)+)
      (use opts in \<open>simp only: h_def tcp_head_def append_assoc append.simps\<close>)
  then show ?thesis by (simp add: t_def w_def h_def)
qed

section \<open>Reading the options back\<close>

text \<open>The option walk as a recursion on the remaining bytes, equal to the indexed loop.\<close>

function walk_suffix :: "bytes \<Rightarrow> (u8 \<times> bytes) list" where
  "walk_suffix [] = []"
| "walk_suffix (k # r) =
     (if k = 0 then []
      else if k = 1 then walk_suffix r
      else (case r of [] \<Rightarrow> []
            | l # v \<Rightarrow> if unat l < 2 \<or> length v < unat l - 2 then []
                else (k, take (unat l - 2) v) # walk_suffix (drop (unat l - 2) v)))"
  by pat_completeness auto
termination by (relation "measure length") auto

lemma walk_options_suffix: "walk_options opts i = walk_suffix (drop i opts)"
proof (induction opts i rule: walk_options.induct)
  case (1 opts i)
  show ?case
  proof (cases "i < length opts")
    case False
    then show ?thesis by (simp add: walk_options.simps)
  next
    case True
    then have d: "drop i opts = opts ! i # drop (Suc i) opts" by (simp add: Cons_nth_drop_Suc)
    show ?thesis
    proof (cases "opts ! i = 0 \<or> opts ! i = 1")
      case True
      then show ?thesis using 1(1) d \<open>i < length opts\<close> by (subst walk_options.simps) auto
    next
      case False
      show ?thesis
      proof (cases "i + 1 < length opts")
        case True
        then have d2: "drop (Suc i) opts = opts ! (i + 1) # drop (i + 2) opts"
          using Cons_nth_drop_Suc[of "Suc i" opts] by simp
        let ?l = "unat (opts ! (i + 1))"
        have c: "(?l < 2 \<or> i + ?l > length opts) = (?l < 2 \<or> length (drop (i + 2) opts) < ?l - 2)"
          using True by auto
        have "walk_options opts (i + ?l) = walk_suffix (drop (?l - 2) (drop (i + 2) opts))"
          if a: "\<not> (?l < 2 \<or> i + ?l > length opts)"
        proof -
          have dd: "drop (?l - 2) (drop (i + 2) opts) = drop (i + ?l) opts"
            unfolding drop_drop using a by (intro arg_cong[of _ _ "\<lambda>n. drop n opts"]) linarith
          show ?thesis unfolding dd
            by (rule 1(2)[OF \<open>i < length opts\<close> _ _ _ refl a]) (use False True in auto)
        qed
        then show ?thesis using False True \<open>i < length opts\<close> c unfolding d d2
          by (subst walk_options.simps) (auto simp: Let_def)
      next
        case no: False
        then have "drop (Suc i) opts = []" by simp
        then show ?thesis using False no \<open>i < length opts\<close> unfolding d by (subst walk_options.simps) simp
      qed
    qed
  qed
qed

lemma walk_mss: "walk_suffix (mss_bytes m @ r) = (case m of None \<Rightarrow> [] | Some x \<Rightarrow> [(2, u16_to_be x)]) @ walk_suffix r"
  by (auto simp: mss_bytes_def u16_to_be_def split: option.splits)

lemma walk_sack_permitted: "walk_suffix (sack_permitted_bytes p @ r) = (if p then [(4, [])] else []) @ walk_suffix r"
  by (auto simp: sack_permitted_bytes_def)

lemma walk_window_scale:
  "walk_suffix (window_scale_bytes w @ r) = (case w of None \<Rightarrow> [] | Some s \<Rightarrow> [(3, [s])]) @ walk_suffix r"
  by (auto simp: window_scale_bytes_def split: option.splits)

lemma walk_timestamps:
  "walk_suffix (timestamps_bytes t @ r) =
     (case t of None \<Rightarrow> [] | Some (v, e) \<Rightarrow> [(8, u32_to_be v @ u32_to_be e)]) @ walk_suffix r"
  by (auto simp: timestamps_bytes_def u32_to_be_def split: option.splits)

lemma walk_sack:
  assumes "length bs \<le> 4"
  shows "walk_suffix (sack_bytes bs) = (if bs = [] then [] else [(5, block_bytes bs)])"
proof -
  have "unat (word_of_nat (2 + 8 * length bs) :: u8) = 2 + 8 * length bs"
    unfolding unat_word_of_nat_u8 using assms by simp
  then show ?thesis by (simp add: sack_bytes_def del: of_nat_add of_nat_mult of_nat_numeral)
qed

definition option_list :: "tcp_repr \<Rightarrow> (u8 \<times> bytes) list" where
  "option_list self =
     (case tr_mss self of None \<Rightarrow> [] | Some x \<Rightarrow> [(2, u16_to_be x)])
     @ (if tr_sack_permitted self then [(4, [])] else [])
     @ (case tr_window_scale self of None \<Rightarrow> [] | Some s \<Rightarrow> [(3, [s])])
     @ (case tr_timestamps self of None \<Rightarrow> [] | Some (v, e) \<Rightarrow> [(8, u32_to_be v @ u32_to_be e)])
     @ (let bs = take (sack_blocks_to_emit self) (tr_sack self) in if bs = [] then [] else [(5, block_bytes bs)])"

lemma walk_option_bytes: "walk_options (option_bytes self) 0 = option_list self"
proof -
  have "length (take (sack_blocks_to_emit self) (tr_sack self)) \<le> 4"
    by (simp add: sack_blocks_to_emit_def MAX_SACK_BLOCKS_def min_def)
  then show ?thesis
    by (simp add: walk_options_suffix option_bytes_def walk_mss walk_sack_permitted walk_window_scale
        walk_timestamps walk_sack option_list_def Let_def)
qed

lemma nibble:
  assumes "d < 16"
  shows "unat (drop_bit 4 (push_bit 4 (word_of_nat d :: u8) OR (if b then 1 else 0))) = d"
    and "((push_bit 4 (word_of_nat d :: u8) OR (if b then 1 else 0)) AND 1 \<noteq> 0) = b"
proof -
  have "d \<in> {0, 1, 2, 3, 4, 5, 6, 7, 8, 9, 10, 11, 12, 13, 14, 15}"
    using assms by (simp add: numeral_eq_Suc less_Suc_eq)
  then show "unat (drop_bit 4 (push_bit 4 (word_of_nat d :: u8) OR (if b then 1 else 0))) = d"
    and "((push_bit 4 (word_of_nat d :: u8) OR (if b then 1 else 0)) AND 1 \<noteq> 0) = b"
    by (cases b; auto)+
qed

lemmas tcp_segment_explicit = tcp_segment_def tcp_head_def u16_to_be_def u32_to_be_def

lemma tcp_segment_fields:
  shows "tcp_src_port (tcp_segment self c p) = tr_src_port self"
    and "tcp_dst_port (tcp_segment self c p) = tr_dst_port self"
    and "tcp_seq (tcp_segment self c p) = tr_seq self" and "tcp_ack (tcp_segment self c p) = tr_ack self"
    and "tcp_flags_of (tcp_segment self c p) = tr_flags self"
    and "tcp_window (tcp_segment self c p) = tr_window self"
    and "tcp_checksum_field (tcp_segment self c p) = c"
  by (simp_all add: tcp_segment_explicit tcp_src_port_def tcp_dst_port_def tcp_seq_def tcp_ack_def
      tcp_flags_of_def tcp_window_def tcp_checksum_field_def del: of_nat_unat)

lemma header_len_multiple: "tr_header_len self mod 4 = 0"
  by (auto simp: tr_header_len_def TCP_MIN_HEADER_LEN_def Let_def)

lemma tcp_segment_header:
  assumes "tr_header_len self \<le> 60"
  shows "data_offset (tcp_segment self c p) = tr_header_len self" and "tcp_ae (tcp_segment self c p) = tr_ae self"
proof -
  have d: "tr_header_len self div 4 < 16" using assms by simp
  have b: "tcp_segment self c p ! 12
      = push_bit 4 (word_of_nat (tr_header_len self div 4)) OR (if tr_ae self then 1 else 0)"
    by (simp add: tcp_segment_explicit del: of_nat_unat)
  show "data_offset (tcp_segment self c p) = tr_header_len self"
    unfolding data_offset_def b nibble(1)[OF d] using header_len_multiple[of self] by auto
  show "tcp_ae (tcp_segment self c p) = tr_ae self"
    unfolding tcp_ae_def b nibble(2)[OF d] ..
qed

lemma tcp_segment_options:
  assumes "tr_header_len self \<le> 60"
  shows "for_each_option (tcp_segment self c p) = option_list self" and "tcp_payload (tcp_segment self c p) = p"
proof -
  have d: "tcp_segment self c p = (tcp_head self @ u16_to_be c @ [0, 0]) @ option_bytes self @ p"
    by (simp add: tcp_segment_def)
  have l: "length (tcp_head self @ u16_to_be c @ [0, 0]) = 20" by simp
  have "drop 20 (tcp_segment self c p) = option_bytes self @ p"
    unfolding d using append_eq_conv_conj l by metis
  then have "tcp_options (tcp_segment self c p) = option_bytes self"
    by (simp add: tcp_options_def tcp_segment_header[OF assms] TCP_MIN_HEADER_LEN_def length_option_bytes)
  then show "for_each_option (tcp_segment self c p) = option_list self"
    by (simp add: for_each_option_def walk_option_bytes)
  have "tcp_segment self c p = ((tcp_head self @ u16_to_be c @ [0, 0]) @ option_bytes self) @ p"
    "length ((tcp_head self @ u16_to_be c @ [0, 0]) @ option_bytes self) = tr_header_len self"
    using d by (simp_all add: length_option_bytes)
  then show "tcp_payload (tcp_segment self c p) = p"
    unfolding tcp_payload_def tcp_segment_header[OF assms] by (metis append_eq_conv_conj)
qed

lemma read_block_bytes: "length out + length bs \<le> 4 \<Longrightarrow> read_blocks (block_bytes bs) out = out @ bs"
proof (induction bs arbitrary: out)
  case (Cons x bs)
  obtain l r where x: "x = (l, r)" by fastforce
  have "block_bytes (x # bs) = u32_to_be l @ u32_to_be r @ block_bytes bs" by (simp add: block_bytes_def x)
  then show ?case using Cons.IH[of "out @ [(l, r)]"] Cons.prems
    by (simp add: u32_to_be_def x MAX_SACK_BLOCKS_def del: of_nat_unat)
qed (simp add: block_bytes_def)

lemma option_list_values:
  shows "foldl mss_step None (option_list self) = tr_mss self"
    and "foldl ts_step None (option_list self) = tr_timestamps self"
    and "foldl wscale_step None (option_list self) = map_option (\<lambda>s. min s 14) (tr_window_scale self)"
    and "foldl (\<lambda>permitted (kind, v). if kind = 4 \<and> v = [] then True else permitted) False (option_list self)
      = tr_sack_permitted self"
    and "foldl (\<lambda>out (kind, v). if kind \<noteq> 5 then out else read_blocks v out) [] (option_list self)
      = take (sack_blocks_to_emit self) (tr_sack self)"
proof -
  define bs where "bs = take (sack_blocks_to_emit self) (tr_sack self)"
  have l: "length bs \<le> 4" by (simp add: bs_def sack_blocks_to_emit_def MAX_SACK_BLOCKS_def min_def)
  note d = option_list_def bs_def[symmetric] Let_def
  show "foldl mss_step None (option_list self) = tr_mss self"
    by (auto simp: d mss_step_def u16_to_be_def split: option.splits simp del: of_nat_unat)
  show "foldl ts_step None (option_list self) = tr_timestamps self"
    by (auto simp: d ts_step_def u32_to_be_def split: option.splits simp del: of_nat_unat)
  show "foldl wscale_step None (option_list self) = map_option (\<lambda>s. min s 14) (tr_window_scale self)"
    by (auto simp: d wscale_step_def split: option.splits)
  show "foldl (\<lambda>permitted (kind, v). if kind = 4 \<and> v = [] then True else permitted) False (option_list self)
      = tr_sack_permitted self"
    by (auto simp: d split: option.splits)
  show "foldl (\<lambda>out (kind, v). if kind \<noteq> 5 then out else read_blocks v out) [] (option_list self)
      = take (sack_blocks_to_emit self) (tr_sack self)"
    using read_block_bytes[of "[]" bs] l by (auto simp: d split: option.splits)
qed

lemma tcp_segment_accepted:
  assumes "tr_header_len self \<le> 60"
  shows "tcp_new_checked (tcp_segment self c p) = Inr (tcp_segment self c p)"
  using assms tcp_segment_header(1)[OF assms, of c p] length_option_bytes[of self]
  by (simp add: tcp_new_checked_def TCP_MIN_HEADER_LEN_def TCP_MAX_HEADER_LEN_def Let_def)

lemma tcp_new_checked_in_range:
  assumes "tcp_new_checked buf = Inr p"
  shows "p = buf \<and> 20 \<le> data_offset buf \<and> data_offset buf \<le> 60 \<and> data_offset buf \<le> length buf"
  using assms
  by (auto simp: tcp_new_checked_def TCP_MIN_HEADER_LEN_def TCP_MAX_HEADER_LEN_def Let_def split: if_splits)

section \<open>Emit and parse\<close>

lemma tcp_emit_parses:
  assumes "tr_header_len self \<le> 60" and "tr_header_len self + length payload \<le> length buf"
  shows "\<exists>out seg. tcp_emit self src dst payload buf = Some (tr_header_len self + length payload, out)
    \<and> length out = length buf \<and> seg = take (tr_header_len self + length payload) out
    \<and> tcp_new_checked seg = Inr seg \<and> tcp_checksum_valid src dst seg
    \<and> tcp_src_port seg = tr_src_port self \<and> tcp_dst_port seg = tr_dst_port self
    \<and> tcp_seq seg = tr_seq self \<and> tcp_ack seg = tr_ack self \<and> tcp_flags_of seg = tr_flags self
    \<and> tcp_ae seg = tr_ae self \<and> tcp_window seg = tr_window self \<and> tcp_payload seg = payload
    \<and> mss_option seg = tr_mss self \<and> sack_permitted seg = tr_sack_permitted self
    \<and> window_scale seg = map_option (\<lambda>s. min s 14) (tr_window_scale self)
    \<and> timestamps seg = tr_timestamps self
    \<and> sack_blocks seg = take (if tr_timestamps self = None then 4 else 3) (tr_sack self)"
proof -
  let ?c = "tcp_checksum src dst (tcp_head self @ [0, 0] @ [0, 0] @ option_bytes self @ payload)"
  let ?seg = "tcp_segment self ?c payload"
  let ?t = "tr_header_len self + length payload"
  have "tcp_checksum_valid src dst ?seg"
    using tcp_checksum_validates_field[of "tcp_head self" ?c src dst "[0, 0] @ option_bytes self @ payload"]
    by (simp add: tcp_segment_def)
  moreover have "take (sack_blocks_to_emit self) (tr_sack self)
      = take (if tr_timestamps self = None then 4 else 3) (tr_sack self)"
    by (simp add: sack_blocks_to_emit_def MAX_SACK_BLOCKS_def min_def)
  moreover have "take ?t (?seg @ drop ?t buf) = ?seg" by simp
  moreover have "length (?seg @ drop ?t buf) = length buf" using assms(2) by simp
  ultimately show ?thesis
    using tcp_emit_bytes[OF assms(2), of src dst] tcp_segment_accepted[OF assms(1), of ?c payload]
      tcp_segment_header(2)[OF assms(1), of ?c payload] tcp_segment_options[OF assms(1), of ?c payload]
    by (intro exI[of _ "?seg @ drop ?t buf"] exI[of _ ?seg])
      (simp add: tcp_segment_fields mss_option_def timestamps_def window_scale_def sack_permitted_def
        sack_blocks_def option_list_values)
qed

section \<open>Property of the TCP wire format\<close>

text \<open>
  C27: TCP emit and parse round-trip. Any segment description whose options fit the 40-byte
  area, emitted with any payload into a large enough buffer, succeeds; the segment's bytes
  are accepted by \<open>new_checked\<close>, have a valid checksum, and every accessor returns what
  was described: ports, sequence numbers, flags, the AE bit, window, payload, MSS,
  SACK-permitted, timestamps, the window scale (capped at 14) and the SACK blocks (the
  first four, or three beside timestamps).
\<close>

theorem tcp_emit_parse_roundtrip:
  assumes "tr_header_len self \<le> 60" and "tr_header_len self + length payload \<le> length buf"
  shows "\<exists>out seg. tcp_emit self src dst payload buf = Some (tr_header_len self + length payload, out)
    \<and> length out = length buf \<and> seg = take (tr_header_len self + length payload) out
    \<and> tcp_new_checked seg = Inr seg \<and> tcp_checksum_valid src dst seg
    \<and> tcp_src_port seg = tr_src_port self \<and> tcp_dst_port seg = tr_dst_port self
    \<and> tcp_seq seg = tr_seq self \<and> tcp_ack seg = tr_ack self \<and> tcp_flags_of seg = tr_flags self
    \<and> tcp_ae seg = tr_ae self \<and> tcp_window seg = tr_window self \<and> tcp_payload seg = payload
    \<and> mss_option seg = tr_mss self \<and> sack_permitted seg = tr_sack_permitted self
    \<and> window_scale seg = map_option (\<lambda>s. min s 14) (tr_window_scale self)
    \<and> timestamps seg = tr_timestamps self
    \<and> sack_blocks seg = take (if tr_timestamps self = None then 4 else 3) (tr_sack self)"
  by (rule tcp_emit_parses[OF assms])

theorem tcp_emit_parse_roundtrip_witness:
  "\<exists>out seg. tcp_emit \<lparr>tr_src_port = 80, tr_dst_port = 5000, tr_seq = 7, tr_ack = 9, tr_flags = 0x10,
       tr_window = 100, tr_mss = None, tr_sack_permitted = False, tr_sack = [(11, 12), (20, 25)],
       tr_window_scale = None, tr_timestamps = Some (1, 2), tr_ae = True\<rparr> 1 2 [42] (replicate 100 0) = Some (53, out)
     \<and> seg = take 53 out \<and> tcp_checksum_valid 1 2 seg \<and> tcp_ae seg
     \<and> sack_blocks seg = [(11, 12), (20, 25)] \<and> tcp_payload seg = [42]"
proof -
  let ?r = "\<lparr>tr_src_port = 80, tr_dst_port = 5000, tr_seq = 7, tr_ack = 9, tr_flags = 0x10,
       tr_window = 100, tr_mss = None, tr_sack_permitted = False, tr_sack = [(11, 12), (20, 25)],
       tr_window_scale = None, tr_timestamps = Some (1, 2), tr_ae = True\<rparr>"
  have h: "tr_header_len ?r = 52"
    by (simp add: tr_header_len_def sack_blocks_to_emit_def TCP_MIN_HEADER_LEN_def)
  then have "tr_header_len ?r \<le> 60" "tr_header_len ?r + length [42 :: u8] \<le> length (replicate 100 (0 :: u8))"
    by simp_all
  from tcp_emit_parse_roundtrip[OF this, of 1 2] show ?thesis by (simp add: h) blast
qed

end
