(* ===== verification/Isn.thy ===== *)
theory Isn
  imports Seq_Number
begin

text \<open>
  \<open>isn.rs\<close>: initial sequence numbers per RFC 6528, a 4-microsecond clock plus a keyed
  hash (SipHash-2-4) of the connection's 4-tuple. The 128-bit secret is an argument: it comes
  from the operating system.
\<close>

section \<open>SipHash-2-4\<close>

record sip =
  v0 :: u64
  v1 :: u64
  v2 :: u64
  v3 :: u64

definition rotate_left :: "nat \<Rightarrow> u64 \<Rightarrow> u64" where
  "rotate_left n x = push_bit n x OR drop_bit (64 - n) x"

text \<open>The \<open>round!\<close> macro: fourteen assignments, in the order of the source.\<close>

definition sip_round :: "sip \<Rightarrow> sip" where
  "sip_round s =
     (let a0 = v0 s; a1 = v1 s; a2 = v2 s; a3 = v3 s;
          a0 = a0 + a1;
          a1 = rotate_left 13 a1;
          a1 = a1 XOR a0;
          a0 = rotate_left 32 a0;
          a2 = a2 + a3;
          a3 = rotate_left 16 a3;
          a3 = a3 XOR a2;
          a0 = a0 + a3;
          a3 = rotate_left 21 a3;
          a3 = a3 XOR a0;
          a2 = a2 + a1;
          a1 = rotate_left 17 a1;
          a1 = a1 XOR a2;
          a2 = rotate_left 32 a2
      in \<lparr>v0 = a0, v1 = a1, v2 = a2, v3 = a3\<rparr>)"

definition sip_block :: "sip \<Rightarrow> u64 \<Rightarrow> sip" where
  "sip_block s m =
     (let s = s\<lparr>v3 := v3 s XOR m\<rparr>;
          s = sip_round (sip_round s)
      in s\<lparr>v0 := v0 s XOR m\<rparr>)"

text \<open>\<open>data.chunks_exact(8)\<close>: the whole eight-byte blocks, and the remainder.\<close>

fun sip_chunks :: "sip \<Rightarrow> bytes \<Rightarrow> sip \<times> bytes" where
  "sip_chunks s (a # b # c # d # e # f # g # h # rest) =
     sip_chunks (sip_block s (u64_from_le [a, b, c, d, e, f, g, h])) rest"
| "sip_chunks s rem = (s, rem)"

fun sip_tail :: "nat \<Rightarrow> bytes \<Rightarrow> u64 \<Rightarrow> u64" where
  "sip_tail i [] b = b"
| "sip_tail i (byte # rest) b = sip_tail (i + 1) rest (b OR push_bit (8 * i) (ucast byte))"

definition siphash24 :: "u64 \<Rightarrow> u64 \<Rightarrow> bytes \<Rightarrow> u64" where
  "siphash24 k0 k1 data =
     (let s = \<lparr>v0 = k0 XOR 0x736f6d6570736575, v1 = k1 XOR 0x646f72616e646f6d,
               v2 = k0 XOR 0x6c7967656e657261, v3 = k1 XOR 0x7465646279746573\<rparr>;
          (s, rem) = sip_chunks s data;
          b = sip_tail 0 rem (push_bit 56 (word_of_nat (length data)));
          s = sip_block s b;
          s = s\<lparr>v2 := v2 s XOR 0xff\<rparr>;
          s = sip_round (sip_round (sip_round (sip_round s)))
      in v0 s XOR v1 s XOR v2 s XOR v3 s)"

section \<open>The generator\<close>

record isn_generator =
  isn_k0 :: u64
  isn_k1 :: u64

text \<open>\<open>secret\<close> is a \<open>[u8; 16]\<close>.\<close>

definition isn_new :: "bytes \<Rightarrow> isn_generator" where
  "isn_new secret = \<lparr>isn_k0 = u64_from_le (take 8 secret),
     isn_k1 = u64_from_le (take 8 (drop 8 secret))\<rparr>"

definition isn_tuple :: "u32 \<Rightarrow> u16 \<Rightarrow> u32 \<Rightarrow> u16 \<Rightarrow> bytes" where
  "isn_tuple local_ip local_port remote_ip remote_port =
     u32_to_be local_ip @ u32_to_be remote_ip @ u16_to_be local_port @ u16_to_be remote_port"

definition generate :: "isn_generator \<Rightarrow> u32 \<Rightarrow> u16 \<Rightarrow> u32 \<Rightarrow> u16 \<Rightarrow> nat \<Rightarrow> seqnum" where
  "generate self local_ip local_port remote_ip remote_port now_micros =
     (let f = ucast (siphash24 (isn_k0 self) (isn_k1 self)
                (isn_tuple local_ip local_port remote_ip remote_port)) :: u32;
          m = word_of_nat (now_micros div 4) :: u32
      in m + f)"

section \<open>Properties\<close>

lemma word_of_nat_eq_u32: "(word_of_nat a :: u32) = word_of_nat b \<longleftrightarrow> a mod 4294967296 = b mod 4294967296"
  by (simp add: word_unat_eq_iff unat_word_of_nat_u32)

text \<open>The 4-tuple determines the hashed message.\<close>

lemma isn_tuple_inject:
  assumes "isn_tuple li lp ri rp = isn_tuple li' lp' ri' rp'"
  shows "li = li' \<and> lp = lp' \<and> ri = ri' \<and> rp = rp'"
proof -
  have u32: "u32_to_be a = u32_to_be b \<Longrightarrow> a = b" for a b
    unfolding u32_to_be_def by (metis list.inject u32_be_roundtrip)
  have u16: "u16_to_be a = u16_to_be b \<Longrightarrow> a = b" for a b
    unfolding u16_to_be_def by (metis list.inject u16_be_roundtrip)
  from assms show ?thesis
    unfolding isn_tuple_def by (auto dest: u32 u16)
qed

text \<open>The hash on words written as reduced integers, so that ground rounds compute by arithmetic.\<close>

abbreviation w64 :: "int \<Rightarrow> u64" where
  "w64 x \<equiv> word_of_int x"

lemma w64_mod: "w64 (x mod 18446744073709551616) = w64 x"
proof -
  have "x mod 18446744073709551616 = take_bit 64 x" by (simp add: take_bit_eq_mod)
  then show ?thesis by (auto intro!: bit_eqI simp: bit_word_of_int_iff bit_take_bit_iff)
qed

lemma w64_add: "w64 x + w64 y = w64 ((x + y) mod 18446744073709551616)"
  by (simp add: w64_mod)

lemma w64_xor: "w64 x XOR w64 y = w64 (x XOR y)"
  by (rule bit_eqI) (auto simp: bit_xor_iff bit_word_of_int_iff)

lemma w64_rotate:
  "rotate_left n (w64 x) = w64 ((x * 2 ^ n) mod 18446744073709551616 OR (x mod 18446744073709551616) div 2 ^ (64 - n))"
proof -
  have "x mod 18446744073709551616 = take_bit 64 x" by (simp add: take_bit_eq_mod)
  then show ?thesis 
    unfolding rotate_left_def w64_mod
    by (auto intro!: bit_eqI simp: bit_or_iff bit_word_of_int_iff bit_push_bit_iff bit_drop_bit_eq bit_take_bit_iff
       simp flip: push_bit_eq_mult drop_bit_eq_div take_bit_eq_mod[of 64, simplified])
qed

type_synonym sip_ints = "int \<times> int \<times> int \<times> int"

definition rot_int :: "nat \<Rightarrow> int \<Rightarrow> int" where
  "rot_int n x = (x * 2 ^ n) mod 18446744073709551616 OR (x mod 18446744073709551616) div 2 ^ (64 - n)"

definition add_int :: "int \<Rightarrow> int \<Rightarrow> int" where
  "add_int x y = (x + y) mod 18446744073709551616"

fun sip_round_int :: "sip_ints \<Rightarrow> sip_ints" where
  "sip_round_int (a0, a1, a2, a3) =
     (let b0 = add_int a0 a1; b1 = rot_int 13 a1 XOR b0; b0' = rot_int 32 b0;
          b2 = add_int a2 a3; b3 = rot_int 16 a3 XOR b2;
          c0 = add_int b0' b3; c3 = rot_int 21 b3 XOR c0;
          c2 = add_int b2 b1; c1 = rot_int 17 b1 XOR c2
      in (c0, c1, rot_int 32 c2, c3))"

fun sip_block_int :: "int \<Rightarrow> sip_ints \<Rightarrow> sip_ints" where
  "sip_block_int m (a0, a1, a2, a3) =
     (case sip_round_int (sip_round_int (a0, a1, a2, a3 XOR m)) of (b0, b) \<Rightarrow> (b0 XOR m, b))"

fun sip_of :: "sip_ints \<Rightarrow> sip" where
  "sip_of (a0, a1, a2, a3) = \<lparr>v0 = w64 a0, v1 = w64 a1, v2 = w64 a2, v3 = w64 a3\<rparr>"

lemmas w64_ops = w64_add[folded add_int_def] w64_xor w64_rotate[folded rot_int_def]

lemma sip_round_of: "sip_round (sip_of t) = sip_of (sip_round_int t)"
  by (cases t) (simp add: sip_round_def Let_def w64_ops del: of_int_add)

lemma sip_block_of: "sip_block (sip_of t) (w64 m) = sip_of (sip_block_int m t)"
proof (cases t)
  case (fields a0 a1 a2 a3)
  have "(sip_of t)\<lparr>v3 := v3 (sip_of t) XOR w64 m\<rparr> = sip_of (a0, a1, a2, a3 XOR m)"
    by (simp add: fields w64_xor)
  then show ?thesis
    unfolding sip_block_def by (auto simp: fields sip_round_of w64_xor Let_def split: prod.split simp del: sip_of.simps) (auto simp: w64_xor)
qed


definition siphash_int :: "int \<Rightarrow> int \<Rightarrow> int \<Rightarrow> int \<Rightarrow> int" where
  "siphash_int k0 k1 m b =
     (case sip_block_int b (sip_block_int m (k0 XOR 0x736f6d6570736575, k1 XOR 0x646f72616e646f6d,
          k0 XOR 0x6c7967656e657261, k1 XOR 0x7465646279746573)) of (a0, a1, a2, a3) \<Rightarrow>
        (case sip_round_int (sip_round_int (sip_round_int (sip_round_int (a0, a1, a2 XOR 0xff, a3)))) of
           (b0, b1, b2, b3) \<Rightarrow> b0 XOR b1 XOR b2 XOR b3))"

lemma siphash24_one_block:
  assumes "sip_tail 0 rem (push_bit 56 (word_of_nat (length rem + 8))) = w64 b"
    and "length rem < 8" and "length chunk = 8" and "u64_from_le chunk = w64 m"
  shows "siphash24 (w64 k0) (w64 k1) (chunk @ rem) = w64 (siphash_int k0 k1 m b)"
proof -
  have last8: "sip_chunks s rem = (s, rem)" for s
    using assms(2) by (cases "(s, rem)" rule: sip_chunks.cases) auto
  obtain c0 c1 c2 c3 c4 c5 c6 c7 where c: "chunk = [c0, c1, c2, c3, c4, c5, c6, c7]"
    using assms(3) by (auto simp: numeral_eq_Suc length_Suc_conv)
  let ?t = "(k0 XOR 0x736f6d6570736575, k1 XOR 0x646f72616e646f6d,
          k0 XOR 0x6c7967656e657261, k1 XOR 0x7465646279746573)"
  have init: "\<lparr>v0 = w64 k0 XOR 0x736f6d6570736575, v1 = w64 k1 XOR 0x646f72616e646f6d,
      v2 = w64 k0 XOR 0x6c7967656e657261, v3 = w64 k1 XOR 0x7465646279746573\<rparr> = sip_of ?t"
    by (simp flip: w64_xor)
  have "sip_chunks (sip_of ?t) (chunk @ rem) = (sip_of (sip_block_int m ?t), rem)"
    using assms(4) by (simp add: c last8 sip_block_of del: sip_of.simps)
  moreover obtain a0 a1 a2 a3 where a: "sip_block_int b (sip_block_int m ?t) = (a0, a1, a2, a3)"
    by (cases "sip_block_int b (sip_block_int m ?t)") auto
  moreover have "(sip_of (a0, a1, a2, a3))\<lparr>v2 := v2 (sip_of (a0, a1, a2, a3)) XOR 0xff\<rparr>
      = sip_of (a0, a1, a2 XOR 0xff, a3)"
    by (simp flip: w64_xor)
  moreover obtain b0 b1 b2 b3 where
    "sip_round_int (sip_round_int (sip_round_int (sip_round_int (a0, a1, a2 XOR 0xff, a3)))) = (b0, b1, b2, b3)"
    by (cases "sip_round_int (sip_round_int (sip_round_int (sip_round_int (a0, a1, a2 XOR 0xff, a3))))") auto
  moreover have "length (chunk @ rem) = length rem + 8" using assms(3) by simp
  ultimately show ?thesis
    using assms(1)
    by (simp only: siphash24_def Let_def init prod.case sip_block_of sip_round_of siphash_int_def) 
      (simp add: w64_xor)
qed

lemma vector_key: "isn_new [0, 1, 2, 3, 4, 5, 6, 7, 8, 9, 10, 11, 12, 13, 14, 15]
  = \<lparr>isn_k0 = w64 0x0706050403020100, isn_k1 = w64 0x0f0e0d0c0b0a0908\<rparr>"
  by (simp add: isn_new_def)

lemma vector_hash: "siphash24 (w64 k0) (w64 k1) ([0, 1, 2, 3, 4, 5, 6, 7] @ [8, 9, 10, 11, 12, 13, 14])
      = w64 (siphash_int k0 k1 0x0706050403020100 0x0f0e0d0c0b0a0908)"
  by (rule siphash24_one_block) simp_all

text \<open>The eight rounds of the reference vector.\<close>

lemma vector_rounds:
    "sip_round_int (0x7469686173716475, 0x6b617f6d656e6665, 0x6b7f62616d677361, 0x7c6d6c6a717c6d7b) =
       (0x64668a929363847f, 0x4ed232083d9aa8dc, 0xf2f74892d8141a2e, 0x9290f9810552f4a8)"
    "sip_round_int (0x64668a929363847f, 0x4ed232083d9aa8dc, 0xf2f74892d8141a2e, 0x9290f9810552f4a8) =
       (0x4d07749cdd0858e0, 0xd52f6f62a4f59a4, 0x634cb3577b01fd3d, 0xa5224d6f55c7d9c8)"
    "sip_round_int (0x4a017198de0a59e0, 0xd52f6f62a4f59a4, 0x634cb3577b01fd3d, 0xaa2c40635ecdd0c0) =
       (0x557560fb6063d060, 0x4c8e675bd961133e, 0xbd3d002b1703a181, 0xfb9441179a4a7315)"
    "sip_round_int (0x557560fb6063d060, 0x4c8e675bd961133e, 0xbd3d002b1703a181, 0xfb9441179a4a7315) =
       (0x338bbea7645fb759, 0x414fc3fb98efe374, 0xccf13ea527b9f4bd, 0x5293f5da84008f82)"
    "sip_round_int (0x3c85b3ab6f55be51, 0x414fc3fb98efe374, 0xccf13ea527b9f442, 0x5293f5da84008f82) =
       (0xf2a55244a20e48fe, 0xac5ad16ccc3ca6e4, 0x9fe5adb0a52f393a, 0xfd41d55e88f30308)"
    "sip_round_int (0xf2a55244a20e48fe, 0xac5ad16ccc3ca6e4, 0x9fe5adb0a52f393a, 0xfd41d55e88f30308) =
       (0xb6c3fbdecc2ae4b4, 0x1638c86adc6b3cf0, 0x28b8b6ab62553d46, 0xc9465e86ec43eb95)"
    "sip_round_int (0xb6c3fbdecc2ae4b4, 0x1638c86adc6b3cf0, 0x28b8b6ab62553d46, 0xc9465e86ec43eb95) =
       (0x58101b167209a5e6, 0xf8792ae75b66e7dd, 0x1da14c3ec7f0b4f7, 0x7624ba8a41bc4ad9)"
    "sip_round_int (0x58101b167209a5e6, 0xf8792ae75b66e7dd, 0x1da14c3ec7f0b4f7, 0x7624ba8a41bc4ad9) =
       (0xf6bcd53893fecff1, 0x54b9964c7ea0d937, 0x1b38329c099bb55a, 0x1814bb89ad7be679)"
  by (simp_all add: rot_int_def add_int_def)

lemma vector_int: "siphash_int 0x0706050403020100 0x0f0e0d0c0b0a0908 0x0706050403020100 0x0f0e0d0c0b0a0908
  = 0xa129ca6149be45e5"
  by (simp add: siphash_int_def vector_rounds del: sip_round_int.simps)

text \<open>
  Conformance of the keyed hash. On the message \<open>00 01 .. 0e\<close> under the key
  \<open>00 01 .. 0f\<close> the function returns the value of the reference implementation's test
  vector, \<open>a129ca6149be45e5\<close>.
\<close>

theorem siphash_reference_vector:
  "siphash24 (isn_k0 (isn_new [0, 1, 2, 3, 4, 5, 6, 7, 8, 9, 10, 11, 12, 13, 14, 15]))
     (isn_k1 (isn_new [0, 1, 2, 3, 4, 5, 6, 7, 8, 9, 10, 11, 12, 13, 14, 15]))
     [0, 1, 2, 3, 4, 5, 6, 7, 8, 9, 10, 11, 12, 13, 14] = 0xa129ca6149be45e5"
  using vector_hash[of "0x0706050403020100" "0x0f0e0d0c0b0a0908"] by (simp add: vector_key vector_int)

text \<open>
  Freshness of initial sequence numbers. For one connection 4-tuple and one secret, two
  ISNs generated at different ticks of the 4-microsecond clock, less than \<open>2\<^sup>3\<^sup>2\<close> ticks
  (about 4.7 hours) apart, differ, and their distance in sequence space is exactly the number of
  clock ticks between them, whatever the hash.
\<close>

theorem isn_follows_clock:
  assumes "t1 div 4 < t2 div 4" and "t2 div 4 - t1 div 4 < 2 ^ 32"
  shows "generate g li lp ri rp t1 \<noteq> generate g li lp ri rp t2
    \<and> unat (generate g li lp ri rp t2 - generate g li lp ri rp t1) = t2 div 4 - t1 div 4"
proof -
  let ?d = "t2 div 4 - t1 div 4"
  have "(word_of_nat (t2 div 4) :: u32) = word_of_nat (t1 div 4) + word_of_nat ?d"
    using assms(1) by (simp flip: of_nat_add)
  then have e: "generate g li lp ri rp t2 - generate g li lp ri rp t1 = word_of_nat ?d"
    by (simp add: generate_def Let_def del: of_nat_diff)
  have d: "unat (word_of_nat ?d :: u32) = ?d"
    unfolding unat_word_of_nat_u32 using assms(2) by simp
  have "generate g li lp ri rp t1 \<noteq> generate g li lp ri rp t2"
    using e d assms(1) by (metis diff_self unsigned_0 zero_less_diff less_irrefl)
  then show ?thesis using e d by simp
qed

theorem isn_follows_clock_witness:
  "generate (isn_new (replicate 16 7)) 0x0a000001 80 0x0a000002 5000 1000
     \<noteq> generate (isn_new (replicate 16 7)) 0x0a000001 80 0x0a000002 5000 2000"
proof -
  have "(1000::nat) div 4 < 2000 div 4" and "(2000::nat) div 4 - 1000 div 4 < 2 ^ 32" by simp_all
  from isn_follows_clock[OF this] show ?thesis by blast
qed

end
