(* ===== verification/Cc_Interface.thy ===== *)
theory Cc_Interface
  imports Clock Seq_Number
begin

text \<open>
  \<open>congestion.rs\<close>, the seam between the connection and its congestion controller: the
  initial window, the congestion-avoidance loop the window-based controllers share, and the
  contract of the \<open>CongestionControl\<close> trait as locales. A controller is a value; an
  operation returns the updated value. Windows are byte counts (\<open>u32\<close>) as \<open>nat\<close>.
\<close>

section \<open>Shared code\<close>

text \<open>RFC 6928. An \<open>mss\<close> is a 16-bit value, so no product overflows \<open>u32\<close>.\<close>

definition initial_window :: "nat \<Rightarrow> nat" where
  "initial_window mss = min (10 * mss) (max (2 * mss) 14600)"

text \<open>The saturating \<open>u8\<close> duplicate-ACK counter.\<close>

definition sat_inc8 :: "nat \<Rightarrow> nat" where
  "sat_inc8 n = min (n + 1) 255"

text \<open>
  The congestion-avoidance \<open>while\<close> loop: as long as the accumulator holds a window's worth
  of acknowledged bytes, take them off and grow the window. \<open>None\<close> is a loop that never ends.
\<close>

partial_function (option) ca_loop :: "(nat \<Rightarrow> nat) \<Rightarrow> nat \<Rightarrow> nat \<Rightarrow> (nat \<times> nat) option" where
  "ca_loop grow acc cwnd =
     (if cwnd \<le> acc then ca_loop grow (acc - cwnd) (grow cwnd) else Some (acc, cwnd))"

lemma ca_loop_ends:
  assumes "P cwnd" and "\<And>w. P w \<Longrightarrow> 0 < w \<and> P (grow w)"
  shows "\<exists>acc' cwnd' k. ca_loop grow acc cwnd = Some (acc', cwnd') \<and> P cwnd' \<and> acc' < cwnd'
    \<and> cwnd' = (grow ^^ k) cwnd \<and> acc = acc' + (\<Sum>i<k. (grow ^^ i) cwnd)"
  using assms(1)
proof (induction acc arbitrary: cwnd rule: less_induct)
  case (less acc)
  show ?case
  proof (cases "cwnd \<le> acc")
    case False
    then have "ca_loop grow acc cwnd = Some (acc, cwnd)" by (simp add: ca_loop.simps)
    moreover have "cwnd = (grow ^^ 0) cwnd \<and> acc = acc + (\<Sum>i<0. (grow ^^ i) cwnd)" by simp
    ultimately show ?thesis using False less.prems by (meson not_le)
  next
    case True
    have "0 < cwnd" "P (grow cwnd)" using assms(2)[OF less.prems] by auto
    then obtain acc' cwnd' k where r: "ca_loop grow (acc - cwnd) (grow cwnd) = Some (acc', cwnd')"
      "P cwnd'" "acc' < cwnd'" "cwnd' = (grow ^^ k) (grow cwnd)"
      "acc - cwnd = acc' + (\<Sum>i<k. (grow ^^ i) (grow cwnd))"
      using less.IH[of "acc - cwnd" "grow cwnd"] True by auto
    have "(grow ^^ Suc k) cwnd = cwnd'" using r(4) by (simp only: funpow_Suc_right o_apply)
    moreover have "acc = acc' + (\<Sum>i<Suc k. (grow ^^ i) cwnd)"
      using r(5) True by (simp add: sum.lessThan_Suc_shift funpow_swap1 del: sum.lessThan_Suc)
    moreover have "ca_loop grow acc cwnd = Some (acc', cwnd')"
      using r(1) True by (simp add: ca_loop.simps[of grow acc])
    ultimately show ?thesis using r(2,3) by metis
  qed
qed

text \<open>Once the window is zero and stays zero, the loop does not return.\<close>

lemma ca_loop_diverges:
  assumes "grow 0 = 0"
  shows "ca_loop grow acc 0 = None"
proof -
  have "g 0 = 0 \<longrightarrow> w \<noteq> 0" if "ca_loop g acc w = Some r" for g acc w r
    by (rule ca_loop.raw_induct[OF _ that, of "\<lambda>g acc w r. g 0 = 0 \<longrightarrow> w \<noteq> 0"])
      (metis bot_nat_0.extremum)
  then show ?thesis using assms by (cases "ca_loop grow acc 0") blast+
qed

section \<open>The trait as a contract\<close>

text \<open>
  What the connection relies on. \<open>inv\<close> is the controller's own invariant; under it the
  window is at least one segment, every signal is handled to its end, the invariant is kept and
  the segment size does not change. The third duplicate ACK in a row, and only that one, is
  reported as a loss.
\<close>

datatype cc_event =
    Ev_Ack instant nat
  | Ev_Dup_Ack instant nat
  | Ev_Enter_Recovery instant nat
  | Ev_Rto instant nat
  | Ev_Ecn instant nat nat
  | Ev_Rtt_Sample nat

text \<open>The signals, played in order on a controller whose reactions are \<open>step\<close>.\<close>

fun cc_play :: "('c \<Rightarrow> cc_event \<Rightarrow> 'c option) \<Rightarrow> 'c \<Rightarrow> cc_event list \<Rightarrow> 'c option" where
  "cc_play step c [] = Some c"
| "cc_play step c (ev # evs) = do { c' \<leftarrow> step c ev; cc_play step c' evs }"

lemma cc_play_preserves:
  assumes "\<And>c ev. I c \<Longrightarrow> ok ev \<Longrightarrow> \<exists>c'. step c ev = Some c' \<and> I c'"
    and "I c" and "\<forall>ev \<in> set evs. ok ev"
  shows "\<exists>c'. cc_play step c evs = Some c' \<and> I c'"
  using assms(2,3)
proof (induction evs arbitrary: c)
  case Nil
  then show ?case by simp
next
  case (Cons ev evs)
  then obtain c' where "step c ev = Some c'" "I c'" using assms(1)[of c ev] by auto
  then show ?case using Cons by simp
qed

text \<open>A byte count the connection passes is a \<open>u32\<close>.\<close>

fun cc_event_ok :: "cc_event \<Rightarrow> bool" where
  "cc_event_ok (Ev_Dup_Ack now fl) \<longleftrightarrow> fl \<le> U32_MAX"
| "cc_event_ok (Ev_Enter_Recovery now fl) \<longleftrightarrow> fl \<le> U32_MAX"
| "cc_event_ok (Ev_Rto now fl) \<longleftrightarrow> fl \<le> U32_MAX"
| "cc_event_ok (Ev_Rtt_Sample s) \<longleftrightarrow> s \<le> U32_MAX"
| "cc_event_ok _ \<longleftrightarrow> True"

fun cc_signal :: "('c \<Rightarrow> instant \<Rightarrow> nat \<Rightarrow> 'c option) \<Rightarrow> ('c \<Rightarrow> instant \<Rightarrow> nat \<Rightarrow> bool \<times> 'c)
    \<Rightarrow> ('c \<Rightarrow> instant \<Rightarrow> nat \<Rightarrow> 'c) \<Rightarrow> ('c \<Rightarrow> instant \<Rightarrow> nat \<Rightarrow> 'c)
    \<Rightarrow> ('c \<Rightarrow> instant \<Rightarrow> nat \<Rightarrow> nat \<Rightarrow> 'c) \<Rightarrow> ('c \<Rightarrow> nat \<Rightarrow> 'c) \<Rightarrow> 'c \<Rightarrow> cc_event \<Rightarrow> 'c option" where
  "cc_signal ack dup rec rto ecn rtt c (Ev_Ack now n) = ack c now n"
| "cc_signal ack dup rec rto ecn rtt c (Ev_Dup_Ack now fl) = Some (snd (dup c now fl))"
| "cc_signal ack dup rec rto ecn rtt c (Ev_Enter_Recovery now fl) = Some (rec c now fl)"
| "cc_signal ack dup rec rto ecn rtt c (Ev_Rto now fl) = Some (rto c now fl)"
| "cc_signal ack dup rec rto ecn rtt c (Ev_Ecn now n m) = Some (ecn c now n m)"
| "cc_signal ack dup rec rto ecn rtt c (Ev_Rtt_Sample s) = Some (rtt c s)"

locale congestion_control =
  fixes cwnd :: "'c \<Rightarrow> nat" and ssthresh :: "'c \<Rightarrow> nat" and mss :: "'c \<Rightarrow> nat"
    and inv :: "'c \<Rightarrow> bool"
    and on_ack :: "'c \<Rightarrow> instant \<Rightarrow> nat \<Rightarrow> 'c option"
    and on_dup_ack :: "'c \<Rightarrow> instant \<Rightarrow> nat \<Rightarrow> bool \<times> 'c"
    and enter_recovery :: "'c \<Rightarrow> instant \<Rightarrow> nat \<Rightarrow> 'c"
    and on_rto :: "'c \<Rightarrow> instant \<Rightarrow> nat \<Rightarrow> 'c"
    and on_ecn :: "'c \<Rightarrow> instant \<Rightarrow> nat \<Rightarrow> nat \<Rightarrow> 'c"
    and on_rtt_sample :: "'c \<Rightarrow> nat \<Rightarrow> 'c"
  assumes floor: "inv c \<Longrightarrow> 0 < mss c \<and> mss c \<le> cwnd c \<and> cwnd c \<le> U32_MAX"
    and ack_inv: "inv c \<Longrightarrow> \<exists>c'. on_ack c now n = Some c' \<and> inv c' \<and> mss c' = mss c"
    and dup_inv: "inv c \<Longrightarrow> fl \<le> U32_MAX \<Longrightarrow> inv (snd (on_dup_ack c now fl)) \<and> mss (snd (on_dup_ack c now fl)) = mss c"
    and recovery_inv: "inv c \<Longrightarrow> fl \<le> U32_MAX \<Longrightarrow> inv (enter_recovery c now fl) \<and> mss (enter_recovery c now fl) = mss c"
    and rto_inv: "inv c \<Longrightarrow> fl \<le> U32_MAX \<Longrightarrow> inv (on_rto c now fl) \<and> mss (on_rto c now fl) = mss c"
    and rto_collapses: "inv c \<Longrightarrow> fl \<le> U32_MAX \<Longrightarrow> cwnd (on_rto c now fl) = mss c"
    and ecn_inv: "inv c \<Longrightarrow> inv (on_ecn c now n m) \<and> mss (on_ecn c now n m) = mss c"
    and rtt_inv: "inv c \<Longrightarrow> s \<le> U32_MAX \<Longrightarrow> inv (on_rtt_sample c s) \<and> mss (on_rtt_sample c s) = mss c"
begin

lemma signal_ok:
  assumes "inv c" and "cc_event_ok ev"
  shows "\<exists>c'. cc_signal on_ack on_dup_ack enter_recovery on_rto on_ecn on_rtt_sample c ev = Some c'
    \<and> inv c' \<and> mss c' = mss c"
  using assms by (cases ev) (auto simp: ack_inv dup_inv recovery_inv rto_inv ecn_inv rtt_inv)

text \<open>Every sequence of signals is handled to its end with at least one segment of window.\<close>

lemma play_ok:
  assumes "inv c" and "\<forall>ev \<in> set evs. cc_event_ok ev"
  shows "\<exists>c'. cc_play (cc_signal on_ack on_dup_ack enter_recovery on_rto on_ecn on_rtt_sample) c evs = Some c'
    \<and> mss c' = mss c \<and> mss c' \<le> cwnd c' \<and> cwnd c' \<le> U32_MAX"
proof -
  have "\<exists>c'. cc_play (cc_signal on_ack on_dup_ack enter_recovery on_rto on_ecn on_rtt_sample) c evs = Some c'
      \<and> (inv c' \<and> mss c' = mss c)"
    by (rule cc_play_preserves[where ok = cc_event_ok]) (use assms signal_ok in \<open>auto, metis\<close>)
  then show ?thesis using floor by blast
qed

end

text \<open>
  A loss-based controller: on every loss signal the new threshold is at least two segments and
  at most the larger of the data in flight and two segments, and, short of a timeout, the
  window is the threshold. A clean ACK never shrinks the window and an ECN
  mark never grows it.
\<close>

locale loss_based_control = congestion_control +
  assumes recovery_cut: "inv c \<Longrightarrow> fl \<le> U32_MAX \<Longrightarrow>
      2 * mss c \<le> ssthresh (enter_recovery c now fl)
      \<and> ssthresh (enter_recovery c now fl) \<le> max fl (2 * mss c)
      \<and> cwnd (enter_recovery c now fl) = ssthresh (enter_recovery c now fl)"
    and ack_grows: "inv c \<Longrightarrow> on_ack c now n = Some c' \<Longrightarrow> cwnd c \<le> cwnd c'"
    and rto_cut: "inv c \<Longrightarrow> fl \<le> U32_MAX \<Longrightarrow>
      2 * mss c \<le> ssthresh (on_rto c now fl) \<and> ssthresh (on_rto c now fl) \<le> max fl (2 * mss c)"
    and dup_cut: "inv c \<Longrightarrow> fl \<le> U32_MAX \<Longrightarrow> on_dup_ack c now fl = (True, c') \<Longrightarrow>
      2 * mss c \<le> ssthresh c' \<and> ssthresh c' \<le> max fl (2 * mss c) \<and> cwnd c' = ssthresh c'"
    and dup_keep: "inv c \<Longrightarrow> on_dup_ack c now fl = (False, c') \<Longrightarrow> cwnd c' = cwnd c"
    and ecn_cut: "inv c \<Longrightarrow> cwnd (on_ecn c now n m) \<le> cwnd c"
begin

text \<open>No loss signal leaves a window larger than the data in flight, floors apart.\<close>

lemma loss_no_inflation:
  assumes "inv c" and "fl \<le> U32_MAX"
  shows "cwnd (enter_recovery c now fl) \<le> max fl (2 * mss c)"
    and "cwnd (on_rto c now fl) \<le> max fl (2 * mss c)"
    and "cwnd (snd (on_dup_ack c now fl)) \<le> max (cwnd c) (max fl (2 * mss c))"
proof -
  show "cwnd (enter_recovery c now fl) \<le> max fl (2 * mss c)" using recovery_cut[OF assms] by metis
  show "cwnd (on_rto c now fl) \<le> max fl (2 * mss c)" using rto_collapses[OF assms] by simp
  obtain b c' where d: "on_dup_ack c now fl = (b, c')" by (cases "on_dup_ack c now fl")
  show "cwnd (snd (on_dup_ack c now fl)) \<le> max (cwnd c) (max fl (2 * mss c))"
    using dup_cut[OF assms, of now c'] dup_keep[OF assms(1), of now fl c'] d
    by (cases b) (auto simp: max.coboundedI2)
qed

end

end
