(* ===== verification/Reno.thy ===== *)
theory Reno
  imports Cc_Interface
begin

text \<open>
  \<open>congestion.rs\<close>, \<open>Reno\<close>: RFC 5681 slow start, byte-counted congestion avoidance
  and halving on loss.
\<close>

record reno =
  reno_cwnd :: nat
  reno_ssthresh :: nat
  reno_mss :: nat
  reno_ca_acc :: nat
  reno_dup_acks :: nat

definition reno_new :: "u16 \<Rightarrow> reno" where
  "reno_new mss = \<lparr>reno_cwnd = initial_window (unat mss), reno_ssthresh = U32_MAX,
     reno_mss = unat mss, reno_ca_acc = 0, reno_dup_acks = 0\<rparr>"

definition reno_in_slow_start :: "reno \<Rightarrow> bool" where
  "reno_in_slow_start self \<longleftrightarrow> reno_cwnd self < reno_ssthresh self"

definition reno_on_ack :: "reno \<Rightarrow> instant \<Rightarrow> nat \<Rightarrow> reno option" where
  "reno_on_ack self now acked =
     (let self = self\<lparr>reno_dup_acks := 0\<rparr> in
      if acked = 0 then Some self
      else if reno_in_slow_start self then
        Some (self\<lparr>reno_cwnd := sat_add32 (reno_cwnd self) (min acked (reno_mss self))\<rparr>)
      else do {
        (acc, cwnd) \<leftarrow> ca_loop (\<lambda>w. sat_add32 w (reno_mss self))
                        (sat_add32 (reno_ca_acc self) acked) (reno_cwnd self);
        Some (self\<lparr>reno_ca_acc := acc, reno_cwnd := cwnd\<rparr>)
      })"

definition reno_on_dup_ack :: "reno \<Rightarrow> instant \<Rightarrow> nat \<Rightarrow> bool \<times> reno" where
  "reno_on_dup_ack self now flight_size =
     (let self = self\<lparr>reno_dup_acks := sat_inc8 (reno_dup_acks self)\<rparr> in
      if reno_dup_acks self = 3 then
        let t = max (flight_size div 2) (2 * reno_mss self)
        in (True, self\<lparr>reno_ssthresh := t, reno_cwnd := t, reno_ca_acc := 0\<rparr>)
      else (False, self))"

definition reno_enter_recovery :: "reno \<Rightarrow> instant \<Rightarrow> nat \<Rightarrow> reno" where
  "reno_enter_recovery self now flight_size =
     (let t = max (flight_size div 2) (2 * reno_mss self)
      in self\<lparr>reno_ssthresh := t, reno_cwnd := t, reno_ca_acc := 0, reno_dup_acks := 0\<rparr>)"

definition reno_on_rto :: "reno \<Rightarrow> instant \<Rightarrow> nat \<Rightarrow> reno" where
  "reno_on_rto self now flight_size =
     self\<lparr>reno_ssthresh := max (flight_size div 2) (2 * reno_mss self),
       reno_cwnd := reno_mss self, reno_ca_acc := 0\<rparr>"

definition reno_set_mss :: "reno \<Rightarrow> u16 \<Rightarrow> reno" where
  "reno_set_mss self mss =
     self\<lparr>reno_mss := unat mss, reno_cwnd := max (reno_cwnd self) (unat mss), reno_ca_acc := 0\<rparr>"

section \<open>Reno keeps the contract\<close>

definition reno_inv :: "reno \<Rightarrow> bool" where
  "reno_inv c \<longleftrightarrow> 0 < reno_mss c \<and> reno_mss c \<le> 65535 \<and> reno_mss c \<le> reno_cwnd c
     \<and> reno_cwnd c \<le> U32_MAX"

lemma initial_window_bounds:
  assumes "m \<le> 65535"
  shows "m \<le> initial_window m" and "initial_window m \<le> 655350"
    and "0 < m \<Longrightarrow> 2 * m \<le> initial_window m"
  using assms by (auto simp: initial_window_def)

lemma mss_le [simp]: "unat (mss :: u16) \<le> 65535"
  using unat_u16_bound[of mss] by linarith

lemma reno_inv_new: "mss \<noteq> 0 \<Longrightarrow> reno_inv (reno_new mss)"
  using initial_window_bounds[of "unat mss"] unat_u16_bound[of mss]
  by (simp add: reno_inv_def reno_new_def U32_MAX_def unat_gt_0)

text \<open>The loop's window stays at or above the segment size and grows.\<close>

lemma ca_loop_window:
  assumes "0 < m" and "m \<le> w" and "w \<le> U32_MAX" and "\<And>w. m \<le> w \<Longrightarrow> w \<le> U32_MAX \<Longrightarrow> w \<le> grow w \<and> grow w \<le> U32_MAX"
  shows "\<exists>acc' w' k. ca_loop grow acc w = Some (acc', w') \<and> w \<le> w' \<and> w' \<le> U32_MAX \<and> acc' < w'
    \<and> w' = (grow ^^ k) w \<and> acc = acc' + (\<Sum>i<k. (grow ^^ i) w)"
proof -
  have "\<exists>acc' w' k. ca_loop grow acc w = Some (acc', w') \<and> (w \<le> w' \<and> w' \<le> U32_MAX) \<and> acc' < w'
      \<and> w' = (grow ^^ k) w \<and> acc = acc' + (\<Sum>i<k. (grow ^^ i) w)"
    by (rule ca_loop_ends) (use assms in \<open>auto, (meson order_trans)+\<close>)
  then show ?thesis by blast
qed

lemma reno_on_ack_total:
  assumes "reno_inv c"
  shows "\<exists>c'. reno_on_ack c now n = Some c' \<and> reno_inv c' \<and> reno_mss c' = reno_mss c
    \<and> reno_cwnd c \<le> reno_cwnd c'"
proof -
  obtain acc' w' where l: "ca_loop (\<lambda>w. sat_add32 w (reno_mss c)) (sat_add32 (reno_ca_acc c) n) (reno_cwnd c)
      = Some (acc', w')" "reno_cwnd c \<le> w'" "w' \<le> U32_MAX"
    using ca_loop_window[of "reno_mss c" "reno_cwnd c" "\<lambda>w. sat_add32 w (reno_mss c)"] assms
    by (fastforce simp: reno_inv_def sat_add32_def)
  show ?thesis
    using l assms by (auto simp: reno_on_ack_def reno_inv_def Let_def sat_add32_def)
qed

interpretation reno_cc: loss_based_control reno_cwnd reno_ssthresh reno_mss reno_inv reno_on_ack
  reno_on_dup_ack reno_enter_recovery reno_on_rto "\<lambda>c now n m. c" "\<lambda>c s. c"
proof
  fix c c' :: reno and now n fl m s
  assume c: "reno_inv c"
  note [simp] = reno_on_dup_ack_def reno_enter_recovery_def reno_on_rto_def reno_inv_def Let_def U32_MAX_def
  show "0 < reno_mss c \<and> reno_mss c \<le> reno_cwnd c \<and> reno_cwnd c \<le> U32_MAX" using c by simp
  show "\<exists>c'. reno_on_ack c now n = Some c' \<and> reno_inv c' \<and> reno_mss c' = reno_mss c"
    using reno_on_ack_total[OF c] by blast
  show "reno_on_ack c now n = Some c' \<Longrightarrow> reno_cwnd c \<le> reno_cwnd c'"
    using reno_on_ack_total[OF c, of now n] by auto
  show "reno_inv c \<and> reno_mss c = reno_mss c" using c by simp
  then show "reno_inv c \<and> reno_mss c = reno_mss c" .
  show "reno_cwnd c \<le> reno_cwnd c" by simp
  show "reno_on_dup_ack c now fl = (False, c') \<Longrightarrow> reno_cwnd c' = reno_cwnd c"
    by (auto split: if_splits)
  assume fl: "fl \<le> U32_MAX"
  show "reno_inv (snd (reno_on_dup_ack c now fl)) \<and> reno_mss (snd (reno_on_dup_ack c now fl)) = reno_mss c"
    "reno_inv (reno_enter_recovery c now fl) \<and> reno_mss (reno_enter_recovery c now fl) = reno_mss c"
    "reno_inv (reno_on_rto c now fl) \<and> reno_mss (reno_on_rto c now fl) = reno_mss c"
    "reno_cwnd (reno_on_rto c now fl) = reno_mss c"
    "2 * reno_mss c \<le> reno_ssthresh (reno_enter_recovery c now fl)
      \<and> reno_ssthresh (reno_enter_recovery c now fl) \<le> max fl (2 * reno_mss c)
      \<and> reno_cwnd (reno_enter_recovery c now fl) = reno_ssthresh (reno_enter_recovery c now fl)"
    "2 * reno_mss c \<le> reno_ssthresh (reno_on_rto c now fl)
      \<and> reno_ssthresh (reno_on_rto c now fl) \<le> max fl (2 * reno_mss c)"
    "reno_on_dup_ack c now fl = (True, c') \<Longrightarrow> 2 * reno_mss c \<le> reno_ssthresh c'
      \<and> reno_ssthresh c' \<le> max fl (2 * reno_mss c) \<and> reno_cwnd c' = reno_ssthresh c'"
    using c fl by (auto split: if_splits)
qed

section \<open>Byte counting\<close>

lemma sat_growth: "((\<lambda>w. sat_add32 w m) ^^ k) w = min (w + k * m) U32_MAX" if "w \<le> U32_MAX"
  using that by (induction k) (auto simp: sat_add32_def)

text \<open>
  Congestion avoidance counts bytes. In congestion avoidance, one acknowledgement of any
  size (a stretch ACK that covers many segments included) grows the window by \<open>k\<close> segments
  (saturating at the \<open>u32\<close> range), where the bytes credited are exactly those of the
  \<open>k\<close> windows passed on the way, and the remainder, less than a window, is carried over:
  no acknowledged byte is lost or counted twice.
\<close>

theorem reno_byte_counting:
  assumes "reno_inv c" and "reno_ssthresh c \<le> reno_cwnd c" and "0 < acked"
    and "reno_ca_acc c + acked \<le> U32_MAX"
  shows "\<exists>c' k. reno_on_ack c now acked = Some c'
    \<and> reno_cwnd c' = min (reno_cwnd c + k * reno_mss c) U32_MAX
    \<and> reno_ca_acc c + acked = reno_ca_acc c' + (\<Sum>i<k. min (reno_cwnd c + i * reno_mss c) U32_MAX)
    \<and> reno_ca_acc c' < reno_cwnd c' \<and> reno_dup_acks c' = 0"
proof -
  have w: "0 < reno_mss c" "reno_mss c \<le> reno_cwnd c" "reno_cwnd c \<le> U32_MAX"
    using assms(1) by (simp_all add: reno_inv_def)
  obtain acc' w' k where l: "ca_loop (\<lambda>w. sat_add32 w (reno_mss c)) (reno_ca_acc c + acked) (reno_cwnd c)
      = Some (acc', w')" "acc' < w'" "w' = ((\<lambda>w. sat_add32 w (reno_mss c)) ^^ k) (reno_cwnd c)"
    "reno_ca_acc c + acked = acc' + (\<Sum>i<k. ((\<lambda>w. sat_add32 w (reno_mss c)) ^^ i) (reno_cwnd c))"
    using ca_loop_window[OF w, of "\<lambda>w. sat_add32 w (reno_mss c)" "reno_ca_acc c + acked"]
    by (auto simp: sat_add32_def)
  have "reno_on_ack c now acked
      = Some (c\<lparr>reno_dup_acks := 0, reno_ca_acc := acc', reno_cwnd := w'\<rparr>)"
    using l(1) assms by (simp add: reno_on_ack_def Let_def reno_in_slow_start_def sat_add32_def)
  then show ?thesis
    using l(2-4) w
    by (intro exI[of _ "c\<lparr>reno_dup_acks := 0, reno_ca_acc := acc', reno_cwnd := w'\<rparr>"] exI[of _ k])
      (simp add: sat_growth)
qed

theorem reno_byte_counting_witness:
  "\<exists>c' k. reno_on_ack \<lparr>reno_cwnd = 2000, reno_ssthresh = 2000, reno_mss = 1000, reno_ca_acc = 500,
      reno_dup_acks = 2\<rparr> 0 5000 = Some c'
    \<and> reno_cwnd c' = min (2000 + k * 1000) U32_MAX \<and> reno_ca_acc c' < reno_cwnd c'"
  using reno_byte_counting[of "\<lparr>reno_cwnd = 2000, reno_ssthresh = 2000, reno_mss = 1000, reno_ca_acc = 500,
      reno_dup_acks = 2\<rparr>" 5000 0]
  by (force simp: reno_inv_def U32_MAX_def)

end
