(* ===== verification/F64.thy ===== *)
theory F64
  imports Prelude "HOL-Library.Log_Nat"
begin

text \<open>
  The \<open>f64\<close> arithmetic the congestion controllers use: \<open>+\<close>, \<open>-\<close>,
  \<open>*\<close>, \<open>/\<close>, comparisons, conversions from and to the unsigned integers. A finite
  value is the rational it denotes; every operation is the exact one followed by
  round-to-nearest, ties to even, with 53 significant bits and the binary64 exponent range
  (subnormals included), overflowing to an infinity. The two zeros are one value: the sources
  never divide by a zero that can carry a sign, and no other operation they use observes it.
\<close>

section \<open>Rounding\<close>

definition pow2 :: "int \<Rightarrow> rat" where
  "pow2 e = (if 0 \<le> e then 2 ^ nat e else 1 / 2 ^ nat (- e))"

text \<open>The exponent of the leading binary digit of a positive rational.\<close>

definition rlog2 :: "rat \<Rightarrow> int" where
  "rlog2 q = (case quotient_of q of (n, d) \<Rightarrow>
     let k = int (floorlog 2 (nat n)) - int (floorlog 2 (nat d))
     in if pow2 k \<le> q then k else k - 1)"

definition ulp :: "rat \<Rightarrow> rat" where
  "ulp x = pow2 (max (rlog2 x - 52) (- 1074))"

definition rne :: "rat \<Rightarrow> int" where
  "rne x = (let f = \<lfloor>x\<rfloor>; r = x - of_int f in
     if r < 1 / 2 then f else if 1 / 2 < r then f + 1 else if even f then f else f + 1)"

definition round_mag :: "rat \<Rightarrow> rat" where
  "round_mag x = (if x = 0 then 0 else of_int (rne (x / ulp x)) * ulp x)"

datatype f64 = NaN | Inf bool | Fin rat

definition f64_of :: "rat \<Rightarrow> f64" where
  "f64_of x = (let m = round_mag \<bar>x\<bar> in
     if pow2 1024 \<le> m then Inf (x < 0) else Fin (if x < 0 then - m else m))"

subsection \<open>Powers of two\<close>

lemma pow2_pos [simp]: "0 < pow2 e"
  by (simp add: pow2_def)

lemma pow2_powi: "pow2 e = 2 powi e"
  by (simp add: pow2_def power_int_def field_simps)

lemma pow2_add: "pow2 (a + b) = pow2 a * pow2 b"
  by (simp add: pow2_powi power_int_add)

lemma pow2_nat: "pow2 (int n) = 2 ^ n"
  by (simp add: pow2_def)

lemma pow2_mono: "a \<le> b \<Longrightarrow> pow2 a \<le> pow2 b"
  by (simp add: pow2_powi power_int_increasing)

lemma pow2_le_iff: "pow2 a \<le> pow2 b \<longleftrightarrow> a \<le> b"
proof -
  have "b < a \<Longrightarrow> pow2 b < pow2 a" by (simp add: pow2_powi power_int_strict_increasing)
  then show ?thesis using pow2_mono[of a b] by (meson leD not_le)
qed

lemma pow2_less_iff: "pow2 a < pow2 b \<longleftrightarrow> a < b"
  using pow2_le_iff[of b a] by (simp flip: not_le)

lemma rlog2_bounds:
  assumes "0 < q"
  shows "pow2 (rlog2 q) \<le> q" and "q < pow2 (rlog2 q + 1)"
proof -
  obtain n d where nd: "quotient_of q = (n, d)" by (cases "quotient_of q") auto
  have q: "q = of_int n / of_int d" and d: "0 < d"
    using quotient_of_div[OF nd] quotient_of_denom_pos[OF nd] by simp_all
  have n: "0 < n" using assms q d by (simp add: zero_less_divide_iff)
  define a b where "a = floorlog 2 (nat n)" and "b = floorlog 2 (nat d)"
  have bnd: "(2::int) ^ (a - 1) \<le> n \<and> n < 2 ^ a \<and> 0 < a" "(2::int) ^ (b - 1) \<le> d \<and> d < 2 ^ b \<and> 0 < b"
  proof -
    have "2 ^ (a - 1) \<le> nat n \<and> nat n < 2 ^ a" "2 ^ (b - 1) \<le> nat d \<and> nat d < 2 ^ b"
      using floorlog_bounds[of "nat n" 2] floorlog_bounds[of "nat d" 2] n d by (simp_all add: a_def b_def)
    moreover have "0 < a" "0 < b" using n d by (simp_all add: a_def b_def floorlog_def)
    ultimately show "(2::int) ^ (a - 1) \<le> n \<and> n < 2 ^ a \<and> 0 < a" "(2::int) ^ (b - 1) \<le> d \<and> d < 2 ^ b \<and> 0 < b"
      using n d by (auto simp: nat_le_iff le_nat_iff zless_nat_eq_int_zless nat_less_iff)
  qed
  have pa: "pow2 (int a - 1) \<le> of_int n" "of_int n < pow2 (int a)"
   and pb: "pow2 (int b - 1) \<le> of_int d" "of_int d < pow2 (int b)"
  proof -
    have e: "int a - 1 = int (a - 1)" "int b - 1 = int (b - 1)" using bnd by auto
    show "pow2 (int a - 1) \<le> of_int n" "of_int n < pow2 (int a)"
      "pow2 (int b - 1) \<le> of_int d" "of_int d < pow2 (int b)"
      unfolding e pow2_nat using bnd by (metis of_int_le_iff of_int_less_iff of_int_numeral of_int_power)+
  qed
  define k where "k = int a - int b"
  have r: "rlog2 q = (if pow2 k \<le> q then k else k - 1)"
    by (simp add: rlog2_def nd a_def b_def k_def Let_def)
  have rd: "(0::rat) < of_int d" using d by simp
  have lo: "pow2 (k - 1) \<le> q"
  proof -
    have "pow2 (k - 1) * of_int d \<le> pow2 (k - 1) * pow2 (int b)"
      using pb(2) by (intro mult_left_mono) (simp_all add: less_imp_le)
    also have "\<dots> = pow2 (int a - 1)" by (simp add: k_def flip: pow2_add)
    also have "\<dots> \<le> of_int n" by (rule pa)
    finally show ?thesis using rd by (simp add: q pos_le_divide_eq)
  qed
  have hi: "q < pow2 (k + 1)"
  proof -
    have "of_int n < pow2 (int a)" by (rule pa)
    also have "\<dots> = pow2 (k + 1) * pow2 (int b - 1)" by (simp add: k_def flip: pow2_add)
    also have "\<dots> \<le> pow2 (k + 1) * of_int d" using pb(1) by (intro mult_left_mono) (simp_all add: less_imp_le)
    finally show ?thesis using rd by (simp add: q pos_divide_less_eq)
  qed
  show "pow2 (rlog2 q) \<le> q" and "q < pow2 (rlog2 q + 1)"
    using lo hi by (auto simp: r)
qed

lemma rlog2_unique: "pow2 e \<le> q \<Longrightarrow> q < pow2 (e + 1) \<Longrightarrow> rlog2 q = e"
  using rlog2_bounds[of q] pow2_pos[of e] pow2_less_iff
  by (metis less_le_trans order_le_less_trans zless_add1_eq antisym_conv3 order.asym)

lemma rlog2_mono: "0 < x \<Longrightarrow> x \<le> y \<Longrightarrow> rlog2 x \<le> rlog2 y"
  using rlog2_bounds(1)[of x] rlog2_bounds(2)[of y] pow2_less_iff[of "rlog2 x" "rlog2 y + 1"] by simp

lemma ulp_pos [simp]: "0 < ulp x"
  by (simp add: ulp_def)

subsection \<open>Round to nearest\<close>

lemma rne_bounds: "\<lfloor>x\<rfloor> \<le> rne x \<and> rne x \<le> \<lfloor>x\<rfloor> + 1"
  by (simp add: rne_def Let_def)

lemma rne_of_int [simp]: "rne (of_int i) = i"
  by (simp add: rne_def)

lemma rne_mono: "x \<le> y \<Longrightarrow> rne x \<le> rne y"
proof (cases "\<lfloor>x\<rfloor> = \<lfloor>y\<rfloor>")
  case True
  assume "x \<le> y"
  then show ?thesis using True by (auto simp: rne_def Let_def)
next
  case False
  assume "x \<le> y"
  then have "\<lfloor>x\<rfloor> + 1 \<le> \<lfloor>y\<rfloor>" using False floor_mono[of x y] by linarith
  then show ?thesis using rne_bounds[of x] rne_bounds[of y] by linarith
qed

lemma rne_error: "\<bar>of_int (rne x) - x\<bar> \<le> 1 / 2"
  using of_int_floor_le[of x] floor_less_iff[of x "\<lfloor>x\<rfloor> + 1"]
  by (auto simp: rne_def Let_def abs_le_iff) 

lemma round_mag_nonneg: "0 \<le> x \<Longrightarrow> 0 \<le> round_mag x"
proof -
  assume "0 \<le> x"
  then have "0 \<le> \<lfloor>x / ulp x\<rfloor>" by (simp add: less_imp_le)
  then have "0 \<le> rne (x / ulp x)" using rne_bounds[of "x / ulp x"] by linarith
  then show ?thesis by (simp add: round_mag_def less_imp_le)
qed

text \<open>A multiple of a power of two with at most 53 bits is kept.\<close>

lemma round_mag_exact:
  assumes "x = of_nat m * pow2 k" and "m \<le> 2 ^ 53" and "- 1074 \<le> k"
  shows "round_mag x = x"
proof (cases "m = 0")
  case True
  then show ?thesis using assms by (simp add: round_mag_def)
next
  case False
  then have x: "0 < x" using assms(1) by simp
  have ge: "pow2 k \<le> x" using False assms(1) by (simp add: field_simps)
  have "\<exists>j. ulp x * of_nat j = pow2 k \<or> m = 2 ^ 53 \<and> ulp x = 2 * pow2 k"
  proof (cases "max (rlog2 x - 52) (- 1074) \<le> k")
    case True
    define j where "j = nat (k - max (rlog2 x - 52) (- 1074))"
    have "ulp x * of_nat (2 ^ j) = pow2 k"
      using True by (simp add: ulp_def j_def pow2_nat[symmetric] flip: pow2_add)
    then show ?thesis by blast
  next
    case False
    then have "k + 53 \<le> rlog2 x" using assms(3) by (auto split: if_splits simp: max_def)
    then have "pow2 (k + 53) \<le> x" using rlog2_bounds(1)[OF x] pow2_mono order_trans by blast
    then have "(2 ^ 53 :: rat) * pow2 k \<le> of_nat m * pow2 k"
      unfolding assms(1) by (simp add: pow2_add pow2_nat[of 53, simplified] mult.commute)
    then have "(2 ^ 53 :: rat) \<le> of_nat m" by simp
    then have "of_nat (2 ^ 53) \<le> (of_nat m :: rat)" by simp
    then have m: "m = 2 ^ 53" using assms(2) by (simp only: of_nat_le_iff)
    then have xe: "x = pow2 (k + 53)" by (simp add: assms(1) pow2_add pow2_nat[of 53, simplified])
    have "rlog2 x = k + 53" unfolding xe by (rule rlog2_unique) (simp_all add: pow2_less_iff)
    then have "ulp x = pow2 (k + 1)" using assms(3) by (simp add: ulp_def add.commute)
    then show ?thesis using m by (simp add: pow2_add pow2_nat[of 1, simplified])
  qed
  then have "\<exists>i :: int. x = of_int i * ulp x"
  proof (elim exE disjE conjE)
    fix j assume "ulp x * of_nat j = pow2 k"
    then have "of_nat m * pow2 k = of_nat m * (ulp x * of_nat j)" by simp
    then have "x = of_int (int m * int j) * ulp x"
      using assms(1) by (simp add: mult.commute mult.left_commute del: mult_cancel_left)
    then show ?thesis by blast
  next
    assume "m = 2 ^ 53" "ulp x = 2 * pow2 k"
    then have "x = of_int (2 ^ 52) * ulp x" by (simp add: assms(1))
    then show ?thesis by blast
  qed
  then obtain i :: int where i: "x = of_int i * ulp x" by blast
  have "x / ulp x = of_int i" using i ulp_pos[of x] by (metis less_irrefl nonzero_eq_divide_eq)
  then show ?thesis using x i by (simp add: round_mag_def)
qed

lemma round_mag_mono:
  assumes "0 \<le> x" and "x \<le> y"
  shows "round_mag x \<le> round_mag y"
proof (cases "x = 0")
  case True
  then show ?thesis using round_mag_nonneg[of y] assms by (simp add: round_mag_def)
next
  case False
  then have x: "0 < x" and y: "0 < y" using assms by simp_all
  show ?thesis
  proof (cases "ulp x = ulp y")
    case True
    then have "rne (x / ulp x) \<le> rne (y / ulp y)"
      using assms by (intro rne_mono) (simp add: divide_right_mono less_imp_le)
    then show ?thesis using x y True by (simp add: round_mag_def)
  next
    case False
    have le: "rlog2 x \<le> rlog2 y" using rlog2_mono[OF x assms(2)] .
    define ex ey where "ex = max (rlog2 x - 52) (- 1074)" and "ey = max (rlog2 y - 52) (- 1074)"
    have "ex \<noteq> ey" using False by (auto simp: ulp_def ex_def ey_def)
    then have lt: "rlog2 x + 1 \<le> rlog2 y" "- 1074 \<le> rlog2 y - 52" using le by (auto simp: ex_def ey_def max_def split: if_splits)
    define b where "b = pow2 (rlog2 y)"
    have xb: "x \<le> b"
      using rlog2_bounds(2)[OF x] pow2_mono[OF lt(1)] by (simp add: b_def)
    have yb: "b \<le> y" unfolding b_def by (rule rlog2_bounds(1)[OF y])
    have ux: "\<exists>i :: int. b = of_int i * ulp x"
    proof -
      have "ex \<le> rlog2 y" using lt by (simp add: ex_def)
      then have "b = 2 ^ nat (rlog2 y - ex) * ulp x"
        by (simp add: b_def ulp_def ex_def[symmetric] pow2_nat[symmetric] flip: pow2_add)
      then have "b = of_int (2 ^ nat (rlog2 y - ex)) * ulp x" by simp
      then show ?thesis by blast
    qed
    have uy: "\<exists>i :: int. b = of_int i * ulp y"
    proof -
      have "ulp y = pow2 (rlog2 y - 52)" using lt by (simp add: ulp_def)
      then have "b = 2 ^ 52 * ulp y" by (simp add: b_def pow2_nat[of 52, simplified, symmetric] flip: pow2_add)
      then have "b = of_int (2 ^ 52) * ulp y" by simp
      then show ?thesis by blast
    qed
    obtain i where i: "b = of_int i * ulp x" using ux by blast
    obtain j where j: "b = of_int j * ulp y" using uy by blast
    have "rne (x / ulp x) \<le> rne (of_int i)"
      using xb by (intro rne_mono) (simp add: i pos_divide_le_eq)
    then have "round_mag x \<le> b" using x i by (simp add: round_mag_def)
    moreover have "rne (of_int j) \<le> rne (y / ulp y)"
      using yb by (intro rne_mono) (simp add: j pos_le_divide_eq)
    then have "b \<le> round_mag y" using y j by (simp add: round_mag_def)
    ultimately show ?thesis by simp
  qed
qed

section \<open>Conversions and operations\<close>

definition f64_of_nat :: "nat \<Rightarrow> f64" where
  "f64_of_nat n = f64_of (of_nat n)"

fun fneg :: "f64 \<Rightarrow> f64" where
  "fneg NaN = NaN"
| "fneg (Inf s) = Inf (\<not> s)"
| "fneg (Fin x) = Fin (- x)"

fun fadd :: "f64 \<Rightarrow> f64 \<Rightarrow> f64" where
  "fadd (Fin x) (Fin y) = f64_of (x + y)"
| "fadd (Inf s) (Inf t) = (if s = t then Inf s else NaN)"
| "fadd (Inf s) (Fin y) = Inf s"
| "fadd (Fin x) (Inf t) = Inf t"
| "fadd _ _ = NaN"

definition fsub :: "f64 \<Rightarrow> f64 \<Rightarrow> f64" where
  "fsub a b = fadd a (fneg b)"

fun fmul :: "f64 \<Rightarrow> f64 \<Rightarrow> f64" where
  "fmul (Fin x) (Fin y) = f64_of (x * y)"
| "fmul (Inf s) (Inf t) = Inf (s \<noteq> t)"
| "fmul (Inf s) (Fin y) = (if y = 0 then NaN else Inf (s \<noteq> (y < 0)))"
| "fmul (Fin x) (Inf t) = (if x = 0 then NaN else Inf (t \<noteq> (x < 0)))"
| "fmul _ _ = NaN"

fun fdiv :: "f64 \<Rightarrow> f64 \<Rightarrow> f64" where
  "fdiv (Fin x) (Fin y) =
     (if y = 0 then (if x = 0 then NaN else Inf (x < 0)) else f64_of (x / y))"
| "fdiv (Inf s) (Inf t) = NaN"
| "fdiv (Inf s) (Fin y) = Inf (s \<noteq> (y < 0))"
| "fdiv (Fin x) (Inf t) = Fin 0"
| "fdiv _ _ = NaN"

fun flt :: "f64 \<Rightarrow> f64 \<Rightarrow> bool" where
  "flt (Fin x) (Fin y) \<longleftrightarrow> x < y"
| "flt (Inf s) (Inf t) \<longleftrightarrow> s \<and> \<not> t"
| "flt (Inf s) (Fin y) \<longleftrightarrow> s"
| "flt (Fin x) (Inf t) \<longleftrightarrow> \<not> t"
| "flt _ _ \<longleftrightarrow> False"

fun fle :: "f64 \<Rightarrow> f64 \<Rightarrow> bool" where
  "fle (Fin x) (Fin y) \<longleftrightarrow> x \<le> y"
| "fle (Inf s) (Inf t) \<longleftrightarrow> s \<or> \<not> t"
| "fle (Inf s) (Fin y) \<longleftrightarrow> s"
| "fle (Fin x) (Inf t) \<longleftrightarrow> \<not> t"
| "fle _ _ \<longleftrightarrow> False"

text \<open>\<open>x as u32\<close> and \<open>x as u64\<close>: truncation, saturating, with NaN as zero.\<close>

fun f64_as :: "nat \<Rightarrow> f64 \<Rightarrow> nat" where
  "f64_as hi NaN = 0"
| "f64_as hi (Inf s) = (if s then 0 else hi)"
| "f64_as hi (Fin x) = min (nat \<lfloor>x\<rfloor>) hi"

definition f64_as_u32 :: "f64 \<Rightarrow> nat" where
  "f64_as_u32 = f64_as U32_MAX"

definition f64_as_u64 :: "f64 \<Rightarrow> nat" where
  "f64_as_u64 = f64_as U64_MAX"

subsection \<open>Representable values and bounds\<close>

definition f64_rep :: "rat \<Rightarrow> bool" where
  "f64_rep x \<longleftrightarrow> f64_of x = Fin x"

lemma f64_rep_dyadic:
  assumes "x = of_nat m / 2 ^ k" and "m \<le> 2 ^ 53" and "k \<le> 1074"
  shows "f64_rep x" and "f64_rep (- x)"
proof -
  have "x = of_nat m * pow2 (- int k)" using assms(1) by (simp add: pow2_def)
  then have e: "round_mag x = x" by (rule round_mag_exact) (use assms in simp_all)
  have nn: "0 \<le> x" using assms(1) by simp
  have "x * 1 \<le> x * 2 ^ k" using nn by (intro mult_left_mono) simp_all
  then have "x \<le> of_nat m" using assms(1) by simp
  also have "of_nat m \<le> (of_nat (2 ^ 53) :: rat)" using assms(2) by (simp only: of_nat_le_iff)
  also have "\<dots> < pow2 1024" by (simp add: pow2_less_iff flip: pow2_nat[of 53, simplified])
  finally have "\<not> pow2 1024 \<le> x" by simp
  then show "f64_rep x" and "f64_rep (- x)" using e nn by (simp_all add: f64_rep_def f64_of_def)
qed

lemma f64_rep_nat: "n \<le> 2 ^ 53 \<Longrightarrow> f64_rep (of_nat n)"
  by (rule f64_rep_dyadic(1)[of _ n 0]) simp_all

lemma f64_of_nat_exact: "n \<le> 2 ^ 53 \<Longrightarrow> f64_of_nat n = Fin (of_nat n)"
  using f64_rep_nat[of n] by (simp add: f64_of_nat_def f64_rep_def)

lemma f64_of_u32: "n \<le> U32_MAX \<Longrightarrow> f64_of_nat n = Fin (of_nat n)"
  by (rule f64_of_nat_exact) (simp add: U32_MAX_def)

text \<open>Rounding does not leave an interval with representable ends.\<close>

definition signed_mag :: "rat \<Rightarrow> rat" where
  "signed_mag x = (if x < 0 then - round_mag (- x) else round_mag x)"

lemma signed_mag_mono: "x \<le> y \<Longrightarrow> signed_mag x \<le> signed_mag y"
  using round_mag_mono[of "- y" "- x"] round_mag_mono[of x y] round_mag_nonneg[of "- x"] round_mag_nonneg[of y]
  by (auto simp: signed_mag_def not_less)

lemma f64_of_signed: "f64_of x = (if pow2 1024 \<le> \<bar>signed_mag x\<bar> then Inf (x < 0) else Fin (signed_mag x))"
  using round_mag_nonneg[of x] round_mag_nonneg[of "- x"] by (auto simp: f64_of_def signed_mag_def Let_def)

lemma f64_rep_signed: "f64_rep x \<Longrightarrow> signed_mag x = x \<and> \<bar>x\<bar> < pow2 1024"
  by (auto simp: f64_rep_def f64_of_signed split: if_splits)

lemma f64_of_between:
  assumes "f64_rep lo" and "f64_rep hi" and "lo \<le> x" and "x \<le> hi"
  shows "\<exists>r. f64_of x = Fin r \<and> lo \<le> r \<and> r \<le> hi"
proof -
  have "lo \<le> signed_mag x" "signed_mag x \<le> hi"
    using signed_mag_mono[OF assms(3)] signed_mag_mono[OF assms(4)] f64_rep_signed[OF assms(1)]
      f64_rep_signed[OF assms(2)] by simp_all
  moreover from this have "\<bar>signed_mag x\<bar> < pow2 1024"
    using f64_rep_signed[OF assms(1)] f64_rep_signed[OF assms(2)] by linarith
  ultimately show ?thesis by (simp add: f64_of_signed)
qed

lemma f64_of_mono: "x \<le> y \<Longrightarrow> f64_of x = Fin a \<Longrightarrow> f64_of y = Fin b \<Longrightarrow> a \<le> b"
  using signed_mag_mono[of x y] by (auto simp: f64_of_signed split: if_splits)

lemma f64_rep_0 [simp]: "f64_rep 0"
  using f64_rep_nat[of 0] by simp

lemma f64_rep_1 [simp]: "f64_rep 1"
  using f64_rep_nat[of 1] by simp

lemma f64_rep_half [simp]: "f64_rep (1 / 2)"
  using f64_rep_dyadic(1)[of _ 1 1] by simp

lemma f64_as_u32_le: "f64_as_u32 x \<le> U32_MAX"
  by (cases x) (simp_all add: f64_as_u32_def)

lemma f64_as_u32_Fin: "f64_as_u32 (Fin x) = min (nat \<lfloor>x\<rfloor>) U32_MAX"
  by (simp add: f64_as_u32_def)

lemma nat_floor_le: "x \<le> of_nat n \<Longrightarrow> nat \<lfloor>x :: rat\<rfloor> \<le> n"
  by (metis floor_mono floor_of_nat nat_int nat_mono)

lemma nat_floor_ge: "of_nat n \<le> x \<Longrightarrow> n \<le> nat \<lfloor>x :: rat\<rfloor>"
  by (metis floor_mono floor_of_nat nat_int nat_mono)

end
