(* ===== verification/Dctcp.thy ===== *)
theory Dctcp
  imports Reno F64
begin

text \<open>
  \<open>congestion.rs\<close>, \<open>Dctcp\<close>: Reno's growth and loss reaction, and a window cut in
  proportion to the smoothed fraction of ECN-marked bytes (RFC 8257).
\<close>

abbreviation f_one :: f64 where "f_one \<equiv> Fin 1"
abbreviation f_two :: f64 where "f_two \<equiv> Fin 2"

definition DCTCP_G :: f64 where
  "DCTCP_G = fdiv f_one (Fin 16)"

text \<open>One window's update of the smoothed marked fraction.\<close>

definition ecn_alpha :: "f64 \<Rightarrow> nat \<Rightarrow> nat \<Rightarrow> f64" where
  "ecn_alpha alpha marked acked =
     (let fraction = fdiv (f64_of_nat marked) (f64_of_nat acked)
      in fadd (fmul (fsub f_one DCTCP_G) alpha) (fmul DCTCP_G fraction))"

record dctcp =
  dctcp_cwnd :: nat
  dctcp_ssthresh :: nat
  dctcp_mss :: nat
  dctcp_ca_acc :: nat
  dctcp_dup_acks :: nat
  dctcp_alpha :: f64
  dctcp_acked_in_window :: nat
  dctcp_marked_in_window :: nat
  dctcp_window_bytes :: nat

definition dctcp_new :: "u16 \<Rightarrow> dctcp" where
  "dctcp_new mss = \<lparr>dctcp_cwnd = initial_window (unat mss), dctcp_ssthresh = U32_MAX,
     dctcp_mss = unat mss, dctcp_ca_acc = 0, dctcp_dup_acks = 0, dctcp_alpha = f_one,
     dctcp_acked_in_window = 0, dctcp_marked_in_window = 0,
     dctcp_window_bytes = initial_window (unat mss)\<rparr>"

definition dctcp_in_slow_start :: "dctcp \<Rightarrow> bool" where
  "dctcp_in_slow_start self \<longleftrightarrow> dctcp_cwnd self < dctcp_ssthresh self"

definition dctcp_on_ack :: "dctcp \<Rightarrow> instant \<Rightarrow> nat \<Rightarrow> dctcp option" where
  "dctcp_on_ack self now acked =
     (let self = self\<lparr>dctcp_dup_acks := 0\<rparr> in
      if acked = 0 then Some self
      else if dctcp_in_slow_start self then
        Some (self\<lparr>dctcp_cwnd := sat_add32 (dctcp_cwnd self) (min acked (dctcp_mss self))\<rparr>)
      else do {
        (acc, cwnd) \<leftarrow> ca_loop (\<lambda>w. sat_add32 w (dctcp_mss self))
                        (sat_add32 (dctcp_ca_acc self) acked) (dctcp_cwnd self);
        Some (self\<lparr>dctcp_ca_acc := acc, dctcp_cwnd := cwnd\<rparr>)
      })"

definition dctcp_on_dup_ack :: "dctcp \<Rightarrow> instant \<Rightarrow> nat \<Rightarrow> bool \<times> dctcp" where
  "dctcp_on_dup_ack self now flight_size =
     (let self = self\<lparr>dctcp_dup_acks := sat_inc8 (dctcp_dup_acks self)\<rparr> in
      if dctcp_dup_acks self = 3 then
        let t = max (flight_size div 2) (2 * dctcp_mss self)
        in (True, self\<lparr>dctcp_ssthresh := t, dctcp_cwnd := t, dctcp_ca_acc := 0\<rparr>)
      else (False, self))"

definition dctcp_enter_recovery :: "dctcp \<Rightarrow> instant \<Rightarrow> nat \<Rightarrow> dctcp" where
  "dctcp_enter_recovery self now flight_size =
     (let t = max (flight_size div 2) (2 * dctcp_mss self)
      in self\<lparr>dctcp_ssthresh := t, dctcp_cwnd := t, dctcp_ca_acc := 0, dctcp_dup_acks := 0\<rparr>)"

definition dctcp_on_rto :: "dctcp \<Rightarrow> instant \<Rightarrow> nat \<Rightarrow> dctcp" where
  "dctcp_on_rto self now flight_size =
     self\<lparr>dctcp_ssthresh := max (flight_size div 2) (2 * dctcp_mss self),
       dctcp_cwnd := dctcp_mss self, dctcp_ca_acc := 0\<rparr>"

definition dctcp_set_mss :: "dctcp \<Rightarrow> u16 \<Rightarrow> dctcp" where
  "dctcp_set_mss self mss =
     self\<lparr>dctcp_mss := unat mss, dctcp_cwnd := max (dctcp_cwnd self) (unat mss), dctcp_ca_acc := 0\<rparr>"

definition dctcp_on_ecn :: "dctcp \<Rightarrow> instant \<Rightarrow> nat \<Rightarrow> nat \<Rightarrow> dctcp" where
  "dctcp_on_ecn self now acked marked =
     (if acked = 0 then self
      else let self = self\<lparr>
          dctcp_acked_in_window := sat_add32 (dctcp_acked_in_window self) acked,
          dctcp_marked_in_window := sat_add32 (dctcp_marked_in_window self) (min marked acked)\<rparr> in
        if dctcp_acked_in_window self < dctcp_window_bytes self then self
        else let alpha = ecn_alpha (dctcp_alpha self) (dctcp_marked_in_window self)
                           (dctcp_acked_in_window self);
                 self = self\<lparr>dctcp_alpha := alpha\<rparr>;
                 cwnd_before = dctcp_cwnd self;
                 self = (if 0 < dctcp_marked_in_window self then
                     let reduced = f64_as_u32 (fmul (f64_of_nat (dctcp_cwnd self))
                                     (fsub f_one (fdiv alpha f_two)));
                         w = max reduced (dctcp_mss self)
                     in self\<lparr>dctcp_cwnd := w, dctcp_ssthresh := w, dctcp_ca_acc := 0\<rparr>
                   else self)
             in self\<lparr>dctcp_acked_in_window := 0, dctcp_marked_in_window := 0,
                  dctcp_window_bytes := max cwnd_before (dctcp_mss self)\<rparr>)"

section \<open>The smoothed fraction\<close>

definition unit_f64 :: "f64 \<Rightarrow> bool" where
  "unit_f64 x \<longleftrightarrow> (\<exists>r. x = Fin r \<and> 0 \<le> r \<and> r \<le> 1)"

lemma f64_of_unit: "0 \<le> x \<Longrightarrow> x \<le> 1 \<Longrightarrow> unit_f64 (f64_of x)"
  using f64_of_between[of 0 1 x] by (simp add: unit_f64_def)

lemma DCTCP_G_value: "DCTCP_G = Fin (1 / 16)"
  using f64_rep_dyadic(1)[of "1 / 16" 1 4] by (simp add: DCTCP_G_def f64_rep_def)

lemma one_minus_G: "fsub f_one DCTCP_G = Fin (15 / 16)"
  using f64_rep_dyadic(1)[of "15 / 16" 15 4] by (simp add: fsub_def DCTCP_G_value f64_rep_def)

lemma ecn_alpha_unit:
  assumes "unit_f64 alpha" and "marked \<le> acked" and "0 < acked" and "acked \<le> U32_MAX"
  shows "unit_f64 (ecn_alpha alpha marked acked)"
proof -
  obtain a where a: "alpha = Fin a" "0 \<le> a" "a \<le> 1" using assms(1) by (auto simp: unit_f64_def)
  have n: "f64_of_nat marked = Fin (of_nat marked)" "f64_of_nat acked = Fin (of_nat acked)"
    using assms by (simp_all add: f64_of_u32)
  obtain f where f: "fdiv (f64_of_nat marked) (f64_of_nat acked) = Fin f" "0 \<le> f" "f \<le> 1"
    using f64_of_unit[of "of_nat marked / of_nat acked"] assms(2,3) by (auto simp: n unit_f64_def)
  obtain u where u: "f64_of (15 / 16 * a) = Fin u" "0 \<le> u" "u \<le> 15 / 16"
    using f64_of_between[of 0 "15 / 16" "15 / 16 * a"] f64_rep_dyadic(1)[of "15 / 16" 15 4] a by auto
  obtain v where v: "f64_of (1 / 16 * f) = Fin v" "0 \<le> v" "v \<le> 1 / 16"
    using f64_of_between[of 0 "1 / 16" "1 / 16 * f"] f64_rep_dyadic(1)[of "1 / 16" 1 4] f by auto
  have "ecn_alpha alpha marked acked = f64_of (u + v)"
    unfolding ecn_alpha_def Let_def f(1) one_minus_G a(1)
    by (simp only: DCTCP_G_value fmul.simps u(1) v(1) fadd.simps)
  then show ?thesis using f64_of_unit[of "u + v"] u v by simp
qed

text \<open>Cutting a window by at most its half, and never growing it.\<close>

lemma scale_window:
  assumes "w \<le> U32_MAX" and "lo = 0 \<or> lo = 1 / 2" and "s = Fin r" and "lo \<le> r" and "r \<le> 1"
  shows "f64_as_u32 (fmul (f64_of_nat w) s) \<le> w"
    and "lo = 1 / 2 \<Longrightarrow> w div 2 \<le> f64_as_u32 (fmul (f64_of_nat w) s)"
proof -
  have w53: "w \<le> 2 ^ 53" using assms(1) by (simp add: U32_MAX_def)
  have "f64_rep (of_nat w)" using w53 by (rule f64_rep_nat)
  moreover have "f64_rep (of_nat w * lo)"
  proof (cases "lo = 0")
    case False
    then have "lo = 1 / 2" using assms(2) by blast
    then have "of_nat w * lo = of_nat w / 2 ^ 1" by simp
    then show ?thesis using w53 by (rule f64_rep_dyadic(1)) simp
  qed simp
  moreover have "of_nat w * lo \<le> of_nat w * r" "of_nat w * r \<le> of_nat w"
    using assms(4,5) by (simp_all add: mult_left_mono mult_left_le)
  ultimately obtain v where v: "f64_of (of_nat w * r) = Fin v" "of_nat w * lo \<le> v" "v \<le> of_nat w"
    using f64_of_between by blast
  have e: "f64_as_u32 (fmul (f64_of_nat w) s) = min (nat \<lfloor>v\<rfloor>) U32_MAX"
    using v(1) assms(1,3) by (simp add: f64_of_u32 f64_as_u32_Fin)
  show le: "f64_as_u32 (fmul (f64_of_nat w) s) \<le> w"
    unfolding e using nat_floor_le[OF v(3)] by simp
  assume lo: "lo = 1 / 2"
  have "(of_nat (w div 2) :: rat) \<le> of_nat w / 2"
  proof -
    have "of_nat (2 * (w div 2)) \<le> (of_nat w :: rat)" by (simp only: of_nat_le_iff)
    then show ?thesis by simp
  qed
  also have "\<dots> = of_nat w * lo" by (simp only: lo times_divide_eq_right mult_1_right)
  also note v(2)
  finally have "of_nat (w div 2) \<le> v" .
  then show "w div 2 \<le> f64_as_u32 (fmul (f64_of_nat w) s)"
    unfolding e using nat_floor_ge assms(1) by simp
qed

lemma alpha_cut:
  assumes "unit_f64 alpha" and "w \<le> U32_MAX"
  shows "f64_as_u32 (fmul (f64_of_nat w) (fsub f_one (fdiv alpha f_two))) \<le> w"
    and "w div 2 \<le> f64_as_u32 (fmul (f64_of_nat w) (fsub f_one (fdiv alpha f_two)))"
proof -
  obtain a where a: "alpha = Fin a" "0 \<le> a" "a \<le> 1" using assms(1) by (auto simp: unit_f64_def)
  obtain h where h: "f64_of (a / 2) = Fin h" "0 \<le> h" "h \<le> 1 / 2"
    using f64_of_between[of 0 "1 / 2" "a / 2"] a by auto
  obtain s where s: "f64_of (1 - h) = Fin s" "1 / 2 \<le> s" "s \<le> 1"
    using f64_of_between[of "1 / 2" 1 "1 - h"] h by auto
  have e: "fsub f_one (fdiv alpha f_two) = Fin s" using h(1) s(1) by (simp add: a(1) fsub_def)
  show "f64_as_u32 (fmul (f64_of_nat w) (fsub f_one (fdiv alpha f_two))) \<le> w"
    and "w div 2 \<le> f64_as_u32 (fmul (f64_of_nat w) (fsub f_one (fdiv alpha f_two)))"
    using scale_window[OF assms(2) _ e s(2,3)] by simp_all
qed

section \<open>DCTCP keeps the contract\<close>

definition dctcp_inv :: "dctcp \<Rightarrow> bool" where
  "dctcp_inv c \<longleftrightarrow> 0 < dctcp_mss c \<and> dctcp_mss c \<le> 65535 \<and> dctcp_mss c \<le> dctcp_cwnd c
     \<and> dctcp_cwnd c \<le> U32_MAX \<and> unit_f64 (dctcp_alpha c)
     \<and> dctcp_marked_in_window c \<le> dctcp_acked_in_window c \<and> dctcp_acked_in_window c \<le> U32_MAX"

lemma dctcp_inv_new: "mss \<noteq> 0 \<Longrightarrow> dctcp_inv (dctcp_new mss)"
  using initial_window_bounds[of "unat mss"] unat_u16_bound[of mss]
  by (simp add: dctcp_inv_def dctcp_new_def U32_MAX_def unat_gt_0 unit_f64_def)

lemma dctcp_on_ack_total:
  assumes "dctcp_inv c"
  shows "\<exists>c'. dctcp_on_ack c now n = Some c' \<and> dctcp_inv c' \<and> dctcp_mss c' = dctcp_mss c
    \<and> dctcp_cwnd c \<le> dctcp_cwnd c'"
proof -
  obtain acc' w' where l: "ca_loop (\<lambda>w. sat_add32 w (dctcp_mss c)) (sat_add32 (dctcp_ca_acc c) n) (dctcp_cwnd c)
      = Some (acc', w')" "dctcp_cwnd c \<le> w'" "w' \<le> U32_MAX"
    using ca_loop_window[of "dctcp_mss c" "dctcp_cwnd c" "\<lambda>w. sat_add32 w (dctcp_mss c)"] assms
    by (fastforce simp: dctcp_inv_def sat_add32_def)
  show ?thesis
    using l assms by (auto simp: dctcp_on_ack_def dctcp_inv_def Let_def sat_add32_def)
qed

lemma dctcp_on_ecn_ok:
  assumes "dctcp_inv c"
  shows "dctcp_inv (dctcp_on_ecn c now n m) \<and> dctcp_mss (dctcp_on_ecn c now n m) = dctcp_mss c
    \<and> dctcp_cwnd (dctcp_on_ecn c now n m) \<le> dctcp_cwnd c
    \<and> dctcp_cwnd c div 2 \<le> dctcp_cwnd (dctcp_on_ecn c now n m)"
proof (cases "n = 0")
  case True
  then show ?thesis using assms by (simp add: dctcp_on_ecn_def)
next
  case False
  define ac mk where "ac = sat_add32 (dctcp_acked_in_window c) n"
    and "mk = sat_add32 (dctcp_marked_in_window c) (min m n)"
  have b: "mk \<le> ac" "0 < ac" "ac \<le> U32_MAX"
    using assms False by (auto simp: ac_def mk_def sat_add32_def dctcp_inv_def U32_MAX_def)
  have al: "unit_f64 (ecn_alpha (dctcp_alpha c) mk ac)"
    using assms b by (intro ecn_alpha_unit) (simp_all add: dctcp_inv_def)
  note cut = alpha_cut[OF al, of "dctcp_cwnd c"]
  show ?thesis
    using assms False b al cut
    by (auto simp: dctcp_on_ecn_def Let_def dctcp_inv_def simp flip: ac_def mk_def)
qed

interpretation dctcp_cc: loss_based_control dctcp_cwnd dctcp_ssthresh dctcp_mss dctcp_inv dctcp_on_ack
  dctcp_on_dup_ack dctcp_enter_recovery dctcp_on_rto dctcp_on_ecn "\<lambda>c s. c"
proof
  fix c c' :: dctcp and now n fl m s
  assume c: "dctcp_inv c"
  note [simp] = dctcp_on_dup_ack_def dctcp_enter_recovery_def dctcp_on_rto_def Let_def
  show "0 < dctcp_mss c \<and> dctcp_mss c \<le> dctcp_cwnd c \<and> dctcp_cwnd c \<le> U32_MAX"
    using c by (simp add: dctcp_inv_def)
  show "\<exists>c'. dctcp_on_ack c now n = Some c' \<and> dctcp_inv c' \<and> dctcp_mss c' = dctcp_mss c"
    using dctcp_on_ack_total[OF c] by blast
  show "dctcp_on_ack c now n = Some c' \<Longrightarrow> dctcp_cwnd c \<le> dctcp_cwnd c'"
    using dctcp_on_ack_total[OF c, of now n] by auto
  show "dctcp_inv c \<and> dctcp_mss c = dctcp_mss c" using c by simp
  show "dctcp_inv (dctcp_on_ecn c now n m) \<and> dctcp_mss (dctcp_on_ecn c now n m) = dctcp_mss c"
    and "dctcp_cwnd (dctcp_on_ecn c now n m) \<le> dctcp_cwnd c"
    using dctcp_on_ecn_ok[OF c] by simp_all
  show "dctcp_on_dup_ack c now fl = (False, c') \<Longrightarrow> dctcp_cwnd c' = dctcp_cwnd c"
    by (auto split: if_splits)
  assume fl: "fl \<le> U32_MAX"
  note [simp] = dctcp_inv_def U32_MAX_def
  show "dctcp_inv (snd (dctcp_on_dup_ack c now fl)) \<and> dctcp_mss (snd (dctcp_on_dup_ack c now fl)) = dctcp_mss c"
    "dctcp_inv (dctcp_enter_recovery c now fl) \<and> dctcp_mss (dctcp_enter_recovery c now fl) = dctcp_mss c"
    "dctcp_inv (dctcp_on_rto c now fl) \<and> dctcp_mss (dctcp_on_rto c now fl) = dctcp_mss c"
    "dctcp_cwnd (dctcp_on_rto c now fl) = dctcp_mss c"
    "2 * dctcp_mss c \<le> dctcp_ssthresh (dctcp_enter_recovery c now fl)
      \<and> dctcp_ssthresh (dctcp_enter_recovery c now fl) \<le> max fl (2 * dctcp_mss c)
      \<and> dctcp_cwnd (dctcp_enter_recovery c now fl) = dctcp_ssthresh (dctcp_enter_recovery c now fl)"
    "2 * dctcp_mss c \<le> dctcp_ssthresh (dctcp_on_rto c now fl)
      \<and> dctcp_ssthresh (dctcp_on_rto c now fl) \<le> max fl (2 * dctcp_mss c)"
    "dctcp_on_dup_ack c now fl = (True, c') \<Longrightarrow> 2 * dctcp_mss c \<le> dctcp_ssthresh c'
      \<and> dctcp_ssthresh c' \<le> max fl (2 * dctcp_mss c) \<and> dctcp_cwnd c' = dctcp_ssthresh c'"
    using c fl by (auto split: if_splits)
qed

end
