(* ===== verification/Cubic.thy ===== *)
theory Cubic
  imports Dctcp
begin

text \<open>
  \<open>congestion.rs\<close>, \<open>Cubic\<close> (RFC 8312): a window that follows a cubic of the time
  since the last loss, with a floor that tracks standard TCP. The two \<open>while\<close> loops run on
  \<open>f64\<close> counters; \<open>None\<close> is a loop that never ends.
\<close>

section \<open>The curve\<close>

definition CUBIC_C :: f64 where "CUBIC_C = f64_of (4 / 10)"
definition CUBIC_BETA :: f64 where "CUBIC_BETA = f64_of (7 / 10)"

definition newton_step :: "f64 \<Rightarrow> f64 \<Rightarrow> f64" where
  "newton_step a x = fdiv (fadd (fmul f_two x) (fdiv a (fmul x x))) (Fin 3)"

definition cubic_root :: "f64 \<Rightarrow> f64" where
  "cubic_root a =
     (if fle a (Fin 0) then Fin 0
      else let x = (if fle f_one a then a else f_one) in (newton_step a ^^ 60) x)"

definition cubic_window :: "f64 \<Rightarrow> f64 \<Rightarrow> f64 \<Rightarrow> f64" where
  "cubic_window origin_seg k t =
     (let d = fsub t k in fadd origin_seg (fmul (fmul (fmul CUBIC_C d) d) d))"

section \<open>The controller\<close>

record cubic =
  cubic_cwnd :: nat
  cubic_ssthresh :: nat
  cubic_mss :: nat
  cubic_w_max :: f64
  cubic_w_last_max :: f64
  cubic_epoch_start :: "instant option"
  cubic_k :: f64
  cubic_origin :: f64
  cubic_w_tcp :: f64
  cubic_ack_cnt :: f64
  cubic_cwnd_cnt :: f64
  cubic_dup_acks :: nat

definition cubic_new :: "u16 \<Rightarrow> cubic" where
  "cubic_new mss = \<lparr>cubic_cwnd = initial_window (unat mss), cubic_ssthresh = U32_MAX,
     cubic_mss = unat mss, cubic_w_max = Fin 0, cubic_w_last_max = Fin 0, cubic_epoch_start = None,
     cubic_k = Fin 0, cubic_origin = Fin 0, cubic_w_tcp = Fin 0, cubic_ack_cnt = Fin 0,
     cubic_cwnd_cnt = Fin 0, cubic_dup_acks = 0\<rparr>"

definition cubic_congestion_event :: "cubic \<Rightarrow> bool \<Rightarrow> cubic" where
  "cubic_congestion_event self is_rto =
     (let cwnd_seg = fdiv (f64_of_nat (cubic_cwnd self)) (f64_of_nat (cubic_mss self));
          self = (if flt cwnd_seg (cubic_w_last_max self)
            then self\<lparr>cubic_w_last_max := cwnd_seg,
                   cubic_w_max := fdiv (fmul cwnd_seg (fadd f_one CUBIC_BETA)) f_two\<rparr>
            else self\<lparr>cubic_w_last_max := cwnd_seg, cubic_w_max := cwnd_seg\<rparr>);
          t = max (f64_as_u32 (fmul (f64_of_nat (cubic_cwnd self)) CUBIC_BETA)) (2 * cubic_mss self)
      in self\<lparr>cubic_ssthresh := t, cubic_cwnd := (if is_rto then cubic_mss self else t),
           cubic_epoch_start := None, cubic_ack_cnt := Fin 0, cubic_cwnd_cnt := Fin 0\<rparr>)"

partial_function (option) tcp_loop :: "f64 \<Rightarrow> f64 \<Rightarrow> f64 \<Rightarrow> (f64 \<times> f64) option" where
  "tcp_loop delta ack_cnt w_tcp =
     (if flt delta ack_cnt then tcp_loop delta (fsub ack_cnt delta) (fadd w_tcp f_one)
      else Some (ack_cnt, w_tcp))"

partial_function (option) release_loop :: "nat \<Rightarrow> f64 \<Rightarrow> f64 \<Rightarrow> nat \<Rightarrow> (f64 \<times> nat) option" where
  "release_loop mss cnt cwnd_cnt cwnd =
     (if fle cnt cwnd_cnt then release_loop mss cnt (fsub cwnd_cnt cnt) (sat_add32 cwnd mss)
      else Some (cwnd_cnt, cwnd))"

text \<open>The first ACK of an epoch anchors the curve; later ones only count.\<close>

definition cubic_anchor :: "cubic \<Rightarrow> instant \<Rightarrow> f64 \<Rightarrow> f64 \<Rightarrow> cubic" where
  "cubic_anchor self now acked_seg cwnd_seg =
     (case cubic_epoch_start self of
        None \<Rightarrow>
          let self = self\<lparr>cubic_epoch_start := Some now, cubic_ack_cnt := acked_seg,
                       cubic_cwnd_cnt := Fin 0, cubic_w_tcp := cwnd_seg\<rparr>
          in if flt cwnd_seg (cubic_w_max self)
             then self\<lparr>cubic_k := cubic_root (fdiv (fsub (cubic_w_max self) cwnd_seg) CUBIC_C),
                    cubic_origin := cubic_w_max self\<rparr>
             else self\<lparr>cubic_k := Fin 0, cubic_origin := cwnd_seg\<rparr>
      | Some _ \<Rightarrow> self\<lparr>cubic_ack_cnt := fadd (cubic_ack_cnt self) acked_seg\<rparr>)"

definition cubic_alpha :: f64 where
  "cubic_alpha = fdiv (fmul (Fin 3) (fsub f_one CUBIC_BETA)) (fadd f_one CUBIC_BETA)"

text \<open>The acknowledged segments per one-segment increase, after the TCP-friendly floor.\<close>

definition cubic_cnt :: "f64 \<Rightarrow> f64 \<Rightarrow> f64 \<Rightarrow> f64" where
  "cubic_cnt target cwnd_seg w_tcp =
     (let cnt = (if flt cwnd_seg target then fdiv cwnd_seg (fsub target cwnd_seg)
                 else fmul (Fin 100) cwnd_seg);
          cnt = (if flt cwnd_seg w_tcp
                 then let tcp_cnt = fdiv cwnd_seg (fsub w_tcp cwnd_seg)
                      in if flt tcp_cnt cnt then tcp_cnt else cnt
                 else cnt)
      in if flt cnt f_one then f_one else cnt)"

definition cubic_update :: "cubic \<Rightarrow> instant \<Rightarrow> nat \<Rightarrow> cubic option" where
  "cubic_update self now acked =
     do {
       let mss_f = f64_of_nat (cubic_mss self);
       let acked_seg = fdiv (f64_of_nat acked) mss_f;
       let cwnd_seg = fdiv (f64_of_nat (cubic_cwnd self)) mss_f;
       let self = cubic_anchor self now acked_seg cwnd_seg;
       let t = fdiv (f64_of_nat (saturating_micros_since now (the (cubic_epoch_start self)))) (Fin 1000000);
       let target = cubic_window (cubic_origin self) (cubic_k self) t;
       let delta = fdiv cwnd_seg cubic_alpha;
       (ack_cnt, w_tcp) \<leftarrow> (if flt (Fin 0) delta
          then tcp_loop delta (cubic_ack_cnt self) (cubic_w_tcp self)
          else Some (cubic_ack_cnt self, cubic_w_tcp self));
       let cnt = cubic_cnt target cwnd_seg w_tcp;
       (cwnd_cnt, cwnd) \<leftarrow> release_loop (cubic_mss self) cnt
          (fadd (cubic_cwnd_cnt self) acked_seg) (cubic_cwnd self);
       Some (self\<lparr>cubic_ack_cnt := ack_cnt, cubic_w_tcp := w_tcp,
         cubic_cwnd_cnt := cwnd_cnt, cubic_cwnd := cwnd\<rparr>)
     }"

definition cubic_on_ack :: "cubic \<Rightarrow> instant \<Rightarrow> nat \<Rightarrow> cubic option" where
  "cubic_on_ack self now acked =
     (let self = self\<lparr>cubic_dup_acks := 0\<rparr> in
      if acked = 0 then Some self
      else if cubic_cwnd self < cubic_ssthresh self
      then Some (self\<lparr>cubic_cwnd := sat_add32 (cubic_cwnd self) (min acked (cubic_mss self))\<rparr>)
      else cubic_update self now acked)"

definition cubic_on_dup_ack :: "cubic \<Rightarrow> instant \<Rightarrow> nat \<Rightarrow> bool \<times> cubic" where
  "cubic_on_dup_ack self now flight_size =
     (let self = self\<lparr>cubic_dup_acks := sat_inc8 (cubic_dup_acks self)\<rparr> in
      if cubic_dup_acks self = 3 then (True, cubic_congestion_event self False) else (False, self))"

definition cubic_enter_recovery :: "cubic \<Rightarrow> instant \<Rightarrow> nat \<Rightarrow> cubic" where
  "cubic_enter_recovery self now flight_size =
     (cubic_congestion_event self False)\<lparr>cubic_dup_acks := 0\<rparr>"

definition cubic_on_rto :: "cubic \<Rightarrow> instant \<Rightarrow> nat \<Rightarrow> cubic" where
  "cubic_on_rto self now flight_size = cubic_congestion_event self True"

definition cubic_set_mss :: "cubic \<Rightarrow> u16 \<Rightarrow> cubic" where
  "cubic_set_mss self mss = self\<lparr>cubic_mss := unat mss, cubic_cwnd := max (cubic_cwnd self) (unat mss)\<rparr>"

section \<open>The loops end\<close>

text \<open>Taking at least one off a counter below \<open>2\<^sup>5\<^sup>3\<close> takes off at least a half after rounding.\<close>

lemma f64_sub_decreases:
  assumes "1 \<le> d" and "d \<le> a" and "a \<le> 9007199254740992"
  shows "\<exists>r. f64_of (a - d) = Fin r \<and> 0 \<le> r \<and> r \<le> a - 1 / 2"
proof -
  have "f64_rep (of_nat 9007199254740992)" by (rule f64_rep_nat) simp
  then obtain r where r: "f64_of (a - d) = Fin r" "0 \<le> r"
    using f64_of_between[of 0 "of_nat 9007199254740992" "a - d"] assms by auto
  have rm: "r = round_mag (a - d)" using r(1) assms by (simp add: f64_of_def Let_def split: if_splits)
  have "r \<le> a - d + 1 / 2"
  proof (cases "a - d = 0")
    case True
    then show ?thesis using rm by (simp add: round_mag_def)
  next
    case False
    then have x: "0 < a - d" using assms by simp
    have "a - d < pow2 53" using assms by (simp add: pow2_nat[of 53, simplified])
    then have "pow2 (rlog2 (a - d)) < pow2 53" using rlog2_bounds(1)[OF x] by simp
    then have "rlog2 (a - d) \<le> 52" by (simp add: pow2_less_iff)
    then have "ulp (a - d) \<le> pow2 0" unfolding ulp_def by (intro pow2_mono) simp
    then have u: "ulp (a - d) \<le> 1" by (simp add: pow2_def)
    have "of_int (rne ((a - d) / ulp (a - d))) \<le> (a - d) / ulp (a - d) + 1 / 2"
      using abs_ge_self[of "of_int (rne ((a - d) / ulp (a - d))) - (a - d) / ulp (a - d)"]
        rne_error[of "(a - d) / ulp (a - d)"] by linarith
    then have "r \<le> ((a - d) / ulp (a - d) + 1 / 2) * ulp (a - d)"
      using False by (simp add: rm round_mag_def mult_right_mono less_imp_le)
    also have "\<dots> = a - d + ulp (a - d) / 2"
      using less_imp_neq[OF ulp_pos[of "a - d"]] by (simp add: distrib_right)
    finally show ?thesis using u by simp
  qed
  then show ?thesis using r assms(1) by auto
qed

lemma tcp_loop_ends:
  assumes "1 \<le> d" and "0 \<le> a" and "a \<le> 9007199254740992"
  shows "\<exists>a' w'. tcp_loop (Fin d) (Fin a) w = Some (Fin a', w') \<and> 0 \<le> a' \<and> a' \<le> max d 0 \<and> a' \<le> a"
  using assms(2,3)
proof (induction "nat \<lceil>2 * a\<rceil>" arbitrary: a w rule: less_induct)
  case less
  show ?case
  proof (cases "d < a")
    case False
    then show ?thesis using less.prems assms(1) by (simp add: tcp_loop.simps)
  next
    case True
    obtain r where r: "f64_of (a - d) = Fin r" "0 \<le> r" "r \<le> a - 1 / 2"
      using f64_sub_decreases[OF assms(1) less_imp_le[OF True] less.prems(2)] by blast
    have "2 * r + 1 \<le> 2 * a" using r(3) by simp
    then have "\<lceil>2 * r\<rceil> + 1 \<le> \<lceil>2 * a\<rceil>" by (metis ceiling_add_one ceiling_mono)
    moreover have "0 \<le> \<lceil>2 * r\<rceil>" using r(2) by simp
    ultimately have m: "nat \<lceil>2 * r\<rceil> < nat \<lceil>2 * a\<rceil>" by linarith
    have "r \<le> 9007199254740992" using r(3) less.prems by simp
    from less.hyps[OF m r(2) this, of "fadd w f_one"] show ?thesis
      using True r less.prems by (auto simp: tcp_loop.simps[of "Fin d" "Fin a"] fsub_def)
  qed
qed

lemma release_loop_ends:
  assumes "cnt = Inf False \<or> (\<exists>k. cnt = Fin k \<and> 1 \<le> k)" and "0 \<le> a" and "a \<le> 9007199254740992"
    and "w \<le> U32_MAX"
  shows "\<exists>a' w'. release_loop m cnt (Fin a) w = Some (Fin a', w') \<and> 0 \<le> a' \<and> a' \<le> a
    \<and> w \<le> w' \<and> w' \<le> U32_MAX"
  using assms(2-4)
proof (induction "nat \<lceil>2 * a\<rceil>" arbitrary: a w rule: less_induct)
  case less
  show ?case
  proof (cases "fle cnt (Fin a)")
    case False
    then show ?thesis using less.prems by (simp add: release_loop.simps)
  next
    case True
    then obtain k where k: "cnt = Fin k" "1 \<le> k" "k \<le> a" using assms(1) by auto
    obtain r where r: "f64_of (a - k) = Fin r" "0 \<le> r" "r \<le> a - 1 / 2"
      using f64_sub_decreases[OF k(2,3) less.prems(2)] by blast
    have "2 * r + 1 \<le> 2 * a" using r(3) by simp
    then have "\<lceil>2 * r\<rceil> + 1 \<le> \<lceil>2 * a\<rceil>" by (metis ceiling_add_one ceiling_mono)
    moreover have "0 \<le> \<lceil>2 * r\<rceil>" using r(2) by simp
    ultimately have m: "nat \<lceil>2 * r\<rceil> < nat \<lceil>2 * a\<rceil>" by linarith
    have le: "r \<le> 9007199254740992" using r(3) less.prems by simp
    have eq: "release_loop m cnt (Fin a) w = release_loop m cnt (Fin r) (sat_add32 w m)"
      by (subst release_loop.simps, simp only: True if_True, simp add: k(1) fsub_def r(1))
    have w: "sat_add32 w m \<le> U32_MAX" "w \<le> sat_add32 w m" for m
      using less.prems(3) by (simp_all add: sat_add32_def)
    obtain a' w' where "release_loop m cnt (Fin r) (sat_add32 w m) = Some (Fin a', w')"
      "0 \<le> a'" "a' \<le> r" "sat_add32 w m \<le> w'" "w' \<le> U32_MAX"
      using less.hyps[OF m r(2) le w(1)] by blast
    then show ?thesis
      using eq r(3) order_trans[OF w(2)[of m]]
      by (intro exI[of _ a'] exI[of _ w']) simp
  qed
qed

section \<open>Bounds on the curve's counters\<close>

definition cnt_value :: "f64 \<Rightarrow> bool" where
  "cnt_value v \<longleftrightarrow> v = Inf False \<or> (\<exists>k. v = Fin k \<and> 0 \<le> k)"

lemma f64_of_nonneg: "0 \<le> x \<Longrightarrow> cnt_value (f64_of x)"
  using round_mag_nonneg[of x] by (auto simp: cnt_value_def f64_of_def Let_def)

lemma segments_per_increase:
  assumes "1 \<le> g" and "flt (Fin g) v"
  shows "cnt_value (fdiv (Fin g) (fsub v (Fin g)))"
proof (cases v)
  case (Fin t)
  then have "0 \<le> t - g" using assms(2) by simp
  from f64_of_nonneg[OF this] show ?thesis
    using assms(1) f64_of_nonneg[of "g / k" for k]
    by (auto simp: Fin fsub_def cnt_value_def[of "f64_of (t - g)"]) (auto simp: cnt_value_def)
qed (use assms in \<open>auto simp: fsub_def cnt_value_def\<close>)

lemma cubic_cnt_ok:
  assumes "1 \<le> g"
  shows "cubic_cnt target (Fin g) w_tcp = Inf False \<or> (\<exists>k. cubic_cnt target (Fin g) w_tcp = Fin k \<and> 1 \<le> k)"
proof -
  define c1 where "c1 = (if flt (Fin g) target then fdiv (Fin g) (fsub target (Fin g)) else fmul (Fin 100) (Fin g))"
  define c2 where "c2 = (if flt (Fin g) w_tcp
    then let tcp_cnt = fdiv (Fin g) (fsub w_tcp (Fin g)) in if flt tcp_cnt c1 then tcp_cnt else c1 else c1)"
  have "cnt_value c1" using segments_per_increase[OF assms, of target] f64_of_nonneg[of "100 * g"] assms
    by (simp add: c1_def)
  then have "cnt_value c2" using segments_per_increase[OF assms, of w_tcp] by (simp add: c2_def Let_def)
  moreover have "cubic_cnt target (Fin g) w_tcp = (if flt c2 f_one then f_one else c2)"
    by (simp add: cubic_cnt_def c1_def c2_def Let_def)
  ultimately show ?thesis by (auto simp: cnt_value_def not_less)
qed

lemma f64_rep_quarters: "n \<le> 16 \<Longrightarrow> f64_rep (of_nat n / 4)"
  by (rule f64_rep_dyadic(1)[of _ n 2]) simp_all

lemma cubic_alpha_bounds: "\<exists>al. cubic_alpha = Fin al \<and> 1 / 4 \<le> al \<and> al \<le> 1"
proof -
  obtain b where b: "CUBIC_BETA = Fin b" "1 / 2 \<le> b" "b \<le> 3 / 4"
    using f64_of_between[of "1 / 2" "3 / 4" "7 / 10"] f64_rep_quarters[of 3] by (auto simp: CUBIC_BETA_def)
  obtain c where c: "f64_of (1 - b) = Fin c" "1 / 4 \<le> c" "c \<le> 1 / 2"
    using f64_of_between[of "1 / 4" "1 / 2" "1 - b"] f64_rep_quarters[of 1] b by auto
  obtain d where d: "f64_of (3 * c) = Fin d" "3 / 4 \<le> d" "d \<le> 6 / 4"
    using f64_of_between[of "3 / 4" "6 / 4" "3 * c"] f64_rep_quarters[of 3] f64_rep_quarters[of 6] c by auto
  obtain e where e: "f64_of (1 + b) = Fin e" "6 / 4 \<le> e" "e \<le> 7 / 4"
    using f64_of_between[of "6 / 4" "7 / 4" "1 + b"] f64_rep_quarters[of 6] f64_rep_quarters[of 7] b by auto
  have "1 / 4 \<le> d / e" using d e by (simp add: pos_le_divide_eq)
  moreover have "d / e \<le> 1" using d e by (simp add: pos_divide_le_eq)
  ultimately obtain al where al: "f64_of (d / e) = Fin al" "1 / 4 \<le> al" "al \<le> 1"
    using f64_of_between[of "1 / 4" 1 "d / e"] f64_rep_quarters[of 1] by auto
  have "cubic_alpha = Fin al"
    unfolding cubic_alpha_def fsub_def b(1) using c(1) d(1) e(1,2) al(1) by simp
  then show ?thesis using al by blast
qed

lemma seg_bounds:
  assumes "n \<le> U32_MAX" and "0 < m" and "m \<le> 65535"
  shows "\<exists>s. fdiv (f64_of_nat n) (f64_of_nat m) = Fin s \<and> 0 \<le> s \<and> s \<le> 4294967296 \<and> (m \<le> n \<longrightarrow> 1 \<le> s)"
proof -
  define x where "x = (of_nat n / of_nat m :: rat)"
  have n: "of_nat n \<le> (4294967295 :: rat)"
    using assms(1) by (metis U32_MAX_def of_nat_le_iff of_nat_numeral)
  have m1: "1 \<le> (of_nat m :: rat)" using assms(2) by (metis One_nat_def Suc_leI of_nat_1 of_nat_le_iff)
  have "of_nat n * 1 \<le> of_nat n * (of_nat m :: rat)" using m1 by (intro mult_left_mono) simp_all
  then have "x \<le> of_nat n" using assms(2) by (simp add: x_def pos_divide_le_eq)
  then have x: "0 \<le> x" "x \<le> 4294967296" using n by (simp_all add: x_def)
  have rep: "f64_rep (of_nat 4294967296)" by (rule f64_rep_nat) simp
  then obtain s where s: "f64_of x = Fin s" "0 \<le> s" "s \<le> 4294967296"
    using f64_of_between[of 0 "of_nat 4294967296" x] x by auto
  have "1 \<le> s" if "m \<le> n"
  proof -
    have "1 \<le> x" using that assms(2) by (simp add: x_def pos_le_divide_eq)
    then show ?thesis using f64_of_between[of 1 "of_nat 4294967296" x] rep x s by auto
  qed
  then show ?thesis using s assms by (auto simp: f64_of_u32 U32_MAX_def x_def)
qed

lemma fadd_nonneg:
  assumes "0 \<le> a" and "0 \<le> s" and "a + s \<le> of_nat b" and "b \<le> 2 ^ 53"
  shows "\<exists>r. fadd (Fin a) (Fin s) = Fin r \<and> 0 \<le> r \<and> r \<le> of_nat b"
  using f64_of_between[OF f64_rep_0 f64_rep_nat[OF assms(4)], of "a + s"] assms by auto

text \<open>
  The counter of released segments is the one quantity that can grow with every ACK, so the
  invariant is indexed by the number of ACKs handled.
\<close>

definition cubic_inv :: "nat \<Rightarrow> cubic \<Rightarrow> bool" where
  "cubic_inv n c \<longleftrightarrow> 0 < cubic_mss c \<and> cubic_mss c \<le> 65535 \<and> cubic_mss c \<le> cubic_cwnd c
     \<and> cubic_cwnd c \<le> U32_MAX
     \<and> (\<exists>a. cubic_ack_cnt c = Fin a \<and> 0 \<le> a \<and> a \<le> 17179869184)
     \<and> (\<exists>y. cubic_cwnd_cnt c = Fin y \<and> 0 \<le> y \<and> y \<le> of_nat (n * 4294967296))"

lemma cubic_inv_new: "mss \<noteq> 0 \<Longrightarrow> cubic_inv 0 (cubic_new mss)"
  using initial_window_bounds[of "unat mss"] unat_u16_bound[of mss]
  by (simp add: cubic_inv_def cubic_new_def U32_MAX_def unat_gt_0)

lemma cubic_inv_Suc: "cubic_inv n c \<Longrightarrow> cubic_inv (Suc n) c"
  by (auto simp: cubic_inv_def intro: order_trans[of _ "of_nat n * 4294967296"])

lemma cubic_update_total:
  assumes "cubic_inv n c" and "acked \<le> U32_MAX" and "n < 1048576"
  shows "\<exists>c'. cubic_update c now acked = Some c' \<and> cubic_inv (Suc n) c' \<and> cubic_mss c' = cubic_mss c
    \<and> cubic_cwnd c \<le> cubic_cwnd c'"
proof -
  define mf where "mf = f64_of_nat (cubic_mss c)"
  have m: "0 < cubic_mss c" "cubic_mss c \<le> 65535" and w: "cubic_mss c \<le> cubic_cwnd c" "cubic_cwnd c \<le> U32_MAX"
    using assms(1) by (simp_all add: cubic_inv_def)
  obtain s where s: "fdiv (f64_of_nat acked) mf = Fin s" "0 \<le> s" "s \<le> 4294967296"
    using seg_bounds[OF assms(2) m] by (auto simp: mf_def)
  obtain g where g: "fdiv (f64_of_nat (cubic_cwnd c)) mf = Fin g" "1 \<le> g" "g \<le> 4294967296"
    using seg_bounds[OF w(2) m] w(1) by (auto simp: mf_def)
  define c1 where "c1 = cubic_anchor c now (Fin s) (Fin g)"
  obtain a where a: "cubic_ack_cnt c = Fin a" "0 \<le> a" "a \<le> 17179869184"
    using assms(1) by (auto simp: cubic_inv_def)
  obtain y where y: "cubic_cwnd_cnt c = Fin y" "0 \<le> y" "y \<le> of_nat (n * 4294967296)"
    using assms(1) by (auto simp: cubic_inv_def)
  obtain a1 where a1: "cubic_ack_cnt c1 = Fin a1" "0 \<le> a1" "a1 \<le> 21474836480"
  proof (cases "cubic_epoch_start c")
    case None
    then show ?thesis using that[of s] s by (simp add: c1_def cubic_anchor_def Let_def)
  next
    case (Some e)
    then show ?thesis using that fadd_nonneg[OF a(2) s(2), of 21474836480] a s
      by (auto simp: c1_def cubic_anchor_def)
  qed
  have c1: "cubic_mss c1 = cubic_mss c" "cubic_cwnd c1 = cubic_cwnd c"
    by (simp_all add: c1_def cubic_anchor_def Let_def split: option.split)
  obtain y1 where y1: "cubic_cwnd_cnt c1 = Fin y1" "0 \<le> y1" "y1 \<le> of_nat (n * 4294967296)"
    using y by (cases "cubic_epoch_start c") (auto simp: c1_def cubic_anchor_def Let_def)
  obtain al where al: "cubic_alpha = Fin al" "1 / 4 \<le> al" "al \<le> 1" using cubic_alpha_bounds by blast
  have "1 \<le> g / al" using al g by (simp add: pos_le_divide_eq)
  moreover have "g / al \<le> 17179869184"
  proof -
    have "17179869184 * (1 / 4) \<le> 17179869184 * al" using al(2) by (intro mult_left_mono) simp_all
    then show ?thesis using al g by (simp add: pos_divide_le_eq)
  qed
  moreover have "f64_rep (of_nat 17179869184)" by (rule f64_rep_nat) simp
  ultimately obtain d where d: "f64_of (g / al) = Fin d" "1 \<le> d" "d \<le> 17179869184"
    using f64_of_between[of 1 "of_nat 17179869184" "g / al"] by auto
  have delta: "fdiv (Fin g) cubic_alpha = Fin d" unfolding al(1) using al(2) d(1) by simp
  have "a1 \<le> 9007199254740992" using a1(3) by simp
  from tcp_loop_ends[OF d(2) a1(2) this] obtain a2 w2 where
    l1: "tcp_loop (Fin d) (Fin a1) (cubic_w_tcp c1) = Some (Fin a2, w2)" "0 \<le> a2" "a2 \<le> max d 0" by blast
  have nb: "Suc n * 4294967296 \<le> 2 ^ 53"
  proof -
    have "Suc n * 4294967296 \<le> 1048576 * 4294967296" using assms(3) by (intro mult_right_mono) simp_all
    then show ?thesis by simp
  qed
  have "y1 + s \<le> of_nat (Suc n * 4294967296)" using y1(3) s(3) by simp
  from fadd_nonneg[OF y1(2) s(2) this nb] obtain y2 where
    y2: "fadd (Fin y1) (Fin s) = Fin y2" "0 \<le> y2" "y2 \<le> of_nat (Suc n * 4294967296)" by blast
  have "(of_nat (Suc n * 4294967296) :: rat) \<le> of_nat (2 ^ 53)" using nb by (simp only: of_nat_le_iff)
  then have y2b: "y2 \<le> 9007199254740992" using y2(3) by simp
  define t where "t = fdiv (f64_of_nat (saturating_micros_since now (the (cubic_epoch_start c1)))) (Fin 1000000)"
  define cnt where "cnt = cubic_cnt (cubic_window (cubic_origin c1) (cubic_k c1) t) (Fin g) w2"
  have "cnt = Inf False \<or> (\<exists>k. cnt = Fin k \<and> 1 \<le> k)" unfolding cnt_def by (rule cubic_cnt_ok[OF g(2)])
  from release_loop_ends[OF this y2(2) y2b w(2), of "cubic_mss c"] obtain y3 w3 where
    l2: "release_loop (cubic_mss c) cnt (Fin y2) (cubic_cwnd c) = Some (Fin y3, w3)"
    "0 \<le> y3" "y3 \<le> y2" "cubic_cwnd c \<le> w3" "w3 \<le> U32_MAX"
    by blast
  have "cubic_update c now acked = Some (c1\<lparr>cubic_ack_cnt := Fin a2, cubic_w_tcp := w2,
      cubic_cwnd_cnt := Fin y3, cubic_cwnd := w3\<rparr>)"
    using d l1(1) l2(1) by (simp add: cubic_update_def Let_def s(1) g(1) c1_def[symmetric] a1(1) y1(1)
        delta c1 y2(1)[simplified] t_def[symmetric] cnt_def[symmetric] flip: mf_def)
  moreover have "y3 \<le> of_nat (Suc n * 4294967296)" using l2(3) y2(3) by simp
  moreover have "a2 \<le> 17179869184" using l1(3) d by simp
  ultimately show ?thesis
    using m w l1(2) l2 c1 by (auto simp: cubic_inv_def)
qed

lemma cubic_loss_threshold:
  assumes "cubic_inv n c"
  shows "f64_as_u32 (fmul (f64_of_nat (cubic_cwnd c)) CUBIC_BETA) \<le> cubic_cwnd c"
proof -
  have "unit_f64 CUBIC_BETA" unfolding CUBIC_BETA_def by (rule f64_of_unit) simp_all
  then obtain b where "CUBIC_BETA = Fin b" "0 \<le> b" "b \<le> 1" by (auto simp: unit_f64_def)
  moreover have "cubic_cwnd c \<le> U32_MAX" using assms by (simp add: cubic_inv_def)
  ultimately show ?thesis using scale_window(1)[of "cubic_cwnd c" 0 CUBIC_BETA b] by blast
qed

lemma cubic_congestion_event_inv:
  assumes "cubic_inv n c"
  shows "cubic_inv n (cubic_congestion_event c r)
    \<and> cubic_mss (cubic_congestion_event c r) = cubic_mss c
    \<and> cubic_cwnd (cubic_congestion_event c r) \<le> max (cubic_cwnd c) (2 * cubic_mss c)"
  using assms cubic_loss_threshold[OF assms]
  by (auto simp: cubic_inv_def cubic_congestion_event_def Let_def U32_MAX_def)

lemma cubic_on_ack_total:
  assumes "cubic_inv n c" and "acked \<le> U32_MAX" and "n < 1048576"
  shows "\<exists>c'. cubic_on_ack c now acked = Some c' \<and> cubic_inv (Suc n) c' \<and> cubic_mss c' = cubic_mss c
    \<and> cubic_cwnd c \<le> cubic_cwnd c'"
proof -
  define c0 where "c0 = c\<lparr>cubic_dup_acks := 0\<rparr>"
  have i0: "cubic_inv n c0" "cubic_mss c0 = cubic_mss c" "cubic_cwnd c0 = cubic_cwnd c"
    using assms(1) by (simp_all add: c0_def cubic_inv_def)
  show ?thesis
  proof (cases "acked = 0 \<or> cubic_cwnd c < cubic_ssthresh c")
    case True
    then show ?thesis
      using cubic_inv_Suc[OF assms(1)] assms(1)
      by (auto simp: cubic_on_ack_def Let_def cubic_inv_def sat_add32_def)
  next
    case False
    then have "cubic_on_ack c now acked = cubic_update c0 now acked"
      by (simp add: cubic_on_ack_def c0_def)
    then show ?thesis using cubic_update_total[OF i0(1) assms(2,3)] i0 by simp
  qed
qed

end
