(* ===== verification/Bbr.thy ===== *)
theory Bbr
  imports Dctcp
begin

text \<open>
  \<open>bbr.rs\<close>: the delivery-rate sampler, the windowed-max filter and the BBR controller with
  its BBRv2 inflight bounds. Byte totals and round counts (\<open>u64\<close>) are natural numbers.
\<close>

section \<open>Constants\<close>

definition HIGH_GAIN :: f64 where "HIGH_GAIN = f64_of (2885 / 1000)"
definition DRAIN_GAIN :: f64 where "DRAIN_GAIN = f64_of (346 / 1000)"
definition CWND_GAIN :: f64 where "CWND_GAIN = Fin 2"
definition PROBE_BW_GAINS :: "f64 list" where
  "PROBE_BW_GAINS = [Fin (5 / 4), Fin (3 / 4), f_one, f_one, f_one, f_one, f_one, f_one]"
definition FULL_BW_THRESH :: f64 where "FULL_BW_THRESH = Fin (5 / 4)"
definition FULL_BW_COUNT :: nat where "FULL_BW_COUNT = 3"
definition MIN_RTT_WINDOW_US :: nat where "MIN_RTT_WINDOW_US = 10000000"
definition PROBE_RTT_DURATION_US :: nat where "PROBE_RTT_DURATION_US = 200000"
definition BTLBW_WINDOW_ROUNDS :: nat where "BTLBW_WINDOW_ROUNDS = 10"
definition MIN_CWND_SEGS :: nat where "MIN_CWND_SEGS = 4"
definition RECOVERY_HEADROOM_SEGS :: nat where "RECOVERY_HEADROOM_SEGS = 3"
definition INFLIGHT_LO_BETA :: f64 where "INFLIGHT_LO_BETA = f64_of (3 / 10)"
definition INFLIGHT_HARD_KEEP :: f64 where "INFLIGHT_HARD_KEEP = Fin (1 / 2)"

section \<open>The delivery-rate sampler\<close>

record rate_sample =
  rs_delivery_rate :: nat
  rs_rtt_us :: nat
  rs_interval_us :: nat
  rs_is_app_limited :: bool
  rs_prior_delivered :: nat

record sent =
  sn_seq_end :: seqnum
  sn_size :: nat
  sn_sent_time :: instant
  sn_delivered :: nat
  sn_delivered_time :: instant
  sn_first_sent_time :: instant
  sn_is_app_limited :: bool

record rate_sampler =
  sp_delivered :: nat
  sp_delivered_time :: instant
  sp_first_sent_time :: instant
  sp_app_limited_until :: nat
  sp_sent :: "sent list"

definition sampler_new :: rate_sampler where
  "sampler_new = \<lparr>sp_delivered = 0, sp_delivered_time = 0, sp_first_sent_time = 0,
     sp_app_limited_until = 0, sp_sent = []\<rparr>"

definition sampler_on_transmit ::
  "rate_sampler \<Rightarrow> instant \<Rightarrow> seqnum \<Rightarrow> nat \<Rightarrow> nat \<Rightarrow> bool \<Rightarrow> rate_sampler" where
  "sampler_on_transmit self now seq_end nbytes inflight app_limited =
     (let self = (if inflight = 0 \<or> sp_sent self = []
                  then self\<lparr>sp_first_sent_time := now, sp_delivered_time := now\<rparr> else self);
          self = (if app_limited
                  then self\<lparr>sp_app_limited_until := max (sp_delivered self + inflight + nbytes) 1\<rparr>
                  else self)
      in self\<lparr>sp_sent := sp_sent self @ [\<lparr>sn_seq_end = seq_end, sn_size = nbytes,
           sn_sent_time = now, sn_delivered = sp_delivered self,
           sn_delivered_time = sp_delivered_time self,
           sn_first_sent_time = sp_first_sent_time self,
           sn_is_app_limited = (sp_app_limited_until self \<noteq> 0)\<rparr>]\<rparr>)"

text \<open>The popping loop: the delivered total, the newest popped record, what stays in flight.\<close>

fun pop_delivered :: "seqnum \<Rightarrow> nat \<Rightarrow> sent option \<Rightarrow> sent list \<Rightarrow> nat \<times> sent option \<times> sent list" where
  "pop_delivered snd_una delivered newest [] = (delivered, newest, [])"
| "pop_delivered snd_una delivered newest (front # rest) =
     (if seq_le (sn_seq_end front) snd_una
      then pop_delivered snd_una (delivered + sn_size front) (Some front) rest
      else (delivered, newest, front # rest))"

definition sampler_on_ack ::
  "rate_sampler \<Rightarrow> instant \<Rightarrow> seqnum \<Rightarrow> rate_sample option \<times> rate_sampler" where
  "sampler_on_ack self now snd_una =
     (let (total, newest, rest) = pop_delivered snd_una (sp_delivered self) None (sp_sent self);
          self = self\<lparr>sp_delivered := total, sp_sent := rest\<rparr>
      in case newest of
           None \<Rightarrow> (None, self)
         | Some p \<Rightarrow>
             let self = self\<lparr>sp_delivered_time := now\<rparr>;
                 self = (if sp_app_limited_until self \<noteq> 0 \<and> sp_app_limited_until self < sp_delivered self
                         then self\<lparr>sp_app_limited_until := 0\<rparr> else self);
                 send_elapsed = saturating_micros_since (sn_sent_time p) (sn_first_sent_time p);
                 ack_elapsed = saturating_micros_since now (sn_delivered_time p);
                 interval_us = max send_elapsed ack_elapsed;
                 delivered = sp_delivered self - sn_delivered p;
                 self = self\<lparr>sp_first_sent_time := sn_sent_time p\<rparr>;
                 delivery_rate = (if 0 < interval_us then sat_mul64 delivered 1000000 div interval_us else 0)
             in (Some \<lparr>rs_delivery_rate = delivery_rate,
                   rs_rtt_us = min (saturating_micros_since now (sn_sent_time p)) U32_MAX,
                   rs_interval_us = interval_us, rs_is_app_limited = sn_is_app_limited p,
                   rs_prior_delivered = sn_delivered p\<rparr>, self))"

definition reset_in_flight :: "rate_sampler \<Rightarrow> rate_sampler" where
  "reset_in_flight self = self\<lparr>sp_sent := []\<rparr>"

section \<open>The windowed-max filter\<close>

record max_sample =
  ms_t :: nat
  ms_v :: nat

record windowed_max =
  wm_window :: nat
  wm_s0 :: max_sample
  wm_s1 :: max_sample
  wm_s2 :: max_sample

definition wrapping_sub64 :: "nat \<Rightarrow> nat \<Rightarrow> nat" where
  "wrapping_sub64 a b = (a + (U64_MAX + 1) - b) mod (U64_MAX + 1)"

definition wm_new :: "nat \<Rightarrow> windowed_max" where
  "wm_new window = (let z = \<lparr>ms_t = 0, ms_v = 0\<rparr>
     in \<lparr>wm_window = window, wm_s0 = z, wm_s1 = z, wm_s2 = z\<rparr>)"

definition wm_reset :: "windowed_max \<Rightarrow> nat \<Rightarrow> nat \<Rightarrow> nat \<times> windowed_max" where
  "wm_reset self t v = (let s = \<lparr>ms_t = t, ms_v = v\<rparr>
     in (v, self\<lparr>wm_s0 := s, wm_s1 := s, wm_s2 := s\<rparr>))"

definition wm_update :: "windowed_max \<Rightarrow> nat \<Rightarrow> nat \<Rightarrow> nat \<times> windowed_max" where
  "wm_update self t v =
     (if ms_v (wm_s0 self) \<le> v \<or> wm_window self < wrapping_sub64 t (ms_t (wm_s2 self))
      then wm_reset self t v
      else
        let new = \<lparr>ms_t = t, ms_v = v\<rparr>;
            self = (if ms_v (wm_s1 self) \<le> v then self\<lparr>wm_s1 := new, wm_s2 := new\<rparr>
                    else if ms_v (wm_s2 self) \<le> v then self\<lparr>wm_s2 := new\<rparr> else self);
            self = (if wm_window self < wrapping_sub64 t (ms_t (wm_s0 self))
              then let self = self\<lparr>wm_s0 := wm_s1 self, wm_s1 := wm_s2 self, wm_s2 := new\<rparr>
                   in if wm_window self < wrapping_sub64 t (ms_t (wm_s0 self))
                      then self\<lparr>wm_s0 := wm_s1 self, wm_s1 := wm_s2 self\<rparr> else self
              else self)
        in (ms_v (wm_s0 self), self))"

section \<open>The state machine\<close>

datatype mode = Startup | Drain | ProbeBw | ProbeRtt

record bbr =
  bbr_mss :: nat
  bbr_cwnd :: nat
  bbr_mode :: mode
  bbr_sampler :: rate_sampler
  bbr_btlbw_filter :: windowed_max
  bbr_btlbw :: nat
  bbr_min_rtt_us :: nat
  bbr_min_rtt_stamp :: instant
  bbr_pacing_gain :: f64
  bbr_cwnd_gain :: f64
  bbr_pacing_rate_field :: nat
  bbr_round_count :: nat
  bbr_next_round_delivered :: nat
  bbr_round_start :: bool
  bbr_full_bw :: nat
  bbr_full_bw_count :: nat
  bbr_filled_pipe :: bool
  bbr_cycle_index :: nat
  bbr_cycle_stamp :: instant
  bbr_probe_rtt_done_stamp :: "instant option"
  bbr_prior_cwnd :: nat
  bbr_inflight_hi :: nat
  bbr_inflight_lo :: nat
  bbr_loss_in_round :: bool
  bbr_was_in_recovery :: bool
  bbr_inflight_latest :: nat
  bbr_extra_acked_filter :: windowed_max
  bbr_extra_acked :: nat
  bbr_ack_epoch_stamp :: instant
  bbr_ack_epoch_acked :: nat
  bbr_dup_acks :: nat

definition bbr_new :: "u16 \<Rightarrow> bbr" where
  "bbr_new mss = \<lparr>bbr_mss = unat mss, bbr_cwnd = initial_window (unat mss), bbr_mode = Startup,
     bbr_sampler = sampler_new, bbr_btlbw_filter = wm_new BTLBW_WINDOW_ROUNDS, bbr_btlbw = 0,
     bbr_min_rtt_us = U32_MAX, bbr_min_rtt_stamp = 0, bbr_pacing_gain = HIGH_GAIN,
     bbr_cwnd_gain = HIGH_GAIN, bbr_pacing_rate_field = 0, bbr_round_count = 0,
     bbr_next_round_delivered = 0, bbr_round_start = False, bbr_full_bw = 0,
     bbr_full_bw_count = 0, bbr_filled_pipe = False, bbr_cycle_index = 0, bbr_cycle_stamp = 0,
     bbr_probe_rtt_done_stamp = None, bbr_prior_cwnd = 0, bbr_inflight_hi = U32_MAX,
     bbr_inflight_lo = U32_MAX, bbr_loss_in_round = False, bbr_was_in_recovery = False,
     bbr_inflight_latest = 0, bbr_extra_acked_filter = wm_new BTLBW_WINDOW_ROUNDS,
     bbr_extra_acked = 0, bbr_ack_epoch_stamp = 0, bbr_ack_epoch_acked = 0, bbr_dup_acks = 0\<rparr>"

definition bbr_min_cwnd :: "bbr \<Rightarrow> nat" where
  "bbr_min_cwnd self = MIN_CWND_SEGS * bbr_mss self"

definition bbr_bdp :: "bbr \<Rightarrow> nat" where
  "bbr_bdp self =
     (if bbr_btlbw self = 0 \<or> bbr_min_rtt_us self = U32_MAX then 0
      else sat_mul64 (bbr_btlbw self) (bbr_min_rtt_us self) div 1000000)"

definition check_full_pipe :: "bbr \<Rightarrow> bbr" where
  "check_full_pipe self =
     (if bbr_filled_pipe self \<or> \<not> bbr_round_start self then self
      else if fle (fmul (f64_of_nat (bbr_full_bw self)) FULL_BW_THRESH) (f64_of_nat (bbr_btlbw self))
      then self\<lparr>bbr_full_bw := bbr_btlbw self, bbr_full_bw_count := 0\<rparr>
      else let self = self\<lparr>bbr_full_bw_count := bbr_full_bw_count self + 1\<rparr>
           in if FULL_BW_COUNT \<le> bbr_full_bw_count self then self\<lparr>bbr_filled_pipe := True\<rparr> else self)"

definition enter_probe_bw :: "bbr \<Rightarrow> instant \<Rightarrow> bbr" where
  "enter_probe_bw self now = self\<lparr>bbr_mode := ProbeBw, bbr_cwnd_gain := CWND_GAIN,
     bbr_cycle_index := 2, bbr_pacing_gain := PROBE_BW_GAINS ! 2, bbr_cycle_stamp := now\<rparr>"

definition advance_probe_bw :: "bbr \<Rightarrow> instant \<Rightarrow> bbr" where
  "advance_probe_bw self now =
     (if bbr_min_rtt_us self \<le> saturating_micros_since now (bbr_cycle_stamp self)
      then let i = (bbr_cycle_index self + 1) mod length PROBE_BW_GAINS
           in self\<lparr>bbr_cycle_index := i, bbr_pacing_gain := PROBE_BW_GAINS ! i, bbr_cycle_stamp := now\<rparr>
      else self)"

definition maybe_enter_probe_rtt :: "bbr \<Rightarrow> bool \<Rightarrow> bbr" where
  "maybe_enter_probe_rtt self expired =
     (if expired \<and> bbr_mode self \<noteq> ProbeRtt
      then self\<lparr>bbr_mode := ProbeRtt, bbr_pacing_gain := f_one, bbr_cwnd_gain := f_one,
             bbr_prior_cwnd := bbr_cwnd self, bbr_probe_rtt_done_stamp := None\<rparr>
      else self)"

definition handle_probe_rtt :: "bbr \<Rightarrow> instant \<Rightarrow> nat \<Rightarrow> bbr" where
  "handle_probe_rtt self now inflight =
     (case bbr_probe_rtt_done_stamp self of
        None \<Rightarrow> if inflight \<le> bbr_min_cwnd self
                then self\<lparr>bbr_probe_rtt_done_stamp := Some (plus_micros now PROBE_RTT_DURATION_US)\<rparr>
                else self
      | Some done_at \<Rightarrow>
          if done_at \<le> now then
            let self = self\<lparr>bbr_min_rtt_stamp := now, bbr_probe_rtt_done_stamp := None\<rparr>;
                self = (if bbr_filled_pipe self then enter_probe_bw self now
                        else self\<lparr>bbr_mode := Startup, bbr_pacing_gain := HIGH_GAIN,
                               bbr_cwnd_gain := HIGH_GAIN\<rparr>)
            in self\<lparr>bbr_cwnd := max (bbr_cwnd self) (bbr_prior_cwnd self)\<rparr>
          else self)"

definition update_mode :: "bbr \<Rightarrow> instant \<Rightarrow> nat \<Rightarrow> bool \<Rightarrow> bbr" where
  "update_mode self now inflight min_rtt_expired =
     (let self = maybe_enter_probe_rtt self min_rtt_expired in
      case bbr_mode self of
        Startup \<Rightarrow>
          let self = check_full_pipe self
          in if bbr_filled_pipe self
             then self\<lparr>bbr_mode := Drain, bbr_pacing_gain := DRAIN_GAIN, bbr_cwnd_gain := HIGH_GAIN\<rparr>
             else self
      | Drain \<Rightarrow> if inflight \<le> bbr_bdp self then enter_probe_bw self now else self
      | ProbeBw \<Rightarrow> advance_probe_bw self now
      | ProbeRtt \<Rightarrow> handle_probe_rtt self now inflight)"

definition cut_inflight_bounds :: "bbr \<Rightarrow> bbr" where
  "cut_inflight_bounds self =
     (let lo = bbr_min_cwnd self;
          latest = max (bbr_inflight_latest self) lo
      in self\<lparr>bbr_inflight_lo :=
           (if bbr_inflight_lo self = U32_MAX
            then max (f64_as_u32 (fmul (f64_of_nat latest) INFLIGHT_HARD_KEEP)) lo
            else max (f64_as_u32 (fmul (f64_of_nat (bbr_inflight_lo self)) (fsub f_one INFLIGHT_LO_BETA))) lo)\<rparr>)"

definition raise_inflight_bounds :: "bbr \<Rightarrow> bbr" where
  "raise_inflight_bounds self =
     (let self = (if bbr_inflight_hi self \<noteq> U32_MAX
                  then self\<lparr>bbr_inflight_hi := sat_add32 (bbr_inflight_hi self) (bbr_mss self)\<rparr> else self)
      in if bbr_inflight_lo self \<noteq> U32_MAX
         then let self = self\<lparr>bbr_inflight_lo := sat_add32 (bbr_inflight_lo self) (bbr_mss self)\<rparr>
              in if bbr_inflight_hi self \<le> bbr_inflight_lo self
                 then self\<lparr>bbr_inflight_lo := U32_MAX\<rparr> else self
         else self)"

definition update_ack_aggregation :: "bbr \<Rightarrow> instant \<Rightarrow> nat \<Rightarrow> bbr" where
  "update_ack_aggregation self now acked =
     (if bbr_btlbw self = 0 \<or> acked = 0 then self
      else
        let epoch_us = saturating_micros_since now (bbr_ack_epoch_stamp self);
            expected = sat_mul64 (bbr_btlbw self) epoch_us div 1000000;
            (self, expected) = (if bbr_ack_epoch_acked self \<le> expected
               then (self\<lparr>bbr_ack_epoch_acked := 0, bbr_ack_epoch_stamp := now\<rparr>, 0)
               else (self, expected));
            self = self\<lparr>bbr_ack_epoch_acked := sat_add64 (bbr_ack_epoch_acked self) acked\<rparr>;
            extra = min (bbr_ack_epoch_acked self - expected) (max (bbr_bdp self) (bbr_min_cwnd self));
            (v, f) = wm_update (bbr_extra_acked_filter self) (bbr_round_count self) extra
        in self\<lparr>bbr_extra_acked_filter := f, bbr_extra_acked := min v U32_MAX\<rparr>)"

text \<open>The model target, and the window it gives under the floors and the caps.\<close>

definition bbr_target :: "bbr \<Rightarrow> nat" where
  "bbr_target self =
     (let extra = (if bbr_filled_pipe self then bbr_extra_acked self else 0)
      in max (f64_as_u64 (fmul (f64_of_nat (bbr_bdp self)) (bbr_cwnd_gain self)) + extra) (bbr_min_cwnd self))"

definition bbr_next_cwnd :: "bbr \<Rightarrow> nat \<Rightarrow> nat \<Rightarrow> bool \<Rightarrow> nat" where
  "bbr_next_cwnd self acked pipe in_recovery =
     (let min_cwnd = bbr_min_cwnd self;
          target = bbr_target self;
          bound = min (bbr_inflight_hi self) (bbr_inflight_lo self);
          cwnd = (if in_recovery
            then let lo = pipe + RECOVERY_HEADROOM_SEGS * bbr_mss self
                 in max (max (min target bound) lo) min_cwnd
            else max (min (bbr_cwnd self + acked) (min target bound)) min_cwnd)
      in min (if bbr_mode self = ProbeRtt \<and> \<not> in_recovery then min cwnd min_cwnd else cwnd) U32_MAX)"

definition set_pacing_and_cwnd :: "bbr \<Rightarrow> nat \<Rightarrow> nat \<Rightarrow> bool \<Rightarrow> bbr" where
  "set_pacing_and_cwnd self acked pipe in_recovery =
     (if bbr_btlbw self = 0 \<or> bbr_min_rtt_us self = U32_MAX
      then self\<lparr>bbr_pacing_rate_field := 0\<rparr>
      else self\<lparr>bbr_pacing_rate_field :=
                  f64_as_u64 (fmul (f64_of_nat (bbr_btlbw self)) (bbr_pacing_gain self)),
                bbr_cwnd := bbr_next_cwnd self acked pipe in_recovery\<rparr>)"

section \<open>The trait operations\<close>

definition bbr_on_ack :: "bbr \<Rightarrow> instant \<Rightarrow> nat \<Rightarrow> bbr" where
  "bbr_on_ack self now acked = self\<lparr>bbr_dup_acks := 0\<rparr>"

definition bbr_on_dup_ack :: "bbr \<Rightarrow> instant \<Rightarrow> nat \<Rightarrow> bool \<times> bbr" where
  "bbr_on_dup_ack self now flight_size =
     (let self = self\<lparr>bbr_dup_acks := sat_inc8 (bbr_dup_acks self)\<rparr> in
      if bbr_dup_acks self = 3 then (True, self\<lparr>bbr_loss_in_round := True\<rparr>) else (False, self))"

definition bbr_enter_recovery :: "bbr \<Rightarrow> instant \<Rightarrow> nat \<Rightarrow> bbr" where
  "bbr_enter_recovery self now flight_size = self\<lparr>bbr_loss_in_round := True\<rparr>"

definition bbr_on_rto :: "bbr \<Rightarrow> instant \<Rightarrow> nat \<Rightarrow> bbr" where
  "bbr_on_rto self now flight_size =
     (let self = self\<lparr>bbr_sampler := reset_in_flight (bbr_sampler self), bbr_cwnd := bbr_mss self,
            bbr_dup_acks := 0, bbr_loss_in_round := True\<rparr>;
          lo = bbr_min_cwnd self;
          half = max (f64_as_u32 (fmul (f64_of_nat (max (bbr_inflight_latest self) lo)) INFLIGHT_HARD_KEEP)) lo
      in self\<lparr>bbr_inflight_hi := (if bbr_inflight_hi self = U32_MAX then half
                                  else max (bbr_inflight_hi self div 2) lo),
           bbr_inflight_lo := (if bbr_inflight_lo self = U32_MAX then half
                                  else max (bbr_inflight_lo self div 2) lo)\<rparr>)"

definition bbr_set_mss :: "bbr \<Rightarrow> u16 \<Rightarrow> bbr" where
  "bbr_set_mss self mss =
     (let self = self\<lparr>bbr_mss := unat mss\<rparr>
      in self\<lparr>bbr_cwnd := max (bbr_cwnd self) (bbr_min_cwnd self)\<rparr>)"

definition bbr_pacing_rate :: "bbr \<Rightarrow> nat option" where
  "bbr_pacing_rate self =
     (if bbr_pacing_rate_field self = 0 then None else Some (bbr_pacing_rate_field self))"

definition bbr_on_transmit :: "bbr \<Rightarrow> instant \<Rightarrow> seqnum \<Rightarrow> nat \<Rightarrow> nat \<Rightarrow> bool \<Rightarrow> bbr" where
  "bbr_on_transmit self now seq_end nbytes inflight app_limited =
     self\<lparr>bbr_sampler := sampler_on_transmit (bbr_sampler self) now seq_end nbytes inflight app_limited\<rparr>"

text \<open>The stages of \<open>on_ack_sample\<close>, in order.\<close>

definition bbr_round_step :: "bbr \<Rightarrow> rate_sample \<Rightarrow> bbr" where
  "bbr_round_step self sample =
     (if bbr_next_round_delivered self \<le> rs_prior_delivered sample
      then self\<lparr>bbr_round_count := bbr_round_count self + 1,
             bbr_next_round_delivered := sp_delivered (bbr_sampler self), bbr_round_start := True\<rparr>
      else self\<lparr>bbr_round_start := False\<rparr>)"

definition bbr_min_rtt_step :: "bbr \<Rightarrow> instant \<Rightarrow> rate_sample \<Rightarrow> bbr \<times> bool" where
  "bbr_min_rtt_step self now sample =
     (let rtt = rs_rtt_us sample;
          min_rtt_expired = (bbr_min_rtt_us self \<noteq> U32_MAX
            \<and> MIN_RTT_WINDOW_US < saturating_micros_since now (bbr_min_rtt_stamp self))
      in (if 0 < rtt \<and> (rtt < bbr_min_rtt_us self \<or> min_rtt_expired)
          then self\<lparr>bbr_min_rtt_us := rtt, bbr_min_rtt_stamp := now\<rparr> else self, min_rtt_expired))"

definition bbr_btlbw_step :: "bbr \<Rightarrow> rate_sample \<Rightarrow> bbr" where
  "bbr_btlbw_step self sample =
     (if 0 < rs_delivery_rate sample \<and> bbr_min_rtt_us self \<le> rs_interval_us sample
          \<and> (\<not> rs_is_app_limited sample \<or> bbr_btlbw self \<le> rs_delivery_rate sample)
      then let (v, f) = wm_update (bbr_btlbw_filter self) (bbr_round_count self) (rs_delivery_rate sample)
           in self\<lparr>bbr_btlbw_filter := f, bbr_btlbw := v\<rparr>
      else self)"

definition bbr_loss_step :: "bbr \<Rightarrow> nat \<Rightarrow> bool \<Rightarrow> bbr" where
  "bbr_loss_step self inflight in_recovery =
     (let self = self\<lparr>bbr_inflight_latest := max (bbr_inflight_latest self) inflight\<rparr>;
          entered_recovery = (in_recovery \<and> \<not> bbr_was_in_recovery self);
          self = (if entered_recovery
                  then (cut_inflight_bounds self)\<lparr>bbr_loss_in_round := True\<rparr> else self);
          self = (if bbr_round_start self
            then let self = (if \<not> bbr_loss_in_round self \<and> \<not> in_recovery
                             then raise_inflight_bounds self else self)
                 in self\<lparr>bbr_loss_in_round := False, bbr_inflight_latest := inflight\<rparr>
            else self)
      in self\<lparr>bbr_was_in_recovery := in_recovery\<rparr>)"

definition bbr_on_ack_sample ::
  "bbr \<Rightarrow> instant \<Rightarrow> seqnum \<Rightarrow> nat \<Rightarrow> nat \<Rightarrow> nat \<Rightarrow> bool \<Rightarrow> bbr" where
  "bbr_on_ack_sample self now snd_una inflight acked pipe in_recovery =
     (let (sample, sp) = sampler_on_ack (bbr_sampler self) now snd_una;
          self = self\<lparr>bbr_sampler := sp\<rparr>
      in case sample of
           None \<Rightarrow> self
         | Some sample \<Rightarrow>
             let self = bbr_round_step self sample;
                 (self, min_rtt_expired) = bbr_min_rtt_step self now sample;
                 self = bbr_btlbw_step self sample;
                 self = update_ack_aggregation self now acked;
                 self = bbr_loss_step self inflight in_recovery;
                 self = update_mode self now inflight min_rtt_expired
             in set_pacing_and_cwnd self acked pipe in_recovery)"

section \<open>BBR keeps the contract\<close>

definition bbr_inv :: "bbr \<Rightarrow> bool" where
  "bbr_inv c \<longleftrightarrow> 0 < bbr_mss c \<and> bbr_mss c \<le> 65535 \<and> bbr_mss c \<le> bbr_cwnd c
     \<and> bbr_cwnd c \<le> U32_MAX \<and> bbr_prior_cwnd c \<le> U32_MAX
     \<and> (\<exists>g. bbr_cwnd_gain c = Fin g \<and> 0 \<le> g \<and> g \<le> 3)"

lemma HIGH_GAIN_bounds: "\<exists>g. HIGH_GAIN = Fin g \<and> 2 \<le> g \<and> g \<le> 3"
  using f64_of_between[of "of_nat 2" "of_nat 3" "2885 / 1000"] f64_rep_nat[of 2] f64_rep_nat[of 3]
  by (simp add: HIGH_GAIN_def)

lemma bbr_inv_new: "mss \<noteq> 0 \<Longrightarrow> bbr_inv (bbr_new mss)"
  using initial_window_bounds[of "unat mss"] unat_u16_bound[of mss] HIGH_GAIN_bounds
  by (auto simp: bbr_inv_def bbr_new_def U32_MAX_def unat_gt_0)

text \<open>The fields a step of the model leaves alone.\<close>

definition same_window :: "bbr \<Rightarrow> bbr \<Rightarrow> bool" where
  "same_window c c' \<longleftrightarrow> bbr_mss c' = bbr_mss c \<and> bbr_cwnd c' = bbr_cwnd c
     \<and> bbr_prior_cwnd c' = bbr_prior_cwnd c \<and> bbr_cwnd_gain c' = bbr_cwnd_gain c"

lemma same_window_refl [simp]: "same_window c c"
  by (simp add: same_window_def)

lemma same_window_trans: "same_window a b \<Longrightarrow> same_window b c \<Longrightarrow> same_window a c"
  by (simp add: same_window_def)

lemma same_window_inv: "same_window c c' \<Longrightarrow> bbr_inv c' = bbr_inv c"
  by (simp add: same_window_def bbr_inv_def)

lemma same_window_keep: "same_window c c' \<Longrightarrow> bbr_inv c \<Longrightarrow> bbr_inv c' \<and> bbr_mss c' = bbr_mss c"
  by (simp add: same_window_def bbr_inv_def)

lemma same_window_aggregation: "same_window c (update_ack_aggregation c now n)"
proof (cases "bbr_btlbw c = 0 \<or> n = 0")
  case True
  then show ?thesis by (simp add: update_ack_aggregation_def)
next
  case False
  then show ?thesis
    by (simp add: same_window_def update_ack_aggregation_def Let_def split_beta)
qed

lemma same_window_cut: "same_window c (cut_inflight_bounds c)"
  by (simp add: same_window_def cut_inflight_bounds_def Let_def)

lemma same_window_raise: "same_window c (raise_inflight_bounds c)"
  by (simp add: same_window_def raise_inflight_bounds_def Let_def)

lemma same_window_round: "same_window c (bbr_round_step c s)"
  by (simp add: same_window_def bbr_round_step_def)

lemma same_window_min_rtt: "same_window c (fst (bbr_min_rtt_step c now s))"
  by (simp add: same_window_def bbr_min_rtt_step_def Let_def)

lemma same_window_btlbw: "same_window c (bbr_btlbw_step c s)"
  by (simp add: same_window_def bbr_btlbw_step_def split_beta)

lemma same_window_loss: "same_window c (bbr_loss_step c fl r)"
proof -
  define c1 where "c1 = c\<lparr>bbr_inflight_latest := max (bbr_inflight_latest c) fl\<rparr>"
  define c2 where "c2 = (if r \<and> \<not> bbr_was_in_recovery c1
                  then (cut_inflight_bounds c1)\<lparr>bbr_loss_in_round := True\<rparr> else c1)"
  have "same_window c c1" by (simp add: c1_def same_window_def)
  moreover have "same_window c1 c2" using same_window_cut[of c1] by (simp add: c2_def same_window_def)
  moreover have "same_window c2 (bbr_loss_step c fl r)"
  proof -
    have "bbr_loss_step c fl r = (let self = (if bbr_round_start c2
            then let self = (if \<not> bbr_loss_in_round c2 \<and> \<not> r then raise_inflight_bounds c2 else c2)
                 in self\<lparr>bbr_loss_in_round := False, bbr_inflight_latest := fl\<rparr>
            else c2) in self\<lparr>bbr_was_in_recovery := r\<rparr>)"
      unfolding bbr_loss_step_def c2_def c1_def Let_def by (rule refl)
    then show ?thesis using same_window_raise[of c2] by (simp add: same_window_def Let_def)
  qed
  ultimately show ?thesis using same_window_trans by blast
qed

lemma same_window_full_pipe: "same_window c (check_full_pipe c)"
  by (simp add: same_window_def check_full_pipe_def Let_def)

lemma same_window_advance: "same_window c (advance_probe_bw c now)"
  by (simp add: same_window_def advance_probe_bw_def Let_def)

lemma bbr_inv_change:
  assumes "bbr_inv c" and "bbr_mss c' = bbr_mss c" and "bbr_mss c \<le> bbr_cwnd c'" and "bbr_cwnd c' \<le> U32_MAX"
    and "bbr_prior_cwnd c' \<le> U32_MAX" and "\<exists>g. bbr_cwnd_gain c' = Fin g \<and> 0 \<le> g \<and> g \<le> 3"
  shows "bbr_inv c'"
  using assms by (simp add: bbr_inv_def)

lemma bbr_inv_facts:
  assumes "bbr_inv c"
  shows "0 < bbr_mss c" "bbr_mss c \<le> 65535" "bbr_mss c \<le> bbr_cwnd c" "bbr_cwnd c \<le> U32_MAX"
    "bbr_prior_cwnd c \<le> U32_MAX" "\<exists>g. bbr_cwnd_gain c = Fin g \<and> 0 \<le> g \<and> g \<le> 3"
  using assms by (simp_all add: bbr_inv_def)

lemma HIGH_GAIN_ok: "\<exists>g. HIGH_GAIN = Fin g \<and> 0 \<le> g \<and> g \<le> 3"
  using HIGH_GAIN_bounds by force

lemma enter_probe_bw_inv:
  assumes "bbr_inv c"
  shows "bbr_inv (enter_probe_bw c now) \<and> bbr_mss (enter_probe_bw c now) = bbr_mss c"
  using bbr_inv_facts[OF assms]
  by (intro conjI bbr_inv_change[OF assms]) (simp_all add: enter_probe_bw_def CWND_GAIN_def)

lemma maybe_enter_probe_rtt_inv:
  assumes "bbr_inv c"
  shows "bbr_inv (maybe_enter_probe_rtt c ex) \<and> bbr_mss (maybe_enter_probe_rtt c ex) = bbr_mss c"
  using bbr_inv_facts[OF assms]
  by (intro conjI bbr_inv_change[OF assms]) (simp_all add: maybe_enter_probe_rtt_def)

lemma handle_probe_rtt_inv:
  assumes "bbr_inv c"
  shows "bbr_inv (handle_probe_rtt c now fl) \<and> bbr_mss (handle_probe_rtt c now fl) = bbr_mss c"
proof (cases "bbr_probe_rtt_done_stamp c")
  case None
  show ?thesis using bbr_inv_facts[OF assms]
    by (intro conjI bbr_inv_change[OF assms]) (simp_all add: handle_probe_rtt_def None)
next
  case (Some d)
  define c1 where "c1 = (let self = c\<lparr>bbr_min_rtt_stamp := now, bbr_probe_rtt_done_stamp := None\<rparr> in
     if bbr_filled_pipe self then enter_probe_bw self now
     else self\<lparr>bbr_mode := Startup, bbr_pacing_gain := HIGH_GAIN, bbr_cwnd_gain := HIGH_GAIN\<rparr>)"
  have m: "bbr_mss c1 = bbr_mss c" "bbr_cwnd c1 = bbr_cwnd c" "bbr_prior_cwnd c1 = bbr_prior_cwnd c"
    "\<exists>g. bbr_cwnd_gain c1 = Fin g \<and> 0 \<le> g \<and> g \<le> 3"
    using HIGH_GAIN_ok by (simp_all add: c1_def Let_def enter_probe_bw_def CWND_GAIN_def)
  have "bbr_inv (c1\<lparr>bbr_cwnd := max (bbr_cwnd c1) (bbr_prior_cwnd c1)\<rparr>)"
    using bbr_inv_facts[OF assms] m by (intro bbr_inv_change[OF assms]) (simp_all add: le_max_iff_disj)
  moreover have "handle_probe_rtt c now fl =
      (if d \<le> now then c1\<lparr>bbr_cwnd := max (bbr_cwnd c1) (bbr_prior_cwnd c1)\<rparr> else c)"
    by (simp add: handle_probe_rtt_def Some Let_def c1_def)
  ultimately show ?thesis using assms m(1) by simp
qed

lemma bbr_update_mode_inv:
  assumes "bbr_inv c"
  shows "bbr_inv (update_mode c now fl ex) \<and> bbr_mss (update_mode c now fl ex) = bbr_mss c"
proof -
  define c1 where "c1 = maybe_enter_probe_rtt c ex"
  have 1: "bbr_inv c1" "bbr_mss c1 = bbr_mss c"
    using maybe_enter_probe_rtt_inv[OF assms] by (simp_all add: c1_def)
  define c2 where "c2 = check_full_pipe c1"
  have 2: "bbr_inv c2" "bbr_mss c2 = bbr_mss c"
    using same_window_inv[OF same_window_full_pipe[of c1]] same_window_full_pipe[of c1] 1
    by (simp_all add: c2_def same_window_def)
  have 3: "bbr_inv (c2\<lparr>bbr_mode := Drain, bbr_pacing_gain := DRAIN_GAIN, bbr_cwnd_gain := HIGH_GAIN\<rparr>)"
    using bbr_inv_facts[OF 2(1)] HIGH_GAIN_ok by (intro bbr_inv_change[OF 2(1)]) simp_all
  have 4: "bbr_inv (advance_probe_bw c1 now)" "bbr_mss (advance_probe_bw c1 now) = bbr_mss c"
    using same_window_inv[OF same_window_advance[of c1 now]] same_window_advance[of c1 now] 1
    by (simp_all add: same_window_def)
  show ?thesis
    using 1 2 3 4 enter_probe_bw_inv[OF 1(1), of now] handle_probe_rtt_inv[OF 1(1), of now fl]
    by (cases "bbr_mode c1") (simp_all add: update_mode_def Let_def flip: c1_def c2_def)
qed

lemma update_mode_mss: "bbr_mss (update_mode c now fl ex) = bbr_mss c"
proof -
  have "bbr_mss (maybe_enter_probe_rtt c ex) = bbr_mss c" by (simp add: maybe_enter_probe_rtt_def)
  moreover have "bbr_mss (check_full_pipe d) = bbr_mss d" "bbr_mss (advance_probe_bw d now) = bbr_mss d"
    "bbr_mss (enter_probe_bw d now) = bbr_mss d" for d
    by (simp_all add: check_full_pipe_def advance_probe_bw_def enter_probe_bw_def Let_def)
  moreover have "bbr_mss (handle_probe_rtt d now fl) = bbr_mss d" for d
    by (simp add: handle_probe_rtt_def enter_probe_bw_def Let_def split: option.split)
  ultimately show ?thesis
    by (cases "bbr_mode (maybe_enter_probe_rtt c ex)") (simp_all add: update_mode_def Let_def)
qed

lemma bbr_next_cwnd_floor:
  assumes "bbr_mss c \<le> 65535"
  shows "bbr_mss c \<le> bbr_next_cwnd c n pipe r \<and> bbr_next_cwnd c n pipe r \<le> U32_MAX"
proof -
  have "bbr_mss c \<le> bbr_min_cwnd c" by (simp add: bbr_min_cwnd_def MIN_CWND_SEGS_def)
  moreover have "bbr_mss c \<le> U32_MAX" using assms by (simp add: U32_MAX_def)
  ultimately show ?thesis by (simp add: bbr_next_cwnd_def Let_def le_max_iff_disj)
qed

text \<open>The recovery floor: the window stays above the bytes in the pipe.\<close>

lemma bbr_next_cwnd_recovery:
  "pipe + RECOVERY_HEADROOM_SEGS * bbr_mss c \<le> U32_MAX \<Longrightarrow>
    pipe + RECOVERY_HEADROOM_SEGS * bbr_mss c \<le> bbr_next_cwnd c n pipe True"
  by (simp add: bbr_next_cwnd_def Let_def le_max_iff_disj)

lemma bbr_set_pacing_inv:
  assumes "bbr_inv c"
  shows "bbr_inv (set_pacing_and_cwnd c n pipe r) \<and> bbr_mss (set_pacing_and_cwnd c n pipe r) = bbr_mss c"
  using bbr_inv_facts[OF assms] bbr_next_cwnd_floor[of c n pipe r]
  by (intro conjI bbr_inv_change[OF assms]) (simp_all add: set_pacing_and_cwnd_def)

text \<open>The state the mode update starts from.\<close>

definition bbr_sampled :: "bbr \<Rightarrow> instant \<Rightarrow> nat \<Rightarrow> nat \<Rightarrow> bool \<Rightarrow> rate_sample \<Rightarrow> bbr" where
  "bbr_sampled c now inflight acked r s =
     bbr_loss_step (update_ack_aggregation (bbr_btlbw_step (fst (bbr_min_rtt_step (bbr_round_step c s) now s)) s)
       now acked) inflight r"

lemma same_window_sampled: "same_window c (bbr_sampled c now inflight acked r s)"
  unfolding bbr_sampled_def
  by (meson same_window_trans same_window_round same_window_min_rtt same_window_btlbw
      same_window_aggregation same_window_loss)

lemma bbr_on_ack_sample_cases:
  assumes "sampler_on_ack (bbr_sampler c) now una = (smp, sp)"
  shows "bbr_on_ack_sample c now una fl n pipe r =
    (case smp of None \<Rightarrow> c\<lparr>bbr_sampler := sp\<rparr>
     | Some s \<Rightarrow> set_pacing_and_cwnd (update_mode (bbr_sampled (c\<lparr>bbr_sampler := sp\<rparr>) now fl n r s) now fl
         (snd (bbr_min_rtt_step (bbr_round_step (c\<lparr>bbr_sampler := sp\<rparr>) s) now s))) n pipe r)"
  by (simp add: bbr_on_ack_sample_def assms bbr_sampled_def split_beta Let_def split: option.split)

lemma bbr_on_ack_sample_inv:
  assumes "bbr_inv c"
  shows "bbr_inv (bbr_on_ack_sample c now una fl n pipe r)
    \<and> bbr_mss (bbr_on_ack_sample c now una fl n pipe r) = bbr_mss c"
proof -
  obtain smp sp where sp: "sampler_on_ack (bbr_sampler c) now una = (smp, sp)" by (cases "sampler_on_ack (bbr_sampler c) now una")
  define c0 where "c0 = c\<lparr>bbr_sampler := sp\<rparr>"
  have 0: "bbr_inv c0" "bbr_mss c0 = bbr_mss c"
    using assms same_window_inv[of c c0] by (simp_all add: c0_def same_window_def)
  show ?thesis
  proof (cases smp)
    case None
    then show ?thesis using 0 by (simp add: bbr_on_ack_sample_cases[OF sp] flip: c0_def)
  next
    case (Some s)
    have "bbr_inv (bbr_sampled c0 now fl n r s) \<and> bbr_mss (bbr_sampled c0 now fl n r s) = bbr_mss c"
      using same_window_inv[OF same_window_sampled] same_window_sampled[of c0 now fl n r s] 0
      by (simp add: same_window_def)
    then show ?thesis
      using bbr_update_mode_inv bbr_set_pacing_inv
      by (simp add: bbr_on_ack_sample_cases[OF sp] Some flip: c0_def)
  qed
qed

lemma bbr_on_rto_inv:
  assumes "bbr_inv c"
  shows "bbr_inv (bbr_on_rto c now fl) \<and> bbr_mss (bbr_on_rto c now fl) = bbr_mss c
    \<and> bbr_cwnd (bbr_on_rto c now fl) = bbr_mss c"
  using bbr_inv_facts[OF assms]
  by (intro conjI bbr_inv_change[OF assms]) (simp_all add: bbr_on_rto_def Let_def U32_MAX_def)

lemma same_window_on_ack: "same_window c (bbr_on_ack c now n)"
  by (simp add: same_window_def bbr_on_ack_def)

lemma same_window_dup_ack: "same_window c (snd (bbr_on_dup_ack c now fl))"
  by (simp add: same_window_def bbr_on_dup_ack_def Let_def)

lemma same_window_enter: "same_window c (bbr_enter_recovery c now fl)"
  by (simp add: same_window_def bbr_enter_recovery_def)

interpretation bbr_cc: congestion_control bbr_cwnd "\<lambda>c. U32_MAX" bbr_mss bbr_inv
  "\<lambda>c now n. Some (bbr_on_ack c now n)" bbr_on_dup_ack bbr_enter_recovery bbr_on_rto
  "\<lambda>c now n m. c" "\<lambda>c s. c"
proof
  fix c now n fl
  assume c: "bbr_inv c"
  show "0 < bbr_mss c \<and> bbr_mss c \<le> bbr_cwnd c \<and> bbr_cwnd c \<le> U32_MAX" using c by (simp add: bbr_inv_def)
  show "\<exists>c'. Some (bbr_on_ack c now n) = Some c' \<and> bbr_inv c' \<and> bbr_mss c' = bbr_mss c"
    using same_window_keep[OF same_window_on_ack[of c now n] c] by blast
  show "bbr_inv (snd (bbr_on_dup_ack c now fl)) \<and> bbr_mss (snd (bbr_on_dup_ack c now fl)) = bbr_mss c"
    using same_window_keep[OF same_window_dup_ack[of c now fl] c] .
  show "bbr_inv (bbr_enter_recovery c now fl) \<and> bbr_mss (bbr_enter_recovery c now fl) = bbr_mss c"
    using same_window_keep[OF same_window_enter[of c now fl] c] .
  show "bbr_inv (bbr_on_rto c now fl) \<and> bbr_mss (bbr_on_rto c now fl) = bbr_mss c"
    and "bbr_cwnd (bbr_on_rto c now fl) = bbr_mss c" using bbr_on_rto_inv[OF c] by simp_all
  show "bbr_inv c \<and> bbr_mss c = bbr_mss c" using c by simp
  then show "bbr_inv c \<and> bbr_mss c = bbr_mss c" .
qed

section \<open>The windowed maximum\<close>

text \<open>Monotone times below \<open>2\<^sup>6\<^sup>4\<close>: the wrapping difference is the difference.\<close>

lemma wrapping_sub64_eq: "b \<le> a \<Longrightarrow> a \<le> U64_MAX \<Longrightarrow> wrapping_sub64 a b = a - b"
proof -
  assume le: "b \<le> a" "a \<le> U64_MAX"
  then have "a + (U64_MAX + 1) - b = a - b + (U64_MAX + 1)" by simp
  then have "wrapping_sub64 a b = (a - b) mod (U64_MAX + 1)"
    unfolding wrapping_sub64_def by (simp only: mod_add_self2)
  then show ?thesis using le by simp
qed

fun wm_feed :: "windowed_max \<Rightarrow> (nat \<times> nat) list \<Rightarrow> windowed_max" where
  "wm_feed self [] = self"
| "wm_feed self ((t, v) # rest) = wm_feed (snd (wm_update self t v)) rest"

text \<open>
  The three estimates are fed samples (or the initial zero), ordered by value downwards and by
  time upwards.
\<close>

definition sample_pair :: "max_sample \<Rightarrow> nat \<times> nat" where
  "sample_pair s = (ms_t s, ms_v s)"

definition wm_inv :: "(nat \<times> nat) set \<Rightarrow> nat \<Rightarrow> windowed_max \<Rightarrow> bool" where
  "wm_inv fed t f \<longleftrightarrow> sample_pair (wm_s0 f) \<in> fed \<and> sample_pair (wm_s1 f) \<in> fed
     \<and> sample_pair (wm_s2 f) \<in> fed
     \<and> ms_v (wm_s1 f) \<le> ms_v (wm_s0 f) \<and> ms_v (wm_s2 f) \<le> ms_v (wm_s1 f)
     \<and> ms_t (wm_s0 f) \<le> ms_t (wm_s1 f) \<and> ms_t (wm_s1 f) \<le> ms_t (wm_s2 f) \<and> ms_t (wm_s2 f) \<le> t"

lemma wm_inv_new: "wm_inv {(0, 0)} 0 (wm_new w)"
  by (simp add: wm_inv_def wm_new_def sample_pair_def Let_def)

lemma wm_update_ok:
  assumes "wm_inv fed t0 f" and "t0 \<le> t" and "t \<le> U64_MAX"
  shows "wm_inv (insert (t, v) fed) t (snd (wm_update f t v))"
    and "fst (wm_update f t v) = ms_v (wm_s0 (snd (wm_update f t v)))"
    and "v \<le> fst (wm_update f t v)"
    and "t - ms_t (wm_s0 (snd (wm_update f t v))) \<le> wm_window f"
    and "wm_window (snd (wm_update f t v)) = wm_window f"
proof -
  have le: "ms_t (wm_s0 f) \<le> t" "ms_t (wm_s1 f) \<le> t" "ms_t (wm_s2 f) \<le> t"
    using assms(1,2) by (auto simp: wm_inv_def)
  note w = wrapping_sub64_eq[OF le(1) assms(3)] wrapping_sub64_eq[OF le(2) assms(3)]
    wrapping_sub64_eq[OF le(3) assms(3)] wrapping_sub64_eq[OF order_refl assms(3)]
  show "wm_inv (insert (t, v) fed) t (snd (wm_update f t v))"
    "fst (wm_update f t v) = ms_v (wm_s0 (snd (wm_update f t v)))"
    "v \<le> fst (wm_update f t v)"
    "t - ms_t (wm_s0 (snd (wm_update f t v))) \<le> wm_window f"
    "wm_window (snd (wm_update f t v)) = wm_window f"
    using assms(1,2) w unfolding wm_update_def wm_reset_def Let_def wm_inv_def sample_pair_def
    by (auto split: if_splits)
qed

lemma wm_feed_ok:
  assumes "wm_inv fed t0 f" and "sorted (t0 # map fst xs)" and "\<forall>(t, v) \<in> set xs. t \<le> U64_MAX"
  shows "wm_inv (fed \<union> set xs) (last (t0 # map fst xs)) (wm_feed f xs)
    \<and> wm_window (wm_feed f xs) = wm_window f"
  using assms
proof (induction xs arbitrary: fed t0 f)
  case Nil
  then show ?case by simp
next
  case (Cons x xs)
  obtain t v where x: "x = (t, v)" by (cases x)
  have "wm_inv (insert (t, v) fed) t (snd (wm_update f t v))" "wm_window (snd (wm_update f t v)) = wm_window f"
    using wm_update_ok[of fed t0 f t v] Cons.prems by (auto simp: x)
  with Cons.IH[of "insert (t, v) fed" t "snd (wm_update f t v)"] Cons.prems
  show ?case by (simp add: x)
qed

text \<open>
  The bottleneck-bandwidth filter. After any sequence of samples with non-decreasing
  times, the estimate is at least the newest value and is the value of one of the samples (or
  the initial zero) no older than the window: it never invents a value, never keeps one that has
  aged out, and a new maximum is adopted at once.
\<close>

theorem windowed_max_in_window:
  assumes "sorted (map fst xs @ [t])" and "t \<le> U64_MAX"
  shows "v \<le> ms_v (wm_s0 (wm_feed (wm_new w) (xs @ [(t, v)])))
    \<and> (\<exists>(t', v') \<in> insert (0, 0) (set (xs @ [(t, v)])).
         v' = ms_v (wm_s0 (wm_feed (wm_new w) (xs @ [(t, v)]))) \<and> t - t' \<le> w)"
proof -
  define f where "f = wm_feed (wm_new w) xs"
  have app: "wm_feed g (xs @ [(t, v)]) = snd (wm_update (wm_feed g xs) t v)" for g
    by (induction g xs rule: wm_feed.induct) auto
  have s: "sorted (0 # map fst xs)" "\<forall>(t, v) \<in> set xs. t \<le> U64_MAX"
    using assms by (auto simp: sorted_append intro: order_trans)
  have l: "last (0 # map fst xs) \<le> t"
    using assms(1) by (cases xs rule: rev_cases) (auto simp: sorted_append)
  from wm_feed_ok[OF wm_inv_new s(1,2), of w]
  have i: "wm_inv ({(0, 0)} \<union> set xs) (last (0 # map fst xs)) f" "wm_window f = w"
    by (simp_all add: f_def wm_new_def Let_def)
  note u = wm_update_ok[OF i(1) l assms(2), of v]
  have "(ms_t (wm_s0 (snd (wm_update f t v))), ms_v (wm_s0 (snd (wm_update f t v))))
      \<in> insert (t, v) ({(0, 0)} \<union> set xs)"
    using u(1) by (simp add: wm_inv_def sample_pair_def)
  then show ?thesis
    unfolding app f_def[symmetric] using u(2-4) i(2) by force
qed

theorem windowed_max_in_window_witness:
  "5 \<le> ms_v (wm_s0 (wm_feed (wm_new 10) ([(1, 9), (8, 3)] @ [(12, 5)])))"
  using windowed_max_in_window[of "[(1, 9), (8, 3)]" 12 5 10] by (simp add: U64_MAX_def)

text \<open>
  The recovery invariant of BBR. When an acknowledgement that delivers data is processed
  during recovery and the path model is known, the resulting window exceeds the bytes in the
  pipe by at least three segments (so the selective retransmit is never gated off), is at least
  four segments, whatever the model, the inflight bounds, the gains and the phase are.
\<close>

theorem bbr_recovery_headroom:
  assumes "bbr_mss c \<le> 65535" and "pipe + 3 * bbr_mss c \<le> U32_MAX"
    and "fst (sampler_on_ack (bbr_sampler c) now una) \<noteq> None"
    and "c' = bbr_on_ack_sample c now una inflight acked pipe True"
    and "bbr_btlbw c' \<noteq> 0" and "bbr_min_rtt_us c' \<noteq> U32_MAX"
  shows "pipe + 3 * bbr_mss c \<le> bbr_cwnd c' \<and> 4 * bbr_mss c \<le> bbr_cwnd c'"
proof -
  obtain s sp where sp: "sampler_on_ack (bbr_sampler c) now una = (Some s, sp)"
    using assms(3) by (cases "sampler_on_ack (bbr_sampler c) now una") auto
  define c1 where "c1 = update_mode (bbr_sampled (c\<lparr>bbr_sampler := sp\<rparr>) now inflight acked True s) now inflight
         (snd (bbr_min_rtt_step (bbr_round_step (c\<lparr>bbr_sampler := sp\<rparr>) s) now s))"
  have c': "c' = set_pacing_and_cwnd c1 acked pipe True"
    by (simp add: assms(4) bbr_on_ack_sample_cases[OF sp] c1_def)
  have m: "bbr_mss c1 = bbr_mss c"
    using same_window_sampled[of "c\<lparr>bbr_sampler := sp\<rparr>" now inflight acked True s]
    by (simp add: c1_def update_mode_mss same_window_def)
  have "bbr_btlbw c1 \<noteq> 0" "bbr_min_rtt_us c1 \<noteq> U32_MAX"
    using assms(5,6) unfolding c' by (auto simp: set_pacing_and_cwnd_def split: if_splits)
  then have w: "bbr_cwnd c' = bbr_next_cwnd c1 acked pipe True"
    by (simp add: c' set_pacing_and_cwnd_def)
  have "4 * bbr_mss c \<le> bbr_next_cwnd c1 acked pipe True"
    using assms(1) by (simp add: bbr_next_cwnd_def Let_def bbr_min_cwnd_def MIN_CWND_SEGS_def m
        U32_MAX_def le_max_iff_disj)
  moreover have "pipe + 3 * bbr_mss c \<le> bbr_next_cwnd c1 acked pipe True"
    using bbr_next_cwnd_recovery[of pipe c1 acked] assms(2) by (simp add: m RECOVERY_HEADROOM_SEGS_def)
  ultimately show ?thesis by (simp add: w)
qed

definition bbr_example :: bbr where
  "bbr_example = (bbr_new 1000)\<lparr>bbr_btlbw := 1000000, bbr_min_rtt_us := 1000,
     bbr_min_rtt_stamp := 4000,
     bbr_sampler := sampler_on_transmit sampler_new 4500 2000 1000 0 False\<rparr>"

text \<open>The path model is set by the bandwidth and min-RTT stages only.\<close>

lemma model_kept:
  "bbr_btlbw (set_pacing_and_cwnd c n pipe r) = bbr_btlbw c"
  "bbr_min_rtt_us (set_pacing_and_cwnd c n pipe r) = bbr_min_rtt_us c"
  "bbr_btlbw (update_ack_aggregation c now n) = bbr_btlbw c"
  "bbr_min_rtt_us (update_ack_aggregation c now n) = bbr_min_rtt_us c"
  "bbr_btlbw (cut_inflight_bounds c) = bbr_btlbw c"
  "bbr_min_rtt_us (cut_inflight_bounds c) = bbr_min_rtt_us c"
  "bbr_btlbw (raise_inflight_bounds c) = bbr_btlbw c"
  "bbr_min_rtt_us (raise_inflight_bounds c) = bbr_min_rtt_us c"
  "bbr_btlbw (maybe_enter_probe_rtt c ex) = bbr_btlbw c"
  "bbr_min_rtt_us (maybe_enter_probe_rtt c ex) = bbr_min_rtt_us c"
  "bbr_btlbw (check_full_pipe c) = bbr_btlbw c"
  "bbr_min_rtt_us (check_full_pipe c) = bbr_min_rtt_us c"
  "bbr_btlbw (enter_probe_bw c now) = bbr_btlbw c"
  "bbr_min_rtt_us (enter_probe_bw c now) = bbr_min_rtt_us c"
  "bbr_btlbw (advance_probe_bw c now) = bbr_btlbw c"
  "bbr_min_rtt_us (advance_probe_bw c now) = bbr_min_rtt_us c"
  by (simp_all add: set_pacing_and_cwnd_def update_ack_aggregation_def cut_inflight_bounds_def
      raise_inflight_bounds_def maybe_enter_probe_rtt_def check_full_pipe_def enter_probe_bw_def
      advance_probe_bw_def Let_def split_beta)

lemma model_kept_probe_rtt:
  "bbr_btlbw (handle_probe_rtt c now fl) = bbr_btlbw c"
  "bbr_min_rtt_us (handle_probe_rtt c now fl) = bbr_min_rtt_us c"
  by (simp_all add: handle_probe_rtt_def enter_probe_bw_def Let_def split: option.split)

lemma model_kept_mode:
  "bbr_btlbw (update_mode c now fl ex) = bbr_btlbw c"
  "bbr_min_rtt_us (update_mode c now fl ex) = bbr_min_rtt_us c"
  by (cases "bbr_mode (maybe_enter_probe_rtt c ex)";
      simp add: update_mode_def Let_def model_kept model_kept_probe_rtt)+

lemma model_kept_loss:
  "bbr_btlbw (bbr_loss_step c fl r) = bbr_btlbw c"
  "bbr_min_rtt_us (bbr_loss_step c fl r) = bbr_min_rtt_us c"
  by (simp_all add: bbr_loss_step_def Let_def model_kept)

theorem bbr_recovery_headroom_witness:
  "9000 \<le> bbr_cwnd (bbr_on_ack_sample bbr_example 5000 2000 6000 1000 6000 True)"
proof -
  let ?c = "bbr_on_ack_sample bbr_example 5000 2000 6000 1000 6000 True"
  have m: "bbr_mss bbr_example = 1000" by (simp add: bbr_example_def bbr_new_def)
  define s where "s = \<lparr>rs_delivery_rate = 2000000, rs_rtt_us = 500, rs_interval_us = 500,
    rs_is_app_limited = False, rs_prior_delivered = 0\<rparr>"
  obtain sp where sp: "sampler_on_ack (bbr_sampler bbr_example) 5000 2000 = (Some s, sp)"
    by (simp add: bbr_example_def sampler_on_transmit_def sampler_new_def sampler_on_ack_def Let_def
        seq_le_def distance_def saturating_micros_since_def s_def sat_mul64_def U64_MAX_def U32_MAX_def)
  have e: "bbr_min_rtt_us bbr_example = 1000" "bbr_btlbw_filter bbr_example = wm_new BTLBW_WINDOW_ROUNDS"
    "bbr_btlbw bbr_example = 1000000" by (simp_all add: bbr_example_def bbr_new_def)
  have "bbr_btlbw ?c = 2000000 \<and> bbr_min_rtt_us ?c = 500"
    by (simp add: bbr_on_ack_sample_cases[OF sp] bbr_sampled_def model_kept model_kept_mode model_kept_loss
        bbr_btlbw_step_def bbr_min_rtt_step_def bbr_round_step_def s_def e Let_def split_beta wm_update_def
        wm_reset_def wm_new_def)
  then show ?thesis
    using bbr_recovery_headroom[of bbr_example 6000 5000 2000 ?c 6000 1000] sp m
    by (simp add: U32_MAX_def)
qed

end
