(* ===== verification/Prague.thy ===== *)
theory Prague
  imports Dctcp
begin

text \<open>
  \<open>congestion.rs\<close>, \<open>Prague\<close>: the L4S controller. It differs from DCTCP in the
  additive step, which is scaled by the smoothed RTT.
\<close>

definition PRAGUE_RTT_REF_US :: f64 where
  "PRAGUE_RTT_REF_US = Fin 25000"

text \<open>\<open>clamp_f64\<close> is plain comparisons, so a NaN passes through.\<close>

definition clamp_f64 :: "f64 \<Rightarrow> f64 \<Rightarrow> f64 \<Rightarrow> f64" where
  "clamp_f64 x lo hi = (if flt x lo then lo else if flt hi x then hi else x)"

record prague =
  prague_cwnd :: nat
  prague_ssthresh :: nat
  prague_mss :: nat
  prague_ca_acc :: nat
  prague_dup_acks :: nat
  prague_alpha :: f64
  prague_acked_in_window :: nat
  prague_marked_in_window :: nat
  prague_window_bytes :: nat
  prague_srtt_us :: nat

definition prague_new :: "u16 \<Rightarrow> prague" where
  "prague_new mss = \<lparr>prague_cwnd = initial_window (unat mss), prague_ssthresh = U32_MAX,
     prague_mss = unat mss, prague_ca_acc = 0, prague_dup_acks = 0, prague_alpha = f_one,
     prague_acked_in_window = 0, prague_marked_in_window = 0,
     prague_window_bytes = initial_window (unat mss), prague_srtt_us = 0\<rparr>"

definition prague_in_slow_start :: "prague \<Rightarrow> bool" where
  "prague_in_slow_start self \<longleftrightarrow> prague_cwnd self < prague_ssthresh self"

definition prague_ai_step :: "prague \<Rightarrow> nat" where
  "prague_ai_step self =
     (if prague_srtt_us self = 0 then prague_mss self
      else let scaled = fmul (f64_of_nat (prague_mss self))
                          (fdiv (f64_of_nat (prague_srtt_us self)) PRAGUE_RTT_REF_US)
           in f64_as_u32 (clamp_f64 scaled (f64_of_nat (max (prague_mss self div 4) 1))
                (f64_of_nat (prague_mss self * 4))))"

definition prague_on_ack :: "prague \<Rightarrow> instant \<Rightarrow> nat \<Rightarrow> prague option" where
  "prague_on_ack self now acked =
     (let self = self\<lparr>prague_dup_acks := 0\<rparr> in
      if acked = 0 then Some self
      else if prague_in_slow_start self then
        Some (self\<lparr>prague_cwnd := sat_add32 (prague_cwnd self) (min acked (prague_mss self))\<rparr>)
      else do {
        let step = prague_ai_step self;
        (acc, cwnd) \<leftarrow> ca_loop (\<lambda>w. sat_add32 w step)
                        (sat_add32 (prague_ca_acc self) acked) (prague_cwnd self);
        Some (self\<lparr>prague_ca_acc := acc, prague_cwnd := cwnd\<rparr>)
      })"

definition prague_on_dup_ack :: "prague \<Rightarrow> instant \<Rightarrow> nat \<Rightarrow> bool \<times> prague" where
  "prague_on_dup_ack self now flight_size =
     (let self = self\<lparr>prague_dup_acks := sat_inc8 (prague_dup_acks self)\<rparr> in
      if prague_dup_acks self = 3 then
        let t = max (flight_size div 2) (2 * prague_mss self)
        in (True, self\<lparr>prague_ssthresh := t, prague_cwnd := t, prague_ca_acc := 0\<rparr>)
      else (False, self))"

definition prague_enter_recovery :: "prague \<Rightarrow> instant \<Rightarrow> nat \<Rightarrow> prague" where
  "prague_enter_recovery self now flight_size =
     (let t = max (flight_size div 2) (2 * prague_mss self)
      in self\<lparr>prague_ssthresh := t, prague_cwnd := t, prague_ca_acc := 0, prague_dup_acks := 0\<rparr>)"

definition prague_on_rto :: "prague \<Rightarrow> instant \<Rightarrow> nat \<Rightarrow> prague" where
  "prague_on_rto self now flight_size =
     self\<lparr>prague_ssthresh := max (flight_size div 2) (2 * prague_mss self),
       prague_cwnd := prague_mss self, prague_ca_acc := 0\<rparr>"

definition prague_set_mss :: "prague \<Rightarrow> u16 \<Rightarrow> prague" where
  "prague_set_mss self mss =
     self\<lparr>prague_mss := unat mss, prague_cwnd := max (prague_cwnd self) (unat mss), prague_ca_acc := 0\<rparr>"

definition prague_on_ecn :: "prague \<Rightarrow> instant \<Rightarrow> nat \<Rightarrow> nat \<Rightarrow> prague" where
  "prague_on_ecn self now acked marked =
     (if acked = 0 then self
      else let self = self\<lparr>
          prague_acked_in_window := sat_add32 (prague_acked_in_window self) acked,
          prague_marked_in_window := sat_add32 (prague_marked_in_window self) (min marked acked)\<rparr> in
        if prague_acked_in_window self < prague_window_bytes self then self
        else let alpha = ecn_alpha (prague_alpha self) (prague_marked_in_window self)
                           (prague_acked_in_window self);
                 self = self\<lparr>prague_alpha := alpha\<rparr>;
                 cwnd_before = prague_cwnd self;
                 self = (if 0 < prague_marked_in_window self then
                     let reduced = f64_as_u32 (fmul (f64_of_nat (prague_cwnd self))
                                     (fsub f_one (fdiv alpha f_two)));
                         w = max reduced (prague_mss self)
                     in self\<lparr>prague_cwnd := w, prague_ssthresh := w, prague_ca_acc := 0\<rparr>
                   else self)
             in self\<lparr>prague_acked_in_window := 0, prague_marked_in_window := 0,
                  prague_window_bytes := max cwnd_before (prague_mss self)\<rparr>)"

definition prague_on_rtt_sample :: "prague \<Rightarrow> nat \<Rightarrow> prague" where
  "prague_on_rtt_sample self srtt_us = self\<lparr>prague_srtt_us := srtt_us\<rparr>"

section \<open>The additive step\<close>

lemma clamp_f64_Fin:
  assumes "x \<noteq> NaN" and "lo \<le> hi"
  shows "\<exists>r. clamp_f64 x (Fin lo) (Fin hi) = Fin r \<and> lo \<le> r \<and> r \<le> hi"
  using assms by (cases x) (auto simp: clamp_f64_def)

lemma f64_of_not_NaN [simp]: "f64_of x \<noteq> NaN"
  by (simp add: f64_of_def Let_def)

lemma f64_as_u32_between:
  assumes "Fin r = x" and "of_nat lo \<le> r" and "r \<le> of_nat hi" and "hi \<le> U32_MAX"
  shows "lo \<le> f64_as_u32 x \<and> f64_as_u32 x \<le> hi"
  using nat_floor_le[OF assms(3)] nat_floor_ge[OF assms(2)] assms(4)
  unfolding assms(1)[symmetric] f64_as_u32_Fin by linarith

text \<open>The step is one segment before the first RTT sample and within a factor of four of it after.\<close>

lemma prague_ai_step_bounds:
  assumes "0 < prague_mss c" and "prague_mss c \<le> 65535" and "prague_srtt_us c \<le> U32_MAX"
  shows "max (prague_mss c div 4) 1 \<le> prague_ai_step c \<and> prague_ai_step c \<le> 4 * prague_mss c"
proof (cases "prague_srtt_us c = 0")
  case True
  then show ?thesis using assms by (simp add: prague_ai_step_def)
next
  case False
  define lo hi where "lo = max (prague_mss c div 4) 1" and "hi = prague_mss c * 4"
  define sc where "sc = fmul (f64_of_nat (prague_mss c)) (fdiv (f64_of_nat (prague_srtt_us c)) PRAGUE_RTT_REF_US)"
  have m: "prague_mss c \<le> U32_MAX" and lh: "lo \<le> hi" "hi \<le> U32_MAX"
    using assms(1,2) by (auto simp: U32_MAX_def lo_def hi_def)
  have "sc \<noteq> NaN"
    using assms m by (cases "f64_of (of_nat (prague_srtt_us c) / 25000)")
      (simp_all add: sc_def f64_of_u32 PRAGUE_RTT_REF_US_def)
  moreover have "(of_nat lo :: rat) \<le> of_nat hi" using lh by simp
  ultimately obtain r where r: "clamp_f64 sc (Fin (of_nat lo)) (Fin (of_nat hi)) = Fin r"
    "of_nat lo \<le> r" "r \<le> of_nat hi"
    using clamp_f64_Fin by blast
  have st: "prague_ai_step c = f64_as_u32 (clamp_f64 sc (f64_of_nat lo) (f64_of_nat hi))"
    using False by (simp add: prague_ai_step_def sc_def lo_def hi_def Let_def)
  have "f64_of_nat lo = Fin (of_nat lo)" "f64_of_nat hi = Fin (of_nat hi)"
    using lh by (simp_all add: f64_of_u32)
  then have "prague_ai_step c = f64_as_u32 (Fin r)"
    using r(1) by (simp add: st)
  then show ?thesis
    using f64_as_u32_between[OF refl r(2,3) lh(2)] by (simp add: lo_def hi_def)
qed

section \<open>Prague keeps the contract\<close>

definition prague_inv :: "prague \<Rightarrow> bool" where
  "prague_inv c \<longleftrightarrow> 0 < prague_mss c \<and> prague_mss c \<le> 65535 \<and> prague_mss c \<le> prague_cwnd c
     \<and> prague_cwnd c \<le> U32_MAX \<and> unit_f64 (prague_alpha c)
     \<and> prague_marked_in_window c \<le> prague_acked_in_window c \<and> prague_acked_in_window c \<le> U32_MAX
     \<and> prague_srtt_us c \<le> U32_MAX"

lemma prague_inv_new: "mss \<noteq> 0 \<Longrightarrow> prague_inv (prague_new mss)"
  using initial_window_bounds[of "unat mss"] unat_u16_bound[of mss]
  by (simp add: prague_inv_def prague_new_def U32_MAX_def unat_gt_0 unit_f64_def)

lemma prague_on_ack_total:
  assumes "prague_inv c"
  shows "\<exists>c'. prague_on_ack c now n = Some c' \<and> prague_inv c' \<and> prague_mss c' = prague_mss c
    \<and> prague_cwnd c \<le> prague_cwnd c'"
proof -
  obtain acc' w' where l: "ca_loop (\<lambda>w. sat_add32 w (prague_ai_step c)) (sat_add32 (prague_ca_acc c) n) (prague_cwnd c)
      = Some (acc', w')" "prague_cwnd c \<le> w'" "w' \<le> U32_MAX"
    using ca_loop_window[of "prague_mss c" "prague_cwnd c" "\<lambda>w. sat_add32 w (prague_ai_step c)"] assms
    by (fastforce simp: prague_inv_def sat_add32_def)
  have e: "prague_ai_step (c\<lparr>prague_dup_acks := 0\<rparr>) = prague_ai_step c" by (simp add: prague_ai_step_def)
  show ?thesis
    using l assms e by (auto simp: prague_on_ack_def prague_inv_def Let_def sat_add32_def)
qed

lemma prague_on_ecn_ok:
  assumes "prague_inv c"
  shows "prague_inv (prague_on_ecn c now n m) \<and> prague_mss (prague_on_ecn c now n m) = prague_mss c
    \<and> prague_cwnd (prague_on_ecn c now n m) \<le> prague_cwnd c
    \<and> prague_cwnd c div 2 \<le> prague_cwnd (prague_on_ecn c now n m)"
proof (cases "n = 0")
  case True
  then show ?thesis using assms by (simp add: prague_on_ecn_def)
next
  case False
  define ac mk where "ac = sat_add32 (prague_acked_in_window c) n"
    and "mk = sat_add32 (prague_marked_in_window c) (min m n)"
  have b: "mk \<le> ac" "0 < ac" "ac \<le> U32_MAX"
    using assms False by (auto simp: ac_def mk_def sat_add32_def prague_inv_def U32_MAX_def)
  have al: "unit_f64 (ecn_alpha (prague_alpha c) mk ac)"
    using assms b by (intro ecn_alpha_unit) (simp_all add: prague_inv_def)
  note cut = alpha_cut[OF al, of "prague_cwnd c"]
  show ?thesis
    using assms False b al cut
    by (auto simp: prague_on_ecn_def Let_def prague_inv_def simp flip: ac_def mk_def)
qed

interpretation prague_cc: loss_based_control prague_cwnd prague_ssthresh prague_mss prague_inv prague_on_ack
  prague_on_dup_ack prague_enter_recovery prague_on_rto prague_on_ecn prague_on_rtt_sample
proof
  fix c c' :: prague and now n fl m s
  assume c: "prague_inv c"
  note [simp] = prague_on_dup_ack_def prague_enter_recovery_def prague_on_rto_def Let_def
  show "0 < prague_mss c \<and> prague_mss c \<le> prague_cwnd c \<and> prague_cwnd c \<le> U32_MAX"
    using c by (simp add: prague_inv_def)
  show "\<exists>c'. prague_on_ack c now n = Some c' \<and> prague_inv c' \<and> prague_mss c' = prague_mss c"
    using prague_on_ack_total[OF c] by blast
  show "prague_on_ack c now n = Some c' \<Longrightarrow> prague_cwnd c \<le> prague_cwnd c'"
    using prague_on_ack_total[OF c, of now n] by auto
  show "s \<le> U32_MAX \<Longrightarrow> prague_inv (prague_on_rtt_sample c s)
      \<and> prague_mss (prague_on_rtt_sample c s) = prague_mss c"
    using c by (simp add: prague_inv_def prague_on_rtt_sample_def)
  show "prague_inv (prague_on_ecn c now n m) \<and> prague_mss (prague_on_ecn c now n m) = prague_mss c"
    and "prague_cwnd (prague_on_ecn c now n m) \<le> prague_cwnd c"
    using prague_on_ecn_ok[OF c] by simp_all
  show "prague_on_dup_ack c now fl = (False, c') \<Longrightarrow> prague_cwnd c' = prague_cwnd c"
    by (auto split: if_splits)
  assume fl: "fl \<le> U32_MAX"
  note [simp] = prague_inv_def U32_MAX_def
  show "prague_inv (snd (prague_on_dup_ack c now fl)) \<and> prague_mss (snd (prague_on_dup_ack c now fl)) = prague_mss c"
    "prague_inv (prague_enter_recovery c now fl) \<and> prague_mss (prague_enter_recovery c now fl) = prague_mss c"
    "prague_inv (prague_on_rto c now fl) \<and> prague_mss (prague_on_rto c now fl) = prague_mss c"
    "prague_cwnd (prague_on_rto c now fl) = prague_mss c"
    "2 * prague_mss c \<le> prague_ssthresh (prague_enter_recovery c now fl)
      \<and> prague_ssthresh (prague_enter_recovery c now fl) \<le> max fl (2 * prague_mss c)
      \<and> prague_cwnd (prague_enter_recovery c now fl) = prague_ssthresh (prague_enter_recovery c now fl)"
    "2 * prague_mss c \<le> prague_ssthresh (prague_on_rto c now fl)
      \<and> prague_ssthresh (prague_on_rto c now fl) \<le> max fl (2 * prague_mss c)"
    "prague_on_dup_ack c now fl = (True, c') \<Longrightarrow> 2 * prague_mss c \<le> prague_ssthresh c'
      \<and> prague_ssthresh c' \<le> max fl (2 * prague_mss c) \<and> prague_cwnd c' = prague_ssthresh c'"
    using c fl by (auto split: if_splits)
qed

end
