(* ===== verification/Learned.thy ===== *)
theory Learned
  imports Prague
begin

text \<open>
  \<open>congestion.rs\<close>, \<open>Learned\<close>: the AIMD and ECN skeleton whose gains are the genome
  \<open>LearnedParams\<close>, clamped by \<open>sanitized\<close>.
\<close>

section \<open>The genome\<close>

record learned_params =
  ai_gain :: f64
  md_loss :: f64
  ecn_a :: f64
  ecn_b :: f64
  ecn_max :: f64

definition DEFAULT :: learned_params where
  "DEFAULT = \<lparr>ai_gain = f64_of 1, md_loss = f64_of (5 / 10), ecn_a = f64_of (5 / 10),
     ecn_b = f64_of 0, ecn_max = f64_of (5 / 10)\<rparr>"

definition BAKED :: learned_params where
  "BAKED = \<lparr>ai_gain = f64_of (8608600807626614 / 10 ^ 16),
     md_loss = f64_of (17665019197744708 / 10 ^ 17),
     ecn_a = f64_of (18471102809453077 / 10 ^ 17),
     ecn_b = f64_of (11656344382528598 / 10 ^ 18),
     ecn_max = f64_of (6282775233572743 / 10 ^ 16)\<rparr>"

definition sanitized :: "learned_params \<Rightarrow> learned_params" where
  "sanitized p = \<lparr>
     ai_gain = clamp_f64 (ai_gain p) (f64_of (5 / 100)) (f64_of 8),
     md_loss = clamp_f64 (md_loss p) (f64_of (1 / 10)) (f64_of (95 / 100)),
     ecn_a = clamp_f64 (ecn_a p) (f64_of 0) (f64_of 2),
     ecn_b = clamp_f64 (ecn_b p) (f64_of (- 1)) (f64_of 2),
     ecn_max = clamp_f64 (ecn_max p) (f64_of (5 / 100)) (f64_of (95 / 100))\<rparr>"

section \<open>The controller\<close>

record learned =
  learned_cwnd :: nat
  learned_ssthresh :: nat
  learned_mss :: nat
  learned_ca_acc :: nat
  learned_dup_acks :: nat
  learned_p :: learned_params
  learned_alpha :: f64
  learned_acked_in_window :: nat
  learned_marked_in_window :: nat
  learned_window_bytes :: nat

definition learned_with_raw_params :: "u16 \<Rightarrow> learned_params \<Rightarrow> learned" where
  "learned_with_raw_params mss p = \<lparr>learned_cwnd = initial_window (unat mss),
     learned_ssthresh = U32_MAX, learned_mss = unat mss, learned_ca_acc = 0, learned_dup_acks = 0,
     learned_p = p, learned_alpha = f_one, learned_acked_in_window = 0,
     learned_marked_in_window = 0, learned_window_bytes = initial_window (unat mss)\<rparr>"

definition learned_with_params :: "u16 \<Rightarrow> learned_params \<Rightarrow> learned" where
  "learned_with_params mss p = learned_with_raw_params mss (sanitized p)"

text \<open>
  \<open>LEARNED_OVERRIDE\<close>, the thread-local genome a trainer may install, is the argument
  \<open>override\<close>.
\<close>

definition current_learned_params :: "learned_params option \<Rightarrow> learned_params" where
  "current_learned_params override =
     sanitized (case override of Some p \<Rightarrow> p | None \<Rightarrow> BAKED)"

definition learned_new :: "learned_params option \<Rightarrow> u16 \<Rightarrow> learned" where
  "learned_new override mss = learned_with_params mss (current_learned_params override)"

definition learned_in_slow_start :: "learned \<Rightarrow> bool" where
  "learned_in_slow_start self \<longleftrightarrow> learned_cwnd self < learned_ssthresh self"

definition learned_loss_ssthresh :: "learned \<Rightarrow> nat \<Rightarrow> nat" where
  "learned_loss_ssthresh self flight_size =
     max (f64_as_u32 (fmul (f64_of_nat flight_size) (md_loss (learned_p self)))) (2 * learned_mss self)"

definition learned_on_ack :: "learned \<Rightarrow> instant \<Rightarrow> nat \<Rightarrow> learned option" where
  "learned_on_ack self now acked =
     (let self = self\<lparr>learned_dup_acks := 0\<rparr> in
      if acked = 0 then Some self
      else if learned_in_slow_start self then
        Some (self\<lparr>learned_cwnd := sat_add32 (learned_cwnd self) (min acked (learned_mss self))\<rparr>)
      else do {
        let step = max (f64_as_u32 (fmul (ai_gain (learned_p self)) (f64_of_nat (learned_mss self)))) 1;
        (acc, cwnd) \<leftarrow> ca_loop (\<lambda>w. sat_add32 w step)
                        (sat_add32 (learned_ca_acc self) acked) (learned_cwnd self);
        Some (self\<lparr>learned_ca_acc := acc, learned_cwnd := cwnd\<rparr>)
      })"

definition learned_on_dup_ack :: "learned \<Rightarrow> instant \<Rightarrow> nat \<Rightarrow> bool \<times> learned" where
  "learned_on_dup_ack self now flight_size =
     (let self = self\<lparr>learned_dup_acks := sat_inc8 (learned_dup_acks self)\<rparr> in
      if learned_dup_acks self = 3 then
        let t = learned_loss_ssthresh self flight_size
        in (True, self\<lparr>learned_ssthresh := t, learned_cwnd := t, learned_ca_acc := 0\<rparr>)
      else (False, self))"

definition learned_enter_recovery :: "learned \<Rightarrow> instant \<Rightarrow> nat \<Rightarrow> learned" where
  "learned_enter_recovery self now flight_size =
     (let t = learned_loss_ssthresh self flight_size
      in self\<lparr>learned_ssthresh := t, learned_cwnd := t, learned_ca_acc := 0, learned_dup_acks := 0\<rparr>)"

definition learned_on_rto :: "learned \<Rightarrow> instant \<Rightarrow> nat \<Rightarrow> learned" where
  "learned_on_rto self now flight_size =
     self\<lparr>learned_ssthresh := learned_loss_ssthresh self flight_size,
       learned_cwnd := learned_mss self, learned_ca_acc := 0\<rparr>"

definition learned_set_mss :: "learned \<Rightarrow> u16 \<Rightarrow> learned" where
  "learned_set_mss self mss =
     self\<lparr>learned_mss := unat mss, learned_cwnd := max (learned_cwnd self) (unat mss), learned_ca_acc := 0\<rparr>"

definition ecn_response_cut :: "learned_params \<Rightarrow> f64 \<Rightarrow> f64" where
  "ecn_response_cut p a =
     clamp_f64 (fadd (fmul (ecn_a p) a) (fmul (fmul (ecn_b p) a) a)) (Fin 0) (ecn_max p)"

definition learned_on_ecn :: "learned \<Rightarrow> instant \<Rightarrow> nat \<Rightarrow> nat \<Rightarrow> learned" where
  "learned_on_ecn self now acked marked =
     (if acked = 0 then self
      else let self = self\<lparr>
          learned_acked_in_window := sat_add32 (learned_acked_in_window self) acked,
          learned_marked_in_window := sat_add32 (learned_marked_in_window self) (min marked acked)\<rparr> in
        if learned_acked_in_window self < learned_window_bytes self then self
        else let alpha = ecn_alpha (learned_alpha self) (learned_marked_in_window self)
                           (learned_acked_in_window self);
                 self = self\<lparr>learned_alpha := alpha\<rparr>;
                 cwnd_before = learned_cwnd self;
                 self = (if 0 < learned_marked_in_window self then
                     let cut = ecn_response_cut (learned_p self) alpha;
                         reduced = f64_as_u32 (fmul (f64_of_nat (learned_cwnd self)) (fsub f_one cut));
                         w = max reduced (learned_mss self)
                     in self\<lparr>learned_cwnd := w, learned_ssthresh := w, learned_ca_acc := 0\<rparr>
                   else self)
             in self\<lparr>learned_acked_in_window := 0, learned_marked_in_window := 0,
                  learned_window_bytes := max cwnd_before (learned_mss self)\<rparr>)"

section \<open>What sanitizing gives\<close>

definition fin_in :: "f64 \<Rightarrow> rat \<Rightarrow> rat \<Rightarrow> bool" where
  "fin_in x lo hi \<longleftrightarrow> (\<exists>r. x = Fin r \<and> lo \<le> r \<and> r \<le> hi)"

lemma fin_in_f64_of:
  "f64_rep lo \<Longrightarrow> f64_rep hi \<Longrightarrow> lo \<le> x \<Longrightarrow> x \<le> hi \<Longrightarrow> fin_in (f64_of x) lo hi"
  using f64_of_between[of lo hi x] by (simp add: fin_in_def)

lemma fin_in_clamp:
  assumes "x \<noteq> NaN" and "fin_in l lo mid" and "fin_in h mid hi"
  shows "fin_in (clamp_f64 x l h) lo hi"
proof -
  obtain a b where ab: "l = Fin a" "h = Fin b" "lo \<le> a" "a \<le> mid" "mid \<le> b" "b \<le> hi"
    using assms(2,3) by (auto simp: fin_in_def)
  then have "a \<le> b" by simp
  from clamp_f64_Fin[OF assms(1) this] show ?thesis using ab by (auto simp: fin_in_def)
qed

text \<open>The safe region of the genome.\<close>

definition genome_ok :: "learned_params \<Rightarrow> bool" where
  "genome_ok p \<longleftrightarrow> fin_in (ai_gain p) 0 8 \<and> fin_in (md_loss p) 0 1 \<and> fin_in (ecn_a p) 0 2
     \<and> fin_in (ecn_b p) (- 1) 2 \<and> fin_in (ecn_max p) 0 1"

definition genome_numeric :: "learned_params \<Rightarrow> bool" where
  "genome_numeric p \<longleftrightarrow> ai_gain p \<noteq> NaN \<and> md_loss p \<noteq> NaN \<and> ecn_a p \<noteq> NaN \<and> ecn_b p \<noteq> NaN \<and> ecn_max p \<noteq> NaN"

lemma f64_rep_2 [simp]: "f64_rep 2" and f64_rep_8 [simp]: "f64_rep 8" and f64_rep_m1 [simp]: "f64_rep (- 1)"
  using f64_rep_nat[of 2] f64_rep_nat[of 8] f64_rep_dyadic(2)[of 1 1 0] by simp_all

lemma sanitized_ok:
  assumes "genome_numeric p"
  shows "genome_ok (sanitized p)"
proof -
  have "fin_in (f64_of (5 / 100)) 0 (1 / 2)" "fin_in (f64_of (1 / 10)) 0 (1 / 2)"
    "fin_in (f64_of (95 / 100)) (1 / 2) 1" by (rule fin_in_f64_of; simp)+
  moreover have "fin_in (f64_of 8) (1 / 2) 8" "fin_in (f64_of 0) 0 1" "fin_in (f64_of 2) 1 2"
    "fin_in (f64_of (- 1)) (- 1) 1" by (rule fin_in_f64_of; simp)+
  ultimately show ?thesis
    using assms unfolding genome_ok_def genome_numeric_def
    by (auto simp: sanitized_def intro: fin_in_clamp)
qed

lemma BAKED_numeric: "genome_numeric BAKED"
  by (simp add: genome_numeric_def BAKED_def)

lemma fin_in_mul:
  assumes "fin_in x lo hi" and "unit_f64 a" and "f64_rep lo" and "f64_rep hi" and "lo \<le> 0" and "0 \<le> hi"
  shows "fin_in (fmul x a) lo hi"
proof -
  obtain r s where rs: "x = Fin r" "lo \<le> r" "r \<le> hi" "a = Fin s" "0 \<le> s" "s \<le> 1"
    using assms by (auto simp: fin_in_def unit_f64_def)
  have "lo \<le> lo * s" using assms(5) rs by (simp add: mult_left_le mult_le_cancel_left1 mult_le_cancel_left2)
  also have "\<dots> \<le> r * s" using rs by (simp add: mult_right_mono)
  finally have lo: "lo \<le> r * s" .
  have "r * s \<le> hi * s" using rs by (simp add: mult_right_mono)
  also have "\<dots> \<le> hi" using assms(6) rs by (simp add: mult_left_le)
  finally have "r * s \<le> hi" .
  then show ?thesis using fin_in_f64_of[OF assms(3,4) lo] rs by simp
qed

lemma ecn_response_cut_unit:
  assumes "genome_ok p" and "unit_f64 a"
  shows "unit_f64 (ecn_response_cut p a)"
proof -
  have "fin_in (fmul (ecn_a p) a) 0 2" using assms by (intro fin_in_mul) (simp_all add: genome_ok_def)
  moreover have "fin_in (fmul (fmul (ecn_b p) a) a) (- 1) 2"
    using assms by (intro fin_in_mul) (simp_all add: genome_ok_def)
  ultimately have "fadd (fmul (ecn_a p) a) (fmul (fmul (ecn_b p) a) a) \<noteq> NaN"
    by (auto simp: fin_in_def)
  then have "fin_in (ecn_response_cut p a) 0 1"
    unfolding ecn_response_cut_def using assms(1)
    by (intro fin_in_clamp[where mid = 0]) (simp_all add: genome_ok_def fin_in_def)
  then show ?thesis by (simp add: unit_f64_def fin_in_def)
qed

lemma unit_complement: "unit_f64 x \<Longrightarrow> unit_f64 (fsub f_one x)"
  using f64_of_unit[of "1 - _"] by (auto simp: unit_f64_def fsub_def)

lemma scale_by_unit:
  assumes "unit_f64 s" and "w \<le> U32_MAX"
  shows "f64_as_u32 (fmul (f64_of_nat w) s) \<le> w"
  using assms(1) scale_window(1)[OF assms(2), of 0 s] by (auto simp: unit_f64_def)

lemma learned_loss_ssthresh_bounds:
  assumes "genome_ok (learned_p c)" and "fl \<le> U32_MAX"
  shows "2 * learned_mss c \<le> learned_loss_ssthresh c fl
    \<and> learned_loss_ssthresh c fl \<le> max fl (2 * learned_mss c)"
  using scale_by_unit[of "md_loss (learned_p c)" fl] assms
  by (auto simp: learned_loss_ssthresh_def genome_ok_def fin_in_def unit_f64_def)

section \<open>Every sanitized genome keeps the contract\<close>

definition learned_inv :: "learned \<Rightarrow> bool" where
  "learned_inv c \<longleftrightarrow> 0 < learned_mss c \<and> learned_mss c \<le> 65535 \<and> learned_mss c \<le> learned_cwnd c
     \<and> learned_cwnd c \<le> U32_MAX \<and> unit_f64 (learned_alpha c)
     \<and> learned_marked_in_window c \<le> learned_acked_in_window c \<and> learned_acked_in_window c \<le> U32_MAX
     \<and> genome_ok (learned_p c)"

lemma learned_inv_new:
  assumes "mss \<noteq> 0" and "genome_numeric p"
  shows "learned_inv (learned_with_params mss p)"
  using initial_window_bounds[of "unat mss"] unat_u16_bound[of mss] assms sanitized_ok[OF assms(2)]
  by (simp add: learned_inv_def learned_with_params_def learned_with_raw_params_def U32_MAX_def unat_gt_0 unit_f64_def)

lemma learned_on_ack_total:
  assumes "learned_inv c"
  shows "\<exists>c'. learned_on_ack c now n = Some c' \<and> learned_inv c' \<and> learned_mss c' = learned_mss c
    \<and> learned_cwnd c \<le> learned_cwnd c'"
proof -
  obtain acc' w' where l: "ca_loop (\<lambda>w. sat_add32 w (max (f64_as_u32 (fmul (ai_gain (learned_p c)) (f64_of_nat (learned_mss c)))) 1)) (sat_add32 (learned_ca_acc c) n) (learned_cwnd c)
      = Some (acc', w')" "learned_cwnd c \<le> w'" "w' \<le> U32_MAX"
    using ca_loop_window[of "learned_mss c" "learned_cwnd c" "\<lambda>w. sat_add32 w (max (f64_as_u32 (fmul (ai_gain (learned_p c)) (f64_of_nat (learned_mss c)))) 1)"] assms
    by (fastforce simp: learned_inv_def sat_add32_def)
  show ?thesis
    using l assms by (auto simp: learned_on_ack_def learned_inv_def Let_def sat_add32_def)
qed

lemma learned_on_ecn_ok:
  assumes "learned_inv c"
  shows "learned_inv (learned_on_ecn c now n m) \<and> learned_mss (learned_on_ecn c now n m) = learned_mss c
    \<and> learned_cwnd (learned_on_ecn c now n m) \<le> learned_cwnd c"
proof (cases "n = 0")
  case True
  then show ?thesis using assms by (simp add: learned_on_ecn_def)
next
  case False
  define ac mk where "ac = sat_add32 (learned_acked_in_window c) n"
    and "mk = sat_add32 (learned_marked_in_window c) (min m n)"
  have b: "mk \<le> ac" "0 < ac" "ac \<le> U32_MAX"
    using assms False by (auto simp: ac_def mk_def sat_add32_def learned_inv_def U32_MAX_def)
  have al: "unit_f64 (ecn_alpha (learned_alpha c) mk ac)"
    using assms b by (intro ecn_alpha_unit) (simp_all add: learned_inv_def)
  have "unit_f64 (fsub f_one (ecn_response_cut (learned_p c) (ecn_alpha (learned_alpha c) mk ac)))"
    using assms al by (intro unit_complement ecn_response_cut_unit) (simp_all add: learned_inv_def)
  note cut = scale_by_unit[OF this, of "learned_cwnd c"]
  show ?thesis
    using assms False b al cut
    by (auto simp: learned_on_ecn_def Let_def learned_inv_def simp flip: ac_def mk_def)
qed

interpretation learned_cc: loss_based_control learned_cwnd learned_ssthresh learned_mss learned_inv learned_on_ack
  learned_on_dup_ack learned_enter_recovery learned_on_rto learned_on_ecn "\<lambda>c s. c"
proof
  fix c c' :: learned and now n fl m s
  assume c: "learned_inv c"
  note [simp] = learned_on_dup_ack_def learned_enter_recovery_def learned_on_rto_def Let_def
  show "0 < learned_mss c \<and> learned_mss c \<le> learned_cwnd c \<and> learned_cwnd c \<le> U32_MAX"
    using c by (simp add: learned_inv_def)
  show "\<exists>c'. learned_on_ack c now n = Some c' \<and> learned_inv c' \<and> learned_mss c' = learned_mss c"
    using learned_on_ack_total[OF c] by blast
  show "learned_on_ack c now n = Some c' \<Longrightarrow> learned_cwnd c \<le> learned_cwnd c'"
    using learned_on_ack_total[OF c, of now n] by auto
  show "learned_inv c \<and> learned_mss c = learned_mss c" using c by simp
  show "learned_inv (learned_on_ecn c now n m) \<and> learned_mss (learned_on_ecn c now n m) = learned_mss c"
    and "learned_cwnd (learned_on_ecn c now n m) \<le> learned_cwnd c"
    using learned_on_ecn_ok[OF c] by simp_all
  show "learned_on_dup_ack c now fl = (False, c') \<Longrightarrow> learned_cwnd c' = learned_cwnd c"
    by (auto split: if_splits)
  assume fl: "fl \<le> U32_MAX"
  have ls: "2 * learned_mss c \<le> learned_loss_ssthresh c fl"
    "learned_loss_ssthresh c fl \<le> max fl (2 * learned_mss c)"
    using learned_loss_ssthresh_bounds[OF _ fl, of c] c by (simp_all add: learned_inv_def)
  have e: "learned_loss_ssthresh (c\<lparr>learned_dup_acks := d\<rparr>) fl = learned_loss_ssthresh c fl" for d
    by (simp add: learned_loss_ssthresh_def)
  note [simp] = learned_inv_def U32_MAX_def
  show "learned_inv (snd (learned_on_dup_ack c now fl)) \<and> learned_mss (snd (learned_on_dup_ack c now fl)) = learned_mss c"
    "learned_inv (learned_enter_recovery c now fl) \<and> learned_mss (learned_enter_recovery c now fl) = learned_mss c"
    "learned_inv (learned_on_rto c now fl) \<and> learned_mss (learned_on_rto c now fl) = learned_mss c"
    "learned_cwnd (learned_on_rto c now fl) = learned_mss c"
    "2 * learned_mss c \<le> learned_ssthresh (learned_enter_recovery c now fl)
      \<and> learned_ssthresh (learned_enter_recovery c now fl) \<le> max fl (2 * learned_mss c)
      \<and> learned_cwnd (learned_enter_recovery c now fl) = learned_ssthresh (learned_enter_recovery c now fl)"
    "2 * learned_mss c \<le> learned_ssthresh (learned_on_rto c now fl)
      \<and> learned_ssthresh (learned_on_rto c now fl) \<le> max fl (2 * learned_mss c)"
    "learned_on_dup_ack c now fl = (True, c') \<Longrightarrow> 2 * learned_mss c \<le> learned_ssthresh c'
      \<and> learned_ssthresh c' \<le> max fl (2 * learned_mss c) \<and> learned_cwnd c' = learned_ssthresh c'"
    using c fl ls e by (auto split: if_splits)
qed

end
