(* ===== verification/Synth.thy ===== *)
theory Synth
  imports Prague
begin

text \<open>
  \<open>congestion.rs\<close>, \<open>Synth\<close>: the controller whose three responses are programs of
  a register machine, the machine, and the repairs the counterexample-guided search applies.
  A \<open>[Instr; 8]\<close> is a list of eight instructions.
\<close>

section \<open>The register machine\<close>

definition SYNTH_REGS_IN :: nat where "SYNTH_REGS_IN = 8"
definition SYNTH_PROG_LEN :: nat where "SYNTH_PROG_LEN = 8"
definition SYNTH_CAP :: rat where "SYNTH_CAP = 1000000000"
definition SYNTH_CWND_CAP :: nat where "SYNTH_CWND_CAP = 1073741824"
definition R_FLIGHT :: u8 where "R_FLIGHT = 1"
definition R_ALPHA :: u8 where "R_ALPHA = 3"
definition R_HALF :: u8 where "R_HALF = 5"
definition R_ONE :: u8 where "R_ONE = 6"

datatype synth_op = OpAdd | OpSub | OpMul | OpDiv | OpMin | OpMax

record instr =
  i_op :: synth_op
  i_a :: u8
  i_b :: u8

record control_program =
  cp_inc :: "instr list"
  cp_md :: "instr list"
  cp_ecn :: "instr list"

abbreviation mk_instr :: "synth_op \<Rightarrow> u8 \<Rightarrow> u8 \<Rightarrow> instr" where
  "mk_instr op a b \<equiv> \<lparr>i_op = op, i_a = a, i_b = b\<rparr>"

text \<open>One operation, then identity carries to the output register.\<close>

definition seed_prog :: "synth_op \<Rightarrow> u8 \<Rightarrow> u8 \<Rightarrow> instr list" where
  "seed_prog op a b = mk_instr op a b #
     map (\<lambda>i. let prev = word_of_nat (SYNTH_REGS_IN + i - 1) in mk_instr OpMax prev prev)
       [1..<SYNTH_PROG_LEN]"

definition AIMD :: control_program where
  "AIMD = \<lparr>cp_inc = seed_prog OpMax R_ONE R_ONE, cp_md = seed_prog OpMul R_FLIGHT R_HALF,
     cp_ecn = seed_prog OpMul R_ALPHA R_HALF\<rparr>"

definition OUT_PREV :: u8 where
  "OUT_PREV = word_of_nat (SYNTH_REGS_IN + SYNTH_PROG_LEN - 2)"

definition repair_loss :: "control_program \<Rightarrow> control_program" where
  "repair_loss self = self\<lparr>cp_md := (cp_md self)[SYNTH_PROG_LEN - 1 := mk_instr OpMin OUT_PREV R_FLIGHT]\<rparr>"

definition repair_increase :: "control_program \<Rightarrow> control_program" where
  "repair_increase self = self\<lparr>cp_inc := (cp_inc self)[SYNTH_PROG_LEN - 1 := mk_instr OpMax OUT_PREV R_HALF]\<rparr>"

definition repair_ecn :: "control_program \<Rightarrow> control_program" where
  "repair_ecn self = self\<lparr>cp_ecn := cp_ecn AIMD\<rparr>"

definition aimd_with_ecn_op :: "synth_op \<Rightarrow> u8 \<Rightarrow> u8 \<Rightarrow> control_program" where
  "aimd_with_ecn_op op a b = \<lparr>cp_inc = cp_inc AIMD, cp_md = cp_md AIMD, cp_ecn = seed_prog op a b\<rparr>"

definition synth_guard :: "f64 \<Rightarrow> f64" where
  "synth_guard v = (if v = NaN then Fin 0 else clamp_f64 v (Fin (- SYNTH_CAP)) (Fin SYNTH_CAP))"

definition synth_apply :: "synth_op \<Rightarrow> f64 \<Rightarrow> f64 \<Rightarrow> f64" where
  "synth_apply op a b = (case op of
     OpAdd \<Rightarrow> fadd a b
   | OpSub \<Rightarrow> fsub a b
   | OpMul \<Rightarrow> fmul a b
   | OpDiv \<Rightarrow> if b = Fin 0 then Fin 0 else fdiv a b
   | OpMin \<Rightarrow> if flt a b then a else b
   | OpMax \<Rightarrow> if flt b a then a else b)"

text \<open>The loop of \<open>synth_eval\<close>: instruction \<open>t\<close> writes register \<open>n = 8 + t\<close>.\<close>

fun synth_exec :: "instr list \<Rightarrow> nat \<Rightarrow> f64 list \<Rightarrow> f64 list" where
  "synth_exec [] n reg = reg"
| "synth_exec (ins # rest) n reg =
     (let a = reg ! min (unat (i_a ins)) (n - 1);
          b = reg ! min (unat (i_b ins)) (n - 1);
          v = synth_apply (i_op ins) a b
      in synth_exec rest (n + 1) (reg[n := synth_guard v]))"

definition synth_eval :: "instr list \<Rightarrow> f64 list \<Rightarrow> f64" where
  "synth_eval prog inputs =
     synth_exec prog SYNTH_REGS_IN (inputs @ replicate SYNTH_PROG_LEN (Fin 0))
       ! (SYNTH_REGS_IN + SYNTH_PROG_LEN - 1)"

definition synth_to_cwnd :: "f64 \<Rightarrow> nat \<Rightarrow> nat" where
  "synth_to_cwnd v lo =
     (if flt v (f64_of_nat lo) then lo
      else if flt (f64_of_nat SYNTH_CWND_CAP) v then SYNTH_CWND_CAP
      else f64_as_u32 v)"

section \<open>The controller\<close>

record synth =
  synth_cwnd :: nat
  synth_ssthresh :: nat
  synth_mss :: nat
  synth_ca_acc :: nat
  synth_dup_acks :: nat
  synth_prog :: control_program
  synth_alpha :: f64
  synth_acked_in_window :: nat
  synth_marked_in_window :: nat
  synth_window_bytes :: nat
  synth_srtt_us :: nat
  synth_rtt_min_us :: nat

definition synth_with_program :: "u16 \<Rightarrow> control_program \<Rightarrow> synth" where
  "synth_with_program mss p = \<lparr>synth_cwnd = initial_window (unat mss), synth_ssthresh = U32_MAX,
     synth_mss = unat mss, synth_ca_acc = 0, synth_dup_acks = 0, synth_prog = p,
     synth_alpha = f_one, synth_acked_in_window = 0, synth_marked_in_window = 0,
     synth_window_bytes = initial_window (unat mss), synth_srtt_us = 0, synth_rtt_min_us = 0\<rparr>"

text \<open>\<open>SYNTH_OVERRIDE\<close>, the thread-local program a search may install, is \<open>override\<close>.\<close>

definition current_program :: "control_program option \<Rightarrow> control_program" where
  "current_program override = (case override of Some p \<Rightarrow> p | None \<Rightarrow> AIMD)"

definition synth_new :: "control_program option \<Rightarrow> u16 \<Rightarrow> synth" where
  "synth_new override mss = synth_with_program mss (current_program override)"

definition synth_in_slow_start :: "synth \<Rightarrow> bool" where
  "synth_in_slow_start self \<longleftrightarrow> synth_cwnd self < synth_ssthresh self"

definition synth_signals :: "synth \<Rightarrow> nat \<Rightarrow> nat \<Rightarrow> f64 list" where
  "synth_signals self flight acked =
     (let mss = f64_of_nat (max (synth_mss self) 1);
          srtt_ratio = (if 0 < synth_rtt_min_us self \<and> 0 < synth_srtt_us self
                        then fdiv (f64_of_nat (synth_srtt_us self)) (f64_of_nat (synth_rtt_min_us self))
                        else f_one)
      in [fdiv (f64_of_nat (synth_cwnd self)) mss, fdiv (f64_of_nat flight) mss,
          fdiv (f64_of_nat acked) mss, synth_alpha self, srtt_ratio, Fin (1 / 2), f_one, f_two])"

definition synth_loss_target :: "synth \<Rightarrow> nat \<Rightarrow> nat" where
  "synth_loss_target self flight_size =
     (let target_seg = synth_eval (cp_md (synth_prog self)) (synth_signals self flight_size 0)
      in synth_to_cwnd (fmul target_seg (f64_of_nat (synth_mss self))) (2 * synth_mss self))"

definition synth_on_ack :: "synth \<Rightarrow> instant \<Rightarrow> nat \<Rightarrow> synth option" where
  "synth_on_ack self now acked =
     (let self = self\<lparr>synth_dup_acks := 0\<rparr> in
      if acked = 0 then Some self
      else if synth_in_slow_start self then
        Some (self\<lparr>synth_cwnd := sat_add32 (synth_cwnd self) (min acked (synth_mss self))\<rparr>)
      else do {
        let step = fmul (synth_eval (cp_inc (synth_prog self)) (synth_signals self (synth_cwnd self) acked))
                     (f64_of_nat (synth_mss self));
        (acc, cwnd) \<leftarrow> ca_loop (\<lambda>w. synth_to_cwnd (fadd (f64_of_nat w) step) (synth_mss self))
                        (sat_add32 (synth_ca_acc self) acked) (synth_cwnd self);
        Some (self\<lparr>synth_ca_acc := acc, synth_cwnd := cwnd\<rparr>)
      })"

definition synth_on_dup_ack :: "synth \<Rightarrow> instant \<Rightarrow> nat \<Rightarrow> bool \<times> synth" where
  "synth_on_dup_ack self now flight_size =
     (let self = self\<lparr>synth_dup_acks := sat_inc8 (synth_dup_acks self)\<rparr> in
      if synth_dup_acks self = 3 then
        let t = synth_loss_target self flight_size
        in (True, self\<lparr>synth_ssthresh := t, synth_cwnd := t, synth_ca_acc := 0\<rparr>)
      else (False, self))"

definition synth_enter_recovery :: "synth \<Rightarrow> instant \<Rightarrow> nat \<Rightarrow> synth" where
  "synth_enter_recovery self now flight_size =
     (let t = synth_loss_target self flight_size
      in self\<lparr>synth_ssthresh := t, synth_cwnd := t, synth_ca_acc := 0, synth_dup_acks := 0\<rparr>)"

definition synth_on_rto :: "synth \<Rightarrow> instant \<Rightarrow> nat \<Rightarrow> synth" where
  "synth_on_rto self now flight_size =
     self\<lparr>synth_ssthresh := synth_loss_target self flight_size,
       synth_cwnd := synth_mss self, synth_ca_acc := 0\<rparr>"

definition synth_set_mss :: "synth \<Rightarrow> u16 \<Rightarrow> synth" where
  "synth_set_mss self mss =
     self\<lparr>synth_mss := unat mss, synth_cwnd := max (synth_cwnd self) (unat mss), synth_ca_acc := 0\<rparr>"

definition synth_on_ecn :: "synth \<Rightarrow> instant \<Rightarrow> nat \<Rightarrow> nat \<Rightarrow> synth" where
  "synth_on_ecn self now acked marked =
     (if acked = 0 then self
      else let self = self\<lparr>
          synth_acked_in_window := sat_add32 (synth_acked_in_window self) acked,
          synth_marked_in_window := sat_add32 (synth_marked_in_window self) (min marked acked)\<rparr> in
        if synth_acked_in_window self < synth_window_bytes self then self
        else let alpha = ecn_alpha (synth_alpha self) (synth_marked_in_window self)
                           (synth_acked_in_window self);
                 self = self\<lparr>synth_alpha := alpha\<rparr>;
                 cwnd_before = synth_cwnd self;
                 self = (if 0 < synth_marked_in_window self then
                     let cut = synth_eval (cp_ecn (synth_prog self)) (synth_signals self (synth_cwnd self) 0);
                         w = synth_to_cwnd (fmul (f64_of_nat (synth_cwnd self)) (fsub f_one cut))
                               (synth_mss self)
                     in self\<lparr>synth_cwnd := w, synth_ssthresh := w, synth_ca_acc := 0\<rparr>
                   else self)
             in self\<lparr>synth_acked_in_window := 0, synth_marked_in_window := 0,
                  synth_window_bytes := max cwnd_before (synth_mss self)\<rparr>)"

definition synth_on_rtt_sample :: "synth \<Rightarrow> nat \<Rightarrow> synth" where
  "synth_on_rtt_sample self srtt_us =
     (let self = self\<lparr>synth_srtt_us := srtt_us\<rparr>
      in if 0 < srtt_us
         then self\<lparr>synth_rtt_min_us :=
                (if synth_rtt_min_us self = 0 then srtt_us else min (synth_rtt_min_us self) srtt_us)\<rparr>
         else self)"

section \<open>The machine is total\<close>

definition guarded :: "f64 \<Rightarrow> bool" where
  "guarded v \<longleftrightarrow> (\<exists>r. v = Fin r \<and> - SYNTH_CAP \<le> r \<and> r \<le> SYNTH_CAP)"

lemma guarded_guard: "guarded (synth_guard v)"
  using clamp_f64_Fin[of v "- SYNTH_CAP" SYNTH_CAP]
  by (auto simp: guarded_def synth_guard_def SYNTH_CAP_def)

definition prog_ok :: "instr list \<Rightarrow> bool" where
  "prog_ok p \<longleftrightarrow> length p = SYNTH_PROG_LEN"

lemma length_synth_exec [simp]: "length (synth_exec p n reg) = length reg"
  by (induction p n reg rule: synth_exec.induct) (simp_all add: Let_def)

lemma synth_exec_append: "synth_exec (p @ q) n reg = synth_exec q (n + length p) (synth_exec p n reg)"
  by (induction p n reg rule: synth_exec.induct) (simp_all add: Let_def)

lemma synth_exec_below: "k < n \<Longrightarrow> synth_exec p n reg ! k = reg ! k"
  by (induction p n reg rule: synth_exec.induct) (simp_all add: Let_def)

lemma synth_exec_above: "n + length p \<le> k \<Longrightarrow> synth_exec p n reg ! k = reg ! k"
  by (induction p n reg rule: synth_exec.induct) (simp_all add: Let_def)

text \<open>The output register holds the guarded value of the last instruction.\<close>

lemma synth_eval_last:
  assumes "length p = 7" and "length inputs = 8"
  shows "\<exists>reg. length reg = 16 \<and> (\<forall>k < 8. reg ! k = inputs ! k) \<and> guarded (reg ! 14)
    \<and> synth_eval (p @ [ins]) inputs = synth_guard (synth_apply (i_op ins)
        (reg ! min (unat (i_a ins)) 14) (reg ! min (unat (i_b ins)) 14))"
proof -
  define reg where "reg = synth_exec p 8 (inputs @ replicate 8 (Fin 0))"
  have len: "length reg = 16" using assms by (simp add: reg_def)
  have inp: "\<forall>k < 8. reg ! k = inputs ! k"
    using assms(2) by (simp add: reg_def synth_exec_below nth_append)
  obtain p0 i0 where p: "p = p0 @ [i0]" "length p0 = 6"
    using assms(1) by (metis length_append_singleton list.size(3) nat.inject numeral_eq_Suc
        pred_numeral_simps(3) rev_exhaust semiring_norm(28) zero_neq_numeral eval_nat_numeral(3))
  have "reg ! 14 = synth_guard (synth_apply (i_op i0)
      (synth_exec p0 8 (inputs @ replicate 8 (Fin 0)) ! min (unat (i_a i0)) 13)
      (synth_exec p0 8 (inputs @ replicate 8 (Fin 0)) ! min (unat (i_b i0)) 13))"
    using assms(2) p(2) by (simp add: reg_def p(1) synth_exec_append Let_def)
  then have g: "guarded (reg ! 14)" by (simp add: guarded_guard)
  have "synth_eval (p @ [ins]) inputs = synth_guard (synth_apply (i_op ins)
        (reg ! min (unat (i_a ins)) 14) (reg ! min (unat (i_b ins)) 14))"
    using assms len by (simp add: synth_eval_def SYNTH_REGS_IN_def SYNTH_PROG_LEN_def synth_exec_append
        Let_def reg_def[symmetric])
  then show ?thesis using len inp g by blast
qed

lemma prog_split: "prog_ok p \<Longrightarrow> p = butlast p @ [last p] \<and> length (butlast p) = 7"
  by (cases p rule: rev_cases) (auto simp: prog_ok_def SYNTH_PROG_LEN_def)

lemma synth_eval_guarded:
  assumes "prog_ok p" and "length inputs = 8"
  shows "guarded (synth_eval p inputs)"
  using synth_eval_last[of "butlast p" inputs "last p"] prog_split[OF assms(1)] assms(2) guarded_guard
  by metis

lemma length_signals [simp]: "length (synth_signals c fl n) = 8"
  by (simp add: synth_signals_def Let_def)

lemma synth_to_cwnd_ge:
  assumes "lo \<le> SYNTH_CWND_CAP" and "v \<noteq> NaN"
  shows "lo \<le> synth_to_cwnd v lo \<and> synth_to_cwnd v lo \<le> SYNTH_CWND_CAP"
proof -
  have f: "f64_of_nat lo = Fin (of_nat lo)" "f64_of_nat SYNTH_CWND_CAP = Fin (of_nat SYNTH_CWND_CAP)"
    using assms(1) by (simp_all add: f64_of_nat_exact SYNTH_CWND_CAP_def)
  show ?thesis
  proof (cases v)
    case (Fin r)
    then show ?thesis
      using f assms f64_as_u32_between[OF refl, of lo r SYNTH_CWND_CAP]
      by (auto simp: synth_to_cwnd_def not_less U32_MAX_def SYNTH_CWND_CAP_def)
  next
    case (Inf b)
    then show ?thesis using f assms by (cases b) (auto simp: synth_to_cwnd_def)
  qed (use assms in simp)
qed

section \<open>Every program keeps the contract\<close>

definition synth_inv :: "synth \<Rightarrow> bool" where
  "synth_inv c \<longleftrightarrow> 0 < synth_mss c \<and> synth_mss c \<le> 65535 \<and> synth_mss c \<le> synth_cwnd c
     \<and> synth_cwnd c \<le> U32_MAX \<and> unit_f64 (synth_alpha c)
     \<and> synth_marked_in_window c \<le> synth_acked_in_window c \<and> synth_acked_in_window c \<le> U32_MAX
     \<and> prog_ok (cp_inc (synth_prog c)) \<and> prog_ok (cp_md (synth_prog c)) \<and> prog_ok (cp_ecn (synth_prog c))"

lemma synth_inv_new:
  assumes "mss \<noteq> 0" and "prog_ok (cp_inc p)" and "prog_ok (cp_md p)" and "prog_ok (cp_ecn p)"
  shows "synth_inv (synth_with_program mss p)"
  using initial_window_bounds[of "unat mss"] unat_u16_bound[of mss] assms
  by (simp add: synth_inv_def synth_with_program_def U32_MAX_def unat_gt_0 unit_f64_def)

lemma prog_ok_seed [simp]: "prog_ok (seed_prog op a b)"
  by (simp add: prog_ok_def seed_prog_def SYNTH_PROG_LEN_def)

lemma AIMD_ok: "prog_ok (cp_inc AIMD) \<and> prog_ok (cp_md AIMD) \<and> prog_ok (cp_ecn AIMD)"
  by (simp add: AIMD_def)

lemma prog_ok_update [simp]: "prog_ok (p[i := x]) = prog_ok p"
  by (simp add: prog_ok_def)

text \<open>A guarded value times a segment size is finite.\<close>

lemma guarded_times_mss:
  assumes "guarded v" and "m \<le> 65535"
  shows "\<exists>r. fmul v (f64_of_nat m) = Fin r"
proof -
  obtain r where r: "v = Fin r" "- 1000000000 \<le> r" "r \<le> 1000000000"
    using assms(1) by (auto simp: guarded_def SYNTH_CAP_def)
  have m: "(0::rat) \<le> of_nat m" "of_nat m \<le> (65535 :: rat)"
    using assms(2) by simp_all
  have "\<bar>r * of_nat m\<bar> \<le> 1000000000 * 65535"
    unfolding abs_mult using r m by (intro mult_mono) auto
  then have b: "- (65535000000000) \<le> r * of_nat m" "r * of_nat m \<le> 65535000000000"
    by (simp_all add: abs_le_iff)
  have "f64_rep (of_nat 65535000000000)" by (rule f64_rep_nat) simp
  moreover have "f64_rep (- (of_nat 65535000000000))" using f64_rep_dyadic(2)[of _ 65535000000000 0] by simp
  ultimately obtain x where "f64_of (r * of_nat m) = Fin x"
    using f64_of_between[OF _ _ b] by auto
  then show ?thesis using r(1) assms(2) by (simp add: f64_of_u32 U32_MAX_def)
qed

lemma guarded_complement:
  assumes "guarded v"
  shows "\<exists>r. fsub f_one v = Fin r"
proof -
  obtain r where r: "v = Fin r" "- 1000000000 \<le> r" "r \<le> 1000000000"
    using assms(1) by (auto simp: guarded_def SYNTH_CAP_def)
  have "f64_rep (of_nat 1000000001)" by (rule f64_rep_nat) simp
  moreover have "f64_rep (- (of_nat 1000000001))" using f64_rep_dyadic(2)[of _ 1000000001 0] by simp
  ultimately show ?thesis using f64_of_between[of "- (of_nat 1000000001)" "of_nat 1000000001" "1 - r"] r
    by (auto simp: fsub_def)
qed

lemma synth_loss_target_bounds:
  assumes "synth_inv c"
  shows "2 * synth_mss c \<le> synth_loss_target c fl \<and> synth_loss_target c fl \<le> U32_MAX"
proof -
  obtain r where "fmul (synth_eval (cp_md (synth_prog c)) (synth_signals c fl 0)) (f64_of_nat (synth_mss c)) = Fin r"
    using guarded_times_mss[OF synth_eval_guarded] assms by (metis length_signals synth_inv_def)
  then show ?thesis
    using synth_to_cwnd_ge[of "2 * synth_mss c" "Fin r"] assms
    by (auto simp: synth_loss_target_def synth_inv_def SYNTH_CWND_CAP_def U32_MAX_def)
qed

lemma synth_on_ack_total:
  assumes "synth_inv c"
  shows "\<exists>c'. synth_on_ack c now n = Some c' \<and> synth_inv c' \<and> synth_mss c' = synth_mss c"
proof -
  define step where "step = fmul (synth_eval (cp_inc (synth_prog c)) (synth_signals c (synth_cwnd c) n))
    (f64_of_nat (synth_mss c))"
  obtain r where r: "step = Fin r"
    using guarded_times_mss[OF synth_eval_guarded] assms by (metis length_signals synth_inv_def step_def)
  define grow where "grow = (\<lambda>w. synth_to_cwnd (fadd (f64_of_nat w) step) (synth_mss c))"
  have g: "synth_mss c \<le> grow w \<and> grow w \<le> U32_MAX" if "w \<le> U32_MAX" for w
    using synth_to_cwnd_ge[of "synth_mss c" "fadd (f64_of_nat w) step"] assms that
    by (auto simp: grow_def r f64_of_u32 synth_inv_def SYNTH_CWND_CAP_def U32_MAX_def)
  obtain acc' w' where l: "ca_loop grow (sat_add32 (synth_ca_acc c) n) (synth_cwnd c) = Some (acc', w')"
    "synth_mss c \<le> w'" "w' \<le> U32_MAX"
    using ca_loop_ends[of "\<lambda>w. synth_mss c \<le> w \<and> w \<le> U32_MAX" "synth_cwnd c" grow] g assms
    by (fastforce simp: synth_inv_def)
  have s: "synth_signals (c\<lparr>synth_dup_acks := 0\<rparr>) = synth_signals c"
    by (simp add: fun_eq_iff synth_signals_def)
  show ?thesis
    using l assms
    by (auto simp: synth_on_ack_def synth_inv_def Let_def sat_add32_def s simp flip: step_def grow_def)
qed

lemma synth_on_ecn_ok:
  assumes "synth_inv c"
  shows "synth_inv (synth_on_ecn c now n m) \<and> synth_mss (synth_on_ecn c now n m) = synth_mss c"
proof (cases "n = 0")
  case True
  then show ?thesis using assms by (simp add: synth_on_ecn_def)
next
  case False
  define ac mk where "ac = sat_add32 (synth_acked_in_window c) n"
    and "mk = sat_add32 (synth_marked_in_window c) (min m n)"
  have b: "mk \<le> ac" "0 < ac" "ac \<le> U32_MAX"
    using assms False by (auto simp: ac_def mk_def sat_add32_def synth_inv_def U32_MAX_def)
  have al: "unit_f64 (ecn_alpha (synth_alpha c) mk ac)"
    using assms b by (intro ecn_alpha_unit) (simp_all add: synth_inv_def)
  have w: "synth_mss c \<le> synth_to_cwnd (fmul (f64_of_nat (synth_cwnd c)) (fsub f_one (synth_eval (cp_ecn (synth_prog c)) s))) (synth_mss c)
      \<and> synth_to_cwnd (fmul (f64_of_nat (synth_cwnd c)) (fsub f_one (synth_eval (cp_ecn (synth_prog c)) s))) (synth_mss c) \<le> U32_MAX"
    if sl: "length s = 8" for s
  proof -
    obtain r where r: "fsub f_one (synth_eval (cp_ecn (synth_prog c)) s) = Fin r"
      using guarded_complement[OF synth_eval_guarded[OF _ sl]] assms by (auto simp: synth_inv_def)
    show ?thesis
      using synth_to_cwnd_ge[of "synth_mss c" "fmul (f64_of_nat (synth_cwnd c)) (Fin r)"] assms
      by (auto simp: r f64_of_u32 synth_inv_def SYNTH_CWND_CAP_def U32_MAX_def)
  qed
  show ?thesis
    using assms False b al w
    by (auto simp: synth_on_ecn_def Let_def synth_inv_def simp flip: ac_def mk_def)
qed

interpretation synth_cc: congestion_control synth_cwnd synth_ssthresh synth_mss synth_inv synth_on_ack
  synth_on_dup_ack synth_enter_recovery synth_on_rto synth_on_ecn synth_on_rtt_sample
proof
  fix c :: synth and now n fl m s
  assume c: "synth_inv c"
  note [simp] = synth_on_dup_ack_def synth_enter_recovery_def synth_on_rto_def synth_on_rtt_sample_def Let_def
  show "0 < synth_mss c \<and> synth_mss c \<le> synth_cwnd c \<and> synth_cwnd c \<le> U32_MAX"
    using c by (simp add: synth_inv_def)
  show "\<exists>c'. synth_on_ack c now n = Some c' \<and> synth_inv c' \<and> synth_mss c' = synth_mss c"
    using synth_on_ack_total[OF c] .
  show "synth_inv (synth_on_rtt_sample c s) \<and> synth_mss (synth_on_rtt_sample c s) = synth_mss c"
    using c by (simp add: synth_inv_def)
  show "synth_inv (synth_on_ecn c now n m) \<and> synth_mss (synth_on_ecn c now n m) = synth_mss c"
    using synth_on_ecn_ok[OF c] .
  have e: "synth_loss_target (c\<lparr>synth_dup_acks := d\<rparr>) fl = synth_loss_target c fl" for d
    by (simp add: synth_loss_target_def synth_signals_def)
  note ls = synth_loss_target_bounds[OF c, of fl]
  show "synth_inv (snd (synth_on_dup_ack c now fl)) \<and> synth_mss (snd (synth_on_dup_ack c now fl)) = synth_mss c"
    "synth_inv (synth_enter_recovery c now fl) \<and> synth_mss (synth_enter_recovery c now fl) = synth_mss c"
    "synth_inv (synth_on_rto c now fl) \<and> synth_mss (synth_on_rto c now fl) = synth_mss c"
    "synth_cwnd (synth_on_rto c now fl) = synth_mss c"
    using c ls e by (auto simp: synth_inv_def split: if_splits)
qed

section \<open>The repairs\<close>

lemma round_mag_small:
  assumes "0 \<le> x" and "x \<le> 4294967296"
  shows "round_mag x \<le> x + 1 / 1048576"
proof (cases "x = 0")
  case True
  then show ?thesis by (simp add: round_mag_def)
next
  case False
  then have x: "0 < x" using assms by simp
  have "pow2 (rlog2 x) \<le> pow2 32"
    using rlog2_bounds(1)[OF x] assms(2) by (simp add: pow2_nat[of 32, simplified])
  then have "rlog2 x \<le> 32" by (simp add: pow2_le_iff)
  then have "ulp x \<le> pow2 (- 20)" unfolding ulp_def by (intro pow2_mono) simp
  then have u: "ulp x \<le> 1 / 1048576" by (simp add: pow2_def)
  have "of_int (rne (x / ulp x)) \<le> x / ulp x + 1 / 2"
    using abs_ge_self[of "of_int (rne (x / ulp x)) - x / ulp x"] rne_error[of "x / ulp x"] by linarith
  then have "of_int (rne (x / ulp x)) * ulp x \<le> (x / ulp x + 1 / 2) * ulp x"
    by (intro mult_right_mono) (simp_all add: less_imp_le)
  also have "\<dots> = x + ulp x / 2" using less_imp_neq[OF ulp_pos[of x]] by (simp add: distrib_right)
  finally show ?thesis using False u by (simp add: round_mag_def)
qed

text \<open>A segment count never exceeds the byte count it was made from by as much as a byte.\<close>

lemma flight_segments:
  assumes "fl \<le> U32_MAX" and "0 < m" and "m \<le> 65535"
  shows "\<exists>q. fdiv (f64_of_nat fl) (f64_of_nat m) = Fin q \<and> 0 \<le> q \<and> q * of_nat m \<le> of_nat fl + 1 / 2"
proof -
  define x where "x = (of_nat fl / of_nat m :: rat)"
  have fl: "of_nat fl \<le> (4294967295 :: rat)"
    using assms(1) by (metis U32_MAX_def of_nat_le_iff of_nat_numeral)
  have m1: "1 \<le> (of_nat m :: rat)" using assms(2) by (metis One_nat_def Suc_leI of_nat_1 of_nat_le_iff)
  have x0: "0 \<le> x" by (simp add: x_def)
  have "of_nat fl * 1 \<le> of_nat fl * (of_nat m :: rat)" using m1 by (intro mult_left_mono) simp_all
  then have "x \<le> of_nat fl" using assms(2) by (simp add: x_def pos_divide_le_eq)
  then have x1: "x \<le> 4294967296" using fl by linarith
  have "f64_rep (of_nat 4294967296)" by (rule f64_rep_nat) simp
  then obtain q where q: "f64_of x = Fin q" "0 \<le> q"
    using f64_of_between[of 0 "of_nat 4294967296" x] x0 x1 by auto
  then have "q = round_mag x" using x0 by (simp add: f64_of_def Let_def split: if_splits)
  then have "q \<le> x + 1 / 1048576" using round_mag_small[OF x0 x1] by simp
  then have "q * of_nat m \<le> (x + 1 / 1048576) * of_nat m" by (intro mult_right_mono) simp_all
  also have "\<dots> = of_nat fl + of_nat m / 1048576" using assms(2) by (simp add: x_def distrib_right)
  also have "\<dots> \<le> of_nat fl + 1 / 2"
  proof -
    have "(of_nat m :: rat) \<le> 65535" using assms(3) by simp
    then show ?thesis by simp
  qed
  finally show ?thesis
    using q assms by (auto simp: f64_of_u32 U32_MAX_def x_def)
qed

lemma f64_rep_nat_half: "n \<le> U32_MAX \<Longrightarrow> f64_rep (of_nat n + 1 / 2)"
  by (rule f64_rep_dyadic(1)[of _ "2 * n + 1" 1]) (simp_all add: U32_MAX_def)

lemma synth_to_cwnd_le:
  assumes "r \<le> of_nat n + 1 / 2" and "n \<le> U32_MAX" and "lo \<le> U32_MAX"
  shows "synth_to_cwnd (Fin r) lo \<le> max n lo"
proof -
  have f: "f64_of_nat lo = Fin (of_nat lo)" "f64_of_nat SYNTH_CWND_CAP = Fin (of_nat SYNTH_CWND_CAP)"
    using assms(3) by (simp_all add: f64_of_u32 SYNTH_CWND_CAP_def U32_MAX_def)
  have fl: "nat \<lfloor>r\<rfloor> \<le> n"
  proof -
    have "r < of_int (int n + 1)" using assms(1) by simp
    then have "\<lfloor>r\<rfloor> < int n + 1" by (simp only: floor_less_iff)
    then show ?thesis by simp
  qed
  have "SYNTH_CWND_CAP \<le> n" if "of_nat SYNTH_CWND_CAP < r"
  proof -
    have "(of_nat SYNTH_CWND_CAP :: rat) < of_nat (n + 1)" using that assms(1) by simp
    then show ?thesis by (simp only: of_nat_less_iff)
  qed
  then show ?thesis
    using fl by (auto simp: synth_to_cwnd_def f f64_as_u32_Fin)
qed

lemma min_output:
  assumes "guarded a" and "0 \<le> q"
  shows "\<exists>t. synth_guard (synth_apply OpMin a (Fin q)) = Fin t \<and> t \<le> q"
  using assms by (auto simp: guarded_def synth_apply_def synth_guard_def clamp_f64_def SYNTH_CAP_def)

lemma max_half_output:
  assumes "guarded a"
  shows "\<exists>t. synth_guard (synth_apply OpMax a (Fin (1 / 2))) = Fin t \<and> 1 / 2 \<le> t"
proof -
  obtain r where r: "a = Fin r" "r \<le> 1000000000" using assms by (auto simp: guarded_def SYNTH_CAP_def)
  have "synth_guard (synth_apply OpMax a (Fin (1 / 2))) = Fin (max r (1 / 2))"
    using r by (auto simp: synth_apply_def synth_guard_def clamp_f64_def SYNTH_CAP_def max_def)
  then show ?thesis by simp
qed

lemma list_update_last: "length p = SYNTH_PROG_LEN \<Longrightarrow> p[SYNTH_PROG_LEN - 1 := x] = butlast p @ [x]"
  by (cases p rule: rev_cases) (auto simp: SYNTH_PROG_LEN_def list_update_append)

text \<open>A loss response of at most the flight, in segments, sets at most the flight in bytes.\<close>

lemma loss_target_le:
  assumes "synth_inv c" and "fl \<le> U32_MAX"
    and "synth_eval (cp_md (synth_prog c)) (synth_signals c fl 0) = Fin t" and "t * of_nat (synth_mss c) \<le> of_nat fl + 1 / 2"
  shows "synth_loss_target c fl \<le> max fl (2 * synth_mss c)"
proof -
  define m where "m = synth_mss c"
  have m: "0 < m" "m \<le> 65535" using assms(1) by (simp_all add: synth_inv_def m_def)
  obtain r where r: "fmul (Fin t) (f64_of_nat m) = Fin r"
    using guarded_times_mss[OF synth_eval_guarded, of "cp_md (synth_prog c)" "synth_signals c fl 0" m] assms(1,3) m
    by (auto simp: synth_inv_def)
  have "f64_of (t * of_nat m) = Fin r" using r m by (simp add: f64_of_u32 U32_MAX_def)
  moreover have "f64_of (of_nat fl + 1 / 2) = Fin (of_nat fl + 1 / 2)"
    using f64_rep_nat_half[OF assms(2)] by (simp add: f64_rep_def)
  ultimately have "r \<le> of_nat fl + 1 / 2" using f64_of_mono[OF assms(4)] by (simp add: m_def)
  then show ?thesis
    using synth_to_cwnd_le[OF _ assms(2), of r "2 * m"] m
    by (simp add: synth_loss_target_def assms(3) r m_def[symmetric] U32_MAX_def)
qed

lemma signals_flight: "0 < synth_mss c \<Longrightarrow> synth_signals c fl n ! 1 = fdiv (f64_of_nat fl) (f64_of_nat (synth_mss c))"
  using max_absorb1[of 1 "synth_mss c"] by (simp add: synth_signals_def Let_def)

lemma repair_loss_target:
  assumes "synth_inv c" and "fl \<le> U32_MAX" and "cp_md (synth_prog c) = cp_md (repair_loss p)"
    and "prog_ok (cp_md p)"
  shows "synth_loss_target c fl \<le> max fl (2 * synth_mss c)"
proof -
  define m where "m = synth_mss c"
  have m: "0 < m" "m \<le> 65535" using assms(1) by (simp_all add: synth_inv_def m_def)
  have md: "cp_md (synth_prog c) = butlast (cp_md p) @ [mk_instr OpMin OUT_PREV R_FLIGHT]"
    using list_update_last[of "cp_md p"] assms(4) by (simp add: assms(3) repair_loss_def prog_ok_def)
  obtain q where q: "fdiv (f64_of_nat fl) (f64_of_nat m) = Fin q" "0 \<le> q" "q * of_nat m \<le> of_nat fl + 1 / 2"
    using flight_segments[OF assms(2) m] by blast
  have s1: "synth_signals c fl 0 ! 1 = Fin q"
    using q(1) m signals_flight[of c] by (simp flip: m_def)
  obtain reg where reg: "\<forall>k < 8. reg ! k = synth_signals c fl 0 ! k" "guarded (reg ! 14)"
    "synth_eval (cp_md (synth_prog c)) (synth_signals c fl 0)
      = synth_guard (synth_apply OpMin (reg ! 14) (reg ! 1))"
    using synth_eval_last[of "butlast (cp_md p)" "synth_signals c fl 0" "mk_instr OpMin OUT_PREV R_FLIGHT"]
      prog_split[OF assms(4)] unfolding md
    by (auto simp: OUT_PREV_def R_FLIGHT_def SYNTH_REGS_IN_def SYNTH_PROG_LEN_def)
  obtain t where t: "synth_eval (cp_md (synth_prog c)) (synth_signals c fl 0) = Fin t" "t \<le> q"
    using min_output[OF reg(2) q(2)] reg(1,3) s1 by auto
  have "t * of_nat m \<le> q * of_nat m" using t(2) by (intro mult_right_mono) simp_all
  then have "t * of_nat m \<le> of_nat fl + 1 / 2" using q(3) by simp
  then show ?thesis using loss_target_le[OF assms(1,2) t(1)] by (simp add: m_def)
qed

lemma repair_increase_step:
  assumes "synth_inv c" and "cp_inc (synth_prog c) = cp_inc (repair_increase p)" and "prog_ok (cp_inc p)"
  shows "\<exists>r. fmul (synth_eval (cp_inc (synth_prog c)) (synth_signals c fl n)) (f64_of_nat (synth_mss c)) = Fin r
    \<and> 0 \<le> r"
proof -
  have inc: "cp_inc (synth_prog c) = butlast (cp_inc p) @ [mk_instr OpMax OUT_PREV R_HALF]"
    using list_update_last[of "cp_inc p"] assms(3) by (simp add: assms(2) repair_increase_def prog_ok_def)
  obtain reg where reg: "\<forall>k < 8. reg ! k = synth_signals c fl n ! k" "guarded (reg ! 14)"
    "synth_eval (cp_inc (synth_prog c)) (synth_signals c fl n)
      = synth_guard (synth_apply OpMax (reg ! 14) (reg ! 5))"
    using synth_eval_last[of "butlast (cp_inc p)" "synth_signals c fl n" "mk_instr OpMax OUT_PREV R_HALF"]
      prog_split[OF assms(3)] unfolding inc
    by (auto simp: OUT_PREV_def R_HALF_def SYNTH_REGS_IN_def SYNTH_PROG_LEN_def)
  have "reg ! 5 = Fin (1 / 2)" using reg(1) by (simp add: synth_signals_def Let_def)
  then obtain t where t: "synth_eval (cp_inc (synth_prog c)) (synth_signals c fl n) = Fin t" "1 / 2 \<le> t"
    using max_half_output[OF reg(2)] reg(3) by auto
  obtain r where r: "fmul (Fin t) (f64_of_nat (synth_mss c)) = Fin r"
    using guarded_times_mss[OF synth_eval_guarded, of "cp_inc (synth_prog c)" "synth_signals c fl n" "synth_mss c"]
      assms(1) t(1) by (auto simp: synth_inv_def)
  have "f64_of (t * of_nat (synth_mss c)) = Fin r"
    using r assms(1) by (simp add: f64_of_u32 synth_inv_def U32_MAX_def)
  moreover have "f64_of 0 = Fin 0" using f64_rep_0 by (simp add: f64_rep_def)
  moreover have "0 \<le> t * of_nat (synth_mss c)" using t(2) by simp
  ultimately have "0 \<le> r" using f64_of_mono by blast
  then show ?thesis using r t(1) by simp
qed

text \<open>A response that never steps down never shrinks the window below its cap.\<close>

lemma upward_step_ack:
  assumes "synth_inv c"
    and "\<exists>r. fmul (synth_eval (cp_inc (synth_prog c)) (synth_signals c (synth_cwnd c) n)) (f64_of_nat (synth_mss c)) = Fin r \<and> 0 \<le> r"
    and "synth_cwnd c \<le> SYNTH_CWND_CAP" and "synth_on_ack c now n = Some c'"
  shows "synth_cwnd c \<le> synth_cwnd c'"
proof -
  define step where "step = fmul (synth_eval (cp_inc (synth_prog c)) (synth_signals c (synth_cwnd c) n))
    (f64_of_nat (synth_mss c))"
  obtain r where r: "step = Fin r" "0 \<le> r" using assms(2) by (auto simp: step_def)
  define grow where "grow = (\<lambda>w. synth_to_cwnd (fadd (f64_of_nat w) step) (synth_mss c))"
  have g: "w \<le> grow w \<and> grow w \<le> SYNTH_CWND_CAP" if w: "w \<le> SYNTH_CWND_CAP" "synth_mss c \<le> w" for w
  proof -
    have n: "f64_of_nat w = Fin (of_nat w)" "f64_of_nat (synth_mss c) = Fin (of_nat (synth_mss c))"
      "f64_of_nat SYNTH_CWND_CAP = Fin (of_nat SYNTH_CWND_CAP)" and rep: "f64_rep (of_nat w)"
      using w assms(1) by (simp_all add: f64_of_nat_exact f64_rep_nat SYNTH_CWND_CAP_def synth_inv_def)
    have s: "of_nat w \<le> x" if "f64_of (of_nat w + r) = Fin x" for x
      using f64_of_mono[of "of_nat w" "of_nat w + r"] rep r(2) that by (simp add: f64_rep_def)
    have m: "(of_nat (synth_mss c) :: rat) \<le> of_nat w" using w(2) by simp
    show ?thesis
    proof (cases "f64_of (of_nat w + r)")
      case (Fin x)
      then have x: "of_nat w \<le> x" by (rule s)
      have "grow w = (if of_nat SYNTH_CWND_CAP < x then SYNTH_CWND_CAP else f64_as_u32 (Fin x))"
        using x m by (auto simp: grow_def r(1) n Fin synth_to_cwnd_def)
      then show ?thesis
        using f64_as_u32_between[OF refl x, of SYNTH_CWND_CAP] w by (auto simp: SYNTH_CWND_CAP_def U32_MAX_def)
    next
      case (Inf b)
      have "\<not> b"
      proof
        assume b
        then have "of_nat w + r < 0" using Inf by (auto simp: f64_of_def Let_def split: if_splits)
        then show False using r(2) of_nat_0_le_iff[of w, where 'a = rat] by linarith
      qed
      then show ?thesis using Inf w by (simp add: grow_def r(1) n synth_to_cwnd_def)
    qed simp
  qed
  obtain acc' w' where l: "ca_loop grow (sat_add32 (synth_ca_acc c) n) (synth_cwnd c) = Some (acc', w')"
    "synth_cwnd c \<le> w'"
    using ca_loop_ends[of "\<lambda>w. synth_cwnd c \<le> w \<and> w \<le> SYNTH_CWND_CAP" "synth_cwnd c" grow] g assms(1,3)
    by (fastforce simp: synth_inv_def)
  have s: "synth_signals (c\<lparr>synth_dup_acks := 0\<rparr>) = synth_signals c"
    by (simp add: fun_eq_iff synth_signals_def)
  show ?thesis
    using assms(1,4) l
    by (auto simp: synth_on_ack_def synth_inv_def Let_def sat_add32_def s split: if_splits simp flip: step_def grow_def)
qed

lemma repair_increase_ack:
  assumes "synth_inv c" and "cp_inc (synth_prog c) = cp_inc (repair_increase p)" and "prog_ok (cp_inc p)"
    and "synth_cwnd c \<le> SYNTH_CWND_CAP" and "synth_on_ack c now n = Some c'"
  shows "synth_cwnd c \<le> synth_cwnd c'"
  by (rule upward_step_ack[OF assms(1) repair_increase_step[OF assms(1-3)] assms(4,5)])

text \<open>An identity carry copies the previous register, so a seed evaluates to its operation.\<close>

lemma guard_guarded: "guarded v \<Longrightarrow> synth_guard v = v"
  by (auto simp: guarded_def synth_guard_def clamp_f64_def SYNTH_CAP_def)

lemma carry_step:
  assumes "unat p = n - 1" and "reg ! (n - 1) = v" and "guarded v"
  shows "synth_exec (mk_instr OpMax p p # rest) n reg = synth_exec rest (n + 1) (reg[n := v])"
  using assms by (simp add: synth_apply_def guard_guarded)

lemma carries:
  assumes "reg ! (8 + i - 1) = v" and "guarded v" and "length reg = 16" and "0 < i" and "i \<le> 8"
  shows "synth_exec (map (\<lambda>i. let prev = word_of_nat (8 + i - 1) in mk_instr OpMax prev prev) [i..<8])
    (8 + i) reg ! 15 = v"
  using assms
proof (induction "8 - i" arbitrary: i reg)
  case 0
  then show ?case by simp
next
  case (Suc k)
  then have i: "i < 8" by simp
  have u: "unat (word_of_nat (8 + i - 1) :: u8) = 8 + i - 1"
    unfolding unat_word_of_nat_u8 using i by simp
  have s: "[i..<8] = i # [Suc i..<8]" using i by (simp add: upt_rec)
  have "synth_exec (map (\<lambda>i. let prev = word_of_nat (8 + i - 1) in mk_instr OpMax prev prev) [i..<8]) (8 + i) reg
    = synth_exec (map (\<lambda>i. let prev = word_of_nat (8 + i - 1) in mk_instr OpMax prev prev) [Suc i..<8])
        (8 + i + 1) (reg[8 + i := v])"
    unfolding s list.map Let_def using Suc.prems by (intro carry_step u) simp_all
  moreover have "synth_exec (map (\<lambda>i. let prev = word_of_nat (8 + i - 1) in mk_instr OpMax prev prev) [Suc i..<8])
      (8 + Suc i) (reg[8 + i := v]) ! 15 = v"
    using Suc i by (intro Suc.hyps(1)) simp_all
  ultimately show ?case by simp
qed

lemma seed_eval:
  assumes "length inputs = 8" and "unat a < 8" and "unat b < 8"
  shows "synth_eval (seed_prog op a b) inputs = synth_guard (synth_apply op (inputs ! unat a) (inputs ! unat b))"
proof -
  define v where "v = synth_guard (synth_apply op (inputs ! unat a) (inputs ! unat b))"
  define reg where "reg = (inputs @ replicate 8 (Fin 0))[8 := v]"
  have n: "(inputs @ replicate 8 (Fin 0)) ! min (unat a) 7 = inputs ! unat a"
    "(inputs @ replicate 8 (Fin 0)) ! min (unat b) 7 = inputs ! unat b"
    using assms by (simp_all add: nth_append min_def)
  have "synth_exec (mk_instr op a b # rest) 8 (inputs @ replicate 8 (Fin 0)) = synth_exec rest 9 reg" for rest
    using n by (simp add: reg_def v_def)
  moreover have "synth_exec (map (\<lambda>i. let prev = word_of_nat (8 + i - 1) in mk_instr OpMax prev prev) [1..<8])
    (8 + 1) reg ! 15 = v"
    using assms(1) by (intro carries) (simp_all add: reg_def v_def guarded_guard)
  ultimately show ?thesis
    by (simp add: synth_eval_def seed_prog_def SYNTH_REGS_IN_def SYNTH_PROG_LEN_def v_def)
qed

text \<open>The seed cut is half of \<open>alpha\<close>, so a mark never grows the window.\<close>

lemma seed_ecn_cut:
  assumes "synth_inv c" and "cp_ecn (synth_prog c) = cp_ecn AIMD"
  shows "\<exists>h. synth_eval (cp_ecn (synth_prog c)) (synth_signals c fl n) = Fin h \<and> 0 \<le> h \<and> h \<le> 1 / 2"
proof -
  obtain a where a: "synth_alpha c = Fin a" "0 \<le> a" "a \<le> 1"
    using assms(1) by (auto simp: synth_inv_def unit_f64_def)
  obtain h where h: "f64_of (a / 2) = Fin h" "0 \<le> h" "h \<le> 1 / 2"
    using f64_of_between[of 0 "1 / 2" "a / 2"] a by auto
  have "synth_eval (seed_prog OpMul R_ALPHA R_HALF) (synth_signals c fl n) = Fin h"
    using h a(1) seed_eval[of "synth_signals c fl n" R_ALPHA R_HALF OpMul]
    by (simp add: R_ALPHA_def R_HALF_def synth_signals_def Let_def synth_apply_def guard_guarded guarded_def SYNTH_CAP_def)
  then show ?thesis using h assms(2) by (auto simp: AIMD_def)
qed

lemma scale_to_cwnd:
  assumes "w \<le> U32_MAX" and "lo \<le> w" and "0 \<le> r" and "r \<le> 1"
  shows "synth_to_cwnd (fmul (f64_of_nat w) (Fin r)) lo \<le> w"
proof -
  have n: "f64_of_nat w = Fin (of_nat w)" and rep: "f64_rep (of_nat w)"
    using assms(1) by (simp_all add: f64_of_u32 f64_rep_nat U32_MAX_def)
  have "0 \<le> of_nat w * r" "of_nat w * r \<le> of_nat w" using assms(3,4) by (simp_all add: mult_left_le)
  then obtain x where x: "f64_of (of_nat w * r) = Fin x" "x \<le> of_nat w"
    using f64_of_between[OF f64_rep_0 rep] by blast
  then have "synth_to_cwnd (Fin x) lo \<le> max w lo"
    using assms by (intro synth_to_cwnd_le) simp_all
  then show ?thesis using x(1) assms(2) by (simp add: n)
qed

lemma seed_ecn_no_growth:
  assumes "synth_inv c" and "cp_ecn (synth_prog c) = cp_ecn AIMD"
  shows "synth_cwnd (synth_on_ecn c now n m) \<le> synth_cwnd c"
proof (cases "n = 0 \<or> sat_add32 (synth_acked_in_window c) n < synth_window_bytes c
    \<or> sat_add32 (synth_marked_in_window c) (min m n) = 0")
  case True
  then show ?thesis by (auto simp: synth_on_ecn_def Let_def)
next
  case False
  define ac mk where "ac = sat_add32 (synth_acked_in_window c) n"
    and "mk = sat_add32 (synth_marked_in_window c) (min m n)"
  define c1 where "c1 = c\<lparr>synth_acked_in_window := ac, synth_marked_in_window := mk,
    synth_alpha := ecn_alpha (synth_alpha c) mk ac\<rparr>"
  have b: "mk \<le> ac" "0 < ac" "ac \<le> U32_MAX"
    using assms(1) False by (auto simp: ac_def mk_def sat_add32_def synth_inv_def U32_MAX_def)
  have "unit_f64 (ecn_alpha (synth_alpha c) mk ac)"
    using assms(1) b by (intro ecn_alpha_unit) (simp_all add: synth_inv_def)
  then have "synth_inv c1" using assms(1) b by (simp add: synth_inv_def c1_def)
  moreover have "cp_ecn (synth_prog c1) = cp_ecn AIMD" by (simp add: c1_def assms(2))
  ultimately obtain h where h: "synth_eval (cp_ecn (synth_prog c1)) (synth_signals c1 (synth_cwnd c1) 0) = Fin h"
    "0 \<le> h" "h \<le> 1 / 2" using seed_ecn_cut by blast
  obtain s where s: "f64_of (1 - h) = Fin s" "1 / 2 \<le> s" "s \<le> 1"
    using f64_of_between[of "1 / 2" 1 "1 - h"] h by auto
  have e: "fsub f_one (Fin h) = Fin s" using s(1) by (simp add: fsub_def)
  have "synth_cwnd (synth_on_ecn c now n m)
      = synth_to_cwnd (fmul (f64_of_nat (synth_cwnd c1)) (fsub f_one (Fin h))) (synth_mss c1)"
    using False h(1) by (simp add: synth_on_ecn_def Let_def c1_def ac_def mk_def)
  also have "\<dots> \<le> synth_cwnd c1"
    unfolding e using \<open>synth_inv c1\<close> s by (intro scale_to_cwnd) (simp_all add: synth_inv_def)
  finally show ?thesis by (simp add: c1_def)
qed

text \<open>
  The three repairs of the counterexample-guided synthesis are sound. Take any synthesised
  law whatever and repair all three responses. In every well-formed controller state running it,
  entering recovery and a timeout leave a window of at most the larger of the data in flight and
  two segments, an ECN mark never grows the window, and (below the 1 GiB window cap) a clean
  acknowledgement never shrinks it, although nothing but the repaired instructions is known of
  the program and the machine computes in floating point.
\<close>

theorem cegis_repairs_sound:
  assumes "synth_inv c" and "synth_prog c = repair_ecn (repair_increase (repair_loss p))"
    and "fl \<le> U32_MAX"
  shows "synth_cwnd (synth_enter_recovery c now fl) \<le> max fl (2 * synth_mss c)
    \<and> synth_cwnd (synth_on_rto c now fl) \<le> max fl (2 * synth_mss c)
    \<and> synth_cwnd (synth_on_ecn c now n m) \<le> synth_cwnd c
    \<and> (synth_cwnd c \<le> SYNTH_CWND_CAP \<longrightarrow>
         (\<exists>c'. synth_on_ack c now n = Some c' \<and> synth_cwnd c \<le> synth_cwnd c'))"
proof -
  have p: "cp_md (synth_prog c) = cp_md (repair_loss p)" "cp_ecn (synth_prog c) = cp_ecn AIMD"
    "cp_inc (synth_prog c) = cp_inc (repair_increase p)" "prog_ok (cp_md p)" "prog_ok (cp_inc p)"
    using assms(1,2) by (simp_all add: repair_ecn_def repair_increase_def repair_loss_def synth_inv_def)
  have "synth_loss_target c fl \<le> max fl (2 * synth_mss c)"
    by (rule repair_loss_target[OF assms(1,3) p(1,4)])
  moreover have "\<exists>c'. synth_on_ack c now n = Some c'"
    using synth_on_ack_total[OF assms(1)] by blast
  ultimately show ?thesis
    using seed_ecn_no_growth[OF assms(1) p(2)] repair_increase_ack[OF assms(1) p(3,5)]
    by (auto simp: synth_enter_recovery_def synth_on_rto_def Let_def)
qed

theorem cegis_repairs_sound_witness:
  "synth_cwnd (synth_enter_recovery (synth_with_program 1000 (repair_ecn (repair_increase (repair_loss
      \<lparr>cp_inc = seed_prog OpSub R_HALF R_ONE, cp_md = seed_prog OpAdd R_FLIGHT R_FLIGHT,
        cp_ecn = seed_prog OpSub R_HALF R_ONE\<rparr>)))) 0 50000) \<le> 50000"
proof -
  let ?p = "\<lparr>cp_inc = seed_prog OpSub R_HALF R_ONE, cp_md = seed_prog OpAdd R_FLIGHT R_FLIGHT,
        cp_ecn = seed_prog OpSub R_HALF R_ONE\<rparr>"
  let ?c = "synth_with_program 1000 (repair_ecn (repair_increase (repair_loss ?p)))"
  have i: "synth_inv ?c"
    by (rule synth_inv_new) (simp_all add: repair_ecn_def repair_increase_def repair_loss_def AIMD_ok)
  have "synth_prog ?c = repair_ecn (repair_increase (repair_loss ?p))" and "synth_mss ?c = 1000"
    by (simp_all add: synth_with_program_def)
  then show ?thesis
    using cegis_repairs_sound[OF i, of ?p 50000 0 0 0] by (simp add: U32_MAX_def)
qed

end
