(* ===== verification/Congestion.thy ===== *)
theory Congestion
  imports Cubic Bbr Learned Synth
begin

text \<open>
  \<open>congestion.rs\<close>, \<open>CcKind\<close> and \<open>Cc\<close>: the controller a connection holds, one
  variant per algorithm, every trait operation dispatched by a match, with the trait's no-op
  defaults written out.
\<close>

datatype cc_kind = KReno | KCubic | KBbr | KDctcp | KLearned | KPrague | KSynth

datatype cc = CcReno reno | CcCubic cubic | CcBbr bbr | CcDctcp dctcp | CcLearned learned
  | CcPrague prague | CcSynth synth

text \<open>The two thread-local overrides a constructor reads.\<close>

record cc_overrides =
  ov_learned :: "learned_params option"
  ov_program :: "control_program option"

fun cc_new :: "cc_overrides \<Rightarrow> cc_kind \<Rightarrow> u16 \<Rightarrow> cc" where
  "cc_new ov KReno mss = CcReno (reno_new mss)"
| "cc_new ov KCubic mss = CcCubic (cubic_new mss)"
| "cc_new ov KBbr mss = CcBbr (bbr_new mss)"
| "cc_new ov KDctcp mss = CcDctcp (dctcp_new mss)"
| "cc_new ov KLearned mss = CcLearned (learned_new (ov_learned ov) mss)"
| "cc_new ov KPrague mss = CcPrague (prague_new mss)"
| "cc_new ov KSynth mss = CcSynth (synth_new (ov_program ov) mss)"

fun cc_cwnd :: "cc \<Rightarrow> nat" where
  "cc_cwnd (CcReno c) = reno_cwnd c"
| "cc_cwnd (CcCubic c) = cubic_cwnd c"
| "cc_cwnd (CcBbr c) = bbr_cwnd c"
| "cc_cwnd (CcDctcp c) = dctcp_cwnd c"
| "cc_cwnd (CcLearned c) = learned_cwnd c"
| "cc_cwnd (CcPrague c) = prague_cwnd c"
| "cc_cwnd (CcSynth c) = synth_cwnd c"

fun cc_ssthresh :: "cc \<Rightarrow> nat" where
  "cc_ssthresh (CcReno c) = reno_ssthresh c"
| "cc_ssthresh (CcCubic c) = cubic_ssthresh c"
| "cc_ssthresh (CcBbr c) = U32_MAX"
| "cc_ssthresh (CcDctcp c) = dctcp_ssthresh c"
| "cc_ssthresh (CcLearned c) = learned_ssthresh c"
| "cc_ssthresh (CcPrague c) = prague_ssthresh c"
| "cc_ssthresh (CcSynth c) = synth_ssthresh c"

fun cc_on_ack :: "cc \<Rightarrow> instant \<Rightarrow> nat \<Rightarrow> cc option" where
  "cc_on_ack (CcReno c) now acked = map_option CcReno (reno_on_ack c now acked)"
| "cc_on_ack (CcCubic c) now acked = map_option CcCubic (cubic_on_ack c now acked)"
| "cc_on_ack (CcBbr c) now acked = Some (CcBbr (bbr_on_ack c now acked))"
| "cc_on_ack (CcDctcp c) now acked = map_option CcDctcp (dctcp_on_ack c now acked)"
| "cc_on_ack (CcLearned c) now acked = map_option CcLearned (learned_on_ack c now acked)"
| "cc_on_ack (CcPrague c) now acked = map_option CcPrague (prague_on_ack c now acked)"
| "cc_on_ack (CcSynth c) now acked = map_option CcSynth (synth_on_ack c now acked)"

fun cc_on_dup_ack :: "cc \<Rightarrow> instant \<Rightarrow> nat \<Rightarrow> bool \<times> cc" where
  "cc_on_dup_ack (CcReno c) now fl = map_prod id CcReno (reno_on_dup_ack c now fl)"
| "cc_on_dup_ack (CcCubic c) now fl = map_prod id CcCubic (cubic_on_dup_ack c now fl)"
| "cc_on_dup_ack (CcBbr c) now fl = map_prod id CcBbr (bbr_on_dup_ack c now fl)"
| "cc_on_dup_ack (CcDctcp c) now fl = map_prod id CcDctcp (dctcp_on_dup_ack c now fl)"
| "cc_on_dup_ack (CcLearned c) now fl = map_prod id CcLearned (learned_on_dup_ack c now fl)"
| "cc_on_dup_ack (CcPrague c) now fl = map_prod id CcPrague (prague_on_dup_ack c now fl)"
| "cc_on_dup_ack (CcSynth c) now fl = map_prod id CcSynth (synth_on_dup_ack c now fl)"

fun cc_enter_recovery :: "cc \<Rightarrow> instant \<Rightarrow> nat \<Rightarrow> cc" where
  "cc_enter_recovery (CcReno c) now fl = CcReno (reno_enter_recovery c now fl)"
| "cc_enter_recovery (CcCubic c) now fl = CcCubic (cubic_enter_recovery c now fl)"
| "cc_enter_recovery (CcBbr c) now fl = CcBbr (bbr_enter_recovery c now fl)"
| "cc_enter_recovery (CcDctcp c) now fl = CcDctcp (dctcp_enter_recovery c now fl)"
| "cc_enter_recovery (CcLearned c) now fl = CcLearned (learned_enter_recovery c now fl)"
| "cc_enter_recovery (CcPrague c) now fl = CcPrague (prague_enter_recovery c now fl)"
| "cc_enter_recovery (CcSynth c) now fl = CcSynth (synth_enter_recovery c now fl)"

fun cc_on_rto :: "cc \<Rightarrow> instant \<Rightarrow> nat \<Rightarrow> cc" where
  "cc_on_rto (CcReno c) now fl = CcReno (reno_on_rto c now fl)"
| "cc_on_rto (CcCubic c) now fl = CcCubic (cubic_on_rto c now fl)"
| "cc_on_rto (CcBbr c) now fl = CcBbr (bbr_on_rto c now fl)"
| "cc_on_rto (CcDctcp c) now fl = CcDctcp (dctcp_on_rto c now fl)"
| "cc_on_rto (CcLearned c) now fl = CcLearned (learned_on_rto c now fl)"
| "cc_on_rto (CcPrague c) now fl = CcPrague (prague_on_rto c now fl)"
| "cc_on_rto (CcSynth c) now fl = CcSynth (synth_on_rto c now fl)"

fun cc_set_mss :: "cc \<Rightarrow> u16 \<Rightarrow> cc" where
  "cc_set_mss (CcReno c) mss = CcReno (reno_set_mss c mss)"
| "cc_set_mss (CcCubic c) mss = CcCubic (cubic_set_mss c mss)"
| "cc_set_mss (CcBbr c) mss = CcBbr (bbr_set_mss c mss)"
| "cc_set_mss (CcDctcp c) mss = CcDctcp (dctcp_set_mss c mss)"
| "cc_set_mss (CcLearned c) mss = CcLearned (learned_set_mss c mss)"
| "cc_set_mss (CcPrague c) mss = CcPrague (prague_set_mss c mss)"
| "cc_set_mss (CcSynth c) mss = CcSynth (synth_set_mss c mss)"

fun cc_pacing_rate :: "cc \<Rightarrow> nat option" where
  "cc_pacing_rate (CcReno c) = None"
| "cc_pacing_rate (CcCubic c) = None"
| "cc_pacing_rate (CcBbr c) = bbr_pacing_rate c"
| "cc_pacing_rate (CcDctcp c) = None"
| "cc_pacing_rate (CcLearned c) = None"
| "cc_pacing_rate (CcPrague c) = None"
| "cc_pacing_rate (CcSynth c) = None"

fun cc_on_transmit :: "cc \<Rightarrow> instant \<Rightarrow> seqnum \<Rightarrow> nat \<Rightarrow> nat \<Rightarrow> bool \<Rightarrow> cc" where
  "cc_on_transmit (CcReno c) now seq_end nbytes inflight app_limited = CcReno c"
| "cc_on_transmit (CcCubic c) now seq_end nbytes inflight app_limited = CcCubic c"
| "cc_on_transmit (CcBbr c) now seq_end nbytes inflight app_limited = CcBbr (bbr_on_transmit c now seq_end nbytes inflight app_limited)"
| "cc_on_transmit (CcDctcp c) now seq_end nbytes inflight app_limited = CcDctcp c"
| "cc_on_transmit (CcLearned c) now seq_end nbytes inflight app_limited = CcLearned c"
| "cc_on_transmit (CcPrague c) now seq_end nbytes inflight app_limited = CcPrague c"
| "cc_on_transmit (CcSynth c) now seq_end nbytes inflight app_limited = CcSynth c"

fun cc_on_ack_sample :: "cc \<Rightarrow> instant \<Rightarrow> seqnum \<Rightarrow> nat \<Rightarrow> nat \<Rightarrow> nat \<Rightarrow> bool \<Rightarrow> cc" where
  "cc_on_ack_sample (CcReno c) now snd_una inflight acked pipe in_recovery = CcReno c"
| "cc_on_ack_sample (CcCubic c) now snd_una inflight acked pipe in_recovery = CcCubic c"
| "cc_on_ack_sample (CcBbr c) now snd_una inflight acked pipe in_recovery = CcBbr (bbr_on_ack_sample c now snd_una inflight acked pipe in_recovery)"
| "cc_on_ack_sample (CcDctcp c) now snd_una inflight acked pipe in_recovery = CcDctcp c"
| "cc_on_ack_sample (CcLearned c) now snd_una inflight acked pipe in_recovery = CcLearned c"
| "cc_on_ack_sample (CcPrague c) now snd_una inflight acked pipe in_recovery = CcPrague c"
| "cc_on_ack_sample (CcSynth c) now snd_una inflight acked pipe in_recovery = CcSynth c"

fun cc_on_ecn :: "cc \<Rightarrow> instant \<Rightarrow> nat \<Rightarrow> nat \<Rightarrow> cc" where
  "cc_on_ecn (CcReno c) now acked marked = CcReno c"
| "cc_on_ecn (CcCubic c) now acked marked = CcCubic c"
| "cc_on_ecn (CcBbr c) now acked marked = CcBbr c"
| "cc_on_ecn (CcDctcp c) now acked marked = CcDctcp (dctcp_on_ecn c now acked marked)"
| "cc_on_ecn (CcLearned c) now acked marked = CcLearned (learned_on_ecn c now acked marked)"
| "cc_on_ecn (CcPrague c) now acked marked = CcPrague (prague_on_ecn c now acked marked)"
| "cc_on_ecn (CcSynth c) now acked marked = CcSynth (synth_on_ecn c now acked marked)"

fun cc_on_rtt_sample :: "cc \<Rightarrow> nat \<Rightarrow> cc" where
  "cc_on_rtt_sample (CcReno c) srtt_us = CcReno c"
| "cc_on_rtt_sample (CcCubic c) srtt_us = CcCubic c"
| "cc_on_rtt_sample (CcBbr c) srtt_us = CcBbr c"
| "cc_on_rtt_sample (CcDctcp c) srtt_us = CcDctcp c"
| "cc_on_rtt_sample (CcLearned c) srtt_us = CcLearned c"
| "cc_on_rtt_sample (CcPrague c) srtt_us = CcPrague (prague_on_rtt_sample c srtt_us)"
| "cc_on_rtt_sample (CcSynth c) srtt_us = CcSynth (synth_on_rtt_sample c srtt_us)"

section \<open>The dispatched controller keeps the contract\<close>

fun cc_mss :: "cc \<Rightarrow> nat" where
  "cc_mss (CcReno c) = reno_mss c"
| "cc_mss (CcCubic c) = cubic_mss c"
| "cc_mss (CcBbr c) = bbr_mss c"
| "cc_mss (CcDctcp c) = dctcp_mss c"
| "cc_mss (CcLearned c) = learned_mss c"
| "cc_mss (CcPrague c) = prague_mss c"
| "cc_mss (CcSynth c) = synth_mss c"

text \<open>
  \<open>cc_inv\<close> leaves CUBIC out: its segment counter makes its termination depend on the number
  of ACKs, so it is treated with the indexed invariant below. \<open>cc_loss_inv\<close> holds of the
  loss-based controllers only.
\<close>

fun cc_inv :: "cc \<Rightarrow> bool" where
  "cc_inv (CcReno c) = reno_inv c"
| "cc_inv (CcCubic c) = False"
| "cc_inv (CcBbr c) = bbr_inv c"
| "cc_inv (CcDctcp c) = dctcp_inv c"
| "cc_inv (CcLearned c) = learned_inv c"
| "cc_inv (CcPrague c) = prague_inv c"
| "cc_inv (CcSynth c) = synth_inv c"

fun cc_loss_inv :: "cc \<Rightarrow> bool" where
  "cc_loss_inv (CcReno c) = reno_inv c"
| "cc_loss_inv (CcDctcp c) = dctcp_inv c"
| "cc_loss_inv (CcLearned c) = learned_inv c"
| "cc_loss_inv (CcPrague c) = prague_inv c"
| "cc_loss_inv c = False"

definition overrides_ok :: "cc_overrides \<Rightarrow> bool" where
  "overrides_ok ov \<longleftrightarrow> (\<forall>p. ov_learned ov = Some p \<longrightarrow> genome_numeric p)
     \<and> (\<forall>p. ov_program ov = Some p \<longrightarrow> prog_ok (cp_inc p) \<and> prog_ok (cp_md p) \<and> prog_ok (cp_ecn p))"

abbreviation no_overrides :: cc_overrides where
  "no_overrides \<equiv> \<lparr>ov_learned = None, ov_program = None\<rparr>"

lemma clamp_not_NaN: "x \<noteq> NaN \<Longrightarrow> lo \<noteq> NaN \<Longrightarrow> hi \<noteq> NaN \<Longrightarrow> clamp_f64 x lo hi \<noteq> NaN"
  by (simp add: clamp_f64_def)

lemma sanitized_numeric: "genome_numeric p \<Longrightarrow> genome_numeric (sanitized p)"
  by (simp add: genome_numeric_def sanitized_def clamp_not_NaN)

lemma cc_inv_new:
  assumes "mss \<noteq> 0" and "overrides_ok ov" and "kind \<noteq> KCubic"
  shows "cc_inv (cc_new ov kind mss)"
proof (cases kind)
  case KLearned
  have "genome_numeric (current_learned_params (ov_learned ov))"
    using assms(2) BAKED_numeric sanitized_numeric
    by (auto simp: current_learned_params_def overrides_ok_def split: option.split)
  then show ?thesis using KLearned assms(1) by (simp add: learned_new_def learned_inv_new)
next
  case KSynth
  have "prog_ok (cp_inc (current_program (ov_program ov))) \<and> prog_ok (cp_md (current_program (ov_program ov)))
      \<and> prog_ok (cp_ecn (current_program (ov_program ov)))"
    using assms(2) AIMD_ok by (auto simp: current_program_def overrides_ok_def split: option.split)
  then show ?thesis using KSynth assms(1) by (simp add: synth_new_def synth_inv_new)
qed (use assms in \<open>simp_all add: reno_inv_new bbr_inv_new dctcp_inv_new prague_inv_new\<close>)

lemma cc_mss_new: "cc_mss (cc_new ov kind mss) = unat mss"
  by (cases kind) (simp_all add: reno_new_def cubic_new_def bbr_new_def dctcp_new_def learned_new_def
      learned_with_params_def learned_with_raw_params_def prague_new_def synth_new_def synth_with_program_def)

text \<open>The laws of the variants, collected.\<close>

lemmas variant_floor = reno_cc.floor bbr_cc.floor dctcp_cc.floor learned_cc.floor prague_cc.floor synth_cc.floor
lemmas variant_ack_inv = reno_cc.ack_inv bbr_cc.ack_inv dctcp_cc.ack_inv learned_cc.ack_inv prague_cc.ack_inv synth_cc.ack_inv
lemmas variant_dup_inv = reno_cc.dup_inv bbr_cc.dup_inv dctcp_cc.dup_inv learned_cc.dup_inv prague_cc.dup_inv synth_cc.dup_inv
lemmas variant_recovery_inv = reno_cc.recovery_inv bbr_cc.recovery_inv dctcp_cc.recovery_inv learned_cc.recovery_inv prague_cc.recovery_inv synth_cc.recovery_inv
lemmas variant_rto_inv = reno_cc.rto_inv bbr_cc.rto_inv dctcp_cc.rto_inv learned_cc.rto_inv prague_cc.rto_inv synth_cc.rto_inv
lemmas variant_rto_collapses = reno_cc.rto_collapses bbr_cc.rto_collapses dctcp_cc.rto_collapses learned_cc.rto_collapses prague_cc.rto_collapses synth_cc.rto_collapses
lemmas variant_ecn_inv = reno_cc.ecn_inv bbr_cc.ecn_inv dctcp_cc.ecn_inv learned_cc.ecn_inv prague_cc.ecn_inv synth_cc.ecn_inv
lemmas variant_rtt_inv = reno_cc.rtt_inv bbr_cc.rtt_inv dctcp_cc.rtt_inv learned_cc.rtt_inv prague_cc.rtt_inv synth_cc.rtt_inv
lemmas variant_ack_grows = reno_cc.ack_grows dctcp_cc.ack_grows learned_cc.ack_grows prague_cc.ack_grows
lemmas variant_recovery_cut = reno_cc.recovery_cut dctcp_cc.recovery_cut learned_cc.recovery_cut prague_cc.recovery_cut
lemmas variant_rto_cut = reno_cc.rto_cut dctcp_cc.rto_cut learned_cc.rto_cut prague_cc.rto_cut
lemmas variant_dup_cut = reno_cc.dup_cut dctcp_cc.dup_cut learned_cc.dup_cut prague_cc.dup_cut
lemmas variant_dup_keep = reno_cc.dup_keep dctcp_cc.dup_keep learned_cc.dup_keep prague_cc.dup_keep
lemmas variant_ecn_cut = reno_cc.ecn_cut dctcp_cc.ecn_cut learned_cc.ecn_cut prague_cc.ecn_cut

lemmas cc_dispatch = cc_cwnd.simps cc_ssthresh.simps cc_mss.simps cc_inv.simps cc_loss_inv.simps
  cc_on_dup_ack.simps cc_enter_recovery.simps cc_on_rto.simps cc_on_ecn.simps cc_on_rtt_sample.simps
  snd_map_prod id_apply

lemma cc_ack_inv:
  assumes "cc_inv c"
  shows "\<exists>c'. cc_on_ack c now n = Some c' \<and> cc_inv c' \<and> cc_mss c' = cc_mss c"
proof (cases c)
  case (CcReno d)
  then show ?thesis using assms reno_cc.ack_inv[of d now n] by auto
next
  case (CcBbr d)
  then show ?thesis using assms bbr_cc.ack_inv[of d now n] by auto
next
  case (CcDctcp d)
  then show ?thesis using assms dctcp_cc.ack_inv[of d now n] by auto
next
  case (CcLearned d)
  then show ?thesis using assms learned_cc.ack_inv[of d now n] by auto
next
  case (CcPrague d)
  then show ?thesis using assms prague_cc.ack_inv[of d now n] by auto
next
  case (CcSynth d)
  then show ?thesis using assms synth_cc.ack_inv[of d now n] by auto
qed (use assms in simp)

interpretation any_cc: congestion_control cc_cwnd cc_ssthresh cc_mss cc_inv cc_on_ack cc_on_dup_ack
  cc_enter_recovery cc_on_rto cc_on_ecn cc_on_rtt_sample
proof
  fix c now n m fl s
  assume c: "cc_inv c"
  show "0 < cc_mss c \<and> cc_mss c \<le> cc_cwnd c \<and> cc_cwnd c \<le> U32_MAX"
    by (insert c, cases c; simp only: cc_dispatch; (rule variant_floor; assumption)?; simp?)
  show "\<exists>c'. cc_on_ack c now n = Some c' \<and> cc_inv c' \<and> cc_mss c' = cc_mss c" by (rule cc_ack_inv[OF c])
  show "cc_inv (cc_on_ecn c now n m) \<and> cc_mss (cc_on_ecn c now n m) = cc_mss c"
    by (insert c, cases c; simp only: cc_dispatch; (rule variant_ecn_inv; assumption)?; simp?)
  show "s \<le> U32_MAX \<Longrightarrow> cc_inv (cc_on_rtt_sample c s) \<and> cc_mss (cc_on_rtt_sample c s) = cc_mss c"
    by (insert c, cases c; simp only: cc_dispatch; (rule variant_rtt_inv; assumption)?; simp?)
  assume fl: "fl \<le> U32_MAX"
  show "cc_inv (snd (cc_on_dup_ack c now fl)) \<and> cc_mss (snd (cc_on_dup_ack c now fl)) = cc_mss c"
    by (insert c fl, cases c; simp only: cc_dispatch; rule variant_dup_inv; assumption)
  show "cc_inv (cc_enter_recovery c now fl) \<and> cc_mss (cc_enter_recovery c now fl) = cc_mss c"
    by (insert c fl, cases c; simp only: cc_dispatch; rule variant_recovery_inv; assumption)
  show "cc_inv (cc_on_rto c now fl) \<and> cc_mss (cc_on_rto c now fl) = cc_mss c"
    by (insert c fl, cases c; simp only: cc_dispatch; rule variant_rto_inv; assumption)
  show "cc_cwnd (cc_on_rto c now fl) = cc_mss c"
    by (insert c fl, cases c; simp only: cc_dispatch; rule variant_rto_collapses; assumption)
qed

lemma cc_loss_inv_cc_inv: "cc_loss_inv c \<Longrightarrow> cc_inv c"
  by (cases c) simp_all

lemma cc_loss_ack:
  assumes "cc_loss_inv c"
  shows "\<exists>c'. cc_on_ack c now n = Some c' \<and> cc_loss_inv c' \<and> cc_mss c' = cc_mss c \<and> cc_cwnd c \<le> cc_cwnd c'"
proof (cases c)
  case (CcReno d)
  then show ?thesis using assms reno_on_ack_total[of d now n] by auto
next
  case (CcDctcp d)
  then show ?thesis using assms dctcp_on_ack_total[of d now n] by auto
next
  case (CcLearned d)
  then show ?thesis using assms learned_on_ack_total[of d now n] by auto
next
  case (CcPrague d)
  then show ?thesis using assms prague_on_ack_total[of d now n] by auto
qed (use assms in simp_all)

lemma cc_loss_dup:
  assumes "cc_loss_inv c" and "cc_on_dup_ack c now fl = (b, c')"
  shows "b \<longrightarrow> fl \<le> U32_MAX \<longrightarrow> 2 * cc_mss c \<le> cc_ssthresh c' \<and> cc_ssthresh c' \<le> max fl (2 * cc_mss c)
      \<and> cc_cwnd c' = cc_ssthresh c'" and "\<not> b \<longrightarrow> cc_cwnd c' = cc_cwnd c"
proof -
  have "(b \<longrightarrow> fl \<le> U32_MAX \<longrightarrow> 2 * cc_mss c \<le> cc_ssthresh c' \<and> cc_ssthresh c' \<le> max fl (2 * cc_mss c)
      \<and> cc_cwnd c' = cc_ssthresh c') \<and> (\<not> b \<longrightarrow> cc_cwnd c' = cc_cwnd c)"
  proof (cases c)
    case (CcReno d)
    obtain d' where d: "reno_on_dup_ack d now fl = (b, d')" "c' = CcReno d'"
      using assms(2) CcReno by (cases "reno_on_dup_ack d now fl") auto
    then show ?thesis using assms(1) CcReno reno_cc.dup_cut[of d fl now d'] reno_cc.dup_keep[of d now fl d']
      by (cases b) simp_all
  next
    case (CcDctcp d)
    obtain d' where d: "dctcp_on_dup_ack d now fl = (b, d')" "c' = CcDctcp d'"
      using assms(2) CcDctcp by (cases "dctcp_on_dup_ack d now fl") auto
    then show ?thesis using assms(1) CcDctcp dctcp_cc.dup_cut[of d fl now d'] dctcp_cc.dup_keep[of d now fl d']
      by (cases b) simp_all
  next
    case (CcLearned d)
    obtain d' where d: "learned_on_dup_ack d now fl = (b, d')" "c' = CcLearned d'"
      using assms(2) CcLearned by (cases "learned_on_dup_ack d now fl") auto
    then show ?thesis using assms(1) CcLearned learned_cc.dup_cut[of d fl now d'] learned_cc.dup_keep[of d now fl d']
      by (cases b) simp_all
  next
    case (CcPrague d)
    obtain d' where d: "prague_on_dup_ack d now fl = (b, d')" "c' = CcPrague d'"
      using assms(2) CcPrague by (cases "prague_on_dup_ack d now fl") auto
    then show ?thesis using assms(1) CcPrague prague_cc.dup_cut[of d fl now d'] prague_cc.dup_keep[of d now fl d']
      by (cases b) simp_all
  qed (use assms in simp_all)
  then show "b \<longrightarrow> fl \<le> U32_MAX \<longrightarrow> 2 * cc_mss c \<le> cc_ssthresh c' \<and> cc_ssthresh c' \<le> max fl (2 * cc_mss c)
      \<and> cc_cwnd c' = cc_ssthresh c'" and "\<not> b \<longrightarrow> cc_cwnd c' = cc_cwnd c" by blast+
qed

interpretation loss_cc: loss_based_control cc_cwnd cc_ssthresh cc_mss cc_loss_inv cc_on_ack cc_on_dup_ack
  cc_enter_recovery cc_on_rto cc_on_ecn cc_on_rtt_sample
proof
  fix c c' now n m fl s
  assume c: "cc_loss_inv c"
  show "0 < cc_mss c \<and> cc_mss c \<le> cc_cwnd c \<and> cc_cwnd c \<le> U32_MAX"
    by (rule any_cc.floor[OF cc_loss_inv_cc_inv[OF c]])
  show "\<exists>c'. cc_on_ack c now n = Some c' \<and> cc_loss_inv c' \<and> cc_mss c' = cc_mss c"
    and "cc_on_ack c now n = Some c' \<Longrightarrow> cc_cwnd c \<le> cc_cwnd c'"
    using cc_loss_ack[OF c, of now n] by auto
  show "cc_loss_inv (cc_on_ecn c now n m) \<and> cc_mss (cc_on_ecn c now n m) = cc_mss c"
    by (insert c, cases c; simp only: cc_dispatch; (rule variant_ecn_inv; assumption)?; simp?)
  show "s \<le> U32_MAX \<Longrightarrow> cc_loss_inv (cc_on_rtt_sample c s) \<and> cc_mss (cc_on_rtt_sample c s) = cc_mss c"
    by (insert c, cases c; simp only: cc_dispatch; (rule variant_rtt_inv; assumption)?; simp?)
  show "cc_cwnd (cc_on_ecn c now n m) \<le> cc_cwnd c"
    by (insert c, cases c; simp only: cc_dispatch; (rule variant_ecn_cut; assumption)?; simp?)
  show "cc_on_dup_ack c now fl = (False, c') \<Longrightarrow> cc_cwnd c' = cc_cwnd c"
    using cc_loss_dup(2)[OF c, of now fl False c'] by simp
  assume fl: "fl \<le> U32_MAX"
  show "cc_loss_inv (snd (cc_on_dup_ack c now fl)) \<and> cc_mss (snd (cc_on_dup_ack c now fl)) = cc_mss c"
    by (insert c fl, cases c; simp only: cc_dispatch; rule variant_dup_inv; assumption)
  show "cc_loss_inv (cc_enter_recovery c now fl) \<and> cc_mss (cc_enter_recovery c now fl) = cc_mss c"
    by (insert c fl, cases c; simp only: cc_dispatch; rule variant_recovery_inv; assumption)
  show "cc_loss_inv (cc_on_rto c now fl) \<and> cc_mss (cc_on_rto c now fl) = cc_mss c"
    by (insert c fl, cases c; simp only: cc_dispatch; rule variant_rto_inv; assumption)
  show "cc_cwnd (cc_on_rto c now fl) = cc_mss c"
    by (rule any_cc.rto_collapses[OF cc_loss_inv_cc_inv[OF c] fl])
  show "2 * cc_mss c \<le> cc_ssthresh (cc_enter_recovery c now fl)
      \<and> cc_ssthresh (cc_enter_recovery c now fl) \<le> max fl (2 * cc_mss c)
      \<and> cc_cwnd (cc_enter_recovery c now fl) = cc_ssthresh (cc_enter_recovery c now fl)"
    by (insert c fl, cases c; simp only: cc_dispatch; rule variant_recovery_cut; assumption)
  show "2 * cc_mss c \<le> cc_ssthresh (cc_on_rto c now fl) \<and> cc_ssthresh (cc_on_rto c now fl) \<le> max fl (2 * cc_mss c)"
    by (insert c fl, cases c; simp only: cc_dispatch; rule variant_rto_cut; assumption)
  show "cc_on_dup_ack c now fl = (True, c') \<Longrightarrow> 2 * cc_mss c \<le> cc_ssthresh c'
      \<and> cc_ssthresh c' \<le> max fl (2 * cc_mss c) \<and> cc_cwnd c' = cc_ssthresh c'"
    using cc_loss_dup(1)[OF c, of now fl True c'] fl by simp
qed

section \<open>Sequences of signals\<close>

abbreviation cc_step :: "cc \<Rightarrow> cc_event \<Rightarrow> cc option" where
  "cc_step \<equiv> cc_signal cc_on_ack cc_on_dup_ack cc_enter_recovery cc_on_rto cc_on_ecn cc_on_rtt_sample"

text \<open>Every byte count of a signal is a \<open>u32\<close>.\<close>

fun cc_event_u32 :: "cc_event \<Rightarrow> bool" where
  "cc_event_u32 (Ev_Ack now n) \<longleftrightarrow> n \<le> U32_MAX"
| "cc_event_u32 ev \<longleftrightarrow> cc_event_ok ev"

lemma cc_event_u32_ok: "cc_event_u32 ev \<Longrightarrow> cc_event_ok ev"
  by (cases ev) simp_all

lemma cubic_step:
  assumes "cubic_inv n d" and "cc_event_u32 ev" and "n < 1048576"
  shows "\<exists>d'. cc_step (CcCubic d) ev = Some (CcCubic d') \<and> cubic_inv (Suc n) d' \<and> cubic_mss d' = cubic_mss d"
proof -
  have dup: "cubic_inv n (d\<lparr>cubic_dup_acks := k\<rparr>)" for k using assms(1) by (simp add: cubic_inv_def)
  show ?thesis
  proof (cases ev)
    case (Ev_Ack now m)
    then show ?thesis using cubic_on_ack_total[OF assms(1) _ assms(3), of m now] assms(2) by auto
  next
    case (Ev_Dup_Ack now fl)
    then show ?thesis
      using cubic_congestion_event_inv[OF dup, of "sat_inc8 (cubic_dup_acks d)" False] cubic_inv_Suc dup
      by (auto simp: cubic_on_dup_ack_def Let_def)
  next
    case (Ev_Enter_Recovery now fl)
    have "cubic_inv n ((cubic_congestion_event d False)\<lparr>cubic_dup_acks := 0\<rparr>)"
      using cubic_congestion_event_inv[OF assms(1), of False] by (simp add: cubic_inv_def)
    then show ?thesis
      using cubic_congestion_event_inv[OF assms(1), of False] cubic_inv_Suc Ev_Enter_Recovery
      by (simp add: cubic_enter_recovery_def)
  next
    case (Ev_Rto now fl)
    then show ?thesis
      using cubic_congestion_event_inv[OF assms(1), of True] cubic_inv_Suc by (simp add: cubic_on_rto_def)
  qed (use cubic_inv_Suc[OF assms(1)] in simp_all)
qed

text \<open>
  All the calls of the trait: the signals, the hooks \<open>on_ack_sample\<close> and \<open>on_transmit\<close>, in which
  BBR does its work, and \<open>set_mss\<close>.
\<close>

datatype cc_call =
    Signal cc_event
  | Ack_Sample instant seqnum nat nat nat bool
  | Transmit instant seqnum nat nat bool
  | Set_Mss u16

fun cc_apply :: "cc \<Rightarrow> cc_call \<Rightarrow> cc option" where
  "cc_apply c (Signal ev) = cc_step c ev"
| "cc_apply c (Ack_Sample now snd_una inflight acked pipe in_recovery)
     = Some (cc_on_ack_sample c now snd_una inflight acked pipe in_recovery)"
| "cc_apply c (Transmit now seq_end nbytes inflight app_limited) = Some (cc_on_transmit c now seq_end nbytes inflight app_limited)"
| "cc_apply c (Set_Mss mss) = Some (cc_set_mss c mss)"

fun cc_calls :: "cc \<Rightarrow> cc_call list \<Rightarrow> cc option" where
  "cc_calls c [] = Some c"
| "cc_calls c (x # xs) = do { c \<leftarrow> cc_apply c x; cc_calls c xs }"

fun cc_call_ok :: "cc_call \<Rightarrow> bool" where
  "cc_call_ok (Signal ev) \<longleftrightarrow> cc_event_u32 ev"
| "cc_call_ok (Set_Mss mss) \<longleftrightarrow> mss \<noteq> 0"
| "cc_call_ok _ \<longleftrightarrow> True"

text \<open>The segment size in force after a call.\<close>

fun mss_after :: "nat \<Rightarrow> cc_call \<Rightarrow> nat" where
  "mss_after m (Set_Mss mss) = unat mss"
| "mss_after m _ = m"

lemma cc_sample_keeps:
  "cc_inv c \<Longrightarrow> cc_inv (cc_on_ack_sample c now una fl n pipe r) \<and> cc_mss (cc_on_ack_sample c now una fl n pipe r) = cc_mss c"
  by (cases c) (simp_all add: bbr_on_ack_sample_inv)

lemma cc_transmit_keeps:
  "cc_inv c \<Longrightarrow> cc_inv (cc_on_transmit c now e n fl al) \<and> cc_mss (cc_on_transmit c now e n fl al) = cc_mss c"
  by (cases c) (simp_all add: bbr_on_transmit_def bbr_inv_def)

lemma cc_set_mss_keeps:
  assumes "cc_inv c" and "mss \<noteq> 0"
  shows "cc_inv (cc_set_mss c mss) \<and> cc_mss (cc_set_mss c mss) = unat mss"
proof -
  define m where "m = unat mss"
  have m: "0 < m" "m \<le> 65535" using assms(2) unat_u16_bound[of mss] by (simp_all add: m_def unat_gt_0)
  show ?thesis
    using assms(1) m unfolding m_def[symmetric]
    by (cases c) (auto simp: m_def[symmetric] MIN_CWND_SEGS_def reno_set_mss_def reno_inv_def bbr_set_mss_def bbr_inv_def bbr_min_cwnd_def dctcp_set_mss_def dctcp_inv_def
      learned_set_mss_def learned_inv_def prague_set_mss_def prague_inv_def synth_set_mss_def synth_inv_def U32_MAX_def Let_def)
qed

lemma cc_apply_keeps:
  assumes "cc_inv c" and "cc_call_ok x"
  shows "\<exists>c'. cc_apply c x = Some c' \<and> cc_inv c' \<and> cc_mss c' = mss_after (cc_mss c) x"
proof (cases x)
  case (Signal ev)
  then show ?thesis using any_cc.signal_ok[OF assms(1) cc_event_u32_ok[of ev]] assms(2) by simp
qed (use assms in \<open>simp_all add: cc_sample_keeps cc_transmit_keeps cc_set_mss_keeps\<close>)

lemma cubic_call_keeps:
  assumes "cubic_inv n d" and "cc_call_ok x" and "n < 1048576"
  shows "\<exists>d'. cc_apply (CcCubic d) x = Some (CcCubic d') \<and> cubic_inv (Suc n) d' \<and> cubic_mss d' = mss_after (cubic_mss d) x"
proof (cases x)
  case (Signal ev)
  then show ?thesis using cubic_step[OF assms(1) _ assms(3), of ev] assms(2) by simp
next
  case (Set_Mss mss)
  define m where "m = unat mss"
  have "0 < m" "m \<le> 65535" using assms(2) Set_Mss unat_u16_bound[of mss] by (simp_all add: m_def unat_gt_0)
  then have "cubic_inv n (cubic_set_mss d mss)"
    using assms(1) by (auto simp: cubic_inv_def cubic_set_mss_def U32_MAX_def m_def[symmetric])
  then show ?thesis using Set_Mss cubic_inv_Suc by (simp add: cubic_set_mss_def)
qed (use cubic_inv_Suc[OF assms(1)] in simp_all)

lemma cc_calls_keep:
  assumes "cc_inv c" and "\<forall>x \<in> set xs. cc_call_ok x"
  shows "\<exists>c'. cc_calls c xs = Some c' \<and> cc_inv c' \<and> cc_mss c' = foldl mss_after (cc_mss c) xs"
  using assms
proof (induction xs arbitrary: c)
  case (Cons x xs)
  obtain c1 where "cc_apply c x = Some c1" "cc_inv c1" "cc_mss c1 = mss_after (cc_mss c) x"
    using cc_apply_keeps[OF Cons.prems(1), of x] Cons.prems(2) by auto
  then show ?case using Cons.IH[of c1] Cons.prems(2) by simp
qed simp

lemma cubic_calls_keep:
  assumes "cubic_inv n d" and "\<forall>x \<in> set xs. cc_call_ok x" and "n + length xs \<le> 1048576"
  shows "\<exists>m d'. cc_calls (CcCubic d) xs = Some (CcCubic d') \<and> cubic_inv m d' \<and> cubic_mss d' = foldl mss_after (cubic_mss d) xs"
  using assms
proof (induction xs arbitrary: n d)
  case (Cons x xs)
  obtain d1 where "cc_apply (CcCubic d) x = Some (CcCubic d1)" "cubic_inv (Suc n) d1" "cubic_mss d1 = mss_after (cubic_mss d) x"
    using cubic_call_keeps[OF Cons.prems(1), of x] Cons.prems(2,3) by auto
  then show ?case using Cons.IH[of "Suc n" d1] Cons.prems(2,3) by simp
qed auto

text \<open>
  C28: no controller ever stalls the connection. For every congestion-control kind (any
  genome without a NaN gene and any synthesised program installed as override) and every
  negotiated segment size above zero, any sequence of calls of the controller's trait is
  handled to its end: acknowledgements, duplicate ACKs, recoveries, timeouts, ECN and RTT signals
  with \<open>u32\<close> byte counts, the delivery-rate samples and transmission hooks in which BBR sets its
  window, and changes of the segment size to another one above zero. Every window loop
  terminates, in the floating-point controllers as well, and the window is then at least
  one segment of the size in force and within \<open>u32\<close>. For CUBIC, whose segment counter only
  grows, the sequence has at most \<open>2\<^sup>2\<^sup>0\<close> calls; for the others it is of any length.
\<close>

theorem controller_never_stuck:
  assumes "mss \<noteq> 0" and "overrides_ok ov" and "\<forall>x \<in> set xs. cc_call_ok x"
    and "kind = KCubic \<Longrightarrow> length xs \<le> 2 ^ 20"
  shows "\<exists>c. cc_calls (cc_new ov kind mss) xs = Some c \<and> cc_mss c = foldl mss_after (unat mss) xs
    \<and> 0 < cc_mss c \<and> cc_mss c \<le> cc_cwnd c \<and> cc_cwnd c \<le> U32_MAX"
proof (cases "kind = KCubic")
  case True
  obtain m d' where "cc_calls (CcCubic (cubic_new mss)) xs = Some (CcCubic d')" "cubic_inv m d'"
    "cubic_mss d' = foldl mss_after (cubic_mss (cubic_new mss)) xs"
    using cubic_calls_keep[OF cubic_inv_new[OF assms(1)] assms(3)] assms(4)[OF True] by auto
  then show ?thesis using True by (auto simp: cubic_inv_def cubic_new_def)
next
  case False
  from cc_calls_keep[OF cc_inv_new[OF assms(1,2) False] assms(3)] show ?thesis
    using cc_mss_new any_cc.floor by metis
qed

theorem controller_never_stuck_witness:
  "\<exists>c. cc_calls (cc_new no_overrides KBbr 1460)
      [Transmit 0 1460 1460 0 False, Signal (Ev_Ack 5000 1460), Ack_Sample 5000 1460 0 1460 0 False, Set_Mss 1000, Signal (Ev_Rto 9000 2920)]
    = Some c \<and> cc_mss c = 1000 \<and> 1000 \<le> cc_cwnd c"
proof -
  let ?xs = "[Transmit 0 1460 1460 0 False, Signal (Ev_Ack 5000 1460), Ack_Sample 5000 1460 0 1460 0 False, Set_Mss 1000,
    Signal (Ev_Rto 9000 2920)]"
  have "\<forall>x \<in> set ?xs. cc_call_ok x" by (simp add: U32_MAX_def)
  moreover have "overrides_ok no_overrides" by (simp add: overrides_ok_def)
  moreover have "(1460 :: u16) \<noteq> 0" by simp
  moreover have "foldl mss_after (unat (1460 :: u16)) ?xs = 1000" by simp
  ultimately show ?thesis using controller_never_stuck[of 1460 no_overrides ?xs KBbr] by auto
qed

text \<open>
  The safety envelope of the loss-based controllers, proved for every run where the
  bounded checker enumerates short ones. In any state Reno, DCTCP, Prague or the learned
  controller (with any NaN-free genome, sanitized) can reach, entering recovery sets the window
  to at most the larger of the data in flight and two segments and at least two segments, a
  timeout collapses it to one segment, an ECN mark never grows it and an acknowledgement never
  shrinks it.
\<close>

theorem loss_based_envelope:
  assumes "kind \<in> {KReno, KDctcp, KPrague, KLearned}" and "mss \<noteq> 0" and "overrides_ok ov"
    and "cc_play cc_step (cc_new ov kind mss) evs = Some c" and "\<forall>ev \<in> set evs. cc_event_ok ev"
    and "fl \<le> U32_MAX"
  shows "2 * unat mss \<le> cc_cwnd (cc_enter_recovery c now fl)
    \<and> cc_cwnd (cc_enter_recovery c now fl) \<le> max fl (2 * unat mss)
    \<and> cc_cwnd (cc_on_rto c now fl) = unat mss
    \<and> cc_cwnd (cc_on_ecn c now n m) \<le> cc_cwnd c
    \<and> (\<exists>c'. cc_on_ack c now n = Some c' \<and> cc_cwnd c \<le> cc_cwnd c')"
proof -
  have "kind \<noteq> KCubic" using assms(1) by auto
  from cc_inv_new[OF assms(2,3) this] have "cc_loss_inv (cc_new ov kind mss)"
    using assms(1) by auto
  moreover have "\<exists>c'. cc_step c ev = Some c' \<and> (cc_loss_inv c' \<and> cc_mss c' = unat mss)"
    if "cc_loss_inv c \<and> cc_mss c = unat mss" "cc_event_ok ev" for c ev
    using loss_cc.signal_ok[of c ev] that by auto
  ultimately have c: "cc_loss_inv c" "cc_mss c = unat mss"
    using cc_play_preserves[where I = "\<lambda>c. cc_loss_inv c \<and> cc_mss c = unat mss" and ok = cc_event_ok
        and c = "cc_new ov kind mss" and evs = evs and step = cc_step] assms(4,5) cc_mss_new by auto
  show ?thesis
    using loss_cc.recovery_cut[OF c(1) assms(6), of now] loss_cc.rto_collapses[OF c(1) assms(6), of now]
      loss_cc.ecn_cut[OF c(1), of now n m] cc_loss_ack[OF c(1), of now n] c(2) by auto
qed

theorem loss_based_envelope_witness:
  "cc_cwnd (cc_enter_recovery (cc_new no_overrides KLearned 1000) 7 50000) \<le> 50000"
proof -
  have "KLearned \<in> {KReno, KDctcp, KPrague, KLearned}" and "(1000 :: u16) \<noteq> 0"
    and "overrides_ok no_overrides"
    and "cc_play cc_step (cc_new no_overrides KLearned 1000) [] = Some (cc_new no_overrides KLearned 1000)"
    and "\<forall>ev \<in> set []. cc_event_ok ev" and "50000 \<le> U32_MAX"
    by (simp_all add: overrides_ok_def U32_MAX_def)
  from loss_based_envelope[OF this, of 7 0 0] show ?thesis by simp
qed

end
