(* ===== verification/Segment_Build.thy ===== *)
theory Segment_Build
  imports Tcp_Wire Ipv4_Wire
begin

text \<open>
  \<open>iface.rs\<close>, the datagram builder shared by the connection and the stack: one IPv4 header
  and one TCP segment in a buffer of exactly their length. Here it is proved total for every
  datagram that fits and its output is related to the parsers of the wire layer.
\<close>

record endpoint =
  ep_ip :: ipv4_addr
  ep_port :: u16

definition endpoint_new :: "ipv4_addr \<Rightarrow> u16 \<Rightarrow> endpoint" where
  "endpoint_new ip port = \<lparr>ep_ip = ip, ep_port = port\<rparr>"

text \<open>
  The segment is emitted into \<open>&mut buf[HEADER_LEN..]\<close>: the tail is split off and put back.
\<close>

definition build_segment :: "endpoint \<Rightarrow> endpoint \<Rightarrow> tcp_repr \<Rightarrow> bytes \<Rightarrow> bytes option" where
  "build_segment local remote tcp payload = do {
     let seg_len = tr_header_len tcp + length payload;
     let ip = \<lparr>ipr_src = ep_ip local, ipr_dst = ep_ip remote, ipr_protocol = IPPROTO_TCP,
               ipr_payload_len = word_of_nat seg_len, ipr_ttl = 64, ipr_ecn = 0\<rparr>;
     let buf = replicate (ipr_total_len ip) 0;
     (_, buf) \<leftarrow> ipv4_emit ip buf;
     (_, seg) \<leftarrow> tcp_emit tcp (ep_ip local) (ep_ip remote) payload (drop IP_HEADER_LEN buf);
     Some (take IP_HEADER_LEN buf @ seg)
   }"

section \<open>The datagrams it builds\<close>

text \<open>
  A datagram that carries the segment \<open>seg\<close> from \<open>local\<close> to \<open>remote\<close>: it is accepted by
  both parsers, both checksums verify and the payload of the IP packet is the segment.
\<close>

definition carries :: "endpoint \<Rightarrow> endpoint \<Rightarrow> bytes \<Rightarrow> bytes \<Rightarrow> bool" where
  "carries local remote frame seg \<longleftrightarrow>
     ip_new_checked frame = Inr frame \<and> ip_header_len frame = 20 \<and> ip_checksum_valid frame
     \<and> ip_src frame = ep_ip local \<and> ip_dst frame = ep_ip remote \<and> ip_protocol frame = IPPROTO_TCP
     \<and> ip_payload frame = seg \<and> length frame = 20 + length seg
     \<and> tcp_new_checked seg = Inr seg \<and> tcp_checksum_valid (ep_ip local) (ep_ip remote) seg
     \<and> tcp_src_port seg = ep_port local \<and> tcp_dst_port seg = ep_port remote"

lemma build_segment_carries:
  assumes "tr_header_len tcp \<le> 60" and "tr_header_len tcp + length payload \<le> 65515"
    and "tr_src_port tcp = ep_port local" and "tr_dst_port tcp = ep_port remote"
  shows "\<exists>frame seg. build_segment local remote tcp payload = Some frame \<and> carries local remote frame seg
    \<and> length seg = tr_header_len tcp + length payload \<and> ip_ecn frame = 0
    \<and> tcp_seq seg = tr_seq tcp \<and> tcp_ack seg = tr_ack tcp \<and> tcp_flags_of seg = tr_flags tcp
    \<and> tcp_ae seg = tr_ae tcp \<and> tcp_window seg = tr_window tcp \<and> tcp_payload seg = payload
    \<and> mss_option seg = tr_mss tcp \<and> sack_permitted seg = tr_sack_permitted tcp
    \<and> timestamps seg = tr_timestamps tcp"
proof -
  let ?n = "tr_header_len tcp + length payload"
  define ip where "ip = \<lparr>ipr_src = ep_ip local, ipr_dst = ep_ip remote, ipr_protocol = IPPROTO_TCP,
      ipr_payload_len = word_of_nat ?n, ipr_ttl = 64, ipr_ecn = 0\<rparr>"
  define c where "c = checksum (ip_head ip @ [0, 0] @ ip_tail ip)"
  have pl: "unat (ipr_payload_len ip) = ?n"
    unfolding ip_def ipv4_repr.simps unat_word_of_nat_u16 using assms(2) by simp
  have tot: "ipr_total_len ip = 20 + ?n" by (simp add: ipr_total_len_def IP_HEADER_LEN_def IPV4_MIN_HEADER_LEN_def pl)
  have emit: "ipv4_emit ip (replicate (20 + ?n) 0) = Some (20, ip_frame ip c (replicate ?n 0))"
    using ipv4_emit_bytes[of "replicate (20 + ?n) 0" ip] by (simp add: ip_frame_def c_def)
  have split: "drop 20 (ip_frame ip c r) = r" "take 20 (ip_frame ip c r) @ s = ip_frame ip c s" for r s
    by (simp_all add: ip_frame_def)
  have hdr: "tr_header_len tcp + length payload \<le> length (replicate ?n (0 :: u8))" by simp
  obtain out seg where e: "tcp_emit tcp (ep_ip local) (ep_ip remote) payload (replicate ?n 0) = Some (?n, out)"
    "length out = ?n" "seg = take ?n out"
    and s: "tcp_new_checked seg = Inr seg \<and> tcp_checksum_valid (ep_ip local) (ep_ip remote) seg
      \<and> tcp_src_port seg = tr_src_port tcp \<and> tcp_dst_port seg = tr_dst_port tcp
      \<and> tcp_seq seg = tr_seq tcp \<and> tcp_ack seg = tr_ack tcp \<and> tcp_flags_of seg = tr_flags tcp
      \<and> tcp_ae seg = tr_ae tcp \<and> tcp_window seg = tr_window tcp \<and> tcp_payload seg = payload
      \<and> mss_option seg = tr_mss tcp \<and> sack_permitted seg = tr_sack_permitted tcp
      \<and> timestamps seg = tr_timestamps tcp"
    using tcp_emit_parses[OF assms(1) hdr, of "ep_ip local" "ep_ip remote"] by (simp only: length_replicate) blast
  have seg: "seg = out" "length seg = ?n" using e by simp_all
  have b: "build_segment local remote tcp payload = Some (ip_frame ip c seg)"
    using e(1) seg unfolding build_segment_def Let_def ip_def[symmetric] tot emit
    by (simp add: IP_HEADER_LEN_def IPV4_MIN_HEADER_LEN_def split)
  have acc: "ip_new_checked (ip_frame ip c seg) = Inr (ip_frame ip c seg)" "ip_payload (ip_frame ip c seg) = seg"
    using ip_frame_accepted[of ip seg c] tot pl assms(2) seg(2) by simp_all
  have flds: "ip_src (ip_frame ip c seg) = ep_ip local" "ip_dst (ip_frame ip c seg) = ep_ip remote"
    "ip_protocol (ip_frame ip c seg) = IPPROTO_TCP"
    unfolding ip_frame_fields by (simp_all add: ip_def)
  have "carries local remote (ip_frame ip c seg) seg"
    using acc s ip_frame_checksum[of ip seg] assms(3,4) flds
    unfolding carries_def c_def[symmetric] by (simp add: ip_frame_fields(2,11))
  moreover have "ip_ecn (ip_frame ip c seg) = 0" unfolding ip_frame_fields by (simp add: ip_def)
  ultimately show ?thesis using b s seg by blast
qed

end
