(* ===== verification/Tcb_State.thy ===== *)
theory Tcb_State
  imports Segment_Build Ring_Buffer Rtt_Estimator Sack_Recovery Reassembly Congestion
begin

text \<open>
  \<open>state.rs\<close> and the data of \<open>tcb.rs\<close>: the connection states, the constants, the
  transmission control block with all its fields, its two constructors, the application
  interface, and the helper operations (windows, timers, pacing, segment builders) that the
  inbound, outbound and timer paths share. An operation that changes \<open>self\<close> returns the
  new block; \<open>Cc::new\<close> reads the thread-local training overrides, which are the argument
  \<open>ov\<close>. Counters and byte counts are naturals, sequence numbers and wire values words.
\<close>

datatype state = Closed | Listen | SynSent | SynReceived | Established | FinWait1 | FinWait2
  | CloseWait | Closing | LastAck | TimeWait

section \<open>Constants\<close>

definition MSS_DEFAULT :: u16 where "MSS_DEFAULT = 536"
definition MSS_MAX :: u16 where "MSS_MAX = 65495"
definition TX_BUFFER :: nat where "TX_BUFFER = 262144"
definition RX_BUFFER :: nat where "RX_BUFFER = 262144"
definition TIME_WAIT_MILLIS :: nat where "TIME_WAIT_MILLIS = 10000"
definition FIN_WAIT2_MILLIS :: nat where "FIN_WAIT2_MILLIS = 60000"
definition PERSIST_MIN_MILLIS :: nat where "PERSIST_MIN_MILLIS = 1000"
definition PERSIST_MAX_MILLIS :: nat where "PERSIST_MAX_MILLIS = 60000"
definition CHALLENGE_ACK_LIMIT :: nat where "CHALLENGE_ACK_LIMIT = 100"
definition MAX_SYN_RETRIES :: nat where "MAX_SYN_RETRIES = 7"
definition DELAYED_ACK_MILLIS :: nat where "DELAYED_ACK_MILLIS = 40"
definition ACE_INIT :: u8 where "ACE_INIT = 5"

definition mss_for_mtu :: "nat \<Rightarrow> u16" where
  "mss_for_mtu mtu = word_of_nat (clamp_nat (mtu - 40) (unat MSS_DEFAULT) (unat MSS_MAX))"

function wscale_loop :: "nat \<Rightarrow> nat \<Rightarrow> nat" where
  "wscale_loop buf s = (if 0xFFFF < drop_bit s buf then wscale_loop buf (s + 1) else s)"
  by pat_completeness auto
termination
proof (relation "measure (\<lambda>(buf, s). drop_bit s buf)")
  fix buf s :: nat
  assume "0xFFFF < drop_bit s buf"
  moreover have "drop_bit (s + 1) buf = drop_bit s buf div 2"
    using div_mult2_eq[of buf "2 ^ s" 2] by (simp add: drop_bit_eq_div mult.commute)
  ultimately show "((buf, s + 1), buf, s) \<in> measure (\<lambda>(buf, s). drop_bit s buf)"
    by (simp del: drop_bit_Suc)
qed simp

declare wscale_loop.simps [simp del]

definition wscale_for :: "nat \<Rightarrow> u8" where
  "wscale_for buf = word_of_nat (wscale_loop buf 0)"

definition RCV_WSCALE :: u8 where "RCV_WSCALE = wscale_for RX_BUFFER"

section \<open>The transmission control block\<close>

record tcb =
  t_state :: state
  t_local :: endpoint
  t_remote :: endpoint
  t_iss :: seqnum
  t_snd_una :: seqnum
  t_snd_nxt :: seqnum
  t_snd_wnd :: nat
  t_snd_wl1 :: seqnum
  t_snd_wl2 :: seqnum
  t_snd_mss :: u16
  t_window_scaling :: bool
  t_snd_wscale :: u8
  t_rcv_wscale :: u8
  t_ts_enabled :: bool
  t_ts_recent :: u32
  t_cur_tsval :: u32
  t_accecn_cep :: u8
  t_accecn_ace_seen :: u8
  t_irs :: seqnum
  t_rcv_nxt :: seqnum
  t_rcv_adv :: seqnum
  t_tx :: ring_buffer
  t_rx :: ring_buffer
  t_rtt :: rtt_estimator
  t_cc :: cc
  t_cc_kind :: cc_kind
  t_rtt_sample :: "(instant \<times> seqnum) option"
  t_retransmitted :: bool
  t_retransmit :: bool
  t_gbn_recover :: "seqnum option"
  t_rtx_deadline :: "instant option"
  t_persist_deadline :: "instant option"
  t_persist_backoff :: nat
  t_time_wait_deadline :: "instant option"
  t_delayed_ack_deadline :: "instant option"
  t_unacked_segs :: nat
  t_pace_tokens :: nat
  t_pace_last :: instant
  t_pace_deadline :: "instant option"
  t_fin_queued :: bool
  t_fin_seq :: "seqnum option"
  t_fin_acked :: bool
  t_peer_fin_seen :: bool
  t_reset :: bool
  t_needs_ack :: bool
  t_send_probe :: bool
  t_pending_reset :: "seqnum option"
  t_syn_retries :: nat
  t_challenge_window_start :: instant
  t_challenge_count :: nat
  t_sack_enabled :: bool
  t_reasm :: reasm
  t_scoreboard :: scoreboard
  t_pending_fin :: "seqnum option"
  t_mss_advertise :: u16

definition new_syn_received ::
  "cc_overrides \<Rightarrow> endpoint \<Rightarrow> endpoint \<Rightarrow> bytes \<Rightarrow> seqnum \<Rightarrow> instant \<Rightarrow> u16 \<Rightarrow> tcb" where
  "new_syn_received ov local remote syn iss now mss_advertise =
     (let snd_mss = min (case mss_option syn of Some m \<Rightarrow> m | None \<Rightarrow> MSS_DEFAULT) mss_advertise;
          irs = tcp_seq syn;
          rcv_nxt = seq_add irs 1;
          rcv_wnd = min RX_BUFFER 0xFFFF;
          (window_scaling, snd_wscale, rcv_wscale) =
            (case window_scale syn of Some peer \<Rightarrow> (True, peer, RCV_WSCALE) | None \<Rightarrow> (False, 0, 0));
          (ts_enabled, ts_recent) =
            (case timestamps syn of Some (tsval, _) \<Rightarrow> (True, tsval) | None \<Rightarrow> (False, 0))
      in \<lparr>t_state = SynReceived, t_local = local, t_remote = remote, t_iss = iss, t_snd_una = iss,
          t_snd_nxt = iss, t_snd_wnd = unat (tcp_window syn), t_snd_wl1 = irs, t_snd_wl2 = iss,
          t_snd_mss = snd_mss, t_window_scaling = window_scaling, t_snd_wscale = snd_wscale,
          t_rcv_wscale = rcv_wscale, t_ts_enabled = ts_enabled, t_ts_recent = ts_recent,
          t_cur_tsval = 0, t_accecn_cep = ACE_INIT, t_accecn_ace_seen = ACE_INIT, t_irs = irs,
          t_rcv_nxt = rcv_nxt, t_rcv_adv = seq_add rcv_nxt rcv_wnd, t_tx = with_capacity TX_BUFFER,
          t_rx = with_capacity RX_BUFFER, t_rtt = rtt_new, t_cc = cc_new ov KReno snd_mss,
          t_cc_kind = KReno, t_rtt_sample = None, t_retransmitted = False, t_retransmit = False,
          t_gbn_recover = None, t_rtx_deadline = None, t_persist_deadline = None,
          t_persist_backoff = PERSIST_MIN_MILLIS, t_time_wait_deadline = None,
          t_delayed_ack_deadline = None, t_unacked_segs = 0, t_pace_tokens = 0, t_pace_last = now,
          t_pace_deadline = None, t_fin_queued = False, t_fin_seq = None, t_fin_acked = False,
          t_peer_fin_seen = False, t_reset = False, t_needs_ack = False, t_send_probe = False,
          t_pending_reset = None, t_syn_retries = 0, t_challenge_window_start = now,
          t_challenge_count = 0, t_sack_enabled = sack_permitted syn, t_reasm = reasm_new,
          t_scoreboard = scoreboard_new, t_pending_fin = None, t_mss_advertise = mss_advertise\<rparr>)"

definition new_syn_sent ::
  "cc_overrides \<Rightarrow> endpoint \<Rightarrow> endpoint \<Rightarrow> seqnum \<Rightarrow> instant \<Rightarrow> u16 \<Rightarrow> tcb" where
  "new_syn_sent ov local remote iss now mss_advertise =
     \<lparr>t_state = SynSent, t_local = local, t_remote = remote, t_iss = iss, t_snd_una = iss,
      t_snd_nxt = iss, t_snd_wnd = 0, t_snd_wl1 = iss, t_snd_wl2 = iss, t_snd_mss = MSS_DEFAULT,
      t_window_scaling = False, t_snd_wscale = 0, t_rcv_wscale = 0, t_ts_enabled = False,
      t_ts_recent = 0, t_cur_tsval = 0, t_accecn_cep = ACE_INIT, t_accecn_ace_seen = ACE_INIT,
      t_irs = 0, t_rcv_nxt = 0, t_rcv_adv = 0, t_tx = with_capacity TX_BUFFER,
      t_rx = with_capacity RX_BUFFER, t_rtt = rtt_new, t_cc = cc_new ov KReno MSS_DEFAULT,
      t_cc_kind = KReno, t_rtt_sample = None, t_retransmitted = False, t_retransmit = False,
      t_gbn_recover = None, t_rtx_deadline = None, t_persist_deadline = None,
      t_persist_backoff = PERSIST_MIN_MILLIS, t_time_wait_deadline = None,
      t_delayed_ack_deadline = None, t_unacked_segs = 0, t_pace_tokens = 0, t_pace_last = now,
      t_pace_deadline = None, t_fin_queued = False, t_fin_seq = None, t_fin_acked = False,
      t_peer_fin_seen = False, t_reset = False, t_needs_ack = False, t_send_probe = False,
      t_pending_reset = None, t_syn_retries = 0, t_challenge_window_start = now,
      t_challenge_count = 0, t_sack_enabled = False, t_reasm = reasm_new,
      t_scoreboard = scoreboard_new, t_pending_fin = None, t_mss_advertise = mss_advertise\<rparr>"

definition set_congestion_control :: "cc_overrides \<Rightarrow> tcb \<Rightarrow> cc_kind \<Rightarrow> tcb" where
  "set_congestion_control ov self kind =
     (if kind \<noteq> t_cc_kind self
      then self\<lparr>t_cc_kind := kind, t_cc := cc_new ov kind (t_snd_mss self)\<rparr> else self)"

definition ecn_enabled :: "tcb \<Rightarrow> bool" where
  "ecn_enabled self \<longleftrightarrow> t_cc_kind self \<in> {KDctcp, KLearned, KPrague, KSynth}"

section \<open>The application interface\<close>

definition tcb_send :: "tcb \<Rightarrow> bytes \<Rightarrow> tcb \<times> nat" where
  "tcb_send self data =
     (case t_state self of
        Established \<Rightarrow> (let (tx, n) = rb_write (t_tx self) data in (self\<lparr>t_tx := tx\<rparr>, n))
      | CloseWait \<Rightarrow> (let (tx, n) = rb_write (t_tx self) data in (self\<lparr>t_tx := tx\<rparr>, n))
      | _ \<Rightarrow> (self, 0))"

definition tcb_recv :: "tcb \<Rightarrow> nat \<Rightarrow> tcb \<times> bytes" where
  "tcb_recv self len = (let (rx, dst) = rb_read (t_rx self) len in (self\<lparr>t_rx := rx\<rparr>, dst))"

definition tcb_close :: "tcb \<Rightarrow> tcb" where
  "tcb_close self = self\<lparr>t_fin_queued := True\<rparr>"

definition rx_available :: "tcb \<Rightarrow> nat" where
  "rx_available self = rb_len (t_rx self)"

definition tx_free :: "tcb \<Rightarrow> nat" where
  "tx_free self = rb_free (t_tx self)"

definition recv_eof :: "tcb \<Rightarrow> bool" where
  "recv_eof self \<longleftrightarrow> t_peer_fin_seen self \<and> rb_is_empty (t_rx self)"

definition is_synchronized :: "tcb \<Rightarrow> bool" where
  "is_synchronized self \<longleftrightarrow>
     t_state self \<in> {Established, CloseWait, FinWait1, FinWait2, Closing, LastAck}"

section \<open>Window predicates\<close>

definition seq_in_window :: "tcb \<Rightarrow> seqnum \<Rightarrow> bool" where
  "seq_in_window self seq =
     (if t_rcv_adv self = t_rcv_nxt self then seq = t_rcv_nxt self
      else seq_ge seq (t_rcv_nxt self) \<and> seq_lt seq (t_rcv_adv self))"

definition segment_acceptable :: "tcb \<Rightarrow> seqnum \<Rightarrow> nat \<Rightarrow> bool" where
  "segment_acceptable self seq seg_len =
     (let zero_window = t_rcv_adv self = t_rcv_nxt self;
          right = t_rcv_adv self
      in case (seg_len = 0, zero_window) of
           (True, True) \<Rightarrow> seq = t_rcv_nxt self
         | (True, False) \<Rightarrow> seq_ge seq (t_rcv_nxt self) \<and> seq_lt seq right
         | (False, True) \<Rightarrow> False
         | (False, False) \<Rightarrow>
             (let last_octet = seq_add seq (seg_len - 1)
              in (seq_ge seq (t_rcv_nxt self) \<and> seq_lt seq right)
                 \<or> (seq_ge last_octet (t_rcv_nxt self) \<and> seq_lt last_octet right)))"

definition update_window :: "tcb \<Rightarrow> seqnum \<Rightarrow> seqnum \<Rightarrow> u16 \<Rightarrow> tcb" where
  "update_window self seg_seq seg_ack seg_wnd =
     (if seq_lt (t_snd_wl1 self) seg_seq
         \<or> (t_snd_wl1 self = seg_seq \<and> seq_le (t_snd_wl2 self) seg_ack)
      then let self = self\<lparr>t_snd_wnd := push_bit (unat (t_snd_wscale self)) (unat seg_wnd) mod (U32_MAX + 1),
                        t_snd_wl1 := seg_seq, t_snd_wl2 := seg_ack\<rparr>
           in if 0 < seg_wnd
              then self\<lparr>t_persist_deadline := None, t_persist_backoff := PERSIST_MIN_MILLIS,
                     t_send_probe := False\<rparr>
              else self
      else self)"

definition challenge_ack :: "tcb \<Rightarrow> instant \<Rightarrow> tcb" where
  "challenge_ack self now =
     (let self = (if 1000000 \<le> saturating_micros_since now (t_challenge_window_start self)
                  then self\<lparr>t_challenge_window_start := now, t_challenge_count := 0\<rparr> else self)
      in if t_challenge_count self < CHALLENGE_ACK_LIMIT
         then self\<lparr>t_challenge_count := t_challenge_count self + 1, t_needs_ack := True\<rparr> else self)"

definition take_needs_ack :: "tcb \<Rightarrow> bool \<times> tcb" where
  "take_needs_ack self = (t_needs_ack self, self\<lparr>t_needs_ack := False\<rparr>)"

section \<open>Timers and pacing\<close>

definition start_rtx :: "tcb \<Rightarrow> instant \<Rightarrow> tcb" where
  "start_rtx self now =
     (if t_rtx_deadline self = None
      then self\<lparr>t_rtx_deadline := Some (plus_micros now (rto_micros (t_rtt self)))\<rparr> else self)"

definition restart_rtx :: "tcb \<Rightarrow> instant \<Rightarrow> tcb" where
  "restart_rtx self now = self\<lparr>t_rtx_deadline := Some (plus_micros now (rto_micros (t_rtt self)))\<rparr>"

definition arm_persist :: "tcb \<Rightarrow> instant \<Rightarrow> tcb" where
  "arm_persist self now =
     (if t_persist_deadline self = None
      then self\<lparr>t_persist_backoff := PERSIST_MIN_MILLIS,
             t_persist_deadline := Some (plus_millis now PERSIST_MIN_MILLIS)\<rparr> else self)"

definition arm_delayed_ack :: "tcb \<Rightarrow> instant \<Rightarrow> tcb" where
  "arm_delayed_ack self now =
     (if t_delayed_ack_deadline self = None
      then self\<lparr>t_delayed_ack_deadline := Some (plus_millis now DELAYED_ACK_MILLIS)\<rparr> else self)"

definition pace_allowance :: "tcb \<Rightarrow> instant \<Rightarrow> nat \<Rightarrow> nat \<Rightarrow> nat \<times> tcb" where
  "pace_allowance self now rate mss =
     (let elapsed = saturating_micros_since now (t_pace_last self);
          earned = sat_mul64 elapsed rate div 1000000;
          cap = max (rate div 1000) (2 * mss);
          self = self\<lparr>t_pace_tokens := min (sat_add64 (t_pace_tokens self) earned) cap, t_pace_last := now\<rparr>
      in (min (t_pace_tokens self) U32_MAX, self))"

definition arm_pace :: "tcb \<Rightarrow> instant \<Rightarrow> nat \<Rightarrow> nat \<Rightarrow> tcb" where
  "arm_pace self now rate have_bytes =
     (let need = unat (t_snd_mss self) - have_bytes;
          wait_us = max (div_ceil (sat_mul64 need 1000000) (max rate 1)) 1
      in self\<lparr>t_pace_deadline := Some (plus_micros now wait_us)\<rparr>)"

definition arm_time_wait :: "tcb \<Rightarrow> instant \<Rightarrow> tcb" where
  "arm_time_wait self now =
     self\<lparr>t_time_wait_deadline := Some (plus_millis now TIME_WAIT_MILLIS),
          t_rtx_deadline := None, t_persist_deadline := None\<rparr>"

section \<open>Building segments\<close>

definition advertised_window :: "tcb \<Rightarrow> nat \<times> tcb" where
  "advertised_window self =
     (let occupied = rb_len (t_rx self) + buffered (t_reasm self);
          max_window = push_bit (unat (t_rcv_wscale self)) 0xFFFF;
          free = min (RX_BUFFER - occupied) max_window;
          candidate_right = seq_add (t_rcv_nxt self) free;
          right = (if seq_lt candidate_right (t_rcv_adv self) then t_rcv_adv self else candidate_right);
          self = self\<lparr>t_rcv_adv := right\<rparr>
      in (offset_from right (t_rcv_nxt self), self))"

definition reasm_right_edge :: "tcb \<Rightarrow> seqnum" where
  "reasm_right_edge self =
     (let budget = RX_BUFFER - (rb_len (t_rx self) + buffered (t_reasm self));
          budget_edge = seq_add (t_rcv_nxt self) (min budget 0xFFFF)
      in seq_min budget_edge (t_rcv_adv self))"

definition tcb_is_lost :: "tcb \<Rightarrow> seqnum \<Rightarrow> bool" where
  "tcb_is_lost self seq = is_lost (t_scoreboard self) seq (unat (t_snd_mss self))"

definition max_segment_payload :: "tcb \<Rightarrow> nat" where
  "max_segment_payload self =
     (let opt = 0;
          opt = (if t_ts_enabled self then opt + 12 else opt);
          opt = (if t_sack_enabled self \<and> \<not> reasm_is_empty (t_reasm self)
                 then let n = length (report (t_reasm self) MAX_SACK_BLOCKS);
                          n = (if t_ts_enabled self then min n 3 else n)
                      in if 0 < n then opt + (4 + 8 * n) else opt
                 else opt)
      in unat (t_snd_mss self) - opt)"

text \<open>The ACE field of a post-handshake segment of an ECN connection: extra flags and the AE bit.\<close>

definition ace_flags :: "tcb \<Rightarrow> tcp_flags \<Rightarrow> tcp_flags \<times> bool" where
  "ace_flags self flag_bits =
     (if ecn_enabled self \<and> flag_bits AND SYN = 0
      then let ace = t_accecn_cep self AND 0x07;
               flag_bits = (if ace AND 0x01 \<noteq> 0 then flag_bits OR ECE else flag_bits);
               flag_bits = (if ace AND 0x02 \<noteq> 0 then flag_bits OR CWR else flag_bits)
           in (flag_bits, ace AND 0x04 \<noteq> 0)
      else (flag_bits, False))"

text \<open>The header \<open>build\<close> stamps, once the window has been computed.\<close>

definition segment_repr :: "tcb \<Rightarrow> seqnum \<Rightarrow> tcp_flags \<Rightarrow> bool \<Rightarrow> nat \<Rightarrow> tcp_repr" where
  "segment_repr self seq flags ae window_true =
     (let syn = flag_has flags SYN;
          window = word_of_nat (if syn then min window_true 0xFFFF
                     else min (drop_bit (unat (t_rcv_wscale self)) window_true) 0xFFFF);
          sack = (if t_sack_enabled self \<and> \<not> syn \<and> \<not> reasm_is_empty (t_reasm self)
                  then foldl (\<lambda>s (l, r). sack_push s l r) [] (report (t_reasm self) MAX_SACK_BLOCKS) else [])
      in \<lparr>tr_src_port = ep_port (t_local self), tr_dst_port = ep_port (t_remote self), tr_seq = seq,
          tr_ack = t_rcv_nxt self, tr_flags = flags, tr_window = window,
          tr_mss = (if syn then Some (t_mss_advertise self) else None),
          tr_sack_permitted = (syn \<and> t_sack_enabled self), tr_sack = sack,
          tr_window_scale = (if syn \<and> t_window_scaling self then Some (t_rcv_wscale self) else None),
          tr_timestamps = (if t_ts_enabled self then Some (t_cur_tsval self, t_ts_recent self) else None),
          tr_ae = ae\<rparr>)"

definition build :: "tcb \<Rightarrow> seqnum \<Rightarrow> tcp_flags \<Rightarrow> bytes \<Rightarrow> (bytes \<times> tcb) option" where
  "build self seq extra_flags payload = do {
     let self = self\<lparr>t_delayed_ack_deadline := None, t_unacked_segs := 0\<rparr>;
     let (flags, ae) = ace_flags self (extra_flags OR ACK);
     let (window_true, self) = advertised_window self;
     frame \<leftarrow> build_segment (t_local self) (t_remote self) (segment_repr self seq flags ae window_true) payload;
     Some (if ecn_enabled self \<and> payload \<noteq> [] then set_ecn frame ECN_ECT1 else frame, self)
   }"

definition build_syn :: "tcb \<Rightarrow> bytes option" where
  "build_syn self = build_segment (t_local self) (t_remote self)
     \<lparr>tr_src_port = ep_port (t_local self), tr_dst_port = ep_port (t_remote self), tr_seq = t_iss self,
      tr_ack = 0, tr_flags = SYN, tr_window = word_of_nat (min RX_BUFFER 0xFFFF),
      tr_mss = Some (t_mss_advertise self), tr_sack_permitted = True, tr_sack = [],
      tr_window_scale = Some RCV_WSCALE, tr_timestamps = Some (t_cur_tsval self, 0), tr_ae = False\<rparr> []"

definition build_rst :: "tcb \<Rightarrow> seqnum \<Rightarrow> bytes option" where
  "build_rst self seq = build_segment (t_local self) (t_remote self)
     \<lparr>tr_src_port = ep_port (t_local self), tr_dst_port = ep_port (t_remote self), tr_seq = seq,
      tr_ack = 0, tr_flags = RST, tr_window = 0, tr_mss = None, tr_sack_permitted = False, tr_sack = [],
      tr_window_scale = None, tr_timestamps = None, tr_ae = False\<rparr> []"

end
