(* ===== verification/Tcb_Input.thy ===== *)
theory Tcb_Input
  imports Tcb_State
begin

text \<open>
  \<open>tcb.rs\<close>, the inbound path: \<open>on_segment\<close> in the order of its numbered steps, each step
  a definition of its own, \<open>on_segment_syn_sent\<close>, \<open>process_ack\<close> and
  \<open>recompute_closing_state\<close>. A step that can panic or call a growth loop that may not end has
  an \<open>option\<close> result, \<open>None\<close> being the panic or the divergence.
\<close>

section \<open>Closing states\<close>

definition closing_state :: "state \<Rightarrow> bool \<Rightarrow> bool \<Rightarrow> state" where
  "closing_state st fin_acked peer_fin_seen =
     (case st of
        FinWait1 \<Rightarrow> (case (fin_acked, peer_fin_seen) of
            (True, True) \<Rightarrow> TimeWait
          | (True, False) \<Rightarrow> FinWait2
          | (False, True) \<Rightarrow> Closing
          | (False, False) \<Rightarrow> FinWait1)
      | FinWait2 \<Rightarrow> if peer_fin_seen then TimeWait else FinWait2
      | Closing \<Rightarrow> if fin_acked then TimeWait else Closing
      | LastAck \<Rightarrow> if fin_acked then Closed else LastAck
      | Established \<Rightarrow> if peer_fin_seen then CloseWait else Established
      | other \<Rightarrow> other)"

definition recompute_closing_state :: "tcb \<Rightarrow> instant \<Rightarrow> tcb" where
  "recompute_closing_state self now =
     (let prev = t_state self;
          self = self\<lparr>t_state := closing_state prev (t_fin_acked self) (t_peer_fin_seen self)\<rparr>
      in if t_state self \<noteq> prev
         then (case t_state self of
                 TimeWait \<Rightarrow> arm_time_wait self now
               | FinWait2 \<Rightarrow> self\<lparr>t_time_wait_deadline := Some (plus_millis now FIN_WAIT2_MILLIS)\<rparr>
               | _ \<Rightarrow> self)
         else self)"

section \<open>Acknowledgement processing\<close>

text \<open>The delivery-rate sample, once \<open>SND.UNA\<close> has advanced.\<close>

definition ack_sample :: "tcb \<Rightarrow> instant \<Rightarrow> nat \<Rightarrow> bool \<Rightarrow> tcb" where
  "ack_sample self now data_acked in_rec =
     (let cc_inflight = offset_from (t_snd_nxt self) (t_snd_una self);
          cc_pipe = (if t_sack_enabled self
                     then sb_pipe (t_scoreboard self) (t_snd_una self) (t_snd_nxt self) (unat (t_snd_mss self))
                     else cc_inflight)
      in self\<lparr>t_cc := cc_on_ack_sample (t_cc self) now (t_snd_una self) cc_inflight data_acked cc_pipe in_rec\<rparr>)"

text \<open>The AccECN delta since the last acknowledgement, as marked bytes.\<close>

definition ack_ecn :: "tcb \<Rightarrow> instant \<Rightarrow> u8 \<Rightarrow> nat \<Rightarrow> bool \<Rightarrow> tcb" where
  "ack_ecn self now ace data_acked in_rec =
     (if ecn_enabled self
      then let delta = unat ((ace - t_accecn_ace_seen self) AND 0x07);
               self = self\<lparr>t_accecn_ace_seen := ace AND 0x07\<rparr>
           in if \<not> in_rec
              then let marked = min (sat_mul32 delta (unat (t_snd_mss self))) data_acked
                   in self\<lparr>t_cc := cc_on_ecn (t_cc self) now data_acked marked\<rparr>
              else self
      else self)"

text \<open>The scoreboard after the advance, and the end of a recovery episode.\<close>

definition ack_scoreboard :: "tcb \<Rightarrow> instant \<Rightarrow> tcb option" where
  "ack_scoreboard self now =
     (if t_sack_enabled self
      then let self = self\<lparr>t_scoreboard := sb_trim (t_scoreboard self) (t_snd_una self)\<rparr>
           in if recovery_reached (t_scoreboard self) (t_snd_una self)
              then do {
                let self = self\<lparr>t_scoreboard := exit_recovery (t_scoreboard self)\<rparr>;
                cc \<leftarrow> cc_on_ack (t_cc self) now 0;
                Some (self\<lparr>t_cc := cc, t_retransmitted := False\<rparr>)
              }
              else Some self
      else Some self)"

text \<open>The ACK-clocked go-back-N drain.\<close>

definition ack_gbn :: "tcb \<Rightarrow> tcb" where
  "ack_gbn self =
     (case t_gbn_recover self of
        Some high \<Rightarrow>
          if seq_lt (t_snd_una self) high \<and> t_snd_una self \<noteq> t_snd_nxt self
          then self\<lparr>t_retransmit := True\<rparr> else self\<lparr>t_gbn_recover := None\<rparr>
      | None \<Rightarrow> self)"

definition ack_rtt :: "tcb \<Rightarrow> seqnum \<Rightarrow> u32 option \<Rightarrow> instant \<Rightarrow> tcb option" where
  "ack_rtt self seg_ack seg_tsecr now =
     (if t_ts_enabled self
      then (case seg_tsecr of
              Some tsecr \<Rightarrow>
                let elapsed = (word_of_nat now :: u32) - tsecr
                in if 0 \<le> sint elapsed
                   then do {
                     rtt \<leftarrow> rtt_on_sample (t_rtt self) (max (unat elapsed) 1);
                     Some (self\<lparr>t_rtt := rtt\<rparr>)
                   }
                   else Some self
            | None \<Rightarrow> Some self)
      else if \<not> t_retransmitted self
      then (case t_rtt_sample self of
              Some (sent_at, seq_end) \<Rightarrow>
                if seq_ge seg_ack seq_end
                then do {
                  rtt \<leftarrow> rtt_on_sample (t_rtt self) (max (min (saturating_micros_since now sent_at) U32_MAX) 1);
                  Some (self\<lparr>t_rtt := rtt, t_rtt_sample := None\<rparr>)
                }
                else Some self
            | None \<Rightarrow> Some self)
      else Some self)"

text \<open>Forward progress clears the backoff; the controller hears the smoothed RTT; the timer.\<close>

definition ack_timer :: "tcb \<Rightarrow> instant \<Rightarrow> tcb" where
  "ack_timer self now =
     (let self = self\<lparr>t_rtt := rtt_on_clean_ack (t_rtt self)\<rparr>;
          self = (case srtt_micros (t_rtt self) of
                    Some s \<Rightarrow> self\<lparr>t_cc := cc_on_rtt_sample (t_cc self) s\<rparr> | None \<Rightarrow> self)
      in if t_snd_una self = t_snd_nxt self
         then self\<lparr>t_rtx_deadline := None, t_retransmitted := False, t_rtt_sample := None\<rparr>
         else restart_rtx self now)"

text \<open>Bytes leave the send queue, the window grows outside recovery, \<open>SND.UNA\<close> moves.\<close>

definition ack_consume :: "tcb \<Rightarrow> seqnum \<Rightarrow> nat \<Rightarrow> bool \<Rightarrow> instant \<Rightarrow> tcb option" where
  "ack_consume self seg_ack data_acked in_rec now = do {
     let self = self\<lparr>t_tx := fst (rb_consume (t_tx self) data_acked)\<rparr>;
     cc \<leftarrow> (if \<not> in_rec then cc_on_ack (t_cc self) now data_acked else Some (t_cc self));
     let self = self\<lparr>t_cc := cc\<rparr>;
     let self = (case t_fin_seq self of
                   Some fin_seq \<Rightarrow> if seq_gt seg_ack fin_seq then self\<lparr>t_fin_acked := True\<rparr> else self
                 | None \<Rightarrow> self);
     Some (self\<lparr>t_snd_una := seg_ack\<rparr>)
   }"

definition ack_advance :: "tcb \<Rightarrow> seqnum \<Rightarrow> u32 option \<Rightarrow> u8 \<Rightarrow> instant \<Rightarrow> tcb option" where
  "ack_advance self seg_ack seg_tsecr ace now = do {
     let acked = offset_from seg_ack (t_snd_una self);
     let data_acked = min acked (rb_len (t_tx self));
     let in_rec = (t_sack_enabled self \<and> in_recovery (t_scoreboard self));
     self \<leftarrow> ack_consume self seg_ack data_acked in_rec now;
     let self = ack_sample self now data_acked in_rec;
     let self = ack_ecn self now ace data_acked in_rec;
     self \<leftarrow> ack_scoreboard self now;
     let self = ack_gbn self;
     self \<leftarrow> ack_rtt self seg_ack seg_tsecr now;
     Some (ack_timer self now)
   }"

definition process_ack ::
  "tcb \<Rightarrow> seqnum \<Rightarrow> seqnum \<Rightarrow> u16 \<Rightarrow> u32 option \<Rightarrow> u8 \<Rightarrow> instant \<Rightarrow> (bool \<times> tcb) option" where
  "process_ack self seg_seq seg_ack seg_wnd seg_tsecr ace now =
     (if seq_gt seg_ack (t_snd_nxt self) then Some (False, self\<lparr>t_needs_ack := True\<rparr>)
      else do {
        self \<leftarrow> (if seq_gt seg_ack (t_snd_una self) then ack_advance self seg_ack seg_tsecr ace now
                 else Some self);
        Some (True, update_window self seg_seq seg_ack seg_wnd)
      })"

section \<open>Loss detection\<close>

definition sack_loss :: "tcb \<Rightarrow> instant \<Rightarrow> run list \<Rightarrow> bool \<Rightarrow> tcb" where
  "sack_loss self now blocks is_dup =
     (let self = self\<lparr>t_scoreboard := sb_update (t_scoreboard self) (t_snd_una self) (t_snd_nxt self) blocks\<rparr>
      in if \<not> in_recovery (t_scoreboard self) \<and> t_gbn_recover self = None
         then let flight = offset_from (t_snd_nxt self) (t_snd_una self);
                  (three_dups, cc) = (if is_dup then cc_on_dup_ack (t_cc self) now flight
                                      else (False, t_cc self));
                  self = self\<lparr>t_cc := cc\<rparr>;
                  lost = tcb_is_lost self (t_snd_una self)
              in if three_dups \<or> lost
                 then let self = (if \<not> three_dups
                                  then self\<lparr>t_cc := cc_enter_recovery (t_cc self) now flight\<rparr> else self);
                          self = self\<lparr>t_scoreboard := begin_recovery (t_scoreboard self) (t_snd_nxt self),
                                   t_retransmitted := True, t_rtt_sample := None\<rparr>
                      in restart_rtx self now
                 else self
         else self)"

definition legacy_dup_ack :: "tcb \<Rightarrow> instant \<Rightarrow> tcb" where
  "legacy_dup_ack self now =
     (let flight = offset_from (t_snd_nxt self) (t_snd_una self);
          (third, cc) = cc_on_dup_ack (t_cc self) now flight;
          self = self\<lparr>t_cc := cc\<rparr>
      in if third
         then restart_rtx (self\<lparr>t_retransmit := True, t_retransmitted := True, t_rtt_sample := None\<rparr>) now
         else self)"

section \<open>Step (5): the ACK\<close>

text \<open>The ACE field decoded from AE, CWR and ECE.\<close>

definition ace_field :: "bytes \<Rightarrow> u8" where
  "ace_field tcp = (push_bit 2 (if tcp_ae tcp then 1 else 0)
     OR push_bit 1 (if flag_has (tcp_flags_of tcp) CWR then 1 else 0))
     OR (if flag_has (tcp_flags_of tcp) ECE then 1 else 0)"

text \<open>The result says whether processing goes on.\<close>

definition ack_syn_received :: "tcb \<Rightarrow> bytes \<Rightarrow> bool \<times> tcb" where
  "ack_syn_received self tcp =
     (if seq_gt (tcp_ack tcp) (t_snd_una self) \<and> seq_le (tcp_ack tcp) (t_snd_nxt self)
      then let self = self\<lparr>t_snd_una := tcp_ack tcp\<rparr>;
               self = update_window self (tcp_seq tcp) (tcp_ack tcp) (tcp_window tcp)
           in (True, self\<lparr>t_state := Established, t_rtx_deadline := None, t_retransmit := False\<rparr>)
      else (False, self\<lparr>t_pending_reset := Some (tcp_ack tcp), t_state := Closed\<rparr>))"

definition ack_synchronized :: "tcb \<Rightarrow> instant \<Rightarrow> bytes \<Rightarrow> u32 option \<Rightarrow> (bool \<times> tcb) option" where
  "ack_synchronized self now tcp seg_tsecr = do {
     let is_dup = (tcp_payload tcp = [] \<and> \<not> flag_has (tcp_flags_of tcp) FIN
                   \<and> \<not> flag_has (tcp_flags_of tcp) SYN \<and> tcp_ack tcp = t_snd_una self
                   \<and> t_snd_una self \<noteq> t_snd_nxt self);
     (ok, self) \<leftarrow> process_ack self (tcp_seq tcp) (tcp_ack tcp) (tcp_window tcp) seg_tsecr (ace_field tcp) now;
     Some (if \<not> ok then (False, self)
           else if t_sack_enabled self then (True, sack_loss self now (sack_blocks tcp) is_dup)
           else if is_dup then (True, legacy_dup_ack self now)
           else (True, self))
   }"

definition ack_step :: "tcb \<Rightarrow> instant \<Rightarrow> bytes \<Rightarrow> u32 option \<Rightarrow> (bool \<times> tcb) option" where
  "ack_step self now tcp seg_tsecr =
     (if t_state self = SynReceived then Some (ack_syn_received self tcp)
      else ack_synchronized self now tcp seg_tsecr)"

section \<open>Step (6): data\<close>

definition trim_left :: "seqnum \<Rightarrow> seqnum \<Rightarrow> bytes \<Rightarrow> seqnum \<times> bytes" where
  "trim_left rcv_nxt seg_seq payload =
     (if seq_lt seg_seq rcv_nxt
      then let off = min (offset_from rcv_nxt seg_seq) (length payload) in (rcv_nxt, drop off payload)
      else (seg_seq, payload))"

text \<open>The loop that moves contiguous runs into the receive ring.\<close>

function drain_runs :: "reasm \<Rightarrow> ring_buffer \<Rightarrow> seqnum \<Rightarrow> (reasm \<times> ring_buffer \<times> seqnum) option" where
  "drain_runs rs rx rcv_nxt =
     (case pop_contiguous rs rcv_nxt of
        None \<Rightarrow> None
      | Some (run, rs') \<Rightarrow>
          if run = [] then Some (rs', rx, rcv_nxt)
          else case rb_write rx run of (rx', w) \<Rightarrow>
            if w < length run
            then Some (reinsert_front rs' (seq_add rcv_nxt w) (drop w run), rx', seq_add rcv_nxt w)
            else drain_runs rs' rx' (seq_add rcv_nxt w))"
  by pat_completeness auto
termination
  by (relation "measure (\<lambda>(rs, rx, nxt). length (reasm_runs rs))")
    (auto simp: pop_contiguous_def bind_Some_iff split: list.splits if_splits)

declare drain_runs.simps [simp del]

text \<open>The result: whether the data was in order, whether some of it found no room.\<close>

definition accept_data :: "tcb \<Rightarrow> seqnum \<Rightarrow> bytes \<Rightarrow> (bool \<times> bool \<times> tcb) option" where
  "accept_data self data_seq dat =
     (if dat = [] then Some (False, False, self)
      else if data_seq = t_rcv_nxt self
      then (case rb_write (t_rx self) dat of (rx, n) \<Rightarrow>
        let self = self\<lparr>t_rx := rx, t_rcv_nxt := seq_add (t_rcv_nxt self) n\<rparr>;
            no_room = n < length dat
        in if t_sack_enabled self
           then do {
             rs \<leftarrow> discard_below (t_reasm self) (t_rcv_nxt self);
             (rs, rx, nxt) \<leftarrow> drain_runs rs (t_rx self) (t_rcv_nxt self);
             Some (True, no_room, self\<lparr>t_reasm := rs, t_rx := rx, t_rcv_nxt := nxt\<rparr>)
           }
           else Some (True, no_room, self))
      else if t_sack_enabled self
      then do {
        rs \<leftarrow> reasm_insert (t_reasm self) (t_rcv_nxt self) (reasm_right_edge self) data_seq dat;
        Some (False, False, self\<lparr>t_reasm := rs\<rparr>)
      }
      else Some (False, False, self))"

definition schedule_ack :: "tcb \<Rightarrow> instant \<Rightarrow> bool \<Rightarrow> tcb" where
  "schedule_ack self now clean_in_order =
     (if clean_in_order
      then let self = self\<lparr>t_unacked_segs := sat_inc8 (t_unacked_segs self)\<rparr>
           in if 2 \<le> t_unacked_segs self then self\<lparr>t_needs_ack := True, t_unacked_segs := 0\<rparr>
              else arm_delayed_ack self now
      else self\<lparr>t_needs_ack := True\<rparr>)"

definition receive_data :: "tcb \<Rightarrow> instant \<Rightarrow> seqnum \<Rightarrow> bytes \<Rightarrow> bool \<Rightarrow> tcb option" where
  "receive_data self now seg_seq payload ce =
     (if payload = [] then Some self
      else do {
        let rcv_nxt_before = t_rcv_nxt self;
        let (data_seq, dat) = trim_left (t_rcv_nxt self) seg_seq payload;
        let reasm_before = buffered (t_reasm self);
        (in_order, no_room, self) \<leftarrow> accept_data self data_seq dat;
        let accepted = (t_rcv_nxt self \<noteq> rcv_nxt_before \<or> reasm_before < buffered (t_reasm self));
        let self = (if ecn_enabled self \<and> ce \<and> accepted
                    then self\<lparr>t_accecn_cep := t_accecn_cep self + 1\<rparr> else self);
        Some (schedule_ack self now (in_order \<and> \<not> no_room \<and> reasm_before = 0))
      })"

section \<open>Step (7): the peer's FIN\<close>

definition receive_fin :: "tcb \<Rightarrow> seqnum \<Rightarrow> tcb" where
  "receive_fin self fin_at =
     (let self = (if fin_at = t_rcv_nxt self \<and> \<not> t_peer_fin_seen self
                  then self\<lparr>t_rcv_nxt := seq_add (t_rcv_nxt self) 1, t_peer_fin_seen := True\<rparr>
                  else if \<not> t_peer_fin_seen self then self\<lparr>t_pending_fin := Some fin_at\<rparr> else self)
      in self\<lparr>t_needs_ack := True\<rparr>)"

definition consume_pending_fin :: "tcb \<Rightarrow> tcb" where
  "consume_pending_fin self =
     (case t_pending_fin self of
        Some fin_at \<Rightarrow>
          if fin_at = t_rcv_nxt self \<and> \<not> t_peer_fin_seen self
          then self\<lparr>t_rcv_nxt := seq_add (t_rcv_nxt self) 1, t_peer_fin_seen := True,
                 t_pending_fin := None, t_needs_ack := True\<rparr>
          else self
      | None \<Rightarrow> self)"

text \<open>Steps (6) to (8).\<close>

definition data_and_fin :: "tcb \<Rightarrow> instant \<Rightarrow> bytes \<Rightarrow> bool \<Rightarrow> tcb option" where
  "data_and_fin self now tcp ce = do {
     self \<leftarrow> receive_data self now (tcp_seq tcp) (tcp_payload tcp) ce;
     let self = (if flag_has (tcp_flags_of tcp) FIN
                 then receive_fin self (seq_add (tcp_seq tcp) (length (tcp_payload tcp))) else self);
     Some (recompute_closing_state (consume_pending_fin self) now)
   }"

section \<open>SYN-SENT\<close>

text \<open>The options of the peer's SYN or SYN-ACK.\<close>

definition negotiate :: "cc_overrides \<Rightarrow> tcb \<Rightarrow> bytes \<Rightarrow> tcb" where
  "negotiate ov self tcp =
     (let self = self\<lparr>t_snd_mss := min (case mss_option tcp of Some m \<Rightarrow> m | None \<Rightarrow> MSS_DEFAULT) (t_mss_advertise self)\<rparr>;
          self = self\<lparr>t_cc := cc_new ov (t_cc_kind self) (t_snd_mss self),
                   t_sack_enabled := sack_permitted tcp\<rparr>;
          self = (case window_scale tcp of
                    Some peer \<Rightarrow> self\<lparr>t_window_scaling := True, t_snd_wscale := peer, t_rcv_wscale := RCV_WSCALE\<rparr>
                  | None \<Rightarrow> self\<lparr>t_window_scaling := False, t_snd_wscale := 0, t_rcv_wscale := 0\<rparr>);
          self = (case timestamps tcp of
                    Some (tsval, _) \<Rightarrow> self\<lparr>t_ts_enabled := True, t_ts_recent := tsval\<rparr>
                  | None \<Rightarrow> self\<lparr>t_ts_enabled := False\<rparr>)
      in self\<lparr>t_snd_wnd := unat (tcp_window tcp), t_snd_wl1 := tcp_seq tcp\<rparr>)"

definition syn_sent_syn :: "cc_overrides \<Rightarrow> tcb \<Rightarrow> bytes \<Rightarrow> bool \<Rightarrow> tcb" where
  "syn_sent_syn ov self tcp ack_acceptable =
     (let seg_seq = tcp_seq tcp;
          self = self\<lparr>t_retransmit := False, t_irs := seg_seq, t_rcv_nxt := seq_add seg_seq 1,
                   t_rcv_adv := seq_add (seq_add seg_seq 1) (min RX_BUFFER 0xFFFF)\<rparr>;
          self = negotiate ov self tcp
      in if ack_acceptable
         then self\<lparr>t_snd_una := tcp_ack tcp, t_snd_wl2 := tcp_ack tcp, t_state := Established,
                t_rtx_deadline := None, t_needs_ack := True\<rparr>
         else self\<lparr>t_snd_wl2 := t_iss self, t_state := SynReceived, t_retransmit := True\<rparr>)"

definition on_segment_syn_sent :: "cc_overrides \<Rightarrow> tcb \<Rightarrow> bytes \<Rightarrow> tcb" where
  "on_segment_syn_sent ov self tcp =
     (let flags = tcp_flags_of tcp;
          seg_ack = tcp_ack tcp;
          ack_present = flag_has flags ACK;
          ack_acceptable = (ack_present \<and> seq_gt seg_ack (t_iss self) \<and> seq_le seg_ack (t_snd_nxt self))
      in if ack_present \<and> \<not> ack_acceptable
         then (if \<not> flag_has flags RST then self\<lparr>t_pending_reset := Some seg_ack\<rparr> else self)
         else if flag_has flags RST
         then (if ack_acceptable then self\<lparr>t_state := Closed, t_reset := True\<rparr> else self)
         else if flag_has flags SYN then syn_sent_syn ov self tcp ack_acceptable
         else self)"

section \<open>The segment handler\<close>

definition on_rst :: "tcb \<Rightarrow> instant \<Rightarrow> seqnum \<Rightarrow> tcb" where
  "on_rst self now seg_seq =
     (if seq_in_window self seg_seq
      then (if seg_seq = t_rcv_nxt self then self\<lparr>t_state := Closed, t_reset := True\<rparr>
            else challenge_ack self now)
      else self)"

definition on_syn :: "tcb \<Rightarrow> instant \<Rightarrow> seqnum \<Rightarrow> tcb" where
  "on_syn self now seg_seq =
     (if t_state self = SynReceived \<and> seg_seq = t_irs self then self\<lparr>t_snd_nxt := t_iss self\<rparr>
      else if seq_in_window self seg_seq then challenge_ack self now
      else self)"

definition paws_rejects :: "tcb \<Rightarrow> (u32 \<times> u32) option \<Rightarrow> bool" where
  "paws_rejects self seg_ts \<longleftrightarrow>
     (case seg_ts of Some (seg_tsval, _) \<Rightarrow> sint (seg_tsval - t_ts_recent self) < 0 | None \<Rightarrow> False)"

definition advance_ts_recent :: "tcb \<Rightarrow> seqnum \<Rightarrow> (u32 \<times> u32) option \<Rightarrow> tcb" where
  "advance_ts_recent self seg_seq seg_ts =
     (case seg_ts of
        Some (seg_tsval, _) \<Rightarrow> if seq_le seg_seq (t_rcv_nxt self) then self\<lparr>t_ts_recent := seg_tsval\<rparr> else self
      | None \<Rightarrow> self)"

definition seg_len :: "bytes \<Rightarrow> nat" where
  "seg_len tcp = length (tcp_payload tcp) + (if flag_has (tcp_flags_of tcp) SYN then 1 else 0)
     + (if flag_has (tcp_flags_of tcp) FIN then 1 else 0)"

text \<open>Steps (4) to (8), for an acceptable segment.\<close>

definition on_acceptable :: "tcb \<Rightarrow> instant \<Rightarrow> bytes \<Rightarrow> (u32 \<times> u32) option \<Rightarrow> bool \<Rightarrow> tcb option" where
  "on_acceptable self now tcp seg_ts ce =
     (if \<not> flag_has (tcp_flags_of tcp) ACK then Some self
      else do {
        (go_on, self) \<leftarrow> ack_step self now tcp (map_option snd seg_ts);
        if go_on then data_and_fin self now tcp ce else Some self
      })"

definition on_segment :: "cc_overrides \<Rightarrow> tcb \<Rightarrow> instant \<Rightarrow> bytes \<Rightarrow> bool \<Rightarrow> tcb option" where
  "on_segment ov self now tcp ce =
     (if t_state self = SynSent then Some (on_segment_syn_sent ov self tcp)
      else let seg_seq = tcp_seq tcp;
               flags = tcp_flags_of tcp;
               seg_ts = (if t_ts_enabled self then timestamps tcp else None)
           in if flag_has flags RST then Some (on_rst self now seg_seq)
              else if t_state self = TimeWait then Some (arm_time_wait (self\<lparr>t_needs_ack := True\<rparr>) now)
              else if flag_has flags SYN then Some (on_syn self now seg_seq)
              else if paws_rejects self seg_ts then Some (self\<lparr>t_needs_ack := True\<rparr>)
              else if \<not> segment_acceptable self seg_seq (seg_len tcp) then Some (self\<lparr>t_needs_ack := True\<rparr>)
              else on_acceptable (advance_ts_recent self seg_seq seg_ts) now tcp seg_ts ce)"

end
