(* ===== verification/Tcb_Output.thy ===== *)
theory Tcb_Output
  imports Tcb_Input
begin

text \<open>
  \<open>tcb.rs\<close>, the outbound path and the timers: \<open>poll_transmit\<close>,
  \<open>transmit_data_or_fin\<close> in the order of its numbered steps, \<open>poll_at\<close> and
  \<open>on_timer\<close>. The outer \<open>option\<close> is a panic; the inner one is the datagram, if any.
\<close>

type_synonym emission = "(bytes option \<times> tcb) option"

text \<open>A segment built in a step is the step's result.\<close>

definition emit :: "(bytes \<times> tcb) option \<Rightarrow> (tcb \<Rightarrow> tcb) \<Rightarrow> emission" where
  "emit built after = map_option (\<lambda>(seg, self). (Some seg, after self)) built"

text \<open>\<open>peek\<close> of \<open>n\<close> bytes at an offset into a zeroed vector.\<close>

definition peek_bytes :: "tcb \<Rightarrow> nat \<Rightarrow> nat \<Rightarrow> bytes" where
  "peek_bytes self off n = fst (rb_peek (t_tx self) off (replicate n 0))"

section \<open>Data and FIN\<close>

text \<open>Step 0: the oldest unacknowledged segment, or the FIN.\<close>

definition transmit_oldest :: "tcb \<Rightarrow> instant \<Rightarrow> nat \<Rightarrow> emission" where
  "transmit_oldest self now inflight =
     (if t_retransmit self \<and> 0 < inflight
      then let self = self\<lparr>t_retransmit := False\<rparr>;
               n = min (min inflight (rb_len (t_tx self))) (max_segment_payload self)
           in if 0 < n
              then let psh = (n = rb_len (t_tx self))
                   in emit (build self (t_snd_una self) (if psh then PSH else 0) (peek_bytes self 0 n))
                        (\<lambda>self. start_rtx self now)
              else (case t_fin_seq self of
                      Some fin_seq \<Rightarrow>
                        if \<not> t_fin_acked self \<and> t_snd_una self = fin_seq
                        then emit (build self fin_seq FIN []) (\<lambda>self. start_rtx self now)
                        else Some (None, self)
                    | None \<Rightarrow> Some (None, self))
      else Some (None, self))"

text \<open>Step 0.5: RFC 6675 selective retransmit.\<close>

definition transmit_hole :: "tcb \<Rightarrow> instant \<Rightarrow> nat \<Rightarrow> emission" where
  "transmit_hole self now max_payload =
     (if t_sack_enabled self \<and> in_recovery (t_scoreboard self)
      then let smss = unat (t_snd_mss self);
               pipe = sb_pipe (t_scoreboard self) (t_snd_una self) (t_snd_nxt self) smss
           in if pipe < cc_cwnd (t_cc self)
              then (case next_seg (t_scoreboard self) (t_snd_una self) (t_snd_nxt self) smss of
                      Some (seq, is_rescue) \<Rightarrow>
                        let off = offset_from seq (t_snd_una self);
                            hole = unsacked_run_len (t_scoreboard self) seq (t_snd_nxt self);
                            avail = rb_len (t_tx self) - off;
                            n = min (min hole max_payload) avail
                        in if 0 < n
                           then let psh = (off + n = rb_len (t_tx self))
                                in emit (build self seq (if psh then PSH else 0) (peek_bytes self off n))
                                     (\<lambda>self.
                                        let sb = mark_rexmit (t_scoreboard self) seq (seq_add seq n);
                                            sb = (if is_rescue then set_rescue_done sb else sb)
                                        in start_rtx (self\<lparr>t_scoreboard := sb, t_retransmitted := True,
                                             t_rtt_sample := None\<rparr>) now)
                           else Some (None, self)
                    | None \<Rightarrow> Some (None, self))
              else Some (None, self)
      else Some (None, self))"

text \<open>The room for new data, and the pacing gate in front of it.\<close>

definition tx_pipe :: "tcb \<Rightarrow> nat \<Rightarrow> nat" where
  "tx_pipe self inflight =
     (if t_sack_enabled self
      then sb_pipe (t_scoreboard self) (t_snd_una self) (t_snd_nxt self) (unat (t_snd_mss self))
      else inflight)"

definition pace_gate :: "tcb \<Rightarrow> instant \<Rightarrow> nat \<Rightarrow> nat \<Rightarrow> nat \<Rightarrow> nat \<times> tcb" where
  "pace_gate self now allowed unsent_data max_payload =
     (case cc_pacing_rate (t_cc self) of
        Some rate \<Rightarrow>
          let self = self\<lparr>t_pace_deadline := None\<rparr>;
              (paced, self) = pace_allowance self now rate max_payload;
              self = (if paced < allowed \<and> 0 < unsent_data then arm_pace self now rate paced else self)
          in (min allowed paced, self)
      | None \<Rightarrow> (allowed, self))"

text \<open>Bookkeeping after a segment of new data has been built.\<close>

definition sent_new_data :: "tcb \<Rightarrow> instant \<Rightarrow> nat \<Rightarrow> nat \<Rightarrow> bool \<Rightarrow> tcb" where
  "sent_new_data self now n inflight app_limited =
     (let self = self\<lparr>t_snd_nxt := seq_add (t_snd_nxt self) n\<rparr>;
          self = (if t_rtt_sample self = None \<and> \<not> t_retransmitted self
                  then self\<lparr>t_rtt_sample := Some (now, t_snd_nxt self)\<rparr> else self);
          self = (if cc_pacing_rate (t_cc self) \<noteq> None
                  then self\<lparr>t_pace_tokens := t_pace_tokens self - n\<rparr> else self);
          self = self\<lparr>t_cc := cc_on_transmit (t_cc self) now (t_snd_nxt self) n inflight app_limited\<rparr>
      in start_rtx self now)"

text \<open>Step 1: new data, or a zero-window probe.\<close>

definition transmit_new :: "tcb \<Rightarrow> instant \<Rightarrow> nat \<Rightarrow> nat \<Rightarrow> emission" where
  "transmit_new self now inflight max_payload =
     (let sent_data = min inflight (rb_len (t_tx self));
          unsent_data = rb_len (t_tx self) - sent_data;
          cwnd_room = cc_cwnd (t_cc self) - tx_pipe self inflight;
          rwnd_room = t_snd_wnd self - inflight;
          (allowed, self) = pace_gate self now (min cwnd_room rwnd_room) unsent_data max_payload
      in if 0 < allowed
         then let n = min (min allowed unsent_data) max_payload
              in if 0 < n
                 then let last_buffered = (sent_data + n = rb_len (t_tx self));
                          app_limited = (n = unsent_data \<and> n < min cwnd_room rwnd_room)
                      in emit (build self (t_snd_nxt self) (if last_buffered then PSH else 0)
                                 (peek_bytes self sent_data n))
                           (\<lambda>self. sent_new_data self now n inflight app_limited)
                 else Some (None, self)
         else if 0 < unsent_data \<and> inflight = 0 \<and> rwnd_room = 0
         then let self = arm_persist self now
              in if t_send_probe self
                 then let self = self\<lparr>t_send_probe := False\<rparr>
                      in emit (build self (t_snd_una self) 0 (peek_bytes self 0 1)) id
                 else Some (None, self)
         else Some (None, self))"

text \<open>Step 2: the FIN, once all data is sent.\<close>

definition transmit_fin :: "tcb \<Rightarrow> instant \<Rightarrow> seqnum \<Rightarrow> emission" where
  "transmit_fin self now data_end =
     (if t_fin_queued self \<and> \<not> t_fin_acked self \<and> t_snd_nxt self = data_end
      then emit (build self data_end FIN [])
             (\<lambda>self.
                let self = start_rtx (self\<lparr>t_fin_seq := Some data_end, t_snd_nxt := seq_add data_end 1\<rparr>) now
                in self\<lparr>t_state := (case t_state self of
                          Established \<Rightarrow> FinWait1 | CloseWait \<Rightarrow> LastAck | other \<Rightarrow> other)\<rparr>)
      else Some (None, self))"

text \<open>The first step that has something to send wins.\<close>

definition or_else :: "emission \<Rightarrow> (tcb \<Rightarrow> emission) \<Rightarrow> emission" where
  "or_else first rest = do {
     (seg, self) \<leftarrow> first;
     if seg \<noteq> None then Some (seg, self) else rest self
   }"

definition transmit_data_or_fin :: "tcb \<Rightarrow> instant \<Rightarrow> emission" where
  "transmit_data_or_fin self now =
     (let inflight = offset_from (t_snd_nxt self) (t_snd_una self);
          data_end = seq_add (t_snd_una self) (rb_len (t_tx self));
          max_payload = max_segment_payload self
      in or_else (transmit_oldest self now inflight) (\<lambda>self.
         or_else (transmit_hole self now max_payload) (\<lambda>self.
         or_else (transmit_new self now inflight max_payload) (\<lambda>self.
         transmit_fin self now data_end))))"

section \<open>\<open>poll_transmit\<close>\<close>

definition transmit_owed_ack :: "tcb \<Rightarrow> emission" where
  "transmit_owed_ack self =
     (case take_needs_ack self of
        (True, self) \<Rightarrow> emit (build self (t_snd_nxt self) 0 []) id
      | (False, self) \<Rightarrow> Some (None, self))"

definition transmit_syn_sent :: "tcb \<Rightarrow> instant \<Rightarrow> emission" where
  "transmit_syn_sent self now =
     (if t_snd_nxt self = t_iss self
      then do {
        seg \<leftarrow> build_syn self;
        Some (Some seg, start_rtx (self\<lparr>t_snd_nxt := seq_add (t_iss self) 1\<rparr>) now)
      }
      else if t_retransmit self
      then do {
        seg \<leftarrow> build_syn (self\<lparr>t_retransmit := False\<rparr>);
        Some (Some seg, self\<lparr>t_retransmit := False\<rparr>)
      }
      else Some (None, self))"

definition transmit_syn_received :: "tcb \<Rightarrow> instant \<Rightarrow> emission" where
  "transmit_syn_received self now =
     (if t_snd_nxt self = t_iss self
      then emit (build self (t_iss self) SYN [])
             (\<lambda>self. start_rtx (self\<lparr>t_snd_nxt := seq_add (t_iss self) 1\<rparr>) now)
      else if t_retransmit self
      then emit (build (self\<lparr>t_retransmit := False\<rparr>) (t_iss self) SYN []) id
      else transmit_owed_ack self)"

definition poll_transmit :: "tcb \<Rightarrow> instant \<Rightarrow> emission" where
  "poll_transmit self now =
     (let self = self\<lparr>t_cur_tsval := word_of_nat now\<rparr>
      in case t_pending_reset self of
           Some seq \<Rightarrow>
             let self = self\<lparr>t_pending_reset := None\<rparr>
             in do { seg \<leftarrow> build_rst self seq; Some (Some seg, self) }
         | None \<Rightarrow>
             (case t_state self of
                Closed \<Rightarrow> Some (None, self)
              | Listen \<Rightarrow> Some (None, self)
              | SynSent \<Rightarrow> transmit_syn_sent self now
              | SynReceived \<Rightarrow> transmit_syn_received self now
              | TimeWait \<Rightarrow> transmit_owed_ack self
              | _ \<Rightarrow> or_else (transmit_data_or_fin self now) transmit_owed_ack))"

section \<open>Timers\<close>

definition tcb_deadlines :: "tcb \<Rightarrow> instant list" where
  "tcb_deadlines self = List.map_filter id [t_rtx_deadline self, t_persist_deadline self,
     t_time_wait_deadline self, t_delayed_ack_deadline self, t_pace_deadline self]"

definition tcb_poll_at :: "tcb \<Rightarrow> instant option" where
  "tcb_poll_at self = (if tcb_deadlines self = [] then None else Some (Min (set (tcb_deadlines self))))"

definition rto_syn_sent :: "tcb \<Rightarrow> instant \<Rightarrow> tcb option" where
  "rto_syn_sent self now =
     (let self = self\<lparr>t_syn_retries := t_syn_retries self + 1\<rparr>
      in if MAX_SYN_RETRIES \<le> t_syn_retries self
         then Some (self\<lparr>t_state := Closed, t_rtx_deadline := None\<rparr>)
         else do {
           rtt \<leftarrow> rtt_on_timeout (t_rtt self);
           Some (restart_rtx (self\<lparr>t_retransmit := True, t_rtt := rtt\<rparr>) now)
         })"

definition rto_fired :: "tcb \<Rightarrow> instant \<Rightarrow> tcb option" where
  "rto_fired self now = do {
     let flight = offset_from (t_snd_nxt self) (t_snd_una self);
     rtt \<leftarrow> rtt_on_timeout (t_rtt self);
     let self = self\<lparr>t_cc := cc_on_rto (t_cc self) now flight, t_rtt := rtt\<rparr>;
     let self = (if t_sack_enabled self then self\<lparr>t_scoreboard := sb_on_rto (t_scoreboard self)\<rparr> else self);
     Some (restart_rtx (self\<lparr>t_retransmit := True, t_retransmitted := True, t_rtt_sample := None,
       t_gbn_recover := Some (t_snd_nxt self)\<rparr>) now)
   }"

definition timer_rtx :: "tcb \<Rightarrow> instant \<Rightarrow> tcb option" where
  "timer_rtx self now =
     (case t_rtx_deadline self of
        Some d \<Rightarrow> if d \<le> now \<and> t_state self = SynSent then rto_syn_sent self now
                  else if d \<le> now then rto_fired self now else Some self
      | None \<Rightarrow> Some self)"

definition timer_persist :: "tcb \<Rightarrow> instant \<Rightarrow> tcb" where
  "timer_persist self now =
     (case t_persist_deadline self of
        Some d \<Rightarrow>
          if d \<le> now
          then let self = self\<lparr>t_send_probe := True, t_persist_backoff := min (t_persist_backoff self * 2) PERSIST_MAX_MILLIS\<rparr>
               in self\<lparr>t_persist_deadline := Some (plus_millis now (t_persist_backoff self))\<rparr>
          else self
      | None \<Rightarrow> self)"

definition timer_time_wait :: "tcb \<Rightarrow> instant \<Rightarrow> tcb" where
  "timer_time_wait self now =
     (case t_time_wait_deadline self of
        Some d \<Rightarrow> if d \<le> now then self\<lparr>t_state := Closed\<rparr> else self
      | None \<Rightarrow> self)"

definition timer_delayed_ack :: "tcb \<Rightarrow> instant \<Rightarrow> tcb" where
  "timer_delayed_ack self now =
     (case t_delayed_ack_deadline self of
        Some d \<Rightarrow> if d \<le> now then self\<lparr>t_needs_ack := True, t_delayed_ack_deadline := None\<rparr> else self
      | None \<Rightarrow> self)"

definition tcb_on_timer :: "tcb \<Rightarrow> instant \<Rightarrow> tcb option" where
  "tcb_on_timer self now =
     map_option (\<lambda>self. timer_delayed_ack (timer_time_wait (timer_persist self now) now) now)
       (timer_rtx self now)"

end
