(* ===== verification/Tcb_Receive.thy ===== *)
theory Tcb_Receive
  imports Tcb_Output
begin

text \<open>
  The receive path of the connection: the invariant tying \<open>RCV.NXT\<close>, the advertised right
  edge, the receive ring and the reassembly buffer together, and what \<open>receive_data\<close> delivers.
  The central fact is a budget: every buffered run ends within the free space of the ring, so
  the drain loop always finds room.
\<close>

section \<open>Moving the base of the reassembly buffer\<close>

lemma reasm_inv_mono: "reasm_inv c z n r \<Longrightarrow> z' \<le> z \<Longrightarrow> n \<le> n' \<Longrightarrow> n' < 2147483648 \<Longrightarrow> reasm_inv c z' n' r"
  by (auto simp: reasm_inv_def wf_segs_def)

lemma reasm_inv_nil:
  "reasm_inv c z n r \<Longrightarrow> reasm_runs r = [] \<Longrightarrow> n' < 2147483648 \<Longrightarrow> reasm_inv c' z' n' r"
  by (simp add: reasm_inv_def wf_segs_def)

lemma seg_lo_rebase:
  assumes "offset_from nxt c \<le> seg_lo c x"
  shows "seg_lo nxt x = seg_lo c x - offset_from nxt c"
  using offset_from_rebase[of "seg_start x" nxt c] assms by simp

lemma reasm_inv_rebase:
  assumes "reasm_inv c z n r" and "offset_from nxt c \<le> z"
  shows "reasm_inv nxt (z - offset_from nxt c) (n - offset_from nxt c) r"
proof -
  let ?m = "offset_from nxt c"
  have lo: "seg_lo nxt x = seg_lo c x - ?m \<and> ?m \<le> seg_lo c x" if "x \<in> set (reasm_runs r)" for x
    using seg_lo_rebase[of nxt c x] assms that by (auto simp: reasm_inv_def wf_segs_def)
  have "sorted_wrt (\<lambda>x y. seg_hi c x < seg_lo c y) (reasm_runs r)"
    using assms(1) by (simp add: reasm_inv_def wf_segs_def)
  then have "sorted_wrt (\<lambda>x y. seg_hi nxt x < seg_lo nxt y) (reasm_runs r)"
  proof (rule sorted_wrt_mono_rel[rotated])
    fix x y
    assume "x \<in> set (reasm_runs r)" "y \<in> set (reasm_runs r)" "seg_hi c x < seg_lo c y"
    then show "seg_hi nxt x < seg_lo nxt y" using lo[of x] lo[of y] by linarith
  qed
  moreover have "\<forall>x \<in> set (reasm_runs r). seg_data x \<noteq> [] \<and> z - ?m \<le> seg_lo nxt x \<and> seg_hi nxt x \<le> n - ?m"
  proof
    fix x
    assume x: "x \<in> set (reasm_runs r)"
    then have "seg_data x \<noteq> []" "z \<le> seg_lo c x" "seg_hi c x \<le> n"
      using assms(1) by (auto simp: reasm_inv_def wf_segs_def)
    then show "seg_data x \<noteq> [] \<and> z - ?m \<le> seg_lo nxt x \<and> seg_hi nxt x \<le> n - ?m" using lo[OF x] by auto
  qed
  moreover have "n < 2147483648" "reasm_bytes r = run_total (reasm_runs r)"
    using assms(1) by (simp_all add: reasm_inv_def wf_segs_def)
  ultimately show ?thesis unfolding reasm_inv_def wf_segs_def by auto
qed

lemma held_upper: "reasm_inv c z n r \<Longrightarrow> n \<le> k \<Longrightarrow> reasm_held c r k = None"
proof (rule ccontr)
  assume a: "reasm_inv c z n r" "n \<le> k" "reasm_held c r k \<noteq> None"
  then have "k \<in> dom (content c (reasm_runs r))" by (auto simp: reasm_held_def)
  then obtain x where "x \<in> set (reasm_runs r)" "k < seg_hi c x" unfolding dom_content by auto
  then show False using a(1,2) by (auto simp: reasm_inv_def wf_segs_def)
qed

lemma content_rebase:
  "\<forall>x \<in> set xs. offset_from nxt c \<le> seg_lo c x \<Longrightarrow> content nxt xs k = content c xs (offset_from nxt c + k)"
proof (induction xs)
  case (Cons x xs)
  then have "seg_lo nxt x = seg_lo c x - offset_from nxt c" "offset_from nxt c \<le> seg_lo c x"
    using seg_lo_rebase[of nxt c x] by simp_all
  then have "bytes_at (seg_lo nxt x) (seg_data x) k = bytes_at (seg_lo c x) (seg_data x) (offset_from nxt c + k)"
    by (auto simp: bytes_at_def add.commute)
  then show ?case using Cons by (auto simp: map_add_def split: option.split)
qed simp

lemma held_rebase:
  assumes "reasm_inv c z n r" and "offset_from nxt c \<le> z"
  shows "reasm_held nxt r k = reasm_held c r (offset_from nxt c + k)"
  unfolding reasm_held_def
  by (rule content_rebase) (use assms in \<open>auto simp: reasm_inv_def wf_segs_def\<close>)

lemma map_upt_append: "a \<le> b \<Longrightarrow> b \<le> c \<Longrightarrow> map f [a ..< b] @ map f [b ..< c] = map f [a ..< (c :: nat)]"
  using upt_add_eq_append[of a b "c - b"] by (simp flip: map_append)

section \<open>The drain loop\<close>

text \<open>What the ring gains is the stream, up to the first byte that is missing.\<close>

lemma drain_runs_ok:
  assumes "reasm_inv c (offset_from nxt c) n rs" and "offset_from nxt c + rb_free rx = n" and "rb_inv rx"
    and "reasm_held c rs \<subseteq>\<^sub>m (Some \<circ> st)"
  shows "\<exists>rs' rx' nxt'. drain_runs rs rx nxt = Some (rs', rx', nxt')
    \<and> reasm_inv c (Suc (offset_from nxt' c)) n rs' \<and> offset_from nxt' c + rb_free rx' = n \<and> rb_inv rx'
    \<and> rb_capacity rx' = rb_capacity rx \<and> offset_from nxt c \<le> offset_from nxt' c
    \<and> reasm_held c rs' \<subseteq>\<^sub>m (Some \<circ> st)
    \<and> rb_buf rx' = rb_buf rx @ map st [offset_from nxt c ..< offset_from nxt' c]"
  using assms
proof (induction rs rx nxt rule: drain_runs.induct)
  case (1 rs rx nxt)
  obtain run rs' where p: "pop_contiguous rs nxt = Some (run, rs')" "reasm_held c rs' \<subseteq>\<^sub>m (Some \<circ> st)"
    "run = map st [offset_from nxt c ..< offset_from nxt c + length run]"
    "reasm_inv c (Suc (offset_from nxt c + length run)) n rs'"
    and d: "dom (reasm_held c rs') = dom (reasm_held c rs) - {offset_from nxt c ..< offset_from nxt c + length run}"
    using rq.pop_delivers_stream[OF 1(2,5)] by blast
  obtain dat rs2 where p2: "pop_contiguous rs nxt = Some (dat, rs2)"
    "reasm_held c rs = bytes_at (offset_from nxt c) dat ++ reasm_held c rs2"
    using rq.pop_law[OF 1(2)] by blast
  show ?case
  proof (cases "run = []")
    case True
    then show ?thesis using p 1(2-5) by (subst drain_runs.simps) simp
  next
    case False
    let ?l = "length run"
    let ?k = "offset_from nxt c + ?l - 1"
    have l0: "0 < ?l" using False by simp
    then have "offset_from nxt c \<le> ?k" "?k < offset_from nxt c + ?l" by linarith+
    then have "bytes_at (offset_from nxt c) run ?k \<noteq> None" unfolding bytes_at_def by simp
    then have "reasm_held c rs ?k \<noteq> None" using p2 p(1) by (auto simp: map_add_def split: option.splits)
    then have "?k < n" using held_upper[OF 1(2), of ?k] by (meson not_le)
    then have le: "offset_from nxt c + ?l \<le> n" using l0 by linarith
    then have fit: "min ?l (rb_free rx) = ?l" using 1(3) by simp
    define rx' where "rx' = rx\<lparr>rb_buf := rb_buf rx @ run\<rparr>"
    have w: "rb_write rx run = (rx', ?l)" unfolding rb_write_def fit by (simp add: rx'_def)
    have n31: "n < 2147483648" using 1(2) by (simp add: reasm_inv_def wf_segs_def)
    have o: "offset_from (seq_add nxt ?l) c = offset_from nxt c + ?l"
      using offset_from_add[of nxt c ?l] le n31 by simp
    have f: "offset_from nxt c + ?l + rb_free rx' = n" "rb_inv rx'"
      using 1(3,4) le by (auto simp: rx'_def rb_free_def rb_inv_def)
    have i: "reasm_inv c (offset_from (seq_add nxt ?l) c) n rs'"
      using reasm_inv_mono[OF p(4)] n31 by (simp add: o)
    have e: "drain_runs rs rx nxt = drain_runs rs' rx' (seq_add nxt ?l)"
      using p(1) False w by (subst drain_runs.simps) simp
    have f': "offset_from (seq_add nxt ?l) c + rb_free rx' = n" using f(1) by (simp add: o)
    from 1(1)[OF p(1) refl False w[symmetric] less_irrefl i f' f(2) p(2)] obtain rs3 rx3 nxt3 where
      r: "drain_runs rs' rx' (seq_add nxt ?l) = Some (rs3, rx3, nxt3)" "reasm_inv c (Suc (offset_from nxt3 c)) n rs3"
      "offset_from nxt3 c + rb_free rx3 = n" "rb_inv rx3" "rb_capacity rx3 = rb_capacity rx'"
      "offset_from nxt c + ?l \<le> offset_from nxt3 c" "reasm_held c rs3 \<subseteq>\<^sub>m (Some \<circ> st)"
      "rb_buf rx3 = rb_buf rx' @ map st [offset_from nxt c + ?l ..< offset_from nxt3 c]"
      unfolding o by blast
    have "rb_buf rx3 = rb_buf rx @ run @ map st [offset_from nxt c + ?l ..< offset_from nxt3 c]"
      using r(8) by (simp add: rx'_def)
    also have "run @ map st [offset_from nxt c + ?l ..< offset_from nxt3 c]
        = map st [offset_from nxt c ..< offset_from nxt3 c]"
      by (subst p(3)) (rule map_upt_append[OF _ r(6)], simp)
    finally have "rb_buf rx3 = rb_buf rx @ map st [offset_from nxt c ..< offset_from nxt3 c]" .
    moreover have "rb_capacity rx3 = rb_capacity rx" "offset_from nxt c \<le> offset_from nxt3 c"
      using r(5,6) by (simp_all add: rx'_def)
    ultimately show ?thesis using e r(1-4,7) by metis
  qed
qed

section \<open>The invariant of the receive side\<close>

text \<open>
  \<open>adv_near\<close>: the advertised edge is at most one buffer ahead of \<open>RCV.NXT\<close>, or, after a
  peer has sent past it, at most one buffer and a FIN behind. The reassembly buffer is held to
  the free space of the ring; before the peer's FIN its runs leave a gap at \<open>RCV.NXT\<close>.
\<close>

definition adv_near :: "nat \<Rightarrow> bool" where
  "adv_near d \<longleftrightarrow> d \<le> 262144 \<or> 4294705150 \<le> d"

definition recv_inv :: "tcb \<Rightarrow> bool" where
  "recv_inv self \<longleftrightarrow> rb_inv (t_rx self) \<and> rb_capacity (t_rx self) = RX_BUFFER
     \<and> reasm_inv (t_rcv_nxt self) (if t_peer_fin_seen self then 0 else 1) (rb_free (t_rx self)) (t_reasm self)
     \<and> (\<not> t_sack_enabled self \<longrightarrow> reasm_runs (t_reasm self) = [])
     \<and> adv_near (offset_from (t_rcv_adv self) (t_rcv_nxt self))"

text \<open>What the receive side reads and writes.\<close>

definition recv_view :: "tcb \<Rightarrow> seqnum \<times> seqnum \<times> ring_buffer \<times> reasm \<times> bool \<times> bool \<times> seqnum option" where
  "recv_view self = (t_rcv_nxt self, t_rcv_adv self, t_rx self, t_reasm self, t_sack_enabled self,
     t_peer_fin_seen self, t_pending_fin self)"

lemma recv_inv_view: "recv_view a = recv_view b \<Longrightarrow> recv_inv a = recv_inv b"
  by (simp add: recv_view_def recv_inv_def)

lemma rb_free_le: "rb_inv rx \<Longrightarrow> rb_capacity rx = RX_BUFFER \<Longrightarrow> rb_free rx \<le> 262144 \<and> rb_len rx + rb_free rx = 262144"
  by (simp add: rb_inv_def rb_free_def rb_len_def RX_BUFFER_def)

text \<open>Data accepted in order: the ring gains a block of the stream, \<open>RCV.NXT\<close> its length.\<close>

lemma accept_in_order:
  assumes inv: "recv_inv self" and "t_rcv_nxt self = c" and "dat \<noteq> []"
    and held: "\<And>k b. min (length dat) (rb_free (t_rx self)) \<le> k \<Longrightarrow> reasm_held c (t_reasm self) k = Some b \<Longrightarrow> b = st k"
    and dat: "\<And>k. k < min (length dat) (rb_free (t_rx self)) \<Longrightarrow> dat ! k = st k"
  shows "\<exists>in_order no_room self' m. accept_data self c dat = Some (in_order, no_room, self')
    \<and> self' = self\<lparr>t_rx := t_rx self', t_reasm := t_reasm self', t_rcv_nxt := t_rcv_nxt self'\<rparr>
    \<and> m = offset_from (t_rcv_nxt self') c \<and> m \<le> rb_free (t_rx self) \<and> rb_inv (t_rx self')
    \<and> rb_capacity (t_rx self') = RX_BUFFER \<and> m + rb_free (t_rx self') = rb_free (t_rx self)
    \<and> reasm_inv (t_rcv_nxt self') 1 (rb_free (t_rx self')) (t_reasm self')
    \<and> (\<not> t_sack_enabled self \<longrightarrow> reasm_runs (t_reasm self') = [])
    \<and> rb_buf (t_rx self') = rb_buf (t_rx self) @ map st [0 ..< m]
    \<and> reasm_held (t_rcv_nxt self') (t_reasm self') \<subseteq>\<^sub>m (\<lambda>k. Some (st (m + k)))
    \<and> min (length dat) (rb_free (t_rx self)) \<le> m"
proof -
  define n where "n = min (length dat) (rb_free (t_rx self))"
  define rx where "rx = (t_rx self)\<lparr>rb_buf := rb_buf (t_rx self) @ take n dat\<rparr>"
  let ?F = "rb_free (t_rx self)" and ?nx = "seq_add c n" and ?z = "if t_peer_fin_seen self then 0 else (1::nat)"
  have rxi: "rb_inv (t_rx self)" "rb_capacity (t_rx self) = RX_BUFFER"
    and ri: "reasm_inv c ?z ?F (t_reasm self)"
    using inv assms(2) by (simp_all add: recv_inv_def)
  note F = rb_free_le[OF rxi]
  have n: "n \<le> ?F" "n \<le> length dat" by (simp_all add: n_def)
  have o: "offset_from ?nx c = n" using offset_from_add[of c c n] n F by simp
  have w: "rb_write (t_rx self) dat = (rx, n)" by (simp add: rb_write_def n_def rx_def Let_def)
  have rx: "rb_inv rx" "rb_capacity rx = RX_BUFFER" "n + rb_free rx = ?F"
    using rxi n F by (auto simp: rx_def rb_inv_def rb_free_def rb_len_def)
  have "take n dat = map st [0 ..< n]"
    by (rule nth_equalityI) (use n(2) dat in \<open>simp_all add: n_def\<close>)
  then have buf: "rb_buf rx = rb_buf (t_rx self) @ map st [0 ..< n]" by (simp add: rx_def)
  show ?thesis
  proof (cases "t_sack_enabled self")
    case False
    then have nil: "reasm_runs (t_reasm self) = []" using inv by (simp add: recv_inv_def)
    then have "reasm_inv ?nx 1 (rb_free rx) (t_reasm self)"
      using reasm_inv_nil[OF ri] rx(3) F by simp
    then show ?thesis using False assms(2,3) w rx n nil buf o
      by (auto simp: accept_data_def Let_def reasm_held_def n_def[symmetric]
          intro!: exI[of _ "self\<lparr>t_rx := rx, t_rcv_nxt := ?nx\<rparr>"] exI[of _ n])
  next
    case True
    have "offset_from ?nx c < 2147483648" using o n F by simp
    from rq.disc_law[OF ri this] obtain rs where
      rs: "discard_below (t_reasm self) ?nx = Some rs" "reasm_inv c (max ?z (offset_from ?nx c)) ?F rs"
        "reasm_held c rs = reasm_held c (t_reasm self) |` {offset_from ?nx c ..}"
      by blast
    have ri2: "reasm_inv c (offset_from ?nx c) ?F rs"
      using reasm_inv_mono[OF rs(2) max.cobounded2 order_refl] F by simp
    have h2: "reasm_held c rs \<subseteq>\<^sub>m (Some \<circ> st)"
      using held unfolding rs(3) o by (auto simp: map_le_def restrict_map_def n_def split: if_splits)
    have f2: "offset_from ?nx c + rb_free rx = ?F" using o rx(3) by simp
    from drain_runs_ok[OF ri2 f2 rx(1) h2] obtain rs' rx' nxt' where
      d: "drain_runs rs rx ?nx = Some (rs', rx', nxt')" "reasm_inv c (Suc (offset_from nxt' c)) ?F rs'"
        "offset_from nxt' c + rb_free rx' = ?F" "rb_inv rx'" "rb_capacity rx' = rb_capacity rx"
        "n \<le> offset_from nxt' c" "reasm_held c rs' \<subseteq>\<^sub>m (Some \<circ> st)"
        "rb_buf rx' = rb_buf rx @ map st [n ..< offset_from nxt' c]"
      unfolding o by blast
    define m where "m = offset_from nxt' c"
    have "reasm_inv nxt' (Suc m - m) (?F - m) rs'"
      using reasm_inv_rebase[OF d(2), of nxt'] by (simp add: m_def)
    moreover have "?F - m = rb_free rx'" using d(3) by (simp add: m_def)
    ultimately have i: "reasm_inv nxt' 1 (rb_free rx') rs'" by simp
    have "reasm_held nxt' rs' k = reasm_held c rs' (m + k)" for k
      using held_rebase[OF d(2), of nxt' k] by (simp add: m_def)
    then have h: "reasm_held nxt' rs' \<subseteq>\<^sub>m (\<lambda>k. Some (st (m + k)))"
      using d(7) by (auto simp: map_le_def dom_def)
    have b: "rb_buf rx' = rb_buf (t_rx self) @ map st [0 ..< m]"
      using d(6,8) buf map_upt_append[of 0 n m st] by (simp add: m_def)
    have a: "accept_data self c dat = Some (True, n < length dat, self\<lparr>t_reasm := rs', t_rx := rx', t_rcv_nxt := nxt'\<rparr>)"
      using True assms(2,3) w rs(1) d(1) by (simp add: accept_data_def Let_def)
    have mm: "m + rb_free rx' = ?F" "n \<le> m" "m \<le> ?F" using d(3,6) by (simp_all add: m_def)
    show ?thesis
      by (rule exI[of _ True], rule exI[of _ "n < length dat"],
          rule exI[of _ "self\<lparr>t_reasm := rs', t_rx := rx', t_rcv_nxt := nxt'\<rparr>"], rule exI[of _ m])
        (use a i h b d(4,5) mm rx(2) True in \<open>simp add: n_def m_def[symmetric]\<close>)
  qed
qed

text \<open>An out-of-order segment near \<open>RCV.NXT\<close> only changes the reassembly buffer.\<close>

lemma right_edge_budget:
  assumes "recv_inv self" and "offset_from (t_rcv_adv self) (t_rcv_nxt self) \<le> 262144"
  shows "offset_from (reasm_right_edge self) (t_rcv_nxt self) \<le> rb_free (t_rx self)"
proof -
  let ?c = "t_rcv_nxt self"
  define b where "b = min (RX_BUFFER - (rb_len (t_rx self) + buffered (t_reasm self))) 0xFFFF"
  have f: "rb_len (t_rx self) + rb_free (t_rx self) = 262144"
    using rb_free_le assms(1) by (simp add: recv_inv_def)
  have b: "b \<le> rb_free (t_rx self)" "b \<le> 65535" using f by (auto simp: b_def RX_BUFFER_def)
  have o: "offset_from (seq_add ?c b) ?c = b" using offset_from_add[of ?c ?c b] b(2) by simp
  have "seq_le (seq_add ?c b) (t_rcv_adv self) \<longleftrightarrow> b \<le> offset_from (t_rcv_adv self) ?c"
    using seq_window(2)[of "seq_add ?c b" ?c "t_rcv_adv self"] o b(2) assms(2) by simp
  then show ?thesis using o b(1) unfolding reasm_right_edge_def Let_def seq_min_def b_def[symmetric] by auto
qed

lemma accept_out_of_order:
  assumes inv: "recv_inv self" and "t_rcv_nxt self = c" and "dat \<noteq> []"
    and "offset_from (t_rcv_adv self) c \<le> 262144"
    and x: "0 < offset_from data_seq c" "offset_from data_seq c \<le> 262144" "length dat \<le> 65535"
  shows "\<exists>self'. accept_data self data_seq dat = Some (False, False, self')
    \<and> self' = self\<lparr>t_reasm := t_reasm self'\<rparr> \<and> recv_inv self'
    \<and> (\<forall>st. reasm_held c (t_reasm self) \<subseteq>\<^sub>m (Some \<circ> st) \<longrightarrow>
          dat = map st [offset_from data_seq c ..< offset_from data_seq c + length dat] \<longrightarrow>
          reasm_held c (t_reasm self') \<subseteq>\<^sub>m (Some \<circ> st))"
proof (cases "t_sack_enabled self")
  case False
  have "data_seq \<noteq> c" using x(1) by auto
  then show ?thesis using False assms(2,3) inv by (auto simp: accept_data_def intro!: exI[of _ self])
next
  case True
  let ?z = "if t_peer_fin_seen self then 0 else (1::nat)" and ?F = "rb_free (t_rx self)"
  let ?e = "reasm_right_edge self" and ?r = "t_reasm self"
  have ne: "data_seq \<noteq> c" using x(1) by auto
  have i: "reasm_inv c ?z ?F ?r" using inv assms(2) by (simp add: recv_inv_def)
  have e: "offset_from ?e c \<le> ?F" using right_edge_budget[OF inv] assms(2,4) by simp
  have l: "offset_from data_seq c + length dat < 2147483648" using x by simp
  have z: "?z \<le> max (offset_from data_seq c) (offset_from c c)" using x(1) by simp
  have cc: "offset_from c c < 2147483648" by simp
  from rq.ins_law[OF i l cc e refl z refl] obtain r' where
    r: "reasm_insert ?r c ?e data_seq dat = Some r'" "reasm_inv c ?z ?F r'" by blast
  have "reasm_held c r' \<subseteq>\<^sub>m (Some \<circ> st)"
    if h: "reasm_held c ?r \<subseteq>\<^sub>m (Some \<circ> st)"
      and d: "dat = map st [offset_from data_seq c ..< offset_from data_seq c + length dat]" for st
  proof -
    have nth: "dat ! k = st (offset_from data_seq c + k)" if "k < length dat" for k
      by (subst d) (use that in simp)
    from rq.ins_keeps_stream[OF i h l cc e z nth] r(1) show ?thesis by auto
  qed
  moreover have "accept_data self data_seq dat = Some (False, False, self\<lparr>t_reasm := r'\<rparr>)"
    using True assms(2,3) ne r(1) by (simp add: accept_data_def)
  moreover have "recv_inv (self\<lparr>t_reasm := r'\<rparr>)" using inv True r(2) assms(2) by (simp add: recv_inv_def)
  ultimately show ?thesis by (intro exI[of _ "self\<lparr>t_reasm := r'\<rparr>"]) simp
qed

section \<open>Data: what a segment adds\<close>

text \<open>
  The stream relation: \<open>S\<close> is the byte stream of the peer, \<open>p\<close> the number of its bytes
  consumed so far; the segment carries the bytes from \<open>a\<close> on, wherever that is relative to
  \<open>RCV.NXT\<close>, and the buffered bytes are the stream's.
\<close>

definition carries_stream :: "(nat \<Rightarrow> u8) \<Rightarrow> nat \<Rightarrow> seqnum \<Rightarrow> seqnum \<Rightarrow> bytes \<Rightarrow> bool" where
  "carries_stream S p rcv_nxt seq payload \<longleftrightarrow>
     (\<exists>a. payload = map S [a ..< a + length payload]
        \<and> (if seq_lt seq rcv_nxt then a + offset_from rcv_nxt seq = p else a = p + offset_from seq rcv_nxt))"

definition holds_stream :: "(nat \<Rightarrow> u8) \<Rightarrow> nat \<Rightarrow> tcb \<Rightarrow> bool" where
  "holds_stream S p self \<longleftrightarrow> reasm_held (t_rcv_nxt self) (t_reasm self) \<subseteq>\<^sub>m (\<lambda>k. Some (S (p + k)))"

text \<open>The receive side after a segment: \<open>m\<close> bytes of the stream have moved into the ring.\<close>

definition received :: "tcb \<Rightarrow> tcb \<Rightarrow> nat \<Rightarrow> bool" where
  "received self self' m \<longleftrightarrow>
     m = offset_from (t_rcv_nxt self') (t_rcv_nxt self) \<and> m \<le> rb_free (t_rx self)
     \<and> recv_inv self' \<and> t_rcv_adv self' = t_rcv_adv self \<and> t_sack_enabled self' = t_sack_enabled self
     \<and> t_peer_fin_seen self' = t_peer_fin_seen self
     \<and> m + rb_free (t_rx self') = rb_free (t_rx self)
     \<and> (\<exists>dlv. length dlv = m \<and> rb_buf (t_rx self') = rb_buf (t_rx self) @ dlv)"

definition received_stream :: "tcb \<Rightarrow> tcb \<Rightarrow> (nat \<Rightarrow> u8) \<Rightarrow> nat \<Rightarrow> nat \<Rightarrow> bool" where
  "received_stream self self' S p m \<longleftrightarrow>
     rb_buf (t_rx self') = rb_buf (t_rx self) @ map S [p ..< p + m] \<and> holds_stream S (p + m) self'"

lemma received_refl: "recv_inv self \<Longrightarrow> received self self 0"
  by (simp add: received_def)

lemma received_stream_refl: "holds_stream S p self \<Longrightarrow> received_stream self self S p 0"
  by (simp add: received_stream_def)

lemma map_shift: "map (\<lambda>k. S (p + k)) [0 ..< m] = map S [p ..< p + (m :: nat)]"
  by (rule nth_equalityI) simp_all

lemma adv_after:
  assumes "offset_from adv c \<le> 262144" and "offset_from nxt c \<le> 262144"
  shows "adv_near (offset_from adv nxt)" and "offset_from adv nxt \<le> 262144 \<or> 4294705152 \<le> offset_from adv nxt"
  using offset_from_rebase[of adv nxt c] assms by (auto simp: adv_near_def)

lemma accept_at_edge:
  assumes inv: "recv_inv self" and "dat \<noteq> []" and adv: "offset_from (t_rcv_adv self) (t_rcv_nxt self) \<le> 262144"
  shows "\<exists>io nr self' m. accept_data self (t_rcv_nxt self) dat = Some (io, nr, self')
    \<and> self' = self\<lparr>t_rx := t_rx self', t_reasm := t_reasm self', t_rcv_nxt := t_rcv_nxt self'\<rparr>
    \<and> received self self' m
    \<and> (\<forall>S p. holds_stream S p self \<longrightarrow> dat = map S [p ..< p + length dat] \<longrightarrow> received_stream self self' S p m)"
proof -
  let ?c = "t_rcv_nxt self" and ?n = "min (length dat) (rb_free (t_rx self))"
  define st where "st k = (if k < ?n then dat ! k else the (reasm_held ?c (t_reasm self) k))" for k
  have rxi: "rb_inv (t_rx self)" "rb_capacity (t_rx self) = RX_BUFFER" using inv by (simp_all add: recv_inv_def)
  note F = rb_free_le[OF rxi]
  obtain io nr self' m where a: "accept_data self ?c dat = Some (io, nr, self')"
    "self' = self\<lparr>t_rx := t_rx self', t_reasm := t_reasm self', t_rcv_nxt := t_rcv_nxt self'\<rparr>"
    "m = offset_from (t_rcv_nxt self') ?c" "m \<le> rb_free (t_rx self)" "rb_inv (t_rx self')"
    "rb_capacity (t_rx self') = RX_BUFFER" "m + rb_free (t_rx self') = rb_free (t_rx self)"
    "reasm_inv (t_rcv_nxt self') 1 (rb_free (t_rx self')) (t_reasm self')"
    "\<not> t_sack_enabled self \<longrightarrow> reasm_runs (t_reasm self') = []"
    "rb_buf (t_rx self') = rb_buf (t_rx self) @ map st [0 ..< m]"
    using accept_in_order[OF inv refl assms(2), of st] by (fastforce simp: st_def)
  have fr: "t_rcv_adv self' = t_rcv_adv self" "t_sack_enabled self' = t_sack_enabled self"
    "t_peer_fin_seen self' = t_peer_fin_seen self"
    by (subst a(2), simp)+
  have "rb_free (t_rx self') < 2147483648" using a(7) F by linarith
  then have "reasm_inv (t_rcv_nxt self') (if t_peer_fin_seen self' then 0 else 1) (rb_free (t_rx self')) (t_reasm self')"
    using reasm_inv_mono[OF a(8)] by simp
  moreover have "adv_near (offset_from (t_rcv_adv self') (t_rcv_nxt self'))"
    unfolding fr using adv_after(1)[OF adv, of "t_rcv_nxt self'"] a(3,4) F by simp
  ultimately have "recv_inv self'" using a(5,6,9) fr by (simp add: recv_inv_def)
  then have r: "received self self' m"
    unfolding received_def using a(3,4,7,10) fr by simp
  have "received_stream self self' S p m"
    if h: "holds_stream S p self" and d: "dat = map S [p ..< p + length dat]" for S p
  proof -
    have b: "b = S (p + k)" if "reasm_held ?c (t_reasm self) k = Some b" for k b
      using h that by (force simp: holds_stream_def map_le_def)
    have k: "dat ! k = S (p + k)" if "k < ?n" for k by (subst d) (use that in simp)
    from accept_in_order[OF inv refl assms(2) b k] a(1,3)
    show ?thesis by (fastforce simp: received_stream_def holds_stream_def map_shift add.assoc)
  qed
  then show ?thesis using a(1,2) r by blast
qed

lemma recv_view_steps [simp]:
  "recv_view (schedule_ack self now b) = recv_view self" "recv_view (self\<lparr>t_accecn_cep := k\<rparr>) = recv_view self"
  "recv_view (start_rtx self now) = recv_view self" "recv_view (restart_rtx self now) = recv_view self"
  "recv_view (arm_time_wait self now) = recv_view self" "recv_view (arm_persist self now) = recv_view self"
  "recv_view (arm_delayed_ack self now) = recv_view self" "recv_view (challenge_ack self now) = recv_view self"
  "recv_view (update_window self s a w) = recv_view self" "recv_view (recompute_closing_state self now) = recv_view self"
  by (simp_all add: recv_view_def schedule_ack_def start_rtx_def restart_rtx_def arm_time_wait_def
      arm_persist_def arm_delayed_ack_def challenge_ack_def update_window_def recompute_closing_state_def Let_def
      split: state.split)

lemma received_view: "recv_view a = recv_view b \<Longrightarrow> received self a m = received self b m"
  by (simp add: received_def recv_inv_def recv_view_def)

lemma received_stream_view: "recv_view a = recv_view b \<Longrightarrow> received_stream self a S p m = received_stream self b S p m"
  by (simp add: received_stream_def holds_stream_def recv_view_def)

text \<open>The trimmed data is in order, out of order nearby, or nothing; it is still the stream's.\<close>

lemma trim_left_cases:
  assumes "seq_lt seq c \<or> offset_from seq c \<le> 262144" and "trim_left c seq payload = (data_seq, dat)"
  shows "dat = [] \<or> data_seq = c \<or> (dat = payload \<and> data_seq = seq \<and> 0 < offset_from seq c \<and> offset_from seq c \<le> 262144)"
  using assms by (cases "seq = c") (auto simp: trim_left_def Let_def split: if_splits)

lemma trim_left_stream:
  assumes "trim_left c seq payload = (data_seq, dat)" and "carries_stream S p c seq payload" and "dat \<noteq> []"
  shows "dat = map S [p + offset_from data_seq c ..< p + offset_from data_seq c + length dat]"
proof -
  obtain a where a: "payload = map S [a ..< a + length payload]"
    "if seq_lt seq c then a + offset_from c seq = p else a = p + offset_from seq c"
    using assms(2) by (auto simp: carries_stream_def)
  show ?thesis
  proof (cases "seq_lt seq c")
    case True
    let ?o = "offset_from c seq"
    have o: "?o < length payload" "data_seq = c" "dat = drop ?o payload"
      using assms(1,3) True by (auto simp: trim_left_def Let_def min_def split: if_splits)
    have p: "p = a + ?o" using a(2) True by simp
    have "drop ?o payload = map S [a + ?o ..< a + length payload]" by (subst a(1)) (simp add: drop_map)
    moreover have "p + length dat = a + length payload" using o(1) by (simp add: o(3) p)
    ultimately show ?thesis by (simp add: o(2)) (simp add: o(3) p)
  next
    case False
    then show ?thesis using a assms(1) by (simp add: trim_left_def)
  qed
qed

lemma receive_data_ok:
  assumes inv: "recv_inv self" and adv: "offset_from (t_rcv_adv self) (t_rcv_nxt self) \<le> 262144"
    and near: "seq_lt seq (t_rcv_nxt self) \<or> offset_from seq (t_rcv_nxt self) \<le> 262144"
    and len: "length payload \<le> 65535"
  shows "\<exists>self' m. receive_data self now seq payload ce = Some self' \<and> received self self' m
    \<and> (\<forall>S p. holds_stream S p self \<longrightarrow> carries_stream S p (t_rcv_nxt self) seq payload \<longrightarrow>
          received_stream self self' S p m)"
proof -
  let ?c = "t_rcv_nxt self"
  obtain data_seq dat where t: "trim_left ?c seq payload = (data_seq, dat)" by (cases "trim_left ?c seq payload")
  have "\<exists>io nr self' m. accept_data self data_seq dat = Some (io, nr, self') \<and> received self self' m
    \<and> (\<forall>S p. holds_stream S p self \<longrightarrow> carries_stream S p ?c seq payload \<longrightarrow> received_stream self self' S p m)"
  proof (cases "dat = []")
    case True
    then show ?thesis using received_refl[OF inv] received_stream_refl
      by (auto simp: accept_data_def intro!: exI[of _ self] exI[of _ 0])
  next
    case ne: False
    note st = trim_left_stream[OF t _ ne]
    show ?thesis
    proof (cases "data_seq = ?c")
      case True
      then show ?thesis using accept_at_edge[OF inv ne adv] st by fastforce
    next
      case False
      then have d: "dat = payload" "data_seq = seq" "0 < offset_from data_seq ?c" "offset_from data_seq ?c \<le> 262144"
        using trim_left_cases[OF near t] ne by auto
      have "length dat \<le> 65535" using len d(1) by simp
      from accept_out_of_order[OF inv refl ne adv d(3,4) this] obtain self' where s: 
        "accept_data self data_seq dat = Some (False, False, self')"
        "self' = self\<lparr>t_reasm := t_reasm self'\<rparr>" "recv_inv self'"
        "\<And>st. reasm_held ?c (t_reasm self) \<subseteq>\<^sub>m (Some \<circ> st) \<Longrightarrow>
          dat = map st [offset_from data_seq ?c ..< offset_from data_seq ?c + length dat] \<Longrightarrow>
          reasm_held ?c (t_reasm self') \<subseteq>\<^sub>m (Some \<circ> st)" by blast
      have fr: "t_rcv_nxt self' = ?c" "t_rcv_adv self' = t_rcv_adv self" "t_rx self' = t_rx self"
        "t_sack_enabled self' = t_sack_enabled self" "t_peer_fin_seen self' = t_peer_fin_seen self"
        by (subst s(2), simp)+
      have "received self self' 0" using s(3) fr by (simp add: received_def)
      moreover have "received_stream self self' S p 0"
        if h: "holds_stream S p self" and c: "carries_stream S p ?c seq payload" for S p
      proof -
        have "dat = map (\<lambda>k. S (p + k)) [offset_from data_seq ?c ..< offset_from data_seq ?c + length dat]"
          by (rule trans[OF st[OF c]]) (rule nth_equalityI; simp add: add.assoc)
        from s(4)[of "\<lambda>k. S (p + k)", OF _ this] h
        show ?thesis by (simp add: received_stream_def holds_stream_def fr comp_def)
      qed
      ultimately show ?thesis using s(1) by blast
    qed
  qed
  then obtain io nr self' m where a: "accept_data self data_seq dat = Some (io, nr, self')" "received self self' m"
    "\<And>S p. holds_stream S p self \<Longrightarrow> carries_stream S p ?c seq payload \<Longrightarrow> received_stream self self' S p m"
    by blast
  show ?thesis
  proof (cases "payload = []")
    case True
    then show ?thesis using received_refl[OF inv] received_stream_refl
      by (auto simp: receive_data_def intro!: exI[of _ self] exI[of _ 0])
  next
    case False
    then obtain b s1 where r: "receive_data self now seq payload ce = Some (schedule_ack s1 now b)"
      "s1 = self' \<or> s1 = self'\<lparr>t_accecn_cep := t_accecn_cep self' + 1\<rparr>"
      using a(1) t by (auto simp: receive_data_def Let_def)
    have "recv_view (schedule_ack s1 now b) = recv_view self'" using r(2) by auto
    then show ?thesis using r(1) a(2,3) received_view received_stream_view by blast
  qed
qed

section \<open>Acceptability keeps segments near\<close>

text \<open>
  Once a peer has sent past the advertised edge, \<open>RCV.NXT\<close> is beyond it until the next ACK
  goes out, and the serial comparisons would accept numbers half the space away.
  \<open>seg_near\<close> excludes those: in that situation the segment is within \<open>2\<^sup>3\<^sup>0\<close> of \<open>RCV.NXT\<close>.
\<close>

definition seg_near :: "tcb \<Rightarrow> seqnum \<Rightarrow> bool" where
  "seg_near self seq \<longleftrightarrow> offset_from (t_rcv_adv self) (t_rcv_nxt self) < 2147483648
     \<or> offset_from seq (t_rcv_nxt self) < 1073741824 \<or> 3221225472 \<le> offset_from seq (t_rcv_nxt self)"

lemma acceptable_near:
  assumes acc: "segment_acceptable self seq len" and n: "adv_near (offset_from (t_rcv_adv self) (t_rcv_nxt self))"
    and s: "seg_near self seq" and l: "len \<le> 65537"
  shows "offset_from (t_rcv_adv self) (t_rcv_nxt self) \<le> 262144
    \<and> (seq_lt seq (t_rcv_nxt self) \<or> offset_from seq (t_rcv_nxt self) \<le> 262144)"
proof -
  let ?c = "t_rcv_nxt self" and ?a = "t_rcv_adv self"
  define x d where "x = offset_from seq ?c" and "d = offset_from ?a ?c"
  have xb: "x < 4294967296" and db: "d < 4294967296" by (simp_all add: x_def d_def)
  have ge: "seq_ge y ?c \<longleftrightarrow> offset_from y ?c < 2147483648" for y
    by (simp add: seq_ge_not_lt seq_lt_offset not_le)
  have lt: "seq_lt y ?a \<longleftrightarrow> 2147483648 \<le> (if d \<le> offset_from y ?c then offset_from y ?c - d
      else offset_from y ?c + 4294967296 - d)" for y
    unfolding seq_lt_offset offset_from_rebase[of y ?a ?c] d_def by simp
  have z: "?a = ?c \<longleftrightarrow> d = 0" by (simp add: d_def)
  have window: "d \<le> 262144 \<and> offset_from y ?c < d"
    if "seq_ge y ?c" "seq_lt y ?a" "d \<noteq> 0"
      "d < 2147483648 \<or> offset_from y ?c < 1073807362 \<or> 3221225472 \<le> offset_from y ?c" for y
    using that n unfolding ge lt adv_near_def d_def[symmetric] by (auto split: if_splits)
  show ?thesis
  proof (cases "d = 0")
    case True
    then have "seq = ?c" using acc z by (auto simp: segment_acceptable_def Let_def split: bool.splits)
    then show ?thesis using True by (simp add: d_def)
  next
    case False
    have sx: "d < 2147483648 \<or> x < 1073741824 \<or> 3221225472 \<le> x"
      using s by (simp add: seg_near_def x_def d_def)
    consider "seq_ge seq ?c" "seq_lt seq ?a"
      | "0 < len" "seq_ge (seq_add seq (len - 1)) ?c" "seq_lt (seq_add seq (len - 1)) ?a"
      using acc False z by (auto simp: segment_acceptable_def Let_def split: bool.splits)
    then show ?thesis
    proof cases
      case 1
      then show ?thesis using window[of seq] False sx by (auto simp: x_def d_def)
    next
      case 2
      let ?l = "seq_add seq (len - 1)"
      have o: "offset_from ?l ?c = (if x + (len - 1) < 4294967296 then x + (len - 1) else x + (len - 1) - 4294967296)"
      proof (cases "x + (len - 1) < 4294967296")
        case True
        then show ?thesis using offset_from_add[of seq ?c "len - 1"] by (simp add: x_def)
      next
        case False
        have "unat ((seq - ?c) + word_of_nat (len - 1)) = (x + (len - 1)) mod 4294967296"
          by (simp add: unat_word_ariths x_def offset_from_def unat_of_nat mod_add_right_eq)
        then have "offset_from ?l ?c = (x + (len - 1)) mod 4294967296"
          by (simp add: offset_from_def seq_add_def algebra_simps)
        also have "\<dots> = x + (len - 1) - 4294967296" using False xb l by (simp add: mod_if)
        finally show ?thesis using False by simp
      qed
      have "d < 2147483648 \<or> offset_from ?l ?c < 1073807362 \<or> 3221225472 \<le> offset_from ?l ?c"
        using sx l xb unfolding o by auto
      from window[OF 2(2,3) False this] have w: "d \<le> 262144" "offset_from ?l ?c < d" by auto
      have "2147483648 \<le> x \<or> x \<le> 262144" using w l unfolding o by (auto split: if_splits)
      then show ?thesis using w(1) by (auto simp: x_def d_def seq_lt_offset)
    qed
  qed
qed

section \<open>The peer's FIN\<close>

lemma fin_advance:
  assumes "recv_inv self" and "\<not> t_peer_fin_seen self"
    and "offset_from (t_rcv_adv self) (t_rcv_nxt self) \<le> 262144 \<or> 4294705152 \<le> offset_from (t_rcv_adv self) (t_rcv_nxt self)"
  shows "recv_inv (self\<lparr>t_rcv_nxt := seq_add (t_rcv_nxt self) 1, t_peer_fin_seen := True\<rparr>)"
proof -
  let ?c = "t_rcv_nxt self" and ?n = "seq_add (t_rcv_nxt self) 1" and ?F = "rb_free (t_rx self)"
  have o: "offset_from ?n ?c = 1" using offset_from_add[of ?c ?c 1] by simp
  have "offset_from ?n ?c \<le> 1" "1 - offset_from ?n ?c = 0" "?F - offset_from ?n ?c = ?F - 1"
    unfolding o by simp_all
  note o' = this
  have F: "?F \<le> 262144" using rb_free_le assms(1) by (simp add: recv_inv_def)
  have "reasm_inv ?c 1 ?F (t_reasm self)" using assms(1,2) by (simp add: recv_inv_def)
  from reasm_inv_rebase[OF this o'(1)] have "reasm_inv ?n 0 (?F - 1) (t_reasm self)" unfolding o'(2,3) .
  then have "reasm_inv ?n 0 ?F (t_reasm self)" using F by (elim reasm_inv_mono) simp_all
  moreover have "adv_near (offset_from (t_rcv_adv self) ?n)"
    using offset_from_rebase[of "t_rcv_adv self" ?n ?c] assms(3) o by (auto simp: adv_near_def)
  ultimately show ?thesis using assms(1) by (simp add: recv_inv_def)
qed

lemma fin_steps_ok:
  assumes "recv_inv self"
    and "offset_from (t_rcv_adv self) (t_rcv_nxt self) \<le> 262144 \<or> 4294705152 \<le> offset_from (t_rcv_adv self) (t_rcv_nxt self)"
  shows "recv_inv (consume_pending_fin (if b then receive_fin self fin_at else self))"
proof -
  have k: "recv_inv (s\<lparr>t_needs_ack := v\<rparr>) = recv_inv s" "recv_inv (s\<lparr>t_pending_fin := f\<rparr>) = recv_inv s" for s v f
    by (simp_all add: recv_inv_def)
  have p: "recv_inv (consume_pending_fin s)"
    if "recv_inv s" "t_peer_fin_seen s \<or> offset_from (t_rcv_adv s) (t_rcv_nxt s) \<le> 262144
        \<or> 4294705152 \<le> offset_from (t_rcv_adv s) (t_rcv_nxt s)" for s
    using fin_advance[of s] that by (auto simp: consume_pending_fin_def k recv_inv_def split: option.split)
  have "recv_inv (receive_fin self fin_at)" "t_peer_fin_seen (receive_fin self fin_at)
      \<or> offset_from (t_rcv_adv (receive_fin self fin_at)) (t_rcv_nxt (receive_fin self fin_at)) \<le> 262144
      \<or> 4294705152 \<le> offset_from (t_rcv_adv (receive_fin self fin_at)) (t_rcv_nxt (receive_fin self fin_at))"
    using fin_advance[OF assms(1)] assms by (auto simp: receive_fin_def Let_def k)
  then show ?thesis using p assms by auto
qed

end
