(* ===== verification/Tcb_Emit.thy ===== *)
theory Tcb_Emit
  imports Tcb_Receive
begin

text \<open>
  The segments the connection builds: the header \<open>build\<close> stamps fits the option area, its
  option bytes are the ones \<open>max_segment_payload\<close> subtracts, and every datagram is one the
  wire layer's parsers accept. The advertised edge never moves left.
\<close>

section \<open>The advertised window\<close>

lemma advertised_window_ok:
  assumes "recv_inv self" and "advertised_window self = (w, self')"
  shows "self' = self\<lparr>t_rcv_adv := t_rcv_adv self'\<rparr> \<and> recv_inv self'
    \<and> w = offset_from (t_rcv_adv self') (t_rcv_nxt self') \<and> w \<le> 262144
    \<and> (offset_from (t_rcv_adv self) (t_rcv_nxt self) \<le> 262144 \<longrightarrow>
         offset_from (t_rcv_adv self) (t_rcv_nxt self) \<le> w)"
proof -
  let ?c = "t_rcv_nxt self" and ?a = "t_rcv_adv self"
  define f where "f = min (RX_BUFFER - (rb_len (t_rx self) + buffered (t_reasm self)))
    (push_bit (unat (t_rcv_wscale self)) 0xFFFF)"
  define r where "r = (if seq_lt (seq_add ?c f) ?a then ?a else seq_add ?c f)"
  have f: "f \<le> 262144" by (simp add: f_def RX_BUFFER_def)
  have o: "offset_from (seq_add ?c f) ?c = f" using offset_from_add[of ?c ?c f] f by simp
  have n: "adv_near (offset_from ?a ?c)" using assms(1) by (simp add: recv_inv_def)
  have lt: "seq_lt (seq_add ?c f) ?a \<longleftrightarrow> f < offset_from ?a ?c \<and> offset_from ?a ?c \<le> 262144"
    using n f offset_from_bound[of ?a ?c] unfolding seq_lt_offset offset_from_rebase[of "seq_add ?c f" ?a ?c] o adv_near_def
    by (auto split: if_splits)
  have r: "offset_from r ?c \<le> 262144" "offset_from ?a ?c \<le> 262144 \<longrightarrow> offset_from ?a ?c \<le> offset_from r ?c"
    using lt f by (auto simp: r_def o)
  have e: "w = offset_from r ?c" "self' = self\<lparr>t_rcv_adv := r\<rparr>"
    using assms(2) unfolding advertised_window_def Let_def f_def[symmetric] r_def[symmetric] by auto
  have "recv_inv (self\<lparr>t_rcv_adv := r\<rparr>)" using assms(1) r(1) by (simp add: recv_inv_def adv_near_def)
  then show ?thesis using e r by simp
qed

section \<open>The options of a segment\<close>

definition seg_opts :: "tcb \<Rightarrow> nat" where
  "seg_opts self = (if t_ts_enabled self then 12 else 0)
     + (if t_sack_enabled self \<and> \<not> reasm_is_empty (t_reasm self)
        then 4 + 8 * (if t_ts_enabled self then min (length (report (t_reasm self) MAX_SACK_BLOCKS)) 3
                      else length (report (t_reasm self) MAX_SACK_BLOCKS))
        else 0)"

lemma length_report: "length (report r k) = min (length (reasm_runs r)) k"
  by (simp add: report_def)

lemma report_some: "\<not> reasm_is_empty r \<Longrightarrow> 0 < length (report r MAX_SACK_BLOCKS)"
  by (simp add: length_report reasm_is_empty_def MAX_SACK_BLOCKS_def)

lemma max_segment_payload_opts: "max_segment_payload self = unat (t_snd_mss self) - seg_opts self"
  using report_some[of "t_reasm self"]
  by (auto simp: max_segment_payload_def seg_opts_def Let_def)

lemma seg_opts_le: "seg_opts self \<le> 40"
  by (simp add: seg_opts_def length_report MAX_SACK_BLOCKS_def min_def)

lemma foldl_sack_push:
  "length s + length bs \<le> MAX_SACK_BLOCKS \<Longrightarrow> foldl (\<lambda>s (l, r). sack_push s l r) s bs = s @ bs"
  by (induction bs arbitrary: s) (auto simp: sack_push_def)

lemma repr_header_len:
  shows "\<not> flag_has flags SYN \<Longrightarrow> tr_header_len (segment_repr self seq flags ae w) = 20 + seg_opts self"
    and "flag_has flags SYN \<Longrightarrow> tr_header_len (segment_repr self seq flags ae w) \<le> 44"
proof -
  have p: "foldl (\<lambda>s (l, r). sack_push s l r) [] (report (t_reasm self) MAX_SACK_BLOCKS)
      = report (t_reasm self) MAX_SACK_BLOCKS"
    by (subst foldl_sack_push) (simp_all add: length_report)
  have r4: "report (t_reasm self) 4 = [] \<longleftrightarrow> reasm_runs (t_reasm self) = []"
    by (subst length_0_conv[symmetric], subst length_report) (auto simp: min_def split: if_splits)
  show "\<not> flag_has flags SYN \<Longrightarrow> tr_header_len (segment_repr self seq flags ae w) = 20 + seg_opts self"
    using r4
    by (auto simp: tr_header_len_def segment_repr_def Let_def p[unfolded MAX_SACK_BLOCKS_def] seg_opts_def sack_blocks_to_emit_def
        TCP_MIN_HEADER_LEN_def length_report MAX_SACK_BLOCKS_def reasm_is_empty_def)
  show "flag_has flags SYN \<Longrightarrow> tr_header_len (segment_repr self seq flags ae w) \<le> 44"
    by (simp add: tr_header_len_def segment_repr_def Let_def sack_blocks_to_emit_def TCP_MIN_HEADER_LEN_def)
qed

lemma ace_flags_syn:
  assumes "ace_flags self (extra OR ACK) = (flags, ae)"
  shows "flag_has flags SYN = flag_has extra SYN" and "flag_has flags RST = flag_has extra RST"
    and "flag_has flags FIN = flag_has extra FIN" and "flag_has flags ACK"
proof -
  have d: "(x OR y) AND z = (x AND z) OR (y AND z)" for x y z :: u8
    by (rule bit.conj_disj_distrib2)
  have f: "flags = extra OR ACK \<or> flags = extra OR ACK OR ECE \<or> flags = extra OR ACK OR CWR
      \<or> flags = extra OR ACK OR ECE OR CWR"
    using assms by (auto simp: ace_flags_def Let_def or.assoc split: if_splits)
  have "ACK AND SYN = 0" "ECE AND SYN = 0" "CWR AND SYN = 0" "ACK AND RST = 0" "ECE AND RST = 0" "CWR AND RST = 0"
    "ACK AND FIN = 0" "ECE AND FIN = 0" "CWR AND FIN = 0"
    by (simp_all add: ACK_def SYN_def RST_def FIN_def ECE_def CWR_def)
  note z = this
  show "flag_has flags SYN = flag_has extra SYN" "flag_has flags RST = flag_has extra RST"
    "flag_has flags FIN = flag_has extra FIN"
    using f by (auto simp: flag_has_def d z)
  have "ECE AND ACK = 0" "CWR AND ACK = 0" by (simp_all add: ACK_def ECE_def CWR_def)
  then have "flags AND ACK = ACK" using f by (auto simp: d)
  then show "flag_has flags ACK" by (simp add: flag_has_def ACK_def)
qed

section \<open>The datagrams the connection emits\<close>

lemma set_ecn_length: "length (set_ecn frame e) = length frame"
  by (simp add: set_ecn_def Let_def)

lemma set_ecn_carries:
  assumes "carries local remote frame seg"
  shows "carries local remote (set_ecn frame e) seg"
proof -
  have a: "ip_new_checked frame = Inr frame" "ip_header_len frame = 20" using assms by (simp_all add: carries_def)
  have "20 \<le> length frame" using new_checked_in_range[OF a(1)] a(2) by linarith
  then have "set_ecn frame e ! 0 = frame ! 0"
    by (simp add: set_ecn_def Let_def IPV4_MIN_HEADER_LEN_def)
  then have "ip_header_len (set_ecn frame e) = 20" using a(2) by (simp add: ip_header_len_def)
  then show ?thesis using set_ecn_packet[OF a, of e] assms by (simp add: carries_def set_ecn_length)
qed

text \<open>
  \<open>build\<close> succeeds on any payload the segment size allows; it clears the delayed ACK and
  moves the advertised edge, and the datagram carries the cumulative ACK.
\<close>

definition recv_edge :: "tcb \<Rightarrow> tcb \<Rightarrow> bool" where
  "recv_edge self self' \<longleftrightarrow> t_rcv_nxt self' = t_rcv_nxt self \<and> t_rx self' = t_rx self \<and> t_reasm self' = t_reasm self
     \<and> t_peer_fin_seen self' = t_peer_fin_seen self \<and> t_pending_fin self' = t_pending_fin self
     \<and> (offset_from (t_rcv_adv self) (t_rcv_nxt self) \<le> RX_BUFFER \<longrightarrow>
          offset_from (t_rcv_adv self) (t_rcv_nxt self) \<le> offset_from (t_rcv_adv self') (t_rcv_nxt self')
          \<and> offset_from (t_rcv_adv self') (t_rcv_nxt self') \<le> RX_BUFFER)"

definition built :: "tcb \<Rightarrow> tcb \<Rightarrow> bool" where
  "built self self' \<longleftrightarrow>
     self' = self\<lparr>t_delayed_ack_deadline := None, t_unacked_segs := 0, t_rcv_adv := t_rcv_adv self'\<rparr>
     \<and> (recv_inv self \<longrightarrow> recv_inv self' \<and> recv_edge self self')"

text \<open>The payload is what the send queue holds at its sequence numbers.\<close>

definition queued_at :: "tcb \<Rightarrow> seqnum \<Rightarrow> bytes \<Rightarrow> bool" where
  "queued_at self seq payload \<longleftrightarrow>
     payload = [] \<or> (offset_from seq (t_snd_una self) + length payload \<le> rb_len (t_tx self)
       \<and> payload = take (length payload) (drop (offset_from seq (t_snd_una self)) (rb_buf (t_tx self))))"

definition well_formed_datagram :: "tcb \<Rightarrow> bytes \<Rightarrow> bool" where
  "well_formed_datagram self frame \<longleftrightarrow> (\<exists>seg. carries (t_local self) (t_remote self) frame seg
     \<and> (flag_has (tcp_flags_of seg) ACK \<longrightarrow> tcp_ack seg = t_rcv_nxt self)
     \<and> (flag_has (tcp_flags_of seg) SYN \<longrightarrow> tcp_seq seg = t_iss self)
     \<and> queued_at self (tcp_seq seg) (tcp_payload seg)
     \<and> (tcp_payload seg \<noteq> [] \<longrightarrow> length frame \<le> 40 + max (unat (t_snd_mss self)) (seg_opts self + 1)))"

lemma build_ok:
  assumes inv: "recv_inv self" and ext: "\<not> flag_has extra RST" "flag_has extra SYN \<Longrightarrow> payload = [] \<and> seq = t_iss self"
    and q: "queued_at self seq payload"
    and len: "length payload \<le> max 1 (unat (t_snd_mss self) - seg_opts self)" and mss: "unat (t_snd_mss self) \<le> 65495"
  shows "\<exists>frame self'. build self seq extra payload = Some (frame, self') \<and> built self self'
    \<and> well_formed_datagram self frame"
proof -
  define s0 where "s0 = self\<lparr>t_delayed_ack_deadline := None, t_unacked_segs := 0\<rparr>"
  obtain flags ae where fl: "ace_flags s0 (extra OR ACK) = (flags, ae)" by (cases "ace_flags s0 (extra OR ACK)")
  obtain w s1 where aw: "advertised_window s0 = (w, s1)" by (cases "advertised_window s0")
  have "recv_inv s0" using inv by (simp add: recv_inv_def s0_def)
  from advertised_window_ok[OF this aw] have s1: "s1 = s0\<lparr>t_rcv_adv := t_rcv_adv s1\<rparr>" "recv_inv s1"
    and adv: "offset_from (t_rcv_adv s0) (t_rcv_nxt s0) \<le> 262144 \<longrightarrow>
      offset_from (t_rcv_adv s0) (t_rcv_nxt s0) \<le> offset_from (t_rcv_adv s1) (t_rcv_nxt s1)"
      "offset_from (t_rcv_adv s1) (t_rcv_nxt s1) \<le> 262144" by auto
  have keep: "t_local s1 = t_local self" "t_remote s1 = t_remote self" "t_iss s1 = t_iss self"
    "t_rcv_nxt s1 = t_rcv_nxt self" "t_snd_mss s1 = t_snd_mss self" "seg_opts s1 = seg_opts self"
    by (subst s1(1), simp add: s0_def seg_opts_def)+
  let ?r = "segment_repr s1 seq flags ae w"
  note f = ace_flags_syn[OF fl]
  have h: "tr_header_len ?r \<le> 60 \<and> (\<not> flag_has extra SYN \<longrightarrow> tr_header_len ?r = 20 + seg_opts self)"
    using repr_header_len[of flags s1 seq ae w] seg_opts_le[of s1] f(1) keep by auto
  have tot: "tr_header_len ?r + length payload \<le> 65515"
  proof (cases "flag_has extra SYN")
    case True
    then show ?thesis using h ext(2) by simp
  next
    case False
    then show ?thesis using h len mss seg_opts_le[of self] by auto
  qed
  have port: "tr_src_port ?r = ep_port (t_local s1)" "tr_dst_port ?r = ep_port (t_remote s1)" "tr_seq ?r = seq"
    "tr_ack ?r = t_rcv_nxt s1" "tr_flags ?r = flags"
    by (simp_all add: segment_repr_def Let_def)
  from build_segment_carries[OF _ tot port(1,2)] h obtain frame seg where
    b: "build_segment (t_local s1) (t_remote s1) ?r payload = Some frame" "carries (t_local s1) (t_remote s1) frame seg"
      "length seg = tr_header_len ?r + length payload" "tcp_seq seg = seq" "tcp_ack seg = t_rcv_nxt s1"
      "tcp_flags_of seg = flags" "tcp_payload seg = payload"
    using port by auto
  define out where "out = (if ecn_enabled s1 \<and> payload \<noteq> [] then set_ecn frame ECN_ECT1 else frame)"
  have c: "carries (t_local self) (t_remote self) out seg"
    using b(2) set_ecn_carries keep by (auto simp: out_def)
  have "length out = 20 + length seg" using c by (simp add: carries_def)
  then have "payload \<noteq> [] \<Longrightarrow> length out \<le> 40 + max (unat (t_snd_mss self)) (seg_opts self + 1)"
    using h len b(3) ext(2) by (cases "flag_has extra SYN") auto
  then have "well_formed_datagram self out"
    using c b(4-7) f(1) ext(2) keep q unfolding well_formed_datagram_def by (intro exI[of _ seg]) auto
  moreover have "build self seq extra payload = Some (out, s1)"
    using b(1) fl aw by (simp add: build_def s0_def[symmetric] out_def)
  moreover have "t_rx s1 = t_rx self" "t_reasm s1 = t_reasm self" "t_peer_fin_seen s1 = t_peer_fin_seen self" "t_pending_fin s1 = t_pending_fin self" by (subst s1(1), simp add: s0_def)+
  then have "recv_edge self s1" using adv keep(4) by (simp add: recv_edge_def RX_BUFFER_def s0_def)
  then have "built self s1" using s1 by (simp add: built_def s0_def)
  ultimately show ?thesis by blast
qed

end
