(* ===== verification/Tcb_Invariant.thy ===== *)
theory Tcb_Invariant
  imports Tcb_Emit
begin

text \<open>
  The invariant of the connection and its preservation by every operation. The send side:
  what is in flight is at most the send queue and one FIN, and the scoreboard is the window's.
  The core: controller, RTT estimator and segment size. No operation panics under it.
\<close>

definition send_inv :: "tcb \<Rightarrow> bool" where
  "send_inv self \<longleftrightarrow> rb_inv (t_tx self) \<and> rb_capacity (t_tx self) = TX_BUFFER
     \<and> offset_from (t_snd_nxt self) (t_snd_una self) \<le> rb_len (t_tx self) + 1
     \<and> sb_inv (t_snd_una self) (t_snd_nxt self) (t_scoreboard self)
     \<and> (\<not> t_sack_enabled self \<or> t_state self \<in> {SynSent, SynReceived} \<longrightarrow>
          sacked (t_scoreboard self) = [] \<and> rexmit (t_scoreboard self) = [])
     \<and> (t_state self \<in> {SynSent, SynReceived} \<longrightarrow> t_snd_una self = t_iss self
          \<and> t_snd_nxt self \<in> {t_iss self, seq_add (t_iss self) 1} \<and> rb_buf (t_tx self) = [])"

definition core_inv :: "nat \<Rightarrow> tcb \<Rightarrow> bool" where
  "core_inv n self \<longleftrightarrow> cc_inv (t_cc self) \<and> t_cc_kind self \<noteq> KCubic
     \<and> rtt_inv (t_rtt self) \<and> consecutive_timeouts (t_rtt self) \<le> n
     \<and> t_snd_mss self \<noteq> 0 \<and> unat (t_snd_mss self) \<le> 65495
     \<and> t_mss_advertise self \<noteq> 0 \<and> unat (t_mss_advertise self) \<le> 65495"

definition tcb_inv :: "nat \<Rightarrow> tcb \<Rightarrow> bool" where
  "tcb_inv n self \<longleftrightarrow> send_inv self \<and> recv_inv self \<and> core_inv n self
     \<and> (t_state self = SynSent \<longrightarrow> \<not> t_sack_enabled self \<and> \<not> t_peer_fin_seen self)"

definition send_view :: "tcb \<Rightarrow> state \<times> seqnum \<times> seqnum \<times> seqnum \<times> ring_buffer \<times> scoreboard \<times> bool" where
  "send_view self = (t_state self, t_iss self, t_snd_una self, t_snd_nxt self, t_tx self,
     t_scoreboard self, t_sack_enabled self)"

definition core_view :: "tcb \<Rightarrow> cc \<times> cc_kind \<times> rtt_estimator \<times> u16 \<times> u16" where
  "core_view self = (t_cc self, t_cc_kind self, t_rtt self, t_snd_mss self, t_mss_advertise self)"

lemma send_inv_view: "send_view a = send_view b \<Longrightarrow> send_inv a = send_inv b"
  by (simp add: send_view_def send_inv_def)

lemma core_inv_view: "core_view a = core_view b \<Longrightarrow> core_inv n a = core_inv n b"
  by (simp add: core_view_def core_inv_def)

lemma send_view_steps [simp]:
  "send_view (schedule_ack self now b) = send_view self" "send_view (self\<lparr>t_accecn_cep := k\<rparr>) = send_view self"
  "send_view (start_rtx self now) = send_view self" "send_view (restart_rtx self now) = send_view self"
  "send_view (arm_time_wait self now) = send_view self" "send_view (arm_persist self now) = send_view self"
  "send_view (arm_delayed_ack self now) = send_view self" "send_view (challenge_ack self now) = send_view self"
  "send_view (update_window self s a w) = send_view self" "send_view (ack_gbn self) = send_view self"
  "send_view (self\<lparr>t_needs_ack := v\<rparr>) = send_view self" "send_view (advance_ts_recent self s ts) = send_view self"
  by (simp_all add: send_view_def schedule_ack_def start_rtx_def restart_rtx_def arm_time_wait_def
      arm_persist_def arm_delayed_ack_def challenge_ack_def update_window_def ack_gbn_def advance_ts_recent_def Let_def
      split: state.split option.split)

lemma core_view_steps [simp]:
  "core_view (schedule_ack self now b) = core_view self" "core_view (self\<lparr>t_accecn_cep := k\<rparr>) = core_view self"
  "core_view (start_rtx self now) = core_view self" "core_view (restart_rtx self now) = core_view self"
  "core_view (arm_time_wait self now) = core_view self" "core_view (arm_persist self now) = core_view self"
  "core_view (arm_delayed_ack self now) = core_view self" "core_view (challenge_ack self now) = core_view self"
  "core_view (update_window self s a w) = core_view self" "core_view (ack_gbn self) = core_view self"
  "core_view (self\<lparr>t_needs_ack := v\<rparr>) = core_view self" "core_view (advance_ts_recent self s ts) = core_view self"
  "core_view (recompute_closing_state self now) = core_view self"
  by (simp_all add: core_view_def schedule_ack_def start_rtx_def restart_rtx_def arm_time_wait_def
      arm_persist_def arm_delayed_ack_def challenge_ack_def update_window_def ack_gbn_def advance_ts_recent_def
      recompute_closing_state_def Let_def split: state.split option.split)

lemma recv_view_more [simp]:
  "recv_view (ack_gbn self) = recv_view self" "recv_view (self\<lparr>t_needs_ack := v\<rparr>) = recv_view self"
  "recv_view (advance_ts_recent self s ts) = recv_view self"
  by (simp_all add: recv_view_def ack_gbn_def advance_ts_recent_def split: option.split)

lemma tcb_inv_views:
  "send_view a = send_view b \<Longrightarrow> recv_view a = recv_view b \<Longrightarrow> core_view a = core_view b \<Longrightarrow> tcb_inv n a = tcb_inv n b"
  unfolding tcb_inv_def using send_inv_view[of a b] recv_inv_view[of a b] core_inv_view[of a b n]
  by (simp add: send_view_def recv_view_def)

section \<open>The controller inside the connection\<close>

lemma cc_sample_inv: "cc_inv c \<Longrightarrow> cc_inv (cc_on_ack_sample c now una fl n pipe r)"
  by (simp add: cc_sample_keeps)

lemma cc_transmit_inv: "cc_inv c \<Longrightarrow> cc_inv (cc_on_transmit c now e n fl al)"
  by (simp add: cc_transmit_keeps)

lemma core_inv_cc: "core_inv n self \<Longrightarrow> cc_inv c \<Longrightarrow> core_inv n (self\<lparr>t_cc := c\<rparr>)"
  by (simp add: core_inv_def)

lemma offset_u32: "offset_from x y \<le> U32_MAX"
  using offset_from_bound[of x y] unfolding U32_MAX_def by linarith

section \<open>Acknowledgements\<close>

lemma ack_sample_ok:
  "core_inv n self \<Longrightarrow> core_inv n (ack_sample self now d r) \<and> send_view (ack_sample self now d r) = send_view self
    \<and> recv_view (ack_sample self now d r) = recv_view self"
  by (simp add: ack_sample_def Let_def core_inv_def send_view_def recv_view_def cc_sample_inv)

lemma ack_ecn_ok:
  "core_inv n self \<Longrightarrow> core_inv n (ack_ecn self now ace d r) \<and> send_view (ack_ecn self now ace d r) = send_view self
    \<and> recv_view (ack_ecn self now ace d r) = recv_view self"
  using any_cc.ecn_inv[of "t_cc self" now]
  by (simp add: ack_ecn_def Let_def core_inv_def send_view_def recv_view_def)

lemma ack_rtt_ok:
  assumes "core_inv n self"
  shows "\<exists>self'. ack_rtt self seg_ack e now = Some self' \<and> core_inv n self' \<and> send_view self' = send_view self
    \<and> recv_view self' = recv_view self"
proof -
  have r: "\<exists>e'. rtt_on_sample (t_rtt self) x = Some e' \<and> rtt_inv e' \<and> consecutive_timeouts e' \<le> n" for x
    using rtt_on_sample_total[of "t_rtt self" x] assms by (auto simp: core_inv_def)
  have k: "core_inv n (self\<lparr>t_rtt := e'\<rparr>) \<and> core_inv n (self\<lparr>t_rtt := e', t_rtt_sample := x\<rparr>)"
    if "rtt_inv e'" "consecutive_timeouts e' \<le> n" for e' x using assms that by (simp add: core_inv_def)
  show ?thesis
  proof (cases "t_ts_enabled self")
    case True
    show ?thesis
    proof (cases e)
      case (Some ts)
      obtain e' where "rtt_on_sample (t_rtt self) (max (unat ((word_of_nat now :: u32) - ts)) 1) = Some e'"
        "rtt_inv e'" "consecutive_timeouts e' \<le> n" using r by blast
      then show ?thesis using True Some assms k by (simp add: ack_rtt_def Let_def send_view_def recv_view_def)
    qed (use True assms in \<open>simp add: ack_rtt_def\<close>)
  next
    case False
    show ?thesis
    proof (cases "t_rtt_sample self")
      case (Some p)
      obtain e' where "rtt_on_sample (t_rtt self) (max (min (saturating_micros_since now (fst p)) U32_MAX) 1) = Some e'"
        "rtt_inv e'" "consecutive_timeouts e' \<le> n" using r by blast
      then show ?thesis using False Some assms k
        by (cases p) (simp add: ack_rtt_def Let_def send_view_def recv_view_def)
    qed (use False assms in \<open>simp add: ack_rtt_def\<close>)
  qed
qed

lemma ack_timer_ok:
  assumes "core_inv n self"
  shows "core_inv n (ack_timer self now) \<and> send_view (ack_timer self now) = send_view self
    \<and> recv_view (ack_timer self now) = recv_view self"
proof -
  define s1 where "s1 = self\<lparr>t_rtt := rtt_on_clean_ack (t_rtt self)\<rparr>"
  define s2 where "s2 = (case srtt_micros (t_rtt s1) of
      Some s \<Rightarrow> s1\<lparr>t_cc := cc_on_rtt_sample (t_cc s1) s\<rparr> | None \<Rightarrow> s1)"
  have c1: "core_inv n s1" using assms rtt_on_clean_ack_inv by (simp add: s1_def core_inv_def rtt_on_clean_ack_def)
  have "s \<le> U32_MAX" if "srtt_micros (t_rtt s1) = Some s" for s
    using c1 that by (auto simp: core_inv_def rtt_inv_def srtt_micros_def rtt_consts split: if_splits)
  then have "core_inv n s2"
    using c1 any_cc.rtt_inv[of "t_cc s1"] by (auto simp: s2_def core_inv_def split: option.split)
  moreover have "send_view s2 = send_view self" "recv_view s2 = recv_view self"
    by (simp_all add: s2_def s1_def send_view_def recv_view_def split: option.split)
  moreover have "ack_timer self now = (if t_snd_una s2 = t_snd_nxt s2
         then s2\<lparr>t_rtx_deadline := None, t_retransmitted := False, t_rtt_sample := None\<rparr>
         else restart_rtx s2 now)"
    by (simp add: ack_timer_def s1_def[symmetric] s2_def[symmetric] Let_def)
  ultimately show ?thesis by (simp add: core_inv_def restart_rtx_def send_view_def recv_view_def)
qed

lemma ack_scoreboard_ok:
  assumes "core_inv n self" and "sb_inv una0 (t_snd_nxt self) (t_scoreboard self)"
    and "offset_from (t_snd_una self) una0 \<le> offset_from (t_snd_nxt self) una0"
    and "\<not> t_sack_enabled self \<Longrightarrow> sacked (t_scoreboard self) = [] \<and> rexmit (t_scoreboard self) = []"
  shows "\<exists>self'. ack_scoreboard self now = Some self' \<and> core_inv n self' \<and> recv_view self' = recv_view self
    \<and> send_view (self'\<lparr>t_scoreboard := t_scoreboard self\<rparr>) = send_view self
    \<and> sb_inv (t_snd_una self) (t_snd_nxt self) (t_scoreboard self')
    \<and> (\<not> t_sack_enabled self \<longrightarrow> t_scoreboard self' = t_scoreboard self)"
proof (cases "t_sack_enabled self")
  case False
  have "offset_from (t_snd_nxt self) (t_snd_una self) < 2147483648"
    using offset_rebase_forward[OF assms(3)] assms(2) unfolding sb_inv_def by linarith
  then have "sb_inv (t_snd_una self) (t_snd_nxt self) (t_scoreboard self)"
    using assms(2,4) False by (simp add: sb_inv_def)
  then show ?thesis using False assms(1) by (auto simp: ack_scoreboard_def send_view_def)
next
  case True
  define s1 where "s1 = self\<lparr>t_scoreboard := sb_trim (t_scoreboard self) (t_snd_una self)\<rparr>"
  have i: "sb_inv (t_snd_una self) (t_snd_nxt self) (t_scoreboard s1)"
    using sb_trim_inv[OF assms(2,3)] by (simp add: s1_def)
  obtain c where c: "cc_on_ack (t_cc self) now 0 = Some c" "cc_inv c"
    using any_cc.ack_inv[of "t_cc self" now 0] assms(1) by (auto simp: core_inv_def)
  have e: "ack_scoreboard self now = Some (if recovery_reached (t_scoreboard s1) (t_snd_una self)
      then s1\<lparr>t_scoreboard := exit_recovery (t_scoreboard s1), t_cc := c, t_retransmitted := False\<rparr> else s1)"
    using True c(1) by (simp add: ack_scoreboard_def s1_def Let_def)
  show ?thesis unfolding e using i sb_inv_episode(2)[OF i] assms(1) c(2) True
    by (auto simp: s1_def core_inv_def recv_view_def send_view_def)
qed

lemma ack_consume_ok:
  assumes "core_inv n self"
  shows "\<exists>c fa. cc_inv c \<and> ack_consume self a d r now
    = Some (self\<lparr>t_tx := fst (rb_consume (t_tx self) d), t_cc := c, t_fin_acked := fa, t_snd_una := a\<rparr>)"
proof -
  obtain c where "cc_on_ack (t_cc self) now d = Some c" "cc_inv c"
    using any_cc.ack_inv[of "t_cc self" now d] assms by (auto simp: core_inv_def)
  moreover have "cc_inv (t_cc self)" using assms by (simp add: core_inv_def)
  ultimately obtain c where c: "cc_inv c" "(if \<not> r then cc_on_ack (t_cc self) now d else Some (t_cc self)) = Some c"
    by (cases r) auto
  define fa where "fa = (case t_fin_seq self of Some f \<Rightarrow> seq_gt a f \<or> t_fin_acked self | None \<Rightarrow> t_fin_acked self)"
  have "ack_consume self a d r now
      = Some (self\<lparr>t_tx := fst (rb_consume (t_tx self) d), t_cc := c, t_fin_acked := fa, t_snd_una := a\<rparr>)"
    using c(2) by (cases "t_fin_seq self") (auto simp: ack_consume_def fa_def Let_def intro!: tcb.equality)
  then show ?thesis using c(1) by blast
qed

lemma ack_window:
  assumes "offset_from nxt una < 2147483648" and "seq_gt a una" and "\<not> seq_gt a nxt"
  shows "0 < offset_from a una" and "offset_from a una \<le> offset_from nxt una"
proof -
  have a: "0 < offset_from a una" "offset_from a una < 2147483648" using assms(2) by (simp_all add: seq_gt_offset)
  then show "0 < offset_from a una" by simp
  show "offset_from a una \<le> offset_from nxt una"
    using seq_window(3)[of a una nxt] a assms(1,3) by simp
qed

lemma rb_consume_len: "rb_len (fst (rb_consume q d)) = rb_len q - d" "rb_capacity (fst (rb_consume q d)) = rb_capacity q"
  "rb_inv q \<Longrightarrow> rb_inv (fst (rb_consume q d))"
  by (auto simp: rb_consume_def rb_len_def rb_inv_def Let_def)

lemma ack_advance_ok:
  assumes inv: "send_inv self" "core_inv n self" and st: "t_state self \<notin> {SynSent, SynReceived}"
    and a: "seq_gt a (t_snd_una self)" "\<not> seq_gt a (t_snd_nxt self)"
  shows "\<exists>self'. ack_advance self a e ace now = Some self' \<and> send_inv self' \<and> core_inv n self'
    \<and> recv_view self' = recv_view self \<and> t_state self' = t_state self
    \<and> t_snd_una self' = a \<and> t_snd_nxt self' = t_snd_nxt self
    \<and> rb_buf (t_tx self') = drop (min (offset_from a (t_snd_una self)) (rb_len (t_tx self))) (rb_buf (t_tx self))"
proof -
  let ?una = "t_snd_una self" and ?nxt = "t_snd_nxt self"
  define k where "k = offset_from a ?una"
  define d where "d = min k (rb_len (t_tx self))"
  define r where "r = (t_sack_enabled self \<and> in_recovery (t_scoreboard self))"
  have sb: "sb_inv ?una ?nxt (t_scoreboard self)" using inv(1) by (simp add: send_inv_def)
  have w: "offset_from ?nxt ?una < 2147483648" using sb by (simp add: sb_inv_def)
  note k = ack_window[OF w a, folded k_def]
  obtain c fa where s1: "cc_inv c" "ack_consume self a d r now
      = Some (self\<lparr>t_tx := fst (rb_consume (t_tx self) d), t_cc := c, t_fin_acked := fa, t_snd_una := a\<rparr>)"
    using ack_consume_ok[OF inv(2)] by blast
  define v1 where "v1 = self\<lparr>t_tx := fst (rb_consume (t_tx self) d), t_cc := c, t_fin_acked := fa, t_snd_una := a\<rparr>"
  have c1: "core_inv n v1" using inv(2) s1(1) by (simp add: v1_def core_inv_def)
  define v3 where "v3 = ack_ecn (ack_sample v1 now d r) now ace d r"
  note s2 = ack_sample_ok[OF c1, of now d r]
  note s3 = ack_ecn_ok[OF s2[THEN conjunct1], of now ace d r, folded v3_def]
  have c3: "core_inv n v3" and sv3: "send_view v3 = send_view v1" and rv3: "recv_view v3 = recv_view v1"
    using s2 s3 by simp_all
  have f3: "t_scoreboard v3 = t_scoreboard self" "t_snd_una v3 = a" "t_snd_nxt v3 = ?nxt"
    "t_sack_enabled v3 = t_sack_enabled self" "t_state v3 = t_state self" "t_iss v3 = t_iss self"
    "t_tx v3 = fst (rb_consume (t_tx self) d)"
    using sv3 by (simp_all add: send_view_def v1_def)
  have nosack: "\<not> t_sack_enabled v3 \<Longrightarrow> sacked (t_scoreboard v3) = [] \<and> rexmit (t_scoreboard v3) = []"
    using inv(1) f3 by (simp add: send_inv_def)
  have "offset_from (t_snd_una v3) ?una \<le> offset_from (t_snd_nxt v3) ?una" using k(2) f3 by (simp add: k_def)
  from ack_scoreboard_ok[OF c3 _ this nosack, of now] sb f3 obtain v4 where
    v4: "ack_scoreboard v3 now = Some v4" "core_inv n v4" "recv_view v4 = recv_view v3"
      "send_view (v4\<lparr>t_scoreboard := t_scoreboard v3\<rparr>) = send_view v3"
      "sb_inv a ?nxt (t_scoreboard v4)" "\<not> t_sack_enabled v3 \<longrightarrow> t_scoreboard v4 = t_scoreboard v3"
    by auto
  have "core_inv n (ack_gbn v4)" using v4(2) core_inv_view[of "ack_gbn v4" v4] by simp
  from ack_rtt_ok[OF this, of a e now] obtain v5 where
    v5: "ack_rtt (ack_gbn v4) a e now = Some v5" "core_inv n v5" "send_view v5 = send_view v4" "recv_view v5 = recv_view v4"
    by auto
  note v6 = ack_timer_ok[OF v5(2), of now]
  have run: "ack_advance self a e ace now = Some (ack_timer v5 now)"
    using s1(2) v4(1) v5(1)
    by (simp add: ack_advance_def Let_def k_def[symmetric] d_def[symmetric] r_def[symmetric] v1_def[symmetric] v3_def[symmetric])
  have sv: "send_view (ack_timer v5 now) = (t_state self, t_iss self, a, ?nxt, fst (rb_consume (t_tx self) d),
      t_scoreboard v4, t_sack_enabled self)"
    using v6 v5(3) v4(4) f3 by (simp add: send_view_def)
  have len: "rb_len (fst (rb_consume (t_tx self) d)) = rb_len (t_tx self) - d" by (rule rb_consume_len)
  have "offset_from ?nxt a = offset_from ?nxt ?una - k"
    using offset_rebase_forward[of a ?una ?nxt] k(2) by (simp add: k_def)
  then have fl: "offset_from ?nxt a \<le> rb_len (fst (rb_consume (t_tx self) d)) + 1"
    using inv(1) len k by (auto simp: send_inv_def d_def)
  have "send_inv (ack_timer v5 now)"
    using sv inv(1) fl v4(5,6) f3 st by (auto simp: send_view_def send_inv_def rb_consume_len)
  moreover have "recv_view (ack_timer v5 now) = recv_view self"
    using v6 v5(4) v4(3) rv3 by (simp add: v1_def recv_view_def)
  moreover have "rb_buf (fst (rb_consume (t_tx self) d)) = drop d (rb_buf (t_tx self))"
    by (simp add: rb_consume_def Let_def d_def rb_len_def)
  ultimately show ?thesis using run v6 sv by (auto simp: send_view_def d_def k_def)
qed

lemma process_ack_ok:
  assumes inv: "send_inv self" "core_inv n self" and st: "t_state self \<notin> {SynSent, SynReceived}"
  shows "\<exists>ok self'. process_ack self s a wnd e ace now = Some (ok, self') \<and> send_inv self' \<and> core_inv n self'
    \<and> recv_view self' = recv_view self \<and> t_state self' = t_state self \<and> t_snd_nxt self' = t_snd_nxt self
    \<and> (ok \<longleftrightarrow> \<not> seq_gt a (t_snd_nxt self))
    \<and> t_snd_una self' = (if ok \<and> seq_gt a (t_snd_una self) then a else t_snd_una self)"
proof (cases "seq_gt a (t_snd_nxt self)")
  case True
  have "send_inv (self\<lparr>t_needs_ack := True\<rparr>)" "core_inv n (self\<lparr>t_needs_ack := True\<rparr>)"
    using inv send_inv_view core_inv_view send_view_steps(11) core_view_steps(11) by blast+
  then show ?thesis using True by (intro exI[of _ False] exI[of _ "self\<lparr>t_needs_ack := True\<rparr>"]) (simp add: process_ack_def)
next
  case False
  obtain s1 where s1: "(if seq_gt a (t_snd_una self) then ack_advance self a e ace now else Some self) = Some s1"
    "send_inv s1" "core_inv n s1" "recv_view s1 = recv_view self" "t_state s1 = t_state self"
    "t_snd_nxt s1 = t_snd_nxt self" "t_snd_una s1 = (if seq_gt a (t_snd_una self) then a else t_snd_una self)"
    using ack_advance_ok[OF inv st _ False, of e ace now] inv by (cases "seq_gt a (t_snd_una self)") auto
  have v: "send_view (update_window s1 s a wnd) = send_view s1" "core_view (update_window s1 s a wnd) = core_view s1"
    "recv_view (update_window s1 s a wnd) = recv_view s1" by simp_all
  have "send_inv (update_window s1 s a wnd)" "core_inv n (update_window s1 s a wnd)"
    using s1(2,3) send_inv_view[OF v(1)] core_inv_view[OF v(2)] by simp_all
  moreover have "t_state (update_window s1 s a wnd) = t_state s1" "t_snd_nxt (update_window s1 s a wnd) = t_snd_nxt s1"
    "t_snd_una (update_window s1 s a wnd) = t_snd_una s1"
    using v(1) by (simp_all add: send_view_def)
  ultimately show ?thesis using False s1(1,4-7) v(3)
    by (intro exI[of _ True] exI[of _ "update_window s1 s a wnd"]) (simp add: process_ack_def)
qed

section \<open>Loss detection\<close>

lemma core_inv_restart: "core_inv n (restart_rtx self now) = core_inv n self"
  by (rule core_inv_view) simp

lemma send_inv_restart: "send_inv (restart_rtx self now) = send_inv self"
  by (rule send_inv_view) simp

lemma dup_ack_inv: "core_inv n self \<Longrightarrow> cc_inv (snd (cc_on_dup_ack (t_cc self) now (offset_from x y)))"
  using any_cc.dup_inv[OF _ offset_u32] by (simp add: core_inv_def)

lemma send_inv_scoreboard:
  "send_inv self \<Longrightarrow> t_state self \<notin> {SynSent, SynReceived} \<Longrightarrow> t_sack_enabled self
    \<Longrightarrow> sb_inv (t_snd_una self) (t_snd_nxt self) sb \<Longrightarrow> send_inv (self\<lparr>t_scoreboard := sb\<rparr>)"
  by (simp add: send_inv_def)

lemma enter_loss_ok:
  assumes inv: "send_inv self" "core_inv n self" and st: "t_state self \<notin> {SynSent, SynReceived}" "t_sack_enabled self"
    and c: "cc_inv c"
  shows "send_inv (restart_rtx (self\<lparr>t_cc := c, t_scoreboard := begin_recovery (t_scoreboard self) (t_snd_nxt self),
      t_retransmitted := True, t_rtt_sample := None\<rparr>) now)" (is ?S)
    and "core_inv n (restart_rtx (self\<lparr>t_cc := c, t_scoreboard := begin_recovery (t_scoreboard self) (t_snd_nxt self),
      t_retransmitted := True, t_rtt_sample := None\<rparr>) now)" (is ?C)
    and "recv_view (restart_rtx (self\<lparr>t_cc := c, t_scoreboard := begin_recovery (t_scoreboard self) (t_snd_nxt self),
      t_retransmitted := True, t_rtt_sample := None\<rparr>) now) = recv_view self" (is ?R)
proof -
  let ?sb = "begin_recovery (t_scoreboard self) (t_snd_nxt self)"
  have "sb_inv (t_snd_una self) (t_snd_nxt self) ?sb" using sb_inv_episode(1) inv(1) by (simp add: send_inv_def)
  then show ?S using inv(1) st unfolding send_inv_restart by (simp add: send_inv_def)
  show ?C using inv(2) c unfolding core_inv_restart by (simp add: core_inv_def)
  show ?R by (simp add: restart_rtx_def recv_view_def)
qed

lemma sack_loss_ok:
  assumes inv: "send_inv self" "core_inv n self" and st: "t_state self \<notin> {SynSent, SynReceived}" "t_sack_enabled self"
  shows "send_inv (sack_loss self now blocks is_dup) \<and> core_inv n (sack_loss self now blocks is_dup)
    \<and> recv_view (sack_loss self now blocks is_dup) = recv_view self
    \<and> t_state (sack_loss self now blocks is_dup) = t_state self"
proof -
  define s1 where "s1 = self\<lparr>t_scoreboard := sb_update (t_scoreboard self) (t_snd_una self) (t_snd_nxt self) blocks\<rparr>"
  define fl where "fl = offset_from (t_snd_nxt self) (t_snd_una self)"
  obtain b c where dc: "(if is_dup then cc_on_dup_ack (t_cc self) now fl else (False, t_cc self)) = (b, c)"
    by fastforce
  have c: "cc_inv c"
  proof (cases is_dup)
    case True
    then show ?thesis using dup_ack_inv[OF inv(2), of now "t_snd_nxt self" "t_snd_una self"] dc by (simp add: fl_def)
  next
    case False
    then show ?thesis using dc inv(2) by (simp add: core_inv_def)
  qed
  have e: "cc_inv (cc_enter_recovery c now fl)" using any_cc.recovery_inv[OF c offset_u32] by (simp add: fl_def)
  have f: "t_cc s1 = t_cc self" "t_snd_una s1 = t_snd_una self" "t_snd_nxt s1 = t_snd_nxt self"
    "t_state s1 = t_state self" "t_sack_enabled s1 = t_sack_enabled self" by (simp_all add: s1_def)
  have "sb_inv (t_snd_una self) (t_snd_nxt self) (t_scoreboard s1)"
    using sb_update_inv inv(1) by (simp add: s1_def send_inv_def)
  then have i1: "send_inv s1" using send_inv_scoreboard[OF inv(1) st] by (simp add: s1_def)
  have c1: "core_inv n s1" using inv(2) by (simp add: s1_def core_inv_def)
  have r1: "recv_view s1 = recv_view self" by (simp add: s1_def recv_view_def)
  have st1: "t_state s1 \<notin> {SynSent, SynReceived}" "t_sack_enabled s1" using st f by simp_all
  note k = enter_loss_ok[OF i1 c1 st1]
  define lost where "lost = tcb_is_lost (s1\<lparr>t_cc := c\<rparr>) (t_snd_una self)"
  have run: "sack_loss self now blocks is_dup =
      (if \<not> in_recovery (t_scoreboard s1) \<and> t_gbn_recover s1 = None
       then if b \<or> lost
            then restart_rtx (s1\<lparr>t_cc := if \<not> b then cc_enter_recovery c now fl else c,
                  t_scoreboard := begin_recovery (t_scoreboard s1) (t_snd_nxt s1),
                  t_retransmitted := True, t_rtt_sample := None\<rparr>) now
            else s1\<lparr>t_cc := c\<rparr>
       else s1)"
    unfolding sack_loss_def s1_def[symmetric] Let_def f fl_def[symmetric] dc split_conv lost_def
    by (simp add: f)
  have keep: "send_inv (s1\<lparr>t_cc := c\<rparr>)" "core_inv n (s1\<lparr>t_cc := c\<rparr>)" "recv_view (s1\<lparr>t_cc := c\<rparr>) = recv_view s1"
    using i1 c1 c by (simp_all add: send_inv_def core_inv_def recv_view_def)
  have s: "t_state (restart_rtx x now) = t_state x" for x by (simp add: restart_rtx_def)
  show ?thesis
  proof (cases "\<not> in_recovery (t_scoreboard s1) \<and> t_gbn_recover s1 = None")
    case True
    show ?thesis
    proof (cases "b \<or> lost")
      case True
      have "cc_inv (if \<not> b then cc_enter_recovery c now fl else c)" using c e by simp
      note k = k[OF this, of now]
      have run': "sack_loss self now blocks is_dup = restart_rtx (s1\<lparr>t_cc := if \<not> b then cc_enter_recovery c now fl else c,
                  t_scoreboard := begin_recovery (t_scoreboard s1) (t_snd_nxt s1),
                  t_retransmitted := True, t_rtt_sample := None\<rparr>) now"
        unfolding run using True \<open>\<not> in_recovery (t_scoreboard s1) \<and> t_gbn_recover s1 = None\<close> by (simp only: if_True simp_thms)
      show ?thesis unfolding run' using k r1 by (simp add: s f(4) del: core_view_steps send_view_steps)
    next
      case False
      then show ?thesis using \<open>\<not> in_recovery (t_scoreboard s1) \<and> t_gbn_recover s1 = None\<close> keep r1 f(4) unfolding run by simp
    qed
  next
    case False
    then show ?thesis using i1 c1 r1 f(4) unfolding run by (simp only: if_False simp_thms)
  qed
qed

lemma legacy_dup_ack_ok:
  assumes "send_inv self" and "core_inv n self"
  shows "send_inv (legacy_dup_ack self now) \<and> core_inv n (legacy_dup_ack self now)
    \<and> recv_view (legacy_dup_ack self now) = recv_view self \<and> t_state (legacy_dup_ack self now) = t_state self"
proof -
  define fl where "fl = offset_from (t_snd_nxt self) (t_snd_una self)"
  obtain b c where dc: "cc_on_dup_ack (t_cc self) now fl = (b, c)" by fastforce
  have c: "cc_inv c" using dup_ack_inv[OF assms(2), of now "t_snd_nxt self" "t_snd_una self"] dc by (simp add: fl_def)
  define s1 where "s1 = self\<lparr>t_cc := c\<rparr>"
  define s2 where "s2 = s1\<lparr>t_retransmit := True, t_retransmitted := True, t_rtt_sample := None\<rparr>"
  have i: "send_inv s1" "core_inv n s1" "recv_view s1 = recv_view self" "t_state s1 = t_state self"
    using assms c by (simp_all add: s1_def send_inv_def core_inv_def recv_view_def)
  have j: "send_inv s2" "core_inv n s2" "recv_view s2 = recv_view self" "t_state s2 = t_state self"
    using i by (simp_all add: s2_def send_inv_def core_inv_def recv_view_def)
  have run: "legacy_dup_ack self now = (if b then restart_rtx s2 now else s1)"
    unfolding legacy_dup_ack_def Let_def fl_def[symmetric] dc split_conv s2_def s1_def by (rule refl)
  have "recv_view (restart_rtx s2 now) = recv_view s2" "t_state (restart_rtx s2 now) = t_state s2"
    by (simp_all add: restart_rtx_def recv_view_def)
  then show ?thesis unfolding run using i j by (simp add: send_inv_restart core_inv_restart)
qed

section \<open>Step (5)\<close>

lemma ack_synchronized_ok:
  assumes inv: "send_inv self" "core_inv n self" and st: "t_state self \<notin> {SynSent, SynReceived}"
  shows "\<exists>ok self'. ack_synchronized self now tcp e = Some (ok, self') \<and> send_inv self' \<and> core_inv n self'
    \<and> recv_view self' = recv_view self \<and> t_state self' = t_state self"
proof -
  obtain ok s1 where p: "process_ack self (tcp_seq tcp) (tcp_ack tcp) (tcp_window tcp) e (ace_field tcp) now = Some (ok, s1)"
    "send_inv s1" "core_inv n s1" "recv_view s1 = recv_view self" "t_state s1 = t_state self"
    using process_ack_ok[OF inv st] by blast
  note s = sack_loss_ok[OF p(2,3), unfolded p(5), OF st, of now "sack_blocks tcp"]
  note l = legacy_dup_ack_ok[OF p(2,3), of now]
  show ?thesis unfolding ack_synchronized_def Let_def using p s l
    by (cases ok; cases "t_sack_enabled s1") auto
qed

lemma ack_syn_received_ok:
  assumes inv: "send_inv self" "core_inv n self" and st: "t_state self = SynReceived"
  shows "send_inv (snd (ack_syn_received self tcp)) \<and> core_inv n (snd (ack_syn_received self tcp))
    \<and> recv_view (snd (ack_syn_received self tcp)) = recv_view self
    \<and> t_state (snd (ack_syn_received self tcp)) = (if fst (ack_syn_received self tcp) then Established else Closed)"
proof (cases "seq_gt (tcp_ack tcp) (t_snd_una self) \<and> seq_le (tcp_ack tcp) (t_snd_nxt self)")
  case True
  let ?s = "update_window (self\<lparr>t_snd_una := tcp_ack tcp\<rparr>) (tcp_seq tcp) (tcp_ack tcp) (tcp_window tcp)"
  have v: "send_view ?s = send_view (self\<lparr>t_snd_una := tcp_ack tcp\<rparr>)" "core_view ?s = core_view (self\<lparr>t_snd_una := tcp_ack tcp\<rparr>)"
    "recv_view ?s = recv_view (self\<lparr>t_snd_una := tcp_ack tcp\<rparr>)" by simp_all
  have w: "offset_from (t_snd_nxt self) (t_snd_una self) < 2147483648" "t_snd_nxt self \<in> {t_snd_una self, seq_add (t_snd_una self) 1}"
    "sacked (t_scoreboard self) = []" "rexmit (t_scoreboard self) = []"
    using inv(1) st by (auto simp: send_inv_def sb_inv_def)
  have a: "0 < offset_from (tcp_ack tcp) (t_snd_una self)"
    "offset_from (tcp_ack tcp) (t_snd_una self) \<le> offset_from (t_snd_nxt self) (t_snd_una self)"
    using ack_window[OF w(1), of "tcp_ack tcp"] True by (auto simp: seq_gt_not_le)
  have o1: "offset_from (seq_add (t_snd_una self) 1) (t_snd_una self) = 1"
    using offset_from_add[of "t_snd_una self" "t_snd_una self" 1] by simp
  have "t_snd_nxt self = seq_add (t_snd_una self) 1" using a w(2) by auto
  then have "offset_from (tcp_ack tcp) (t_snd_una self) = offset_from (t_snd_nxt self) (t_snd_una self)"
    using a o1 by simp
  then have "tcp_ack tcp = t_snd_nxt self" by (rule offset_from_inj)
  then have i: "send_inv (self\<lparr>t_snd_una := tcp_ack tcp, t_state := Established\<rparr>)"
    using inv(1) w(3,4) by (simp add: send_inv_def sb_inv_def)
  define r where "r = ?s\<lparr>t_state := Established, t_rtx_deadline := None, t_retransmit := False\<rparr>"
  have "send_view r = send_view (self\<lparr>t_snd_una := tcp_ack tcp, t_state := Established\<rparr>)"
    using v(1) by (simp add: r_def send_view_def)
  from send_inv_view[OF this] have i: "send_inv r" using i by simp
  have "core_view r = core_view self" using v(2) by (simp add: r_def core_view_def)
  from core_inv_view[OF this] have c: "core_inv n r" using inv(2) by simp
  have rv: "recv_view r = recv_view self" using v(3) by (simp add: r_def recv_view_def)
  have st: "t_state r = Established" by (simp add: r_def)
  have "ack_syn_received self tcp = (True, r)" unfolding ack_syn_received_def Let_def r_def using True by simp
  then show ?thesis using i c rv st by simp
next
  case False
  then show ?thesis using inv by (auto simp: ack_syn_received_def send_inv_def core_inv_def recv_view_def)
qed

section \<open>Steps (6) to (8): data and FIN\<close>

lemma accept_data_frame:
  assumes "accept_data self data_seq dat = Some (io, nr, self')"
  shows "send_view self' = send_view self \<and> core_view self' = core_view self"
proof -
  have "self' = self\<lparr>t_rx := t_rx self', t_reasm := t_reasm self', t_rcv_nxt := t_rcv_nxt self'\<rparr>"
    using assms unfolding accept_data_def Let_def
    by (auto simp: bind_Some_iff intro!: tcb.equality split: if_splits prod.splits)
  then obtain a b c where "self' = self\<lparr>t_rx := a, t_reasm := b, t_rcv_nxt := c\<rparr>" by blast
  then show ?thesis by (simp add: send_view_def core_view_def)
qed

end
