(* ===== verification/Tcb_Segment.thy ===== *)
theory Tcb_Segment
  imports Tcb_Invariant
begin

text \<open>
  A segment keeps the connection's invariant and never panics: the steps of
  \<open>on_segment\<close>, in its order, over the invariant of \<open>Tcb_Invariant\<close>.
\<close>

section \<open>Steps (6) to (8)\<close>

lemma receive_data_frame:
  assumes "receive_data self now seq payload ce = Some self'"
  shows "send_view self' = send_view self \<and> core_view self' = core_view self"
proof (cases "payload = []")
  case False
  obtain data_seq dat where t: "trim_left (t_rcv_nxt self) seq payload = (data_seq, dat)" by fastforce
  obtain io nr s1 where a: "accept_data self data_seq dat = Some (io, nr, s1)"
    using assms t False by (auto simp: receive_data_def Let_def bind_Some_iff)
  obtain b s2 where "self' = schedule_ack s2 now b" "s2 = s1 \<or> s2 = s1\<lparr>t_accecn_cep := t_accecn_cep s1 + 1\<rparr>"
    using assms t a False by (auto simp: receive_data_def Let_def)
  then show ?thesis using accept_data_frame[OF a] by auto
qed (use assms in \<open>simp add: receive_data_def\<close>)

lemma fin_views:
  "send_view (receive_fin self x) = send_view self" "core_view (receive_fin self x) = core_view self"
  "send_view (consume_pending_fin self) = send_view self" "core_view (consume_pending_fin self) = core_view self"
  by (simp_all add: receive_fin_def consume_pending_fin_def send_view_def core_view_def Let_def split: option.split)

lemma closing_state_syn: "closing_state st a b \<in> {SynSent, SynReceived} \<longleftrightarrow> st \<in> {SynSent, SynReceived}"
  by (cases st) (simp_all add: closing_state_def split: bool.split)

lemma recompute_state:
  "t_state (recompute_closing_state self now) = closing_state (t_state self) (t_fin_acked self) (t_peer_fin_seen self)"
  by (simp add: recompute_closing_state_def arm_time_wait_def Let_def split: state.split)

lemma recompute_send:
  assumes "send_inv self" and "t_state self \<notin> {SynSent, SynReceived}"
  shows "send_inv (recompute_closing_state self now)"
proof -
  let ?st = "closing_state (t_state self) (t_fin_acked self) (t_peer_fin_seen self)"
  have "send_view (recompute_closing_state self now) = send_view (self\<lparr>t_state := ?st\<rparr>)"
    by (simp add: recompute_closing_state_def arm_time_wait_def Let_def send_view_def split: state.split)
  from send_inv_view[OF this] show ?thesis
    using assms closing_state_syn[of "t_state self" "t_fin_acked self" "t_peer_fin_seen self"] by (simp add: send_inv_def)
qed

lemma data_and_fin_ok:
  assumes inv: "tcb_inv n self" and st: "t_state self \<notin> {SynSent, SynReceived}"
    and adv: "offset_from (t_rcv_adv self) (t_rcv_nxt self) \<le> 262144"
    and near: "seq_lt (tcp_seq tcp) (t_rcv_nxt self) \<or> offset_from (tcp_seq tcp) (t_rcv_nxt self) \<le> 262144"
    and len: "length (tcp_payload tcp) \<le> 65535"
  shows "\<exists>self'. data_and_fin self now tcp ce = Some self' \<and> tcb_inv n self'
    \<and> t_state self' \<notin> {SynSent, SynReceived}"
proof -
  have r: "recv_inv self" "send_inv self" "core_inv n self" using inv by (simp_all add: tcb_inv_def)
  obtain s1 m where s1: "receive_data self now (tcp_seq tcp) (tcp_payload tcp) ce = Some s1" "received self s1 m"
    using receive_data_ok[OF r(1) adv near len] by blast
  note f1 = receive_data_frame[OF s1(1)]
  define s2 where "s2 = consume_pending_fin (if flag_has (tcp_flags_of tcp) FIN
      then receive_fin s1 (seq_add (tcp_seq tcp) (length (tcp_payload tcp))) else s1)"
  have v: "send_view s2 = send_view self" "core_view s2 = core_view self" using f1 by (simp_all add: s2_def fin_views)
  have "rb_free (t_rx self) \<le> 262144" using rb_free_le r(1) by (simp add: recv_inv_def)
  then have "offset_from (t_rcv_nxt s1) (t_rcv_nxt self) \<le> 262144" using s1(2) by (simp add: received_def)
  from adv_after(2)[OF adv this] have "recv_inv s2"
    unfolding s2_def using fin_steps_ok[of s1] s1(2) by (simp add: received_def)
  then have r2: "recv_inv (recompute_closing_state s2 now)"
    using recv_inv_view[OF recv_view_steps(10), of s2 now] by simp
  have st2: "t_state s2 \<notin> {SynSent, SynReceived}" using v(1) st by (simp add: send_view_def)
  have "send_inv s2" using send_inv_view[OF v(1)] r(2) by simp
  note s = recompute_send[OF this st2, of now]
  have c: "core_inv n (recompute_closing_state s2 now)"
    using core_inv_view[OF core_view_steps(13), of n s2 now] core_inv_view[OF v(2), of n] r(3) by simp
  have st3: "t_state (recompute_closing_state s2 now) \<notin> {SynSent, SynReceived}"
    unfolding recompute_state closing_state_syn by (rule st2)
  moreover have "data_and_fin self now tcp ce = Some (recompute_closing_state s2 now)"
    using s1(1) by (simp add: data_and_fin_def s2_def)
  moreover have "tcb_inv n (recompute_closing_state s2 now)"
    unfolding tcb_inv_def using s r2 c st3 by blast
  ultimately show ?thesis by blast
qed

section \<open>The segment handler\<close>

lemma ack_step_ok:
  assumes inv: "tcb_inv n self" and st: "t_state self \<noteq> SynSent"
  shows "\<exists>ok self'. ack_step self now tcp e = Some (ok, self') \<and> tcb_inv n self' \<and> t_state self' \<noteq> SynSent
    \<and> (ok \<longrightarrow> t_state self' \<noteq> SynReceived) \<and> recv_view self' = recv_view self"
proof (cases "t_state self = SynReceived")
  case True
  obtain ok s where o: "ack_syn_received self tcp = (ok, s)" by fastforce
  show ?thesis
    using ack_syn_received_ok[of self n tcp] True inv recv_inv_view[of s self] o
    by (auto simp: tcb_inv_def ack_step_def)
next
  case False
  then obtain ok s where "ack_synchronized self now tcp e = Some (ok, s)" "send_inv s" "core_inv n s"
    "recv_view s = recv_view self" "t_state s = t_state self"
    using ack_synchronized_ok[of self n now tcp e] inv st by (auto simp: tcb_inv_def)
  then show ?thesis using False st inv recv_inv_view[of s self]
    by (auto simp: tcb_inv_def ack_step_def)
qed

lemma tcb_inv_small [simp]:
  "tcb_inv n (self\<lparr>t_needs_ack := v\<rparr>) = tcb_inv n self" "tcb_inv n (challenge_ack self now) = tcb_inv n self"
  "tcb_inv n (advance_ts_recent self s ts) = tcb_inv n self" "tcb_inv n (arm_time_wait self now) = tcb_inv n self"
  by (rule tcb_inv_views; simp)+

lemma on_acceptable_ok:
  assumes inv: "tcb_inv n self" and st: "t_state self \<noteq> SynSent"
    and adv: "offset_from (t_rcv_adv self) (t_rcv_nxt self) \<le> 262144"
    and near: "seq_lt (tcp_seq tcp) (t_rcv_nxt self) \<or> offset_from (tcp_seq tcp) (t_rcv_nxt self) \<le> 262144"
    and len: "length (tcp_payload tcp) \<le> 65535"
  shows "\<exists>self'. on_acceptable self now tcp ts ce = Some self' \<and> tcb_inv n self'"
proof -
  obtain ok s where a: "ack_step self now tcp (map_option snd ts) = Some (ok, s)" "tcb_inv n s" "t_state s \<noteq> SynSent"
    "ok \<longrightarrow> t_state s \<noteq> SynReceived" "recv_view s = recv_view self"
    using ack_step_ok[OF inv st, of now tcp "map_option snd ts"] by blast
  have "t_rcv_adv s = t_rcv_adv self" "t_rcv_nxt s = t_rcv_nxt self" using a(5) by (simp_all add: recv_view_def)
  then have "ok \<Longrightarrow> \<exists>self'. data_and_fin s now tcp ce = Some self' \<and> tcb_inv n self'"
    using data_and_fin_ok[OF a(2) _ _ _ len, of now ce] a(3,4) adv near by auto
  then show ?thesis using a(1,2) inv by (cases ok) (auto simp: on_acceptable_def)
qed

section \<open>The handshake\<close>

lemma negotiate_mss:
  assumes "mss_option tcp \<noteq> Some 0" and "t_mss_advertise self \<noteq> 0" and "unat (t_mss_advertise self) \<le> 65495"
  shows "min (case mss_option tcp of Some m \<Rightarrow> m | None \<Rightarrow> MSS_DEFAULT) (t_mss_advertise self) \<noteq> 0"
    and "unat (min (case mss_option tcp of Some m \<Rightarrow> m | None \<Rightarrow> MSS_DEFAULT) (t_mss_advertise self)) \<le> 65495"
proof -
  have "(case mss_option tcp of Some m \<Rightarrow> m | None \<Rightarrow> MSS_DEFAULT) \<noteq> 0"
    using assms(1) by (auto simp: MSS_DEFAULT_def split: option.split)
  then show "min (case mss_option tcp of Some m \<Rightarrow> m | None \<Rightarrow> MSS_DEFAULT) (t_mss_advertise self) \<noteq> 0"
    using assms(2) by (simp add: min_def)
  show "unat (min (case mss_option tcp of Some m \<Rightarrow> m | None \<Rightarrow> MSS_DEFAULT) (t_mss_advertise self)) \<le> 65495"
    using assms(3) by (auto simp: min_def word_le_nat_alt split: if_splits)
qed

text \<open>The fields the handshake sets, as one record update.\<close>

lemma negotiate_fields:
  "t_state (negotiate ov self tcp) = t_state self" "t_iss (negotiate ov self tcp) = t_iss self"
  "t_snd_una (negotiate ov self tcp) = t_snd_una self" "t_snd_nxt (negotiate ov self tcp) = t_snd_nxt self"
  "t_tx (negotiate ov self tcp) = t_tx self" "t_rx (negotiate ov self tcp) = t_rx self"
  "t_scoreboard (negotiate ov self tcp) = t_scoreboard self" "t_reasm (negotiate ov self tcp) = t_reasm self"
  "t_rcv_nxt (negotiate ov self tcp) = t_rcv_nxt self" "t_rcv_adv (negotiate ov self tcp) = t_rcv_adv self"
  "t_peer_fin_seen (negotiate ov self tcp) = t_peer_fin_seen self" "t_cc_kind (negotiate ov self tcp) = t_cc_kind self"
  "t_rtt (negotiate ov self tcp) = t_rtt self" "t_mss_advertise (negotiate ov self tcp) = t_mss_advertise self"
  "t_snd_mss (negotiate ov self tcp) = min (case mss_option tcp of Some m \<Rightarrow> m | None \<Rightarrow> MSS_DEFAULT) (t_mss_advertise self)"
  "t_cc (negotiate ov self tcp) = cc_new ov (t_cc_kind self) (t_snd_mss (negotiate ov self tcp))"
  by (simp_all add: negotiate_def Let_def split: option.split)

lemma syn_sent_syn_ok:
  assumes inv: "tcb_inv n self" and st: "t_state self = SynSent" and ov: "overrides_ok ov"
    and mss: "mss_option tcp \<noteq> Some 0" and ack: "acc \<Longrightarrow> tcp_ack tcp = t_snd_nxt self"
  shows "tcb_inv n (syn_sent_syn ov self tcp acc)"
proof -
  define s0 where "s0 = self\<lparr>t_retransmit := False, t_irs := tcp_seq tcp, t_rcv_nxt := seq_add (tcp_seq tcp) 1,
      t_rcv_adv := seq_add (seq_add (tcp_seq tcp) 1) (min RX_BUFFER 0xFFFF)\<rparr>"
  define s1 where "s1 = negotiate ov s0 tcp"
  define s2 where "s2 = (if acc then s1\<lparr>t_snd_una := tcp_ack tcp, t_snd_wl2 := tcp_ack tcp, t_state := Established,
      t_rtx_deadline := None, t_needs_ack := True\<rparr>
    else s1\<lparr>t_snd_wl2 := t_iss s1, t_state := SynReceived, t_retransmit := True\<rparr>)"
  have run: "syn_sent_syn ov self tcp acc = s2" by (simp add: syn_sent_syn_def s2_def s1_def s0_def Let_def)
  have a: "send_inv self" "recv_inv self" "core_inv n self" "\<not> t_sack_enabled self" "\<not> t_peer_fin_seen self"
    using inv st by (simp_all add: tcb_inv_def)
  have b: "sacked (t_scoreboard self) = []" "rexmit (t_scoreboard self) = []" "t_snd_una self = t_iss self"
    "t_snd_nxt self \<in> {t_iss self, seq_add (t_iss self) 1}" "rb_buf (t_tx self) = []" "rb_inv (t_tx self)"
    "rb_capacity (t_tx self) = TX_BUFFER" "sb_inv (t_snd_una self) (t_snd_nxt self) (t_scoreboard self)"
    "offset_from (t_snd_nxt self) (t_snd_una self) \<le> rb_len (t_tx self) + 1"
    using a(1,4) st unfolding send_inv_def by auto
  have "sb_inv (t_snd_nxt self) (t_snd_nxt self) (t_scoreboard self)" using b(1,2) by (simp add: sb_inv_def)
  then have "send_inv s2"
    unfolding send_inv_def using b ack by (cases acc) (simp_all add: s2_def s1_def s0_def negotiate_fields)
  moreover have "recv_inv s2"
  proof -
    have r: "rb_inv (t_rx self)" "rb_capacity (t_rx self) = RX_BUFFER" "reasm_runs (t_reasm self) = []"
      "reasm_inv (t_rcv_nxt self) 1 (rb_free (t_rx self)) (t_reasm self)"
      using a(2,4,5) by (simp_all add: recv_inv_def)
    have "rb_free (t_rx self) < 2147483648" using rb_free_le[OF r(1,2)] by linarith
    note i = reasm_inv_nil[OF r(4,3) this, of "seq_add (tcp_seq tcp) 1" 1]
    have d: "offset_from (seq_add (seq_add (tcp_seq tcp) 1) 65535) (seq_add (tcp_seq tcp) 1) = 65535"
      using offset_from_add[of "seq_add (tcp_seq tcp) 1" "seq_add (tcp_seq tcp) 1" 65535] by simp
    show ?thesis unfolding recv_inv_def using r i d a(5)
      by (cases acc) (simp_all add: s2_def s1_def s0_def negotiate_fields RX_BUFFER_def adv_near_def)
  qed
  moreover have "core_inv n s2"
  proof -
    have c: "t_cc_kind self \<noteq> KCubic" "rtt_inv (t_rtt self)" "consecutive_timeouts (t_rtt self) \<le> n"
      "t_mss_advertise self \<noteq> 0" "unat (t_mss_advertise self) \<le> 65495" using a(3) by (simp_all add: core_inv_def)
    let ?m = "min (case mss_option tcp of Some m \<Rightarrow> m | None \<Rightarrow> MSS_DEFAULT) (t_mss_advertise self)"
    note m = negotiate_mss[OF mss c(4,5)]
    have k: "t_cc_kind s2 = t_cc_kind self" "t_rtt s2 = t_rtt self" "t_mss_advertise s2 = t_mss_advertise self"
      "t_snd_mss s2 = ?m" "t_cc s2 = cc_new ov (t_cc_kind self) ?m"
      by (cases acc; simp add: s2_def s1_def s0_def negotiate_fields)+
    show ?thesis unfolding core_inv_def k using c m cc_inv_new[OF m(1) ov c(1)] by blast
  qed
  moreover have "t_state s2 \<noteq> SynSent" by (simp add: s2_def)
  ultimately show ?thesis unfolding run tcb_inv_def by blast
qed

lemma send_inv_closed: "send_inv self \<Longrightarrow> send_inv (self\<lparr>t_state := Closed, t_reset := b\<rparr>)"
  by (simp add: send_inv_def)

lemma on_segment_syn_sent_ok:
  assumes inv: "tcb_inv n self" and st: "t_state self = SynSent" and ov: "overrides_ok ov"
    and mss: "mss_option tcp \<noteq> Some 0"
  shows "tcb_inv n (on_segment_syn_sent ov self tcp)"
proof -
  define acc where "acc \<longleftrightarrow> flag_has (tcp_flags_of tcp) ACK \<and> seq_gt (tcp_ack tcp) (t_iss self) \<and> seq_le (tcp_ack tcp) (t_snd_nxt self)"
  have w: "t_snd_nxt self \<in> {t_iss self, seq_add (t_iss self) 1}"
    using inv st by (simp add: tcb_inv_def send_inv_def)
  have "tcp_ack tcp = t_snd_nxt self" if acc
  proof -
    have a: "seq_gt (tcp_ack tcp) (t_iss self)" "\<not> seq_gt (tcp_ack tcp) (t_snd_nxt self)"
      using that by (simp_all add: acc_def seq_gt_not_le)
    have o: "offset_from (seq_add (t_iss self) 1) (t_iss self) = 1"
      using offset_from_add[of "t_iss self" "t_iss self" 1] by simp
    then have "offset_from (t_snd_nxt self) (t_iss self) < 2147483648" using w by auto
    from ack_window[OF this a] have "offset_from (tcp_ack tcp) (t_iss self) = offset_from (t_snd_nxt self) (t_iss self)"
      using w o by auto
    then show ?thesis by (rule offset_from_inj)
  qed
  note syn = syn_sent_syn_ok[OF inv st ov mss this]
  have k: "tcb_inv n (self\<lparr>t_pending_reset := x\<rparr>)" for x
    using tcb_inv_views[of "self\<lparr>t_pending_reset := x\<rparr>" self n] inv
    by (simp add: send_view_def recv_view_def core_view_def)
  have "send_inv (self\<lparr>t_state := Closed, t_reset := True\<rparr>)"
    using inv send_inv_closed by (simp add: tcb_inv_def)
  then have c: "tcb_inv n (self\<lparr>t_state := Closed, t_reset := True\<rparr>)"
    using inv by (simp add: tcb_inv_def recv_inv_def core_inv_def)
  show ?thesis
    unfolding on_segment_syn_sent_def Let_def acc_def[symmetric] using syn k c inv by simp
qed

lemma on_rst_ok: "tcb_inv n self \<Longrightarrow> tcb_inv n (on_rst self now seq)"
  using send_inv_closed[of self True] by (auto simp: on_rst_def) (simp add: tcb_inv_def recv_inv_def core_inv_def)

lemma on_syn_ok: "tcb_inv n self \<Longrightarrow> t_state self \<noteq> SynSent \<Longrightarrow> tcb_inv n (on_syn self now seq)"
  by (auto simp: on_syn_def) (auto simp: tcb_inv_def recv_inv_def core_inv_def send_inv_def sb_inv_def)

text \<open>
  The segments the theorems speak of: at most an IPv4 datagram's payload, no MSS option of
  zero, and \<open>seg_near\<close>.
\<close>

definition legal_segment :: "tcb \<Rightarrow> bytes \<Rightarrow> bool" where
  "legal_segment self tcp \<longleftrightarrow> length (tcp_payload tcp) \<le> 65535 \<and> mss_option tcp \<noteq> Some 0
     \<and> (t_state self = SynSent \<or> seg_near self (tcp_seq tcp))"

lemma on_segment_ok:
  assumes inv: "tcb_inv n self" and ov: "overrides_ok ov" and legal: "legal_segment self tcp"
  shows "\<exists>self'. on_segment ov self now tcp ce = Some self' \<and> tcb_inv n self'"
proof (cases "t_state self = SynSent")
  case True
  then show ?thesis using on_segment_syn_sent_ok[OF inv True ov] legal
    by (simp add: on_segment_def legal_segment_def)
next
  case False
  have l: "length (tcp_payload tcp) \<le> 65535" "seg_near self (tcp_seq tcp)" using legal False by (simp_all add: legal_segment_def)
  have sl: "seg_len tcp \<le> 65537" using l(1) by (simp add: seg_len_def)
  have acc: "\<exists>self'. on_acceptable (advance_ts_recent self (tcp_seq tcp) ts) now tcp ts ce = Some self' \<and> tcb_inv n self'"
    if "segment_acceptable self (tcp_seq tcp) (seg_len tcp)" for ts
  proof -
    have "adv_near (offset_from (t_rcv_adv self) (t_rcv_nxt self))" using inv by (simp add: tcb_inv_def recv_inv_def)
    note near = acceptable_near[OF that this l(2) sl]
    let ?s = "advance_ts_recent self (tcp_seq tcp) ts"
    have "t_state ?s = t_state self" "t_rcv_adv ?s = t_rcv_adv self" "t_rcv_nxt ?s = t_rcv_nxt self"
      by (simp_all add: advance_ts_recent_def split: option.split)
    then show ?thesis using on_acceptable_ok[of n ?s tcp now ts ce] inv False l(1) near by simp
  qed
  show ?thesis
    unfolding on_segment_def Let_def using False inv acc on_rst_ok[OF inv] on_syn_ok[OF inv False]
    by (simp split: if_split)
qed

end
