(* ===== verification/Tcb_Transmit.thy ===== *)
theory Tcb_Transmit
  imports Tcb_Segment
begin

text \<open>
  The outbound path never panics, keeps the invariant, and what it emits is a datagram
  the wire layer's parsers accept, with payload taken from the send queue at its own
  sequence numbers.
\<close>

lemma peek_bytes_eq:
  assumes "off + n \<le> rb_len (t_tx self)"
  shows "peek_bytes self off n = take n (drop off (rb_buf (t_tx self)))" and "length (peek_bytes self off n) = n"
proof -
  show "peek_bytes self off n = take n (drop off (rb_buf (t_tx self)))"
    using rb_peek_full[OF assms] by (simp add: peek_bytes_def)
  then show "length (peek_bytes self off n) = n" using assms by (simp add: rb_len_def)
qed

lemma queued_peek:
  "offset_from seq (t_snd_una self) + n \<le> rb_len (t_tx self) \<Longrightarrow>
    queued_at self seq (peek_bytes self (offset_from seq (t_snd_una self)) n)"
  using peek_bytes_eq[of "offset_from seq (t_snd_una self)" n self] by (simp add: queued_at_def)

section \<open>What a step that sends nothing leaves\<close>

definition quiet_view :: "tcb \<Rightarrow> _" where
  "quiet_view self = (send_view self, recv_view self, core_view self, t_local self, t_remote self, t_ts_enabled self)"

lemma well_formed_quiet:
  assumes "quiet_view a = quiet_view b"
  shows "well_formed_datagram a f = well_formed_datagram b f"
proof -
  have "t_local a = t_local b" "t_remote a = t_remote b" "t_rcv_nxt a = t_rcv_nxt b" "t_iss a = t_iss b"
    "t_snd_mss a = t_snd_mss b" "t_tx a = t_tx b" "t_snd_una a = t_snd_una b" "seg_opts a = seg_opts b"
    using assms by (simp_all add: quiet_view_def send_view_def recv_view_def core_view_def seg_opts_def)
  then show ?thesis by (simp add: well_formed_datagram_def queued_at_def)
qed

lemma inv_quiet: "quiet_view a = quiet_view b \<Longrightarrow> tcb_inv n a = tcb_inv n b"
  by (rule tcb_inv_views) (simp_all add: quiet_view_def)

text \<open>
  The work left, which every datagram reduces: the pending flags, twice what is still to be
  put into the window (data and one FIN), and the octets of the window not yet retransmitted
  in this recovery.
\<close>

definition send_work :: "tcb \<Rightarrow> nat" where
  "send_work self =
     2 * (rb_len (t_tx self) + 1 - offset_from (t_snd_nxt self) (t_snd_una self))
     + (offset_from (t_snd_nxt self) (t_snd_una self) - card (runs_set (t_snd_una self) (rexmit (t_scoreboard self))))"

definition tx_work :: "tcb \<Rightarrow> nat" where
  "tx_work self = send_work self + (if t_pending_reset self \<noteq> None then 1 else 0) + (if t_needs_ack self then 1 else 0)
     + (if t_retransmit self then 1 else 0) + (if t_send_probe self then 1 else 0)"

lemma send_work_view: "send_view a = send_view b \<Longrightarrow> send_work a = send_work b"
  by (simp add: send_view_def send_work_def)

text \<open>
  A step either sends a well-formed datagram and leaves less than \<open>w\<close> of work, or changes
  nothing that later steps read. The receive side only sees its advertised edge move right.
\<close>

definition step_ok :: "nat \<Rightarrow> nat \<Rightarrow> tcb \<Rightarrow> emission \<Rightarrow> bool" where
  "step_ok n w self em \<longleftrightarrow> (\<exists>out self'. em = Some (out, self') \<and> tcb_inv n self' \<and> recv_edge self self'
     \<and> (\<forall>f. out = Some f \<longrightarrow> well_formed_datagram self f \<and> tx_work self' < w)
     \<and> (out = None \<longrightarrow> quiet_view self' = quiet_view self \<and> tx_work self' \<le> w))"

lemma recv_edge_view:
  assumes "recv_view a = recv_view b"
  shows "recv_inv a \<Longrightarrow> recv_edge a b" and "recv_edge a x = recv_edge b x" and "recv_edge x a = recv_edge x b"
  using assms by (simp_all add: recv_view_def recv_edge_def)

lemma recv_edge_quiet: "quiet_view a = quiet_view b \<Longrightarrow> recv_edge a b"
  by (simp add: recv_view_def recv_edge_def quiet_view_def)

lemma recv_edge_from: "quiet_view a = quiet_view b \<Longrightarrow> recv_edge a x = recv_edge b x"
  by (rule recv_edge_view(2)) (simp add: quiet_view_def)

lemma step_quiet:
  assumes "tcb_inv n self" and "quiet_view self' = quiet_view self" and "tx_work self' \<le> w"
  shows "step_ok n w self (Some (None, self'))"
  unfolding step_ok_def using inv_quiet[OF assms(2), of n] recv_edge_quiet[OF assms(2)[symmetric]] assms by simp

lemma step_from:
  assumes "quiet_view self' = quiet_view self" and "step_ok n w self' em"
  shows "step_ok n w self em"
  using assms(2) unfolding step_ok_def well_formed_quiet[OF assms(1)] recv_edge_from[OF assms(1)] assms(1) .

lemma step_if: "(b \<Longrightarrow> step_ok n w s x) \<Longrightarrow> (\<not> b \<Longrightarrow> step_ok n w s y) \<Longrightarrow> step_ok n w s (if b then x else y)"
  by simp

lemma or_else_ok:
  assumes "step_ok n w self first"
    and "\<And>self'. quiet_view self' = quiet_view self \<Longrightarrow> tcb_inv n self' \<Longrightarrow> tx_work self' \<le> w \<Longrightarrow> step_ok n w self' (rest self')"
  shows "step_ok n w self (or_else first rest)"
proof -
  obtain out s1 where a: "first = Some (out, s1)" "tcb_inv n s1" "recv_edge self s1"
    "\<forall>f. out = Some f \<longrightarrow> well_formed_datagram self f \<and> tx_work s1 < w"
    "out = None \<longrightarrow> quiet_view s1 = quiet_view self \<and> tx_work s1 \<le> w"
    using assms(1) unfolding step_ok_def by blast
  show ?thesis
  proof (cases out)
    case None
    then have "or_else first rest = rest s1" using a(1) by (simp add: or_else_def)
    then show ?thesis using step_from[of s1 self n w] assms(2)[of s1] a None by simp
  next
    case (Some f)
    then have "or_else first rest = Some (Some f, s1)" using a(1) by (simp add: or_else_def)
    then show ?thesis unfolding step_ok_def using a Some by simp
  qed
qed

lemma built_views:
  assumes "built self self'"
  shows "send_view self' = send_view self" "core_view self' = core_view self"
    "recv_inv self \<Longrightarrow> recv_inv self' \<and> recv_edge self self'"
    "t_peer_fin_seen self' = t_peer_fin_seen self" "tx_work self' = tx_work self"
proof -
  have "self' = self\<lparr>t_delayed_ack_deadline := None, t_unacked_segs := 0, t_rcv_adv := t_rcv_adv self'\<rparr>"
    using assms by (simp add: built_def)
  then obtain a where e: "self' = self\<lparr>t_delayed_ack_deadline := None, t_unacked_segs := 0, t_rcv_adv := a\<rparr>" by blast
  show "send_view self' = send_view self" "core_view self' = core_view self" "t_peer_fin_seen self' = t_peer_fin_seen self"
    "tx_work self' = tx_work self"
    by (simp_all add: e send_view_def core_view_def tx_work_def send_work_def)
  show "recv_inv self \<Longrightarrow> recv_inv self' \<and> recv_edge self self'" using assms by (simp add: built_def)
qed

lemma built_inv: "built self self' \<Longrightarrow> tcb_inv n self \<Longrightarrow> tcb_inv n self'"
  using built_views[of self self'] send_inv_view[of self' self] core_inv_view[of self' self n]
  by (auto simp: tcb_inv_def send_view_def)

lemma emit_ok:
  assumes inv: "tcb_inv n self" and ext: "\<not> flag_has extra RST" "flag_has extra SYN \<Longrightarrow> payload = [] \<and> seq = t_iss self"
    and q: "queued_at self seq payload" and len: "length payload \<le> max 1 (unat (t_snd_mss self) - seg_opts self)"
    and after: "\<And>s. built self s \<Longrightarrow> tcb_inv n (after s) \<and> recv_view (after s) = recv_view s \<and> tx_work (after s) < w"
  shows "step_ok n w self (emit (build self seq extra payload) after)"
proof -
  have i: "recv_inv self" "unat (t_snd_mss self) \<le> 65495" using inv by (simp_all add: tcb_inv_def core_inv_def)
  from build_ok[OF i(1) ext q len i(2)] obtain f s where
    b: "build self seq extra payload = Some (f, s)" "built self s" "well_formed_datagram self f" by blast
  have "recv_edge self (after s)"
    using built_views(3)[OF b(2) i(1)] after[OF b(2)] recv_edge_view(3)[of "after s" s self] by blast
  then show ?thesis using b after[OF b(2)] unfolding emit_def step_ok_def by simp
qed

lemma flag_bits [simp]:
  "\<not> flag_has 0 RST" "\<not> flag_has 0 SYN" "\<not> flag_has PSH RST" "\<not> flag_has PSH SYN" "\<not> flag_has FIN RST"
  "\<not> flag_has FIN SYN" "\<not> flag_has SYN RST" "flag_has SYN SYN"
  by (simp_all add: flag_has_def RST_def SYN_def PSH_def FIN_def)

lemma psh_flags [simp]: "\<not> flag_has (if b then PSH else 0) RST" "\<not> flag_has (if b then PSH else 0) SYN"
  by simp_all

lemma start_rtx_inv [simp]: "tcb_inv n (start_rtx self now) = tcb_inv n self"
  by (rule tcb_inv_views) simp_all

lemma queued_nil [simp]: "queued_at self seq []"
  by (simp add: queued_at_def)

lemma start_rtx_work [simp]: "tx_work (start_rtx self now) = tx_work self"
  by (simp add: start_rtx_def tx_work_def send_work_def)

lemma pacing_work [simp]:
  "tx_work (self\<lparr>t_pace_deadline := d\<rparr>) = tx_work self" "tx_work (arm_persist self now) = tx_work self"
  "tx_work (self\<lparr>t_cur_tsval := v\<rparr>) = tx_work self" "tx_work (arm_pace self now rate a) = tx_work self"
  "tx_work (snd (pace_allowance self now rate mp)) = tx_work self"
  by (simp_all add: tx_work_def send_work_def arm_persist_def arm_pace_def pace_allowance_def Let_def)

section \<open>Step 0: the oldest segment\<close>

lemma transmit_oldest_run:
  assumes "t_retransmit self" and "0 < inflight" and "s = self\<lparr>t_retransmit := False\<rparr>"
    and "k = min (min inflight (rb_len (t_tx s))) (max_segment_payload s)"
  shows "transmit_oldest self now inflight =
    (if 0 < k then emit (build s (t_snd_una s) (if k = rb_len (t_tx s) then PSH else 0) (peek_bytes s 0 k))
        (\<lambda>self. start_rtx self now)
     else case t_fin_seq s of
        Some fin_seq \<Rightarrow> if \<not> t_fin_acked s \<and> t_snd_una s = fin_seq
          then emit (build s fin_seq FIN []) (\<lambda>self. start_rtx self now) else Some (None, s)
      | None \<Rightarrow> Some (None, s))"
  unfolding transmit_oldest_def Let_def assms(3,4) using assms(1,2) by (simp only: simp_thms if_True)

lemma transmit_oldest_ok:
  assumes inv: "tcb_inv n self" and w: "tx_work self \<le> w"
  shows "step_ok n w self (transmit_oldest self now (offset_from (t_snd_nxt self) (t_snd_una self)))"
proof (cases "t_retransmit self \<and> 0 < offset_from (t_snd_nxt self) (t_snd_una self)")
  case True
  define s where "s = self\<lparr>t_retransmit := False\<rparr>"
  have q: "quiet_view s = quiet_view self" by (simp add: s_def quiet_view_def send_view_def recv_view_def core_view_def)
  have i: "tcb_inv n s" using inv_quiet[OF q] inv by simp
  have ws: "tx_work s < w" using True w by (simp add: s_def tx_work_def send_work_def)
  have sent: "tcb_inv n (start_rtx x now) \<and> recv_view (start_rtx x now) = recv_view x \<and> tx_work (start_rtx x now) < w"
    if "built s x" for x using built_inv[OF that i] built_views(5)[OF that] ws by simp
  define k where "k = min (min (offset_from (t_snd_nxt self) (t_snd_una self)) (rb_len (t_tx s))) (max_segment_payload s)"
  have k: "k \<le> rb_len (t_tx s)" "k \<le> unat (t_snd_mss s) - seg_opts s" by (simp_all add: k_def max_segment_payload_opts)
  have b: "queued_at s (t_snd_una s) (peek_bytes s 0 k)" "length (peek_bytes s 0 k) = k"
    using queued_peek[of "t_snd_una s" s k] peek_bytes_eq[of 0 k s] k(1) by simp_all
  have d: "step_ok n w s (emit (build s (t_snd_una s) (if k = rb_len (t_tx s) then PSH else 0) (peek_bytes s 0 k))
        (\<lambda>self. start_rtx self now))"
    by (rule emit_ok[OF i]) (use b k sent in auto)
  have f: "step_ok n w s (emit (build s f FIN []) (\<lambda>self. start_rtx self now))" for f
    by (rule emit_ok[OF i]) (use sent in auto)
  have "step_ok n w s (transmit_oldest self now (offset_from (t_snd_nxt self) (t_snd_una self)))"
    unfolding transmit_oldest_run[OF True[THEN conjunct1] True[THEN conjunct2] s_def k_def]
    using d f step_quiet[OF i refl, of w] ws by (auto split: option.split)
  then show ?thesis by (rule step_from[OF q])
next
  case False
  then have "transmit_oldest self now (offset_from (t_snd_nxt self) (t_snd_una self)) = Some (None, self)"
    by (simp only: transmit_oldest_def if_False)
  then show ?thesis using step_quiet[OF inv refl w] by simp
qed

section \<open>Step 0.5: holes\<close>

lemma next_seg_window:
  assumes "sb_inv una nxt sb" and "next_seg sb una nxt smss = Some (s, r)"
  shows "offset_from s una < offset_from nxt una" and "offset_from s una \<notin> runs_set una (rexmit sb)"
proof -
  note w = sb_inv_window[OF assms(1)]
  have "offset_from s una < offset_from nxt una \<and> \<not> is_rexmit sb s"
    using assms(2) rule1_least[OF w, of smss] rule4_least[OF w]
    by (auto simp: next_seg_def least_octet_def rule1_def rule4_def split: option.splits if_splits)
  moreover have "offset_from s una < 2147483648" "runs_in_window una (rexmit sb)"
    using calculation w by (simp_all add: sb_window_def)
  ultimately show "offset_from s una < offset_from nxt una" and "offset_from s una \<notin> runs_set una (rexmit sb)"
    using in_runs_iff[of una "rexmit sb" s] by (simp_all add: is_rexmit_def)
qed

text \<open>Marking a hole that was not yet retransmitted leaves less of the window to retransmit.\<close>

lemma mark_rexmit_card:
  assumes sb: "sb_inv una nxt sb" and l: "offset_from l una < offset_from r una" "offset_from r una \<le> offset_from nxt una"
    and new: "offset_from l una \<notin> runs_set una (rexmit sb)"
  shows "offset_from nxt una - card (runs_set una (rexmit (mark_rexmit sb l r)))
    < offset_from nxt una - card (runs_set una (rexmit sb))"
proof -
  let ?old = "runs_set una (rexmit sb)" and ?l = "offset_from l una"
  let ?new = "{?l ..< offset_from r una} \<union> ?old"
  have old: "?old \<subseteq> {..< offset_from nxt una}"
    using sb edges_below_runs_set[of una 0 "rexmit sb"] by (simp add: sb_inv_def)
  then have fin: "finite ?old" by (rule finite_subset) simp
  have ins: "card (insert ?l ?old) = Suc (card ?old)" using fin new by simp
  moreover have "insert ?l ?old \<subseteq> {..< offset_from nxt una}" using old l by auto
  then have "card (insert ?l ?old) \<le> offset_from nxt una" using card_mono[of "{..< offset_from nxt una}"] by simp
  moreover have "card (insert ?l ?old) \<le> card ?new" using fin l(1) by (intro card_mono) auto
  ultimately show ?thesis unfolding mark_rexmit_inv(2)[OF sb l] by linarith
qed

lemma unsacked_run_le:
  assumes sb: "sb_inv una nxt sb" and s: "offset_from s una < offset_from nxt una"
  shows "offset_from s una + unsacked_run_len sb s nxt \<le> offset_from nxt una"
proof -
  have n: "offset_from nxt una < 2147483648" using sb by (simp add: sb_inv_def)
  let ?f = "\<lambda>e (l, _ :: seqnum). if seq_gt l s \<and> seq_lt l e then l else e"
  have fold: "offset_from (foldl ?f e xs) una \<le> offset_from nxt una"
    if "offset_from e una \<le> offset_from nxt una" "\<forall>(l, r) \<in> set xs. offset_from l una < 2147483648" for e xs
    using that
  proof (induction xs arbitrary: e)
    case (Cons x xs)
    obtain l r where x: "x = (l, r)" by (cases x)
    have "offset_from (?f e (l, r)) una \<le> offset_from nxt una"
      using Cons.prems n by (auto simp: x seq_window[where b = una])
    then show ?case using Cons.IH[of "?f e (l, r)"] Cons.prems(2) by (simp add: x)
  qed simp
  have "\<forall>(l, r) \<in> set (sacked sb). offset_from l una < 2147483648"
    using sb_inv_window[OF sb] by (auto simp: sb_window_def runs_in_window_def)
  from fold[OF _ this, of nxt] have e: "offset_from (foldl ?f nxt (sacked sb)) una \<le> offset_from nxt una" by simp
  define e where "e = foldl ?f nxt (sacked sb)"
  have eb: "offset_from e una \<le> offset_from nxt una" using e by (simp add: e_def)
  have "offset_from e s = offset_from e una - offset_from s una" if "\<not> seq_le e s"
    using offset_from_rebase[of e s una] that eb s n by (auto simp: seq_window[where b = una])
  then show ?thesis using eb s n
    unfolding unsacked_run_len_def Let_def e_def[symmetric] by (auto simp: seq_window[where b = una])
qed

lemma marked_hole_ok:
  fixes self seq k resc now
  defines "sb \<equiv> mark_rexmit (t_scoreboard self) seq (seq_add seq k)"
  defines "after \<equiv> start_rtx (self\<lparr>t_scoreboard := if resc then set_rescue_done sb else sb, t_retransmitted := True,
      t_rtt_sample := None\<rparr>) now"
  assumes inv: "tcb_inv n self" and st: "t_state self \<notin> {SynSent, SynReceived}" "t_sack_enabled self"
    and k: "0 < k" "offset_from seq (t_snd_una self) + k \<le> offset_from (t_snd_nxt self) (t_snd_una self)"
    and new: "offset_from seq (t_snd_una self) \<notin> runs_set (t_snd_una self) (rexmit (t_scoreboard self))"
  shows "tcb_inv n after" and "recv_view after = recv_view self" and "tx_work after < tx_work self"
proof -
  let ?una = "t_snd_una self" and ?nxt = "t_snd_nxt self"
  have sbi: "sb_inv ?una ?nxt (t_scoreboard self)" using inv by (simp add: tcb_inv_def send_inv_def)
  have "offset_from seq ?una + k < 4294967296" using k(2) offset_from_bound[of ?nxt ?una] by linarith
  from offset_from_add[OF this] have w: "offset_from seq ?una < offset_from (seq_add seq k) ?una"
    "offset_from (seq_add seq k) ?una \<le> offset_from ?nxt ?una" using k by simp_all
  define sb' where "sb' = (if resc then set_rescue_done sb else sb)"
  have i: "sb_inv ?una ?nxt sb'"
    using mark_rexmit_inv(1)[OF sbi w] sb_inv_episode(4) by (simp add: sb'_def sb_def)
  have rx: "rexmit sb' = rexmit sb" by (simp add: sb'_def set_rescue_done_def)
  have c: "offset_from ?nxt ?una - card (runs_set ?una (rexmit sb'))
      < offset_from ?nxt ?una - card (runs_set ?una (rexmit (t_scoreboard self)))"
    unfolding rx sb_def by (rule mark_rexmit_card[OF sbi w new])
  have e: "after = start_rtx (self\<lparr>t_scoreboard := sb', t_retransmitted := True, t_rtt_sample := None\<rparr>) now"
    by (simp only: after_def sb'_def)
  have "send_inv (self\<lparr>t_scoreboard := sb', t_retransmitted := True, t_rtt_sample := None\<rparr>)"
    using inv i st by (simp add: tcb_inv_def send_inv_def)
  then have "tcb_inv n (self\<lparr>t_scoreboard := sb', t_retransmitted := True, t_rtt_sample := None\<rparr>)"
    using inv by (simp add: tcb_inv_def recv_inv_def core_inv_def)
  then show "tcb_inv n after" unfolding e by simp
  show "recv_view after = recv_view self" unfolding e by (simp add: recv_view_def start_rtx_def)
  show "tx_work after < tx_work self"
    unfolding e start_rtx_work using c by (simp add: tx_work_def send_work_def split del: if_split)
qed

lemma transmit_hole_ok:
  assumes inv: "tcb_inv n self" and st: "t_state self \<notin> {SynSent, SynReceived}"
    and mp: "max_payload = max_segment_payload self" and w: "tx_work self \<le> w"
  shows "step_ok n w self (transmit_hole self now max_payload)"
proof (cases "t_sack_enabled self \<and> in_recovery (t_scoreboard self)
    \<and> sb_pipe (t_scoreboard self) (t_snd_una self) (t_snd_nxt self) (unat (t_snd_mss self)) < cc_cwnd (t_cc self)")
  case False
  then have "transmit_hole self now max_payload = Some (None, self)"
    unfolding transmit_hole_def Let_def
    by (cases "t_sack_enabled self \<and> in_recovery (t_scoreboard self)") (simp_all only: if_True if_False simp_thms)
  then show ?thesis using step_quiet[OF inv refl w] by simp
next
  case go: True
  have sb: "sb_inv (t_snd_una self) (t_snd_nxt self) (t_scoreboard self)" using inv by (simp add: tcb_inv_def send_inv_def)
  show ?thesis
  proof (cases "next_seg (t_scoreboard self) (t_snd_una self) (t_snd_nxt self) (unat (t_snd_mss self))")
    case None
    then have "transmit_hole self now max_payload = Some (None, self)"
      unfolding transmit_hole_def Let_def using go by simp
    then show ?thesis using step_quiet[OF inv refl w] by simp
  next
    case (Some p)
    obtain seq resc where p: "p = (seq, resc)" by (cases p)
    define off where "off = offset_from seq (t_snd_una self)"
    define k where "k = min (min (unsacked_run_len (t_scoreboard self) seq (t_snd_nxt self)) max_payload) (rb_len (t_tx self) - off)"
    define after where "after = (\<lambda>s. let sb = mark_rexmit (t_scoreboard s) seq (seq_add seq k);
            sb = (if resc then set_rescue_done sb else sb)
        in start_rtx (s\<lparr>t_scoreboard := sb, t_retransmitted := True, t_rtt_sample := None\<rparr>) now)"
    have run: "transmit_hole self now max_payload = (if 0 < k then
          emit (build self seq (if off + k = rb_len (t_tx self) then PSH else 0) (peek_bytes self off k)) after
        else Some (None, self))"
      unfolding transmit_hole_def Let_def after_def off_def k_def using go Some p by simp
    have "step_ok n w self (emit (build self seq (if off + k = rb_len (t_tx self) then PSH else 0) (peek_bytes self off k)) after)"
      if k0: "0 < k"
    proof (rule emit_ok[OF inv])
      have "k \<le> rb_len (t_tx self) - off" by (simp add: k_def)
      then have in_q: "off + k \<le> rb_len (t_tx self)" using k0 by linarith
      show "queued_at self seq (peek_bytes self off k)" using queued_peek[of seq self k] in_q by (simp add: off_def)
      show "length (peek_bytes self off k) \<le> max 1 (unat (t_snd_mss self) - seg_opts self)"
        unfolding peek_bytes_eq(2)[OF in_q] unfolding k_def mp max_segment_payload_opts by linarith
      fix s assume s: "built self s"
      have f: "t_snd_una s = t_snd_una self" "t_snd_nxt s = t_snd_nxt self" "t_scoreboard s = t_scoreboard self"
        "t_state s = t_state self" "t_sack_enabled s = t_sack_enabled self"
        using built_views(1)[OF s] by (simp_all add: send_view_def)
      have "k \<le> unsacked_run_len (t_scoreboard self) seq (t_snd_nxt self)" by (simp add: k_def)
      then have b: "offset_from seq (t_snd_una self) + k \<le> offset_from (t_snd_nxt self) (t_snd_una self)"
        using unsacked_run_le[OF sb next_seg_window(1)[OF sb Some[unfolded p]]] by linarith
      note new = next_seg_window(2)[OF sb Some[unfolded p]]
      note m = marked_hole_ok[OF built_inv[OF s inv], unfolded f, OF st _ k0 b new, of resc now]
      have "after s = start_rtx (s\<lparr>t_scoreboard := if resc then set_rescue_done (mark_rexmit (t_scoreboard self) seq (seq_add seq k))
          else mark_rexmit (t_scoreboard self) seq (seq_add seq k), t_retransmitted := True, t_rtt_sample := None\<rparr>) now"
        by (simp only: after_def Let_def f)
      then show "tcb_inv n (after s) \<and> recv_view (after s) = recv_view s \<and> tx_work (after s) < w"
        using m built_views(5)[OF s] w go by simp
    qed simp_all
    then show ?thesis unfolding run using step_quiet[OF inv refl w] by simp
  qed
qed

section \<open>Step 1: new data\<close>

lemma pacing_quiet:
  "quiet_view (snd (pace_allowance self now rate mp)) = quiet_view self" "quiet_view (arm_pace self now rate a) = quiet_view self"
  "quiet_view (self\<lparr>t_pace_deadline := d\<rparr>) = quiet_view self" "quiet_view (arm_persist self now) = quiet_view self"
  "quiet_view (self\<lparr>t_send_probe := b\<rparr>) = quiet_view self" "quiet_view (self\<lparr>t_cur_tsval := v\<rparr>) = quiet_view self"
  "quiet_view (self\<lparr>t_pending_reset := x\<rparr>) = quiet_view self" "quiet_view (self\<lparr>t_needs_ack := b\<rparr>) = quiet_view self"
  "quiet_view (self\<lparr>t_retransmit := b\<rparr>) = quiet_view self"
  by (simp_all add: quiet_view_def send_view_def recv_view_def core_view_def pace_allowance_def arm_pace_def
      arm_persist_def Let_def)

lemma pace_gate_quiet:
  assumes "pace_gate self now allowed unsent mp = (a, s)"
  shows "quiet_view s = quiet_view self" and "a \<le> allowed" and "tx_work s = tx_work self"
proof -
  have "quiet_view s = quiet_view self \<and> a \<le> allowed \<and> tx_work s = tx_work self"
  proof (cases "cc_pacing_rate (t_cc self)")
    case (Some rate)
    obtain p s1 where p: "pace_allowance (self\<lparr>t_pace_deadline := None\<rparr>) now rate mp = (p, s1)" by fastforce
    have q: "quiet_view s1 = quiet_view self" "tx_work s1 = tx_work self"
      using pacing_quiet(1)[of "self\<lparr>t_pace_deadline := None\<rparr>" now rate mp]
        pacing_work(5)[of "self\<lparr>t_pace_deadline := None\<rparr>" now rate mp] p
      by (simp_all add: pacing_quiet del: pacing_work(5))
    have "a = min allowed p" "s = (if p < allowed \<and> 0 < unsent then arm_pace s1 now rate p else s1)"
      using assms Some p by (simp_all add: pace_gate_def Let_def)
    then show ?thesis using q by (simp add: pacing_quiet)
  qed (use assms in \<open>simp add: pace_gate_def\<close>)
  then show "quiet_view s = quiet_view self" and "a \<le> allowed" and "tx_work s = tx_work self" by simp_all
qed

lemma snd_nxt_advance_ok:
  assumes inv: "tcb_inv n self" and st: "t_state self \<notin> {SynSent, SynReceived}"
    and k: "offset_from (t_snd_nxt self) (t_snd_una self) + k \<le> rb_len (t_tx self) + 1"
  shows "tcb_inv n (self\<lparr>t_snd_nxt := seq_add (t_snd_nxt self) k\<rparr>)"
    and "0 < k \<Longrightarrow> tx_work (self\<lparr>t_snd_nxt := seq_add (t_snd_nxt self) k\<rparr>) < tx_work self"
proof -
  have s: "send_inv self" using inv by (simp add: tcb_inv_def)
  then have "rb_len (t_tx self) \<le> 262144" by (simp add: send_inv_def rb_inv_def rb_len_def TX_BUFFER_def)
  then have o: "offset_from (seq_add (t_snd_nxt self) k) (t_snd_una self) = offset_from (t_snd_nxt self) (t_snd_una self) + k"
    "offset_from (t_snd_nxt self) (t_snd_una self) + k < 2147483648"
    using offset_from_add[of "t_snd_nxt self" "t_snd_una self" k] k by simp_all
  then have "sb_inv (t_snd_una self) (seq_add (t_snd_nxt self) k) (t_scoreboard self)"
    using sb_inv_advance[of "t_snd_una self" "t_snd_nxt self" "t_scoreboard self" "seq_add (t_snd_nxt self) k"] s
    by (simp add: send_inv_def)
  then have "send_inv (self\<lparr>t_snd_nxt := seq_add (t_snd_nxt self) k\<rparr>)" using s st o k by (simp add: send_inv_def)
  then show "tcb_inv n (self\<lparr>t_snd_nxt := seq_add (t_snd_nxt self) k\<rparr>)"
    using inv by (simp add: tcb_inv_def recv_inv_def core_inv_def)
  show "0 < k \<Longrightarrow> tx_work (self\<lparr>t_snd_nxt := seq_add (t_snd_nxt self) k\<rparr>) < tx_work self"
    using k o(1) by (simp add: tx_work_def send_work_def)
qed

lemma sent_new_data_ok:
  assumes inv: "tcb_inv n self" and st: "t_state self \<notin> {SynSent, SynReceived}"
    and k: "offset_from (t_snd_nxt self) (t_snd_una self) + k \<le> rb_len (t_tx self) + 1" and k0: "0 < k"
  shows "tcb_inv n (sent_new_data self now k inflight al) \<and> recv_view (sent_new_data self now k inflight al) = recv_view self
    \<and> tx_work (sent_new_data self now k inflight al) < tx_work self"
proof -
  define s1 where "s1 = self\<lparr>t_snd_nxt := seq_add (t_snd_nxt self) k\<rparr>"
  define s2 where "s2 = (if t_rtt_sample s1 = None \<and> \<not> t_retransmitted s1
      then s1\<lparr>t_rtt_sample := Some (now, t_snd_nxt s1)\<rparr> else s1)"
  define s3 where "s3 = (if cc_pacing_rate (t_cc s2) \<noteq> None then s2\<lparr>t_pace_tokens := t_pace_tokens s2 - k\<rparr> else s2)"
  define c where "c = cc_on_transmit (t_cc s3) now (t_snd_nxt s3) k inflight al"
  have i1: "tcb_inv n s1" unfolding s1_def by (rule snd_nxt_advance_ok(1)[OF inv st k])
  have q: "quiet_view s3 = quiet_view s1" by (simp add: s3_def s2_def quiet_view_def send_view_def recv_view_def core_view_def)
  have i3: "tcb_inv n s3" using inv_quiet[OF q] i1 by simp
  have "cc_inv c" unfolding c_def by (rule cc_transmit_inv) (use i3 in \<open>simp add: tcb_inv_def core_inv_def\<close>)
  then have a: "tcb_inv n (s3\<lparr>t_cc := c\<rparr>)"
    using i3 core_inv_cc[of n s3 c] by (simp add: tcb_inv_def send_inv_def recv_inv_def)
  have "tx_work (s3\<lparr>t_cc := c\<rparr>) = tx_work s1" by (simp add: s3_def s2_def tx_work_def send_work_def)
  moreover have "tx_work s1 < tx_work self" unfolding s1_def by (rule snd_nxt_advance_ok(2)[OF inv st k k0])
  moreover have "recv_view (s3\<lparr>t_cc := c\<rparr>) = recv_view s3" by (simp add: recv_view_def)
  moreover have "recv_view s3 = recv_view self" using q by (simp add: quiet_view_def s1_def recv_view_def)
  ultimately show ?thesis
    unfolding sent_new_data_def Let_def s1_def[symmetric] s2_def[symmetric] s3_def[symmetric] c_def[symmetric]
    using a by simp
qed

lemma max_payload_quiet: "quiet_view a = quiet_view b \<Longrightarrow> max_segment_payload a = max_segment_payload b"
  by (simp add: max_segment_payload_opts seg_opts_def quiet_view_def send_view_def recv_view_def core_view_def)

lemma built_after_ok:
  assumes "tcb_inv n self" and "t_state self \<notin> {SynSent, SynReceived}"
    and "offset_from (t_snd_nxt self) (t_snd_una self) + k \<le> rb_len (t_tx self) + 1" and "built self s" and "0 < k"
  shows "tcb_inv n (sent_new_data s now k inflight al) \<and> recv_view (sent_new_data s now k inflight al) = recv_view s
    \<and> tx_work (sent_new_data s now k inflight al) < tx_work self"
proof -
  have "t_state s = t_state self" "t_snd_nxt s = t_snd_nxt self" "t_snd_una s = t_snd_una self" "t_tx s = t_tx self"
    using built_views(1)[OF assms(4)] by (simp_all add: send_view_def)
  then show ?thesis
    using sent_new_data_ok[OF built_inv[OF assms(4,1)] _ _ assms(5)] built_views(5)[OF assms(4)] assms(2,3) by simp
qed

lemma transmit_new_ok:
  assumes inv: "tcb_inv n self" and st: "t_state self \<notin> {SynSent, SynReceived}"
    and mp: "max_payload = max_segment_payload self" and w: "tx_work self \<le> w"
  shows "step_ok n w self (transmit_new self now (offset_from (t_snd_nxt self) (t_snd_una self)) max_payload)"
proof -
  define inflight where "inflight = offset_from (t_snd_nxt self) (t_snd_una self)"
  define sent where "sent = min inflight (rb_len (t_tx self))"
  define unsent where "unsent = rb_len (t_tx self) - sent"
  define room where "room = min (cc_cwnd (t_cc self) - tx_pipe self inflight) (t_snd_wnd self - inflight)"
  obtain a s where g: "pace_gate self now room unsent max_payload = (a, s)" by fastforce
  note q = pace_gate_quiet(1)[OF g]
  have ws: "tx_work s \<le> w" using pace_gate_quiet(3)[OF g] w by simp
  have i: "tcb_inv n s" using inv_quiet[OF q] inv by simp
  have f: "t_snd_una s = t_snd_una self" "t_snd_nxt s = t_snd_nxt self" "t_tx s = t_tx self" "t_state s = t_state self"
    using q by (simp_all add: quiet_view_def send_view_def)
  have mps: "max_payload = unat (t_snd_mss s) - seg_opts s"
    using max_payload_quiet[OF q] by (simp add: mp max_segment_payload_opts)
  define k where "k = min (min a unsent) max_payload"
  define al where "al \<longleftrightarrow> k = unsent \<and> k < room"
  define p where "p = arm_persist s now"
  have pq: "quiet_view (p\<lparr>t_send_probe := False\<rparr>) = quiet_view s" by (simp add: p_def pacing_quiet)
  have run: "transmit_new self now inflight max_payload =
      (if 0 < a
       then if 0 < k
            then emit (build s (t_snd_nxt s) (if sent + k = rb_len (t_tx s) then PSH else 0) (peek_bytes s sent k))
                   (\<lambda>x. sent_new_data x now k inflight al)
            else Some (None, s)
       else if 0 < unsent \<and> inflight = 0 \<and> t_snd_wnd self - inflight = 0
       then if t_send_probe p
            then emit (build (p\<lparr>t_send_probe := False\<rparr>) (t_snd_una (p\<lparr>t_send_probe := False\<rparr>)) 0
                   (peek_bytes (p\<lparr>t_send_probe := False\<rparr>) 0 1)) id
            else Some (None, p)
       else Some (None, s))"
    unfolding transmit_new_def Let_def sent_def[symmetric] unsent_def[symmetric] room_def[symmetric] g split_conv
      k_def[symmetric] al_def p_def f by (rule refl)
  have new: "step_ok n w s (emit (build s (t_snd_nxt s) (if sent + k = rb_len (t_tx s) then PSH else 0) (peek_bytes s sent k))
      (\<lambda>x. sent_new_data x now k inflight al))" if k0: "0 < k"
  proof (rule emit_ok[OF i])
    have ku: "k \<le> unsent" "0 < unsent" using k0 by (simp_all add: k_def)
    then have sent: "sent = inflight" "sent + k \<le> rb_len (t_tx s)" by (auto simp: sent_def unsent_def f)
    have o: "offset_from (t_snd_nxt s) (t_snd_una s) = sent" using sent by (simp add: f inflight_def)
    show "queued_at s (t_snd_nxt s) (peek_bytes s sent k)"
      using queued_peek[of "t_snd_nxt s" s k] sent(2) unfolding o by blast
    show "length (peek_bytes s sent k) \<le> max 1 (unat (t_snd_mss s) - seg_opts s)"
      unfolding peek_bytes_eq(2)[OF sent(2)] unfolding k_def mps by linarith
    fix x assume "built s x"
    then show "tcb_inv n (sent_new_data x now k inflight al) \<and> recv_view (sent_new_data x now k inflight al) = recv_view x
        \<and> tx_work (sent_new_data x now k inflight al) < w"
      using built_after_ok[OF i, of k x now inflight al] st sent(2) o k0 ws by (simp add: f)
  qed simp_all
  have probe: "step_ok n w s (emit (build (p\<lparr>t_send_probe := False\<rparr>) (t_snd_una (p\<lparr>t_send_probe := False\<rparr>)) 0
      (peek_bytes (p\<lparr>t_send_probe := False\<rparr>) 0 1)) id)" if u: "0 < unsent" and pr: "t_send_probe p"
  proof (rule step_from[OF pq])
    let ?p = "p\<lparr>t_send_probe := False\<rparr>"
    have ip: "tcb_inv n ?p" using inv_quiet[OF pq] i by simp
    have "t_tx ?p = t_tx self" using pq f(3) by (simp add: quiet_view_def send_view_def)
    then have l: "0 + 1 \<le> rb_len (t_tx ?p)" using u by (simp add: unsent_def)
    show "step_ok n w ?p (emit (build ?p (t_snd_una ?p) 0 (peek_bytes ?p 0 1)) id)"
    proof (rule emit_ok[OF ip])
      show "queued_at ?p (t_snd_una ?p) (peek_bytes ?p 0 1)"
        using queued_peek[of "t_snd_una ?p" ?p 1] l by (simp only: offset_from_self)
      show "length (peek_bytes ?p 0 1) \<le> max 1 (unat (t_snd_mss ?p) - seg_opts ?p)"
        using peek_bytes_eq(2)[OF l] by simp
      have "tx_work ?p < tx_work p" using pr by (simp add: tx_work_def send_work_def)
      moreover have "tx_work p \<le> w" using ws by (simp add: p_def)
      ultimately show "built ?p x \<Longrightarrow> tcb_inv n (id x) \<and> recv_view (id x) = recv_view x \<and> tx_work (id x) < w" for x
        using built_inv[OF _ ip] built_views(5) by simp
    qed simp_all
  qed
  have pq0: "quiet_view p = quiet_view s" by (simp add: p_def pacing_quiet)
  have wp: "tx_work p \<le> w" using ws by (simp add: p_def)
  have "step_ok n w s (transmit_new self now inflight max_payload)"
    unfolding run by (intro step_if new probe step_quiet[OF i refl ws] step_quiet[OF i pq0 wp]) simp_all
  then show ?thesis unfolding inflight_def by (rule step_from[OF q])
qed

section \<open>Step 2: the FIN\<close>

lemma transmit_fin_ok:
  assumes inv: "tcb_inv n self" and st: "t_state self \<notin> {SynSent, SynReceived}"
    and e: "data_end = seq_add (t_snd_una self) (rb_len (t_tx self))" and w: "tx_work self \<le> w"
  shows "step_ok n w self (transmit_fin self now data_end)"
proof (cases "t_fin_queued self \<and> \<not> t_fin_acked self \<and> t_snd_nxt self = data_end")
  case True
  define after where "after = (\<lambda>s. let s = start_rtx (s\<lparr>t_fin_seq := Some data_end, t_snd_nxt := seq_add data_end 1\<rparr>) now
      in s\<lparr>t_state := (case t_state s of Established \<Rightarrow> FinWait1 | CloseWait \<Rightarrow> LastAck | other \<Rightarrow> other)\<rparr>)"
  have run: "transmit_fin self now data_end = emit (build self data_end FIN []) after"
    unfolding transmit_fin_def after_def using True by simp
  have "tcb_inv n (after s) \<and> recv_view (after s) = recv_view s \<and> tx_work (after s) < w" if s: "built self s" for s
  proof -
    note i = built_inv[OF s inv]
    have f: "t_snd_una s = t_snd_una self" "t_snd_nxt s = t_snd_nxt self" "t_state s = t_state self" "t_tx s = t_tx self"
      using built_views(1)[OF s] by (simp_all add: send_view_def)
    have "rb_len (t_tx self) \<le> 262144"
      using inv by (simp add: tcb_inv_def send_inv_def rb_inv_def rb_len_def TX_BUFFER_def)
    then have "offset_from (t_snd_nxt s) (t_snd_una s) = rb_len (t_tx s)"
      using True offset_from_add[of "t_snd_una self" "t_snd_una self" "rb_len (t_tx self)"] e f by simp
    then have a: "tcb_inv n (s\<lparr>t_snd_nxt := seq_add data_end 1\<rparr>)"
      and b: "tx_work (s\<lparr>t_snd_nxt := seq_add data_end 1\<rparr>) < tx_work s"
      using snd_nxt_advance_ok[OF i, of 1] st f True by simp_all
    let ?st = "case t_state self of Established \<Rightarrow> FinWait1 | CloseWait \<Rightarrow> LastAck | other \<Rightarrow> other"
    have "?st \<notin> {SynSent, SynReceived}" using st by (simp split: state.split)
    then have "tcb_inv n (s\<lparr>t_snd_nxt := seq_add data_end 1, t_state := ?st\<rparr>)"
      using a st f by (simp add: tcb_inv_def send_inv_def recv_inv_def core_inv_def)
    moreover have "tcb_inv n (after s) = tcb_inv n (s\<lparr>t_snd_nxt := seq_add data_end 1, t_state := ?st\<rparr>)"
      by (rule tcb_inv_views)
        (simp_all add: after_def Let_def start_rtx_def send_view_def recv_view_def core_view_def f)
    moreover have "recv_view (after s) = recv_view s" by (simp add: after_def Let_def start_rtx_def recv_view_def)
    moreover have "tx_work (after s) = tx_work (s\<lparr>t_snd_nxt := seq_add data_end 1\<rparr>)"
      by (simp add: after_def Let_def start_rtx_def tx_work_def send_work_def)
    ultimately show ?thesis using b built_views(5)[OF s] w by simp
  qed
  then show ?thesis unfolding run by (intro emit_ok[OF inv]) simp_all
next
  case False
  then have "transmit_fin self now data_end = Some (None, self)" by (simp only: transmit_fin_def if_False)
  then show ?thesis using step_quiet[OF inv refl w] by simp
qed

section \<open>\<open>poll_transmit\<close>\<close>

lemma transmit_data_or_fin_ok:
  assumes inv: "tcb_inv n self" and st: "t_state self \<notin> {SynSent, SynReceived}" and w: "tx_work self \<le> w"
  shows "step_ok n w self (transmit_data_or_fin self now)"
  unfolding transmit_data_or_fin_def Let_def
proof (rule or_else_ok[OF transmit_oldest_ok[OF inv w]])
  fix a assume a: "quiet_view a = quiet_view self" "tcb_inv n a" "tx_work a \<le> w"
  have fa: "t_state a = t_state self" "max_segment_payload a = max_segment_payload self"
    using a(1) max_payload_quiet[OF a(1)] by (simp_all add: quiet_view_def send_view_def)
  show "step_ok n w a (or_else (transmit_hole a now (max_segment_payload self)) (\<lambda>b.
      or_else (transmit_new b now (offset_from (t_snd_nxt self) (t_snd_una self)) (max_segment_payload self)) (\<lambda>c.
      transmit_fin c now (seq_add (t_snd_una self) (rb_len (t_tx self))))))"
  proof (rule or_else_ok)
    show "step_ok n w a (transmit_hole a now (max_segment_payload self))"
      using transmit_hole_ok[OF a(2) _ _ a(3)] fa st by simp
  next
    fix b assume b: "quiet_view b = quiet_view a" "tcb_inv n b" "tx_work b \<le> w"
    note b1 = trans[OF b(1) a(1)]
    have fb: "t_state b = t_state self" "max_segment_payload b = max_segment_payload self"
      "t_snd_nxt b = t_snd_nxt self" "t_snd_una b = t_snd_una self"
      using b1 max_payload_quiet[OF b1] by (simp_all add: quiet_view_def send_view_def)
    show "step_ok n w b (or_else (transmit_new b now (offset_from (t_snd_nxt self) (t_snd_una self)) (max_segment_payload self))
        (\<lambda>c. transmit_fin c now (seq_add (t_snd_una self) (rb_len (t_tx self)))))"
    proof (rule or_else_ok)
      show "step_ok n w b (transmit_new b now (offset_from (t_snd_nxt self) (t_snd_una self)) (max_segment_payload self))"
        using transmit_new_ok[OF b(2) _ fb(2)[symmetric] b(3), of now] st unfolding fb by simp
    next
      fix c assume c: "quiet_view c = quiet_view b" "tcb_inv n c" "tx_work c \<le> w"
      have "t_state c = t_state self" "t_snd_una c = t_snd_una self" "t_tx c = t_tx self"
        using trans[OF c(1) b1] by (simp_all add: quiet_view_def send_view_def)
      then show "step_ok n w c (transmit_fin c now (seq_add (t_snd_una self) (rb_len (t_tx self))))"
        using transmit_fin_ok[OF c(2) _ _ c(3)] st by simp
    qed
  qed
qed

lemma transmit_owed_ack_ok:
  assumes inv: "tcb_inv n self" and w: "tx_work self \<le> w"
  shows "step_ok n w self (transmit_owed_ack self)"
proof -
  let ?s = "self\<lparr>t_needs_ack := False\<rparr>"
  have q: "quiet_view ?s = quiet_view self" by (simp add: pacing_quiet)
  have i: "tcb_inv n ?s" using inv_quiet[OF q] inv by simp
  have q0: "tx_work ?s \<le> w" using w by (simp add: tx_work_def send_work_def split: if_splits)
  show ?thesis
  proof (cases "t_needs_ack self")
    case True
    then have ws: "tx_work ?s < w" using w by (simp add: tx_work_def send_work_def)
    have "step_ok n w ?s (emit (build ?s (t_snd_nxt ?s) 0 []) id)"
      by (rule emit_ok[OF i]) (use built_inv[OF _ i] built_views(5) ws in simp_all)
    then have "step_ok n w self (emit (build ?s (t_snd_nxt ?s) 0 []) id)" by (rule step_from[OF q])
    then show ?thesis using True by (simp add: transmit_owed_ack_def take_needs_ack_def)
  next
    case False
    then show ?thesis using step_quiet[OF inv q q0] by (simp add: transmit_owed_ack_def take_needs_ack_def)
  qed
qed

lemma carries_syn_ok:
  assumes inv: "tcb_inv n self" and l: "tr_header_len r \<le> 60" and p: "tr_src_port r = ep_port (t_local self)"
    "tr_dst_port r = ep_port (t_remote self)"
    and f: "\<not> flag_has (tr_flags r) ACK" "flag_has (tr_flags r) SYN \<Longrightarrow> tr_seq r = t_iss self"
  shows "\<exists>seg. build_segment (t_local self) (t_remote self) r [] = Some seg \<and> well_formed_datagram self seg"
proof -
  have "tr_header_len r + length ([] :: bytes) \<le> 65515" using l by simp
  from build_segment_carries[OF l this p] obtain frame seg where
    "build_segment (t_local self) (t_remote self) r [] = Some frame" "carries (t_local self) (t_remote self) frame seg"
    "tcp_seq seg = tr_seq r" "tcp_flags_of seg = tr_flags r" "tcp_payload seg = []" by blast
  then show ?thesis using f by (auto simp: well_formed_datagram_def)
qed

lemma build_syn_ok: "tcb_inv n self \<Longrightarrow> \<exists>seg. build_syn self = Some seg \<and> well_formed_datagram self seg"
  unfolding build_syn_def
  by (rule carries_syn_ok)
    (simp_all add: tr_header_len_def sack_blocks_to_emit_def TCP_MIN_HEADER_LEN_def flag_has_def SYN_def ACK_def)

lemma build_rst_ok: "tcb_inv n self \<Longrightarrow> \<exists>seg. build_rst self s = Some seg \<and> well_formed_datagram self seg"
  unfolding build_rst_def
  by (rule carries_syn_ok)
    (simp_all add: tr_header_len_def sack_blocks_to_emit_def TCP_MIN_HEADER_LEN_def flag_has_def SYN_def ACK_def RST_def)

lemma handshake_nxt_ok:
  assumes inv: "tcb_inv n self" and st: "t_state self \<in> {SynSent, SynReceived}"
  shows "tcb_inv n (self\<lparr>t_snd_nxt := seq_add (t_iss self) 1\<rparr>)"
    and "t_snd_nxt self = t_iss self \<Longrightarrow> tx_work (self\<lparr>t_snd_nxt := seq_add (t_iss self) 1\<rparr>) < tx_work self"
proof -
  have s: "t_snd_una self = t_iss self" "sacked (t_scoreboard self) = []" "rexmit (t_scoreboard self) = []"
    using inv st by (auto simp: tcb_inv_def send_inv_def)
  have o: "offset_from (seq_add (t_iss self) 1) (t_iss self) = 1"
    using offset_from_add[of "t_iss self" "t_iss self" 1] by simp
  have "send_inv (self\<lparr>t_snd_nxt := seq_add (t_iss self) 1\<rparr>)"
    using inv s o st by (auto simp: tcb_inv_def send_inv_def sb_inv_def)
  then show "tcb_inv n (self\<lparr>t_snd_nxt := seq_add (t_iss self) 1\<rparr>)" using inv by (simp add: tcb_inv_def recv_inv_def core_inv_def)
  have "rb_buf (t_tx self) = []" using inv st by (auto simp: tcb_inv_def send_inv_def)
  then show "t_snd_nxt self = t_iss self \<Longrightarrow> tx_work (self\<lparr>t_snd_nxt := seq_add (t_iss self) 1\<rparr>) < tx_work self"
    using s o by (simp add: tx_work_def send_work_def rb_len_def runs_set_def)
qed

lemma retransmit_work: "t_retransmit self \<Longrightarrow> tx_work (self\<lparr>t_retransmit := False\<rparr>) < tx_work self"
  by (simp add: tx_work_def send_work_def)

lemma transmit_syn_sent_ok:
  assumes inv: "tcb_inv n self" and st: "t_state self = SynSent" and w: "tx_work self \<le> w"
  shows "step_ok n w self (transmit_syn_sent self now)"
proof -
  let ?s = "self\<lparr>t_retransmit := False\<rparr>"
  have q: "quiet_view ?s = quiet_view self" by (simp add: pacing_quiet)
  have i: "tcb_inv n ?s" using inv_quiet[OF q] inv by simp
  obtain seg where b: "build_syn self = Some seg" "well_formed_datagram self seg" using build_syn_ok[OF inv] by blast
  obtain seg' where b': "build_syn ?s = Some seg'" "well_formed_datagram self seg'"
    using build_syn_ok[OF i] unfolding well_formed_quiet[OF q] by blast
  have ri: "recv_inv self" using inv by (simp add: tcb_inv_def)
  define s1 where "s1 = start_rtx (self\<lparr>t_snd_nxt := seq_add (t_iss self) 1\<rparr>) now"
  have nx: "tcb_inv n s1" "t_snd_nxt self = t_iss self \<Longrightarrow> tx_work s1 < w"
    using handshake_nxt_ok[OF inv] st w by (simp_all add: s1_def)
  have "recv_view self = recv_view s1" by (simp add: s1_def recv_view_def start_rtx_def)
  from recv_edge_view(1)[OF this ri] have a: "t_snd_nxt self = t_iss self \<Longrightarrow> step_ok n w self (Some (Some seg, s1))"
    unfolding step_ok_def using b nx by simp
  have c: "t_retransmit self \<Longrightarrow> step_ok n w self (Some (Some seg', ?s))"
    unfolding step_ok_def using b' i retransmit_work[of self] w recv_edge_quiet[OF q[symmetric]] by simp
  show ?thesis
    unfolding transmit_syn_sent_def s1_def[symmetric] using a c b(1) b'(1) step_quiet[OF inv refl w] by simp
qed

lemma transmit_syn_received_ok:
  assumes inv: "tcb_inv n self" and st: "t_state self = SynReceived" and w: "tx_work self \<le> w"
  shows "step_ok n w self (transmit_syn_received self now)"
proof -
  let ?s = "self\<lparr>t_retransmit := False\<rparr>"
  have q: "quiet_view ?s = quiet_view self" by (simp add: pacing_quiet)
  have i: "tcb_inv n ?s" using inv_quiet[OF q] inv by simp
  have "step_ok n w self (emit (build self (t_iss self) SYN []) (\<lambda>s. start_rtx (s\<lparr>t_snd_nxt := seq_add (t_iss s) 1\<rparr>) now))"
    if nx: "t_snd_nxt self = t_iss self"
  proof (rule emit_ok[OF inv])
    fix s assume s: "built self s"
    have e: "t_state s = SynReceived" "t_snd_nxt s = t_iss s"
      using built_views(1)[OF s] st nx by (simp_all add: send_view_def)
    have "recv_view (start_rtx (s\<lparr>t_snd_nxt := seq_add (t_iss s) 1\<rparr>) now) = recv_view s"
      by (simp add: recv_view_def start_rtx_def)
    then show "tcb_inv n (start_rtx (s\<lparr>t_snd_nxt := seq_add (t_iss s) 1\<rparr>) now)
        \<and> recv_view (start_rtx (s\<lparr>t_snd_nxt := seq_add (t_iss s) 1\<rparr>) now) = recv_view s
        \<and> tx_work (start_rtx (s\<lparr>t_snd_nxt := seq_add (t_iss s) 1\<rparr>) now) < w"
      using handshake_nxt_ok[OF built_inv[OF s inv]] e built_views(5)[OF s] w by simp
  qed simp_all
  moreover have "step_ok n w self (emit (build ?s (t_iss self) SYN []) id)" if r: "t_retransmit self"
    by (rule step_from[OF q], rule emit_ok[OF i])
      (use built_inv[OF _ i] built_views(5) retransmit_work[OF r] w in simp_all)
  ultimately show ?thesis unfolding transmit_syn_received_def using transmit_owed_ack_ok[OF inv w] by simp
qed

lemma poll_transmit_step:
  assumes inv: "tcb_inv n self" and w: "tx_work self \<le> w"
  shows "step_ok n w self (poll_transmit self now)"
proof -
  define s where "s = self\<lparr>t_cur_tsval := word_of_nat now\<rparr>"
  have q: "quiet_view s = quiet_view self" by (simp add: s_def pacing_quiet)
  have i: "tcb_inv n s" using inv_quiet[OF q] inv by simp
  have ws: "tx_work s \<le> w" using w by (simp add: s_def)
  have "step_ok n w s (poll_transmit self now)"
  proof (cases "t_pending_reset self")
    case (Some seq)
    let ?r = "s\<lparr>t_pending_reset := None\<rparr>"
    have qr: "quiet_view ?r = quiet_view s" by (simp add: pacing_quiet)
    have ir: "tcb_inv n ?r" using inv_quiet[OF qr] i by simp
    have wr: "tx_work ?r < w" using ws Some by (simp add: tx_work_def send_work_def s_def)
    obtain seg where seg: "build_rst ?r seq = Some seg" "well_formed_datagram s seg"
      using build_rst_ok[OF ir] unfolding well_formed_quiet[OF qr] by blast
    have run: "poll_transmit self now = (do { seg \<leftarrow> build_rst ?r seq; Some (Some seg, ?r) })"
      unfolding poll_transmit_def Let_def s_def by (simp add: Some)
    have "poll_transmit self now = Some (Some seg, ?r)" unfolding run seg(1) by simp
    then show ?thesis unfolding step_ok_def using seg(2) ir wr recv_edge_quiet[OF qr[symmetric]] by simp
  next
    case None
    have run: "poll_transmit self now = (case t_state s of Closed \<Rightarrow> Some (None, s) | Listen \<Rightarrow> Some (None, s)
        | SynSent \<Rightarrow> transmit_syn_sent s now | SynReceived \<Rightarrow> transmit_syn_received s now
        | TimeWait \<Rightarrow> transmit_owed_ack s | _ \<Rightarrow> or_else (transmit_data_or_fin s now) transmit_owed_ack)"
      unfolding poll_transmit_def Let_def s_def by (simp add: None)
    have d: "step_ok n w s (or_else (transmit_data_or_fin s now) transmit_owed_ack)" if "t_state s \<notin> {SynSent, SynReceived}"
      by (rule or_else_ok[OF transmit_data_or_fin_ok[OF i that ws]]) (rule transmit_owed_ack_ok)
    show ?thesis unfolding run
      using step_quiet[OF i refl ws] transmit_syn_sent_ok[OF i _ ws] transmit_syn_received_ok[OF i _ ws]
        transmit_owed_ack_ok[OF i ws] d
      by (cases "t_state s") simp_all
  qed
  then show ?thesis by (rule step_from[OF q])
qed

lemma poll_transmit_ok:
  assumes inv: "tcb_inv n self"
  shows "step_ok n (tx_work self) self (poll_transmit self now)"
  by (rule poll_transmit_step[OF inv order_refl])

end
