(* ===== verification/Tcb_Life.thy ===== *)
theory Tcb_Life
  imports Tcb_Transmit
begin

text \<open>
  The life of a connection: the timers, the application's calls, the two ways a connection
  is born, and the reachable states as an inductive predicate over everything that can happen
  to it. Every reachable connection satisfies the invariant, so no handler panics.
\<close>

section \<open>Timers\<close>

lemma timer_rtx_ok:
  assumes inv: "tcb_inv n self" and n: "n < U32_MAX"
  shows "\<exists>self'. timer_rtx self now = Some self' \<and> tcb_inv (Suc n) self'"
proof -
  have c: "cc_inv (t_cc self)" "rtt_inv (t_rtt self)" "consecutive_timeouts (t_rtt self) \<le> n"
    using inv by (simp_all add: tcb_inv_def core_inv_def)
  obtain r where r: "rtt_on_timeout (t_rtt self) = Some r" "rtt_inv r" "consecutive_timeouts r \<le> Suc n"
    using rtt_on_timeout_total[OF c(2)] c(3) n by fastforce
  have keep: "tcb_inv (Suc n) self" using inv by (simp add: tcb_inv_def core_inv_def)
  define fl where "fl = offset_from (t_snd_nxt self) (t_snd_una self)"
  have cc: "cc_inv (cc_on_rto (t_cc self) now fl)"
    unfolding fl_def using any_cc.rto_inv[OF c(1) offset_u32] by blast
  define s1 where "s1 = self\<lparr>t_cc := cc_on_rto (t_cc self) now fl, t_rtt := r\<rparr>"
  define s2 where "s2 = (if t_sack_enabled s1 then s1\<lparr>t_scoreboard := sb_on_rto (t_scoreboard s1)\<rparr> else s1)"
  define s3 where "s3 = s2\<lparr>t_retransmit := True, t_retransmitted := True, t_rtt_sample := None,
      t_gbn_recover := Some (t_snd_nxt s2)\<rparr>"
  have "sb_inv (t_snd_una self) (t_snd_nxt self) (sb_on_rto (t_scoreboard self))"
    "sacked (t_scoreboard self) = [] \<and> rexmit (t_scoreboard self) = [] \<Longrightarrow>
      sacked (sb_on_rto (t_scoreboard self)) = [] \<and> rexmit (sb_on_rto (t_scoreboard self)) = []"
    using sb_inv_episode(3) inv by (simp_all add: tcb_inv_def send_inv_def sb_on_rto_def)
  then have "send_inv s2" "recv_inv s2" "core_inv (Suc n) s2" "t_state s2 = t_state self"
    "t_sack_enabled s2 = t_sack_enabled self" "t_peer_fin_seen s2 = t_peer_fin_seen self"
    using keep cc r(2,3) by (auto simp: tcb_inv_def send_inv_def recv_inv_def core_inv_def s2_def s1_def)
  then have "tcb_inv (Suc n) s2" using keep by (simp add: tcb_inv_def)
  then have "tcb_inv (Suc n) (restart_rtx s3 now)"
    using tcb_inv_views[of "restart_rtx s3 now" s2 "Suc n"]
    by (simp add: s3_def send_view_def recv_view_def core_view_def restart_rtx_def)
  moreover have "rto_fired self now = Some (restart_rtx s3 now)"
    unfolding rto_fired_def r(1) Let_def bind.bind_lunit fl_def[symmetric] s1_def[symmetric] s2_def[symmetric] s3_def[symmetric]
    by (rule refl)
  moreover have "\<exists>self'. rto_syn_sent self now = Some self' \<and> tcb_inv (Suc n) self'" if st: "t_state self = SynSent"
  proof -
    let ?s = "self\<lparr>t_syn_retries := t_syn_retries self + 1, t_state := Closed, t_rtx_deadline := None\<rparr>"
    let ?r = "restart_rtx (self\<lparr>t_syn_retries := t_syn_retries self + 1, t_retransmit := True, t_rtt := r\<rparr>) now"
    have "send_inv ?s" "recv_inv ?s" "core_inv (Suc n) ?s"
      using keep by (simp_all add: tcb_inv_def send_inv_def recv_inv_def core_inv_def)
    then have a: "tcb_inv (Suc n) ?s" by (simp add: tcb_inv_def)
    have "tcb_inv (Suc n) (self\<lparr>t_rtt := r\<rparr>)"
      using keep r(2,3) by (simp add: tcb_inv_def send_inv_def recv_inv_def core_inv_def)
    then have b: "tcb_inv (Suc n) ?r"
      using tcb_inv_views[of ?r "self\<lparr>t_rtt := r\<rparr>" "Suc n"] by (simp add: send_view_def recv_view_def core_view_def restart_rtx_def)
    show ?thesis using a b r(1) by (simp add: rto_syn_sent_def Let_def)
  qed
  ultimately show ?thesis using keep by (auto simp: timer_rtx_def split: option.split)
qed

lemma timer_rest_ok:
  assumes "tcb_inv n self"
  shows "tcb_inv n (timer_delayed_ack (timer_time_wait (timer_persist self now) now) now)"
proof -
  have p: "tcb_inv n (timer_persist self now)"
    using assms tcb_inv_views[of "timer_persist self now" self n]
    by (simp add: timer_persist_def Let_def send_view_def recv_view_def core_view_def split: option.split)
  have w: "tcb_inv n (timer_time_wait s now)" if "tcb_inv n s" for s
    using that by (auto simp: timer_time_wait_def tcb_inv_def send_inv_def recv_inv_def core_inv_def split: option.split)
  have d: "tcb_inv n (timer_delayed_ack s now) = tcb_inv n s" for s
    by (rule tcb_inv_views) (simp_all add: timer_delayed_ack_def send_view_def recv_view_def core_view_def split: option.split)
  show ?thesis unfolding d by (rule w[OF p])
qed

lemma on_timer_ok:
  assumes "tcb_inv n self" and "n < U32_MAX"
  shows "\<exists>self'. tcb_on_timer self now = Some self' \<and> tcb_inv (Suc n) self'"
  using timer_rtx_ok[OF assms, of now] timer_rest_ok by (auto simp: tcb_on_timer_def)

section \<open>The application's calls\<close>

lemma send_ok: "tcb_inv n self \<Longrightarrow> tcb_inv n (fst (tcb_send self bytes))"
proof -
  assume inv: "tcb_inv n self"
  have w: "tcb_inv n (self\<lparr>t_tx := fst (rb_write (t_tx self) bytes)\<rparr>)" if "t_state self \<notin> {SynSent, SynReceived}"
    using inv that by (auto simp: tcb_inv_def send_inv_def recv_inv_def core_inv_def rb_write_def rb_inv_def rb_len_def rb_free_def Let_def)
  then show ?thesis using inv by (cases "rb_write (t_tx self) bytes") (simp add: tcb_send_def split: state.split)
qed

lemma recv_ok:
  assumes inv: "tcb_inv n self"
  shows "tcb_inv n (fst (tcb_recv self len))"
proof -
  define rx where "rx = fst (rb_read (t_rx self) len)"
  have r: "rb_inv (t_rx self)" "rb_capacity (t_rx self) = RX_BUFFER"
    "reasm_inv (t_rcv_nxt self) (if t_peer_fin_seen self then 0 else 1) (rb_free (t_rx self)) (t_reasm self)"
    using inv by (simp_all add: tcb_inv_def recv_inv_def)
  have x: "rb_inv rx" "rb_capacity rx = RX_BUFFER" "rb_free (t_rx self) \<le> rb_free rx"
    using r(1,2) by (simp_all add: rx_def rb_read_def rb_inv_def rb_free_def Let_def)
  have "rb_free rx < 2147483648" using rb_free_le[OF x(1,2)] by linarith
  from reasm_inv_mono[OF r(3) order_refl x(3) this] have "recv_inv (self\<lparr>t_rx := rx\<rparr>)"
    using inv x(1,2) by (simp add: tcb_inv_def recv_inv_def)
  then have "tcb_inv n (self\<lparr>t_rx := rx\<rparr>)" using inv by (simp add: tcb_inv_def send_inv_def core_inv_def)
  then show ?thesis by (cases "rb_read (t_rx self) len") (simp add: tcb_recv_def rx_def)
qed

lemma close_ok: "tcb_inv n self \<Longrightarrow> tcb_inv n (tcb_close self)"
  using tcb_inv_views[of "tcb_close self" self n] by (simp add: tcb_close_def send_view_def recv_view_def core_view_def)

lemma set_cc_ok:
  assumes inv: "tcb_inv n self" and ov: "overrides_ok ov" and k: "kind \<noteq> KCubic"
  shows "tcb_inv n (set_congestion_control ov self kind)"
proof -
  have "t_snd_mss self \<noteq> 0" using inv by (simp add: tcb_inv_def core_inv_def)
  then have "cc_inv (cc_new ov kind (t_snd_mss self))" by (rule cc_inv_new[OF _ ov k])
  then show ?thesis
    using inv k by (simp add: set_congestion_control_def tcb_inv_def send_inv_def recv_inv_def core_inv_def)
qed

section \<open>Birth\<close>

lemma birth_parts:
  "rb_inv (with_capacity n)" "rb_capacity (with_capacity n) = n" "rb_buf (with_capacity n) = []"
  "rb_len (with_capacity n) = 0" "rb_free (with_capacity n) = n" "consecutive_timeouts rtt_new = 0"
  "sacked scoreboard_new = []" "rexmit scoreboard_new = []" "reasm_runs reasm_new = []"
  by (simp_all add: with_capacity_def rb_inv_def rb_len_def rb_free_def rtt_new_def scoreboard_new_def reasm_new_def)

lemma new_syn_sent_ok:
  assumes "mss \<noteq> 0" and "unat mss \<le> 65495" and "overrides_ok ov"
  shows "tcb_inv 0 (new_syn_sent ov local remote iss now mss)"
proof -
  have "cc_inv (cc_new ov KReno MSS_DEFAULT)" by (rule cc_inv_new[OF _ assms(3)]) (simp_all add: MSS_DEFAULT_def)
  then show ?thesis
    unfolding tcb_inv_def send_inv_def recv_inv_def core_inv_def
    using assms rtt_inv_new sb_inv_new[of iss iss] reasm_inv_new[of RX_BUFFER 0 1]
    by (simp add: new_syn_sent_def birth_parts adv_near_def MSS_DEFAULT_def RX_BUFFER_def)
qed

lemma new_syn_received_ok:
  assumes "mss \<noteq> 0" and "unat mss \<le> 65495" and "overrides_ok ov" and "mss_option syn \<noteq> Some 0"
  shows "tcb_inv 0 (new_syn_received ov local remote syn iss now mss)"
proof -
  let ?t = "new_syn_received ov local remote syn iss now mss"
  have m: "t_mss_advertise (undefined\<lparr>t_mss_advertise := mss\<rparr>) = mss" by simp
  note mm = negotiate_mss[of syn "undefined\<lparr>t_mss_advertise := mss\<rparr>", unfolded m, OF assms(4,1,2)]
  have cc: "cc_inv (cc_new ov KReno (min (case mss_option syn of Some m \<Rightarrow> m | None \<Rightarrow> MSS_DEFAULT) mss))"
    by (rule cc_inv_new[OF mm(1) assms(3)]) simp
  have f: "t_state ?t = SynReceived" "t_iss ?t = iss" "t_snd_una ?t = iss" "t_snd_nxt ?t = iss" "t_tx ?t = with_capacity TX_BUFFER"
    "t_rx ?t = with_capacity RX_BUFFER" "t_scoreboard ?t = scoreboard_new" "t_reasm ?t = reasm_new" "t_rtt ?t = rtt_new"
    "t_cc_kind ?t = KReno" "t_peer_fin_seen ?t = False" "t_mss_advertise ?t = mss"
    "t_rcv_nxt ?t = seq_add (tcp_seq syn) 1" "t_rcv_adv ?t = seq_add (seq_add (tcp_seq syn) 1) 65535"
    "t_snd_mss ?t = min (case mss_option syn of Some m \<Rightarrow> m | None \<Rightarrow> MSS_DEFAULT) mss"
    "t_cc ?t = cc_new ov KReno (min (case mss_option syn of Some m \<Rightarrow> m | None \<Rightarrow> MSS_DEFAULT) mss)"
    by (simp_all add: new_syn_received_def Let_def RX_BUFFER_def split: option.split prod.split)
  have d: "offset_from (seq_add (seq_add (tcp_seq syn) 1) 65535) (seq_add (tcp_seq syn) 1) = 65535"
    using offset_from_add[of "seq_add (tcp_seq syn) 1" "seq_add (tcp_seq syn) 1" 65535] by simp
  have "send_inv ?t" unfolding send_inv_def f using sb_inv_new[of iss iss] by (simp add: birth_parts)
  moreover have "recv_inv ?t"
    unfolding recv_inv_def f d using reasm_inv_new[of RX_BUFFER "seq_add (tcp_seq syn) 1" 1]
    by (simp add: birth_parts adv_near_def RX_BUFFER_def)
  moreover have "core_inv 0 ?t" unfolding core_inv_def f using cc mm assms(1,2) rtt_inv_new by (simp add: birth_parts)
  ultimately show ?thesis unfolding tcb_inv_def f by simp
qed

section \<open>Reachable connections\<close>

text \<open>
  A connection as the stack creates and drives it: born by a passive or an active open,
  given the stack's controller, then moved by segments, timers, transmit polls and calls of
  the application. The count is the number of timer events so far, which bounds the
  \<open>u32\<close> counter of consecutive timeouts.
\<close>

inductive reachable :: "cc_overrides \<Rightarrow> nat \<Rightarrow> tcb \<Rightarrow> bool" for ov where
  passive_open: "mss \<noteq> 0 \<Longrightarrow> unat mss \<le> 65495 \<Longrightarrow> mss_option syn \<noteq> Some 0 \<Longrightarrow>
      reachable ov 0 (new_syn_received ov local remote syn iss now mss)"
| active_open: "mss \<noteq> 0 \<Longrightarrow> unat mss \<le> 65495 \<Longrightarrow> reachable ov 0 (new_syn_sent ov local remote iss now mss)"
| controller: "reachable ov n self \<Longrightarrow> kind \<noteq> KCubic \<Longrightarrow> reachable ov n (set_congestion_control ov self kind)"
| seg_in: "reachable ov n self \<Longrightarrow> legal_segment self tcp \<Longrightarrow> on_segment ov self now tcp ce = Some self' \<Longrightarrow>
      reachable ov n self'"
| tick: "reachable ov n self \<Longrightarrow> n < U32_MAX \<Longrightarrow> tcb_on_timer self now = Some self' \<Longrightarrow> reachable ov (Suc n) self'"
| polled: "reachable ov n self \<Longrightarrow> poll_transmit self now = Some (out, self') \<Longrightarrow> reachable ov n self'"
| app_send: "reachable ov n self \<Longrightarrow> reachable ov n (fst (tcb_send self bytes))"
| app_recv: "reachable ov n self \<Longrightarrow> reachable ov n (fst (tcb_recv self len))"
| app_close: "reachable ov n self \<Longrightarrow> reachable ov n (tcb_close self)"

lemma reachable_inv:
  assumes "reachable ov n self" and ov: "overrides_ok ov"
  shows "tcb_inv n self"
  using assms(1)
proof (induction rule: reachable.induct)
  case (passive_open mss syn local remote iss now)
  then show ?case using new_syn_received_ok[OF _ _ ov] by blast
next
  case (active_open mss local remote iss now)
  then show ?case using new_syn_sent_ok[OF _ _ ov] by blast
next
  case (controller n self kind)
  then show ?case using set_cc_ok[OF _ ov] by blast
next
  case (seg_in n self tcp now ce self')
  then show ?case using on_segment_ok[OF _ ov, of n self tcp now ce] by auto
next
  case (tick n self now self')
  then show ?case using on_timer_ok[of n self now] by auto
next
  case (polled n self now out self')
  then show ?case using poll_transmit_ok[of n self now] by (auto simp: step_ok_def)
qed (simp_all add: send_ok recv_ok close_ok)

section \<open>A sample connection\<close>

text \<open>An active open from 10.0.0.1:49152 to 10.0.0.2:80, for the concrete instances.\<close>

definition sample_connection :: tcb where
  "sample_connection = new_syn_sent no_overrides (endpoint_new 0x0A000001 49152) (endpoint_new 0x0A000002 80) 100 0 1460"

lemma sample_reachable: "reachable no_overrides 0 sample_connection"
  unfolding sample_connection_def by (rule reachable.active_open) simp_all

lemma no_overrides_ok: "overrides_ok no_overrides"
  by (simp add: overrides_ok_def)

lemma sample_polls: "\<exists>frame self'. poll_transmit sample_connection 0 = Some (Some frame, self')"
proof -
  let ?s = "sample_connection\<lparr>t_cur_tsval := word_of_nat 0\<rparr>"
  have "tcb_inv 0 sample_connection" by (rule reachable_inv[OF sample_reachable no_overrides_ok])
  then have "tcb_inv 0 ?s" using inv_quiet[of ?s sample_connection 0] pacing_quiet(6)[of "word_of_nat 0" sample_connection] by simp
  then obtain frame where b: "build_syn ?s = Some frame" using build_syn_ok by blast
  have "t_pending_reset sample_connection = None" "t_state ?s = SynSent" "t_snd_nxt ?s = t_iss ?s"
    by (simp_all add: sample_connection_def new_syn_sent_def)
  then show ?thesis using b by (simp add: poll_transmit_def transmit_syn_sent_def Let_def)
qed

end
