(* ===== verification/Samples.thy ===== *)
theory Samples
  imports Tcb_Life
begin

text \<open>
  A concrete passive open, for the instances of the connection's theorems: 10.0.0.2:49152
  connects to 10.0.0.1:80, the SYN-ACK goes out, and the handshake's ACK brings two bytes.
\<close>

definition sample_syn :: bytes where
  "sample_syn = [192, 0, 0, 80, 0, 0, 3, 232, 0, 0, 0, 0, 0x50, 0x02, 1, 0, 0, 0, 0, 0]"

definition sample_data :: bytes where
  "sample_data = [192, 0, 0, 80, 0, 0, 3, 233, 0, 0, 0, 101, 0x50, 0x10, 1, 0, 0, 0, 0, 0, 104, 105]"

definition sample_passive :: tcb where
  "sample_passive = new_syn_received no_overrides (endpoint_new 0x0A000001 80) (endpoint_new 0x0A000002 49152) sample_syn 100 0 1460"

lemma no_options:
  "tcp_options seg = [] \<Longrightarrow> mss_option seg = None \<and> timestamps seg = None \<and> window_scale seg = None \<and> \<not> sack_permitted seg"
  by (simp add: mss_option_def timestamps_def window_scale_def sack_permitted_def for_each_option_def walk_options.simps[of "[]"])

lemma sample_syn_fields:
  "tcp_seq sample_syn = 1000" "tcp_options sample_syn = []" "tcp_window sample_syn = 256"
  by (simp_all add: sample_syn_def tcp_seq_def u32_from_be_def tcp_options_def data_offset_def tcp_window_def
      u16_from_be_def TCP_MIN_HEADER_LEN_def)

lemma sample_data_fields:
  "tcp_seq sample_data = 1001" "tcp_ack sample_data = 101" "tcp_options sample_data = []" "tcp_window sample_data = 256"
  "tcp_flags_of sample_data = 0x10" "tcp_payload sample_data = [104, 105]"
  by (simp_all add: sample_data_def tcp_seq_def tcp_ack_def u32_from_be_def tcp_options_def data_offset_def tcp_window_def
      u16_from_be_def TCP_MIN_HEADER_LEN_def tcp_flags_of_def tcp_payload_def)

lemma sample_passive_fields:
  "t_state sample_passive = SynReceived" "t_iss sample_passive = 100" "t_snd_una sample_passive = 100"
  "t_snd_nxt sample_passive = 100" "t_irs sample_passive = 1000" "t_rcv_nxt sample_passive = 1001"
  "t_rcv_adv sample_passive = 66536" "t_ts_enabled sample_passive = False" "t_sack_enabled sample_passive = False"
  "t_rx sample_passive = with_capacity RX_BUFFER" "t_reasm sample_passive = reasm_new" "t_cc_kind sample_passive = KReno"
  "t_peer_fin_seen sample_passive = False" "t_pending_fin sample_passive = None" "t_fin_acked sample_passive = False"
  "t_pending_reset sample_passive = None" "t_snd_wl1 sample_passive = 1000" "t_snd_wl2 sample_passive = 100"
  "t_rcv_wscale sample_passive = 0" "t_snd_wscale sample_passive = 0" "t_unacked_segs sample_passive = 0"
  "t_needs_ack sample_passive = False" "t_tx sample_passive = with_capacity TX_BUFFER"
  using no_options[OF sample_syn_fields(2)]
  by (simp_all add: sample_passive_def new_syn_received_def sample_syn_fields Let_def seq_add_def RX_BUFFER_def)

lemma sample_passive_inv: "tcb_inv 0 sample_passive"
  using no_options[OF sample_syn_fields(2)] unfolding sample_passive_def
  by (intro new_syn_received_ok) (simp_all add: no_overrides_ok)

text \<open>The SYN-ACK goes out.\<close>

definition sample_answered :: tcb where
  "sample_answered = start_rtx (sample_passive\<lparr>t_cur_tsval := 0, t_delayed_ack_deadline := None, t_unacked_segs := 0,
     t_rcv_adv := 66536, t_snd_nxt := 101\<rparr>) 0"

lemma sample_answers: "\<exists>frame. poll_transmit sample_passive 0 = Some (Some frame, sample_answered)"
proof -
  let ?s = "sample_passive\<lparr>t_cur_tsval := word_of_nat 0\<rparr>"
  have i: "recv_inv ?s" "unat (t_snd_mss ?s) \<le> 65495"
    using sample_passive_inv by (simp_all add: tcb_inv_def recv_inv_def core_inv_def)
  have "\<exists>frame self'. build ?s 100 SYN [] = Some (frame, self') \<and> built ?s self' \<and> well_formed_datagram ?s frame"
    by (rule build_ok[OF i(1) _ _ _ _ i(2)]) (simp_all add: sample_passive_fields)
  then obtain frame s where b: "build ?s 100 SYN [] = Some (frame, s)" by blast
  have a: "advertised_window (?s\<lparr>t_delayed_ack_deadline := None, t_unacked_segs := 0\<rparr>)
      = (65535, ?s\<lparr>t_delayed_ack_deadline := None, t_unacked_segs := 0, t_rcv_adv := 66536\<rparr>)"
    by (simp add: advertised_window_def Let_def sample_passive_fields birth_parts buffered_def reasm_new_def
        RX_BUFFER_def seq_add_def seq_lt_def distance_def offset_from_def)
  have "s = ?s\<lparr>t_delayed_ack_deadline := None, t_unacked_segs := 0, t_rcv_adv := 66536\<rparr>"
    using b a by (auto simp: build_def Let_def bind_Some_iff split: prod.splits)
  then show ?thesis
    using b by (simp add: poll_transmit_def transmit_syn_received_def emit_def Let_def sample_passive_fields
        sample_answered_def seq_add_def)
qed

text \<open>The handshake's ACK with its data: the connection is established and the bytes can be read.\<close>

lemma sample_answered_fields:
  "t_state sample_answered = SynReceived" "t_iss sample_answered = 100" "t_snd_una sample_answered = 100"
  "t_snd_nxt sample_answered = 101" "t_irs sample_answered = 1000" "t_rcv_nxt sample_answered = 1001"
  "t_rcv_adv sample_answered = 66536" "t_ts_enabled sample_answered = False" "t_sack_enabled sample_answered = False"
  "t_rx sample_answered = with_capacity RX_BUFFER" "t_reasm sample_answered = reasm_new" "t_cc_kind sample_answered = KReno"
  "t_peer_fin_seen sample_answered = False" "t_pending_fin sample_answered = None" "t_fin_acked sample_answered = False"
  "t_pending_reset sample_answered = None" "t_snd_wl1 sample_answered = 1000" "t_snd_wl2 sample_answered = 100"
  "t_snd_wscale sample_answered = 0" "t_unacked_segs sample_answered = 0" "t_needs_ack sample_answered = False"
  "t_delayed_ack_deadline sample_answered = None"
  by (simp_all add: sample_answered_def start_rtx_def sample_passive_fields)

definition sample_established :: tcb where
  "sample_established = sample_answered\<lparr>t_snd_una := 101, t_snd_wnd := 256, t_snd_wl1 := 1001, t_snd_wl2 := 101,
     t_persist_deadline := None, t_persist_backoff := PERSIST_MIN_MILLIS, t_send_probe := False,
     t_state := Established, t_rtx_deadline := None, t_retransmit := False,
     t_rx := \<lparr>rb_buf = [104, 105], rb_capacity = RX_BUFFER\<rparr>, t_rcv_nxt := 1003, t_unacked_segs := 1,
     t_delayed_ack_deadline := Some (plus_millis 5 DELAYED_ACK_MILLIS)\<rparr>"

lemma sample_data_flags:
  "\<not> flag_has (tcp_flags_of sample_data) RST" "\<not> flag_has (tcp_flags_of sample_data) SYN"
  "\<not> flag_has (tcp_flags_of sample_data) FIN" "flag_has (tcp_flags_of sample_data) ACK"
  by (simp_all add: sample_data_fields flag_has_def RST_def SYN_def FIN_def ACK_def)

lemma sample_data_accepted: "segment_acceptable sample_answered (tcp_seq sample_data) (seg_len sample_data)"
  by (simp add: segment_acceptable_def seg_len_def sample_data_flags sample_data_fields sample_answered_fields
      seq_ge_def seq_lt_def distance_def)

lemma sample_receives: "on_segment no_overrides sample_answered 5 sample_data False = Some sample_established"
proof -
  define s1 where "s1 = sample_answered\<lparr>t_snd_una := 101, t_snd_wnd := 256, t_snd_wl1 := 1001, t_snd_wl2 := 101,
     t_persist_deadline := None, t_persist_backoff := PERSIST_MIN_MILLIS, t_send_probe := False,
     t_state := Established, t_rtx_deadline := None, t_retransmit := False\<rparr>"
  have a: "ack_step sample_answered 5 sample_data None = Some (True, s1)"
    by (simp add: ack_step_def ack_syn_received_def update_window_def sample_answered_fields sample_data_fields
        seq_gt_def seq_le_def seq_lt_def distance_def U32_MAX_def s1_def)
  have f: "t_rcv_nxt s1 = 1001" "t_reasm s1 = reasm_new" "t_rx s1 = with_capacity RX_BUFFER" "\<not> t_sack_enabled s1"
    "\<not> ecn_enabled s1" "t_pending_fin s1 = None" "t_state s1 = Established" "\<not> t_peer_fin_seen s1" "\<not> t_fin_acked s1"
    "t_unacked_segs s1 = 0" "t_delayed_ack_deadline s1 = None" "\<not> t_needs_ack s1"
    by (simp_all add: s1_def sample_answered_fields ecn_enabled_def)
  let ?rx = "\<lparr>rb_buf = [104, 105], rb_capacity = RX_BUFFER\<rparr>"
  have w: "rb_write (with_capacity RX_BUFFER) [104, 105] = (?rx, 2)"
    by (simp add: rb_write_def rb_free_def with_capacity_def RX_BUFFER_def)
  have t: "trim_left 1001 1001 [104, 105] = (1001, [104, 105])"
    by (simp add: trim_left_def seq_lt_def distance_def)
  have e: "accept_data s1 1001 [104, 105] = Some (True, False, s1\<lparr>t_rx := ?rx, t_rcv_nxt := 1003\<rparr>)"
    by (simp add: accept_data_def f w seq_add_def)
  define s2 where "s2 = s1\<lparr>t_rx := ?rx, t_rcv_nxt := 1003, t_unacked_segs := 1,
      t_delayed_ack_deadline := Some (plus_millis 5 DELAYED_ACK_MILLIS)\<rparr>"
  have g: "\<not> ecn_enabled (s1\<lparr>t_rx := ?rx, t_rcv_nxt := 1003\<rparr>)" using f(5) by (simp add: ecn_enabled_def)
  have r: "receive_data s1 5 1001 [104, 105] False = Some s2"
    by (simp add: receive_data_def f t e g buffered_def reasm_new_def schedule_ack_def arm_delayed_ack_def sat_inc8_def Let_def
        s2_def)
  have c: "consume_pending_fin s2 = s2" by (simp add: consume_pending_fin_def s2_def f)
  have k: "recompute_closing_state s2 5 = s2"
    by (simp add: recompute_closing_state_def closing_state_def s2_def f Let_def)
  have "data_and_fin s1 5 sample_data False = Some s2"
    by (simp add: data_and_fin_def sample_data_fields(1,6) sample_data_flags r c k)
  then have d: "data_and_fin s1 5 sample_data False = Some sample_established"
    by (simp add: s2_def s1_def sample_established_def)
  show ?thesis
    using a d sample_data_accepted
    by (simp add: on_segment_def Let_def sample_data_flags paws_rejects_def on_acceptable_def advance_ts_recent_def
        sample_answered_fields)
qed

lemma sample_data_legal: "legal_segment sample_answered sample_data"
  using no_options[OF sample_data_fields(3)]
  by (simp add: legal_segment_def sample_data_fields seg_near_def sample_answered_fields)

lemma sample_reached:
  "reachable no_overrides 0 sample_passive" "reachable no_overrides 0 sample_answered"
  "reachable no_overrides 0 sample_established"
proof -
  obtain frame where p: "poll_transmit sample_passive 0 = Some (Some frame, sample_answered)" using sample_answers by blast
  show a: "reachable no_overrides 0 sample_passive"
    using no_options[OF sample_syn_fields(2)] unfolding sample_passive_def by (intro reachable.passive_open) simp_all
  show b: "reachable no_overrides 0 sample_answered" by (rule reachable.polled[OF a p])
  show "reachable no_overrides 0 sample_established" by (rule reachable.seg_in[OF b sample_data_legal sample_receives])
qed

end
