(* ===== verification/Receive_Path.thy ===== *)
theory Receive_Path
  imports Samples
begin

text \<open>
  The receive path end to end: from any segment a reachable connection is given to the bytes
  the application can read. The peer's byte stream is a function of the position; segments may
  repeat, overlap, arrive out of order or be cut by the buffer.
\<close>

lemma fin_effect:
  fixes s1 fin_at b
  defines "s2 \<equiv> consume_pending_fin (if b then receive_fin s1 fin_at else s1)"
  assumes "\<not> t_peer_fin_seen s1"
  shows "t_rx s2 = t_rx s1 \<and> t_reasm s2 = t_reasm s1
    \<and> t_rcv_nxt s2 = (if t_peer_fin_seen s2 then seq_add (t_rcv_nxt s1) 1 else t_rcv_nxt s1)"
  using assms(2) by (auto simp: s2_def consume_pending_fin_def receive_fin_def Let_def split: option.split)

definition delivered :: "tcb \<Rightarrow> tcb \<Rightarrow> (nat \<Rightarrow> u8) \<Rightarrow> nat \<Rightarrow> nat \<Rightarrow> bool" where
  "delivered self self' S p m \<longleftrightarrow> rb_buf (t_rx self') = rb_buf (t_rx self) @ map S [p ..< p + m]
     \<and> t_rcv_nxt self' = seq_add (t_rcv_nxt self) (m + (if t_peer_fin_seen self' then 1 else 0))
     \<and> (t_peer_fin_seen self' \<or> holds_stream S (p + m) self')"

lemma delivered_view: "recv_view a = recv_view b \<Longrightarrow> delivered self a S p m = delivered self b S p m"
  by (simp add: delivered_def holds_stream_def recv_view_def)

lemma delivered_refl:
  "recv_view self' = recv_view self \<Longrightarrow> \<not> t_peer_fin_seen self \<Longrightarrow> holds_stream S p self \<Longrightarrow> delivered self self' S p 0"
  by (simp add: delivered_def holds_stream_def recv_view_def seq_add_def)

lemma seq_add_offset: "m = offset_from x y \<Longrightarrow> x = seq_add y m"
  by (simp add: offset_from_def seq_add_def)

text \<open>A segment without data may have any sequence number.\<close>

definition brings_stream :: "(nat \<Rightarrow> u8) \<Rightarrow> nat \<Rightarrow> seqnum \<Rightarrow> bytes \<Rightarrow> bool" where
  "brings_stream S p rcv_nxt tcp \<longleftrightarrow>
     tcp_payload tcp = [] \<or> carries_stream S p rcv_nxt (tcp_seq tcp) (tcp_payload tcp)"

lemma data_and_fin_delivers:
  assumes inv: "recv_inv self" and adv: "offset_from (t_rcv_adv self) (t_rcv_nxt self) \<le> 262144"
    and near: "seq_lt (tcp_seq tcp) (t_rcv_nxt self) \<or> offset_from (tcp_seq tcp) (t_rcv_nxt self) \<le> 262144"
    and len: "length (tcp_payload tcp) \<le> 65535" and open_: "\<not> t_peer_fin_seen self"
    and S: "holds_stream S p self" "brings_stream S p (t_rcv_nxt self) tcp"
    and run: "data_and_fin self now tcp ce = Some self'"
  shows "\<exists>m. delivered self self' S p m"
proof -
  obtain s1 m where s1: "receive_data self now (tcp_seq tcp) (tcp_payload tcp) ce = Some s1" "received self s1 m"
    "received_stream self s1 S p m"
  proof (cases "tcp_payload tcp = []")
    case True
    then show ?thesis using that[of self 0] received_refl[OF inv] received_stream_refl[OF S(1)] by (simp add: receive_data_def)
  next
    case False
    then show ?thesis using that receive_data_ok[OF inv adv near len, of now ce] S by (auto simp: brings_stream_def)
  qed
  define s2 where "s2 = consume_pending_fin (if flag_has (tcp_flags_of tcp) FIN
      then receive_fin s1 (seq_add (tcp_seq tcp) (length (tcp_payload tcp))) else s1)"
  have e: "self' = recompute_closing_state s2 now" using run s1(1) by (simp add: data_and_fin_def s2_def)
  have o: "\<not> t_peer_fin_seen s1" "t_rcv_nxt s1 = seq_add (t_rcv_nxt self) m"
    using s1(2) open_ seq_add_offset by (simp_all add: received_def)
  have f: "t_rx s2 = t_rx s1" "t_reasm s2 = t_reasm s1"
    "t_rcv_nxt s2 = (if t_peer_fin_seen s2 then seq_add (t_rcv_nxt s1) 1 else t_rcv_nxt s1)"
    using fin_effect[OF o(1)] by (simp_all add: s2_def)
  have "rb_buf (t_rx s1) = rb_buf (t_rx self) @ map S [p ..< p + m]" "holds_stream S (p + m) s1"
    using s1(3) by (simp_all add: received_stream_def)
  then have "delivered self s2 S p m"
    using f o(2) unfolding delivered_def by (auto simp: holds_stream_def seq_add_def)
  then show ?thesis using delivered_view[of self' s2 self S p m] by (auto simp: e)
qed

lemma on_segment_delivers:
  assumes inv: "tcb_inv n self" and legal: "legal_segment self tcp" and st: "t_state self \<noteq> SynSent"
    and open_: "\<not> t_peer_fin_seen self"
    and S: "holds_stream S p self" "brings_stream S p (t_rcv_nxt self) tcp"
    and run: "on_segment ov self now tcp ce = Some self'"
  shows "\<exists>m. delivered self self' S p m"
proof -
  have l: "length (tcp_payload tcp) \<le> 65535" "seg_near self (tcp_seq tcp)" using legal st by (simp_all add: legal_segment_def)
  have sl: "seg_len tcp \<le> 65537" using l(1) by (simp add: seg_len_def)
  define ts where "ts = (if t_ts_enabled self then timestamps tcp else None)"
  consider (quiet) "recv_view self' = recv_view self"
    | (acc) "segment_acceptable self (tcp_seq tcp) (seg_len tcp)" "flag_has (tcp_flags_of tcp) ACK"
        "on_acceptable (advance_ts_recent self (tcp_seq tcp) ts) now tcp ts ce = Some self'"
  proof -
    have v: "recv_view (on_rst self now s) = recv_view self" "recv_view (on_syn self now s) = recv_view self" for s
      by (simp_all add: on_rst_def on_syn_def) (simp_all add: recv_view_def)
    show ?thesis
      using run st v that
      by (auto simp: on_segment_def Let_def ts_def[symmetric] on_acceptable_def split: if_splits)
  qed
  then show ?thesis
  proof cases
    case quiet
    then show ?thesis using delivered_refl open_ S(1) by blast
  next
    case acc
    let ?s = "advance_ts_recent self (tcp_seq tcp) ts"
    have "adv_near (offset_from (t_rcv_adv self) (t_rcv_nxt self))" using inv by (simp add: tcb_inv_def recv_inv_def)
    note near = acceptable_near[OF acc(1) this l(2) sl]
    have st': "t_state ?s \<noteq> SynSent" using st by (simp add: advance_ts_recent_def split: option.split)
    obtain ok s where a: "ack_step ?s now tcp (map_option snd ts) = Some (ok, s)" "tcb_inv n s" "recv_view s = recv_view ?s"
      using ack_step_ok[of n ?s now tcp "map_option snd ts"] inv st' by auto
    have rv: "recv_view s = recv_view self" using a(3) by simp
    have e: "(if ok then data_and_fin s now tcp ce else Some s) = Some self'"
      using acc(2,3) a(1) by (simp add: on_acceptable_def)
    have f: "t_rcv_adv s = t_rcv_adv self" "t_rcv_nxt s = t_rcv_nxt self" "t_peer_fin_seen s = t_peer_fin_seen self"
      "t_rx s = t_rx self" "holds_stream S p s"
      using rv S(1) by (simp_all add: recv_view_def holds_stream_def)
    show ?thesis
    proof (cases ok)
      case True
      have ri: "recv_inv s" using a(2) by (simp add: tcb_inv_def)
      have "data_and_fin s now tcp ce = Some self'" using e True by simp
      from data_and_fin_delivers[OF ri _ _ l(1) _ f(5) _ this] near open_ S(2)
      obtain m where "delivered s self' S p m" unfolding f by blast
      then show ?thesis using f by (auto simp: delivered_def)
    next
      case False
      then have "recv_view self' = recv_view self" using e rv by simp
      then show ?thesis using delivered_refl[OF _ open_ S(1)] by blast
    qed
  qed
qed

section \<open>After the peer's FIN\<close>

text \<open>A peer that has closed only repeats what it sent.\<close>

definition no_new_data :: "tcb \<Rightarrow> bytes \<Rightarrow> bool" where
  "no_new_data self tcp \<longleftrightarrow> tcp_payload tcp = []
     \<or> (seq_lt (tcp_seq tcp) (t_rcv_nxt self) \<and> length (tcp_payload tcp) \<le> offset_from (t_rcv_nxt self) (tcp_seq tcp))"

lemma data_and_fin_closed:
  assumes "no_new_data self tcp" and "t_peer_fin_seen self" and "data_and_fin self now tcp ce = Some self'"
  shows "t_rx self' = t_rx self \<and> t_peer_fin_seen self' \<and> t_rcv_nxt self' = t_rcv_nxt self"
proof -
  obtain s1 where s1: "receive_data self now (tcp_seq tcp) (tcp_payload tcp) ce = Some s1"
    using assms(3) by (auto simp: data_and_fin_def bind_Some_iff)
  have "recv_view s1 = recv_view self"
  proof (cases "tcp_payload tcp = []")
    case True
    then show ?thesis using s1 by (simp add: receive_data_def)
  next
    case False
    then have "trim_left (t_rcv_nxt self) (tcp_seq tcp) (tcp_payload tcp) = (t_rcv_nxt self, [])"
      using assms(1) by (simp add: no_new_data_def trim_left_def Let_def)
    then have "s1 = schedule_ack self now False"
      using s1 False by (simp add: receive_data_def accept_data_def Let_def)
    then show ?thesis by simp
  qed
  then have v: "t_rx s1 = t_rx self" "t_peer_fin_seen s1" "t_rcv_nxt s1 = t_rcv_nxt self" using assms(2) by (simp_all add: recv_view_def)
  define s2 where "s2 = consume_pending_fin (if flag_has (tcp_flags_of tcp) FIN
      then receive_fin s1 (seq_add (tcp_seq tcp) (length (tcp_payload tcp))) else s1)"
  have "t_rx s2 = t_rx self" "t_peer_fin_seen s2" "t_rcv_nxt s2 = t_rcv_nxt self"
    using v by (auto simp: s2_def consume_pending_fin_def receive_fin_def Let_def split: option.split)
  moreover have "self' = recompute_closing_state s2 now" using assms(3) s1 by (simp add: data_and_fin_def s2_def)
  ultimately show ?thesis using recv_view_steps(10)[of s2 now] by (simp add: recv_view_def)
qed

lemma on_segment_closed:
  assumes inv: "tcb_inv n self" and st: "t_state self \<noteq> SynSent" and "no_new_data self tcp" and "t_peer_fin_seen self"
    and run: "on_segment ov self now tcp ce = Some self'"
  shows "t_rx self' = t_rx self \<and> t_peer_fin_seen self' \<and> t_rcv_nxt self' = t_rcv_nxt self"
proof -
  define ts where "ts = (if t_ts_enabled self then timestamps tcp else None)"
  consider (quiet) "recv_view self' = recv_view self"
    | (acc) "flag_has (tcp_flags_of tcp) ACK" "on_acceptable (advance_ts_recent self (tcp_seq tcp) ts) now tcp ts ce = Some self'"
  proof -
    have v: "recv_view (on_rst self now s) = recv_view self" "recv_view (on_syn self now s) = recv_view self" for s
      by (simp_all add: on_rst_def on_syn_def) (simp_all add: recv_view_def)
    show ?thesis
      using run st v that
      by (auto simp: on_segment_def Let_def ts_def[symmetric] on_acceptable_def split: if_splits)
  qed
  then show ?thesis
  proof cases
    case quiet
    then show ?thesis using assms(4) by (simp add: recv_view_def)
  next
    case acc
    let ?s = "advance_ts_recent self (tcp_seq tcp) ts"
    have st': "t_state ?s \<noteq> SynSent" using st by (simp add: advance_ts_recent_def split: option.split)
    obtain ok s where a: "ack_step ?s now tcp (map_option snd ts) = Some (ok, s)" "recv_view s = recv_view ?s"
      using ack_step_ok[of n ?s now tcp "map_option snd ts"] inv st' by auto
    have e: "(if ok then data_and_fin s now tcp ce else Some s) = Some self'"
      using acc a(1) by (simp add: on_acceptable_def)
    have f: "t_rcv_nxt s = t_rcv_nxt self" "t_peer_fin_seen s = t_peer_fin_seen self" "t_rx s = t_rx self"
      using a(2) by (simp_all add: recv_view_def advance_ts_recent_def split: option.splits)
    have "no_new_data s tcp" using assms(3) f by (simp add: no_new_data_def)
    then show ?thesis using data_and_fin_closed[of s tcp now ce self'] e f assms(4) by (cases ok) auto
  qed
qed

lemma syn_sent_keeps:
  assumes "tcb_inv n self" and "t_state self = SynSent" and "on_segment ov self now tcp ce = Some self'"
  shows "t_rx self' = t_rx self \<and> \<not> t_peer_fin_seen self' \<and> holds_stream S p self'"
proof -
  have r: "reasm_runs (t_reasm self) = []" "\<not> t_peer_fin_seen self" using assms(1,2) by (simp_all add: tcb_inv_def recv_inv_def)
  have "self' = on_segment_syn_sent ov self tcp" using assms(2,3) by (simp add: on_segment_def)
  then have "t_rx self' = t_rx self" "t_reasm self' = t_reasm self" "t_peer_fin_seen self' = t_peer_fin_seen self"
    by (simp_all add: on_segment_syn_sent_def syn_sent_syn_def negotiate_fields Let_def)
  then show ?thesis using r by (simp add: holds_stream_def reasm_held_def)
qed

section \<open>A whole session\<close>

text \<open>
  A session against a peer whose byte stream is \<open>S\<close>: what the application has read so far,
  and how many bytes of the stream have come in. The peer may send its bytes in any
  segmentation, order and number of copies; the timers, the transmit polls and the
  application's calls interleave freely.
\<close>

definition peer_segment :: "(nat \<Rightarrow> u8) \<Rightarrow> nat \<Rightarrow> tcb \<Rightarrow> bytes \<Rightarrow> bool" where
  "peer_segment S p self tcp \<longleftrightarrow> legal_segment self tcp
     \<and> (t_state self = SynSent
        \<or> (if t_peer_fin_seen self then no_new_data self tcp
           else brings_stream S p (t_rcv_nxt self) tcp))"

inductive session :: "cc_overrides \<Rightarrow> (nat \<Rightarrow> u8) \<Rightarrow> nat \<Rightarrow> tcb \<Rightarrow> bytes \<Rightarrow> nat \<Rightarrow> bool" for ov S where
  opened_passively: "mss \<noteq> 0 \<Longrightarrow> unat mss \<le> 65495 \<Longrightarrow> mss_option syn \<noteq> Some 0 \<Longrightarrow>
      session ov S 0 (new_syn_received ov local remote syn iss now mss) [] 0"
| opened_actively: "mss \<noteq> 0 \<Longrightarrow> unat mss \<le> 65495 \<Longrightarrow> session ov S 0 (new_syn_sent ov local remote iss now mss) [] 0"
| controlled: "session ov S n self got p \<Longrightarrow> kind \<noteq> KCubic \<Longrightarrow> session ov S n (set_congestion_control ov self kind) got p"
| received_segment: "session ov S n self got p \<Longrightarrow> peer_segment S p self tcp \<Longrightarrow>
      on_segment ov self now tcp ce = Some self' \<Longrightarrow>
      session ov S n self' got (p + (length (rb_buf (t_rx self')) - length (rb_buf (t_rx self))))"
| ticked: "session ov S n self got p \<Longrightarrow> n < U32_MAX \<Longrightarrow> tcb_on_timer self now = Some self' \<Longrightarrow> session ov S (Suc n) self' got p"
| drained: "session ov S n self got p \<Longrightarrow> poll_transmit self now = Some (out, self') \<Longrightarrow> session ov S n self' got p"
| wrote: "session ov S n self got p \<Longrightarrow> session ov S n (fst (tcb_send self bytes)) got p"
| read_bytes: "session ov S n self got p \<Longrightarrow> tcb_recv self len = (self', bytes) \<Longrightarrow> session ov S n self' (got @ bytes) p"
| closed: "session ov S n self got p \<Longrightarrow> session ov S n (tcb_close self) got p"

lemma session_reachable: "session ov S n self got p \<Longrightarrow> reachable ov n self"
proof (induction rule: session.induct)
  case (received_segment n self got p tcp now ce self')
  then show ?case by (auto simp: peer_segment_def intro: reachable.seg_in)
next
  case (read_bytes n self got p len self' bytes)
  then show ?case using reachable.app_recv[of ov n self len] by simp
qed (auto intro: reachable.intros)

lemma timer_stage_views:
  "recv_view (timer_persist self now) = recv_view self" "recv_view (timer_time_wait self now) = recv_view self"
  "recv_view (timer_delayed_ack self now) = recv_view self"
  by (simp_all add: timer_persist_def timer_time_wait_def timer_delayed_ack_def Let_def recv_view_def split: option.split)

lemma on_timer_recv_view:
  assumes "tcb_on_timer self now = Some self'"
  shows "recv_view self' = recv_view self"
proof -
  obtain s where s: "timer_rtx self now = Some s"
    "self' = timer_delayed_ack (timer_time_wait (timer_persist s now) now) now"
    using assms by (auto simp: tcb_on_timer_def)
  have a: "recv_view x = recv_view self" if "rto_syn_sent self now = Some x" for x
    using that by (auto simp: rto_syn_sent_def Let_def recv_view_def restart_rtx_def bind_Some_iff split: if_splits)
  have b: "recv_view x = recv_view self" if h: "rto_fired self now = Some x" for x
  proof -
    obtain r where "rtt_on_timeout (t_rtt self) = Some r" using h by (auto simp: rto_fired_def bind_Some_iff)
    then show ?thesis
      using h by (cases "t_sack_enabled self") (auto simp: rto_fired_def Let_def recv_view_def restart_rtx_def)
  qed
  have "recv_view s = recv_view self"
    using s(1) a b unfolding timer_rtx_def by (auto split: option.splits if_splits)
  then show ?thesis by (simp add: s(2) timer_stage_views)
qed

lemma recv_view_calls:
  "recv_view (set_congestion_control ov self kind) = recv_view self" "recv_view (fst (tcb_send self bytes)) = recv_view self"
  "recv_view (tcb_close self) = recv_view self"
  by (simp_all add: recv_view_def set_congestion_control_def tcb_send_def tcb_close_def split: state.split prod.split)

definition session_inv :: "(nat \<Rightarrow> u8) \<Rightarrow> tcb \<Rightarrow> bytes \<Rightarrow> nat \<Rightarrow> bool" where
  "session_inv S self got p \<longleftrightarrow> got @ rb_buf (t_rx self) = map S [0 ..< p] \<and> (t_peer_fin_seen self \<or> holds_stream S p self)"

lemma session_inv_view: "recv_view a = recv_view b \<Longrightarrow> session_inv S a got p = session_inv S b got p"
  by (simp add: session_inv_def recv_view_def holds_stream_def)

lemma segment_session_inv:
  assumes "tcb_inv n self" and i: "session_inv S self got p" and seg: "peer_segment S p self tcp"
    and run: "on_segment ov self now tcp ce = Some self'"
  shows "session_inv S self' got (p + (length (rb_buf (t_rx self')) - length (rb_buf (t_rx self))))"
proof -
  have legal: "legal_segment self tcp" using seg by (simp add: peer_segment_def)
  consider (syn) "t_state self = SynSent" | (fin) "t_state self \<noteq> SynSent" "t_peer_fin_seen self"
    | (data) "t_state self \<noteq> SynSent" "\<not> t_peer_fin_seen self" by blast
  then show ?thesis
  proof cases
    case syn
    then show ?thesis using syn_sent_keeps[OF assms(1) syn run, of S p] i by (simp add: session_inv_def)
  next
    case fin
    then have "no_new_data self tcp" using seg by (simp add: peer_segment_def)
    from on_segment_closed[OF assms(1) fin(1) this fin(2) run] i show ?thesis by (simp add: session_inv_def)
  next
    case data
    then have "brings_stream S p (t_rcv_nxt self) tcp" using seg by (simp add: peer_segment_def)
    moreover have "holds_stream S p self" using i data(2) by (simp add: session_inv_def)
    ultimately obtain m where d: "delivered self self' S p m"
      using on_segment_delivers[OF assms(1) legal data(1,2) _ _ run] by blast
    then have "length (rb_buf (t_rx self')) - length (rb_buf (t_rx self)) = m" by (simp add: delivered_def)
    moreover have "got @ rb_buf (t_rx self') = map S [0 ..< p + m]"
      using d i map_upt_append[of 0 p "p + m" S] unfolding delivered_def session_inv_def
      by (metis append.assoc le_add1 zero_le)
    ultimately show ?thesis using d by (auto simp: session_inv_def delivered_def)
  qed
qed

lemma birth_session_inv:
  "session_inv S (new_syn_received ov local remote syn iss now mss) [] 0"
  "session_inv S (new_syn_sent ov local remote iss now mss) [] 0"
  by (simp_all add: session_inv_def new_syn_received_def new_syn_sent_def Let_def birth_parts holds_stream_def
      reasm_held_def split: option.split prod.split)

lemma session_delivers:
  assumes "session ov S n self got p" and ov: "overrides_ok ov"
  shows "session_inv S self got p"
  using assms(1)
proof (induction rule: session.induct)
  case (received_segment n self got p tcp now ce self')
  show ?case
    by (rule segment_session_inv[OF reachable_inv[OF session_reachable[OF received_segment.hyps(1)] ov]
          received_segment.IH received_segment.hyps(2,3)])
next
  case (ticked n self got p now self')
  then show ?case using session_inv_view[OF on_timer_recv_view] by blast
next
  case (drained n self got p now out self')
  have "recv_edge self self'"
    using poll_transmit_ok[OF reachable_inv[OF session_reachable[OF drained.hyps(1)] ov], of now] drained.hyps(2)
    by (simp add: step_ok_def)
  then show ?case using drained.IH by (simp add: session_inv_def recv_edge_def holds_stream_def)
next
  case (read_bytes n self got p len self' bytes)
  define k where "k = min len (length (rb_buf (t_rx self)))"
  have "bytes = take k (rb_buf (t_rx self))" "rb_buf (t_rx self') = drop k (rb_buf (t_rx self))"
    "t_peer_fin_seen self' = t_peer_fin_seen self" "holds_stream S p self' = holds_stream S p self"
    using read_bytes.hyps(2) by (auto simp: tcb_recv_def rb_read_def Let_def k_def holds_stream_def)
  then show ?case using read_bytes.IH by (simp add: session_inv_def)
qed (simp_all add: session_inv_view[OF recv_view_calls(1)] session_inv_view[OF recv_view_calls(2)]
    session_inv_view[OF recv_view_calls(3)] birth_session_inv)

text \<open>
  C5: in-order delivery end to end. In every session, whatever the order, overlap and
  repetition of the peer's segments and however timers, transmissions and calls interleave, the
  bytes the application has read followed by the bytes waiting in the receive ring are a prefix
  of the peer's byte stream: none lost, duplicated, invented or reordered.
\<close>

theorem application_reads_a_prefix:
  assumes "session ov S n self got p" and "overrides_ok ov"
  shows "got @ rb_buf (t_rx self) = map S [0 ..< p]"
  using session_delivers[OF assms] by (simp add: session_inv_def)

text \<open>The stream of the sample connection's peer: "hi" and then zeros.\<close>

definition sample_stream :: "nat \<Rightarrow> u8" where
  "sample_stream k = (if k = 0 then 104 else if k = 1 then 105 else 0)"

theorem application_reads_a_prefix_witness:
  "\<exists>self. session no_overrides sample_stream 0 self [] 2 \<and> rb_buf (t_rx self) = map sample_stream [0 ..< 2]"
proof -
  obtain frame where p: "poll_transmit sample_passive 0 = Some (Some frame, sample_answered)"
    using sample_answers by blast
  have s0: "session no_overrides sample_stream 0 sample_passive [] 0"
    unfolding sample_passive_def using no_options[OF sample_syn_fields(2)] by (intro session.opened_passively) simp_all
  have s1: "session no_overrides sample_stream 0 sample_answered [] 0" by (rule session.drained[OF s0 p])
  have "carries_stream sample_stream 0 1001 1001 [104, 105]"
    unfolding carries_stream_def by (intro exI[of _ 0]) (simp add: sample_stream_def upt_conv_Cons seq_lt_def distance_def)
  then have seg: "peer_segment sample_stream 0 sample_answered sample_data"
    by (simp add: peer_segment_def brings_stream_def sample_data_legal sample_data_fields sample_answered_fields)
  have l: "length (rb_buf (t_rx sample_established)) - length (rb_buf (t_rx sample_answered)) = 2"
    by (simp add: sample_established_def sample_answered_fields birth_parts)
  have s2: "session no_overrides sample_stream 0 sample_established [] 2"
    using session.received_segment[OF s1 seg sample_receives] unfolding l add_0 .
  have "rb_buf (t_rx sample_established) = map sample_stream [0 ..< 2]"
    using application_reads_a_prefix[OF s2 no_overrides_ok] unfolding append_Nil .
  then show ?thesis using s2 by blast
qed

end
