(* ===== verification/Send_Path.thy ===== *)
theory Send_Path
  imports Receive_Path
begin

text \<open>
  The send path end to end: from the bytes the application has written to the segments that
  leave. Where the send queue stands in the written stream is an invariant of every handler, so
  every data segment carries the written bytes of its sequence numbers, and a FIN sits right
  after the last one.
\<close>

section \<open>What a segment does to the send queue\<close>

definition tx_view :: "tcb \<Rightarrow> state \<times> seqnum \<times> seqnum \<times> seqnum \<times> ring_buffer \<times> seqnum option \<times> bool" where
  "tx_view self = (t_state self, t_iss self, t_snd_una self, t_snd_nxt self, t_tx self, t_fin_seq self, t_fin_acked self)"

lemma tx_view_steps [simp]:
  "tx_view (schedule_ack self now b) = tx_view self" "tx_view (start_rtx self now) = tx_view self"
  "tx_view (restart_rtx self now) = tx_view self" "tx_view (arm_time_wait self now) = tx_view self"
  "tx_view (arm_persist self now) = tx_view self" "tx_view (arm_delayed_ack self now) = tx_view self"
  "tx_view (challenge_ack self now) = tx_view self" "tx_view (update_window self s a w) = tx_view self"
  "tx_view (ack_gbn self) = tx_view self" "tx_view (advance_ts_recent self s ts) = tx_view self"
  "tx_view (ack_timer self now) = tx_view self" "tx_view (ack_sample self now d r) = tx_view self"
  "tx_view (ack_ecn self now ace d r) = tx_view self" "tx_view (receive_fin self f) = tx_view self"
  "tx_view (consume_pending_fin self) = tx_view self" "tx_view (arm_pace self now rate p) = tx_view self"
  by (simp_all add: tx_view_def schedule_ack_def start_rtx_def restart_rtx_def arm_time_wait_def arm_persist_def
      arm_delayed_ack_def challenge_ack_def update_window_def ack_gbn_def advance_ts_recent_def ack_timer_def
      ack_sample_def ack_ecn_def receive_fin_def consume_pending_fin_def arm_pace_def Let_def split: option.split)

lemma ack_parts_tx_view:
  "ack_scoreboard self now = Some self' \<Longrightarrow> tx_view self' = tx_view self"
  "ack_rtt self a e now = Some self' \<Longrightarrow> tx_view self' = tx_view self"
  by (auto simp: ack_scoreboard_def ack_rtt_def tx_view_def Let_def bind_Some_iff split: if_splits option.splits prod.splits)

lemma loss_tx_view:
  "tx_view (legacy_dup_ack self now) = tx_view self" "tx_view (sack_loss self now blocks d) = tx_view self"
  by (simp_all add: legacy_dup_ack_def sack_loss_def Let_def split: prod.split) (simp_all add: tx_view_def)

lemma ack_advance_tx:
  assumes "ack_advance self a e ace now = Some self'"
  shows "t_state self' = t_state self" "t_iss self' = t_iss self" "t_snd_una self' = a" "t_snd_nxt self' = t_snd_nxt self"
    "rb_buf (t_tx self') = drop (offset_from a (t_snd_una self)) (rb_buf (t_tx self))"
    "t_fin_seq self' = t_fin_seq self"
    "t_fin_acked self' \<longleftrightarrow> t_fin_acked self \<or> (\<exists>f. t_fin_seq self = Some f \<and> seq_gt a f)"
proof -
  define d where "d = min (offset_from a (t_snd_una self)) (rb_len (t_tx self))"
  define r where "r = (t_sack_enabled self \<and> in_recovery (t_scoreboard self))"
  obtain s1 s2 s3 where s: "ack_consume self a d r now = Some s1"
    "ack_scoreboard (ack_ecn (ack_sample s1 now d r) now ace d r) now = Some s2"
    "ack_rtt (ack_gbn s2) a e now = Some s3" "self' = ack_timer s3 now"
    using assms unfolding ack_advance_def Let_def d_def[symmetric] r_def[symmetric] bind_Some_iff option.inject
    by blast
  have "tx_view self' = tx_view s1" using ack_parts_tx_view(1)[OF s(2)] ack_parts_tx_view(2)[OF s(3)] s(4) by simp
  moreover have "tx_view s1 = (t_state self, t_iss self, a, t_snd_nxt self, fst (rb_consume (t_tx self) d), t_fin_seq self,
      t_fin_acked self \<or> (\<exists>f. t_fin_seq self = Some f \<and> seq_gt a f))"
    using s(1) by (cases "t_fin_seq self") (auto simp: ack_consume_def Let_def bind_Some_iff tx_view_def)
  moreover have "rb_buf (fst (rb_consume (t_tx self) d)) = drop (offset_from a (t_snd_una self)) (rb_buf (t_tx self))"
    by (simp add: rb_consume_def Let_def d_def rb_len_def min_def)
  ultimately show "t_state self' = t_state self" "t_iss self' = t_iss self" "t_snd_una self' = a" "t_snd_nxt self' = t_snd_nxt self"
    "rb_buf (t_tx self') = drop (offset_from a (t_snd_una self)) (rb_buf (t_tx self))"
    "t_fin_seq self' = t_fin_seq self"
    "t_fin_acked self' \<longleftrightarrow> t_fin_acked self \<or> (\<exists>f. t_fin_seq self = Some f \<and> seq_gt a f)"
    by (auto simp: tx_view_def)
qed

text \<open>A segment after the handshake acknowledges or leaves the send queue alone.\<close>

lemma ack_synchronized_tx:
  assumes "ack_synchronized self now tcp e = Some (ok, self')"
  shows "tx_view self' = tx_view self
    \<or> (\<exists>s. ack_advance self (tcp_ack tcp) e (ace_field tcp) now = Some s \<and> tx_view self' = tx_view s
        \<and> seq_gt (tcp_ack tcp) (t_snd_una self) \<and> \<not> seq_gt (tcp_ack tcp) (t_snd_nxt self))"
proof -
  obtain b s1 where p: "process_ack self (tcp_seq tcp) (tcp_ack tcp) (tcp_window tcp) e (ace_field tcp) now = Some (b, s1)"
    using assms by (auto simp: ack_synchronized_def Let_def bind_Some_iff)
  have "tx_view self' = tx_view s1"
    using assms p by (auto simp: ack_synchronized_def Let_def loss_tx_view split: if_splits)
  moreover have "tx_view (s\<lparr>t_needs_ack := True\<rparr>) = tx_view s" for s by (simp add: tx_view_def)
  ultimately show ?thesis
    using p by (auto simp: process_ack_def bind_Some_iff split: if_splits)
qed

lemma receive_data_tx:
  assumes "receive_data self now seq payload ce = Some self'"
  shows "tx_view self' = tx_view self"
proof (cases "payload = []")
  case False
  obtain data_seq dat where t: "trim_left (t_rcv_nxt self) seq payload = (data_seq, dat)" by fastforce
  obtain io nr s1 where a: "accept_data self data_seq dat = Some (io, nr, s1)"
    using assms t False by (auto simp: receive_data_def Let_def bind_Some_iff)
  have "tx_view s1 = tx_view self"
    using a unfolding accept_data_def Let_def
    by (auto simp: tx_view_def bind_Some_iff split: if_splits prod.splits)
  moreover have "tx_view (s1\<lparr>t_accecn_cep := k\<rparr>) = tx_view s1" for k by (simp add: tx_view_def)
  ultimately show ?thesis using assms t a False by (auto simp: receive_data_def Let_def)
qed (use assms in \<open>simp add: receive_data_def\<close>)

lemma recompute_tx:
  "tx_view (recompute_closing_state self now)
    = tx_view (self\<lparr>t_state := closing_state (t_state self) (t_fin_acked self) (t_peer_fin_seen self)\<rparr>)"
  by (simp add: recompute_closing_state_def arm_time_wait_def Let_def tx_view_def split: state.split)

lemma data_and_fin_tx:
  assumes "data_and_fin self now tcp ce = Some self'"
  shows "\<exists>b. tx_view self' = tx_view (self\<lparr>t_state := closing_state (t_state self) (t_fin_acked self) b\<rparr>)"
proof -
  obtain s1 where s1: "receive_data self now (tcp_seq tcp) (tcp_payload tcp) ce = Some s1"
    "self' = recompute_closing_state (consume_pending_fin (if flag_has (tcp_flags_of tcp) FIN
        then receive_fin s1 (seq_add (tcp_seq tcp) (length (tcp_payload tcp))) else s1)) now"
    using assms by (auto simp: data_and_fin_def bind_Some_iff)
  define s2 where "s2 = consume_pending_fin (if flag_has (tcp_flags_of tcp) FIN
        then receive_fin s1 (seq_add (tcp_seq tcp) (length (tcp_payload tcp))) else s1)"
  have "tx_view s2 = tx_view self" using receive_data_tx[OF s1(1)] by (simp add: s2_def)
  then have "tx_view (s2\<lparr>t_state := closing_state (t_state s2) (t_fin_acked s2) (t_peer_fin_seen s2)\<rparr>)
      = tx_view (self\<lparr>t_state := closing_state (t_state self) (t_fin_acked self) (t_peer_fin_seen s2)\<rparr>)"
    by (simp add: tx_view_def)
  then show ?thesis using s1(2) recompute_tx[of s2 now] by (auto simp: s2_def)
qed

section \<open>Where the send queue stands in the written stream\<close>

text \<open>
  The queue holds what was written and not yet acknowledged, \<open>SND.UNA\<close> is the sequence number of
  its first byte, and a FIN that was sent has the sequence number after the last byte written.
\<close>

definition queue_at :: "bytes \<Rightarrow> tcb \<Rightarrow> nat \<Rightarrow> bool" where
  "queue_at W self d \<longleftrightarrow> d \<le> length W \<and> rb_buf (t_tx self) = drop d W \<and>
     (case t_fin_seq self of
        None \<Rightarrow> t_snd_una self = seq_add (t_iss self) (1 + d) \<and> offset_from (t_snd_nxt self) (t_snd_una self) \<le> length W - d
      | Some f \<Rightarrow> f = seq_add (t_iss self) (1 + length W) \<and> t_snd_nxt self = seq_add f 1
          \<and> t_state self \<notin> {Established, CloseWait}
          \<and> (t_snd_una self = seq_add (t_iss self) (1 + d)
             \<or> d = length W \<and> t_snd_una self = t_snd_nxt self \<and> t_fin_acked self))"

definition sends :: "bytes \<Rightarrow> tcb \<Rightarrow> bool" where
  "sends W self \<longleftrightarrow>
     (if t_state self \<in> {SynSent, SynReceived} then W = [] \<and> t_fin_seq self = None
      else (t_state self = Closed \<and> W = [] \<and> rb_buf (t_tx self) = [] \<and> t_fin_seq self = None)
        \<or> (\<exists>d. queue_at W self d))"

lemma queue_at_view: "tx_view a = tx_view b \<Longrightarrow> queue_at W a d = queue_at W b d"
  unfolding queue_at_def tx_view_def by (cases "t_fin_seq b") auto

lemma sends_view:
  assumes "tx_view a = tx_view b"
  shows "sends W a = sends W b"
proof -
  have "queue_at W a = queue_at W b" using queue_at_view[OF assms] by (rule ext)
  then show ?thesis using assms by (simp add: sends_def tx_view_def)
qed

lemma queue_at_state:
  "queue_at W self d \<Longrightarrow> (st \<in> {Established, CloseWait} \<Longrightarrow> t_state self \<in> {Established, CloseWait})
    \<Longrightarrow> queue_at W (self\<lparr>t_state := st\<rparr>) d"
  by (auto simp: queue_at_def split: option.splits)

lemma sends_state:
  assumes "sends W self" and "t_state self \<notin> {SynSent, SynReceived}" and "st \<notin> {SynSent, SynReceived}"
    and "st \<in> {Established, CloseWait} \<Longrightarrow> t_state self \<in> {Established, CloseWait}" and "t_state self = Closed \<Longrightarrow> st = Closed"
  shows "sends W (self\<lparr>t_state := st\<rparr>)"
  using assms queue_at_state[of W self _ st] unfolding sends_def by auto

lemma closing_open: "closing_state st a b \<in> {Established, CloseWait} \<Longrightarrow> st \<in> {Established, CloseWait}"
  and closing_closed: "closing_state Closed a b = Closed"
  by (cases st) (auto simp: closing_state_def split: if_splits bool.splits)

lemma seq_add_add: "seq_add (seq_add x a) b = seq_add x (a + b)"
  by (simp add: seq_add_def)

lemma seq_add_offset_from: "seq_add y (offset_from x y) = x"
  using seq_add_offset[OF refl, of x y] by simp

lemma queue_length:
  assumes "send_inv self" and "queue_at W self d"
  shows "rb_len (t_tx self) = length W - d" "length W - d \<le> 262144"
proof -
  show l: "rb_len (t_tx self) = length W - d" using assms(2) by (simp add: queue_at_def rb_len_def)
  show "length W - d \<le> 262144" using assms(1) unfolding l[symmetric]
    by (simp add: send_inv_def rb_inv_def rb_len_def TX_BUFFER_def)
qed

text \<open>An acknowledgement inside the window moves the queue along the stream.\<close>

lemma queue_at_advance:
  assumes inv: "send_inv self" and q: "queue_at W self d"
    and a: "seq_gt a (t_snd_una self)" "\<not> seq_gt a (t_snd_nxt self)"
    and run: "ack_advance self a e ace now = Some self'"
  shows "\<exists>d'. queue_at W self' d'"
proof -
  note adv = ack_advance_tx[OF run]
  define k where "k = offset_from a (t_snd_una self)"
  have w: "offset_from (t_snd_nxt self) (t_snd_una self) < 2147483648" using inv by (simp add: send_inv_def sb_inv_def)
  note k = ack_window[OF w a, folded k_def]
  have ak: "a = seq_add (t_snd_una self) k" using seq_add_offset_from[of "t_snd_una self" a] by (simp add: k_def)
  have o: "offset_from (t_snd_nxt self) a = offset_from (t_snd_nxt self) (t_snd_una self) - k"
    using offset_rebase_forward[of a "t_snd_una self" "t_snd_nxt self"] k(2) by (simp add: k_def)
  have b: "d \<le> length W" "rb_buf (t_tx self) = drop d W" using q by (simp_all add: queue_at_def)
  have buf: "rb_buf (t_tx self') = drop (d + k) W" using adv(5) b(2) by (simp add: k_def add.commute)
  note len = queue_length[OF inv q]
  show ?thesis
  proof (cases "t_fin_seq self")
    case None
    then have u: "t_snd_una self = seq_add (t_iss self) (1 + d)" "offset_from (t_snd_nxt self) (t_snd_una self) \<le> length W - d"
      using q by (auto simp: queue_at_def)
    have "a = seq_add (t_iss self) (1 + (d + k))" unfolding ak u(1) seq_add_add by (simp add: add.assoc)
    moreover have "d + k \<le> length W" "offset_from (t_snd_nxt self) a \<le> length W - (d + k)"
      using u(2) k(2) o b(1) by linarith+
    ultimately have "queue_at W self' (d + k)" using None buf adv by (simp add: queue_at_def)
    then show ?thesis by blast
  next
    case (Some f)
    then have f: "f = seq_add (t_iss self) (1 + length W)" "t_snd_nxt self = seq_add f 1" "t_state self \<notin> {Established, CloseWait}"
      "t_snd_una self = seq_add (t_iss self) (1 + d) \<or> t_snd_una self = t_snd_nxt self"
      using q by (auto simp: queue_at_def)
    have "t_snd_una self \<noteq> t_snd_nxt self" using k by auto
    then have u: "t_snd_una self = seq_add (t_iss self) (1 + d)" using f(4) by blast
    have ak': "a = seq_add (t_iss self) (1 + (d + k))" unfolding ak u seq_add_add by (simp add: add.assoc)
    have "t_snd_nxt self = seq_add (t_snd_una self) (length W - d + 1)"
      unfolding f(1,2) u seq_add_add using b(1) by simp
    then have nk: "offset_from (t_snd_nxt self) (t_snd_una self) = length W - d + 1"
      using offset_from_add[of "t_snd_una self" "t_snd_una self" "length W - d + 1"] len(2) by simp
    show ?thesis
    proof (cases "k \<le> length W - d")
      case True
      then have "queue_at W self' (d + k)" using Some f(1,2,3) ak' b(1) buf adv by (simp add: queue_at_def)
      then show ?thesis by blast
    next
      case False
      then have k1: "k = length W - d + 1" using k(2) nk by linarith
      then have an: "a = seq_add f 1" unfolding ak' f(1) seq_add_add using b(1) by simp
      have "offset_from (seq_add f 1) f = 1" using offset_from_add[of f f 1] by simp
      then have "seq_gt a f" unfolding an seq_gt_offset by simp
      then have "queue_at W self' (length W)" using Some f(1,2,3) an k1 b(1) buf adv by (simp add: queue_at_def)
      then show ?thesis by blast
    qed
  qed
qed

text \<open>The acknowledgement of the SYN.\<close>

lemma syn_acked:
  assumes "send_inv self" and "t_state self \<in> {SynSent, SynReceived}"
    and a: "seq_gt a (t_iss self)" "seq_le a (t_snd_nxt self)"
  shows "a = seq_add (t_iss self) 1" and "t_snd_nxt self = seq_add (t_iss self) 1"
proof -
  have w: "t_snd_nxt self \<in> {t_iss self, seq_add (t_iss self) 1}" using assms(1,2) by (auto simp: send_inv_def)
  have o: "offset_from (seq_add (t_iss self) 1) (t_iss self) = 1" using offset_from_add[of "t_iss self" "t_iss self" 1] by simp
  then have "offset_from (t_snd_nxt self) (t_iss self) < 2147483648" using w by auto
  from ack_window[OF this a(1)] a(2) have k: "0 < offset_from a (t_iss self)"
    "offset_from a (t_iss self) \<le> offset_from (t_snd_nxt self) (t_iss self)" by (simp_all add: seq_gt_not_le)
  then show n: "t_snd_nxt self = seq_add (t_iss self) 1" using w by auto
  show "a = seq_add (t_iss self) 1" by (rule offset_from_inj[of _ "t_iss self"]) (use k o n in simp)
qed

lemma queue_at_start:
  assumes "rb_buf (t_tx self) = []" and "t_fin_seq self = None" and "t_snd_una self = seq_add (t_iss self) 1"
    and "t_snd_nxt self = seq_add (t_iss self) 1"
  shows "queue_at [] self 0"
  using assms by (simp add: queue_at_def)

lemma ack_syn_received_sends:
  assumes inv: "send_inv self" and st: "t_state self = SynReceived" and s: "sends W self"
    and e: "ack_syn_received self tcp = (ok, self')"
  shows "sends W self'" "t_iss self' = t_iss self" "t_fin_seq self' = t_fin_seq self" "t_state self' \<notin> {SynSent, SynReceived}"
proof -
  have w: "W = []" "t_fin_seq self = None" using s st by (simp_all add: sends_def)
  have q: "rb_buf (t_tx self) = []" "t_snd_una self = t_iss self" using inv st by (simp_all add: send_inv_def)
  have "sends W self' \<and> t_iss self' = t_iss self \<and> t_fin_seq self' = t_fin_seq self \<and> t_state self' \<notin> {SynSent, SynReceived}"
  proof (cases "seq_gt (tcp_ack tcp) (t_snd_una self) \<and> seq_le (tcp_ack tcp) (t_snd_nxt self)")
    case True
    then have a: "seq_gt (tcp_ack tcp) (t_iss self)" "seq_le (tcp_ack tcp) (t_snd_nxt self)" using q(2) by auto
    note n = syn_acked[OF inv _ a]
    define u where "u = update_window (self\<lparr>t_snd_una := tcp_ack tcp\<rparr>) (tcp_seq tcp) (tcp_ack tcp) (tcp_window tcp)"
    have "tx_view u = tx_view (self\<lparr>t_snd_una := tcp_ack tcp\<rparr>)" by (simp add: u_def)
    moreover have "self' = u\<lparr>t_state := Established, t_rtx_deadline := None, t_retransmit := False\<rparr>"
      using e True by (simp add: ack_syn_received_def Let_def u_def)
    ultimately have "tx_view self' = tx_view (self\<lparr>t_snd_una := tcp_ack tcp, t_state := Established\<rparr>)"
      by (simp add: tx_view_def)
    then have f: "t_state self' = Established" "t_iss self' = t_iss self" "t_snd_una self' = tcp_ack tcp"
      "t_snd_nxt self' = t_snd_nxt self" "t_tx self' = t_tx self" "t_fin_seq self' = None"
      using w by (simp_all add: tx_view_def)
    have "queue_at [] self' 0" by (rule queue_at_start) (use f n q st in simp_all)
    then show ?thesis using f w by (auto simp: sends_def)
  next
    case False
    then show ?thesis using e w q by (auto simp: ack_syn_received_def sends_def)
  qed
  then show "sends W self'" "t_iss self' = t_iss self" "t_fin_seq self' = t_fin_seq self" "t_state self' \<notin> {SynSent, SynReceived}"
    by simp_all
qed

definition keeps_stream :: "bytes \<Rightarrow> tcb \<Rightarrow> tcb \<Rightarrow> bool" where
  "keeps_stream W self self' \<longleftrightarrow> sends W self' \<and> t_iss self' = t_iss self \<and> t_fin_seq self' = t_fin_seq self"

lemma keeps_stream_view:
  assumes "sends W self" and "tx_view self' = tx_view self"
  shows "keeps_stream W self self'"
  using assms sends_view[OF assms(2)] by (simp add: keeps_stream_def tx_view_def)

lemma keeps_stream_trans:
  "keeps_stream W a b \<Longrightarrow> keeps_stream W b c \<Longrightarrow> keeps_stream W a c"
  by (simp add: keeps_stream_def)

lemma sends_queue:
  assumes "sends W self" and "t_state self \<notin> {SynSent, SynReceived}"
  obtains (empty) "t_state self = Closed" "W = []" "rb_buf (t_tx self) = []" "t_fin_seq self = None"
    | (queue) d where "queue_at W self d"
  using assms unfolding sends_def by (auto simp del: insert_iff)

lemma sends_queueI: "t_state self \<notin> {SynSent, SynReceived} \<Longrightarrow> queue_at W self d \<Longrightarrow> sends W self"
  unfolding sends_def by auto

lemma ack_advance_sends:
  assumes inv: "send_inv self" and st: "t_state self \<notin> {SynSent, SynReceived}" and s: "sends W self"
    and a: "seq_gt a (t_snd_una self)" "\<not> seq_gt a (t_snd_nxt self)"
    and run: "ack_advance self a e ace now = Some self'"
  shows "keeps_stream W self self'" "t_state self' = t_state self"
proof -
  note adv = ack_advance_tx[OF run]
  show "t_state self' = t_state self" by (rule adv(1))
  from s st have "sends W self'"
  proof (cases rule: sends_queue)
    case empty
    then show ?thesis using adv by (simp add: sends_def)
  next
    case (queue d)
    then show ?thesis using queue_at_advance[OF inv _ a run] sends_queueI[of self' W] st adv(1) by auto
  qed
  then show "keeps_stream W self self'" using adv(2,6) by (simp add: keeps_stream_def)
qed

lemma ack_step_sends:
  assumes inv: "send_inv self" and st: "t_state self \<noteq> SynSent" and s: "sends W self"
    and run: "ack_step self now tcp e = Some (ok, self')"
  shows "keeps_stream W self self' \<and> t_state self' \<notin> {SynSent, SynReceived}"
proof (cases "t_state self = SynReceived")
  case True
  then have "ack_syn_received self tcp = (ok, self')" using run by (simp only: ack_step_def if_True option.inject simp_thms)
  from ack_syn_received_sends[OF inv True s this] show ?thesis by (simp add: keeps_stream_def)
next
  case False
  then have "ack_synchronized self now tcp e = Some (ok, self')" using run by (simp only: ack_step_def if_False)
  from ack_synchronized_tx[OF this] show ?thesis
  proof (elim disjE exE conjE)
    assume v: "tx_view self' = tx_view self"
    then have "t_state self' = t_state self" by (simp add: tx_view_def)
    then show ?thesis using keeps_stream_view[OF s v] False st by simp
  next
    fix x assume x: "ack_advance self (tcp_ack tcp) e (ace_field tcp) now = Some x" "tx_view self' = tx_view x"
      "seq_gt (tcp_ack tcp) (t_snd_una self)" "\<not> seq_gt (tcp_ack tcp) (t_snd_nxt self)"
    have st': "t_state self \<notin> {SynSent, SynReceived}" using False st by simp
    note a = ack_advance_sends[OF inv st' s x(3,4,1)]
    have "keeps_stream W x self'" using a(1) x(2) by (intro keeps_stream_view) (simp_all add: keeps_stream_def)
    moreover have "t_state self' = t_state self" using a(2) x(2) by (simp add: tx_view_def)
    ultimately show ?thesis using keeps_stream_trans[OF a(1)] st' by simp
  qed
qed

section \<open>Segments keep the queue in its place\<close>

lemma syn_sent_syn_sends:
  assumes inv: "send_inv self" and st: "t_state self = SynSent" and s: "sends W self"
    and acc: "acc \<Longrightarrow> seq_gt (tcp_ack tcp) (t_iss self) \<and> seq_le (tcp_ack tcp) (t_snd_nxt self)"
  shows "keeps_stream W self (syn_sent_syn ov self tcp acc)"
proof -
  have w: "W = []" "t_fin_seq self = None" and q: "rb_buf (t_tx self) = []"
    using s inv st by (simp_all add: sends_def send_inv_def)
  have f: "t_fin_seq (negotiate ov x tcp) = t_fin_seq x" for x by (simp add: negotiate_def Let_def split: option.split)
  define x where "x = syn_sent_syn ov self tcp acc"
  have x: "t_state x = (if acc then Established else SynReceived)" "t_iss x = t_iss self" "t_fin_seq x = None"
    "t_tx x = t_tx self" "t_snd_nxt x = t_snd_nxt self" "acc \<Longrightarrow> t_snd_una x = tcp_ack tcp"
    by (simp_all add: x_def syn_sent_syn_def Let_def negotiate_fields f w)
  have "queue_at [] x 0" if acc
    using syn_acked[OF inv, of "tcp_ack tcp"] st acc[OF that] x that q by (intro queue_at_start) simp_all
  then have "sends W x" using x(1,3) w unfolding sends_def by (cases acc) auto
  then show ?thesis using x w unfolding keeps_stream_def x_def[symmetric] by simp
qed

lemma on_segment_syn_sent_sends:
  assumes inv: "send_inv self" and st: "t_state self = SynSent" and s: "sends W self"
  shows "keeps_stream W self (on_segment_syn_sent ov self tcp)"
proof -
  define acc where "acc \<longleftrightarrow> flag_has (tcp_flags_of tcp) ACK \<and> seq_gt (tcp_ack tcp) (t_iss self) \<and> seq_le (tcp_ack tcp) (t_snd_nxt self)"
  have syn: "keeps_stream W self (syn_sent_syn ov self tcp acc)"
    by (rule syn_sent_syn_sends[OF inv st s]) (simp add: acc_def)
  have w: "W = []" "t_fin_seq self = None" "rb_buf (t_tx self) = []" using s inv st by (simp_all add: sends_def send_inv_def)
  then have c: "keeps_stream W self (self\<lparr>t_state := Closed, t_reset := True\<rparr>)" by (simp add: keeps_stream_def sends_def)
  have k: "keeps_stream W self (self\<lparr>t_pending_reset := x\<rparr>)" "keeps_stream W self self" for x
    by (rule keeps_stream_view[OF s]; simp add: tx_view_def)+
  show ?thesis unfolding on_segment_syn_sent_def Let_def acc_def[symmetric] using syn c k by (simp split: if_split)
qed

lemma on_rst_sends:
  assumes inv: "send_inv self" and st: "t_state self \<noteq> SynSent" and s: "sends W self"
  shows "keeps_stream W self (on_rst self now x)"
proof -
  have "sends W (self\<lparr>t_state := Closed\<rparr>)"
  proof (cases "t_state self = SynReceived")
    case True
    then show ?thesis using s inv by (simp add: sends_def send_inv_def)
  next
    case False
    show ?thesis by (rule sends_state[OF s]) (use False st in simp_all)
  qed
  then have "keeps_stream W self (self\<lparr>t_state := Closed, t_reset := True\<rparr>)"
    using sends_view[of "self\<lparr>t_state := Closed, t_reset := True\<rparr>" "self\<lparr>t_state := Closed\<rparr>"]
    by (simp add: keeps_stream_def tx_view_def)
  then show ?thesis unfolding on_rst_def using keeps_stream_view[OF s tx_view_steps(7)] keeps_stream_view[OF s refl]
    by (simp split: if_split)
qed

lemma on_syn_sends:
  assumes "sends W self"
  shows "keeps_stream W self (on_syn self now x)"
proof -
  have "keeps_stream W self (self\<lparr>t_snd_nxt := t_iss self\<rparr>)" if "t_state self = SynReceived"
    using assms that by (simp add: keeps_stream_def sends_def)
  then show ?thesis unfolding on_syn_def using keeps_stream_view[OF assms tx_view_steps(7)] keeps_stream_view[OF assms refl]
    by (simp split: if_split)
qed

lemma data_and_fin_sends:
  assumes "sends W self" and "t_state self \<notin> {SynSent, SynReceived}" and "data_and_fin self now tcp ce = Some self'"
  shows "keeps_stream W self self'"
proof -
  obtain b where b: "tx_view self' = tx_view (self\<lparr>t_state := closing_state (t_state self) (t_fin_acked self) b\<rparr>)"
    using data_and_fin_tx[OF assms(3)] by blast
  have "sends W (self\<lparr>t_state := closing_state (t_state self) (t_fin_acked self) b\<rparr>)"
    by (rule sends_state[OF assms(1,2)]) (use closing_state_syn assms(2) closing_open closing_closed in auto)
  then show ?thesis using sends_view[OF b] b by (simp add: keeps_stream_def tx_view_def)
qed

lemma on_acceptable_sends:
  assumes inv: "send_inv self" and st: "t_state self \<noteq> SynSent" and s: "sends W self"
    and run: "on_acceptable self now tcp ts ce = Some self'"
  shows "keeps_stream W self self'"
proof (cases "flag_has (tcp_flags_of tcp) ACK")
  case False
  then show ?thesis using run keeps_stream_view[OF s refl] by (simp add: on_acceptable_def)
next
  case True
  then obtain ok s1 where a: "ack_step self now tcp (map_option snd ts) = Some (ok, s1)"
    "(if ok then data_and_fin s1 now tcp ce else Some s1) = Some self'"
    using run by (auto simp: on_acceptable_def bind_Some_iff)
  note s1 = ack_step_sends[OF inv st s a(1)]
  show ?thesis
  proof (cases ok)
    case True
    then have "data_and_fin s1 now tcp ce = Some self'" using a(2) by simp
    from data_and_fin_sends[OF _ _ this] s1 show ?thesis using keeps_stream_trans by (auto simp: keeps_stream_def)
  next
    case False
    then show ?thesis using a(2) s1 by simp
  qed
qed

lemma on_segment_sends:
  assumes inv: "send_inv self" and s: "sends W self" and run: "on_segment ov self now tcp ce = Some self'"
  shows "keeps_stream W self self'"
proof (cases "t_state self = SynSent")
  case True
  then have "self' = on_segment_syn_sent ov self tcp" using run by (simp add: on_segment_def)
  then show ?thesis using on_segment_syn_sent_sends[OF inv True s] by simp
next
  case False
  define ts where "ts = (if t_ts_enabled self then timestamps tcp else None)"
  have "tx_view (self\<lparr>t_needs_ack := b\<rparr>) = tx_view self" for b by (simp add: tx_view_def)
  then have na: "keeps_stream W self (self\<lparr>t_needs_ack := b\<rparr>)" "keeps_stream W self (arm_time_wait (self\<lparr>t_needs_ack := b\<rparr>) now)" for b
    using keeps_stream_view[OF s] by simp_all
  let ?s = "advance_ts_recent self (tcp_seq tcp) ts"
  have v: "send_inv ?s" "t_state ?s \<noteq> SynSent" "sends W ?s"
    using send_inv_view[OF send_view_steps(12)] inv False sends_view[OF tx_view_steps(10)] s
    by (auto simp: advance_ts_recent_def split: option.split)
  have acc: "keeps_stream W self x" if "on_acceptable ?s now tcp ts ce = Some x" for x
    using keeps_stream_trans[OF keeps_stream_view[OF s tx_view_steps(10)] on_acceptable_sends[OF v that]] .
  show ?thesis
    using run False on_rst_sends[OF inv False s] on_syn_sends[OF s] na acc
    unfolding on_segment_def Let_def ts_def[symmetric] by (auto split: if_splits)
qed

end
