(* ===== verification/Send_Segments.thy ===== *)
theory Send_Segments
  imports Send_Path
begin

text \<open>
  What \<open>poll_transmit\<close> puts into its segments: flags, sequence number and payload of each kind of
  segment, and how sending moves \<open>SND.NXT\<close> and the FIN.
\<close>

section \<open>The size of a built datagram\<close>

lemma emit_option_lengths:
  "emit_mss m (buf, i) = Some (buf', j) \<Longrightarrow> length buf' = length buf"
  "emit_sack_permitted p (buf, i) = Some (buf', j) \<Longrightarrow> length buf' = length buf"
  "emit_window_scale w (buf, i) = Some (buf', j) \<Longrightarrow> length buf' = length buf"
  "emit_timestamps ts (buf, i) = Some (buf', j) \<Longrightarrow> length buf' = length buf"
  "emit_blocks bs (buf, i) = Some (buf', j) \<Longrightarrow> length buf' = length buf"
  by (auto simp: emit_mss_def emit_sack_permitted_def emit_window_scale_def emit_timestamps_def bind_Some_iff
      dest!: copy_into_length split: option.splits prod.splits bool.splits)
    (induction bs arbitrary: buf i, auto simp: bind_Some_iff dest!: copy_into_length)

lemma emit_sack_length: "emit_sack bs (buf, i) = Some (buf', j) \<Longrightarrow> length buf' = length buf"
  by (auto simp: emit_sack_def bind_Some_iff dest!: copy_into_length emit_option_lengths(5) split: if_splits)

lemma emit_options_length:
  assumes "emit_options r (buf, i) = Some (buf', j)"
  shows "length buf' = length buf"
proof -
  obtain b1 i1 b2 i2 b3 i3 b4 i4 where "emit_mss (tr_mss r) (buf, i) = Some (b1, i1)"
    "emit_sack_permitted (tr_sack_permitted r) (b1, i1) = Some (b2, i2)"
    "emit_window_scale (tr_window_scale r) (b2, i2) = Some (b3, i3)"
    "emit_timestamps (tr_timestamps r) (b3, i3) = Some (b4, i4)"
    "emit_sack (take (sack_blocks_to_emit r) (tr_sack r)) (b4, i4) = Some (buf', j)"
    using assms unfolding emit_options_def bind_Some_iff by auto
  then show ?thesis using emit_option_lengths(1-4) emit_sack_length by metis
qed

lemma tcp_emit_length:
  assumes "tcp_emit r src dst payload buf = Some (n, out)"
  shows "length out = length buf" "tr_header_len r + length payload \<le> length buf"
proof -
  have "length out = length buf \<and> tr_header_len r + length payload \<le> length buf"
    using assms unfolding tcp_emit_def Let_def bind_Some_iff
    by (elim exE conjE, simp only: bind_Some_iff split_paired_Ex prod.case)
      (auto simp: sub_slice_def dest!: copy_into_length emit_options_length split: if_splits)
  then show "length out = length buf" "tr_header_len r + length payload \<le> length buf" by simp_all
qed

lemma ipv4_emit_length:
  assumes "ipv4_emit r buf = Some (n, out)"
  shows "length out = length buf"
  using assms unfolding ipv4_emit_def Let_def bind_Some_iff by (elim exE conjE) (auto dest!: copy_into_length)

lemma build_segment_length:
  assumes "build_segment local remote r payload = Some frame"
  shows "length frame = 20 + (tr_header_len r + length payload)" "tr_header_len r + length payload \<le> 65535"
proof -
  define n where "n = tr_header_len r + length payload"
  define ip where "ip = \<lparr>ipr_src = ep_ip local, ipr_dst = ep_ip remote, ipr_protocol = IPPROTO_TCP,
      ipr_payload_len = word_of_nat n, ipr_ttl = 64, ipr_ecn = 0\<rparr>"
  obtain a buf b seg where e: "ipv4_emit ip (replicate (ipr_total_len ip) 0) = Some (a, buf)"
    "tcp_emit r (ep_ip local) (ep_ip remote) payload (drop IP_HEADER_LEN buf) = Some (b, seg)"
    "frame = take IP_HEADER_LEN buf @ seg"
    using assms unfolding build_segment_def Let_def n_def[symmetric] ip_def[symmetric]
    by (auto simp: bind_Some_iff split: prod.splits)
  have l: "length buf = 20 + unat (word_of_nat n :: u16)"
    using ipv4_emit_length[OF e(1)] by (simp add: ipr_total_len_def IP_HEADER_LEN_def IPV4_MIN_HEADER_LEN_def ip_def)
  note t = tcp_emit_length[OF e(2), folded n_def]
  have "n \<le> unat (word_of_nat n :: u16)" using t(2) l by (simp add: IP_HEADER_LEN_def IPV4_MIN_HEADER_LEN_def)
  moreover have "unat (word_of_nat n :: u16) < 65536" by (simp add: unat_word_of_nat_u16)
  ultimately have n: "n \<le> 65535" by linarith
  then have "unat (word_of_nat n :: u16) = n" unfolding unat_word_of_nat_u16 by simp
  then have "length frame = 20 + n" using e(3) t(1) l by (simp add: IP_HEADER_LEN_def IPV4_MIN_HEADER_LEN_def)
  then show "length frame = 20 + (tr_header_len r + length payload)" "tr_header_len r + length payload \<le> 65535"
    using n by (simp_all add: n_def)
qed

section \<open>What \<open>build\<close> puts into the segment\<close>

lemma carries_short:
  assumes "carries local remote frame seg"
  shows "length frame \<le> 65535"
proof -
  have a: "ip_new_checked frame = Inr frame" "ip_payload frame = seg" "length frame = 20 + length seg" "ip_header_len frame = 20"
    using assms by (simp_all add: carries_def)
  have "length (ip_payload frame) \<le> unat (ip_total_len frame) - 20" using a(4) by (simp add: ip_payload_def)
  moreover have "unat (ip_total_len frame) \<le> 65535" using unat_u16_bound[of "ip_total_len frame"] by linarith
  ultimately have "length seg \<le> 65515" unfolding a(2) by linarith
  then show ?thesis using a(3) by simp
qed

text \<open>A datagram that is accepted and was built has the header and payload it was built from.\<close>

lemma built_fields:
  assumes "build_segment local remote r payload = Some frame" and "tr_header_len r \<le> 60" and "length frame \<le> 65535"
    and "tr_src_port r = ep_port local" and "tr_dst_port r = ep_port remote"
  shows "tcp_seq (ip_payload frame) = tr_seq r" "tcp_flags_of (ip_payload frame) = tr_flags r"
    "tcp_payload (ip_payload frame) = payload" "mss_option (ip_payload frame) = tr_mss r"
    "carries local remote frame (ip_payload frame)"
proof -
  have "tr_header_len r + length payload \<le> 65515" using build_segment_length[OF assms(1)] assms(3) by simp
  from build_segment_carries[OF assms(2) this assms(4,5)] assms(1)
  obtain seg where s: "carries local remote frame seg" "tcp_seq seg = tr_seq r" "tcp_flags_of seg = tr_flags r"
    "tcp_payload seg = payload" "mss_option seg = tr_mss r" by auto
  then have "ip_payload frame = seg" by (simp add: carries_def)
  then show "tcp_seq (ip_payload frame) = tr_seq r" "tcp_flags_of (ip_payload frame) = tr_flags r"
    "tcp_payload (ip_payload frame) = payload" "mss_option (ip_payload frame) = tr_mss r"
    "carries local remote frame (ip_payload frame)" using s by simp_all
qed

text \<open>The kinds of segments, relative to the connection after the segment.\<close>

definition segment_shape :: "tcb \<Rightarrow> bytes \<Rightarrow> bool" where
  "segment_shape self' seg \<longleftrightarrow> mss_option seg \<noteq> Some 0
     \<and> (flag_has (tcp_flags_of seg) SYN \<or> flag_has (tcp_flags_of seg) FIN \<or> flag_has (tcp_flags_of seg) RST \<longrightarrow> tcp_payload seg = [])
     \<and> (flag_has (tcp_flags_of seg) FIN \<longrightarrow> \<not> flag_has (tcp_flags_of seg) SYN \<and> t_fin_seq self' = Some (tcp_seq seg))
     \<and> (tcp_payload seg = [] \<and> \<not> flag_has (tcp_flags_of seg) SYN \<and> \<not> flag_has (tcp_flags_of seg) FIN
        \<and> \<not> flag_has (tcp_flags_of seg) RST \<longrightarrow> tcp_seq seg = t_snd_nxt self')"

lemma build_shape:
  assumes "build self seq extra payload = Some (frame, s)" and "length frame \<le> 65535" and "\<not> flag_has extra RST"
  defines "seg \<equiv> ip_payload frame"
  shows "tcp_seq seg = seq" "tcp_payload seg = payload" "flag_has (tcp_flags_of seg) FIN = flag_has extra FIN"
    "flag_has (tcp_flags_of seg) SYN = flag_has extra SYN" "\<not> flag_has (tcp_flags_of seg) RST"
    "mss_option seg = (if flag_has extra SYN then Some (t_mss_advertise self) else None)" "tx_view s = tx_view self"
proof -
  define s0 where "s0 = self\<lparr>t_delayed_ack_deadline := None, t_unacked_segs := 0\<rparr>"
  obtain flags ae where fl: "ace_flags s0 (extra OR ACK) = (flags, ae)" by (cases "ace_flags s0 (extra OR ACK)")
  obtain w s1 where aw: "advertised_window s0 = (w, s1)" by (cases "advertised_window s0")
  let ?r = "segment_repr s1 seq flags ae w"
  obtain f0 where b: "build_segment (t_local s1) (t_remote s1) ?r payload = Some f0" "s = s1"
    "frame = (if ecn_enabled s1 \<and> payload \<noteq> [] then set_ecn f0 ECN_ECT1 else f0)"
    using assms(1) fl aw by (auto simp: build_def s0_def[symmetric] bind_Some_iff)
  have e: "s1 = s0\<lparr>t_rcv_adv := t_rcv_adv s1\<rparr>" using aw by (auto simp: advertised_window_def Let_def)
  have k: "t_mss_advertise s1 = t_mss_advertise self" "tx_view s1 = tx_view self"
    by (subst e, simp add: s0_def tx_view_def)+
  note f = ace_flags_syn[OF fl]
  have hdr: "tr_header_len ?r \<le> 60"
    using repr_header_len[of flags s1 seq ae w] seg_opts_le[of s1] by (cases "flag_has flags SYN") auto
  have r: "tr_seq ?r = seq" "tr_flags ?r = flags" "tr_mss ?r = (if flag_has flags SYN then Some (t_mss_advertise s1) else None)"
    "tr_src_port ?r = ep_port (t_local s1)" "tr_dst_port ?r = ep_port (t_remote s1)"
    by (simp_all add: segment_repr_def Let_def)
  have l: "length f0 \<le> 65535" using b(3) assms(2) set_ecn_length by (metis)
  note bf = built_fields[OF b(1) hdr l r(4,5)]
  have "seg = ip_payload f0"
    using b(3) set_ecn_carries[OF bf(5)] by (auto simp: seg_def carries_def)
  then show "tcp_seq seg = seq" "tcp_payload seg = payload" "flag_has (tcp_flags_of seg) FIN = flag_has extra FIN"
    "flag_has (tcp_flags_of seg) SYN = flag_has extra SYN" "\<not> flag_has (tcp_flags_of seg) RST"
    "mss_option seg = (if flag_has extra SYN then Some (t_mss_advertise self) else None)" "tx_view s = tx_view self"
    using bf r f k b(2) assms(3) by simp_all
qed

section \<open>How sending moves the queue\<close>

definition tx_moves :: "tcb \<Rightarrow> tcb \<Rightarrow> bool" where
  "tx_moves self self' \<longleftrightarrow> t_iss self' = t_iss self \<and> t_snd_una self' = t_snd_una self \<and> t_tx self' = t_tx self
     \<and> t_fin_acked self' = t_fin_acked self
     \<and> (tx_view self' = tx_view self
        \<or> t_state self \<in> {SynSent, SynReceived} \<and> t_state self' = t_state self \<and> t_fin_seq self' = t_fin_seq self
        \<or> t_state self \<notin> {SynSent, SynReceived} \<and> t_state self' = t_state self \<and> t_fin_seq self' = t_fin_seq self
          \<and> (\<exists>k > 0. t_snd_nxt self' = seq_add (t_snd_nxt self) k
               \<and> offset_from (t_snd_nxt self) (t_snd_una self) + k \<le> rb_len (t_tx self))
        \<or> t_state self \<notin> {SynSent, SynReceived} \<and> t_state self' \<notin> {SynSent, SynReceived, Established, CloseWait}
          \<and> (t_state self = Closed \<longrightarrow> t_state self' = Closed)
          \<and> \<not> t_fin_acked self \<and> t_snd_nxt self = seq_add (t_snd_una self) (rb_len (t_tx self))
          \<and> t_fin_seq self' = Some (t_snd_nxt self) \<and> t_snd_nxt self' = seq_add (t_snd_nxt self) 1)"

definition sent_step :: "tcb \<Rightarrow> emission \<Rightarrow> bool" where
  "sent_step self em \<longleftrightarrow> (\<forall>out self'. em = Some (out, self') \<longrightarrow>
     (case out of None \<Rightarrow> tx_view self' = tx_view self
      | Some f \<Rightarrow> tx_moves self self' \<and> (length f \<le> 65535 \<longrightarrow> segment_shape self' (ip_payload f))))"

lemma tx_moves_view: "tx_view a = tx_view b \<Longrightarrow> tx_moves a x = tx_moves b x"
  by (simp add: tx_moves_def tx_view_def)

lemma tx_moves_refl: "tx_view x = tx_view self \<Longrightarrow> tx_moves self x"
  by (simp add: tx_moves_def tx_view_def)

lemma sent_step_view:
  assumes "tx_view a = tx_view b"
  shows "sent_step a em = sent_step b em"
proof -
  have "tx_moves a = tx_moves b" using tx_moves_view[OF assms] by (rule ext)
  then show ?thesis unfolding sent_step_def assms by (rule arg_cong)
qed

lemma sent_quiet: "tx_view x = tx_view self \<Longrightarrow> sent_step self (Some (None, x))"
  by (simp add: sent_step_def)

lemma sent_if: "(b \<Longrightarrow> sent_step s x) \<Longrightarrow> (\<not> b \<Longrightarrow> sent_step s y) \<Longrightarrow> sent_step s (if b then x else y)"
  by simp

lemma sent_or_else:
  assumes "sent_step self first" and "\<And>x. tx_view x = tx_view self \<Longrightarrow> sent_step x (rest x)"
  shows "sent_step self (or_else first rest)"
  unfolding sent_step_def
proof (intro allI impI)
  fix out self' assume "or_else first rest = Some (out, self')"
  then obtain o1 s1 where f: "first = Some (o1, s1)" "(if o1 \<noteq> None then Some (o1, s1) else rest s1) = Some (out, self')"
    by (auto simp: or_else_def bind_Some_iff)
  show "case out of None \<Rightarrow> tx_view self' = tx_view self
      | Some f \<Rightarrow> tx_moves self self' \<and> (length f \<le> 65535 \<longrightarrow> segment_shape self' (ip_payload f))"
  proof (cases o1)
    case None
    then have v: "tx_view s1 = tx_view self" using assms(1) f(1) by (simp add: sent_step_def)
    have "rest s1 = Some (out, self')" using f(2) None by simp
    moreover have "sent_step self (rest s1)" using assms(2)[OF v] sent_step_view[OF v] by simp
    ultimately show ?thesis unfolding sent_step_def by blast
  next
    case (Some a)
    then have "first = Some (out, self')" "out = Some a" using f by auto
    then show ?thesis using assms(1) by (simp add: sent_step_def)
  qed
qed

lemma sent_emit:
  assumes "\<not> flag_has extra RST" "\<not> (flag_has extra FIN \<and> flag_has extra SYN)" and "flag_has extra SYN \<or> flag_has extra FIN \<Longrightarrow> payload = []"
    and "flag_has extra SYN \<Longrightarrow> t_mss_advertise self \<noteq> 0"
    and "\<And>x. tx_view x = tx_view self \<Longrightarrow> tx_moves self (after x) \<and> (flag_has extra FIN \<longrightarrow> t_fin_seq (after x) = Some seq)
        \<and> (payload = [] \<and> \<not> flag_has extra SYN \<and> \<not> flag_has extra FIN \<longrightarrow> t_snd_nxt (after x) = seq)"
  shows "sent_step self (emit (build self seq extra payload) after)"
  unfolding sent_step_def
proof (intro allI impI)
  fix out self' assume "emit (build self seq extra payload) after = Some (out, self')"
  then obtain f x where b: "build self seq extra payload = Some (f, x)" "out = Some f" "self' = after x"
    by (auto simp: emit_def)
  have v: "tx_view x = tx_view self"
  proof -
    obtain w y where "advertised_window (self\<lparr>t_delayed_ack_deadline := None, t_unacked_segs := 0\<rparr>) = (w, y)" by fastforce
    then have "x = y" "tx_view y = tx_view self"
      using b(1) by (auto simp: build_def bind_Some_iff advertised_window_def Let_def tx_view_def split: prod.splits)
    then show ?thesis by simp
  qed
  show "case out of None \<Rightarrow> tx_view self' = tx_view self
      | Some f \<Rightarrow> tx_moves self self' \<and> (length f \<le> 65535 \<longrightarrow> segment_shape self' (ip_payload f))"
    using assms(2-4) assms(5)[OF v] build_shape[OF b(1) _ assms(1)] b(2,3) by (auto simp: segment_shape_def)
qed

lemma length_peek: "length (peek_bytes self off n) = n"
  by (simp add: peek_bytes_def rb_peek_eq Let_def)

section \<open>The steps of the transmitter\<close>

lemma psh_fin [simp]: "\<not> flag_has 0 FIN" "\<not> flag_has PSH FIN" "flag_has FIN FIN" "\<not> flag_has SYN FIN"
  "\<not> flag_has (if b then PSH else 0) FIN"
  by (simp_all add: flag_has_def FIN_def PSH_def SYN_def)

lemma field_views:
  "tx_view (self\<lparr>t_retransmit := b\<rparr>) = tx_view self" "tx_view (self\<lparr>t_needs_ack := b\<rparr>) = tx_view self"
  "tx_view (self\<lparr>t_pace_deadline := d\<rparr>) = tx_view self" "tx_view (self\<lparr>t_send_probe := b\<rparr>) = tx_view self"
  "tx_view (self\<lparr>t_cur_tsval := v\<rparr>) = tx_view self" "tx_view (self\<lparr>t_pending_reset := r\<rparr>) = tx_view self"
  "tx_view (snd (pace_allowance self now rate mp)) = tx_view self"
  by (simp_all add: tx_view_def pace_allowance_def Let_def)

lemma transmit_oldest_sent: "sent_step self (transmit_oldest self now inflight)"
proof (cases "t_retransmit self \<and> 0 < inflight")
  case True
  define s where "s = self\<lparr>t_retransmit := False\<rparr>"
  define k where "k = min (min inflight (rb_len (t_tx s))) (max_segment_payload s)"
  have v: "tx_view s = tx_view self" by (simp add: s_def field_views)
  have d: "sent_step s (emit (build s (t_snd_una s) (if k = rb_len (t_tx s) then PSH else 0) (peek_bytes s 0 k))
        (\<lambda>self. start_rtx self now))" if "0 < k"
    by (rule sent_emit) (use that length_peek[of s 0 k] tx_moves_refl in auto)
  have f: "sent_step s (emit (build s f FIN []) (\<lambda>self. start_rtx self now))" if "t_fin_seq s = Some f" for f
  proof (rule sent_emit)
    fix x assume x: "tx_view x = tx_view s"
    then have "t_fin_seq (start_rtx x now) = Some f" using that by (simp add: tx_view_def start_rtx_def)
    then show "tx_moves s (start_rtx x now) \<and> (flag_has FIN FIN \<longrightarrow> t_fin_seq (start_rtx x now) = Some f)
        \<and> ([] = [] \<and> \<not> flag_has FIN SYN \<and> \<not> flag_has FIN FIN \<longrightarrow> t_snd_nxt (start_rtx x now) = f)"
      using tx_moves_refl[of "start_rtx x now" s] x by simp
  qed simp_all
  have "sent_step s (transmit_oldest self now inflight)"
    unfolding transmit_oldest_run[OF True[THEN conjunct1] True[THEN conjunct2] s_def k_def]
    using d f sent_quiet[of s s] by (auto split: option.split)
  then show ?thesis using sent_step_view[OF v] by simp
next
  case False
  then have "transmit_oldest self now inflight = Some (None, self)" by (simp only: transmit_oldest_def if_False)
  then show ?thesis by (simp add: sent_quiet)
qed

lemma transmit_hole_sent: "sent_step self (transmit_hole self now max_payload)"
proof (cases "t_sack_enabled self \<and> in_recovery (t_scoreboard self)
    \<and> sb_pipe (t_scoreboard self) (t_snd_una self) (t_snd_nxt self) (unat (t_snd_mss self)) < cc_cwnd (t_cc self)")
  case False
  then have "transmit_hole self now max_payload = Some (None, self)"
    unfolding transmit_hole_def Let_def
    by (cases "t_sack_enabled self \<and> in_recovery (t_scoreboard self)") (simp_all only: if_True if_False simp_thms)
  then show ?thesis by (simp add: sent_quiet)
next
  case go: True
  show ?thesis
  proof (cases "next_seg (t_scoreboard self) (t_snd_una self) (t_snd_nxt self) (unat (t_snd_mss self))")
    case None
    then have "transmit_hole self now max_payload = Some (None, self)" unfolding transmit_hole_def Let_def using go by simp
    then show ?thesis by (simp add: sent_quiet)
  next
    case (Some p)
    obtain seq resc where p: "p = (seq, resc)" by (cases p)
    define off where "off = offset_from seq (t_snd_una self)"
    define k where "k = min (min (unsacked_run_len (t_scoreboard self) seq (t_snd_nxt self)) max_payload) (rb_len (t_tx self) - off)"
    define after where "after = (\<lambda>s. let sb = mark_rexmit (t_scoreboard s) seq (seq_add seq k);
            sb = (if resc then set_rescue_done sb else sb)
        in start_rtx (s\<lparr>t_scoreboard := sb, t_retransmitted := True, t_rtt_sample := None\<rparr>) now)"
    have run: "transmit_hole self now max_payload = (if 0 < k then
          emit (build self seq (if off + k = rb_len (t_tx self) then PSH else 0) (peek_bytes self off k)) after
        else Some (None, self))"
      unfolding transmit_hole_def Let_def after_def off_def k_def using go Some p by simp
    have "tx_view (after x) = tx_view x" for x by (simp add: after_def Let_def) (simp add: tx_view_def)
    then have "sent_step self (emit (build self seq (if off + k = rb_len (t_tx self) then PSH else 0) (peek_bytes self off k)) after)"
      if "0 < k"
      by (intro sent_emit) (use that length_peek[of self off k] tx_moves_refl in auto)
    then show ?thesis unfolding run by (intro sent_if sent_quiet refl)
  qed
qed

lemma transmit_new_sent:
  assumes "t_state self \<notin> {SynSent, SynReceived}"
  shows "sent_step self (transmit_new self now (offset_from (t_snd_nxt self) (t_snd_una self)) max_payload)"
proof -
  define inflight where "inflight = offset_from (t_snd_nxt self) (t_snd_una self)"
  define sent where "sent = min inflight (rb_len (t_tx self))"
  define unsent where "unsent = rb_len (t_tx self) - sent"
  define room where "room = min (cc_cwnd (t_cc self) - tx_pipe self inflight) (t_snd_wnd self - inflight)"
  obtain a s where g: "pace_gate self now room unsent max_payload = (a, s)" by fastforce
  have v: "tx_view s = tx_view self"
    using g by (cases "cc_pacing_rate (t_cc self)")
      (auto simp: pace_gate_def Let_def field_views split: prod.splits dest!: arg_cong[of "pace_allowance _ _ _ _" _ "tx_view \<circ> snd"])
  define k where "k = min (min a unsent) max_payload"
  define al where "al \<longleftrightarrow> k = unsent \<and> k < room"
  define p where "p = arm_persist s now"
  have f: "t_snd_una s = t_snd_una self" "t_snd_nxt s = t_snd_nxt self" "t_tx s = t_tx self" using v by (simp_all add: tx_view_def)
  have run: "transmit_new self now inflight max_payload =
      (if 0 < a
       then if 0 < k
            then emit (build s (t_snd_nxt s) (if sent + k = rb_len (t_tx s) then PSH else 0) (peek_bytes s sent k))
                   (\<lambda>x. sent_new_data x now k inflight al)
            else Some (None, s)
       else if 0 < unsent \<and> inflight = 0 \<and> t_snd_wnd self - inflight = 0
       then if t_send_probe p
            then emit (build (p\<lparr>t_send_probe := False\<rparr>) (t_snd_una (p\<lparr>t_send_probe := False\<rparr>)) 0
                   (peek_bytes (p\<lparr>t_send_probe := False\<rparr>) 0 1)) id
            else Some (None, p)
       else Some (None, s))"
    unfolding transmit_new_def Let_def sent_def[symmetric] unsent_def[symmetric] room_def[symmetric] g split_conv
      k_def[symmetric] al_def p_def f by (rule refl)
  have new: "sent_step s (emit (build s (t_snd_nxt s) (if sent + k = rb_len (t_tx s) then PSH else 0) (peek_bytes s sent k))
      (\<lambda>x. sent_new_data x now k inflight al))" if k0: "0 < k"
  proof (rule sent_emit)
    have "k \<le> unsent" "0 < unsent" using k0 by (simp_all add: k_def)
    then have fit: "offset_from (t_snd_nxt s) (t_snd_una s) + k \<le> rb_len (t_tx s)"
      by (auto simp: sent_def unsent_def f inflight_def)
    have st: "t_state s \<notin> {SynSent, SynReceived}" using assms v by (simp add: tx_view_def)
    fix x assume x: "tx_view x = tx_view s"
    have "tx_view (sent_new_data x now k inflight al) = tx_view (x\<lparr>t_snd_nxt := seq_add (t_snd_nxt x) k\<rparr>)"
      by (simp add: sent_new_data_def Let_def) (simp add: tx_view_def)
    then have "tx_moves s (sent_new_data x now k inflight al)"
      using x fit st k0 unfolding tx_moves_def by (simp add: tx_view_def) blast
    then show "tx_moves s (sent_new_data x now k inflight al)
        \<and> (flag_has (if sent + k = rb_len (t_tx s) then PSH else 0) FIN \<longrightarrow> t_fin_seq (sent_new_data x now k inflight al) = Some (t_snd_nxt s))
        \<and> (peek_bytes s sent k = [] \<and> \<not> flag_has (if sent + k = rb_len (t_tx s) then PSH else 0) SYN
             \<and> \<not> flag_has (if sent + k = rb_len (t_tx s) then PSH else 0) FIN
           \<longrightarrow> t_snd_nxt (sent_new_data x now k inflight al) = t_snd_nxt s)"
      using length_peek[of s sent k] k0 by auto
  qed simp_all
  let ?p = "p\<lparr>t_send_probe := False\<rparr>"
  have vp: "tx_view ?p = tx_view s" "tx_view p = tx_view s" by (simp_all add: p_def field_views)
  have "sent_step ?p (emit (build ?p (t_snd_una ?p) 0 (peek_bytes ?p 0 1)) id)"
    by (rule sent_emit) (use length_peek[of ?p 0 1] tx_moves_refl in auto)
  then have probe: "sent_step s (emit (build ?p (t_snd_una ?p) 0 (peek_bytes ?p 0 1)) id)" using sent_step_view[OF vp(1)] by simp
  have "sent_step s (transmit_new self now inflight max_payload)"
    unfolding run by (intro sent_if new probe sent_quiet refl vp(2))
  then show ?thesis using sent_step_view[OF v] unfolding inflight_def by simp
qed

lemma transmit_fin_sent:
  assumes "t_state self \<notin> {SynSent, SynReceived}" and "data_end = seq_add (t_snd_una self) (rb_len (t_tx self))"
  shows "sent_step self (transmit_fin self now data_end)"
proof (cases "t_fin_queued self \<and> \<not> t_fin_acked self \<and> t_snd_nxt self = data_end")
  case True
  define after where "after = (\<lambda>s. let s = start_rtx (s\<lparr>t_fin_seq := Some data_end, t_snd_nxt := seq_add data_end 1\<rparr>) now
      in s\<lparr>t_state := (case t_state s of Established \<Rightarrow> FinWait1 | CloseWait \<Rightarrow> LastAck | other \<Rightarrow> other)\<rparr>)"
  have run: "transmit_fin self now data_end = emit (build self data_end FIN []) after"
    unfolding transmit_fin_def after_def using True by simp
  have "sent_step self (emit (build self data_end FIN []) after)"
  proof (rule sent_emit)
    fix x assume x: "tx_view x = tx_view self"
    define st where "st = (case t_state self of Established \<Rightarrow> FinWait1 | CloseWait \<Rightarrow> LastAck | other \<Rightarrow> other)"
    have "tx_view (after x) = tx_view (x\<lparr>t_fin_seq := Some data_end, t_snd_nxt := seq_add data_end 1, t_state := st\<rparr>)"
      using x by (simp add: after_def Let_def start_rtx_def tx_view_def st_def)
    then have a: "t_iss (after x) = t_iss self" "t_snd_una (after x) = t_snd_una self" "t_tx (after x) = t_tx self"
      "t_fin_acked (after x) = t_fin_acked self" "t_state (after x) = st" "t_fin_seq (after x) = Some data_end"
      "t_snd_nxt (after x) = seq_add data_end 1" using x by (simp_all add: tx_view_def)
    have "st \<notin> {SynSent, SynReceived, Established, CloseWait}" "t_state self = Closed \<longrightarrow> st = Closed"
      using assms(1) by (simp_all add: st_def split: state.split)
    then have "tx_moves self (after x)" unfolding tx_moves_def a using True assms by simp
    then show "tx_moves self (after x) \<and> (flag_has FIN FIN \<longrightarrow> t_fin_seq (after x) = Some data_end)
        \<and> ([] = [] \<and> \<not> flag_has FIN SYN \<and> \<not> flag_has FIN FIN \<longrightarrow> t_snd_nxt (after x) = data_end)"
      using a(6) by simp
  qed simp_all
  then show ?thesis unfolding run .
next
  case False
  then have "transmit_fin self now data_end = Some (None, self)" by (simp only: transmit_fin_def if_False)
  then show ?thesis by (simp add: sent_quiet)
qed

lemma transmit_owed_ack_sent: "sent_step self (transmit_owed_ack self)"
proof -
  let ?s = "self\<lparr>t_needs_ack := False\<rparr>"
  have "sent_step ?s (emit (build ?s (t_snd_nxt ?s) 0 []) id)"
    by (rule sent_emit) (auto simp: tx_moves_refl tx_view_def)
  then have "sent_step self (emit (build ?s (t_snd_nxt ?s) 0 []) id)"
    using sent_step_view[of ?s self] by (simp add: tx_view_def)
  then show ?thesis
    using sent_quiet[of ?s self] by (cases "t_needs_ack self") (simp_all add: transmit_owed_ack_def take_needs_ack_def tx_view_def)
qed

lemma transmit_data_or_fin_sent:
  assumes st: "t_state self \<notin> {SynSent, SynReceived}"
  shows "sent_step self (transmit_data_or_fin self now)"
  unfolding transmit_data_or_fin_def Let_def
proof (intro sent_or_else transmit_oldest_sent transmit_hole_sent)
  fix a b c assume v: "tx_view a = tx_view self" "tx_view b = tx_view a"
  then have f: "t_snd_nxt self = t_snd_nxt b" "t_snd_una self = t_snd_una b" "t_tx self = t_tx b" "t_state b = t_state self"
    by (simp_all add: tx_view_def)
  show "sent_step b (transmit_new b now (offset_from (t_snd_nxt self) (t_snd_una self)) (max_segment_payload self))"
    unfolding f using transmit_new_sent st f(4) by simp
  assume "tx_view c = tx_view b"
  then have g: "t_snd_una b = t_snd_una c" "t_tx b = t_tx c" "t_state c = t_state b" by (simp_all add: tx_view_def)
  show "sent_step c (transmit_fin c now (seq_add (t_snd_una self) (rb_len (t_tx self))))"
    unfolding f g using transmit_fin_sent[OF _ refl] st f(4) g(3) by simp
qed

text \<open>Segments outside \<open>build\<close>: the first SYN and a reset.\<close>

lemma plain_segment_sent:
  assumes "build_segment local remote r [] = Some f" and "tr_header_len r \<le> 60"
    and "tr_src_port r = ep_port local" "tr_dst_port r = ep_port remote"
    and "\<not> flag_has (tr_flags r) FIN" and "flag_has (tr_flags r) SYN \<or> flag_has (tr_flags r) RST" and "tr_mss r \<noteq> Some 0"
  shows "length f \<le> 65535 \<longrightarrow> segment_shape s (ip_payload f)"
  using built_fields[OF assms(1,2) _ assms(3,4)] assms(5-7) by (auto simp: segment_shape_def)

lemma transmit_syn_sent_sent:
  assumes "t_state self = SynSent" and "t_mss_advertise self \<noteq> 0"
  shows "sent_step self (transmit_syn_sent self now)"
proof -
  have flags: "\<not> flag_has SYN FIN" "flag_has SYN SYN" by simp_all
  have b: "length f \<le> 65535 \<longrightarrow> segment_shape s (ip_payload f)" if "build_syn x = Some f" "t_mss_advertise x \<noteq> 0" for x f s
    using that(1) unfolding build_syn_def
    by (rule plain_segment_sent)
      (use that(2) flags in \<open>simp_all add: tr_header_len_def sack_blocks_to_emit_def TCP_MIN_HEADER_LEN_def\<close>)
  have m: "tx_moves self (start_rtx (self\<lparr>t_snd_nxt := seq_add (t_iss self) 1\<rparr>) now)"
    using assms(1) by (auto simp: tx_moves_def start_rtx_def)
  have a: "sent_step self (do { seg \<leftarrow> build_syn self; Some (Some seg, start_rtx (self\<lparr>t_snd_nxt := seq_add (t_iss self) 1\<rparr>) now) })"
    using b[of self] assms(2) m unfolding sent_step_def by (auto simp: bind_Some_iff)
  let ?s = "self\<lparr>t_retransmit := False\<rparr>"
  have "tx_moves self ?s" by (simp add: tx_moves_refl field_views)
  then have c: "sent_step self (do { seg \<leftarrow> build_syn ?s; Some (Some seg, ?s) })"
    using b[of ?s] assms(2) unfolding sent_step_def by (auto simp: bind_Some_iff)
  show ?thesis unfolding transmit_syn_sent_def by (intro sent_if a c sent_quiet refl)
qed

lemma transmit_syn_received_sent:
  assumes "t_state self = SynReceived" and "t_mss_advertise self \<noteq> 0"
  shows "sent_step self (transmit_syn_received self now)"
proof -
  have "sent_step self (emit (build self (t_iss self) SYN []) (\<lambda>s. start_rtx (s\<lparr>t_snd_nxt := seq_add (t_iss s) 1\<rparr>) now))"
  proof (rule sent_emit)
    fix x assume "tx_view x = tx_view self"
    then have "tx_moves self (start_rtx (x\<lparr>t_snd_nxt := seq_add (t_iss x) 1\<rparr>) now)"
      using assms(1) by (auto simp: tx_moves_def start_rtx_def tx_view_def)
    then show "tx_moves self (start_rtx (x\<lparr>t_snd_nxt := seq_add (t_iss x) 1\<rparr>) now)
        \<and> (flag_has SYN FIN \<longrightarrow> t_fin_seq (start_rtx (x\<lparr>t_snd_nxt := seq_add (t_iss x) 1\<rparr>) now) = Some (t_iss self))
        \<and> ([] = [] \<and> \<not> flag_has SYN SYN \<and> \<not> flag_has SYN FIN
           \<longrightarrow> t_snd_nxt (start_rtx (x\<lparr>t_snd_nxt := seq_add (t_iss x) 1\<rparr>) now) = t_iss self)" by simp
  qed (use assms(2) in simp_all)
  moreover have "sent_step self (emit (build (self\<lparr>t_retransmit := False\<rparr>) (t_iss self) SYN []) id)"
  proof -
    let ?s = "self\<lparr>t_retransmit := False\<rparr>"
    have "sent_step ?s (emit (build ?s (t_iss self) SYN []) id)"
      by (rule sent_emit) (use assms(2) tx_moves_refl in auto)
    then show ?thesis using sent_step_view[of ?s self] by (simp add: tx_view_def)
  qed
  ultimately show ?thesis unfolding transmit_syn_received_def by (intro sent_if transmit_owed_ack_sent)
qed

lemma poll_transmit_sent:
  assumes "t_mss_advertise self \<noteq> 0"
  shows "sent_step self (poll_transmit self now)"
proof -
  define s where "s = self\<lparr>t_cur_tsval := word_of_nat now\<rparr>"
  have v: "tx_view s = tx_view self" "t_mss_advertise s \<noteq> 0" using assms by (simp_all add: s_def field_views)
  have "sent_step s (poll_transmit self now)"
  proof (cases "t_pending_reset self")
    case (Some seq)
    let ?r = "s\<lparr>t_pending_reset := None\<rparr>"
    have run: "poll_transmit self now = (do { seg \<leftarrow> build_rst ?r seq; Some (Some seg, ?r) })"
      unfolding poll_transmit_def Let_def s_def by (simp add: Some)
    have flags: "\<not> flag_has RST FIN" "flag_has RST RST" by (simp_all add: flag_has_def RST_def FIN_def)
    have b: "length f \<le> 65535 \<longrightarrow> segment_shape ?r (ip_payload f)" if "build_rst ?r seq = Some f" for f
      using that unfolding build_rst_def
      by (rule plain_segment_sent)
        (use flags in \<open>simp_all add: tr_header_len_def sack_blocks_to_emit_def TCP_MIN_HEADER_LEN_def\<close>)
    have "tx_moves s ?r" by (simp add: tx_moves_refl field_views)
    then show ?thesis unfolding run sent_step_def using b by (auto simp: bind_Some_iff)
  next
    case None
    have run: "poll_transmit self now = (case t_state s of Closed \<Rightarrow> Some (None, s) | Listen \<Rightarrow> Some (None, s)
        | SynSent \<Rightarrow> transmit_syn_sent s now | SynReceived \<Rightarrow> transmit_syn_received s now
        | TimeWait \<Rightarrow> transmit_owed_ack s | _ \<Rightarrow> or_else (transmit_data_or_fin s now) transmit_owed_ack)"
      unfolding poll_transmit_def Let_def s_def by (simp add: None)
    have d: "sent_step s (or_else (transmit_data_or_fin s now) transmit_owed_ack)" if "t_state s \<notin> {SynSent, SynReceived}"
      by (rule sent_or_else[OF transmit_data_or_fin_sent[OF that]]) (rule transmit_owed_ack_sent)
    show ?thesis unfolding run
      using sent_quiet[of s s] transmit_syn_sent_sent[OF _ v(2)] transmit_syn_received_sent[OF _ v(2)] transmit_owed_ack_sent d
      by (cases "t_state s") simp_all
  qed
  then show ?thesis using sent_step_view[OF v(1)] by simp
qed

end
