(* ===== verification/Send_Stream.thy ===== *)
theory Send_Stream
  imports Send_Segments
begin

text \<open>
  The sender as its peer sees it: whatever a connection puts on the wire is a piece of the
  stream its application has written, in the place of its sequence number, and every handler
  keeps it so.
\<close>

section \<open>Segments of a stream\<close>

text \<open>
  \<open>W\<close> is what has been written, \<open>iss\<close> the initial sequence number, and \<open>fin\<close> says whether a FIN
  has been sent. The position \<open>k\<close> counts from the SYN, so byte \<open>i\<close> of \<open>W\<close> has position \<open>i + 1\<close>.
\<close>

definition on_wire :: "bytes \<Rightarrow> seqnum \<Rightarrow> bool \<Rightarrow> bytes \<Rightarrow> bool" where
  "on_wire W iss fin seg \<longleftrightarrow> mss_option seg \<noteq> Some 0 \<and> length (tcp_payload seg) \<le> 65535
     \<and> (\<not> flag_has (tcp_flags_of seg) RST \<longrightarrow> (\<exists>k. k \<le> length W + 2 \<and> tcp_seq seg = seq_add iss k
        \<and> (tcp_payload seg \<noteq> [] \<longrightarrow> 0 < k \<and> k - 1 + length (tcp_payload seg) \<le> length W
             \<and> tcp_payload seg = take (length (tcp_payload seg)) (drop (k - 1) W))
        \<and> (flag_has (tcp_flags_of seg) SYN \<longrightarrow> tcp_payload seg = [] \<and> k = 0)
        \<and> (flag_has (tcp_flags_of seg) FIN \<longrightarrow> tcp_payload seg = [] \<and> fin \<and> k = length W + 1)))"

lemma on_wire_later:
  assumes "on_wire W iss fin seg" and "fin \<Longrightarrow> fin' \<and> X = []"
  shows "on_wire (W @ X) iss fin' seg"
proof (cases "flag_has (tcp_flags_of seg) RST")
  case True
  then show ?thesis using assms(1) by (simp add: on_wire_def)
next
  case False
  then obtain k where w: "mss_option seg \<noteq> Some 0" "length (tcp_payload seg) \<le> 65535" "k \<le> length W + 2"
      "tcp_seq seg = seq_add iss k"
      "tcp_payload seg \<noteq> [] \<longrightarrow> 0 < k \<and> k - 1 + length (tcp_payload seg) \<le> length W
         \<and> tcp_payload seg = take (length (tcp_payload seg)) (drop (k - 1) W)"
      "flag_has (tcp_flags_of seg) SYN \<longrightarrow> tcp_payload seg = [] \<and> k = 0"
      "flag_has (tcp_flags_of seg) FIN \<longrightarrow> tcp_payload seg = [] \<and> fin \<and> k = length W + 1"
    using assms(1) by (auto simp: on_wire_def)
  have "take n (drop (k - 1) (W @ X)) = take n (drop (k - 1) W)" if "k - 1 + n \<le> length W" for n using that by simp
  then have "tcp_payload seg \<noteq> [] \<longrightarrow> 0 < k \<and> k - 1 + length (tcp_payload seg) \<le> length (W @ X)
         \<and> tcp_payload seg = take (length (tcp_payload seg)) (drop (k - 1) (W @ X))"
    using w(5) by auto
  moreover have "flag_has (tcp_flags_of seg) FIN \<longrightarrow> tcp_payload seg = [] \<and> fin' \<and> k = length (W @ X) + 1"
    using w(7) assms(2) by auto
  moreover have "k \<le> length (W @ X) + 2" using w(3) by simp
  ultimately show ?thesis unfolding on_wire_def using w(1,2,4,6) by blast
qed

section \<open>A poll\<close>

lemma closed_sends_resets:
  assumes "t_state self = Closed" and "poll_transmit self now = Some (out, self')"
  shows "tx_view self' = tx_view self" "recv_view self' = recv_view self"
    "\<And>f. out = Some f \<Longrightarrow> length f \<le> 65535 \<Longrightarrow> flag_has (tcp_flags_of (ip_payload f)) RST
       \<and> tcp_payload (ip_payload f) = [] \<and> mss_option (ip_payload f) = None"
proof -
  show "tx_view self' = tx_view self" "recv_view self' = recv_view self"
    using assms by (auto simp: poll_transmit_def Let_def bind_Some_iff tx_view_def recv_view_def split: option.splits)
  fix f assume f: "out = Some f" "length f \<le> 65535"
  then obtain x seq where b: "build_rst x seq = Some f"
    using assms by (auto simp: poll_transmit_def Let_def bind_Some_iff split: option.splits)
  show "flag_has (tcp_flags_of (ip_payload f)) RST \<and> tcp_payload (ip_payload f) = [] \<and> mss_option (ip_payload f) = None"
    using built_fields[OF b[unfolded build_rst_def] _ f(2)]
    by (simp add: tr_header_len_def sack_blocks_to_emit_def TCP_MIN_HEADER_LEN_def flag_has_def RST_def)
qed

lemma queue_at_sent_new:
  assumes inv: "send_inv self" and q: "queue_at W self d" and k: "0 < k"
    and fit: "offset_from (t_snd_nxt self) (t_snd_una self) + k \<le> rb_len (t_tx self)"
    and n: "t_snd_nxt self' = seq_add (t_snd_nxt self) k"
    and keep: "t_iss self' = t_iss self" "t_snd_una self' = t_snd_una self" "t_tx self' = t_tx self" "t_fin_seq self' = t_fin_seq self"
  shows "queue_at W self' d"
proof -
  note len = queue_length[OF inv q]
  have "t_fin_seq self = None"
  proof (rule ccontr)
    assume "t_fin_seq self \<noteq> None"
    then obtain f where f: "f = seq_add (t_iss self) (1 + length W)" "t_snd_nxt self = seq_add f 1"
      "t_snd_una self = seq_add (t_iss self) (1 + d) \<or> d = length W"
      using q by (auto simp: queue_at_def)
    have "d < length W" using fit k len(1) by linarith
    then have u: "t_snd_una self = seq_add (t_iss self) (1 + d)" "d \<le> length W" using f(3) by auto
    have "t_snd_nxt self = seq_add (t_snd_una self) (length W - d + 1)" unfolding f(1,2) u seq_add_add using u(2) by simp
    then have "offset_from (t_snd_nxt self) (t_snd_una self) = length W - d + 1"
      using offset_from_add[of "t_snd_una self" "t_snd_una self" "length W - d + 1"] len(2) by simp
    then show False using fit len(1) by linarith
  qed
  moreover have "offset_from (t_snd_nxt self') (t_snd_una self') = offset_from (t_snd_nxt self) (t_snd_una self) + k"
    unfolding n keep by (rule offset_from_add) (use fit len in linarith)
  ultimately show ?thesis using q fit len(1) keep by (simp add: queue_at_def)
qed

lemma queue_at_sent_fin:
  assumes inv: "send_inv self" and q: "queue_at W self d" and "\<not> t_fin_acked self"
    and n: "t_snd_nxt self = seq_add (t_snd_una self) (rb_len (t_tx self))"
    and st: "t_state self' \<notin> {Established, CloseWait}"
    and f: "t_fin_seq self' = Some (t_snd_nxt self)" "t_snd_nxt self' = seq_add (t_snd_nxt self) 1"
    and keep: "t_iss self' = t_iss self" "t_snd_una self' = t_snd_una self" "t_tx self' = t_tx self"
  shows "queue_at W self' d" "t_fin_seq self = None"
proof -
  note len = queue_length[OF inv q]
  have d: "d \<le> length W" using q by (simp add: queue_at_def)
  have u: "t_snd_una self = seq_add (t_iss self) (1 + d)"
    using q assms(3) by (auto simp: queue_at_def split: option.splits)
  then have e: "t_snd_nxt self = seq_add (t_iss self) (1 + length W)" unfolding n len(1) u seq_add_add using d by simp
  then show "queue_at W self' d" using q st f u keep d by (simp add: queue_at_def)
  have "seq_add x 1 \<noteq> x" for x by (simp add: seq_add_def)
  then show "t_fin_seq self = None" using q e by (auto simp: queue_at_def split: option.splits)
qed

lemma tx_moves_sends:
  assumes inv: "send_inv self" and s: "sends W self" and m: "tx_moves self self'" and "t_state self \<noteq> Closed"
  shows "sends W self'" "t_state self' = Closed \<longrightarrow> t_fin_seq self' \<noteq> None" "t_fin_seq self \<noteq> None \<longrightarrow> t_fin_seq self' = t_fin_seq self"
    and "t_iss self' = t_iss self"
proof -
  have keep: "t_iss self' = t_iss self" "t_snd_una self' = t_snd_una self" "t_tx self' = t_tx self" using m by (simp_all add: tx_moves_def)
  then show "t_iss self' = t_iss self" by blast
  have q: "\<exists>d. queue_at W self d" if "t_state self \<notin> {SynSent, SynReceived}"
    using s that assms(4) unfolding sends_def by auto
  from m consider (same) "tx_view self' = tx_view self"
    | (syn) "t_state self \<in> {SynSent, SynReceived}" "t_state self' = t_state self" "t_fin_seq self' = t_fin_seq self"
    | (data) k where "t_state self \<notin> {SynSent, SynReceived}" "t_state self' = t_state self" "t_fin_seq self' = t_fin_seq self"
        "0 < k" "t_snd_nxt self' = seq_add (t_snd_nxt self) k"
        "offset_from (t_snd_nxt self) (t_snd_una self) + k \<le> rb_len (t_tx self)"
    | (fin) "t_state self \<notin> {SynSent, SynReceived}" "t_state self' \<notin> {SynSent, SynReceived, Established, CloseWait}"
        "\<not> t_fin_acked self" "t_snd_nxt self = seq_add (t_snd_una self) (rb_len (t_tx self))"
        "t_fin_seq self' = Some (t_snd_nxt self)" "t_snd_nxt self' = seq_add (t_snd_nxt self) 1"
    unfolding tx_moves_def by blast
  then have "sends W self' \<and> (t_state self' = Closed \<longrightarrow> t_fin_seq self' \<noteq> None) \<and> (t_fin_seq self \<noteq> None \<longrightarrow> t_fin_seq self' = t_fin_seq self)"
  proof cases
    case same
    then show ?thesis using sends_view[OF same] s assms(4) by (simp add: tx_view_def)
  next
    case syn
    then show ?thesis using s by (auto simp: sends_def)
  next
    case data
    then obtain d where "queue_at W self d" using q by blast
    from queue_at_sent_new[OF inv this data(4,6,5) keep data(3)] show ?thesis
      using data(1-3) assms(4) sends_queueI[of self' W d] by simp
  next
    case fin
    obtain d where d: "queue_at W self d" using q[OF fin(1)] by blast
    have st: "t_state self' \<notin> {Established, CloseWait}" using fin(2) by simp
    note f = queue_at_sent_fin[OF inv d fin(3,4) st fin(5,6) keep]
    show ?thesis using f fin(2,5) sends_queueI[of self' W d] by simp
  qed
  then show "sends W self'" "t_state self' = Closed \<longrightarrow> t_fin_seq self' \<noteq> None" "t_fin_seq self \<noteq> None \<longrightarrow> t_fin_seq self' = t_fin_seq self"
    by simp_all
qed

lemma sends_position:
  assumes inv: "send_inv self" and s: "sends W self" and st: "t_state self = Closed \<longrightarrow> t_fin_seq self \<noteq> None"
  shows "\<exists>k. k \<le> length W + 2 \<and> t_snd_nxt self = seq_add (t_iss self) k"
proof (cases "t_state self \<in> {SynSent, SynReceived}")
  case True
  then have "t_snd_nxt self \<in> {t_iss self, seq_add (t_iss self) 1}" using inv by (auto simp: send_inv_def)
  then consider "t_snd_nxt self = seq_add (t_iss self) 0" | "t_snd_nxt self = seq_add (t_iss self) 1" by (auto simp: seq_add_def)
  then show ?thesis by cases (intro exI[of _ 0], simp, intro exI[of _ 1], simp)
next
  case False
  then obtain d where q: "queue_at W self d" using s st unfolding sends_def by auto
  show ?thesis
  proof (cases "t_fin_seq self")
    case None
    then have u: "t_snd_una self = seq_add (t_iss self) (1 + d)" "offset_from (t_snd_nxt self) (t_snd_una self) \<le> length W - d" "d \<le> length W"
      using q by (auto simp: queue_at_def)
    have "t_snd_nxt self = seq_add (t_iss self) (1 + d + offset_from (t_snd_nxt self) (t_snd_una self))"
      using seq_add_offset_from[of "t_snd_una self" "t_snd_nxt self"] unfolding u(1) seq_add_add by simp
    moreover have "1 + d + offset_from (t_snd_nxt self) (t_snd_una self) \<le> length W + 2" using u(2,3) by linarith
    ultimately show ?thesis by blast
  next
    case (Some f)
    then have "t_snd_nxt self = seq_add (t_iss self) (length W + 2)" using q by (auto simp: queue_at_def seq_add_add)
    then show ?thesis by blast
  qed
qed

lemma queued_position:
  assumes inv: "send_inv self" and s: "sends W self" and q: "queued_at self seq payload" and ne: "payload \<noteq> []"
  shows "\<exists>k. 0 < k \<and> k - 1 + length payload \<le> length W \<and> seq = seq_add (t_iss self) k
    \<and> payload = take (length payload) (drop (k - 1) W)"
proof -
  define off where "off = offset_from seq (t_snd_una self)"
  have l: "0 < length payload" using ne by simp
  have o: "off + length payload \<le> rb_len (t_tx self)" "payload = take (length payload) (drop off (rb_buf (t_tx self)))"
    using q ne by (simp_all add: queued_at_def off_def)
  then have b: "rb_buf (t_tx self) \<noteq> []" using l by (auto simp: rb_len_def)
  then have "t_state self \<notin> {SynSent, SynReceived}" using inv by (auto simp: send_inv_def)
  with s b obtain d where d: "queue_at W self d" unfolding sends_def by auto
  note len = queue_length[OF inv d]
  have "d < length W" using o(1) l len(1) by linarith
  then have u: "t_snd_una self = seq_add (t_iss self) (1 + d)" using d by (auto simp: queue_at_def split: option.splits)
  have "seq = seq_add (t_iss self) (1 + d + off)"
    using seq_add_offset_from[of "t_snd_una self" seq] unfolding u seq_add_add off_def by simp
  moreover have "d + off + length payload \<le> length W" using o(1) len(1) \<open>d < length W\<close> by linarith
  moreover have "payload = take (length payload) (drop (d + off) W)"
    using o(2) d by (simp add: queue_at_def add.commute)
  ultimately show ?thesis by (intro exI[of _ "1 + d + off"]) simp
qed

lemma shape_on_wire:
  assumes si: "send_inv self" and s: "sends W self" and st: "t_state self = Closed \<longrightarrow> t_fin_seq self \<noteq> None"
    and shape: "segment_shape self seg" and len: "length (tcp_payload seg) \<le> 65535"
    and syn: "flag_has (tcp_flags_of seg) SYN \<longrightarrow> tcp_seq seg = t_iss self"
    and pos: "tcp_payload seg \<noteq> [] \<Longrightarrow> \<exists>k. 0 < k \<and> k - 1 + length (tcp_payload seg) \<le> length W \<and> tcp_seq seg = seq_add (t_iss self) k
      \<and> tcp_payload seg = take (length (tcp_payload seg)) (drop (k - 1) W)"
  shows "on_wire W (t_iss self) (t_fin_seq self \<noteq> None) seg"
proof -
  let ?rst = "flag_has (tcp_flags_of seg) RST" and ?syn = "flag_has (tcp_flags_of seg) SYN" and ?fin = "flag_has (tcp_flags_of seg) FIN"
  note sh = shape[unfolded segment_shape_def]
  have "\<exists>k. k \<le> length W + 2 \<and> tcp_seq seg = seq_add (t_iss self) k
        \<and> (tcp_payload seg \<noteq> [] \<longrightarrow> 0 < k \<and> k - 1 + length (tcp_payload seg) \<le> length W
             \<and> tcp_payload seg = take (length (tcp_payload seg)) (drop (k - 1) W))
        \<and> (?syn \<longrightarrow> tcp_payload seg = [] \<and> k = 0)
        \<and> (?fin \<longrightarrow> tcp_payload seg = [] \<and> t_fin_seq self \<noteq> None \<and> k = length W + 1)" if "\<not> ?rst"
  proof (cases "tcp_payload seg = []")
    case False
    then have f: "\<not> ?syn" "\<not> ?fin" using sh by blast+
    from pos[OF False] obtain k where k: "0 < k" "k - 1 + length (tcp_payload seg) \<le> length W" "tcp_seq seg = seq_add (t_iss self) k"
      "tcp_payload seg = take (length (tcp_payload seg)) (drop (k - 1) W)" by blast
    moreover have "k \<le> length W + 2" using k(2) by linarith
    ultimately show ?thesis using f by blast
  next
    case True
    consider (syn) ?syn "\<not> ?fin" | (fin) ?fin "\<not> ?syn" | (ack) "\<not> ?syn" "\<not> ?fin" using sh by blast
    then show ?thesis
    proof cases
      case syn: syn
      then show ?thesis using assms(6) True by (intro exI[of _ 0]) (simp add: seq_add_def)
    next
      case fin
      then have f: "t_fin_seq self = Some (tcp_seq seg)" using sh by blast
      then have "t_state self \<notin> {SynSent, SynReceived}" "\<exists>d. queue_at W self d" using s unfolding sends_def by (auto split: if_splits)
      then have "tcp_seq seg = seq_add (t_iss self) (length W + 1)" using f by (auto simp: queue_at_def)
      then show ?thesis using fin f True by (intro exI[of _ "length W + 1"]) simp
    next
      case ack
      then have "tcp_seq seg = t_snd_nxt self" using sh that True by blast
      then show ?thesis using sends_position[OF si s st] ack True by auto
    qed
  qed
  then show ?thesis unfolding on_wire_def using sh len by blast
qed

lemma payload_short: "length (tcp_payload (ip_payload f)) \<le> length f"
  by (simp add: tcp_payload_def ip_payload_def)

lemma poll_on_wire:
  assumes inv: "tcb_inv n self" and s: "sends W self" and run: "poll_transmit self now = Some (out, self')"
  shows "sends W self'" "t_iss self' = t_iss self" "t_fin_seq self \<noteq> None \<longrightarrow> t_fin_seq self' \<noteq> None"
    "\<And>f. out = Some f \<Longrightarrow> on_wire W (t_iss self) (t_fin_seq self' \<noteq> None) (ip_payload f)"
proof -
  have ok: "tcb_inv n self'" "\<And>f. out = Some f \<Longrightarrow> well_formed_datagram self f"
    using poll_transmit_ok[OF inv, of now] run by (auto simp: step_ok_def)
  have short: "length f \<le> 65535" if "out = Some f" for f
    using ok(2)[OF that] carries_short by (auto simp: well_formed_datagram_def)
  have si: "send_inv self" "send_inv self'" using inv ok(1) by (simp_all add: tcb_inv_def)
  have "sends W self' \<and> t_iss self' = t_iss self \<and> (t_fin_seq self \<noteq> None \<longrightarrow> t_fin_seq self' \<noteq> None)
    \<and> (\<forall>f. out = Some f \<longrightarrow> on_wire W (t_iss self) (t_fin_seq self' \<noteq> None) (ip_payload f))"
  proof (cases "t_state self = Closed")
    case True
    note c = closed_sends_resets[OF True run]
    have "\<forall>f. out = Some f \<longrightarrow> on_wire W (t_iss self) (t_fin_seq self' \<noteq> None) (ip_payload f)"
      using c(3) short by (simp add: on_wire_def)
    then show ?thesis using c(1) sends_view[OF c(1)] s by (simp add: tx_view_def)
  next
    case False
    have "t_mss_advertise self \<noteq> 0" using inv by (simp add: tcb_inv_def core_inv_def)
    from poll_transmit_sent[OF this, of now] run have step: "sent_step self (Some (out, self'))" by simp
    show ?thesis
    proof (cases out)
      case None
      then have "tx_view self' = tx_view self" using step by (simp add: sent_step_def)
      then show ?thesis using sends_view[of self' self W] s None by (simp add: tx_view_def)
    next
      case (Some f)
      then have m: "tx_moves self self'" "segment_shape self' (ip_payload f)" using step short by (simp_all add: sent_step_def)
      note mv = tx_moves_sends[OF si(1) s m(1) False]
      obtain seg where seg: "ip_payload f = seg" "flag_has (tcp_flags_of seg) SYN \<longrightarrow> tcp_seq seg = t_iss self"
        "queued_at self (tcp_seq seg) (tcp_payload seg)"
        using ok(2)[OF Some] unfolding well_formed_datagram_def carries_def by blast
      have len: "length (tcp_payload seg) \<le> 65535" using payload_short[of f] short[OF Some] unfolding seg(1) by linarith
      have "on_wire W (t_iss self) (t_fin_seq self' \<noteq> None) seg"
        unfolding mv(4)[symmetric]
        by (rule shape_on_wire[OF si(2) mv(1,2) m(2)[unfolded seg(1)] len])
          (use queued_position[OF si(1) s seg(3)] seg(2) mv(4) in simp_all)
      then show ?thesis using mv(1,4) mv(3) Some seg(1) by (cases "t_fin_seq self") simp_all
    qed
  qed
  then show "sends W self'" "t_iss self' = t_iss self" "t_fin_seq self \<noteq> None \<longrightarrow> t_fin_seq self' \<noteq> None"
    "\<And>f. out = Some f \<Longrightarrow> on_wire W (t_iss self) (t_fin_seq self' \<noteq> None) (ip_payload f)" by simp_all
qed

section \<open>Timers and calls\<close>

lemma sends_closed:
  assumes "send_inv self" and "sends W self"
  shows "sends W (self\<lparr>t_state := Closed\<rparr>)"
proof (cases "t_state self \<in> {SynSent, SynReceived}")
  case True
  then show ?thesis using assms by (auto simp: sends_def send_inv_def)
next
  case False
  show ?thesis by (rule sends_state[OF assms(2) False]) simp_all
qed

lemma timer_tx:
  assumes run: "tcb_on_timer self now = Some self'"
  shows "tx_view self' = tx_view self \<or> tx_view self' = tx_view (self\<lparr>t_state := Closed\<rparr>)"
proof -
  obtain x where x: "timer_rtx self now = Some x" "self' = timer_delayed_ack (timer_time_wait (timer_persist x now) now) now"
    using run by (auto simp: tcb_on_timer_def)
  have v: "tx_view y = tx_view self \<or> tx_view y = tx_view (self\<lparr>t_state := Closed\<rparr>)" if "rto_syn_sent self now = Some y" for y
    using that by (auto simp: rto_syn_sent_def Let_def bind_Some_iff tx_view_def restart_rtx_def split: if_splits)
  have w: "tx_view y = tx_view self" if h: "rto_fired self now = Some y" for y
  proof -
    obtain r where "rtt_on_timeout (t_rtt self) = Some r" using h by (auto simp: rto_fired_def bind_Some_iff)
    then show ?thesis
      using h by (cases "t_sack_enabled self") (auto simp: rto_fired_def Let_def tx_view_def restart_rtx_def)
  qed
  have "tx_view x = tx_view self \<or> tx_view x = tx_view (self\<lparr>t_state := Closed\<rparr>)"
    using x(1) v w unfolding timer_rtx_def by (auto split: option.splits if_splits)
  moreover have "tx_view self' = tx_view x \<or> tx_view self' = tx_view (x\<lparr>t_state := Closed\<rparr>)"
    by (simp add: x(2) timer_persist_def timer_time_wait_def timer_delayed_ack_def Let_def tx_view_def split: option.split)
  ultimately show ?thesis by (auto simp: tx_view_def)
qed

lemma timer_sends:
  assumes si: "send_inv self" and s: "sends W self" and run: "tcb_on_timer self now = Some self'"
  shows "keeps_stream W self self'"
  using timer_tx[OF run]
proof
  assume v: "tx_view self' = tx_view self"
  then show ?thesis by (rule keeps_stream_view[OF s])
next
  assume v: "tx_view self' = tx_view (self\<lparr>t_state := Closed\<rparr>)"
  then show ?thesis using sends_view[OF v] sends_closed[OF si s] by (simp add: keeps_stream_def tx_view_def)
qed

lemma write_sends:
  assumes inv: "send_inv self" and s: "sends W self" and run: "tcb_send self bytes = (self', n)"
  shows "sends (W @ take n bytes) self'" "t_iss self' = t_iss self" "t_fin_seq self' = t_fin_seq self"
    "t_fin_seq self \<noteq> None \<longrightarrow> take n bytes = []"
proof -
  have "sends (W @ take n bytes) self' \<and> t_iss self' = t_iss self \<and> t_fin_seq self' = t_fin_seq self
    \<and> (t_fin_seq self \<noteq> None \<longrightarrow> take n bytes = [])"
  proof (cases "t_state self \<in> {Established, CloseWait}")
    case True
    obtain tx where w: "rb_write (t_tx self) bytes = (tx, n)" "self' = self\<lparr>t_tx := tx\<rparr>"
      using run True by (auto simp: tcb_send_def Let_def split: prod.splits)
    have b: "rb_buf tx = rb_buf (t_tx self) @ take n bytes" using w(1) by (auto simp: rb_write_def Let_def)
    obtain d where q: "queue_at W self d" using s True unfolding sends_def by auto
    then have fin: "t_fin_seq self = None" using True by (auto simp: queue_at_def split: option.splits)
    have "queue_at (W @ take n bytes) self' d" using q fin b w(2) by (auto simp: queue_at_def)
    then show ?thesis using sends_queueI[of self' "W @ take n bytes" d] True fin w(2) by auto
  next
    case False
    then have "self' = self" "n = 0" using run by (auto simp: tcb_send_def split: state.splits)
    then show ?thesis using s by simp
  qed
  then show "sends (W @ take n bytes) self'" "t_iss self' = t_iss self" "t_fin_seq self' = t_fin_seq self"
    "t_fin_seq self \<noteq> None \<longrightarrow> take n bytes = []" by simp_all
qed

lemma call_tx_views:
  "tx_view (tcb_close self) = tx_view self" "tx_view (fst (tcb_recv self len)) = tx_view self"
  "tx_view (set_congestion_control ov self kind) = tx_view self"
  by (simp_all add: tx_view_def tcb_close_def tcb_recv_def set_congestion_control_def split: prod.split)

lemma birth_sends:
  "sends [] (new_syn_sent ov local remote iss now mss)" "sends [] (new_syn_received ov local remote syn iss now mss)"
  by (simp_all add: sends_def new_syn_sent_def new_syn_received_def Let_def split: option.split prod.split)

end
