(* ===== verification/State_Diagram.thy ===== *)
theory State_Diagram
  imports Samples
begin

text \<open>
  The edges of the RFC 793 state diagram and the lemmas that each handler moves the state along
  a path of it, or aborts to \<open>Closed\<close> for a stated cause. The refinement itself, with the event
  behind every edge, is in \<open>Diagram_Events\<close>.
\<close>

section \<open>The diagram\<close>

text \<open>
  The edges of RFC 793's figure 6 that this stack has (\<open>Listen\<close> is the stack's own, and a
  close before the handshake completes waits for it).
\<close>

inductive rfc793 :: "state \<Rightarrow> state \<Rightarrow> bool" where
  syn_syn: "rfc793 SynSent SynReceived"
| syn_ack: "rfc793 SynSent Established"
| ack_of_syn: "rfc793 SynReceived Established"
| close_sends_fin: "rfc793 Established FinWait1"
| fin_received: "rfc793 Established CloseWait"
| close_after_fin: "rfc793 CloseWait LastAck"
| ack_of_fin: "rfc793 FinWait1 FinWait2"
| simultaneous_close: "rfc793 FinWait1 Closing"
| fin_in_wait: "rfc793 FinWait2 TimeWait"
| closing_ack: "rfc793 Closing TimeWait"
| last_ack: "rfc793 LastAck Closed"
| time_out: "rfc793 TimeWait Closed"

inductive_simps rfc793_from:
  "rfc793 Closed st" "rfc793 Listen st" "rfc793 TimeWait st" "rfc793 LastAck st"

abbreviation rfc793_path :: "state \<Rightarrow> state \<Rightarrow> bool" where
  "rfc793_path \<equiv> rfc793\<^sup>*\<^sup>*"

text \<open>The closing states are a path of the diagram, in whichever order the two events came.\<close>

lemma closing_path: "rfc793_path st (closing_state st fin_acked peer_fin_seen)"
proof (cases "st = FinWait1 \<and> fin_acked \<and> peer_fin_seen")
  case True
  have "rfc793_path FinWait1 TimeWait"
    by (rule converse_rtranclp_into_rtranclp[OF ack_of_fin r_into_rtranclp[of rfc793, OF fin_in_wait]])
  then show ?thesis using True by (simp add: closing_state_def)
next
  case False
  then have "closing_state st fin_acked peer_fin_seen = st \<or> rfc793 st (closing_state st fin_acked peer_fin_seen)"
    by (cases st) (auto simp: closing_state_def rfc793.intros split: bool.split)
  then show ?thesis by auto
qed

section \<open>Segments\<close>

lemma data_and_fin_path:
  assumes "data_and_fin self now tcp ce = Some self'"
  shows "rfc793_path (t_state self) (t_state self')"
proof -
  obtain s1 where s1: "receive_data self now (tcp_seq tcp) (tcp_payload tcp) ce = Some s1"
    using assms by (auto simp: data_and_fin_def bind_Some_iff)
  define s2 where "s2 = consume_pending_fin (if flag_has (tcp_flags_of tcp) FIN
      then receive_fin s1 (seq_add (tcp_seq tcp) (length (tcp_payload tcp))) else s1)"
  have "send_view s2 = send_view self" using receive_data_frame[OF s1] by (simp add: s2_def fin_views)
  then have "t_state s2 = t_state self" by (simp add: send_view_def)
  moreover have "self' = recompute_closing_state s2 now" using assms s1 by (simp add: data_and_fin_def s2_def)
  ultimately show ?thesis using closing_path by (simp add: recompute_state)
qed

definition handshake_ack :: "tcb \<Rightarrow> bytes \<Rightarrow> bool" where
  "handshake_ack self tcp \<longleftrightarrow> seq_gt (tcp_ack tcp) (t_snd_una self) \<and> seq_le (tcp_ack tcp) (t_snd_nxt self)"

lemma ack_step_path:
  assumes inv: "tcb_inv n self" and st: "t_state self \<noteq> SynSent" and run: "ack_step self now tcp e = Some (ok, s)"
  shows "rfc793_path (t_state self) (t_state s)
    \<or> (\<not> ok \<and> t_state s = Closed \<and> t_state self = SynReceived \<and> \<not> handshake_ack self tcp)"
proof (cases "t_state self = SynReceived")
  case True
  have "ack_syn_received self tcp = (ok, s)" using run True by (simp add: ack_step_def)
  then show ?thesis
    using True r_into_rtranclp[of rfc793, OF ack_of_syn]
    by (auto simp: ack_syn_received_def handshake_ack_def Let_def split: if_splits)
next
  case False
  have "send_inv self" "core_inv n self" "t_state self \<notin> {SynSent, SynReceived}"
    using inv st False by (simp_all add: tcb_inv_def)
  from ack_synchronized_ok[OF this, of now tcp e] run False have "t_state s = t_state self"
    by (auto simp: ack_step_def)
  then show ?thesis by simp
qed

lemma syn_sent_path:
  "t_state self = SynSent \<Longrightarrow>
    rfc793_path SynSent (t_state (on_segment_syn_sent ov self tcp))
    \<or> (t_state (on_segment_syn_sent ov self tcp) = Closed \<and> flag_has (tcp_flags_of tcp) RST)"
  using r_into_rtranclp[of rfc793, OF syn_syn] r_into_rtranclp[of rfc793, OF syn_ack]
  by (simp add: on_segment_syn_sent_def syn_sent_syn_def Let_def negotiate_fields)

lemma on_segment_path:
  assumes inv: "tcb_inv n self" and run: "on_segment ov self now tcp ce = Some self'"
  shows "rfc793_path (t_state self) (t_state self')
    \<or> (t_state self' = Closed \<and> (flag_has (tcp_flags_of tcp) RST \<or> t_state self = SynReceived \<and> \<not> handshake_ack self tcp))"
proof (cases "t_state self = SynSent")
  case True
  then show ?thesis using syn_sent_path[OF True, of ov tcp] run by (simp add: on_segment_def)
next
  case False
  define ts where "ts = (if t_ts_enabled self then timestamps tcp else None)"
  let ?s = "advance_ts_recent self (tcp_seq tcp) ts"
  have "tcb_inv n ?s" using inv by simp
  moreover have "t_state ?s = t_state self" "handshake_ack ?s tcp = handshake_ack self tcp"
    by (simp_all add: advance_ts_recent_def handshake_ack_def split: option.split)
  ultimately have keep: "t_state ?s = t_state self" "handshake_ack ?s tcp = handshake_ack self tcp" "tcb_inv n ?s"
    by simp_all
  consider (same) "t_state self' = t_state self" | (rst) "flag_has (tcp_flags_of tcp) RST" "t_state self' = Closed"
    | (acc) "on_acceptable ?s now tcp ts ce = Some self'" "flag_has (tcp_flags_of tcp) ACK"
  proof -
    have v: "t_state (on_syn self now q) = t_state self" "t_state (on_rst self now q) \<in> {t_state self, Closed}"
      "t_state (arm_time_wait (self\<lparr>t_needs_ack := True\<rparr>) now) = t_state self" for q
      by (simp_all add: on_syn_def on_rst_def challenge_ack_def arm_time_wait_def Let_def)
    show ?thesis
      using run False v(1) v(2)[of "tcp_seq tcp"] v(3) keep(1) that
      by (auto simp: on_segment_def Let_def ts_def[symmetric] on_acceptable_def split: if_splits)
  qed
  then show ?thesis
  proof cases
    case acc
    have "t_state ?s \<noteq> SynSent" using False keep by simp
    obtain ok s where a: "ack_step ?s now tcp (map_option snd ts) = Some (ok, s)"
      and e: "(if ok then data_and_fin s now tcp ce else Some s) = Some self'"
      using acc by (auto simp: on_acceptable_def bind_Some_iff)
    note p = ack_step_path[OF keep(3) \<open>t_state ?s \<noteq> SynSent\<close> a]
    show ?thesis
    proof (cases ok)
      case True
      then have "rfc793_path (t_state s) (t_state self')" using e data_and_fin_path by simp
      then show ?thesis using p True keep(1) by (auto intro: rtranclp_trans)
    next
      case False
      then show ?thesis using p e keep by auto
    qed
  qed auto
qed

section \<open>Transmission and timers\<close>

lemma build_state: "build self seq extra payload = Some (frame, s) \<Longrightarrow> t_state s = t_state self"
  by (auto simp: build_def advertised_window_def Let_def bind_Some_iff split: prod.splits)

lemma emit_state:
  assumes "emit (build self seq extra payload) after = Some (out, s)"
  shows "\<exists>b. t_state b = t_state self \<and> s = after b \<and> out \<noteq> None"
  using assms build_state by (fastforce simp: emit_def)

text \<open>A step moves the state only by sending the FIN.\<close>

definition fin_move :: "tcb \<Rightarrow> emission \<Rightarrow> bool" where
  "fin_move self em \<longleftrightarrow> (\<forall>out s. em = Some (out, s) \<longrightarrow> t_state s = t_state self
     \<or> (out \<noteq> None \<and> rfc793 (t_state self) (t_state s) \<and> t_state s \<in> {FinWait1, LastAck}))"

lemma fin_move_emit:
  "(\<And>b. t_state (after b) = t_state b) \<Longrightarrow> fin_move self (emit (build self seq extra payload) after)"
  unfolding fin_move_def using emit_state by metis

lemma fin_move_none: "t_state s = t_state self \<Longrightarrow> fin_move self (Some (None, s))"
  by (simp add: fin_move_def)

lemma fin_move_from: "t_state a = t_state b \<Longrightarrow> fin_move a em = fin_move b em"
  by (simp add: fin_move_def)

lemma fin_move_or_else:
  assumes "fin_move self first" and "\<And>s. t_state s = t_state self \<Longrightarrow> fin_move s (rest s)"
  shows "fin_move self (or_else first rest)"
proof (cases first)
  case None
  then show ?thesis by (simp add: or_else_def fin_move_def)
next
  case (Some p)
  obtain out s where p: "p = (out, s)" by (cases p)
  show ?thesis
  proof (cases out)
    case None
    then have "t_state s = t_state self" using assms(1) Some p by (simp add: fin_move_def)
    moreover have "or_else first rest = rest s" using Some p None by (simp add: or_else_def)
    ultimately show ?thesis using assms(2) fin_move_from by metis
  next
    case (Some f)
    then have "or_else first rest = first" using \<open>first = Some p\<close> p by (simp add: or_else_def)
    then show ?thesis using assms(1) by simp
  qed
qed

lemma fin_move_if: "(b \<Longrightarrow> fin_move s x) \<Longrightarrow> (\<not> b \<Longrightarrow> fin_move s y) \<Longrightarrow> fin_move s (if b then x else y)"
  by simp

lemma state_steps:
  "t_state (start_rtx self now) = t_state self" "t_state (arm_persist self now) = t_state self"
  "t_state (snd (pace_allowance self now rate mp)) = t_state self" "t_state (arm_pace self now rate a) = t_state self"
  by (simp_all add: start_rtx_def arm_persist_def pace_allowance_def arm_pace_def Let_def)

lemma sent_new_data_state: "t_state (sent_new_data self now n inflight al) = t_state self"
  by (simp add: sent_new_data_def Let_def state_steps)

lemma transmit_oldest_move: "fin_move self (transmit_oldest self now inflight)"
proof (cases "t_retransmit self \<and> 0 < inflight")
  case True
  let ?s = "self\<lparr>t_retransmit := False\<rparr>"
  have e: "fin_move ?s (emit (build ?s q f p) (\<lambda>x. start_rtx x now))" for q f p
    by (rule fin_move_emit) (simp add: state_steps)
  have "fin_move ?s (transmit_oldest self now inflight)"
    unfolding transmit_oldest_run[OF True[THEN conjunct1] True[THEN conjunct2] refl refl]
    using e fin_move_none[OF refl, of ?s] by (auto split: option.split)
  then show ?thesis using fin_move_from[of ?s self] by simp
next
  case False
  then have "transmit_oldest self now inflight = Some (None, self)" by (simp only: transmit_oldest_def if_False)
  then show ?thesis using fin_move_none[OF refl] by simp
qed

lemma transmit_hole_move: "fin_move self (transmit_hole self now max_payload)"
proof -
  have e: "fin_move self (emit (build self q f p) (\<lambda>s. start_rtx (s\<lparr>t_scoreboard := g s, t_retransmitted := True,
      t_rtt_sample := None\<rparr>) now))" for q f p g
    by (rule fin_move_emit) (simp add: state_steps)
  show ?thesis
    unfolding transmit_hole_def Let_def
    by (intro fin_move_if fin_move_none[OF refl]) (auto intro!: e fin_move_none split: option.split)
qed

lemma transmit_new_move: "fin_move self (transmit_new self now inflight max_payload)"
proof -
  define room where "room = min (cc_cwnd (t_cc self) - tx_pipe self inflight) (t_snd_wnd self - inflight)"
  define unsent where "unsent = rb_len (t_tx self) - min inflight (rb_len (t_tx self))"
  obtain a s where g: "pace_gate self now room unsent max_payload = (a, s)" by fastforce
  have st: "t_state s = t_state self" using pace_gate_quiet(1)[OF g] by (simp add: quiet_view_def send_view_def)
  have e: "fin_move s (emit (build s q f p) (\<lambda>x. sent_new_data x now k i al))" for q f p k i al
    by (rule fin_move_emit) (rule sent_new_data_state)
  let ?p = "(arm_persist s now)\<lparr>t_send_probe := False\<rparr>"
  have p: "fin_move s (emit (build ?p q f y) id)" for q f y
    using fin_move_emit[of id ?p q f y] fin_move_from[of ?p s] by (simp add: state_steps)
  have "fin_move s (transmit_new self now inflight max_payload)"
    unfolding transmit_new_def Let_def unsent_def[symmetric] room_def[symmetric] g split_conv
    by (intro fin_move_if e p fin_move_none refl) (simp_all add: state_steps)
  then show ?thesis using fin_move_from[OF st] by simp
qed

lemma transmit_fin_move:
  assumes "t_state self \<in> {Established, CloseWait, FinWait1, FinWait2, Closing, LastAck}"
  shows "fin_move self (transmit_fin self now data_end)"
proof (cases "t_fin_queued self \<and> \<not> t_fin_acked self \<and> t_snd_nxt self = data_end")
  case True
  then show ?thesis
    using assms emit_state[of self data_end FIN "[]"] rfc793.close_sends_fin rfc793.close_after_fin
    by (fastforce simp: transmit_fin_def fin_move_def Let_def state_steps)
next
  case False
  then have "transmit_fin self now data_end = Some (None, self)" by (simp only: transmit_fin_def if_False)
  then show ?thesis using fin_move_none[OF refl] by simp
qed

lemma transmit_owed_ack_move: "fin_move self (transmit_owed_ack self)"
proof -
  let ?s = "self\<lparr>t_needs_ack := False\<rparr>"
  have "fin_move ?s (emit (build ?s (t_snd_nxt ?s) 0 []) id)" by (rule fin_move_emit) simp
  then show ?thesis using fin_move_from[of ?s self] fin_move_none[of ?s self]
    by (cases "t_needs_ack self") (simp_all add: transmit_owed_ack_def take_needs_ack_def)
qed

lemma poll_transmit_move: "fin_move self (poll_transmit self now)"
proof -
  define s where "s = self\<lparr>t_cur_tsval := word_of_nat now\<rparr>"
  have st: "t_state s = t_state self" by (simp add: s_def)
  have "fin_move s (poll_transmit self now)"
  proof (cases "t_pending_reset self")
    case (Some seq)
    then show ?thesis by (auto simp: poll_transmit_def fin_move_def s_def Let_def bind_Some_iff)
  next
    case None
    have run: "poll_transmit self now = (case t_state s of Closed \<Rightarrow> Some (None, s) | Listen \<Rightarrow> Some (None, s)
        | SynSent \<Rightarrow> transmit_syn_sent s now | SynReceived \<Rightarrow> transmit_syn_received s now
        | TimeWait \<Rightarrow> transmit_owed_ack s | _ \<Rightarrow> or_else (transmit_data_or_fin s now) transmit_owed_ack)"
      unfolding poll_transmit_def Let_def s_def by (simp add: None)
    have d: "fin_move s (or_else (transmit_data_or_fin s now) transmit_owed_ack)"
      if "t_state s \<in> {Established, CloseWait, FinWait1, FinWait2, Closing, LastAck}"
      unfolding transmit_data_or_fin_def Let_def
      by (intro fin_move_or_else transmit_oldest_move transmit_hole_move transmit_new_move transmit_owed_ack_move
          transmit_fin_move) (use that in simp)
    have h: "fin_move s (transmit_syn_sent s now)"
      by (auto simp: transmit_syn_sent_def fin_move_def bind_Some_iff state_steps)
    let ?r = "s\<lparr>t_retransmit := False\<rparr>"
    have "fin_move s (emit (build s q f p) (\<lambda>x. start_rtx (x\<lparr>t_snd_nxt := g x\<rparr>) now))" for q f p g
      by (rule fin_move_emit) (simp add: state_steps)
    moreover have "fin_move s (emit (build ?r q f p) id)" for q f p
      using fin_move_emit[of id ?r q f p] fin_move_from[of ?r s] by simp
    ultimately have r: "fin_move s (transmit_syn_received s now)"
      unfolding transmit_syn_received_def by (intro fin_move_if transmit_owed_ack_move)
    show ?thesis unfolding run using d h r transmit_owed_ack_move[of s] fin_move_none[OF refl, of s]
      by (cases "t_state s") simp_all
  qed
  then show ?thesis using fin_move_from[OF st] by simp
qed

lemma timer_rtx_cases:
  "timer_rtx self now = Some s \<Longrightarrow>
    s = self \<or> rto_fired self now = Some s \<or> (rto_syn_sent self now = Some s \<and> t_state self = SynSent)"
  unfolding timer_rtx_def by (auto split: option.splits if_splits)

lemma rto_fired_state:
  assumes "rto_fired self now = Some s"
  shows "t_state s = t_state self \<and> t_time_wait_deadline s = t_time_wait_deadline self"
proof -
  obtain r where "rtt_on_timeout (t_rtt self) = Some r" using assms by (auto simp: rto_fired_def bind_Some_iff)
  then show ?thesis using assms by (cases "t_sack_enabled self") (auto simp: rto_fired_def Let_def restart_rtx_def)
qed

lemma rto_syn_sent_state:
  "rto_syn_sent self now = Some s \<Longrightarrow> (t_state s = t_state self \<and> t_time_wait_deadline s = t_time_wait_deadline self)
    \<or> (t_state s = Closed \<and> MAX_SYN_RETRIES \<le> t_syn_retries self + 1)"
  by (auto simp: rto_syn_sent_def Let_def restart_rtx_def bind_Some_iff split: if_splits)

lemma timer_rtx_state:
  assumes "timer_rtx self now = Some s"
  shows "(t_state s = t_state self \<and> t_time_wait_deadline s = t_time_wait_deadline self)
    \<or> (t_state s = Closed \<and> t_state self = SynSent \<and> MAX_SYN_RETRIES \<le> t_syn_retries self + 1)"
  using timer_rtx_cases[OF assms]
proof (elim disjE conjE)
  assume "rto_fired self now = Some s"
  then show ?thesis using rto_fired_state by simp
next
  assume "rto_syn_sent self now = Some s" "t_state self = SynSent"
  then show ?thesis using rto_syn_sent_state[of self now s] by simp
qed simp

lemma timer_tail_state:
  "t_state (timer_delayed_ack (timer_time_wait (timer_persist s now) now) now) =
    (case t_time_wait_deadline s of Some d \<Rightarrow> if d \<le> now then Closed else t_state s | None \<Rightarrow> t_state s)"
proof -
  have "t_time_wait_deadline (timer_persist s now) = t_time_wait_deadline s" "t_state (timer_persist s now) = t_state s"
    by (simp_all add: timer_persist_def Let_def split: option.split)
  then show ?thesis by (simp add: timer_delayed_ack_def timer_time_wait_def split: option.split)
qed

lemma on_timer_state:
  assumes "tcb_on_timer self now = Some s"
  shows "t_state s = t_state self \<or> (t_state s = Closed
    \<and> ((t_state self = SynSent \<and> MAX_SYN_RETRIES \<le> t_syn_retries self + 1)
       \<or> (\<exists>d. t_time_wait_deadline self = Some d \<and> d \<le> now)))"
proof -
  obtain r where r: "timer_rtx self now = Some r"
    "s = timer_delayed_ack (timer_time_wait (timer_persist r now) now) now"
    using assms by (auto simp: tcb_on_timer_def)
  show ?thesis
    using timer_rtx_state[OF r(1)] unfolding r(2) timer_tail_state by (auto split: option.splits if_splits)
qed

end
