(* ===== verification/Receive_Stream.thy ===== *)
theory Receive_Stream
  imports Send_Stream State_Diagram
begin

text \<open>
  The receiver of a peer that runs this code: how far it has come in the stream the peer's
  application has written, and what its FIN state says about the end of that stream.
\<close>

section \<open>Where a FIN comes from\<close>

lemma receive_data_fin:
  assumes "receive_data self now seq payload ce = Some self'"
  shows "t_peer_fin_seen self' = t_peer_fin_seen self" "t_pending_fin self' = t_pending_fin self"
proof -
  have "t_peer_fin_seen self' = t_peer_fin_seen self \<and> t_pending_fin self' = t_pending_fin self"
  proof (cases "payload = []")
    case False
    obtain data_seq dat where t: "trim_left (t_rcv_nxt self) seq payload = (data_seq, dat)" by fastforce
    obtain io nr s1 where a: "accept_data self data_seq dat = Some (io, nr, s1)"
      using assms t False by (auto simp: receive_data_def Let_def bind_Some_iff)
    have "t_peer_fin_seen s1 = t_peer_fin_seen self \<and> t_pending_fin s1 = t_pending_fin self"
      using a unfolding accept_data_def Let_def
      by (auto simp: bind_Some_iff split: if_splits prod.splits)
    moreover have "recv_view self' = recv_view s1"
      using assms t a False by (auto simp: receive_data_def Let_def)
    ultimately show ?thesis by (simp add: recv_view_def)
  qed (use assms in \<open>simp add: receive_data_def\<close>)
  then show "t_peer_fin_seen self' = t_peer_fin_seen self" "t_pending_fin self' = t_pending_fin self" by simp_all
qed

text \<open>A segment's FIN is announced at the sequence number after its data.\<close>

definition announces_fin :: "tcb \<Rightarrow> bytes \<Rightarrow> seqnum \<Rightarrow> bool" where
  "announces_fin self tcp f \<longleftrightarrow> t_pending_fin self = Some f
     \<or> flag_has (tcp_flags_of tcp) FIN \<and> f = seq_add (tcp_seq tcp) (length (tcp_payload tcp))"

definition fin_traced :: "tcb \<Rightarrow> bytes \<Rightarrow> tcb \<Rightarrow> bool" where
  "fin_traced self tcp self' \<longleftrightarrow>
     (\<forall>f. t_pending_fin self' = Some f \<longrightarrow> announces_fin self tcp f)
     \<and> (t_peer_fin_seen self' \<longrightarrow> t_peer_fin_seen self \<or> (\<exists>f. announces_fin self tcp f \<and> t_rcv_nxt self' = seq_add f 1))"

lemma fin_traced_quiet: "recv_view self' = recv_view self \<Longrightarrow> fin_traced self tcp self'"
  by (simp add: fin_traced_def announces_fin_def recv_view_def)

lemma fin_traced_view:
  "recv_view a = recv_view b \<Longrightarrow> fin_traced a tcp x = fin_traced b tcp x"
  "recv_view x = recv_view y \<Longrightarrow> fin_traced a tcp x = fin_traced a tcp y"
  by (simp_all add: fin_traced_def announces_fin_def recv_view_def)

lemma data_and_fin_traced:
  assumes "data_and_fin self now tcp ce = Some self'"
  shows "fin_traced self tcp self'"
proof -
  obtain s1 where s1: "receive_data self now (tcp_seq tcp) (tcp_payload tcp) ce = Some s1"
    using assms by (auto simp: data_and_fin_def bind_Some_iff)
  note f = receive_data_fin[OF s1]
  define s2 where "s2 = (if flag_has (tcp_flags_of tcp) FIN
      then receive_fin s1 (seq_add (tcp_seq tcp) (length (tcp_payload tcp))) else s1)"
  have "fin_traced self tcp s2"
    using f unfolding s2_def fin_traced_def announces_fin_def receive_fin_def Let_def by (auto split: if_split)
  then have "fin_traced self tcp (consume_pending_fin s2)"
    unfolding fin_traced_def consume_pending_fin_def by (auto split: option.split)
  moreover have "self' = recompute_closing_state (consume_pending_fin s2) now"
    using assms s1 by (simp add: data_and_fin_def s2_def)
  ultimately show ?thesis using fin_traced_view(2)[OF recv_view_steps(10)] by simp
qed

lemma on_segment_traced:
  assumes inv: "tcb_inv n self" and st: "t_state self \<noteq> SynSent" and run: "on_segment ov self now tcp ce = Some self'"
  shows "fin_traced self tcp self'"
proof -
  define ts where "ts = (if t_ts_enabled self then timestamps tcp else None)"
  consider (quiet) "recv_view self' = recv_view self"
    | (acc) "flag_has (tcp_flags_of tcp) ACK" "on_acceptable (advance_ts_recent self (tcp_seq tcp) ts) now tcp ts ce = Some self'"
  proof -
    have v: "recv_view (on_rst self now s) = recv_view self" "recv_view (on_syn self now s) = recv_view self" for s
      by (simp_all add: on_rst_def on_syn_def) (simp_all add: recv_view_def)
    show ?thesis
      using run st v that
      by (auto simp: on_segment_def Let_def ts_def[symmetric] on_acceptable_def split: if_splits)
  qed
  then show ?thesis
  proof cases
    case quiet
    then show ?thesis by (rule fin_traced_quiet)
  next
    case acc
    let ?s = "advance_ts_recent self (tcp_seq tcp) ts"
    have st': "t_state ?s \<noteq> SynSent" using st by (simp add: advance_ts_recent_def split: option.split)
    obtain ok s where a: "ack_step ?s now tcp (map_option snd ts) = Some (ok, s)" "recv_view s = recv_view ?s"
      using ack_step_ok[of n ?s now tcp "map_option snd ts"] inv st' by auto
    have rv: "recv_view s = recv_view self" using a(2) by simp
    have "(if ok then data_and_fin s now tcp ce else Some s) = Some self'" using acc a(1) by (simp add: on_acceptable_def)
    then have "fin_traced s tcp self'" using data_and_fin_traced[of s now tcp ce self'] fin_traced_quiet[OF refl, of s tcp] by (cases ok) auto
    then show ?thesis using fin_traced_view(1)[OF rv] by simp
  qed
qed

section \<open>The peer's stream and the sequence numbers\<close>

lemma offset_base: "a < 4294967296 \<Longrightarrow> offset_from (seq_add x a) x = a"
  using offset_from_add[of x x a] by simp

lemma offset_positions:
  assumes "a < 4294967296" and "b < 4294967296"
  shows "offset_from (seq_add x a) (seq_add x b) = (if b \<le> a then a - b else a + 4294967296 - b)"
  using offset_from_rebase[of "seq_add x a" "seq_add x b" x] offset_base assms by simp

lemma lt_positions:
  assumes "a < 1073741824" and "b < 1073741824"
  shows "seq_lt (seq_add x a) (seq_add x b) \<longleftrightarrow> a < b"
proof -
  have "a < 4294967296" "b < 4294967296" using assms by simp_all
  from offset_positions[OF this, of x] show ?thesis unfolding seq_lt_offset using assms by (auto split: if_splits)
qed

lemma position_inj:
  assumes "seq_add x a = seq_add x b" and "a < 4294967296" and "b < 4294967296"
  shows "a = b"
proof -
  have "offset_from (seq_add x a) x = offset_from (seq_add x b) x" by (rule arg_cong[OF assms(1)])
  then show ?thesis unfolding offset_base[OF assms(2)] offset_base[OF assms(3)] .
qed

text \<open>Streams that start with \<open>W\<close>: what a segment of \<open>W\<close> carries is in all of them.\<close>

definition extends :: "(nat \<Rightarrow> u8) \<Rightarrow> bytes \<Rightarrow> bool" where
  "extends S W \<longleftrightarrow> (\<forall>k < length W. S k = W ! k)"

definition pad_stream :: "bytes \<Rightarrow> u8 \<Rightarrow> nat \<Rightarrow> u8" where
  "pad_stream W c k = (if k < length W then W ! k else c)"

lemma pad_extends: "extends (pad_stream W c) W"
  by (simp add: extends_def pad_stream_def)

lemma extends_append: "extends S (W @ X) \<Longrightarrow> extends S W"
  by (simp add: extends_def nth_append)

lemma extends_piece: "extends S W \<Longrightarrow> a + n \<le> length W \<Longrightarrow> take n (drop a W) = map S [a ..< a + n]"
  by (intro nth_equalityI) (auto simp: extends_def)

text \<open>What agrees with every extension lies inside \<open>W\<close>.\<close>

lemma pads_agree:
  assumes "map (pad_stream W 0) [p ..< p + m] = map (pad_stream W 1) [p ..< p + m]" and "p \<le> length W"
  shows "p + m \<le> length W"
proof (cases m)
  case (Suc k)
  have "pad_stream W 0 (p + k) = pad_stream W 1 (p + k)"
    using arg_cong[OF assms(1), of "\<lambda>xs. xs ! k"] Suc by (simp del: upt_Suc)
  then show ?thesis using Suc by (simp add: pad_stream_def split: if_splits)
qed (use assms(2) in simp)

section \<open>How far a connection has come in its peer's stream\<close>

text \<open>Before the peer's SYN nothing has been received, and nothing can be.\<close>

definition unsynced :: "tcb \<Rightarrow> bool" where
  "unsynced self \<longleftrightarrow> t_state self \<in> {SynSent, Closed} \<and> t_rcv_adv self = t_rcv_nxt self \<and> rb_buf (t_rx self) = []
     \<and> reasm_runs (t_reasm self) = [] \<and> \<not> t_peer_fin_seen self \<and> t_pending_fin self = None"

text \<open>After it, \<open>p\<close> bytes have come in order; the FIN is known only where the peer has put it.\<close>

definition in_stream :: "bytes \<Rightarrow> seqnum \<Rightarrow> bool \<Rightarrow> tcb \<Rightarrow> bytes \<Rightarrow> nat \<Rightarrow> bool" where
  "in_stream W iss fin self got p \<longleftrightarrow> p \<le> length W \<and> got @ rb_buf (t_rx self) = take p W
     \<and> t_rcv_nxt self = seq_add iss (1 + p + (if t_peer_fin_seen self then 1 else 0))
     \<and> (if t_peer_fin_seen self then fin \<and> p = length W else \<forall>S. extends S W \<longrightarrow> holds_stream S p self)
     \<and> (\<forall>f. t_pending_fin self = Some f \<longrightarrow> fin \<and> f = seq_add iss (1 + length W))"

definition hears :: "bytes \<Rightarrow> seqnum \<Rightarrow> bool \<Rightarrow> tcb \<Rightarrow> bytes \<Rightarrow> bool" where
  "hears W iss fin self got \<longleftrightarrow> unsynced self \<and> got = []
     \<or> t_state self \<noteq> SynSent \<and> (\<exists>p. in_stream W iss fin self got p)"

lemma in_stream_later:
  assumes "in_stream W iss fin self got p" and "fin \<Longrightarrow> fin' \<and> X = []"
  shows "in_stream (W @ X) iss fin' self got p"
  using assms extends_append[of _ W X] unfolding in_stream_def by (auto split: if_splits)

lemma hears_later: "hears W iss fin self got \<Longrightarrow> (fin \<Longrightarrow> fin' \<and> X = []) \<Longrightarrow> hears (W @ X) iss fin' self got"
  unfolding hears_def using in_stream_later by blast

text \<open>A step that touches no more of the receive side than the advertised edge.\<close>

definition recv_same :: "tcb \<Rightarrow> tcb \<Rightarrow> bool" where
  "recv_same a b \<longleftrightarrow> t_rcv_nxt a = t_rcv_nxt b \<and> t_rx a = t_rx b \<and> t_reasm a = t_reasm b
     \<and> t_peer_fin_seen a = t_peer_fin_seen b \<and> t_pending_fin a = t_pending_fin b"

lemma in_stream_same: "recv_same a b \<Longrightarrow> in_stream W iss fin a got p = in_stream W iss fin b got p"
  by (simp add: recv_same_def in_stream_def holds_stream_def)

lemma hears_same:
  assumes "hears W iss fin self got" and "recv_same self' self"
    and "t_state self \<in> {SynSent, Closed} \<Longrightarrow> t_state self' \<in> {SynSent, Closed} \<and> t_rcv_adv self' = t_rcv_adv self"
    and "t_state self' = SynSent \<Longrightarrow> t_state self = SynSent"
  shows "hears W iss fin self' got"
proof -
  have "unsynced self'" if "unsynced self"
    using that assms(2,3) by (simp add: unsynced_def recv_same_def)
  then show ?thesis using assms(1,4) in_stream_same[OF assms(2)] unfolding hears_def by auto
qed

lemma recv_view_same: "recv_view a = recv_view b \<Longrightarrow> recv_same a b \<and> t_rcv_adv a = t_rcv_adv b"
  by (simp add: recv_view_def recv_same_def)

section \<open>A segment of the peer\<close>

lemma wire_near:
  assumes w: "on_wire W iss fin tcp" "\<not> flag_has (tcp_flags_of tcp) RST" and sz: "length W + 2 < 1073741824"
    and h: "hears W iss fin self got"
  shows "legal_segment self tcp"
proof -
  obtain k where k: "k \<le> length W + 2" "tcp_seq tcp = seq_add iss k" using w by (auto simp: on_wire_def)
  have "seg_near self (tcp_seq tcp)" if "t_state self \<noteq> SynSent"
  proof -
    from h that consider (un) "t_rcv_adv self = t_rcv_nxt self" | (str) p where "in_stream W iss fin self got p"
      by (auto simp: hears_def unsynced_def)
    then show ?thesis
    proof cases
      case un
      then show ?thesis by (simp add: seg_near_def)
    next
      case (str p)
      define j where "j = 1 + p + (if t_peer_fin_seen self then 1 else (0::nat))"
      have j: "t_rcv_nxt self = seq_add iss j" "j \<le> length W + 2" using str by (auto simp: in_stream_def j_def)
      have "k < 4294967296" "j < 4294967296" using k j sz by linarith+
      then have "offset_from (tcp_seq tcp) (t_rcv_nxt self) = (if j \<le> k then k - j else k + 4294967296 - j)"
        unfolding k(2) j(1) by (rule offset_positions)
      then show ?thesis using k(1) j(2) sz by (auto simp: seg_near_def)
    qed
  qed
  then show ?thesis using w(1) by (auto simp: legal_segment_def on_wire_def)
qed

lemma wire_brings:
  assumes w: "on_wire W iss fin tcp" "\<not> flag_has (tcp_flags_of tcp) RST" and sz: "length W + 2 < 1073741824"
    and n: "t_rcv_nxt self = seq_add iss (1 + p)" "p \<le> length W" and S: "extends S W"
  shows "brings_stream S p (t_rcv_nxt self) tcp"
proof (cases "tcp_payload tcp = []")
  case False
  define l where "l = length (tcp_payload tcp)"
  obtain k where k: "0 < k" "k - 1 + l \<le> length W" "tcp_seq tcp = seq_add iss k" "tcp_payload tcp = take l (drop (k - 1) W)"
    using w False unfolding on_wire_def l_def by blast
  have b: "k < 1073741824" "1 + p < 1073741824" using k n(2) sz by linarith+
  then have b': "k < 4294967296" "1 + p < 4294967296" by simp_all
  have lt: "seq_lt (tcp_seq tcp) (t_rcv_nxt self) \<longleftrightarrow> k < 1 + p" unfolding k(3) n(1) by (rule lt_positions[OF b])
  have o: "offset_from (t_rcv_nxt self) (tcp_seq tcp) = (if k \<le> 1 + p then 1 + p - k else 1 + p + 4294967296 - k)"
    "offset_from (tcp_seq tcp) (t_rcv_nxt self) = (if 1 + p \<le> k then k - (1 + p) else k + 4294967296 - (1 + p))"
    unfolding k(3) n(1) by (rule offset_positions[OF b'(2,1)], rule offset_positions[OF b'])
  have "tcp_payload tcp = map S [k - 1 ..< k - 1 + l]" using extends_piece[OF S k(2)] k(4) by simp
  then have "carries_stream S p (t_rcv_nxt self) (tcp_seq tcp) (tcp_payload tcp)"
    unfolding carries_stream_def lt o using k(1) by (intro exI[of _ "k - 1"]) (auto simp: l_def)
  then show ?thesis by (simp add: brings_stream_def)
qed (simp add: brings_stream_def)

lemma wire_repeats:
  assumes w: "on_wire W iss fin tcp" "\<not> flag_has (tcp_flags_of tcp) RST" and sz: "length W + 2 < 1073741824"
    and n: "t_rcv_nxt self = seq_add iss (2 + length W)"
  shows "no_new_data self tcp"
proof (cases "tcp_payload tcp = []")
  case False
  define l where "l = length (tcp_payload tcp)"
  obtain k where k: "0 < k" "k - 1 + l \<le> length W" "tcp_seq tcp = seq_add iss k"
    using w False by (auto simp: on_wire_def l_def)
  have b: "k < 1073741824" "2 + length W < 1073741824" using k sz by linarith+
  then have b': "k < 4294967296" "2 + length W < 4294967296" by simp_all
  have "seq_lt (tcp_seq tcp) (t_rcv_nxt self)" unfolding k(3) n lt_positions[OF b] using k(1,2) by linarith
  moreover have "offset_from (t_rcv_nxt self) (tcp_seq tcp) = (if k \<le> 2 + length W then 2 + length W - k else 2 + length W + 4294967296 - k)"
    unfolding k(3) n by (rule offset_positions[OF b'(2,1)])
  moreover have "k \<le> 2 + length W" "l \<le> 2 + length W - k" using k(1,2) by linarith+
  ultimately show ?thesis by (simp add: no_new_data_def l_def)
qed (simp add: no_new_data_def)

lemma announced_fin:
  assumes w: "on_wire W iss fin tcp" "\<not> flag_has (tcp_flags_of tcp) RST"
    and p: "\<And>f. t_pending_fin self = Some f \<Longrightarrow> fin \<and> f = seq_add iss (1 + length W)"
    and a: "announces_fin self tcp f"
  shows "fin \<and> f = seq_add iss (1 + length W)"
  using a p w unfolding announces_fin_def on_wire_def by (auto simp: seq_add_def)

lemma holds_two:
  assumes "in_stream W iss fin self got p" and "\<not> t_peer_fin_seen self" and "extends S W"
  shows "holds_stream S p self"
  using assms by (simp add: in_stream_def)

text \<open>After the peer's SYN, a segment moves the connection along the stream.\<close>

lemma in_stream_segment:
  assumes inv: "tcb_inv n self" and st: "t_state self \<noteq> SynSent" and i: "in_stream W iss fin self got p"
    and w: "on_wire W iss fin tcp" "\<not> flag_has (tcp_flags_of tcp) RST" and sz: "length W + 2 < 1073741824"
    and legal: "legal_segment self tcp" and run: "on_segment ov self now tcp ce = Some self'"
  shows "\<exists>p'. in_stream W iss fin self' got p'"
proof -
  have i': "p \<le> length W" "got @ rb_buf (t_rx self) = take p W"
    "t_rcv_nxt self = seq_add iss (1 + p + (if t_peer_fin_seen self then 1 else 0))"
    "\<And>f. t_pending_fin self = Some f \<Longrightarrow> fin \<and> f = seq_add iss (1 + length W)" using i by (simp_all add: in_stream_def)
  note tr = on_segment_traced[OF inv st run]
  have pend: "\<forall>f. t_pending_fin self' = Some f \<longrightarrow> fin \<and> f = seq_add iss (1 + length W)"
    using tr announced_fin[OF w i'(4), of self] unfolding fin_traced_def by blast
  show ?thesis
  proof (cases "t_peer_fin_seen self")
    case True
    then have f: "fin" "p = length W" using i by (simp_all add: in_stream_def)
    have "t_rcv_nxt self = seq_add iss (2 + length W)" using i'(3) True f(2) by simp
    from wire_repeats[OF w sz this] have "no_new_data self tcp" .
    from on_segment_closed[OF inv st this True run]
    have "in_stream W iss fin self' got p" using i i' True f pend by (simp add: in_stream_def)
    then show ?thesis by blast
  next
    case False
    then have r: "t_rcv_nxt self = seq_add iss (1 + p)" using i'(3) by simp
    have d: "\<exists>m. delivered self self' S p m" if S: "extends S W" for S
      by (rule on_segment_delivers[OF inv legal st False holds_two[OF i False S] wire_brings[OF w sz r i'(1) S] run])
    obtain m where m: "delivered self self' (pad_stream W 0) p m" using d[OF pad_extends] by blast
    have len: "delivered self self' S p m" if S: "extends S W" for S
    proof -
      obtain m' where m': "delivered self self' S p m'" using d[OF S] by blast
      have "length (rb_buf (t_rx self')) = length (rb_buf (t_rx self)) + m"
        "length (rb_buf (t_rx self')) = length (rb_buf (t_rx self)) + m'"
        using m m' unfolding delivered_def by (metis length_append length_map length_upt add_diff_cancel_left')+
      then have "m' = m" by linarith
      then show ?thesis using m' by simp
    qed
    have "map (pad_stream W 0) [p ..< p + m] = map (pad_stream W 1) [p ..< p + m]"
      using m len[OF pad_extends, of 1] by (simp add: delivered_def)
    then have pm: "p + m \<le> length W" by (rule pads_agree[OF _ i'(1)])
    have "rb_buf (t_rx self') = rb_buf (t_rx self) @ take m (drop p W)"
      using m extends_piece[OF pad_extends pm] by (simp add: delivered_def)
    then have buf: "got @ rb_buf (t_rx self') = take (p + m) W" using i'(2) by (simp add: take_add)
    have rn: "t_rcv_nxt self' = seq_add iss (1 + (p + m) + (if t_peer_fin_seen self' then 1 else 0))"
      using m unfolding delivered_def r seq_add_add by (simp add: add.assoc)
    have seen: "fin \<and> p + m = length W" if h: "t_peer_fin_seen self'"
    proof -
      obtain f where f: "announces_fin self tcp f" "t_rcv_nxt self' = seq_add f 1" using tr h False unfolding fin_traced_def by blast
      have a: "fin \<and> f = seq_add iss (1 + length W)" by (rule announced_fin[OF w i'(4) f(1)])
      have "seq_add iss (2 + (p + m)) = seq_add iss (2 + length W)" using rn f(2) a h by (simp add: seq_add_add)
      then have "2 + (p + m) = 2 + length W" by (rule position_inj) (use pm sz in linarith)+
      then show ?thesis using a by simp
    qed
    have "holds_stream S (p + m) self'" if "\<not> t_peer_fin_seen self'" "extends S W" for S
      using len[OF that(2)] that(1) by (simp add: delivered_def)
    then have "in_stream W iss fin self' got (p + m)"
      unfolding in_stream_def using pm buf rn seen pend by (cases "t_peer_fin_seen self'") simp_all
    then show ?thesis by blast
  qed
qed

text \<open>Before it, only the SYN synchronizes; a closed connection stays as it is.\<close>

lemma syn_sent_hears:
  assumes st: "t_state self = SynSent" and u: "unsynced self"
    and w: "on_wire W iss fin tcp" "\<not> flag_has (tcp_flags_of tcp) RST" and run: "on_segment ov self now tcp ce = Some self'"
  shows "hears W iss fin self' []"
proof -
  have e: "self' = on_segment_syn_sent ov self tcp" using st run by (simp add: on_segment_def)
  consider (syn) acc where "flag_has (tcp_flags_of tcp) SYN" "self' = syn_sent_syn ov self tcp acc" | (quiet) "t_state self' = SynSent" "recv_view self' = recv_view self"
    using e w(2) st unfolding on_segment_syn_sent_def Let_def by (auto simp: recv_view_def split: if_splits)
  then show ?thesis
  proof cases
    case (syn acc)
    define x where "x = syn_sent_syn ov self tcp acc"
    have f: "t_pending_fin (negotiate ov y tcp) = t_pending_fin y" for y by (simp add: negotiate_def Let_def split: option.split)
    have x: "t_state x \<noteq> SynSent" "t_rcv_nxt x = seq_add (tcp_seq tcp) 1" "t_rx x = t_rx self" "t_reasm x = t_reasm self"
      "\<not> t_peer_fin_seen x" "t_pending_fin x = None"
      using u by (simp_all add: x_def syn_sent_syn_def Let_def negotiate_fields f unsynced_def)
    have "tcp_seq tcp = iss" using w syn(1) by (auto simp: on_wire_def seq_add_def)
    moreover have "holds_stream S 0 x" for S using x(4) u by (simp add: holds_stream_def reasm_held_def unsynced_def)
    ultimately have "in_stream W iss fin x [] 0" using x u by (simp add: in_stream_def unsynced_def)
    then show ?thesis using x(1) unfolding hears_def syn(2) x_def[symmetric] by blast
  next
    case quiet
    then show ?thesis using u by (simp add: hears_def unsynced_def recv_view_def)
  qed
qed

lemma closed_hears:
  assumes inv: "tcb_inv n self" and st: "t_state self = Closed" and u: "unsynced self"
    and run: "on_segment ov self now tcp ce = Some self'"
  shows "unsynced self'"
proof -
  have un: "unsynced self'" if "recv_view self' = recv_view self" "t_state self' = Closed"
    using u that by (simp add: unsynced_def recv_view_def)
  define ts where "ts = (if t_ts_enabled self then timestamps tcp else None)"
  consider (quiet) "recv_view self' = recv_view self" "t_state self' = Closed"
    | (acc) "flag_has (tcp_flags_of tcp) ACK" "segment_acceptable self (tcp_seq tcp) (seg_len tcp)"
       "on_acceptable (advance_ts_recent self (tcp_seq tcp) ts) now tcp ts ce = Some self'"
  proof -
    have v: "recv_view (on_rst self now s) = recv_view self" "recv_view (on_syn self now s) = recv_view self"
      "t_state (on_rst self now s) = Closed" "t_state (on_syn self now s) = Closed" for s
      using st by (simp_all add: on_rst_def on_syn_def challenge_ack_def Let_def) (simp_all add: recv_view_def)
    have a: "t_state (advance_ts_recent self s ts') = Closed" for s ts' using st by (simp add: advance_ts_recent_def split: option.split)
    show ?thesis
      using run st v a that
      by (auto simp: on_segment_def Let_def ts_def[symmetric] on_acceptable_def split: if_splits)
  qed
  then show ?thesis
  proof cases
    case quiet
    then show ?thesis by (rule un)
  next
    case acc
    have "seg_len tcp = 0" using acc(2) u by (simp add: segment_acceptable_def unsynced_def split: bool.splits)
    then have z: "tcp_payload tcp = []" "\<not> flag_has (tcp_flags_of tcp) FIN" by (simp_all add: seg_len_def split: if_splits)
    let ?s = "advance_ts_recent self (tcp_seq tcp) ts"
    have st': "t_state ?s = Closed" using st by (simp add: advance_ts_recent_def split: option.split)
    then have ns: "t_state ?s \<noteq> SynSent" by simp
    obtain ok s where a: "ack_step ?s now tcp (map_option snd ts) = Some (ok, s)" "recv_view s = recv_view ?s"
      using ack_step_ok[of n ?s now tcp "map_option snd ts"] inv ns by auto
    have rv: "recv_view s = recv_view self" using a(2) by simp
    have cl: "t_state s = Closed"
      using ack_step_path[OF _ ns a(1), of n] inv st' rfc793_from(1) by (auto elim: converse_rtranclpE)
    have pf: "t_pending_fin s = None" using rv u by (simp add: recv_view_def unsynced_def)
    have "self' = (if ok then recompute_closing_state s now else s)"
      using acc(3) a(1) acc(1) z pf
      by (simp add: on_acceptable_def data_and_fin_def receive_data_def consume_pending_fin_def split: if_splits)
    then have "recv_view self' = recv_view self \<and> t_state self' = Closed"
      using rv cl by (simp add: recompute_state closing_closed)
    then show ?thesis using un by blast
  qed
qed

lemma path_to_syn_sent: "rfc793_path st SynSent \<Longrightarrow> st = SynSent"
  by (erule rtranclp.cases) (auto elim: rfc793.cases)

text \<open>Whatever the peer puts on the wire is legal for the connection, and keeps it in the stream.\<close>

lemma hears_segment:
  assumes inv: "tcb_inv n self" and h: "hears W iss fin self got"
    and w: "on_wire W iss fin tcp" "\<not> flag_has (tcp_flags_of tcp) RST" and sz: "length W + 2 < 1073741824"
    and run: "on_segment ov self now tcp ce = Some self'"
  shows "hears W iss fin self' got"
proof -
  from h consider (syn) "unsynced self" "got = []" "t_state self = SynSent" | (closed) "unsynced self" "got = []" "t_state self = Closed"
    | (str) p where "t_state self \<noteq> SynSent" "in_stream W iss fin self got p"
    by (auto simp: hears_def unsynced_def)
  then show ?thesis
  proof cases
    case syn
    then show ?thesis using syn_sent_hears[OF _ _ w run] by simp
  next
    case closed
    then show ?thesis using closed_hears[OF inv _ _ run] by (simp add: hears_def)
  next
    case (str p)
    have "rfc793_path (t_state self) (t_state self') \<or> t_state self' = Closed" using on_segment_path[OF inv run] by blast
    then have "t_state self' \<noteq> SynSent" using path_to_syn_sent str(1) by fastforce
    then show ?thesis
      using in_stream_segment[OF inv str w sz wire_near[OF w sz h] run] by (auto simp: hears_def)
  qed
qed

section \<open>Resets, timers, polls and calls\<close>

lemma reset_effect:
  assumes inv: "tcb_inv n self" and "flag_has (tcp_flags_of tcp) RST" and run: "on_segment ov self now tcp ce = Some self'"
  shows "recv_view self' = recv_view self" "t_state self' \<in> {t_state self, Closed}" "tcb_inv n self'"
proof -
  have c: "tcb_inv n (self\<lparr>t_state := Closed, t_reset := True\<rparr>)"
    using inv send_inv_closed[of self True] by (simp add: tcb_inv_def recv_inv_def core_inv_def)
  have "recv_view self' = recv_view self \<and> t_state self' \<in> {t_state self, Closed} \<and> tcb_inv n self'"
  proof (cases "t_state self = SynSent")
    case True
    then have "self' = self \<or> self' = self\<lparr>t_state := Closed, t_reset := True\<rparr>"
      using run assms(2) by (auto simp: on_segment_def on_segment_syn_sent_def Let_def)
    then show ?thesis using c inv by (auto simp: recv_view_def)
  next
    case False
    then have e: "self' = on_rst self now (tcp_seq tcp)" using run assms(2) by (simp add: on_segment_def Let_def)
    have "recv_view self' = recv_view self" "t_state self' \<in> {t_state self, Closed}"
      unfolding e by (simp_all add: on_rst_def challenge_ack_def Let_def) (simp add: recv_view_def)
    then show ?thesis using on_rst_ok[OF inv] e by simp
  qed
  then show "recv_view self' = recv_view self" "t_state self' \<in> {t_state self, Closed}" "tcb_inv n self'" by simp_all
qed

lemma hears_view:
  assumes "hears W iss fin self got" and "recv_view self' = recv_view self" and "t_state self' \<in> {t_state self, Closed}"
  shows "hears W iss fin self' got"
  by (rule hears_same[OF assms(1)]) (use recv_view_same[OF assms(2)] assms(3) in auto)

lemma timer_hears:
  assumes "hears W iss fin self got" and run: "tcb_on_timer self now = Some self'"
  shows "hears W iss fin self' got"
  using timer_tx[OF run] by (intro hears_view[OF assms(1) on_timer_recv_view[OF run]]) (auto simp: tx_view_def)

lemma poll_hears:
  assumes inv: "tcb_inv n self" and h: "hears W iss fin self got" and run: "poll_transmit self now = Some (out, self')"
  shows "hears W iss fin self' got"
proof -
  have edge: "recv_same self' self"
    using poll_transmit_ok[OF inv, of now] run by (simp add: step_ok_def recv_edge_def recv_same_def)
  have syn: "t_state self' = SynSent \<and> t_rcv_adv self' = t_rcv_adv self" if "t_state self = SynSent"
  proof -
    have "recv_view self' = recv_view self \<and> t_state self' = t_state self"
      using run that by (auto simp: poll_transmit_def transmit_syn_sent_def Let_def bind_Some_iff start_rtx_def recv_view_def
          split: option.splits if_splits)
    then show ?thesis using that by (simp add: recv_view_def)
  qed
  have closed: "t_state self' = Closed \<and> t_rcv_adv self' = t_rcv_adv self" if "t_state self = Closed"
    using closed_sends_resets(1,2)[OF that run] that by (simp add: tx_view_def recv_view_def)
  have "t_mss_advertise self \<noteq> 0" using inv by (simp add: tcb_inv_def core_inv_def)
  from poll_transmit_sent[OF this, of now] run have "tx_view self' = tx_view self \<or> tx_moves self self'"
    by (cases out) (simp_all add: sent_step_def)
  then have "t_state self' = t_state self \<or> t_state self' \<noteq> SynSent" unfolding tx_moves_def tx_view_def by auto
  then show ?thesis by (intro hears_same[OF h edge]) (use syn closed in auto)
qed

lemma read_hears:
  assumes h: "hears W iss fin self got" and run: "tcb_recv self len = (self', bytes)"
  shows "hears W iss fin self' (got @ bytes)"
proof -
  define k where "k = min len (length (rb_buf (t_rx self)))"
  have e: "bytes = take k (rb_buf (t_rx self))" "rb_buf (t_rx self') = drop k (rb_buf (t_rx self))"
    "t_peer_fin_seen self' = t_peer_fin_seen self" "t_state self' = t_state self" "t_rcv_nxt self' = t_rcv_nxt self"
    "t_rcv_adv self' = t_rcv_adv self" "t_reasm self' = t_reasm self" "t_pending_fin self' = t_pending_fin self"
    using run by (auto simp: tcb_recv_def rb_read_def Let_def k_def)
  have u: "unsynced self' \<and> bytes = []" if "unsynced self" using that e by (simp add: unsynced_def)
  have "in_stream W iss fin self' (got @ bytes) p" if "in_stream W iss fin self got p" for p
  proof -
    have "holds_stream S p self' = holds_stream S p self" for S unfolding holds_stream_def e ..
    then show ?thesis using that unfolding in_stream_def e(2,3,5,8) by (simp add: e(1))
  qed
  then show ?thesis using h u e(4) unfolding hears_def by auto
qed

lemma call_hears:
  assumes h: "hears W iss fin self got"
  shows "hears W iss fin (set_congestion_control ov self kind) got" "hears W iss fin (fst (tcb_send self bytes)) got"
    "hears W iss fin (tcb_close self) got"
proof -
  have "t_state (set_congestion_control ov self kind) = t_state self" "t_state (fst (tcb_send self bytes)) = t_state self"
    "t_state (tcb_close self) = t_state self"
    by (simp_all add: set_congestion_control_def tcb_send_def tcb_close_def split: state.split prod.split)
  then show "hears W iss fin (set_congestion_control ov self kind) got" "hears W iss fin (fst (tcb_send self bytes)) got"
    "hears W iss fin (tcb_close self) got"
    using hears_view[OF h] recv_view_calls by simp_all
qed

lemma birth_unsynced: "unsynced (new_syn_sent ov local remote iss now mss)"
  by (simp add: unsynced_def new_syn_sent_def birth_parts)

lemma birth_hears:
  assumes "on_wire W iss fin syn" and "\<not> flag_has (tcp_flags_of syn) RST" and "flag_has (tcp_flags_of syn) SYN"
  shows "hears W iss fin (new_syn_received ov local remote syn iss' now mss) []"
proof -
  let ?t = "new_syn_received ov local remote syn iss' now mss"
  have f: "t_state ?t = SynReceived" "t_rcv_nxt ?t = seq_add (tcp_seq syn) 1" "t_rx ?t = with_capacity RX_BUFFER"
    "t_reasm ?t = reasm_new" "\<not> t_peer_fin_seen ?t" "t_pending_fin ?t = None"
    by (simp_all add: new_syn_received_def Let_def split: option.split prod.split)
  have "tcp_seq syn = iss" using assms by (auto simp: on_wire_def seq_add_def)
  then have "in_stream W iss fin ?t [] 0" using f by (simp add: in_stream_def holds_stream_def birth_parts reasm_held_def)
  then show ?thesis using f(1) unfolding hears_def by auto
qed

end
