(* ===== verification/Conversation.thy ===== *)
theory Conversation
  imports Receive_Stream
begin

text \<open>
  Two connections of this code talking to each other over a network that may lose, repeat,
  delay and reorder their datagrams, and may inject resets of its own. Nothing is assumed of
  the segments: they are what \<open>poll_transmit\<close> has produced.
\<close>

section \<open>A side and its steps\<close>

record side =
  sd_tcb :: tcb
  sd_ticks :: nat
  sd_wrote :: bytes
  sd_read :: bytes
  sd_sent :: "bytes list"

text \<open>
  One side, with \<open>net\<close> the datagrams the other side has sent so far: any of them may arrive at
  any time and any number of times, with any ECN mark.
\<close>

inductive side_step :: "cc_overrides \<Rightarrow> bytes list \<Rightarrow> side \<Rightarrow> side \<Rightarrow> bool" for ov net where
  arrives: "frame \<in> set net \<Longrightarrow> on_segment ov (sd_tcb s) now (ip_payload frame) ce = Some t \<Longrightarrow>
      side_step ov net s (s\<lparr>sd_tcb := t\<rparr>)"
| stray_reset: "flag_has (tcp_flags_of seg) RST \<Longrightarrow> on_segment ov (sd_tcb s) now seg ce = Some t \<Longrightarrow>
      side_step ov net s (s\<lparr>sd_tcb := t\<rparr>)"
| timer: "sd_ticks s < U32_MAX \<Longrightarrow> tcb_on_timer (sd_tcb s) now = Some t \<Longrightarrow>
      side_step ov net s (s\<lparr>sd_tcb := t, sd_ticks := Suc (sd_ticks s)\<rparr>)"
| sends_frame: "poll_transmit (sd_tcb s) now = Some (Some frame, t) \<Longrightarrow>
      side_step ov net s (s\<lparr>sd_tcb := t, sd_sent := frame # sd_sent s\<rparr>)"
| sends_nothing: "poll_transmit (sd_tcb s) now = Some (None, t) \<Longrightarrow> side_step ov net s (s\<lparr>sd_tcb := t\<rparr>)"
| app_writes: "tcb_send (sd_tcb s) bytes = (t, n) \<Longrightarrow>
      side_step ov net s (s\<lparr>sd_tcb := t, sd_wrote := sd_wrote s @ take n bytes\<rparr>)"
| app_reads: "tcb_recv (sd_tcb s) len = (t, bytes) \<Longrightarrow>
      side_step ov net s (s\<lparr>sd_tcb := t, sd_read := sd_read s @ bytes\<rparr>)"
| app_closes: "side_step ov net s (s\<lparr>sd_tcb := tcb_close (sd_tcb s)\<rparr>)"
| app_controls: "kind \<noteq> KCubic \<Longrightarrow> side_step ov net s (s\<lparr>sd_tcb := set_congestion_control ov (sd_tcb s) kind\<rparr>)"

definition new_side :: "tcb \<Rightarrow> side" where
  "new_side t = \<lparr>sd_tcb = t, sd_ticks = 0, sd_wrote = [], sd_read = [], sd_sent = []\<rparr>"

text \<open>
  A conversation: one side opens, the other is born from a SYN of the first (as the stack's
  accept does) or opens as well, and from then on the sides take turns in any order.
\<close>

inductive conversation :: "cc_overrides \<Rightarrow> side \<Rightarrow> side option \<Rightarrow> bool" for ov where
  opens: "mss \<noteq> 0 \<Longrightarrow> unat mss \<le> 65495 \<Longrightarrow> conversation ov (new_side (new_syn_sent ov local remote iss now mss)) None"
| alone: "conversation ov a None \<Longrightarrow> side_step ov [] a a' \<Longrightarrow> conversation ov a' None"
| accepts: "conversation ov a None \<Longrightarrow> frame \<in> set (sd_sent a) \<Longrightarrow> flag_has (tcp_flags_of (ip_payload frame)) SYN \<Longrightarrow>
      \<not> flag_has (tcp_flags_of (ip_payload frame)) RST \<Longrightarrow> mss \<noteq> 0 \<Longrightarrow> unat mss \<le> 65495 \<Longrightarrow>
      conversation ov a (Some (new_side (new_syn_received ov local remote (ip_payload frame) iss now mss)))"
| opens_too: "conversation ov a None \<Longrightarrow> mss \<noteq> 0 \<Longrightarrow> unat mss \<le> 65495 \<Longrightarrow>
      conversation ov a (Some (new_side (new_syn_sent ov local remote iss now mss)))"
| first_moves: "conversation ov a (Some b) \<Longrightarrow> side_step ov (sd_sent b) a a' \<Longrightarrow> conversation ov a' (Some b)"
| second_moves: "conversation ov a (Some b) \<Longrightarrow> side_step ov (sd_sent a) b b' \<Longrightarrow> conversation ov a (Some b')"

section \<open>The invariant of a side\<close>

abbreviation side_fin :: "side \<Rightarrow> bool" where
  "side_fin s \<equiv> t_fin_seq (sd_tcb s) \<noteq> None"

abbreviation side_iss :: "side \<Rightarrow> seqnum" where
  "side_iss s \<equiv> t_iss (sd_tcb s)"

definition all_on_wire :: "bytes \<Rightarrow> seqnum \<Rightarrow> bool \<Rightarrow> bytes list \<Rightarrow> bool" where
  "all_on_wire W iss fin net \<longleftrightarrow> (\<forall>frame \<in> set net. on_wire W iss fin (ip_payload frame))"

definition side_ok :: "side \<Rightarrow> bool" where
  "side_ok s \<longleftrightarrow> tcb_inv (sd_ticks s) (sd_tcb s) \<and> sends (sd_wrote s) (sd_tcb s)
     \<and> all_on_wire (sd_wrote s) (side_iss s) (side_fin s) (sd_sent s)"

text \<open>A step appends to what was written, and nothing once the FIN has gone.\<close>

definition grows :: "side \<Rightarrow> side \<Rightarrow> bool" where
  "grows s s' \<longleftrightarrow> side_iss s' = side_iss s \<and> (side_fin s \<longrightarrow> side_fin s')
     \<and> (\<exists>X. sd_wrote s' = sd_wrote s @ X \<and> (side_fin s \<longrightarrow> X = []))"

lemma all_on_wire_grows:
  assumes "all_on_wire (sd_wrote s) (side_iss s) (side_fin s) net" and "grows s s'"
  shows "all_on_wire (sd_wrote s') (side_iss s') (side_fin s') net"
proof -
  obtain X where g: "side_iss s' = side_iss s" "side_fin s \<longrightarrow> side_fin s' \<and> X = []" "sd_wrote s' = sd_wrote s @ X"
    using assms(2) unfolding grows_def by blast
  show ?thesis
    using assms(1) on_wire_later[of "sd_wrote s" "side_iss s" "side_fin s" _ "side_fin s'" X] g(2)
    unfolding all_on_wire_def g(1,3) by blast
qed

lemma hears_grows:
  assumes "hears (sd_wrote s) (side_iss s) (side_fin s) t got" and "grows s s'"
  shows "hears (sd_wrote s') (side_iss s') (side_fin s') t got"
proof -
  obtain X where g: "side_iss s' = side_iss s" "side_fin s \<longrightarrow> side_fin s' \<and> X = []" "sd_wrote s' = sd_wrote s @ X"
    using assms(2) unfolding grows_def by blast
  show ?thesis using hears_later[OF assms(1), of "side_fin s'" X] g(2) unfolding g(1,3) by blast
qed

lemma side_okI:
  assumes "side_ok s" and "tcb_inv (sd_ticks s') (sd_tcb s')" and "sends (sd_wrote s') (sd_tcb s')" and "grows s s'"
    and "sd_sent s' = sd_sent s"
  shows "side_ok s'"
  using assms all_on_wire_grows[OF _ assms(4), of "sd_sent s"] unfolding side_ok_def by simp

lemma keeps_grows: "keeps_stream W (sd_tcb s) t \<Longrightarrow> grows s (s\<lparr>sd_tcb := t\<rparr>)"
  by (simp add: keeps_stream_def grows_def)

text \<open>
  One step of a side, against any peer whose datagrams carry the stream \<open>W\<close>: the side stays
  sound and stays in that stream.
\<close>

lemma side_moves:
  assumes "side_step ov net s s'" and ov: "overrides_ok ov" and ok: "side_ok s"
    and net: "all_on_wire W iss fin net" "length W + 2 < 1073741824" and h: "hears W iss fin (sd_tcb s) (sd_read s)"
  shows "side_ok s' \<and> grows s s' \<and> hears W iss fin (sd_tcb s') (sd_read s')"
proof -
  have i: "tcb_inv (sd_ticks s) (sd_tcb s)" "send_inv (sd_tcb s)" "sends (sd_wrote s) (sd_tcb s)"
    using ok by (simp_all add: side_ok_def tcb_inv_def)
  have upd: "side_ok (s\<lparr>sd_tcb := t, sd_ticks := n\<rparr>) \<and> grows s (s\<lparr>sd_tcb := t, sd_ticks := n\<rparr>)"
    if "tcb_inv n t" "keeps_stream (sd_wrote s) (sd_tcb s) t" for t n
  proof -
    have g: "grows s (s\<lparr>sd_tcb := t, sd_ticks := n\<rparr>)" using that(2) by (simp add: keeps_stream_def grows_def)
    have "side_ok (s\<lparr>sd_tcb := t, sd_ticks := n\<rparr>)"
      by (rule side_okI[OF ok _ _ g]) (use that in \<open>simp_all add: keeps_stream_def\<close>)
    then show ?thesis using g by blast
  qed
  have upd0: "side_ok (s\<lparr>sd_tcb := t\<rparr>) \<and> grows s (s\<lparr>sd_tcb := t\<rparr>)"
    if "tcb_inv (sd_ticks s) t" "keeps_stream (sd_wrote s) (sd_tcb s) t" for t
    using upd[OF that] by simp
  note view = keeps_stream_view[OF i(3)]
  have reset: "tcb_inv (sd_ticks s) t \<and> hears W iss fin t (sd_read s)"
    if "flag_has (tcp_flags_of seg) RST" "on_segment ov (sd_tcb s) now seg ce = Some t" for seg now ce t
    using reset_effect[OF i(1) that] hears_view[OF h] by blast
  from assms(1) show ?thesis
  proof cases
    case (arrives frame now ce t)
    have w: "on_wire W iss fin (ip_payload frame)" using arrives(2) net(1) by (simp add: all_on_wire_def)
    have "tcb_inv (sd_ticks s) t \<and> hears W iss fin t (sd_read s)"
    proof (cases "flag_has (tcp_flags_of (ip_payload frame)) RST")
      case True
      then show ?thesis using reset arrives(3) by blast
    next
      case False
      have "tcb_inv (sd_ticks s) t" using on_segment_ok[OF i(1) ov wire_near[OF w False net(2) h], of now ce] arrives(3) by simp
      then show ?thesis using hears_segment[OF i(1) h w False net(2) arrives(3)] by blast
    qed
    then show ?thesis using upd0 on_segment_sends[OF i(2,3) arrives(3)] arrives(1) by simp
  next
    case (stray_reset seg now ce t)
    then show ?thesis using upd0 reset[OF stray_reset(2,3)] on_segment_sends[OF i(2,3) stray_reset(3)] by simp
  next
    case (timer now t)
    have "tcb_inv (Suc (sd_ticks s)) t" using on_timer_ok[OF i(1) timer(2), of now] timer(3) by simp
    then show ?thesis using upd timer_sends[OF i(2,3) timer(3)] timer_hears[OF h timer(3)] timer(1) by simp
  next
    case (sends_frame now frame t)
    note p = poll_on_wire[OF i(1,3) sends_frame(2)]
    have g: "grows s s'" using p(2,3) sends_frame(1) by (simp add: grows_def)
    have "tcb_inv (sd_ticks s) t" using poll_transmit_ok[OF i(1), of now] sends_frame(2) by (simp add: step_ok_def)
    moreover have "all_on_wire (sd_wrote s') (side_iss s') (side_fin s') (sd_sent s)"
      using all_on_wire_grows[OF _ g] ok by (simp add: side_ok_def)
    ultimately have "side_ok s'" using p sends_frame(1) by (simp add: side_ok_def all_on_wire_def)
    then show ?thesis using g poll_hears[OF i(1) h sends_frame(2)] sends_frame(1) by simp
  next
    case (sends_nothing now t)
    note p = poll_on_wire[OF i(1,3) sends_nothing(2)]
    have g: "grows s s'" using p(2,3) sends_nothing(1) by (simp add: grows_def)
    have "tcb_inv (sd_ticks s) t" using poll_transmit_ok[OF i(1), of now] sends_nothing(2) by (simp add: step_ok_def)
    then have "side_ok s'" by (intro side_okI[OF ok _ _ g]) (use p(1) sends_nothing(1) in simp_all)
    then show ?thesis using g poll_hears[OF i(1) h sends_nothing(2)] sends_nothing(1) by simp
  next
    case (app_writes bytes t n)
    note w = write_sends[OF i(2,3) app_writes(2)]
    have t: "t = fst (tcb_send (sd_tcb s) bytes)" using app_writes(2) by simp
    have g: "grows s s'" using w(2-4) app_writes(1) by (simp add: grows_def)
    have "side_ok s'" by (rule side_okI[OF ok _ _ g]) (use w(1) send_ok[OF i(1)] app_writes(1) t in simp_all)
    then show ?thesis using g call_hears(2)[OF h] app_writes(1) t by simp
  next
    case (app_reads len t bytes)
    have t: "t = fst (tcb_recv (sd_tcb s) len)" using app_reads(2) by simp
    have k: "keeps_stream (sd_wrote s) (sd_tcb s) t" using view[OF call_tx_views(2)] t by simp
    then have g: "grows s s'" using app_reads(1) by (simp add: keeps_stream_def grows_def)
    have "side_ok s'" by (rule side_okI[OF ok _ _ g]) (use k recv_ok[OF i(1)] app_reads(1) t in \<open>simp_all add: keeps_stream_def\<close>)
    then show ?thesis using g read_hears[OF h app_reads(2)] app_reads(1) by simp
  next
    case app_closes
    then show ?thesis using upd0[OF close_ok[OF i(1)] view[OF call_tx_views(1)]] call_hears(3)[OF h] by simp
  next
    case (app_controls kind)
    then show ?thesis using upd0[OF set_cc_ok[OF i(1) ov] view[OF call_tx_views(3)]] call_hears(1)[OF h] by simp
  qed
qed

section \<open>The invariant of a conversation\<close>

definition heard_by :: "side \<Rightarrow> side \<Rightarrow> bool" where
  "heard_by a b \<longleftrightarrow> hears (sd_wrote a) (side_iss a) (side_fin a) (sd_tcb b) (sd_read b)"

definition pair_ok :: "side \<Rightarrow> side \<Rightarrow> bool" where
  "pair_ok a b \<longleftrightarrow> side_ok a \<and> side_ok b \<and> heard_by a b \<and> heard_by b a"

definition small :: "side \<Rightarrow> bool" where
  "small s \<longleftrightarrow> length (sd_wrote s) + 2 < 1073741824"

lemma small_before: "grows s s' \<Longrightarrow> small s' \<Longrightarrow> small s"
  by (auto simp: grows_def small_def)

lemma side_step_writes:
  assumes "side_step ov net s s'"
  shows "length (sd_wrote s) \<le> length (sd_wrote s')"
  using assms by cases auto

lemma pair_sym: "pair_ok a b \<Longrightarrow> pair_ok b a"
  by (simp add: pair_ok_def)

lemma pair_moves:
  assumes ok: "pair_ok a b" and "small a" and step: "side_step ov (sd_sent a) b b'" and ov: "overrides_ok ov"
  shows "pair_ok a b'"
proof -
  have o: "side_ok a" "side_ok b" "heard_by a b" "heard_by b a" using ok by (simp_all add: pair_ok_def)
  have w: "all_on_wire (sd_wrote a) (side_iss a) (side_fin a) (sd_sent a)" using o(1) by (simp add: side_ok_def)
  have m: "side_ok b' \<and> grows b b' \<and> heard_by a b'"
    unfolding heard_by_def
    by (rule side_moves[OF step ov o(2) w]) (use assms(2) o(3) in \<open>simp_all add: small_def heard_by_def\<close>)
  then have "heard_by b' a" using hears_grows[of b _ _ b'] o(4) unfolding heard_by_def by blast
  then show ?thesis using m o(1) by (simp add: pair_ok_def)
qed

text \<open>Alone, the first side has heard nothing: it is in step with any peer that may come.\<close>

definition alone_ok :: "side \<Rightarrow> bool" where
  "alone_ok a \<longleftrightarrow> side_ok a \<and> (\<forall>iss. hears [] iss False (sd_tcb a) (sd_read a))"

lemma alone_moves:
  assumes "alone_ok a" and "side_step ov [] a a'" and "overrides_ok ov"
  shows "alone_ok a'"
  using side_moves[OF assms(2,3), of "[]" _ False] assms(1) by (simp add: alone_ok_def all_on_wire_def)

lemma new_side_ok:
  "mss \<noteq> 0 \<Longrightarrow> unat mss \<le> 65495 \<Longrightarrow> overrides_ok ov \<Longrightarrow> side_ok (new_side (new_syn_sent ov local remote iss now mss))"
  "mss \<noteq> 0 \<Longrightarrow> unat mss \<le> 65495 \<Longrightarrow> overrides_ok ov \<Longrightarrow> mss_option syn \<noteq> Some 0 \<Longrightarrow>
    side_ok (new_side (new_syn_received ov local remote syn iss now mss))"
  using new_syn_sent_ok new_syn_received_ok birth_sends by (simp_all add: side_ok_def new_side_def all_on_wire_def)

lemma new_side_silent:
  "hears W iss fin (new_syn_sent ov local remote iss' now mss) []"
  "sd_wrote (new_side t) = []" "sd_read (new_side t) = []" "sd_tcb (new_side t) = t"
  "t_fin_seq (new_syn_sent ov local remote iss' now mss) = None" "t_fin_seq (new_syn_received ov local remote syn iss' now mss) = None"
  using birth_unsynced by (simp_all add: hears_def new_side_def new_syn_sent_def new_syn_received_def Let_def split: option.split prod.split)

lemma conversation_ok:
  assumes "conversation ov a ob" and ov: "overrides_ok ov"
  shows "case ob of None \<Rightarrow> alone_ok a | Some b \<Rightarrow> small a \<and> small b \<longrightarrow> pair_ok a b"
  using assms(1)
proof (induction rule: conversation.induct)
  case (opens mss local remote iss now)
  then show ?case using new_side_ok(1)[OF opens ov] new_side_silent by (simp add: alone_ok_def)
next
  case (alone a a')
  then show ?case using alone_moves[OF _ alone.hyps(2) ov] by simp
next
  case (accepts a frame mss local remote iss now)
  then have a: "side_ok a" "\<And>iss. hears [] iss False (sd_tcb a) (sd_read a)" by (simp_all add: alone_ok_def)
  then have w: "on_wire (sd_wrote a) (side_iss a) (side_fin a) (ip_payload frame)"
    using accepts.hyps(2) by (simp add: side_ok_def all_on_wire_def)
  let ?t = "new_syn_received ov local remote (ip_payload frame) iss now mss"
  have "side_ok (new_side ?t)" using new_side_ok(2)[OF accepts.hyps(5,6) ov] w by (simp add: on_wire_def)
  moreover have "heard_by a (new_side ?t)"
    using birth_hears[OF w accepts.hyps(4,3)] by (simp add: heard_by_def new_side_silent)
  moreover have "heard_by (new_side ?t) a" using a(2) by (simp add: heard_by_def new_side_silent)
  ultimately show ?case using a(1) by (simp add: pair_ok_def)
next
  case (opens_too a mss local remote iss now)
  then have a: "side_ok a" "\<And>iss. hears [] iss False (sd_tcb a) (sd_read a)" by (simp_all add: alone_ok_def)
  let ?t = "new_syn_sent ov local remote iss now mss"
  have "side_ok (new_side ?t)" using new_side_ok(1)[OF opens_too.hyps(2,3) ov] .
  moreover have "heard_by a (new_side ?t)" "heard_by (new_side ?t) a" using a(2) by (simp_all add: heard_by_def new_side_silent)
  ultimately show ?case using a(1) by (simp add: pair_ok_def)
next
  case (first_moves a b a')
  have s: "small a" if "small a'" using side_step_writes[OF first_moves.hyps(2)] that by (simp add: small_def)
  show ?case using first_moves.IH s pair_moves[OF pair_sym _ first_moves.hyps(2) ov] pair_sym by auto
next
  case (second_moves a b b')
  have s: "small b" if "small b'" using side_step_writes[OF second_moves.hyps(2)] that by (simp add: small_def)
  show ?case using second_moves.IH s pair_moves[OF _ _ second_moves.hyps(2) ov] by auto
qed

end
