(* ===== verification/End_To_End.thy ===== *)
theory End_To_End
  imports Conversation "HOL-Library.Sublist"
begin

text \<open>
  The end-to-end theorems about two connections of this code, and a concrete conversation for
  their instances: a client connects, sends two bytes or closes, and the server reads.
\<close>

section \<open>A sample conversation: the handshake\<close>

lemma emitted_fields:
  assumes inv: "tcb_inv n self" and "\<not> ecn_enabled self" and ext: "\<not> flag_has extra RST" "flag_has extra SYN \<Longrightarrow> payload = [] \<and> seq = t_iss self"
    and q: "queued_at self seq payload" and len: "length payload \<le> max 1 (unat (t_snd_mss self) - seg_opts self)"
  shows "\<exists>f s. build self seq extra payload = Some (f, s)
    \<and> s = self\<lparr>t_delayed_ack_deadline := None, t_unacked_segs := 0, t_rcv_adv := t_rcv_adv s\<rparr> \<and> recv_edge self s
    \<and> (\<exists>w. w = offset_from (t_rcv_adv s) (t_rcv_nxt self)
        \<and> tcp_window (ip_payload f) = word_of_nat (if flag_has extra SYN then min w 0xFFFF else min (drop_bit (unat (t_rcv_wscale self)) w) 0xFFFF))
    \<and> tcp_seq (ip_payload f) = seq \<and> tcp_ack (ip_payload f) = t_rcv_nxt self \<and> tcp_flags_of (ip_payload f) = extra OR ACK
    \<and> tcp_payload (ip_payload f) = payload
    \<and> mss_option (ip_payload f) = (if flag_has extra SYN then Some (t_mss_advertise self) else None)
    \<and> sack_permitted (ip_payload f) = (flag_has extra SYN \<and> t_sack_enabled self)
    \<and> timestamps (ip_payload f) = (if t_ts_enabled self then Some (t_cur_tsval self, t_ts_recent self) else None)"
proof -
  have i: "recv_inv self" "unat (t_snd_mss self) \<le> 65495" using inv by (simp_all add: tcb_inv_def core_inv_def)
  obtain f s where b: "build self seq extra payload = Some (f, s)" "built self s" "well_formed_datagram self f"
    using build_ok[OF i(1) ext q len i(2)] by blast
  define s0 where "s0 = self\<lparr>t_delayed_ack_deadline := None, t_unacked_segs := 0\<rparr>"
  have fl: "ace_flags s0 (extra OR ACK) = (extra OR ACK, False)" using assms(2) by (simp add: ace_flags_def s0_def ecn_enabled_def)
  obtain w where aw: "advertised_window s0 = (w, s)"
    using b(1) fl by (auto simp: build_def s0_def[symmetric] bind_Some_iff split: prod.splits)
  have e: "s = s0\<lparr>t_rcv_adv := t_rcv_adv s\<rparr>" "w = offset_from (t_rcv_adv s) (t_rcv_nxt self)"
    using aw by (auto simp: advertised_window_def Let_def s0_def)
  have k: "t_local s = t_local self" "t_remote s = t_remote self" "t_rcv_nxt s = t_rcv_nxt self" "t_sack_enabled s = t_sack_enabled self"
    "t_ts_enabled s = t_ts_enabled self" "t_cur_tsval s = t_cur_tsval self" "t_ts_recent s = t_ts_recent self"
    "t_mss_advertise s = t_mss_advertise self" "t_rcv_wscale s = t_rcv_wscale self" "seg_opts s = seg_opts self"
    "t_snd_mss s = t_snd_mss self" "ecn_enabled s = ecn_enabled self"
    by (subst e(1), simp add: s0_def seg_opts_def ecn_enabled_def)+
  let ?r = "segment_repr s seq (extra OR ACK) False w"
  have bs: "build_segment (t_local self) (t_remote self) ?r payload = Some f"
    using b(1) fl aw assms(2) k by (simp add: build_def s0_def[symmetric] bind_Some_iff)
  have fa: "flag_has (extra OR ACK) SYN = flag_has extra SYN" using ace_flags_syn[OF fl] by simp
  have h: "tr_header_len ?r \<le> 60" "\<not> flag_has extra SYN \<longrightarrow> tr_header_len ?r = 20 + seg_opts self"
    using repr_header_len[of "extra OR ACK" s seq False w] seg_opts_le[of s] fa k(10) by (cases "flag_has extra SYN"; simp)+
  have tot: "tr_header_len ?r + length payload \<le> 65515"
    using h ext(2) len i(2) seg_opts_le[of self] by (cases "flag_has extra SYN") auto
  have p: "tr_src_port ?r = ep_port (t_local self)" "tr_dst_port ?r = ep_port (t_remote self)"
    using k by (simp_all add: segment_repr_def Let_def)
  from build_segment_carries[OF h(1) tot p] bs obtain seg where s: "carries (t_local self) (t_remote self) f seg"
    "tcp_seq seg = tr_seq ?r" "tcp_ack seg = tr_ack ?r" "tcp_flags_of seg = tr_flags ?r" "tcp_window seg = tr_window ?r"
    "tcp_payload seg = payload" "mss_option seg = tr_mss ?r" "sack_permitted seg = tr_sack_permitted ?r" "timestamps seg = tr_timestamps ?r"
    by auto
  have "ip_payload f = seg" using s(1) by (simp add: carries_def)
  then show ?thesis
    using b(1,2) i(1) e s(2-) fa k unfolding built_def by (intro exI[of _ f] exI[of _ s]) (simp add: segment_repr_def Let_def s0_def)
qed

text \<open>The client's SYN.\<close>

definition client_syn_sent :: tcb where
  "client_syn_sent = start_rtx (sample_connection\<lparr>t_cur_tsval := 0, t_snd_nxt := 101\<rparr>) 0"

definition is_sample_syn :: "bytes \<Rightarrow> bool" where
  "is_sample_syn syn \<longleftrightarrow> tcp_seq syn = 100 \<and> tcp_flags_of syn = SYN \<and> mss_option syn = Some 1460
     \<and> sack_permitted syn \<and> timestamps syn = Some (0, 0)"

lemma client_connects: "\<exists>f. poll_transmit sample_connection 0 = Some (Some f, client_syn_sent) \<and> is_sample_syn (ip_payload f)"
proof -
  let ?s = "sample_connection\<lparr>t_cur_tsval := 0\<rparr>"
  let ?r = "\<lparr>tr_src_port = 49152, tr_dst_port = 80, tr_seq = 100, tr_ack = 0, tr_flags = SYN,
      tr_window = word_of_nat (min RX_BUFFER 0xFFFF), tr_mss = Some 1460, tr_sack_permitted = True, tr_sack = [],
      tr_window_scale = Some RCV_WSCALE, tr_timestamps = Some (0, 0), tr_ae = False\<rparr>"
  have b: "build_syn ?s = build_segment (endpoint_new 0x0A000001 49152) (endpoint_new 0x0A000002 80) ?r []"
    by (simp add: build_syn_def sample_connection_def new_syn_sent_def endpoint_new_def)
  have "tr_header_len ?r \<le> 60" "tr_header_len ?r + length ([] :: bytes) \<le> 65515" "tr_src_port ?r = ep_port (endpoint_new 0x0A000001 49152)"
    "tr_dst_port ?r = ep_port (endpoint_new 0x0A000002 80)"
    by (simp_all add: tr_header_len_def sack_blocks_to_emit_def TCP_MIN_HEADER_LEN_def endpoint_new_def)
  from build_segment_carries[OF this] obtain f seg where f: "build_syn ?s = Some f" "carries (endpoint_new 0x0A000001 49152) (endpoint_new 0x0A000002 80) f seg"
    "is_sample_syn seg"
    unfolding b is_sample_syn_def by auto
  have "t_pending_reset sample_connection = None" "t_state ?s = SynSent" "t_snd_nxt ?s = t_iss ?s" "t_iss ?s = 100"
    by (simp_all add: sample_connection_def new_syn_sent_def)
  then have "poll_transmit sample_connection 0 = Some (Some f, client_syn_sent)"
    using f(1) by (simp add: poll_transmit_def transmit_syn_sent_def Let_def client_syn_sent_def seq_add_def)
  moreover have "ip_payload f = seg" using f(2) by (simp add: carries_def)
  ultimately show ?thesis using f(3) by blast
qed

text \<open>The server's SYN-ACK.\<close>

definition server_syn_received :: "bytes \<Rightarrow> tcb" where
  "server_syn_received syn = new_syn_received no_overrides (endpoint_new 0x0A000002 80) (endpoint_new 0x0A000001 49152) syn 300 1 1460"

definition is_sample_syn_ack :: "bytes \<Rightarrow> bool" where
  "is_sample_syn_ack seg \<longleftrightarrow> tcp_seq seg = 300 \<and> tcp_ack seg = 101 \<and> tcp_flags_of seg = SYN OR ACK \<and> tcp_window seg = 65535
     \<and> mss_option seg = Some 1460 \<and> sack_permitted seg \<and> timestamps seg = Some (1, 0)"

definition server_waits :: "tcb \<Rightarrow> bool" where
  "server_waits t \<longleftrightarrow> t_state t = SynReceived \<and> t_iss t = 300 \<and> t_snd_una t = 300 \<and> t_snd_nxt t = 301 \<and> t_rcv_nxt t = 101
     \<and> 65535 \<le> offset_from (t_rcv_adv t) 101 \<and> offset_from (t_rcv_adv t) 101 \<le> 262144 \<and> t_rx t = with_capacity RX_BUFFER \<and> t_reasm t = reasm_new \<and> t_sack_enabled t
     \<and> t_ts_enabled t \<and> t_ts_recent t = 0 \<and> \<not> t_peer_fin_seen t \<and> t_pending_fin t = None \<and> \<not> t_fin_acked t
     \<and> t_cc_kind t = KReno"

lemma server_born:
  assumes "is_sample_syn syn"
  defines "t \<equiv> server_syn_received syn"
  shows "t_state t = SynReceived" "t_iss t = 300" "t_snd_una t = 300" "t_snd_nxt t = 300" "t_rcv_nxt t = 101" "t_rcv_adv t = 65636"
    "t_rx t = with_capacity RX_BUFFER" "t_reasm t = reasm_new" "t_sack_enabled t" "t_ts_enabled t" "t_ts_recent t = 0"
    "\<not> t_peer_fin_seen t" "t_pending_fin t = None" "\<not> t_fin_acked t" "t_pending_reset t = None" "t_cc_kind t = KReno"
    "t_mss_advertise t = 1460" "tcb_inv 0 t"
proof -
  show "tcb_inv 0 t" unfolding t_def server_syn_received_def
    by (rule new_syn_received_ok) (use assms(1) no_overrides_ok in \<open>simp_all add: is_sample_syn_def\<close>)
qed (use assms(1) in \<open>simp_all add: t_def server_syn_received_def new_syn_received_def is_sample_syn_def Let_def seq_add_def RX_BUFFER_def
      split: option.split\<close>)

lemma server_answers:
  assumes syn: "is_sample_syn syn"
  shows "\<exists>f t. poll_transmit (server_syn_received syn) 1 = Some (Some f, t) \<and> is_sample_syn_ack (ip_payload f) \<and> server_waits t"
proof -
  let ?s = "(server_syn_received syn)\<lparr>t_cur_tsval := 1\<rparr>"
  note b = server_born[OF syn]
  have inv: "tcb_inv 0 ?s" using b(18) inv_quiet[of ?s "server_syn_received syn" 0] pacing_quiet(6)[of 1 "server_syn_received syn"] by simp
  have flags: "flag_has SYN SYN" "\<not> flag_has SYN RST" by (simp_all add: flag_has_def SYN_def RST_def)
  have "\<not> ecn_enabled ?s" using b(16) by (simp add: ecn_enabled_def)
  from emitted_fields[OF inv this flags(2), of "[]" 300] b flags(1)
  obtain f s where f: "build ?s 300 SYN [] = Some (f, s)"
    "s = ?s\<lparr>t_delayed_ack_deadline := None, t_unacked_segs := 0, t_rcv_adv := t_rcv_adv s\<rparr>" "recv_edge ?s s"
    "tcp_window (ip_payload f) = word_of_nat (min (offset_from (t_rcv_adv s) 101) 0xFFFF)"
    "tcp_seq (ip_payload f) = 300" "tcp_ack (ip_payload f) = 101" "tcp_flags_of (ip_payload f) = SYN OR ACK"
    "mss_option (ip_payload f) = Some 1460" "sack_permitted (ip_payload f)" "timestamps (ip_payload f) = Some (1, 0)"
    by auto
  have adv: "65535 \<le> offset_from (t_rcv_adv s) 101" "offset_from (t_rcv_adv s) 101 \<le> 262144"
    using f(3) b(5,6) by (auto simp: recv_edge_def RX_BUFFER_def offset_from_def)
  then have "is_sample_syn_ack (ip_payload f)" using f(4-) by (simp add: is_sample_syn_ack_def min_def)
  moreover have "poll_transmit (server_syn_received syn) 1 = Some (Some f, start_rtx (s\<lparr>t_snd_nxt := 301\<rparr>) 1)"
  proof -
    have "t_iss s = 300" by (subst f(2)) (simp add: b)
    then show ?thesis
      using f(1) b by (simp add: poll_transmit_def transmit_syn_received_def emit_def Let_def seq_add_def)
  qed
  moreover have "server_waits (start_rtx (s\<lparr>t_snd_nxt := 301\<rparr>) 1)"
  proof -
    have k: "t_state s = SynReceived" "t_iss s = 300" "t_snd_una s = 300" "t_rcv_nxt s = 101" "t_rx s = with_capacity RX_BUFFER"
      "t_reasm s = reasm_new" "t_sack_enabled s" "t_ts_enabled s" "t_ts_recent s = 0" "\<not> t_peer_fin_seen s" "t_pending_fin s = None"
      "\<not> t_fin_acked s" "t_cc_kind s = KReno"
      by (subst f(2), simp add: b)+
    then show ?thesis using adv by (simp add: server_waits_def start_rtx_def)
  qed
  ultimately show ?thesis by blast
qed

text \<open>The SYN-ACK opens the client.\<close>

definition client_open :: "tcb \<Rightarrow> bool" where
  "client_open t \<longleftrightarrow> t_state t = Established \<and> t_iss t = 100 \<and> t_snd_una t = 101 \<and> t_snd_nxt t = 101 \<and> t_rcv_nxt t = 301
     \<and> t_snd_wnd t = 65535 \<and> t_snd_mss t = 1460 \<and> t_tx t = with_capacity TX_BUFFER \<and> t_scoreboard t = scoreboard_new
     \<and> t_cc t = cc_new no_overrides KReno 1460 \<and> t_cc_kind t = KReno \<and> \<not> t_retransmit t \<and> t_pending_reset t = None
     \<and> \<not> t_fin_queued t \<and> \<not> t_fin_acked t \<and> t_ts_enabled t \<and> t_fin_seq t = None \<and> tcb_inv 0 t"

lemma client_opens:
  assumes "is_sample_syn_ack seg"
  shows "\<exists>t. on_segment no_overrides client_syn_sent 2 seg False = Some t \<and> client_open t"
proof -
  have c: "t_state client_syn_sent = SynSent" "t_iss client_syn_sent = 100" "t_snd_nxt client_syn_sent = 101"
    "t_tx client_syn_sent = with_capacity TX_BUFFER" "t_scoreboard client_syn_sent = scoreboard_new" "t_cc_kind client_syn_sent = KReno"
    "t_pending_reset client_syn_sent = None" "\<not> t_fin_queued client_syn_sent" "\<not> t_fin_acked client_syn_sent"
    "t_fin_seq client_syn_sent = None" "t_mss_advertise client_syn_sent = 1460"
    by (simp_all add: client_syn_sent_def sample_connection_def new_syn_sent_def start_rtx_def)
  have inv: "tcb_inv 0 client_syn_sent"
    using client_connects poll_transmit_ok[OF reachable_inv[OF sample_reachable no_overrides_ok], of 0] by (auto simp: step_ok_def)
  have flags: "flag_has (SYN OR ACK) SYN" "flag_has (SYN OR ACK) ACK" "\<not> flag_has (SYN OR ACK) RST"
    by (simp_all add: flag_has_def SYN_def ACK_def RST_def)
  have a: "seq_gt 101 100" "seq_le 101 101" by (simp_all add: seq_gt_def seq_le_def seq_lt_def distance_def)
  let ?t = "syn_sent_syn no_overrides client_syn_sent seg True"
  have run: "on_segment no_overrides client_syn_sent 2 seg False = Some ?t"
    using assms flags a c by (simp add: on_segment_def on_segment_syn_sent_def Let_def is_sample_syn_ack_def)
  have "tcb_inv 0 (on_segment_syn_sent no_overrides client_syn_sent seg)"
    by (rule on_segment_syn_sent_ok[OF inv c(1) no_overrides_ok]) (use assms in \<open>simp add: is_sample_syn_ack_def\<close>)
  then have ti: "tcb_inv 0 ?t" using run c(1) by (simp add: on_segment_def)
  have "client_open ?t"
    using assms c ti
    by (simp add: client_open_def is_sample_syn_ack_def syn_sent_syn_def negotiate_def Let_def seq_add_def split: option.split)
  then show ?thesis using run by blast
qed

lemma idle_pipe: "t_snd_una s = 101 \<Longrightarrow> t_snd_nxt s = 101 \<Longrightarrow> tx_pipe s 0 = 0"
  by (simp add: tx_pipe_def sb_pipe_def pipe_loop.simps seq_lt_def distance_def)

text \<open>The client writes two bytes and sends them.\<close>

definition is_sample_hi :: "bytes \<Rightarrow> bool" where
  "is_sample_hi seg \<longleftrightarrow> tcp_seq seg = 101 \<and> tcp_ack seg = 301 \<and> tcp_flags_of seg = PSH OR ACK
     \<and> tcp_payload seg = [104, 105] \<and> timestamps seg \<noteq> None \<and> fst (the (timestamps seg)) = 3"

lemma client_writes:
  assumes c: "client_open t"
  shows "\<exists>t2 f t3. tcb_send t [104, 105] = (t2, 2) \<and> poll_transmit t2 3 = Some (Some f, t3) \<and> is_sample_hi (ip_payload f)"
proof -
  let ?t = "t\<lparr>t_tx := \<lparr>rb_buf = [104, 105], rb_capacity = TX_BUFFER\<rparr>\<rparr>"
  let ?s = "?t\<lparr>t_cur_tsval := 3\<rparr>"
  note c' = c[unfolded client_open_def]
  have w: "tcb_send t [104, 105] = (?t, 2)"
    using c' by (simp add: tcb_send_def rb_write_def rb_free_def with_capacity_def TX_BUFFER_def)
  have s: "t_state ?s = Established" "t_snd_una ?s = 101" "t_snd_nxt ?s = 101" "t_snd_wnd ?s = 65535" "t_snd_mss ?s = 1460"
    "t_rcv_nxt ?s = 301" "t_ts_enabled ?s" "t_cur_tsval ?s = 3" "t_retransmit ?s = False" "rb_len (t_tx ?s) = 2" "t_iss ?s = 100"
    "t_cc ?s = cc_new no_overrides KReno 1460" "t_scoreboard ?s = scoreboard_new"
    using c' by (simp_all add: rb_len_def)
  have inv: "tcb_inv 0 ?s"
    using send_ok[of 0 t "[104, 105]"] c' w inv_quiet[of ?s ?t 0] pacing_quiet(6)[of 3 ?t] by simp
  have mp: "2 \<le> max_segment_payload ?s" using s(5) seg_opts_le[of ?s] by (simp add: max_segment_payload_opts)
  have pk: "peek_bytes ?s 0 2 = [104, 105]" by (simp add: peek_bytes_def rb_peek_eq)
  have flags: "\<not> flag_has PSH RST" "\<not> flag_has PSH SYN" by (simp_all add: flag_has_def PSH_def RST_def SYN_def)
  have q: "queued_at ?s 101 [104, 105]" using s(2) by (simp add: queued_at_def rb_len_def)
  have "\<not> ecn_enabled ?s" using c' by (simp add: ecn_enabled_def)
  moreover have "length [104 :: u8, 105] \<le> max 1 (unat (t_snd_mss ?s) - seg_opts ?s)"
    using mp by (simp add: max_segment_payload_opts)
  ultimately have "\<exists>f x. build ?s 101 PSH [104, 105] = Some (f, x) \<and> is_sample_hi (ip_payload f)"
    using emitted_fields[OF inv _ flags(1) _ q] flags(2) s(6-8) unfolding is_sample_hi_def by fastforce
  then
  obtain f x where f: "build ?s 101 PSH [104, 105] = Some (f, x)" "is_sample_hi (ip_payload f)"
    by blast
  have new: "\<exists>y. transmit_new ?s 3 0 (max_segment_payload ?s) = Some (Some f, y)"
  proof -
    have g: "pace_gate ?s 3 (min (cc_cwnd (t_cc ?s) - tx_pipe ?s 0) (t_snd_wnd ?s - 0)) (rb_len (t_tx ?s) - min 0 (rb_len (t_tx ?s)))
        (max_segment_payload ?s) = (14600, ?s)"
      unfolding idle_pipe[OF s(2,3)] s using c' by (simp add: pace_gate_def reno_new_def initial_window_def)
    have n: "min (min 14600 (rb_len (t_tx ?s) - min 0 (rb_len (t_tx ?s)))) (max_segment_payload ?s) = 2" using s(10) mp by simp
    show ?thesis unfolding transmit_new_def Let_def g split_conv n using f(1) pk s(3,10) by (simp add: emit_def)
  qed
  then obtain y where "transmit_new ?s 3 0 (max_segment_payload ?s) = Some (Some f, y)" by blast
  then have "\<exists>y. poll_transmit ?t 3 = Some (Some f, y)"
    using s c' by (simp add: poll_transmit_def transmit_data_or_fin_def Let_def or_else_def transmit_oldest_def
        transmit_hole_def in_recovery_def scoreboard_new_def)
  then show ?thesis using w f(2) by blast
qed

text \<open>Or it closes, and its FIN follows the handshake.\<close>

definition is_sample_fin :: "bytes \<Rightarrow> bool" where
  "is_sample_fin seg \<longleftrightarrow> tcp_seq seg = 101 \<and> tcp_ack seg = 301 \<and> tcp_flags_of seg = FIN OR ACK
     \<and> tcp_payload seg = [] \<and> timestamps seg \<noteq> None \<and> fst (the (timestamps seg)) = 3"

lemma client_closes:
  assumes c: "client_open t"
  shows "\<exists>f t3. poll_transmit (tcb_close t) 3 = Some (Some f, t3) \<and> is_sample_fin (ip_payload f)"
proof -
  let ?t = "t\<lparr>t_fin_queued := True\<rparr>"
  let ?s = "?t\<lparr>t_cur_tsval := 3\<rparr>"
  note c' = c[unfolded client_open_def]
  have s: "t_snd_una ?s = 101" "t_snd_nxt ?s = 101" "t_rcv_nxt ?s = 301" "t_ts_enabled ?s" "t_cur_tsval ?s = 3" "rb_len (t_tx ?s) = 0"
    using c' by (simp_all add: birth_parts)
  have inv: "tcb_inv 0 ?s"
    using close_ok[of 0 t] c' inv_quiet[of ?s ?t 0] pacing_quiet(6)[of 3 ?t] by (simp add: tcb_close_def)
  have flags: "\<not> flag_has FIN RST" "\<not> flag_has FIN SYN" by (simp_all add: flag_has_def FIN_def RST_def SYN_def)
  have "\<not> ecn_enabled ?s" using c' by (simp add: ecn_enabled_def)
  then have "\<exists>f x. build ?s 101 FIN [] = Some (f, x) \<and> is_sample_fin (ip_payload f)"
    using emitted_fields[OF inv _ flags(1), of "[]" 101] flags(2) s(3-5) unfolding is_sample_fin_def by fastforce
  then obtain f x where f: "build ?s 101 FIN [] = Some (f, x)" "is_sample_fin (ip_payload f)" by blast
  have new: "transmit_new ?s 3 0 (max_segment_payload ?s) = Some (None, ?s)"
  proof -
    have g: "pace_gate ?s 3 (min (cc_cwnd (t_cc ?s) - tx_pipe ?s 0) (t_snd_wnd ?s - 0)) (rb_len (t_tx ?s) - min 0 (rb_len (t_tx ?s)))
        (max_segment_payload ?s) = (14600, ?s)"
      unfolding idle_pipe[OF s(1,2)] using c' by (simp add: pace_gate_def reno_new_def initial_window_def)
    show ?thesis unfolding transmit_new_def Let_def g split_conv using s(6) by simp
  qed
  have "\<exists>y. transmit_fin ?s 3 101 = Some (Some f, y)" using f(1) c' by (simp add: transmit_fin_def emit_def)
  then obtain y where fin: "transmit_fin ?s 3 101 = Some (Some f, y)" by blast
  have "\<exists>y. poll_transmit ?t 3 = Some (Some f, y)"
    using new fin c' by (simp add: poll_transmit_def transmit_data_or_fin_def Let_def or_else_def transmit_oldest_def
        transmit_hole_def in_recovery_def scoreboard_new_def birth_parts seq_add_def)
  then show ?thesis using f(2) by (auto simp: tcb_close_def)
qed

text \<open>The server takes either.\<close>

lemma server_accepts:
  assumes w: "server_waits t" and seg: "tcp_seq seg = 101" "tcp_ack seg = 301" "timestamps seg \<noteq> None" "fst (the (timestamps seg)) = 3"
    and flags: "flag_has (tcp_flags_of seg) ACK" "\<not> flag_has (tcp_flags_of seg) RST" "\<not> flag_has (tcp_flags_of seg) SYN"
    and len: "0 < seg_len seg"
  shows "\<exists>s. on_segment ov t 4 seg False = data_and_fin s 4 seg False \<and> t_state s = Established \<and> recv_view s = recv_view t \<and> t_cc_kind s = KReno
    \<and> \<not> t_fin_acked s"
proof -
  note w' = w[unfolded server_waits_def]
  obtain v where ts: "timestamps seg = Some (3, v)" using seg(3,4) by (cases "timestamps seg") auto
  let ?a = "advance_ts_recent t 101 (Some (3, v))"
  have a: "t_state ?a = SynReceived" "t_snd_una ?a = 300" "t_snd_nxt ?a = 301" "recv_view ?a = recv_view t" "t_cc_kind ?a = KReno"
    "\<not> t_fin_acked ?a"
    using w' by (simp_all add: advance_ts_recent_def) (simp add: recv_view_def)
  let ?u = "update_window (?a\<lparr>t_snd_una := 301\<rparr>) 101 301 (tcp_window seg)"
  let ?s = "?u\<lparr>t_state := Established, t_rtx_deadline := None, t_retransmit := False\<rparr>"
  have ack: "ack_step ?a 4 seg (Some v) = Some (True, ?s)"
    using a seg by (simp add: ack_step_def ack_syn_received_def Let_def seq_gt_def seq_le_def seq_lt_def distance_def)
  have adv: "101 \<noteq> t_rcv_adv t" "seq_lt 101 (t_rcv_adv t)"
  proof -
    have d: "65535 \<le> offset_from (t_rcv_adv t) 101" "offset_from (t_rcv_adv t) 101 \<le> 262144" using w' by simp_all
    have r: "t_rcv_adv t = seq_add 101 (offset_from (t_rcv_adv t) 101)" by (simp add: seq_add_offset_from)
    show "101 \<noteq> t_rcv_adv t" using d by auto
    have "seq_lt (seq_add 101 0) (seq_add 101 (offset_from (t_rcv_adv t) 101))"
      by (subst lt_positions) (use d in simp_all)
    then show "seq_lt 101 (t_rcv_adv t)" unfolding r[symmetric] by (simp add: seq_add_def)
  qed
  have acc: "segment_acceptable t 101 (seg_len seg)"
    using adv w' len by (simp add: segment_acceptable_def seq_ge_not_lt seq_lt_def distance_def split: bool.split)
  have paws: "\<not> paws_rejects t (Some (3, v))" using w' by (simp add: paws_rejects_def)
  have "on_segment ov t 4 seg False = on_acceptable ?a 4 seg (Some (3, v)) False"
    using w' seg(1) flags acc paws ts by (simp add: on_segment_def Let_def)
  also have "\<dots> = data_and_fin ?s 4 seg False" using flags(1) ack by (simp add: on_acceptable_def)
  finally have run: "on_segment ov t 4 seg False = data_and_fin ?s 4 seg False" .
  have "recv_view (?a\<lparr>t_snd_una := 301\<rparr>) = recv_view ?a" by (simp add: recv_view_def)
  then have "recv_view ?u = recv_view t" using a(4) by simp
  then have "recv_view ?s = recv_view t" by (simp add: recv_view_def)
  moreover have "t_cc_kind ?s = KReno" "\<not> t_fin_acked ?s" using a(5,6) by (simp_all add: update_window_def Let_def)
  ultimately show ?thesis using run by (intro exI[of _ ?s]) simp
qed

lemma server_reads:
  assumes w: "server_waits t" and seg: "is_sample_hi seg"
  shows "\<exists>t' t''. on_segment no_overrides t 4 seg False = Some t' \<and> tcb_recv t' 10 = (t'', [104, 105])"
proof -
  note w' = w[unfolded server_waits_def] and seg' = seg[unfolded is_sample_hi_def]
  have flags: "flag_has (PSH OR ACK) ACK" "\<not> flag_has (PSH OR ACK) RST" "\<not> flag_has (PSH OR ACK) SYN" "\<not> flag_has (PSH OR ACK) FIN"
    by (simp_all add: flag_has_def PSH_def ACK_def RST_def SYN_def FIN_def)
  have len: "0 < seg_len seg" using seg' by (simp add: seg_len_def)
  obtain s where s: "on_segment no_overrides t 4 seg False = data_and_fin s 4 seg False" "recv_view s = recv_view t" "t_cc_kind s = KReno"
    using server_accepts[OF w, of seg no_overrides] seg' flags len by auto
  have f: "t_rcv_nxt s = 101" "t_rx s = with_capacity RX_BUFFER" "t_reasm s = reasm_new" "t_sack_enabled s" "t_pending_fin s = None"
    using s(2) w' by (simp_all add: recv_view_def)
  let ?rx = "\<lparr>rb_buf = [104, 105], rb_capacity = RX_BUFFER\<rparr>"
  have rx: "rb_write (with_capacity RX_BUFFER) [104, 105] = (?rx, 2)"
    by (simp add: rb_write_def rb_free_def with_capacity_def RX_BUFFER_def)
  have tr: "trim_left 101 101 [104, 105] = (101, [104, 105])" by (simp add: trim_left_def seq_lt_def distance_def)
  have d: "discard_below reasm_new 103 = Some reasm_new" by (simp add: discard_below_def reasm_new_def)
  have dr: "drain_runs reasm_new ?rx 103 = Some (reasm_new, ?rx, 103)"
    by (subst drain_runs.simps) (simp add: pop_contiguous_def reasm_new_def)
  have a: "accept_data s 101 [104, 105] = Some (True, False, s\<lparr>t_reasm := reasm_new, t_rx := ?rx, t_rcv_nxt := 103\<rparr>)"
    using f by (simp add: accept_data_def rx d dr seq_add_def)
  let ?y = "s\<lparr>t_reasm := reasm_new, t_rx := ?rx, t_rcv_nxt := 103\<rparr>"
  have ne: "\<not> ecn_enabled ?y" using s(3) by (simp add: ecn_enabled_def)
  obtain z where z: "receive_data s 4 101 [104, 105] False = Some z" "t_rx z = ?rx" "t_pending_fin z = None"
  proof -
    have "receive_data s 4 101 [104, 105] False = Some (schedule_ack ?y 4 True)"
      using f ne by (simp add: receive_data_def tr a buffered_def reasm_new_def)
    moreover have "recv_view (schedule_ack ?y 4 True) = recv_view ?y" by simp
    ultimately show ?thesis using that f(5) by (simp add: recv_view_def)
  qed
  let ?z = "recompute_closing_state (consume_pending_fin z) 4"
  have "recv_view ?z = recv_view z" using z(3) by (simp add: consume_pending_fin_def)
  then have "t_rx ?z = ?rx" using z(2) by (simp add: recv_view_def)
  then have "snd (tcb_recv ?z 10) = [104, 105]" by (simp add: tcb_recv_def rb_read_def Let_def)
  moreover have "on_segment no_overrides t 4 seg False = Some ?z"
    using s(1) z(1) seg' flags by (simp add: data_and_fin_def)
  ultimately show ?thesis by (metis prod.collapse)
qed

lemma server_ends:
  assumes w: "server_waits t" and seg: "is_sample_fin seg"
  shows "\<exists>t'. on_segment no_overrides t 4 seg False = Some t' \<and> recv_eof t'"
proof -
  note w' = w[unfolded server_waits_def] and seg' = seg[unfolded is_sample_fin_def]
  have flags: "flag_has (FIN OR ACK) ACK" "\<not> flag_has (FIN OR ACK) RST" "\<not> flag_has (FIN OR ACK) SYN" "flag_has (FIN OR ACK) FIN"
    by (simp_all add: flag_has_def PSH_def ACK_def RST_def SYN_def FIN_def)
  have len: "0 < seg_len seg" using seg' flags by (simp add: seg_len_def)
  obtain s where s: "on_segment no_overrides t 4 seg False = data_and_fin s 4 seg False" "recv_view s = recv_view t"
    using server_accepts[OF w, of seg no_overrides] seg' flags len by auto
  have f: "t_rcv_nxt s = 101" "t_rx s = with_capacity RX_BUFFER" "t_pending_fin s = None" "\<not> t_peer_fin_seen s"
    using s(2) w' by (simp_all add: recv_view_def)
  let ?z = "consume_pending_fin (receive_fin s 101)"
  have z: "t_peer_fin_seen ?z" "t_rx ?z = with_capacity RX_BUFFER" using f by (simp_all add: receive_fin_def consume_pending_fin_def)
  have "recv_view (recompute_closing_state ?z 4) = recv_view ?z" by simp
  then have "recv_eof (recompute_closing_state ?z 4)" using z by (simp add: recv_eof_def recv_view_def rb_is_empty_def birth_parts)
  moreover have "on_segment no_overrides t 4 seg False = Some (recompute_closing_state ?z 4)"
    using s(1) seg' flags by (simp add: data_and_fin_def receive_data_def seq_add_def)
  ultimately show ?thesis by blast
qed

text \<open>The conversation after the handshake, from the client's side.\<close>

lemma sample_handshake:
  "\<exists>a b. conversation no_overrides a (Some b) \<and> client_open (sd_tcb a) \<and> server_waits (sd_tcb b)
    \<and> sd_wrote a = [] \<and> sd_read b = [] \<and> sd_wrote b = []"
proof -
  obtain f where f: "poll_transmit sample_connection 0 = Some (Some f, client_syn_sent)" "is_sample_syn (ip_payload f)"
    using client_connects by blast
  let ?a0 = "new_side sample_connection"
  let ?a1 = "?a0\<lparr>sd_tcb := client_syn_sent, sd_sent := f # sd_sent ?a0\<rparr>"
  have c0: "conversation no_overrides ?a0 None"
    unfolding sample_connection_def by (rule conversation.opens) simp_all
  have p0: "poll_transmit (sd_tcb ?a0) 0 = Some (Some f, client_syn_sent)" using f(1) by (simp add: new_side_silent)
  have c1: "conversation no_overrides ?a1 None" by (rule conversation.alone[OF c0 side_step.sends_frame[OF p0]])
  have flags: "flag_has SYN SYN" "\<not> flag_has SYN RST" by (simp_all add: flag_has_def SYN_def RST_def)
  let ?b0 = "new_side (server_syn_received (ip_payload f))"
  have c2: "conversation no_overrides ?a1 (Some ?b0)"
    unfolding server_syn_received_def
    by (rule conversation.accepts[OF c1]) (use f(2) flags in \<open>simp_all add: is_sample_syn_def\<close>)
  obtain g t where g: "poll_transmit (server_syn_received (ip_payload f)) 1 = Some (Some g, t)" "is_sample_syn_ack (ip_payload g)" "server_waits t"
    using server_answers[OF f(2)] by blast
  let ?b1 = "?b0\<lparr>sd_tcb := t, sd_sent := g # sd_sent ?b0\<rparr>"
  have p1: "poll_transmit (sd_tcb ?b0) 1 = Some (Some g, t)" using g(1) by (simp add: new_side_silent)
  have c3: "conversation no_overrides ?a1 (Some ?b1)"
    by (rule conversation.second_moves[OF c2 side_step.sends_frame[OF p1]])
  obtain t2 where t2: "on_segment no_overrides client_syn_sent 2 (ip_payload g) False = Some t2" "client_open t2"
    using client_opens[OF g(2)] by blast
  have in_net: "g \<in> set (sd_sent ?b1)" and on: "on_segment no_overrides (sd_tcb ?a1) 2 (ip_payload g) False = Some t2"
    using t2(1) by simp_all
  have "conversation no_overrides (?a1\<lparr>sd_tcb := t2\<rparr>) (Some ?b1)"
    by (rule conversation.first_moves[OF c3 side_step.arrives[OF in_net on]])
  moreover have "sd_wrote (?a1\<lparr>sd_tcb := t2\<rparr>) = []" "sd_read ?b1 = []" "sd_wrote ?b1 = []" by (simp_all add: new_side_silent)
  ultimately show ?thesis using t2(2) g(3) by (intro exI[of _ "?a1\<lparr>sd_tcb := t2\<rparr>"] exI[of _ ?b1]) simp
qed

lemma sample_says_hi:
  "\<exists>a b. conversation no_overrides a (Some b) \<and> sd_wrote a = [104, 105] \<and> sd_read b = [104, 105] \<and> sd_wrote b = [] \<and> sd_sent a \<noteq> []"
proof -
  obtain a b where c: "conversation no_overrides a (Some b)" "client_open (sd_tcb a)" "server_waits (sd_tcb b)" "sd_wrote a = []" "sd_read b = []"
    and wb: "sd_wrote b = []" using sample_handshake by blast
  obtain t2 f t3 where w: "tcb_send (sd_tcb a) [104, 105] = (t2, 2)" "poll_transmit t2 3 = Some (Some f, t3)" "is_sample_hi (ip_payload f)"
    using client_writes[OF c(2)] by blast
  obtain u u' where r: "on_segment no_overrides (sd_tcb b) 4 (ip_payload f) False = Some u" "tcb_recv u 10 = (u', [104, 105])"
    using server_reads[OF c(3) w(3)] by blast
  let ?a1 = "a\<lparr>sd_tcb := t2, sd_wrote := sd_wrote a @ take 2 [104, 105]\<rparr>"
  let ?a2 = "?a1\<lparr>sd_tcb := t3, sd_sent := f # sd_sent ?a1\<rparr>"
  let ?b1 = "b\<lparr>sd_tcb := u\<rparr>"
  let ?b2 = "?b1\<lparr>sd_tcb := u', sd_read := sd_read ?b1 @ [104, 105]\<rparr>"
  have w2: "poll_transmit (sd_tcb ?a1) 3 = Some (Some f, t3)" and r2: "tcb_recv (sd_tcb ?b1) 10 = (u', [104, 105])"
    using w(2) r(2) by simp_all
  have in_net: "f \<in> set (sd_sent ?a2)" by simp
  note s1 = conversation.first_moves[OF c(1) side_step.app_writes[OF w(1)]]
  note s2 = conversation.first_moves[OF s1 side_step.sends_frame[OF w2]]
  note s3 = conversation.second_moves[OF s2 side_step.arrives[OF in_net r(1)]]
  have "conversation no_overrides ?a2 (Some ?b2)" by (rule conversation.second_moves[OF s3 side_step.app_reads[OF r2]])
  moreover have "sd_wrote ?a2 = [104, 105]" "sd_read ?b2 = [104, 105]" "sd_wrote ?b2 = []" "sd_sent ?a2 \<noteq> []" using c(4,5) wb by simp_all
  ultimately show ?thesis by blast
qed

lemma sample_closes:
  "\<exists>a b. conversation no_overrides a (Some b) \<and> sd_wrote a = [] \<and> sd_wrote b = [] \<and> recv_eof (sd_tcb b)"
proof -
  obtain a b where c: "conversation no_overrides a (Some b)" "client_open (sd_tcb a)" "server_waits (sd_tcb b)" "sd_wrote a = []" "sd_wrote b = []"
    using sample_handshake by blast
  obtain f t3 where w: "poll_transmit (tcb_close (sd_tcb a)) 3 = Some (Some f, t3)" "is_sample_fin (ip_payload f)"
    using client_closes[OF c(2)] by blast
  obtain u where r: "on_segment no_overrides (sd_tcb b) 4 (ip_payload f) False = Some u" "recv_eof u"
    using server_ends[OF c(3) w(2)] by blast
  let ?a1 = "a\<lparr>sd_tcb := tcb_close (sd_tcb a)\<rparr>"
  let ?a2 = "?a1\<lparr>sd_tcb := t3, sd_sent := f # sd_sent ?a1\<rparr>"
  have w2: "poll_transmit (sd_tcb ?a1) 3 = Some (Some f, t3)" using w(1) by simp
  have in_net: "f \<in> set (sd_sent ?a2)" by simp
  note s1 = conversation.first_moves[OF c(1) side_step.app_closes]
  note s2 = conversation.first_moves[OF s1 side_step.sends_frame[OF w2]]
  have "conversation no_overrides ?a2 (Some (b\<lparr>sd_tcb := u\<rparr>))"
    by (rule conversation.second_moves[OF s2 side_step.arrives[OF in_net r(1)]])
  moreover have "sd_wrote ?a2 = []" "sd_wrote (b\<lparr>sd_tcb := u\<rparr>) = []" "recv_eof (sd_tcb (b\<lparr>sd_tcb := u\<rparr>))" using c(4,5) r(2) by simp_all
  ultimately show ?thesis by blast
qed

section \<open>The theorems\<close>

lemma hears_prefix:
  assumes "hears W iss fin self got"
  shows "prefix (got @ rb_buf (t_rx self)) W"
proof -
  have "prefix (take p W) W" for p using append_take_drop_id[of p W, symmetric] by (rule prefixI)
  then show ?thesis using assms by (auto simp: hears_def unsynced_def in_stream_def)
qed

lemma hears_end:
  assumes "hears W iss fin self got" and "recv_eof self"
  shows "got = W \<and> fin"
  using assms by (auto simp: hears_def unsynced_def in_stream_def recv_eof_def rb_is_empty_def)

lemma side_takes_all:
  assumes ok: "side_ok b" "side_ok a" and h: "heard_by a b" and ov: "overrides_ok ov" and "small a"
  shows "\<forall>frame \<in> set (sd_sent a). on_segment ov (sd_tcb b) now (ip_payload frame) ce \<noteq> None"
proof
  fix frame assume f: "frame \<in> set (sd_sent a)"
  have w: "on_wire (sd_wrote a) (side_iss a) (side_fin a) (ip_payload frame)" using ok(2) f by (simp add: side_ok_def all_on_wire_def)
  have i: "tcb_inv (sd_ticks b) (sd_tcb b)" using ok(1) by (simp add: side_ok_def)
  show "on_segment ov (sd_tcb b) now (ip_payload frame) ce \<noteq> None"
  proof (cases "flag_has (tcp_flags_of (ip_payload frame)) RST")
    case True
    then show ?thesis by (simp add: on_segment_def Let_def)
  next
    case False
    have "legal_segment (sd_tcb b) (ip_payload frame)"
      by (rule wire_near[OF w False]) (use assms(5) h in \<open>simp_all add: small_def heard_by_def\<close>)
    then show ?thesis using on_segment_ok[OF i ov, of "ip_payload frame" now ce] by auto
  qed
qed

lemma side_moves_on:
  assumes "side_ok s"
  shows "poll_transmit (sd_tcb s) now \<noteq> None \<and> (sd_ticks s < U32_MAX \<longrightarrow> tcb_on_timer (sd_tcb s) now \<noteq> None)"
proof -
  have i: "tcb_inv (sd_ticks s) (sd_tcb s)" using assms by (simp add: side_ok_def)
  show ?thesis using poll_transmit_ok[OF i, of now] on_timer_ok[OF i, of now] by (auto simp: step_ok_def)
qed

text \<open>
  C1: end-to-end delivery. Two connections of this code, over any network that loses, repeats,
  delays and reorders their datagrams and injects resets, with timers, polls and application
  calls in any order: what either application has read, followed by what waits in its receive
  ring, is a prefix of what the other has written (below \<open>2\<^sup>3\<^sup>0\<close> bytes each way). No byte is
  lost in between, invented, repeated or out of order.
\<close>

theorem conversation_delivers:
  assumes "conversation ov a (Some b)" and "overrides_ok ov"
    and "length (sd_wrote a) + 2 < 1073741824" and "length (sd_wrote b) + 2 < 1073741824"
  shows "prefix (sd_read b @ rb_buf (t_rx (sd_tcb b))) (sd_wrote a) \<and> prefix (sd_read a @ rb_buf (t_rx (sd_tcb a))) (sd_wrote b)"
proof -
  have "heard_by a b" "heard_by b a" using conversation_ok[OF assms(1,2)] assms(3,4) by (simp_all add: small_def pair_ok_def)
  then show ?thesis using hears_prefix unfolding heard_by_def by blast
qed

theorem conversation_delivers_witness:
  "\<exists>a b. conversation no_overrides a (Some b) \<and> sd_read b = [104, 105] \<and> prefix (sd_read b @ rb_buf (t_rx (sd_tcb b))) [104, 105]"
proof -
  obtain a b where c: "conversation no_overrides a (Some b)" "sd_wrote a = [104, 105]" "sd_read b = [104, 105]" "sd_wrote b = []"
    using sample_says_hi by blast
  have "prefix (sd_read b @ rb_buf (t_rx (sd_tcb b))) (sd_wrote a)"
    using conversation_delivers[OF c(1) no_overrides_ok] c(2,4) by simp
  then show ?thesis using c by (intro exI[of _ a] exI[of _ b]) simp
qed

text \<open>
  C2: the end of the stream is the end. When a side sees end of file, its application has read
  every byte the other side's application wrote, and the other side has sent its FIN: a
  connection is never cut short silently, whatever the network repeats, reorders or injects.
\<close>

theorem end_of_stream_is_complete:
  assumes "conversation ov a (Some b)" and "overrides_ok ov"
    and "length (sd_wrote a) + 2 < 1073741824" and "length (sd_wrote b) + 2 < 1073741824"
  shows "(recv_eof (sd_tcb b) \<longrightarrow> sd_read b = sd_wrote a \<and> t_fin_seq (sd_tcb a) \<noteq> None)
    \<and> (recv_eof (sd_tcb a) \<longrightarrow> sd_read a = sd_wrote b \<and> t_fin_seq (sd_tcb b) \<noteq> None)"
proof -
  have "heard_by a b" "heard_by b a" using conversation_ok[OF assms(1,2)] assms(3,4) by (simp_all add: small_def pair_ok_def)
  then show ?thesis using hears_end unfolding heard_by_def by blast
qed

theorem end_of_stream_is_complete_witness:
  "\<exists>a b. conversation no_overrides a (Some b) \<and> recv_eof (sd_tcb b) \<and> sd_read b = sd_wrote a \<and> t_fin_seq (sd_tcb a) \<noteq> None"
proof -
  obtain a b where c: "conversation no_overrides a (Some b)" "sd_wrote a = []" "sd_wrote b = []" "recv_eof (sd_tcb b)"
    using sample_closes by blast
  have "recv_eof (sd_tcb b) \<longrightarrow> sd_read b = sd_wrote a \<and> t_fin_seq (sd_tcb a) \<noteq> None"
    using end_of_stream_is_complete[OF c(1) no_overrides_ok] c(2,3) by simp
  then show ?thesis using c by blast
qed

text \<open>
  C3: two connections never make each other panic. In every conversation, any datagram the one
  side has ever sent can be given to the other side at any time, with any ECN mark, and the
  handler returns; so do the poll and, below \<open>2\<^sup>3\<^sup>2 - 1\<close> ticks, the timers.
\<close>

theorem conversation_never_panics:
  assumes "conversation ov a (Some b)" and "overrides_ok ov"
    and "length (sd_wrote a) + 2 < 1073741824" and "length (sd_wrote b) + 2 < 1073741824"
  shows "(\<forall>frame \<in> set (sd_sent a). on_segment ov (sd_tcb b) now (ip_payload frame) ce \<noteq> None)
    \<and> (\<forall>frame \<in> set (sd_sent b). on_segment ov (sd_tcb a) now (ip_payload frame) ce \<noteq> None)
    \<and> poll_transmit (sd_tcb a) now \<noteq> None \<and> poll_transmit (sd_tcb b) now \<noteq> None
    \<and> (sd_ticks a < U32_MAX \<longrightarrow> tcb_on_timer (sd_tcb a) now \<noteq> None) \<and> (sd_ticks b < U32_MAX \<longrightarrow> tcb_on_timer (sd_tcb b) now \<noteq> None)"
proof -
  have ok: "side_ok a" "side_ok b" "heard_by a b" "heard_by b a"
    using conversation_ok[OF assms(1,2)] assms(3,4) by (simp_all add: small_def pair_ok_def)
  show ?thesis
    using side_takes_all[OF ok(2,1,3) assms(2)] side_takes_all[OF ok(1,2,4) assms(2)] side_moves_on[OF ok(1)] side_moves_on[OF ok(2)] assms(3,4)
    by (simp add: small_def)
qed

theorem conversation_never_panics_witness:
  "\<exists>a b frame. conversation no_overrides a (Some b) \<and> frame \<in> set (sd_sent a) \<and> on_segment no_overrides (sd_tcb b) 9 (ip_payload frame) True \<noteq> None"
proof -
  obtain a b frame where c: "conversation no_overrides a (Some b)" "sd_wrote a = [104, 105]" "sd_wrote b = []" "frame \<in> set (sd_sent a)"
    using sample_says_hi by (meson list.set_sel(1))
  have "\<forall>frame \<in> set (sd_sent a). on_segment no_overrides (sd_tcb b) 9 (ip_payload frame) True \<noteq> None"
    using conversation_never_panics[OF c(1) no_overrides_ok, of 9 True] c(2,3) by simp
  then show ?thesis using c by blast
qed

end
