(* ===== verification/Reset_Flag.thy ===== *)
theory Reset_Flag
  imports State_Diagram
begin

text \<open>
  The reset flag of a connection: only a RST sets it, together with the state \<open>Closed\<close>,
  which no handler leaves. So a connection whose flag is set is closed. And the TIME-WAIT
  deadline: only a connection in FIN-WAIT-2, in TIME-WAIT or closed has one.
\<close>

section \<open>Who leaves the flag and the deadline alone\<close>

text \<open>Both behind a constructor, so that a frame equation rewrites instead of splitting into cases.\<close>

definition reset_view :: "tcb \<Rightarrow> (bool \<times> instant option) option" where
  "reset_view self = Some (t_reset self, t_time_wait_deadline self)"

lemma reset_view_updates [simp]:
  "reset_view (self\<lparr>t_state := x0\<rparr>) = reset_view self" "reset_view (self\<lparr>t_local := x1\<rparr>) = reset_view self" "reset_view (self\<lparr>t_remote := x2\<rparr>) = reset_view self"
  "reset_view (self\<lparr>t_iss := x3\<rparr>) = reset_view self" "reset_view (self\<lparr>t_snd_una := x4\<rparr>) = reset_view self" "reset_view (self\<lparr>t_snd_nxt := x5\<rparr>) = reset_view self"
  "reset_view (self\<lparr>t_snd_wnd := x6\<rparr>) = reset_view self" "reset_view (self\<lparr>t_snd_wl1 := x7\<rparr>) = reset_view self" "reset_view (self\<lparr>t_snd_wl2 := x8\<rparr>) = reset_view self"
  "reset_view (self\<lparr>t_snd_mss := x9\<rparr>) = reset_view self" "reset_view (self\<lparr>t_window_scaling := x10\<rparr>) = reset_view self" "reset_view (self\<lparr>t_snd_wscale := x11\<rparr>) = reset_view self"
  "reset_view (self\<lparr>t_rcv_wscale := x12\<rparr>) = reset_view self" "reset_view (self\<lparr>t_ts_enabled := x13\<rparr>) = reset_view self" "reset_view (self\<lparr>t_ts_recent := x14\<rparr>) = reset_view self"
  "reset_view (self\<lparr>t_cur_tsval := x15\<rparr>) = reset_view self" "reset_view (self\<lparr>t_accecn_cep := x16\<rparr>) = reset_view self" "reset_view (self\<lparr>t_accecn_ace_seen := x17\<rparr>) = reset_view self"
  "reset_view (self\<lparr>t_irs := x18\<rparr>) = reset_view self" "reset_view (self\<lparr>t_rcv_nxt := x19\<rparr>) = reset_view self" "reset_view (self\<lparr>t_rcv_adv := x20\<rparr>) = reset_view self"
  "reset_view (self\<lparr>t_tx := x21\<rparr>) = reset_view self" "reset_view (self\<lparr>t_rx := x22\<rparr>) = reset_view self" "reset_view (self\<lparr>t_rtt := x23\<rparr>) = reset_view self"
  "reset_view (self\<lparr>t_cc := x24\<rparr>) = reset_view self" "reset_view (self\<lparr>t_cc_kind := x25\<rparr>) = reset_view self" "reset_view (self\<lparr>t_rtt_sample := x26\<rparr>) = reset_view self"
  "reset_view (self\<lparr>t_retransmitted := x27\<rparr>) = reset_view self" "reset_view (self\<lparr>t_retransmit := x28\<rparr>) = reset_view self" "reset_view (self\<lparr>t_gbn_recover := x29\<rparr>) = reset_view self"
  "reset_view (self\<lparr>t_rtx_deadline := x30\<rparr>) = reset_view self" "reset_view (self\<lparr>t_persist_deadline := x31\<rparr>) = reset_view self" "reset_view (self\<lparr>t_persist_backoff := x32\<rparr>) = reset_view self"
  "reset_view (self\<lparr>t_delayed_ack_deadline := x34\<rparr>) = reset_view self" "reset_view (self\<lparr>t_unacked_segs := x35\<rparr>) = reset_view self"
  "reset_view (self\<lparr>t_pace_tokens := x36\<rparr>) = reset_view self" "reset_view (self\<lparr>t_pace_last := x37\<rparr>) = reset_view self" "reset_view (self\<lparr>t_pace_deadline := x38\<rparr>) = reset_view self"
  "reset_view (self\<lparr>t_fin_queued := x39\<rparr>) = reset_view self" "reset_view (self\<lparr>t_fin_seq := x40\<rparr>) = reset_view self" "reset_view (self\<lparr>t_fin_acked := x41\<rparr>) = reset_view self"
  "reset_view (self\<lparr>t_peer_fin_seen := x42\<rparr>) = reset_view self" "reset_view (self\<lparr>t_needs_ack := x43\<rparr>) = reset_view self" "reset_view (self\<lparr>t_send_probe := x44\<rparr>) = reset_view self"
  "reset_view (self\<lparr>t_pending_reset := x45\<rparr>) = reset_view self" "reset_view (self\<lparr>t_syn_retries := x46\<rparr>) = reset_view self" "reset_view (self\<lparr>t_challenge_window_start := x47\<rparr>) = reset_view self"
  "reset_view (self\<lparr>t_challenge_count := x48\<rparr>) = reset_view self" "reset_view (self\<lparr>t_sack_enabled := x49\<rparr>) = reset_view self" "reset_view (self\<lparr>t_reasm := x50\<rparr>) = reset_view self"
  "reset_view (self\<lparr>t_scoreboard := x51\<rparr>) = reset_view self" "reset_view (self\<lparr>t_pending_fin := x52\<rparr>) = reset_view self" "reset_view (self\<lparr>t_mss_advertise := x53\<rparr>) = reset_view self"
  by (simp_all add: reset_view_def)

lemma reset_view_case [simp]: "(if b then reset_view x else reset_view x) = reset_view x"
  by simp

lemma reset_steps [simp]:
  "reset_view (start_rtx self now) = reset_view self" "reset_view (restart_rtx self now) = reset_view self"
  "reset_view (arm_persist self now) = reset_view self"
  "reset_view (arm_delayed_ack self now) = reset_view self" "reset_view (challenge_ack self now) = reset_view self"
  "reset_view (update_window self q a w) = reset_view self" "reset_view (arm_pace self now rate b) = reset_view self"
  "reset_view (snd (pace_allowance self now rate mp)) = reset_view self"
  "reset_view (advance_ts_recent self q ts) = reset_view self"
  by (simp_all add: start_rtx_def restart_rtx_def arm_persist_def arm_delayed_ack_def challenge_ack_def
      update_window_def arm_pace_def pace_allowance_def advance_ts_recent_def Let_def split: option.split)

lemma reset_ack_steps [simp]:
  "reset_view (ack_sample self now d r) = reset_view self" "reset_view (ack_ecn self now ace d r) = reset_view self"
  "reset_view (ack_gbn self) = reset_view self" "reset_view (ack_timer self now) = reset_view self"
  by (simp_all add: ack_sample_def ack_ecn_def ack_gbn_def ack_timer_def Let_def split: option.split)

lemma reset_loss_steps [simp]:
  "reset_view (sack_loss self now blocks d) = reset_view self" "reset_view (legacy_dup_ack self now) = reset_view self"
  by (simp_all add: sack_loss_def legacy_dup_ack_def Let_def split: prod.split)

lemma reset_fin_steps [simp]:
  "reset_view (receive_fin self f) = reset_view self" "reset_view (consume_pending_fin self) = reset_view self"
  "reset_view (schedule_ack self now c) = reset_view self"
  by (simp_all add: receive_fin_def consume_pending_fin_def schedule_ack_def Let_def split: option.split)

lemma reset_ack_consume: "ack_consume self a d r now = Some s \<Longrightarrow> reset_view s = reset_view self"
  by (auto simp: ack_consume_def Let_def bind_Some_iff split: option.splits)

lemma reset_ack_scoreboard: "ack_scoreboard self now = Some s \<Longrightarrow> reset_view s = reset_view self"
  by (auto simp: ack_scoreboard_def Let_def bind_Some_iff split: if_splits)

lemma reset_ack_rtt: "ack_rtt self a e now = Some s \<Longrightarrow> reset_view s = reset_view self"
  by (auto simp: ack_rtt_def Let_def bind_Some_iff split: option.splits if_splits)

lemma reset_ack_advance: "ack_advance self a e ace now = Some s \<Longrightarrow> reset_view s = reset_view self"
  by (auto simp: ack_advance_def Let_def bind_Some_iff dest!: reset_ack_consume reset_ack_scoreboard reset_ack_rtt)

lemma reset_process_ack: "process_ack self q a w e ace now = Some (ok, s) \<Longrightarrow> reset_view s = reset_view self"
  by (auto simp: process_ack_def bind_Some_iff dest: reset_ack_advance split: if_splits)

lemma reset_ack_step:
  assumes "ack_step self now tcp e = Some (ok, s)"
  shows "reset_view s = reset_view self"
proof (cases "t_state self = SynReceived")
  case True
  then show ?thesis using assms by (auto simp: ack_step_def ack_syn_received_def Let_def split: if_splits)
next
  case False
  then obtain b t where p: "process_ack self (tcp_seq tcp) (tcp_ack tcp) (tcp_window tcp) e (ace_field tcp) now = Some (b, t)"
    using assms by (auto simp: ack_step_def ack_synchronized_def Let_def bind_Some_iff)
  then show ?thesis
    using assms False reset_process_ack[OF p] by (auto simp: ack_step_def ack_synchronized_def Let_def split: if_splits)
qed

lemma reset_accept_data: "accept_data self q dat = Some (b, c, s) \<Longrightarrow> reset_view s = reset_view self"
  by (auto simp: accept_data_def Let_def bind_Some_iff split: if_splits prod.splits)

lemma flag_of_view:
  "reset_view a = reset_view b \<Longrightarrow> t_reset a = t_reset b"
  "reset_view a = reset_view b \<Longrightarrow> t_time_wait_deadline a = t_time_wait_deadline b"
  by (simp_all add: reset_view_def)

lemma reset_data_and_fin:
  assumes "data_and_fin self now tcp ce = Some s"
  shows "\<exists>x. reset_view x = reset_view self \<and> t_state x = t_state self \<and> s = recompute_closing_state x now"
proof -
  obtain r where r: "receive_data self now (tcp_seq tcp) (tcp_payload tcp) ce = Some r"
    using assms by (auto simp: data_and_fin_def bind_Some_iff)
  define x where "x = consume_pending_fin (if flag_has (tcp_flags_of tcp) FIN
      then receive_fin r (seq_add (tcp_seq tcp) (length (tcp_payload tcp))) else r)"
  have "reset_view r = reset_view self"
    using r by (auto simp: receive_data_def Let_def bind_Some_iff dest!: reset_accept_data split: if_splits prod.splits)
  then have "reset_view x = reset_view self" by (simp add: x_def)
  moreover have "send_view x = send_view self" using receive_data_frame[OF r] by (simp add: x_def fin_views)
  moreover have "s = recompute_closing_state x now" using assms r by (simp add: data_and_fin_def x_def)
  ultimately show ?thesis by (auto simp: send_view_def)
qed

text \<open>Only a connection that waits for the end of the peer's half has the deadline.\<close>

definition deadline_ok :: "tcb \<Rightarrow> bool" where
  "deadline_ok self \<longleftrightarrow> t_time_wait_deadline self \<noteq> None \<longrightarrow> t_state self \<in> {FinWait2, TimeWait, Closed}"

lemma deadline_ok_view:
  "reset_view a = reset_view b \<Longrightarrow> t_state a \<in> {t_state b, Closed} \<Longrightarrow> deadline_ok b \<Longrightarrow> deadline_ok a"
  using flag_of_view(2)[of a b] by (auto simp: deadline_ok_def)

lemma recompute_deadline:
  assumes "deadline_ok self"
  shows "deadline_ok (recompute_closing_state self now) \<and> t_reset (recompute_closing_state self now) = t_reset self"
  using assms
  by (cases "t_state self") (simp_all add: deadline_ok_def recompute_closing_state_def closing_state_def arm_time_wait_def
      Let_def split: bool.split)

lemma ack_step_state:
  assumes inv: "tcb_inv n self" and st: "t_state self \<noteq> SynSent" and run: "ack_step self now tcp e = Some (go, s)"
  shows "t_state s = t_state self \<or> t_state self = SynReceived"
proof (cases "t_state self = SynReceived")
  case False
  have "send_inv self" "core_inv n self" "t_state self \<notin> {SynSent, SynReceived}"
    using inv st False by (simp_all add: tcb_inv_def)
  from ack_synchronized_ok[OF this, of now tcp e] run False show ?thesis by (auto simp: ack_step_def)
qed simp

lemma reset_on_acceptable:
  assumes inv: "tcb_inv n self" and st: "t_state self \<noteq> SynSent" and ok: "deadline_ok self"
    and run: "on_acceptable self now tcp ts ce = Some s"
  shows "t_reset s = t_reset self \<and> deadline_ok s"
proof (cases "flag_has (tcp_flags_of tcp) ACK")
  case False
  then show ?thesis using run ok by (simp add: on_acceptable_def)
next
  case True
  then obtain go x where a: "ack_step self now tcp (map_option snd ts) = Some (go, x)"
    and d: "(if go then data_and_fin x now tcp ce else Some x) = Some s"
    using run by (auto simp: on_acceptable_def bind_Some_iff)
  note v = reset_ack_step[OF a]
  have "t_state x = t_state self \<or> t_state self = SynReceived"
    using ack_step_state[OF inv st a] .
  then have x: "deadline_ok x" using ok flag_of_view(2)[OF v] by (auto simp: deadline_ok_def)
  show ?thesis
  proof (cases go)
    case True
    then obtain y where "reset_view y = reset_view x" "t_state y = t_state x" "s = recompute_closing_state y now"
      using d reset_data_and_fin by force
    then have "deadline_ok y" "s = recompute_closing_state y now" "t_reset y = t_reset self"
      using deadline_ok_view[of y x] x flag_of_view(1)[of y x] flag_of_view(1)[OF v] by simp_all
    then show ?thesis using recompute_deadline[of y now] by simp
  next
    case False
    then show ?thesis using d x flag_of_view(1)[OF v] by simp
  qed
qed

lemma reset_on_segment:
  assumes inv: "tcb_inv n self" and ok: "deadline_ok self" and run: "on_segment ov self now tcp ce = Some s"
  shows "(t_reset s = t_reset self \<or> t_state s = Closed) \<and> deadline_ok s"
proof (cases "t_state self = SynSent")
  case True
  have "reset_view (negotiate ov x tcp) = reset_view x" for x
    by (simp add: negotiate_def Let_def split: option.split prod.split)
  then have "reset_view s = reset_view self \<or> t_state s = Closed"
    using run True by (auto simp: on_segment_def on_segment_syn_sent_def syn_sent_syn_def Let_def split: if_splits)
  then show ?thesis using flag_of_view[of s self] ok True by (auto simp: deadline_ok_def)
next
  case False
  define ts where "ts = (if t_ts_enabled self then timestamps tcp else None)"
  let ?x = "advance_ts_recent self (tcp_seq tcp) ts"
  have x: "tcb_inv n ?x" "t_state ?x = t_state self" "reset_view ?x = reset_view self"
    using inv by simp_all (simp add: advance_ts_recent_def split: option.split)
  have same: "t_state (challenge_ack self now) = t_state self" by (simp add: challenge_ack_def Let_def)
  have syn: "reset_view (on_syn self now q) = reset_view self" "t_state (on_syn self now q) = t_state self" for q
    using same by (simp_all add: on_syn_def)
  have "s = on_rst self now (tcp_seq tcp)
      \<or> t_state self = TimeWait \<and> s = arm_time_wait (self\<lparr>t_needs_ack := True\<rparr>) now
      \<or> s = on_syn self now (tcp_seq tcp) \<or> s = self\<lparr>t_needs_ack := True\<rparr>
      \<or> on_acceptable ?x now tcp ts ce = Some s"
    using run False unfolding on_segment_def Let_def ts_def[symmetric] by (simp only: if_False split: if_splits) blast+
  then consider (rst) "s = on_rst self now (tcp_seq tcp)"
    | (wait) "t_state self = TimeWait" "s = arm_time_wait (self\<lparr>t_needs_ack := True\<rparr>) now"
    | (quiet) "reset_view s = reset_view self" "t_state s = t_state self"
    | (acc) "on_acceptable ?x now tcp ts ce = Some s"
    using syn by (elim disjE) simp_all
  then show ?thesis
  proof cases
    case rst
    then have "t_state s = Closed \<or> reset_view s = reset_view self \<and> t_state s = t_state self" using same by (simp add: on_rst_def)
    then show ?thesis using deadline_ok_view[of s self] ok flag_of_view(1)[of s self] by (auto simp: deadline_ok_def)
  next
    case wait
    then show ?thesis by (simp add: deadline_ok_def arm_time_wait_def)
  next
    case quiet
    then show ?thesis using deadline_ok_view[of s self] ok flag_of_view(1)[of s self] by simp
  next
    case acc
    then show ?thesis
      using reset_on_acceptable[OF x(1) _ _ acc] False x(2) deadline_ok_view[OF x(3)] ok flag_of_view(1)[OF x(3)] by simp
  qed
qed

text \<open>Transmission.\<close>

definition keeps_reset :: "tcb \<Rightarrow> emission \<Rightarrow> bool" where
  "keeps_reset self em \<longleftrightarrow> (\<forall>out s. em = Some (out, s) \<longrightarrow> reset_view s = reset_view self)"

lemma reset_build: "build self seq extra payload = Some (frame, s) \<Longrightarrow> reset_view s = reset_view self"
  by (auto simp: build_def advertised_window_def Let_def bind_Some_iff split: prod.splits)

lemma reset_emit: "(\<And>b. reset_view (after b) = reset_view b) \<Longrightarrow> reset_view a = reset_view self \<Longrightarrow>
    keeps_reset self (emit (build a q f p) after)"
  by (auto simp: keeps_reset_def emit_def dest!: reset_build)

lemma reset_none: "reset_view s = reset_view self \<Longrightarrow> keeps_reset self (Some (None, s))"
  by (simp add: keeps_reset_def)

lemma reset_from: "reset_view a = reset_view b \<Longrightarrow> keeps_reset a em = keeps_reset b em"
  by (simp add: keeps_reset_def)

lemma reset_or_else:
  assumes "keeps_reset self first" and "\<And>s. reset_view s = reset_view self \<Longrightarrow> keeps_reset s (rest s)"
  shows "keeps_reset self (or_else first rest)"
proof -
  have "reset_view s = reset_view self" if h: "or_else first rest = Some (out, s)" for out s
  proof -
    obtain o1 s1 where f: "first = Some (o1, s1)" using h by (auto simp: or_else_def bind_Some_iff)
    then have v: "reset_view s1 = reset_view self" using assms(1) by (simp add: keeps_reset_def)
    show ?thesis
      using h f v assms(2)[OF v] by (cases o1) (simp_all add: or_else_def keeps_reset_def)
  qed
  then show ?thesis by (simp add: keeps_reset_def)
qed

lemma reset_if: "(b \<Longrightarrow> keeps_reset s x) \<Longrightarrow> (\<not> b \<Longrightarrow> keeps_reset s y) \<Longrightarrow> keeps_reset s (if b then x else y)"
  by simp

lemma reset_transmit_oldest: "keeps_reset self (transmit_oldest self now inflight)"
  unfolding transmit_oldest_def Let_def
  by (intro reset_if) (auto intro!: reset_if reset_emit reset_none split: option.split)

lemma reset_transmit_hole: "keeps_reset self (transmit_hole self now mp)"
  unfolding transmit_hole_def Let_def
  by (intro reset_if) (auto intro!: reset_if reset_emit reset_none split: option.split)

lemma reset_pace_gate: "pace_gate self now a u mp = (b, s) \<Longrightarrow> reset_view s = reset_view self"
proof -
  have v: "reset_view x = reset_view y" if "pace_allowance y now rate mp = (z, x)" for x y z rate
    using reset_steps(8)[of y now rate mp] that by simp
  show "pace_gate self now a u mp = (b, s) \<Longrightarrow> reset_view s = reset_view self"
    by (auto simp: pace_gate_def Let_def split: option.splits prod.splits if_splits dest!: v)
qed

lemma reset_sent_new_data [simp]: "reset_view (sent_new_data self now k i al) = reset_view self"
  by (simp add: sent_new_data_def Let_def)

lemma reset_transmit_new: "keeps_reset self (transmit_new self now inflight mp)"
proof -
  define room where "room = min (cc_cwnd (t_cc self) - tx_pipe self inflight) (t_snd_wnd self - inflight)"
  define unsent where "unsent = rb_len (t_tx self) - min inflight (rb_len (t_tx self))"
  obtain a s where g: "pace_gate self now room unsent mp = (a, s)" by fastforce
  note st = reset_pace_gate[OF g]
  show ?thesis
    unfolding transmit_new_def Let_def unsent_def[symmetric] room_def[symmetric] g split_conv
    by (intro reset_if reset_emit reset_none) (simp_all add: st)
qed

lemma reset_transmit_fin: "keeps_reset self (transmit_fin self now data_end)"
  unfolding transmit_fin_def Let_def by (intro reset_if reset_emit reset_none) simp_all

lemma reset_transmit_owed_ack: "keeps_reset self (transmit_owed_ack self)"
  unfolding transmit_owed_ack_def take_needs_ack_def
  by (cases "t_needs_ack self") (auto intro!: reset_emit reset_none)

lemma reset_poll_transmit:
  assumes "poll_transmit self now = Some (out, s)"
  shows "reset_view s = reset_view self"
proof -
  define s0 where "s0 = self\<lparr>t_cur_tsval := word_of_nat now\<rparr>"
  have v: "reset_view s0 = reset_view self" by (simp add: s0_def)
  have "keeps_reset s0 (poll_transmit self now)"
  proof (cases "t_pending_reset self")
    case (Some seq)
    then show ?thesis by (auto simp: poll_transmit_def keeps_reset_def s0_def Let_def bind_Some_iff)
  next
    case None
    have run: "poll_transmit self now = (case t_state s0 of Closed \<Rightarrow> Some (None, s0) | Listen \<Rightarrow> Some (None, s0)
        | SynSent \<Rightarrow> transmit_syn_sent s0 now | SynReceived \<Rightarrow> transmit_syn_received s0 now
        | TimeWait \<Rightarrow> transmit_owed_ack s0 | _ \<Rightarrow> or_else (transmit_data_or_fin s0 now) transmit_owed_ack)"
      unfolding poll_transmit_def Let_def s0_def by (simp add: None)
    have d: "keeps_reset s0 (or_else (transmit_data_or_fin s0 now) transmit_owed_ack)"
      unfolding transmit_data_or_fin_def Let_def
      by (intro reset_or_else reset_transmit_oldest reset_transmit_hole reset_transmit_new reset_transmit_fin
          reset_transmit_owed_ack)
    have h: "keeps_reset s0 (transmit_syn_sent s0 now)"
      by (auto simp: transmit_syn_sent_def keeps_reset_def bind_Some_iff)
    have r: "keeps_reset s0 (transmit_syn_received s0 now)"
      unfolding transmit_syn_received_def by (intro reset_if reset_emit reset_transmit_owed_ack) simp_all
    show ?thesis unfolding run using d h r reset_transmit_owed_ack[of s0] reset_none[OF refl, of s0]
      by (cases "t_state s0") simp_all
  qed
  then show ?thesis using assms v by (simp add: keeps_reset_def)
qed

lemma reset_on_timer:
  assumes "tcb_on_timer self now = Some s" and "deadline_ok self"
  shows "t_reset s = t_reset self \<and> deadline_ok s"
proof -
  obtain r where r: "timer_rtx self now = Some r"
    "s = timer_delayed_ack (timer_time_wait (timer_persist r now) now) now"
    using assms by (auto simp: tcb_on_timer_def)
  have "rto_fired self now = Some r \<Longrightarrow> reset_view r = reset_view self"
    by (auto simp: rto_fired_def Let_def bind_Some_iff)
  moreover have "rto_syn_sent self now = Some r \<Longrightarrow> reset_view r = reset_view self"
    by (auto simp: rto_syn_sent_def Let_def bind_Some_iff split: if_splits)
  ultimately have v: "reset_view r = reset_view self" using timer_rtx_cases[OF r(1)] by auto
  moreover have "t_state r \<in> {t_state self, Closed}" using timer_rtx_state[OF r(1)] by auto
  ultimately have "deadline_ok r" using deadline_ok_view assms(2) by blast
  moreover have p: "reset_view (timer_persist r now) = reset_view r" "t_state (timer_persist r now) = t_state r"
    by (simp_all add: timer_persist_def Let_def split: option.split)
  ultimately have "deadline_ok (timer_persist r now)" using deadline_ok_view[OF p(1)] by simp
  moreover have "t_reset (timer_persist r now) = t_reset self" using flag_of_view(1)[OF p(1)] flag_of_view(1)[OF v] by simp
  ultimately show ?thesis
    unfolding r(2) by (simp add: timer_delayed_ack_def timer_time_wait_def deadline_ok_def split: option.split)
qed

section \<open>A connection that was reset is closed\<close>

lemma closed_stays: "rfc793_path Closed st \<Longrightarrow> st = Closed"
  by (induction rule: rtranclp_induct) (simp_all add: rfc793_from)

lemma reachable_deadline_ok:
  assumes "reachable ov n self" and ov: "overrides_ok ov"
  shows "deadline_ok self"
  using assms(1)
proof (induction rule: reachable.induct)
  case (seg_in n self tcp now ce self')
  then show ?case using reset_on_segment reachable_inv[OF seg_in.hyps(1) ov] by blast
next
  case (tick n self now self')
  then show ?case using reset_on_timer by blast
next
  case (polled n self now out self')
  have "t_state self' \<in> {t_state self, Closed} \<or> t_state self \<in> {Established, CloseWait}"
    using poll_transmit_move[of self now] polled.hyps(2) by (auto simp: fin_move_def elim: rfc793.cases)
  then show ?case
    using deadline_ok_view[of self' self] reset_poll_transmit[OF polled.hyps(2)] flag_of_view(2)[of self' self] polled.IH
    by (auto simp: deadline_ok_def)
qed (auto simp: deadline_ok_def new_syn_received_def new_syn_sent_def set_congestion_control_def tcb_send_def tcb_recv_def
    tcb_close_def Let_def split: state.split prod.split option.split)

lemma reset_is_closed:
  assumes "reachable ov n self" and ov: "overrides_ok ov"
  shows "t_reset self \<Longrightarrow> t_state self = Closed"
  using assms(1)
proof (induction rule: reachable.induct)
  case (seg_in n self tcp now ce self')
  show ?case
  proof (cases "t_state self' = Closed")
    case False
    then have "t_reset self"
      using reset_on_segment[OF reachable_inv[OF seg_in.hyps(1) ov] reachable_deadline_ok[OF seg_in.hyps(1) ov] seg_in.hyps(3)]
        seg_in.prems by blast
    then have "t_state self = Closed" by (rule seg_in.IH)
    then show ?thesis
      using on_segment_path[OF reachable_inv[OF seg_in.hyps(1) ov] seg_in.hyps(3)] closed_stays by auto
  qed
next
  case (tick n self now self')
  then have "t_state self = Closed" using reset_on_timer[OF tick.hyps(3) reachable_deadline_ok[OF tick.hyps(1) ov]] by simp
  then show ?case using on_timer_state[OF tick.hyps(3)] by auto
next
  case (polled n self now out self')
  then have "t_state self = Closed" using flag_of_view(1)[OF reset_poll_transmit[OF polled.hyps(2)]] by simp
  then show ?case using poll_transmit_move[of self now] polled.hyps(2) by (auto simp: fin_move_def rfc793_from)
qed (auto simp: new_syn_received_def new_syn_sent_def set_congestion_control_def tcb_send_def tcb_recv_def tcb_close_def
    Let_def split: state.splits prod.splits if_splits option.splits)

end
