(* ===== verification/Diagram_Events.thy ===== *)
theory Diagram_Events
  imports Receive_Stream Reset_Flag
begin

text \<open>
  The connection refines the RFC 793 state diagram with its events: every edge a handler takes is
  labelled with its cause, each cause has a guard on the segment, the poll or the timer that
  brought it, and a segment that is processed and brings an event is followed by its edge.
\<close>

section \<open>The diagram\<close>

datatype cause = PeerSyn | AckOfSyn | AckOfFin | PeerFin | OwnFin | Abort | Expiry

text \<open>Figure 6 of RFC 793. A SYN-ACK in SYN-SENT is the peer's SYN and then the ACK of ours.\<close>

fun edge :: "state \<Rightarrow> cause \<Rightarrow> state option" where
  "edge SynSent PeerSyn = Some SynReceived"
| "edge SynReceived AckOfSyn = Some Established"
| "edge Established PeerFin = Some CloseWait"
| "edge Established OwnFin = Some FinWait1"
| "edge CloseWait OwnFin = Some LastAck"
| "edge FinWait1 AckOfFin = Some FinWait2"
| "edge FinWait1 PeerFin = Some Closing"
| "edge FinWait2 PeerFin = Some TimeWait"
| "edge Closing AckOfFin = Some TimeWait"
| "edge LastAck AckOfFin = Some Closed"
| "edge SynSent Expiry = Some Closed"
| "edge FinWait2 Expiry = Some Closed"
| "edge TimeWait Expiry = Some Closed"
| "edge st Abort = Some Closed"
| "edge _ _ = None"

fun follows :: "state \<Rightarrow> cause list \<Rightarrow> state option" where
  "follows st [] = Some st"
| "follows st (c # cs) = do { st \<leftarrow> edge st c; follows st cs }"

section \<open>The state and the two FINs\<close>

text \<open>In every state it is known which FINs have been sent, acknowledged and received.\<close>

definition fins_match :: "tcb \<Rightarrow> bool" where
  "fins_match self \<longleftrightarrow>
     (case t_state self of
        Closed \<Rightarrow> True
      | Listen \<Rightarrow> False
      | SynSent \<Rightarrow> t_fin_seq self = None \<and> \<not> t_fin_acked self \<and> \<not> t_peer_fin_seen self
      | SynReceived \<Rightarrow> t_fin_seq self = None \<and> \<not> t_fin_acked self \<and> \<not> t_peer_fin_seen self
      | Established \<Rightarrow> t_fin_seq self = None \<and> \<not> t_fin_acked self \<and> \<not> t_peer_fin_seen self
      | CloseWait \<Rightarrow> t_fin_seq self = None \<and> \<not> t_fin_acked self \<and> t_peer_fin_seen self
      | FinWait1 \<Rightarrow> t_fin_seq self \<noteq> None \<and> \<not> t_fin_acked self \<and> \<not> t_peer_fin_seen self
      | FinWait2 \<Rightarrow> t_fin_seq self \<noteq> None \<and> t_fin_acked self \<and> \<not> t_peer_fin_seen self
      | Closing \<Rightarrow> t_fin_seq self \<noteq> None \<and> \<not> t_fin_acked self \<and> t_peer_fin_seen self
      | LastAck \<Rightarrow> t_fin_seq self \<noteq> None \<and> \<not> t_fin_acked self \<and> t_peer_fin_seen self
      | TimeWait \<Rightarrow> t_fin_seq self \<noteq> None \<and> t_fin_acked self \<and> t_peer_fin_seen self)"

definition fins_view :: "tcb \<Rightarrow> state \<times> seqnum option \<times> bool \<times> bool" where
  "fins_view self = (t_state self, t_fin_seq self, t_fin_acked self, t_peer_fin_seen self)"

lemma fins_match_view: "fins_view a = fins_view b \<Longrightarrow> fins_match a = fins_match b"
  by (auto simp: fins_view_def fins_match_def split: state.split)

lemma fins_viewI: "tx_view a = tx_view b \<Longrightarrow> recv_view a = recv_view b \<Longrightarrow> fins_view a = fins_view b"
  by (simp add: tx_view_def recv_view_def fins_view_def)

section \<open>What a segment causes\<close>

definition acks_syn :: "tcb \<Rightarrow> bytes \<Rightarrow> bool" where
  "acks_syn self tcp \<longleftrightarrow> flag_has (tcp_flags_of tcp) ACK \<and> seq_gt (tcp_ack tcp) (t_snd_una self)
     \<and> seq_le (tcp_ack tcp) (t_snd_nxt self)"

definition acks_fin :: "tcb \<Rightarrow> bytes \<Rightarrow> bool" where
  "acks_fin self tcp \<longleftrightarrow> flag_has (tcp_flags_of tcp) ACK \<and> seq_gt (tcp_ack tcp) (t_snd_una self)
     \<and> \<not> seq_gt (tcp_ack tcp) (t_snd_nxt self)
     \<and> (\<exists>f. t_fin_seq self = Some f \<and> seq_gt (tcp_ack tcp) f)"

text \<open>The guard of each event: what the segment must say for a connection to take the edge.\<close>

fun segment_guard :: "tcb \<Rightarrow> bytes \<Rightarrow> tcb \<Rightarrow> cause \<Rightarrow> bool" where
  "segment_guard self tcp self' PeerSyn \<longleftrightarrow> flag_has (tcp_flags_of tcp) SYN \<and> \<not> flag_has (tcp_flags_of tcp) RST"
| "segment_guard self tcp self' AckOfSyn \<longleftrightarrow> acks_syn self tcp \<and> \<not> flag_has (tcp_flags_of tcp) RST"
| "segment_guard self tcp self' AckOfFin \<longleftrightarrow> acks_fin self tcp \<and> \<not> flag_has (tcp_flags_of tcp) RST"
| "segment_guard self tcp self' PeerFin \<longleftrightarrow> \<not> flag_has (tcp_flags_of tcp) RST
     \<and> (\<exists>f. announces_fin self tcp f \<and> t_rcv_nxt self' = seq_add f 1)"
| "segment_guard self tcp self' Abort \<longleftrightarrow>
     (if flag_has (tcp_flags_of tcp) RST
      then if t_state self = SynSent then acks_syn self tcp
           else seq_in_window self (tcp_seq tcp) \<and> tcp_seq tcp = t_rcv_nxt self
      else t_state self = SynReceived \<and> flag_has (tcp_flags_of tcp) ACK \<and> \<not> acks_syn self tcp
        \<and> t_pending_reset self' = Some (tcp_ack tcp))"
| "segment_guard self tcp self' OwnFin \<longleftrightarrow> False"
| "segment_guard self tcp self' Expiry \<longleftrightarrow> False"

text \<open>
  A segment's effect: the state follows the diagram along guarded events, and of a live
  connection the two FIN events are there exactly when the FINs are acknowledged and received.
\<close>

definition segment_step :: "tcb \<Rightarrow> bytes \<Rightarrow> tcb \<Rightarrow> bool" where
  "segment_step self tcp self' \<longleftrightarrow> (\<exists>cs. follows (t_state self) cs = Some (t_state self')
     \<and> (\<forall>c\<in>set cs. segment_guard self tcp self' c)
     \<and> (t_state self \<noteq> Closed \<longrightarrow>
          (AckOfFin \<in> set cs \<longleftrightarrow> t_fin_acked self' \<and> \<not> t_fin_acked self)
          \<and> (PeerFin \<in> set cs \<longleftrightarrow> t_peer_fin_seen self' \<and> \<not> t_peer_fin_seen self)))"

lemma segment_step_quiet: "fins_view self' = fins_view self \<Longrightarrow> segment_step self tcp self'"
  unfolding segment_step_def by (intro exI[of _ "[]"]) (simp add: fins_view_def)

lemma segment_step_abort:
  assumes "t_state self' = Closed" and "t_fin_acked self' = t_fin_acked self" and "t_peer_fin_seen self' = t_peer_fin_seen self"
    and "segment_guard self tcp self' Abort"
  shows "segment_step self tcp self'"
proof -
  have "edge (t_state self) Abort = Some Closed" by (cases "t_state self") simp_all
  then show ?thesis unfolding segment_step_def using assms by (intro exI[of _ "[Abort]"]) simp
qed

lemma fins_match_closed: "t_state self = Closed \<Longrightarrow> fins_match self"
  by (simp add: fins_match_def)

section \<open>Segments\<close>

lemma syn_sent_step:
  assumes m: "fins_match self" and st: "t_state self = SynSent" and u: "t_snd_una self = t_iss self"
  shows "segment_step self tcp (on_segment_syn_sent ov self tcp) \<and> fins_match (on_segment_syn_sent ov self tcp)"
proof -
  let ?s = "on_segment_syn_sent ov self tcp" and ?f = "tcp_flags_of tcp"
  have n: "t_fin_seq (negotiate ov x tcp) = t_fin_seq x" "t_fin_acked (negotiate ov x tcp) = t_fin_acked x"
    "t_peer_fin_seen (negotiate ov x tcp) = t_peer_fin_seen x" for x
    by (simp_all add: negotiate_def Let_def split: option.split)
  have fl: "t_fin_seq ?s = t_fin_seq self" "t_fin_acked ?s = t_fin_acked self" "t_peer_fin_seen ?s = t_peer_fin_seen self"
    by (simp_all add: on_segment_syn_sent_def syn_sent_syn_def Let_def n)
  have none: "t_fin_seq self = None" "\<not> t_fin_acked self" "\<not> t_peer_fin_seen self" using m st by (simp_all add: fins_match_def)
  have a: "acks_syn self tcp \<longleftrightarrow> flag_has ?f ACK \<and> seq_gt (tcp_ack tcp) (t_iss self) \<and> seq_le (tcp_ack tcp) (t_snd_nxt self)"
    using u by (simp add: acks_syn_def)
  have run: "?s = (if flag_has ?f ACK \<and> \<not> acks_syn self tcp
      then (if \<not> flag_has ?f RST then self\<lparr>t_pending_reset := Some (tcp_ack tcp)\<rparr> else self)
      else if flag_has ?f RST then (if acks_syn self tcp then self\<lparr>t_state := Closed, t_reset := True\<rparr> else self)
      else if flag_has ?f SYN then syn_sent_syn ov self tcp (acks_syn self tcp) else self)"
    unfolding a on_segment_syn_sent_def Let_def ..
  have opened: "t_state (syn_sent_syn ov self tcp b) = (if b then Established else SynReceived)" for b
    by (simp add: syn_sent_syn_def Let_def)
  consider (same) "t_state ?s = SynSent"
    | (rst) "t_state ?s = Closed" "flag_has ?f RST" "acks_syn self tcp"
    | (syn) "t_state ?s = SynReceived" "flag_has ?f SYN" "\<not> flag_has ?f RST"
    | (syn_ack) "t_state ?s = Established" "flag_has ?f SYN" "\<not> flag_has ?f RST" "acks_syn self tcp"
    unfolding run using st opened
    by (cases "acks_syn self tcp"; cases "flag_has ?f ACK"; cases "flag_has ?f RST"; cases "flag_has ?f SYN") simp_all
  then show ?thesis
  proof cases
    case same
    then show ?thesis using segment_step_quiet[of ?s self tcp] m fins_match_view[of ?s self] fl st by (simp add: fins_view_def)
  next
    case rst
    then show ?thesis using segment_step_abort[of ?s self tcp] fins_match_closed fl st by simp
  next
    case syn
    then have "segment_step self tcp ?s" unfolding segment_step_def using st fl by (intro exI[of _ "[PeerSyn]"]) simp
    then show ?thesis using syn(1) fl none by (simp add: fins_match_def)
  next
    case syn_ack
    then have "segment_step self tcp ?s" unfolding segment_step_def using st fl by (intro exI[of _ "[PeerSyn, AckOfSyn]"]) simp
    then show ?thesis using syn_ack(1) fl none by (simp add: fins_match_def)
  qed
qed

text \<open>Steps 6 to 8: the closing state follows both FINs.\<close>

lemma data_and_fin_fins:
  assumes "data_and_fin self now tcp ce = Some self'"
  shows "t_state self' = closing_state (t_state self) (t_fin_acked self) (t_peer_fin_seen self')
    \<and> t_fin_acked self' = t_fin_acked self \<and> t_fin_seq self' = t_fin_seq self
    \<and> (t_peer_fin_seen self \<longrightarrow> t_peer_fin_seen self')"
proof -
  obtain s1 where s1: "receive_data self now (tcp_seq tcp) (tcp_payload tcp) ce = Some s1"
    using assms by (auto simp: data_and_fin_def bind_Some_iff)
  define s2 where "s2 = consume_pending_fin (if flag_has (tcp_flags_of tcp) FIN
        then receive_fin s1 (seq_add (tcp_seq tcp) (length (tcp_payload tcp))) else s1)"
  have e: "self' = recompute_closing_state s2 now" using assms s1 by (simp add: data_and_fin_def s2_def)
  have tx: "tx_view s2 = tx_view self" using receive_data_tx[OF s1] by (simp add: s2_def)
  have "t_peer_fin_seen s1 \<Longrightarrow> t_peer_fin_seen s2"
    by (simp add: s2_def consume_pending_fin_def receive_fin_def Let_def split: option.split)
  then have "t_peer_fin_seen self \<longrightarrow> t_peer_fin_seen s2" using receive_data_fin(1)[OF s1] by simp
  moreover have "recv_view self' = recv_view s2" using e by simp
  ultimately show ?thesis using tx recompute_tx[of s2 now] e by (simp add: tx_view_def recv_view_def)
qed

lemma ack_step_fins:
  assumes run: "ack_step self now tcp e = Some (ok, s)" and st: "t_state self \<noteq> SynSent" and A: "flag_has (tcp_flags_of tcp) ACK"
  shows "t_fin_seq s = t_fin_seq self
    \<and> (if t_state self = SynReceived
       then t_fin_acked s = t_fin_acked self \<and> (ok \<longleftrightarrow> acks_syn self tcp)
         \<and> (if ok then t_state s = Established else t_state s = Closed \<and> t_pending_reset s = Some (tcp_ack tcp))
       else t_state s = t_state self \<and> (t_fin_acked self \<longrightarrow> t_fin_acked s)
         \<and> (t_fin_acked s \<and> \<not> t_fin_acked self \<longrightarrow> ok \<and> acks_fin self tcp))"
proof (cases "t_state self = SynReceived")
  case True
  have "ack_syn_received self tcp = (ok, s)" using run True by (simp add: ack_step_def)
  moreover have "t_fin_seq (update_window x a b c) = t_fin_seq x" "t_fin_acked (update_window x a b c) = t_fin_acked x" for x a b c
    by (simp_all add: update_window_def Let_def)
  ultimately show ?thesis using True A by (auto simp: ack_syn_received_def acks_syn_def Let_def split: if_splits)
next
  case False
  then have r: "ack_synchronized self now tcp e = Some (ok, s)" using run by (simp add: ack_step_def)
  from ack_synchronized_tx[OF r] show ?thesis
  proof (elim disjE exE conjE)
    assume "tx_view s = tx_view self"
    then show ?thesis using False by (simp add: tx_view_def)
  next
    fix x assume x: "ack_advance self (tcp_ack tcp) e (ace_field tcp) now = Some x" "tx_view s = tx_view x"
      "seq_gt (tcp_ack tcp) (t_snd_una self)" "\<not> seq_gt (tcp_ack tcp) (t_snd_nxt self)"
    have "ok" using r x(4) by (auto simp: ack_synchronized_def process_ack_def Let_def bind_Some_iff split: if_splits)
    then show ?thesis using ack_advance_tx[OF x(1)] x(2,3,4) False A by (auto simp: tx_view_def acks_fin_def)
  qed
qed

text \<open>The two FINs together, from a state that matches them.\<close>

lemma closing_step:
  assumes m: "fins_match self" and st: "t_state self \<notin> {SynSent, SynReceived}"
    and fa: "t_fin_acked self \<longrightarrow> t_fin_acked self'" "t_fin_acked self' \<and> \<not> t_fin_acked self \<longrightarrow> segment_guard self tcp self' AckOfFin"
    and pf: "t_peer_fin_seen self \<longrightarrow> t_peer_fin_seen self'" "t_peer_fin_seen self' \<and> \<not> t_peer_fin_seen self \<longrightarrow> segment_guard self tcp self' PeerFin"
    and c: "t_state self' = closing_state (t_state self) (t_fin_acked self') (t_peer_fin_seen self')"
    and f: "t_fin_seq self' = t_fin_seq self"
  shows "segment_step self tcp self' \<and> fins_match self'"
proof (cases "t_state self = Closed")
  case True
  then have "t_state self' = Closed" using c by (simp add: closing_state_def)
  then show ?thesis using True fins_match_closed unfolding segment_step_def by (intro conjI exI[of _ "[]"]) simp_all
next
  case False
  let ?a = "t_fin_acked self' \<and> \<not> t_fin_acked self" and ?p = "t_peer_fin_seen self' \<and> \<not> t_peer_fin_seen self"
  let ?cs = "(if ?a then [AckOfFin] else []) @ (if ?p then [PeerFin] else [])"
  have g: "\<forall>c\<in>set ?cs. segment_guard self tcp self' c" using fa(2) pf(2) by auto
  have sent: "t_fin_seq self \<noteq> None" if ?a using fa(2) that by (auto simp: acks_fin_def)
  have "follows (t_state self) ?cs = Some (t_state self') \<and> fins_match self'"
    using m st False fa(1) pf(1) sent
    by (cases "t_state self") (auto simp: fins_match_def closing_state_def c f split: bool.splits)
  then show ?thesis unfolding segment_step_def using g by (intro conjI exI[of _ ?cs]) simp_all
qed

lemma acceptable_step:
  assumes inv: "tcb_inv n self" and m: "fins_match self" and st: "t_state self \<noteq> SynSent"
    and rst: "\<not> flag_has (tcp_flags_of tcp) RST"
    and run: "on_acceptable self now tcp ts ce = Some self'"
  shows "segment_step self tcp self' \<and> fins_match self'"
proof (cases "flag_has (tcp_flags_of tcp) ACK")
  case False
  then show ?thesis using run m segment_step_quiet[OF refl] by (simp add: on_acceptable_def)
next
  case True
  obtain ok s where a: "ack_step self now tcp (map_option snd ts) = Some (ok, s)" and rv: "recv_view s = recv_view self"
    using ack_step_ok[OF inv st, of now tcp "map_option snd ts"] by blast
  have d: "(if ok then data_and_fin s now tcp ce else Some s) = Some self'"
    using run True a by (simp add: on_acceptable_def)
  note s = ack_step_fins[OF a st True]
  have pf: "t_peer_fin_seen s = t_peer_fin_seen self" using rv by (simp add: recv_view_def)
  have go: "t_state self' = closing_state (t_state s) (t_fin_acked s) (t_peer_fin_seen self')"
      "t_fin_acked self' = t_fin_acked s" "t_fin_seq self' = t_fin_seq s" "t_peer_fin_seen s \<longrightarrow> t_peer_fin_seen self'"
      "fin_traced self tcp self'" if ok
    using d that data_and_fin_fins[of s now tcp ce self'] data_and_fin_traced[of s now tcp ce self'] fin_traced_view(1)[OF rv]
    by simp_all
  have pg: "segment_guard self tcp self' PeerFin" if ok "t_peer_fin_seen self'" "\<not> t_peer_fin_seen self"
    using go(5)[OF that(1)] that(2,3) rst by (simp add: fin_traced_def)
  show ?thesis
  proof (cases "t_state self = SynReceived")
    case False
    show ?thesis
    proof (cases ok)
      case True
      show ?thesis
        by (rule closing_step[OF m]) (use go[OF True] pg[OF True] s False st pf rst in auto)
    next
      case no: False
      then have "fins_view self' = fins_view self" using d s False pf by (auto simp: fins_view_def)
      then show ?thesis using segment_step_quiet fins_match_view m by blast
    qed
  next
    case syn: True
    have m': "t_fin_seq self = None" "\<not> t_fin_acked self" "\<not> t_peer_fin_seen self" using m syn by (simp_all add: fins_match_def)
    show ?thesis
    proof (cases ok)
      case True
      have e: "t_state self' = (if t_peer_fin_seen self' then CloseWait else Established)" "\<not> t_fin_acked self'" "t_fin_seq self' = None"
        using go[OF True] s syn True m' by (auto simp: closing_state_def)
      let ?cs = "AckOfSyn # (if t_peer_fin_seen self' then [PeerFin] else [])"
      have "follows SynReceived ?cs = Some (t_state self')" using e by simp
      moreover have "\<forall>c\<in>set ?cs. segment_guard self tcp self' c" using s syn True pg[OF True] m' rst by auto
      ultimately show ?thesis
        using e m' syn unfolding segment_step_def by (intro conjI exI[of _ ?cs]) (auto simp: fins_match_def)
    next
      case False
      then have "self' = s" using d by simp
      then show ?thesis
        using s syn False pf rst True segment_step_abort[of self' self tcp] fins_match_closed[of self'] by auto
    qed
  qed
qed

lemma on_segment_step:
  assumes inv: "tcb_inv n self" and m: "fins_match self" and run: "on_segment ov self now tcp ce = Some self'"
  shows "segment_step self tcp self' \<and> fins_match self'"
proof (cases "t_state self = SynSent")
  case True
  then have "t_snd_una self = t_iss self" using inv by (simp add: tcb_inv_def send_inv_def)
  then show ?thesis using syn_sent_step[OF m True, of tcp ov] run True by (simp add: on_segment_def)
next
  case False
  define ts where "ts = (if t_ts_enabled self then timestamps tcp else None)"
  let ?s = "advance_ts_recent self (tcp_seq tcp) ts"
  have v: "fins_view (challenge_ack self now) = fins_view self" "fins_view (on_syn self now q) = fins_view self"
    "fins_view (arm_time_wait (self\<lparr>t_needs_ack := True\<rparr>) now) = fins_view self" "fins_view (self\<lparr>t_needs_ack := True\<rparr>) = fins_view self" for q
    by (simp_all add: fins_view_def on_syn_def challenge_ack_def arm_time_wait_def Let_def)
  have sv: "fins_view ?s = fins_view self" "tcb_inv n ?s" "tx_view ?s = tx_view self" "recv_view ?s = recv_view self"
    "t_pending_reset ?s = t_pending_reset self"
    using inv by (simp_all add: fins_view_def) (simp_all add: advance_ts_recent_def split: option.split)
  consider (rst) "flag_has (tcp_flags_of tcp) RST" "self' = on_rst self now (tcp_seq tcp)"
    | (quiet) "fins_view self' = fins_view self"
    | (acc) "\<not> flag_has (tcp_flags_of tcp) RST" "on_acceptable ?s now tcp ts ce = Some self'"
    using run False v by (auto simp: on_segment_def Let_def ts_def[symmetric] split: if_splits)
  then show ?thesis
  proof cases
    case rst
    show ?thesis
    proof (cases "seq_in_window self (tcp_seq tcp) \<and> tcp_seq tcp = t_rcv_nxt self")
      case True
      have "self' = self\<lparr>t_state := Closed, t_reset := True\<rparr>"
        unfolding rst(2) on_rst_def using True[THEN conjunct1] True[THEN conjunct2] by simp
      then show ?thesis using segment_step_abort[of self' self tcp] fins_match_closed[of self'] True[THEN conjunct1] True[THEN conjunct2] rst(1) False by simp
    next
      case no: False
      then have "fins_view self' = fins_view self" using rst(2) v(1) by (auto simp: on_rst_def)
      then show ?thesis using segment_step_quiet fins_match_view m by blast
    qed
  next
    case quiet
    then show ?thesis using segment_step_quiet fins_match_view m by blast
  next
    case acc
    have "t_state ?s \<noteq> SynSent" "fins_match ?s" using sv(1) False m fins_match_view[OF sv(1)] by (simp_all add: fins_view_def)
    from acceptable_step[OF sv(2) this(2,1) acc(1,2)] have "segment_step ?s tcp self'" "fins_match self'" by simp_all
    moreover have "seq_in_window ?s q = seq_in_window self q" for q
      using sv(4) by (simp add: seq_in_window_def recv_view_def)
    then have "segment_guard ?s tcp self' c = segment_guard self tcp self' c" for c
      using sv(1,3,4) by (cases c) (simp_all add: acks_syn_def acks_fin_def announces_fin_def fins_view_def tx_view_def recv_view_def)
    ultimately show ?thesis using sv(1) unfolding segment_step_def by (simp add: fins_view_def)
  qed
qed

section \<open>No event is missed\<close>

text \<open>A segment that passes the checks before the ACK is processed.\<close>

definition heard :: "tcb \<Rightarrow> bytes \<Rightarrow> bool" where
  "heard self tcp \<longleftrightarrow> t_state self \<notin> {SynSent, TimeWait} \<and> flag_has (tcp_flags_of tcp) ACK
     \<and> \<not> flag_has (tcp_flags_of tcp) RST \<and> \<not> flag_has (tcp_flags_of tcp) SYN
     \<and> \<not> paws_rejects self (if t_ts_enabled self then timestamps tcp else None)
     \<and> segment_acceptable self (tcp_seq tcp) (seg_len tcp)"

definition heeded :: "tcb \<Rightarrow> bytes \<Rightarrow> tcb \<Rightarrow> bool" where
  "heeded self tcp self' \<longleftrightarrow>
     (if t_state self = SynReceived
      then t_state self' \<in> (if acks_syn self tcp then {Established, CloseWait} else {Closed})
      else acks_fin self tcp \<longrightarrow> t_fin_acked self')
     \<and> (flag_has (tcp_flags_of tcp) FIN
          \<and> (if t_state self = SynReceived then acks_syn self tcp else \<not> seq_gt (tcp_ack tcp) (t_snd_nxt self))
        \<longrightarrow> t_peer_fin_seen self' \<or> t_rcv_nxt self' \<noteq> seq_add (tcp_seq tcp) (length (tcp_payload tcp)))"

lemma data_and_fin_hears:
  assumes "data_and_fin self now tcp ce = Some self'" and F: "flag_has (tcp_flags_of tcp) FIN"
  shows "t_peer_fin_seen self' \<or> t_rcv_nxt self' \<noteq> seq_add (tcp_seq tcp) (length (tcp_payload tcp))"
proof -
  obtain s1 where s1: "receive_data self now (tcp_seq tcp) (tcp_payload tcp) ce = Some s1"
    using assms by (auto simp: data_and_fin_def bind_Some_iff)
  let ?f = "seq_add (tcp_seq tcp) (length (tcp_payload tcp))"
  let ?s = "consume_pending_fin (receive_fin s1 ?f)"
  have "self' = recompute_closing_state ?s now" using assms s1 F by (simp add: data_and_fin_def)
  then have "recv_view self' = recv_view ?s" by simp
  moreover have "t_peer_fin_seen ?s \<or> t_rcv_nxt ?s \<noteq> ?f"
    by (simp add: consume_pending_fin_def receive_fin_def Let_def split: option.split)
  ultimately show ?thesis by (simp add: recv_view_def)
qed

lemma ack_step_hears:
  assumes inv: "tcb_inv n self" and st: "t_state self \<noteq> SynSent" and run: "ack_step self now tcp e = Some (ok, s)"
    and A: "flag_has (tcp_flags_of tcp) ACK"
  shows "(ok \<longleftrightarrow> (if t_state self = SynReceived then acks_syn self tcp else \<not> seq_gt (tcp_ack tcp) (t_snd_nxt self)))
    \<and> (t_state self \<noteq> SynReceived \<and> acks_fin self tcp \<longrightarrow> t_fin_acked s)"
proof (cases "t_state self = SynReceived")
  case True
  then show ?thesis using ack_step_fins[OF run st A] by simp
next
  case False
  then have r: "ack_synchronized self now tcp e = Some (ok, s)" using run by (simp add: ack_step_def)
  then have ok: "ok \<longleftrightarrow> \<not> seq_gt (tcp_ack tcp) (t_snd_nxt self)"
    by (auto simp: ack_synchronized_def process_ack_def Let_def bind_Some_iff split: if_splits)
  have "t_fin_acked s" if h: "acks_fin self tcp"
  proof -
    from h have g: "seq_gt (tcp_ack tcp) (t_snd_una self)" "\<not> seq_gt (tcp_ack tcp) (t_snd_nxt self)"
      "\<exists>f. t_fin_seq self = Some f \<and> seq_gt (tcp_ack tcp) f" by (simp_all add: acks_fin_def)
    obtain b p where p: "process_ack self (tcp_seq tcp) (tcp_ack tcp) (tcp_window tcp) e (ace_field tcp) now = Some (b, p)"
      using r by (auto simp: ack_synchronized_def Let_def bind_Some_iff)
    then obtain x where x: "ack_advance self (tcp_ack tcp) e (ace_field tcp) now = Some x" "tx_view p = tx_view x"
      using g(1,2) by (auto simp: process_ack_def bind_Some_iff)
    have "tx_view s = tx_view p"
      using r p by (auto simp: ack_synchronized_def Let_def loss_tx_view split: if_splits)
    then show ?thesis using ack_advance_tx(7)[OF x(1)] x(2) g(3) by (simp add: tx_view_def)
  qed
  then show ?thesis using ok False by simp
qed

lemma on_segment_hears:
  assumes inv: "tcb_inv n self" and h: "heard self tcp" and run: "on_segment ov self now tcp ce = Some self'"
  shows "heeded self tcp self'"
proof -
  define ts where "ts = (if t_ts_enabled self then timestamps tcp else None)"
  let ?s = "advance_ts_recent self (tcp_seq tcp) ts"
  have v: "tx_view ?s = tx_view self" "tcb_inv n ?s" using inv by simp_all
  have st: "t_state ?s = t_state self" using v(1) by (simp add: tx_view_def)
  have eq: "acks_syn ?s tcp = acks_syn self tcp" "acks_fin ?s tcp = acks_fin self tcp" "t_snd_nxt ?s = t_snd_nxt self"
    using v(1) by (simp_all add: acks_syn_def acks_fin_def tx_view_def)
  have acc: "on_acceptable ?s now tcp ts ce = Some self'" and A: "flag_has (tcp_flags_of tcp) ACK" and n: "t_state ?s \<noteq> SynSent"
    using run h st by (simp_all add: on_segment_def heard_def Let_def ts_def)
  then obtain ok s where a: "ack_step ?s now tcp (map_option snd ts) = Some (ok, s)"
    and d: "(if ok then data_and_fin s now tcp ce else Some s) = Some self'"
    by (auto simp: on_acceptable_def bind_Some_iff)
  note s = ack_step_hears[OF v(2) n a A, unfolded st eq] ack_step_fins[OF a n A, unfolded st eq]
  show ?thesis
  proof (cases ok)
    case True
    then have r: "data_and_fin s now tcp ce = Some self'" using d by simp
    from data_and_fin_fins[OF r] data_and_fin_hears[OF r] s True show ?thesis
      by (auto simp: heeded_def closing_state_def)
  next
    case False
    then have "self' = s" using d by simp
    then show ?thesis using s False by (auto simp: heeded_def acks_fin_def)
  qed
qed

text \<open>The other two ways out: a reset that is to be believed, and the answer to an active open.\<close>

lemma on_segment_resets:
  assumes "segment_guard self tcp self' Abort" and "flag_has (tcp_flags_of tcp) RST" and inv: "tcb_inv n self"
    and "on_segment ov self now tcp ce = Some self'"
  shows "t_state self' = Closed"
proof (cases "t_state self = SynSent")
  case True
  moreover have "t_snd_una self = t_iss self" using inv True by (simp add: tcb_inv_def send_inv_def)
  ultimately show ?thesis using assms by (auto simp: on_segment_def on_segment_syn_sent_def acks_syn_def Let_def)
next
  case False
  have "segment_guard self tcp self' Abort \<longleftrightarrow> seq_in_window self (tcp_seq tcp) \<and> tcp_seq tcp = t_rcv_nxt self"
    using assms(2) False by simp
  then have "seq_in_window self (tcp_seq tcp) \<and> tcp_seq tcp = t_rcv_nxt self" using assms(1) by blast
  moreover have "self' = on_rst self now (tcp_seq tcp)" using assms(2,4) False by (simp add: on_segment_def)
  ultimately show ?thesis unfolding on_rst_def by auto
qed

lemma syn_sent_answered:
  assumes "t_state self = SynSent" and "flag_has (tcp_flags_of tcp) SYN" and "\<not> flag_has (tcp_flags_of tcp) RST"
    and "flag_has (tcp_flags_of tcp) ACK \<longrightarrow> acks_syn self tcp" and inv: "tcb_inv n self"
    and "on_segment ov self now tcp ce = Some self'"
  shows "t_state self' = (if acks_syn self tcp then Established else SynReceived)"
proof -
  have "t_snd_una self = t_iss self" using inv assms(1) by (simp add: tcb_inv_def send_inv_def)
  then show ?thesis
    using assms(1-4,6) by (auto simp: on_segment_def on_segment_syn_sent_def syn_sent_syn_def acks_syn_def Let_def)
qed

section \<open>Polls, timers and the application\<close>

text \<open>A poll moves the state only by sending the FIN behind the last byte queued.\<close>

definition own_fin :: "tcb \<Rightarrow> tcb \<Rightarrow> bool" where
  "own_fin self self' \<longleftrightarrow> edge (t_state self) OwnFin = Some (t_state self') \<and> t_fin_seq self' = Some (t_snd_nxt self)
     \<and> t_snd_nxt self = seq_add (t_snd_una self) (rb_len (t_tx self)) \<and> t_snd_nxt self' = seq_add (t_snd_nxt self) 1"

lemma poll_moves:
  assumes inv: "tcb_inv n self" and m: "fins_match self" and run: "poll_transmit self now = Some (out, self')"
  shows "(t_state self' = t_state self \<or> out \<noteq> None \<and> own_fin self self') \<and> fins_match self'"
proof -
  have pf: "t_peer_fin_seen self' = t_peer_fin_seen self"
    using poll_transmit_ok[OF inv, of now] run by (auto simp: step_ok_def recv_edge_def)
  have "t_mss_advertise self \<noteq> 0" using inv by (simp add: tcb_inv_def core_inv_def)
  from poll_transmit_sent[OF this, of now] run have tx: "case out of None \<Rightarrow> tx_view self' = tx_view self | Some f \<Rightarrow> tx_moves self self'"
    by (auto simp: sent_step_def split: option.splits)
  then consider (same) "fins_view self' = fins_view self"
    | (fin) "out \<noteq> None" "t_state self \<notin> {SynSent, SynReceived}" "t_state self' \<notin> {SynSent, SynReceived, Established, CloseWait}"
        "\<not> t_fin_acked self" "\<not> t_fin_acked self'" "t_snd_nxt self = seq_add (t_snd_una self) (rb_len (t_tx self))"
        "t_fin_seq self' = Some (t_snd_nxt self)" "t_snd_nxt self' = seq_add (t_snd_nxt self) 1"
    using pf by (cases out) (auto simp: tx_moves_def tx_view_def fins_view_def)
  then show ?thesis
  proof cases
    case same
    then show ?thesis using m fins_match_view[OF same] by (simp add: fins_view_def)
  next
    case fin
    have "t_state self' = t_state self \<or> rfc793 (t_state self) (t_state self') \<and> t_state self' \<in> {FinWait1, LastAck}"
      using poll_transmit_move[of self now] run by (auto simp: fin_move_def)
    then show ?thesis
    proof (elim disjE conjE)
      assume "t_state self' = t_state self"
      moreover from this have "fins_match self'" using m fin pf by (cases "t_state self") (auto simp: fins_match_def)
      ultimately show ?thesis by simp
    next
      assume h: "rfc793 (t_state self) (t_state self')" "t_state self' \<in> {FinWait1, LastAck}"
      then have e: "edge (t_state self) OwnFin = Some (t_state self')" by (auto elim: rfc793.cases)
      then have "own_fin self self'" using fin by (simp add: own_fin_def)
      moreover have "fins_match self'" using h m fin pf by (auto simp: fins_match_def elim: rfc793.cases)
      ultimately show ?thesis using fin(1) by simp
    qed
  qed
qed

text \<open>A timer closes the connection, when the SYN's retries or the wait for the peer are over.\<close>

lemma timer_step:
  assumes m: "fins_match self" and d: "deadline_ok self" and run: "tcb_on_timer self now = Some self'"
  shows "(t_state self' = t_state self \<or> edge (t_state self) Expiry = Some (t_state self')
        \<and> (if t_state self = SynSent then MAX_SYN_RETRIES \<le> t_syn_retries self + 1
           else \<exists>d. t_time_wait_deadline self = Some d \<and> d \<le> now))
    \<and> fins_match self'"
proof -
  have rv: "t_peer_fin_seen self' = t_peer_fin_seen self" using on_timer_recv_view[OF run] by (simp add: recv_view_def)
  have "fins_view self' = fins_view self \<or> t_state self' = Closed"
    using timer_tx[OF run] rv by (auto simp: tx_view_def fins_view_def)
  then have "fins_match self'" using m fins_match_view fins_match_closed by blast
  moreover have "t_state self = Closed \<longrightarrow> t_state self' = t_state self" using on_timer_state[OF run] by auto
  ultimately show ?thesis using on_timer_state[OF run] d by (auto simp: deadline_ok_def)
qed

lemma calls_keep_fins:
  "fins_view (fst (tcb_send self bytes)) = fins_view self" "fins_view (fst (tcb_recv self len)) = fins_view self"
  "fins_view (tcb_close self) = fins_view self" "fins_view (set_congestion_control ov self kind) = fins_view self"
  by (simp_all add: tcb_send_def tcb_recv_def tcb_close_def set_congestion_control_def fins_view_def Let_def
      split: state.split prod.split)

lemma reachable_fins:
  assumes "reachable ov n self" and ov: "overrides_ok ov"
  shows "fins_match self"
  using assms(1)
proof (induction rule: reachable.induct)
  case (passive_open mss syn local remote iss now)
  show ?case by (simp add: fins_match_def new_syn_received_def Let_def split: option.split prod.split)
next
  case (active_open mss local remote iss now)
  show ?case by (simp add: fins_match_def new_syn_sent_def Let_def)
next
  case (seg_in n self tcp now ce self')
  then show ?case using on_segment_step reachable_inv[OF seg_in.hyps(1) ov] by blast
next
  case (tick n self now self')
  then show ?case using timer_step reachable_deadline_ok[OF tick.hyps(1) ov] by blast
next
  case (polled n self now out self')
  then show ?case using poll_moves reachable_inv[OF polled.hyps(1) ov] by blast
qed (use fins_match_view[OF calls_keep_fins(1)] fins_match_view[OF calls_keep_fins(2)] fins_match_view[OF calls_keep_fins(3)]
    fins_match_view[OF calls_keep_fins(4)] in simp_all)

section \<open>The refinement\<close>



end
