(* ===== verification/Give_Up.thy ===== *)
theory Give_Up
  imports State_Diagram
begin

text \<open>
  Progress: an active open that nobody answers ends. The peer is silent, the event loop fires
  each retransmission deadline when it is due and polls the connection after it.
\<close>

fun silence :: "nat \<Rightarrow> tcb \<Rightarrow> instant \<Rightarrow> (tcb \<times> instant) option" where
  "silence 0 self t = Some (self, t)"
| "silence (Suc k) self t =
     (case t_rtx_deadline self of
        None \<Rightarrow> Some (self, t)
      | Some d \<Rightarrow> do {
          self \<leftarrow> tcb_on_timer self d;
          (_, self) \<leftarrow> poll_transmit self d;
          silence k self d
        })"

lemma timer_tail_fields:
  defines "f \<equiv> \<lambda>s now. timer_delayed_ack (timer_time_wait (timer_persist s now) now) now"
  shows "t_rtx_deadline (f s now) = t_rtx_deadline s" "t_syn_retries (f s now) = t_syn_retries s"
  by (simp_all add: f_def timer_delayed_ack_def timer_time_wait_def timer_persist_def Let_def split: option.split)

text \<open>One expiration in SYN-SENT: the connection closes, or retries once more, later.\<close>

lemma syn_sent_expires:
  assumes inv: "tcb_inv n self" and st: "t_state self = SynSent" and d: "t_rtx_deadline self = Some d"
    and run: "tcb_on_timer self d = Some s"
  shows "t_state s = Closed
    \<or> (t_state s = SynSent \<and> t_syn_retries s = t_syn_retries self + 1 \<and> t_syn_retries s < MAX_SYN_RETRIES
       \<and> (\<exists>d'. t_rtx_deadline s = Some d' \<and> d' \<le> d + MAX_RTO))"
proof -
  obtain r where r: "rto_syn_sent self d = Some r"
    "s = timer_delayed_ack (timer_time_wait (timer_persist r d) d) d"
    using run st d by (auto simp: tcb_on_timer_def timer_rtx_def)
  show ?thesis
  proof (cases "MAX_SYN_RETRIES \<le> t_syn_retries self + 1")
    case True
    then have "t_state r = Closed" using r(1) by (auto simp: rto_syn_sent_def)
    then show ?thesis unfolding r(2) timer_tail_state by (simp split: option.split)
  next
    case False
    then obtain e where e: "rtt_on_timeout (t_rtt self) = Some e"
      and re: "r = restart_rtx (self\<lparr>t_syn_retries := t_syn_retries self + 1, t_retransmit := True, t_rtt := e\<rparr>) d"
      using r(1) by (auto simp: rto_syn_sent_def Let_def bind_Some_iff)
    have "rto e \<le> MAX_RTO" using e by (auto simp: rtt_on_timeout_def bind_Some_iff)
    then have "plus_micros d (rto_micros e) \<le> d + MAX_RTO" by (simp add: plus_micros_def sat_add64_def rto_micros_def)
    then have "t_state r = SynSent" "t_syn_retries r = t_syn_retries self + 1"
      "\<exists>d'. t_rtx_deadline r = Some d' \<and> d' \<le> d + MAX_RTO"
      using st by (simp_all add: re restart_rtx_def)
    then show ?thesis using False unfolding r(2) timer_tail_fields timer_tail_state by (simp split: option.split)
  qed
qed

lemma syn_sent_poll_keeps:
  assumes "t_state self = SynSent" and "t_rtx_deadline self = Some d" and "poll_transmit self now = Some (out, s)"
  shows "t_state s = SynSent \<and> t_syn_retries s = t_syn_retries self \<and> t_rtx_deadline s = Some d"
  using assms
  by (auto simp: poll_transmit_def transmit_syn_sent_def Let_def bind_Some_iff start_rtx_def split: option.splits if_splits)

lemma closed_poll: "t_state self = Closed \<Longrightarrow> poll_transmit self now = Some (out, s) \<Longrightarrow> t_state s = Closed"
  by (auto simp: poll_transmit_def Let_def bind_Some_iff split: option.splits)

lemma silence_closes:
  assumes "tcb_inv n self" and "n + m \<le> U32_MAX" and "t_state self = SynSent" and "t_rtx_deadline self = Some d"
    and "m = MAX_SYN_RETRIES - t_syn_retries self" and "0 < m"
  shows "\<exists>k s t'. k \<le> m \<and> silence k self t = Some (s, t') \<and> t_state s = Closed \<and> t' \<le> d + (m - 1) * MAX_RTO"
  using assms
proof (induction m arbitrary: self n d t)
  case (Suc m)
  have n: "n < U32_MAX" using Suc.prems(2) by simp
  obtain s1 where s1: "tcb_on_timer self d = Some s1" "tcb_inv (Suc n) s1" using on_timer_ok[OF Suc.prems(1) n] by blast
  obtain out s2 where s2: "poll_transmit s1 d = Some (out, s2)" "tcb_inv (Suc n) s2"
    using poll_transmit_ok[OF s1(2), of d] by (auto simp: step_ok_def)
  have run: "silence (Suc k) self t = silence k s2 d" for k using Suc.prems(4) s1(1) s2(1) by simp
  from syn_sent_expires[OF Suc.prems(1,3,4) s1(1)] show ?case
  proof
    assume "t_state s1 = Closed"
    then have "t_state s2 = Closed" using closed_poll s2(1) by blast
    moreover have "silence (Suc 0) self t = Some (s2, d)" unfolding run by simp
    ultimately show ?thesis by (intro exI[of _ "Suc 0"] exI[of _ s2] exI[of _ d]) simp
  next
    assume h: "t_state s1 = SynSent \<and> t_syn_retries s1 = t_syn_retries self + 1 \<and> t_syn_retries s1 < MAX_SYN_RETRIES
       \<and> (\<exists>d'. t_rtx_deadline s1 = Some d' \<and> d' \<le> d + MAX_RTO)"
    then obtain d' where d': "t_rtx_deadline s1 = Some d'" "d' \<le> d + MAX_RTO" by blast
    have k: "t_state s2 = SynSent" "t_syn_retries s2 = t_syn_retries self + 1" "t_rtx_deadline s2 = Some d'"
      using syn_sent_poll_keeps[OF _ d'(1) s2(1)] h by simp_all
    have "t_syn_retries self + 1 < MAX_SYN_RETRIES" using h by simp
    then have m: "m = MAX_SYN_RETRIES - t_syn_retries s2" "0 < m" unfolding k(2) using Suc.prems(5) by linarith+
    have "Suc n + m \<le> U32_MAX" using Suc.prems(2) by simp
    from Suc.IH[OF s2(2) this k(1,3) m, of d] obtain j s t' where
      j: "j \<le> m" "silence j s2 d = Some (s, t')" "t_state s = Closed" "t' \<le> d' + (m - 1) * MAX_RTO" by blast
    have "(m - 1) * MAX_RTO + MAX_RTO = m * MAX_RTO" using m(2) by (cases m) simp_all
    then have "t' \<le> d + m * MAX_RTO" using j(4) d'(2) by linarith
    then show ?thesis using j by (intro exI[of _ "Suc j"] exI[of _ s] exI[of _ t']) (simp add: run del: silence.simps)
  qed
qed simp

text \<open>
  C11: a silent peer is given up on. From every reachable SYN-SENT connection with its
  retransmission timer armed and retries left, firing the deadlines as they fall due (and polling
  after each) closes the connection after at most the retries that are left, and no later than
  one maximal RTO per remaining retry after the first deadline.
\<close>

theorem silent_peer_is_given_up:
  assumes "reachable ov n self" and "overrides_ok ov" and "n + MAX_SYN_RETRIES \<le> U32_MAX"
    and "t_state self = SynSent" and "t_rtx_deadline self = Some d" and "t_syn_retries self < MAX_SYN_RETRIES"
  shows "\<exists>k s t'. k \<le> MAX_SYN_RETRIES - t_syn_retries self \<and> silence k self t = Some (s, t') \<and> t_state s = Closed
    \<and> t' \<le> d + (MAX_SYN_RETRIES - t_syn_retries self - 1) * MAX_RTO"
  using silence_closes[OF reachable_inv[OF assms(1,2)] _ assms(4,5) refl, of t] assms(3,6) by simp

text \<open>The sample connection after its SYN: at most seven expirations.\<close>

theorem silent_peer_is_given_up_witness:
  "\<exists>frame self k s t'. poll_transmit sample_connection 0 = Some (frame, self) \<and> k \<le> 7
    \<and> silence k self 0 = Some (s, t') \<and> t_state s = Closed"
proof -
  obtain frame self where p: "poll_transmit sample_connection 0 = Some (Some frame, self)" using sample_polls by blast
  have f: "t_pending_reset sample_connection = None" "t_state sample_connection = SynSent"
    "t_snd_nxt sample_connection = t_iss sample_connection" "t_syn_retries sample_connection = 0"
    "t_rtx_deadline sample_connection = None"
    by (simp_all add: sample_connection_def new_syn_sent_def)
  obtain d where "t_state self = SynSent" "t_syn_retries self = 0" "t_rtx_deadline self = Some d"
    using p by (auto simp: poll_transmit_def transmit_syn_sent_def f Let_def bind_Some_iff start_rtx_def)
  from silent_peer_is_given_up[OF reachable.polled[OF sample_reachable p] no_overrides_ok _ this(1,3), of 0] this(2) p
  show ?thesis by (auto simp: MAX_SYN_RETRIES_def U32_MAX_def)
qed

end
