(* ===== verification/Edge_Cases.thy ===== *)
theory Edge_Cases
  imports Samples
begin

text \<open>
  What the connection does with segments it must not trust or does not expect: resets, an
  acknowledgement of a zero-window probe, and a duplicate SYN.
\<close>

section \<open>Resets\<close>

text \<open>
  C12: RFC 5961 protection against blind resets. After the handshake has begun, a RST closes
  the connection exactly when it is in the window and names \<open>RCV.NXT\<close>. Elsewhere in the window
  a challenge ACK is owed and counted, unless \<open>CHALLENGE_ACK_LIMIT\<close> were granted since the window
  of a second began, and then nothing changes; the first one after that second begins a new
  window. A RST outside the receive window changes nothing. No RST touches the data, the
  sequence numbers or the timers.
\<close>

theorem reset_needs_exact_sequence:
  assumes "t_state self \<noteq> SynSent" and "flag_has (tcp_flags_of tcp) RST" and "t_challenge_count self \<le> CHALLENGE_ACK_LIMIT"
  shows "\<exists>self'. on_segment ov self now tcp ce = Some self'
    \<and> (t_state self' \<noteq> t_state self \<longrightarrow> t_state self' = Closed \<and> tcp_seq tcp = t_rcv_nxt self \<and> t_reset self')
    \<and> (seq_in_window self (tcp_seq tcp) \<and> tcp_seq tcp = t_rcv_nxt self \<longrightarrow> t_state self' = Closed)
    \<and> (\<not> seq_in_window self (tcp_seq tcp) \<longrightarrow> self' = self)
    \<and> t_challenge_count self' \<le> CHALLENGE_ACK_LIMIT
    \<and> (t_needs_ack self' \<and> \<not> t_needs_ack self \<longrightarrow>
         seq_in_window self (tcp_seq tcp) \<and> tcp_seq tcp \<noteq> t_rcv_nxt self \<and> 0 < t_challenge_count self')
    \<and> (seq_in_window self (tcp_seq tcp) \<and> tcp_seq tcp \<noteq> t_rcv_nxt self \<longrightarrow>
         (if t_challenge_window_start self + 1000000 \<le> now
          then t_needs_ack self' \<and> t_challenge_count self' = 1 \<and> t_challenge_window_start self' = now
          else if t_challenge_count self < CHALLENGE_ACK_LIMIT
          then t_needs_ack self' \<and> t_challenge_count self' = t_challenge_count self + 1
          else self' = self))
    \<and> (now < t_challenge_window_start self + 1000000 \<longrightarrow>
         t_challenge_window_start self' = t_challenge_window_start self \<and> t_challenge_count self \<le> t_challenge_count self'
         \<and> (t_challenge_count self = CHALLENGE_ACK_LIMIT \<longrightarrow> t_needs_ack self' = t_needs_ack self))
    \<and> self' = self\<lparr>t_state := t_state self', t_reset := t_reset self', t_needs_ack := t_needs_ack self',
          t_challenge_window_start := t_challenge_window_start self', t_challenge_count := t_challenge_count self'\<rparr>"
proof -
  have e: "on_segment ov self now tcp ce = Some (on_rst self now (tcp_seq tcp))"
    using assms(1,2) by (simp add: on_segment_def Let_def)
  consider "\<not> seq_in_window self (tcp_seq tcp)" | "seq_in_window self (tcp_seq tcp)" "tcp_seq tcp = t_rcv_nxt self"
    | "seq_in_window self (tcp_seq tcp)" "tcp_seq tcp \<noteq> t_rcv_nxt self" by blast
  then show ?thesis
  proof cases
    case 1
    then show ?thesis using assms(3) unfolding e by (simp add: on_rst_def)
  next
    case 2
    then show ?thesis using assms(3) unfolding e by (simp add: on_rst_def)
  next
    case 3
    then show ?thesis using assms(3) unfolding e
      by (auto simp: on_rst_def challenge_ack_def Let_def saturating_micros_since_def CHALLENGE_ACK_LIMIT_def)
  qed
qed

text \<open>A RST one past \<open>RCV.NXT\<close> of the sample connection earns a challenge ACK, not a close.\<close>

definition sample_rst :: bytes where
  "sample_rst = [192, 0, 0, 80, 0, 0, 3, 236, 0, 0, 0, 0, 0x50, 0x04, 0, 0, 0, 0, 0, 0]"

theorem reset_needs_exact_sequence_witness:
  "\<exists>self'. on_segment no_overrides sample_established 5 sample_rst False = Some self' \<and> t_state self' = Established
    \<and> t_needs_ack self' \<and> t_challenge_count self' = 1"
proof -
  have f: "t_state sample_established = Established" "t_rcv_nxt sample_established = 1003"
    by (simp_all add: sample_established_def)
  have "t_challenge_count sample_passive = 0" by (simp add: sample_passive_def new_syn_received_def Let_def split: option.split)
  then have c: "t_challenge_count sample_established = 0"
    by (simp add: sample_established_def sample_answered_def start_rtx_def)
  have r: "flag_has (tcp_flags_of sample_rst) RST" "tcp_seq sample_rst = 1004"
    by (simp_all add: tcp_flags_of_def sample_rst_def flag_has_def RST_def tcp_seq_def u32_from_be_def)
  have w: "seq_in_window sample_established (tcp_seq sample_rst)"
    using f(2) r(2) by (simp add: seq_in_window_def sample_established_def sample_answered_fields seq_ge_def seq_lt_def distance_def)
  have l: "(0::nat) < CHALLENGE_ACK_LIMIT" by (simp add: CHALLENGE_ACK_LIMIT_def)
  from reset_needs_exact_sequence[OF _ r(1), of sample_established no_overrides 5 False]
  obtain self' where run: "on_segment no_overrides sample_established 5 sample_rst False = Some self'"
    and st: "t_state self' \<noteq> t_state sample_established \<longrightarrow> t_state self' = Closed \<and> tcp_seq sample_rst = t_rcv_nxt sample_established"
    and c: "t_needs_ack self' \<and> t_challenge_count self' = 1"
    using f w r(2) c l by (auto split: if_splits)
  then show ?thesis using f r(2) by auto
qed

section \<open>A peer's acknowledgement beyond SND.NXT\<close>

lemma ack_beyond_dropped:
  assumes "t_state self \<notin> {SynSent, SynReceived, TimeWait}"
    and "\<not> flag_has (tcp_flags_of tcp) RST" "\<not> flag_has (tcp_flags_of tcp) SYN" "flag_has (tcp_flags_of tcp) ACK"
    and "\<not> paws_rejects self (if t_ts_enabled self then timestamps tcp else None)"
    and "segment_acceptable self (tcp_seq tcp) (seg_len tcp)" and "seq_gt (tcp_ack tcp) (t_snd_nxt self)"
  shows "on_segment ov self now tcp ce = Some ((advance_ts_recent self (tcp_seq tcp)
    (if t_ts_enabled self then timestamps tcp else None))\<lparr>t_needs_ack := True\<rparr>)"
proof -
  let ?s = "advance_ts_recent self (tcp_seq tcp) (if t_ts_enabled self then timestamps tcp else None)"
  have "t_state ?s = t_state self" "t_snd_nxt ?s = t_snd_nxt self"
    by (simp_all add: advance_ts_recent_def split: option.split)
  then show ?thesis
    using assms by (simp add: on_segment_def Let_def on_acceptable_def ack_step_def ack_synchronized_def process_ack_def)
qed

text \<open>A zero-window probe leaves \<open>SND.NXT\<close> where it was.\<close>

lemma probe_keeps_nxt:
  assumes "t_snd_wnd self = 0" and "transmit_new self now 0 mp = Some (Some probe, s)"
  shows "t_snd_nxt s = t_snd_nxt self \<and> t_snd_una s = t_snd_una self \<and> t_state s = t_state self \<and> t_snd_wnd s = 0"
proof -
  obtain a s1 where g: "pace_gate self now 0 (rb_len (t_tx self)) mp = (a, s1)" by fastforce
  have a: "a = 0" using pace_gate_quiet(2)[OF g] by simp
  have f: "t_snd_nxt s1 = t_snd_nxt self" "t_snd_una s1 = t_snd_una self" "t_state s1 = t_state self"
    using pace_gate_quiet(1)[OF g] by (simp_all add: quiet_view_def send_view_def)
  have w: "t_snd_wnd s1 = 0"
    using g assms(1) by (auto simp: pace_gate_def pace_allowance_def arm_pace_def Let_def split: option.splits if_splits)
  let ?p = "(arm_persist s1 now)\<lparr>t_send_probe := False\<rparr>"
  have "transmit_new self now 0 mp = (if 0 < rb_len (t_tx self) then
        if t_send_probe (arm_persist s1 now) then emit (build ?p (t_snd_una ?p) 0 (peek_bytes ?p 0 1)) id
        else Some (None, arm_persist s1 now)
      else Some (None, s1))"
    using assms(1) g by (simp add: transmit_new_def Let_def a)
  then have "emit (build ?p (t_snd_una ?p) 0 (peek_bytes ?p 0 1)) id = Some (Some probe, s)"
    using assms(2) by (auto split: if_splits)
  then obtain frame where b: "build ?p (t_snd_una ?p) 0 (peek_bytes ?p 0 1) = Some (frame, s)"
    by (auto simp: emit_def)
  then have "t_snd_nxt s = t_snd_nxt ?p \<and> t_snd_una s = t_snd_una ?p \<and> t_state s = t_state ?p \<and> t_snd_wnd s = t_snd_wnd ?p"
    by (auto simp: build_def advertised_window_def Let_def bind_Some_iff split: prod.splits)
  then show ?thesis using f w by (simp add: arm_persist_def)
qed

text \<open>
  C14: a peer that accepts a zero-window probe is not heard. The probe is the byte at
  \<open>SND.UNA\<close>, sent without advancing \<open>SND.NXT\<close>. If the peer has room by then, it takes
  the byte and acknowledges \<open>SND.UNA + 1\<close>; that ACK is beyond \<open>SND.NXT\<close>, so the
  connection answers it with an ACK and drops it, window update included: the send window
  stays zero, the byte stays unacknowledged.
\<close>

theorem probe_ack_is_dropped:
  assumes "t_state self \<in> {Established, CloseWait}" and "t_snd_nxt self = t_snd_una self" and "t_snd_wnd self = 0"
    and "transmit_new self now 0 mp = Some (Some probe, s)"
    and "\<not> flag_has (tcp_flags_of tcp) RST" "\<not> flag_has (tcp_flags_of tcp) SYN" "flag_has (tcp_flags_of tcp) ACK"
    and "\<not> paws_rejects s (if t_ts_enabled s then timestamps tcp else None)"
    and "segment_acceptable s (tcp_seq tcp) (seg_len tcp)" and "tcp_ack tcp = seq_add (t_snd_una self) 1"
  shows "\<exists>s'. on_segment ov s later tcp ce = Some s' \<and> t_snd_wnd s' = 0 \<and> t_snd_una s' = t_snd_una self
    \<and> t_snd_nxt s' = t_snd_una self \<and> t_needs_ack s'"
proof -
  have k: "t_snd_nxt s = t_snd_una self" "t_snd_una s = t_snd_una self" "t_state s = t_state self" "t_snd_wnd s = 0"
    using probe_keeps_nxt[OF assms(3,4)] assms(2) by simp_all
  have "seq_gt (tcp_ack tcp) (t_snd_nxt s)"
    using offset_from_add[of "t_snd_una self" "t_snd_una self" 1] unfolding assms(10) k(1) seq_gt_offset by simp
  moreover have "t_state s \<notin> {SynSent, SynReceived, TimeWait}" using assms(1) k(3) by auto
  ultimately have "on_segment ov s later tcp ce = Some ((advance_ts_recent s (tcp_seq tcp)
      (if t_ts_enabled s then timestamps tcp else None))\<lparr>t_needs_ack := True\<rparr>)"
    using ack_beyond_dropped assms(5-9) by simp
  then show ?thesis using k by (simp add: advance_ts_recent_def split: option.split)
qed

text \<open>The established sample connection with two bytes to send, a closed window and the probe due.\<close>

definition sample_stalled :: tcb where
  "sample_stalled = sample_established\<lparr>t_tx := \<lparr>rb_buf = [1, 2], rb_capacity = TX_BUFFER\<rparr>, t_snd_wnd := 0, t_send_probe := True\<rparr>"

definition sample_probe_ack :: bytes where
  "sample_probe_ack = [192, 0, 0, 80, 0, 0, 3, 235, 0, 0, 0, 102, 0x50, 0x10, 4, 0, 0, 0, 0, 0]"

lemma sample_stalled_fields:
  "t_state sample_stalled = Established" "t_snd_nxt sample_stalled = 101" "t_snd_una sample_stalled = 101"
  "t_snd_wnd sample_stalled = 0" "t_send_probe sample_stalled" "rb_buf (t_tx sample_stalled) = [1, 2]"
  "t_ts_enabled sample_stalled = False" "t_sack_enabled sample_stalled = False" "t_cc_kind sample_stalled = KReno"
  "t_rcv_nxt sample_stalled = 1003" "t_rcv_adv sample_stalled = 66536" "t_rcv_wscale sample_stalled = 0"
  "t_rx sample_stalled = \<lparr>rb_buf = [104, 105], rb_capacity = RX_BUFFER\<rparr>" "t_reasm sample_stalled = reasm_new"
  "\<exists>r. t_cc sample_stalled = CcReno r"
  by (simp_all add: sample_stalled_def sample_established_def sample_answered_fields)
    (simp_all add: sample_answered_def start_rtx_def sample_passive_fields(19) sample_passive_def new_syn_received_def Let_def
      no_options[OF sample_syn_fields(2)])

lemma sample_probes:
  "\<exists>probe s. transmit_new sample_stalled 5 0 1460 = Some (Some probe, s) \<and> t_ts_enabled s = False
    \<and> t_rcv_nxt s = 1003 \<and> t_rcv_adv s = 66538"
proof -
  define p where "p = (arm_persist sample_stalled 5)\<lparr>t_send_probe := False\<rparr>"
  have v: "quiet_view p = quiet_view sample_stalled" by (simp add: p_def pacing_quiet)
  have i: "tcb_inv 0 sample_established" by (rule reachable_inv[OF sample_reached(3) no_overrides_ok])
  have "recv_view sample_stalled = recv_view sample_established" by (simp add: sample_stalled_def recv_view_def)
  then have "recv_view p = recv_view sample_established" using v by (simp add: quiet_view_def)
  then have ri: "recv_inv p" using recv_inv_view[of p sample_established] i by (simp add: tcb_inv_def)
  have "core_view p = core_view sample_established"
    using v by (simp add: quiet_view_def sample_stalled_def core_view_def)
  then have mss: "unat (t_snd_mss p) \<le> 65495" using i by (simp add: core_view_def tcb_inv_def core_inv_def)
  have f: "t_tx p = t_tx sample_stalled" "t_snd_una p = 101" "t_cc_kind p = KReno" "t_rx p = t_rx sample_stalled"
    "t_reasm p = reasm_new" "t_rcv_nxt p = 1003" "t_rcv_adv p = 66536" "t_rcv_wscale p = 0" "t_ts_enabled p = False"
    by (simp_all add: p_def arm_persist_def sample_stalled_fields)
  have l: "0 + 1 \<le> rb_len (t_tx p)" by (simp add: f sample_stalled_fields rb_len_def)
  have q: "queued_at p (t_snd_una p) (peek_bytes p 0 1)"
    using queued_peek[of "t_snd_una p" p 1] l by (simp only: offset_from_self)
  have len: "length (peek_bytes p 0 1) \<le> max 1 (unat (t_snd_mss p) - seg_opts p)" using peek_bytes_eq(2)[OF l] by simp
  obtain probe s where b: "build p (t_snd_una p) 0 (peek_bytes p 0 1) = Some (probe, s)"
    using build_ok[OF ri _ _ q len mss, of 0] flag_bits(1,2) by blast
  have "advertised_window (p\<lparr>t_delayed_ack_deadline := None, t_unacked_segs := 0\<rparr>)
      = (65535, p\<lparr>t_delayed_ack_deadline := None, t_unacked_segs := 0, t_rcv_adv := 66538\<rparr>)"
    by (simp add: advertised_window_def Let_def f sample_stalled_fields rb_len_def buffered_def reasm_new_def RX_BUFFER_def
        seq_add_def seq_lt_def distance_def offset_from_def)
  then have s: "t_rcv_adv s = 66538" "t_rcv_nxt s = 1003" "t_ts_enabled s = False"
    using b f by (auto simp: build_def Let_def bind_Some_iff split: prod.splits)
  have sp: "t_send_probe (arm_persist sample_stalled 5)" by (simp add: arm_persist_def sample_stalled_fields)
  have pg: "pace_gate sample_stalled 5 x y z = (x, sample_stalled)" for x y z
    using sample_stalled_fields(15) by (auto simp: pace_gate_def)
  have "transmit_new sample_stalled 5 0 1460 = emit (build p (t_snd_una p) 0 (peek_bytes p 0 1)) id"
    unfolding transmit_new_def Let_def pg split_conv using sp
    by (simp add: sample_stalled_fields rb_len_def p_def)
  then have "transmit_new sample_stalled 5 0 1460 = Some (Some probe, s)" using b by (simp add: emit_def)
  then show ?thesis using s by blast
qed

theorem probe_ack_is_dropped_witness:
  "\<exists>probe s s'. transmit_new sample_stalled 5 0 1460 = Some (Some probe, s)
    \<and> on_segment no_overrides s 9 sample_probe_ack False = Some s' \<and> t_snd_wnd s' = 0 \<and> t_snd_una s' = 101"
proof -
  obtain probe s where p: "transmit_new sample_stalled 5 0 1460 = Some (Some probe, s)" "t_ts_enabled s = False"
    "t_rcv_nxt s = 1003" "t_rcv_adv s = 66538" using sample_probes by blast
  have a: "tcp_seq sample_probe_ack = 1003" "tcp_ack sample_probe_ack = 102" "tcp_payload sample_probe_ack = []"
    "\<not> flag_has (tcp_flags_of sample_probe_ack) RST" "\<not> flag_has (tcp_flags_of sample_probe_ack) SYN"
    "flag_has (tcp_flags_of sample_probe_ack) ACK" "\<not> flag_has (tcp_flags_of sample_probe_ack) FIN"
    by (simp_all add: sample_probe_ack_def tcp_seq_def tcp_ack_def u32_from_be_def tcp_payload_def data_offset_def
        tcp_flags_of_def flag_has_def RST_def SYN_def ACK_def FIN_def)
  have "segment_acceptable s (tcp_seq sample_probe_ack) (seg_len sample_probe_ack)"
    by (simp add: segment_acceptable_def seg_len_def a p(3,4) seq_ge_def seq_lt_def distance_def)
  moreover have "\<not> paws_rejects s (if t_ts_enabled s then timestamps sample_probe_ack else None)"
    by (simp add: p(2) paws_rejects_def)
  ultimately have "\<exists>s'. on_segment no_overrides s 9 sample_probe_ack False = Some s' \<and> t_snd_wnd s' = 0
      \<and> t_snd_una s' = t_snd_una sample_stalled \<and> t_snd_nxt s' = t_snd_una sample_stalled \<and> t_needs_ack s'"
    by (intro probe_ack_is_dropped[OF _ _ _ p(1)]) (simp_all add: sample_stalled_fields a seq_add_def)
  then show ?thesis using p(1) by (auto simp: sample_stalled_fields)
qed

section \<open>A duplicate SYN\<close>

lemma rewound_checks:
  "segment_acceptable (self\<lparr>t_snd_nxt := x\<rparr>) seq len = segment_acceptable self seq len"
  "paws_rejects (self\<lparr>t_snd_nxt := x\<rparr>) ts = paws_rejects self ts"
  by (auto simp: segment_acceptable_def paws_rejects_def Let_def split: bool.split option.split)

text \<open>
  C15: a duplicate SYN loses the handshake's ACK. In SYN-RECEIVED, once the SYN-ACK is out, a
  copy of the SYN rewinds \<open>SND.NXT\<close> to the initial sequence number, for the next poll to send
  the SYN-ACK again. If the peer's ACK of the first SYN-ACK is handled before that poll, it is
  judged to acknowledge something never sent: the connection is closed and the peer reset.
\<close>

theorem duplicate_syn_loses_handshake:
  assumes "t_state self = SynReceived" and "t_snd_una self = t_iss self"
    and "\<not> flag_has (tcp_flags_of syn) RST" "flag_has (tcp_flags_of syn) SYN" "tcp_seq syn = t_irs self"
    and "\<not> flag_has (tcp_flags_of tcp) RST" "\<not> flag_has (tcp_flags_of tcp) SYN" "flag_has (tcp_flags_of tcp) ACK"
    and "\<not> paws_rejects self (if t_ts_enabled self then timestamps tcp else None)"
    and "segment_acceptable self (tcp_seq tcp) (seg_len tcp)" and "tcp_ack tcp = seq_add (t_iss self) 1"
  shows "\<exists>s s'. on_segment ov self now syn ce = Some s \<and> on_segment ov s now tcp ce' = Some s'
    \<and> t_state s' = Closed \<and> t_pending_reset s' = Some (tcp_ack tcp)"
proof -
  let ?s = "self\<lparr>t_snd_nxt := t_iss self\<rparr>"
  let ?ts = "if t_ts_enabled self then timestamps tcp else None"
  let ?a = "advance_ts_recent ?s (tcp_seq tcp) ?ts"
  have one: "on_segment ov self now syn ce = Some ?s"
    using assms(1,3-5) by (simp add: on_segment_def on_syn_def Let_def)
  have a: "t_state ?a = SynReceived" "t_snd_una ?a = t_iss self" "t_snd_nxt ?a = t_iss self"
    using assms(1,2) by (simp_all add: advance_ts_recent_def split: option.split)
  have "\<not> seq_le (tcp_ack tcp) (t_iss self)"
    using offset_from_add[of "t_iss self" "t_iss self" 1]
    unfolding assms(11) seq_gt_not_le[symmetric] seq_gt_offset by simp
  then have "on_acceptable ?a now tcp ?ts ce'
      = Some (?a\<lparr>t_pending_reset := Some (tcp_ack tcp), t_state := Closed\<rparr>)"
    using assms(8) a by (simp add: on_acceptable_def ack_step_def ack_syn_received_def)
  moreover have "segment_acceptable ?s (tcp_seq tcp) (seg_len tcp)" "\<not> paws_rejects ?s ?ts"
    using assms(9,10) by (simp_all add: rewound_checks)
  ultimately have "on_segment ov ?s now tcp ce' = Some (?a\<lparr>t_pending_reset := Some (tcp_ack tcp), t_state := Closed\<rparr>)"
    using assms(1,6,7) by (simp add: on_segment_def Let_def)
  then show ?thesis using one by auto
qed

theorem duplicate_syn_loses_handshake_witness:
  "\<exists>s s'. on_segment no_overrides sample_answered 5 sample_syn False = Some s
    \<and> on_segment no_overrides s 5 sample_data False = Some s' \<and> t_state s' = Closed \<and> t_pending_reset s' = Some 101"
proof -
  have f: "\<not> flag_has (tcp_flags_of sample_syn) RST" "flag_has (tcp_flags_of sample_syn) SYN"
    by (simp_all add: tcp_flags_of_def sample_syn_def flag_has_def RST_def SYN_def)
  have "\<not> paws_rejects sample_answered (if t_ts_enabled sample_answered then timestamps sample_data else None)"
    by (simp add: paws_rejects_def sample_answered_fields)
  from duplicate_syn_loses_handshake[OF sample_answered_fields(1) _ f _ sample_data_flags(1,2,4) this sample_data_accepted]
  show ?thesis by (simp add: sample_answered_fields sample_syn_fields sample_data_fields seq_add_def)
qed

end
