(* ===== verification/Iface.thy ===== *)
theory Iface
  imports Tcb_Output Isn "HOL-Library.AList"
begin

text \<open>
  \<open>iface.rs\<close>: the stack. Connections are keyed by the remote endpoint; the \<open>HashMap\<close>
  is an association list, whose order stands for the unspecified iteration order. \<open>None\<close>
  is a panic of a handler or a loop that does not end.
\<close>

definition EPHEMERAL_MIN :: u16 where "EPHEMERAL_MIN = 49152"
definition EPHEMERAL_MAX :: u16 where "EPHEMERAL_MAX = 65535"

definition connectionless_reset :: "endpoint \<Rightarrow> endpoint \<Rightarrow> bytes \<Rightarrow> bytes option" where
  "connectionless_reset local remote tcp =
     (let (seq, ack, flags) =
            (if flag_has (tcp_flags_of tcp) ACK then (tcp_ack tcp, 0, RST)
             else (0, seq_add (tcp_seq tcp) (seg_len tcp), RST OR ACK))
      in build_segment local remote
           \<lparr>tr_src_port = ep_port local, tr_dst_port = ep_port remote, tr_seq = seq, tr_ack = ack,
            tr_flags = flags, tr_window = 0, tr_mss = None, tr_sack_permitted = False, tr_sack = [],
            tr_window_scale = None, tr_timestamps = None, tr_ae = False\<rparr> [])"

record stack =
  st_local :: endpoint
  st_isn :: isn_generator
  st_conns :: "(endpoint \<times> tcb) list"
  st_pending :: "bytes list"
  st_mss_advertise :: u16
  st_ephemeral_next :: u16
  st_cc_kind :: cc_kind

definition stack_new :: "endpoint \<Rightarrow> bytes \<Rightarrow> u16 \<Rightarrow> stack" where
  "stack_new local isn_secret mss_advertise =
     \<lparr>st_local = local, st_isn = isn_new isn_secret, st_conns = [], st_pending = [],
      st_mss_advertise = mss_advertise, st_ephemeral_next = EPHEMERAL_MIN, st_cc_kind = KReno\<rparr>"

definition set_cc_kind :: "stack \<Rightarrow> cc_kind \<Rightarrow> stack" where
  "set_cc_kind self kind = self\<lparr>st_cc_kind := kind\<rparr>"

definition connection_count :: "stack \<Rightarrow> nat" where
  "connection_count self = length (st_conns self)"

text \<open>The port cursor: the loop of \<open>next_ephemeral_port\<close>.\<close>

partial_function (option) ephemeral_loop :: "u16 \<Rightarrow> u16 \<Rightarrow> (u16 \<times> u16) option" where
  "ephemeral_loop listen_port p =
     (let nxt = (if p = EPHEMERAL_MAX then EPHEMERAL_MIN else p + 1)
      in if p \<noteq> listen_port then Some (p, nxt) else ephemeral_loop listen_port nxt)"

definition next_ephemeral_port :: "stack \<Rightarrow> (u16 \<times> stack) option" where
  "next_ephemeral_port self =
     map_option (\<lambda>(p, nxt). (p, self\<lparr>st_ephemeral_next := nxt\<rparr>))
       (ephemeral_loop (ep_port (st_local self)) (st_ephemeral_next self))"

definition connect :: "cc_overrides \<Rightarrow> stack \<Rightarrow> endpoint \<Rightarrow> instant \<Rightarrow> (endpoint \<times> stack) option" where
  "connect ov self remote now = do {
     (local_port, self) \<leftarrow> next_ephemeral_port self;
     let local = endpoint_new (ep_ip (st_local self)) local_port;
     let iss = generate (st_isn self) (ep_ip local) local_port (ep_ip remote) (ep_port remote) now;
     let tcb = new_syn_sent ov local remote iss now (st_mss_advertise self);
     let tcb = set_congestion_control ov tcb (st_cc_kind self);
     Some (remote, self\<lparr>st_conns := AList.update remote tcb (st_conns self)\<rparr>)
   }"

text \<open>A segment with no connection, addressed to the listening port.\<close>

definition on_unknown :: "cc_overrides \<Rightarrow> stack \<Rightarrow> instant \<Rightarrow> endpoint \<Rightarrow> bytes \<Rightarrow> stack option" where
  "on_unknown ov self now remote tcp =
     (let flags = tcp_flags_of tcp
      in if flag_has flags SYN \<and> \<not> flag_has flags ACK \<and> \<not> flag_has flags RST
         then let iss = generate (st_isn self) (ep_ip (st_local self)) (ep_port (st_local self))
                          (ep_ip remote) (ep_port remote) now;
                  tcb = new_syn_received ov (st_local self) remote tcp iss now (st_mss_advertise self);
                  tcb = set_congestion_control ov tcb (st_cc_kind self)
              in Some (self\<lparr>st_conns := AList.update remote tcb (st_conns self)\<rparr>)
         else if \<not> flag_has flags RST
         then do {
           rst \<leftarrow> connectionless_reset (st_local self) remote tcp;
           Some (self\<lparr>st_pending := st_pending self @ [rst]\<rparr>)
         }
         else Some self)"

definition on_recv :: "cc_overrides \<Rightarrow> stack \<Rightarrow> instant \<Rightarrow> bytes \<Rightarrow> stack option" where
  "on_recv ov self now ip =
     (if ip_protocol ip \<noteq> IPPROTO_TCP \<or> ip_dst ip \<noteq> ep_ip (st_local self) then Some self
      else case tcp_new_checked (ip_payload ip) of
             Inl _ \<Rightarrow> Some self
           | Inr tcp \<Rightarrow>
               if tcp_checksum_field tcp \<noteq> 0 \<and> \<not> tcp_checksum_valid (ip_src ip) (ip_dst ip) tcp then Some self
               else let remote = \<lparr>ep_ip = ip_src ip, ep_port = tcp_src_port tcp\<rparr>
                    in case map_of (st_conns self) remote of
                         Some tcb \<Rightarrow>
                           if tcp_dst_port tcp = ep_port (t_local tcb)
                           then do {
                             tcb \<leftarrow> on_segment ov tcb now tcp (ip_ecn ip = ECN_CE);
                             Some (self\<lparr>st_conns := AList.update remote tcb (st_conns self)\<rparr>)
                           }
                           else Some self
                       | None \<Rightarrow>
                           if tcp_dst_port tcp \<noteq> ep_port (st_local self) then Some self
                           else on_unknown ov self now remote tcp)"

fun timers_all :: "(endpoint \<times> tcb) list \<Rightarrow> instant \<Rightarrow> (endpoint \<times> tcb) list option" where
  "timers_all [] now = Some []"
| "timers_all ((k, tcb) # conns) now = do {
     tcb \<leftarrow> tcb_on_timer tcb now;
     conns \<leftarrow> timers_all conns now;
     Some ((k, tcb) # conns)
   }"

definition stack_on_timer :: "stack \<Rightarrow> instant \<Rightarrow> stack option" where
  "stack_on_timer self now = map_option (\<lambda>conns. self\<lparr>st_conns := conns\<rparr>) (timers_all (st_conns self) now)"

text \<open>The inner loop of \<open>poll_transmit\<close>: everything one connection wants to send.\<close>

partial_function (option) drain_tcb :: "tcb \<Rightarrow> instant \<Rightarrow> bytes list \<Rightarrow> (bytes list \<times> tcb) option" where
  "drain_tcb tcb now out = do {
     (seg, tcb) \<leftarrow> poll_transmit tcb now;
     case seg of
       Some s \<Rightarrow> drain_tcb tcb now (out @ [s])
     | None \<Rightarrow> Some (out, tcb)
   }"

fun drain_all :: "(endpoint \<times> tcb) list \<Rightarrow> instant \<Rightarrow> bytes list \<Rightarrow> (bytes list \<times> (endpoint \<times> tcb) list) option" where
  "drain_all [] now out = Some (out, [])"
| "drain_all ((k, tcb) # conns) now out = do {
     (out, tcb) \<leftarrow> drain_tcb tcb now out;
     (out, conns) \<leftarrow> drain_all conns now out;
     Some (out, if t_state tcb = Closed then conns else (k, tcb) # conns)
   }"

definition stack_poll_transmit :: "stack \<Rightarrow> instant \<Rightarrow> bytes list \<Rightarrow> (bytes list \<times> stack) option" where
  "stack_poll_transmit self now out =
     map_option (\<lambda>(out, conns). (out, self\<lparr>st_pending := [], st_conns := conns\<rparr>))
       (drain_all (st_conns self) now (out @ st_pending self))"

definition stack_poll_at :: "stack \<Rightarrow> instant option" where
  "stack_poll_at self =
     (let ds = List.map_filter (\<lambda>(k, t). tcb_poll_at t) (st_conns self)
      in if ds = [] then None else Some (Min (set ds)))"

end
