(* ===== verification/Connection.thy ===== *)
theory Connection
  imports Tcb_Life Iface
begin

text \<open>
  The connection as a whole: no handler panics in any reachable state, what leaves is well
  formed, the advertised edge never retreats, and draining it terminates.
\<close>

section \<open>No panic\<close>

text \<open>
  C4: a connection never panics. In every state a connection can reach from a passive or an
  active open through legal segments, timer events, transmit polls and application calls, every
  legal segment is handled, every poll returns, and so does every timer event while fewer than
  \<open>u32::MAX\<close> of them have fired: no arithmetic overflow, index or assertion of the handlers
  is reached and every loop in them ends.
\<close>

theorem connection_never_panics:
  assumes "reachable ov n self" and "overrides_ok ov"
  shows "(legal_segment self tcp \<longrightarrow> on_segment ov self now tcp ce \<noteq> None)
    \<and> poll_transmit self now \<noteq> None \<and> (n < U32_MAX \<longrightarrow> tcb_on_timer self now \<noteq> None)"
proof -
  note inv = reachable_inv[OF assms]
  show ?thesis
    using on_segment_ok[OF inv assms(2), of tcp now ce] poll_transmit_ok[OF inv, of now] on_timer_ok[OF inv, of now]
    by (auto simp: step_ok_def)
qed

text \<open>The SYN-ACK that answers the sample connection's SYN.\<close>

definition sample_syn_ack :: bytes where
  "sample_syn_ack = [0, 80, 192, 0, 0, 0, 3, 232, 0, 0, 0, 101, 0x50, 0x12, 1, 0, 0, 0, 0, 0]"

theorem connection_never_panics_witness:
  "on_segment no_overrides sample_connection 5 sample_syn_ack False \<noteq> None \<and> poll_transmit sample_connection 5 \<noteq> None
    \<and> tcb_on_timer sample_connection 5 \<noteq> None"
proof -
  have o: "data_offset sample_syn_ack = 20" "length sample_syn_ack = 20"
    by (simp_all add: data_offset_def sample_syn_ack_def)
  then have "tcp_payload sample_syn_ack = []" "tcp_options sample_syn_ack = []"
    by (simp_all add: tcp_payload_def tcp_options_def TCP_MIN_HEADER_LEN_def)
  then have "legal_segment sample_connection sample_syn_ack"
    by (simp add: legal_segment_def sample_connection_def new_syn_sent_def mss_option_def for_each_option_def
        walk_options.simps[of "[]"])
  then show ?thesis
    using connection_never_panics[OF sample_reachable no_overrides_ok, of sample_syn_ack 5 False]
    by (simp add: U32_MAX_def)
qed

section \<open>What leaves the connection\<close>

text \<open>
  C8: every datagram a reachable connection emits is well formed. It is accepted by both
  parsers with valid checksums, runs from the connection's local to its remote endpoint, carries
  \<open>RCV.NXT\<close> whenever its ACK flag is set and the initial sequence number whenever its
  SYN flag is set; its payload is exactly what the send queue holds at the segment's sequence
  number, and a data datagram is at most 40 bytes plus the MSS (or one byte of probe).
\<close>

theorem poll_emits_well_formed:
  assumes "reachable ov n self" and "overrides_ok ov" and "poll_transmit self now = Some (Some frame, self')"
  shows "\<exists>seg. carries (t_local self) (t_remote self) frame seg
    \<and> (flag_has (tcp_flags_of seg) ACK \<longrightarrow> tcp_ack seg = t_rcv_nxt self)
    \<and> (flag_has (tcp_flags_of seg) SYN \<longrightarrow> tcp_seq seg = t_iss self)
    \<and> (tcp_payload seg \<noteq> [] \<longrightarrow>
         (let off = offset_from (tcp_seq seg) (t_snd_una self) in
            off + length (tcp_payload seg) \<le> rb_len (t_tx self)
            \<and> tcp_payload seg = take (length (tcp_payload seg)) (drop off (rb_buf (t_tx self))))
         \<and> length frame \<le> 40 + max (unat (t_snd_mss self)) (seg_opts self + 1))"
proof -
  have "well_formed_datagram self frame"
    using poll_transmit_ok[OF reachable_inv[OF assms(1,2)], of now] assms(3) by (simp add: step_ok_def)
  then show ?thesis unfolding well_formed_datagram_def queued_at_def Let_def by blast
qed

theorem poll_emits_well_formed_witness:
  "\<exists>frame self' seg. poll_transmit sample_connection 0 = Some (Some frame, self')
    \<and> carries (endpoint_new 0x0A000001 49152) (endpoint_new 0x0A000002 80) frame seg"
proof -
  obtain frame self' where p: "poll_transmit sample_connection 0 = Some (Some frame, self')" using sample_polls by blast
  have "t_local sample_connection = endpoint_new 0x0A000001 49152" "t_remote sample_connection = endpoint_new 0x0A000002 80"
    by (simp_all add: sample_connection_def new_syn_sent_def)
  then show ?thesis using p poll_emits_well_formed[OF sample_reachable no_overrides_ok p] by auto
qed

text \<open>
  C10: the advertised window never retreats and never promises more than the buffer. A poll
  leaves \<open>RCV.NXT\<close> and the receive buffers alone; when the edge was inside the buffer
  ahead of \<open>RCV.NXT\<close>, it moves only to the right and stays within \<open>RX_BUFFER\<close>.
\<close>

theorem advertised_edge_never_retreats:
  assumes "reachable ov n self" and "overrides_ok ov" and "poll_transmit self now = Some (out, self')"
    and "offset_from (t_rcv_adv self) (t_rcv_nxt self) \<le> RX_BUFFER"
  shows "t_rcv_nxt self' = t_rcv_nxt self \<and> t_rx self' = t_rx self \<and> t_reasm self' = t_reasm self
    \<and> offset_from (t_rcv_adv self) (t_rcv_nxt self) \<le> offset_from (t_rcv_adv self') (t_rcv_nxt self)
    \<and> offset_from (t_rcv_adv self') (t_rcv_nxt self) \<le> RX_BUFFER"
proof -
  have "recv_edge self self'"
    using poll_transmit_ok[OF reachable_inv[OF assms(1,2)], of now] assms(3) by (simp add: step_ok_def)
  then show ?thesis using assms(4) by (auto simp: recv_edge_def)
qed

theorem advertised_edge_never_retreats_witness:
  "\<exists>out self'. poll_transmit sample_connection 0 = Some (out, self') \<and> t_rcv_nxt self' = 0
    \<and> offset_from (t_rcv_adv self') 0 \<le> RX_BUFFER"
proof -
  obtain frame self' where p: "poll_transmit sample_connection 0 = Some (Some frame, self')" using sample_polls by blast
  have "t_rcv_adv sample_connection = 0" "t_rcv_nxt sample_connection = 0"
    by (simp_all add: sample_connection_def new_syn_sent_def)
  then show ?thesis
    using p advertised_edge_never_retreats[OF sample_reachable no_overrides_ok p] by (simp add: RX_BUFFER_def)
qed

section \<open>Draining\<close>

lemma drain_tcb_terminates:
  assumes "tcb_inv n tcb"
  shows "\<exists>out' tcb'. drain_tcb tcb now out = Some (out @ out', tcb') \<and> length out' \<le> tx_work tcb \<and> tcb_inv n tcb'
    \<and> (\<exists>last. poll_transmit last now = Some (None, tcb'))"
  using assms
proof (induction "tx_work tcb" arbitrary: tcb out rule: less_induct)
  case less
  obtain seg s where p: "poll_transmit tcb now = Some (seg, s)" "tcb_inv n s" "seg \<noteq> None \<Longrightarrow> tx_work s < tx_work tcb"
    using poll_transmit_ok[OF less.prems, of now] by (auto simp: step_ok_def)
  show ?case
  proof (cases seg)
    case None
    then have "drain_tcb tcb now out = Some (out @ [], s)" using p(1) by (subst drain_tcb.simps) simp
    then show ?thesis using p(1,2) None by (metis le0 list.size(3))
  next
    case (Some f)
    then have w: "tx_work s < tx_work tcb" using p(3) by simp
    obtain out' s' where i: "drain_tcb s now (out @ [f]) = Some ((out @ [f]) @ out', s')" "length out' \<le> tx_work s"
      "tcb_inv n s'" "\<exists>last. poll_transmit last now = Some (None, s')"
      using less.hyps[OF w p(2), of "out @ [f]"] by blast
    have "drain_tcb tcb now out = drain_tcb s now (out @ [f])" using p(1) Some by (subst drain_tcb.simps) simp
    then have "drain_tcb tcb now out = Some (out @ (f # out'), s')" using i(1) by simp
    moreover have "length (f # out') \<le> tx_work tcb" using i(2) w by simp
    ultimately show ?thesis using i(3,4) by blast
  qed
qed

text \<open>
  C9: draining a connection terminates. The stack's loop, which polls one connection until it
  has nothing to send, returns for every reachable connection; what it collected is kept, what
  it adds is at most \<open>tx_work\<close> datagrams (the pending flags, twice the room between the window and
  the end of the queue, and the octets not yet retransmitted), and its last poll found nothing.
\<close>

theorem drain_terminates:
  assumes "reachable ov n tcb" and "overrides_ok ov"
  shows "\<exists>out' tcb'. drain_tcb tcb now out = Some (out @ out', tcb') \<and> length out' \<le> tx_work tcb
    \<and> (\<exists>last. poll_transmit last now = Some (None, tcb'))"
  using drain_tcb_terminates[OF reachable_inv[OF assms], of now out] by blast

theorem drain_terminates_witness:
  "\<exists>out tcb'. drain_tcb sample_connection 0 [] = Some (out, tcb') \<and> length out \<le> tx_work sample_connection"
  using drain_terminates[OF sample_reachable no_overrides_ok, of 0 "[]"] by auto

end
