(* ===== verification/Stack.thy ===== *)
theory Stack
  imports Connection Samples
begin

text \<open>
  The stack: demultiplexing, the reset for unknown segments, the ephemeral port cursor and the
  event loop over all connections. Every connection of a stack is a reachable one, so the
  theorems on connections hold inside it.
\<close>

section \<open>Ephemeral ports\<close>

lemma ephemeral_step:
  assumes "49152 \<le> unat p" and "nxt = (if p = EPHEMERAL_MAX then EPHEMERAL_MIN else p + 1)"
  shows "49152 \<le> unat nxt" and "nxt \<noteq> p"
proof -
  have "49152 \<le> unat nxt \<and> nxt \<noteq> p"
  proof (cases "p = EPHEMERAL_MAX")
    case True
    then show ?thesis using assms(2) by (simp add: EPHEMERAL_MAX_def EPHEMERAL_MIN_def)
  next
    case False
    have "unat p \<noteq> 65535"
    proof
      assume "unat p = 65535"
      then have "p = EPHEMERAL_MAX" by (simp add: EPHEMERAL_MAX_def word_unat_eq_iff)
      then show False using False by simp
    qed
    moreover have "unat p < 65536" by (rule unat_u16_bound)
    ultimately have "unat p + 1 < 65536" by linarith
    then have "unat (p + 1) = unat p + 1" by (simp add: unat_word_ariths)
    then show ?thesis using assms False by auto
  qed
  then show "49152 \<le> unat nxt" and "nxt \<noteq> p" by simp_all
qed

lemma next_port_ok:
  assumes "49152 \<le> unat (st_ephemeral_next self)"
  shows "\<exists>port self'. next_ephemeral_port self = Some (port, self') \<and> 49152 \<le> unat port
    \<and> port \<noteq> ep_port (st_local self) \<and> 49152 \<le> unat (st_ephemeral_next self') \<and> st_ephemeral_next self' \<noteq> port
    \<and> self' = self\<lparr>st_ephemeral_next := st_ephemeral_next self'\<rparr>"
proof -
  define p nxt where "p = st_ephemeral_next self" and "nxt = (if p = EPHEMERAL_MAX then EPHEMERAL_MIN else p + 1)"
  define l where "l = ep_port (st_local self)"
  define nxt2 where "nxt2 = (if nxt = EPHEMERAL_MAX then EPHEMERAL_MIN else nxt + 1)"
  note s = ephemeral_step[OF assms[folded p_def] nxt_def]
  note s2 = ephemeral_step[OF s(1) nxt2_def]
  have run: "ephemeral_loop l q = (let n = (if q = EPHEMERAL_MAX then EPHEMERAL_MIN else q + 1)
      in if q \<noteq> l then Some (q, n) else ephemeral_loop l n)" for q by (rule ephemeral_loop.simps)
  show ?thesis
  proof (cases "p = l")
    case False
    then have "ephemeral_loop l p = Some (p, nxt)" by (subst run) (simp add: nxt_def)
    then show ?thesis using False s assms by (simp add: next_ephemeral_port_def p_def l_def)
  next
    case True
    have "ephemeral_loop l nxt = Some (nxt, nxt2)" using s(2) True by (subst run) (simp add: nxt2_def)
    moreover have "ephemeral_loop l p = ephemeral_loop l nxt"
      using True by (subst run) (simp only: Let_def nxt_def simp_thms if_False)
    ultimately show ?thesis using s s2 True by (simp add: next_ephemeral_port_def p_def l_def)
  qed
qed

text \<open>
  Picking an ephemeral port terminates. The cursor loop, which skips the listening port,
  returns after at most two rounds from any cursor in the ephemeral range: the port is in
  49152..65535 and is not the listening port, and the new cursor is in the range and past the
  port, so that two picks in a row differ.
\<close>

theorem ephemeral_port_found:
  assumes "49152 \<le> unat (st_ephemeral_next self)"
  shows "\<exists>port self'. next_ephemeral_port self = Some (port, self') \<and> 49152 \<le> unat port
    \<and> port \<noteq> ep_port (st_local self) \<and> 49152 \<le> unat (st_ephemeral_next self') \<and> st_ephemeral_next self' \<noteq> port
    \<and> self' = self\<lparr>st_ephemeral_next := st_ephemeral_next self'\<rparr>"
  by (rule next_port_ok[OF assms])

theorem ephemeral_port_found_witness:
  "\<exists>port self'. next_ephemeral_port (stack_new (endpoint_new 0x0A000001 49152) (replicate 16 0) 1460) = Some (port, self')
    \<and> 49152 \<le> unat port \<and> port \<noteq> 49152"
  using ephemeral_port_found[of "stack_new (endpoint_new 0x0A000001 49152) (replicate 16 0) 1460"]
  by (auto simp: stack_new_def EPHEMERAL_MIN_def endpoint_new_def)

section \<open>Demultiplexing\<close>

lemma on_unknown_frame:
  assumes "on_unknown ov self now remote tcp = Some self'" and "r \<noteq> remote"
  shows "map_of (st_conns self') r = map_of (st_conns self) r
    \<and> self' = self\<lparr>st_conns := st_conns self', st_pending := st_pending self'\<rparr>
    \<and> (st_pending self' = st_pending self \<or> (\<exists>rst. st_pending self' = st_pending self @ [rst]
        \<and> connectionless_reset (st_local self) remote tcp = Some rst \<and> \<not> flag_has (tcp_flags_of tcp) RST
        \<and> st_conns self' = st_conns self))"
  using assms by (auto simp: on_unknown_def Let_def bind_Some_iff update_conv' split: if_splits)

lemma on_recv_cases:
  assumes "on_recv ov self now ip = Some self'" and tcp: "tcp_new_checked (ip_payload ip) = Inr tcp"
    and "remote = \<lparr>ep_ip = ip_src ip, ep_port = tcp_src_port tcp\<rparr>"
    and "skip \<longleftrightarrow> ip_protocol ip \<noteq> IPPROTO_TCP \<or> ip_dst ip \<noteq> ep_ip (st_local self)
      \<or> (tcp_checksum_field tcp \<noteq> 0 \<and> \<not> tcp_checksum_valid (ip_src ip) (ip_dst ip) tcp)"
  shows "self' = self
    \<or> (\<exists>t t'. \<not> skip \<and> map_of (st_conns self) remote = Some t
         \<and> self' = self\<lparr>st_conns := AList.update remote t' (st_conns self)\<rparr>)
    \<or> (\<not> skip \<and> map_of (st_conns self) remote = None \<and> on_unknown ov self now remote tcp = Some self')"
proof (cases skip)
  case True
  then show ?thesis using assms by (auto simp: on_recv_def split: if_splits)
next
  case False
  have run: "on_recv ov self now ip = (case map_of (st_conns self) remote of
      Some tcb \<Rightarrow> if tcp_dst_port tcp = ep_port (t_local tcb)
        then do { tcb \<leftarrow> on_segment ov tcb now tcp (ip_ecn ip = ECN_CE);
          Some (self\<lparr>st_conns := AList.update remote tcb (st_conns self)\<rparr>) }
        else Some self
    | None \<Rightarrow> if tcp_dst_port tcp \<noteq> ep_port (st_local self) then Some self else on_unknown ov self now remote tcp)"
  proof -
    have n: "\<not> (ip_protocol ip \<noteq> IPPROTO_TCP \<or> ip_dst ip \<noteq> ep_ip (st_local self))"
      "\<not> (tcp_checksum_field tcp \<noteq> 0 \<and> \<not> tcp_checksum_valid (ip_src ip) (ip_dst ip) tcp)"
      using False unfolding assms(4) by blast+
    show ?thesis unfolding on_recv_def assms(3) tcp Let_def sum.case if_not_P[OF n(1)] if_not_P[OF n(2)] by (rule refl)
  qed
  show ?thesis
  proof (cases "map_of (st_conns self) remote")
    case None
    then show ?thesis using assms(1) False unfolding run by (simp split: if_splits)
  next
    case (Some t)
    then show ?thesis using assms(1) False unfolding run by (auto simp: bind_Some_iff split: if_splits)
  qed
qed

text \<open>
  C13: demultiplexing does not interfere. A datagram that is not TCP, not for this host, does
  not parse or carries a non-zero checksum that does not verify changes nothing (a checksum
  field of zero is not looked at). Any other reaches at most the connection of
  its own source endpoint: every other connection, the configuration and the port cursor stay
  as they were. At most one reset is queued, only for a segment without a connection that is
  not itself a reset.
\<close>

theorem demultiplexing_does_not_interfere:
  assumes "on_recv ov self now ip = Some self'"
  shows "(ip_protocol ip \<noteq> IPPROTO_TCP \<or> ip_dst ip \<noteq> ep_ip (st_local self)
        \<or> (\<exists>e. tcp_new_checked (ip_payload ip) = Inl e)
        \<or> (\<exists>tcp. tcp_new_checked (ip_payload ip) = Inr tcp \<and> tcp_checksum_field tcp \<noteq> 0
             \<and> \<not> tcp_checksum_valid (ip_src ip) (ip_dst ip) tcp) \<longrightarrow> self' = self)
    \<and> (\<forall>tcp r. tcp_new_checked (ip_payload ip) = Inr tcp \<longrightarrow> r \<noteq> \<lparr>ep_ip = ip_src ip, ep_port = tcp_src_port tcp\<rparr> \<longrightarrow>
         map_of (st_conns self') r = map_of (st_conns self) r)
    \<and> self' = self\<lparr>st_conns := st_conns self', st_pending := st_pending self'\<rparr>
    \<and> (st_pending self' = st_pending self \<or> (\<exists>tcp rst. tcp_new_checked (ip_payload ip) = Inr tcp
         \<and> map_of (st_conns self) \<lparr>ep_ip = ip_src ip, ep_port = tcp_src_port tcp\<rparr> = None
         \<and> \<not> flag_has (tcp_flags_of tcp) RST \<and> st_pending self' = st_pending self @ [rst] \<and> st_conns self' = st_conns self))"
proof (cases "tcp_new_checked (ip_payload ip)")
  case (Inl e)
  then have "self' = self" using assms by (simp add: on_recv_def split: if_splits)
  then show ?thesis using Inl by simp
next
  case (Inr tcp)
  define remote where "remote = \<lparr>ep_ip = ip_src ip, ep_port = tcp_src_port tcp\<rparr>"
  define skip where "skip \<longleftrightarrow> ip_protocol ip \<noteq> IPPROTO_TCP \<or> ip_dst ip \<noteq> ep_ip (st_local self)
      \<or> (tcp_checksum_field tcp \<noteq> 0 \<and> \<not> tcp_checksum_valid (ip_src ip) (ip_dst ip) tcp)"
  have valid: "\<not> (ip_protocol ip \<noteq> IPPROTO_TCP \<or> ip_dst ip \<noteq> ep_ip (st_local self)
        \<or> (\<exists>e. tcp_new_checked (ip_payload ip) = Inl e)
        \<or> (\<exists>tcp. tcp_new_checked (ip_payload ip) = Inr tcp \<and> tcp_checksum_field tcp \<noteq> 0
             \<and> \<not> tcp_checksum_valid (ip_src ip) (ip_dst ip) tcp))" if "\<not> skip"
    using that Inr unfolding skip_def by auto
  from on_recv_cases[OF assms Inr remote_def skip_def] show ?thesis
  proof (elim disjE exE conjE)
    assume "self' = self"
    then show ?thesis by simp
  next
    fix t t'
    assume known: "\<not> skip" "map_of (st_conns self) remote = Some t"
      "self' = self\<lparr>st_conns := AList.update remote t' (st_conns self)\<rparr>"
    have "\<forall>tcp' r. tcp_new_checked (ip_payload ip) = Inr tcp' \<longrightarrow>
        r \<noteq> \<lparr>ep_ip = ip_src ip, ep_port = tcp_src_port tcp'\<rparr> \<longrightarrow> map_of (st_conns self') r = map_of (st_conns self) r"
      using known(3) Inr by (simp add: update_conv' remote_def)
    moreover have "self' = self\<lparr>st_conns := st_conns self', st_pending := st_pending self'\<rparr>" "st_pending self' = st_pending self"
      by (simp_all add: known(3))
    ultimately show ?thesis using valid[OF known(1)] by blast
  next
    assume unknown: "\<not> skip" "map_of (st_conns self) remote = None" "on_unknown ov self now remote tcp = Some self'"
    have m: "map_of (st_conns self') r = map_of (st_conns self) r" if "r \<noteq> remote" for r
      using on_unknown_frame[OF unknown(3) that] by blast
    have "\<exists>r. r \<noteq> remote" by (rule exI[of _ "remote\<lparr>ep_port := ep_port remote + 1\<rparr>"]) (cases remote, simp)
    then obtain r where "r \<noteq> remote" by blast
    note f = on_unknown_frame[OF unknown(3) this]
    have "st_pending self' = st_pending self \<or> (\<exists>tcp rst. tcp_new_checked (ip_payload ip) = Inr tcp
         \<and> map_of (st_conns self) \<lparr>ep_ip = ip_src ip, ep_port = tcp_src_port tcp\<rparr> = None
         \<and> \<not> flag_has (tcp_flags_of tcp) RST \<and> st_pending self' = st_pending self @ [rst] \<and> st_conns self' = st_conns self)"
      using f unknown(2) Inr unfolding remote_def by blast
    moreover note valid[OF unknown(1)]
    moreover have "self' = self\<lparr>st_conns := st_conns self', st_pending := st_pending self'\<rparr>" using f by blast
    moreover have "\<forall>tcp' r. tcp_new_checked (ip_payload ip) = Inr tcp' \<longrightarrow>
        r \<noteq> \<lparr>ep_ip = ip_src ip, ep_port = tcp_src_port tcp'\<rparr> \<longrightarrow> map_of (st_conns self') r = map_of (st_conns self) r"
      using m Inr by (simp add: remote_def)
    ultimately show ?thesis by blast
  qed
qed

text \<open>A stack that listens on port 80, and the sample SYN in its datagram (with no TCP checksum).\<close>

definition sample_stack :: stack where
  "sample_stack = stack_new (endpoint_new 0x0A000001 80) (replicate 16 0) 1460"

definition sample_datagram :: bytes where
  "sample_datagram = [0x45, 0, 0, 40, 0, 0, 0, 0, 64, 6, 0, 0, 10, 0, 0, 2, 10, 0, 0, 1] @ sample_syn"

lemma sample_datagram_fields:
  "ip_protocol sample_datagram = IPPROTO_TCP" "ip_dst sample_datagram = 0x0A000001" "ip_src sample_datagram = 0x0A000002"
  "ip_payload sample_datagram = sample_syn"
  by (simp_all add: sample_datagram_def sample_syn_def ip_protocol_def IPPROTO_TCP_def ip_dst_def ip_src_def u32_from_be_def
      ip_payload_def ip_header_len_def ip_total_len_def u16_from_be_def)

lemma sample_syn_parses: "tcp_new_checked sample_syn = Inr sample_syn" "tcp_checksum_field sample_syn = 0"
  "tcp_src_port sample_syn = 49152" "tcp_dst_port sample_syn = 80" "tcp_flags_of sample_syn = 2"
  by (simp_all add: sample_syn_def tcp_new_checked_def data_offset_def TCP_MIN_HEADER_LEN_def TCP_MAX_HEADER_LEN_def tcp_checksum_field_def
      u16_from_be_def tcp_src_port_def tcp_dst_port_def tcp_flags_of_def)

theorem demultiplexing_does_not_interfere_witness:
  "\<exists>s. on_recv no_overrides sample_stack 0 sample_datagram = Some s
    \<and> map_of (st_conns s) (endpoint_new 0x0A000002 50000) = None \<and> connection_count s = 1"
proof -
  have f: "st_local sample_stack = endpoint_new 0x0A000001 80" "st_conns sample_stack = []"
    by (simp_all add: sample_stack_def stack_new_def)
  have "flag_has 2 SYN" "\<not> flag_has 2 ACK" "\<not> flag_has 2 RST" by (simp_all add: flag_has_def SYN_def ACK_def RST_def)
  then obtain s where s: "on_recv no_overrides sample_stack 0 sample_datagram = Some s" "connection_count s = 1"
    by (simp add: on_recv_def sample_datagram_fields sample_syn_parses f endpoint_new_def on_unknown_def Let_def connection_count_def)
  have "endpoint_new 0x0A000002 50000 \<noteq> \<lparr>ep_ip = ip_src sample_datagram, ep_port = tcp_src_port sample_syn\<rparr>"
    by (simp add: endpoint_new_def sample_syn_parses)
  then have "map_of (st_conns s) (endpoint_new 0x0A000002 50000) = None"
    using demultiplexing_does_not_interfere[OF s(1)] sample_syn_parses(1) f(2) by (simp add: sample_datagram_fields)
  then show ?thesis using s by blast
qed

section \<open>The event loop\<close>

text \<open>
  Every connection is keyed once and reachable; the configuration is one the connections may be
  built with. The count bounds the timer events of every connection.
\<close>

definition stack_inv :: "cc_overrides \<Rightarrow> nat \<Rightarrow> stack \<Rightarrow> bool" where
  "stack_inv ov m self \<longleftrightarrow> st_mss_advertise self \<noteq> 0 \<and> unat (st_mss_advertise self) \<le> 65495
     \<and> st_cc_kind self \<noteq> KCubic \<and> 49152 \<le> unat (st_ephemeral_next self) \<and> distinct (map fst (st_conns self))
     \<and> (\<forall>(k, t) \<in> set (st_conns self). \<exists>n \<le> m. reachable ov n t)"

lemma conns_update:
  assumes "distinct (map fst xs)" and "\<forall>(k, t) \<in> set xs. P t" and "P t"
  shows "distinct (map fst (AList.update k t xs)) \<and> (\<forall>(k, t) \<in> set (AList.update k t xs). P t)"
proof -
  have d: "distinct (map fst (AList.update k t xs))" using assms(1) by (rule distinct_update)
  have "P t'" if "(k', t') \<in> set (AList.update k t xs)" for k' t'
  proof -
    have "map_of (AList.update k t xs) k' = Some t'" using d that by (rule map_of_is_SomeI)
    then show ?thesis using assms(2,3) by (auto simp: update_conv' split: if_splits dest: map_of_SomeD)
  qed
  then show ?thesis using d by blast
qed

lemma connectionless_reset_ok: "\<exists>rst. connectionless_reset local remote tcp = Some rst"
proof -
  define r where "r = (\<lambda>seq ack flags. \<lparr>tr_src_port = ep_port local, tr_dst_port = ep_port remote, tr_seq = seq, tr_ack = ack,
            tr_flags = flags, tr_window = 0, tr_mss = None, tr_sack_permitted = False, tr_sack = [],
            tr_window_scale = None, tr_timestamps = None, tr_ae = False\<rparr>)"
  have "tr_header_len (r s a f) = 20" "tr_src_port (r s a f) = ep_port local" "tr_dst_port (r s a f) = ep_port remote" for s a f
    by (simp_all add: r_def tr_header_len_def sack_blocks_to_emit_def TCP_MIN_HEADER_LEN_def)
  then have "\<exists>seg. build_segment local remote (r s a f) [] = Some seg" for s a f
    using build_segment_carries[of "r s a f" "[]" local remote] by fastforce
  then show ?thesis unfolding r_def by (simp add: connectionless_reset_def)
qed

text \<open>The datagrams the theorem speaks of: those whose segment is legal for its connection.\<close>

definition legal_datagram :: "stack \<Rightarrow> bytes \<Rightarrow> bool" where
  "legal_datagram self ip \<longleftrightarrow> (\<forall>tcp. tcp_new_checked (ip_payload ip) = Inr tcp \<longrightarrow>
     (case map_of (st_conns self) \<lparr>ep_ip = ip_src ip, ep_port = tcp_src_port tcp\<rparr> of
        Some t \<Rightarrow> legal_segment t tcp | None \<Rightarrow> mss_option tcp \<noteq> Some 0))"

lemma on_unknown_ok:
  assumes inv: "stack_inv ov m self" and "mss_option tcp \<noteq> Some 0"
  shows "\<exists>s. on_unknown ov self now remote tcp = Some s \<and> stack_inv ov m s"
proof -
  let ?t = "set_congestion_control ov (new_syn_received ov (st_local self) remote tcp
      (generate (st_isn self) (ep_ip (st_local self)) (ep_port (st_local self)) (ep_ip remote) (ep_port remote) now)
      now (st_mss_advertise self)) (st_cc_kind self)"
  have i: "st_mss_advertise self \<noteq> 0" "unat (st_mss_advertise self) \<le> 65495" "st_cc_kind self \<noteq> KCubic"
    "distinct (map fst (st_conns self))" "\<forall>(k, t) \<in> set (st_conns self). \<exists>n \<le> m. reachable ov n t"
    using inv by (simp_all add: stack_inv_def)
  have "reachable ov 0 ?t" by (intro reachable.controller reachable.passive_open i(1-3) assms(2))
  then have "\<exists>n \<le> m. reachable ov n ?t" by blast
  from conns_update[OF i(4,5) this, of remote]
  have a: "stack_inv ov m (self\<lparr>st_conns := AList.update remote ?t (st_conns self)\<rparr>)"
    using inv by (simp add: stack_inv_def)
  have b: "stack_inv ov m (self\<lparr>st_pending := x\<rparr>)" for x using inv by (simp add: stack_inv_def)
  show ?thesis
    using a b inv connectionless_reset_ok[of "st_local self" remote tcp] by (auto simp: on_unknown_def Let_def)
qed

lemma on_recv_ok:
  assumes inv: "stack_inv ov m self" and ov: "overrides_ok ov" and legal: "legal_datagram self ip"
  shows "\<exists>s. on_recv ov self now ip = Some s \<and> stack_inv ov m s"
proof (cases "tcp_new_checked (ip_payload ip)")
  case (Inl e)
  then show ?thesis using inv by (simp add: on_recv_def)
next
  case (Inr tcp)
  let ?remote = "\<lparr>ep_ip = ip_src ip, ep_port = tcp_src_port tcp\<rparr>"
  have i: "distinct (map fst (st_conns self))" "\<forall>(k, t) \<in> set (st_conns self). \<exists>n \<le> m. reachable ov n t"
    using inv by (simp_all add: stack_inv_def)
  have known: "\<exists>s. (do { t \<leftarrow> on_segment ov t now tcp ce; Some (self\<lparr>st_conns := AList.update ?remote t (st_conns self)\<rparr>) }) = Some s
      \<and> stack_inv ov m s" if t: "map_of (st_conns self) ?remote = Some t" for t ce
  proof -
    have "(?remote, t) \<in> set (st_conns self)" using t by (rule map_of_SomeD)
    then obtain n where n: "n \<le> m" "reachable ov n t" using i(2) by blast
    have l: "legal_segment t tcp" using legal Inr t by (simp add: legal_datagram_def)
    obtain t' where t': "on_segment ov t now tcp ce = Some t'" using on_segment_ok[OF reachable_inv[OF n(2) ov] ov l] by blast
    then have "\<exists>n \<le> m. reachable ov n t'" using reachable.seg_in[OF n(2) l] n(1) by blast
    from conns_update[OF i this, of ?remote] show ?thesis using inv t' by (simp add: stack_inv_def)
  qed
  have unknown: "\<exists>s. on_unknown ov self now ?remote tcp = Some s \<and> stack_inv ov m s" if "map_of (st_conns self) ?remote = None"
    using on_unknown_ok[OF inv] legal Inr that by (simp add: legal_datagram_def)
  show ?thesis
  proof (cases "map_of (st_conns self) ?remote")
    case None
    then show ?thesis using unknown inv Inr by (auto simp: on_recv_def Let_def)
  next
    case (Some t)
    then show ?thesis using known[OF Some] inv Inr by (auto simp: on_recv_def Let_def)
  qed
qed

lemma timers_all_ok:
  assumes "\<forall>(k, t) \<in> set conns. \<exists>n \<le> m. reachable ov n t" and ov: "overrides_ok ov" and m: "m < U32_MAX"
  shows "\<exists>conns'. timers_all conns now = Some conns' \<and> map fst conns' = map fst conns
    \<and> (\<forall>(k, t) \<in> set conns'. \<exists>n \<le> Suc m. reachable ov n t)"
  using assms(1)
proof (induction conns now rule: timers_all.induct)
  case (2 k tcb conns now)
  obtain n where n: "n \<le> m" "reachable ov n tcb" using "2.prems" by auto
  have "n < U32_MAX" using n(1) m by linarith
  then obtain t' where t': "tcb_on_timer tcb now = Some t'" using on_timer_ok[OF reachable_inv[OF n(2) ov]] by blast
  then have r: "\<exists>n \<le> Suc m. reachable ov n t'" using reachable.tick[OF n(2) \<open>n < U32_MAX\<close> t'] n(1) by blast
  obtain conns' where "timers_all conns now = Some conns'" "map fst conns' = map fst conns"
    "\<forall>(k, t) \<in> set conns'. \<exists>n \<le> Suc m. reachable ov n t"
    using "2.IH"[OF t'] "2.prems" by auto
  then show ?case using t' r by auto
qed simp

lemma drain_reachable:
  assumes "reachable ov n tcb" and ov: "overrides_ok ov"
  shows "\<exists>out' tcb'. drain_tcb tcb now out = Some (out @ out', tcb') \<and> reachable ov n tcb'"
  using assms(1)
proof (induction "tx_work tcb" arbitrary: tcb out rule: less_induct)
  case less
  obtain seg s where p: "poll_transmit tcb now = Some (seg, s)" "seg \<noteq> None \<Longrightarrow> tx_work s < tx_work tcb"
    using poll_transmit_ok[OF reachable_inv[OF less.prems ov], of now] by (auto simp: step_ok_def)
  have r: "reachable ov n s" by (rule reachable.polled[OF less.prems p(1)])
  show ?case
  proof (cases seg)
    case None
    then have "drain_tcb tcb now out = Some (out @ [], s)" using p(1) by (subst drain_tcb.simps) simp
    then show ?thesis using r by blast
  next
    case (Some f)
    then obtain out' s' where i: "drain_tcb s now (out @ [f]) = Some ((out @ [f]) @ out', s')" "reachable ov n s'"
      using less.hyps[OF _ r, of "out @ [f]"] p(2) by blast
    have "drain_tcb tcb now out = drain_tcb s now (out @ [f])" using p(1) Some by (subst drain_tcb.simps) simp
    then have "drain_tcb tcb now out = Some (out @ (f # out'), s')" using i(1) by simp
    then show ?thesis using i(2) by blast
  qed
qed

lemma drain_all_ok:
  assumes "\<forall>(k, t) \<in> set conns. \<exists>n \<le> m. reachable ov n t" and "distinct (map fst conns)" and ov: "overrides_ok ov"
  shows "\<exists>out' conns'. drain_all conns now out = Some (out @ out', conns') \<and> distinct (map fst conns')
    \<and> set (map fst conns') \<subseteq> set (map fst conns)
    \<and> (\<forall>(k, t) \<in> set conns'. (\<exists>n \<le> m. reachable ov n t) \<and> t_state t \<noteq> Closed)"
  using assms(1,2)
proof (induction conns now out rule: drain_all.induct)
  case (2 k tcb conns now out)
  obtain n where n: "n \<le> m" "reachable ov n tcb" using "2.prems" by auto
  obtain o1 t' where d: "drain_tcb tcb now out = Some (out @ o1, t')" "reachable ov n t'"
    using drain_reachable[OF n(2) ov] by blast
  obtain o2 conns' where c: "drain_all conns now (out @ o1) = Some ((out @ o1) @ o2, conns')" "distinct (map fst conns')"
    "set (map fst conns') \<subseteq> set (map fst conns)"
    "\<forall>(k, t) \<in> set conns'. (\<exists>n \<le> m. reachable ov n t) \<and> t_state t \<noteq> Closed"
    using "2.IH"[OF d(1) refl] "2.prems" by auto
  have k: "k \<notin> set (map fst conns')" using "2.prems"(2) c(3) by auto
  define rest where "rest = (if t_state t' = Closed then conns' else (k, t') # conns')"
  have "drain_all ((k, tcb) # conns) now out = Some (out @ (o1 @ o2), rest)"
    using d(1) c(1) by (simp add: rest_def)
  moreover have "distinct (map fst rest)" using c(2) k by (simp add: rest_def)
  moreover have "set (map fst rest) \<subseteq> set (map fst ((k, tcb) # conns))" using c(3) by (auto simp: rest_def)
  moreover have "\<forall>(k, t) \<in> set rest. (\<exists>n \<le> m. reachable ov n t) \<and> t_state t \<noteq> Closed"
    using c(4) d(2) n(1) by (auto simp: rest_def)
  ultimately show ?case by blast
qed simp

lemma connect_ok:
  assumes "stack_inv ov m self"
  shows "\<exists>s. connect ov self remote now = Some (remote, s) \<and> stack_inv ov m s"
proof -
  have i: "st_mss_advertise self \<noteq> 0" "unat (st_mss_advertise self) \<le> 65495" "st_cc_kind self \<noteq> KCubic"
    "49152 \<le> unat (st_ephemeral_next self)" "distinct (map fst (st_conns self))"
    "\<forall>(k, t) \<in> set (st_conns self). \<exists>n \<le> m. reachable ov n t"
    using assms by (simp_all add: stack_inv_def)
  obtain port self' where p: "next_ephemeral_port self = Some (port, self')" "49152 \<le> unat (st_ephemeral_next self')"
    "self' = self\<lparr>st_ephemeral_next := st_ephemeral_next self'\<rparr>"
    using next_port_ok[OF i(4)] by blast
  let ?t = "set_congestion_control ov (new_syn_sent ov (endpoint_new (ep_ip (st_local self')) port) remote
      (generate (st_isn self') (ep_ip (endpoint_new (ep_ip (st_local self')) port)) port (ep_ip remote) (ep_port remote) now)
      now (st_mss_advertise self')) (st_cc_kind self')"
  obtain e where e: "self' = self\<lparr>st_ephemeral_next := e\<rparr>" using p(3) by blast
  have "reachable ov 0 ?t" by (intro reachable.controller reachable.active_open) (simp_all add: e i)
  then have "\<exists>n \<le> m. reachable ov n ?t" by blast
  from conns_update[OF i(5,6) this, of remote]
  have "stack_inv ov m (self'\<lparr>st_conns := AList.update remote ?t (st_conns self')\<rparr>)"
    using i p(2) by (simp add: stack_inv_def e)
  then show ?thesis
    using p(1) by (simp add: connect_def Let_def)
qed

lemma stack_on_timer_ok:
  assumes "stack_inv ov m self" and "overrides_ok ov" and "m < U32_MAX"
  shows "\<exists>s. stack_on_timer self now = Some s \<and> stack_inv ov (Suc m) s"
proof -
  have i: "st_mss_advertise self \<noteq> 0" "unat (st_mss_advertise self) \<le> 65495" "st_cc_kind self \<noteq> KCubic"
    "49152 \<le> unat (st_ephemeral_next self)" "distinct (map fst (st_conns self))"
    "\<forall>(k, t) \<in> set (st_conns self). \<exists>n \<le> m. reachable ov n t"
    using assms(1) by (simp_all add: stack_inv_def)
  show ?thesis
    using timers_all_ok[OF i(6) assms(2,3), of now] i by (auto simp: stack_on_timer_def stack_inv_def)
qed

lemma stack_poll_transmit_ok:
  assumes "stack_inv ov m self" and "overrides_ok ov"
  shows "\<exists>out' s. stack_poll_transmit self now out = Some (out @ st_pending self @ out', s) \<and> stack_inv ov m s
    \<and> st_pending s = [] \<and> (\<forall>(k, t) \<in> set (st_conns s). t_state t \<noteq> Closed)"
proof -
  have i: "st_mss_advertise self \<noteq> 0" "unat (st_mss_advertise self) \<le> 65495" "st_cc_kind self \<noteq> KCubic"
    "49152 \<le> unat (st_ephemeral_next self)" "distinct (map fst (st_conns self))"
    "\<forall>(k, t) \<in> set (st_conns self). \<exists>n \<le> m. reachable ov n t"
    using assms(1) by (simp_all add: stack_inv_def)
  show ?thesis
    using drain_all_ok[OF i(6,5) assms(2), of now "out @ st_pending self"] i
    by (fastforce simp: stack_poll_transmit_def stack_inv_def)
qed

text \<open>
  C7: the stack keeps its invariant and never fails. A new stack has it; a legal datagram, a
  timer event (fewer than \<open>u32::MAX\<close> of them), a transmit poll and an active open all
  return and keep every connection keyed once and reachable. A poll leaves no closed connection
  behind and keeps what was already collected in front.
\<close>

theorem stack_keeps_its_invariant:
  assumes "stack_inv ov m self" and "overrides_ok ov"
  shows "(legal_datagram self ip \<longrightarrow> (\<exists>s. on_recv ov self now ip = Some s \<and> stack_inv ov m s))
    \<and> (m < U32_MAX \<longrightarrow> (\<exists>s. stack_on_timer self now = Some s \<and> stack_inv ov (Suc m) s))
    \<and> (\<exists>out' s. stack_poll_transmit self now out = Some (out @ st_pending self @ out', s) \<and> stack_inv ov m s
         \<and> st_pending s = [] \<and> (\<forall>(k, t) \<in> set (st_conns s). t_state t \<noteq> Closed))
    \<and> (\<exists>s. connect ov self remote now = Some (remote, s) \<and> stack_inv ov m s)"
  using on_recv_ok[OF assms] stack_on_timer_ok[OF assms] stack_poll_transmit_ok[OF assms] connect_ok[OF assms(1)]
  by blast

lemma stack_inv_new:
  "mss \<noteq> 0 \<Longrightarrow> unat mss \<le> 65495 \<Longrightarrow> stack_inv ov 0 (stack_new local secret mss)"
  by (simp add: stack_inv_def stack_new_def EPHEMERAL_MIN_def)

theorem stack_keeps_its_invariant_witness:
  "\<exists>s. on_recv no_overrides sample_stack 0 sample_datagram = Some s \<and> stack_inv no_overrides 0 s"
proof -
  have "stack_inv no_overrides 0 sample_stack" unfolding sample_stack_def by (rule stack_inv_new) simp_all
  moreover have "legal_datagram sample_stack sample_datagram"
    using no_options[OF sample_syn_fields(2)]
    by (simp add: legal_datagram_def sample_datagram_fields sample_syn_parses sample_stack_def stack_new_def)
  ultimately show ?thesis using stack_keeps_its_invariant[OF _ no_overrides_ok] by blast
qed

end
