(* ===== verification/Sockets.thy ===== *)
theory Sockets
  imports Reset_Flag Stack
begin

text \<open>
  \<open>runtime/socket.rs\<close> and the shared state and \<open>dispatch_wakeups\<close> of
  \<open>runtime/reactor.rs\<close>: what each socket future does when it is polled, and which
  parked futures a reactor turn wakes. A waker is the id of the task it wakes. The waker maps
  are association lists, whose order stands for the iteration order of the \<open>HashMap\<close>.
\<close>

section \<open>The shared state\<close>

type_synonym waker = nat
type_synonym wakers = "(endpoint \<times> waker) list"

datatype io_error = ConnectionReset | ConnectionRefused | TimedOut | BrokenPipe | WriteZero

datatype 'a poll = Ready 'a | Pending

record reactor =
  rs_stack :: stack
  rs_read_wakers :: wakers
  rs_write_wakers :: wakers
  rs_connect_wakers :: wakers
  rs_accept_waker :: "waker option"
  rs_accept_queue :: "endpoint list"
  rs_now :: instant
  rs_announced :: "endpoint set"

definition reactor_new :: "endpoint \<Rightarrow> bytes \<Rightarrow> u16 \<Rightarrow> reactor" where
  "reactor_new local isn_secret mss =
     \<lparr>rs_stack = stack_new local isn_secret mss, rs_read_wakers = [], rs_write_wakers = [],
      rs_connect_wakers = [], rs_accept_waker = None, rs_accept_queue = [], rs_now = 0, rs_announced = {}\<rparr>"

text \<open>\<open>connection_mut\<close>: the connection of an endpoint, and its replacement.\<close>

definition connection :: "reactor \<Rightarrow> endpoint \<Rightarrow> tcb option" where
  "connection s remote = map_of (st_conns (rs_stack s)) remote"

definition put_connection :: "reactor \<Rightarrow> endpoint \<Rightarrow> tcb \<Rightarrow> reactor" where
  "put_connection s remote tcb =
     s\<lparr>rs_stack := (rs_stack s)\<lparr>st_conns := AList.update remote tcb (st_conns (rs_stack s))\<rparr>\<rparr>"

section \<open>The futures\<close>

text \<open>\<open>Accept\<close>: connections that died in the queue are skipped.\<close>

fun accept_scan :: "reactor \<Rightarrow> endpoint list \<Rightarrow> endpoint option \<times> endpoint list" where
  "accept_scan s [] = (None, [])"
| "accept_scan s (remote # queue) =
     (if (case connection s remote of
            Some t \<Rightarrow> is_synchronized t \<or> 0 < rx_available t
          | None \<Rightarrow> False)
      then (Some remote, queue) else accept_scan s queue)"

definition poll_accept :: "reactor \<Rightarrow> waker \<Rightarrow> endpoint poll \<times> reactor" where
  "poll_accept s w =
     (case accept_scan s (rs_accept_queue s) of
        (Some remote, queue) \<Rightarrow> (Ready remote, s\<lparr>rs_accept_queue := queue\<rparr>)
      | (None, queue) \<Rightarrow> (Pending, s\<lparr>rs_accept_queue := queue, rs_accept_waker := Some w\<rparr>))"

text \<open>
  \<open>Connect\<close>: the first poll installs the connection, later polls look at it. The second
  component is the future's \<open>initiated\<close> flag.
\<close>

definition poll_connect ::
  "cc_overrides \<Rightarrow> reactor \<Rightarrow> endpoint \<Rightarrow> bool \<Rightarrow> waker \<Rightarrow> ((io_error + endpoint) poll \<times> bool \<times> reactor) option" where
  "poll_connect ov s remote initiated w =
     (if \<not> initiated
      then do {
        (_, stack) \<leftarrow> connect ov (rs_stack s) remote (rs_now s);
        Some (Pending, True, s\<lparr>rs_stack := stack, rs_connect_wakers := AList.update remote w (rs_connect_wakers s)\<rparr>)
      }
      else Some (case connection s remote of
             None \<Rightarrow> (Ready (Inl TimedOut), True, s)
           | Some tcb \<Rightarrow>
               if is_synchronized tcb then (Ready (Inr remote), True, s)
               else if t_state tcb = Closed
               then (Ready (Inl (if t_reset tcb then ConnectionRefused else TimedOut)), True, s)
               else (Pending, True, s\<lparr>rs_connect_wakers := AList.update remote w (rs_connect_wakers s)\<rparr>)))"

text \<open>\<open>Read\<close> into a buffer of \<open>len\<close> bytes; the bytes read are the result.\<close>

definition poll_read :: "reactor \<Rightarrow> endpoint \<Rightarrow> nat \<Rightarrow> waker \<Rightarrow> (io_error + bytes) poll \<times> reactor" where
  "poll_read s remote len w =
     (if len = 0 then (Ready (Inr []), s)
      else case connection s remote of
             None \<Rightarrow> (Ready (Inr []), s)
           | Some tcb \<Rightarrow>
               if 0 < rx_available tcb
               then (case tcb_recv tcb len of (tcb, bytes) \<Rightarrow> (Ready (Inr bytes), put_connection s remote tcb))
               else if t_reset tcb then (Ready (Inl ConnectionReset), s)
               else if recv_eof tcb \<or> t_state tcb = Closed then (Ready (Inr []), s)
               else (Pending, s\<lparr>rs_read_wakers := AList.update remote w (rs_read_wakers s)\<rparr>))"

definition poll_write :: "reactor \<Rightarrow> endpoint \<Rightarrow> bytes \<Rightarrow> waker \<Rightarrow> (io_error + nat) poll \<times> reactor" where
  "poll_write s remote buf w =
     (case connection s remote of
        None \<Rightarrow> (Ready (Inl BrokenPipe), s)
      | Some tcb \<Rightarrow>
          if t_reset tcb then (Ready (Inl ConnectionReset), s)
          else if t_state tcb \<notin> {Established, CloseWait} then (Ready (Inl BrokenPipe), s)
          else (case tcb_send tcb buf of (tcb, n) \<Rightarrow>
            if 0 < n then (Ready (Inr n), put_connection s remote tcb)
            else (Pending, (put_connection s remote tcb)
                    \<lparr>rs_write_wakers := AList.update remote w (rs_write_wakers s)\<rparr>)))"

text \<open>
  One poll of the \<open>write_all\<close> future: it writes until nothing is left, a write is pending (the
  rest of the data is then the future's state) or a write fails.
\<close>

function poll_write_all ::
  "reactor \<Rightarrow> endpoint \<Rightarrow> bytes \<Rightarrow> waker \<Rightarrow> (io_error + unit) poll \<times> bytes \<times> reactor" where
  "poll_write_all s remote dat w =
     (if dat = [] then (Ready (Inr ()), [], s)
      else case poll_write s remote dat w of
             (Ready (Inl e), s') \<Rightarrow> (Ready (Inl e), dat, s')
           | (Ready (Inr n), s') \<Rightarrow>
               if n = 0 then (Ready (Inl WriteZero), dat, s') else poll_write_all s' remote (drop n dat) w
           | (Pending, s') \<Rightarrow> (Pending, dat, s'))"
  by pat_completeness auto
termination
  by (relation "measure (\<lambda>(s, remote, dat, w). length dat)") auto

declare poll_write_all.simps [simp del]

definition stream_close :: "reactor \<Rightarrow> endpoint \<Rightarrow> reactor" where
  "stream_close s remote =
     (case connection s remote of Some tcb \<Rightarrow> put_connection s remote (tcb_close tcb) | None \<Rightarrow> s)"

section \<open>Waking\<close>

text \<open>The loop over the synchronized passive connections: each is announced once.\<close>

fun announce :: "endpoint list \<Rightarrow> endpoint set \<Rightarrow> endpoint list \<Rightarrow> endpoint set \<times> endpoint list" where
  "announce [] announced queue = (announced, queue)"
| "announce (ep # eps) announced queue =
     (if ep \<notin> announced then announce eps (insert ep announced) (queue @ [ep])
      else announce eps announced queue)"

text \<open>
  The loop over the keys of one waker map: a ready endpoint's waker is removed and woken. The
  woken queue of the executor is the last component.
\<close>

fun wake_loop :: "(endpoint \<Rightarrow> bool) \<Rightarrow> endpoint list \<Rightarrow> wakers \<Rightarrow> nat list \<Rightarrow> wakers \<times> nat list" where
  "wake_loop ready [] wakers woken = (wakers, woken)"
| "wake_loop ready (ep # eps) wakers woken =
     (if ready ep
      then (case map_of wakers ep of
              Some w \<Rightarrow> wake_loop ready eps (AList.delete ep wakers) (woken @ [w])
            | None \<Rightarrow> wake_loop ready eps wakers woken)
      else wake_loop ready eps wakers woken)"

definition connect_ready :: "reactor \<Rightarrow> endpoint \<Rightarrow> bool" where
  "connect_ready s ep \<longleftrightarrow>
     (case connection s ep of Some t \<Rightarrow> is_synchronized t \<or> t_state t = Closed | None \<Rightarrow> True)"

definition read_ready :: "reactor \<Rightarrow> endpoint \<Rightarrow> bool" where
  "read_ready s ep \<longleftrightarrow>
     (case connection s ep of
        Some t \<Rightarrow> 0 < rx_available t \<or> recv_eof t \<or> t_state t = Closed | None \<Rightarrow> True)"

definition write_ready :: "reactor \<Rightarrow> endpoint \<Rightarrow> bool" where
  "write_ready s ep \<longleftrightarrow>
     (case connection s ep of
        Some t \<Rightarrow> t_state t \<notin> {Established, CloseWait} \<or> 0 < tx_free t | None \<Rightarrow> True)"

definition synced :: "stack \<Rightarrow> endpoint list" where
  "synced stack = map fst (filter (\<lambda>(_, t). is_synchronized t \<and> ep_port (t_local t) = ep_port (st_local stack)) (st_conns stack))"

definition promote :: "reactor \<Rightarrow> nat list \<Rightarrow> reactor \<times> nat list" where
  "promote s woken =
     (let (announced, queue) = announce (synced (rs_stack s)) (rs_announced s) (rs_accept_queue s);
          s = s\<lparr>rs_announced := announced, rs_accept_queue := queue\<rparr>
      in if queue \<noteq> []
         then (case rs_accept_waker s of
                 Some w \<Rightarrow> (s\<lparr>rs_accept_waker := None\<rparr>, woken @ [w]) | None \<Rightarrow> (s, woken))
         else (s, woken))"

definition prune :: "reactor \<Rightarrow> reactor" where
  "prune s =
     (let live = set (map fst (st_conns (rs_stack s)))
      in s\<lparr>rs_announced := rs_announced s \<inter> live,
           rs_accept_queue := filter (\<lambda>ep. ep \<in> live) (rs_accept_queue s)\<rparr>)"

definition dispatch_wakeups :: "reactor \<Rightarrow> nat list \<Rightarrow> reactor \<times> nat list" where
  "dispatch_wakeups s woken =
     (let (s, woken) = promote s woken;
          (connects, woken) = wake_loop (connect_ready s) (map fst (rs_connect_wakers s)) (rs_connect_wakers s) woken;
          s = s\<lparr>rs_connect_wakers := connects\<rparr>;
          (reads, woken) = wake_loop (read_ready s) (map fst (rs_read_wakers s)) (rs_read_wakers s) woken;
          s = s\<lparr>rs_read_wakers := reads\<rparr>;
          (writes, woken) = wake_loop (write_ready s) (map fst (rs_write_wakers s)) (rs_write_wakers s) woken
      in (prune (s\<lparr>rs_write_wakers := writes\<rparr>), woken))"

section \<open>What the loops do\<close>

lemma announce_spec:
  assumes "distinct eps"
  shows "announce eps announced queue = (announced \<union> set eps, queue @ filter (\<lambda>ep. ep \<notin> announced) eps)"
  using assms
proof (induction eps announced queue rule: announce.induct)
  case (2 ep eps announced queue)
  have "filter (\<lambda>e. e \<notin> insert ep announced) eps = filter (\<lambda>e. e \<notin> announced) eps"
    using "2.prems" by (intro filter_cong) auto
  then show ?case using 2 by auto
qed simp

lemma wake_loop_from:
  assumes "distinct (map fst (ys @ xs))"
  shows "wake_loop ready (map fst xs) (ys @ xs) woken
    = (ys @ filter (\<lambda>(k, _). \<not> ready k) xs, woken @ map snd (filter (\<lambda>(k, _). ready k) xs))"
  using assms
proof (induction xs arbitrary: ys woken)
  case (Cons p xs)
  obtain k w where p: "p = (k, w)" by fastforce
  have k: "k \<notin> fst ` set ys" "k \<notin> fst ` set xs" using Cons.prems p by auto
  have m: "map_of (ys @ (k, w) # xs) k = Some w"
    using k(1) by (auto simp: map_add_def split: option.split dest: map_of_SomeD intro: rev_image_eqI)
  have d: "AList.delete k (ys @ (k, w) # xs) = ys @ xs"
    using AList.delete_id[OF k(1)] AList.delete_id[OF k(2)] by (simp add: AList.delete_eq)
  show ?case
  proof (cases "ready k")
    case True
    then show ?thesis using Cons.IH[of ys] Cons.prems m d p by simp
  next
    case False
    then show ?thesis using Cons.IH[of "ys @ [p]"] Cons.prems p by simp
  qed
qed simp

lemma wake_loop_spec:
  "distinct (map fst ws) \<Longrightarrow> wake_loop ready (map fst ws) ws woken
    = (filter (\<lambda>(k, _). \<not> ready k) ws, woken @ map snd (filter (\<lambda>(k, _). ready k) ws))"
  using wake_loop_from[of "[]" ws] by simp

lemma woken_or_kept:
  assumes "distinct (map fst ws)" and "map_of ws k = Some w"
  shows "if ready k then w \<in> set (map snd (filter (\<lambda>(k, _). ready k) ws)) \<and> map_of (filter (\<lambda>(k, _). \<not> ready k) ws) k = None
    else map_of (filter (\<lambda>(k, _). \<not> ready k) ws) k = Some w"
proof -
  have i: "(k, w) \<in> set ws" using assms(2) by (rule map_of_SomeD)
  have d: "distinct (map fst (filter (\<lambda>(k, _). \<not> ready k) ws))" using assms(1) by (rule distinct_map_filter)
  show ?thesis
  proof (cases "ready k")
    case True
    then have "w \<in> snd ` {p \<in> set ws. case p of (k, _) \<Rightarrow> ready k}" using i by force
    then show ?thesis using True by (auto simp: map_of_eq_None_iff)
  next
    case False
    then have "(k, w) \<in> set (filter (\<lambda>(k, _). \<not> ready k) ws)" using i by simp
    then show ?thesis using map_of_is_SomeI[OF d] False by simp
  qed
qed

section \<open>One dispatch\<close>

definition wakers_ok :: "reactor \<Rightarrow> bool" where
  "wakers_ok s \<longleftrightarrow> distinct (map fst (rs_read_wakers s)) \<and> distinct (map fst (rs_write_wakers s))
     \<and> distinct (map fst (rs_connect_wakers s))"

lemma ready_views [simp]:
  "read_ready (s\<lparr>rs_connect_wakers := c\<rparr>) = read_ready s" "write_ready (s\<lparr>rs_connect_wakers := c, rs_read_wakers := r\<rparr>) = write_ready s"
  "connect_ready (s\<lparr>rs_announced := a, rs_accept_queue := q, rs_accept_waker := w\<rparr>) = connect_ready s"
  "read_ready (s\<lparr>rs_announced := a, rs_accept_queue := q, rs_accept_waker := w\<rparr>) = read_ready s"
  "write_ready (s\<lparr>rs_announced := a, rs_accept_queue := q, rs_accept_waker := w\<rparr>) = write_ready s"
  by (simp_all add: fun_eq_iff read_ready_def write_ready_def connect_ready_def connection_def)

text \<open>The queue before it is pruned, and the state and the wakes a dispatch leaves.\<close>

definition queued :: "reactor \<Rightarrow> endpoint list" where
  "queued s = rs_accept_queue s @ filter (\<lambda>ep. ep \<notin> rs_announced s) (synced (rs_stack s))"

definition accept_wake :: "reactor \<Rightarrow> nat list" where
  "accept_wake s = (if queued s = [] then [] else case rs_accept_waker s of Some w \<Rightarrow> [w] | None \<Rightarrow> [])"

lemma synced_distinct: "distinct (map fst (st_conns stack)) \<Longrightarrow> distinct (synced stack)"
  unfolding synced_def by (rule distinct_map_filter)

lemma promote_run:
  assumes "distinct (map fst (st_conns (rs_stack s)))"
  shows "promote s woken = (s\<lparr>rs_announced := rs_announced s \<union> set (synced (rs_stack s)), rs_accept_queue := queued s,
      rs_accept_waker := (if queued s = [] then rs_accept_waker s else None)\<rparr>, woken @ accept_wake s)"
  unfolding promote_def announce_spec[OF synced_distinct[OF assms]] Let_def split_conv queued_def[symmetric]
  by (cases "rs_accept_waker s") (simp_all add: accept_wake_def)

lemma dispatch_run:
  assumes "distinct (map fst (st_conns (rs_stack s)))" and "wakers_ok s"
  defines "live \<equiv> set (map fst (st_conns (rs_stack s)))"
  shows "dispatch_wakeups s woken =
     (s\<lparr>rs_announced := (rs_announced s \<union> set (synced (rs_stack s))) \<inter> live,
        rs_accept_queue := filter (\<lambda>ep. ep \<in> live) (queued s),
        rs_accept_waker := (if queued s = [] then rs_accept_waker s else None),
        rs_connect_wakers := filter (\<lambda>(k, _). \<not> connect_ready s k) (rs_connect_wakers s),
        rs_read_wakers := filter (\<lambda>(k, _). \<not> read_ready s k) (rs_read_wakers s),
        rs_write_wakers := filter (\<lambda>(k, _). \<not> write_ready s k) (rs_write_wakers s)\<rparr>,
      woken @ accept_wake s @ map snd (filter (\<lambda>(k, _). connect_ready s k) (rs_connect_wakers s))
        @ map snd (filter (\<lambda>(k, _). read_ready s k) (rs_read_wakers s))
        @ map snd (filter (\<lambda>(k, _). write_ready s k) (rs_write_wakers s)))"
proof -
  have d: "distinct (map fst (rs_read_wakers s))" "distinct (map fst (rs_write_wakers s))" "distinct (map fst (rs_connect_wakers s))"
    using assms(2) by (simp_all add: wakers_ok_def)
  show ?thesis
    unfolding dispatch_wakeups_def promote_run[OF assms(1)] split_conv Let_def
    by (simp add: wake_loop_spec d prune_def live_def)
qed

end
