(* ===== verification/Wakeups.thy ===== *)
theory Wakeups
  imports Sockets
begin

text \<open>
  No wake-up is lost, nobody is woken without a reason, and every connection is accepted once.
\<close>

definition reactor_inv :: "cc_overrides \<Rightarrow> nat \<Rightarrow> reactor \<Rightarrow> bool" where
  "reactor_inv ov m s \<longleftrightarrow> stack_inv ov m (rs_stack s) \<and> wakers_ok s"

lemma reactor_inv_conns: "reactor_inv ov m s \<Longrightarrow> distinct (map fst (st_conns (rs_stack s)))"
  by (simp add: reactor_inv_def stack_inv_def)

lemma connection_reset_closed:
  assumes "reactor_inv ov m s" and ov: "overrides_ok ov" and "connection s remote = Some t" and "t_reset t"
  shows "t_state t = Closed"
proof -
  have "(remote, t) \<in> set (st_conns (rs_stack s))" using assms(3) by (simp add: connection_def map_of_SomeD)
  then obtain n where "reachable ov n t" using assms(1) by (auto simp: reactor_inv_def stack_inv_def)
  then show ?thesis using reset_is_closed[OF _ ov] assms(4) by blast
qed

section \<open>A future is pending exactly when its socket is not ready\<close>

lemma read_pending:
  assumes "\<And>t. connection s remote = Some t \<Longrightarrow> t_reset t \<Longrightarrow> t_state t = Closed" and "0 < len"
  shows "fst (poll_read s remote len w) = Pending \<longleftrightarrow> \<not> read_ready s remote"
  using assms by (auto simp: poll_read_def read_ready_def split: option.split prod.split)

lemma send_pending:
  assumes "buf \<noteq> []" and "t_state t \<in> {Established, CloseWait}"
  shows "snd (tcb_send t buf) = 0 \<longleftrightarrow> tx_free t = 0"
  using assms by (auto simp: tcb_send_def rb_write_def tx_free_def Let_def min_def split: if_splits)

lemma write_pending:
  assumes "\<And>t. connection s remote = Some t \<Longrightarrow> t_reset t \<Longrightarrow> t_state t = Closed" and "buf \<noteq> []"
  shows "fst (poll_write s remote buf w) = Pending \<longleftrightarrow> \<not> write_ready s remote"
proof (cases "connection s remote")
  case (Some t)
  obtain t' n where b: "tcb_send t buf = (t', n)" by fastforce
  show ?thesis
    using Some b assms(1)[OF Some] send_pending[OF assms(2), of t]
    by (cases "t_state t \<in> {Established, CloseWait}") (auto simp: poll_write_def write_ready_def)
qed (simp add: poll_write_def write_ready_def)

lemma connect_pending:
  "poll_connect ov s remote True w = Some (r, i, s') \<Longrightarrow> r = Pending \<longleftrightarrow> \<not> connect_ready s remote"
  by (auto simp: poll_connect_def connect_ready_def split: option.splits if_splits)

lemma accept_pending: "fst (poll_accept s w) \<noteq> Pending \<Longrightarrow> rs_accept_queue s \<noteq> []"
  by (auto simp: poll_accept_def)

lemma parked:
  "poll_read s remote len w = (Pending, s') \<Longrightarrow> map_of (rs_read_wakers s') remote = Some w"
  "poll_write s remote buf w = (Pending, s') \<Longrightarrow> map_of (rs_write_wakers s') remote = Some w"
  "poll_connect ov s remote i w = Some (Pending, j, s') \<Longrightarrow> map_of (rs_connect_wakers s') remote = Some w"
  "poll_accept s w = (Pending, s') \<Longrightarrow> rs_accept_waker s' = Some w"
  by (auto simp: poll_read_def poll_write_def poll_connect_def poll_accept_def update_conv' bind_Some_iff
      split: option.splits if_splits prod.splits)

text \<open>What a dispatch wakes, and that it wakes only futures that will resolve.\<close>

definition newly_woken :: "reactor \<Rightarrow> nat list" where
  "newly_woken s = accept_wake s @ map snd (filter (\<lambda>(k, _). connect_ready s k) (rs_connect_wakers s))
     @ map snd (filter (\<lambda>(k, _). read_ready s k) (rs_read_wakers s))
     @ map snd (filter (\<lambda>(k, _). write_ready s k) (rs_write_wakers s))"

lemma nothing_queued: "queued s = [] \<longleftrightarrow> rs_accept_queue s = [] \<and> set (synced (rs_stack s)) \<subseteq> rs_announced s"
  by (auto simp: queued_def filter_empty_conv)

lemma same_stack_ready:
  assumes "rs_stack s' = rs_stack s"
  shows "read_ready s' = read_ready s" "write_ready s' = write_ready s" "connect_ready s' = connect_ready s"
  using assms by (simp_all add: fun_eq_iff read_ready_def write_ready_def connect_ready_def connection_def)

lemma same_stack_reset:
  assumes "reactor_inv ov m s" and "overrides_ok ov" and "rs_stack s' = rs_stack s"
  shows "connection s' remote = Some t \<Longrightarrow> t_reset t \<Longrightarrow> t_state t = Closed"
  using connection_reset_closed[OF assms(1,2)] assms(3) by (simp add: connection_def)

lemma woken_when_due:
  assumes inv: "reactor_inv ov m s" and ov: "overrides_ok ov" and st: "rs_stack s' = rs_stack s" and h: "w \<in> set (newly_woken s)"
  shows "(rs_accept_waker s = Some w \<and> \<not> queued s = [])
      \<or> (\<exists>remote. map_of (rs_read_wakers s) remote = Some w \<and> (\<forall>len>0. fst (poll_read s' remote len w) \<noteq> Pending))
      \<or> (\<exists>remote. map_of (rs_write_wakers s) remote = Some w \<and> (\<forall>buf. buf \<noteq> [] \<longrightarrow> fst (poll_write s' remote buf w) \<noteq> Pending))
      \<or> (\<exists>remote. map_of (rs_connect_wakers s) remote = Some w
           \<and> (\<forall>r i s2. poll_connect ov s' remote True w = Some (r, i, s2) \<longrightarrow> r \<noteq> Pending))"
proof -
  have d: "distinct (map fst (rs_read_wakers s))" "distinct (map fst (rs_write_wakers s))" "distinct (map fst (rs_connect_wakers s))"
    using inv by (simp_all add: reactor_inv_def wakers_ok_def)
  note rdy = same_stack_ready[OF st] and rc = same_stack_reset[OF inv ov st]
  from h consider "w \<in> set (accept_wake s)" | remote where "(remote, w) \<in> set (rs_connect_wakers s)" "connect_ready s remote"
    | remote where "(remote, w) \<in> set (rs_read_wakers s)" "read_ready s remote"
    | remote where "(remote, w) \<in> set (rs_write_wakers s)" "write_ready s remote"
    by (auto simp: newly_woken_def)
  then show ?thesis
  proof cases
    case 1
    then have "rs_accept_waker s = Some w \<and> \<not> queued s = []"
      by (cases "rs_accept_waker s") (simp_all add: accept_wake_def split: if_splits)
    then show ?thesis by (rule disjI1)
  next
    case (2 remote)
    have "r \<noteq> Pending" if "poll_connect ov s' remote True w = Some (r, i, s2)" for r i s2
      using connect_pending[OF that] 2(2) rdy(3) by simp
    then show ?thesis using map_of_is_SomeI[OF d(3) 2(1)] by blast
  next
    case (3 remote)
    have "fst (poll_read s' remote len w) \<noteq> Pending" if "0 < len" for len
      using read_pending[of s' remote len w, OF rc that] 3(2) rdy(1) by simp
    then show ?thesis using map_of_is_SomeI[OF d(1) 3(1)] by blast
  next
    case (4 remote)
    have "fst (poll_write s' remote buf w) \<noteq> Pending" if "buf \<noteq> []" for buf
      using write_pending[of s' remote buf w, OF rc that] 4(2) rdy(2) by simp
    then show ?thesis using map_of_is_SomeI[OF d(2) 4(1)] by blast
  qed
qed


text \<open>The sample connection and its reader, parked.\<close>

definition sample_peer :: endpoint where
  "sample_peer = endpoint_new 0x0A000002 49152"

definition sample_reactor :: reactor where
  "sample_reactor = (reactor_new (endpoint_new 0x0A000001 80) (replicate 16 0) 1460)
     \<lparr>rs_stack := (stack_new (endpoint_new 0x0A000001 80) (replicate 16 0) 1460)\<lparr>st_conns := [(sample_peer, sample_established)]\<rparr>\<rparr>"

lemma sample_reactor_inv: "reactor_inv no_overrides 0 (sample_reactor\<lparr>rs_read_wakers := [(sample_peer, 7)]\<rparr>)"
  using sample_reached(3)
  by (auto simp: reactor_inv_def wakers_ok_def sample_reactor_def reactor_new_def stack_inv_def stack_new_def EPHEMERAL_MIN_def)


section \<open>Accepting\<close>

text \<open>
  C18: a connection is offered to \<open>accept\<close> once. A dispatch appends to the queue exactly
  the live synchronized connections on the listening port that were not announced before, in
  order, and marks them announced; the queue then holds no connection twice, only live and
  announced ones, and every synchronized connection on the listening port is announced.
\<close>

theorem accepted_once:
  assumes "reactor_inv ov m s" and "distinct (rs_accept_queue s)" and "set (rs_accept_queue s) \<subseteq> rs_announced s"
    and "dispatch_wakeups s woken = (s', woken')"
  shows "rs_accept_queue s' = filter (\<lambda>ep. connection s ep \<noteq> None) (rs_accept_queue s)
      @ filter (\<lambda>ep. ep \<notin> rs_announced s) (synced (rs_stack s))
    \<and> rs_announced s' = {ep. connection s ep \<noteq> None \<and> (ep \<in> rs_announced s \<or> ep \<in> set (synced (rs_stack s)))}
    \<and> distinct (rs_accept_queue s') \<and> set (rs_accept_queue s') \<subseteq> rs_announced s'
    \<and> (\<forall>ep t. connection s ep = Some t \<and> is_synchronized t \<and> ep_port (t_local t) = ep_port (st_local (rs_stack s))
         \<longrightarrow> ep \<in> rs_announced s')"
proof -
  have w: "wakers_ok s" using assms(1) by (simp add: reactor_inv_def)
  let ?live = "set (map fst (st_conns (rs_stack s)))"
  have live: "ep \<in> ?live \<longleftrightarrow> connection s ep \<noteq> None" for ep
    by (simp add: connection_def map_of_eq_None_iff)
  have sy: "set (synced (rs_stack s)) \<subseteq> ?live" by (auto simp: synced_def)
  have sl: "connection s ep \<noteq> None" if "ep \<in> set (synced (rs_stack s))" for ep using that sy live by blast
  have run: "rs_announced s' = (rs_announced s \<union> set (synced (rs_stack s))) \<inter> ?live"
    "rs_accept_queue s' = filter (\<lambda>ep. ep \<in> ?live) (queued s)"
    by (simp_all add: assms(4)[unfolded dispatch_run[OF reactor_inv_conns[OF assms(1)] w] prod.inject, THEN conjunct1, symmetric])
  have q: "filter (\<lambda>ep. ep \<in> ?live) (filter (\<lambda>ep. ep \<notin> rs_announced s) (synced (rs_stack s)))
      = filter (\<lambda>ep. ep \<notin> rs_announced s) (synced (rs_stack s))"
    unfolding filter_filter using sy by (intro filter_cong refl) auto
  have queue: "rs_accept_queue s' = filter (\<lambda>ep. connection s ep \<noteq> None) (rs_accept_queue s)
      @ filter (\<lambda>ep. ep \<notin> rs_announced s) (synced (rs_stack s))"
    unfolding run(2) queued_def filter_append q by (simp only: live)
  have announced: "rs_announced s' = {ep. connection s ep \<noteq> None \<and> (ep \<in> rs_announced s \<or> ep \<in> set (synced (rs_stack s)))}"
    unfolding run(1) using live by blast
  have "distinct (rs_accept_queue s')"
    unfolding queue using assms(2,3) synced_distinct[OF reactor_inv_conns[OF assms(1)]] by auto
  moreover have "set (rs_accept_queue s') \<subseteq> rs_announced s'"
    unfolding queue announced using assms(3) sl by auto
  moreover have "ep \<in> rs_announced s'"
    if "connection s ep = Some t" "is_synchronized t" "ep_port (t_local t) = ep_port (st_local (rs_stack s))" for ep t
  proof -
    have "(ep, t) \<in> set (st_conns (rs_stack s))" using that(1) by (simp add: connection_def map_of_SomeD)
    then have "ep \<in> set (synced (rs_stack s))" using that(2,3) by (force simp: synced_def)
    then show ?thesis using that(1) by (simp add: announced)
  qed
  ultimately show ?thesis using queue announced by blast
qed

theorem accepted_once_witness:
  "\<exists>s' new. dispatch_wakeups (sample_reactor\<lparr>rs_read_wakers := [(sample_peer, 7)]\<rparr>) [] = (s', new)
    \<and> distinct (rs_accept_queue s') \<and> sample_peer \<in> rs_announced s'"
proof -
  let ?s = "sample_reactor\<lparr>rs_read_wakers := [(sample_peer, 7)]\<rparr>"
  obtain s' new where d: "dispatch_wakeups ?s [] = (s', new)" by fastforce
  have e: "connection ?s sample_peer = Some sample_established" "is_synchronized sample_established"
    "ep_port (t_local sample_established) = ep_port (st_local (rs_stack ?s))" "rs_accept_queue ?s = []"
    using no_options[OF sample_syn_fields(2)]
    by (simp_all add: connection_def sample_reactor_def is_synchronized_def sample_established_def sample_answered_def
        sample_passive_def new_syn_received_def start_rtx_def reactor_new_def stack_new_def Let_def)
  show ?thesis using accepted_once[OF sample_reactor_inv _ _ d] d e by auto
qed

end
