(* ===== verification/Socket_Calls.thy ===== *)
theory Socket_Calls
  imports Wakeups
begin

text \<open>
  What the calls of the sockets do to the connections: they keep the reactor's invariant, and
  \<open>write_all\<close> queues its data in order; and two calls whose task waits for ever.
\<close>

section \<open>The invariant\<close>

lemma connection_put [simp]:
  "connection (put_connection s remote t) = (connection s)(remote \<mapsto> t)"
  by (simp add: fun_eq_iff connection_def put_connection_def update_conv')

lemma connection_parked [simp]:
  "connection (s\<lparr>rs_write_wakers := w\<rparr>) = connection s" "connection (s\<lparr>rs_read_wakers := w\<rparr>) = connection s"
  by (simp_all add: fun_eq_iff connection_def)

lemma put_connection_wakers [simp]:
  "rs_read_wakers (put_connection s remote t) = rs_read_wakers s"
  "rs_write_wakers (put_connection s remote t) = rs_write_wakers s"
  "rs_connect_wakers (put_connection s remote t) = rs_connect_wakers s"
  by (simp_all add: put_connection_def)

lemma put_connection_inv:
  assumes "reactor_inv ov m s" and "\<exists>n \<le> m. reachable ov n t"
  shows "reactor_inv ov m (put_connection s remote t)"
proof -
  have i: "distinct (map fst (st_conns (rs_stack s)))" "\<forall>(k, t) \<in> set (st_conns (rs_stack s)). \<exists>n \<le> m. reachable ov n t"
    using assms(1) by (simp_all add: reactor_inv_def stack_inv_def)
  show ?thesis
    using conns_update[OF i assms(2), of remote] assms(1)
    by (simp add: reactor_inv_def stack_inv_def put_connection_def wakers_ok_def)
qed

lemma connection_reachable:
  assumes "reactor_inv ov m s" and "connection s remote = Some t"
  shows "\<exists>n \<le> m. reachable ov n t"
proof -
  have "(remote, t) \<in> set (st_conns (rs_stack s))" using assms(2) by (simp add: connection_def map_of_SomeD)
  then show ?thesis using assms(1) by (auto simp: reactor_inv_def stack_inv_def)
qed

lemma park_inv:
  assumes "reactor_inv ov m s"
  shows "reactor_inv ov m (s\<lparr>rs_read_wakers := AList.update remote w (rs_read_wakers s)\<rparr>)"
    "reactor_inv ov m (s\<lparr>rs_write_wakers := AList.update remote w (rs_write_wakers s)\<rparr>)"
    "reactor_inv ov m (s\<lparr>rs_connect_wakers := AList.update remote w (rs_connect_wakers s)\<rparr>)"
  using assms by (simp_all add: reactor_inv_def wakers_ok_def distinct_update)

lemma poll_read_inv:
  assumes "reactor_inv ov m s"
  shows "reactor_inv ov m (snd (poll_read s remote len w))"
proof (cases "connection s remote")
  case (Some t)
  obtain t' b where r: "tcb_recv t len = (t', b)" by fastforce
  have "\<exists>n \<le> m. reachable ov n (fst (tcb_recv t len))"
    using connection_reachable[OF assms Some] reachable.app_recv by blast
  then have p: "reactor_inv ov m (put_connection s remote t')" using put_connection_inv[OF assms] r by simp
  show ?thesis
    using Some assms r p park_inv(1)[OF assms] by (simp add: poll_read_def)
qed (simp add: poll_read_def assms)

lemma poll_write_inv:
  assumes "reactor_inv ov m s"
  shows "reactor_inv ov m (snd (poll_write s remote buf w))"
proof (cases "connection s remote")
  case (Some t)
  obtain t' n where b: "tcb_send t buf = (t', n)" by fastforce
  have "\<exists>n \<le> m. reachable ov n (fst (tcb_send t buf))"
    using connection_reachable[OF assms Some] reachable.app_send by blast
  then have p: "reactor_inv ov m (put_connection s remote t')" using put_connection_inv[OF assms] b by simp
  show ?thesis
    using Some assms b p park_inv(2)[OF p] by (simp add: poll_write_def)
qed (simp add: poll_write_def assms)

lemma poll_write_all_inv:
  "reactor_inv ov m s \<Longrightarrow> reactor_inv ov m (snd (snd (poll_write_all s remote dat w)))"
proof (induction s remote dat w rule: poll_write_all.induct)
  case (1 s remote dat w)
  obtain r s' where p: "poll_write s remote dat w = (r, s')" by fastforce
  have i: "reactor_inv ov m s'" using poll_write_inv[OF "1.prems", of remote dat w] p by simp
  show ?case
  proof (cases "dat = []")
    case True
    then show ?thesis using "1.prems" by (subst poll_write_all.simps) simp
  next
    case False
    have "reactor_inv ov m (snd (snd (poll_write_all s' remote (drop n dat) w)))" if "r = Ready (Inr n)" "n \<noteq> 0" for n
      using "1.IH"[OF False p[symmetric] that(1) refl that(2)] i by blast
    then show ?thesis
      using False p i by (subst poll_write_all.simps) (auto split: poll.split sum.split)
  qed
qed

lemma stream_close_inv:
  assumes "reactor_inv ov m s"
  shows "reactor_inv ov m (stream_close s remote)"
proof (cases "connection s remote")
  case (Some t)
  have "\<exists>n \<le> m. reachable ov n (tcb_close t)" using connection_reachable[OF assms Some] reachable.app_close by blast
  then show ?thesis using Some put_connection_inv[OF assms] by (simp add: stream_close_def)
qed (simp add: stream_close_def assms)

lemma poll_accept_inv: "reactor_inv ov m s \<Longrightarrow> reactor_inv ov m (snd (poll_accept s w))"
  by (simp add: poll_accept_def reactor_inv_def wakers_ok_def split: prod.split option.split)

lemma dispatch_inv:
  assumes "reactor_inv ov m s"
  shows "reactor_inv ov m (fst (dispatch_wakeups s woken))"
proof -
  have w: "wakers_ok s" using assms by (simp add: reactor_inv_def)
  show ?thesis
    unfolding dispatch_run[OF reactor_inv_conns[OF assms] w]
    using assms by (simp add: reactor_inv_def wakers_ok_def distinct_map_filter)
qed

lemma poll_connect_inv:
  assumes "reactor_inv ov m s"
  shows "\<exists>r i s'. poll_connect ov s remote initiated w = Some (r, i, s') \<and> reactor_inv ov m s'"
proof (cases initiated)
  case True
  then obtain r i s' where c: "poll_connect ov s remote initiated w = Some (r, i, s')"
    by (cases "poll_connect ov s remote initiated w") (auto simp: poll_connect_def)
  then have "reactor_inv ov m s'"
    using True assms park_inv(3)[OF assms] by (auto simp: poll_connect_def split: option.splits if_splits)
  then show ?thesis using c by blast
next
  case False
  have "stack_inv ov m (rs_stack s)" using assms by (simp add: reactor_inv_def)
  then obtain st where c: "connect ov (rs_stack s) remote (rs_now s) = Some (remote, st)" "stack_inv ov m st"
    using connect_ok by blast
  have "reactor_inv ov m (s\<lparr>rs_stack := st\<rparr>)" using assms c(2) by (simp add: reactor_inv_def wakers_ok_def)
  from park_inv(3)[OF this] show ?thesis using c(1) False by (auto simp: poll_connect_def)
qed

section \<open>Writing everything\<close>

lemma send_run:
  assumes "tcb_send t buf = (t', n)"
  shows "\<exists>tx. t' = t\<lparr>t_tx := tx\<rparr> \<and> rb_buf tx = rb_buf (t_tx t) @ take n buf \<and> n \<le> length buf
    \<and> (n = 0 \<and> buf \<noteq> [] \<and> t_state t \<in> {Established, CloseWait} \<longrightarrow> rb_free tx = 0)"
proof (cases "t_state t \<in> {Established, CloseWait}")
  case True
  define k where "k = min (length buf) (rb_free (t_tx t))"
  define tx where "tx = (t_tx t)\<lparr>rb_buf := rb_buf (t_tx t) @ take k buf\<rparr>"
  have e: "t' = t\<lparr>t_tx := tx\<rparr>" "n = k" using assms True by (auto simp: tcb_send_def rb_write_def Let_def k_def tx_def)
  have "rb_free tx = 0" if "k = 0" "buf \<noteq> []"
  proof -
    have "rb_free (t_tx t) = 0" using that by (cases buf) (auto simp: k_def min_def split: if_splits)
    then show ?thesis using that(1) by (simp add: tx_def rb_free_def)
  qed
  then show ?thesis using e by (intro exI[of _ tx]) (simp add: tx_def, simp add: k_def)
next
  case False
  then have "t' = t" "n = 0" using assms by (simp_all add: tcb_send_def split: state.splits)
  then show ?thesis using False by (intro exI[of _ "t_tx t"]) simp
qed

lemma same_tx: "\<exists>tx. t = t\<lparr>t_tx := tx\<rparr> \<and> rb_buf tx = rb_buf (t_tx t)"
  by (rule exI[of _ "t_tx t"]) simp

definition wrote_prefix :: "reactor \<Rightarrow> endpoint \<Rightarrow> bytes \<Rightarrow> (io_error + unit) poll \<times> bytes \<times> reactor \<Rightarrow> bool" where
  "wrote_prefix s remote dat result \<longleftrightarrow> (case result of (r, rest, s') \<Rightarrow> \<exists>sent. dat = sent @ rest
     \<and> (\<forall>t. connection s remote = Some t \<longrightarrow> (\<exists>tx. connection s' remote = Some (t\<lparr>t_tx := tx\<rparr>)
           \<and> rb_buf tx = rb_buf (t_tx t) @ sent \<and> (r = Pending \<longrightarrow> rb_free tx = 0)))
     \<and> (connection s remote = None \<longrightarrow> sent = [] \<and> r \<noteq> Pending)
     \<and> (\<forall>other. other \<noteq> remote \<longrightarrow> connection s' other = connection s other)
     \<and> (r = Ready (Inr ()) \<longleftrightarrow> rest = []) \<and> r \<noteq> Ready (Inl WriteZero))"

lemma write_all_run:
  "poll_write s remote dat w = (Ready (Inl e), s') \<Longrightarrow> dat \<noteq> [] \<Longrightarrow> poll_write_all s remote dat w = (Ready (Inl e), dat, s')"
  "poll_write s remote dat w = (Pending, s') \<Longrightarrow> dat \<noteq> [] \<Longrightarrow> poll_write_all s remote dat w = (Pending, dat, s')"
  "poll_write s remote dat w = (Ready (Inr n), s') \<Longrightarrow> dat \<noteq> [] \<Longrightarrow> 0 < n \<Longrightarrow>
    poll_write_all s remote dat w = poll_write_all s' remote (drop n dat) w"
  by (subst poll_write_all.simps, simp)+

lemma wrote_nothing:
  assumes "connection s remote = Some t" and "dat \<noteq> []" and "e \<noteq> WriteZero"
  shows "wrote_prefix s remote dat (Ready (Inl e), dat, s)"
  using assms same_tx[of t] by (simp add: wrote_prefix_def)

lemma wrote_full:
  assumes "connection s remote = Some t" and "dat \<noteq> []" and "rb_buf tx = rb_buf (t_tx t)" and "rb_free tx = 0"
    and "connection s' = (connection s)(remote \<mapsto> t\<lparr>t_tx := tx\<rparr>)"
  shows "wrote_prefix s remote dat (Pending, dat, s')"
proof -
  have "\<exists>x. connection s' remote = Some (t\<lparr>t_tx := x\<rparr>) \<and> rb_buf x = rb_buf (t_tx t) \<and> rb_free x = 0"
    using assms(3-5) by (intro exI[of _ tx]) simp
  then show ?thesis using assms(1,2,5) by (simp add: wrote_prefix_def)
qed

lemma wrote_some:
  assumes "connection s remote = Some t" and "connection s1 = (connection s)(remote \<mapsto> t\<lparr>t_tx := tx\<rparr>)"
    and "rb_buf tx = rb_buf (t_tx t) @ take n dat" and "wrote_prefix s1 remote (drop n dat) (r, rest, s')"
  shows "wrote_prefix s remote dat (r, rest, s')"
proof -
  obtain sent where k: "drop n dat = sent @ rest"
    "\<forall>u. connection s1 remote = Some u \<longrightarrow> (\<exists>tx2. connection s' remote = Some (u\<lparr>t_tx := tx2\<rparr>)
       \<and> rb_buf tx2 = rb_buf (t_tx u) @ sent \<and> (r = Pending \<longrightarrow> rb_free tx2 = 0))"
    "\<forall>other. other \<noteq> remote \<longrightarrow> connection s' other = connection s1 other"
    "r = Ready (Inr ()) \<longleftrightarrow> rest = []" "r \<noteq> Ready (Inl WriteZero)"
    using assms(4) unfolding wrote_prefix_def split_conv by (elim exE conjE) (rule that; assumption)
  have "connection s1 remote = Some (t\<lparr>t_tx := tx\<rparr>)" using assms(2) by simp
  from k(2)[rule_format, OF this] obtain tx2 where tx2: "connection s' remote = Some (t\<lparr>t_tx := tx\<rparr>\<lparr>t_tx := tx2\<rparr>)"
    "rb_buf tx2 = rb_buf (t_tx (t\<lparr>t_tx := tx\<rparr>)) @ sent" "r = Pending \<longrightarrow> rb_free tx2 = 0" by (elim exE conjE)
  have "\<exists>x. connection s' remote = Some (t\<lparr>t_tx := x\<rparr>) \<and> rb_buf x = rb_buf (t_tx t) @ take n dat @ sent
      \<and> (r = Pending \<longrightarrow> rb_free x = 0)"
    using tx2 assms(3) by (intro exI[of _ tx2]) simp
  moreover have "dat = (take n dat @ sent) @ rest" using k(1) append_take_drop_id[of n dat] by simp
  ultimately show ?thesis
    unfolding wrote_prefix_def split_conv
    using k(3-5) assms(1,2) by (intro exI[of _ "take n dat @ sent"]) simp
qed

text \<open>
  C19: \<open>write_all\<close> queues its data in order. When its future is polled, what it takes off its
  data is appended, in order and in full, to the connection's send queue, and nothing else of
  any connection changes. It is pending only with a full send queue, succeeds exactly when
  nothing is left, and never reports \<open>WriteZero\<close>.
\<close>

theorem write_all_queues_in_order: "wrote_prefix s remote dat (poll_write_all s remote dat w)"
proof (induction s remote dat w rule: poll_write_all.induct)
  case (1 s remote dat w)
  show ?case
  proof (cases "dat = []")
    case True
    then show ?thesis by (subst poll_write_all.simps) (simp add: wrote_prefix_def same_tx)
  next
    case False
    show ?thesis
    proof (cases "connection s remote")
      case None
      then have "poll_write s remote dat w = (Ready (Inl BrokenPipe), s)" by (simp add: poll_write_def)
      then show ?thesis using None False by (simp add: write_all_run wrote_prefix_def)
    next
      case (Some t)
      obtain t' n where b: "tcb_send t dat = (t', n)" by fastforce
      obtain tx where tx: "t' = t\<lparr>t_tx := tx\<rparr>" "rb_buf tx = rb_buf (t_tx t) @ take n dat"
        "n = 0 \<Longrightarrow> t_state t \<in> {Established, CloseWait} \<Longrightarrow> rb_free tx = 0"
        using send_run[OF b] False by blast
      let ?s = "put_connection s remote t'"
      consider (dead) e where "poll_write s remote dat w = (Ready (Inl e), s)" "e \<noteq> WriteZero"
        | (full) "poll_write s remote dat w = (Pending, ?s\<lparr>rs_write_wakers := AList.update remote w (rs_write_wakers s)\<rparr>)"
            "n = 0" "t_state t \<in> {Established, CloseWait}"
        | (some) "poll_write s remote dat w = (Ready (Inr n), ?s)" "0 < n"
        using Some b by (cases "t_reset t"; cases "t_state t \<in> {Established, CloseWait}"; cases "n = 0") (simp_all add: poll_write_def)
      then show ?thesis
      proof cases
        case dead
        then show ?thesis using wrote_nothing[OF Some False] False by (simp add: write_all_run)
      next
        case full
        then show ?thesis
          unfolding write_all_run(2)[OF full(1) False] using tx by (intro wrote_full[OF Some False, of tx]) simp_all
      next
        case some
        obtain r rest s' where h: "poll_write_all ?s remote (drop n dat) w = (r, rest, s')"
          by (cases "poll_write_all ?s remote (drop n dat) w") auto
        have "wrote_prefix ?s remote (drop n dat) (r, rest, s')"
          using "1.IH"[OF False some(1)[symmetric] refl refl] some(2) h by simp
        from wrote_some[OF Some _ tx(2) this] show ?thesis
          unfolding write_all_run(3)[OF some(1) False some(2)] h by (simp add: tx(1))
      qed
    qed
  qed
qed

section \<open>Tasks that wait for ever\<close>

lemma sample_not_reset: "\<not> t_reset sample_established" "t_state sample_established = Established"
  using no_options[OF sample_syn_fields(2)]
  by (simp_all add: sample_established_def sample_answered_def sample_passive_def new_syn_received_def start_rtx_def Let_def)

text \<open>The port after one in the ephemeral range.\<close>

definition port_after :: "u16 \<Rightarrow> u16" where
  "port_after p = (if p = EPHEMERAL_MAX then EPHEMERAL_MIN else p + 1)"

lemma picked_port:
  assumes "next_ephemeral_port self = Some (p, self')" and "49152 \<le> unat (st_ephemeral_next self)"
  shows "(p = st_ephemeral_next self \<or> p = port_after (st_ephemeral_next self)) \<and> st_ephemeral_next self' = port_after p"
proof -
  define c l where "c = st_ephemeral_next self" and "l = ep_port (st_local self)"
  have n: "port_after c \<noteq> c" using ephemeral_step[OF assms(2) refl] by (simp add: port_after_def c_def)
  have run: "ephemeral_loop l q = (if q \<noteq> l then Some (q, port_after q) else ephemeral_loop l (port_after q))" for q
    unfolding port_after_def by (subst ephemeral_loop.simps) (simp only: Let_def)
  have "ephemeral_loop l c = Some (c, port_after c) \<or> ephemeral_loop l c = Some (port_after c, port_after (port_after c))"
    using run[of c] run[of "port_after c"] n by (cases "c = l") simp_all
  then show ?thesis using assms(1) by (auto simp: next_ephemeral_port_def c_def l_def)
qed

lemma ports_differ: "port_after p \<noteq> p" "port_after (port_after p) \<noteq> p"
  by (auto simp: port_after_def EPHEMERAL_MAX_def EPHEMERAL_MIN_def)

lemma connect_run:
  assumes "connect ov self remote now = Some (r, self')"
  shows "\<exists>p c t. next_ephemeral_port self = Some (p, c) \<and> map_of (st_conns self') remote = Some t \<and> ep_port (t_local t) = p
    \<and> st_ephemeral_next self' = st_ephemeral_next c"
proof -
  obtain p c where p: "next_ephemeral_port self = Some (p, c)" using assms by (auto simp: connect_def bind_Some_iff)
  have "t_local (set_congestion_control ov x k) = t_local x" for x k by (simp add: set_congestion_control_def Let_def)
  moreover have "t_local (new_syn_sent ov l remote i n m) = l" for l i n m by (simp add: new_syn_sent_def)
  ultimately show ?thesis using assms p by (auto simp: connect_def Let_def update_conv' endpoint_new_def)
qed

text \<open>
  A second connect to the same remote takes over the first. Although the second call picks
  a local port of its own, connections and wakers are keyed by the remote endpoint alone: the
  first call's connection is gone, the connect waker is the second task's, and the first task
  is registered nowhere.
\<close>

theorem second_connect_takes_over:
  assumes "reactor_inv ov m s" and "poll_connect ov s remote False w1 = Some (r1, i1, s1)"
    and "poll_connect ov s1 remote False w2 = Some (r2, i2, s2)"
  shows "r1 = Pending \<and> r2 = Pending
    \<and> (\<exists>t1 t2. connection s1 remote = Some t1 \<and> connection s2 remote = Some t2 \<and> ep_port (t_local t1) \<noteq> ep_port (t_local t2))
    \<and> rs_connect_wakers s2 = AList.update remote w2 (AList.update remote w1 (rs_connect_wakers s))
    \<and> map_of (rs_connect_wakers s2) remote = Some w2"
proof -
  obtain st1 k1 where c1: "connect ov (rs_stack s) remote (rs_now s) = Some (k1, st1)" "r1 = Pending"
    "s1 = s\<lparr>rs_stack := st1, rs_connect_wakers := AList.update remote w1 (rs_connect_wakers s)\<rparr>"
    using assms(2) by (auto simp: poll_connect_def bind_Some_iff)
  obtain st2 k2 where c2: "connect ov (rs_stack s1) remote (rs_now s1) = Some (k2, st2)" "r2 = Pending"
    "s2 = s1\<lparr>rs_stack := st2, rs_connect_wakers := AList.update remote w2 (rs_connect_wakers s1)\<rparr>"
    using assms(3) by (auto simp: poll_connect_def bind_Some_iff)
  have "stack_inv ov m (rs_stack s)" using assms(1) by (simp add: reactor_inv_def)
  moreover obtain st where "connect ov (rs_stack s) remote (rs_now s) = Some (remote, st)" "stack_inv ov m st"
    using connect_ok[OF calculation] by blast
  ultimately have cur: "49152 \<le> unat (st_ephemeral_next (rs_stack s))" "49152 \<le> unat (st_ephemeral_next st1)"
    using c1(1) by (simp_all add: stack_inv_def)
  obtain p1 n1 t1 where p1: "next_ephemeral_port (rs_stack s) = Some (p1, n1)" "map_of (st_conns st1) remote = Some t1"
    "ep_port (t_local t1) = p1" "st_ephemeral_next st1 = st_ephemeral_next n1" using connect_run[OF c1(1)] by blast
  obtain p2 n2 t2 where p2: "next_ephemeral_port (rs_stack s1) = Some (p2, n2)" "map_of (st_conns st2) remote = Some t2"
    "ep_port (t_local t2) = p2" using connect_run[OF c2(1)] by blast
  have "rs_stack s1 = st1" using c1(3) by simp
  then have "p2 = port_after p1 \<or> p2 = port_after (port_after p1)"
    using picked_port[OF p2(1)] picked_port[OF p1(1) cur(1)] cur(2) p1(4) by simp
  then have "p1 \<noteq> p2" using ports_differ by metis
  then show ?thesis using c1(2,3) c2(2,3) p1(2,3) p2(2,3) by (simp add: connection_def update_conv')
qed

theorem second_connect_takes_over_witness:
  "\<exists>s1 s2. poll_connect no_overrides sample_reactor (endpoint_new 0x0A000009 80) False 1 = Some (Pending, True, s1)
    \<and> poll_connect no_overrides s1 (endpoint_new 0x0A000009 80) False 2 = Some (Pending, True, s2)
    \<and> map_of (rs_connect_wakers s2) (endpoint_new 0x0A000009 80) = Some 2"
proof -
  let ?r = "endpoint_new 0x0A000009 80"
  have i: "reactor_inv no_overrides 0 sample_reactor"
    using sample_reactor_inv by (simp add: reactor_inv_def wakers_ok_def sample_reactor_def reactor_new_def)
  obtain r1 i1 s1 where p1: "poll_connect no_overrides sample_reactor ?r False 1 = Some (r1, i1, s1)" "reactor_inv no_overrides 0 s1"
    using poll_connect_inv[OF i] by blast
  obtain r2 i2 s2 where p2: "poll_connect no_overrides s1 ?r False 2 = Some (r2, i2, s2)"
    using poll_connect_inv[OF p1(2)] by blast
  have "i1 = True" "i2 = True" using p1(1) p2 by (auto simp: poll_connect_def bind_Some_iff)
  then show ?thesis using second_connect_takes_over[OF i p1(1) p2] p1(1) p2 by blast
qed

text \<open>
  An empty write never completes. On a connected stream a write of no bytes is pending,
  parks its waker, and changes nothing; as long as the send queue has room every dispatch wakes
  its task, whose next poll is the same again. (A read into an empty buffer returns at once.)
\<close>

theorem empty_write_never_completes:
  assumes "reactor_inv ov m s" and "connection s remote = Some t" and "t_state t \<in> {Established, CloseWait}" and "\<not> t_reset t"
  shows "\<exists>s'. poll_write s remote [] w = (Pending, s') \<and> connection s' = connection s
    \<and> map_of (rs_write_wakers s') remote = Some w \<and> (0 < tx_free t \<longrightarrow> w \<in> set (snd (dispatch_wakeups s' [])))
    \<and> fst (poll_read s remote 0 w) = Ready (Inr [])"
proof -
  obtain t' n where b: "tcb_send t [] = (t', n)" by fastforce
  have "t' = t" "n = 0" using b assms(3) by (auto simp: tcb_send_def rb_write_def Let_def)
  define s' where "s' = (put_connection s remote t)\<lparr>rs_write_wakers := AList.update remote w (rs_write_wakers s)\<rparr>"
  have p: "poll_write s remote [] w = (Pending, s')"
    using assms(2-4) b \<open>t' = t\<close> \<open>n = 0\<close> by (simp add: poll_write_def s'_def)
  have i: "reactor_inv ov m s'" using poll_write_inv[OF assms(1), of remote "[]" w] p by simp
  have c: "connection s' = connection s" using assms(2) by (simp add: s'_def fun_upd_idem)
  have m: "map_of (rs_write_wakers s') remote = Some w" by (simp add: s'_def update_conv')
  have "w \<in> set (snd (dispatch_wakeups s' []))" if "0 < tx_free t"
  proof -
    have w: "wakers_ok s'" using i by (simp add: reactor_inv_def)
    then have d: "distinct (map fst (rs_write_wakers s'))" by (simp add: wakers_ok_def)
    have "write_ready s' remote" using that assms(2) by (simp add: write_ready_def c)
    then show ?thesis
      unfolding dispatch_run[OF reactor_inv_conns[OF i] w] using woken_or_kept[OF d m, of "write_ready s'"] by simp
  qed
  then show ?thesis using p c m by (auto simp: poll_read_def)
qed

theorem empty_write_never_completes_witness:
  "\<exists>s'. poll_write (sample_reactor\<lparr>rs_read_wakers := [(sample_peer, 7)]\<rparr>) sample_peer [] 9 = (Pending, s')"
  using empty_write_never_completes[OF sample_reactor_inv, of sample_peer sample_established 9]
  by (auto simp: connection_def sample_reactor_def sample_not_reset)

end
