(* ===== verification/Executor.thy ===== *)
theory Executor
  imports Prelude
begin

text \<open>
  \<open>runtime/executor.rs\<close>: the single-threaded task executor. A task is a value of any type,
  the state of its future; polling it is an argument of the model, since tasks are the
  program's own code. A poll may spawn tasks and wake any task, through the executor it is
  given, and may change the state \<open>'w\<close> the tasks share. Its outer \<open>None\<close> is a panic or a
  divergence of the task, the inner \<open>None\<close> says the future is ready.
\<close>

record 'f exec =
  ex_tasks :: "nat \<rightharpoonup> 'f"
  ex_next_id :: nat
  ex_woken :: "nat list"

type_synonym ('f, 'w) poller = "nat \<Rightarrow> 'f \<Rightarrow> 'f exec \<Rightarrow> 'w \<Rightarrow> ('f option \<times> 'f exec \<times> 'w) option"

definition exec_new :: "'f exec" where
  "exec_new = \<lparr>ex_tasks = Map.empty, ex_next_id = 0, ex_woken = []\<rparr>"

definition task_count :: "'f exec \<Rightarrow> nat" where
  "task_count self = card (dom (ex_tasks self))"

definition wake :: "nat \<Rightarrow> 'f exec \<Rightarrow> 'f exec" where
  "wake w self = self\<lparr>ex_woken := ex_woken self @ [w]\<rparr>"

definition spawn :: "'f \<Rightarrow> 'f exec \<Rightarrow> 'f exec" where
  "spawn fut self =
     (let i = ex_next_id self
      in wake i (self\<lparr>ex_next_id := i + 1, ex_tasks := (ex_tasks self)(i \<mapsto> fut)\<rparr>))"

text \<open>The loop over one batch of woken ids: the future is out of the map while it is polled.\<close>

fun run_batch :: "('f, 'w) poller \<Rightarrow> nat list \<Rightarrow> 'f exec \<Rightarrow> 'w \<Rightarrow> ('f exec \<times> 'w) option" where
  "run_batch poll [] self w = Some (self, w)"
| "run_batch poll (i # ids) self w =
     (case ex_tasks self i of
        None \<Rightarrow> run_batch poll ids self w
      | Some fut \<Rightarrow> do {
          (rest, self, w) \<leftarrow> poll i fut (self\<lparr>ex_tasks := (ex_tasks self)(i := None)\<rparr>) w;
          run_batch poll ids
            (case rest of Some fut \<Rightarrow> self\<lparr>ex_tasks := (ex_tasks self)(i \<mapsto> fut)\<rparr> | None \<Rightarrow> self) w
        })"

partial_function (option) run_ready :: "('f, 'w) poller \<Rightarrow> 'f exec \<Rightarrow> 'w \<Rightarrow> ('f exec \<times> 'w) option" where
  "run_ready poll self w =
     (let ids = ex_woken self
      in if ids = [] then Some (self, w)
         else do {
           (self, w) \<leftarrow> run_batch poll ids (self\<lparr>ex_woken := []\<rparr>) w;
           run_ready poll self w
         })"

section \<open>What a task may do\<close>

inductive touches :: "'f exec \<Rightarrow> 'f exec \<Rightarrow> bool" where
  untouched: "touches e e"
| spawned: "touches e e' \<Longrightarrow> touches e (spawn fut e')"
| woke: "touches e e' \<Longrightarrow> touches e (wake i e')"

definition exec_inv :: "'f exec \<Rightarrow> bool" where
  "exec_inv self \<longleftrightarrow> (\<forall>i \<in> dom (ex_tasks self). i < ex_next_id self)"

lemma touches_grows:
  assumes "touches e e'"
  shows "ex_next_id e \<le> ex_next_id e' \<and> (\<forall>i < ex_next_id e. ex_tasks e' i = ex_tasks e i)
    \<and> (\<exists>new. ex_woken e' = ex_woken e @ new
        \<and> (\<forall>i \<in> dom (ex_tasks e'). ex_next_id e \<le> i \<longrightarrow> i < ex_next_id e' \<and> i \<in> set new \<or> i \<in> dom (ex_tasks e)))"
  using assms
proof (induction rule: touches.induct)
  case (spawned e e' fut)
  then obtain new where "ex_woken e' = ex_woken e @ new"
    "\<forall>i \<in> dom (ex_tasks e'). ex_next_id e \<le> i \<longrightarrow> i < ex_next_id e' \<and> i \<in> set new \<or> i \<in> dom (ex_tasks e)" by blast
  then show ?case
    using spawned.IH by (auto simp: spawn_def wake_def Let_def less_Suc_eq intro!: exI[of _ "new @ [ex_next_id e']"])
next
  case (woke e e' i)
  then obtain new where "ex_woken e' = ex_woken e @ new"
    "\<forall>i \<in> dom (ex_tasks e'). ex_next_id e \<le> i \<longrightarrow> i < ex_next_id e' \<and> i \<in> set new \<or> i \<in> dom (ex_tasks e)" by blast
  then show ?case using woke.IH by (auto simp: wake_def intro!: exI[of _ "new @ [i]"])
qed auto

lemma exec_inv_none: "exec_inv e \<Longrightarrow> ex_next_id e \<le> i \<Longrightarrow> ex_tasks e i = None"
  by (metis domIff exec_inv_def linorder_not_less)

lemma touches_inv: "touches e e' \<Longrightarrow> exec_inv e \<Longrightarrow> exec_inv e'"
  by (induction rule: touches.induct) (auto simp: exec_inv_def spawn_def wake_def Let_def less_Suc_eq)

text \<open>
  The contract between the executor and its tasks: a poll returns, changes the executor only by
  spawning and waking, and keeps the invariant of the shared state and of the futures.
\<close>

locale tasks =
  fixes poll :: "('f, 'w) poller" and shared :: "'w \<Rightarrow> bool" and well :: "'f \<Rightarrow> bool"
  assumes poll_returns: "shared w \<Longrightarrow> well fut \<Longrightarrow> poll i fut e w \<noteq> None"
    and poll_touches: "shared w \<Longrightarrow> well fut \<Longrightarrow> poll i fut e w = Some (r, e', w') \<Longrightarrow> touches e e'"
    and poll_shared: "shared w \<Longrightarrow> well fut \<Longrightarrow> poll i fut e w = Some (r, e', w') \<Longrightarrow> shared w'"
    and poll_well: "shared w \<Longrightarrow> well fut \<Longrightarrow> poll i fut e w = Some (r, e', w') \<Longrightarrow>
      (\<forall>f \<in> set_option r. well f) \<and> (\<forall>f. f \<in> ran (ex_tasks e') \<longrightarrow> f \<in> ran (ex_tasks e) \<or> well f)"
begin

definition exec_ok :: "'f exec \<Rightarrow> bool" where
  "exec_ok e \<longleftrightarrow> exec_inv e \<and> (\<forall>f \<in> ran (ex_tasks e). well f)"

lemma poll_step:
  assumes "exec_ok e" and "shared w" and "ex_tasks e i = Some fut"
  shows "\<exists>r e' w'. poll i fut (e\<lparr>ex_tasks := (ex_tasks e)(i := None)\<rparr>) w = Some (r, e', w') \<and> shared w'
    \<and> exec_ok (case r of Some fut \<Rightarrow> e'\<lparr>ex_tasks := (ex_tasks e')(i \<mapsto> fut)\<rparr> | None \<Rightarrow> e')
    \<and> ex_next_id e \<le> ex_next_id e' \<and> (\<forall>j < ex_next_id e. j \<noteq> i \<longrightarrow> ex_tasks e' j = ex_tasks e j)
    \<and> (\<exists>new. ex_woken e' = ex_woken e @ new \<and> (\<forall>j \<in> dom (ex_tasks e'). ex_next_id e \<le> j \<longrightarrow> j \<in> set new))"
proof -
  let ?e = "e\<lparr>ex_tasks := (ex_tasks e)(i := None)\<rparr>"
  have w: "well fut" using assms(1,3) by (auto simp: exec_ok_def ran_def)
  obtain r e' w' where p: "poll i fut ?e w = Some (r, e', w')" using poll_returns[OF assms(2) w, of i ?e] by auto
  note t = poll_touches[OF assms(2) w p] and k = poll_well[OF assms(2) w p]
  note g = touches_grows[OF t]
  have i: "i < ex_next_id e" "exec_inv ?e" using assms(1,3) by (auto simp: exec_ok_def exec_inv_def split: if_splits)
  have inv: "exec_inv e'" by (rule touches_inv[OF t i(2)])
  have "ran (ex_tasks ?e) \<subseteq> ran (ex_tasks e)" by (auto simp: ran_def split: if_splits)
  then have well': "\<forall>f \<in> ran (ex_tasks e'). well f" using k assms(1) by (auto simp: exec_ok_def)
  have ok: "exec_ok (case r of Some fut \<Rightarrow> e'\<lparr>ex_tasks := (ex_tasks e')(i \<mapsto> fut)\<rparr> | None \<Rightarrow> e')"
    using inv well' k g i by (fastforce simp: exec_ok_def exec_inv_def ran_def split: option.split if_splits)
  have "\<forall>j \<in> dom (ex_tasks e). ex_next_id e \<le> j \<longrightarrow> False"
    using assms(1) exec_inv_none by (fastforce simp: exec_ok_def)
  then have "\<exists>new. ex_woken e' = ex_woken e @ new \<and> (\<forall>j \<in> dom (ex_tasks e'). ex_next_id e \<le> j \<longrightarrow> j \<in> set new)"
    using g by (fastforce split: if_splits)
  then show ?thesis using p ok g poll_shared[OF assms(2) w p] by auto
qed

definition batch_done :: "'f exec \<Rightarrow> nat list \<Rightarrow> 'f exec \<Rightarrow> bool" where
  "batch_done e ids e' \<longleftrightarrow> ex_next_id e \<le> ex_next_id e'
    \<and> (\<forall>j < ex_next_id e. j \<notin> set ids \<longrightarrow> ex_tasks e' j = ex_tasks e j)
    \<and> (\<forall>j < ex_next_id e. ex_tasks e' j \<noteq> None \<longrightarrow> ex_tasks e j \<noteq> None)
    \<and> (\<exists>new. ex_woken e' = ex_woken e @ new \<and> (\<forall>j. ex_tasks e' j \<noteq> None \<longrightarrow> ex_next_id e \<le> j \<longrightarrow> j \<in> set new))"

lemma batch_done_more: "batch_done e ids e' \<Longrightarrow> batch_done e (i # ids) e'"
  by (simp add: batch_done_def)

lemma run_batch_ok:
  assumes "exec_ok e" and "shared w"
  shows "\<exists>e' w'. run_batch poll ids e w = Some (e', w') \<and> shared w' \<and> exec_ok e' \<and> batch_done e ids e'"
  using assms
proof (induction ids arbitrary: e w)
  case Nil
  then have "ex_tasks e j = None" if "ex_next_id e \<le> j" for j using exec_inv_none that by (auto simp: exec_ok_def)
  then show ?case using Nil by (auto simp: batch_done_def)
next
  case (Cons i ids)
  show ?case
  proof (cases "ex_tasks e i")
    case None
    then have "run_batch poll (i # ids) e w = run_batch poll ids e w" by simp
    then show ?thesis using Cons.IH[OF Cons.prems] batch_done_more by metis
  next
    case (Some fut)
    obtain r e1 w1 new1 where p: "poll i fut (e\<lparr>ex_tasks := (ex_tasks e)(i := None)\<rparr>) w = Some (r, e1, w1)" "shared w1"
      "exec_ok (case r of Some fut \<Rightarrow> e1\<lparr>ex_tasks := (ex_tasks e1)(i \<mapsto> fut)\<rparr> | None \<Rightarrow> e1)"
      "ex_next_id e \<le> ex_next_id e1" "\<forall>j < ex_next_id e. j \<noteq> i \<longrightarrow> ex_tasks e1 j = ex_tasks e j"
      "ex_woken e1 = ex_woken e @ new1" "\<forall>j \<in> dom (ex_tasks e1). ex_next_id e \<le> j \<longrightarrow> j \<in> set new1"
      using poll_step[OF Cons.prems Some] by blast
    define e2 where "e2 = (case r of Some fut \<Rightarrow> e1\<lparr>ex_tasks := (ex_tasks e1)(i \<mapsto> fut)\<rparr> | None \<Rightarrow> e1)"
    have i: "i < ex_next_id e" using Cons.prems(1) Some by (auto simp: exec_ok_def exec_inv_def)
    have f: "ex_next_id e2 = ex_next_id e1" "ex_woken e2 = ex_woken e1" "\<And>j. j \<noteq> i \<Longrightarrow> ex_tasks e2 j = ex_tasks e1 j"
      by (simp_all add: e2_def split: option.split)
    obtain e3 w3 where r: "run_batch poll ids e2 w1 = Some (e3, w3)" "shared w3" "exec_ok e3" "batch_done e2 ids e3"
      using Cons.IH[OF p(3)[folded e2_def] p(2)] by blast
    then obtain new2 where b: "ex_next_id e2 \<le> ex_next_id e3"
      "\<forall>j < ex_next_id e2. j \<notin> set ids \<longrightarrow> ex_tasks e3 j = ex_tasks e2 j"
      "\<forall>j < ex_next_id e2. ex_tasks e3 j \<noteq> None \<longrightarrow> ex_tasks e2 j \<noteq> None"
      "ex_woken e3 = ex_woken e2 @ new2" "\<forall>j. ex_tasks e3 j \<noteq> None \<longrightarrow> ex_next_id e2 \<le> j \<longrightarrow> j \<in> set new2"
      unfolding batch_done_def by (elim exE conjE)
    have run: "run_batch poll (i # ids) e w = Some (e3, w3)" using Some p(1) r(1) by (simp add: e2_def)
    have keep: "ex_tasks e3 j = ex_tasks e j" if "j < ex_next_id e" "j \<notin> set (i # ids)" for j
      using that b(2) p(4,5) f by auto
    have less: "ex_tasks e j \<noteq> None" if "j < ex_next_id e" "ex_tasks e3 j \<noteq> None" for j
    proof (cases "j = i")
      case False
      have "ex_tasks e2 j \<noteq> None" using b(3) that p(4) f(1) by auto
      then show ?thesis using f(3)[OF False] p(5) that(1) False by auto
    qed (simp add: Some)
    have spawned: "j \<in> set (new1 @ new2)" if "ex_tasks e3 j \<noteq> None" "ex_next_id e \<le> j" for j
    proof (cases "ex_next_id e2 \<le> j")
      case True
      then show ?thesis using b(5) that(1) by simp
    next
      case False
      then have "ex_tasks e2 j \<noteq> None" using b(3) that(1) by simp
      then have "j \<in> dom (ex_tasks e1)" using f(3)[of j] i that(2) by auto
      then show ?thesis using p(7) that(2) by simp
    qed
    have "ex_woken e3 = ex_woken e @ (new1 @ new2)" "ex_next_id e \<le> ex_next_id e3" using b(1,4) p(4,6) f by simp_all
    then have "batch_done e (i # ids) e3" unfolding batch_done_def using keep less spawned by blast
    then show ?thesis using run r(2,3) by blast
  qed
qed

end

text \<open>A poller that also logs the id it polls, so that a statement can say who was polled.\<close>

definition logged :: "('f, 'w) poller \<Rightarrow> ('f, nat list \<times> 'w) poller" where
  "logged poll i fut e lw =
     map_option (\<lambda>(r, e', w'). (r, e', fst lw @ [i], w')) (poll i fut e (snd lw))"

lemma logged_run:
  "poll i fut e w = Some (r, e', w') \<Longrightarrow> logged poll i fut e (log, w) = Some (r, e', log @ [i], w')"
  by (simp add: logged_def)

context tasks begin

lemma logged_batch_run:
  assumes "exec_ok e" and "shared w" and "run_batch poll ids e w = Some (e', w')"
  shows "\<exists>log'. run_batch (logged poll) ids e (log, w) = Some (e', log', w')"
  using assms
proof (induction ids arbitrary: e log w)
  case (Cons i ids)
  show ?case
  proof (cases "ex_tasks e i")
    case None
    then show ?thesis using Cons by simp
  next
    case (Some fut)
    obtain r e1 w1 where p: "poll i fut (e\<lparr>ex_tasks := (ex_tasks e)(i := None)\<rparr>) w = Some (r, e1, w1)" "shared w1"
      "exec_ok (case r of Some fut \<Rightarrow> e1\<lparr>ex_tasks := (ex_tasks e1)(i \<mapsto> fut)\<rparr> | None \<Rightarrow> e1)"
      using poll_step[OF Cons.prems(1,2) Some] by blast
    have "run_batch poll ids (case r of Some fut \<Rightarrow> e1\<lparr>ex_tasks := (ex_tasks e1)(i \<mapsto> fut)\<rparr> | None \<Rightarrow> e1) w1 = Some (e', w')"
      using Cons.prems(3) Some p(1) by simp
    from Cons.IH[OF p(3,2) this, of "log @ [i]"] show ?thesis
      using Some logged_run[of poll, OF p(1), of log] by simp
  qed
qed simp

lemma logged_batch:
  assumes "exec_ok e" and "shared w" and "run_batch (logged poll) ids e (log, w) = Some (e', lw)"
  shows "\<exists>polled. fst lw = log @ polled \<and> (\<forall>i \<in> set ids. ex_tasks e i \<noteq> None \<longrightarrow> i \<in> set polled)
    \<and> (\<forall>i < ex_next_id e. i \<notin> set polled \<longrightarrow> ex_tasks e' i = ex_tasks e i)"
  using assms
proof (induction ids arbitrary: e log w)
  case (Cons i ids)
  show ?case
  proof (cases "ex_tasks e i")
    case None
    then have "run_batch (logged poll) ids e (log, w) = Some (e', lw)" using Cons.prems(3) by simp
    from Cons.IH[OF Cons.prems(1,2) this] show ?thesis using None by auto
  next
    case (Some fut)
    obtain r e1 w1 where p: "poll i fut (e\<lparr>ex_tasks := (ex_tasks e)(i := None)\<rparr>) w = Some (r, e1, w1)" "shared w1"
      "exec_ok (case r of Some fut \<Rightarrow> e1\<lparr>ex_tasks := (ex_tasks e1)(i \<mapsto> fut)\<rparr> | None \<Rightarrow> e1)"
      "ex_next_id e \<le> ex_next_id e1" "\<forall>j < ex_next_id e. j \<noteq> i \<longrightarrow> ex_tasks e1 j = ex_tasks e j"
      using poll_step[OF Cons.prems(1,2) Some] by blast
    define e2 where "e2 = (case r of Some fut \<Rightarrow> e1\<lparr>ex_tasks := (ex_tasks e1)(i \<mapsto> fut)\<rparr> | None \<Rightarrow> e1)"
    have f: "ex_next_id e2 = ex_next_id e1" "\<And>j. j \<noteq> i \<Longrightarrow> ex_tasks e2 j = ex_tasks e1 j"
      by (simp_all add: e2_def split: option.split)
    have "run_batch (logged poll) ids e2 (log @ [i], w1) = Some (e', lw)"
      using Cons.prems(3) Some logged_run[of poll, OF p(1)] by (simp add: e2_def)
    from Cons.IH[OF p(3)[folded e2_def] p(2) this] obtain polled where k: "fst lw = (log @ [i]) @ polled"
      "\<forall>j \<in> set ids. ex_tasks e2 j \<noteq> None \<longrightarrow> j \<in> set polled"
      "\<forall>j < ex_next_id e2. j \<notin> set polled \<longrightarrow> ex_tasks e' j = ex_tasks e2 j" by blast
    have same: "ex_tasks e2 j = ex_tasks e j" if "j < ex_next_id e" "j \<noteq> i" for j using that p(5) f(2) by simp
    have "j \<in> set (i # polled)" if "j \<in> set (i # ids)" "ex_tasks e j \<noteq> None" for j
    proof (cases "j = i")
      case False
      have "j < ex_next_id e" using Cons.prems(1) that(2) by (auto simp: exec_ok_def exec_inv_def)
      then show ?thesis using same[OF _ False] k(2) that False by auto
    qed simp
    moreover have "ex_tasks e' j = ex_tasks e j" if "j < ex_next_id e" "j \<notin> set (i # polled)" for j
      using that k(3) same[of j] p(4) f(1) by auto
    ultimately show ?thesis using k(1) by (intro exI[of _ "i # polled"]) simp
  qed
qed auto

end

section \<open>Draining the woken queue\<close>

text \<open>
  A contract under which the queue drains: every id a poll pushes is paid for from a budget of
  the shared state.
\<close>

locale finite_tasks = tasks poll shared well
  for poll :: "('f, 'w) poller" and shared :: "'w \<Rightarrow> bool" and well :: "'f \<Rightarrow> bool" +
  fixes budget :: "'w \<Rightarrow> nat"
  assumes poll_budget: "shared w \<Longrightarrow> well fut \<Longrightarrow> poll i fut e w = Some (r, e', w') \<Longrightarrow>
      length (ex_woken e') + budget w' \<le> length (ex_woken e) + budget w"
begin

lemma batch_budget:
  assumes "exec_ok e" and "shared w" and "run_batch (logged poll) ids e (log, w) = Some (e', lw)"
  shows "length (ex_woken e') + budget (snd lw) \<le> length (ex_woken e) + budget w"
  using assms
proof (induction ids arbitrary: e log w)
  case (Cons i ids)
  show ?case
  proof (cases "ex_tasks e i")
    case None
    then show ?thesis using Cons by simp
  next
    case (Some fut)
    obtain r e1 w1 where p: "poll i fut (e\<lparr>ex_tasks := (ex_tasks e)(i := None)\<rparr>) w = Some (r, e1, w1)" "shared w1"
      "exec_ok (case r of Some fut \<Rightarrow> e1\<lparr>ex_tasks := (ex_tasks e1)(i \<mapsto> fut)\<rparr> | None \<Rightarrow> e1)"
      using poll_step[OF Cons.prems(1,2) Some] by blast
    define e2 where "e2 = (case r of Some fut \<Rightarrow> e1\<lparr>ex_tasks := (ex_tasks e1)(i \<mapsto> fut)\<rparr> | None \<Rightarrow> e1)"
    have "well fut" using Cons.prems(1) Some by (auto simp: exec_ok_def ran_def)
    from poll_budget[OF Cons.prems(2) this p(1)] have "length (ex_woken e2) + budget w1 \<le> length (ex_woken e) + budget w"
      by (simp add: e2_def split: option.split)
    moreover have "run_batch (logged poll) ids e2 (log @ [i], w1) = Some (e', lw)"
      using Cons.prems(3) Some logged_run[of poll, OF p(1)] by (simp add: e2_def)
    then have "length (ex_woken e') + budget (snd lw) \<le> length (ex_woken e2) + budget w1"
      by (rule Cons.IH[OF p(3)[folded e2_def] p(2)])
    ultimately show ?thesis by linarith
  qed
qed auto

lemma run_ready_polls:
  assumes "exec_ok e" and "shared w"
  shows "\<exists>e' polled w'. run_ready (logged poll) e (log, w) = Some (e', log @ polled, w')
    \<and> run_ready poll e w = Some (e', w') \<and> shared w' \<and> exec_ok e'
    \<and> ex_woken e' = [] \<and> ex_next_id e \<le> ex_next_id e'
    \<and> (\<forall>i \<in> set (ex_woken e). ex_tasks e i \<noteq> None \<longrightarrow> i \<in> set polled)
    \<and> (\<forall>i. ex_tasks e' i \<noteq> None \<longrightarrow> ex_next_id e \<le> i \<longrightarrow> i \<in> set polled)
    \<and> (\<forall>i < ex_next_id e. i \<notin> set polled \<longrightarrow> ex_tasks e' i = ex_tasks e i)"
  using assms
proof (induction "length (ex_woken e) + budget w" arbitrary: e w log rule: less_induct)
  case less
  show ?case
  proof (cases "ex_woken e = []")
    case True
    then have "run_ready (logged poll) e (log, w) = Some (e, log @ [], w)" "run_ready poll e w = Some (e, w)"
      by (subst run_ready.simps, simp)+
    moreover have "ex_tasks e i = None" if "ex_next_id e \<le> i" for i
      using exec_inv_none[OF _ that] less.prems(1) by (simp add: exec_ok_def)
    ultimately show ?thesis using True less.prems by (intro exI[of _ e] exI[of _ "[]"] exI[of _ w]) auto
  next
    case False
    let ?e = "e\<lparr>ex_woken := []\<rparr>"
    have ok: "exec_ok ?e" using less.prems(1) by (simp add: exec_ok_def exec_inv_def)
    obtain e1 w1 where b: "run_batch poll (ex_woken e) ?e w = Some (e1, w1)" "shared w1" "exec_ok e1"
      "batch_done ?e (ex_woken e) e1" using run_batch_ok[OF ok less.prems(2)] by blast
    obtain log1 where l: "run_batch (logged poll) (ex_woken e) ?e (log, w) = Some (e1, log1, w1)"
      using logged_batch_run[OF ok less.prems(2) b(1)] by blast
    obtain p1 where p: "log1 = log @ p1" "\<forall>i \<in> set (ex_woken e). ex_tasks e i \<noteq> None \<longrightarrow> i \<in> set p1"
      "\<forall>i < ex_next_id e. i \<notin> set p1 \<longrightarrow> ex_tasks e1 i = ex_tasks e i"
      using logged_batch[OF ok less.prems(2) l] by auto
    have "length (ex_woken e1) + budget w1 \<le> budget w" using batch_budget[OF ok less.prems(2) l] by simp
    then have "length (ex_woken e1) + budget w1 < length (ex_woken e) + budget w" using False by (cases "ex_woken e") simp_all
    from less.hyps[OF this b(3,2), of log1] obtain e' p2 w' where
      r: "run_ready (logged poll) e1 (log1, w1) = Some (e', log1 @ p2, w')" "shared w'" "exec_ok e'" "ex_woken e' = []"
      "ex_next_id e1 \<le> ex_next_id e'" "\<forall>i \<in> set (ex_woken e1). ex_tasks e1 i \<noteq> None \<longrightarrow> i \<in> set p2"
      "\<forall>i. ex_tasks e' i \<noteq> None \<longrightarrow> ex_next_id e1 \<le> i \<longrightarrow> i \<in> set p2"
      "\<forall>i < ex_next_id e1. i \<notin> set p2 \<longrightarrow> ex_tasks e' i = ex_tasks e1 i"
      "run_ready poll e1 w1 = Some (e', w')" by (elim exE conjE) blast
    have n: "ex_next_id e \<le> ex_next_id e1" "\<forall>i. ex_tasks e1 i \<noteq> None \<longrightarrow> ex_next_id e \<le> i \<longrightarrow> i \<in> set (ex_woken e1)"
      using b(4) by (auto simp: batch_done_def)
    have "run_ready (logged poll) e (log, w) = Some (e', log @ (p1 @ p2), w')"
      using False l r(1) p(1) by (subst run_ready.simps) simp
    moreover have "run_ready poll e w = Some (e', w')" using False b(1) r(9) by (subst run_ready.simps) simp
    moreover have "i \<in> set (p1 @ p2)" if "ex_tasks e' i \<noteq> None" "ex_next_id e \<le> i" for i
    proof (cases "ex_next_id e1 \<le> i")
      case True
      then show ?thesis using r(7) that(1) by simp
    next
      case False
      show ?thesis
      proof (rule ccontr)
        assume "i \<notin> set (p1 @ p2)"
        then have "ex_tasks e1 i \<noteq> None" using r(8) False that(1) by simp
        then show False using n(2) that(2) r(6) \<open>i \<notin> set (p1 @ p2)\<close> by simp
      qed
    qed
    moreover have "ex_tasks e' i = ex_tasks e i" if "i < ex_next_id e" "i \<notin> set (p1 @ p2)" for i
      using that p(3) r(8) n(1) by simp
    ultimately show ?thesis using p(2) r(2-5) n(1) by (intro exI[of _ e'] exI[of _ "p1 @ p2"] exI[of _ w']) simp
  qed
qed

end

end
