(* ===== verification/Http.thy ===== *)
theory Http
  imports Socket_Calls Executor
begin

text \<open>
  \<open>tcp-tun/src/http.rs\<close> and the accept loop of \<open>run_server\<close> in \<open>main.rs\<close>: the tasks
  of the HTTP server, as the states their futures pass through between two polls.
\<close>

section \<open>The request\<close>

definition ascii :: "string \<Rightarrow> bytes" where
  "ascii s = map of_char s"

definition CRLF :: bytes where "CRLF = [13, 10]"
definition MAX_REQUEST :: nat where "MAX_REQUEST = 64 * 1024"
definition BENCH_DEFAULT_MIB :: nat where "BENCH_DEFAULT_MIB = 16"
definition CHUNK :: nat where "CHUNK = 64 * 1024"

text \<open>\<open>windows(k).position\<close>: the first place a pattern occurs.\<close>

fun find_window :: "bytes \<Rightarrow> bytes \<Rightarrow> nat option" where
  "find_window pat [] = None"
| "find_window pat (x # xs) =
     (if length pat \<le> length (x # xs) \<and> take (length pat) (x # xs) = pat then Some 0
      else map_option Suc (find_window pat xs))"

definition headers_complete :: "bytes \<Rightarrow> bool" where
  "headers_complete buf \<longleftrightarrow> find_window (CRLF @ CRLF) buf \<noteq> None"

text \<open>The second piece of the first line split at blanks.\<close>

definition request_path :: "bytes \<Rightarrow> bytes" where
  "request_path req =
     (let line_end = (case find_window CRLF req of Some k \<Rightarrow> k | None \<Rightarrow> length req);
          line = take line_end req
      in case dropWhile (\<lambda>b. b \<noteq> 32) line of
           [] \<Rightarrow> ascii ''/''
         | _ # parts \<Rightarrow> takeWhile (\<lambda>b. b \<noteq> 32) parts)"

text \<open>
  \<open>str::parse::<usize>\<close>: an optional plus sign, at least one digit, at most \<open>usize::MAX\<close>.
  Bytes that are not UTF-8 have no decimal reading either.
\<close>

fun parse_digits :: "bytes \<Rightarrow> nat \<Rightarrow> nat option" where
  "parse_digits [] acc = Some acc"
| "parse_digits (d # ds) acc =
     (if 48 \<le> d \<and> d \<le> 57 \<and> acc * 10 + (unat d - 48) \<le> U64_MAX
      then parse_digits ds (acc * 10 + (unat d - 48)) else None)"

definition parse_usize :: "bytes \<Rightarrow> nat option" where
  "parse_usize s =
     (case s of
        [] \<Rightarrow> None
      | d # ds \<Rightarrow> if d = 43 then (if ds = [] then None else parse_digits ds 0) else parse_digits s 0)"

definition bench_size :: "bytes \<Rightarrow> nat" where
  "bench_size path =
     (let pre = ascii ''/bench/'';
          suffix = (if take (length pre) path = pre then drop (length pre) path else [])
      in max 1 (min (case parse_usize suffix of Some n \<Rightarrow> n | None \<Rightarrow> BENCH_DEFAULT_MIB) 256))"

section \<open>The response\<close>

text \<open>\<open>Display\<close> of a \<open>usize\<close>.\<close>

fun decimal :: "nat \<Rightarrow> bytes" where
  "decimal n = (if n < 10 then [of_nat (48 + n)] else decimal (n div 10) @ [of_nat (48 + n mod 10)])"

declare decimal.simps [simp del]

definition response_header :: "bytes \<Rightarrow> nat \<Rightarrow> bytes" where
  "response_header content_type len =
     ascii ''HTTP/1.1 200 OK'' @ CRLF @ ascii ''Server: ferrumnet'' @ CRLF
     @ ascii ''Content-Type: '' @ content_type @ CRLF
     @ ascii ''Content-Length: '' @ decimal len @ CRLF
     @ ascii ''Connection: close'' @ CRLF @ CRLF"

definition index_body :: bytes where
  "index_body =
     ascii ''<!doctype html>'' @ [10]
     @ ascii ''<html><head><meta charset='' @ [34] @ ascii ''utf-8'' @ [34]
     @ ascii ''><title>ferrumnet</title></head>'' @ [10] @ ascii ''<body>'' @ [10]
     @ ascii ''<h1>Hello from a userspace TCP/IP stack written in Rust.</h1>'' @ [10]
     @ ascii ''<p>This page was served by a from-scratch TCP implementation &mdash; no kernel sockets, ''
     @ ascii ''no smoltcp, no tokio, zero dependencies. <code>curl</code> believes it is talking to the ''
     @ ascii ''kernel; it is talking to userspace code.</p>'' @ [10]
     @ ascii ''<p>Try <code>/bench</code> for a throughput test.</p>'' @ [10] @ ascii ''</body></html>'' @ [10]"

section \<open>The tasks\<close>

text \<open>What follows the \<open>write_all\<close> in progress.\<close>

datatype http_next = Then_Body bytes | Then_Chunks nat nat | Then_Close

datatype http_task = Accepting | Reading endpoint bytes | Writing endpoint bytes http_next

datatype http_outcome = Again http_task | Parked http_task | Finished

definition respond :: "endpoint \<Rightarrow> bytes \<Rightarrow> http_task" where
  "respond remote request =
     (let path = request_path request
      in if path = ascii ''/bench'' \<or> take (length (ascii ''/bench/'')) path = ascii ''/bench/''
         then (let tot = bench_size path * 1024 * 1024
               in Writing remote (response_header (ascii ''application/octet-stream'') tot) (Then_Chunks tot 0))
         else Writing remote (response_header (ascii ''text/html; charset=utf-8'') (length index_body))
                (Then_Body index_body))"

fun http_step :: "nat \<Rightarrow> http_task \<Rightarrow> http_task exec \<Rightarrow> reactor \<Rightarrow> http_outcome \<times> http_task exec \<times> reactor" where
  "http_step w Accepting e s =
     (case poll_accept s w of
        (Ready remote, s) \<Rightarrow> (Again Accepting, spawn (Reading remote []) e, s)
      | (Pending, s) \<Rightarrow> (Parked Accepting, e, s))"
| "http_step w (Reading remote request) e s =
     (case poll_read s remote 2048 w of
        (Pending, s) \<Rightarrow> (Parked (Reading remote request), e, s)
      | (Ready (Inl _), s) \<Rightarrow> (Finished, e, s)
      | (Ready (Inr got), s) \<Rightarrow>
          if got = [] then (Finished, e, s)
          else let request = request @ got
               in if headers_complete request \<or> MAX_REQUEST < length request
                  then (Again (respond remote request), e, s)
                  else (Again (Reading remote request), e, s))"
| "http_step w (Writing remote dat then_do) e s =
     (case poll_write_all s remote dat w of
        (Pending, rest, s) \<Rightarrow> (Parked (Writing remote rest then_do), e, s)
      | (Ready (Inl _), _, s) \<Rightarrow> (Finished, e, stream_close s remote)
      | (Ready (Inr _), _, s) \<Rightarrow>
          (case then_do of
             Then_Body body \<Rightarrow> (Again (Writing remote body Then_Close), e, s)
           | Then_Chunks tot sent \<Rightarrow>
               if sent < tot
               then let n = min (tot - sent) CHUNK
                    in (Again (Writing remote (replicate n 120) (Then_Chunks tot (sent + n))), e, s)
               else (Finished, e, stream_close s remote)
           | Then_Close \<Rightarrow> (Finished, e, stream_close s remote)))"

text \<open>What is left to do in a poll: requests to accept, bytes to read, writes to start.\<close>

fun http_work :: "http_task \<Rightarrow> reactor \<Rightarrow> nat" where
  "http_work Accepting s = length (rs_accept_queue s)"
| "http_work (Reading remote _) s = (case connection s remote of Some t \<Rightarrow> rx_available t | None \<Rightarrow> 0)"
| "http_work (Writing _ _ (Then_Body _)) s = 1"
| "http_work (Writing _ _ (Then_Chunks tot sent)) s = tot - sent"
| "http_work (Writing _ _ Then_Close) s = 0"

fun is_reading :: "http_task \<Rightarrow> bool" where
  "is_reading (Reading _ _) = True" | "is_reading _ = False"

lemma read_progress:
  assumes "poll_read s remote 2048 w = (Ready (Inr got), s')" and "got \<noteq> []"
  shows "http_work (Reading remote r') s' < http_work (Reading remote r) s"
proof -
  obtain t where t: "connection s remote = Some t" "0 < rx_available t"
    using assms by (auto simp: poll_read_def split: option.splits if_splits)
  obtain t' b where r: "tcb_recv t 2048 = (t', b)" by fastforce
  have "rx_available t' < rx_available t"
    using r t(2) by (auto simp: tcb_recv_def rb_read_def rx_available_def rb_len_def Let_def)
  then show ?thesis using assms(1) t r by (auto simp: poll_read_def)
qed

lemma accept_progress: "poll_accept s w = (Ready remote, s') \<Longrightarrow> length (rs_accept_queue s') < length (rs_accept_queue s)"
proof -
  have "length rest < length queue" if "accept_scan s queue = (Some r, rest)" for queue r rest
    using that by (induction queue) (auto split: if_splits)
  then show "poll_accept s w = (Ready remote, s') \<Longrightarrow> length (rs_accept_queue s') < length (rs_accept_queue s)"
    by (auto simp: poll_accept_def split: prod.splits option.splits)
qed

lemma http_progress:
  assumes "http_step w task e s = (Again task', e', s')"
  shows "(is_reading task \<and> \<not> is_reading task') \<or> (is_reading task' = is_reading task \<and> http_work task' s' < http_work task s)"
proof (cases task)
  case Accepting
  then show ?thesis using assms accept_progress by (auto split: poll.splits prod.splits)
next
  case (Reading remote request)
  obtain got where g: "poll_read s remote 2048 w = (Ready (Inr got), s')" "got \<noteq> []"
    "task' = respond remote (request @ got) \<or> task' = Reading remote (request @ got)"
    using assms Reading by (auto simp: Let_def split: poll.splits prod.splits sum.splits if_splits)
  have "\<not> is_reading (respond remote q)" for q by (simp add: respond_def Let_def)
  then show ?thesis using g(3) read_progress[OF g(1,2)] Reading by auto
next
  case (Writing remote dat then_do)
  have "CHUNK \<noteq> 0" by (simp add: CHUNK_def)
  then show ?thesis
    using assms Writing by (cases then_do) (auto simp: Let_def split: poll.splits prod.splits sum.splits if_splits)
qed

function poll_http :: "nat \<Rightarrow> http_task \<Rightarrow> http_task exec \<Rightarrow> reactor \<Rightarrow> http_task option \<times> http_task exec \<times> reactor" where
  "poll_http w task e s =
     (case http_step w task e s of
        (Again task, e, s) \<Rightarrow> poll_http w task e s
      | (Parked task, e, s) \<Rightarrow> (Some task, e, s)
      | (Finished, e, s) \<Rightarrow> (None, e, s))"
  by pat_completeness auto

termination
proof (relation "measures [\<lambda>(w, task, e, s). if is_reading task then 1 else 0, \<lambda>(w, task, e, s). http_work task s]")
  show "wf (measures [\<lambda>(w, task, e, s). if is_reading task then 1 else 0, \<lambda>(w, task, e, s). http_work task s])" by simp
next
  fix w :: nat and task :: http_task and e s x y task' e' s'
  assume "(x, y) = http_step w task e s" "x = Again task'" "(e', s') = y"
  then have "http_step w task e s = (Again task', e', s')" by simp
  from http_progress[OF this]
  show "((w, task', e', s'), (w, task, e, s)) \<in> measures [\<lambda>(w, task, e, s). if is_reading task then 1 else 0,
      \<lambda>(w, task, e, s). http_work task s]"
    by auto
qed

declare poll_http.simps [simp del]

end
