(* ===== verification/Http_Server.thy ===== *)
theory Http_Server
  imports Http
begin

text \<open>
  The HTTP server's tasks meet the executor's contract: a poll returns, keeps the reactor's
  invariant, and pays for every task it spawns with a connection of the accept queue. So a pass
  of the executor over them ends, and no woken task is left out.
\<close>

lemma touches_trans:
  assumes "touches e' e''" and "touches e e'"
  shows "touches e e''"
  using assms by (induction rule: touches.induct) (auto intro: touches.intros)

lemma queue_kept [simp]:
  "rs_accept_queue (put_connection s remote t) = rs_accept_queue s"
  "rs_accept_queue (snd (poll_read s remote len w)) = rs_accept_queue s"
  "rs_accept_queue (snd (poll_write s remote buf w)) = rs_accept_queue s"
  "rs_accept_queue (stream_close s remote) = rs_accept_queue s"
proof -
  show p: "rs_accept_queue (put_connection s remote t) = rs_accept_queue s" for s remote t
    by (simp add: put_connection_def)
  show "rs_accept_queue (snd (poll_read s remote len w)) = rs_accept_queue s"
    "rs_accept_queue (snd (poll_write s remote buf w)) = rs_accept_queue s"
    "rs_accept_queue (stream_close s remote) = rs_accept_queue s"
    by (simp_all add: poll_read_def poll_write_def stream_close_def p split: option.split prod.split)
qed

lemma write_all_queue [simp]: "rs_accept_queue (snd (snd (poll_write_all s remote dat w))) = rs_accept_queue s"
proof (induction s remote dat w rule: poll_write_all.induct)
  case (1 s remote dat w)
  obtain r s' where p: "poll_write s remote dat w = (r, s')" by fastforce
  then have q: "rs_accept_queue s' = rs_accept_queue s" using queue_kept(3)[of s remote dat w] by simp
  show ?case
  proof (cases "dat = []")
    case False
    have "rs_accept_queue (snd (snd (poll_write_all s' remote (drop n dat) w))) = rs_accept_queue s'"
      if "r = Ready (Inr n)" "n \<noteq> 0" for n using "1.IH"[OF False p[symmetric] that(1) refl that(2)] by simp
    then show ?thesis using False p q by (subst poll_write_all.simps) (auto split: poll.split sum.split)
  qed (subst poll_write_all.simps, simp)
qed

definition http_kept :: "cc_overrides \<Rightarrow> nat \<Rightarrow> http_task exec \<Rightarrow> reactor \<Rightarrow> http_task exec \<Rightarrow> reactor \<Rightarrow> bool" where
  "http_kept ov m e s e' s' \<longleftrightarrow> reactor_inv ov m s' \<and> touches e e'
     \<and> length (ex_woken e') + length (rs_accept_queue s') \<le> length (ex_woken e) + length (rs_accept_queue s)"

lemma kept_same: "reactor_inv ov m s' \<Longrightarrow> rs_accept_queue s' = rs_accept_queue s \<Longrightarrow> http_kept ov m e s e s'"
  by (simp add: http_kept_def touches.intros)

lemma http_step_kept:
  assumes "reactor_inv ov m s" and "http_step w task e s = (out, e', s')"
  shows "http_kept ov m e s e' s'"
proof (cases task)
  case Accepting
  obtain r s1 where p: "poll_accept s w = (r, s1)" by fastforce
  have i: "reactor_inv ov m s1" using poll_accept_inv[OF assms(1), of w] p by simp
  show ?thesis
  proof (cases r)
    case (Ready remote)
    then have "e' = spawn (Reading remote []) e" "s' = s1" using assms(2) Accepting p by auto
    moreover have "touches e (spawn (Reading remote []) e)" by (rule touches.spawned[OF touches.untouched])
    moreover have "length (ex_woken (spawn (Reading remote []) e)) = length (ex_woken e) + 1"
      by (simp add: spawn_def wake_def Let_def)
    ultimately show ?thesis using i accept_progress[of s w remote s1] p Ready by (simp add: http_kept_def)
  next
    case Pending
    have "length rest \<le> length queue" if "accept_scan s queue = (a, rest)" for queue a rest
      using that by (induction queue) (auto split: if_splits)
    then have "length (rs_accept_queue s1) \<le> length (rs_accept_queue s)"
      using p by (auto simp: poll_accept_def split: prod.splits option.splits)
    then show ?thesis using assms(2) Accepting p Pending i by (auto simp: http_kept_def touches.intros)
  qed
next
  case (Reading remote request)
  obtain r s1 where p: "poll_read s remote 2048 w = (r, s1)" by fastforce
  have "e' = e" "s' = s1"
    using assms(2) Reading p by (auto simp: Let_def split: poll.splits sum.splits if_splits)
  then show ?thesis
    using poll_read_inv[OF assms(1), of remote 2048 w] queue_kept(2)[of s remote 2048 w] p by (auto intro: kept_same)
next
  case (Writing remote dat then_do)
  obtain r rest s1 where p: "poll_write_all s remote dat w = (r, rest, s1)" by (cases "poll_write_all s remote dat w") auto
  have i: "reactor_inv ov m s1" "rs_accept_queue s1 = rs_accept_queue s"
    using poll_write_all_inv[OF assms(1), of remote dat w] write_all_queue[of s remote dat w] p by simp_all
  have "e' = e" "s' = s1 \<or> s' = stream_close s1 remote"
    using assms(2) Writing p by (auto simp: Let_def split: poll.splits sum.splits if_splits http_next.splits)
  then show ?thesis using i stream_close_inv[OF i(1)] kept_same[of ov m s' s e] by auto
qed

lemma kept_trans: "http_kept ov m e s e1 s1 \<Longrightarrow> http_kept ov m e1 s1 e2 s2 \<Longrightarrow> http_kept ov m e s e2 s2"
  unfolding http_kept_def using touches_trans by fastforce

lemma poll_http_kept:
  assumes "reactor_inv ov m s" and "poll_http w task e s = (r, e', s')"
  shows "http_kept ov m e s e' s'"
  using assms
proof (induction w task e s arbitrary: r e' s' rule: poll_http.induct)
  case (1 w task e s)
  obtain out e1 s1 where p: "http_step w task e s = (out, e1, s1)" by (cases "http_step w task e s") auto
  note k = http_step_kept[OF "1.prems"(1) p]
  show ?case
  proof (cases out)
    case (Again t)
    then have "poll_http w t e1 s1 = (r, e', s')" using "1.prems"(2) p by (subst (asm) poll_http.simps) simp
    moreover have "reactor_inv ov m s1" using k by (simp add: http_kept_def)
    ultimately have "http_kept ov m e1 s1 e' s'" using "1.IH"[OF p[symmetric] _ refl] Again by blast
    then show ?thesis by (rule kept_trans[OF k])
  next
    case (Parked t)
    then show ?thesis using "1.prems"(2) p k by (subst (asm) poll_http.simps) simp
  next
    case Finished
    then show ?thesis using "1.prems"(2) p k by (subst (asm) poll_http.simps) simp
  qed
qed

text \<open>The poller of the HTTP server's tasks.\<close>

definition http_poller :: "(http_task, reactor) poller" where
  "http_poller i fut e s = Some (poll_http i fut e s)"

interpretation http: finite_tasks http_poller "reactor_inv ov m" "\<lambda>_. True" "\<lambda>s. length (rs_accept_queue s)" for ov m
proof unfold_locales
  fix s i fut e r e' s'
  assume "reactor_inv ov m s" "http_poller i fut e s = Some (r, e', s')"
  then have k: "http_kept ov m e s e' s'" using poll_http_kept by (simp add: http_poller_def)
  then show "touches e e'" "reactor_inv ov m s'"
    "length (ex_woken e') + length (rs_accept_queue s') \<le> length (ex_woken e) + length (rs_accept_queue s)"
    by (simp_all add: http_kept_def)
qed (auto simp: http_poller_def)

text \<open>
  A pass of the executor over the HTTP server ends. From any executor whose ids are in use
  and any reactor with its invariant, the loop of \<open>run_ready\<close> returns with an empty woken
  queue and the invariants kept. It polls every task that was woken and every task spawned
  during the pass that is still there, and leaves every task it does not poll as it was.
\<close>

theorem server_pass_ends:
  assumes "exec_inv e" and "reactor_inv ov m s"
  shows "\<exists>e' polled s'. run_ready (logged http_poller) e ([], s) = Some (e', polled, s')
    \<and> run_ready http_poller e s = Some (e', s') \<and> reactor_inv ov m s' \<and> exec_inv e' \<and> ex_woken e' = []
    \<and> (\<forall>i \<in> set (ex_woken e). ex_tasks e i \<noteq> None \<longrightarrow> i \<in> set polled)
    \<and> (\<forall>i. ex_tasks e' i \<noteq> None \<longrightarrow> ex_next_id e \<le> i \<longrightarrow> i \<in> set polled)
    \<and> (\<forall>i < ex_next_id e. i \<notin> set polled \<longrightarrow> ex_tasks e' i = ex_tasks e i)"
proof -
  have ok: "http.exec_ok e'' = exec_inv e''" for e'' by (simp add: http.exec_ok_def)
  show ?thesis using http.run_ready_polls[OF _ assms(2), of e "[]"] assms(1) unfolding ok by auto
qed

theorem server_pass_ends_witness:
  "\<exists>e' s'. run_ready http_poller (spawn Accepting exec_new) (reactor_new (endpoint_new 0x0A000001 80) (replicate 16 0) 1460) = Some (e', s')
    \<and> ex_woken e' = []"
proof -
  have "exec_inv (spawn Accepting exec_new)" by (simp add: exec_inv_def spawn_def wake_def exec_new_def Let_def)
  moreover have "reactor_inv no_overrides 0 (reactor_new (endpoint_new 0x0A000001 80) (replicate 16 0) 1460)"
    using stack_inv_new[of 1460] by (simp add: reactor_inv_def wakers_ok_def reactor_new_def)
  ultimately show ?thesis using server_pass_ends by blast
qed

end
