(* ===== verification/Runtime.thy ===== *)
theory Runtime
  imports Http_Server Icmp_Wire
begin

text \<open>
  \<open>runtime/mod.rs\<close> and the event loop of \<open>runtime/reactor.rs\<close>: the device the runtime
  drives, the in-memory device, one \<open>turn\<close> and the waiting time between two turns. The
  \<open>Device\<close> trait is a record of its operations. Of the receive buffer only the datagram just
  read is visible, and \<open>egress\<close> is cleared in every turn, so neither is part of the state.
  The outer \<open>None\<close> of a turn is a panic or a divergence.
\<close>

section \<open>Devices\<close>

record ('d, 'e) device =
  dv_recv :: "'d \<Rightarrow> nat \<Rightarrow> ('e + bytes option) \<times> 'd"
  dv_send :: "'d \<Rightarrow> bytes \<Rightarrow> ('e + unit) \<times> 'd"

record mock_device =
  mk_inbound :: "bytes list"
  mk_outbound :: "bytes list"

definition mock_new :: mock_device where
  "mock_new = \<lparr>mk_inbound = [], mk_outbound = []\<rparr>"

definition inject :: "mock_device \<Rightarrow> bytes \<Rightarrow> mock_device" where
  "inject self frame = self\<lparr>mk_inbound := mk_inbound self @ [frame]\<rparr>"

definition take_outbound :: "mock_device \<Rightarrow> bytes list \<times> mock_device" where
  "take_outbound self = (mk_outbound self, self\<lparr>mk_outbound := []\<rparr>)"

definition mock_recv :: "mock_device \<Rightarrow> nat \<Rightarrow> ('e + bytes option) \<times> mock_device" where
  "mock_recv self len =
     (case mk_inbound self of
        frame # rest \<Rightarrow> (Inr (Some (take (min (length frame) len) frame)), self\<lparr>mk_inbound := rest\<rparr>)
      | [] \<Rightarrow> (Inr None, self))"

definition mock_send :: "mock_device \<Rightarrow> bytes \<Rightarrow> ('e + unit) \<times> mock_device" where
  "mock_send self pkt = (Inr (), self\<lparr>mk_outbound := mk_outbound self @ [pkt]\<rparr>)"

definition mock :: "(mock_device, 'e) device" where
  "mock = \<lparr>dv_recv = mock_recv, dv_send = mock_send\<rparr>"

section \<open>The runtime\<close>

record ('d, 'f) runtime =
  rt_device :: 'd
  rt_state :: reactor
  rt_exec :: "'f exec"
  rt_buf_len :: nat
  rt_tx :: bytes

definition runtime_new :: "'d \<Rightarrow> nat \<Rightarrow> endpoint \<Rightarrow> bytes \<Rightarrow> ('d, 'f) runtime" where
  "runtime_new dev mtu local isn_secret =
     \<lparr>rt_device = dev, rt_state = reactor_new local isn_secret (mss_for_mtu mtu), rt_exec = exec_new,
      rt_buf_len = mtu + 64, rt_tx = replicate (mtu + 64) 0\<rparr>"

definition rt_spawn :: "('d, 'f) runtime \<Rightarrow> 'f \<Rightarrow> ('d, 'f) runtime" where
  "rt_spawn self fut = self\<lparr>rt_exec := spawn fut (rt_exec self)\<rparr>"

definition rt_set_congestion_control :: "('d, 'f) runtime \<Rightarrow> cc_kind \<Rightarrow> ('d, 'f) runtime" where
  "rt_set_congestion_control self kind =
     self\<lparr>rt_state := (rt_state self)\<lparr>rs_stack := set_cc_kind (rs_stack (rt_state self)) kind\<rparr>\<rparr>"

definition rt_poll_at :: "('d, 'f) runtime \<Rightarrow> instant option" where
  "rt_poll_at self = stack_poll_at (rs_stack (rt_state self))"

definition rt_connection_count :: "('d, 'f) runtime \<Rightarrow> nat" where
  "rt_connection_count self = connection_count (rs_stack (rt_state self))"

text \<open>The loop that reads the device until nothing is ready.\<close>

partial_function (option) ingest ::
  "('d, 'e) device \<Rightarrow> cc_overrides \<Rightarrow> nat \<Rightarrow> instant \<Rightarrow> 'd \<Rightarrow> bytes \<Rightarrow> reactor \<Rightarrow> (('e + unit) \<times> 'd \<times> bytes \<times> reactor) option" where
  "ingest dv ov len now d tx s =
     (case dv_recv dv d len of
        (Inl e, d) \<Rightarrow> Some (Inl e, d, tx, s)
      | (Inr None, d) \<Rightarrow> Some (Inr (), d, tx, s)
      | (Inr (Some frame), d) \<Rightarrow>
          (case ip_new_checked frame of
             Inl _ \<Rightarrow> ingest dv ov len now d tx s
           | Inr ip \<Rightarrow>
               if ip_protocol ip = IPPROTO_ICMP
               then do {
                 reply \<leftarrow> echo_reply ip tx;
                 case reply of
                   Some (n, tx) \<Rightarrow> ingest dv ov len now (snd (dv_send dv d (take n tx))) tx s
                 | None \<Rightarrow> ingest dv ov len now d tx s
               }
               else if ip_protocol ip = IPPROTO_TCP
               then do {
                 stack \<leftarrow> on_recv ov (rs_stack s) now ip;
                 ingest dv ov len now d tx (s\<lparr>rs_stack := stack\<rparr>)
               }
               else ingest dv ov len now d tx s))"

fun flush :: "('d, 'e) device \<Rightarrow> 'd \<Rightarrow> bytes list \<Rightarrow> 'd" where
  "flush dv d [] = d"
| "flush dv d (pkt # egress) = flush dv (snd (dv_send dv d pkt)) egress"

definition turn ::
  "('d, 'e) device \<Rightarrow> cc_overrides \<Rightarrow> ('f, reactor) poller \<Rightarrow> instant \<Rightarrow> ('d, 'f) runtime
    \<Rightarrow> (('e + unit) \<times> ('d, 'f) runtime) option" where
  "turn dv ov poll now self = do {
     stack \<leftarrow> stack_on_timer (rs_stack (rt_state self)) now;
     let s = (rt_state self)\<lparr>rs_now := now, rs_stack := stack\<rparr>;
     (res, d, tx, s) \<leftarrow> ingest dv ov (rt_buf_len self) now (rt_device self) (rt_tx self) s;
     case res of
       Inl e \<Rightarrow> Some (Inl e, self\<lparr>rt_device := d, rt_state := s, rt_tx := tx\<rparr>)
     | Inr _ \<Rightarrow> do {
         let (s, woken) = dispatch_wakeups s (ex_woken (rt_exec self));
         (exec, s) \<leftarrow> run_ready poll ((rt_exec self)\<lparr>ex_woken := woken\<rparr>) s;
         (egress, stack) \<leftarrow> stack_poll_transmit (rs_stack s) now [];
         Some (Inr (), self\<lparr>rt_device := flush dv d egress, rt_state := s\<lparr>rs_stack := stack\<rparr>,
           rt_exec := exec, rt_tx := tx\<rparr>)
       }
   }"

text \<open>The wait of \<open>run\<close> between two turns, in milliseconds; \<open>-1\<close> is for ever.\<close>

definition run_timeout :: "instant option \<Rightarrow> instant \<Rightarrow> int" where
  "run_timeout deadline now =
     (case deadline of
        None \<Rightarrow> -1
      | Some deadline \<Rightarrow> int (min (div_ceil (saturating_micros_since deadline now) 1000) 2147483647))"

section \<open>Ingress ends\<close>

text \<open>The contract of a device: what it has ready runs out, and sending adds nothing to it.\<close>

locale packet_device =
  fixes dv :: "('d, 'e) device" and ready :: "'d \<Rightarrow> nat"
  assumes recv_ready: "dv_recv dv d len = (Inr (Some frame), d') \<Longrightarrow> ready d' < ready d"
    and send_ready: "ready (snd (dv_send dv d pkt)) \<le> ready d"
begin

text \<open>Any property of the device and the reactor that each datagram keeps, is kept by the loop.\<close>

lemma ingest_ends:
  assumes "P d s"
    and recv: "\<And>d s r d'. P d s \<Longrightarrow> dv_recv dv d len = (r, d') \<Longrightarrow>
      (\<forall>frame. r = Inr (Some frame) \<longrightarrow> (case ip_new_checked frame of
          Inl _ \<Rightarrow> P d' s
        | Inr ip \<Rightarrow> (ip_protocol ip \<noteq> IPPROTO_TCP \<longrightarrow> P d' s)
            \<and> (ip_protocol ip = IPPROTO_TCP \<longrightarrow> (\<exists>stack. on_recv ov (rs_stack s) now ip = Some stack \<and> P d' (s\<lparr>rs_stack := stack\<rparr>)))))
      \<and> (r = Inr None \<longrightarrow> Q d' s) \<and> (\<forall>e. r \<noteq> Inl e)"
    and send: "\<And>d s pkt. P d s \<Longrightarrow> P (snd (dv_send dv d pkt)) s"
  shows "\<exists>d' tx' s'. ingest dv ov len now d tx s = Some (Inr (), d', tx', s') \<and> Q d' s'"
  using assms(1)
proof (induction "ready d" arbitrary: d tx s rule: less_induct)
  case less
  obtain r d1 where d1: "dv_recv dv d len = (r, d1)" by fastforce
  note step = recv[OF less.prems d1]
  consider (none) "r = Inr None" | (frame) frame where "r = Inr (Some frame)"
    using step by (cases r; cases "projr r") auto
  then show ?case
  proof cases
    case none
    then have "ingest dv ov len now d tx s = Some (Inr (), d1, tx, s)" using d1 by (subst ingest.simps) simp
    then show ?thesis using step none by blast
  next
    case frame
    have lt: "ready d1 < ready d" using recv_ready d1 frame by blast
    show ?thesis
    proof (cases "ip_new_checked frame")
      case (Inl e)
      then have "ingest dv ov len now d tx s = ingest dv ov len now d1 tx s" using d1 frame by (subst ingest.simps) simp
      moreover have "P d1 s" using step frame Inl by simp
      ultimately show ?thesis using less.hyps[OF lt] by simp
    next
      case (Inr ip)
      have acc: "ip_new_checked ip = Inr ip" using Inr by (auto simp: ip_new_checked_def Let_def split: if_splits)
      consider (icmp) "ip_protocol ip = IPPROTO_ICMP" | (tcp) "ip_protocol ip = IPPROTO_TCP"
        | (other) "ip_protocol ip \<noteq> IPPROTO_ICMP" "ip_protocol ip \<noteq> IPPROTO_TCP" by blast
      then show ?thesis
      proof cases
        case icmp
        then have P: "P d1 s" using step frame Inr by (simp add: IPPROTO_ICMP_def IPPROTO_TCP_def)
        obtain reply where e: "echo_reply ip tx = Some reply" using echo_reply_total[OF acc] by blast
        show ?thesis
        proof (cases reply)
          case None
          then have "ingest dv ov len now d tx s = ingest dv ov len now d1 tx s"
            using d1 frame Inr icmp e by (subst ingest.simps) simp
          then show ?thesis using less.hyps[OF lt P] by simp
        next
          case (Some p)
          obtain n tx1 where p: "p = (n, tx1)" by fastforce
          let ?d2 = "snd (dv_send dv d1 (take n tx1))"
          have "ingest dv ov len now d tx s = ingest dv ov len now ?d2 tx1 s"
            using d1 frame Inr icmp e Some p by (subst ingest.simps) simp
          moreover have "ready ?d2 < ready d" using lt send_ready[of d1 "take n tx1"] by linarith
          ultimately show ?thesis using less.hyps[OF _ send[OF P]] by simp
        qed
      next
        case tcp
        then obtain st where st: "on_recv ov (rs_stack s) now ip = Some st" "P d1 (s\<lparr>rs_stack := st\<rparr>)"
          using step frame Inr by auto
        then have "ingest dv ov len now d tx s = ingest dv ov len now d1 tx (s\<lparr>rs_stack := st\<rparr>)"
          using d1 frame Inr tcp by (subst ingest.simps) (simp add: IPPROTO_ICMP_def IPPROTO_TCP_def)
        then show ?thesis using less.hyps[OF lt st(2)] by simp
      next
        case other
        then have "ingest dv ov len now d tx s = ingest dv ov len now d1 tx s"
          using d1 frame Inr by (subst ingest.simps) simp
        moreover have "P d1 s" using step frame Inr other by simp
        ultimately show ?thesis using less.hyps[OF lt] by simp
      qed
    qed
  qed
qed

end

interpretation mock: packet_device mock "\<lambda>d. length (mk_inbound d)"
  by unfold_locales (auto simp: mock_def mock_recv_def mock_send_def split: list.splits)

end
