(* ===== verification/Turn.thy ===== *)
theory Turn
  imports Runtime
begin

text \<open>
  One turn of the runtime over the in-memory device, serving HTTP, and the wait between turns.
\<close>

section \<open>The wait\<close>

lemma stack_poll_at_min:
  "stack_poll_at self = None \<longleftrightarrow> (\<forall>(k, t) \<in> set (st_conns self). tcb_deadlines t = [])"
  "stack_poll_at self = Some d \<Longrightarrow> (\<exists>(k, t) \<in> set (st_conns self). d \<in> set (tcb_deadlines t))
     \<and> (\<forall>(k, t) \<in> set (st_conns self). \<forall>x \<in> set (tcb_deadlines t). d \<le> x)"
proof -
  define ds where "ds = List.map_filter (\<lambda>(k, t). tcb_poll_at t) (st_conns self)"
  have mem: "x \<in> set ds \<longleftrightarrow> (\<exists>(k, t) \<in> set (st_conns self). tcb_poll_at t = Some x)" for x
    by (force simp: ds_def List.map_filter_def)
  have p: "tcb_poll_at t = Some x \<longleftrightarrow> tcb_deadlines t \<noteq> [] \<and> x = Min (set (tcb_deadlines t))" for t x
    by (auto simp: tcb_poll_at_def)
  have e: "ds = [] \<longleftrightarrow> (\<forall>(k, t) \<in> set (st_conns self). tcb_deadlines t = [])"
  proof -
    have "ds = [] \<longleftrightarrow> (\<forall>x. x \<notin> set ds)" by (cases ds) auto
    then show ?thesis unfolding mem p by (auto split: prod.splits)
  qed
  show "stack_poll_at self = None \<longleftrightarrow> (\<forall>(k, t) \<in> set (st_conns self). tcb_deadlines t = [])"
    using e by (simp add: stack_poll_at_def ds_def[symmetric])
  show "(\<exists>(k, t) \<in> set (st_conns self). d \<in> set (tcb_deadlines t))
     \<and> (\<forall>(k, t) \<in> set (st_conns self). \<forall>x \<in> set (tcb_deadlines t). d \<le> x)" if "stack_poll_at self = Some d"
  proof -
    have ne: "ds \<noteq> []" and d: "d = Min (set ds)"
      using that by (auto simp: stack_poll_at_def ds_def[symmetric] Let_def split: if_splits)
    have "d \<in> set ds" using ne by (simp add: d)
    then obtain k t where "(k, t) \<in> set (st_conns self)" "tcb_deadlines t \<noteq> []" "d = Min (set (tcb_deadlines t))"
      unfolding mem p by blast
    moreover have "d \<le> x" if "(k, t) \<in> set (st_conns self)" "x \<in> set (tcb_deadlines t)" for k t x
    proof -
      have "tcb_deadlines t \<noteq> []" using that(2) by auto
      then have "Min (set (tcb_deadlines t)) \<in> set ds" unfolding mem p using that(1) by blast
      then have "d \<le> Min (set (tcb_deadlines t))" by (simp add: d)
      also have "\<dots> \<le> x" using that(2) by simp
      finally show ?thesis .
    qed
    ultimately show ?thesis by (auto intro: Min_in)
  qed
qed

text \<open>
  The wait between two turns ends with the earliest deadline. With no timer armed on any
  connection the runtime waits for ever. Otherwise, if the earliest deadline of all timers of
  all connections is at most \<open>i32::MAX\<close> milliseconds away, the wait does not end before it
  and ends less than a millisecond after it.
\<close>

theorem wait_ends_with_deadline:
  "case rt_poll_at self of
     None \<Rightarrow> run_timeout (rt_poll_at self) now = -1
       \<and> (\<forall>(k, t) \<in> set (st_conns (rs_stack (rt_state self))). tcb_deadlines t = [])
   | Some d \<Rightarrow> (\<exists>(k, t) \<in> set (st_conns (rs_stack (rt_state self))). d \<in> set (tcb_deadlines t))
       \<and> (\<forall>(k, t) \<in> set (st_conns (rs_stack (rt_state self))). \<forall>x \<in> set (tcb_deadlines t). d \<le> x)
       \<and> 0 \<le> run_timeout (rt_poll_at self) now
       \<and> (int d - int now \<le> 2147483647 * 1000 \<longrightarrow> int d \<le> int now + 1000 * run_timeout (rt_poll_at self) now
            \<and> (if d \<le> now then run_timeout (rt_poll_at self) now = 0
               else int now + 1000 * run_timeout (rt_poll_at self) now < int d + 1000))"
proof (cases "rt_poll_at self")
  case None
  then show ?thesis using stack_poll_at_min(1)[of "rs_stack (rt_state self)"] by (simp add: rt_poll_at_def run_timeout_def)
next
  case (Some d)
  define k where "k = div_ceil (d - now) 1000"
  have b: "d - now \<le> 1000 * k" "1000 * k < (d - now) + 1000"
    unfolding k_def using div_ceil_bounds[of 1000 "d - now"] by simp_all
  have t: "run_timeout (Some d) now = int (min k 2147483647)"
    by (simp add: run_timeout_def saturating_micros_since_def k_def)
  have far: "int d \<le> int now + 1000 * run_timeout (Some d) now
            \<and> (if d \<le> now then run_timeout (Some d) now = 0 else int now + 1000 * run_timeout (Some d) now < int d + 1000)"
    if h: "int d - int now \<le> 2147483647 * 1000"
  proof -
    have "d - now \<le> 2147483647 * 1000" using h by linarith
    then have "1000 * k < 2147483648 * 1000" using b(2) by linarith
    then have "k \<le> 2147483647" by linarith
    then have m: "run_timeout (Some d) now = int k" unfolding t by simp
    show ?thesis
    proof (cases "d \<le> now")
      case True
      then have "k = 0" using b(2) by simp
      then show ?thesis using True by (simp add: m)
    next
      case False
      then show ?thesis using b unfolding m by simp linarith
    qed
  qed
  have "0 \<le> run_timeout (Some d) now" by (simp add: t)
  then show ?thesis
    using far stack_poll_at_min(2)[of "rs_stack (rt_state self)" d] Some by (simp add: rt_poll_at_def)
qed

theorem wait_ends_with_deadline_witness:
  "\<exists>self :: (mock_device, http_task) runtime. \<exists>d. rt_poll_at self = Some d \<and> 0 < d
    \<and> int d \<le> 1000 * run_timeout (rt_poll_at self) 0 \<and> 1000 * run_timeout (rt_poll_at self) 0 < int d + 1000"
proof -
  let ?rt = "(runtime_new mock_new 1500 (endpoint_new 0x0A000001 80) (replicate 16 0))\<lparr>rt_state := sample_reactor\<rparr>
    :: (mock_device, http_task) runtime"
  have dl: "tcb_deadlines sample_established = [plus_millis 5 DELAYED_ACK_MILLIS]"
    using no_options[OF sample_syn_fields(2)]
    by (simp add: tcb_deadlines_def sample_established_def sample_answered_def sample_passive_def new_syn_received_def
        start_rtx_def List.map_filter_simps Let_def)
  then have d: "rt_poll_at ?rt = Some (plus_millis 5 DELAYED_ACK_MILLIS)"
    by (simp add: rt_poll_at_def stack_poll_at_def tcb_poll_at_def sample_reactor_def reactor_new_def List.map_filter_simps)
  have v: "plus_millis 5 DELAYED_ACK_MILLIS = 40005" by (simp add: plus_millis_def DELAYED_ACK_MILLIS_def sat_add64_def sat_mul64_def U64_MAX_def)
  from wait_ends_with_deadline[of ?rt 0] show ?thesis
    unfolding d v by (intro exI[of _ ?rt] exI[of _ 40005]) (simp add: d v)
qed

section \<open>One turn\<close>

text \<open>Datagrams that are legal one after the other.\<close>

fun legal_frames :: "cc_overrides \<Rightarrow> instant \<Rightarrow> stack \<Rightarrow> bytes list \<Rightarrow> bool" where
  "legal_frames ov now self [] = True"
| "legal_frames ov now self (frame # frames) =
     (case ip_new_checked frame of
        Inl _ \<Rightarrow> legal_frames ov now self frames
      | Inr ip \<Rightarrow>
          if ip_protocol ip = IPPROTO_TCP
          then legal_datagram self ip
            \<and> (case on_recv ov self now ip of Some self \<Rightarrow> legal_frames ov now self frames | None \<Rightarrow> False)
          else legal_frames ov now self frames)"

lemma mock_flush: "flush mock d egress = d\<lparr>mk_outbound := mk_outbound d @ egress\<rparr>"
  by (induction egress arbitrary: d) (simp_all add: mock_def mock_send_def)

lemma mock_ingest:
  assumes "reactor_inv ov m s" and ov: "overrides_ok ov" and "legal_frames ov now (rs_stack s) (map (take len) (mk_inbound d))"
  shows "\<exists>d' tx' s' sent. ingest (mock :: (mock_device, 'e) device) ov len now d tx s = Some (Inr (), d', tx', s') \<and> reactor_inv ov m s' \<and> mk_inbound d' = []
    \<and> mk_outbound d' = mk_outbound d @ sent"
proof -
  define P where "P = (\<lambda>(d' :: mock_device) s. reactor_inv ov m s \<and> legal_frames ov now (rs_stack s) (map (take len) (mk_inbound d'))
    \<and> (\<exists>sent. mk_outbound d' = mk_outbound d @ sent))"
  define Q where "Q = (\<lambda>(d' :: mock_device) s. reactor_inv ov m s \<and> mk_inbound d' = [] \<and> (\<exists>sent. mk_outbound d' = mk_outbound d @ sent))"
  have start: "P d s" using assms by (simp add: P_def)
  have recv: "(\<forall>frame. r = Inr (Some frame) \<longrightarrow> (case ip_new_checked frame of
          Inl _ \<Rightarrow> P d' s
        | Inr ip \<Rightarrow> (ip_protocol ip \<noteq> IPPROTO_TCP \<longrightarrow> P d' s)
            \<and> (ip_protocol ip = IPPROTO_TCP \<longrightarrow> (\<exists>stack. on_recv ov (rs_stack s) now ip = Some stack \<and> P d' (s\<lparr>rs_stack := stack\<rparr>)))))
      \<and> (r = Inr None \<longrightarrow> Q d' s) \<and> (\<forall>e. r \<noteq> Inl e)"
    if h: "P d1 s" "dv_recv (mock :: (mock_device, 'e) device) d1 len = (r, d')" for d1 s r d'
  proof (cases "mk_inbound d1")
    case Nil
    then have "r = Inr None" "d' = d1" using h(2) by (auto simp: mock_def mock_recv_def)
    then show ?thesis using h(1) Nil by (simp add: P_def Q_def)
  next
    case (Cons f fs)
    have r: "r = Inr (Some (take len f))" "d' = d1\<lparr>mk_inbound := fs\<rparr>"
      using h(2) Cons by (auto simp: mock_def mock_recv_def min_def)
    show ?thesis
    proof (cases "ip_new_checked (take len f)")
      case (Inl e)
      then show ?thesis using r h(1) Cons by (simp add: P_def)
    next
      case (Inr ip)
      have tcp: "\<exists>stack. on_recv ov (rs_stack s) now ip = Some stack \<and> P d' (s\<lparr>rs_stack := stack\<rparr>)"
        if p: "ip_protocol ip = IPPROTO_TCP"
      proof -
        have l: "legal_datagram (rs_stack s) ip" "stack_inv ov m (rs_stack s)" using h(1) Cons Inr p by (simp_all add: P_def reactor_inv_def)
        obtain st where st: "on_recv ov (rs_stack s) now ip = Some st" "stack_inv ov m st" using on_recv_ok[OF l(2) ov l(1)] by blast
        then show ?thesis using h(1) Cons Inr p r(2) by (simp add: P_def reactor_inv_def wakers_ok_def)
      qed
      have "P d' s" if "ip_protocol ip \<noteq> IPPROTO_TCP" using h(1) Cons Inr that r(2) by (simp add: P_def)
      then show ?thesis using r tcp Inr by simp
    qed
  qed
  have send: "P (snd (dv_send (mock :: (mock_device, 'e) device) d1 pkt)) s" if "P d1 s" for d1 s pkt
    using that by (auto simp: P_def mock_def mock_send_def)
  have "\<exists>d' tx' s'. ingest (mock :: (mock_device, 'e) device) ov len now d tx s = Some (Inr (), d', tx', s') \<and> Q d' s'"
    by (rule mock.ingest_ends[where P = P]) (rule start, rule recv, assumption+, rule send, assumption)
  then show ?thesis unfolding Q_def by blast
qed

text \<open>
  C16: a turn of the HTTP server ends and keeps everything in order. If the datagrams waiting in
  the device are legal one after the other, a turn returns without an error: all of them have
  been read, what the device had sent is still in front of what it has sent now, no task is
  left woken, no closed connection is left, and the invariants of the reactor and of the
  executor hold.
\<close>

theorem server_turn_ends:
  assumes "reactor_inv ov m (rt_state self)" and "exec_inv (rt_exec self)" and ov: "overrides_ok ov" and "m < U32_MAX"
    and "\<forall>stack. stack_on_timer (rs_stack (rt_state self)) now = Some stack \<longrightarrow>
      legal_frames ov now stack (map (take (rt_buf_len self)) (mk_inbound (rt_device self)))"
  shows "\<exists>self' sent. turn (mock :: (mock_device, 'e) device) ov http_poller now self = Some (Inr (), self')
    \<and> reactor_inv ov (Suc m) (rt_state self') \<and> exec_inv (rt_exec self') \<and> ex_woken (rt_exec self') = []
    \<and> mk_inbound (rt_device self') = [] \<and> mk_outbound (rt_device self') = mk_outbound (rt_device self) @ sent
    \<and> (\<forall>(k, t) \<in> set (st_conns (rs_stack (rt_state self'))). t_state t \<noteq> Closed)"
proof -
  have "stack_inv ov m (rs_stack (rt_state self))" using assms(1) by (simp add: reactor_inv_def)
  from stack_on_timer_ok[OF this ov assms(4), of now] obtain st where
    st: "stack_on_timer (rs_stack (rt_state self)) now = Some st" "stack_inv ov (Suc m) st" by blast
  let ?s = "(rt_state self)\<lparr>rs_now := now, rs_stack := st\<rparr>"
  have i: "reactor_inv ov (Suc m) ?s" using assms(1) st(2) by (simp add: reactor_inv_def wakers_ok_def)
  have l: "legal_frames ov now (rs_stack ?s) (map (take (rt_buf_len self)) (mk_inbound (rt_device self)))"
    using assms(5) st(1) by simp
  obtain d tx s sent where g: "ingest (mock :: (mock_device, 'e) device) ov (rt_buf_len self) now (rt_device self) (rt_tx self) ?s = Some (Inr (), d, tx, s)"
    "reactor_inv ov (Suc m) s" "mk_inbound d = []" "mk_outbound d = mk_outbound (rt_device self) @ sent"
    using mock_ingest[OF i ov l] by blast
  obtain s1 woken where w: "dispatch_wakeups s (ex_woken (rt_exec self)) = (s1, woken)" by fastforce
  have "reactor_inv ov (Suc m) s1" using dispatch_inv[OF g(2), of "ex_woken (rt_exec self)"] w by simp
  moreover have "http.exec_ok ((rt_exec self)\<lparr>ex_woken := woken\<rparr>)" using assms(2) by (simp add: http.exec_ok_def exec_inv_def)
  ultimately obtain e s2 where r: "run_ready http_poller ((rt_exec self)\<lparr>ex_woken := woken\<rparr>) s1 = Some (e, s2)"
    "reactor_inv ov (Suc m) s2" "http.exec_ok e" "ex_woken e = []" using http.run_ready_polls[of _ ov "Suc m" s1] by blast
  have "stack_inv ov (Suc m) (rs_stack s2)" using r(2) by (simp add: reactor_inv_def)
  then obtain out st2 where p: "stack_poll_transmit (rs_stack s2) now [] = Some (out, st2)" "stack_inv ov (Suc m) st2"
    "\<forall>(k, t) \<in> set (st_conns st2). t_state t \<noteq> Closed" using stack_poll_transmit_ok[OF _ ov, of "Suc m" "rs_stack s2" now "[]"] by auto
  define self' where "self' = self\<lparr>rt_device := flush (mock :: (mock_device, 'e) device) d out, rt_state := s2\<lparr>rs_stack := st2\<rparr>, rt_exec := e, rt_tx := tx\<rparr>"
  have "turn (mock :: (mock_device, 'e) device) ov http_poller now self = Some (Inr (), self')"
    using st(1) g(1) w r(1) p(1) by (simp add: turn_def Let_def self'_def)
  moreover have "reactor_inv ov (Suc m) (rt_state self')" using r(2) p(2) by (simp add: reactor_inv_def wakers_ok_def self'_def)
  moreover have "exec_inv (rt_exec self')" "ex_woken (rt_exec self') = []" using r(3,4) by (simp_all add: http.exec_ok_def self'_def)
  moreover have "mk_inbound (rt_device self') = []" "mk_outbound (rt_device self') = mk_outbound (rt_device self) @ (sent @ out)"
    using g(3,4) by (simp_all add: mock_flush self'_def)
  moreover have "\<forall>(k, t) \<in> set (st_conns (rs_stack (rt_state self'))). t_state t \<noteq> Closed" using p(3) by (simp add: self'_def)
  ultimately show ?thesis by blast
qed

theorem server_turn_ends_witness:
  "\<exists>self' sent. turn (mock :: (mock_device, unit) device) no_overrides http_poller 0
      (rt_spawn (runtime_new (inject mock_new sample_datagram) 1500 (endpoint_new 0x0A000001 80) (replicate 16 0)) Accepting)
    = Some (Inr (), self') \<and> mk_inbound (rt_device self') = [] \<and> mk_outbound (rt_device self') = sent"
proof -
  let ?rt = "rt_spawn (runtime_new (inject mock_new sample_datagram) 1500 (endpoint_new 0x0A000001 80) (replicate 16 0)) Accepting"
  have mss: "mss_for_mtu 1500 = 1460" by (simp add: mss_for_mtu_def clamp_nat_def MSS_DEFAULT_def MSS_MAX_def)
  have st: "rs_stack (rt_state ?rt) = sample_stack"
    by (simp add: rt_spawn_def runtime_new_def reactor_new_def sample_stack_def mss)
  have si: "stack_inv no_overrides 0 sample_stack" unfolding sample_stack_def by (rule stack_inv_new) simp_all
  have ld: "legal_datagram sample_stack sample_datagram"
    using no_options[OF sample_syn_fields(2)]
    by (simp add: legal_datagram_def sample_datagram_fields sample_syn_parses sample_stack_def stack_new_def)
  have ri: "reactor_inv no_overrides 0 (rt_state ?rt)"
    using si st by (simp add: reactor_inv_def wakers_ok_def rt_spawn_def runtime_new_def reactor_new_def)
  have "exec_inv (rt_exec ?rt)"
    by (simp add: rt_spawn_def runtime_new_def exec_inv_def exec_new_def spawn_def wake_def Let_def)
  moreover have "stack_on_timer sample_stack 0 = Some sample_stack"
    by (simp add: stack_on_timer_def sample_stack_def stack_new_def)
  moreover have "take 1564 sample_datagram = sample_datagram" "ip_new_checked sample_datagram = Inr sample_datagram"
    by (simp_all add: sample_datagram_def sample_syn_def ip_new_checked_def ip_version_def ip_header_len_def ip_total_len_def
        is_fragment_def u16_from_be_def IPV4_MIN_HEADER_LEN_def IPV4_MAX_HEADER_LEN_def Let_def)
  moreover obtain s where "on_recv no_overrides sample_stack 0 sample_datagram = Some s"
    using on_recv_ok[OF si no_overrides_ok ld] by blast
  ultimately have "\<forall>stack. stack_on_timer (rs_stack (rt_state ?rt)) 0 = Some stack \<longrightarrow>
      legal_frames no_overrides 0 stack (map (take (rt_buf_len ?rt)) (mk_inbound (rt_device ?rt)))" and "exec_inv (rt_exec ?rt)"
    using ld st sample_datagram_fields
    by (simp_all add: rt_spawn_def runtime_new_def inject_def mock_new_def)
  from server_turn_ends[OF ri this(2) no_overrides_ok _ this(1)] show ?thesis
    by (fastforce simp: U32_MAX_def rt_spawn_def runtime_new_def inject_def mock_new_def)
qed

end
