(* ===== verification/Recycled.thy ===== *)
theory Recycled
  imports Turn Receive_Path
begin

text \<open>
  A connection that is never offered to \<open>accept\<close>: two turns of the runtime in which a
  peer resets its connection and opens a new one from the same port.
\<close>

section \<open>The parts of a quiet turn\<close>

text \<open>A datagram for this host whose segment comes from an endpoint to the listening port.\<close>

definition addressed :: "stack \<Rightarrow> endpoint \<Rightarrow> bytes \<Rightarrow> bytes \<Rightarrow> bool" where
  "addressed self ep ip tcp \<longleftrightarrow> ip_new_checked ip = Inr ip \<and> ip_protocol ip = IPPROTO_TCP
     \<and> ip_dst ip = ep_ip (st_local self) \<and> tcp_new_checked (ip_payload ip) = Inr tcp
     \<and> (tcp_checksum_field tcp = 0 \<or> tcp_checksum_valid (ip_src ip) (ip_dst ip) tcp)
     \<and> ep = \<lparr>ep_ip = ip_src ip, ep_port = tcp_src_port tcp\<rparr> \<and> tcp_dst_port tcp = ep_port (st_local self)"

lemma addressed_local: "st_local a = st_local b \<Longrightarrow> addressed a = addressed b"
  by (simp add: fun_eq_iff addressed_def)

lemma ingest_one:
  assumes "mk_inbound d = [ip]" and "length ip \<le> len" and "ip_new_checked ip = Inr ip" and "ip_protocol ip = IPPROTO_TCP"
    and "on_recv ov (rs_stack s) now ip = Some stack"
  shows "ingest (mock :: (mock_device, 'e) device) ov len now d tx s
    = Some (Inr (), d\<lparr>mk_inbound := []\<rparr>, tx, s\<lparr>rs_stack := stack\<rparr>)"
proof -
  have "ingest (mock :: (mock_device, 'e) device) ov len now (d\<lparr>mk_inbound := []\<rparr>) tx x = Some (Inr (), d\<lparr>mk_inbound := []\<rparr>, tx, x)" for x
    by (subst ingest.simps) (simp add: mock_def mock_recv_def)
  then show ?thesis
    using assms by (subst ingest.simps) (simp add: mock_def mock_recv_def IPPROTO_TCP_def IPPROTO_ICMP_def min_def)
qed

lemma drain_keeps_state:
  assumes "drain_tcb tcb now out = Some r" and "t_state tcb \<in> {Closed, SynReceived}"
  shows "t_state (snd r) = t_state tcb"
proof -
  have step: "t_state s = t_state x" if "poll_transmit x now = Some (seg, s)" "t_state x \<in> {Closed, SynReceived}" for x now seg s
    using poll_transmit_move[of x now] that by (auto simp: fin_move_def elim: rfc793.cases)
  have "t_state tcb \<in> {Closed, SynReceived} \<longrightarrow> t_state (snd r) = t_state tcb"
    by (rule drain_tcb.raw_induct[OF _ assms(1), of "\<lambda>x now out r. t_state x \<in> {Closed, SynReceived} \<longrightarrow> t_state (snd r) = t_state x"])
      (auto simp: bind_Some_iff split: option.splits dest!: step)
  then show ?thesis using assms(2) by auto
qed

text \<open>A turn in which no task is woken: timers, one datagram, the dispatch and the poll.\<close>

lemma quiet_turn:
  assumes "stack_on_timer (rs_stack (rt_state self)) now = Some st1"
    and "mk_inbound (rt_device self) = [ip]" and "length ip \<le> rt_buf_len self" and "ip_new_checked ip = Inr ip"
    and "ip_protocol ip = IPPROTO_TCP" and "on_recv ov st1 now ip = Some st2"
    and "ex_woken (rt_exec self) = []"
    and "dispatch_wakeups ((rt_state self)\<lparr>rs_now := now, rs_stack := st2\<rparr>) [] = (s, [])"
    and "stack_poll_transmit (rs_stack s) now [] = Some (egress, st3)"
  shows "\<exists>self'. turn (mock :: (mock_device, 'e) device) ov poll now self = Some (Inr (), self')
    \<and> rt_state self' = s\<lparr>rs_stack := st3\<rparr> \<and> mk_inbound (rt_device self') = []
    \<and> rt_exec self' = rt_exec self \<and> rt_buf_len self' = rt_buf_len self"
proof -
  let ?s = "(rt_state self)\<lparr>rs_now := now, rs_stack := st1\<rparr>"
  have i: "ingest (mock :: (mock_device, 'e) device) ov (rt_buf_len self) now (rt_device self) (rt_tx self) ?s
      = Some (Inr (), (rt_device self)\<lparr>mk_inbound := []\<rparr>, rt_tx self, ?s\<lparr>rs_stack := st2\<rparr>)"
    using assms(6) by (intro ingest_one[OF assms(2-5)]) simp
  have r: "run_ready poll ((rt_exec self)\<lparr>ex_woken := []\<rparr>) s = Some (rt_exec self, s)"
    using assms(7) by (subst run_ready.simps) simp
  show ?thesis using assms(1,7,8,9) i r by (simp add: turn_def Let_def mock_flush)
qed

text \<open>A dispatch over one connection, announced before: nothing is queued and nobody is woken.\<close>

lemma dispatch_announced:
  assumes "st_conns (rs_stack s) = [(ep, t)]" and "rs_announced s = {ep}" and "rs_accept_queue s = []"
    and "rs_read_wakers s = []" "rs_write_wakers s = []" "rs_connect_wakers s = []"
  shows "dispatch_wakeups s woken = (s, woken)"
proof -
  have "queued s = []" using assms(1-3) by (auto simp: queued_def synced_def filter_empty_conv)
  moreover have "set (synced (rs_stack s)) \<subseteq> {ep}" using assms(1) by (auto simp: synced_def)
  ultimately show ?thesis
    using assms dispatch_run[of s woken] by (simp add: wakers_ok_def accept_wake_def insert_absorb)
qed

lemma on_timer_local:
  assumes "tcb_on_timer self now = Some self'"
  shows "t_local self' = t_local self"
proof -
  obtain r where r: "timer_rtx self now = Some r" "self' = timer_delayed_ack (timer_time_wait (timer_persist r now) now) now"
    using assms by (auto simp: tcb_on_timer_def)
  have "t_local r = t_local self" if h: "rto_fired self now = Some r"
  proof -
    obtain e where "rtt_on_timeout (t_rtt self) = Some e" using h by (auto simp: rto_fired_def bind_Some_iff)
    then show ?thesis using h by (cases "t_sack_enabled self") (auto simp: rto_fired_def Let_def restart_rtx_def)
  qed
  moreover have "rto_syn_sent self now = Some r \<Longrightarrow> t_local r = t_local self"
    by (auto simp: rto_syn_sent_def Let_def restart_rtx_def bind_Some_iff split: if_splits)
  ultimately have "t_local r = t_local self" using timer_rtx_cases[OF r(1)] by auto
  then show ?thesis
    unfolding r(2) by (simp add: timer_delayed_ack_def timer_time_wait_def timer_persist_def Let_def split: option.split)
qed

section \<open>Reset and reopened\<close>

text \<open>The first turn: the reset closes the connection, which stays announced when the poll reaps it.\<close>

lemma reset_turn:
  assumes inv: "reactor_inv ov m (rt_state self)" and ov: "overrides_ok ov" and m: "m < U32_MAX"
    and conns: "st_conns (rs_stack (rt_state self)) = [(ep, t)]" and st: "t_state t = Established"
    and port: "ep_port (t_local t) = ep_port (st_local (rs_stack (rt_state self)))"
    and quiet: "rs_announced (rt_state self) = {ep}" "rs_accept_queue (rt_state self) = []" "rs_read_wakers (rt_state self) = []"
      "rs_write_wakers (rt_state self) = []" "rs_connect_wakers (rt_state self) = []" "ex_woken (rt_exec self) = []"
    and rst: "mk_inbound (rt_device self) = [rst]" "length rst \<le> rt_buf_len self" "addressed (rs_stack (rt_state self)) ep rst tcp"
      "flag_has (tcp_flags_of tcp) RST" "tcp_seq tcp = t_rcv_nxt t" "seq_in_window t (tcp_seq tcp)"
      "length (tcp_payload tcp) \<le> 65535" "mss_option tcp \<noteq> Some 0"
  shows "\<exists>self'. turn (mock :: (mock_device, 'e) device) ov poll now self = Some (Inr (), self')
    \<and> rt_state self' = (rt_state self)\<lparr>rs_now := now,
        rs_stack := (rs_stack (rt_state self))\<lparr>st_pending := [], st_conns := []\<rparr>\<rparr>
    \<and> mk_inbound (rt_device self') = [] \<and> ex_woken (rt_exec self') = [] \<and> rt_buf_len self' = rt_buf_len self"
proof -
  let ?stack = "rs_stack (rt_state self)"
  obtain n where n: "n \<le> m" "reachable ov n t" using inv conns by (auto simp: reactor_inv_def stack_inv_def)
  then obtain t1 where t1: "tcb_on_timer t now = Some t1" using on_timer_ok[OF reachable_inv[OF n(2) ov]] m by fastforce
  have s1: "t_state t1 = Established"
    using on_timer_state[OF t1] reachable_deadline_ok[OF n(2) ov] st by (auto simp: deadline_ok_def)
  have v: "t_rcv_nxt t1 = t_rcv_nxt t" "t_rcv_adv t1 = t_rcv_adv t" using on_timer_recv_view[OF t1] by (simp_all add: recv_view_def)
  have l: "t_local t1 = t_local t" using on_timer_local[OF t1] .
  let ?t2 = "t1\<lparr>t_state := Closed, t_reset := True\<rparr>"
  have "on_rst t1 now (tcp_seq tcp) = ?t2" using rst(5,6) v by (simp add: on_rst_def seq_in_window_def)
  then have seg: "on_segment ov t1 now tcp ce = Some ?t2" for ce using s1 rst(4) by (simp add: on_segment_def)
  have r1: "reachable ov (Suc n) t1" using reachable.tick[OF n(2) _ t1] n(1) m by simp
  have "legal_segment t1 tcp" using rst(5,7,8) v by (simp add: legal_segment_def seg_near_def offset_from_def)
  then have r2: "reachable ov (Suc n) ?t2" using reachable.seg_in[OF r1 _ seg] by blast
  let ?st1 = "?stack\<lparr>st_conns := [(ep, t1)]\<rparr>" and ?st2 = "?stack\<lparr>st_conns := [(ep, ?t2)]\<rparr>"
  have timer: "stack_on_timer ?stack now = Some ?st1" using conns t1 by (simp add: stack_on_timer_def)
  have recv: "on_recv ov ?st1 now rst = Some ?st2"
    using rst(3) seg port l by (auto simp: addressed_def on_recv_def Let_def)
  have disp: "dispatch_wakeups ((rt_state self)\<lparr>rs_now := now, rs_stack := ?st2\<rparr>) []
      = ((rt_state self)\<lparr>rs_now := now, rs_stack := ?st2\<rparr>, [])"
    by (rule dispatch_announced[of _ ep ?t2]) (simp_all add: quiet)
  obtain egress t3 where d: "drain_tcb ?t2 now (st_pending ?stack) = Some (egress, t3)"
    using drain_reachable[OF r2 ov] by blast
  have "t_state t3 = Closed" using drain_keeps_state[OF d] by simp
  then have p: "stack_poll_transmit (rs_stack ((rt_state self)\<lparr>rs_now := now, rs_stack := ?st2\<rparr>)) now []
      = Some (egress, ?stack\<lparr>st_pending := [], st_conns := []\<rparr>)"
    using d by (simp add: stack_poll_transmit_def)
  have a: "ip_new_checked rst = Inr rst" "ip_protocol rst = IPPROTO_TCP" using rst(3) by (simp_all add: addressed_def)
  obtain self' where "turn (mock :: (mock_device, 'e) device) ov poll now self = Some (Inr (), self')"
    "rt_state self' = (rt_state self)\<lparr>rs_now := now, rs_stack := ?st2, rs_stack := ?stack\<lparr>st_pending := [], st_conns := []\<rparr>\<rparr>"
    "mk_inbound (rt_device self') = []" "rt_exec self' = rt_exec self" "rt_buf_len self' = rt_buf_len self"
    using quiet_turn[OF timer rst(1,2) a recv quiet(6) disp p] by blast
  then show ?thesis using quiet(6) by (intro exI[of _ self']) simp
qed

text \<open>The second turn: the SYN makes a new connection, and the dispatch finds it announced.\<close>

lemma reopen_turn:
  assumes inv: "stack_inv ov m (rs_stack (rt_state self))" and ov: "overrides_ok ov"
    and conns: "st_conns (rs_stack (rt_state self)) = []"
    and quiet: "rs_announced (rt_state self) = {ep}" "rs_accept_queue (rt_state self) = []" "rs_read_wakers (rt_state self) = []"
      "rs_write_wakers (rt_state self) = []" "rs_connect_wakers (rt_state self) = []" "ex_woken (rt_exec self) = []"
    and syn: "mk_inbound (rt_device self) = [syn]" "length syn \<le> rt_buf_len self" "addressed (rs_stack (rt_state self)) ep syn tcp"
      "flag_has (tcp_flags_of tcp) SYN" "\<not> flag_has (tcp_flags_of tcp) ACK" "\<not> flag_has (tcp_flags_of tcp) RST"
      "mss_option tcp \<noteq> Some 0"
  shows "\<exists>self' t. turn (mock :: (mock_device, 'e) device) ov poll now self = Some (Inr (), self') \<and> t_state t = SynReceived
    \<and> rt_state self' = (rt_state self)\<lparr>rs_now := now,
        rs_stack := (rs_stack (rt_state self))\<lparr>st_pending := [], st_conns := [(ep, t)]\<rparr>\<rparr>"
proof -
  let ?stack = "rs_stack (rt_state self)"
  define t1 where "t1 = set_congestion_control ov (new_syn_received ov (st_local ?stack) ep tcp
      (generate (st_isn ?stack) (ep_ip (st_local ?stack)) (ep_port (st_local ?stack)) (ep_ip ep) (ep_port ep) now)
      now (st_mss_advertise ?stack)) (st_cc_kind ?stack)"
  have i: "st_mss_advertise ?stack \<noteq> 0" "unat (st_mss_advertise ?stack) \<le> 65495" "st_cc_kind ?stack \<noteq> KCubic"
    using inv by (simp_all add: stack_inv_def)
  have r1: "reachable ov 0 t1"
    unfolding t1_def by (rule reachable.controller[OF reachable.passive_open[OF i(1,2) syn(7)] i(3)])
  have s1: "t_state t1 = SynReceived"
    by (simp add: t1_def set_congestion_control_def new_syn_received_def Let_def split: option.split)
  let ?st2 = "?stack\<lparr>st_conns := [(ep, t1)]\<rparr>"
  have timer: "stack_on_timer ?stack now = Some ?stack" using conns by (simp add: stack_on_timer_def)
  have recv: "on_recv ov ?stack now syn = Some ?st2"
    using syn(3-6) conns by (auto simp: addressed_def on_recv_def on_unknown_def Let_def t1_def)
  have disp: "dispatch_wakeups ((rt_state self)\<lparr>rs_now := now, rs_stack := ?st2\<rparr>) []
      = ((rt_state self)\<lparr>rs_now := now, rs_stack := ?st2\<rparr>, [])"
    by (rule dispatch_announced[of _ ep t1]) (simp_all add: quiet)
  obtain egress t3 where d: "drain_tcb t1 now (st_pending ?stack) = Some (egress, t3)"
    using drain_reachable[OF r1 ov] by blast
  have s3: "t_state t3 = SynReceived" using drain_keeps_state[OF d] s1 by simp
  then have p: "stack_poll_transmit (rs_stack ((rt_state self)\<lparr>rs_now := now, rs_stack := ?st2\<rparr>)) now []
      = Some (egress, ?stack\<lparr>st_pending := [], st_conns := [(ep, t3)]\<rparr>)"
    using d by (simp add: stack_poll_transmit_def)
  have a: "ip_new_checked syn = Inr syn" "ip_protocol syn = IPPROTO_TCP" using syn(3) by (simp_all add: addressed_def)
  obtain self' where "turn (mock :: (mock_device, 'e) device) ov poll now self = Some (Inr (), self')"
    "rt_state self' = (rt_state self)\<lparr>rs_now := now, rs_stack := ?st2, rs_stack := ?stack\<lparr>st_pending := [], st_conns := [(ep, t3)]\<rparr>\<rparr>"
    using quiet_turn[OF timer syn(1,2) a recv quiet(6) disp p] by blast
  then show ?thesis using s3 by (intro exI[of _ self'] exI[of _ t3]) simp
qed

text \<open>
  C20: a connection from a recycled port is never offered. A server has accepted its one
  connection and waits in \<open>accept\<close> again, with no task woken. In one turn the peer resets the
  connection: it is closed and reaped, but by the poll at the end of the turn, after the
  dispatch has looked which announced endpoints are still alive. In the next turn the peer's SYN
  comes from the same port: the endpoint has a connection again, so the dispatch neither
  forgets nor queues it. From then on, in whatever state the new connection is, a dispatch
  queues nothing and wakes nobody, and \<open>accept\<close> stays pending.
\<close>

theorem recycled_endpoint_not_offered:
  assumes "reactor_inv ov m (rt_state self)" and "overrides_ok ov" and "m < U32_MAX"
    and "st_conns (rs_stack (rt_state self)) = [(ep, t)]" and "t_state t = Established"
    and "ep_port (t_local t) = ep_port (st_local (rs_stack (rt_state self)))"
    and "rs_announced (rt_state self) = {ep}" "rs_accept_queue (rt_state self) = []" "rs_read_wakers (rt_state self) = []"
      "rs_write_wakers (rt_state self) = []" "rs_connect_wakers (rt_state self) = []" "ex_woken (rt_exec self) = []"
    and "mk_inbound (rt_device self) = [rst]" "length rst \<le> rt_buf_len self" "addressed (rs_stack (rt_state self)) ep rst tcp"
      "flag_has (tcp_flags_of tcp) RST" "tcp_seq tcp = t_rcv_nxt t" "seq_in_window t (tcp_seq tcp)"
      "length (tcp_payload tcp) \<le> 65535" "mss_option tcp \<noteq> Some 0"
    and "length syn \<le> rt_buf_len self" "addressed (rs_stack (rt_state self)) ep syn tcp'"
      "flag_has (tcp_flags_of tcp') SYN" "\<not> flag_has (tcp_flags_of tcp') ACK" "\<not> flag_has (tcp_flags_of tcp') RST"
      "mss_option tcp' \<noteq> Some 0"
  shows "\<exists>self1 self2 t2. turn (mock :: (mock_device, 'e) device) ov poll now self = Some (Inr (), self1)
    \<and> connection (rt_state self1) ep = None \<and> ep \<in> rs_announced (rt_state self1)
    \<and> turn (mock :: (mock_device, 'e) device) ov poll now' (self1\<lparr>rt_device := inject (rt_device self1) syn\<rparr>) = Some (Inr (), self2)
    \<and> connection (rt_state self2) ep = Some t2 \<and> t_state t2 = SynReceived
    \<and> rs_accept_waker (rt_state self2) = rs_accept_waker (rt_state self)
    \<and> (\<forall>t3 woken w. let s = (rt_state self2)\<lparr>rs_stack := (rs_stack (rt_state self2))\<lparr>st_conns := [(ep, t3)]\<rparr>\<rparr>
         in dispatch_wakeups s woken = (s, woken) \<and> fst (poll_accept s w) = Pending)"
proof -
  obtain self1 where one: "turn (mock :: (mock_device, 'e) device) ov poll now self = Some (Inr (), self1)"
    "rt_state self1 = (rt_state self)\<lparr>rs_now := now, rs_stack := (rs_stack (rt_state self))\<lparr>st_pending := [], st_conns := []\<rparr>\<rparr>"
    "mk_inbound (rt_device self1) = []" "ex_woken (rt_exec self1) = []" "rt_buf_len self1 = rt_buf_len self"
    using reset_turn[OF assms(1-20), of poll now] by blast
  let ?next = "self1\<lparr>rt_device := inject (rt_device self1) syn\<rparr>"
  have "st_local (rs_stack (rt_state ?next)) = st_local (rs_stack (rt_state self))" using one(2) by simp
  from addressed_local[OF this] have to: "addressed (rs_stack (rt_state ?next)) ep syn tcp'" using assms(22) by simp
  have n: "stack_inv ov m (rs_stack (rt_state ?next))" "st_conns (rs_stack (rt_state ?next)) = []" "rs_announced (rt_state ?next) = {ep}" "rs_accept_queue (rt_state ?next) = []"
    "rs_read_wakers (rt_state ?next) = []" "rs_write_wakers (rt_state ?next) = []" "rs_connect_wakers (rt_state ?next) = []"
    "ex_woken (rt_exec ?next) = []" "mk_inbound (rt_device ?next) = [syn]" "length syn \<le> rt_buf_len ?next"
    using assms(1,7-11,21) one(2-5) by (simp_all add: reactor_inv_def stack_inv_def inject_def)
  obtain self2 t2 where two: "turn (mock :: (mock_device, 'e) device) ov poll now' ?next = Some (Inr (), self2)" "t_state t2 = SynReceived"
    "rt_state self2 = (rt_state ?next)\<lparr>rs_now := now', rs_stack := (rs_stack (rt_state ?next))\<lparr>st_pending := [], st_conns := [(ep, t2)]\<rparr>\<rparr>"
    using reopen_turn[OF n(1) assms(2) n(2-8) n(9,10) to assms(23-26), of poll now'] by blast
  have "dispatch_wakeups s woken = (s, woken) \<and> fst (poll_accept s w) = Pending"
    if s: "s = (rt_state self2)\<lparr>rs_stack := (rs_stack (rt_state self2))\<lparr>st_conns := [(ep, t3)]\<rparr>\<rparr>" for s t3 woken w
  proof -
    have q: "st_conns (rs_stack s) = [(ep, t3)]" "rs_announced s = {ep}" "rs_accept_queue s = []"
      "rs_read_wakers s = []" "rs_write_wakers s = []" "rs_connect_wakers s = []" using s two(3) n(3-7) by simp_all
    show ?thesis using dispatch_announced[OF q] q(3) by (simp add: poll_accept_def)
  qed
  moreover have "connection (rt_state self1) ep = None" "ep \<in> rs_announced (rt_state self1)"
    "connection (rt_state self2) ep = Some t2" "rs_accept_waker (rt_state self2) = rs_accept_waker (rt_state self)"
    using one(2) two(3) assms(7) by (simp_all add: connection_def)
  ultimately show ?thesis using one(1) two(1,2) unfolding Let_def by blast
qed

text \<open>The sample server: one established connection, accepted, and its peer's RST and SYN.\<close>

definition sample_reset :: bytes where
  "sample_reset = [192, 0, 0, 80, 0, 0, 3, 235, 0, 0, 0, 0, 0x50, 0x04, 0, 0, 0, 0, 0, 0]"

definition sample_reset_datagram :: bytes where
  "sample_reset_datagram = [0x45, 0, 0, 40, 0, 0, 0, 0, 64, 6, 0, 0, 10, 0, 0, 2, 10, 0, 0, 1] @ sample_reset"

definition sample_server :: "(mock_device, http_task) runtime" where
  "sample_server = \<lparr>rt_device = inject mock_new sample_reset_datagram,
     rt_state = sample_reactor\<lparr>rs_announced := {sample_peer}, rs_accept_waker := Some 3\<rparr>, rt_exec = exec_new,
     rt_buf_len = 1564, rt_tx = []\<rparr>"

lemma sample_reset_fields:
  "tcp_seq sample_reset = 1003" "tcp_options sample_reset = []" "tcp_payload sample_reset = []" "flag_has (tcp_flags_of sample_reset) RST"
  by (simp_all add: sample_reset_def tcp_seq_def u32_from_be_def tcp_options_def data_offset_def TCP_MIN_HEADER_LEN_def
      tcp_payload_def tcp_flags_of_def flag_has_def RST_def)

lemma sample_addressed:
  "addressed (rs_stack (rt_state sample_server)) sample_peer sample_reset_datagram sample_reset"
  "addressed (rs_stack (rt_state sample_server)) sample_peer sample_datagram sample_syn"
  by (simp_all add: addressed_def sample_server_def sample_reactor_def stack_new_def sample_peer_def endpoint_new_def
      sample_datagram_fields sample_syn_parses)
    (simp_all add: sample_reset_datagram_def sample_reset_def sample_datagram_def sample_syn_def ip_new_checked_def ip_version_def
      ip_header_len_def ip_total_len_def is_fragment_def u16_from_be_def IPV4_MIN_HEADER_LEN_def IPV4_MAX_HEADER_LEN_def Let_def
      ip_protocol_def IPPROTO_TCP_def ip_dst_def ip_src_def u32_from_be_def ip_payload_def tcp_new_checked_def data_offset_def
      TCP_MIN_HEADER_LEN_def TCP_MAX_HEADER_LEN_def tcp_checksum_field_def tcp_src_port_def tcp_dst_port_def)

theorem recycled_endpoint_not_offered_witness:
  "\<exists>self1 self2. turn (mock :: (mock_device, unit) device) no_overrides http_poller 5 sample_server = Some (Inr (), self1)
    \<and> turn (mock :: (mock_device, unit) device) no_overrides http_poller 9
        (self1\<lparr>rt_device := inject (rt_device self1) sample_datagram\<rparr>) = Some (Inr (), self2)
    \<and> connection (rt_state self2) sample_peer \<noteq> None \<and> rs_accept_waker (rt_state self2) = Some 3"
proof -
  have i: "reactor_inv no_overrides 0 (rt_state sample_server)"
    using sample_reactor_inv by (simp add: sample_server_def reactor_inv_def wakers_ok_def sample_reactor_def reactor_new_def)
  have f: "st_conns (rs_stack (rt_state sample_server)) = [(sample_peer, sample_established)]"
    "rs_announced (rt_state sample_server) = {sample_peer}" "rs_accept_queue (rt_state sample_server) = []"
    "rs_read_wakers (rt_state sample_server) = []" "rs_write_wakers (rt_state sample_server) = []"
    "rs_connect_wakers (rt_state sample_server) = []" "ex_woken (rt_exec sample_server) = []"
    "mk_inbound (rt_device sample_server) = [sample_reset_datagram]" "rs_accept_waker (rt_state sample_server) = Some 3"
    "ep_port (st_local (rs_stack (rt_state sample_server))) = 80"
    by (simp_all add: sample_server_def sample_reactor_def reactor_new_def stack_new_def exec_new_def inject_def mock_new_def endpoint_new_def)
  have l: "length sample_reset_datagram \<le> rt_buf_len sample_server" "length sample_datagram \<le> rt_buf_len sample_server"
    by (simp_all add: sample_server_def sample_reset_datagram_def sample_reset_def sample_datagram_def sample_syn_def)
  have t: "ep_port (t_local sample_established) = 80"
    using no_options[OF sample_syn_fields(2)]
    by (simp add: sample_established_def sample_answered_def sample_passive_def new_syn_received_def start_rtx_def Let_def endpoint_new_def)
  have w: "tcp_seq sample_reset = t_rcv_nxt sample_established" "seq_in_window sample_established (tcp_seq sample_reset)"
    by (simp_all add: sample_reset_fields sample_established_def seq_in_window_def sample_answered_fields seq_ge_def seq_lt_def distance_def)
  have s: "flag_has (tcp_flags_of sample_syn) SYN" "\<not> flag_has (tcp_flags_of sample_syn) ACK" "\<not> flag_has (tcp_flags_of sample_syn) RST"
    by (simp_all add: sample_syn_parses flag_has_def SYN_def ACK_def RST_def)
  have o: "mss_option sample_reset \<noteq> Some 0" "mss_option sample_syn \<noteq> Some 0" "length (tcp_payload sample_reset) \<le> 65535"
    using no_options[OF sample_reset_fields(2)] no_options[OF sample_syn_fields(2)] sample_reset_fields(3) by simp_all
  have u: "(0::nat) < U32_MAX" by (simp add: U32_MAX_def)
  have e: "ep_port (t_local sample_established) = ep_port (st_local (rs_stack (rt_state sample_server)))" using t f(10) by simp
  from recycled_endpoint_not_offered[where 'e = unit, OF i no_overrides_ok u f(1) sample_not_reset(2) e f(2-8) l(1) sample_addressed(1)
      sample_reset_fields(4) w o(3,1) l(2) sample_addressed(2) s o(2), of http_poller 5 9]
  show ?thesis unfolding f(9) by (elim exE conjE) (intro exI conjI, assumption+, simp_all)
qed

end
