(* ===== verification/Bmc.thy ===== *)
theory Bmc
  imports Prelude
begin

text \<open>
  \<open>bmc.rs\<close>, the bounded model checker: its report and what an exhaustive sweep means.
  A sweep visits every sequence of operations up to a depth, depth first, and reports the verdict
  of an invariant after each operation. The two explorers of the source share this shape, which
  is the contract \<open>sweep\<close>. A violation is a value of the type \<open>'e\<close>; the text the
  source formats from it is not modelled.
\<close>

section \<open>The report\<close>

record 'e bmc_report =
  bm_cases :: nat
  bm_violations :: nat
  bm_first :: "'e option"

definition bmc_report_new :: "'e bmc_report" where
  "bmc_report_new = \<lparr>bm_cases = 0, bm_violations = 0, bm_first = None\<rparr>"

definition bmc_check :: "'e bmc_report \<Rightarrow> 'e + unit \<Rightarrow> 'e bmc_report" where
  "bmc_check self result =
     (let self = self\<lparr>bm_cases := bm_cases self + 1\<rparr> in
      case result of
        Inl why \<Rightarrow> self\<lparr>bm_violations := bm_violations self + 1,
           bm_first := (if bm_first self = None then Some why else bm_first self)\<rparr>
      | Inr _ \<Rightarrow> self)"

text \<open>A \<open>for\<close> loop whose body may not return.\<close>

fun fold_option :: "('a \<Rightarrow> 'b \<Rightarrow> 'b option) \<Rightarrow> 'a list \<Rightarrow> 'b \<Rightarrow> 'b option" where
  "fold_option f [] b = Some b"
| "fold_option f (x # xs) b = do { b \<leftarrow> f x b; fold_option f xs b }"

lemma fold_option_Some: "fold_option (\<lambda>x b. Some (f x b)) xs b = Some (fold f xs b)"
  by (induction xs arbitrary: b) simp_all

lemma fold_option_append: "fold_option f (xs @ ys) b = do { b \<leftarrow> fold_option f xs b; fold_option f ys b }"
  by (induction xs arbitrary: b) (auto split: bind_split)

lemma fold_option_cong [fundef_cong]:
  "xs = ys \<Longrightarrow> b = c \<Longrightarrow> (\<And>x b. x \<in> set ys \<Longrightarrow> f x b = g x b) \<Longrightarrow> fold_option f xs b = fold_option g ys c"
proof (induction xs arbitrary: ys b c)
  case Nil
  then show ?case by simp
next
  case (Cons x xs)
  then have "fold_option f xs = fold_option g xs" by (auto simp: fun_eq_iff)
  then show ?case using Cons.prems by auto
qed

lemma fold_option_map: "fold_option f (map g xs) = fold_option (\<lambda>x. f (g x)) xs"
proof (induction xs)
  case (Cons x xs)
  show ?case by (rule ext) (simp add: Cons)
qed (simp add: fun_eq_iff)

lemma fold_option_one: "x \<bind> fold_option f [] = x"
  by (cases x) simp_all

lemma fold_option_concat: "fold_option f (concat xss) = fold_option (fold_option f) xss"
  by (induction xss) (auto simp: fun_eq_iff fold_option_append)

lemma bmc_check_simps [simp]:
  "bm_cases (bmc_check r v) = Suc (bm_cases r)"
  "bm_violations (bmc_check r (Inl e)) = Suc (bm_violations r)"
  "bm_violations (bmc_check r (Inr u)) = bm_violations r"
  "bm_first (bmc_check r (Inl e)) = (if bm_first r = None then Some e else bm_first r)"
  "bm_first (bmc_check r (Inr u)) = bm_first r"
  by (simp_all add: bmc_check_def Let_def split: sum.split)

text \<open>A report that says what it has found: a violation is recorded exactly when one is counted.\<close>

definition report_ok :: "('e \<Rightarrow> bool) \<Rightarrow> 'e bmc_report \<Rightarrow> bool" where
  "report_ok bad r \<longleftrightarrow> (bm_first r = None \<longleftrightarrow> bm_violations r = 0) \<and> (\<forall>e. bm_first r = Some e \<longrightarrow> bad e)"

lemma report_ok_new: "report_ok bad bmc_report_new"
  by (simp add: report_ok_def bmc_report_new_def)

lemma report_ok_check: "report_ok bad r \<Longrightarrow> (\<And>e. v = Inl e \<Longrightarrow> bad e) \<Longrightarrow> report_ok bad (bmc_check r v)"
  by (cases v) (auto simp: report_ok_def)

lemma report_ok_clean: "report_ok (\<lambda>_. False) r \<Longrightarrow> bm_violations r = 0 \<and> bm_first r = None"
  by (cases "bm_first r") (auto simp: report_ok_def)

text \<open>The number of nonempty sequences of at most \<open>d\<close> of \<open>n\<close> operations.\<close>

fun tree_cases :: "nat \<Rightarrow> nat \<Rightarrow> nat" where
  "tree_cases n 0 = 0"
| "tree_cases n (Suc d) = n * Suc (tree_cases n d)"

lemma tree_cases_numeral [simp]: "tree_cases n (numeral k) = n * Suc (tree_cases n (pred_numeral k))"
  by (simp add: numeral_eq_Suc)

text \<open>The verdict after the last operation of a nonempty sequence.\<close>

fun path_verdict :: "('s \<Rightarrow> 'op \<Rightarrow> ('s \<times> ('e + unit)) option) \<Rightarrow> 's \<Rightarrow> 'op list \<Rightarrow> ('e + unit) option" where
  "path_verdict visit s [] = Some (Inr ())"
| "path_verdict visit s (op # p) =
     do { (s', v) \<leftarrow> visit s op; if p = [] then Some v else path_verdict visit s' p }"

section \<open>A sweep\<close>

locale sweep =
  fixes ops :: "'op list"
    and visit :: "'s \<Rightarrow> 'op \<Rightarrow> ('s \<times> ('e + unit)) option"
    and explore :: "nat \<Rightarrow> 's \<Rightarrow> 'e bmc_report \<Rightarrow> 'e bmc_report option"
  assumes explore_0: "explore 0 s r = Some r"
    and explore_Suc: "explore (Suc d) s r =
      fold_option (\<lambda>op r. do { (s', v) \<leftarrow> visit s op; explore d s' (bmc_check r v) }) ops r"
begin

text \<open>
  Soundness: with an invariant, indexed by the number of operations, whose steps return and
  break the checked property only in a \<open>bad\<close> way, the sweep returns, counts every sequence
  once and finds only \<open>bad\<close> violations.
\<close>

lemma explore_reports:
  assumes step: "\<And>k s op. k < n \<Longrightarrow> I k s \<Longrightarrow> op \<in> set ops \<Longrightarrow>
      \<exists>s' v. visit s op = Some (s', v) \<and> I (Suc k) s' \<and> (\<forall>e. v = Inl e \<longrightarrow> bad e)"
  shows "I k s \<Longrightarrow> k + d \<le> n \<Longrightarrow> report_ok bad r \<Longrightarrow>
    \<exists>r'. explore d s r = Some r' \<and> report_ok bad r' \<and> bm_cases r' = bm_cases r + tree_cases (length ops) d"
proof (induction d arbitrary: k s r)
  case 0
  then show ?case by (simp add: explore_0)
next
  case (Suc d)
  let ?f = "\<lambda>op r. do { (s', v) \<leftarrow> visit s op; explore d s' (bmc_check r v) }"
  have one: "\<exists>r'. ?f op r = Some r' \<and> report_ok bad r' \<and> bm_cases r' = bm_cases r + Suc (tree_cases (length ops) d)"
    if mem: "op \<in> set ops" and ok: "report_ok bad r" for op r
  proof -
    obtain s' v where v: "visit s op = Some (s', v)" "I (Suc k) s'" "\<forall>e. v = Inl e \<longrightarrow> bad e"
      using step[OF _ Suc.prems(1) mem] Suc.prems(2) by auto
    have "report_ok bad (bmc_check r v)" using report_ok_check[OF ok] v(3) by blast
    then show ?thesis using Suc.IH[OF v(2), of "bmc_check r v"] Suc.prems(2) v(1) by auto
  qed
  have "\<exists>r'. fold_option ?f xs r = Some r' \<and> report_ok bad r'
      \<and> bm_cases r' = bm_cases r + length xs * Suc (tree_cases (length ops) d)"
    if "set xs \<subseteq> set ops" "report_ok bad r" for xs r
    using that
  proof (induction xs arbitrary: r)
    case Nil
    then show ?case by simp
  next
    case (Cons x xs)
    obtain r1 where "?f x r = Some r1" "report_ok bad r1" "bm_cases r1 = bm_cases r + Suc (tree_cases (length ops) d)"
      using one[of x r] Cons.prems by auto
    then show ?case using Cons.IH[of r1] Cons.prems(1) by auto
  qed
  from this[OF subset_refl Suc.prems(3)] show ?case by (simp add: explore_Suc)
qed

corollary explore_clean:
  assumes "\<And>s op. I s \<Longrightarrow> op \<in> set ops \<Longrightarrow> \<exists>s'. visit s op = Some (s', Inr ()) \<and> I s'" and "I s"
  shows "\<exists>r. explore d s bmc_report_new = Some r \<and> bm_violations r = 0 \<and> bm_first r = None
    \<and> bm_cases r = tree_cases (length ops) d"
proof -
  have "\<exists>r. explore d s bmc_report_new = Some r \<and> report_ok (\<lambda>_. False) r
      \<and> bm_cases r = bm_cases (bmc_report_new :: 'e bmc_report) + tree_cases (length ops) d"
    by (rule explore_reports[where I = "\<lambda>_. I" and k = 0 and n = d])
      (use assms report_ok_new in \<open>fastforce+\<close>)
  then show ?thesis using report_ok_clean by (fastforce simp: bmc_report_new_def)
qed

text \<open>Completeness: a sweep that returns has counted a violation unless every sequence is fine.\<close>

lemma explore_exhaustive:
  assumes "explore d s r = Some r'"
  shows "bm_violations r \<le> bm_violations r'
    \<and> (bm_violations r' = bm_violations r \<longleftrightarrow>
        (\<forall>p. length p \<le> d \<longrightarrow> set p \<subseteq> set ops \<longrightarrow> path_verdict visit s p = Some (Inr ())))"
  using assms
proof (induction d arbitrary: s r r')
  case 0
  then show ?case by (simp add: explore_0)
next
  case (Suc d)
  let ?f = "\<lambda>op r. do { (s', v) \<leftarrow> visit s op; explore d s' (bmc_check r v) }"
  define fine where "fine = (\<lambda>op. \<forall>p. length p \<le> d \<longrightarrow> set p \<subseteq> set ops \<longrightarrow> path_verdict visit s (op # p) = Some (Inr ()))"
  have one: "bm_violations r \<le> bm_violations r1 \<and> (bm_violations r1 = bm_violations r \<longleftrightarrow> fine op)"
    if run: "?f op r = Some r1" for op r r1
  proof -
    obtain s' v where v: "visit s op = Some (s', v)" "explore d s' (bmc_check r v) = Some r1"
      using run by (auto simp: bind_eq_Some_conv)
    note ih = Suc.IH[OF v(2)]
    have fine: "fine op \<longleftrightarrow> v = Inr () \<and> (\<forall>p. length p \<le> d \<longrightarrow> set p \<subseteq> set ops \<longrightarrow> path_verdict visit s' p = Some (Inr ()))"
    proof
      assume f: "fine op"
      then have "path_verdict visit s [op] = Some (Inr ())" unfolding fine_def by (metis empty_subsetI le0 list.size(3) set_empty)
      then have "v = Inr ()" using v(1) by simp
      moreover have "path_verdict visit s' p = Some (Inr ())" if "length p \<le> d" "set p \<subseteq> set ops" for p
        using f that v(1) by (cases "p = []") (auto simp: fine_def)
      ultimately show "v = Inr () \<and> (\<forall>p. length p \<le> d \<longrightarrow> set p \<subseteq> set ops \<longrightarrow> path_verdict visit s' p = Some (Inr ()))" by blast
    qed (use v(1) in \<open>auto simp: fine_def\<close>)
    show ?thesis using ih fine by (cases v) auto
  qed
  have all: "bm_violations r \<le> bm_violations r' \<and> (bm_violations r' = bm_violations r \<longleftrightarrow> (\<forall>op \<in> set xs. fine op))"
    if "fold_option ?f xs r = Some r'" for xs r r'
    using that
  proof (induction xs arbitrary: r)
    case Nil
    then show ?case by simp
  next
    case (Cons x xs)
    obtain r1 where r1: "?f x r = Some r1" "fold_option ?f xs r1 = Some r'"
      using Cons.prems unfolding fold_option.simps by (meson bind_Some_iff[THEN iffD1])
    show ?case using one[OF r1(1)] Cons.IH[OF r1(2)] by auto
  qed
  have "(\<forall>op \<in> set ops. fine op)
      \<longleftrightarrow> (\<forall>p. length p \<le> Suc d \<longrightarrow> set p \<subseteq> set ops \<longrightarrow> path_verdict visit s p = Some (Inr ()))"
  proof (intro iffI allI impI ballI)
    fix p assume "\<forall>op \<in> set ops. fine op" "length p \<le> Suc d" "set p \<subseteq> set ops"
    then show "path_verdict visit s p = Some (Inr ())" by (cases p) (auto simp: fine_def simp del: path_verdict.simps(2))
  next
    fix op assume h: "\<forall>p. length p \<le> Suc d \<longrightarrow> set p \<subseteq> set ops \<longrightarrow> path_verdict visit s p = Some (Inr ())" "op \<in> set ops"
    show "fine op" unfolding fine_def
    proof (intro allI impI)
      fix p assume "length p \<le> d" "set p \<subseteq> set ops"
      then show "path_verdict visit s (op # p) = Some (Inr ())" using h(1)[rule_format, of "op # p"] h(2) by simp
    qed
  qed
  then show ?case using all[of ops r r'] Suc.prems by (simp add: explore_Suc)
qed

end

end
