(* ===== verification/Bmc_Scoreboard.thy ===== *)
theory Bmc_Scoreboard
  imports Bmc Sack_Recovery
begin

text \<open>
  \<open>bmc.rs\<close>, the sweep of the SACK scoreboard: the alphabet of operations over a window, the
  checked invariants, the explorer, and the two runs, at base 0 and across the wrap. The sweep is
  proved clean for every window below \<open>2\<^sup>3\<^sup>1\<close> and every depth.
\<close>

datatype sb_op =
    Op_Update seqnum seqnum
  | Op_Rexmit seqnum seqnum
  | Op_Trim seqnum
  | Op_Begin seqnum
  | Op_Exit
  | Op_Rto

definition scoreboard_alphabet :: "seqnum \<Rightarrow> nat \<Rightarrow> seqnum \<Rightarrow> sb_op list" where
  "scoreboard_alphabet base n nxt =
     concat (map (\<lambda>i. concat (map (\<lambda>j.
        [Op_Update (seq_add base i) (seq_add base j), Op_Rexmit (seq_add base i) (seq_add base j)])
        [0..<Suc n])) [0..<Suc n])
     @ map (\<lambda>t. Op_Trim (seq_add base t)) [0..<Suc n]
     @ [Op_Begin nxt, Op_Exit, Op_Rto]"

fun apply_op :: "scoreboard \<Rightarrow> sb_op \<Rightarrow> seqnum \<Rightarrow> seqnum \<Rightarrow> scoreboard \<times> seqnum" where
  "apply_op sb (Op_Update l r) una nxt = (sb_update sb una nxt [(l, r)], una)"
| "apply_op sb (Op_Rexmit l r) una nxt = (mark_rexmit sb l r, una)"
| "apply_op sb (Op_Trim t) una nxt =
     (let una = (if seq_gt t una \<and> seq_le t nxt then t else una) in (sb_trim sb una, una))"
| "apply_op sb (Op_Begin rp) una nxt = (begin_recovery sb rp, una)"
| "apply_op sb Op_Exit una nxt = (exit_recovery sb, una)"
| "apply_op sb Op_Rto una nxt = (sb_on_rto sb, una)"

text \<open>The four messages of \<open>scoreboard_invariants\<close>, with the values they print.\<close>

datatype sb_violation =
    Runs_Malformed
  | Pipe_Exceeds nat nat seqnum seqnum
  | Next_Outside seqnum seqnum seqnum
  | Next_Taken seqnum

type_synonym sb_invariant = "scoreboard \<Rightarrow> seqnum \<Rightarrow> seqnum \<Rightarrow> nat \<Rightarrow> sb_violation + unit"

definition scoreboard_invariants :: sb_invariant where
  "scoreboard_invariants sb una nxt smss =
     (if \<not> invariants_hold sb then Inl Runs_Malformed
      else let inflight = offset_from nxt una; pipe = sb_pipe sb una nxt smss in
        if inflight < pipe then Inl (Pipe_Exceeds pipe inflight una nxt)
        else case next_seg sb una nxt smss of
               Some (s, _) \<Rightarrow>
                 if \<not> (seq_ge s una \<and> seq_lt s nxt) then Inl (Next_Outside s una nxt)
                 else if is_sacked sb s \<or> is_rexmit sb s then Inl (Next_Taken s)
                 else Inr ()
             | None \<Rightarrow> Inr ())"

record sb_sweep =
  sw_alphabet :: "sb_op list"
  sw_nxt :: seqnum
  sw_smss :: nat
  sw_inv :: sb_invariant

fun explore :: "sb_sweep \<Rightarrow> nat \<Rightarrow> scoreboard \<Rightarrow> seqnum \<Rightarrow> sb_violation bmc_report \<Rightarrow> sb_violation bmc_report" where
  "explore ctx 0 sb una report = report"
| "explore ctx (Suc depth) sb una report =
     fold (\<lambda>op report.
        case apply_op sb op una (sw_nxt ctx) of (next_sb, next_una) \<Rightarrow>
          explore ctx depth next_sb next_una
            (bmc_check report (sw_inv ctx next_sb next_una (sw_nxt ctx) (sw_smss ctx))))
       (sw_alphabet ctx) report"

definition run_scoreboard_sweep :: "nat \<Rightarrow> nat \<Rightarrow> nat \<Rightarrow> sb_invariant \<Rightarrow> sb_violation bmc_report" where
  "run_scoreboard_sweep n depth smss invar =
     fold (\<lambda>base report.
        let nxt = seq_add base n;
            ctx = \<lparr>sw_alphabet = scoreboard_alphabet base n nxt, sw_nxt = nxt, sw_smss = smss, sw_inv = invar\<rparr>
        in explore ctx depth scoreboard_new base report)
       [0, 0xFFFFFFFF - word_of_nat n] bmc_report_new"

definition check_scoreboard :: "nat \<Rightarrow> nat \<Rightarrow> nat \<Rightarrow> sb_violation bmc_report" where
  "check_scoreboard n depth smss = run_scoreboard_sweep n depth smss scoreboard_invariants"

section \<open>The explorer is a sweep\<close>

definition sb_visit :: "sb_sweep \<Rightarrow> scoreboard \<times> seqnum \<Rightarrow> sb_op \<Rightarrow> ((scoreboard \<times> seqnum) \<times> (sb_violation + unit)) option" where
  "sb_visit ctx s op =
     (case apply_op (fst s) op (snd s) (sw_nxt ctx) of (sb, una) \<Rightarrow>
        Some ((sb, una), sw_inv ctx sb una (sw_nxt ctx) (sw_smss ctx)))"

interpretation sb_sweep: sweep "sw_alphabet ctx" "sb_visit ctx" "\<lambda>d s r. Some (explore ctx d (fst s) (snd s) r)" for ctx
proof
  fix d :: nat and s :: "scoreboard \<times> seqnum" and r
  show "Some (explore ctx 0 (fst s) (snd s) r) = Some r" by simp
  have "(\<lambda>op r. do { (s', v) \<leftarrow> sb_visit ctx s op; Some (explore ctx d (fst s') (snd s') (bmc_check r v)) })
      = (\<lambda>op r. Some (case apply_op (fst s) op (snd s) (sw_nxt ctx) of (sb, una) \<Rightarrow>
          explore ctx d sb una (bmc_check r (sw_inv ctx sb una (sw_nxt ctx) (sw_smss ctx)))))"
    by (auto simp: fun_eq_iff sb_visit_def split: prod.split)
  then show "Some (explore ctx (Suc d) (fst s) (snd s) r)
      = fold_option (\<lambda>op r. do { (s', v) \<leftarrow> sb_visit ctx s op; Some (explore ctx d (fst s') (snd s') (bmc_check r v)) })
          (sw_alphabet ctx) r"
    by (simp add: fold_option_Some)
qed

section \<open>The invariant of the swept states\<close>

text \<open>
  The runs stay well formed relative to the base of the window, also those a retransmission mark
  puts below the cumulative acknowledgement.
\<close>

definition swept :: "seqnum \<Rightarrow> nat \<Rightarrow> scoreboard \<times> seqnum \<Rightarrow> bool" where
  "swept base n s \<longleftrightarrow> sb_inv base (seq_add base n) (fst s) \<and> offset_from (snd s) base \<le> n"

lemma offset_from_seq_add: "k < 4294967296 \<Longrightarrow> offset_from (seq_add base k) base = k"
  using offset_from_add[of base base k] by simp

text \<open>A block between window points is clipped to the acknowledgement and inserted, or ignored.\<close>

lemma update_block_based:
  assumes "wf_runs base 0 runs" and "edges_below base n runs" and "n < 2147483648"
    and "offset_from una base \<le> n" and "offset_from l base \<le> n" and "offset_from r base \<le> n"
  shows "wf_runs base 0 (update_block una nxt runs (l, r)) \<and> edges_below base n (update_block una nxt runs (l, r))"
proof -
  have w: "offset_from una base < 2147483648" "offset_from l base < 2147483648" "offset_from r base < 2147483648"
    using assms by linarith+
  have ins: "wf_runs base 0 (insert_run runs l' r) \<and> edges_below base n (insert_run runs l' r)"
    if "offset_from l' base < offset_from r base" for l'
  proof -
    have i: "wf_runs base 0 (insert_run runs l' r)"
      "runs_set base (insert_run runs l' r) = {offset_from l' base ..< offset_from r base} \<union> runs_set base runs"
      using insert_run_wf[OF assms(1) _ that w(3)] by simp_all
    moreover have "runs_set base runs \<subseteq> {..<n}" using edges_below_runs_set[OF assms(1)] assms(2) by blast
    ultimately show ?thesis using edges_below_runs_set[OF i(1)] assms(6) by auto
  qed
  show ?thesis
    using ins assms(1,2) w unfolding update_block_def Let_def
    by (auto simp: seq_window[where b = base])
qed

lemma trim_runs_based:
  assumes "wf_runs base lo runs" and "edges_below base n runs" and "offset_from una base < 2147483648"
  shows "wf_runs base lo (trim_runs runs una) \<and> edges_below base n (trim_runs runs una)"
  using assms(1,2)
proof (induction runs arbitrary: lo)
  case Nil
  then show ?case by (simp add: trim_runs_def)
next
  case (Cons x runs)
  obtain l r where x: "x = (l, r)" by fastforce
  have w: "lo \<le> offset_from l base" "offset_from l base < offset_from r base"
    "offset_from r base < 2147483648" "wf_runs base (Suc (offset_from r base)) runs"
    "edges_below base n runs" "offset_from r base \<le> n"
    using Cons.prems x by auto
  have "wf_runs base lo (trim_runs runs una)" "edges_below base n (trim_runs runs una)"
    "wf_runs base (Suc (offset_from r base)) (trim_runs runs una)"
    using Cons.IH[OF w(4,5)] w(1,2) by (auto intro: wf_runs_mono)
  then show ?case
    using w assms(3) trim_runs_Cons[OF assms(3), of l r runs] by (auto simp: x)
qed

lemma mark_rexmit_based:
  assumes "sb_inv base nxt sb" and "offset_from l base \<le> offset_from nxt base" and "offset_from r base \<le> offset_from nxt base"
  shows "sb_inv base nxt (mark_rexmit sb l r)"
proof (cases "offset_from l base < offset_from r base")
  case True
  then show ?thesis using mark_rexmit_inv(1)[OF assms(1) True assms(3)] by simp
next
  case False
  have "offset_from nxt base < 2147483648" using assms(1) by (simp add: sb_inv_def)
  then have "\<not> seq_lt l r" using False assms by (simp add: seq_window[where b = base])
  then show ?thesis using assms(1) by (simp add: mark_rexmit_def)
qed

lemma alphabet_points:
  assumes "op \<in> set (scoreboard_alphabet base n nxt)"
  shows "(\<exists>i \<le> n. \<exists>j \<le> n. op = Op_Update (seq_add base i) (seq_add base j) \<or> op = Op_Rexmit (seq_add base i) (seq_add base j))
    \<or> (\<exists>t \<le> n. op = Op_Trim (seq_add base t)) \<or> op \<in> {Op_Begin nxt, Op_Exit, Op_Rto}"
  using assms by (auto simp: scoreboard_alphabet_def less_Suc_eq_le simp del: upt_Suc; blast)

lemma apply_op_swept:
  assumes s: "swept base n (sb, una)" and n: "n < 2147483648" and "op \<in> set (scoreboard_alphabet base n nxt)"
    and nxt: "nxt = seq_add base n"
  shows "swept base n (apply_op sb op una nxt)"
proof -
  have i: "sb_inv base nxt sb" "offset_from una base \<le> n" using s by (simp_all add: swept_def nxt)
  have o: "offset_from nxt base = n" using n by (simp add: nxt offset_from_seq_add)
  have wf: "wf_runs base 0 (sacked sb)" "edges_below base n (sacked sb)" "wf_runs base 0 (rexmit sb)"
    "edges_below base n (rexmit sb)" "length (sacked sb) \<le> MAX_RUNS"
    using i(1) o by (simp_all add: sb_inv_def)
  have point: "offset_from (seq_add base k) base \<le> n" if "k \<le> n" for k
    using that n by (simp add: offset_from_seq_add)
  consider (update) j k where "j \<le> n" "k \<le> n" "op = Op_Update (seq_add base j) (seq_add base k)"
    | (rexmit) j k where "j \<le> n" "k \<le> n" "op = Op_Rexmit (seq_add base j) (seq_add base k)"
    | (trim) t where "t \<le> n" "op = Op_Trim (seq_add base t)"
    | (episode) "op \<in> {Op_Begin nxt, Op_Exit, Op_Rto}"
    using alphabet_points[OF assms(3)] by blast
  then show ?thesis
  proof cases
    case update
    define b where "b = update_block una nxt (sacked sb) (seq_add base j, seq_add base k)"
    have u: "wf_runs base 0 b \<and> edges_below base n b"
      unfolding b_def by (rule update_block_based[OF wf(1,2) n i(2) point[OF update(1)] point[OF update(2)]])
    have "edges_below base n (take MAX_RUNS b)" using u by (auto simp: edges_below_def dest: in_set_takeD)
    then have "sb_inv base nxt (sb_update sb una nxt [(seq_add base j, seq_add base k)])"
      using u wf o n by (simp add: sb_inv_def sb_update_def wf_runs_take flip: b_def)
    then show ?thesis using i(2) update(3) by (simp add: swept_def nxt)
  next
    case rexmit
    have "sb_inv base nxt (mark_rexmit sb (seq_add base j) (seq_add base k))"
      using mark_rexmit_based[OF i(1)] point[OF rexmit(1)] point[OF rexmit(2)] o by simp
    then show ?thesis using i(2) rexmit(3) by (simp add: swept_def nxt)
  next
    case trim
    define u where "u = (if seq_gt (seq_add base t) una \<and> seq_le (seq_add base t) nxt then seq_add base t else una)"
    have u: "offset_from u base \<le> n" using i(2) point[OF trim(1)] by (simp add: u_def)
    then have "offset_from u base < 2147483648" using n by linarith
    note tr = trim_runs_based[OF wf(1,2) this] trim_runs_based[OF wf(3,4) this]
    have "length (trim_runs (sacked sb) u) \<le> MAX_RUNS"
      unfolding trim_runs_def length_map by (rule le_trans[OF length_filter_le wf(5)])
    then have "sb_inv base nxt (sb_trim sb u)" using tr o n by (simp add: sb_inv_def sb_trim_def)
    then show ?thesis using u trim(2) by (auto simp: swept_def nxt Let_def u_def split: if_splits)
  next
    case episode
    then show ?thesis using sb_inv_episode[OF i(1)] i(2) by (auto simp: swept_def nxt)
  qed
qed

section \<open>The invariants hold\<close>

lemma scan_spans_Some:
  assumes "sb_window base nxt sb" and "offset_from s base \<le> offset_from nxt base" and "scan_spans sb p nxt s = Some x"
  shows "offset_from s base \<le> offset_from x base \<and> offset_from x base < offset_from nxt base \<and> p x"
  using assms
proof (induction sb p nxt s rule: scan_spans.induct)
  case (1 sb p nxt s)
  have lt: "seq_lt s nxt \<longleftrightarrow> offset_from s base < offset_from nxt base"
    using 1(2,3) by (simp add: sb_window_def seq_window[where b = base])
  have less: "offset_from s base < offset_from nxt base" using 1(4) lt by (auto simp: scan_spans.simps split: if_splits)
  show ?case
  proof (cases "p s")
    case True
    then show ?thesis using 1(4) lt less by (auto simp: scan_spans.simps Let_def)
  next
    case False
    define e where "e = next_boundary sb s nxt"
    have e: "offset_from s base < offset_from e base" "offset_from e base \<le> offset_from nxt base"
      using next_boundary_least(1,2)[OF 1(2) less] by (simp_all add: e_def)
    have "scan_spans sb p nxt e = Some x" using 1(4) lt less False by (auto simp: scan_spans.simps Let_def e_def)
    from 1(1)[OF _ e_def False 1(2) e(2) this] show ?thesis using lt less e(1) by auto
  qed
qed

lemma next_seg_hole:
  assumes "sb_window base nxt sb" and "offset_from una base \<le> offset_from nxt base" and "next_seg sb una nxt smss = Some (s, b)"
  shows "offset_from una base \<le> offset_from s base \<and> offset_from s base < offset_from nxt base
    \<and> \<not> is_sacked sb s \<and> \<not> is_rexmit sb s"
  using assms(3) scan_spans_Some[OF assms(1,2)]
  by (auto simp: next_seg_def split: option.splits if_splits)

lemma pipe_le_inflight:
  assumes "sb_window base nxt sb" and "offset_from una base \<le> offset_from nxt base"
  shows "sb_pipe sb una nxt smss \<le> offset_from nxt una"
proof -
  have "offset_from nxt base < 2147483648" using assms(1) by (simp add: sb_window_def)
  then have "sb_pipe sb una nxt smss
      = card {k \<in> {offset_from una base ..< offset_from nxt base}. in_flight sb base smss k}"
    using pipe_loop_count[OF assms, of 0 smss] by (simp add: sb_pipe_def U32_MAX_def)
  also have "\<dots> \<le> card {offset_from una base ..< offset_from nxt base}" by (rule card_mono) auto
  also have "\<dots> = offset_from nxt una" using offset_rebase_forward[OF assms(2)] by simp
  finally show ?thesis .
qed

lemma swept_safe:
  assumes "swept base n (sb, una)" and "n < 2147483648" and nxt: "nxt = seq_add base n"
  shows "scoreboard_invariants sb una nxt smss = Inr ()"
proof -
  have i: "sb_inv base nxt sb" "offset_from una base \<le> offset_from nxt base"
    using assms by (simp_all add: swept_def offset_from_seq_add)
  note w = sb_inv_window[OF i(1)]
  have off: "offset_from nxt base < 2147483648" using w by (simp add: sb_window_def)
  have seg: "seq_ge s una \<and> seq_lt s nxt \<and> \<not> is_sacked sb s \<and> \<not> is_rexmit sb s"
    if "next_seg sb una nxt smss = Some (s, b)" for s b
    using next_seg_hole[OF w i(2) that] off i(2) by (simp add: seq_window[where b = base])
  show ?thesis
    using sb_inv_invariants_hold[OF i(1)] pipe_le_inflight[OF w i(2), of smss] seg
    by (auto simp: scoreboard_invariants_def Let_def split: option.split)
qed

lemma length_alphabet: "length (scoreboard_alphabet base n nxt) = 2 * Suc n * Suc n + Suc n + 3"
proof -
  have c: "length (concat (map (\<lambda>i. concat (map (\<lambda>j. [f i j, g i j]) ys)) xs)) = 2 * length xs * length ys"
    for f g :: "nat \<Rightarrow> nat \<Rightarrow> sb_op" and xs ys
    by (simp add: length_concat o_def sum_list_triv)
  show ?thesis unfolding scoreboard_alphabet_def length_append c by simp
qed

text \<open>
  C29: the scoreboard sweep finds nothing, for any window, any depth and any segment size. Over
  every window of fewer than \<open>2\<^sup>3\<^sup>1\<close> points, at base 0 and across the wrap of the sequence
  space, every sequence of SACK updates, retransmission marks (also empty, inverted and
  out-of-window ones), cumulative acknowledgements and recovery transitions keeps the run lists
  sorted, disjoint and nonempty, keeps the pipe within the bytes in flight and makes
  \<open>next_seg\<close> name an octet of the window that is neither SACKed nor retransmitted. The report
  counts every sequence of the alphabet once per base.
\<close>

theorem scoreboard_sweep_clean:
  assumes "n < 2147483648" and "2 * smss \<le> U32_MAX"
  shows "check_scoreboard n depth smss
    = \<lparr>bm_cases = 2 * tree_cases (2 * Suc n * Suc n + Suc n + 3) depth, bm_violations = 0, bm_first = None\<rparr>"
proof -
  define ctx where "ctx = (\<lambda>base. \<lparr>sw_alphabet = scoreboard_alphabet base n (seq_add base n), sw_nxt = seq_add base n,
    sw_smss = smss, sw_inv = scoreboard_invariants\<rparr>)"
  let ?c = "tree_cases (2 * Suc n * Suc n + Suc n + 3) depth"
  have step: "\<exists>s' v. sb_visit (ctx base) s op = Some (s', v) \<and> swept base n s' \<and> (\<forall>e. v = Inl e \<longrightarrow> False)"
    if "swept base n s" "op \<in> set (sw_alphabet (ctx base))" for base s op
  proof -
    obtain sb una where s: "s = (sb, una)" by fastforce
    obtain sb' una' where a: "apply_op sb op una (seq_add base n) = (sb', una')" by fastforce
    have "swept base n (sb', una')"
      using apply_op_swept[OF that(1)[unfolded s] assms(1) _ refl, of op] that(2) a by (simp add: ctx_def)
    then show ?thesis using swept_safe[OF _ assms(1) refl, of base sb' una' smss] a
      by (simp add: sb_visit_def s ctx_def)
  qed
  have new: "swept base n (scoreboard_new, base)" for base
    using sb_inv_new assms(1) by (simp add: swept_def offset_from_seq_add)
  have run: "report_ok (\<lambda>_. False) (explore (ctx base) depth scoreboard_new base r)
      \<and> bm_cases (explore (ctx base) depth scoreboard_new base r) = bm_cases r + ?c"
    if "report_ok (\<lambda>_. False) r" for base r
  proof -
    have "\<exists>r'. Some (explore (ctx base) depth (fst (scoreboard_new, base)) (snd (scoreboard_new, base)) r) = Some r'
        \<and> report_ok (\<lambda>_. False) r' \<and> bm_cases r' = bm_cases r + tree_cases (length (sw_alphabet (ctx base))) depth"
      by (rule sb_sweep.explore_reports[where I = "\<lambda>_. swept base n" and k = 0 and n = depth])
        (use step new that in auto)
    then show ?thesis by (simp add: ctx_def length_alphabet)
  qed
  define r where "r = check_scoreboard n depth smss"
  have "r = fold (\<lambda>base r. explore (ctx base) depth scoreboard_new base r) [0, 0xFFFFFFFF - word_of_nat n] bmc_report_new"
    by (simp add: r_def check_scoreboard_def run_scoreboard_sweep_def ctx_def Let_def)
  then have "report_ok (\<lambda>_. False) r \<and> bm_cases r = 2 * ?c"
    using run[OF report_ok_new] run by (simp add: bmc_report_new_def)
  then show ?thesis using report_ok_clean[of r] by (simp flip: r_def)
qed

text \<open>The sweep of the checker's own test, a window of four points to depth three.\<close>

theorem scoreboard_sweep_clean_witness: "bm_violations (check_scoreboard 4 3 1) = 0 \<and> bm_cases (check_scoreboard 4 3 1) = 397068"
  using scoreboard_sweep_clean[of 4 1 3] by (simp add: U32_MAX_def)

end
