(* ===== verification/Bmc_Controller.thy ===== *)
theory Bmc_Controller
  imports Bmc Congestion
begin

text \<open>
  \<open>bmc.rs\<close>, the sweep of the congestion controllers: the event alphabet, the safety
  envelope, the explorer and the sweep over the genome space of the learned controller. The
  generic parameter \<open>C: CongestionControl\<close> is a record of the trait's operations.
\<close>

section \<open>The trait as a record\<close>

record 'c controller =
  ct_cwnd :: "'c \<Rightarrow> nat"
  ct_ssthresh :: "'c \<Rightarrow> nat"
  ct_on_ack :: "'c \<Rightarrow> instant \<Rightarrow> nat \<Rightarrow> 'c option"
  ct_on_dup_ack :: "'c \<Rightarrow> instant \<Rightarrow> nat \<Rightarrow> bool \<times> 'c"
  ct_enter_recovery :: "'c \<Rightarrow> instant \<Rightarrow> nat \<Rightarrow> 'c"
  ct_on_rto :: "'c \<Rightarrow> instant \<Rightarrow> nat \<Rightarrow> 'c"
  ct_on_ecn :: "'c \<Rightarrow> instant \<Rightarrow> nat \<Rightarrow> nat \<Rightarrow> 'c"
  ct_on_rtt_sample :: "'c \<Rightarrow> nat \<Rightarrow> 'c"

definition cc_ctl :: "cc controller" where
  "cc_ctl = \<lparr>ct_cwnd = cc_cwnd, ct_ssthresh = cc_ssthresh, ct_on_ack = cc_on_ack, ct_on_dup_ack = cc_on_dup_ack,
     ct_enter_recovery = cc_enter_recovery, ct_on_rto = cc_on_rto, ct_on_ecn = cc_on_ecn,
     ct_on_rtt_sample = cc_on_rtt_sample\<rparr>"

definition learned_ctl :: "learned controller" where
  "learned_ctl = \<lparr>ct_cwnd = learned_cwnd, ct_ssthresh = learned_ssthresh, ct_on_ack = learned_on_ack,
     ct_on_dup_ack = learned_on_dup_ack, ct_enter_recovery = learned_enter_recovery, ct_on_rto = learned_on_rto,
     ct_on_ecn = learned_on_ecn, ct_on_rtt_sample = (\<lambda>c s. c)\<rparr>"

definition synth_ctl :: "synth controller" where
  "synth_ctl = \<lparr>ct_cwnd = synth_cwnd, ct_ssthresh = synth_ssthresh, ct_on_ack = synth_on_ack,
     ct_on_dup_ack = synth_on_dup_ack, ct_enter_recovery = synth_enter_recovery, ct_on_rto = synth_on_rto,
     ct_on_ecn = synth_on_ecn, ct_on_rtt_sample = synth_on_rtt_sample\<rparr>"

section \<open>Events\<close>

definition CC_NOW :: instant where "CC_NOW = 0"

datatype flight = Small | Window | Large

datatype bmc_event =
    B_Ack nat
  | B_Ecn nat nat
  | B_Rtt nat
  | B_Dup_Ack flight
  | B_Rto flight
  | B_Enter_Recovery flight

definition cc_alphabet :: "nat \<Rightarrow> bmc_event list" where
  "cc_alphabet mss =
     (let w = 10 * mss in
      [B_Ack 0, B_Ack mss, B_Ack w, B_Ecn w 0, B_Ecn w mss, B_Ecn w w, B_Rtt 1000, B_Rtt 200000,
       B_Dup_Ack Small, B_Dup_Ack Window, B_Dup_Ack Large, B_Rto Small, B_Rto Window, B_Rto Large,
       B_Enter_Recovery Small, B_Enter_Recovery Window, B_Enter_Recovery Large])"

fun flight_bytes :: "nat \<Rightarrow> flight \<Rightarrow> nat" where
  "flight_bytes mss Small = 2 * mss"
| "flight_bytes mss Window = 10 * mss"
| "flight_bytes mss Large = 40 * mss"

text \<open>\<open>None\<close> is an ACK whose window loop does not end.\<close>

fun apply_cc :: "'c controller \<Rightarrow> 'c \<Rightarrow> bmc_event \<Rightarrow> nat \<Rightarrow> ('c \<times> nat option) option" where
  "apply_cc ct c (B_Ack a) mss = do { c \<leftarrow> ct_on_ack ct c CC_NOW a; Some (c, None) }"
| "apply_cc ct c (B_Ecn a m) mss = Some (ct_on_ecn ct c CC_NOW a m, None)"
| "apply_cc ct c (B_Rtt s) mss = Some (ct_on_rtt_sample ct c s, None)"
| "apply_cc ct c (B_Dup_Ack fl) mss =
     (let f = flight_bytes mss fl in
      case ct_on_dup_ack ct c CC_NOW f of (engaged, c) \<Rightarrow> Some (c, if engaged then Some f else None))"
| "apply_cc ct c (B_Rto fl) mss =
     (let f = flight_bytes mss fl in Some (ct_on_rto ct c CC_NOW f, Some f))"
| "apply_cc ct c (B_Enter_Recovery fl) mss =
     (let f = flight_bytes mss fl in Some (ct_enter_recovery ct c CC_NOW f, Some f))"

section \<open>The safety envelope\<close>

datatype cc_violation =
    Starved nat nat
  | Loss_Inflated nat nat nat
  | Ssthresh_Low nat nat
  | Ecn_Grew nat nat
  | Ack_Shrank nat nat

fun is_ecn :: "bmc_event \<Rightarrow> bool" where
  "is_ecn (B_Ecn _ _) = True" | "is_ecn _ = False"

fun is_clean_ack :: "bmc_event \<Rightarrow> bool" where
  "is_clean_ack (B_Ack a) \<longleftrightarrow> 0 < a" | "is_clean_ack _ \<longleftrightarrow> False"

type_synonym cc_invariant = "bmc_event \<Rightarrow> nat \<Rightarrow> nat \<Rightarrow> nat \<Rightarrow> nat \<Rightarrow> nat option \<Rightarrow> cc_violation + unit"

definition cc_safety_invariants :: cc_invariant where
  "cc_safety_invariants ev cwnd_before cwnd ssthresh mss loss_flight =
     (if cwnd < mss then Inl (Starved cwnd mss)
      else case (case loss_flight of
                   Some flight \<Rightarrow>
                     if max flight (2 * mss) < cwnd then Inl (Loss_Inflated cwnd flight (2 * mss))
                     else if ssthresh < 2 * mss then Inl (Ssthresh_Low ssthresh (2 * mss))
                     else Inr ()
                 | None \<Rightarrow> Inr ()) of
             Inl why \<Rightarrow> Inl why
           | Inr _ \<Rightarrow>
               if is_ecn ev \<and> cwnd_before < cwnd then Inl (Ecn_Grew cwnd_before cwnd)
               else if is_clean_ack ev \<and> cwnd < cwnd_before then Inl (Ack_Shrank cwnd_before cwnd)
               else Inr ())"

section \<open>The sweep\<close>

fun explore_cc ::
  "bmc_event list \<Rightarrow> cc_invariant \<Rightarrow> nat \<Rightarrow> 'c controller \<Rightarrow> 'c \<Rightarrow> nat \<Rightarrow> cc_violation bmc_report \<Rightarrow> cc_violation bmc_report option" where
  "explore_cc alphabet invar mss ct c 0 report = Some report"
| "explore_cc alphabet invar mss ct c (Suc depth) report =
     fold_option (\<lambda>ev report. do {
         let cwnd_before = ct_cwnd ct c;
         (c', loss_flight) \<leftarrow> apply_cc ct c ev mss;
         explore_cc alphabet invar mss ct c' depth
           (bmc_check report (invar ev cwnd_before (ct_cwnd ct c') (ct_ssthresh ct c') mss loss_flight))
       }) alphabet report"

definition run_cc_sweep :: "'c controller \<Rightarrow> 'c \<Rightarrow> nat \<Rightarrow> nat \<Rightarrow> cc_invariant \<Rightarrow> cc_violation bmc_report option" where
  "run_cc_sweep ct c mss depth invar = explore_cc (cc_alphabet mss) invar mss ct c depth bmc_report_new"

definition check_controller_safety :: "'c controller \<Rightarrow> 'c \<Rightarrow> nat \<Rightarrow> nat \<Rightarrow> cc_violation bmc_report option" where
  "check_controller_safety ct c mss depth = run_cc_sweep ct c mss depth cc_safety_invariants"

text \<open>The genome space: every gain at the bottom, the middle and the top of its range.\<close>

definition grid :: "f64 \<Rightarrow> f64 \<Rightarrow> f64 list" where
  "grid lo hi = [lo, fdiv (fadd lo hi) f_two, hi]"

definition genome_grid :: "learned_params list" where
  "genome_grid = concat (map (\<lambda>ai. concat (map (\<lambda>md. concat (map (\<lambda>ea. concat (map (\<lambda>eb. map (\<lambda>em.
       \<lparr>ai_gain = ai, md_loss = md, ecn_a = ea, ecn_b = eb, ecn_max = em\<rparr>)
       (grid (f64_of (5 / 100)) (f64_of (95 / 100)))) (grid (f64_of (- 1)) (f64_of 2))))
       (grid (f64_of 0) (f64_of 2)))) (grid (f64_of (1 / 10)) (f64_of (95 / 100)))))
       (grid (f64_of (5 / 100)) (f64_of 8)))"

definition check_learned_genome_space :: "nat \<Rightarrow> nat \<Rightarrow> cc_violation bmc_report option" where
  "check_learned_genome_space mss depth =
     fold_option (\<lambda>p report. do {
         sub \<leftarrow> check_controller_safety learned_ctl (learned_with_params (word_of_nat mss) p) mss depth;
         Some (report\<lparr>bm_cases := bm_cases report + bm_cases sub,
           bm_violations := bm_violations report + bm_violations sub,
           bm_first := (if bm_first report = None then bm_first sub else bm_first report)\<rparr>)
       }) genome_grid bmc_report_new"

section \<open>The explorer is a sweep\<close>

definition cc_visit :: "cc_invariant \<Rightarrow> nat \<Rightarrow> 'c controller \<Rightarrow> 'c \<Rightarrow> bmc_event \<Rightarrow> ('c \<times> (cc_violation + unit)) option" where
  "cc_visit invar mss ct c ev =
     do { (c', fl) \<leftarrow> apply_cc ct c ev mss; Some (c', invar ev (ct_cwnd ct c) (ct_cwnd ct c') (ct_ssthresh ct c') mss fl) }"

interpretation cc_sweep: sweep alphabet "cc_visit invar mss ct" "\<lambda>d c. explore_cc alphabet invar mss ct c d"
  for alphabet invar mss ct
proof
  fix d c r
  show "explore_cc alphabet invar mss ct c 0 r = Some r" by simp
  have "(\<lambda>ev r. do { (c', v) \<leftarrow> cc_visit invar mss ct c ev; explore_cc alphabet invar mss ct c' d (bmc_check r v) })
      = (\<lambda>ev r. do { let cwnd_before = ct_cwnd ct c; (c', fl) \<leftarrow> apply_cc ct c ev mss;
          explore_cc alphabet invar mss ct c' d (bmc_check r (invar ev cwnd_before (ct_cwnd ct c') (ct_ssthresh ct c') mss fl)) })"
    by (auto simp: fun_eq_iff cc_visit_def Let_def split: bind_split)
  then show "explore_cc alphabet invar mss ct c (Suc d) r
      = fold_option (\<lambda>ev r. do { (c', v) \<leftarrow> cc_visit invar mss ct c ev; explore_cc alphabet invar mss ct c' d (bmc_check r v) }) alphabet r"
    by simp
qed

lemma length_cc_alphabet [simp]: "length (cc_alphabet mss) = 17"
  by (simp add: cc_alphabet_def Let_def)

text \<open>The arguments of the events of the alphabet are \<open>u32\<close> values.\<close>

lemma flight_bytes_u32: "mss \<le> 65535 \<Longrightarrow> flight_bytes mss fl \<le> U32_MAX"
  by (cases fl) (simp_all add: U32_MAX_def)

lemma alphabet_rtt: "B_Rtt s \<in> set (cc_alphabet mss) \<Longrightarrow> s \<le> U32_MAX"
  by (auto simp: cc_alphabet_def Let_def U32_MAX_def)

lemma cc_safety_ok:
  assumes "mss \<le> cwnd" and "\<And>fl. loss = Some fl \<Longrightarrow> cwnd \<le> max fl (2 * mss) \<and> 2 * mss \<le> ssthresh"
    and "is_ecn ev \<Longrightarrow> cwnd \<le> before" and "is_clean_ack ev \<Longrightarrow> before \<le> cwnd"
  shows "cc_safety_invariants ev before cwnd ssthresh mss loss = Inr ()"
  using assms by (auto simp: cc_safety_invariants_def split: option.split)

section \<open>Loss-based controllers pass\<close>

context loss_based_control
begin

lemma visit_safe:
  fixes ct :: "'a controller"
  assumes ct: "ct = \<lparr>ct_cwnd = cwnd, ct_ssthresh = ssthresh, ct_on_ack = on_ack, ct_on_dup_ack = on_dup_ack,
      ct_enter_recovery = enter_recovery, ct_on_rto = on_rto, ct_on_ecn = on_ecn, ct_on_rtt_sample = on_rtt_sample\<rparr>"
    and c: "inv c" and m: "mss c = m" "m \<le> 65535" and ev: "ev \<in> set (cc_alphabet m)"
  shows "\<exists>c'. cc_visit cc_safety_invariants m ct c ev = Some (c', Inr ()) \<and> inv c' \<and> mss c' = m"
proof -
  have fl: "flight_bytes m fl \<le> U32_MAX" for fl using flight_bytes_u32[OF m(2)] .
  have f: "mss c' \<le> cwnd c'" if "inv c'" for c' using floor[OF that] by simp
  show ?thesis
  proof (cases ev)
    case (B_Ack a)
    obtain c' where a: "on_ack c CC_NOW a = Some c'" "inv c'" "mss c' = mss c" using ack_inv[OF c, of CC_NOW a] by blast
    have "cc_safety_invariants ev (cwnd c) (cwnd c') (ssthresh c') m None = Inr ()"
      using B_Ack f[OF a(2)] ack_grows[OF c a(1)] a(3) m(1) by (intro cc_safety_ok) simp_all
    then show ?thesis using a B_Ack m(1) by (simp add: cc_visit_def ct)
  next
    case (B_Ecn a n)
    let ?c = "on_ecn c CC_NOW a n"
    have i: "inv ?c" "mss ?c = mss c" using ecn_inv[OF c, of CC_NOW a n] by simp_all
    have "cc_safety_invariants ev (cwnd c) (cwnd ?c) (ssthresh ?c) m None = Inr ()"
      using B_Ecn f[OF i(1)] ecn_cut[OF c, of CC_NOW a n] i(2) m(1) by (intro cc_safety_ok) simp_all
    then show ?thesis using i B_Ecn m(1) by (simp add: cc_visit_def ct)
  next
    case (B_Rtt s)
    let ?c = "on_rtt_sample c s"
    have i: "inv ?c" "mss ?c = mss c" using rtt_inv[OF c alphabet_rtt[of s m]] ev B_Rtt by simp_all
    have "cc_safety_invariants ev (cwnd c) (cwnd ?c) (ssthresh ?c) m None = Inr ()"
      using B_Rtt f[OF i(1)] i(2) m(1) by (intro cc_safety_ok) simp_all
    then show ?thesis using i B_Rtt m(1) by (simp add: cc_visit_def ct)
  next
    case (B_Dup_Ack x)
    obtain b c' where d: "on_dup_ack c CC_NOW (flight_bytes m x) = (b, c')" by fastforce
    have i: "inv c'" "mss c' = mss c" using dup_inv[OF c fl[of x], of CC_NOW] d by simp_all
    have "cc_safety_invariants ev (cwnd c) (cwnd c') (ssthresh c') m (if b then Some (flight_bytes m x) else None) = Inr ()"
      using B_Dup_Ack f[OF i(1)] i(2) m(1) dup_cut[OF c fl, of CC_NOW x c'] d by (intro cc_safety_ok) (auto split: if_splits)
    then show ?thesis using i d B_Dup_Ack m(1) by (simp add: cc_visit_def ct Let_def)
  next
    case (B_Rto x)
    let ?c = "on_rto c CC_NOW (flight_bytes m x)"
    have i: "inv ?c" "mss ?c = mss c" using rto_inv[OF c fl[of x], of CC_NOW] by simp_all
    have "cc_safety_invariants ev (cwnd c) (cwnd ?c) (ssthresh ?c) m (Some (flight_bytes m x)) = Inr ()"
      using B_Rto f[OF i(1)] i(2) m(1) rto_cut[OF c fl, of CC_NOW x] loss_no_inflation(2)[OF c fl, of CC_NOW x]
      by (intro cc_safety_ok) simp_all
    then show ?thesis using i B_Rto m(1) by (simp add: cc_visit_def ct Let_def)
  next
    case (B_Enter_Recovery x)
    let ?c = "enter_recovery c CC_NOW (flight_bytes m x)"
    have i: "inv ?c" "mss ?c = mss c" using recovery_inv[OF c fl[of x], of CC_NOW] by simp_all
    have "cc_safety_invariants ev (cwnd c) (cwnd ?c) (ssthresh ?c) m (Some (flight_bytes m x)) = Inr ()"
      using B_Enter_Recovery f[OF i(1)] i(2) m(1) recovery_cut[OF c fl, of CC_NOW x] loss_no_inflation(1)[OF c fl, of CC_NOW x]
      by (intro cc_safety_ok) simp_all
    then show ?thesis using i B_Enter_Recovery m(1) by (simp add: cc_visit_def ct Let_def)
  qed
qed

lemma sweep_passes:
  fixes ct :: "'a controller"
  assumes ct: "ct = \<lparr>ct_cwnd = cwnd, ct_ssthresh = ssthresh, ct_on_ack = on_ack, ct_on_dup_ack = on_dup_ack,
      ct_enter_recovery = enter_recovery, ct_on_rto = on_rto, ct_on_ecn = on_ecn, ct_on_rtt_sample = on_rtt_sample\<rparr>"
    and c: "inv c" and m: "mss c \<le> 65535"
  shows "check_controller_safety ct c (mss c) depth
    = Some \<lparr>bm_cases = tree_cases 17 depth, bm_violations = 0, bm_first = None\<rparr>"
proof -
  have "\<exists>r. explore_cc (cc_alphabet (mss c)) cc_safety_invariants (mss c) ct c depth bmc_report_new = Some r
      \<and> bm_violations r = 0 \<and> bm_first r = None \<and> bm_cases r = tree_cases (length (cc_alphabet (mss c))) depth"
    by (rule cc_sweep.explore_clean[where I = "\<lambda>d. inv d \<and> mss d = mss c"])
      (use visit_safe[OF ct _ _ m] c in blast)+
  then show ?thesis by (auto simp: check_controller_safety_def run_cc_sweep_def)
qed

end

end
