(* ===== verification/Bmc_Clean.thy ===== *)
theory Bmc_Clean
  imports Bmc_Controller
begin

text \<open>
  The controller sweeps of \<open>bmc.rs\<close>: what a clean report means, and that the shipped
  controllers and the whole sanitized genome grid pass at every depth.
\<close>

text \<open>
  C30: a sweep is exhaustive. For any controller, invariant, segment size and depth, if the sweep
  returns it has counted a violation unless the invariant holds after every sequence of at most
  \<open>depth\<close> events of the alphabet, so a report without violations is a proof for that bound
  (and, as the violations are counted with the first one kept, a nonzero report names a real one).
\<close>

theorem sweep_is_exhaustive:
  assumes "run_cc_sweep ct c mss depth invar = Some r"
  shows "bm_violations r = 0 \<longleftrightarrow>
    (\<forall>evs. length evs \<le> depth \<longrightarrow> set evs \<subseteq> set (cc_alphabet mss) \<longrightarrow>
       path_verdict (cc_visit invar mss ct) c evs = Some (Inr ()))"
  using cc_sweep.explore_exhaustive[OF assms[unfolded run_cc_sweep_def]] by (simp add: bmc_report_new_def)

text \<open>
  C31: the shipped loss-based controllers stay inside the safety envelope, at every depth and from
  every state they can reach. From any state Reno, DCTCP, Prague or the learned controller (any
  NaN-free genome installed, sanitized) reaches by signals, the sweep returns, counts every
  sequence of at most \<open>depth\<close> events and finds no violation: the window never falls below a
  segment, no loss lifts it above the data in flight and two segments or leaves the threshold
  below two segments, no ECN mark grows it and no clean acknowledgement shrinks it.
\<close>

theorem controller_sweep_clean:
  assumes "kind \<in> {KReno, KDctcp, KPrague, KLearned}" and "mss \<noteq> 0" and "overrides_ok ov"
    and "cc_play cc_step (cc_new ov kind mss) evs = Some c" and "\<forall>ev \<in> set evs. cc_event_ok ev"
  shows "check_controller_safety cc_ctl c (unat mss) depth
    = Some \<lparr>bm_cases = tree_cases 17 depth, bm_violations = 0, bm_first = None\<rparr>"
proof -
  have "kind \<noteq> KCubic" using assms(1) by auto
  from cc_inv_new[OF assms(2,3) this] have "cc_loss_inv (cc_new ov kind mss)"
    using assms(1) by auto
  moreover have "\<exists>c'. cc_step c ev = Some c' \<and> (cc_loss_inv c' \<and> cc_mss c' = unat mss)"
    if "cc_loss_inv c \<and> cc_mss c = unat mss" "cc_event_ok ev" for c ev
    using loss_cc.signal_ok[of c ev] that by auto
  ultimately have c: "cc_loss_inv c" "cc_mss c = unat mss"
    using cc_play_preserves[where I = "\<lambda>c. cc_loss_inv c \<and> cc_mss c = unat mss" and ok = cc_event_ok
        and c = "cc_new ov kind mss" and evs = evs and step = cc_step] assms(4,5) cc_mss_new by auto
  from loss_cc.sweep_passes[OF cc_ctl_def c(1)] c(2) show ?thesis by simp
qed

theorem controller_sweep_clean_witness:
  "check_controller_safety cc_ctl (cc_new no_overrides KLearned 1000) 1000 4
    = Some \<lparr>bm_cases = 88740, bm_violations = 0, bm_first = None\<rparr>"
proof -
  have "KLearned \<in> {KReno, KDctcp, KPrague, KLearned}" and "(1000 :: u16) \<noteq> 0"
    and "overrides_ok no_overrides"
    and "cc_play cc_step (cc_new no_overrides KLearned 1000) [] = Some (cc_new no_overrides KLearned 1000)"
    and "\<forall>ev \<in> set []. cc_event_ok ev"
    by (simp_all add: overrides_ok_def)
  from controller_sweep_clean[OF this, of 4] show ?thesis by simp
qed

theorem sweep_is_exhaustive_witness:
  "path_verdict (cc_visit cc_safety_invariants 1000 cc_ctl) (cc_new no_overrides KReno 1000)
     [B_Enter_Recovery Large, B_Ecn 10000 10000, B_Ack 1000] = Some (Inr ())"
proof -
  let ?c = "cc_new no_overrides KReno 1000"
  have "cc_loss_inv ?c" "cc_mss ?c \<le> 65535" "cc_mss ?c = 1000" using reno_inv_new[of 1000] by (simp_all add: reno_new_def)
  from loss_cc.sweep_passes[OF cc_ctl_def this(1,2), of 3] this(3)
  have r: "run_cc_sweep cc_ctl ?c 1000 3 cc_safety_invariants = Some \<lparr>bm_cases = tree_cases 17 3, bm_violations = 0, bm_first = None\<rparr>"
    by (simp add: check_controller_safety_def)
  from sweep_is_exhaustive[OF r, THEN iffD1, rule_format, of "[B_Enter_Recovery Large, B_Ecn 10000 10000, B_Ack 1000]"]
  show ?thesis by (simp add: cc_alphabet_def Let_def)
qed

section \<open>The genome space\<close>

lemma grid_numeric:
  assumes "x \<in> set (grid (f64_of lo) (f64_of hi))" and "- 8 \<le> lo" and "lo \<le> 8" and "- 8 \<le> hi" and "hi \<le> 8"
  shows "x \<noteq> NaN"
proof -
  have m8: "f64_rep (- 8)" using f64_rep_dyadic(2)[of "8" 8 0] by simp
  obtain a b where "f64_of lo = Fin a" "f64_of hi = Fin b"
    using fin_in_f64_of[OF m8 f64_rep_8] assms(2-5) unfolding fin_in_def by metis
  then show ?thesis using assms(1) by (cases "f64_of (a + b)") (auto simp: grid_def f64_of_not_NaN[symmetric])
qed

lemma genome_grid_numeric: "p \<in> set genome_grid \<Longrightarrow> genome_numeric p"
  by (auto simp: genome_grid_def genome_numeric_def dest: grid_numeric)

lemma length_genome_grid: "length genome_grid = 243"
proof -
  have g: "length (grid lo hi) = 3" for lo hi by (simp add: grid_def)
  show ?thesis by (simp add: genome_grid_def length_concat o_def sum_list_triv g)
qed

text \<open>
  The whole sanitized genome grid is safe, at every depth. For every segment size the sweep
  over the 243 genomes (each gain at its least, middle and greatest value) and all event sequences
  returns, counts them all and finds no violation.
\<close>

theorem genome_space_clean:
  assumes "0 < mss" and "mss \<le> 65535"
  shows "check_learned_genome_space mss depth
    = Some \<lparr>bm_cases = 243 * tree_cases 17 depth, bm_violations = 0, bm_first = None\<rparr>"
proof -
  define m :: u16 where "m = word_of_nat mss"
  have m: "unat m = mss" using assms(2) by (simp add: m_def unat_word_of_nat_u16)
  have nz: "m \<noteq> 0" using m assms(1) by auto
  have sub: "check_controller_safety learned_ctl (learned_with_params m p) mss depth
      = Some \<lparr>bm_cases = tree_cases 17 depth, bm_violations = 0, bm_first = None\<rparr>" if "p \<in> set genome_grid" for p
  proof -
    have "learned_mss (learned_with_params m p) = mss"
      by (simp add: learned_with_params_def learned_with_raw_params_def m)
    then show ?thesis
      using learned_cc.sweep_passes[OF learned_ctl_def learned_inv_new[OF nz genome_grid_numeric[OF that]]] assms(2) by simp
  qed
  let ?f = "\<lambda>p report. do {
         sub \<leftarrow> check_controller_safety learned_ctl (learned_with_params (word_of_nat mss) p) mss depth;
         Some (report\<lparr>bm_cases := bm_cases report + bm_cases sub,
           bm_violations := bm_violations report + bm_violations sub,
           bm_first := (if bm_first report = None then bm_first sub else bm_first report)\<rparr>)
       }"
  have "fold_option ?f ps \<lparr>bm_cases = k, bm_violations = 0, bm_first = None\<rparr>
      = Some \<lparr>bm_cases = k + length ps * tree_cases 17 depth, bm_violations = 0, bm_first = None\<rparr>"
    if "set ps \<subseteq> set genome_grid" for ps k
    using that by (induction ps arbitrary: k) (simp_all add: sub flip: m_def)
  from this[OF subset_refl, of 0] show ?thesis
    by (simp add: check_learned_genome_space_def bmc_report_new_def length_genome_grid)
qed

theorem genome_space_clean_witness:
  "check_learned_genome_space 1000 3 = Some \<lparr>bm_cases = 1268217, bm_violations = 0, bm_first = None\<rparr>"
  using genome_space_clean[of 1000 3] by simp

end
