(* ===== verification/Bmc_Split.thy ===== *)
theory Bmc_Split
  imports Bmc_Controller
begin

text \<open>
  \<open>bmc.rs\<close>, the sweep of the acknowledgement splits: every way to cut a number of bytes into
  ACKs, and the bound of the window growth by the bytes acknowledged.
\<close>

section \<open>Compositions\<close>

text \<open>The callback \<open>f\<close> is called on every composition; \<open>prefix\<close> is the stack of parts.\<close>

function for_each_composition :: "nat \<Rightarrow> nat \<Rightarrow> nat list \<Rightarrow> (nat list \<Rightarrow> 'r \<Rightarrow> 'r option) \<Rightarrow> 'r \<Rightarrow> 'r option" where
  "for_each_composition n max_parts prefix f r =
     (if n = 0 then f prefix r
      else if length prefix = max_parts then Some r
      else fold_option (\<lambda>first r. for_each_composition (n - first) max_parts (prefix @ [first]) f r) [1..<Suc n] r)"
  by pat_completeness auto
termination
  by (relation "measure (\<lambda>(n, _). n)") auto

declare for_each_composition.simps [simp del]

definition check_ack_split_invariance :: "'c controller \<Rightarrow> 'c \<Rightarrow> nat \<Rightarrow> nat \<Rightarrow> nat \<Rightarrow> (nat \<times> nat \<times> nat) bmc_report option" where
  "check_ack_split_invariance ct controller total_units unit max_acks =
     (let total_bytes = total_units * unit in
      for_each_composition total_units max_acks [] (\<lambda>parts report. do {
          let before = ct_cwnd ct controller;
          c \<leftarrow> fold_option (\<lambda>p c. ct_on_ack ct c CC_NOW (p * unit)) parts controller;
          let growth = ct_cwnd ct c - before;
          Some (bmc_check report
            (if total_bytes < growth then Inl (length parts, growth, total_bytes) else Inr ()))
        }) bmc_report_new)"

text \<open>The compositions, listed in the order of the calls.\<close>

function compositions :: "nat \<Rightarrow> nat \<Rightarrow> nat list list" where
  "compositions n k =
     (if n = 0 then [[]]
      else if k = 0 then []
      else concat (map (\<lambda>first. map ((#) first) (compositions (n - first) (k - 1))) [1..<Suc n]))"
  by pat_completeness auto
termination
  by (relation "measure (\<lambda>(n, _). n)") auto

declare compositions.simps [simp del]

lemma for_each_is_fold:
  "length prefix \<le> m \<Longrightarrow>
    for_each_composition n m prefix f r = fold_option (\<lambda>parts. f (prefix @ parts)) (compositions n (m - length prefix)) r"
proof (induction n m prefix f r rule: for_each_composition.induct)
  case (1 n m prefix f r)
  consider "n = 0" | "n \<noteq> 0" "length prefix = m" | "n \<noteq> 0" "length prefix < m" using 1(2) by linarith
  then show ?case
  proof cases
    case 3
    have ih: "for_each_composition (n - x) m (prefix @ [x]) f r
        = fold_option (\<lambda>parts. f (prefix @ x # parts)) (compositions (n - x) (m - length prefix - 1)) r"
      if "x \<in> set [1..<Suc n]" for x r
      using 1(1)[OF 3(1) _ that, of r] 3(2) by simp
    have "for_each_composition n m prefix f r
        = fold_option (\<lambda>x. for_each_composition (n - x) m (prefix @ [x]) f) [1..<Suc n] r"
      using 3 by (subst for_each_composition.simps) simp
    also have "\<dots> = fold_option (\<lambda>x. fold_option (\<lambda>parts. f (prefix @ x # parts)) (compositions (n - x) (m - length prefix - 1))) [1..<Suc n] r"
      by (rule fold_option_cong) (use ih in auto)
    finally show ?thesis
      using 3 by (subst compositions.simps) (simp add: fold_option_concat fold_option_map del: upt_Suc)
  qed (simp_all add: for_each_composition.simps compositions.simps fold_option_one)
qed

text \<open>They are the lists of at most \<open>k\<close> positive parts with sum \<open>n\<close>, each once.\<close>

lemma compositions_spec: "parts \<in> set (compositions n k) \<longleftrightarrow> sum_list parts = n \<and> 0 \<notin> set parts \<and> length parts \<le> k"
proof (induction n k arbitrary: parts rule: compositions.induct)
  case (1 n k)
  consider "n = 0" | "n \<noteq> 0" "k = 0" | "n \<noteq> 0" "k \<noteq> 0" by blast
  then show ?case
  proof cases
    case 1
    then show ?thesis by (cases parts) (auto simp: compositions.simps)
  next
    case 2
    then show ?thesis by (auto simp: compositions.simps)
  next
    case 3
    show ?thesis
    proof (cases parts)
      case Nil
      then show ?thesis using 3 by (auto simp: compositions.simps[of n])
    next
      case (Cons x xs)
      have "parts \<in> set (compositions n k) \<longleftrightarrow> 1 \<le> x \<and> x \<le> n \<and> xs \<in> set (compositions (n - x) (k - 1))"
        using 3 Cons by (subst compositions.simps) (auto simp: less_Suc_eq_le simp del: upt_Suc)
      also have "\<dots> \<longleftrightarrow> 1 \<le> x \<and> x \<le> n \<and> sum_list xs = n - x \<and> 0 \<notin> set xs \<and> length xs \<le> k - 1"
        using 1(1)[OF 3, of x xs] by (auto simp: less_Suc_eq_le simp del: upt_Suc)
      finally show ?thesis using 3 Cons by auto
    qed
  qed
qed

lemma compositions_distinct: "distinct (compositions n k)"
proof (induction n k rule: compositions.induct)
  case (1 n k)
  consider "n = 0" | "n \<noteq> 0" "k = 0" | "n \<noteq> 0" "k \<noteq> 0" by blast
  then show ?case
  proof cases
    case 3
    have "distinct (concat (map (\<lambda>x. map ((#) x) (compositions (n - x) (k - 1))) xs))" if "distinct xs" "set xs \<subseteq> set [1..<Suc n]" for xs
      using that 1[OF 3] by (induction xs) (auto simp: distinct_map simp del: upt_Suc)
    from this[of "[1..<Suc n]"] show ?thesis using 3 by (subst compositions.simps) (simp del: upt_Suc)
  qed (simp_all add: compositions.simps)
qed

section \<open>Byte counting\<close>

text \<open>
  A byte-counting controller: an ACK moves the window and the credit it has saved up together by
  at most the bytes acknowledged.
\<close>

locale byte_counting =
  fixes ct :: "'c controller" and credit :: "'c \<Rightarrow> nat" and invar :: "'c \<Rightarrow> bool"
  assumes ack: "invar c \<Longrightarrow> \<exists>c'. ct_on_ack ct c now n = Some c' \<and> invar c'
    \<and> ct_cwnd ct c' + credit c' \<le> ct_cwnd ct c + credit c + n"
begin

lemma acks_bounded:
  assumes "invar c"
  shows "\<exists>c'. fold_option (\<lambda>p c. ct_on_ack ct c CC_NOW (p * u)) parts c = Some c'
    \<and> ct_cwnd ct c' + credit c' \<le> ct_cwnd ct c + credit c + sum_list parts * u"
  using assms
proof (induction parts arbitrary: c)
  case Nil
  then show ?case by simp
next
  case (Cons p parts)
  obtain c1 where c1: "ct_on_ack ct c CC_NOW (p * u) = Some c1" "invar c1"
    "ct_cwnd ct c1 + credit c1 \<le> ct_cwnd ct c + credit c + p * u" using ack[OF Cons.prems] by blast
  then show ?case using Cons.IH[OF c1(2)] by (fastforce simp: algebra_simps)
qed

text \<open>Without credit to start from, no split grows the window past the bytes it acknowledges.\<close>

lemma split_clean:
  assumes "invar c" and "credit c = 0"
  shows "check_ack_split_invariance ct c total_units u max_acks
    = Some \<lparr>bm_cases = card {parts. sum_list parts = total_units \<and> 0 \<notin> set parts \<and> length parts \<le> max_acks},
        bm_violations = 0, bm_first = None\<rparr>"
proof -
  define f where "f = (\<lambda>parts report. do {
          let before = ct_cwnd ct c;
          c \<leftarrow> fold_option (\<lambda>p c. ct_on_ack ct c CC_NOW (p * u)) parts c;
          let growth = ct_cwnd ct c - before;
          Some (bmc_check report
            (if total_units * u < growth then Inl (length parts, growth, total_units * u) else Inr ()))
        })"
  have one: "f parts r = Some (bmc_check r (Inr ()))" if "sum_list parts = total_units" for parts r
    using acks_bounded[OF assms(1), of u parts] assms(2) that by (auto simp: f_def Let_def)
  have "fold_option f ps \<lparr>bm_cases = k, bm_violations = 0, bm_first = None\<rparr>
      = Some \<lparr>bm_cases = k + length ps, bm_violations = 0, bm_first = None\<rparr>"
    if "\<forall>p \<in> set ps. sum_list p = total_units" for ps k
    using that by (induction ps arbitrary: k) (simp_all add: one bmc_check_def)
  moreover have "length (compositions total_units max_acks)
      = card {parts. sum_list parts = total_units \<and> 0 \<notin> set parts \<and> length parts \<le> max_acks}"
    using distinct_card[OF compositions_distinct, of total_units max_acks]
    by (simp add: compositions_spec Collect_conj_eq[symmetric] set_eq_iff flip: compositions_spec)
  moreover have "check_ack_split_invariance ct c total_units u max_acks
      = fold_option f (compositions total_units max_acks) bmc_report_new"
    using for_each_is_fold[of "[]" max_acks total_units f bmc_report_new]
    by (simp add: check_ack_split_invariance_def f_def Let_def)
  ultimately show ?thesis by (simp add: bmc_report_new_def compositions_spec)
qed

end

text \<open>The loop of congestion avoidance spends the credit it turns into window.\<close>

lemma ca_loop_credit:
  assumes "P w" and "\<And>w. P w \<Longrightarrow> 0 < w \<and> P (grow w) \<and> grow w \<le> 2 * w"
  shows "\<exists>acc' w'. ca_loop grow acc w = Some (acc', w') \<and> P w' \<and> w' + acc' \<le> w + acc"
proof -
  obtain acc' w' k where l: "ca_loop grow acc w = Some (acc', w')" "P w'" "w' = (grow ^^ k) w"
    "acc = acc' + (\<Sum>i<k. (grow ^^ i) w)"
    using ca_loop_ends[of P w grow acc] assms by blast
  have "P ((grow ^^ j) w)" for j by (induction j) (use assms in auto)
  then have g: "(grow ^^ Suc j) w \<le> 2 * (grow ^^ j) w" for j using assms(2) by simp
  have "(grow ^^ j) w \<le> w + (\<Sum>i<j. (grow ^^ i) w)" for j
  proof (induction j)
    case (Suc j)
    then show ?case using g[of j] by simp
  qed simp
  then show ?thesis using l by fastforce
qed

lemma reno_counts_bytes:
  assumes "reno_inv c"
  shows "\<exists>c'. reno_on_ack c now n = Some c' \<and> reno_inv c' \<and> reno_cwnd c' + reno_ca_acc c' \<le> reno_cwnd c + reno_ca_acc c + n"
proof -
  obtain acc w where "ca_loop (\<lambda>w. sat_add32 w (reno_mss c)) (sat_add32 (reno_ca_acc c) n) (reno_cwnd c) = Some (acc, w)"
    "reno_mss c \<le> w \<and> w \<le> U32_MAX" "w + acc \<le> reno_cwnd c + sat_add32 (reno_ca_acc c) n"
    using ca_loop_credit[of "\<lambda>w. reno_mss c \<le> w \<and> w \<le> U32_MAX" "reno_cwnd c" "\<lambda>w. sat_add32 w (reno_mss c)"
        "sat_add32 (reno_ca_acc c) n"] assms
    by (fastforce simp: reno_inv_def sat_add32_def)
  then show ?thesis using assms by (auto simp: reno_on_ack_def reno_inv_def Let_def reno_in_slow_start_def sat_add32_def)
qed

lemma dctcp_counts_bytes:
  assumes "dctcp_inv c"
  shows "\<exists>c'. dctcp_on_ack c now n = Some c' \<and> dctcp_inv c' \<and> dctcp_cwnd c' + dctcp_ca_acc c' \<le> dctcp_cwnd c + dctcp_ca_acc c + n"
proof -
  obtain acc w where "ca_loop (\<lambda>w. sat_add32 w (dctcp_mss c)) (sat_add32 (dctcp_ca_acc c) n) (dctcp_cwnd c) = Some (acc, w)"
    "dctcp_mss c \<le> w \<and> w \<le> U32_MAX" "w + acc \<le> dctcp_cwnd c + sat_add32 (dctcp_ca_acc c) n"
    using ca_loop_credit[of "\<lambda>w. dctcp_mss c \<le> w \<and> w \<le> U32_MAX" "dctcp_cwnd c" "\<lambda>w. sat_add32 w (dctcp_mss c)"
        "sat_add32 (dctcp_ca_acc c) n"] assms
    by (fastforce simp: dctcp_inv_def sat_add32_def)
  then show ?thesis using assms by (auto simp: dctcp_on_ack_def dctcp_inv_def Let_def dctcp_in_slow_start_def sat_add32_def)
qed

text \<open>A controller that has seen no loss is in slow start, which adds at most the bytes of the ACK.\<close>

lemma learned_slow_start:
  assumes "learned_inv c" and "learned_ssthresh c = U32_MAX"
  shows "\<exists>c'. learned_on_ack c now n = Some c' \<and> learned_inv c' \<and> learned_ssthresh c' = U32_MAX
    \<and> learned_cwnd c' \<le> learned_cwnd c + n"
proof -
  obtain c' where c: "learned_on_ack c now n = Some c'" "learned_inv c'" using learned_on_ack_total[OF assms(1)] by blast
  moreover have "learned_ssthresh c' = U32_MAX"
    using c(1) assms(2) by (auto simp: learned_on_ack_def Let_def split: if_splits bind_splits)
  moreover have "learned_cwnd c' \<le> learned_cwnd c + n"
  proof (cases "learned_cwnd c < U32_MAX")
    case True
    then show ?thesis using c(1) assms(2)
      by (auto simp: learned_on_ack_def Let_def learned_in_slow_start_def sat_add32_def split: if_splits)
  next
    case False
    then show ?thesis using c(2) by (simp add: learned_inv_def)
  qed
  ultimately show ?thesis by blast
qed

lemma prague_slow_start:
  assumes "prague_inv c" and "prague_ssthresh c = U32_MAX"
  shows "\<exists>c'. prague_on_ack c now n = Some c' \<and> prague_inv c' \<and> prague_ssthresh c' = U32_MAX
    \<and> prague_cwnd c' \<le> prague_cwnd c + n"
proof -
  obtain c' where c: "prague_on_ack c now n = Some c'" "prague_inv c'" using prague_on_ack_total[OF assms(1)] by blast
  moreover have "prague_ssthresh c' = U32_MAX"
    using c(1) assms(2) by (auto simp: prague_on_ack_def Let_def split: if_splits bind_splits)
  moreover have "prague_cwnd c' \<le> prague_cwnd c + n"
  proof (cases "prague_cwnd c < U32_MAX")
    case True
    then show ?thesis using c(1) assms(2)
      by (auto simp: prague_on_ack_def Let_def prague_in_slow_start_def sat_add32_def split: if_splits)
  next
    case False
    then show ?thesis using c(2) by (simp add: prague_inv_def)
  qed
  ultimately show ?thesis by blast
qed

lemma synth_slow_start:
  assumes "synth_inv c" and "synth_ssthresh c = U32_MAX"
  shows "\<exists>c'. synth_on_ack c now n = Some c' \<and> synth_inv c' \<and> synth_ssthresh c' = U32_MAX
    \<and> synth_cwnd c' \<le> synth_cwnd c + n"
proof -
  obtain c' where c: "synth_on_ack c now n = Some c'" "synth_inv c'" using synth_on_ack_total[OF assms(1)] by blast
  moreover have "synth_ssthresh c' = U32_MAX"
    using c(1) assms(2) by (auto simp: synth_on_ack_def Let_def split: if_splits bind_splits)
  moreover have "synth_cwnd c' \<le> synth_cwnd c + n"
  proof (cases "synth_cwnd c < U32_MAX")
    case True
    then show ?thesis using c(1) assms(2)
      by (auto simp: synth_on_ack_def Let_def synth_in_slow_start_def sat_add32_def split: if_splits)
  next
    case False
    then show ?thesis using c(2) by (simp add: synth_inv_def)
  qed
  ultimately show ?thesis by blast
qed

text \<open>Reno and DCTCP in any state, the others before their first loss.\<close>

fun counts_bytes :: "cc \<Rightarrow> bool" where
  "counts_bytes (CcReno c) \<longleftrightarrow> reno_inv c"
| "counts_bytes (CcDctcp c) \<longleftrightarrow> dctcp_inv c"
| "counts_bytes (CcLearned c) \<longleftrightarrow> learned_inv c \<and> learned_ssthresh c = U32_MAX"
| "counts_bytes (CcPrague c) \<longleftrightarrow> prague_inv c \<and> prague_ssthresh c = U32_MAX"
| "counts_bytes (CcSynth c) \<longleftrightarrow> synth_inv c \<and> synth_ssthresh c = U32_MAX"
| "counts_bytes _ \<longleftrightarrow> False"

fun saved_credit :: "cc \<Rightarrow> nat" where
  "saved_credit (CcReno c) = reno_ca_acc c"
| "saved_credit (CcDctcp c) = dctcp_ca_acc c"
| "saved_credit _ = 0"

lemma cc_counts_bytes:
  assumes "counts_bytes c"
  shows "\<exists>c'. cc_on_ack c now n = Some c' \<and> counts_bytes c' \<and> cc_cwnd c' + saved_credit c' \<le> cc_cwnd c + saved_credit c + n"
proof (cases c)
  case (CcReno d)
  then show ?thesis using assms reno_counts_bytes[of d now n] by auto
next
  case (CcDctcp d)
  then show ?thesis using assms dctcp_counts_bytes[of d now n] by auto
next
  case (CcLearned d)
  then show ?thesis using assms learned_slow_start[of d now n] by auto
next
  case (CcPrague d)
  then show ?thesis using assms prague_slow_start[of d now n] by auto
next
  case (CcSynth d)
  then show ?thesis using assms synth_slow_start[of d now n] by auto
qed (use assms in simp_all)

interpretation cc_bytes: byte_counting cc_ctl saved_credit counts_bytes
  by unfold_locales (use cc_counts_bytes in \<open>simp add: cc_ctl_def\<close>)

lemma counts_bytes_new:
  assumes "kind \<in> {KReno, KDctcp, KPrague, KLearned, KSynth}" and "mss \<noteq> 0" and "overrides_ok ov"
  shows "counts_bytes (cc_new ov kind mss) \<and> saved_credit (cc_new ov kind mss) = 0"
proof -
  have "cc_inv (cc_new ov kind mss)" using cc_inv_new[OF assms(2,3)] assms(1) by auto
  then show ?thesis using assms(1)
    by (auto simp: reno_new_def dctcp_new_def prague_new_def learned_new_def learned_with_params_def
        learned_with_raw_params_def synth_new_def synth_with_program_def)
qed

text \<open>
  A misbehaving receiver cannot inflate the window by dividing its ACKs. For a new Reno,
  DCTCP, Prague, learned or synthesised controller, and for Reno and DCTCP in any state with an
  empty accumulator (after every loss, mark or timeout), the sweep over every way to cut
  \<open>total_units\<close> units of \<open>unit\<close> bytes into at most \<open>max_acks\<close> ACKs returns, has
  tried each of them exactly once and finds no split that grows the window by more than the bytes
  acknowledged.
\<close>

theorem ack_division_is_bounded:
  assumes "(c = cc_new ov kind mss \<and> kind \<in> {KReno, KDctcp, KPrague, KLearned, KSynth} \<and> mss \<noteq> 0 \<and> overrides_ok ov)
    \<or> (\<exists>d. c = CcReno d \<and> reno_inv d \<and> reno_ca_acc d = 0) \<or> (\<exists>d. c = CcDctcp d \<and> dctcp_inv d \<and> dctcp_ca_acc d = 0)"
  shows "check_ack_split_invariance cc_ctl c total_units u max_acks
    = Some \<lparr>bm_cases = card {parts. sum_list parts = total_units \<and> 0 \<notin> set parts \<and> length parts \<le> max_acks},
        bm_violations = 0, bm_first = None\<rparr>"
proof -
  have "counts_bytes c \<and> saved_credit c = 0" using assms counts_bytes_new by auto
  then show ?thesis using cc_bytes.split_clean by blast
qed

theorem ack_division_is_bounded_witness:
  "map_option bm_violations (check_ack_split_invariance cc_ctl (cc_new no_overrides KSynth 1000) 6 250 6) = Some 0"
  using ack_division_is_bounded[of "cc_new no_overrides KSynth 1000" no_overrides KSynth 1000 6 250 6]
  by (simp add: overrides_ok_def)

text \<open>
  The byte bound needs the empty accumulator. Reno one byte short of a window of saved-up
  credit (after a fast retransmit at 4000 bytes in flight and one ACK of 1999 bytes) grows by a
  whole segment on an ACK of a single byte: the same sweep, started from that state, reports the
  violation, although its contract promises the bound in whatever regime the controller is in.
\<close>

theorem split_bound_fails_mid_avoidance:
  "\<exists>c. cc_play cc_step (cc_new no_overrides KReno 1000)
        [Ev_Dup_Ack 0 4000, Ev_Dup_Ack 0 4000, Ev_Dup_Ack 0 4000, Ev_Ack 0 1999] = Some c
    \<and> check_ack_split_invariance cc_ctl c 1 1 1
      = Some \<lparr>bm_cases = 1, bm_violations = 1, bm_first = Some (1, 1000, 1)\<rparr>"
proof -
  have "compositions 1 1 = [[1]]" by (simp add: compositions.simps)
  then have "for_each_composition 1 1 [] f r = f [1] r" for f :: "nat list \<Rightarrow> 'r \<Rightarrow> 'r option" and r
    by (simp add: for_each_is_fold fold_option_one)
  note e = this[unfolded One_nat_def]
  show ?thesis
    by (simp add: check_ack_split_invariance_def e cc_ctl_def reno_new_def reno_on_dup_ack_def reno_on_ack_def
        reno_in_slow_start_def sat_inc8_def sat_add32_def initial_window_def U32_MAX_def ca_loop.simps bmc_check_def
        bmc_report_new_def Let_def)
qed

end
