(* ===== verification/Bmc_Options.thy ===== *)
theory Bmc_Options
  imports Bmc Tcp_Wire
begin

text \<open>
  \<open>bmc.rs\<close>, the sweep over the TCP option walker. \<open>Tcp_Wire\<close> models the accessors of
  \<open>wire/tcp.rs\<close> as total functions; here every index, slice and store of the walker and of its
  closures is checked, \<open>None\<close> being the panic, and the two agree on every segment view there is.
\<close>

section \<open>The walker with its checks\<close>

definition byte_at :: "'a list \<Rightarrow> nat \<Rightarrow> 'a option" where
  "byte_at v i = (if i < length v then Some (v ! i) else None)"

text \<open>\<open>for_each_option\<close>; the closure's captured variables are the state \<open>'s\<close>.\<close>

function walk_checked :: "(u8 \<Rightarrow> bytes \<Rightarrow> 's \<Rightarrow> 's option) \<Rightarrow> bytes \<Rightarrow> nat \<Rightarrow> 's \<Rightarrow> 's option" where
  "walk_checked f opts i s =
     (if i < length opts
      then (case byte_at opts i of
              None \<Rightarrow> None
            | Some kind \<Rightarrow>
                if kind = 0 then Some s
                else if kind = 1 then walk_checked f opts (i + 1) s
                else if i + 1 \<ge> length opts then Some s
                else (case byte_at opts (i + 1) of
                        None \<Rightarrow> None
                      | Some l \<Rightarrow>
                          let len = unat l
                          in if len < 2 \<or> i + len > length opts then Some s
                             else (case do { v \<leftarrow> sub_slice opts (i + 2) (i + len); f kind v s } of
                                     None \<Rightarrow> None
                                   | Some s' \<Rightarrow> walk_checked f opts (i + len) s')))
      else Some s)"
  by pat_completeness auto
termination by (relation "measure (\<lambda>(f, opts, i, s). length opts - i)") auto

declare walk_checked.simps [simp del]

definition for_each_checked :: "(u8 \<Rightarrow> bytes \<Rightarrow> 's \<Rightarrow> 's option) \<Rightarrow> bytes \<Rightarrow> 's \<Rightarrow> 's option" where
  "for_each_checked f buf s = do {
     opts \<leftarrow> sub_slice buf TCP_MIN_HEADER_LEN (data_offset buf);
     walk_checked f opts 0 s
   }"

section \<open>The accessors\<close>

definition u32_at :: "bytes \<Rightarrow> nat \<Rightarrow> u32 option" where
  "u32_at v j = do {
     a \<leftarrow> byte_at v j; b \<leftarrow> byte_at v (j + 1); c \<leftarrow> byte_at v (j + 2); d \<leftarrow> byte_at v (j + 3);
     Some (u32_from_be a b c d)
   }"

definition mss_closure :: "u8 \<Rightarrow> bytes \<Rightarrow> u16 option \<Rightarrow> u16 option option" where
  "mss_closure kind v mss =
     (if kind = 2 \<and> length v = 2 \<and> mss = None
      then do { a \<leftarrow> byte_at v 0; b \<leftarrow> byte_at v 1; Some (Some (u16_from_be a b)) }
      else Some mss)"

definition mss_checked :: "bytes \<Rightarrow> u16 option option" where
  "mss_checked buf = for_each_checked mss_closure buf None"

definition ts_closure :: "u8 \<Rightarrow> bytes \<Rightarrow> (u32 \<times> u32) option \<Rightarrow> (u32 \<times> u32) option option" where
  "ts_closure kind v ts =
     (if kind = 8 \<and> length v = 8 \<and> ts = None
      then do { tsval \<leftarrow> u32_at v 0; tsecr \<leftarrow> u32_at v 4; Some (Some (tsval, tsecr)) }
      else Some ts)"

definition timestamps_checked :: "bytes \<Rightarrow> (u32 \<times> u32) option option" where
  "timestamps_checked buf = for_each_checked ts_closure buf None"

definition wscale_closure :: "u8 \<Rightarrow> bytes \<Rightarrow> u8 option \<Rightarrow> u8 option option" where
  "wscale_closure kind v scale =
     (if kind = 3 \<and> length v = 1 \<and> scale = None
      then do { a \<leftarrow> byte_at v 0; Some (Some (min a 14)) }
      else Some scale)"

definition window_scale_checked :: "bytes \<Rightarrow> u8 option option" where
  "window_scale_checked buf = for_each_checked wscale_closure buf None"

definition sack_permitted_checked :: "bytes \<Rightarrow> bool option" where
  "sack_permitted_checked buf =
     for_each_checked (\<lambda>kind v permitted. Some (if kind = 4 \<and> v = [] then True else permitted)) buf False"

text \<open>The block loop; \<open>out\<close> is the array of \<open>MAX_SACK_BLOCKS\<close> entries, \<open>n\<close> the number filled.\<close>

function blocks_loop :: "bytes \<Rightarrow> nat \<Rightarrow> (seqnum \<times> seqnum) list \<times> nat \<Rightarrow> ((seqnum \<times> seqnum) list \<times> nat) option" where
  "blocks_loop v j s =
     (if j + 8 \<le> length v \<and> snd s < MAX_SACK_BLOCKS
      then (case do { l \<leftarrow> u32_at v j; r \<leftarrow> u32_at v (j + 4);
                      out \<leftarrow> copy_into (fst s) (snd s) [(l, r)]; Some (out, snd s + 1) } of
              None \<Rightarrow> None
            | Some s' \<Rightarrow> blocks_loop v (j + 8) s')
      else Some s)"
  by pat_completeness auto
termination by (relation "measure (\<lambda>(v, j, s). length v - j)") auto

declare blocks_loop.simps [simp del]

definition sack_closure ::
  "u8 \<Rightarrow> bytes \<Rightarrow> (seqnum \<times> seqnum) list \<times> nat \<Rightarrow> ((seqnum \<times> seqnum) list \<times> nat) option" where
  "sack_closure kind v s = (if kind \<noteq> 5 then Some s else blocks_loop v 0 s)"

definition sack_blocks_checked :: "bytes \<Rightarrow> (seqnum \<times> seqnum) list \<Rightarrow> ((seqnum \<times> seqnum) list \<times> nat) option" where
  "sack_blocks_checked buf out = for_each_checked sack_closure buf (out, 0)"

section \<open>The sweep\<close>

text \<open>
  The probe, with the accessors it calls as arguments, so that what it would do if one of them
  failed can be said. The violation is the number of blocks returned.
\<close>

definition probe_header :: "bytes \<Rightarrow> bytes option" where
  "probe_header opts = do {
     let hlen = 20 + length opts;
     buf \<leftarrow> copy_into (replicate hlen 0) 12 [push_bit 4 (word_of_nat (hlen div 4) :: u8)];
     copy_into buf 20 opts
   }"

definition probe_with ::
  "(bytes \<Rightarrow> 'a option) \<Rightarrow> (bytes \<Rightarrow> 'b option) \<Rightarrow> (bytes \<Rightarrow> 'c option) \<Rightarrow> (bytes \<Rightarrow> 'd option)
    \<Rightarrow> (bytes \<Rightarrow> (seqnum \<times> seqnum) list \<Rightarrow> ((seqnum \<times> seqnum) list \<times> nat) option) \<Rightarrow> bytes \<Rightarrow> (nat + unit) option" where
  "probe_with mss wscale ts permitted sack opts = do {
     buf \<leftarrow> probe_header opts;
     case tcp_new_checked buf of
       Inl _ \<Rightarrow> Some (Inr ())
     | Inr pkt \<Rightarrow> do {
         _ \<leftarrow> mss pkt;
         _ \<leftarrow> wscale pkt;
         _ \<leftarrow> ts pkt;
         _ \<leftarrow> permitted pkt;
         (blocks, n) \<leftarrow> sack pkt (replicate MAX_SACK_BLOCKS (0, 0));
         Some (if MAX_SACK_BLOCKS < n then Inl n else Inr ())
       }
   }"

definition probe_options :: "bytes \<Rightarrow> (nat + unit) option" where
  "probe_options =
     probe_with mss_checked window_scale_checked timestamps_checked sack_permitted_checked sack_blocks_checked"

text \<open>
  \<open>enumerate_strings\<close>; the first argument is the number of bytes still to push, \<open>len - buf.len()\<close>,
  and the closure's report is the last.
\<close>

fun enumerate_strings :: "nat \<Rightarrow> bytes \<Rightarrow> bytes \<Rightarrow> (bytes \<Rightarrow> 'r \<Rightarrow> 'r option) \<Rightarrow> 'r \<Rightarrow> 'r option" where
  "enumerate_strings 0 buf alphabet f r = f buf r"
| "enumerate_strings (Suc k) buf alphabet f r =
     fold_option (\<lambda>b r. enumerate_strings k (buf @ [b]) alphabet f r) alphabet r"

definition check_strings_with :: "(bytes \<Rightarrow> (nat + unit) option) \<Rightarrow> bytes \<Rightarrow> nat \<Rightarrow> nat bmc_report option" where
  "check_strings_with probe alphabet len_words =
     enumerate_strings (len_words * 4) [] alphabet
       (\<lambda>s report. do { v \<leftarrow> probe s; Some (bmc_check report v) }) bmc_report_new"

definition check_option_strings :: "bytes \<Rightarrow> nat \<Rightarrow> nat bmc_report option" where
  "check_option_strings = check_strings_with probe_options"

section \<open>The checked walker never panics\<close>

text \<open>A closure that returns whatever it is given.\<close>

lemma byte_at_Some [simp]: "i < length v \<Longrightarrow> byte_at v i = Some (v ! i)"
  by (simp add: byte_at_def)

lemma walk_checked_rel:
  assumes "\<And>kind v s a. R a s \<Longrightarrow> \<exists>s'. f kind v s = Some s' \<and> R (g a (kind, v)) s'"
  shows "R a s \<Longrightarrow> \<exists>s'. walk_checked f opts i s = Some s' \<and> R (foldl g a (walk_options opts i)) s'"
proof (induction opts i arbitrary: a s rule: walk_options.induct)
  case (1 opts i)
  note step = walk_checked.simps[of f opts i s] walk_options.simps[of opts i]
  consider (stop) "i < length opts \<longrightarrow> opts ! i = 0 \<or> opts ! i \<noteq> 1 \<and> (i + 1 \<ge> length opts \<or> unat (opts ! (i + 1)) < 2 \<or> i + unat (opts ! (i + 1)) > length opts)"
    | (nop) "i < length opts" "opts ! i = 1"
    | (tlv) "i < length opts" "opts ! i \<noteq> 0" "opts ! i \<noteq> 1" "\<not> i + 1 \<ge> length opts" "\<not> (unat (opts ! (i + 1)) < 2 \<or> i + unat (opts ! (i + 1)) > length opts)"
    by blast
  then show ?case
  proof cases
    case stop
    then show ?thesis using 1(3) by (auto simp: step Let_def)
  next
    case nop
    then show ?thesis using 1(1)[OF nop(1) _ nop(2) 1(3)] by (simp add: step)
  next
    case tlv
    define l where "l = unat (opts ! (i + 1))"
    have l: "2 \<le> l" "i + l \<le> length opts" using tlv(5) by (simp_all add: l_def)
    let ?v = "take (l - 2) (drop (i + 2) opts)"
    have v: "sub_slice opts (i + 2) (i + l) = Some ?v" using l by (simp add: sub_slice_def)
    obtain s' where f: "f (opts ! i) ?v s = Some s'" "R (g a (opts ! i, ?v)) s'" using assms[OF 1(3)] by blast
    have w: "walk_options opts i = (opts ! i, ?v) # walk_options opts (i + l)"
      unfolding step(2) using tlv by (simp add: l_def Let_def)
    have c: "walk_checked f opts i s = walk_checked f opts (i + l) s'"
      unfolding step(1) using tlv v[unfolded l_def] f(1)[unfolded l_def] by (simp add: l_def Let_def)
    show ?thesis unfolding w c using 1(2)[OF tlv(1-4) l_def tlv(5)[folded l_def] f(2)] by simp
  qed
qed

lemma for_each_checked_rel:
  assumes "tcp_new_checked buf = Inr pkt" and "\<And>kind v s a. R a s \<Longrightarrow> \<exists>s'. f kind v s = Some s' \<and> R (g a (kind, v)) s'" and "R a s"
  shows "\<exists>s'. for_each_checked f pkt s = Some s' \<and> R (foldl g a (for_each_option pkt)) s'"
proof -
  have b: "pkt = buf" "TCP_MIN_HEADER_LEN \<le> data_offset buf" "data_offset buf \<le> length buf"
    using assms(1) by (auto simp: tcp_new_checked_def Let_def split: if_splits)
  then have "sub_slice pkt TCP_MIN_HEADER_LEN (data_offset pkt) = Some (tcp_options pkt)"
    by (simp add: sub_slice_def tcp_options_def)
  then show ?thesis using walk_checked_rel[of R f g a s] assms(2,3) by (simp add: for_each_checked_def for_each_option_def)
qed

lemma for_each_checked_total:
  assumes "tcp_new_checked buf = Inr pkt" and "\<And>kind v s. f kind v s = Some (g s (kind, v))"
  shows "for_each_checked f pkt s = Some (foldl g s (for_each_option pkt))"
  using for_each_checked_rel[OF assms(1), of "\<lambda>a s. s = a" f g s s] assms(2) by simp

text \<open>The block loop fills the array in order.\<close>

lemma u32_at_Some: "j + 4 \<le> length v \<Longrightarrow> u32_at v j = Some (u32_from_be (v ! j) (v ! (j + 1)) (v ! (j + 2)) (v ! (j + 3)))"
  by (simp add: u32_at_def)

lemma read_blocks_short: "length v < 8 \<Longrightarrow> read_blocks v out = out"
  by (induction v out rule: read_blocks.induct) auto

definition blocks_filled :: "(seqnum \<times> seqnum) list \<Rightarrow> (seqnum \<times> seqnum) list \<times> nat \<Rightarrow> bool" where
  "blocks_filled out s \<longleftrightarrow> length (fst s) = MAX_SACK_BLOCKS \<and> snd s = length out \<and> snd s \<le> MAX_SACK_BLOCKS \<and> take (snd s) (fst s) = out"

lemma blocks_loop_total:
  assumes "blocks_filled out s"
  shows "\<exists>s'. blocks_loop v j s = Some s' \<and> blocks_filled (read_blocks (drop j v) out) s'"
  using assms
proof (induction v j s arbitrary: out rule: blocks_loop.induct)
  case (1 v j s)
  show ?case
  proof (cases "j + 8 \<le> length v")
    case False
    have "read_blocks (drop j v) out = out"
      using read_blocks_short[of "drop j v"] False by simp
    then show ?thesis using 1 False by (simp add: blocks_loop.simps)
  next
    case True
    define a where "a = u32_from_be (v ! j) (v ! (j + 1)) (v ! (j + 2)) (v ! (j + 3))"
    define b where "b = u32_from_be (v ! (j + 4)) (v ! (j + 5)) (v ! (j + 6)) (v ! (j + 7))"
    have d: "drop j v = [v ! j, v ! (j + 1), v ! (j + 2), v ! (j + 3), v ! (j + 4), v ! (j + 5), v ! (j + 6), v ! (j + 7)] @ drop (j + 8) v"
      using True by (simp add: Cons_nth_drop_Suc numeral_eq_Suc)
    have r: "read_blocks (drop j v) out = (if length out < MAX_SACK_BLOCKS then read_blocks (drop (j + 8) v) (out @ [(a, b)]) else out)"
      unfolding d a_def b_def by simp
    have u: "u32_at v j = Some a" "u32_at v (j + 4) = Some b"
      using u32_at_Some[of j v] u32_at_Some[of "j + 4" v] True by (simp_all add: a_def b_def algebra_simps)
    obtain xs n where s: "s = (xs, n)" by (cases s)
    have x: "length xs = MAX_SACK_BLOCKS" "n = length out" "n \<le> MAX_SACK_BLOCKS" "take n xs = out" using 1(2) by (auto simp: blocks_filled_def s)
    show ?thesis
    proof (cases "n < MAX_SACK_BLOCKS")
      case False
      then have "blocks_loop v j s = Some s" by (subst blocks_loop.simps) (simp add: s)
      then show ?thesis using False 1(2) r x(2) by (simp del: split_paired_Ex)
    next
      case room: True
      let ?xs = "take n xs @ [(a, b)] @ drop (n + 1) xs"
      have c: "copy_into xs n [(a, b)] = Some ?xs" using room x(1) by (simp add: copy_into_def)
      have f: "blocks_filled (out @ [(a, b)]) (?xs, n + 1)" using room x by (simp add: blocks_filled_def)
      have e: "blocks_loop v j s = blocks_loop v (j + 8) (?xs, n + 1)"
        by (subst blocks_loop.simps) (use True room u c in \<open>simp add: s\<close>)
      have "\<exists>s'. blocks_loop v (j + 8) (?xs, n + 1) = Some s' \<and> blocks_filled (read_blocks (drop (j + 8) v) (out @ [(a, b)])) s'"
        by (rule 1(1)[OF _ _ f]) (use True room u c s in simp_all)
      then show ?thesis unfolding e r using room x(2) by simp
    qed
  qed
qed

text \<open>Every accessor, on every view that parses, returns what \<open>Tcp_Wire\<close> says.\<close>

lemma accessors_total:
  assumes "tcp_new_checked buf = Inr pkt"
  shows "mss_checked pkt = Some (mss_option pkt)" "timestamps_checked pkt = Some (timestamps pkt)"
    "window_scale_checked pkt = Some (window_scale pkt)" "sack_permitted_checked pkt = Some (sack_permitted pkt)"
proof -
  note total = for_each_checked_total[OF assms]
  have "mss_closure kind v s = Some (mss_step s (kind, v))" for kind v s by (simp add: mss_closure_def mss_step_def)
  from total[of mss_closure mss_step, OF this] show "mss_checked pkt = Some (mss_option pkt)"
    by (simp add: mss_checked_def mss_option_def)
  have "ts_closure kind v s = Some (ts_step s (kind, v))" for kind v s
    by (cases "length v = 8") (simp_all add: ts_closure_def ts_step_def u32_at_Some numeral_2_eq_2)
  from total[of ts_closure ts_step, OF this] show "timestamps_checked pkt = Some (timestamps pkt)"
    by (simp add: timestamps_checked_def timestamps_def)
  have "wscale_closure kind v s = Some (wscale_step s (kind, v))" for kind v s by (simp add: wscale_closure_def wscale_step_def)
  from total[of wscale_closure wscale_step, OF this] show "window_scale_checked pkt = Some (window_scale pkt)"
    by (simp add: window_scale_checked_def window_scale_def)
  show "sack_permitted_checked pkt = Some (sack_permitted pkt)"
    unfolding sack_permitted_checked_def sack_permitted_def by (rule total) simp
qed

lemma sack_blocks_total:
  assumes "tcp_new_checked buf = Inr pkt" and "length out = MAX_SACK_BLOCKS"
  shows "\<exists>blocks. sack_blocks_checked pkt out = Some (blocks, length (sack_blocks pkt))
    \<and> take (length (sack_blocks pkt)) blocks = sack_blocks pkt \<and> length (sack_blocks pkt) \<le> MAX_SACK_BLOCKS"
proof -
  let ?g = "\<lambda>out (kind, v). if kind \<noteq> 5 then out else read_blocks v out"
  have step: "\<exists>s'. sack_closure kind v s = Some s' \<and> blocks_filled (?g a (kind, v)) s'" if "blocks_filled a s" for kind v s a
    using blocks_loop_total[OF that, of v 0] that by (cases "kind = 5") (simp_all add: sack_closure_def del: split_paired_Ex)
  have "blocks_filled [] (out, 0)" using assms(2) by (simp add: blocks_filled_def)
  from for_each_checked_rel[of buf pkt blocks_filled sack_closure ?g, OF assms(1) step this]
  show ?thesis by (auto simp: sack_blocks_checked_def sack_blocks_def blocks_filled_def)
qed

section \<open>The sweep finds nothing\<close>

lemma probe_total: "probe_options opts = Some (Inr ())"
proof -
  define hlen where "hlen = 20 + length opts"
  note d = probe_options_def probe_with_def probe_header_def Let_def hlen_def[symmetric]
  define b1 where "b1 = take 12 (replicate hlen 0) @ [push_bit 4 (word_of_nat (hlen div 4) :: u8)] @ drop (12 + 1) (replicate hlen 0)"
  have c: "copy_into (replicate hlen 0) 12 [push_bit 4 (word_of_nat (hlen div 4) :: u8)] = Some b1"
    by (simp add: copy_into_def hlen_def b1_def)
  have "length b1 = hlen" by (simp add: hlen_def b1_def)
  then obtain buf where b: "copy_into b1 20 opts = Some buf" by (simp add: copy_into_def hlen_def)
  show ?thesis
  proof (cases "tcp_new_checked buf")
    case (Inl e)
    then show ?thesis unfolding d c by (simp add: b)
  next
    case (Inr pkt)
    obtain blocks n where s: "sack_blocks_checked pkt (replicate MAX_SACK_BLOCKS (0, 0)) = Some (blocks, n)" "n \<le> MAX_SACK_BLOCKS"
      using sack_blocks_total[OF Inr, of "replicate MAX_SACK_BLOCKS (0, 0)"] by auto
    show ?thesis unfolding d c using Inr accessors_total[OF Inr] s by (simp add: b)
  qed
qed

text \<open>The enumeration visits the strings over the alphabet in the order of an odometer.\<close>

lemma enumerate_is_fold:
  "enumerate_strings k buf alphabet f = fold_option (\<lambda>s. f (buf @ s)) (product_lists (replicate k alphabet))"
proof (induction k arbitrary: buf)
  case (Suc k)
  show ?case by (rule ext) (simp add: Suc fold_option_concat fold_option_map comp_def)
qed (simp add: fun_eq_iff fold_option_one)

text \<open>
  C32: the option walker is panic free and terminates. On every segment view that parses, with
  every index, slice and array store of the walker and its closures checked, each accessor
  returns what the wire model says, and the block count stays within the array.
\<close>

theorem option_accessors_never_panic:
  assumes "tcp_new_checked buf = Inr pkt" and "length out = MAX_SACK_BLOCKS"
  shows "mss_checked pkt = Some (mss_option pkt) \<and> timestamps_checked pkt = Some (timestamps pkt)
    \<and> window_scale_checked pkt = Some (window_scale pkt) \<and> sack_permitted_checked pkt = Some (sack_permitted pkt)
    \<and> (\<exists>blocks. sack_blocks_checked pkt out = Some (blocks, length (sack_blocks pkt))
        \<and> take (length (sack_blocks pkt)) blocks = sack_blocks pkt \<and> length (sack_blocks pkt) \<le> MAX_SACK_BLOCKS)"
  using accessors_total[OF assms(1)] sack_blocks_total[OF assms] by simp

text \<open>An MSS option of 1460 after a NOP and before a truncated option.\<close>

theorem option_accessors_never_panic_witness:
  "\<exists>pkt. tcp_new_checked (replicate 12 0 @ [0x70] @ replicate 7 0 @ [1, 2, 4, 5, 180, 8, 10, 0]) = Inr pkt
    \<and> mss_checked pkt = Some (Some 1460) \<and> timestamps_checked pkt = Some None"
proof -
  let ?buf = "replicate 12 0 @ [0x70] @ replicate 7 0 @ [1, 2, 4, 5, 180, 8, 10, 0 :: u8]"
  have p: "tcp_new_checked ?buf = Inr ?buf"
    by (simp add: tcp_new_checked_def data_offset_def nth_append TCP_MIN_HEADER_LEN_def TCP_MAX_HEADER_LEN_def)
  have o: "tcp_options ?buf = [1, 2, 4, 5, 180, 8, 10, 0]"
    by (simp add: tcp_options_def data_offset_def nth_append TCP_MIN_HEADER_LEN_def)
  have w: "for_each_option ?buf = [(2, [5, 180])]"
    unfolding for_each_option_def o by (simp add: walk_options.simps)
  have "mss_option ?buf = Some 1460" "timestamps ?buf = None"
    unfolding mss_option_def timestamps_def w by (simp_all add: mss_step_def ts_step_def u16_from_be_def)
  then show ?thesis
    using p option_accessors_never_panic[OF p, of "replicate MAX_SACK_BLOCKS (0, 0)"] by (intro exI[of _ ?buf]) simp
qed

text \<open>The strings of a length over an alphabet, and the report of a loop over all of them.\<close>

lemma strings_set: "set (product_lists (replicate k alphabet)) = {s. length s = k \<and> set s \<subseteq> set alphabet}"
proof -
  have "list_all2 (\<lambda>x ys. x \<in> set ys) s (replicate k alphabet) \<longleftrightarrow> length s = k \<and> set s \<subseteq> set alphabet" for s
    by (induction k arbitrary: s) (auto simp: list_all2_Cons2 length_Suc_conv)
  then show ?thesis unfolding product_lists_set by simp
qed

lemma strings_count: "length (product_lists (replicate k alphabet)) = length alphabet ^ k"
  by (induction k) (simp_all add: length_concat comp_def sum_list_triv)

lemma fold_probe:
  "fold_option (\<lambda>s report. do { v \<leftarrow> probe s; Some (bmc_check report v) }) xs r =
    (if \<exists>s\<in>set xs. probe s = None then None else Some (foldl bmc_check r (map (\<lambda>s. the (probe s)) xs)))"
  by (induction xs arbitrary: r) (auto split: option.split)

lemma foldl_check:
  "bm_cases (foldl bmc_check r vs) = bm_cases r + length vs"
  "bm_violations (foldl bmc_check r vs) = bm_violations r + length (filter isl vs)"
proof (induction vs arbitrary: r)
  case (Cons v vs)
  { case 1 then show ?case using Cons(1) by simp }
  { case 2 then show ?case using Cons(2) by (cases v) simp_all }
qed simp_all

lemma probe_header_carries:
  assumes "length opts = 4 * n" and "n \<le> 10"
  shows "\<exists>pkt. probe_header opts = Some pkt \<and> tcp_new_checked pkt = Inr pkt \<and> tcp_options pkt = opts"
proof -
  let ?b = "push_bit 4 (word_of_nat (5 + n)) :: u8"
  let ?pkt = "replicate 12 0 @ [?b] @ replicate 7 0 @ opts"
  have h: "(20 + length opts) div 4 = 5 + n" using assms(1) by simp
  have p: "probe_header opts = Some ?pkt"
    unfolding probe_header_def Let_def h by (simp add: copy_into_def)
  have "\<forall>n\<in>set [0..<11]. unat (drop_bit 4 (push_bit 4 (word_of_nat (5 + n)) :: u8)) = 5 + n" by code_simp
  then have "unat (drop_bit 4 ?b) = 5 + n" using assms(2) by simp
  then have o: "data_offset ?pkt = 20 + 4 * n" by (simp add: data_offset_def nth_append)
  then have "tcp_new_checked ?pkt = Inr ?pkt" "tcp_options ?pkt = opts"
    using assms by (simp_all add: tcp_new_checked_def tcp_options_def TCP_MIN_HEADER_LEN_def TCP_MAX_HEADER_LEN_def)
  then show ?thesis using p by blast
qed

lemma probe_with_result:
  assumes "probe_header opts = Some pkt" and "tcp_new_checked pkt = Inr pkt"
  shows "probe_with mss wscale ts permitted sack opts \<noteq> None \<longleftrightarrow> mss pkt \<noteq> None \<and> wscale pkt \<noteq> None \<and> ts pkt \<noteq> None
      \<and> permitted pkt \<noteq> None \<and> sack pkt (replicate MAX_SACK_BLOCKS (0, 0)) \<noteq> None"
    and "probe_with mss wscale ts permitted sack opts = Some v \<Longrightarrow>
      isl v \<longleftrightarrow> MAX_SACK_BLOCKS < snd (the (sack pkt (replicate MAX_SACK_BLOCKS (0, 0))))"
  using assms by (auto simp: probe_with_def bind_eq_None_conv bind_Some_iff split: if_splits)

text \<open>
  C33: the option sweep is exhaustive, and clean. With any accessors in the place of the walker's,
  for every alphabet and up to ten words of options, the sweep returns a report exactly when
  no accessor panics on any string of that length over the alphabet, each handed over as the
  options of a header that parses; the report then counts one case per string, and a
  violation exactly for each string whose SACK blocks overrun the array. With the
  accessors of the code, for every alphabet and length, it returns and reports no violation.
\<close>

theorem option_sweep_clean:
  fixes mss :: "bytes \<Rightarrow> 'a option" and wscale :: "bytes \<Rightarrow> 'b option" and ts :: "bytes \<Rightarrow> 'c option" and permitted :: "bytes \<Rightarrow> 'd option"
    and sack :: "bytes \<Rightarrow> (seqnum \<times> seqnum) list \<Rightarrow> ((seqnum \<times> seqnum) list \<times> nat) option"
    and alphabet :: bytes and len_words words :: nat
  assumes "len_words \<le> 10"
  defines "strings \<equiv> {s. length s = len_words * 4 \<and> set s \<subseteq> set alphabet}"
    and "options \<equiv> \<lambda>s. the (probe_header s)"
    and "found \<equiv> check_strings_with (probe_with mss wscale ts permitted sack) alphabet len_words"
  shows "(\<forall>s\<in>strings. tcp_new_checked (options s) = Inr (options s) \<and> tcp_options (options s) = s)
    \<and> (found \<noteq> None \<longleftrightarrow> (\<forall>s\<in>strings. mss (options s) \<noteq> None \<and> wscale (options s) \<noteq> None \<and> ts (options s) \<noteq> None
          \<and> permitted (options s) \<noteq> None \<and> sack (options s) (replicate MAX_SACK_BLOCKS (0, 0)) \<noteq> None))
    \<and> (\<forall>r. found = Some r \<longrightarrow> bm_cases r = length alphabet ^ (len_words * 4)
          \<and> (bm_violations r = 0 \<longleftrightarrow> (\<forall>s\<in>strings. snd (the (sack (options s) (replicate MAX_SACK_BLOCKS (0, 0)))) \<le> MAX_SACK_BLOCKS)))
    \<and> check_option_strings alphabet words = Some \<lparr>bm_cases = length alphabet ^ (words * 4), bm_violations = 0, bm_first = None\<rparr>"
proof (intro conjI)
  let ?probe = "probe_with mss wscale ts permitted sack" and ?xs = "product_lists (replicate (len_words * 4) alphabet)"
  have xs: "set ?xs = strings" unfolding strings_def strings_set ..
  have h: "probe_header s = Some (options s) \<and> tcp_new_checked (options s) = Inr (options s) \<and> tcp_options (options s) = s"
    if "s \<in> strings" for s
    using probe_header_carries[of s len_words] that assms(1) by (auto simp: strings_def options_def)
  then show "\<forall>s\<in>strings. tcp_new_checked (options s) = Inr (options s) \<and> tcp_options (options s) = s" by blast
  have run: "found = (if \<exists>s\<in>strings. ?probe s = None then None else Some (foldl bmc_check bmc_report_new (map (\<lambda>s. the (?probe s)) ?xs)))"
    by (simp add: found_def check_strings_with_def enumerate_is_fold fold_probe xs)
  have ok: "?probe s \<noteq> None \<longleftrightarrow> mss (options s) \<noteq> None \<and> wscale (options s) \<noteq> None \<and> ts (options s) \<noteq> None
      \<and> permitted (options s) \<noteq> None \<and> sack (options s) (replicate MAX_SACK_BLOCKS (0, 0)) \<noteq> None" if "s \<in> strings" for s
    using h[OF that] by (intro probe_with_result(1)) simp_all
  have "found \<noteq> None \<longleftrightarrow> (\<forall>s\<in>strings. ?probe s \<noteq> None)" unfolding run by simp
  also have "\<dots> \<longleftrightarrow> (\<forall>s\<in>strings. mss (options s) \<noteq> None \<and> wscale (options s) \<noteq> None \<and> ts (options s) \<noteq> None
      \<and> permitted (options s) \<noteq> None \<and> sack (options s) (replicate MAX_SACK_BLOCKS (0, 0)) \<noteq> None)"
    by (rule ball_cong[OF refl ok])
  finally show "found \<noteq> None \<longleftrightarrow> (\<forall>s\<in>strings. mss (options s) \<noteq> None \<and> wscale (options s) \<noteq> None \<and> ts (options s) \<noteq> None
      \<and> permitted (options s) \<noteq> None \<and> sack (options s) (replicate MAX_SACK_BLOCKS (0, 0)) \<noteq> None)" .
  show "\<forall>r. found = Some r \<longrightarrow> bm_cases r = length alphabet ^ (len_words * 4)
      \<and> (bm_violations r = 0 \<longleftrightarrow> (\<forall>s\<in>strings. snd (the (sack (options s) (replicate MAX_SACK_BLOCKS (0, 0)))) \<le> MAX_SACK_BLOCKS))"
  proof (intro allI impI)
    fix r assume "found = Some r"
    then have p: "\<forall>s\<in>strings. ?probe s \<noteq> None" and r: "r = foldl bmc_check bmc_report_new (map (\<lambda>s. the (?probe s)) ?xs)"
      unfolding run by (auto split: if_splits)
    have "isl (the (?probe s)) \<longleftrightarrow> MAX_SACK_BLOCKS < snd (the (sack (options s) (replicate MAX_SACK_BLOCKS (0, 0))))" if "s \<in> strings" for s
      using probe_with_result(2)[of s "options s" mss wscale ts permitted sack "the (?probe s)"] h[OF that] p that by auto
    then show "bm_cases r = length alphabet ^ (len_words * 4)
      \<and> (bm_violations r = 0 \<longleftrightarrow> (\<forall>s\<in>strings. snd (the (sack (options s) (replicate MAX_SACK_BLOCKS (0, 0)))) \<le> MAX_SACK_BLOCKS))"
      unfolding r foldl_check by (auto simp: bmc_report_new_def strings_count filter_empty_conv xs not_less)
  qed
  have f: "foldl bmc_check r (map (\<lambda>s. the (probe_options s)) xs) = r\<lparr>bm_cases := bm_cases r + length xs\<rparr>" for xs and r :: "nat bmc_report"
    by (induction xs arbitrary: r) (simp_all add: bmc_check_def probe_total)
  show "check_option_strings alphabet words = Some \<lparr>bm_cases = length alphabet ^ (words * 4), bm_violations = 0, bm_first = None\<rparr>"
    by (simp add: check_option_strings_def check_strings_with_def enumerate_is_fold fold_probe f strings_count)
      (simp add: probe_total bmc_report_new_def)
qed

text \<open>An accessor that panics on a timestamps option of the wrong length is found among the strings of one word.\<close>

theorem option_sweep_clean_witness:
  "check_strings_with (probe_with mss_checked window_scale_checked
      (\<lambda>pkt. if tcp_options pkt = [8, 4, 0, 0] then None else Some ()) sack_permitted_checked sack_blocks_checked) [0, 4, 8] 1 = None
    \<and> check_option_strings [0, 4, 8] 1 = Some \<lparr>bm_cases = 81, bm_violations = 0, bm_first = None\<rparr>"
proof -
  let ?ts = "\<lambda>pkt. if tcp_options pkt = [8, 4, 0, 0] then None else Some ()"
  have o: "(1::nat) \<le> 10" by simp
  note w = option_sweep_clean[OF o, of "[0, 4, 8]" mss_checked window_scale_checked ?ts sack_permitted_checked sack_blocks_checked 1]
  have s: "[8, 4, 0, 0] \<in> {s :: bytes. length s = 1 * 4 \<and> set s \<subseteq> set [0, 4, 8]}" by simp
  from w[THEN conjunct1] s have "tcp_options (the (probe_header [8, 4, 0, 0])) = [8, 4, 0, 0]" by blast
  then have t: "?ts (the (probe_header [8, 4, 0, 0])) = None" by simp
  have "check_strings_with (probe_with mss_checked window_scale_checked ?ts sack_permitted_checked sack_blocks_checked) [0, 4, 8] 1 = None"
  proof (rule ccontr)
    assume "check_strings_with (probe_with mss_checked window_scale_checked ?ts sack_permitted_checked sack_blocks_checked) [0, 4, 8] 1 \<noteq> None"
    from bspec[OF iffD1[OF w[THEN conjunct2, THEN conjunct1] this] s] t show False by (elim conjE) (rule notE)
  qed
  moreover have "length [0, 4, 8 :: u8] ^ (1 * 4) = (81 :: nat)" by (simp add: power_Suc eval_nat_numeral)
  ultimately show ?thesis using w[THEN conjunct2, THEN conjunct2, THEN conjunct2] by (intro conjI) simp_all
qed

end
