(* ===== verification/Synth_Sweep.thy ===== *)
theory Synth_Sweep
  imports Bmc_Controller
begin

text \<open>
  The sweep of \<open>bmc.rs\<close> over the synthesised controllers: which clauses of the envelope a
  program can break, in terms of its three responses. The two structural clauses hold for every
  program; each of the other three holds when the response that owns it is safe.
\<close>

section \<open>Safe responses\<close>

definition md_safe :: "instr list \<Rightarrow> bool" where
  "md_safe p \<longleftrightarrow> (\<forall>c fl. synth_inv c \<longrightarrow> cp_md (synth_prog c) = p \<longrightarrow> fl \<le> U32_MAX \<longrightarrow>
     synth_loss_target c fl \<le> max fl (2 * synth_mss c))"

definition ecn_safe :: "instr list \<Rightarrow> bool" where
  "ecn_safe p \<longleftrightarrow> (\<forall>c now n m. synth_inv c \<longrightarrow> cp_ecn (synth_prog c) = p \<longrightarrow>
     synth_cwnd (synth_on_ecn c now n m) \<le> synth_cwnd c)"

definition inc_safe :: "instr list \<Rightarrow> bool" where
  "inc_safe p \<longleftrightarrow> (\<forall>c now n c'. synth_inv c \<longrightarrow> cp_inc (synth_prog c) = p \<longrightarrow> synth_cwnd c \<le> SYNTH_CWND_CAP \<longrightarrow>
     synth_on_ack c now n = Some c' \<longrightarrow> synth_cwnd c \<le> synth_cwnd c')"

text \<open>A \<open>ControlProgram\<close> is three arrays of eight instructions.\<close>

definition program_ok :: "control_program \<Rightarrow> bool" where
  "program_ok p \<longleftrightarrow> prog_ok (cp_inc p) \<and> prog_ok (cp_md p) \<and> prog_ok (cp_ecn p)"

lemma repair_loss_safe: "program_ok p \<Longrightarrow> md_safe (cp_md (repair_loss p))"
  unfolding md_safe_def program_ok_def by (blast intro: repair_loss_target)

lemma repair_ecn_safe: "ecn_safe (cp_ecn (repair_ecn p))"
  unfolding ecn_safe_def by (simp add: repair_ecn_def seed_ecn_no_growth)

lemma repair_increase_safe: "program_ok p \<Longrightarrow> inc_safe (cp_inc (repair_increase p))"
  unfolding inc_safe_def program_ok_def by (blast intro: repair_increase_ack)

lemma repair_fields [simp]:
  "cp_inc (repair_loss p) = cp_inc p" "cp_ecn (repair_loss p) = cp_ecn p"
  "cp_inc (repair_ecn p) = cp_inc p" "cp_md (repair_ecn p) = cp_md p"
  "cp_md (repair_increase p) = cp_md p" "cp_ecn (repair_increase p) = cp_ecn p"
  by (simp_all add: repair_loss_def repair_ecn_def repair_increase_def)

lemma repair_ok:
  assumes "program_ok p"
  shows "program_ok (repair_loss p)" and "program_ok (repair_ecn p)" and "program_ok (repair_increase p)"
  using assms AIMD_ok by (simp_all add: program_ok_def repair_loss_def repair_ecn_def repair_increase_def)

section \<open>Every event\<close>

lemma synth_keeps:
  "synth_on_ack c now n = Some c' \<Longrightarrow> synth_prog c' = synth_prog c \<and> synth_ssthresh c' = synth_ssthresh c"
  "synth_prog (snd (synth_on_dup_ack c now fl)) = synth_prog c"
  "synth_prog (synth_enter_recovery c now fl) = synth_prog c"
  "synth_prog (synth_on_rto c now fl) = synth_prog c"
  "synth_prog (synth_on_ecn c now n m) = synth_prog c"
  "synth_prog (synth_on_rtt_sample c s) = synth_prog c"
  by (auto simp: synth_on_ack_def synth_on_dup_ack_def synth_enter_recovery_def synth_on_rto_def synth_on_ecn_def
      synth_on_rtt_sample_def Let_def split: if_splits bind_splits)

text \<open>Past slow start an acknowledgement leaves the window within its cap, in slow start it adds a segment.\<close>

lemma synth_ack_window:
  assumes "synth_inv c" and "synth_cwnd c \<le> SYNTH_CWND_CAP" and "synth_on_ack c now n = Some c'"
  shows "synth_cwnd c' \<le> SYNTH_CWND_CAP \<or> (synth_cwnd c < synth_ssthresh c \<and> synth_cwnd c' \<le> synth_cwnd c + synth_mss c)"
    and "synth_cwnd c < synth_ssthresh c \<Longrightarrow> synth_cwnd c' \<le> synth_cwnd c + synth_mss c"
proof -
  show ss: "synth_cwnd c' \<le> synth_cwnd c + synth_mss c" if "synth_cwnd c < synth_ssthresh c"
    using that assms(3) by (auto simp: synth_on_ack_def Let_def synth_in_slow_start_def sat_add32_def split: if_splits)
  show "synth_cwnd c' \<le> SYNTH_CWND_CAP \<or> (synth_cwnd c < synth_ssthresh c \<and> synth_cwnd c' \<le> synth_cwnd c + synth_mss c)"
  proof (cases "synth_cwnd c < synth_ssthresh c \<or> n = 0")
    case True
    then show ?thesis
    proof
      assume "n = 0"
      then show ?thesis using assms(2,3) by (auto simp: synth_on_ack_def Let_def)
    qed (use ss in blast)
  next
    case False
    define step where "step = fmul (synth_eval (cp_inc (synth_prog c)) (synth_signals c (synth_cwnd c) n)) (f64_of_nat (synth_mss c))"
    obtain r where r: "step = Fin r"
      using guarded_times_mss[OF synth_eval_guarded] assms(1) by (metis length_signals synth_inv_def step_def)
    define grow where "grow = (\<lambda>w. synth_to_cwnd (fadd (f64_of_nat w) step) (synth_mss c))"
    have g: "synth_mss c \<le> grow w \<and> grow w \<le> SYNTH_CWND_CAP" if "w \<le> SYNTH_CWND_CAP" for w
    proof -
      have "f64_of_nat w = Fin (of_nat w)" using that by (intro f64_of_u32) (simp add: SYNTH_CWND_CAP_def U32_MAX_def)
      then have "fadd (f64_of_nat w) step \<noteq> NaN" by (simp add: r f64_of_def Let_def)
      then show ?thesis unfolding grow_def
        using assms(1) by (intro synth_to_cwnd_ge) (simp_all add: synth_inv_def SYNTH_CWND_CAP_def)
    qed
    obtain acc' w' where l: "ca_loop grow (sat_add32 (synth_ca_acc c) n) (synth_cwnd c) = Some (acc', w')" "w' \<le> SYNTH_CWND_CAP"
      using ca_loop_ends[of "\<lambda>w. synth_mss c \<le> w \<and> w \<le> SYNTH_CWND_CAP" "synth_cwnd c" grow] g assms(1,2)
      by (fastforce simp: synth_inv_def)
    have s: "synth_signals (c\<lparr>synth_dup_acks := 0\<rparr>) = synth_signals c"
      by (simp add: fun_eq_iff synth_signals_def)
    show ?thesis using False assms(3) l
      by (auto simp: synth_on_ack_def Let_def synth_in_slow_start_def s simp flip: step_def grow_def)
  qed
qed

lemma synth_target_cap:
  assumes "synth_inv c"
  shows "2 * synth_mss c \<le> synth_loss_target c fl \<and> synth_loss_target c fl \<le> SYNTH_CWND_CAP"
proof -
  obtain r where "fmul (synth_eval (cp_md (synth_prog c)) (synth_signals c fl 0)) (f64_of_nat (synth_mss c)) = Fin r"
    using guarded_times_mss[OF synth_eval_guarded] assms by (metis length_signals synth_inv_def)
  then show ?thesis
    using synth_to_cwnd_ge[of "2 * synth_mss c" "Fin r"] assms
    by (auto simp: synth_loss_target_def synth_inv_def SYNTH_CWND_CAP_def)
qed

text \<open>An ECN round either leaves window and threshold alone or sets both to one value within the cap.\<close>

lemma synth_ecn_window:
  assumes "synth_inv c"
  shows "(synth_cwnd (synth_on_ecn c now n m) = synth_cwnd c \<and> synth_ssthresh (synth_on_ecn c now n m) = synth_ssthresh c)
    \<or> (synth_cwnd (synth_on_ecn c now n m) = synth_ssthresh (synth_on_ecn c now n m)
        \<and> synth_cwnd (synth_on_ecn c now n m) \<le> SYNTH_CWND_CAP)"
proof -
  have w: "synth_to_cwnd (fmul (f64_of_nat (synth_cwnd c)) (fsub f_one (synth_eval (cp_ecn (synth_prog c)) s))) (synth_mss c) \<le> SYNTH_CWND_CAP"
    if sl: "length s = 8" for s
  proof -
    obtain r where r: "fsub f_one (synth_eval (cp_ecn (synth_prog c)) s) = Fin r"
      using guarded_complement[OF synth_eval_guarded[OF _ sl]] assms by (auto simp: synth_inv_def)
    show ?thesis
      using synth_to_cwnd_ge[of "synth_mss c" "fmul (f64_of_nat (synth_cwnd c)) (Fin r)"] assms
      by (auto simp: r f64_of_u32 synth_inv_def SYNTH_CWND_CAP_def f64_of_def Let_def)
  qed
  show ?thesis using w by (auto simp: synth_on_ecn_def Let_def)
qed

section \<open>What a sweep can report\<close>

text \<open>The states of a sweep after \<open>k\<close> events, and the violations a program may show in them.\<close>

definition synth_swept :: "control_program \<Rightarrow> nat \<Rightarrow> nat \<Rightarrow> synth \<Rightarrow> bool" where
  "synth_swept p m k c \<longleftrightarrow> synth_inv c \<and> synth_prog c = p \<and> synth_mss c = m
     \<and> (inc_safe (cp_inc p) \<longrightarrow> synth_cwnd c \<le> SYNTH_CWND_CAP
          \<and> (synth_cwnd c < synth_ssthresh c \<longrightarrow> synth_cwnd c \<le> (10 + k) * m))"

fun may_show :: "control_program \<Rightarrow> cc_violation \<Rightarrow> bool" where
  "may_show p (Loss_Inflated _ _ _) \<longleftrightarrow> \<not> md_safe (cp_md p)"
| "may_show p (Ecn_Grew _ _) \<longleftrightarrow> \<not> ecn_safe (cp_ecn p)"
| "may_show p (Ack_Shrank _ _) \<longleftrightarrow> \<not> inc_safe (cp_inc p)"
| "may_show p (Starved _ _) \<longleftrightarrow> False"
| "may_show p (Ssthresh_Low _ _) \<longleftrightarrow> False"

lemma may_show_bad:
  assumes "mss \<le> cwnd" and "\<And>fl. loss = Some fl \<Longrightarrow> 2 * mss \<le> ssthresh"
    and "\<And>fl. loss = Some fl \<Longrightarrow> md_safe (cp_md p) \<Longrightarrow> cwnd \<le> max fl (2 * mss)"
    and "is_ecn ev \<Longrightarrow> ecn_safe (cp_ecn p) \<Longrightarrow> cwnd \<le> before"
    and "is_clean_ack ev \<Longrightarrow> inc_safe (cp_inc p) \<Longrightarrow> before \<le> cwnd"
    and "cc_safety_invariants ev before cwnd ssthresh mss loss = Inl e"
  shows "may_show p e"
  using assms by (fastforce simp: cc_safety_invariants_def split: option.splits if_splits)

text \<open>A loss response: window and threshold are the target, or the window is one segment.\<close>

lemma synth_visit_loss:
  assumes c: "synth_swept p m k c" and fl: "fl \<le> U32_MAX" and i: "synth_inv c'" "synth_prog c' = p" "synth_mss c' = m"
    and s: "synth_ssthresh c' = synth_loss_target c fl" and w: "synth_cwnd c' = synth_loss_target c fl \<or> synth_cwnd c' = m"
  shows "synth_swept p m (Suc k) c' \<and>
    (\<forall>e. cc_safety_invariants ev (synth_cwnd c) (synth_cwnd c') (synth_ssthresh c') m (Some fl) = Inl e \<longrightarrow>
      \<not> is_ecn ev \<longrightarrow> \<not> is_clean_ack ev \<longrightarrow> may_show p e)"
proof -
  have ci: "synth_inv c" "synth_prog c = p" "synth_mss c = m" using c by (simp_all add: synth_swept_def)
  note t = synth_target_cap[OF ci(1), of fl]
  have "md_safe (cp_md p) \<Longrightarrow> synth_cwnd c' \<le> max fl (2 * m)"
    using w ci fl unfolding md_safe_def by (metis le_max_iff_disj le_square mult_2 trans_le_add1 le_refl)
  moreover have "m \<le> synth_cwnd c'" using i(1,3) by (simp add: synth_inv_def)
  moreover have "synth_cwnd c' \<le> SYNTH_CWND_CAP \<and> (synth_cwnd c' < synth_ssthresh c' \<longrightarrow> synth_cwnd c' \<le> (10 + Suc k) * m)"
    using w t s ci(3) i(1,3) by (auto simp: synth_inv_def SYNTH_CWND_CAP_def)
  ultimately show ?thesis
    using i s t ci(3) may_show_bad[of m "synth_cwnd c'" "Some fl" "synth_ssthresh c'" p ev "synth_cwnd c"]
    by (auto simp: synth_swept_def)
qed

lemma synth_visit:
  assumes c: "synth_swept p m k c" and m: "0 < m" "m \<le> 65535" and k: "(10 + Suc k) * m \<le> SYNTH_CWND_CAP"
    and ev: "ev \<in> set (cc_alphabet m)"
  shows "\<exists>c' v. cc_visit cc_safety_invariants m synth_ctl c ev = Some (c', v) \<and> synth_swept p m (Suc k) c'
    \<and> (\<forall>e. v = Inl e \<longrightarrow> may_show p e)"
proof -
  have i: "synth_inv c" "synth_prog c = p" "synth_mss c = m" using c by (simp_all add: synth_swept_def)
  have fl: "flight_bytes m x \<le> U32_MAX" for x by (rule flight_bytes_u32[OF m(2)])
  have f: "synth_mss c' \<le> synth_cwnd c'" if "synth_inv c'" for c' using that by (simp add: synth_inv_def)
  have cap: "inc_safe (cp_inc p) \<Longrightarrow> synth_cwnd c \<le> SYNTH_CWND_CAP"
    "inc_safe (cp_inc p) \<Longrightarrow> synth_cwnd c < synth_ssthresh c \<Longrightarrow> synth_cwnd c \<le> (10 + k) * m"
    using c by (simp_all add: synth_swept_def)
  show ?thesis
  proof (cases ev)
    case (B_Ack a)
    obtain c' where a: "synth_on_ack c CC_NOW a = Some c'" "synth_inv c'" "synth_mss c' = m"
      using synth_on_ack_total[OF i(1), of CC_NOW a] i(3) by auto
    note kp = synth_keeps(1)[OF a(1)]
    have grows: "synth_cwnd c \<le> synth_cwnd c'" if "inc_safe (cp_inc p)"
      using that i(1,2) a(1) cap(1) unfolding inc_safe_def by blast
    have "synth_swept p m (Suc k) c'"
    proof -
      have "synth_cwnd c' \<le> SYNTH_CWND_CAP \<and> (synth_cwnd c' < synth_ssthresh c' \<longrightarrow> synth_cwnd c' \<le> (10 + Suc k) * m)"
        if s: "inc_safe (cp_inc p)"
      proof (cases "synth_cwnd c < synth_ssthresh c")
        case True
        have "synth_cwnd c' \<le> synth_cwnd c + m" using synth_ack_window(2)[OF i(1) cap(1)[OF s] a(1) True] i(3) by simp
        also have "\<dots> \<le> (10 + Suc k) * m" using cap(2)[OF s True] by (simp add: algebra_simps)
        finally show ?thesis using k by simp
      next
        case False
        then show ?thesis using synth_ack_window(1)[OF i(1) cap(1)[OF s] a(1)] grows[OF s] kp by auto
      qed
      then show ?thesis using a kp i(2) by (simp add: synth_swept_def)
    qed
    moreover have "may_show p e" if "cc_safety_invariants ev (synth_cwnd c) (synth_cwnd c') (synth_ssthresh c') m None = Inl e" for e
      using f[OF a(2)] a(3) grows B_Ack by (intro may_show_bad[OF _ _ _ _ _ that]) simp_all
    ultimately show ?thesis using a(1) B_Ack by (simp add: cc_visit_def synth_ctl_def)
  next
    case (B_Ecn a n)
    let ?c = "synth_on_ecn c CC_NOW a n"
    have e: "synth_inv ?c" "synth_mss ?c = m" using synth_on_ecn_ok[OF i(1), of CC_NOW a n] i(3) by simp_all
    have "synth_cwnd ?c \<le> SYNTH_CWND_CAP \<and> (synth_cwnd ?c < synth_ssthresh ?c \<longrightarrow> synth_cwnd ?c \<le> (10 + Suc k) * m)"
      if "inc_safe (cp_inc p)"
      using synth_ecn_window[OF i(1), of CC_NOW a n] cap that by (auto intro: order_trans)
    then have "synth_swept p m (Suc k) ?c" using e synth_keeps(5) i(2) by (simp add: synth_swept_def)
    moreover have "may_show p x" if "cc_safety_invariants ev (synth_cwnd c) (synth_cwnd ?c) (synth_ssthresh ?c) m None = Inl x" for x
    proof (rule may_show_bad[OF _ _ _ _ _ that])
      show "ecn_safe (cp_ecn p) \<Longrightarrow> synth_cwnd ?c \<le> synth_cwnd c" using i unfolding ecn_safe_def by blast
    qed (use f[OF e(1)] e(2) B_Ecn in simp_all)
    ultimately show ?thesis using B_Ecn by (simp add: cc_visit_def synth_ctl_def)
  next
    case (B_Rtt s)
    let ?c = "synth_on_rtt_sample c s"
    have s: "synth_inv ?c" "synth_mss ?c = m" "synth_cwnd ?c = synth_cwnd c" "synth_ssthresh ?c = synth_ssthresh c"
      using i by (simp_all add: synth_on_rtt_sample_def synth_inv_def Let_def)
    have "(10 + k) * m \<le> (10 + Suc k) * m" by simp
    then have "synth_swept p m (Suc k) ?c"
      using c i(2) s synth_keeps(6) unfolding synth_swept_def by (metis order_trans)
    moreover have "may_show p x"
      if "cc_safety_invariants ev (synth_cwnd c) (synth_cwnd ?c) (synth_ssthresh ?c) m None = Inl x" for x
      using f[OF s(1)] s B_Rtt by (intro may_show_bad[OF _ _ _ _ _ that]) simp_all
    ultimately show ?thesis using B_Rtt by (simp add: cc_visit_def synth_ctl_def)
  next
    case (B_Dup_Ack x)
    obtain b c' where d: "synth_on_dup_ack c CC_NOW (flight_bytes m x) = (b, c')" by fastforce
    have e: "synth_inv c'" "synth_mss c' = m" "synth_prog c' = p"
      using synth_cc.dup_inv[OF i(1) fl[of x], of CC_NOW] synth_keeps(2)[of c CC_NOW "flight_bytes m x"] i d by simp_all
    have tg: "synth_loss_target (c\<lparr>synth_dup_acks := j\<rparr>) y = synth_loss_target c y" for j y
      by (simp add: synth_loss_target_def synth_signals_def)
    show ?thesis
    proof (cases b)
      case True
      then have "synth_ssthresh c' = synth_loss_target c (flight_bytes m x)" "synth_cwnd c' = synth_loss_target c (flight_bytes m x)"
        using d by (auto simp: synth_on_dup_ack_def Let_def tg split: if_splits)
      then show ?thesis
        using synth_visit_loss[OF c fl[of x] e(1,3,2), of ev] True d B_Dup_Ack by (simp add: cc_visit_def synth_ctl_def Let_def)
    next
      case False
      then have w: "synth_ssthresh c' = synth_ssthresh c" "synth_cwnd c' = synth_cwnd c"
        using d by (auto simp: synth_on_dup_ack_def Let_def split: if_splits)
      have "(10 + k) * m \<le> (10 + Suc k) * m" by simp
      then have "synth_swept p m (Suc k) c'" using c e w unfolding synth_swept_def by (metis order_trans)
      moreover have "may_show p y"
        if "cc_safety_invariants ev (synth_cwnd c) (synth_cwnd c') (synth_ssthresh c') m None = Inl y" for y
        using f[OF e(1)] e(2) w B_Dup_Ack by (intro may_show_bad[OF _ _ _ _ _ that]) simp_all
      ultimately show ?thesis using False d B_Dup_Ack by (simp add: cc_visit_def synth_ctl_def Let_def)
    qed
  next
    case (B_Rto x)
    let ?c = "synth_on_rto c CC_NOW (flight_bytes m x)"
    have "synth_inv ?c" "synth_mss ?c = m" "synth_prog ?c = p"
      using synth_cc.rto_inv[OF i(1) fl[of x], of CC_NOW] synth_keeps(4) i by simp_all
    moreover have "synth_ssthresh ?c = synth_loss_target c (flight_bytes m x)" "synth_cwnd ?c = m"
      using i(3) by (simp_all add: synth_on_rto_def)
    ultimately show ?thesis
      using synth_visit_loss[OF c fl[of x], of ?c ev] B_Rto by (simp add: cc_visit_def synth_ctl_def Let_def)
  next
    case (B_Enter_Recovery x)
    let ?c = "synth_enter_recovery c CC_NOW (flight_bytes m x)"
    have "synth_inv ?c" "synth_mss ?c = m" "synth_prog ?c = p"
      using synth_cc.recovery_inv[OF i(1) fl[of x], of CC_NOW] synth_keeps(3) i by simp_all
    moreover have "synth_ssthresh ?c = synth_loss_target c (flight_bytes m x)" "synth_cwnd ?c = synth_loss_target c (flight_bytes m x)"
      by (simp_all add: synth_enter_recovery_def Let_def)
    ultimately show ?thesis
      using synth_visit_loss[OF c fl[of x], of ?c ev] B_Enter_Recovery by (simp add: cc_visit_def synth_ctl_def Let_def)
  qed
qed

text \<open>
  A sweep of a new controller returns and reports only clauses owned by an unsafe response. The
  bound keeps the swept windows below the 1 GiB cap of the controller.
\<close>

lemma synth_sweep_reports:
  assumes "program_ok p" and "mss \<noteq> 0" and "(10 + depth) * unat mss \<le> SYNTH_CWND_CAP"
  shows "\<exists>r. check_controller_safety synth_ctl (synth_with_program mss p) (unat mss) depth = Some r
    \<and> report_ok (may_show p) r \<and> bm_cases r = tree_cases 17 depth"
proof -
  let ?m = "unat mss"
  have m: "0 < ?m" "?m \<le> 65535" using assms(2) by (simp_all add: unat_gt_0)
  have "initial_window ?m \<le> 10 * ?m" by (simp add: initial_window_def)
  moreover have "10 * ?m \<le> SYNTH_CWND_CAP" unfolding SYNTH_CWND_CAP_def using m(2) by linarith
  ultimately have new: "synth_swept p ?m 0 (synth_with_program mss p)"
    using synth_inv_new[OF assms(2)] assms(1)
    by (simp add: synth_swept_def program_ok_def synth_with_program_def)
  have "\<exists>r. explore_cc (cc_alphabet ?m) cc_safety_invariants ?m synth_ctl (synth_with_program mss p) depth bmc_report_new = Some r
      \<and> report_ok (may_show p) r \<and> bm_cases r = bm_cases (bmc_report_new :: cc_violation bmc_report) + tree_cases (length (cc_alphabet ?m)) depth"
  proof (rule cc_sweep.explore_reports[where I = "synth_swept p ?m" and k = 0 and n = depth])
    fix k c ev
    assume h: "k < depth" "synth_swept p ?m k c" "ev \<in> set (cc_alphabet ?m)"
    have "(10 + Suc k) * ?m \<le> (10 + depth) * ?m" using h(1) by (intro mult_right_mono) simp_all
    then show "\<exists>c' v. cc_visit cc_safety_invariants ?m synth_ctl c ev = Some (c', v) \<and> synth_swept p ?m (Suc k) c'
        \<and> (\<forall>e. v = Inl e \<longrightarrow> may_show p e)"
      by (rule synth_visit[OF h(2) m order_trans[OF _ assms(3)] h(3)])
  qed (use new report_ok_new in simp_all)
  then show ?thesis by (simp add: check_controller_safety_def run_cc_sweep_def bmc_report_new_def)
qed

end
