(* ===== verification/Rng.thy ===== *)
theory Rng
  imports Prelude
begin

text \<open>\<open>sim.rs\<close>, \<open>Rng\<close>: the SplitMix64 generator, on 64-bit words.\<close>

record rng =
  rng_state :: u64

definition rng_new :: "u64 \<Rightarrow> rng" where
  "rng_new seed = \<lparr>rng_state = seed\<rparr>"

definition next_u64 :: "rng \<Rightarrow> u64 \<times> rng" where
  "next_u64 self =
     (let state = rng_state self + 0x9E3779B97F4A7C15;
          z = (state XOR drop_bit 30 state) * 0xBF58476D1CE4E5B9;
          z = (z XOR drop_bit 27 z) * 0x94D049BB133111EB
      in (z XOR drop_bit 31 z, self\<lparr>rng_state := state\<rparr>))"

text \<open>A zero probability draws nothing.\<close>

definition chance_ppm :: "rng \<Rightarrow> nat \<Rightarrow> bool \<times> rng" where
  "chance_ppm self ppm =
     (if ppm = 0 then (False, self)
      else case next_u64 self of (x, self) \<Rightarrow> (unat x mod 1000000 < ppm, self))"

definition below :: "rng \<Rightarrow> nat \<Rightarrow> nat \<times> rng" where
  "below self n =
     (if n = 0 then (0, self) else case next_u64 self of (x, self) \<Rightarrow> (unat x mod n, self))"

lemma below_less: "0 < n \<Longrightarrow> fst (below self n) < n"
  by (simp add: below_def split: prod.split)

lemma chance_never: "chance_ppm self 0 = (False, self)"
  by (simp add: chance_ppm_def)

lemma chance_always: "1000000 \<le> ppm \<Longrightarrow> fst (chance_ppm self ppm)"
  using mod_less_divisor[of 1000000] by (auto simp: chance_ppm_def intro: less_le_trans split: prod.split)

end
