(* ===== verification/Synthesis.thy ===== *)
theory Synthesis
  imports Synth_Sweep Rng
begin

text \<open>
  \<open>sim.rs\<close>, the synthesis of control laws modulo verification: the counterexample-guided
  repair, the genetic operators, the search with the checker as filter or repair operator, and
  the exhaustive search of the single-operation ECN responses. The score of a program on the
  training scenarios (\<open>synth_frontier_fitness\<close>, a run of the network simulator) is the
  argument \<open>fit\<close>; nothing below depends on its values except where a hypothesis says so.
\<close>

section \<open>Counterexample-guided repair\<close>

text \<open>The iterations left are the first argument.\<close>

fun repair_loop :: "nat \<Rightarrow> control_program \<Rightarrow> u16 \<Rightarrow> nat \<Rightarrow> nat \<Rightarrow> (control_program \<times> nat) option" where
  "repair_loop 0 prog mss depth repairs = Some (AIMD, repairs)"
| "repair_loop (Suc k) prog mss depth repairs = do {
     report \<leftarrow> check_controller_safety synth_ctl (synth_with_program mss prog) (unat mss) depth;
     if bm_violations report = 0 then Some (prog, repairs)
     else repair_loop k
       (case bm_first report of
          Some (Loss_Inflated _ _ _) \<Rightarrow> repair_loss prog
        | Some (Ecn_Grew _ _) \<Rightarrow> repair_ecn prog
        | Some (Ack_Shrank _ _) \<Rightarrow> repair_increase prog
        | _ \<Rightarrow> AIMD) mss depth (repairs + 1)
   }"

definition repair_to_safe :: "control_program \<Rightarrow> u16 \<Rightarrow> nat \<Rightarrow> (control_program \<times> nat) option" where
  "repair_to_safe prog mss depth = repair_loop 4 prog mss depth 0"

section \<open>The genetic operators\<close>

definition SUBS :: nat where "SUBS = 3"

definition ALL_OPS :: "synth_op list" where
  "ALL_OPS = [OpAdd, OpSub, OpMul, OpDiv, OpMin, OpMax]"

definition sub_program :: "control_program \<Rightarrow> nat \<Rightarrow> instr list" where
  "sub_program self which = (if which = 0 then cp_inc self else if which = 1 then cp_md self else cp_ecn self)"

definition set_sub_program :: "control_program \<Rightarrow> nat \<Rightarrow> instr list \<Rightarrow> control_program" where
  "set_sub_program self which sub =
     (if which = 0 then self\<lparr>cp_inc := sub\<rparr> else if which = 1 then self\<lparr>cp_md := sub\<rparr> else self\<lparr>cp_ecn := sub\<rparr>)"

definition mutate_once :: "rng \<Rightarrow> control_program \<Rightarrow> control_program \<times> rng" where
  "mutate_once rng prog =
     (let (which, rng) = below rng SUBS;
          (slot, rng) = below rng SYNTH_PROG_LEN;
          (field, rng) = below rng 3;
          max_operand = SYNTH_REGS_IN + slot;
          sub = sub_program prog which;
          cur = sub ! slot;
          (ins, rng) =
            (if field = 0 then (case below rng (length ALL_OPS) of (i, rng) \<Rightarrow> (cur\<lparr>i_op := ALL_OPS ! i\<rparr>, rng))
             else if field = 1 then (case below rng max_operand of (a, rng) \<Rightarrow> (cur\<lparr>i_a := word_of_nat a\<rparr>, rng))
             else (case below rng max_operand of (b, rng) \<Rightarrow> (cur\<lparr>i_b := word_of_nat b\<rparr>, rng)))
      in (set_sub_program prog which (sub[slot := ins]), rng))"

fun mutate_loop :: "nat \<Rightarrow> rng \<Rightarrow> control_program \<Rightarrow> control_program \<times> rng" where
  "mutate_loop 0 rng prog = (prog, rng)"
| "mutate_loop (Suc n) rng prog = (case mutate_once rng prog of (prog, rng) \<Rightarrow> mutate_loop n rng prog)"

definition synth_mutate :: "rng \<Rightarrow> control_program \<Rightarrow> nat \<Rightarrow> control_program \<times> rng" where
  "synth_mutate rng prog n = mutate_loop (max n 1) rng prog"

definition synth_crossover :: "rng \<Rightarrow> control_program \<Rightarrow> control_program \<Rightarrow> control_program \<times> rng" where
  "synth_crossover rng a b =
     fold (\<lambda>which (child, rng). case below rng 2 of (coin, rng) \<Rightarrow>
         (if coin = 1 then set_sub_program child which (sub_program b which) else child, rng))
       [0..<SUBS] (a, rng)"

section \<open>The search\<close>

definition SYNTH_REJECT :: f64 where
  "SYNTH_REJECT = f64_of (- (10 ^ 18))"

type_synonym candidate = "control_program \<times> f64"

record tallies =
  tl_rejected :: nat
  tl_repaired :: nat
  tl_evaluated :: nat

definition evolve_eval ::
  "(control_program \<Rightarrow> f64) \<Rightarrow> u16 \<Rightarrow> nat \<Rightarrow> bool \<Rightarrow> control_program \<Rightarrow> tallies \<Rightarrow> (candidate \<times> tallies) option" where
  "evolve_eval fit mss depth repair prog tally =
     (let tally = tally\<lparr>tl_evaluated := tl_evaluated tally + 1\<rparr> in
      if repair then do {
        (safe, n) \<leftarrow> repair_to_safe prog mss depth;
        Some ((safe, fit safe), if 0 < n then tally\<lparr>tl_repaired := tl_repaired tally + 1\<rparr> else tally)
      }
      else do {
        report \<leftarrow> check_controller_safety synth_ctl (synth_with_program mss prog) (unat mss) depth;
        Some (if 0 < bm_violations report
              then ((prog, SYNTH_REJECT), tally\<lparr>tl_rejected := tl_rejected tally + 1\<rparr>)
              else ((prog, fit prog), tally))
      })"

text \<open>The first generation: \<open>k\<close> more mutants of the seed.\<close>

fun seed_loop ::
  "(control_program \<Rightarrow> tallies \<Rightarrow> (candidate \<times> tallies) option) \<Rightarrow> nat \<Rightarrow> rng \<Rightarrow> tallies \<Rightarrow> candidate list
    \<Rightarrow> (rng \<times> tallies \<times> candidate list) option" where
  "seed_loop ev 0 rng tally population = Some (rng, tally, population)"
| "seed_loop ev (Suc k) rng tally population =
     (case below rng 3 of (m, rng) \<Rightarrow>
      case synth_mutate rng AIMD (1 + m) of (child, rng) \<Rightarrow>
        do { (scored, tally) \<leftarrow> ev child tally; seed_loop ev k rng tally (population @ [scored]) })"

definition better :: "candidate \<Rightarrow> candidate \<Rightarrow> candidate" where
  "better cand best = (if flt (snd best) (snd cand) then cand else best)"

text \<open>The stable sort by descending score.\<close>

fun insert_desc :: "candidate \<Rightarrow> candidate list \<Rightarrow> candidate list" where
  "insert_desc x [] = [x]"
| "insert_desc x (y # ys) = (if flt (snd y) (snd x) then x # y # ys else y # insert_desc x ys)"

definition sort_desc :: "candidate list \<Rightarrow> candidate list" where
  "sort_desc xs = fold insert_desc xs []"

definition pick :: "rng \<Rightarrow> 'a list \<Rightarrow> ('a \<times> rng) option" where
  "pick rng xs = (case below rng (length xs) of (i, rng) \<Rightarrow> if i < length xs then Some (xs ! i, rng) else None)"

text \<open>The rest of a generation: \<open>k\<close> children of the elites.\<close>

fun breed_loop ::
  "(control_program \<Rightarrow> tallies \<Rightarrow> (candidate \<times> tallies) option) \<Rightarrow> control_program list \<Rightarrow> nat \<Rightarrow> rng \<Rightarrow> tallies \<Rightarrow> candidate
    \<Rightarrow> candidate list \<Rightarrow> (rng \<times> tallies \<times> candidate \<times> candidate list) option" where
  "breed_loop ev elites 0 rng tally best nxt = Some (rng, tally, best, nxt)"
| "breed_loop ev elites (Suc k) rng tally best nxt = do {
     (pa, rng) \<leftarrow> pick rng elites;
     (pb, rng) \<leftarrow> pick rng elites;
     let (crossed, rng) = synth_crossover rng pa pb;
     let (m, rng) = below rng 3;
     let (child, rng) = synth_mutate rng crossed (1 + m);
     (scored, tally) \<leftarrow> ev child tally;
     breed_loop ev elites k rng tally (better scored best) (nxt @ [scored])
   }"

fun generation_loop ::
  "(control_program \<Rightarrow> tallies \<Rightarrow> (candidate \<times> tallies) option) \<Rightarrow> nat \<Rightarrow> nat \<Rightarrow> nat \<Rightarrow> rng \<Rightarrow> tallies \<Rightarrow> candidate
    \<Rightarrow> candidate list \<Rightarrow> (tallies \<times> candidate) option" where
  "generation_loop ev n_elite pop 0 rng tally best population = Some (tally, best)"
| "generation_loop ev n_elite pop (Suc g) rng tally best population =
     (let elite = take (min n_elite (length population)) (sort_desc population) in do {
        (rng, tally, best, nxt) \<leftarrow> breed_loop ev (map fst elite) (max pop 1 - length elite) rng tally best elite;
        generation_loop ev n_elite pop g rng tally best nxt
      })"

record synth_report =
  sr_best :: control_program
  sr_best_fit :: f64
  sr_seed_fit :: f64
  sr_tally :: tallies

definition evolve_control_law ::
  "(control_program \<Rightarrow> f64) \<Rightarrow> nat \<Rightarrow> nat \<Rightarrow> nat \<Rightarrow> u16 \<Rightarrow> nat \<Rightarrow> u64 \<Rightarrow> bool \<Rightarrow> synth_report option" where
  "evolve_control_law fit generations pop elite mss depth seed repair = do {
     let rng = rng_new (seed XOR 0x5717C0DE5717C0DE);
     let ev = evolve_eval fit mss depth repair;
     ((_, seed_fit), tally) \<leftarrow> ev AIMD \<lparr>tl_rejected = 0, tl_repaired = 0, tl_evaluated = 0\<rparr>;
     (rng, tally, population) \<leftarrow> seed_loop ev (max pop 1 - 1) rng tally [(AIMD, seed_fit)];
     let best = fold better population (hd population);
     let n_elite = clamp_nat elite 1 (max pop 1);
     (tally, best) \<leftarrow> generation_loop ev n_elite pop generations rng tally best population;
     Some \<lparr>sr_best = fst best, sr_best_fit = snd best, sr_seed_fit = seed_fit, sr_tally = tally\<rparr>
   }"

section \<open>The exhaustive search\<close>

record exhaust_report =
  ex_best :: control_program
  ex_best_fit :: f64
  ex_total :: nat
  ex_safe :: nat

definition ecn_class :: "control_program list" where
  "ecn_class = concat (map (\<lambda>op. concat (map (\<lambda>a. map (\<lambda>b. aimd_with_ecn_op op (word_of_nat a) (word_of_nat b))
     [0..<SYNTH_REGS_IN]) [0..<SYNTH_REGS_IN])) ALL_OPS)"

text \<open>\<open>None\<close> is the panic of \<open>expect\<close> on an empty class of safe programs.\<close>

definition exhaust_ecn_response :: "(control_program \<Rightarrow> f64) \<Rightarrow> u16 \<Rightarrow> nat \<Rightarrow> exhaust_report option" where
  "exhaust_ecn_response fit mss depth = do {
     (best, tot, safe) \<leftarrow> fold_option (\<lambda>prog (best, tot, safe). do {
         report \<leftarrow> check_controller_safety synth_ctl (synth_with_program mss prog) (unat mss) depth;
         Some (if 0 < bm_violations report then (best, tot + 1, safe)
               else let f = fit prog in
                 (if (case best of None \<Rightarrow> True | Some (_, g) \<Rightarrow> flt g f) then Some (prog, f) else best, tot + 1, safe + 1))
       }) ecn_class (None, 0, 0);
     (p, f) \<leftarrow> best;
     Some \<lparr>ex_best = p, ex_best_fit = f, ex_total = tot, ex_safe = safe\<rparr>
   }"

end
