(* ===== verification/Synthesis_Safe.thy ===== *)
theory Synthesis_Safe
  imports Synthesis
begin

text \<open>
  The synthesis loop is safe: the repair always ends with a program the checker accepts, and so
  do the search, in both of its modes, and the exhaustive search.
\<close>

section \<open>The seed law is safe\<close>

lemma f64_of_halves:
  assumes "0 \<le> q" and "f64_of (q / 2) = Fin x" and "q \<le> 4294967296"
  shows "0 \<le> x \<and> x \<le> q / 2 + 1 / 1048576"
proof -
  have "x = round_mag (q / 2)" using assms(1,2) by (simp add: f64_of_def Let_def split: if_splits)
  then show ?thesis using round_mag_small[of "q / 2"] round_mag_nonneg[of "q / 2"] assms(1,3) by simp
qed

lemma flight_segments_bound:
  assumes "q * of_nat m \<le> of_nat fl + 1 / 2" and "fl \<le> U32_MAX" and "0 < m" and "0 \<le> q"
  shows "q \<le> (4294967296 :: rat)"
proof -
  have "q * 1 \<le> q * of_nat m" using assms(3,4) by (intro mult_left_mono) (simp_all add: Suc_leI)
  moreover have "of_nat fl \<le> (4294967295 :: rat)" using assms(2) by (metis U32_MAX_def of_nat_le_iff of_nat_numeral)
  ultimately show ?thesis using assms(1) by linarith
qed

lemma AIMD_md_safe: "md_safe (cp_md AIMD)"
  unfolding md_safe_def
proof (intro allI impI)
  fix c fl assume c: "synth_inv c" "cp_md (synth_prog c) = cp_md AIMD" "fl \<le> U32_MAX"
  define m where "m = synth_mss c"
  have m: "0 < m" "m \<le> 65535" using c(1) by (simp_all add: synth_inv_def m_def)
  obtain q where q: "fdiv (f64_of_nat fl) (f64_of_nat m) = Fin q" "0 \<le> q" "q * of_nat m \<le> of_nat fl + 1 / 2"
    using flight_segments[OF c(3) m] by blast
  have qm: "q \<le> 4294967296" by (rule flight_segments_bound[OF q(3) c(3) m(1) q(2)])
  have rep: "f64_rep (of_nat 4294967296)" by (rule f64_rep_nat) simp
  obtain x where x: "f64_of (q / 2) = Fin x"
    using f64_of_between[OF f64_rep_0 rep, of "q / 2"] q(2) qm by auto
  note xb = f64_of_halves[OF q(2) x qm]
  have s: "synth_signals c fl 0 ! 1 = Fin q" "synth_signals c fl 0 ! 5 = Fin (1 / 2)"
    using signals_flight[of c fl 0] m q(1) by (simp_all add: m_def) (simp add: synth_signals_def Let_def)
  have "synth_eval (cp_md (synth_prog c)) (synth_signals c fl 0) = synth_guard (Fin x)"
    using seed_eval[of "synth_signals c fl 0" R_FLIGHT R_HALF OpMul] s x
    by (simp add: c(2) AIMD_def R_FLIGHT_def R_HALF_def synth_apply_def)
  moreover obtain t where t: "synth_guard (Fin x) = Fin t" "t \<le> x"
    using xb by (cases "1000000000 < x") (simp_all add: synth_guard_def clamp_f64_def SYNTH_CAP_def)
  ultimately have ev: "synth_eval (cp_md (synth_prog c)) (synth_signals c fl 0) = Fin t" by simp
  have "t \<le> q / 2 + 1 / 1048576" using t(2) xb by linarith
  then have "t * of_nat m \<le> (q / 2 + 1 / 1048576) * of_nat m" by (intro mult_right_mono) simp_all
  also have "\<dots> = q * of_nat m / 2 + of_nat m / 1048576" by (simp add: distrib_right)
  also have "\<dots> \<le> of_nat fl + 1 / 2"
  proof -
    have "(of_nat m :: rat) \<le> 65535" using m(2) by simp
    moreover have "(0 :: rat) \<le> of_nat fl" by simp
    ultimately show ?thesis using q(3) by linarith
  qed
  finally show "synth_loss_target c fl \<le> max fl (2 * synth_mss c)"
    using loss_target_le[OF c(1,3) ev] by (simp add: m_def)
qed

lemma AIMD_inc_safe: "inc_safe (cp_inc AIMD)"
  unfolding inc_safe_def
proof (intro allI impI)
  fix c now n c'
  assume c: "synth_inv c" "cp_inc (synth_prog c) = cp_inc AIMD" "synth_cwnd c \<le> SYNTH_CWND_CAP" "synth_on_ack c now n = Some c'"
  have "synth_signals c (synth_cwnd c) n ! 6 = Fin 1" by (simp add: synth_signals_def Let_def)
  then have "synth_eval (cp_inc (synth_prog c)) (synth_signals c (synth_cwnd c) n) = synth_guard (Fin 1)"
    using seed_eval[of "synth_signals c (synth_cwnd c) n" R_ONE R_ONE OpMax]
    by (simp add: c(2) AIMD_def R_ONE_def synth_apply_def)
  also have "\<dots> = Fin 1" by (simp add: synth_guard_def clamp_f64_def SYNTH_CAP_def)
  finally have "fmul (synth_eval (cp_inc (synth_prog c)) (synth_signals c (synth_cwnd c) n)) (f64_of_nat (synth_mss c))
      = Fin (of_nat (synth_mss c))"
    using c(1) f64_rep_nat[of "synth_mss c"] by (simp add: f64_of_u32 synth_inv_def U32_MAX_def f64_rep_def)
  then show "synth_cwnd c \<le> synth_cwnd c'" using upward_step_ack[OF c(1) _ c(3,4)] by auto
qed

section \<open>Passing the checker\<close>

definition passes :: "control_program \<Rightarrow> u16 \<Rightarrow> nat \<Rightarrow> bool" where
  "passes p mss depth \<longleftrightarrow>
     (case check_controller_safety synth_ctl (synth_with_program mss p) (unat mss) depth of
        Some r \<Rightarrow> bm_violations r = 0 | None \<Rightarrow> False)"

lemma safe_passes:
  assumes "program_ok p" and "mss \<noteq> 0" and "(10 + depth) * unat mss \<le> SYNTH_CWND_CAP"
    and "md_safe (cp_md p)" and "ecn_safe (cp_ecn p)" and "inc_safe (cp_inc p)"
  shows "passes p mss depth"
proof -
  obtain r where r: "check_controller_safety synth_ctl (synth_with_program mss p) (unat mss) depth = Some r"
    "report_ok (may_show p) r" using synth_sweep_reports[OF assms(1-3)] by blast
  have "\<not> may_show p e" for e using assms(4-6) by (cases e) simp_all
  then have "bm_first r = None" using r(2) by (cases "bm_first r") (auto simp: report_ok_def)
  then show ?thesis using r by (simp add: passes_def report_ok_def)
qed

lemma AIMD_passes: "mss \<noteq> 0 \<Longrightarrow> (10 + depth) * unat mss \<le> SYNTH_CWND_CAP \<Longrightarrow> passes AIMD mss depth"
  using AIMD_ok AIMD_md_safe AIMD_inc_safe repair_ecn_safe[of AIMD]
  by (intro safe_passes) (simp_all add: program_ok_def repair_ecn_def)

section \<open>The repair converges\<close>

text \<open>Each response of the result is the original one or its repair.\<close>

definition lineage :: "control_program \<Rightarrow> control_program \<Rightarrow> bool" where
  "lineage p q \<longleftrightarrow> cp_inc q \<in> {cp_inc p, cp_inc (repair_increase p)}
     \<and> cp_md q \<in> {cp_md p, cp_md (repair_loss p)} \<and> cp_ecn q \<in> {cp_ecn p, cp_ecn AIMD}"

lemma lineage_step:
  "lineage p p"
  "lineage (repair_loss p) q \<Longrightarrow> lineage p q"
  "lineage (repair_ecn p) q \<Longrightarrow> lineage p q"
  "lineage (repair_increase p) q \<Longrightarrow> lineage p q"
  by (auto simp: lineage_def repair_loss_def repair_ecn_def repair_increase_def)

definition unsafe_responses :: "control_program \<Rightarrow> nat" where
  "unsafe_responses p = (if md_safe (cp_md p) then 0 else 1) + (if ecn_safe (cp_ecn p) then 0 else 1)
     + (if inc_safe (cp_inc p) then 0 else 1)"

lemma repair_progress:
  assumes "program_ok p" and "may_show p e"
  defines "q \<equiv> (case e of Loss_Inflated _ _ _ \<Rightarrow> repair_loss p | Ecn_Grew _ _ \<Rightarrow> repair_ecn p
      | Ack_Shrank _ _ \<Rightarrow> repair_increase p | _ \<Rightarrow> AIMD)"
  shows "program_ok q \<and> unsafe_responses q < unsafe_responses p \<and> (\<forall>s. lineage q s \<longrightarrow> lineage p s)"
  using assms(2) repair_loss_safe[OF assms(1)] repair_ecn_safe[of p] repair_increase_safe[OF assms(1)] repair_ok[OF assms(1)]
    lineage_step(2-4)[of p]
  by (cases e) (simp_all add: q_def unsafe_responses_def)

lemma repair_loop_converges:
  assumes "mss \<noteq> 0" and "(10 + depth) * unat mss \<le> SYNTH_CWND_CAP"
  shows "program_ok p \<Longrightarrow> unsafe_responses p < k \<Longrightarrow>
    \<exists>q n. repair_loop k p mss depth r = Some (q, r + n) \<and> n \<le> unsafe_responses p \<and> program_ok q \<and> passes q mss depth
      \<and> lineage p q \<and> (n = 0 \<longleftrightarrow> passes p mss depth) \<and> (n = 0 \<longrightarrow> q = p)"
proof (induction k arbitrary: p r)
  case 0
  then show ?case by simp
next
  case (Suc k)
  obtain rep where rep: "check_controller_safety synth_ctl (synth_with_program mss p) (unat mss) depth = Some rep"
    "report_ok (may_show p) rep" using synth_sweep_reports[OF Suc.prems(1) assms] by blast
  show ?case
  proof (cases "bm_violations rep = 0")
    case True
    then show ?thesis using rep(1) Suc.prems(1) lineage_step(1) by (intro exI[of _ p] exI[of _ 0]) (simp add: passes_def)
  next
    case False
    then obtain e where e: "bm_first rep = Some e" "may_show p e" using rep(2) by (auto simp: report_ok_def)
    define q where "q = (case e of Loss_Inflated _ _ _ \<Rightarrow> repair_loss p | Ecn_Grew _ _ \<Rightarrow> repair_ecn p
      | Ack_Shrank _ _ \<Rightarrow> repair_increase p | _ \<Rightarrow> AIMD)"
    have q: "program_ok q" "unsafe_responses q < unsafe_responses p" "\<And>s. lineage q s \<Longrightarrow> lineage p s"
      using repair_progress[OF Suc.prems(1) e(2)] by (simp_all add: q_def)
    have run: "repair_loop (Suc k) p mss depth r = repair_loop k q mss depth (r + 1)"
      using rep(1) False e(1) by (simp add: q_def)
    obtain s n where s: "repair_loop k q mss depth (r + 1) = Some (s, r + 1 + n)" "n \<le> unsafe_responses q"
      "program_ok s" "passes s mss depth" "lineage q s"
      using Suc.IH[OF q(1), of "r + 1"] q(2) Suc.prems(2) by auto
    have "\<not> passes p mss depth" using rep(1) False by (simp add: passes_def)
    then show ?thesis using s q run by (intro exI[of _ s] exI[of _ "Suc n"]) simp
  qed
qed

text \<open>
  C34: the repair converges. For any program, segment size and checker depth (within the depth
  that keeps the window below its 1 GiB cap), \<open>repair_to_safe\<close> returns after at most three
  repairs a program on which the checker finds no violation, so the fallback after the fourth
  check is never taken. Every response of the result is the given one or its repair, and no
  repair is made exactly when the given program already passes.
\<close>

theorem repair_converges:
  assumes "program_ok prog" and "mss \<noteq> 0" and "(10 + depth) * unat mss \<le> SYNTH_CWND_CAP"
  shows "\<exists>q n. repair_to_safe prog mss depth = Some (q, n) \<and> n \<le> 3 \<and> passes q mss depth
    \<and> cp_inc q \<in> {cp_inc prog, cp_inc (repair_increase prog)} \<and> cp_md q \<in> {cp_md prog, cp_md (repair_loss prog)}
    \<and> cp_ecn q \<in> {cp_ecn prog, cp_ecn AIMD} \<and> (n = 0 \<longleftrightarrow> passes prog mss depth) \<and> (n = 0 \<longrightarrow> q = prog)"
proof -
  have u: "unsafe_responses prog \<le> 3" by (simp add: unsafe_responses_def)
  then obtain q n where "repair_loop 4 prog mss depth 0 = Some (q, 0 + n)" "n \<le> unsafe_responses prog" "passes q mss depth"
    "lineage prog q" "n = 0 \<longleftrightarrow> passes prog mss depth" "n = 0 \<longrightarrow> q = prog"
    using repair_loop_converges[OF assms(2,3,1), of 4 0] by auto
  then show ?thesis using u unfolding repair_to_safe_def lineage_def by auto
qed

theorem repair_converges_witness:
  "\<exists>q n. repair_to_safe \<lparr>cp_inc = seed_prog OpSub R_HALF R_ONE, cp_md = seed_prog OpAdd R_FLIGHT R_FLIGHT,
      cp_ecn = seed_prog OpSub R_HALF R_ONE\<rparr> 1000 4 = Some (q, n) \<and> n \<le> 3 \<and> passes q 1000 4"
proof -
  let ?p = "\<lparr>cp_inc = seed_prog OpSub R_HALF R_ONE, cp_md = seed_prog OpAdd R_FLIGHT R_FLIGHT, cp_ecn = seed_prog OpSub R_HALF R_ONE\<rparr>"
  have "program_ok ?p" by (simp add: program_ok_def)
  from repair_converges[OF this, of 1000 4] show ?thesis by (auto simp: SYNTH_CWND_CAP_def)
qed

end
