(* ===== verification/Synthesis_Search.thy ===== *)
theory Synthesis_Search
  imports Synthesis_Safe
begin

text \<open>
  The genetic search and the exhaustive search return programs the checker accepts, and every
  program they build is in static single assignment form.
\<close>

section \<open>Well-formed programs\<close>

text \<open>An instruction reads registers written before it: the inputs and earlier slots.\<close>

definition ssa :: "instr list \<Rightarrow> bool" where
  "ssa p \<longleftrightarrow> prog_ok p \<and> (\<forall>t < SYNTH_PROG_LEN. unat (i_a (p ! t)) < SYNTH_REGS_IN + t \<and> unat (i_b (p ! t)) < SYNTH_REGS_IN + t)"

definition ssa_program :: "control_program \<Rightarrow> bool" where
  "ssa_program p \<longleftrightarrow> ssa (cp_inc p) \<and> ssa (cp_md p) \<and> ssa (cp_ecn p)"

lemma ssa_program_ok: "ssa_program p \<Longrightarrow> program_ok p"
  by (simp add: ssa_program_def ssa_def program_ok_def)

lemma ssa_update:
  assumes "ssa p" and "unat (i_a ins) < SYNTH_REGS_IN + t" and "unat (i_b ins) < SYNTH_REGS_IN + t"
  shows "ssa (p[t := ins])"
proof -
  have "unat (i_a (p[t := ins] ! k)) < SYNTH_REGS_IN + k \<and> unat (i_b (p[t := ins] ! k)) < SYNTH_REGS_IN + k"
    if "k < SYNTH_PROG_LEN" for k
    using assms that by (cases "k = t") (simp_all add: ssa_def prog_ok_def)
  then show ?thesis using assms(1) by (simp add: ssa_def)
qed

lemma seed_nth: "0 < t \<Longrightarrow> t < 8 \<Longrightarrow> seed_prog op a b ! t = mk_instr OpMax (word_of_nat (7 + t)) (word_of_nat (7 + t))"
  by (cases t) (simp_all add: seed_prog_def SYNTH_PROG_LEN_def SYNTH_REGS_IN_def Let_def nth_Cons' del: upt_Suc)

lemma ssa_seed:
  assumes "unat a < 8" and "unat b < 8"
  shows "ssa (seed_prog op a b)"
proof -
  have "unat (i_a (seed_prog op a b ! t)) < 8 + t \<and> unat (i_b (seed_prog op a b ! t)) < 8 + t" if "t < 8" for t
  proof (cases "t = 0")
    case True
    then show ?thesis using assms by (simp add: seed_prog_def)
  next
    case False
    have "unat (word_of_nat (7 + t) :: u8) = 7 + t" using that unfolding unat_word_of_nat_u8 by simp
    then show ?thesis using seed_nth[of t op a b] that False by simp
  qed
  then show ?thesis by (simp add: ssa_def SYNTH_PROG_LEN_def SYNTH_REGS_IN_def del: prog_ok_seed) (simp add: prog_ok_seed)
qed

lemma ssa_AIMD: "ssa_program AIMD"
  by (simp add: ssa_program_def AIMD_def ssa_seed R_ONE_def R_FLIGHT_def R_HALF_def R_ALPHA_def)

lemma ssa_repairs:
  assumes "ssa_program p"
  shows "ssa_program (repair_loss p)" and "ssa_program (repair_ecn p)" and "ssa_program (repair_increase p)"
  using assms ssa_AIMD
  by (auto simp: ssa_program_def repair_loss_def repair_ecn_def repair_increase_def OUT_PREV_def R_FLIGHT_def R_HALF_def
      SYNTH_PROG_LEN_def SYNTH_REGS_IN_def intro!: ssa_update)

lemma ssa_lineage: "lineage p q \<Longrightarrow> ssa_program p \<Longrightarrow> ssa_program q"
  using ssa_repairs[of p] ssa_AIMD by (auto simp: lineage_def ssa_program_def)

lemma ssa_sub: "ssa_program p \<Longrightarrow> ssa (sub_program p w)"
  by (simp add: ssa_program_def sub_program_def)

lemma ssa_set_sub: "ssa_program p \<Longrightarrow> ssa s \<Longrightarrow> ssa_program (set_sub_program p w s)"
  by (simp add: ssa_program_def set_sub_program_def)

section \<open>The genetic operators\<close>

lemma u8_small: "n < 256 \<Longrightarrow> unat (word_of_nat n :: u8) = n"
  unfolding unat_word_of_nat_u8 by simp

lemma mutate_once_ssa:
  assumes "ssa_program p"
  shows "ssa_program (fst (mutate_once rng p))"
proof -
  obtain which rng1 where w: "below rng SUBS = (which, rng1)" by fastforce
  obtain slot rng2 where s: "below rng1 SYNTH_PROG_LEN = (slot, rng2)" by fastforce
  obtain field rng3 where f: "below rng2 3 = (field, rng3)" by fastforce
  obtain x rng4 where x: "below rng3 (SYNTH_REGS_IN + slot) = (x, rng4)" by fastforce
  obtain y rng5 where y: "below rng3 (length ALL_OPS) = (y, rng5)" by fastforce
  have slot: "slot < 8" using below_less[of SYNTH_PROG_LEN rng1] s by (simp add: SYNTH_PROG_LEN_def)
  have x8: "x < SYNTH_REGS_IN + slot" using below_less[of "SYNTH_REGS_IN + slot" rng3] x by (simp add: SYNTH_REGS_IN_def)
  then have xw: "unat (word_of_nat x :: u8) < SYNTH_REGS_IN + slot"
    using slot u8_small[of x] by (simp add: SYNTH_REGS_IN_def)
  let ?sub = "sub_program p which"
  have cur: "unat (i_a (?sub ! slot)) < SYNTH_REGS_IN + slot" "unat (i_b (?sub ! slot)) < SYNTH_REGS_IN + slot"
    using ssa_sub[OF assms, of which] slot by (simp_all add: ssa_def SYNTH_PROG_LEN_def)
  show ?thesis
    using w s f x y cur xw ssa_set_sub[OF assms] ssa_update[OF ssa_sub[OF assms]]
    by (simp add: mutate_once_def Let_def)
qed

lemma mutate_loop_ssa: "ssa_program p \<Longrightarrow> ssa_program (fst (mutate_loop n rng p))"
proof (induction n arbitrary: rng p)
  case (Suc n)
  obtain p' rng' where "mutate_once rng p = (p', rng')" by fastforce
  then show ?case using Suc mutate_once_ssa[OF Suc.prems, of rng] by simp
qed simp

lemma crossover_ssa:
  assumes "ssa_program a" and "ssa_program b"
  shows "ssa_program (fst (synth_crossover rng a b))"
proof -
  let ?f = "\<lambda>which (child, rng). case below rng 2 of (coin, rng) \<Rightarrow>
         (if coin = 1 then set_sub_program child which (sub_program b which) else child, rng)"
  have "ssa_program (fst (fold ?f ws s))" if "ssa_program (fst s)" for ws s
    using that
  proof (induction ws arbitrary: s)
    case (Cons w ws)
    obtain child r where s: "s = (child, r)" by fastforce
    obtain coin r' where "below r 2 = (coin, r')" by fastforce
    then have "ssa_program (fst (?f w s))"
      using Cons.prems s ssa_set_sub[OF _ ssa_sub[OF assms(2)]] by simp
    then show ?case using Cons.IH by simp
  qed simp
  then show ?thesis using assms(1) by (simp add: synth_crossover_def)
qed

section \<open>The search\<close>

lemma flt_trans: "flt a b \<Longrightarrow> flt b c \<Longrightarrow> flt a c"
  by (cases a; cases b; cases c) auto

text \<open>What is known of a scored candidate, of the best one, and of the counters.\<close>

definition scored_ok :: "u16 \<Rightarrow> nat \<Rightarrow> bool \<Rightarrow> candidate \<Rightarrow> bool" where
  "scored_ok mss depth repair cand \<longleftrightarrow> ssa_program (fst cand)
     \<and> (passes (fst cand) mss depth \<or> (\<not> repair \<and> snd cand = SYNTH_REJECT))"

definition best_ok :: "u16 \<Rightarrow> nat \<Rightarrow> bool \<Rightarrow> candidate \<Rightarrow> bool" where
  "best_ok mss depth repair cand \<longleftrightarrow> ssa_program (fst cand) \<and> passes (fst cand) mss depth
     \<and> (repair \<or> \<not> flt (snd cand) SYNTH_REJECT)"

definition tally_ok :: "bool \<Rightarrow> tallies \<Rightarrow> bool" where
  "tally_ok repair t \<longleftrightarrow> (if repair then tl_rejected t = 0 else tl_repaired t = 0)"

lemma better_ok:
  assumes "scored_ok mss depth repair cand" and "best_ok mss depth repair best"
  shows "best_ok mss depth repair (better cand best)"
  using assms flt_trans[of "snd best" "snd cand" SYNTH_REJECT] by (auto simp: better_def scored_ok_def best_ok_def)

text \<open>A checker depth that keeps the swept windows below the cap of the controller.\<close>

definition depth_ok :: "u16 \<Rightarrow> nat \<Rightarrow> bool" where
  "depth_ok mss depth \<longleftrightarrow> mss \<noteq> 0 \<and> (10 + depth) * unat mss \<le> SYNTH_CWND_CAP"

lemma eval_ok:
  assumes d: "depth_ok mss depth" and "ssa_program p" and "tally_ok repair t"
  shows "\<exists>cand t'. evolve_eval fit mss depth repair p t = Some (cand, t') \<and> scored_ok mss depth repair cand \<and> tally_ok repair t'"
proof (cases repair)
  case True
  have u: "unsafe_responses p < 4" by (simp add: unsafe_responses_def)
  obtain q n where q: "repair_to_safe p mss depth = Some (q, n)" "passes q mss depth" "lineage p q"
    using repair_loop_converges[OF _ _ ssa_program_ok[OF assms(2)] u, of mss depth 0] d
    unfolding repair_to_safe_def depth_ok_def by auto
  then show ?thesis using True assms ssa_lineage[OF q(3)]
    by (auto simp: evolve_eval_def Let_def scored_ok_def tally_ok_def)
next
  case False
  obtain r where "check_controller_safety synth_ctl (synth_with_program mss p) (unat mss) depth = Some r"
    using synth_sweep_reports[OF ssa_program_ok[OF assms(2)], of mss depth] d unfolding depth_ok_def by blast
  then show ?thesis using False assms
    by (auto simp: evolve_eval_def Let_def scored_ok_def tally_ok_def passes_def)
qed

lemma seed_loop_ok:
  assumes d: "depth_ok mss depth" and "tally_ok repair t" and "\<forall>c \<in> set population. scored_ok mss depth repair c"
  shows "\<exists>rng' t' population'. seed_loop (evolve_eval fit mss depth repair) k rng t population = Some (rng', t', population')
    \<and> tally_ok repair t' \<and> (\<forall>c \<in> set population'. scored_ok mss depth repair c) \<and> (\<exists>rest. population' = population @ rest)"
  using assms(2,3)
proof (induction k arbitrary: rng t population)
  case 0
  then show ?case by simp
next
  case (Suc k)
  obtain m r1 where m: "below rng 3 = (m, r1)" by fastforce
  obtain child r2 where c: "synth_mutate r1 AIMD (1 + m) = (child, r2)" by fastforce
  have "ssa_program child" using mutate_loop_ssa[OF ssa_AIMD, of "max (1 + m) 1" r1] c by (simp add: synth_mutate_def)
  then obtain cand t1 where e: "evolve_eval fit mss depth repair child t = Some (cand, t1)" "scored_ok mss depth repair cand" "tally_ok repair t1"
    using eval_ok[OF d _ Suc.prems(1)] by blast
  have "\<forall>c \<in> set (population @ [cand]). scored_ok mss depth repair c" using Suc.prems(2) e(2) by simp
  from Suc.IH[OF e(3) this, of r2] show ?case using m c e(1) by auto
qed

lemma pick_ok: "xs \<noteq> [] \<Longrightarrow> \<exists>x rng'. pick rng xs = Some (x, rng') \<and> x \<in> set xs"
  using below_less[of "length xs" rng] by (auto simp: pick_def split: prod.splits)

lemma breed_loop_ok:
  assumes d: "depth_ok mss depth" and "tally_ok repair t" and "elites \<noteq> []" and "\<forall>p \<in> set elites. ssa_program p" and "best_ok mss depth repair best"
    and "\<forall>c \<in> set nxt. scored_ok mss depth repair c"
  shows "\<exists>rng' t' best' nxt'. breed_loop (evolve_eval fit mss depth repair) elites k rng t best nxt = Some (rng', t', best', nxt')
    \<and> tally_ok repair t' \<and> best_ok mss depth repair best' \<and> (\<forall>c \<in> set nxt'. scored_ok mss depth repair c)
    \<and> length nxt' = length nxt + k"
  using assms(2,5,6)
proof (induction k arbitrary: rng t best nxt)
  case 0
  then show ?case by simp
next
  case (Suc k)
  obtain pa r1 where pa: "pick rng elites = Some (pa, r1)" "pa \<in> set elites" using pick_ok[OF assms(3)] by blast
  obtain pb r2 where pb: "pick r1 elites = Some (pb, r2)" "pb \<in> set elites" using pick_ok[OF assms(3)] by blast
  obtain x r3 where x: "synth_crossover r2 pa pb = (x, r3)" by fastforce
  obtain m r4 where m: "below r3 3 = (m, r4)" by fastforce
  obtain child r5 where c: "synth_mutate r4 x (1 + m) = (child, r5)" by fastforce
  have "ssa_program x" using crossover_ssa[of pa pb r2] assms(4) pa(2) pb(2) x by simp
  then have "ssa_program child" using mutate_loop_ssa[of x "max (1 + m) 1" r4] c by (simp add: synth_mutate_def)
  then obtain cand t1 where e: "evolve_eval fit mss depth repair child t = Some (cand, t1)" "scored_ok mss depth repair cand" "tally_ok repair t1"
    using eval_ok[OF d _ Suc.prems(1)] by blast
  have "\<forall>c \<in> set (nxt @ [cand]). scored_ok mss depth repair c" using Suc.prems(3) e(2) by simp
  from Suc.IH[OF e(3) better_ok[OF e(2) Suc.prems(2)] this, of r5] show ?case
    using pa(1) pb(1) x m c e(1) by auto
qed

lemma insert_desc_set: "set (insert_desc x ys) = insert x (set ys) \<and> length (insert_desc x ys) = Suc (length ys)"
  by (induction ys) auto

lemma sort_desc_set: "set (sort_desc xs) = set xs \<and> length (sort_desc xs) = length xs"
proof -
  have "set (fold insert_desc xs ys) = set xs \<union> set ys \<and> length (fold insert_desc xs ys) = length xs + length ys" for ys
    by (induction xs arbitrary: ys) (auto simp: insert_desc_set)
  then show ?thesis by (simp add: sort_desc_def)
qed

lemma generation_loop_ok:
  assumes d: "depth_ok mss depth" and "0 < n_elite" and "tally_ok repair t" and "best_ok mss depth repair best"
    and "\<forall>c \<in> set population. scored_ok mss depth repair c" and "population \<noteq> []"
  shows "\<exists>t' best'. generation_loop (evolve_eval fit mss depth repair) n_elite pop g rng t best population = Some (t', best')
    \<and> tally_ok repair t' \<and> best_ok mss depth repair best'"
  using assms(3-6)
proof (induction g arbitrary: rng t best population)
  case 0
  then show ?case by simp
next
  case (Suc g)
  define elite where "elite = take (min n_elite (length population)) (sort_desc population)"
  have sub: "set elite \<subseteq> set population" using set_take_subset sort_desc_set unfolding elite_def by metis
  have len: "length elite = min n_elite (length population)" by (simp add: elite_def sort_desc_set)
  have "0 < length population" using Suc.prems(4) by simp
  then have "0 < length elite" using len assms(2) by simp
  then have ne: "elite \<noteq> []" by auto
  have ok: "\<forall>c \<in> set elite. scored_ok mss depth repair c" using sub Suc.prems(3) by blast
  have "\<forall>p \<in> set (map fst elite). ssa_program p" using ok by (auto simp: scored_ok_def)
  then obtain r1 t1 best1 nxt where b: "breed_loop (evolve_eval fit mss depth repair) (map fst elite) (max pop 1 - length elite) rng t best elite
      = Some (r1, t1, best1, nxt)" "tally_ok repair t1" "best_ok mss depth repair best1" "\<forall>c \<in> set nxt. scored_ok mss depth repair c"
    "length nxt = length elite + (max pop 1 - length elite)"
    using breed_loop_ok[OF d Suc.prems(1) _ _ Suc.prems(2) ok, of "map fst elite"] ne by blast
  have "nxt \<noteq> []" using b(5) ne by auto
  from Suc.IH[OF b(2,3,4) this, of r1] show ?case using b(1) by (simp flip: elite_def)
qed

lemma evolve_ok:
  assumes d: "depth_ok mss depth" and "repair \<or> \<not> flt (fit AIMD) SYNTH_REJECT"
  shows "\<exists>r. evolve_control_law fit generations pop elite mss depth seed repair = Some r
    \<and> passes (sr_best r) mss depth \<and> ssa_program (sr_best r) \<and> tally_ok repair (sr_tally r)"
proof -
  let ?ev = "evolve_eval fit mss depth repair"
  let ?t0 = "\<lparr>tl_rejected = 0, tl_repaired = 0, tl_evaluated = 0\<rparr>"
  have t0: "tally_ok repair ?t0" by (simp add: tally_ok_def)
  have aimd: "passes AIMD mss depth" using AIMD_passes d by (simp add: depth_ok_def)
  obtain p0 f0 t1 where e: "?ev AIMD ?t0 = Some ((p0, f0), t1)" "tally_ok repair t1"
    using eval_ok[OF d ssa_AIMD t0] by (metis prod.collapse)
  have f0: "f0 = fit AIMD" if "\<not> repair"
    using that e(1) aimd by (auto simp: evolve_eval_def Let_def passes_def split: option.splits bind_splits)
  have s0: "scored_ok mss depth repair (AIMD, f0)" using ssa_AIMD aimd by (simp add: scored_ok_def)
  have b0: "best_ok mss depth repair (AIMD, f0)" using ssa_AIMD aimd assms f0 by (auto simp: best_ok_def)
  obtain r2 t2 population where l: "seed_loop ?ev (max pop 1 - 1) (rng_new (seed XOR 0x5717C0DE5717C0DE)) t1 [(AIMD, f0)] = Some (r2, t2, population)"
    "tally_ok repair t2" "\<forall>c \<in> set population. scored_ok mss depth repair c" "\<exists>rest. population = [(AIMD, f0)] @ rest"
    using seed_loop_ok[OF d e(2), of "[(AIMD, f0)]" fit "max pop 1 - 1" "rng_new (seed XOR 0x5717C0DE5717C0DE)"] s0 by auto
  have pop: "population \<noteq> []" "hd population = (AIMD, f0)" using l(4) by auto
  have "best_ok mss depth repair (fold better cs b)" if "\<forall>c \<in> set cs. scored_ok mss depth repair c" "best_ok mss depth repair b" for cs b
    using that by (induction cs arbitrary: b) (auto simp: better_ok)
  then have best: "best_ok mss depth repair (fold better population (hd population))" using l(3) b0 pop(2) by simp
  have "0 < clamp_nat elite 1 (max pop 1)" by (simp add: clamp_nat_def less_max_iff_disj)
  from generation_loop_ok[OF d this l(2) best l(3) pop(1)] obtain t3 best3 where
    g: "generation_loop ?ev (clamp_nat elite 1 (max pop 1)) pop generations r2 t2 (fold better population (hd population)) population = Some (t3, best3)"
    "tally_ok repair t3" "best_ok mss depth repair best3" by blast
  then show ?thesis using e(1) l(1) by (auto simp: evolve_control_law_def best_ok_def)
qed

text \<open>
  C35: every evolved law is inside the envelope, for a depth of the checker that keeps its
  windows below the cap. For every seed of the generator and all numbers of generations, of
  candidates and of elites, the search returns a program on which the checker finds no violation
  and whose instructions read only registers written before. With repair this holds whatever
  the scores of the programs are, and nothing is rejected; with the filter nothing is repaired,
  and it needs that the score of the AIMD seed is not below the score given to rejected
  programs.
\<close>

theorem evolved_law_is_safe:
  assumes "mss \<noteq> 0" and "(10 + depth) * unat mss \<le> SYNTH_CWND_CAP" and "repair \<or> \<not> flt (fit AIMD) SYNTH_REJECT"
  shows "\<exists>r. evolve_control_law fit generations pop elite mss depth seed repair = Some r
    \<and> passes (sr_best r) mss depth \<and> ssa_program (sr_best r)
    \<and> (if repair then tl_rejected (sr_tally r) = 0 else tl_repaired (sr_tally r) = 0)"
  using evolve_ok[of mss depth repair fit generations pop elite seed] assms unfolding tally_ok_def depth_ok_def by blast

theorem evolved_law_is_safe_witness:
  "\<exists>r. evolve_control_law (\<lambda>_. Fin 0) 3 8 2 1000 2 42 False = Some r \<and> passes (sr_best r) 1000 2"
proof -
  have "f64_of 0 = Fin 0" using f64_rep_0 by (simp add: f64_rep_def)
  then have le: "a \<le> 0" if "f64_of (- (10 ^ 18)) = Fin a" for a
    using f64_of_mono[of "- (10 ^ 18)" 0 a 0] that by simp
  have "\<not> flt (Fin 0) SYNTH_REJECT"
  proof (cases SYNTH_REJECT)
    case (Inf b)
    then show ?thesis unfolding SYNTH_REJECT_def f64_of_signed by (simp split: if_splits)
  next
    case (Fin a)
    then show ?thesis using le[of a] unfolding SYNTH_REJECT_def by simp
  qed simp
  then have "\<not> flt ((\<lambda>_ :: control_program. Fin 0) AIMD) SYNTH_REJECT" .
  then show ?thesis using evolved_law_is_safe[of 1000 2 False "\<lambda>_. Fin 0" 3 8 2 42] by (simp add: SYNTH_CWND_CAP_def) blast
qed

end
