(* ===== verification/Synthesis_Exhaust.thy ===== *)
theory Synthesis_Exhaust
  imports Synthesis_Search
begin

text \<open>
  The exhaustive search of the single-operation ECN responses returns the best of the class the
  checker accepts.
\<close>

lemma ecn_class_ok: "p \<in> set ecn_class \<Longrightarrow> program_ok p"
  using AIMD_ok by (auto simp: ecn_class_def aimd_with_ecn_op_def program_ok_def)

lemma length_ecn_class: "length ecn_class = 384"
proof -
  have "length ecn_class = length ALL_OPS * (SYNTH_REGS_IN * SYNTH_REGS_IN)"
    by (simp add: ecn_class_def length_concat o_def sum_list_triv)
  then show ?thesis by (simp add: ALL_OPS_def SYNTH_REGS_IN_def)
qed

lemma in_concat_map: "x \<in> set (f y) \<Longrightarrow> y \<in> set ys \<Longrightarrow> x \<in> set (concat (map f ys))"
  by auto

lemma in_ecn_class:
  assumes "op \<in> set ALL_OPS" and "a < SYNTH_REGS_IN" and "b < SYNTH_REGS_IN"
  shows "aimd_with_ecn_op op (word_of_nat a) (word_of_nat b) \<in> set ecn_class"
  unfolding ecn_class_def
proof (rule in_concat_map[OF in_concat_map[OF _ _] assms(1)])
  show "a \<in> set [0..<SYNTH_REGS_IN]" using assms(2) by simp
  show "aimd_with_ecn_op op (word_of_nat a) (word_of_nat b)
      \<in> set (map (\<lambda>b. aimd_with_ecn_op op (word_of_nat a) (word_of_nat b)) [0..<SYNTH_REGS_IN])"
    using assms(3) by simp
qed

lemma AIMD_in_class: "AIMD \<in> set ecn_class"
  using in_ecn_class[of OpMul 3 5]
  by (simp add: ALL_OPS_def SYNTH_REGS_IN_def aimd_with_ecn_op_def AIMD_def R_ALPHA_def R_HALF_def)

text \<open>The best of a list, as the loop keeps it.\<close>

definition best_of :: "(control_program \<Rightarrow> f64) \<Rightarrow> control_program set \<Rightarrow> candidate option \<Rightarrow> bool" where
  "best_of fit ps best \<longleftrightarrow>
     (case best of
        None \<Rightarrow> ps = {}
      | Some (p, f) \<Rightarrow> p \<in> ps \<and> f = fit p \<and> (\<forall>q \<in> ps. \<not> flt f (fit q)))"

lemma flt_irrefl: "\<not> flt a a"
  by (cases a) auto

lemma best_of_step:
  assumes "best_of fit ps best"
  shows "best_of fit (insert p ps)
    (if (case best of None \<Rightarrow> True | Some (_, g) \<Rightarrow> flt g (fit p)) then Some (p, fit p) else best)"
  using assms flt_irrefl[of "fit p"] flt_trans[of _ "fit p"] by (cases best) (auto simp: best_of_def)

lemma exhaust_fold:
  assumes d: "depth_ok mss depth" and "\<forall>p \<in> set ps. program_ok p" and "best_of fit seen best"
  shows "\<exists>best'. fold_option (\<lambda>prog (best, tot, safe). do {
         report \<leftarrow> check_controller_safety synth_ctl (synth_with_program mss prog) (unat mss) depth;
         Some (if 0 < bm_violations report then (best, tot + 1, safe)
               else let f = fit prog in
                 (if (case best of None \<Rightarrow> True | Some (_, g) \<Rightarrow> flt g f) then Some (prog, f) else best, tot + 1, safe + 1))
       }) ps (best, tot, safe)
      = Some (best', tot + length ps, safe + length (filter (\<lambda>p. passes p mss depth) ps))
    \<and> best_of fit (seen \<union> {p \<in> set ps. passes p mss depth}) best'"
  using assms(2,3)
proof (induction ps arbitrary: seen best tot safe)
  case Nil
  then show ?case by simp
next
  case (Cons p ps)
  obtain r where r: "check_controller_safety synth_ctl (synth_with_program mss p) (unat mss) depth = Some r"
    using synth_sweep_reports[of p mss depth] Cons.prems(1) d unfolding depth_ok_def by auto
  show ?case
  proof (cases "passes p mss depth")
    case True
    then have v: "\<not> 0 < bm_violations r" using r by (simp add: passes_def)
    have u: "seen \<union> {q \<in> set (p # ps). passes q mss depth} = insert p seen \<union> {q \<in> set ps. passes q mss depth}"
      using True by auto
    show ?thesis unfolding u
      using Cons.IH[OF _ best_of_step[OF Cons.prems(2), of p], of "tot + 1" "safe + 1"] Cons.prems(1) r v True
      by (simp add: Let_def)
  next
    case False
    then have v: "0 < bm_violations r" using r by (simp add: passes_def)
    have u: "seen \<union> {q \<in> set (p # ps). passes q mss depth} = seen \<union> {q \<in> set ps. passes q mss depth}"
      using False by auto
    show ?thesis unfolding u
      using Cons.IH[OF _ Cons.prems(2), of "tot + 1" safe] Cons.prems(1) r v False by simp
  qed
qed

text \<open>
  C36: the exhaustive search finds a proven optimum. It visits all 384 programs with the seed's
  increase and loss responses and one operation on two input registers as ECN response, counts
  the ones on which the checker finds nothing, never panics (the seed itself is one of them) and
  returns a program of the class that passes, with its score, such that no program of the class
  that passes has a greater score.
\<close>

theorem exhaustive_search_optimal:
  assumes "mss \<noteq> 0" and "(10 + depth) * unat mss \<le> SYNTH_CWND_CAP"
  shows "\<exists>r. exhaust_ecn_response fit mss depth = Some r \<and> ex_total r = 384
    \<and> ex_safe r = length (filter (\<lambda>p. passes p mss depth) ecn_class) \<and> 0 < ex_safe r
    \<and> ex_best r \<in> set ecn_class \<and> passes (ex_best r) mss depth \<and> ex_best_fit r = fit (ex_best r)
    \<and> (\<forall>p \<in> set ecn_class. passes p mss depth \<longrightarrow> \<not> flt (ex_best_fit r) (fit p))"
proof -
  have d: "depth_ok mss depth" using assms by (simp add: depth_ok_def)
  have "best_of fit {} None" by (simp add: best_of_def)
  from exhaust_fold[OF d _ this, of ecn_class "0 :: nat" "0 :: nat"] obtain best where
    f: "fold_option (\<lambda>prog (best, tot, safe). do {
         report \<leftarrow> check_controller_safety synth_ctl (synth_with_program mss prog) (unat mss) depth;
         Some (if 0 < bm_violations report then (best, tot + 1, safe)
               else let f = fit prog in
                 (if (case best of None \<Rightarrow> True | Some (_, g) \<Rightarrow> flt g f) then Some (prog, f) else best, tot + 1, safe + 1))
       }) ecn_class (None, 0 :: nat, 0 :: nat) = Some (best, 384, length (filter (\<lambda>p. passes p mss depth) ecn_class))"
    and b: "best_of fit {p \<in> set ecn_class. passes p mss depth} best"
    using ecn_class_ok by (auto simp: length_ecn_class)
  have aimd: "AIMD \<in> {p \<in> set ecn_class. passes p mss depth}" using AIMD_in_class AIMD_passes[OF assms] by simp
  then obtain p g where p: "best = Some (p, g)" using b by (cases best) (auto simp: best_of_def)
  have "filter (\<lambda>p. passes p mss depth) ecn_class \<noteq> []" using aimd by (auto simp: filter_empty_conv)
  then have "0 < length (filter (\<lambda>p. passes p mss depth) ecn_class)" by simp
  then show ?thesis using b p unfolding exhaust_ecn_response_def f best_of_def by auto
qed

theorem exhaustive_search_optimal_witness:
  "\<exists>r. exhaust_ecn_response (\<lambda>p. if p = AIMD then Fin 1 else Fin 0) 1000 2 = Some r \<and> \<not> flt (ex_best_fit r) (Fin 1)"
  using exhaustive_search_optimal[of 1000 2 "\<lambda>p. if p = AIMD then Fin 1 else Fin 0"] AIMD_in_class
    AIMD_passes[of 1000 2] by (fastforce simp: SYNTH_CWND_CAP_def)

end
