(* ===== verification/Sim_Link.thy ===== *)
theory Sim_Link
  imports Runtime Rng "HOL-Library.Product_Lexorder" "HOL-Library.Multiset"
begin

text \<open>
  \<open>sim.rs\<close>: the virtual link between two stacks. A frame that leaves a stack is lost, bent in
  one bit, duplicated and delayed as the seeded generator draws, and waits in flight until its
  time. A side is the index of the direction; of a runtime only its in-memory device is
  touched. The tallies are natural numbers (a run counts far fewer than \<open>2\<^sup>6\<^sup>4\<close> frames); the sum
  of the delays is checked, so \<open>None\<close> is its overflow.
\<close>

section \<open>Frames in flight\<close>

datatype link_side = ToClient | ToServer

definition side_index :: "link_side \<Rightarrow> nat" where
  "side_index s = (case s of ToClient \<Rightarrow> 0 | ToServer \<Rightarrow> 1)"

record flight_frame =
  if_deliver_at :: instant
  if_side :: link_side
  if_order :: nat
  if_frame :: bytes

definition min_deliver_at :: "flight_frame list \<Rightarrow> instant option" where
  "min_deliver_at inflight = (if inflight = [] then None else Some (Min (set (map if_deliver_at inflight))))"

definition due_key :: "flight_frame \<Rightarrow> instant \<times> nat" where
  "due_key f = (if_deliver_at f, if_order f)"

definition inject_side :: "flight_frame \<Rightarrow> mock_device \<times> mock_device \<Rightarrow> mock_device \<times> mock_device" where
  "inject_side f devs =
     (case devs of (client, server) \<Rightarrow>
        (case if_side f of
           ToClient \<Rightarrow> (inject client (if_frame f), server)
         | ToServer \<Rightarrow> (client, inject server (if_frame f))))"

definition flush_due ::
  "flight_frame list \<Rightarrow> instant \<Rightarrow> mock_device \<Rightarrow> mock_device \<Rightarrow> flight_frame list \<times> mock_device \<times> mock_device" where
  "flush_due inflight now client server =
     (let due = filter (\<lambda>f. if_deliver_at f \<le> now) inflight;
          keep = filter (\<lambda>f. \<not> if_deliver_at f \<le> now) inflight
      in (keep, fold inject_side (sort_key due_key due) (client, server)))"

section \<open>The fault link\<close>

record link_config =
  lc_loss_ppm :: nat
  lc_dup_ppm :: nat
  lc_corrupt_ppm :: nat
  lc_min_delay_us :: nat
  lc_jitter_us :: nat

definition PERFECT :: link_config where
  "PERFECT = \<lparr>lc_loss_ppm = 0, lc_dup_ppm = 0, lc_corrupt_ppm = 0, lc_min_delay_us = 5000, lc_jitter_us = 0\<rparr>"

definition lossy :: "nat \<Rightarrow> link_config option" where
  "lossy loss_percent = do {
     loss \<leftarrow> chk32 (loss_percent * 10000);
     Some \<lparr>lc_loss_ppm = loss, lc_dup_ppm = 10000, lc_corrupt_ppm = 0, lc_min_delay_us = 5000,
           lc_jitter_us = 4000\<rparr>
   }"

record link =
  lk_rng :: rng
  lk_cfg :: link_config
  lk_inflight :: "flight_frame list"
  lk_order :: nat
  lk_dropped :: nat
  lk_duplicated :: nat
  lk_corrupted :: nat

definition link_new :: "u64 \<Rightarrow> link_config \<Rightarrow> link" where
  "link_new seed cfg = \<lparr>lk_rng = rng_new seed, lk_cfg = cfg, lk_inflight = [], lk_order = 0,
     lk_dropped = 0, lk_duplicated = 0, lk_corrupted = 0\<rparr>"

definition flip_frame_bit :: "bytes \<Rightarrow> nat \<Rightarrow> nat \<Rightarrow> bytes" where
  "flip_frame_bit frame off k = frame[off := frame ! off XOR push_bit k 1]"

text \<open>The bit to flip is drawn past the 20 octets of the IPv4 header.\<close>

definition bend :: "link \<Rightarrow> bytes \<Rightarrow> bool \<Rightarrow> link \<times> bytes" where
  "bend self frame corrupt =
     (if corrupt \<and> 20 < length frame
      then case below (lk_rng self) (length frame - 20) of (o1, rng) \<Rightarrow>
           case below rng 8 of (k, rng) \<Rightarrow>
             (self\<lparr>lk_rng := rng, lk_corrupted := lk_corrupted self + 1\<rparr>, flip_frame_bit frame (20 + o1) k)
      else (self, frame))"

definition schedule :: "link \<Rightarrow> instant \<Rightarrow> link_side \<Rightarrow> bytes \<Rightarrow> bool \<Rightarrow> link option" where
  "schedule self now side frame corrupt =
     (case bend self frame corrupt of (self, frame) \<Rightarrow> do {
        span \<leftarrow> chk64 (lc_jitter_us (lk_cfg self) + 1);
        (case below (lk_rng self) span of (jitter, rng) \<Rightarrow> do {
           delay \<leftarrow> chk64 (lc_min_delay_us (lk_cfg self) + jitter);
           Some (self\<lparr>lk_rng := rng, lk_order := lk_order self + 1,
             lk_inflight := lk_inflight self @
               [\<lparr>if_deliver_at = plus_micros now delay, if_side = side, if_order = lk_order self,
                 if_frame = frame\<rparr>]\<rparr>)
        })
      })"

definition link_enqueue :: "link \<Rightarrow> instant \<Rightarrow> link_side \<Rightarrow> bytes \<Rightarrow> link option" where
  "link_enqueue self now side frame =
     (case chance_ppm (lk_rng self) (lc_loss_ppm (lk_cfg self)) of (lost, rng) \<Rightarrow>
        let self = self\<lparr>lk_rng := rng\<rparr> in
        if lost then Some (self\<lparr>lk_dropped := lk_dropped self + 1\<rparr>)
        else case chance_ppm (lk_rng self) (lc_corrupt_ppm (lk_cfg self)) of (corrupt, rng) \<Rightarrow> do {
          self \<leftarrow> schedule (self\<lparr>lk_rng := rng\<rparr>) now side frame corrupt;
          (case chance_ppm (lk_rng self) (lc_dup_ppm (lk_cfg self)) of (dup, rng) \<Rightarrow>
             let self = self\<lparr>lk_rng := rng\<rparr> in
             if dup then schedule (self\<lparr>lk_duplicated := lk_duplicated self + 1\<rparr>) now side frame False
             else Some self)
        })"

definition link_next_deliver_at :: "link \<Rightarrow> instant option" where
  "link_next_deliver_at self = min_deliver_at (lk_inflight self)"

definition link_deliver_due :: "link \<Rightarrow> instant \<Rightarrow> mock_device \<Rightarrow> mock_device \<Rightarrow> link \<times> mock_device \<times> mock_device" where
  "link_deliver_due self now client server =
     (case flush_due (lk_inflight self) now client server of (keep, devs) \<Rightarrow> (self\<lparr>lk_inflight := keep\<rparr>, devs))"

section \<open>Delivery\<close>

lemma inject_fold:
  "fold inject_side fs (client, server) =
     (client\<lparr>mk_inbound := mk_inbound client @ map if_frame (filter (\<lambda>f. if_side f = ToClient) fs)\<rparr>,
      server\<lparr>mk_inbound := mk_inbound server @ map if_frame (filter (\<lambda>f. if_side f = ToServer) fs)\<rparr>)"
  by (induction fs arbitrary: client server) (auto simp: inject_side_def inject_def split: link_side.split)

lemma sort_key_unique:
  assumes "mset xs = mset ys" and "distinct (map if_order xs)"
  shows "sort_key due_key xs = sort_key due_key ys"
proof -
  have inj: "inj_on due_key (set xs)" and d: "distinct xs"
    using assms(2) by (auto simp: inj_on_def due_key_def distinct_map)
  have set: "set ys = set xs" using mset_eq_setD[OF assms(1)] by simp
  have "distinct ys" using d assms(1) by (metis mset_eq_imp_distinct_iff)
  then show ?thesis
    using inj d set
    by (intro map_sorted_distinct_set_unique[where f = due_key]) (simp_all add: distinct_map)
qed

text \<open>
  The flush of a set of frames: what is delivered does not depend on how the vector of frames in
  flight is laid out, comes in the order of due time and enqueueing, leaves no due frame behind
  and neither loses nor invents a frame.
\<close>

lemma flush_layout:
  assumes "mset xs = mset ys" and "distinct (map if_order xs)"
  shows "snd (flush_due xs now client server) = snd (flush_due ys now client server)
    \<and> mset (fst (flush_due xs now client server)) = mset (fst (flush_due ys now client server))"
proof -
  have "mset (filter P xs) = mset (filter P ys)" for P using assms(1) by simp
  moreover have "distinct (map if_order (filter P xs))" for P
    using assms(2) by (simp add: distinct_map_filter)
  ultimately show ?thesis
    using sort_key_unique[of "filter (\<lambda>f. if_deliver_at f \<le> now) xs" "filter (\<lambda>f. if_deliver_at f \<le> now) ys"]
    by (simp add: flush_due_def Let_def)
qed

lemma flush_order:
  assumes "flush_due fs now client server = (keep, c, s)"
  shows "\<exists>due. sorted (map due_key due) \<and> mset fs = mset keep + mset due
    \<and> (\<forall>f\<in>set due. if_deliver_at f \<le> now) \<and> (\<forall>f\<in>set keep. now < if_deliver_at f)
    \<and> c = client\<lparr>mk_inbound := mk_inbound client @ map if_frame (filter (\<lambda>f. if_side f = ToClient) due)\<rparr>
    \<and> s = server\<lparr>mk_inbound := mk_inbound server @ map if_frame (filter (\<lambda>f. if_side f = ToServer) due)\<rparr>"
proof -
  let ?due = "sort_key due_key (filter (\<lambda>f. if_deliver_at f \<le> now) fs)"
  have "keep = filter (\<lambda>f. \<not> if_deliver_at f \<le> now) fs" "fold inject_side ?due (client, server) = (c, s)"
    using assms by (auto simp: flush_due_def Let_def)
  then show ?thesis
    by (intro exI[of _ ?due]) (auto simp: inject_fold multiset_partition[of "mset fs"])
qed

lemma sorted_split_due:
  "sorted (map due_key xs) \<Longrightarrow>
     filter (\<lambda>f. if_deliver_at f \<le> now) xs @ filter (\<lambda>f. \<not> if_deliver_at f \<le> now) xs = xs"
proof (induction xs)
  case (Cons x xs)
  show ?case
  proof (cases "if_deliver_at x \<le> now")
    case False
    then have "\<forall>f\<in>set xs. \<not> if_deliver_at f \<le> now"
      using Cons.prems by (force simp: due_key_def)
    then show ?thesis using False by (simp add: filter_empty_conv)
  qed (use Cons in simp)
qed simp

text \<open>A direction whose frames are in flight in the order of their keys is delivered in that order.\<close>

definition wired :: "link_side \<Rightarrow> flight_frame list \<Rightarrow> bytes list" where
  "wired d fs = map if_frame (filter (\<lambda>f. if_side f = d) fs)"

lemma flush_fifo:
  assumes f: "flush_due fs now c s = (keep, c', s')" and so: "\<And>d. sorted (map due_key (filter (\<lambda>f. if_side f = d) fs))"
  shows "keep = filter (\<lambda>f. \<not> if_deliver_at f \<le> now) fs"
    and "mk_inbound c' @ wired ToClient keep = mk_inbound c @ wired ToClient fs"
    and "mk_inbound s' @ wired ToServer keep = mk_inbound s @ wired ToServer fs"
    and "sorted (map due_key (filter (\<lambda>f. if_side f = d) keep))"
proof -
  let ?P = "\<lambda>f. if_deliver_at f \<le> now"
  show keep: "keep = filter (\<lambda>f. \<not> ?P f) fs" using f by (auto simp: flush_due_def Let_def)
  have out: "fold inject_side (sort_key due_key (filter ?P fs)) (c, s) = (c', s')" using f by (auto simp: flush_due_def Let_def)
  have sd: "sorted (map due_key (filter Q (filter (\<lambda>f. if_side f = d) fs)))" for Q d
    by (rule sorted_filter[OF so])
  have swap: "filter P (filter Q xs) = filter Q (filter P xs)" for P Q and xs :: "flight_frame list"
    by (simp add: conj_commute)
  have in_order: "filter (\<lambda>f. if_side f = d) (sort_key due_key (filter ?P fs)) = filter ?P (filter (\<lambda>f. if_side f = d) fs)" for d
    unfolding filter_sort swap[of "\<lambda>f. if_side f = d" ?P] by (rule sort_key_id_if_sorted[OF sd])
  have split: "filter ?P (filter (\<lambda>f. if_side f = d) fs) @ filter (\<lambda>f. if_side f = d) keep = filter (\<lambda>f. if_side f = d) fs" for d
    unfolding keep swap[of "\<lambda>f. if_side f = d" "\<lambda>f. \<not> ?P f"] by (rule sorted_split_due[OF so])
  have w: "map if_frame (filter (\<lambda>f. if_side f = d) (sort_key due_key (filter ?P fs))) @ wired d keep = wired d fs" for d
    using arg_cong[OF split[of d], of "map if_frame"] unfolding wired_def in_order by simp
  show "mk_inbound c' @ wired ToClient keep = mk_inbound c @ wired ToClient fs"
    "mk_inbound s' @ wired ToServer keep = mk_inbound s @ wired ToServer fs"
    using out w[of ToClient] w[of ToServer] by (auto simp: inject_fold)
  show "sorted (map due_key (filter (\<lambda>f. if_side f = d) keep))"
    unfolding keep swap[of "\<lambda>f. if_side f = d" "\<lambda>f. \<not> ?P f"] by (rule sd)
qed

section \<open>Runs of the link\<close>

text \<open>A run: the frames the stacks send and the flushes of the clock, in the order they happen.\<close>

datatype link_event = Sent instant link_side bytes | Flushed instant

fun link_run ::
  "link_event list \<Rightarrow> link \<Rightarrow> mock_device \<Rightarrow> mock_device \<Rightarrow> (link \<times> mock_device \<times> mock_device) option" where
  "link_run [] self client server = Some (self, client, server)"
| "link_run (Sent now side frame # evs) self client server = do {
     self \<leftarrow> link_enqueue self now side frame;
     link_run evs self client server
   }"
| "link_run (Flushed now # evs) self client server =
     (case link_deliver_due self now client server of
        (self, client, server) \<Rightarrow> link_run evs self client server)"

definition sent_to :: "link_side \<Rightarrow> link_event list \<Rightarrow> bytes list" where
  "sent_to d evs = List.map_filter (\<lambda>e. case e of Sent _ s f \<Rightarrow> if s = d then Some f else None | _ \<Rightarrow> None) evs"

text \<open>A frame as it was sent, or bent in one bit past the IPv4 header.\<close>

definition bent :: "bytes \<Rightarrow> bytes \<Rightarrow> bool" where
  "bent f g \<longleftrightarrow> (\<exists>off k. 20 \<le> off \<and> off < length f \<and> k < 8 \<and> g = flip_frame_bit f off k)"

definition genuine :: "link_config \<Rightarrow> bytes list \<Rightarrow> bytes \<Rightarrow> bool" where
  "genuine cfg sent g \<longleftrightarrow> (\<exists>f\<in>set sent. g = f \<or> (0 < lc_corrupt_ppm cfg \<and> bent f g))"

lemma bend_genuine:
  assumes "bend self frame corrupt = (self', g)"
  shows "(g = frame \<or> (corrupt \<and> bent frame g)) \<and> lk_cfg self' = lk_cfg self \<and> lk_inflight self' = lk_inflight self
    \<and> lk_order self' = lk_order self \<and> lk_dropped self' = lk_dropped self \<and> lk_duplicated self' = lk_duplicated self"
proof (cases "corrupt \<and> 20 < length frame")
  case True
  obtain o1 r1 where o: "below (lk_rng self) (length frame - 20) = (o1, r1)" by fastforce
  obtain k r2 where k: "below r1 8 = (k, r2)" by fastforce
  have "o1 < length frame - 20" using below_less[of "length frame - 20" "lk_rng self"] o True by simp
  moreover have "k < 8" using below_less[of 8 r1] k by simp
  ultimately have "bent frame (flip_frame_bit frame (20 + o1) k)" unfolding bent_def using True
    by (intro exI[of _ "20 + o1"] exI[of _ k]) auto
  then show ?thesis using assms True o k by (auto simp: bend_def)
qed (use assms in \<open>auto simp: bend_def\<close>)

lemma schedule_step:
  assumes "schedule self now side frame corrupt = Some self'"
  shows "\<exists>g d. (g = frame \<or> (corrupt \<and> bent frame g))
    \<and> lc_min_delay_us (lk_cfg self) \<le> d \<and> d \<le> lc_min_delay_us (lk_cfg self) + lc_jitter_us (lk_cfg self)
    \<and> lk_inflight self' = lk_inflight self @
        [\<lparr>if_deliver_at = plus_micros now d, if_side = side, if_order = lk_order self, if_frame = g\<rparr>]
    \<and> lk_order self' = lk_order self + 1 \<and> lk_cfg self' = lk_cfg self
    \<and> lk_dropped self' = lk_dropped self \<and> lk_duplicated self' = lk_duplicated self"
proof -
  obtain self1 g where b: "bend self frame corrupt = (self1, g)" by fastforce
  note v = bend_genuine[OF b]
  obtain span where span: "chk64 (lc_jitter_us (lk_cfg self1) + 1) = Some span"
    using assms b by (auto simp: schedule_def bind_eq_Some_conv)
  obtain j r where j: "below (lk_rng self1) span = (j, r)" by fastforce
  have s: "span = lc_jitter_us (lk_cfg self1) + 1" using span by (auto simp: chk64_def split: if_splits)
  have "j < span" using below_less[of span "lk_rng self1"] j s by simp
  then show ?thesis
    using assms b span j v s
    by (intro exI[of _ g] exI[of _ "lc_min_delay_us (lk_cfg self) + j"])
      (auto simp: schedule_def chk64_def bind_eq_Some_conv split: if_splits)
qed

definition link_inv :: "link_config \<Rightarrow> bytes list \<Rightarrow> bytes list \<Rightarrow> link \<Rightarrow> mock_device \<Rightarrow> mock_device \<Rightarrow> bool" where
  "link_inv cfg to_c to_s l c s \<longleftrightarrow> lk_cfg l = cfg
     \<and> length (lk_inflight l) + length (mk_inbound c) + length (mk_inbound s) + lk_dropped l
         = length to_c + length to_s + lk_duplicated l
     \<and> distinct (map if_order (lk_inflight l)) \<and> (\<forall>f\<in>set (lk_inflight l). if_order f < lk_order l)
     \<and> (\<forall>f\<in>set (lk_inflight l). genuine cfg (if if_side f = ToClient then to_c else to_s) (if_frame f))
     \<and> (\<forall>g\<in>set (mk_inbound c). genuine cfg to_c g) \<and> (\<forall>g\<in>set (mk_inbound s). genuine cfg to_s g)"

lemma genuine_mono: "genuine cfg xs g \<Longrightarrow> set xs \<subseteq> set ys \<Longrightarrow> genuine cfg ys g"
  by (auto simp: genuine_def)

lemma chance_pos: "chance_ppm rng ppm = (True, rng') \<Longrightarrow> 0 < ppm"
  by (cases "ppm = 0") (auto simp: chance_never)

lemma side_not: "side \<noteq> ToServer \<longleftrightarrow> side = ToClient" "side \<noteq> ToClient \<longleftrightarrow> side = ToServer"
  by (cases side; simp)+

text \<open>One frame scheduled: a new entry at the end, genuine if its source is.\<close>

lemma schedule_inv:
  assumes "schedule l now side frame corrupt = Some l'" and "lk_cfg l = cfg"
    and "corrupt \<Longrightarrow> 0 < lc_corrupt_ppm cfg"
    and "frame \<in> set (if side = ToClient then to_c else to_s)"
    and "distinct (map if_order (lk_inflight l))" and "\<forall>f\<in>set (lk_inflight l). if_order f < lk_order l"
    and "\<forall>f\<in>set (lk_inflight l). genuine cfg (if if_side f = ToClient then to_c else to_s) (if_frame f)"
  shows "lk_cfg l' = cfg \<and> length (lk_inflight l') = length (lk_inflight l) + 1
    \<and> lk_dropped l' = lk_dropped l \<and> lk_duplicated l' = lk_duplicated l
    \<and> distinct (map if_order (lk_inflight l')) \<and> (\<forall>f\<in>set (lk_inflight l'). if_order f < lk_order l')
    \<and> (\<forall>f\<in>set (lk_inflight l'). genuine cfg (if if_side f = ToClient then to_c else to_s) (if_frame f))"
proof -
  obtain g d where g: "g = frame \<or> (corrupt \<and> bent frame g)"
    and l': "lk_inflight l' = lk_inflight l @
        [\<lparr>if_deliver_at = plus_micros now d, if_side = side, if_order = lk_order l, if_frame = g\<rparr>]"
      "lk_order l' = lk_order l + 1" "lk_cfg l' = lk_cfg l" "lk_dropped l' = lk_dropped l"
      "lk_duplicated l' = lk_duplicated l"
    using schedule_step[OF assms(1)] by blast
  have "genuine cfg (if side = ToClient then to_c else to_s) g"
    using g assms(3,4) unfolding genuine_def by blast
  then show ?thesis using assms(2,5-7) l' by (auto simp: less_Suc_eq)
qed

lemma enqueue_inv:
  assumes e: "link_enqueue l now side frame = Some l'" and i: "link_inv cfg to_c to_s l c s"
    and C: "to_c' = to_c @ (if side = ToClient then [frame] else [])"
    and S: "to_s' = to_s @ (if side = ToServer then [frame] else [])"
  shows "link_inv cfg to_c' to_s' l' c s"
proof -
  obtain lost r0 where lost: "chance_ppm (lk_rng l) (lc_loss_ppm (lk_cfg l)) = (lost, r0)" by fastforce
  have sub: "set to_c \<subseteq> set to_c'" "set to_s \<subseteq> set to_s'" using C S by auto
  have len: "length to_c' + length to_s' = length to_c + length to_s + 1" using C S by (cases side) auto
  have src: "frame \<in> set (if side = ToClient then to_c' else to_s')" using C S by (cases side) auto
  have i': "lk_cfg l = cfg" "distinct (map if_order (lk_inflight l))" "\<forall>f\<in>set (lk_inflight l). if_order f < lk_order l"
    "\<forall>f\<in>set (lk_inflight l). genuine cfg (if if_side f = ToClient then to_c' else to_s') (if_frame f)"
    "\<forall>g\<in>set (mk_inbound c). genuine cfg to_c' g" "\<forall>g\<in>set (mk_inbound s). genuine cfg to_s' g"
    "length (lk_inflight l) + length (mk_inbound c) + length (mk_inbound s) + lk_dropped l
         = length to_c + length to_s + lk_duplicated l"
    using i sub genuine_mono unfolding link_inv_def by (auto split: if_splits)
  show ?thesis
  proof (cases lost)
    case True
    then have "l' = l\<lparr>lk_rng := r0, lk_dropped := lk_dropped l + 1\<rparr>"
      using e lost by (simp add: link_enqueue_def Let_def)
    then show ?thesis using i' len by (simp add: link_inv_def)
  next
    case False
    obtain cor r1 where cor: "chance_ppm r0 (lc_corrupt_ppm (lk_cfg l)) = (cor, r1)" by fastforce
    obtain l1 where l1: "schedule (l\<lparr>lk_rng := r1\<rparr>) now side frame cor = Some l1"
      using e False lost cor by (auto simp: link_enqueue_def Let_def bind_eq_Some_conv)
    obtain dup r2 where dup: "chance_ppm (lk_rng l1) (lc_dup_ppm (lk_cfg l1)) = (dup, r2)" by fastforce
    have "cor \<Longrightarrow> 0 < lc_corrupt_ppm cfg" using cor i'(1) by (cases cor) (auto dest: chance_pos)
    note s1 = schedule_inv[OF l1 _ this src]
    have v1: "lk_cfg l1 = cfg \<and> length (lk_inflight l1) = length (lk_inflight l) + 1
      \<and> lk_dropped l1 = lk_dropped l \<and> lk_duplicated l1 = lk_duplicated l
      \<and> distinct (map if_order (lk_inflight l1)) \<and> (\<forall>f\<in>set (lk_inflight l1). if_order f < lk_order l1)
      \<and> (\<forall>f\<in>set (lk_inflight l1). genuine cfg (if if_side f = ToClient then to_c' else to_s') (if_frame f))"
      using s1 i' by simp
    show ?thesis
    proof (cases dup)
      case False
      then have "l' = l1\<lparr>lk_rng := r2\<rparr>"
        using e \<open>\<not> lost\<close> lost cor l1 dup by (auto simp: link_enqueue_def Let_def)
      then show ?thesis using v1 i' len by (simp add: link_inv_def)
    next
      case True
      then have l2: "schedule (l1\<lparr>lk_rng := r2, lk_duplicated := lk_duplicated l1 + 1\<rparr>) now side frame False = Some l'"
        using e \<open>\<not> lost\<close> lost cor l1 dup by (auto simp: link_enqueue_def Let_def)
      have "lk_cfg l' = cfg \<and> length (lk_inflight l') = length (lk_inflight l1) + 1
        \<and> lk_dropped l' = lk_dropped l1 \<and> lk_duplicated l' = lk_duplicated l1 + 1
        \<and> distinct (map if_order (lk_inflight l')) \<and> (\<forall>f\<in>set (lk_inflight l'). if_order f < lk_order l')
        \<and> (\<forall>f\<in>set (lk_inflight l'). genuine cfg (if if_side f = ToClient then to_c' else to_s') (if_frame f))"
        using schedule_inv[OF l2 _ _ src, where cfg = cfg] v1 by simp
      then show ?thesis using v1 i' len by (simp add: link_inv_def)
    qed
  qed
qed

lemma flush_inv:
  assumes f: "link_deliver_due l now c s = (l', c', s')" and i: "link_inv cfg to_c to_s l c s"
  shows "link_inv cfg to_c to_s l' c' s'"
proof -
  obtain keep where k: "flush_due (lk_inflight l) now c s = (keep, c', s')" and l': "l' = l\<lparr>lk_inflight := keep\<rparr>"
    using f by (auto simp: link_deliver_due_def split: prod.splits)
  obtain due where d: "mset (lk_inflight l) = mset keep + mset due"
    "c' = c\<lparr>mk_inbound := mk_inbound c @ map if_frame (filter (\<lambda>f. if_side f = ToClient) due)\<rparr>"
    "s' = s\<lparr>mk_inbound := mk_inbound s @ map if_frame (filter (\<lambda>f. if_side f = ToServer) due)\<rparr>"
    using flush_order[OF k] by blast
  have keep: "keep = filter (\<lambda>f. \<not> if_deliver_at f \<le> now) (lk_inflight l)"
    using k by (simp add: flush_due_def Let_def)
  have sub: "set keep \<subseteq> set (lk_inflight l)" "set due \<subseteq> set (lk_inflight l)"
    using arg_cong[OF d(1), of set_mset] by auto
  have "length (lk_inflight l) = length keep + length due" using arg_cong[OF d(1), of size] by simp
  moreover have "length (filter (\<lambda>f. if_side f = ToClient) due) + length (filter (\<lambda>f. if_side f = ToServer) due) = length due"
    using sum_length_filter_compl[of "\<lambda>f. if_side f = ToClient" due] by (simp add: side_not)
  moreover have "distinct (map if_order keep)" using i by (simp add: keep link_inv_def distinct_map_filter)
  moreover have "\<forall>f\<in>set due. genuine cfg (if if_side f = ToClient then to_c else to_s) (if_frame f)"
    using i sub(2) unfolding link_inv_def by blast
  then have "\<forall>g\<in>set (mk_inbound c'). genuine cfg to_c g" "\<forall>g\<in>set (mk_inbound s'). genuine cfg to_s g"
    using i unfolding link_inv_def d(2,3) by fastforce+
  ultimately show ?thesis using i sub unfolding link_inv_def l' d(2,3) by (simp add: subset_iff)
qed

lemma run_inv:
  assumes "link_run evs l c s = Some (l', c', s')" and "link_inv cfg to_c to_s l c s"
  shows "link_inv cfg (to_c @ sent_to ToClient evs) (to_s @ sent_to ToServer evs) l' c' s'"
  using assms
proof (induction evs arbitrary: l c s to_c to_s)
  case Nil
  then show ?case by (simp add: sent_to_def map_filter_simps)
next
  case (Cons ev evs)
  show ?case
  proof (cases ev)
    case (Sent now side frame)
    then obtain l1 where l1: "link_enqueue l now side frame = Some l1" "link_run evs l1 c s = Some (l', c', s')"
      using Cons.prems(1) by (auto simp: bind_eq_Some_conv)
    from Cons.IH[OF l1(2) enqueue_inv[OF l1(1) Cons.prems(2) refl refl]] show ?thesis
      by (cases side) (simp_all add: Sent sent_to_def map_filter_simps)
  next
    case (Flushed now)
    obtain l1 c1 s1 where f: "link_deliver_due l now c s = (l1, c1, s1)" by (metis prod_cases3)
    then have "link_run evs l1 c1 s1 = Some (l', c', s')" using Cons.prems(1) Flushed by simp
    from Cons.IH[OF this flush_inv[OF f Cons.prems(2)]] show ?thesis
      by (simp add: Flushed sent_to_def map_filter_simps)
  qed
qed

section \<open>A perfect link is a FIFO\<close>

fun event_time :: "link_event \<Rightarrow> instant" where
  "event_time (Sent now side frame) = now"
| "event_time (Flushed now) = now"

definition faultless :: "link_config \<Rightarrow> bool" where
  "faultless cfg \<longleftrightarrow> lc_loss_ppm cfg = 0 \<and> lc_dup_ppm cfg = 0 \<and> lc_corrupt_ppm cfg = 0 \<and> lc_jitter_us cfg = 0"

definition in_transit :: "link_side \<Rightarrow> link \<Rightarrow> bytes list" where
  "in_transit d l = wired d (lk_inflight l)"

definition fifo_inv :: "link_config \<Rightarrow> instant \<Rightarrow> bytes list \<Rightarrow> bytes list \<Rightarrow> link \<Rightarrow> mock_device \<Rightarrow> mock_device \<Rightarrow> bool" where
  "fifo_inv cfg t to_c to_s l c s \<longleftrightarrow> lk_cfg l = cfg \<and> lk_dropped l = 0
     \<and> sorted (map due_key (lk_inflight l))
     \<and> (\<forall>f\<in>set (lk_inflight l). if_order f < lk_order l \<and> if_deliver_at f \<le> plus_micros t (lc_min_delay_us cfg))
     \<and> mk_inbound c @ in_transit ToClient l = to_c \<and> mk_inbound s @ in_transit ToServer l = to_s"

lemma plus_micros_le: "a \<le> b \<Longrightarrow> plus_micros a d \<le> plus_micros b d"
  by (simp add: plus_micros_def sat_add64_def)

lemma faultless_enqueue:
  assumes "faultless (lk_cfg l)" and "link_enqueue l now side frame = Some l'"
  shows "\<exists>rng. l' = l\<lparr>lk_rng := rng, lk_order := lk_order l + 1, lk_inflight := lk_inflight l @
     [\<lparr>if_deliver_at = plus_micros now (lc_min_delay_us (lk_cfg l)), if_side = side, if_order = lk_order l,
       if_frame = frame\<rparr>]\<rparr>"
proof -
  obtain j rng where j: "below (lk_rng l) 1 = (j, rng)" by fastforce
  have "j = 0" using below_less[of 1 "lk_rng l"] j by simp
  then show ?thesis using assms j
    by (intro exI[of _ rng])
      (auto simp: faultless_def link_enqueue_def Let_def chance_never schedule_def bend_def bind_eq_Some_conv
        chk64_def split: if_splits)
qed

lemma fifo_enqueue:
  assumes e: "link_enqueue l now side frame = Some l'" and i: "fifo_inv cfg t to_c to_s l c s"
    and f: "faultless cfg" and t: "t \<le> now"
  shows "fifo_inv cfg now (to_c @ (if side = ToClient then [frame] else []))
    (to_s @ (if side = ToServer then [frame] else [])) l' c s"
proof -
  let ?d = "lc_min_delay_us cfg"
  have cfg: "lk_cfg l = cfg" using i by (simp add: fifo_inv_def)
  obtain rng where l': "l' = l\<lparr>lk_rng := rng, lk_order := lk_order l + 1, lk_inflight := lk_inflight l @
     [\<lparr>if_deliver_at = plus_micros now ?d, if_side = side, if_order = lk_order l, if_frame = frame\<rparr>]\<rparr>"
    using faultless_enqueue[OF _ e] f cfg by blast
  have b: "if_order g < lk_order l \<and> if_deliver_at g \<le> plus_micros now ?d" if "g \<in> set (lk_inflight l)" for g
    using i that plus_micros_le[OF t, of ?d] unfolding fifo_inv_def by (meson le_trans)
  have "sorted (map due_key (lk_inflight l'))"
    using i b by (auto simp: l' fifo_inv_def sorted_append due_key_def less_imp_le le_less)
  then show ?thesis using i b
    by (auto simp: l' fifo_inv_def in_transit_def wired_def less_Suc_eq)
qed

lemma fifo_flush:
  assumes e: "link_deliver_due l now c s = (l', c', s')" and i: "fifo_inv cfg t to_c to_s l c s" and t: "t \<le> now"
  shows "fifo_inv cfg now to_c to_s l' c' s'"
proof -
  obtain keep where k: "flush_due (lk_inflight l) now c s = (keep, c', s')" and l': "l' = l\<lparr>lk_inflight := keep\<rparr>"
    using e by (auto simp: link_deliver_due_def split: prod.splits)
  have so: "sorted (map due_key (lk_inflight l))" using i by (simp add: fifo_inv_def)
  then have "sorted (map due_key (filter (\<lambda>f. if_side f = d) (lk_inflight l)))" for d by (simp add: sorted_filter)
  note f = flush_fifo[OF k this]
  have b: "if_order g < lk_order l \<and> if_deliver_at g \<le> plus_micros now (lc_min_delay_us cfg)" if "g \<in> set (lk_inflight l)" for g
    using i that plus_micros_le[OF t, of "lc_min_delay_us cfg"] unfolding fifo_inv_def by (meson le_trans)
  have "sorted (map due_key keep)" unfolding f(1) using so by (simp add: sorted_filter)
  moreover have "set keep \<subseteq> set (lk_inflight l)" unfolding f(1) by auto
  moreover have "mk_inbound c' @ wired ToClient keep = to_c" "mk_inbound s' @ wired ToServer keep = to_s"
    using i f(2,3) by (simp_all add: fifo_inv_def in_transit_def)
  ultimately show ?thesis using i b by (simp add: fifo_inv_def in_transit_def l' subset_iff)
qed

text \<open>Without faults and jitter, and with a clock that does not go back, each side gets what was sent to it, in order.\<close>

lemma faultless_run:
  assumes "link_run evs l c s = Some (l', c', s')" and "fifo_inv cfg t to_c to_s l c s" and "faultless cfg"
    and "sorted (t # map event_time evs)"
  shows "\<exists>t'. fifo_inv cfg t' (to_c @ sent_to ToClient evs) (to_s @ sent_to ToServer evs) l' c' s'"
  using assms
proof (induction evs arbitrary: l c s t to_c to_s)
  case Nil
  then show ?case by (auto simp: sent_to_def map_filter_simps)
next
  case (Cons ev evs)
  show ?case
  proof (cases ev)
    case (Sent now side frame)
    then obtain l1 where l1: "link_enqueue l now side frame = Some l1" "link_run evs l1 c s = Some (l', c', s')"
      using Cons.prems(1) by (auto simp: bind_eq_Some_conv)
    have "t \<le> now" "sorted (now # map event_time evs)" using Cons.prems(4) Sent by auto
    from Cons.IH[OF l1(2) fifo_enqueue[OF l1(1) Cons.prems(2,3) this(1)] Cons.prems(3) this(2)] show ?thesis
      by (cases side) (simp_all add: Sent sent_to_def map_filter_simps)
  next
    case (Flushed now)
    obtain l1 c1 s1 where f: "link_deliver_due l now c s = (l1, c1, s1)" by (metis prod_cases3)
    have "t \<le> now" "sorted (now # map event_time evs)" using Cons.prems(4) Flushed by auto
    moreover have "link_run evs l1 c1 s1 = Some (l', c', s')" using Cons.prems(1) Flushed f by simp
    ultimately show ?thesis using Cons.IH[OF _ fifo_flush[OF f Cons.prems(2)] Cons.prems(3)]
      by (simp add: Flushed sent_to_def map_filter_simps)
  qed
qed

section \<open>The property of the link\<close>

text \<open>
  C37: the fault link neither forges nor loses count of a frame. Over any run of sends and flushes,
  from a fresh link with any seed and fault rates, the frames in flight, those delivered to either
  side and those counted as dropped add up to the frames sent plus those counted as duplicated;
  every frame delivered to a side is one that was sent to it, byte for byte or, when the
  corruption rate is not zero, with a single bit changed behind the IPv4 header; and without
  faults and jitter, when the clock does not go back, each side has received exactly what was sent
  to it, in order, but for what is still in flight.
\<close>

theorem link_conserves_frames:
  assumes "link_run evs (link_new seed cfg) mock_new mock_new = Some (l, client, server)"
  shows "length (lk_inflight l) + length (mk_inbound client) + length (mk_inbound server) + lk_dropped l
      = length (sent_to ToClient evs) + length (sent_to ToServer evs) + lk_duplicated l
    \<and> (\<forall>g\<in>set (mk_inbound client). genuine cfg (sent_to ToClient evs) g)
    \<and> (\<forall>g\<in>set (mk_inbound server). genuine cfg (sent_to ToServer evs) g)
    \<and> (faultless cfg \<and> sorted (map event_time evs)
        \<longrightarrow> mk_inbound client @ in_transit ToClient l = sent_to ToClient evs
          \<and> mk_inbound server @ in_transit ToServer l = sent_to ToServer evs)"
proof -
  have "link_inv cfg [] [] (link_new seed cfg) mock_new mock_new"
    by (simp add: link_inv_def link_new_def mock_new_def)
  note counts = run_inv[OF assms this]
  have "fifo_inv cfg 0 [] [] (link_new seed cfg) mock_new mock_new"
    by (simp add: fifo_inv_def link_new_def mock_new_def in_transit_def wired_def)
  then have "faultless cfg \<and> sorted (map event_time evs)
      \<Longrightarrow> mk_inbound client @ in_transit ToClient l = sent_to ToClient evs
        \<and> mk_inbound server @ in_transit ToServer l = sent_to ToServer evs"
    using faultless_run[OF assms, of cfg 0 "[]" "[]"] by (auto simp: fifo_inv_def)
  then show ?thesis using counts by (simp add: link_inv_def)
qed

lemma below_one: "below self (Suc 0) = (0, snd (next_u64 self))"
  by (simp add: below_def split: prod.split)

definition sample_events :: "link_event list" where
  "sample_events = [Sent 0 ToServer [1, 2], Sent 10 ToClient [3], Sent 20 ToServer [4], Flushed 5010]"

lemma sample_run:
  "\<exists>l c s. link_run sample_events (link_new 7 PERFECT) mock_new mock_new = Some (l, c, s)
     \<and> mk_inbound c = [[3]] \<and> mk_inbound s = [[1, 2]] \<and> in_transit ToServer l = [[4]]"
  by (simp add: sample_events_def link_enqueue_def link_new_def PERFECT_def chance_never schedule_def bend_def
      Let_def below_one chk64_def U64_MAX_def link_deliver_due_def flush_due_def plus_micros_def sat_add64_def
      inject_fold mock_new_def due_key_def in_transit_def wired_def)

theorem link_conserves_frames_witness:
  "\<exists>l c s. link_run sample_events (link_new 7 PERFECT) mock_new mock_new = Some (l, c, s)
     \<and> length (lk_inflight l) + 2 + lk_dropped l = 3 + lk_duplicated l
     \<and> mk_inbound s @ in_transit ToServer l = [[1, 2], [4]]"
proof -
  obtain l c s where r: "link_run sample_events (link_new 7 PERFECT) mock_new mock_new = Some (l, c, s)"
    and "mk_inbound c = [[3]]" "mk_inbound s = [[1, 2]]"
    using sample_run by blast
  moreover have "sent_to ToServer sample_events = [[1, 2], [4]]" "sent_to ToClient sample_events = [[3]]"
    by (simp_all add: sent_to_def sample_events_def map_filter_simps)
  moreover have "faultless PERFECT" "sorted (map event_time sample_events)"
    by (simp_all add: faultless_def PERFECT_def sample_events_def)
  ultimately show ?thesis using link_conserves_frames[OF r] by simp
qed

end
