(* ===== verification/Sim_Corruption.thy ===== *)
theory Sim_Corruption
  imports Sim_Link
begin

text \<open>
  What the receiver does with a frame the fault link has bent in one bit: the checksum finds it,
  unless the checksum field reads zero, which \<open>on_recv\<close> takes as ``not computed''.
\<close>

section \<open>One bit and the one's-complement sum\<close>

definition octet_weight :: "nat \<Rightarrow> nat" where
  "octet_weight i = (if even i then 256 else 1)"

lemma be_sum_update:
  "i < length xs \<Longrightarrow> be_sum (xs[i := b]) + octet_weight i * unat (xs ! i) = be_sum xs + octet_weight i * unat b"
proof (induction xs arbitrary: i rule: be_sum.induct)
  case (1 x y rest)
  consider "i = 0" | "i = 1" | j where "i = Suc (Suc j)" by (metis One_nat_def not0_implies_Suc)
  then show ?case
  proof cases
    case 3
    then show ?thesis using 1 by (simp add: octet_weight_def)
  qed (simp_all add: octet_weight_def)
qed (simp_all add: octet_weight_def)

lemma unat_flip:
  fixes b :: u8
  assumes "k < 8"
  shows "unat (b XOR push_bit k 1) = unat b + 2 ^ k \<or> unat (b XOR push_bit k 1) + 2 ^ k = unat b"
proof -
  have "(2::nat) ^ k < 2 ^ 8" using assms by (intro power_strict_increasing) auto
  then have "unat (word_of_nat (2 ^ k) :: u8) = 2 ^ k" unfolding unat_word_of_nat_u8 by simp
  then have "unat (push_bit k 1 :: u8) = 2 ^ k" by (simp add: push_bit_eq_mult)
  then have e: "unat (b XOR push_bit k 1) = flip_bit k (unat b)"
    by (simp add: unsigned_xor_eq flip_bit_def push_bit_eq_mult)
  show ?thesis
  proof (cases "bit (unat b) k")
    case True
    then have "\<not> bit (flip_bit k (unat b)) k" by (simp add: bit_flip_bit_iff)
    then have "flip_bit k (flip_bit k (unat b)) = flip_bit k (unat b) + 2 ^ k"
      by (simp only: flip_bit_eq_if[of k "flip_bit k (unat b)"] if_False set_bit_eq) simp
    moreover have "flip_bit k (flip_bit k (unat b)) = unat b" by (simp add: flip_bit_def xor.assoc)
    ultimately show ?thesis using e by simp
  next
    case False
    then show ?thesis using e by (simp add: flip_bit_eq_if set_bit_eq)
  qed
qed

lemma shifted_sum_not_zero:
  fixes n m :: nat
  assumes "n mod 65535 = 0" and "m = n + d \<or> m + d = n" and "0 < d" and "d < 65535"
  shows "m mod 65535 \<noteq> 0"
proof
  assume "m mod 65535 = 0"
  then have "65535 dvd m" "65535 dvd n" using assms(1) by auto
  then have "65535 dvd d" using assms(2) by (metis dvd_add_right_iff)
  then show False using assms(3,4) by (simp add: nat_dvd_not_less)
qed

lemma octet_weight_flip: "k < 8 \<Longrightarrow> 0 < octet_weight i * 2 ^ k \<and> octet_weight i * 2 ^ k < 65535"
proof -
  assume "k < 8"
  then have "(2::nat) ^ k \<le> 2 ^ 7" by (intro power_increasing) auto
  then show ?thesis by (auto simp: octet_weight_def)
qed

text \<open>The checksum of a segment detects every single-bit error.\<close>

lemma flip_detected:
  assumes v: "tcp_checksum_valid src dst seg" and off: "off < length seg" and k: "k < 8"
  shows "\<not> tcp_checksum_valid src dst (flip_frame_bit seg off k)"
proof
  let ?seg' = "flip_frame_bit seg off k"
  let ?acc = "pseudo_header src dst IPPROTO_TCP (word_of_nat (length seg))"
  assume v': "tcp_checksum_valid src dst ?seg'"
  have w: "fold16 (accumulate ?acc seg) = 0xffff" "fold16 (accumulate ?acc ?seg') = 0xffff"
    using v v' by (simp_all add: tcp_checksum_valid_def flip_frame_bit_def)
  have "ones_sum (?acc + be_sum seg) = 65535" "ones_sum (?acc + be_sum ?seg') = 65535"
    unfolding fold16_accumulate[symmetric] w by simp_all
  then have z: "(?acc + be_sum seg) mod 65535 = 0" "(?acc + be_sum ?seg') mod 65535 = 0"
    by (auto simp: ones_sum_def split: if_splits)
  let ?d = "octet_weight off * 2 ^ k"
  have "be_sum ?seg' = be_sum seg + ?d \<or> be_sum ?seg' + ?d = be_sum seg"
    using be_sum_update[OF off, of "seg ! off XOR push_bit k 1"] unat_flip[OF k, of "seg ! off"]
    unfolding flip_frame_bit_def by (elim disjE) (simp_all add: octet_weight_def split: if_splits)
  then show False
    using shifted_sum_not_zero[OF z(1), of "?acc + be_sum ?seg'" ?d] octet_weight_flip[OF k, of off] z(2) by auto
qed

section \<open>At the receiver\<close>

text \<open>A bent frame keeps its IPv4 header, and its segment is the original with one bit changed.\<close>

lemma flipped_fields:
  assumes c: "carries local remote frame seg" and o: "20 \<le> off" "off < length frame"
    and g: "g = flip_frame_bit frame off k"
  shows "ip_payload g = flip_frame_bit seg (off - 20) k" and "ip_src g = ip_src frame" and "ip_dst g = ip_dst frame"
    and "ip_protocol g = ip_protocol frame" and "ip_new_checked g = Inr g"
proof -
  have f: "ip_new_checked frame = Inr frame" "ip_header_len frame = 20" "ip_payload frame = seg"
    "length frame = 20 + length seg" using c by (simp_all add: carries_def)
  have n: "g ! i = frame ! i" if "i < 20" for i using that o(1) by (simp add: g flip_frame_bit_def)
  have len: "length g = length frame" by (simp add: g flip_frame_bit_def)
  have h: "ip_version g = ip_version frame" "ip_header_len g = ip_header_len frame" "ip_total_len g = ip_total_len frame"
    "is_fragment g = is_fragment frame"
    by (simp_all add: ip_version_def ip_header_len_def ip_total_len_def is_fragment_def n)
  show "ip_new_checked g = Inr g"
    using f(1) by (auto simp: ip_new_checked_def h len Let_def split: if_splits)
  show "ip_src g = ip_src frame" "ip_dst g = ip_dst frame" "ip_protocol g = ip_protocol frame"
    by (simp_all add: ip_src_def ip_dst_def ip_protocol_def n)
  have d: "drop 20 g = (drop 20 frame)[off - 20 := frame ! off XOR push_bit k 1]"
    using o(1) by (simp add: g flip_frame_bit_def drop_update_swap)
  have s: "seg = take (unat (ip_total_len frame) - 20) (drop 20 frame)" using f(2,3) by (simp add: ip_payload_def)
  have "off - 20 < length seg" using o f(4) by simp
  then have "off - 20 < unat (ip_total_len frame) - 20" unfolding s by simp
  then have "seg ! (off - 20) = frame ! off" unfolding s using o(1) f(4) by simp
  then show "ip_payload g = flip_frame_bit seg (off - 20) k"
    using f(3) o(1,2) f(4) unfolding ip_payload_def h f(2) d
    by (simp add: flip_frame_bit_def take_update_swap)
qed

text \<open>What is left of a segment when the flip clears its checksum field.\<close>

lemma flip_outside_checksum:
  assumes "i < 16 \<or> 18 \<le> i" shows "tcp_checksum_field (flip_frame_bit seg i k) = tcp_checksum_field seg"
  using assms by (auto simp: tcp_checksum_field_def flip_frame_bit_def)

lemma bent_is_ignored:
  assumes c: "carries local remote frame seg" and z: "tcp_checksum_field seg \<noteq> 0" and b: "bent frame g"
  shows "on_recv ov st now g = Some st \<or> (take 36 g = take 36 frame \<and> drop 38 g = drop 38 frame)"
proof -
  obtain i k where i: "20 \<le> i" "i < length frame" and k: "k < 8" and gi: "g = flip_frame_bit frame i k"
    using b unfolding bent_def by blast
  define off where "off = i - 20"
  have o: "off < length seg" "k < 8" and g: "g = flip_frame_bit frame (20 + off) k"
    using i k gi c by (auto simp: off_def carries_def)
  note f = flipped_fields[OF c i gi]
  have p: "ip_payload g = flip_frame_bit seg off k" using f(1) by (simp add: off_def)
  have v: "\<not> tcp_checksum_valid (ip_src g) (ip_dst g) (ip_payload g)"
    using flip_detected[OF _ o, of "ep_ip local" "ep_ip remote"] c f(2,3) p by (simp add: carries_def)
  show ?thesis
  proof (cases "tcp_checksum_field (ip_payload g) = 0")
    case True
    then have "16 \<le> off \<and> off < 18" using z p flip_outside_checksum[of off seg k] by (metis not_le)
    then show ?thesis by (simp add: g flip_frame_bit_def)
  next
    case False
    have "t = ip_payload g" if "tcp_new_checked (ip_payload g) = Inr t" for t
      using that by (auto simp: tcp_new_checked_def Let_def split: if_splits)
    then have "on_recv ov st now g = Some st" using v False unfolding on_recv_def
      by (cases "tcp_new_checked (ip_payload g)") fastforce+
    then show ?thesis ..
  qed
qed

section \<open>The properties\<close>

text \<open>
  C38: corruption on the link does not reach a connection. When everything sent to the server
  is a datagram with valid checksums whose TCP checksum field is not zero, then every frame the
  link delivers, over any run with any fault rates, either leaves the stack it is given to
  unchanged or is one of the sent frames, up to the two octets of the TCP checksum field.
\<close>

theorem corruption_is_caught:
  assumes run: "link_run evs (link_new seed cfg) mock_new mock_new = Some (l, client, server)"
    and sent: "\<forall>f\<in>set (sent_to ToServer evs). \<exists>local remote seg. carries local remote f seg \<and> tcp_checksum_field seg \<noteq> 0"
    and g: "g \<in> set (mk_inbound server)"
  shows "on_recv ov st now g = Some st
    \<or> (\<exists>f\<in>set (sent_to ToServer evs). take 36 g = take 36 f \<and> drop 38 g = drop 38 f)"
proof -
  have "link_inv cfg [] [] (link_new seed cfg) mock_new mock_new"
    by (simp add: link_inv_def link_new_def mock_new_def)
  then have "genuine cfg (sent_to ToServer evs) g"
    using run_inv[OF run, of cfg "[]" "[]"] g by (simp add: link_inv_def)
  then obtain f where f: "f \<in> set (sent_to ToServer evs)" "g = f \<or> bent f g" unfolding genuine_def by blast
  then show ?thesis using sent bent_is_ignored by blast
qed

text \<open>A SYN whose checksum is zero when the last octet of its sequence number is \<open>0x8f\<close>.\<close>

definition syn_repr :: "u8 \<Rightarrow> tcp_repr" where
  "syn_repr b = \<lparr>tr_src_port = 49152, tr_dst_port = 80, tr_seq = u32_from_be 0 0 0xDA b, tr_ack = 0, tr_flags = SYN,
     tr_window = 256, tr_mss = None, tr_sack_permitted = False, tr_sack = [], tr_window_scale = None,
     tr_timestamps = None, tr_ae = False\<rparr>"

lemma syn_checksum:
  "unat (tcp_checksum 0x0A000002 0x0A000001 (tcp_head (syn_repr b) @ [0, 0] @ [0, 0] @ option_bytes (syn_repr b) @ []))
    = 65535 - ones_sum (130927 + unat b)"
proof -
  let ?seg = "tcp_head (syn_repr b) @ [0, 0] @ [0, 0] @ option_bytes (syn_repr b) @ []"
  have seq: "u32_to_be (u32_from_be 0 0 0xDA b) = [0, 0, 0xDA, b]"
  proof -
    have "(55808 + x) div 16777216 = 0 \<and> (55808 + x) div 65536 = 0 \<and> (55808 + x) div 256 = 218" if "x < 256" for x :: nat
      using that by (intro conjI div_nat_eqI) simp_all
    from this[OF unat_u8_bound[of b]] show ?thesis by (simp add: u32_to_be_def unat_u32_from_be)
  qed
  have seg: "?seg = [192, 0, 0, 80, 0, 0, 0xDA, b, 0, 0, 0, 0, 0x50, 2, 1, 0, 0, 0, 0, 0]"
    using seq by (simp add: tcp_head_def syn_repr_def option_bytes_def u16_to_be_def mss_bytes_def sack_permitted_bytes_def
        window_scale_bytes_def timestamps_bytes_def sack_bytes_def sack_blocks_to_emit_def tr_header_len_def SYN_def
        TCP_MIN_HEADER_LEN_def) (simp add: u32_to_be_def)
  have "oc_eq (pseudo_header 0x0A000002 0x0A000001 IPPROTO_TCP 20) 0x141d"
    using pseudo_header_oc_eq[where src = "0x0A000002" and dst = "0x0A000001" and protocol = IPPROTO_TCP and l4_len = "20"]
    by (simp add: octets_def u32_to_be_def u16_to_be_def IPPROTO_TCP_def)
  then have "oc_eq (pseudo_header 0x0A000002 0x0A000001 IPPROTO_TCP 20 + be_sum ?seg) (0x141d + be_sum ?seg)"
    by (rule oc_eq_add)
  then have "ones_sum (pseudo_header 0x0A000002 0x0A000001 IPPROTO_TCP 20 + be_sum ?seg) = ones_sum (0x141d + be_sum ?seg)"
    by (rule ones_sum_cong)
  also have "\<dots> = ones_sum (130927 + unat b)" unfolding seg by simp
  finally show ?thesis
    unfolding tcp_checksum_def Let_def unat_not_u16 seg fold16_accumulate[symmetric] by simp
qed

lemma syn_built:
  "\<exists>frame seg. build_segment (endpoint_new 0x0A000002 49152) (endpoint_new 0x0A000001 80) (syn_repr b) [] = Some frame
    \<and> carries (endpoint_new 0x0A000002 49152) (endpoint_new 0x0A000001 80) frame seg
    \<and> length seg = 20 \<and> tcp_flags_of seg = SYN \<and> unat (tcp_checksum_field seg) = 65535 - ones_sum (130927 + unat b)"
proof -
  let ?l = "endpoint_new 0x0A000002 49152" and ?r = "endpoint_new 0x0A000001 80"
  let ?c = "tcp_checksum 0x0A000002 0x0A000001 (tcp_head (syn_repr b) @ [0, 0] @ [0, 0] @ option_bytes (syn_repr b) @ [])"
  have h: "tr_header_len (syn_repr b) = 20"
    by (simp add: syn_repr_def tr_header_len_def sack_blocks_to_emit_def TCP_MIN_HEADER_LEN_def)
  obtain frame seg where f: "build_segment ?l ?r (syn_repr b) [] = Some frame" "carries ?l ?r frame seg"
    and s: "length seg = 20" "tcp_flags_of seg = SYN"
    using build_segment_carries[of "syn_repr b" "[]" ?l ?r] h by (auto simp: syn_repr_def endpoint_new_def)
  let ?ip = "\<lparr>ipr_src = 0x0A000002, ipr_dst = 0x0A000001, ipr_protocol = IPPROTO_TCP, ipr_payload_len = 20, ipr_ttl = 64, ipr_ecn = 0\<rparr>"
  define z where "z = replicate (ipr_total_len ?ip) (0 :: u8)"
  have z: "length z = 40" by (simp add: z_def ipr_total_len_def IP_HEADER_LEN_def IPV4_MIN_HEADER_LEN_def)
  obtain buf where buf: "ipv4_emit ?ip z = Some (20, buf)" "length buf = 40"
    using ipv4_emit_bytes[of z ?ip] z by simp
  have e: "tcp_emit (syn_repr b) 0x0A000002 0x0A000001 [] (drop 20 buf) = Some (20, tcp_segment (syn_repr b) ?c [])"
    using tcp_emit_bytes[where self = "syn_repr b" and payload = "[]" and buf = "drop 20 buf" and src = "0x0A000002"
      and dst = "0x0A000001"] h buf(2) by simp
  have l: "word_of_nat (tr_header_len (syn_repr b) + length ([] :: bytes)) = (20 :: u16)" by (simp add: h)
  have "frame = take 20 buf @ tcp_segment (syn_repr b) ?c []"
    using f(1) unfolding build_segment_def Let_def endpoint_new_def endpoint.simps l z_def[symmetric] buf(1)
      IP_HEADER_LEN_def IPV4_MIN_HEADER_LEN_def by (simp add: e)
  then have "drop 20 frame = tcp_segment (syn_repr b) ?c []" using buf(2) by simp
  moreover have "length frame = 20 + length seg" "ip_payload frame = seg" "ip_header_len frame = 20"
    using f(2) by (simp_all add: carries_def)
  then have "seg = drop 20 frame" using take_all_iff unfolding ip_payload_def by fastforce
  ultimately have "unat (tcp_checksum_field seg) = unat ?c" by (simp add: tcp_segment_fields)
  then have "unat (tcp_checksum_field seg) = 65535 - ones_sum (130927 + unat b)" unfolding syn_checksum .
  then show ?thesis using f s by blast
qed

text \<open>A link that bends every frame delivers a bent one; the receiving stack ignores it.\<close>

definition bending :: link_config where
  "bending = PERFECT\<lparr>lc_corrupt_ppm := 1000000\<rparr>"

lemma chance_certain: "chance_ppm self 1000000 = (True, snd (next_u64 self))"
  by (simp add: chance_ppm_def split: prod.split)

lemma bending_run:
  assumes "20 < length f"
  shows "\<exists>l c s g. link_run [Sent 0 ToServer f, Flushed 5000] (link_new 7 bending) mock_new mock_new = Some (l, c, s)
     \<and> mk_inbound s = [g] \<and> bent f g"
proof -
  obtain l1 g where b: "bend (link_new 7 bending\<lparr>lk_rng := snd (next_u64 (rng_new 7))\<rparr>) f True = (l1, g)" by fastforce
  have v: "lk_cfg l1 = bending" "lk_inflight l1 = []" using bend_genuine[OF b] by (simp_all add: link_new_def)
  have g: "bent f g"
  proof -
    obtain o1 r1 where o: "below (snd (next_u64 (rng_new 7))) (length f - 20) = (o1, r1)" by fastforce
    obtain k r2 where k: "below r1 8 = (k, r2)" by fastforce
    have "o1 < length f - 20" "k < 8"
      using below_less[of "length f - 20" "snd (next_u64 (rng_new 7))"] below_less[of 8 r1] o k assms by simp_all
    moreover have "g = flip_frame_bit f (20 + o1) k" using b assms o k by (simp add: bend_def)
    ultimately show ?thesis unfolding bent_def by (intro exI[of _ "20 + o1"] exI[of _ k]) simp
  qed
  have "\<exists>l c s. link_run [Sent 0 ToServer f, Flushed 5000] (link_new 7 bending) mock_new mock_new = Some (l, c, s)
     \<and> mk_inbound s = [g]"
    using b v by (simp add: link_enqueue_def link_new_def bending_def PERFECT_def chance_never chance_certain schedule_def
        Let_def below_one chk64_def U64_MAX_def link_deliver_due_def flush_due_def plus_micros_def sat_add64_def
        inject_fold mock_new_def due_key_def)
  then show ?thesis using g by blast
qed

theorem corruption_is_caught_witness:
  "\<exists>f l c s g. link_run [Sent 0 ToServer f, Flushed 5000] (link_new 7 bending) mock_new mock_new = Some (l, c, s)
     \<and> mk_inbound s = [g] \<and> bent f g
     \<and> (on_recv no_overrides sample_stack 0 g = Some sample_stack \<or> (take 36 g = take 36 f \<and> drop 38 g = drop 38 f))"
proof -
  let ?l = "endpoint_new 0x0A000002 49152" and ?r = "endpoint_new 0x0A000001 80"
  obtain f seg where c: "carries ?l ?r f seg" and "length seg = 20"
    and "unat (tcp_checksum_field seg) = 65535 - ones_sum (130927 + unat (0x90 :: u8))"
    using syn_built[of "0x90"] by blast
  then have f: "20 < length f" "tcp_checksum_field seg \<noteq> 0" by (auto simp: carries_def ones_sum_def)
  obtain l cl s g where r: "link_run [Sent 0 ToServer f, Flushed 5000] (link_new 7 bending) mock_new mock_new = Some (l, cl, s)"
    and g: "mk_inbound s = [g]" "bent f g" using bending_run[OF f(1)] by blast
  have sent: "sent_to ToServer [Sent 0 ToServer f, Flushed 5000] = [f]"
    by (simp add: sent_to_def map_filter_simps)
  have "on_recv no_overrides sample_stack 0 g = Some sample_stack
    \<or> (\<exists>f'\<in>set (sent_to ToServer [Sent 0 ToServer f, Flushed 5000]). take 36 g = take 36 f' \<and> drop 38 g = drop 38 f')"
    by (rule corruption_is_caught[OF r]) (use sent c f(2) g(1) in auto)
  then have "on_recv no_overrides sample_stack 0 g = Some sample_stack \<or> (take 36 g = take 36 f \<and> drop 38 g = drop 38 f)"
    unfolding sent by simp
  then show ?thesis using r g by blast
qed

text \<open>
  C39: a zero checksum field switches the check off, and this sender emits such segments: no
  segment is sent with 0xffff instead of a computed zero. The datagram built for the SYN below
  carries a valid checksum of value zero; with one bit of its sequence number changed on the way the
  listening stack takes it and opens a connection at a sequence number that was never sent.
\<close>

theorem zero_checksum_is_not_checked:
  "\<exists>frame seg g st tcb. build_segment (endpoint_new 0x0A000002 49152) (endpoint_new 0x0A000001 80) (syn_repr 0x8F) [] = Some frame
    \<and> carries (endpoint_new 0x0A000002 49152) (endpoint_new 0x0A000001 80) frame seg
    \<and> bent frame g \<and> \<not> tcp_checksum_valid (ip_src g) (ip_dst g) (ip_payload g)
    \<and> on_recv no_overrides sample_stack 0 g = Some st
    \<and> map_of (st_conns st) (endpoint_new 0x0A000002 49152) = Some tcb
    \<and> t_rcv_nxt tcb \<noteq> seq_add (tcp_seq seg) 1"
proof -
  let ?l = "endpoint_new 0x0A000002 49152" and ?r = "endpoint_new 0x0A000001 80"
  obtain frame seg where f: "build_segment ?l ?r (syn_repr 0x8F) [] = Some frame" and c: "carries ?l ?r frame seg"
    and s: "length seg = 20" "tcp_flags_of seg = SYN" and "unat (tcp_checksum_field seg) = 65535 - ones_sum (130927 + unat (0x8F :: u8))"
    using syn_built by blast
  then have zero: "tcp_checksum_field seg = 0" by (simp add: ones_sum_def unat_eq_0)
  define g where "g = flip_frame_bit frame 24 0"
  have b: "bent frame g" unfolding bent_def g_def
    using c s(1) by (intro exI[of _ 24] exI[of _ 0]) (simp add: carries_def)
  have i: "20 \<le> (24 :: nat)" "24 < length frame" using c s(1) by (simp_all add: carries_def)
  note p = flipped_fields[OF c i g_def]
  have seg': "ip_payload g = flip_frame_bit seg 4 0" using p(1) by simp
  have v: "\<not> tcp_checksum_valid (ip_src g) (ip_dst g) (ip_payload g)"
    using flip_detected[of "ip_src frame" "ip_dst frame" seg 4 0] c s(1) p(2,3) seg' by (simp add: carries_def)
  have n: "ip_payload g ! j = seg ! j" if "j \<noteq> 4" for j using that by (simp add: seg' flip_frame_bit_def)
  have n4: "ip_payload g ! 4 = seg ! 4 XOR 1" using s(1) by (simp add: seg' flip_frame_bit_def)
  have parse: "tcp_new_checked (ip_payload g) = Inr (ip_payload g)"
    using c s(1) by (auto simp: tcp_new_checked_def data_offset_def n seg' carries_def Let_def flip_frame_bit_def split: if_splits)
  have t: "tcp_src_port (ip_payload g) = 49152" "tcp_dst_port (ip_payload g) = 80" "tcp_flags_of (ip_payload g) = SYN"
    "tcp_checksum_field (ip_payload g) = 0"
    using c s(2) zero by (simp_all add: tcp_src_port_def tcp_dst_port_def tcp_flags_of_def tcp_checksum_field_def n carries_def endpoint_new_def)
  have q: "tcp_seq (ip_payload g) \<noteq> tcp_seq seg"
  proof
    assume "tcp_seq (ip_payload g) = tcp_seq seg"
    then have "unat (tcp_seq (ip_payload g)) = unat (tcp_seq seg)" by simp
    then have "unat (seg ! 4 XOR 1) = unat (seg ! 4)" unfolding tcp_seq_def unat_u32_from_be by (simp add: n n4)
    then show False using unat_flip[of 0 "seg ! 4"] by simp
  qed
  have st: "st_local sample_stack = endpoint_new 0x0A000001 80" "st_conns sample_stack = []"
    by (simp_all add: sample_stack_def stack_new_def)
  have fl: "flag_has SYN SYN" "\<not> flag_has SYN ACK" "\<not> flag_has SYN RST" by (simp_all add: flag_has_def SYN_def ACK_def RST_def)
  have ip: "ip_src g = 0x0A000002" "ip_dst g = 0x0A000001" "ip_protocol g = IPPROTO_TCP"
    using p c by (simp_all add: carries_def endpoint_new_def)
  let ?tcb = "set_congestion_control no_overrides
      (new_syn_received no_overrides ?r ?l (ip_payload g)
        (generate (st_isn sample_stack) 0x0A000001 80 0x0A000002 49152 0) 0 (st_mss_advertise sample_stack)) (st_cc_kind sample_stack)"
  have "on_recv no_overrides sample_stack 0 g = Some (sample_stack\<lparr>st_conns := AList.update ?l ?tcb []\<rparr>)"
    using ip parse t st fl by (simp add: on_recv_def on_unknown_def Let_def endpoint_new_def)
  moreover have "t_rcv_nxt ?tcb = seq_add (tcp_seq (ip_payload g)) 1"
    by (simp add: set_congestion_control_def new_syn_received_def Let_def split: option.split)
  then have "t_rcv_nxt ?tcb \<noteq> seq_add (tcp_seq seg) 1" using q by (simp add: seq_add_def)
  ultimately show ?thesis using f c b v by (intro exI conjI) (assumption | simp)+
qed

end
