(* ===== verification/Sim_Bottleneck.thy ===== *)
theory Sim_Bottleneck
  imports Sim_Link "HOL-Library.Sublist"
begin

text \<open>
  \<open>sim.rs\<close>, \<open>BottleneckLink\<close>: a rate-limited link with a finite buffer. Each direction is
  an independent FIFO kept as the time the link becomes free. The pairs of counters are lists
  of length two; an index outside them or a counter beyond 64 bits is a panic.
\<close>

section \<open>The link\<close>

datatype aqm = TailDrop | CeMark nat

definition frame_is_ect :: "bytes \<Rightarrow> bool" where
  "frame_is_ect frame \<longleftrightarrow>
     20 \<le> length frame \<and> (frame ! 1 AND 0x03 = ECN_ECT0 \<or> frame ! 1 AND 0x03 = ECN_ECT1)"

record bottleneck =
  bn_rate_bytes_per_sec :: nat
  bn_buffer_bytes :: nat
  bn_base_delay_us :: nat
  bn_aqm :: aqm

record queue_stats =
  qs_max_queue_us :: nat
  qs_mean_queue_us :: nat
  qs_delivered :: nat
  qs_dropped :: nat
  qs_marked :: nat

record bottleneck_link =
  bl_cfg :: bottleneck
  bl_inflight :: "flight_frame list"
  bl_order :: nat
  bl_next_free :: "instant list"
  bl_sum_queue_us :: "nat list"
  bl_max_queue_us :: "nat list"
  bl_delivered :: "nat list"
  bl_dropped :: "nat list"
  bl_marked :: "nat list"

definition bl_new :: "bottleneck \<Rightarrow> bottleneck_link" where
  "bl_new cfg = \<lparr>bl_cfg = cfg, bl_inflight = [], bl_order = 0, bl_next_free = [0, 0], bl_sum_queue_us = [0, 0],
     bl_max_queue_us = [0, 0], bl_delivered = [0, 0], bl_dropped = [0, 0], bl_marked = [0, 0]\<rparr>"

text \<open>\<open>xs[i] += n\<close>.\<close>

definition add_at :: "nat list \<Rightarrow> nat \<Rightarrow> nat \<Rightarrow> nat list option" where
  "add_at xs i n = (if i < length xs then map_option (\<lambda>v. xs[i := v]) (chk64 (xs ! i + n)) else None)"

text \<open>The marking of a frame that waited: at most the ECN bits and the IP checksum change.\<close>

definition ce_marks :: "aqm \<Rightarrow> nat \<Rightarrow> bytes \<Rightarrow> bool" where
  "ce_marks aqm queue_us frame =
     (case aqm of CeMark threshold_us \<Rightarrow> threshold_us < queue_us \<and> frame_is_ect frame | TailDrop \<Rightarrow> False)"

definition bl_enqueue :: "bottleneck_link \<Rightarrow> instant \<Rightarrow> link_side \<Rightarrow> bytes \<Rightarrow> bottleneck_link option" where
  "bl_enqueue self now side frame =
     (let i = side_index side;
          rate = max (bn_rate_bytes_per_sec (bl_cfg self)) 1;
          free = bl_next_free self ! i;
          backlog_bytes = sat_mul64 (saturating_micros_since free now) rate div 1000000
      in if bn_buffer_bytes (bl_cfg self) < backlog_bytes + length frame
         then map_option (\<lambda>d. self\<lparr>bl_dropped := d\<rparr>) (add_at (bl_dropped self) i 1)
         else let serialize_us = sat_mul64 (length frame) 1000000 div rate;
                  start = (if now < free then free else now);
                  queue_us = saturating_micros_since start now;
                  marks = ce_marks (bn_aqm (bl_cfg self)) queue_us frame;
                  frame = (if marks then set_ecn frame ECN_CE else frame);
                  depart = plus_micros start serialize_us
              in do {
                marked \<leftarrow> add_at (bl_marked self) i (if marks then 1 else 0);
                sum \<leftarrow> add_at (bl_sum_queue_us self) i queue_us;
                delivered \<leftarrow> add_at (bl_delivered self) i 1;
                Some (self\<lparr>bl_marked := marked, bl_next_free := (bl_next_free self)[i := depart],
                  bl_sum_queue_us := sum,
                  bl_max_queue_us := (bl_max_queue_us self)[i := max (bl_max_queue_us self ! i) queue_us],
                  bl_delivered := delivered, bl_order := bl_order self + 1,
                  bl_inflight := bl_inflight self @
                    [\<lparr>if_deliver_at = plus_micros depart (bn_base_delay_us (bl_cfg self)), if_side = side,
                      if_order = bl_order self, if_frame = frame\<rparr>]\<rparr>)
              })"

definition bl_next_deliver_at :: "bottleneck_link \<Rightarrow> instant option" where
  "bl_next_deliver_at self = min_deliver_at (bl_inflight self)"

definition bl_deliver_due ::
  "bottleneck_link \<Rightarrow> instant \<Rightarrow> mock_device \<Rightarrow> mock_device \<Rightarrow> bottleneck_link \<times> mock_device \<times> mock_device" where
  "bl_deliver_due self now client server =
     (case flush_due (bl_inflight self) now client server of (keep, devs) \<Rightarrow> (self\<lparr>bl_inflight := keep\<rparr>, devs))"

definition bl_stats :: "bottleneck_link \<Rightarrow> link_side \<Rightarrow> queue_stats" where
  "bl_stats self side =
     (let i = side_index side in
      \<lparr>qs_max_queue_us = bl_max_queue_us self ! i,
       qs_mean_queue_us = (if 0 < bl_delivered self ! i then bl_sum_queue_us self ! i div bl_delivered self ! i else 0),
       qs_delivered = bl_delivered self ! i, qs_dropped = bl_dropped self ! i, qs_marked = bl_marked self ! i\<rparr>)"

section \<open>Runs\<close>

fun bl_run ::
  "link_event list \<Rightarrow> bottleneck_link \<Rightarrow> mock_device \<Rightarrow> mock_device
    \<Rightarrow> (bottleneck_link \<times> mock_device \<times> mock_device) option" where
  "bl_run [] self client server = Some (self, client, server)"
| "bl_run (Sent now side frame # evs) self client server = do {
     self \<leftarrow> bl_enqueue self now side frame;
     bl_run evs self client server
   }"
| "bl_run (Flushed now # evs) self client server =
     (case bl_deliver_due self now client server of
        (self, client, server) \<Rightarrow> bl_run evs self client server)"

section \<open>What a direction keeps\<close>

text \<open>A frame leaves as it came, or with CE set when its sender marked it ECN-capable.\<close>

definition ce_copy :: "bytes \<Rightarrow> bytes \<Rightarrow> bool" where
  "ce_copy f g \<longleftrightarrow> g = f \<or> (frame_is_ect f \<and> g = set_ecn f ECN_CE)"

text \<open>The longest wait a buffer of this size allows at this rate.\<close>

definition wait_bound :: "bottleneck \<Rightarrow> nat \<Rightarrow> bool" where
  "wait_bound cfg q \<longleftrightarrow> q * max (bn_rate_bytes_per_sec cfg) 1 < (bn_buffer_bytes cfg + 1) * 1000000"

definition lane :: "bottleneck \<Rightarrow> link_side \<Rightarrow> bytes list \<Rightarrow> bytes list \<Rightarrow> bottleneck_link \<Rightarrow> bool" where
  "lane cfg d sent inbound l \<longleftrightarrow> (let i = side_index d; fs = filter (\<lambda>f. if_side f = d) (bl_inflight l) in
     bl_delivered l ! i + bl_dropped l ! i = length sent \<and> bl_marked l ! i \<le> bl_delivered l ! i
     \<and> bl_sum_queue_us l ! i \<le> bl_delivered l ! i * bl_max_queue_us l ! i
     \<and> wait_bound cfg (bl_max_queue_us l ! i)
     \<and> (\<forall>f\<in>set fs. if_order f < bl_order l
          \<and> if_deliver_at f \<le> plus_micros (bl_next_free l ! i) (bn_base_delay_us cfg))
     \<and> sorted (map due_key fs)
     \<and> (\<exists>acc. subseq acc sent \<and> length acc = bl_delivered l ! i \<and> list_all2 ce_copy acc (inbound @ wired d (bl_inflight l))))"

definition pairs :: "bottleneck_link \<Rightarrow> bool" where
  "pairs l \<longleftrightarrow> length (bl_next_free l) = 2 \<and> length (bl_sum_queue_us l) = 2 \<and> length (bl_max_queue_us l) = 2
     \<and> length (bl_delivered l) = 2 \<and> length (bl_dropped l) = 2 \<and> length (bl_marked l) = 2
     \<and> (\<forall>x\<in>set (bl_next_free l). x \<le> U64_MAX)"

definition bl_inv :: "bottleneck \<Rightarrow> bytes list \<Rightarrow> bytes list \<Rightarrow> bottleneck_link \<Rightarrow> mock_device \<Rightarrow> mock_device \<Rightarrow> bool" where
  "bl_inv cfg to_c to_s l c s \<longleftrightarrow> bl_cfg l = cfg \<and> pairs l
     \<and> lane cfg ToClient to_c (mk_inbound c) l \<and> lane cfg ToServer to_s (mk_inbound s) l"

lemma add_at_Some: "add_at xs i n = Some ys \<Longrightarrow> i < length xs \<and> ys = xs[i := xs ! i + n]"
  by (auto simp: add_at_def chk64_def split: if_splits)

lemma side_index_less: "side_index d < 2"
  by (simp add: side_index_def split: link_side.split)

lemma side_index_inj: "side_index d = side_index d' \<longleftrightarrow> d = d'"
  by (cases d; cases d') (simp_all add: side_index_def)

lemma wait_bounded:
  assumes "sat_mul64 q r div 1000000 + n \<le> b" and "b < 18446744073709"
  shows "q * r < (b + 1) * 1000000"
proof -
  have "min (q * r) U64_MAX div 1000000 < b + 1" using assms(1) by (simp add: sat_mul64_def)
  then have m: "min (q * r) U64_MAX < (b + 1) * 1000000" by (subst (asm) div_less_iff_less_mult) simp_all
  moreover have "(b + 1) * 1000000 \<le> U64_MAX" using assms(2) by (simp add: U64_MAX_def)
  ultimately show ?thesis by (simp add: min_def split: if_splits)
qed

text \<open>One enqueue: a drop, or a wait, a departure and one more frame in flight.\<close>

lemma bl_enqueue_cases:
  assumes e: "bl_enqueue l now side frame = Some l'" and p: "pairs l"
    and b: "bn_buffer_bytes (bl_cfg l) < 18446744073709"
  shows "(\<exists>d. add_at (bl_dropped l) (side_index side) 1 = Some d \<and> l' = l\<lparr>bl_dropped := d\<rparr>)
    \<or> (\<exists>q m g depart. wait_bound (bl_cfg l) q \<and> m \<le> 1 \<and> ce_copy frame g \<and> depart \<le> U64_MAX
        \<and> bl_next_free l ! side_index side \<le> depart
        \<and> l' = l\<lparr>bl_marked := (bl_marked l)[side_index side := bl_marked l ! side_index side + m],
            bl_next_free := (bl_next_free l)[side_index side := depart],
            bl_sum_queue_us := (bl_sum_queue_us l)[side_index side := bl_sum_queue_us l ! side_index side + q],
            bl_max_queue_us := (bl_max_queue_us l)[side_index side := max (bl_max_queue_us l ! side_index side) q],
            bl_delivered := (bl_delivered l)[side_index side := bl_delivered l ! side_index side + 1],
            bl_order := bl_order l + 1,
            bl_inflight := bl_inflight l @
              [\<lparr>if_deliver_at = plus_micros depart (bn_base_delay_us (bl_cfg l)), if_side = side,
                if_order = bl_order l, if_frame = g\<rparr>]\<rparr>)"
proof -
  let ?i = "side_index side"
  let ?rate = "max (bn_rate_bytes_per_sec (bl_cfg l)) 1" and ?free = "bl_next_free l ! ?i"
  let ?full = "bn_buffer_bytes (bl_cfg l) < sat_mul64 (saturating_micros_since ?free now) ?rate div 1000000 + length frame"
  show ?thesis
  proof (cases ?full)
    case True
    then show ?thesis using e by (auto simp: bl_enqueue_def Let_def)
  next
    case False
    define start where "start = (if now < ?free then ?free else now)"
    define q where "q = saturating_micros_since start now"
    define marks where "marks = ce_marks (bn_aqm (bl_cfg l)) q frame"
    define g where "g = (if marks then set_ecn frame ECN_CE else frame)"
    define depart where "depart = plus_micros start (sat_mul64 (length g) 1000000 div ?rate)"
    have "q = saturating_micros_since ?free now" by (simp add: q_def start_def saturating_micros_since_def)
    then have "wait_bound (bl_cfg l) q"
      using wait_bounded[of q ?rate "length frame" "bn_buffer_bytes (bl_cfg l)"] False b by (simp add: wait_bound_def)
    moreover have "ce_copy frame g"
      by (auto simp: ce_copy_def g_def marks_def ce_marks_def split: aqm.splits)
    moreover have "depart \<le> U64_MAX" by (simp add: depart_def plus_micros_def sat_add64_def)
    moreover have "?free \<le> U64_MAX"
      using p side_index_less[of side] by (simp add: pairs_def)
    then have "?free \<le> depart"
      by (simp add: depart_def start_def plus_micros_def sat_add64_def split: if_splits)
    moreover have "l' = l\<lparr>bl_marked := (bl_marked l)[?i := bl_marked l ! ?i + (if marks then 1 else 0)],
            bl_next_free := (bl_next_free l)[?i := depart],
            bl_sum_queue_us := (bl_sum_queue_us l)[?i := bl_sum_queue_us l ! ?i + q],
            bl_max_queue_us := (bl_max_queue_us l)[?i := max (bl_max_queue_us l ! ?i) q],
            bl_delivered := (bl_delivered l)[?i := bl_delivered l ! ?i + 1],
            bl_order := bl_order l + 1,
            bl_inflight := bl_inflight l @
              [\<lparr>if_deliver_at = plus_micros depart (bn_base_delay_us (bl_cfg l)), if_side = side,
                if_order = bl_order l, if_frame = g\<rparr>]\<rparr>"
      using e False unfolding bl_enqueue_def Let_def start_def[symmetric] q_def[symmetric] marks_def[symmetric]
      by (auto simp: bind_eq_Some_conv depart_def g_def dest!: add_at_Some)
    ultimately show ?thesis
      by (intro disjI2 exI[of _ q] exI[of _ "if marks then 1 else 0"] exI[of _ g] exI[of _ depart]) simp
  qed
qed

lemma lane_other:
  assumes "lane cfg d sent inbound l"
    and "bl_delivered l' ! side_index d = bl_delivered l ! side_index d" and "bl_dropped l' ! side_index d = bl_dropped l ! side_index d"
    and "bl_marked l' ! side_index d = bl_marked l ! side_index d"
    and "bl_sum_queue_us l' ! side_index d = bl_sum_queue_us l ! side_index d"
    and "bl_max_queue_us l' ! side_index d = bl_max_queue_us l ! side_index d"
    and "bl_next_free l' ! side_index d = bl_next_free l ! side_index d"
    and "filter (\<lambda>f. if_side f = d) (bl_inflight l') = filter (\<lambda>f. if_side f = d) (bl_inflight l)"
    and "bl_order l \<le> bl_order l'"
  shows "lane cfg d sent inbound l'"
  using assms unfolding lane_def Let_def wired_def by (auto intro: less_le_trans)

lemma lane_drop:
  assumes "lane cfg d sent inbound l" and "add_at (bl_dropped l) (side_index d) 1 = Some xs"
  shows "lane cfg d (sent @ [frame]) inbound (l\<lparr>bl_dropped := xs\<rparr>)"
proof -
  obtain acc where "subseq acc sent" "length acc = bl_delivered l ! side_index d"
    "list_all2 ce_copy acc (inbound @ wired d (bl_inflight l))" using assms(1) by (auto simp: lane_def Let_def)
  then have "\<exists>acc. subseq acc (sent @ [frame]) \<and> length acc = bl_delivered l ! side_index d
      \<and> list_all2 ce_copy acc (inbound @ wired d (bl_inflight l))"
    by (intro exI[of _ acc]) (auto intro: list_emb_append2)
  then show ?thesis using assms(1) add_at_Some[OF assms(2)] by (simp add: lane_def Let_def)
qed

lemma lane_accept:
  assumes p: "pairs l" and l: "lane cfg d sent inbound l" and q: "wait_bound cfg q" and m: "m \<le> 1" and c: "ce_copy frame g"
    and dep: "depart \<le> U64_MAX" "bl_next_free l ! side_index d \<le> depart" and cfg: "bl_cfg l = cfg"
    and l': "l' = l\<lparr>bl_marked := (bl_marked l)[side_index d := bl_marked l ! side_index d + m],
            bl_next_free := (bl_next_free l)[side_index d := depart],
            bl_sum_queue_us := (bl_sum_queue_us l)[side_index d := bl_sum_queue_us l ! side_index d + q],
            bl_max_queue_us := (bl_max_queue_us l)[side_index d := max (bl_max_queue_us l ! side_index d) q],
            bl_delivered := (bl_delivered l)[side_index d := bl_delivered l ! side_index d + 1],
            bl_order := bl_order l + 1,
            bl_inflight := bl_inflight l @
              [\<lparr>if_deliver_at = plus_micros depart (bn_base_delay_us (bl_cfg l)), if_side = d,
                if_order = bl_order l, if_frame = g\<rparr>]\<rparr>"
  shows "lane cfg d (sent @ [frame]) inbound l'"
proof -
  let ?i = "side_index d" and ?fs = "filter (\<lambda>f. if_side f = d) (bl_inflight l)"
  let ?n = "\<lparr>if_deliver_at = plus_micros depart (bn_base_delay_us cfg), if_side = d, if_order = bl_order l, if_frame = g\<rparr>"
  have i: "?i < length (bl_next_free l)" "?i < length (bl_sum_queue_us l)" "?i < length (bl_max_queue_us l)"
    "?i < length (bl_delivered l)" "?i < length (bl_marked l)"
    using p side_index_less[of d] by (simp_all add: pairs_def)
  have v: "bl_delivered l' ! ?i = bl_delivered l ! ?i + 1" "bl_dropped l' = bl_dropped l" "bl_marked l' ! ?i = bl_marked l ! ?i + m"
    "bl_sum_queue_us l' ! ?i = bl_sum_queue_us l ! ?i + q" "bl_max_queue_us l' ! ?i = max (bl_max_queue_us l ! ?i) q"
    "bl_next_free l' ! ?i = depart" "bl_order l' = bl_order l + 1" "bl_inflight l' = bl_inflight l @ [?n]"
    using i cfg by (simp_all add: l')
  have fs: "filter (\<lambda>f. if_side f = d) (bl_inflight l') = ?fs @ [?n]" by (simp add: v)
  have b: "if_order f < bl_order l \<and> if_deliver_at f \<le> plus_micros depart (bn_base_delay_us cfg)" if "f \<in> set ?fs" for f
    using l that plus_micros_le[OF dep(2), of "bn_base_delay_us cfg"] unfolding lane_def Let_def by (meson le_trans)
  have "sorted (map due_key (?fs @ [?n]))"
    using l b by (auto simp: lane_def Let_def sorted_append due_key_def less_imp_le le_less)
  moreover have "\<forall>f\<in>set (?fs @ [?n]). if_order f < bl_order l + 1 \<and> if_deliver_at f \<le> plus_micros depart (bn_base_delay_us cfg)"
    using b by (auto simp: less_Suc_eq)
  moreover have "bl_sum_queue_us l ! ?i + q \<le> (bl_delivered l ! ?i + 1) * max (bl_max_queue_us l ! ?i) q"
  proof -
    have "bl_sum_queue_us l ! ?i \<le> bl_delivered l ! ?i * bl_max_queue_us l ! ?i" using l by (simp add: lane_def Let_def)
    also have "\<dots> \<le> bl_delivered l ! ?i * max (bl_max_queue_us l ! ?i) q" by (intro mult_le_mono2) simp
    finally show ?thesis by simp
  qed
  moreover have "wait_bound cfg (max (bl_max_queue_us l ! ?i) q)" using l q by (simp add: lane_def Let_def max_def)
  moreover obtain acc where a: "subseq acc sent" "length acc = bl_delivered l ! ?i"
    "list_all2 ce_copy acc (inbound @ wired d (bl_inflight l))" using l by (auto simp: lane_def Let_def)
  moreover have "subseq (acc @ [frame]) (sent @ [frame])" using a(1) by (simp add: list_emb_append_mono)
  moreover have "list_all2 ce_copy (acc @ [frame]) (inbound @ wired d (bl_inflight l'))"
    using a(3) c by (simp add: wired_def v(8) list_all2_appendI flip: append_assoc)
  ultimately show ?thesis using l m unfolding lane_def Let_def v(1-7) fs
    by (intro conjI exI[of _ "acc @ [frame]"]) simp_all
qed

lemma bl_enqueue_inv:
  assumes e: "bl_enqueue l now side frame = Some l'" and i: "bl_inv cfg to_c to_s l c s"
    and b: "bn_buffer_bytes cfg < 18446744073709"
  shows "bl_inv cfg (to_c @ (if side = ToClient then [frame] else [])) (to_s @ (if side = ToServer then [frame] else [])) l' c s"
proof -
  have p: "bl_cfg l = cfg" "pairs l" using i by (simp_all add: bl_inv_def)
  have ln: "lane cfg d (if d = ToClient then to_c else to_s) (mk_inbound (if d = ToClient then c else s)) l" for d
    using i by (cases d) (simp_all add: bl_inv_def)
  have other: "side_index d \<noteq> side_index side" if "d \<noteq> side" for d using that by (simp add: side_index_inj)
  from bl_enqueue_cases[OF e p(2)] b p(1) consider
    (drop) d where "add_at (bl_dropped l) (side_index side) 1 = Some d" "l' = l\<lparr>bl_dropped := d\<rparr>"
  | (accept) q m g depart where "wait_bound cfg q" "m \<le> 1" "ce_copy frame g" "depart \<le> U64_MAX"
        "bl_next_free l ! side_index side \<le> depart"
        "l' = l\<lparr>bl_marked := (bl_marked l)[side_index side := bl_marked l ! side_index side + m],
            bl_next_free := (bl_next_free l)[side_index side := depart],
            bl_sum_queue_us := (bl_sum_queue_us l)[side_index side := bl_sum_queue_us l ! side_index side + q],
            bl_max_queue_us := (bl_max_queue_us l)[side_index side := max (bl_max_queue_us l ! side_index side) q],
            bl_delivered := (bl_delivered l)[side_index side := bl_delivered l ! side_index side + 1],
            bl_order := bl_order l + 1,
            bl_inflight := bl_inflight l @
              [\<lparr>if_deliver_at = plus_micros depart (bn_base_delay_us (bl_cfg l)), if_side = side,
                if_order = bl_order l, if_frame = g\<rparr>]\<rparr>"
    by blast
  then show ?thesis
  proof cases
    case drop
    note x = add_at_Some[OF drop(1)]
    have "lane cfg side ((if side = ToClient then to_c else to_s) @ [frame]) (mk_inbound (if side = ToClient then c else s)) l'"
      unfolding drop(2) by (rule lane_drop[OF ln drop(1)])
    moreover have "lane cfg d (if d = ToClient then to_c else to_s) (mk_inbound (if d = ToClient then c else s)) l'" if "d \<noteq> side" for d
      by (rule lane_other[OF ln]) (use x other[OF that] in \<open>simp_all add: drop(2)\<close>)
    moreover have "pairs l'" using p(2) x by (simp add: pairs_def drop(2))
    ultimately show ?thesis using p(1) side_not by (cases side) (simp_all add: bl_inv_def drop(2))
  next
    case accept
    have "lane cfg side ((if side = ToClient then to_c else to_s) @ [frame]) (mk_inbound (if side = ToClient then c else s)) l'"
      by (rule lane_accept[OF p(2) ln accept(1-5) p(1) accept(6)])
    moreover have "lane cfg d (if d = ToClient then to_c else to_s) (mk_inbound (if d = ToClient then c else s)) l'" if "d \<noteq> side" for d
      by (rule lane_other[OF ln]) (use other[OF that] that in \<open>simp_all add: accept(6)\<close>)
    moreover have "pairs l'" using p(2) accept(4) set_update_subset_insert[of "bl_next_free l" "side_index side" depart]
      by (auto simp: pairs_def accept(6))
    moreover have "bl_cfg l' = cfg" using p(1) by (simp add: accept(6))
    ultimately show ?thesis using side_not by (cases side) (simp_all add: bl_inv_def)
  qed
qed

lemma bl_flush_inv:
  assumes f: "bl_deliver_due l now c s = (l', c', s')" and i: "bl_inv cfg to_c to_s l c s"
  shows "bl_inv cfg to_c to_s l' c' s'"
proof -
  obtain keep where k: "flush_due (bl_inflight l) now c s = (keep, c', s')" and l': "l' = l\<lparr>bl_inflight := keep\<rparr>"
    using f by (auto simp: bl_deliver_due_def split: prod.splits)
  have "sorted (map due_key (filter (\<lambda>f. if_side f = d) (bl_inflight l)))" for d
    using i by (cases d) (simp_all add: bl_inv_def lane_def Let_def)
  note v = flush_fifo[OF k this]
  have sub: "set keep \<subseteq> set (bl_inflight l)" unfolding v(1) by auto
  have st: "lane cfg d sent (mk_inbound x') l'" if "lane cfg d sent (mk_inbound x) l"
    and "mk_inbound x' @ wired d keep = mk_inbound x @ wired d (bl_inflight l)" for d sent x x'
    using that sub v(4)[of d] unfolding lane_def Let_def l' by (simp add: subset_iff)
  show ?thesis
    using i st[of ToClient to_c c c', OF _ v(2)] st[of ToServer to_s s s', OF _ v(3)]
    by (simp add: bl_inv_def l' pairs_def)
qed

lemma bl_run_inv:
  assumes "bl_run evs l c s = Some (l', c', s')" and "bl_inv cfg to_c to_s l c s"
    and "bn_buffer_bytes cfg < 18446744073709"
  shows "bl_inv cfg (to_c @ sent_to ToClient evs) (to_s @ sent_to ToServer evs) l' c' s'"
  using assms
proof (induction evs arbitrary: l c s to_c to_s)
  case Nil
  then show ?case by (simp add: sent_to_def map_filter_simps)
next
  case (Cons ev evs)
  show ?case
  proof (cases ev)
    case (Sent now side frame)
    then obtain l1 where l1: "bl_enqueue l now side frame = Some l1" "bl_run evs l1 c s = Some (l', c', s')"
      using Cons.prems(1) by (auto simp: bind_eq_Some_conv)
    from Cons.IH[OF l1(2) bl_enqueue_inv[OF l1(1) Cons.prems(2,3)] Cons.prems(3)] show ?thesis
      by (cases side) (simp_all add: Sent sent_to_def map_filter_simps)
  next
    case (Flushed now)
    obtain l1 c1 s1 where f: "bl_deliver_due l now c s = (l1, c1, s1)" by (metis prod_cases3)
    then have "bl_run evs l1 c1 s1 = Some (l', c', s')" using Cons.prems(1) Flushed by simp
    from Cons.IH[OF this bl_flush_inv[OF f Cons.prems(2)] Cons.prems(3)] show ?thesis
      by (simp add: Flushed sent_to_def map_filter_simps)
  qed
qed

lemma bl_new_inv: "bl_inv cfg [] [] (bl_new cfg) mock_new mock_new"
  by (auto simp: bl_inv_def bl_new_def pairs_def lane_def Let_def side_index_def mock_new_def wired_def wait_bound_def)

section \<open>The property of the bottleneck\<close>

text \<open>
  C40: the buffer bounds the queueing delay. Over any run, with any clock, in each direction the
  delivered and the dropped frames add up to the sent ones, at most the delivered ones are
  marked, the mean wait is at most the longest, and the longest times the service rate stays
  below the buffer (plus the rounding of one byte); what has arrived and is still propagating
  is, in order, a subsequence of what was sent, each frame unchanged or with CE set where the sender was
  ECN-capable. The buffer is below the size at which the backlog computation saturates (18 TB).
\<close>

theorem bottleneck_bounds_the_wait:
  assumes "bl_run evs (bl_new cfg) mock_new mock_new = Some (l, client, server)"
    and "bn_buffer_bytes cfg < 18446744073709"
  shows "qs_delivered (bl_stats l d) + qs_dropped (bl_stats l d) = length (sent_to d evs)
    \<and> qs_marked (bl_stats l d) \<le> qs_delivered (bl_stats l d)
    \<and> qs_mean_queue_us (bl_stats l d) \<le> qs_max_queue_us (bl_stats l d)
    \<and> qs_max_queue_us (bl_stats l d) * max (bn_rate_bytes_per_sec cfg) 1 < (bn_buffer_bytes cfg + 1) * 1000000
    \<and> (\<exists>acc. subseq acc (sent_to d evs) \<and> length acc = qs_delivered (bl_stats l d)
        \<and> list_all2 ce_copy acc (mk_inbound (if d = ToClient then client else server) @ wired d (bl_inflight l)))"
proof -
  have "lane cfg d (sent_to d evs) (mk_inbound (if d = ToClient then client else server)) l"
    using bl_run_inv[OF assms(1) bl_new_inv assms(2)] by (cases d) (simp_all add: bl_inv_def)
  then show ?thesis
    using div_le_mono[of "bl_sum_queue_us l ! side_index d" "bl_delivered l ! side_index d * bl_max_queue_us l ! side_index d"
        "bl_delivered l ! side_index d"]
    by (simp add: lane_def Let_def bl_stats_def wait_bound_def split: if_splits)
qed

definition slow_link :: bottleneck where
  "slow_link = \<lparr>bn_rate_bytes_per_sec = 1000, bn_buffer_bytes = 30, bn_base_delay_us = 100, bn_aqm = CeMark 1000\<rparr>"

definition ect_frame :: bytes where
  "ect_frame = 0x45 # 2 # replicate 18 0"

lemma slow_run:
  "\<exists>l c s. bl_run [Sent 0 ToServer ect_frame, Sent 0 ToServer ect_frame, Sent 15000 ToServer ect_frame, Flushed 30000]
     (bl_new slow_link) mock_new mock_new = Some (l, c, s)
   \<and> bl_stats l ToServer = \<lparr>qs_max_queue_us = 5000, qs_mean_queue_us = 2500, qs_delivered = 2, qs_dropped = 1, qs_marked = 1\<rparr>
   \<and> mk_inbound s = [ect_frame]"
proof -
  have f: "length ect_frame = 20" "frame_is_ect ect_frame" "ECN_CE = 3"
    by (simp_all add: ect_frame_def frame_is_ect_def ECN_ECT0_def ECN_CE_def)
  show ?thesis
    by (simp add: f bl_enqueue_def bl_new_def slow_link_def Let_def side_index_def saturating_micros_since_def sat_mul64_def
        U64_MAX_def add_at_def chk64_def ce_marks_def plus_micros_def sat_add64_def bl_deliver_due_def flush_due_def
        inject_fold mock_new_def due_key_def bl_stats_def flip: numeral_2_eq_2)
qed

theorem bottleneck_bounds_the_wait_witness:
  "\<exists>l c s. bl_run [Sent 0 ToServer ect_frame, Sent 0 ToServer ect_frame, Sent 15000 ToServer ect_frame, Flushed 30000]
     (bl_new slow_link) mock_new mock_new = Some (l, c, s)
   \<and> qs_max_queue_us (bl_stats l ToServer) = 5000
   \<and> qs_max_queue_us (bl_stats l ToServer) * 1000 < 31 * 1000000"
proof -
  let ?evs = "[Sent 0 ToServer ect_frame, Sent 0 ToServer ect_frame, Sent 15000 ToServer ect_frame, Flushed 30000]"
  obtain l c s where r: "bl_run ?evs (bl_new slow_link) mock_new mock_new = Some (l, c, s)"
    and "qs_max_queue_us (bl_stats l ToServer) = 5000" using slow_run by auto
  moreover have "bn_buffer_bytes slow_link < 18446744073709" by (simp add: slow_link_def)
  ultimately show ?thesis using bottleneck_bounds_the_wait[OF r, of ToServer]
    by (intro exI[of _ l] exI[of _ c] exI[of _ s]) (simp add: slow_link_def)
qed

end
