(* ===== verification/Spec2Isabelle.thy ===== *)
theory Spec2Isabelle
  imports Seq_Number Clock Ring_Buffer Rtt_Estimator Sack_Recovery Reassembly Icmp_Wire Tcp_Wire Isn Congestion
    End_To_End Diagram_Events Give_Up Edge_Cases Stack Turn Recycled
    Bmc_Scoreboard Bmc_Clean Bmc_Split Bmc_Options Synthesis_Exhaust
    Sim_Corruption Sim_Bottleneck
begin

text \<open>
  A verification development for the user-space TCP/IP stack in \<open>src/\<close>: the sans-IO protocol
  engine \<open>tcp-core\<close> and the HTTP server of \<open>tcp-tun\<close>. This theory imports all others and
  holds no definition of its own; what follows says where everything is.

  \<^bold>\<open>The program.\<close> A datagram read from a device enters \<open>Stack::on_recv\<close> (\<open>iface.rs\<close>), which
  parses it with the wire layer (\<open>wire/\<close>), answers ICMP echoes, resets unknown segments, opens a
  passive connection for a SYN to the listening port, and otherwise hands the segment to the
  connection of its four-tuple, \<open>Tcb::on_segment\<close> (\<open>tcb.rs\<close>). The connection keeps its send
  queue and receive ring (\<open>buffers.rs\<close>), the out-of-order buffer (\<open>reasm.rs\<close>), the SACK
  scoreboard (\<open>sack.rs\<close>), the RTT estimator (\<open>rtt.rs\<close>) and a congestion controller
  (\<open>congestion.rs\<close>, \<open>bbr.rs\<close>), all on an injected clock (\<open>time.rs\<close>) and serial 32-bit
  sequence numbers (\<open>seq.rs\<close>); initial sequence numbers are a keyed hash (\<open>isn.rs\<close>).
  \<open>poll_transmit\<close> gives the datagrams to send, \<open>on_timer\<close> and \<open>poll_at\<close> run the timers. The
  runtime (\<open>runtime/\<close>) turns this into asynchronous sockets: a turn reads the device, fires the
  timers, wakes the tasks whose sockets are ready, polls the woken tasks, and flushes. The tasks
  are those of the HTTP server (\<open>tcp-tun/src/http.rs\<close>). Beside the stack stand a bounded model
  checker (\<open>bmc.rs\<close>) and a simulator with trainers and a verified synthesis of control laws
  (\<open>sim.rs\<close>).

  \<^bold>\<open>Conventions\<close> (\<open>Prelude\<close>). Sequence numbers and wire fields are words of their width, a
  byte list is a \<open>Vec<u8>\<close> or slice, counts, windows and times are natural numbers with the
  saturation, wrap-around or overflow of the source written out. A function that can panic, or
  whose loop may not end, has an \<open>option\<close> result, and \<open>None\<close> is the panic or the divergence;
  parse errors are the left of a sum. A struct is a record, \<open>&mut self\<close> is the record returned.
  \<open>f64\<close> is the type of \<open>F64\<close>: dyadic rationals rounded to 53 bits, infinities and NaN.

  \<^bold>\<open>Theories and sources.\<close>
  \<^item> \<open>Seq_Number\<close>: \<open>seq.rs\<close>. \<open>Clock\<close>: \<open>time.rs\<close>. \<open>Ring_Buffer\<close>: \<open>buffers.rs\<close>.
    \<open>Rtt_Estimator\<close>: \<open>rtt.rs\<close>. \<open>Sack_Scoreboard\<close>, \<open>Sack_Recovery\<close>: \<open>sack.rs\<close>.
    \<open>Reassembly\<close>: \<open>reasm.rs\<close>. \<open>Isn\<close>: \<open>isn.rs\<close>.
  \<^item> \<open>Checksum\<close>, \<open>Ipv4_Wire\<close>, \<open>Icmp_Wire\<close>, \<open>Tcp_Wire\<close>: the files of \<open>wire/\<close>;
    \<open>Segment_Build\<close>: \<open>build_segment\<close> of \<open>iface.rs\<close>.
  \<^item> \<open>Cc_Interface\<close> (the trait \<open>CongestionControl\<close>), \<open>Reno\<close>, \<open>Cubic\<close>, \<open>Dctcp\<close>, \<open>Prague\<close>,
    \<open>Learned\<close>, \<open>Synth\<close> and \<open>Congestion\<close> (the dispatch \<open>Cc\<close>): \<open>congestion.rs\<close>;
    \<open>Bbr\<close>: \<open>bbr.rs\<close>.
  \<^item> \<open>Tcb_State\<close>, \<open>Tcb_Input\<close>, \<open>Tcb_Output\<close>: the data, the inbound and the outbound path of
    \<open>tcb.rs\<close>; \<open>State_Diagram\<close>, \<open>Reset_Flag\<close> and \<open>Diagram_Events\<close> relate them to \<open>state.rs\<close> and
    RFC 793, with the event behind every edge. \<open>Tcb_Receive\<close>, \<open>Tcb_Emit\<close>,
    \<open>Tcb_Invariant\<close>, \<open>Tcb_Segment\<close>, \<open>Tcb_Transmit\<close> and \<open>Tcb_Life\<close> prove the invariant
    \<open>tcb_inv\<close> and that no handler panics; \<open>Samples\<close> has concrete connections.
  \<^item> End to end, over the same definitions: \<open>Receive_Path\<close> (a connection against any peer that
    sends pieces of a byte stream), \<open>Send_Path\<close>, \<open>Send_Segments\<close> and \<open>Send_Stream\<close> (the send
    queue as a window on what the application wrote, and every datagram of \<open>poll_transmit\<close> as a
    piece of it), \<open>Receive_Stream\<close> (a connection against a peer that runs this code),
    \<open>Conversation\<close> (two connections and a network as a step relation, with its invariant) and
    \<open>End_To_End\<close> (its theorems and a concrete conversation).
  \<^item> \<open>Iface\<close>, \<open>Stack\<close>: \<open>iface.rs\<close>. \<open>Sockets\<close>: \<open>runtime/socket.rs\<close> and
    \<open>runtime/reactor.rs\<close>; \<open>Executor\<close>: \<open>runtime/executor.rs\<close>; \<open>Runtime\<close>, \<open>Turn\<close>:
    \<open>runtime/mod.rs\<close> (\<open>Recycled\<close> follows two turns in which a port is reused); \<open>Http\<close>, \<open>Http_Server\<close>: \<open>tcp-tun/src/http.rs\<close> and the server part of
    \<open>main.rs\<close>.
  \<^item> \<open>Bmc\<close>, \<open>Bmc_Scoreboard\<close>, \<open>Bmc_Controller\<close>, \<open>Bmc_Clean\<close>, \<open>Bmc_Split\<close>,
    \<open>Bmc_Options\<close>: \<open>bmc.rs\<close>.
    \<open>Rng\<close>, \<open>Synthesis\<close>, \<open>Synth_Sweep\<close>, \<open>Synthesis_Safe\<close>, \<open>Synthesis_Search\<close>,
    \<open>Synthesis_Exhaust\<close>: the generator and the synthesis of \<open>sim.rs\<close>.
    \<open>Sim_Link\<close> (the fault link \<open>Link\<close> and \<open>flush_due\<close>), \<open>Sim_Bottleneck\<close> (\<open>BottleneckLink\<close>):
    the virtual links of \<open>sim.rs\<close>; \<open>Sim_Corruption\<close> follows a corrupted frame into
    \<open>Stack::on_recv\<close>.

  \<^bold>\<open>Interfaces.\<close> Each contract is a locale with an interpretation on the model's definitions:
  \<open>serial_window\<close> (serial order inside a window; \<open>sw\<close>), \<open>byte_fifo\<close> (\<open>rbq\<close>, the ring
  buffer), \<open>ooo_buffer\<close> (\<open>rq\<close>, the reassembly buffer), \<open>congestion_control\<close> and
  \<open>loss_based_control\<close> (one interpretation per controller, and \<open>any_cc\<close>, \<open>loss_cc\<close> for the
  dispatch), \<open>tasks\<close> and \<open>finite_tasks\<close> (\<open>http\<close>, the server's tasks for the executor),
  \<open>packet_device\<close> (\<open>mock\<close>), \<open>sweep\<close> (\<open>sb_sweep\<close>, \<open>cc_sweep\<close>), \<open>byte_counting\<close>
  (\<open>cc_bytes\<close>).

  \<^bold>\<open>What is shown.\<close> The properties carry the ids C1 to C40 in front of their theorems.
  \<^item> Two connections of this code over a network that loses, repeats, delays and reorders
    datagrams and injects resets (\<open>conversation\<close>): what either application reads is a prefix of
    what the other wrote, end of file means all of it, and nothing either of them sends makes the
    other panic. Here the segments are not assumed legal: that is proved.
  \<^item> The connection: it never panics and every loop of it ends, in every state it can reach; it
    takes exactly the edges of the state diagram of RFC 793 that its segments, FINs and timers
    give it, and misses no event of a segment it processes; what it emits is well formed; a poll cannot go on for
    ever; its advertised window never retreats; a silent peer is given up; only an exact reset
    closes it; in-order delivery against any peer that sends pieces of one stream. Two theorems record where the
    code loses a segment it should not lose.
  \<^item> The stack and the runtime: a stack keeps one reachable connection per key and a datagram
    reaches at most its own; a turn of the runtime returns, leaves no woken task and no closed
    connection; no wake-up is lost and every connection is accepted once; three theorems show
    calls that can wait for ever or take over another's connection.
  \<^item> The data structures against reference definitions: ring buffer and reassembly against byte
    streams and maps, scoreboard estimates against counted octets, checksum against the sum modulo
    65535, wire formats by round trips, serial arithmetic against integers, RTO bounds.
  \<^item> The controllers: every sequence of calls of their trait returns within their invariants. The checker: its
    sweeps are exhaustive and find nothing at any depth, on the scoreboard, the controllers, the
    genome grid and the option strings, and no division of ACKs inflates a window (except from a stated state). The
    synthesis: repair converges, evolved laws are safe, the exhaustive search is optimal.
  \<^item> The virtual links: the fault link forges nothing, counts every frame and is a FIFO when it has
    no faults; a frame it corrupts is found by the TCP checksum, except that a segment whose
    checksum is zero is not checked at all (a theorem on a concrete datagram); the bottleneck
    delivers in order and bounds every wait by its buffer.

  \<^bold>\<open>Hypotheses and bounds.\<close> For a single connection, a peer's segment is \<open>legal_segment\<close>: a payload of at most 65535
  bytes, no MSS option of 0, and a sequence number for which the serial comparisons are exact
  (\<open>seg_near\<close>, implied unless in-order data has run past the advertised edge); a conversation
  has no such hypothesis, but each side writes fewer than \<open>2\<^sup>3\<^sup>0 - 2\<close> bytes. The MSS given to a
  connection is between 1 and 65495, so that a segment fits an IPv4 datagram. Every timeout is
  counted and there are fewer than \<open>2\<^sup>3\<^sup>2 - 1\<close>. CUBIC is excluded from the connection's invariant
  because its cube-root arithmetic has no bound that keeps the window a \<open>u32\<close>; it has its own
  theory. Windows of serial arithmetic have fewer than \<open>2\<^sup>3\<^sup>1\<close> octets. The checker depths for
  synthesised laws satisfy \<open>(10 + depth) * mss \<le> SYNTH_CWND_CAP\<close>, that is, the sweep stays below
  the 1 GiB cap. There is no fuel: recursion over depth or steps is structural, other loops are
  functions with a termination proof or \<open>partial_function (option)\<close>s proved to return.

  \<^bold>\<open>Not modelled.\<close> The TUN device, its ioctl, poll and the io_uring rings (\<open>tun.rs\<close>,
  \<open>sys.rs\<close>, \<open>iou.rs\<close>): system calls and shared memory. Argument parsing, the client and the
  endless loop of \<open>main.rs\<close> and \<open>Runtime::run\<close>. Of \<open>sim.rs\<close>, the scenario runners (they
  drive two whole runtimes to the end of a transfer), the dual-queue and the adversarial link,
  the coverage map and fuzzer, the cross-entropy trainer, and the adversary, co-evolution and
  certificate searches. The failed \<open>Weak\<close> upgrade of a spawner whose
  executor is gone, and the wrap of a 64-bit task id. Formatting (\<open>Debug\<close>, messages) and
  accessors used by tests only.
\<close>

end
